(* ===== verification/Prelude.thy ===== *)
theory Prelude
  imports Main "HOL-Library.Monad_Syntax"
begin

text \<open>
  Shared vocabulary of the development: strings as the editor sees them (lists of
  UTF-16 code units), the array operations of the standard library that the sources use
  (\<open>slice\<close>, \<open>splice\<close>, \<open>indexOf\<close>, \<open>join\<close>), the collections that gather the facts the
  components share, and generic lemmas on lists and sums.
\<close>

named_theorems js_array \<open>facts on the array operations\<close>
named_theorems doc_simps \<open>projections of document updates\<close>

section \<open>Strings and arrays\<close>

type_synonym jstr = "nat list"

definition js :: "string \<Rightarrow> jstr" where
  "js s = map of_char s"

definition code :: "char \<Rightarrow> nat" where
  "code c = of_char c"

text \<open>\<open>lst\<close> of codemirror.js: the last element of an array, undefined for an empty one.\<close>

definition lst :: "'a list \<Rightarrow> 'a option" where
  "lst arr = (if arr = [] then None else Some (arr ! (length arr - 1)))"

text \<open>
  \<open>Array.prototype.slice\<close> and \<open>String.prototype.slice\<close>: negative bounds count from the end,
  both bounds are clipped to the array.
\<close>

definition rel_index :: "nat \<Rightarrow> int \<Rightarrow> nat" where
  "rel_index n i = (if i < 0 then nat (max (int n + i) 0) else min (nat i) n)"

definition slice :: "int \<Rightarrow> int \<Rightarrow> 'a list \<Rightarrow> 'a list" where
  "slice a b xs =
     (let f = rel_index (length xs) a; t = rel_index (length xs) b in take (t - f) (drop f xs))"

definition slice_from :: "int \<Rightarrow> 'a list \<Rightarrow> 'a list" where
  "slice_from a xs = drop (rel_index (length xs) a) xs"

text \<open>\<open>xs.splice(i, n, ys...)\<close>, with the array after the call.\<close>

definition splice :: "nat \<Rightarrow> nat \<Rightarrow> 'a list \<Rightarrow> 'a list \<Rightarrow> 'a list" where
  "splice i n ys xs = take i xs @ ys @ drop (i + n) xs"

text \<open>\<open>indexOf\<close> of codemirror.js: the first index of an element, -1 when absent.\<close>

fun index_from :: "nat \<Rightarrow> 'a list \<Rightarrow> 'a \<Rightarrow> int" where
  "index_from i [] y = -1"
| "index_from i (x # xs) y = (if x = y then int i else index_from (Suc i) xs y)"

definition indexOf :: "'a list \<Rightarrow> 'a \<Rightarrow> int" where
  "indexOf arr elt = index_from 0 arr elt"

text \<open>\<open>lines.join(sep)\<close>.\<close>

fun join :: "'a list \<Rightarrow> 'a list list \<Rightarrow> 'a list" where
  "join sep [] = []"
| "join sep [x] = x"
| "join sep (x # y # ys) = x @ sep @ join sep (y # ys)"

section \<open>Facts on arrays\<close>

lemma lst_Nil [simp]: "lst [] = None"
  by (simp add: lst_def)

lemma lst_snoc [simp]: "lst (xs @ [x]) = Some x"
  by (simp add: lst_def nth_append)

lemma lst_conv: "xs \<noteq> [] \<Longrightarrow> lst xs = Some (last xs)"
  by (simp add: lst_def last_conv_nth)

lemma lst_None_iff [simp]: "lst xs = None \<longleftrightarrow> xs = []"
  by (simp add: lst_def)

lemma slice_nonneg:
  "0 \<le> a \<Longrightarrow> 0 \<le> b \<Longrightarrow> slice a b xs = take (nat b - nat a) (drop (nat a) xs)"
  by (auto simp: slice_def rel_index_def Let_def min_def)

lemma slice_0 [simp]: "0 \<le> b \<Longrightarrow> slice 0 b xs = take (nat b) xs"
  by (simp add: slice_nonneg)

lemma slice_from_nonneg: "0 \<le> a \<Longrightarrow> slice_from a xs = drop (nat a) xs"
  by (auto simp: slice_from_def rel_index_def min_def)

lemma slice_from_0 [simp]: "slice_from 0 xs = xs"
  by (simp add: slice_from_nonneg)

lemma length_splice [js_array]:
  "i + n \<le> length xs \<Longrightarrow> length (splice i n ys xs) = length xs + length ys - n"
  by (simp add: splice_def)

lemma splice_append_prefix [js_array]:
  "i = length as \<Longrightarrow> splice i n ys (as @ xs) = as @ ys @ drop n xs"
  by (simp add: splice_def)

lemma index_from_range: "index_from i xs y = -1 \<or> int i \<le> index_from i xs y \<and> index_from i xs y < int (i + length xs)"
  by (induction i xs y rule: index_from.induct) auto

lemma index_from_notin: "y \<notin> set xs \<Longrightarrow> index_from i xs y = -1"
  by (induction xs arbitrary: i) auto

lemma index_from_in:
  "y \<in> set xs \<Longrightarrow> int i \<le> index_from i xs y \<and> index_from i xs y < int (i + length xs)
     \<and> xs ! nat (index_from i xs y - int i) = y"
proof (induction xs arbitrary: i)
  case Nil
  then show ?case by simp
next
  case (Cons x xs)
  show ?case
  proof (cases "x = y")
    case True
    then show ?thesis by simp
  next
    case False
    with Cons.prems have "y \<in> set xs" by simp
    note * = Cons.IH [OF this, of "Suc i"]
    then have "int (Suc i) \<le> index_from (Suc i) xs y"
      "index_from (Suc i) xs y < int (Suc i + length xs)"
      "xs ! nat (index_from (Suc i) xs y - int (Suc i)) = y" by blast+
    moreover from this have "nat (index_from (Suc i) xs y - int i)
        = Suc (nat (index_from (Suc i) xs y - int (Suc i)))" by linarith
    ultimately show ?thesis using False by auto
  qed
qed

lemma indexOf_notin [js_array]: "y \<notin> set xs \<Longrightarrow> indexOf xs y = -1"
  by (simp add: indexOf_def index_from_notin)

lemma indexOf_in [js_array]:
  "y \<in> set xs \<Longrightarrow> 0 \<le> indexOf xs y \<and> indexOf xs y < int (length xs) \<and> xs ! nat (indexOf xs y) = y"
  using index_from_in [of y xs 0] by (simp add: indexOf_def)

lemma indexOf_neg_iff: "indexOf xs y = -1 \<longleftrightarrow> y \<notin> set xs"
  using indexOf_in [of y xs] indexOf_notin [of y xs] by force

lemma join_append: "xs \<noteq> [] \<Longrightarrow> ys \<noteq> [] \<Longrightarrow> join sep (xs @ ys) = join sep xs @ sep @ join sep ys"
proof (induction xs)
  case (Cons x xs)
  then show ?case by (cases xs; cases ys) auto
qed simp

lemma join_Cons: "xs \<noteq> [] \<Longrightarrow> join sep (x # xs) = x @ sep @ join sep xs"
  by (cases xs) auto

section \<open>Sums over lists\<close>

lemma sum_list_map_concat:
  "sum_list (map f (concat xss)) = sum_list (map (\<lambda>xs. sum_list (map f xs)) xss)"
  by (induction xss) simp_all

lemma sum_list_splice [js_array]:
  fixes f :: "'a \<Rightarrow> int"
  assumes "i + n \<le> length xs"
  shows "sum_list (map f (splice i n ys xs))
       = sum_list (map f xs) + sum_list (map f ys) - sum_list (map f (take n (drop i xs)))"
proof -
  have "xs = take i xs @ take n (drop i xs) @ drop (i + n) xs"
    by (metis append_take_drop_id drop_drop add.commute)
  then have "sum_list (map f xs) = sum_list (map f (take i xs))
      + sum_list (map f (take n (drop i xs))) + sum_list (map f (drop (i + n) xs))"
    by (metis add.assoc map_append sum_list_append)
  then show ?thesis by (simp add: splice_def)
qed

end
