(* ===== verification/LineTree.thy ===== *)
theory LineTree
  imports Prelude
begin

text \<open>
  The line store of codemirror.js: line objects and the B-tree of \<open>LeafChunk\<close>s and
  \<open>BranchChunk\<close>s that holds them, with the operations on it (\<open>insertInner\<close>, \<open>removeInner\<close>,
  \<open>maybeSpill\<close>, \<open>iterN\<close>, \<open>getLine\<close>, \<open>lineNo\<close>, \<open>lineAtHeight\<close>, \<open>heightAtLine\<close>,
  \<open>updateLineHeight\<close>), the invariant they keep and their meaning on the list of lines.
\<close>

section \<open>Lines and chunks\<close>

text \<open>
  A marked span refers to its marker object, here by the marker's id; a missing end is
  \<open>None\<close> (null in the code). A line object is told apart by \<open>lid\<close>; a line without spans
  (null) has the empty list. Heights are whole numbers of pixels.
\<close>

record mspan =
  smarker :: nat
  sfrom :: "int option"
  sto :: "int option"

record jsline =
  lid :: nat
  ltext :: jstr
  lspans :: "mspan list"
  lheight :: int

definition MarkedSpan :: "nat \<Rightarrow> int option \<Rightarrow> int option \<Rightarrow> mspan" where
  "MarkedSpan mk f t = \<lparr>smarker = mk, sfrom = f, sto = t\<rparr>"

datatype chunk =
  LeafChunk (leaf_lines: "jsline list") (leaf_height: int)
| BranchChunk (children: "chunk list") (branch_size: int) (branch_height: int)

text \<open>Parent pointers are not fields: a chunk's parent is the node it occurs in.\<close>

fun chunkSize :: "chunk \<Rightarrow> int" where
  "chunkSize (LeafChunk ls h) = int (length ls)"
| "chunkSize (BranchChunk ch sz h) = sz"

fun chunkHeight :: "chunk \<Rightarrow> int" where
  "chunkHeight (LeafChunk ls h) = h"
| "chunkHeight (BranchChunk ch sz h) = h"

text \<open>The constructors of the source add up the sizes and heights.\<close>

definition newLeaf :: "jsline list \<Rightarrow> chunk" where
  "newLeaf ls = LeafChunk ls (sum_list (map lheight ls))"

definition newBranch :: "chunk list \<Rightarrow> chunk" where
  "newBranch ch = BranchChunk ch (sum_list (map chunkSize ch)) (sum_list (map chunkHeight ch))"

text \<open>\<open>collapse\<close>: all lines below a node, in order.\<close>

fun collapse :: "chunk \<Rightarrow> jsline list" where
  "collapse (LeafChunk ls h) = ls"
| "collapse (BranchChunk ch sz h) = concat (map collapse ch)"

definition is_leaf :: "chunk \<Rightarrow> bool" where
  "is_leaf c = (case c of LeafChunk _ _ \<Rightarrow> True | BranchChunk _ _ _ \<Rightarrow> False)"

section \<open>Operations\<close>

subsection \<open>removeInner\<close>

text \<open>
  The loop over the children keeps the offset \<open>at\<close> and the number \<open>n\<close> of lines still to
  remove; it returns the children left, the final \<open>n\<close> and the height removed. A child that
  loses all its lines is dropped.
\<close>

fun removeInner :: "int \<Rightarrow> int \<Rightarrow> chunk \<Rightarrow> chunk"
  and removeChildren :: "int \<Rightarrow> int \<Rightarrow> chunk list \<Rightarrow> chunk list \<times> int \<times> int" where
  "removeInner at n (LeafChunk ls h) =
     LeafChunk (splice (nat at) (nat n) [] ls)
               (h - sum_list (map lheight (take (nat n) (drop (nat at) ls))))"
| "removeInner at n (BranchChunk ch sz h) =
     (let (ch', n', dh) = removeChildren at n ch
      in if (sz - n) - n' < 25 \<and> (length ch' > 1 \<or> \<not> (ch' \<noteq> [] \<and> is_leaf (ch' ! 0)))
         then BranchChunk [newLeaf (concat (map collapse ch'))] (sz - n) (h - dh)
         else BranchChunk ch' (sz - n) (h - dh))"
| "removeChildren at n [] = ([], n, 0)"
| "removeChildren at n (c # cs) =
     (let sz = chunkSize c
      in if at < sz then
           (let rm = min n (sz - at); c' = removeInner at rm c;
                dh = chunkHeight c - chunkHeight c';
                keep = (if sz = rm then [] else [c'])
            in if n - rm = 0 then (keep @ cs, 0, dh)
               else (let (cs', n', dh') = removeChildren 0 (n - rm) cs
                     in (keep @ cs', n', dh + dh')))
         else (let (cs', n', dh) = removeChildren (at - sz) n cs in (c # cs', n', dh)))"

subsection \<open>insertInner and maybeSpill\<close>

text \<open>
  A leaf of more than 50 lines gives up 25 lines at a time to new leaves to its right. The
  list is the leaf followed by the new ones.
\<close>

function spillLeaf :: "jsline list \<Rightarrow> int \<Rightarrow> chunk list" where
  "spillLeaf ls h =
     (if length ls > 50 then
        (let newleaf = newLeaf (drop (length ls - 25) ls)
         in spillLeaf (take (length ls - 25) ls) (h - chunkHeight newleaf) @ [newleaf])
      else [LeafChunk ls h])"
  by pat_completeness auto
termination
  by (relation "measure (\<lambda>(ls, h). length ls)") auto

text \<open>
  \<open>maybeSpill\<close> of a node that has a parent: while there are more than 10 children, the last
  five go to a new sibling on the right. The list is the node followed by its new siblings,
  which the parent takes into its children.
\<close>

function spillBranch :: "chunk list \<Rightarrow> int \<Rightarrow> int \<Rightarrow> chunk list" where
  "spillBranch ch sz h =
     (if length ch > 10 then
        (let sibling = newBranch (drop (length ch - 5) ch)
         in spillBranch (take (length ch - 5) ch) (sz - chunkSize sibling) (h - chunkHeight sibling)
            @ [sibling])
      else [BranchChunk ch sz h])"
  by pat_completeness auto
termination
  by (relation "measure (\<lambda>(ch, sz, h). length ch)") auto

declare spillLeaf.simps [simp del] spillBranch.simps [simp del]

lemma spillBranch_length: "length (spillBranch ch sz h) \<le> max 1 (length ch div 2)"
proof (induction ch sz h rule: spillBranch.induct)
  case (1 ch sz h)
  show ?case
  proof (cases "length ch > 10")
    case True
    with 1 have "length (spillBranch ch sz h) \<le> Suc (max 1 (length (take (length ch - 5) ch) div 2))"
      by (subst spillBranch.simps) (simp add: Let_def)
    with True show ?thesis by auto
  next
    case False
    then show ?thesis by (subst spillBranch.simps) simp
  qed
qed

text \<open>
  \<open>maybeSpill\<close> of the root (the document itself): a copy of the node becomes its first child,
  the copy spills as above, and the root is looked at again.
\<close>

function spillRoot :: "chunk list \<Rightarrow> int \<Rightarrow> int \<Rightarrow> chunk" where
  "spillRoot ch sz h =
     (if length ch > 10 then
        (let sibling = newBranch (drop (length ch - 5) ch);
             kept = take (length ch - 5) ch
         in spillRoot (spillBranch kept (sum_list (map chunkSize kept)) (sum_list (map chunkHeight kept))
                       @ [sibling]) sz h)
      else BranchChunk ch sz h)"
  by pat_completeness auto
termination
proof (relation "measure (\<lambda>(ch, sz, h). length ch)", goal_cases)
  case (2 ch sz h sibling kept)
  from 2 have "length kept = length ch - 5" by simp
  with 2(1) spillBranch_length [of kept "sum_list (map chunkSize kept)" "sum_list (map chunkHeight kept)"]
  show ?case by auto
qed simp

declare spillRoot.simps [simp del]

text \<open>
  \<open>insertInner\<close> of a node below the root returns the node and the siblings it spilled; the
  loop over the children also says whether \<open>maybeSpill\<close> is called on the node.
\<close>

fun insertInner :: "int \<Rightarrow> jsline list \<Rightarrow> int \<Rightarrow> chunk \<Rightarrow> chunk list"
  and insertChildren :: "int \<Rightarrow> jsline list \<Rightarrow> int \<Rightarrow> chunk list \<Rightarrow> chunk list \<times> bool" where
  "insertInner at new hh (LeafChunk ls h) = [LeafChunk (splice (nat at) 0 new ls) (h + hh)]"
| "insertInner at new hh (BranchChunk ch sz h) =
     (let (ch', spilled) = insertChildren at new hh ch
      in if spilled then spillBranch ch' (sz + int (length new)) (h + hh)
         else [BranchChunk ch' (sz + int (length new)) (h + hh)])"
| "insertChildren at new hh [] = ([], False)"
| "insertChildren at new hh (c # cs) =
     (let sz = chunkSize c
      in if at \<le> sz then
           (let r = insertInner at new hh c
            in case r of
                 [LeafChunk ls h] \<Rightarrow>
                   if length ls > 50 then (spillLeaf ls h @ cs, True) else (r @ cs, False)
               | _ \<Rightarrow> (r @ cs, length r > 1))
         else (let (cs', spilled) = insertChildren (at - sz) new hh cs in (c # cs', spilled)))"

text \<open>The same on the document, the root of the tree.\<close>

definition insertRoot :: "int \<Rightarrow> jsline list \<Rightarrow> int \<Rightarrow> chunk \<Rightarrow> chunk" where
  "insertRoot at new hh root =
     (let (ch', spilled) = insertChildren at new hh (children root);
          sz = branch_size root + int (length new); h = branch_height root + hh
      in if spilled then spillRoot ch' sz h else BranchChunk ch' sz h)"

subsection \<open>Iteration and lookup\<close>

text \<open>
  \<open>iterN(at, n, op)\<close>: \<open>op\<close> is called on each line with the caller's variables as its state
  and stops the iteration by returning true.
\<close>

fun iterLines :: "(jsline \<Rightarrow> 's \<Rightarrow> 's \<times> bool) \<Rightarrow> jsline list \<Rightarrow> 's \<Rightarrow> 's \<times> bool" where
  "iterLines op [] s = (s, False)"
| "iterLines op (l # ls) s = (let (s', stop) = op l s in if stop then (s', True) else iterLines op ls s')"

fun iterN :: "int \<Rightarrow> int \<Rightarrow> (jsline \<Rightarrow> 's \<Rightarrow> 's \<times> bool) \<Rightarrow> chunk \<Rightarrow> 's \<Rightarrow> 's \<times> bool"
  and iterChildren :: "int \<Rightarrow> int \<Rightarrow> (jsline \<Rightarrow> 's \<Rightarrow> 's \<times> bool) \<Rightarrow> chunk list \<Rightarrow> 's \<Rightarrow> 's \<times> bool" where
  "iterN at n op (LeafChunk ls h) s = iterLines op (take (nat n) (drop (nat at) ls)) s"
| "iterN at n op (BranchChunk ch sz h) s = iterChildren at n op ch s"
| "iterChildren at n op [] s = (s, False)"
| "iterChildren at n op (c # cs) s =
     (let sz = chunkSize c
      in if at < sz then
           (let used = min n (sz - at); (s', stop) = iterN at used op c s
            in if stop then (s', True)
               else if n - used = 0 then (s', False)
               else iterChildren 0 (n - used) op cs s')
         else iterChildren (at - sz) n op cs s)"

text \<open>The descent of \<open>getLine\<close>; \<open>None\<close> where the code would read an undefined child.\<close>

fun getInner :: "int \<Rightarrow> chunk \<Rightarrow> jsline option"
  and getChildren :: "int \<Rightarrow> chunk list \<Rightarrow> jsline option" where
  "getInner n (LeafChunk ls h) = (if 0 \<le> n \<and> n < int (length ls) then Some (ls ! nat n) else None)"
| "getInner n (BranchChunk ch sz h) = getChildren n ch"
| "getChildren n [] = None"
| "getChildren n (c # cs) = (if n < chunkSize c then getInner n c else getChildren (n - chunkSize c) cs)"

text \<open>\<open>getLine(doc, n)\<close> of the document with the given root and first line number; it throws
  when there is no such line.\<close>

definition treeLine :: "int \<Rightarrow> chunk \<Rightarrow> int \<Rightarrow> jsline option" where
  "treeLine first root n =
     (let k = n - first in if k < 0 \<or> k \<ge> chunkSize root then None else getInner k root)"

text \<open>
  The chain of parents of a line object, from its leaf up to the root, each node with the index
  of the line or child that the climb comes from.
\<close>

fun index_of_line :: "nat \<Rightarrow> jsline list \<Rightarrow> nat option" where
  "index_of_line i [] = None"
| "index_of_line i (l # ls) = (if lid l = i then Some 0 else map_option Suc (index_of_line i ls))"

fun parents :: "nat \<Rightarrow> chunk \<Rightarrow> (chunk \<times> nat) list option"
  and parentsChildren :: "nat \<Rightarrow> chunk list \<Rightarrow> (nat \<times> (chunk \<times> nat) list) option" where
  "parents i (LeafChunk ls h) = map_option (\<lambda>k. [(LeafChunk ls h, k)]) (index_of_line i ls)"
| "parents i (BranchChunk ch sz h) =
     map_option (\<lambda>(k, ps). ps @ [(BranchChunk ch sz h, k)]) (parentsChildren i ch)"
| "parentsChildren i [] = None"
| "parentsChildren i (c # cs) =
     (case parents i c of
        Some ps \<Rightarrow> Some (0, ps)
      | None \<Rightarrow> map_option (\<lambda>(k, ps). (Suc k, ps)) (parentsChildren i cs))"

fun climbSizes :: "(chunk \<times> nat) list \<Rightarrow> int \<Rightarrow> int" where
  "climbSizes [] no = no"
| "climbSizes ((chunk, k) # ps) no =
     climbSizes ps (no + sum_list (map chunkSize (take k (children chunk))))"

definition lineNo :: "int \<Rightarrow> chunk \<Rightarrow> nat \<Rightarrow> int option" where
  "lineNo first root i =
     (case parents i root of
        None \<Rightarrow> None
      | Some [] \<Rightarrow> None
      | Some ((leaf, k) # ps) \<Rightarrow> Some (climbSizes ps (int k) + first))"

fun climbHeights :: "(chunk \<times> nat) list \<Rightarrow> int \<Rightarrow> int" where
  "climbHeights [] h = h"
| "climbHeights ((chunk, k) # ps) h =
     climbHeights ps (h + sum_list (map chunkHeight (take k (children chunk))))"

text \<open>\<open>heightAtLine\<close> after its call of \<open>visualLine\<close>.\<close>

definition heightAbove :: "chunk \<Rightarrow> nat \<Rightarrow> int option" where
  "heightAbove root i =
     (case parents i root of
        None \<Rightarrow> None
      | Some [] \<Rightarrow> None
      | Some ((leaf, k) # ps) \<Rightarrow>
          Some (climbHeights ps (sum_list (map lheight (take k (leaf_lines leaf))))))"

fun skipHeights :: "jsline list \<Rightarrow> int \<Rightarrow> int" where
  "skipHeights [] h = 0"
| "skipHeights (l # ls) h = (if h < lheight l then 0 else 1 + skipHeights ls (h - lheight l))"

fun atHeight :: "chunk \<Rightarrow> int \<Rightarrow> int \<Rightarrow> int"
  and atHeightChildren :: "chunk list \<Rightarrow> int \<Rightarrow> int \<Rightarrow> int" where
  "atHeight (LeafChunk ls lh) h n = n + skipHeights ls h"
| "atHeight (BranchChunk ch sz bh) h n = atHeightChildren ch h n"
| "atHeightChildren [] h n = n"
| "atHeightChildren (c # cs) h n =
     (if h < chunkHeight c then atHeight c h n
      else atHeightChildren cs (h - chunkHeight c) (n + chunkSize c))"

definition lineAtHeight :: "int \<Rightarrow> chunk \<Rightarrow> int \<Rightarrow> int" where
  "lineAtHeight first root h = atHeight root h first"

subsection \<open>Updating a line in place\<close>

text \<open>
  Assigning to the fields of a line object: \<open>f\<close> is applied to the line with the given id.
  \<open>updateLineHeight\<close> adds the difference of heights to the line and all its parents.
\<close>

fun updateTree :: "nat \<Rightarrow> (jsline \<Rightarrow> jsline) \<Rightarrow> chunk \<Rightarrow> chunk" where
  "updateTree i f (LeafChunk ls h) = LeafChunk (map (\<lambda>l. if lid l = i then f l else l) ls) h"
| "updateTree i f (BranchChunk ch sz h) = BranchChunk (map (updateTree i f) ch) sz h"

fun has_line :: "nat \<Rightarrow> chunk \<Rightarrow> bool" where
  "has_line i (LeafChunk ls h) = list_ex (\<lambda>l. lid l = i) ls"
| "has_line i (BranchChunk ch sz h) = list_ex (has_line i) ch"

fun addHeight :: "nat \<Rightarrow> int \<Rightarrow> chunk \<Rightarrow> chunk" where
  "addHeight i d (LeafChunk ls h) =
     (if list_ex (\<lambda>l. lid l = i) ls
      then LeafChunk (map (\<lambda>l. if lid l = i then l\<lparr>lheight := lheight l + d\<rparr> else l) ls) (h + d)
      else LeafChunk ls h)"
| "addHeight i d (BranchChunk ch sz h) =
     (if list_ex (has_line i) ch then BranchChunk (map (addHeight i d) ch) sz (h + d)
      else BranchChunk ch sz h)"

definition updateLineHeight :: "jsline \<Rightarrow> int \<Rightarrow> chunk \<Rightarrow> chunk" where
  "updateLineHeight l height root =
     (let diff = height - lheight l in if diff \<noteq> 0 then addHeight (lid l) diff root else root)"

section \<open>The invariant\<close>

text \<open>
  \<open>consistent\<close>: the cached sizes and heights are the sums of what is below. \<open>bounded\<close>: leaves
  hold at most 50 lines, branches between one and ten children.
\<close>

fun consistent :: "chunk \<Rightarrow> bool" where
  "consistent (LeafChunk ls h) \<longleftrightarrow> h = sum_list (map lheight ls)"
| "consistent (BranchChunk ch sz h) \<longleftrightarrow>
     sz = sum_list (map chunkSize ch) \<and> h = sum_list (map chunkHeight ch) \<and> list_all consistent ch"

fun bounded :: "chunk \<Rightarrow> bool" where
  "bounded (LeafChunk ls h) \<longleftrightarrow> length ls \<le> 50"
| "bounded (BranchChunk ch sz h) \<longleftrightarrow> ch \<noteq> [] \<and> length ch \<le> 10 \<and> list_all bounded ch"

definition is_branch :: "chunk \<Rightarrow> bool" where
  "is_branch c \<longleftrightarrow> \<not> is_leaf c"

definition wf_tree :: "chunk \<Rightarrow> bool" where
  "wf_tree c \<longleftrightarrow> consistent c \<and> bounded c \<and> is_branch c"

named_theorems tree_simps \<open>the meaning of the tree operations on the list of lines\<close>

lemma is_leaf_simps [simp]:
  "is_leaf (LeafChunk ls h)" "\<not> is_leaf (BranchChunk ch sz h)"
  "\<not> is_branch (LeafChunk ls h)" "is_branch (BranchChunk ch sz h)"
  by (simp_all add: is_leaf_def is_branch_def)

lemma consistent_size: "consistent c \<Longrightarrow> chunkSize c = int (length (collapse c))"
proof (induction c rule: collapse.induct)
  case (2 ch sz h)
  then have "map chunkSize ch = map (\<lambda>c. int (length (collapse c))) ch"
    by (simp add: list_all_iff)
  with 2 show ?case by (simp add: length_concat comp_def flip: sum_list_of_nat)
qed simp

lemma consistent_height: "consistent c \<Longrightarrow> chunkHeight c = sum_list (map lheight (collapse c))"
proof (induction c rule: collapse.induct)
  case (2 ch sz h)
  then have "map chunkHeight ch = map (\<lambda>c. sum_list (map lheight (collapse c))) ch"
    by (simp add: list_all_iff)
  with 2 show ?case by (simp add: sum_list_map_concat comp_def)
qed simp

lemma consistent_sizes:
  "list_all consistent ch \<Longrightarrow> sum_list (map chunkSize ch) = int (length (concat (map collapse ch)))"
  using consistent_size [of "BranchChunk ch (sum_list (map chunkSize ch)) (sum_list (map chunkHeight ch))"]
  by simp

lemma consistent_heights:
  "list_all consistent ch \<Longrightarrow> sum_list (map chunkHeight ch) = sum_list (map lheight (concat (map collapse ch)))"
  using consistent_height [of "BranchChunk ch (sum_list (map chunkSize ch)) (sum_list (map chunkHeight ch))"]
  by simp

lemma newLeaf_simps [simp]:
  "consistent (newLeaf ls)" "collapse (newLeaf ls) = ls" "bounded (newLeaf ls) \<longleftrightarrow> length ls \<le> 50"
  "chunkHeight (newLeaf ls) = sum_list (map lheight ls)" "is_leaf (newLeaf ls)"
  by (simp_all add: newLeaf_def)

lemma newBranch_simps [simp]:
  "consistent (newBranch ch) \<longleftrightarrow> list_all consistent ch" "collapse (newBranch ch) = concat (map collapse ch)"
  "bounded (newBranch ch) \<longleftrightarrow> ch \<noteq> [] \<and> length ch \<le> 10 \<and> list_all bounded ch"
  "chunkHeight (newBranch ch) = sum_list (map chunkHeight ch)"
  "chunkSize (newBranch ch) = sum_list (map chunkSize ch)"
  by (simp_all add: newBranch_def)

lemma list_all_take_drop: "list_all P xs \<Longrightarrow> list_all P (take n xs) \<and> list_all P (drop n xs)"
  by (auto simp: list_all_iff dest: in_set_takeD in_set_dropD)

lemma sum_list_take_drop:
  fixes f :: "'a \<Rightarrow> int"
  shows "sum_list (map f (take n xs)) + sum_list (map f (drop n xs)) = sum_list (map f xs)"
  by (metis append_take_drop_id map_append sum_list_append)

subsection \<open>Spilling\<close>

lemma spillLeaf_spec:
  "h = sum_list (map lheight ls) \<Longrightarrow>
   concat (map collapse (spillLeaf ls h)) = ls \<and> list_all consistent (spillLeaf ls h)
     \<and> list_all bounded (spillLeaf ls h) \<and> spillLeaf ls h \<noteq> []"
proof (induction ls h rule: spillLeaf.induct)
  case (1 ls h)
  show ?case
  proof (cases "length ls > 50")
    case True
    have "h - sum_list (map lheight (drop (length ls - 25) ls))
        = sum_list (map lheight (take (length ls - 25) ls))"
      using "1.prems" sum_list_take_drop [of lheight "length ls - 25" ls] by simp
    with "1.IH" [OF True refl] True show ?thesis
      by (subst (1 2 3 4) spillLeaf.simps) (simp add: Let_def)
  next
    case False
    with "1.prems" show ?thesis by (subst (1 2 3 4) spillLeaf.simps) simp
  qed
qed

lemma spillBranch_spec:
  "sz = sum_list (map chunkSize ch) \<Longrightarrow> h = sum_list (map chunkHeight ch) \<Longrightarrow>
   list_all consistent ch \<Longrightarrow> list_all bounded ch \<Longrightarrow> ch \<noteq> [] \<Longrightarrow>
   concat (map collapse (spillBranch ch sz h)) = concat (map collapse ch)
     \<and> list_all consistent (spillBranch ch sz h) \<and> list_all bounded (spillBranch ch sz h)
     \<and> list_all is_branch (spillBranch ch sz h) \<and> spillBranch ch sz h \<noteq> []"
proof (induction ch sz h rule: spillBranch.induct)
  case (1 ch sz h)
  show ?case
  proof (cases "length ch > 10")
    case True
    let ?k = "length ch - 5"
    let ?sib = "newBranch (drop ?k ch)"
    let ?rest = "spillBranch (take ?k ch) (sz - chunkSize ?sib) (h - chunkHeight ?sib)"
    have eq: "spillBranch ch sz h = ?rest @ [?sib]"
      using True by (subst spillBranch.simps) (simp add: Let_def)
    have "concat (map collapse (take ?k ch)) @ concat (map collapse (drop ?k ch)) = concat (map collapse ch)"
      by (metis append_take_drop_id concat_append map_append)
    moreover have sums: "sz - chunkSize ?sib = sum_list (map chunkSize (take ?k ch))"
      "h - chunkHeight ?sib = sum_list (map chunkHeight (take ?k ch))"
      using "1.prems"(1,2) sum_list_take_drop [of chunkSize ?k ch] sum_list_take_drop [of chunkHeight ?k ch]
      by (simp_all add: algebra_simps)
    moreover have all: "list_all consistent (take ?k ch)" "list_all bounded (take ?k ch)"
      "list_all consistent (drop ?k ch)" "list_all bounded (drop ?k ch)"
      using "1.prems" list_all_take_drop [of _ ch ?k] by auto
    moreover have "take ?k ch \<noteq> []" "drop ?k ch \<noteq> []" "length (drop ?k ch) \<le> 10" using True by auto
    ultimately show ?thesis
      using "1.IH" [OF True refl sums all(1,2)] unfolding eq by (simp add: newBranch_def)
  next
    case False
    with "1.prems" show ?thesis by (subst (1 2 3 4 5) spillBranch.simps) simp
  qed
qed

lemma spillRoot_spec:
  "sz = sum_list (map chunkSize ch) \<Longrightarrow> h = sum_list (map chunkHeight ch) \<Longrightarrow>
   list_all consistent ch \<Longrightarrow> list_all bounded ch \<Longrightarrow> ch \<noteq> [] \<Longrightarrow>
   collapse (spillRoot ch sz h) = concat (map collapse ch) \<and> wf_tree (spillRoot ch sz h)"
proof (induction ch sz h rule: spillRoot.induct)
  case (1 ch sz h)
  show ?case
  proof (cases "length ch > 10")
    case True
    let ?k = "length ch - 5"
    let ?kept = "take ?k ch" and ?sib = "newBranch (drop ?k ch)"
    let ?sp = "spillBranch ?kept (sum_list (map chunkSize ?kept)) (sum_list (map chunkHeight ?kept))"
    have all: "list_all consistent ?kept" "list_all bounded ?kept"
      "list_all consistent (drop ?k ch)" "list_all bounded (drop ?k ch)"
      using "1.prems" list_all_take_drop [of _ ch ?k] by auto
    have "?kept \<noteq> []" using True by auto
    from spillBranch_spec [OF refl refl all(1,2) this]
    have sp: "concat (map collapse ?sp) = concat (map collapse ?kept)" "list_all consistent ?sp"
      "list_all bounded ?sp" by auto
    have lines: "concat (map collapse (?sp @ [?sib])) = concat (map collapse ch)"
      using sp(1) by simp (metis append_take_drop_id concat_append map_append)
    have ok: "list_all consistent (?sp @ [?sib])" "list_all bounded (?sp @ [?sib])"
      using sp all True by auto
    have "sz = sum_list (map chunkSize (?sp @ [?sib]))"
      using "1.prems"(1,3) ok(1) lines by (simp only: consistent_sizes)
    moreover have "h = sum_list (map chunkHeight (?sp @ [?sib]))"
      using "1.prems"(2,3) ok(1) lines by (simp only: consistent_heights)
    ultimately show ?thesis
      using "1.IH" [OF True refl refl _ _ ok] True lines
      by (subst (1 2) spillRoot.simps) (simp add: Let_def)
  next
    case False
    with "1.prems" show ?thesis
      by (subst (1 2) spillRoot.simps) (simp add: wf_tree_def)
  qed
qed

subsection \<open>Insertion\<close>

lemma splice_append_left: "i \<le> length xs \<Longrightarrow> splice i 0 new (xs @ ys) = splice i 0 new xs @ ys"
  by (simp add: splice_def)

lemma splice_append_right:
  "length xs \<le> i \<Longrightarrow> splice i n new (xs @ ys) = xs @ splice (i - length xs) n new ys"
  by (simp add: splice_def)

lemma insert_spec:
  "consistent c \<Longrightarrow> bounded c \<Longrightarrow> 0 \<le> at \<Longrightarrow> at \<le> chunkSize c \<Longrightarrow> hh = sum_list (map lheight new) \<Longrightarrow>
     concat (map collapse (insertInner at new hh c)) = splice (nat at) 0 new (collapse c)
     \<and> list_all consistent (insertInner at new hh c) \<and> insertInner at new hh c \<noteq> []
     \<and> (is_branch c \<longrightarrow> list_all bounded (insertInner at new hh c) \<and> list_all is_branch (insertInner at new hh c))"
  "list_all consistent cs \<Longrightarrow> list_all bounded cs \<Longrightarrow> 0 \<le> at \<Longrightarrow> at \<le> sum_list (map chunkSize cs) \<Longrightarrow>
   cs \<noteq> [] \<Longrightarrow> hh = sum_list (map lheight new) \<Longrightarrow>
     concat (map collapse (fst (insertChildren at new hh cs))) = splice (nat at) 0 new (concat (map collapse cs))
     \<and> list_all consistent (fst (insertChildren at new hh cs))
     \<and> list_all bounded (fst (insertChildren at new hh cs)) \<and> fst (insertChildren at new hh cs) \<noteq> []
     \<and> (\<not> snd (insertChildren at new hh cs) \<longrightarrow> length (fst (insertChildren at new hh cs)) = length cs)"
proof (induction at new hh c and at new hh cs rule: insertInner_insertChildren.induct)
  case (1 at new hh ls h)
  then show ?case
    using sum_list_splice [of "nat at" 0 ls lheight new] by simp
next
  case (2 at new hh ch sz h)
  obtain ch' sp where r: "insertChildren at new hh ch = (ch', sp)" by fastforce
  from 2 r have IH: "concat (map collapse ch') = splice (nat at) 0 new (concat (map collapse ch))"
    "list_all consistent ch'" "list_all bounded ch'" "ch' \<noteq> []" "\<not> sp \<longrightarrow> length ch' = length ch" by auto
  let ?L = "concat (map collapse ch)"
  have le: "nat at \<le> length ?L" using 2 consistent_sizes [of ch] by simp
  have "sz + int (length new) = sum_list (map chunkSize ch')"
    using 2 IH le by (simp add: consistent_sizes length_splice del: length_concat)
  moreover have "h + hh = sum_list (map chunkHeight ch')"
    using 2 IH le sum_list_splice [of "nat at" 0 ?L lheight new]
    by (simp add: consistent_heights)
  ultimately show ?case
    using r IH spillBranch_spec [OF _ _ IH(2,3,4)] 2 by (simp add: Let_def)
next
  case (3 at new hh)
  then show ?case by simp
next
  case (4 at new hh c cs)
  show ?case
  proof (cases "at \<le> chunkSize c")
    case True
    let ?r = "insertInner at new hh c"
    from 4 True have IH: "concat (map collapse ?r) = splice (nat at) 0 new (collapse c)"
      "list_all consistent ?r" "?r \<noteq> []" "is_branch c \<longrightarrow> list_all bounded ?r \<and> list_all is_branch ?r"
      by auto
    have le: "nat at \<le> length (collapse c)" using 4 True consistent_size [of c] by simp
    show ?thesis
    proof (cases c)
      case (LeafChunk ls h)
      let ?ls = "splice (nat at) 0 new ls" and ?h = "h + hh"
      have r: "?r = [LeafChunk ?ls ?h]" using LeafChunk by simp
      with IH have "?h = sum_list (map lheight ?ls)" by simp
      from spillLeaf_spec [OF this] True r IH le LeafChunk 4 show ?thesis
        by (simp add: splice_append_left)
    next
      case (BranchChunk ch sz h)
      with IH obtain a b d as where "?r = BranchChunk a b d # as"
        by (cases ?r; cases "hd ?r") auto
      with True IH le BranchChunk 4 show ?thesis
        by (cases as) (simp_all add: splice_append_left)
    qed
  next
    case False
    obtain cs' sp where r: "insertChildren (at - chunkSize c) new hh cs = (cs', sp)" by fastforce
    have "cs \<noteq> []" using False 4 by auto
    with 4 False r have IH: "concat (map collapse cs') = splice (nat (at - chunkSize c)) 0 new (concat (map collapse cs))"
      "list_all consistent cs'" "list_all bounded cs'" "cs' \<noteq> []" "\<not> sp \<longrightarrow> length cs' = length cs" by auto
    have "length (collapse c) \<le> nat at" "nat at - length (collapse c) = nat (at - chunkSize c)"
      using False 4 consistent_size [of c] by simp_all
    with False r IH 4 show ?thesis by (simp add: splice_append_right)
  qed
qed

lemma insertRoot_spec:
  assumes "wf_tree t" "0 \<le> at" "at \<le> chunkSize t" "hh = sum_list (map lheight new)"
  shows "wf_tree (insertRoot at new hh t)"
    "collapse (insertRoot at new hh t) = splice (nat at) 0 new (collapse t)"
proof -
  from assms(1) obtain ch sz h where t: "t = BranchChunk ch sz h"
    by (cases t) (auto simp: wf_tree_def)
  obtain ch' sp where r: "insertChildren at new hh ch = (ch', sp)" by fastforce
  from assms t r insert_spec(2) [of ch at hh new]
  have IH: "concat (map collapse ch') = splice (nat at) 0 new (concat (map collapse ch))"
    "list_all consistent ch'" "list_all bounded ch'" "ch' \<noteq> []" "\<not> sp \<longrightarrow> length ch' = length ch"
    by (auto simp: wf_tree_def)
  let ?L = "concat (map collapse ch)"
  have c: "list_all consistent ch" using assms t by (simp add: wf_tree_def)
  have le: "nat at \<le> length ?L" using assms t consistent_sizes [OF c] by (simp add: wf_tree_def)
  have sz: "sz + int (length new) = sum_list (map chunkSize ch')"
    using assms t IH le c by (simp add: wf_tree_def consistent_sizes length_splice del: length_concat)
  have h: "h + hh = sum_list (map chunkHeight ch')"
    using assms t IH le c sum_list_splice [of "nat at" 0 ?L lheight new]
    by (simp add: wf_tree_def consistent_heights)
  from spillRoot_spec [OF sz h IH(2,3,4)] IH sz h t r assms
  show "wf_tree (insertRoot at new hh t)"
    "collapse (insertRoot at new hh t) = splice (nat at) 0 new (collapse t)"
    by (auto simp: insertRoot_def wf_tree_def Let_def)
qed

subsection \<open>Removal\<close>

lemma splice_remove_left: "i + n \<le> length xs \<Longrightarrow> splice i n [] (xs @ ys) = splice i n [] xs @ ys"
  by (simp add: splice_def)

lemma splice_remove_across:
  "i \<le> length xs \<Longrightarrow> length xs \<le> i + n \<Longrightarrow>
   splice i n [] (xs @ ys) = splice i (length xs - i) [] xs @ splice 0 (n - (length xs - i)) [] ys"
  by (simp add: splice_def add.commute)

lemma splice_none [simp]: "splice i 0 [] xs = xs"
  by (simp add: splice_def)

lemma remove_spec:
  "consistent c \<Longrightarrow> bounded c \<Longrightarrow> 0 \<le> at \<Longrightarrow> 0 \<le> n \<Longrightarrow> at + n \<le> chunkSize c \<Longrightarrow>
     collapse (removeInner at n c) = splice (nat at) (nat n) [] (collapse c)
     \<and> consistent (removeInner at n c) \<and> bounded (removeInner at n c)
     \<and> is_leaf (removeInner at n c) = is_leaf c"
  "list_all consistent cs \<Longrightarrow> list_all bounded cs \<Longrightarrow> 0 \<le> at \<Longrightarrow> 0 \<le> n \<Longrightarrow>
   at + n \<le> sum_list (map chunkSize cs) \<Longrightarrow>
     (case removeChildren at n cs of (cs', n', dh) \<Rightarrow>
        concat (map collapse cs') = splice (nat at) (nat n) [] (concat (map collapse cs))
        \<and> list_all consistent cs' \<and> list_all bounded cs' \<and> n' = 0 \<and> length cs' \<le> length cs
        \<and> dh = sum_list (map chunkHeight cs) - sum_list (map chunkHeight cs'))"
proof (induction at n c and at n cs rule: removeInner_removeChildren.induct)
  case (1 at n ls h)
  then have "nat at + nat n \<le> length ls" by simp
  with 1 show ?case
    using sum_list_splice [of "nat at" "nat n" ls lheight "[]"] by (simp add: length_splice)
next
  case (2 at n ch sz h)
  obtain ch' n' dh where r: "removeChildren at n ch = (ch', n', dh)" by (cases "removeChildren at n ch") auto
  let ?L = "concat (map collapse ch)"
  from 2 r have IH: "concat (map collapse ch') = splice (nat at) (nat n) [] ?L"
    "list_all consistent ch'" "list_all bounded ch'" "n' = 0" "length ch' \<le> length ch"
    "dh = sum_list (map chunkHeight ch) - sum_list (map chunkHeight ch')" by auto
  have le: "nat at + nat n \<le> length ?L" using 2 consistent_sizes [of ch] by simp
  have len: "int (length (concat (map collapse ch'))) = sz - n"
    using 2 le consistent_sizes [of ch] unfolding IH(1) by (simp add: length_splice del: length_concat)
  with IH(2) have sz: "sz - n = sum_list (map chunkSize ch')" by (simp only: consistent_sizes)
  have h: "h - dh = sum_list (map chunkHeight ch')" using 2 IH by simp
  show ?case
  proof (cases "sz - n < 25 \<and> (length ch' > 1 \<or> \<not> (ch' \<noteq> [] \<and> is_leaf (ch' ! 0)))")
    case True
    have "removeInner at n (BranchChunk ch sz h) =
        BranchChunk [newLeaf (concat (map collapse ch'))] (sz - n) (h - dh)"
      using True r IH(4) by simp
    moreover have "length (concat (map collapse ch')) \<le> 50" using len True by linarith
    moreover have "h - dh = sum_list (map lheight (concat (map collapse ch')))"
      using h IH(2) by (simp only: consistent_heights)
    ultimately show ?thesis using IH(1) len by (simp add: newLeaf_def del: length_concat)
  next
    case False
    have "ch' \<noteq> []"
    proof
      assume "ch' = []"
      with sz have "sz - n = 0" by simp
      with False \<open>ch' = []\<close> show False by simp
    qed
    moreover have "removeInner at n (BranchChunk ch sz h) = BranchChunk ch' (sz - n) (h - dh)"
      unfolding removeInner.simps(2) r Let_def prod.case IH(4) diff_zero if_not_P [OF False] ..
    ultimately show ?thesis using IH sz h 2 by auto
  qed
next
  case (3 at n)
  then show ?case by simp
next
  case (4 at n c cs)
  let ?C = "collapse c" and ?L = "concat (map collapse cs)"
  have szc: "chunkSize c = int (length ?C)" using 4 by (simp add: consistent_size)
  show ?case
  proof (cases "at < chunkSize c")
    case True
    let ?rm = "min n (chunkSize c - at)"
    let ?c = "removeInner at ?rm c"
    let ?keep = "if chunkSize c = ?rm then [] else [?c]"
    from 4 True have IH: "collapse ?c = splice (nat at) (nat ?rm) [] ?C" "consistent ?c" "bounded ?c"
      by auto
    obtain K where K: "?keep = K" by blast
    have eq: "removeChildren at n (c # cs) =
        (if n - ?rm = 0 then (K @ cs, 0, chunkHeight c - chunkHeight ?c)
         else (case removeChildren 0 (n - ?rm) cs of
                 (cs', n', dh') \<Rightarrow> (K @ cs', n', chunkHeight c - chunkHeight ?c + dh')))"
      by (simp only: removeChildren.simps Let_def if_P [OF True] K)
    have "list_all consistent K" "list_all bounded K" "length K \<le> 1"
      using IH(2,3) unfolding K [symmetric] by auto
    note K_ok = this
    have "concat (map collapse ?keep) = splice (nat at) (nat ?rm) [] ?C"
      "sum_list (map chunkHeight ?keep) = chunkHeight ?c"
    proof -
      have "collapse ?c = []" if "chunkSize c = ?rm"
      proof -
        from that 4 True have "at = 0" "n \<ge> chunkSize c" by (auto simp: min_def split: if_splits)
        with that szc show ?thesis unfolding IH(1) by (simp add: splice_def)
      qed
      with IH consistent_height [OF IH(2)] show "concat (map collapse ?keep) = splice (nat at) (nat ?rm) [] ?C"
        "sum_list (map chunkHeight ?keep) = chunkHeight ?c" by auto
    qed
    then have keep: "concat (map collapse K) = splice (nat at) (nat ?rm) [] ?C"
      "sum_list (map chunkHeight K) = chunkHeight ?c" unfolding K .
    show ?thesis
    proof (cases "n - ?rm = 0")
      case stop: True
      then have rm: "?rm = n" by simp
      then have "nat at + nat n \<le> length ?C" using 4 True szc by (simp add: min_def split: if_splits)
      with stop keep K_ok "4.prems" show ?thesis by (simp add: eq rm splice_remove_left del: removeChildren.simps)
    next
      case cont: False
      then have rm: "?rm = chunkSize c - at" by (simp add: min_def split: if_splits)
      obtain cs' n' dh where r: "removeChildren 0 (n - ?rm) cs = (cs', n', dh)"
        by (cases "removeChildren 0 (n - ?rm) cs") auto
      have "n - ?rm \<le> sum_list (map chunkSize cs)" "0 \<le> n - ?rm" using 4 rm by auto
      with 4 True cont r have IH2: "concat (map collapse cs') = splice 0 (nat (n - ?rm)) [] ?L"
        "list_all consistent cs'" "list_all bounded cs'" "n' = 0" "length cs' \<le> length cs"
        "dh = sum_list (map chunkHeight cs) - sum_list (map chunkHeight cs')" by auto
      have "splice (nat at) (nat n) [] (?C @ ?L) = splice (nat at) (nat ?rm) [] ?C @ splice 0 (nat (n - ?rm)) [] ?L"
      proof -
        have "nat ?rm = length ?C - nat at" "nat (n - ?rm) = nat n - (length ?C - nat at)"
          "nat at \<le> length ?C" "length ?C \<le> nat at + nat n"
          using rm szc True 4 cont by (simp_all add: nat_diff_distrib min_def split: if_splits)
        then show ?thesis by (simp add: splice_remove_across)
      qed
      with cont r keep K_ok IH2 "4.prems" show ?thesis by (auto simp add: eq rm simp del: removeChildren.simps)
    qed
  next
    case False
    obtain cs' n' dh where r: "removeChildren (at - chunkSize c) n cs = (cs', n', dh)"
      by (cases "removeChildren (at - chunkSize c) n cs") auto
    with 4 False have IH: "concat (map collapse cs') = splice (nat (at - chunkSize c)) (nat n) [] ?L"
      "list_all consistent cs'" "list_all bounded cs'" "n' = 0" "length cs' \<le> length cs"
      "dh = sum_list (map chunkHeight cs) - sum_list (map chunkHeight cs')" by auto
    have "length ?C \<le> nat at" "nat at - length ?C = nat (at - chunkSize c)"
      using False 4 szc by simp_all
    with False r IH 4 show ?thesis by (simp add: splice_append_right)
  qed
qed

lemma removeInner_wf:
  assumes "wf_tree t" "0 \<le> at" "0 \<le> n" "at + n \<le> chunkSize t"
  shows "wf_tree (removeInner at n t)"
    "collapse (removeInner at n t) = splice (nat at) (nat n) [] (collapse t)"
  using remove_spec(1) [of t at n] assms by (simp_all add: wf_tree_def is_branch_def)

subsection \<open>Iteration and lookup\<close>

lemma iterLines_append:
  "iterLines op (xs @ ys) s =
     (case iterLines op xs s of (s', stop) \<Rightarrow> if stop then (s', True) else iterLines op ys s')"
  by (induction xs arbitrary: s) (auto split: prod.splits)

lemma iter_spec:
  "consistent c \<Longrightarrow> 0 \<le> at \<Longrightarrow> iterN at n op c s = iterLines op (take (nat n) (drop (nat at) (collapse c))) s"
  "list_all consistent cs \<Longrightarrow> 0 \<le> at \<Longrightarrow>
   iterChildren at n op cs s = iterLines op (take (nat n) (drop (nat at) (concat (map collapse cs)))) s"
proof (induction at n op c s and at n op cs s rule: iterN_iterChildren.induct)
  case (4 at n op c cs s)
  let ?C = "collapse c" and ?L = "concat (map collapse cs)"
  have szc: "chunkSize c = int (length ?C)" using 4 by (simp add: consistent_size)
  show ?case
  proof (cases "at < chunkSize c")
    case True
    let ?used = "min n (chunkSize c - at)"
    obtain s' stop where r: "iterN at ?used op c s = (s', stop)" by fastforce
    with 4 True have IH: "iterLines op (take (nat ?used) (drop (nat at) ?C)) s = (s', stop)" by simp
    show ?thesis
    proof (cases "n \<le> chunkSize c - at")
      case le: True
      then have "nat n \<le> length ?C - nat at" using szc "4.prems" by linarith
      then have "take (nat n) (drop (nat at) (?C @ ?L)) = take (nat ?used) (drop (nat at) ?C)"
        using le by (simp add: min_def)
      with r IH True le show ?thesis by (auto simp: Let_def)
    next
      case gt: False
      then have u: "?used = chunkSize c - at" by (simp add: min_def)
      then have "take (nat ?used) (drop (nat at) ?C) = drop (nat at) ?C"
        "take (nat n) (drop (nat at) (?C @ ?L)) = drop (nat at) ?C @ take (nat (n - ?used)) ?L"
        using szc gt True 4 by (simp_all add: nat_diff_distrib)
      with r IH True gt u 4 show ?thesis by (auto simp: Let_def iterLines_append)
    qed
  next
    case False
    then have "drop (nat at) (?C @ ?L) = drop (nat (at - chunkSize c)) ?L"
      using szc 4 by (simp add: nat_diff_distrib)
    with 4 False show ?thesis by simp
  qed
qed simp_all

lemma get_spec:
  "consistent c \<Longrightarrow> 0 \<le> n \<Longrightarrow> n < chunkSize c \<Longrightarrow> getInner n c = Some (collapse c ! nat n)"
  "list_all consistent cs \<Longrightarrow> 0 \<le> n \<Longrightarrow> n < sum_list (map chunkSize cs) \<Longrightarrow>
   getChildren n cs = Some (concat (map collapse cs) ! nat n)"
proof (induction n c and n cs rule: getInner_getChildren.induct)
  case (4 n c cs)
  then have szc: "chunkSize c = int (length (collapse c))" by (simp add: consistent_size)
  show ?case
  proof (cases "n < chunkSize c")
    case True
    with 4 szc show ?thesis by (simp add: nth_append)
  next
    case False
    with szc have "\<not> nat n < length (collapse c)" "nat n - length (collapse c) = nat (n - chunkSize c)" by auto
    with 4 False show ?thesis by (simp add: nth_append)
  qed
qed simp_all

lemma treeLine_spec:
  "consistent t \<Longrightarrow> treeLine first t n =
     (if first \<le> n \<and> n < first + int (length (collapse t)) then Some (collapse t ! nat (n - first)) else None)"
  by (auto simp: treeLine_def Let_def consistent_size get_spec)

subsection \<open>From line objects to numbers and heights\<close>

lemma index_of_line_append:
  "index_of_line i (xs @ ys) =
     (case index_of_line i xs of Some k \<Rightarrow> Some k | None \<Rightarrow> map_option (\<lambda>k. k + length xs) (index_of_line i ys))"
  by (induction xs) (auto simp: option.map_comp comp_def option.map_ident split: option.splits)

lemma index_of_line_Some:
  "index_of_line i ls = Some k \<Longrightarrow> k < length ls \<and> lid (ls ! k) = i"
  by (induction ls arbitrary: k) (auto split: if_splits)

lemma index_of_line_None: "index_of_line i ls = None \<longleftrightarrow> i \<notin> lid ` set ls"
  by (induction ls) auto

lemma index_of_line_nth:
  "distinct (map lid ls) \<Longrightarrow> k < length ls \<Longrightarrow> index_of_line (lid (ls ! k)) ls = Some k"
proof (induction ls arbitrary: k)
  case (Cons l ls)
  then show ?case by (cases k) (force dest: nth_mem)+
qed simp

lemma climbSizes_append: "climbSizes (ps @ qs) x = climbSizes qs (climbSizes ps x)"
  by (induction ps x rule: climbSizes.induct) simp_all

lemma climbHeights_append: "climbHeights (ps @ qs) x = climbHeights qs (climbHeights ps x)"
  by (induction ps x rule: climbHeights.induct) simp_all

lemma parents_spec:
  "consistent c \<Longrightarrow>
     (case index_of_line i (collapse c) of
        None \<Rightarrow> parents i c = None
      | Some k \<Rightarrow> \<exists>leaf j ps. parents i c = Some ((leaf, j) # ps) \<and> climbSizes ps (int j) = int k \<and>
          climbHeights ps (sum_list (map lheight (take j (leaf_lines leaf)))) = sum_list (map lheight (take k (collapse c))))"
  "list_all consistent cs \<Longrightarrow>
     (case index_of_line i (concat (map collapse cs)) of
        None \<Rightarrow> parentsChildren i cs = None
      | Some k \<Rightarrow> \<exists>m leaf j ps. parentsChildren i cs = Some (m, (leaf, j) # ps) \<and>
          climbSizes ps (int j) + sum_list (map chunkSize (take m cs)) = int k \<and>
          climbHeights ps (sum_list (map lheight (take j (leaf_lines leaf)))) + sum_list (map chunkHeight (take m cs))
            = sum_list (map lheight (take k (concat (map collapse cs)))))"
proof (induction i c and i cs rule: parents_parentsChildren.induct)
  case (1 i ls h)
  then show ?case by (cases "index_of_line i ls") auto
next
  case (2 i ch sz h)
  then show ?case
    by (cases "index_of_line i (concat (map collapse ch))")
       (auto simp: climbSizes_append climbHeights_append)
next
  case (4 i c cs)
  show ?case
  proof (cases "index_of_line i (collapse c)")
    case None
    with 4 have p: "parents i c = None" by simp
    show ?thesis
    proof (cases "index_of_line i (concat (map collapse cs))")
      case None
      with p \<open>index_of_line i (collapse c) = None\<close> 4 show ?thesis by (simp add: index_of_line_append)
    next
      case (Some k)
      with 4 p obtain m leaf j ps where "parentsChildren i cs = Some (m, (leaf, j) # ps)"
        "climbSizes ps (int j) + sum_list (map chunkSize (take m cs)) = int k"
        "climbHeights ps (sum_list (map lheight (take j (leaf_lines leaf)))) + sum_list (map chunkHeight (take m cs))
          = sum_list (map lheight (take k (concat (map collapse cs))))" by auto
      with Some None p 4 show ?thesis
        by (simp add: index_of_line_append consistent_size consistent_height)
    qed
  next
    case (Some k)
    with 4 index_of_line_Some [OF Some] show ?thesis by (auto simp: index_of_line_append)
  qed
qed simp

lemma lineNo_index:
  "consistent t \<Longrightarrow> lineNo first t i = map_option (\<lambda>k. first + int k) (index_of_line i (collapse t))"
  using parents_spec(1) [of t i] by (auto simp: lineNo_def split: option.splits)

lemma heightAbove_index:
  "consistent t \<Longrightarrow> heightAbove t i =
     map_option (\<lambda>k. sum_list (map lheight (take k (collapse t)))) (index_of_line i (collapse t))"
  using parents_spec(1) [of t i] by (auto simp: heightAbove_def split: option.splits)

lemma skipHeights_append:
  "0 \<le> h \<Longrightarrow> list_all (\<lambda>l. 0 \<le> lheight l) xs \<Longrightarrow> skipHeights (xs @ ys) h =
     (if h < sum_list (map lheight xs) then skipHeights xs h
      else int (length xs) + skipHeights ys (h - sum_list (map lheight xs)))"
proof (induction xs arbitrary: h)
  case (Cons l xs)
  have "0 \<le> sum_list (map lheight xs)" using Cons.prems
    by (auto simp: list_all_iff intro!: sum_list_nonneg)
  with Cons show ?case by (auto simp: algebra_simps)
qed simp

lemma atHeight_spec:
  "consistent c \<Longrightarrow> 0 \<le> h \<Longrightarrow> list_all (\<lambda>l. 0 \<le> lheight l) (collapse c) \<Longrightarrow>
     atHeight c h n = n + skipHeights (collapse c) h"
  "list_all consistent cs \<Longrightarrow> 0 \<le> h \<Longrightarrow> list_all (\<lambda>l. 0 \<le> lheight l) (concat (map collapse cs)) \<Longrightarrow>
     atHeightChildren cs h n = n + skipHeights (concat (map collapse cs)) h"
proof (induction c h n and cs h n rule: atHeight_atHeightChildren.induct)
  case (4 c cs h n)
  then show ?case
    using skipHeights_append [of h "collapse c" "concat (map collapse cs)"]
    by (auto simp: consistent_height consistent_size list_all_append)
qed simp_all

lemma skipHeights_take:
  "list_all (\<lambda>l. 0 \<le> lheight l) ls \<Longrightarrow> k < length ls \<Longrightarrow> 0 \<le> d \<Longrightarrow> d < lheight (ls ! k) \<Longrightarrow>
   skipHeights ls (sum_list (map lheight (take k ls)) + d) = int k"
proof -
  assume a: "list_all (\<lambda>l. 0 \<le> lheight l) ls" "k < length ls" "0 \<le> d" "d < lheight (ls ! k)"
  then have "skipHeights (take k ls @ ls ! k # drop (Suc k) ls) (sum_list (map lheight (take k ls)) + d) = int k"
    by (subst skipHeights_append)
       (auto simp: list_all_iff intro!: add_nonneg_nonneg sum_list_nonneg dest!: in_set_takeD)
  with a(2) show ?thesis by (simp add: id_take_nth_drop [symmetric])
qed

subsection \<open>Updates in place\<close>

lemma collapse_updateTree:
  "collapse (updateTree i f c) = map (\<lambda>l. if lid l = i then f l else l) (collapse c)"
proof (induction c rule: collapse.induct)
  case (2 ch sz h)
  then have "map (collapse \<circ> updateTree i f) ch
      = map (map (\<lambda>l. if lid l = i then f l else l) \<circ> collapse) ch" by simp
  then show ?case by (simp only: collapse.simps updateTree.simps map_map map_concat)
qed simp

lemma updateTree_size [simp]: "chunkSize (updateTree i f c) = chunkSize c"
  and updateTree_height [simp]: "chunkHeight (updateTree i f c) = chunkHeight c"
  and updateTree_leaf [simp]: "is_leaf (updateTree i f c) = is_leaf c"
  by (cases c; simp)+

lemma updateTree_wf:
  assumes "\<And>l. lheight (f l) = lheight l"
  shows "consistent (updateTree i f c) = consistent c" "bounded (updateTree i f c) = bounded c"
proof (induction c rule: collapse.induct)
  case (1 ls h)
  have "map (lheight \<circ> (\<lambda>l. if lid l = i then f l else l)) ls = map lheight ls" using assms by simp
  then show "consistent (updateTree i f (LeafChunk ls h)) = consistent (LeafChunk ls h)"
    "bounded (updateTree i f (LeafChunk ls h)) = bounded (LeafChunk ls h)"
    by (simp_all only: consistent.simps bounded.simps updateTree.simps map_map length_map)
next
  case (2 ch sz h)
  then show "consistent (updateTree i f (BranchChunk ch sz h)) = consistent (BranchChunk ch sz h)"
    "bounded (updateTree i f (BranchChunk ch sz h)) = bounded (BranchChunk ch sz h)"
    by (simp_all add: list_all_iff comp_def)
qed

lemma has_line_iff: "has_line i c \<longleftrightarrow> i \<in> lid ` set (collapse c)"
  by (induction c rule: collapse.induct) (auto simp: list_ex_iff)

lemma addHeight_absent: "\<not> has_line i c \<Longrightarrow> addHeight i d c = c"
  by (cases c) auto

lemma sum_list_once:
  fixes d :: int
  assumes "distinct (map lid (concat (map collapse ch)))"
  shows "sum_list (map (\<lambda>c. if has_line i c then d else 0) ch) = (if list_ex (has_line i) ch then d else 0)"
  using assms
proof (induction ch)
  case (Cons c ch)
  have "\<not> list_ex (has_line i) ch" if "has_line i c"
    using that Cons.prems by (force simp: has_line_iff list_ex_iff)
  with Cons show ?case by (auto simp: distinct_map)
qed simp

lemma addHeight_spec:
  "distinct (map lid (collapse c)) \<Longrightarrow> consistent c \<Longrightarrow>
     collapse (addHeight i d c) = map (\<lambda>l. if lid l = i then l\<lparr>lheight := lheight l + d\<rparr> else l) (collapse c)
     \<and> consistent (addHeight i d c) \<and> chunkSize (addHeight i d c) = chunkSize c
     \<and> chunkHeight (addHeight i d c) = chunkHeight c + (if has_line i c then d else 0)
     \<and> bounded (addHeight i d c) = bounded c \<and> is_leaf (addHeight i d c) = is_leaf c"
proof (induction c rule: collapse.induct)
  case (1 ls h)
  let ?g = "\<lambda>l. if lid l = i then l\<lparr>lheight := lheight l + d\<rparr> else l"
  have "distinct (map lid ls) \<Longrightarrow> sum_list (map (lheight \<circ> ?g) ls)
      = sum_list (map lheight ls) + (if list_ex (\<lambda>l. lid l = i) ls then d else 0)" for ls
    by (induction ls) (auto simp: list_ex_iff image_iff)
  from this [of ls] 1 have "list_ex (\<lambda>l. lid l = i) ls \<Longrightarrow> h + d = sum_list (map lheight (map ?g ls))"
    by (simp only: map_map) simp
  moreover have "map ?g ls = ls" if "\<not> list_ex (\<lambda>l. lid l = i) ls"
    using that by (intro map_idI) (auto simp: list_ex_iff)
  ultimately show ?case using 1 by (cases "list_ex (\<lambda>l. lid l = i) ls") (simp_all del: map_map)
next
  case (2 ch sz h)
  let ?g = "\<lambda>l. if lid l = i then l\<lparr>lheight := lheight l + d\<rparr> else l"
  let ?a = "addHeight i d"
  have IH: "collapse (?a c) = map ?g (collapse c)" "consistent (?a c)" "chunkSize (?a c) = chunkSize c"
    "chunkHeight (?a c) = chunkHeight c + (if has_line i c then d else 0)"
    "bounded (?a c) = bounded c" if "c \<in> set ch" for c
    using 2 that by (auto simp: distinct_map distinct_concat_iff list_all_iff inj_on_def)
  show ?case
  proof (cases "list_ex (has_line i) ch")
    case True
    have "map (collapse \<circ> ?a) ch = map (map ?g \<circ> collapse) ch" "map (chunkSize \<circ> ?a) ch = map chunkSize ch"
      "map (chunkHeight \<circ> ?a) ch = map (\<lambda>c. chunkHeight c + (if has_line i c then d else 0)) ch"
      using IH by auto
    then show ?thesis
      using True 2 IH sum_list_once [of ch i d]
      by (simp add: list_all_iff map_concat sum_list_addf del: map_eq_conv)
  next
    case False
    have "map ?g (concat (map collapse ch)) = concat (map collapse ch)"
      using False by (intro map_idI) (force simp: list_ex_iff has_line_iff)
    with False 2 show ?thesis by simp
  qed
qed

section \<open>The line store as a list\<close>

text \<open>
  What the document relies on: a store of lines with an abstraction to a list, whose
  insertion, removal and lookup mean the list operations and keep the invariant.
\<close>

locale line_store =
  fixes lines :: "'t \<Rightarrow> 'l list"
    and ok :: "'t \<Rightarrow> bool"
    and ins :: "int \<Rightarrow> 'l list \<Rightarrow> 't \<Rightarrow> 't"
    and del :: "int \<Rightarrow> int \<Rightarrow> 't \<Rightarrow> 't"
    and get :: "'t \<Rightarrow> int \<Rightarrow> 'l option"
  assumes ins_ok: "ok t \<Longrightarrow> 0 \<le> at \<Longrightarrow> at \<le> int (length (lines t)) \<Longrightarrow> ok (ins at new t)"
    and ins_lines: "ok t \<Longrightarrow> 0 \<le> at \<Longrightarrow> at \<le> int (length (lines t)) \<Longrightarrow>
      lines (ins at new t) = splice (nat at) 0 new (lines t)"
    and del_ok: "ok t \<Longrightarrow> 0 \<le> at \<Longrightarrow> 0 \<le> n \<Longrightarrow> at + n \<le> int (length (lines t)) \<Longrightarrow> ok (del at n t)"
    and del_lines: "ok t \<Longrightarrow> 0 \<le> at \<Longrightarrow> 0 \<le> n \<Longrightarrow> at + n \<le> int (length (lines t)) \<Longrightarrow>
      lines (del at n t) = splice (nat at) (nat n) [] (lines t)"
    and get_line: "ok t \<Longrightarrow> get t k =
      (if 0 \<le> k \<and> k < int (length (lines t)) then Some (lines t ! nat k) else None)"
begin

lemma replace_lines:
  assumes "ok t" "0 \<le> at" "0 \<le> n" "at + n \<le> int (length (lines t))"
  shows "lines (ins at new (del at n t)) = splice (nat at) (nat n) new (lines t)"
    "ok (ins at new (del at n t))"
proof -
  have l: "lines (del at n t) = splice (nat at) (nat n) [] (lines t)" and o: "ok (del at n t)"
    using assms by (simp_all add: del_lines del_ok)
  have "nat at + nat n \<le> length (lines t)" using assms by simp
  then have le: "at \<le> int (length (lines (del at n t)))"
    using assms by (simp add: l length_splice)
  have "splice (nat at) 0 new (splice (nat at) (nat n) [] (lines t)) = splice (nat at) (nat n) new (lines t)"
    using assms by (simp add: splice_def min_def)
  with o le assms show "lines (ins at new (del at n t)) = splice (nat at) (nat n) new (lines t)"
    "ok (ins at new (del at n t))" by (simp_all add: ins_lines ins_ok l)
qed

lemma get_after_insert:
  assumes "ok t" "0 \<le> at" "at \<le> int (length (lines t))" "0 \<le> k"
  shows "get (ins at new t) k =
    (if k < at then get t k
     else if k < at + int (length new) then Some (new ! nat (k - at))
     else get t (k - int (length new)))"
proof -
  have len: "length (lines (ins at new t)) = length (lines t) + length new"
    using assms by (simp add: ins_lines length_splice)
  have "lines (ins at new t) ! nat k =
    (if k < at then lines t ! nat k
     else if k < at + int (length new) then new ! nat (k - at)
     else lines t ! nat (k - int (length new)))" if "k < int (length (lines t) + length new)"
    using assms that
    by (auto simp: ins_lines splice_def nth_append min_def nat_diff_distrib le_nat_iff nat_less_iff
        intro!: arg_cong2 [of _ _ _ _ nth])
  with assms len show ?thesis
    by (auto simp: get_line ins_ok nat_diff_distrib)
qed

end

text \<open>The document numbers its lines from \<open>first\<close>; \<open>insert\<close> adds up the heights of the new lines.\<close>

definition docInsert :: "int \<Rightarrow> int \<Rightarrow> jsline list \<Rightarrow> chunk \<Rightarrow> chunk" where
  "docInsert first at new root = insertRoot (at - first) new (sum_list (map lheight new)) root"

definition docRemove :: "int \<Rightarrow> int \<Rightarrow> int \<Rightarrow> chunk \<Rightarrow> chunk" where
  "docRemove first at n root = removeInner (at - first) n root"

lemma wf_tree_size: "wf_tree t \<Longrightarrow> chunkSize t = int (length (collapse t))"
  by (simp add: wf_tree_def consistent_size)

interpretation tree: line_store collapse wf_tree "docInsert 0" "docRemove 0" "treeLine 0"
proof
  fix t :: chunk and at n k :: int and new :: "jsline list"
  assume t: "wf_tree t"
  note size = wf_tree_size [OF t]
  show "wf_tree (docInsert 0 at new t)" "collapse (docInsert 0 at new t) = splice (nat at) 0 new (collapse t)"
    if "0 \<le> at" "at \<le> int (length (collapse t))"
    using insertRoot_spec [OF t] that size by (simp_all add: docInsert_def)
  show "wf_tree (docRemove 0 at n t)" "collapse (docRemove 0 at n t) = splice (nat at) (nat n) [] (collapse t)"
    if "0 \<le> at" "0 \<le> n" "at + n \<le> int (length (collapse t))"
    using removeInner_wf [OF t] that size by (simp_all add: docRemove_def)
  show "treeLine 0 t k = (if 0 \<le> k \<and> k < int (length (collapse t)) then Some (collapse t ! nat k) else None)"
    using t by (simp add: wf_tree_def treeLine_spec)
qed

lemma treeLine_shift: "treeLine first t n = treeLine 0 t (n - first)"
  by (simp add: treeLine_def)

lemma docInsert_shift: "docInsert first at = docInsert 0 (at - first)"
  and docRemove_shift: "docRemove first at n = docRemove 0 (at - first) n"
  by (simp_all add: docInsert_def docRemove_def fun_eq_iff)

section \<open>Properties\<close>

text \<open>A well-formed tree of two leaves, for the concrete instances.\<close>

definition sample_line :: "nat \<Rightarrow> jsline" where
  "sample_line i = \<lparr>lid = i, ltext = replicate i 97, lspans = [], lheight = 1\<rparr>"

definition sample_tree :: chunk where
  "sample_tree = newBranch [newLeaf (map sample_line [0, 1]), newLeaf (map sample_line [2, 3])]"

lemma sample_tree_simps [simp]:
  "wf_tree sample_tree" "collapse sample_tree = map sample_line [0, 1, 2, 3]"
  by (simp_all add: sample_tree_def wf_tree_def newBranch_def newLeaf_def)

text \<open>
  C5. Inserting lines into the tree inserts them into its list of lines at that place, whatever leaves
  and branches are split on the way, and keeps sizes, heights and the limits of 50 lines and ten
  children.
\<close>

theorem insert_lines:
  assumes "wf_tree t" "first \<le> at" "at \<le> first + int (length (collapse t))"
  shows "wf_tree (docInsert first at new t) \<and>
    collapse (docInsert first at new t) = splice (nat (at - first)) 0 new (collapse t)"
  using assms tree.ins_ok [of t "at - first" new] tree.ins_lines [of t "at - first" new]
  by (simp add: docInsert_shift [of first])

theorem insert_lines_witness:
  "wf_tree (docInsert 5 7 (map sample_line [7, 8]) sample_tree) \<and>
   collapse (docInsert 5 7 (map sample_line [7, 8]) sample_tree) = map sample_line [0, 1, 7, 8, 2, 3]"
  using insert_lines [of sample_tree 5 7 "map sample_line [7, 8]"] by (simp add: splice_def)

text \<open>
  C9. Removing lines from the tree removes that part of its list of lines, across leaves and branches,
  and keeps the invariant.
\<close>

theorem remove_lines:
  assumes "wf_tree t" "first \<le> at" "0 \<le> n" "at + n \<le> first + int (length (collapse t))"
  shows "wf_tree (docRemove first at n t) \<and>
    collapse (docRemove first at n t) = splice (nat (at - first)) (nat n) [] (collapse t)"
  using assms tree.del_ok [of t "at - first" n] tree.del_lines [of t "at - first" n]
  by (simp add: docRemove_shift [of first])

theorem remove_lines_witness:
  "wf_tree (docRemove 5 6 2 sample_tree) \<and> collapse (docRemove 5 6 2 sample_tree) = map sample_line [0, 3]"
  using remove_lines [of sample_tree 5 6 2] by (simp add: splice_def)

text \<open>
  A tree left with fewer than 25 lines by a removal is a single leaf below its root, as the comment
  in \<open>removeInner\<close> promises.
\<close>

theorem remove_collapses:
  assumes "wf_tree t" "first \<le> at" "0 \<le> n" "at + n \<le> first + int (length (collapse t))"
    and "length (collapse t) < 25 + nat n"
  shows "\<exists>leaf. is_leaf leaf \<and> children (docRemove first at n t) = [leaf]"
proof -
  from assms(1) obtain ch sz h where t: "t = BranchChunk ch sz h"
    by (cases t) (auto simp: wf_tree_def)
  obtain ch' n' dh where r: "removeChildren (at - first) n ch = (ch', n', dh)"
    by (cases "removeChildren (at - first) n ch") auto
  have ok: "list_all consistent ch" "list_all bounded ch" and sz: "sz = sum_list (map chunkSize ch)"
    using assms(1) t by (simp_all add: wf_tree_def)
  have len: "sz = int (length (collapse t))" using ok sz t by (simp only: consistent_sizes collapse.simps)
  from remove_spec(2) [OF ok, of "at - first" n] assms r sz len have n': "n' = 0" by auto
  have "sz - n < 25" using assms len by linarith
  show ?thesis
  proof (cases "length ch' > 1 \<or> \<not> (ch' \<noteq> [] \<and> is_leaf (ch' ! 0))")
    case True
    with \<open>sz - n < 25\<close> n' r t show ?thesis by (simp add: docRemove_def)
  next
    case False
    then have "ch' = [ch' ! 0]" "is_leaf (ch' ! 0)" by (cases ch'; auto)+
    with \<open>sz - n < 25\<close> n' r t False show ?thesis
      by (auto simp: docRemove_def intro!: exI [of _ "ch' ! 0"])
  qed
qed

theorem remove_collapses_witness:
  "\<exists>leaf. is_leaf leaf \<and> children (docRemove 0 1 2 sample_tree) = [leaf]"
  by (rule remove_collapses) simp_all

text \<open>
  The climb from a line object to its number is the inverse of the descent from the number to the
  line object: the line found at \<open>n\<close> has number \<open>n\<close>.
\<close>

theorem lineNo_getLine:
  assumes "wf_tree t" "distinct (map lid (collapse t))" "treeLine first t n = Some l"
  shows "lineNo first t (lid l) = Some n"
proof -
  from assms have "first \<le> n" "n < first + int (length (collapse t))" "l = collapse t ! nat (n - first)"
    by (auto simp: treeLine_spec wf_tree_def split: if_splits)
  with assms(1,2) show ?thesis
    using index_of_line_nth [of "collapse t" "nat (n - first)"] by (simp add: lineNo_index wf_tree_def)
qed

theorem lineNo_getLine_witness: "lineNo 5 sample_tree 2 = Some 7"
proof -
  have "treeLine 5 sample_tree 7 = Some (sample_line 2)"
    by (simp add: sample_tree_def treeLine_def newBranch_def newLeaf_def)
  from lineNo_getLine [OF _ _ this] show ?thesis by (simp add: sample_line_def)
qed

text \<open>
  Vertical positions round-trip: with no negative heights, a point inside the line at index \<open>k\<close>, \<open>d\<close>
  below the height that \<open>heightAtLine\<close> adds up for it, is found by \<open>lineAtHeight\<close> in that line.
\<close>

theorem lineAtHeight_heightAbove:
  assumes "wf_tree t" "distinct (map lid (collapse t))" "list_all (\<lambda>l. 0 \<le> lheight l) (collapse t)"
    and "treeLine first t n = Some l" "0 \<le> d" "d < lheight l"
  shows "\<exists>h. heightAbove t (lid l) = Some h \<and> lineAtHeight first t (h + d) = n"
proof -
  from assms have n: "first \<le> n" "n < first + int (length (collapse t))" and l: "l = collapse t ! nat (n - first)"
    by (auto simp: treeLine_spec wf_tree_def split: if_splits)
  let ?h = "sum_list (map lheight (take (nat (n - first)) (collapse t)))"
  have "heightAbove t (lid l) = Some ?h"
    using assms(1,2) n l index_of_line_nth [of "collapse t" "nat (n - first)"]
    by (simp add: heightAbove_index wf_tree_def)
  moreover have "0 \<le> ?h" using assms(3)
    by (auto simp: list_all_iff intro!: sum_list_nonneg dest!: in_set_takeD)
  then have "lineAtHeight first t (?h + d) = n"
    using assms n l skipHeights_take [of "collapse t" "nat (n - first)" d]
    by (simp add: lineAtHeight_def atHeight_spec wf_tree_def)
  ultimately show ?thesis by blast
qed

theorem lineAtHeight_heightAbove_witness:
  "\<exists>h. heightAbove sample_tree 2 = Some h \<and> lineAtHeight 5 sample_tree (h + 0) = 7"
proof -
  have "treeLine 5 sample_tree 7 = Some (sample_line 2)"
    by (simp add: sample_tree_def treeLine_def newBranch_def newLeaf_def)
  from lineAtHeight_heightAbove [OF _ _ _ this, of 0] show ?thesis by (simp add: sample_line_def)
qed

text \<open>
  \<open>iterN\<close> on the tree calls its argument on exactly the lines of that part of the document, in order,
  until it returns true.
\<close>

theorem iterN_lines:
  assumes "wf_tree t" "0 \<le> at"
  shows "iterN at n op t s = iterLines op (take (nat n) (drop (nat at) (collapse t))) s"
  using assms by (intro iter_spec(1)) (auto simp: wf_tree_def)

theorem iterN_lines_witness:
  "iterN 1 2 (\<lambda>l s. (s @ [lid l], False)) sample_tree [] = ([1, 2], False)"
  using iterN_lines [of sample_tree 1 2 "\<lambda>l s. (s @ [lid l], False)" "[]"]
  by (simp add: sample_line_def)

end
