(* ===== verification/Positions.thy ===== *)
theory Positions
  imports Prelude
begin

text \<open>
  Positions, ranges, selections and changes of codemirror.js: the value types of the editor.
  \<open>Pos\<close>, \<open>Range\<close>, \<open>Selection\<close> and the arithmetic on them (\<open>cmp\<close>, \<open>normalizeSelection\<close>,
  \<open>changeEnd\<close>, \<open>adjustForChange\<close>, \<open>offsetPos\<close>).
\<close>

section \<open>Positions\<close>

datatype pos = Pos (pline: int) (pch: int)

text \<open>\<open>cmp\<close> is negative, zero or positive; \<open>a || b\<close> takes \<open>b\<close> when \<open>a\<close> is 0.\<close>

definition cmp :: "pos \<Rightarrow> pos \<Rightarrow> int" where
  "cmp a b = (if pline a - pline b \<noteq> 0 then pline a - pline b else pch a - pch b)"

definition copyPos :: "pos \<Rightarrow> pos" where
  "copyPos x = Pos (pline x) (pch x)"

definition maxPos :: "pos \<Rightarrow> pos \<Rightarrow> pos" where
  "maxPos a b = (if cmp a b < 0 then b else a)"

definition minPos :: "pos \<Rightarrow> pos \<Rightarrow> pos" where
  "minPos a b = (if cmp a b < 0 then a else b)"

instantiation pos :: linorder
begin

definition less_eq_pos :: "pos \<Rightarrow> pos \<Rightarrow> bool" where
  "a \<le> b \<longleftrightarrow> cmp a b \<le> 0"

definition less_pos :: "pos \<Rightarrow> pos \<Rightarrow> bool" where
  "a < b \<longleftrightarrow> cmp a b < 0"

instance
proof
  fix x y z :: pos
  show "x < y \<longleftrightarrow> x \<le> y \<and> \<not> y \<le> x" "x \<le> x" "x \<le> y \<or> y \<le> x"
    by (auto simp: less_eq_pos_def less_pos_def cmp_def)
  show "x \<le> y \<Longrightarrow> y \<le> z \<Longrightarrow> x \<le> z" "x \<le> y \<Longrightarrow> y \<le> x \<Longrightarrow> x = y"
    by (auto simp: less_eq_pos_def cmp_def pos.expand split: if_splits)
qed

end

section \<open>Ranges and selections\<close>

record range =
  anchor :: pos
  head :: pos

definition Range :: "pos \<Rightarrow> pos \<Rightarrow> range" where
  "Range a h = \<lparr>anchor = a, head = h\<rparr>"

definition range_from :: "range \<Rightarrow> pos" where
  "range_from r = minPos (anchor r) (head r)"

definition range_to :: "range \<Rightarrow> pos" where
  "range_to r = maxPos (anchor r) (head r)"

definition range_empty :: "range \<Rightarrow> bool" where
  "range_empty r \<longleftrightarrow> pline (head r) = pline (anchor r) \<and> pch (head r) = pch (anchor r)"

text \<open>
  \<open>r.from() == r.head\<close> compares object identities: \<open>minPos\<close> returns the anchor object exactly
  when the anchor is smaller.
\<close>

definition from_is_head :: "range \<Rightarrow> bool" where
  "from_is_head r \<longleftrightarrow> \<not> cmp (anchor r) (head r) < 0"

record selection =
  ranges :: "range list"
  primIndex :: int

definition Selection :: "range list \<Rightarrow> int \<Rightarrow> selection" where
  "Selection rs p = \<lparr>ranges = rs, primIndex = p\<rparr>"

definition primary :: "selection \<Rightarrow> range option" where
  "primary s = (if 0 \<le> primIndex s \<and> primIndex s < int (length (ranges s))
                then Some (ranges s ! nat (primIndex s)) else None)"

fun ranges_equal :: "range list \<Rightarrow> range list \<Rightarrow> bool" where
  "ranges_equal [] _ = True"
| "ranges_equal (here # hs) (there # ts) =
     (if cmp (anchor here) (anchor there) \<noteq> 0 \<or> cmp (head here) (head there) \<noteq> 0 then False
      else ranges_equal hs ts)"
| "ranges_equal (_ # _) [] = False"

definition sel_equals :: "selection \<Rightarrow> selection \<Rightarrow> bool" where
  "sel_equals this other =
     (if primIndex other \<noteq> primIndex this \<or> length (ranges other) \<noteq> length (ranges this)
      then False else ranges_equal (ranges this) (ranges other))"

definition deepCopy :: "selection \<Rightarrow> selection" where
  "deepCopy s = Selection (map (\<lambda>r. Range (copyPos (anchor r)) (copyPos (head r))) (ranges s))
                          (primIndex s)"

definition sel_somethingSelected :: "selection \<Rightarrow> bool" where
  "sel_somethingSelected s \<longleftrightarrow> list_ex (\<lambda>r. \<not> range_empty r) (ranges s)"

fun sel_contains_from :: "nat \<Rightarrow> range list \<Rightarrow> pos \<Rightarrow> pos \<Rightarrow> int" where
  "sel_contains_from i [] p e = -1"
| "sel_contains_from i (r # rs) p e =
     (if cmp e (range_from r) \<ge> 0 \<and> cmp p (range_to r) \<le> 0 then int i
      else sel_contains_from (Suc i) rs p e)"

definition sel_contains :: "selection \<Rightarrow> pos \<Rightarrow> pos option \<Rightarrow> int" where
  "sel_contains s p e =
     sel_contains_from 0 (ranges s) p (case e of None \<Rightarrow> p | Some q \<Rightarrow> q)"

definition simpleSelection :: "pos \<Rightarrow> pos option \<Rightarrow> selection" where
  "simpleSelection a h = Selection [Range a (case h of None \<Rightarrow> a | Some q \<Rightarrow> q)] 0"

subsection \<open>normalizeSelection\<close>

text \<open>
  The body of the merge: two overlapping or touching neighbours become one range, with the
  direction of the previous one (or of the current one when the previous is empty).
\<close>

definition merge_ranges :: "range \<Rightarrow> range \<Rightarrow> range" where
  "merge_ranges prev cur =
     (let from = minPos (range_from prev) (range_from cur);
          to = maxPos (range_to prev) (range_to cur);
          inv = (if range_empty prev then from_is_head cur else from_is_head prev)
      in Range (if inv then to else from) (if inv then from else to))"

text \<open>
  The loop over the sorted array. \<open>k\<close> is the code's \<open>i - 1\<close>; a merge decrements \<open>i\<close> before
  the loop increments it, so the merged range is compared with its successor next.
\<close>

function norm_loop :: "range list \<Rightarrow> nat \<Rightarrow> int \<Rightarrow> range list \<times> int" where
  "norm_loop rs k p =
     (if Suc k < length rs then
        (let cur = rs ! Suc k; prev = rs ! k in
         if cmp (range_to prev) (range_from cur) \<ge> 0
         then norm_loop (splice k 2 [merge_ranges prev cur] rs) k
                (if int (Suc k) \<le> p then p - 1 else p)
         else norm_loop rs (Suc k) p)
      else (rs, p))"
  by pat_completeness auto
termination
  by (relation "measure (\<lambda>(rs, k, p). length rs - k)") (auto simp: splice_def)

declare norm_loop.simps [simp del]

text \<open>
  \<open>ranges.sort\<close> with the comparison on \<open>from\<close> (a stable sort), then \<open>indexOf\<close> of the primary
  range object: objects are told apart by their index in the array before the sort.
\<close>

definition normalizeSelection :: "range list \<Rightarrow> int \<Rightarrow> selection" where
  "normalizeSelection rs p =
     (let tagged = sort_key (\<lambda>(i, r). range_from r) (zip [0..<length rs] rs);
          prim = indexOf (map (\<lambda>(i, r). int i) tagged) p;
          (rs', p') = norm_loop (map snd tagged) 0 prim
      in Selection rs' p')"

section \<open>Changes\<close>

text \<open>
  A change object: the lines \<open>ctext\<close> replace the text between \<open>cfrom\<close> and \<open>cto\<close>. The
  \<open>origin\<close> is undefined or a string.
\<close>

record change =
  cfrom :: pos
  cto :: pos
  ctext :: "jstr list"
  corigin :: "string option"

definition Change :: "pos \<Rightarrow> pos \<Rightarrow> jstr list \<Rightarrow> string option \<Rightarrow> change" where
  "Change f t x orig = \<lparr>cfrom = f, cto = t, ctext = x, corigin = orig\<rparr>"

text \<open>
  The array of lines of a change is never empty: \<open>[]\<close> stands for the undefined \<open>text\<close> of the
  pseudo-change that \<open>markText\<close> adds to the history.
\<close>

definition changeEnd :: "'a change_scheme \<Rightarrow> pos" where
  "changeEnd c = (if ctext c = [] then cto c else Pos (pline (cfrom c) + int (length (ctext c)) - 1)
     (int (length (last (ctext c))) + (if length (ctext c) = 1 then pch (cfrom c) else 0)))"

definition adjustForChange :: "pos \<Rightarrow> change \<Rightarrow> pos" where
  "adjustForChange p c =
     (if cmp p (cfrom c) < 0 then p
      else if cmp p (cto c) \<le> 0 then changeEnd c
      else let ln = pline p + int (length (ctext c)) - (pline (cto c) - pline (cfrom c)) - 1;
               c' = pch p + (if pline p = pline (cto c) then pch (changeEnd c) - pch (cto c) else 0)
           in Pos ln c')"

definition offsetPos :: "pos \<Rightarrow> pos \<Rightarrow> pos \<Rightarrow> pos" where
  "offsetPos p old nw =
     (if pline p = pline old then Pos (pline nw) (pch p - pch old + pch nw)
      else Pos (pline nw + (pline p - pline old)) (pch p))"

text \<open>
  \<open>computeReplacedSel\<close>: the selection after replacing every range, either at the start of each
  replaced text or around it; with the hint \<open>around\<close> it reads the range of every change and
  fails when there are more changes than ranges.
\<close>

fun replaced_ranges :: "change list \<Rightarrow> range list \<Rightarrow> bool \<Rightarrow> pos \<Rightarrow> pos \<Rightarrow> range list option" where
  "replaced_ranges [] rs around oldPrev newPrev = Some []"
| "replaced_ranges (c # cs) rs around oldPrev newPrev =
     (let from = offsetPos (cfrom c) oldPrev newPrev;
          to = offsetPos (changeEnd c) oldPrev newPrev
      in do {
        out \<leftarrow> (if around
                then (case rs of
                        [] \<Rightarrow> None
                      | r # _ \<Rightarrow> (let inv = cmp (head r) (anchor r) < 0
                                  in Some (Range (if inv then to else from) (if inv then from else to))))
                else Some (Range from from));
        outs \<leftarrow> replaced_ranges cs (tl rs) around (cto c) to;
        Some (out # outs)
      })"

definition computeReplacedSel :: "int \<Rightarrow> selection \<Rightarrow> change list \<Rightarrow> string \<Rightarrow> selection option" where
  "computeReplacedSel first sel cs hint = do {
     out \<leftarrow> replaced_ranges cs (ranges sel) (hint = ''around'') (Pos first 0) (Pos first 0);
     Some (Selection out (primIndex sel))
   }"

section \<open>Facts on positions\<close>

named_theorems pos_defs \<open>definitions that turn positions into coordinates\<close>

lemma cmp_less [simp]: "cmp a b < 0 \<longleftrightarrow> a < b"
  by (simp add: less_pos_def)

lemma cmp_le [simp]: "cmp a b \<le> 0 \<longleftrightarrow> a \<le> b"
  by (simp add: less_eq_pos_def)

lemma cmp_ge [simp]: "0 \<le> cmp a b \<longleftrightarrow> b \<le> a"
  unfolding not_less [symmetric] by simp

lemma cmp_gt [simp]: "0 < cmp a b \<longleftrightarrow> b < a"
  unfolding not_le [symmetric] by simp

lemma cmp_zero [simp]: "cmp a b = 0 \<longleftrightarrow> a = b"
  by (auto simp: cmp_def pos.expand)

lemma minPos_min [simp]: "minPos a b = min a b"
  by (auto simp: minPos_def min_def)

lemma maxPos_max [simp]: "maxPos a b = max a b"
  by (auto simp: maxPos_def max_def)

lemma copyPos_id [simp]: "copyPos p = p"
  by (cases p) (simp add: copyPos_def)

lemma pos_less_iff [pos_defs]:
  "(a::pos) < b \<longleftrightarrow> pline a < pline b \<or> pline a = pline b \<and> pch a < pch b"
  by (auto simp: less_pos_def cmp_def simp del: cmp_less)

lemma pos_le_iff [pos_defs]:
  "(a::pos) \<le> b \<longleftrightarrow> pline a < pline b \<or> pline a = pline b \<and> pch a \<le> pch b"
  by (auto simp: less_eq_pos_def cmp_def simp del: cmp_le)

lemma pos_eq_iff [pos_defs]: "a = b \<longleftrightarrow> pline a = pline b \<and> pch a = pch b"
  by (auto simp: pos.expand)

lemma range_sel [simp]: "anchor (Range a h) = a" "head (Range a h) = h"
  by (simp_all add: Range_def)

lemma range_from_min: "range_from r = min (anchor r) (head r)"
  and range_to_max: "range_to r = max (anchor r) (head r)"
  by (simp_all add: range_from_def range_to_def)

lemma range_from_le_to [simp]: "range_from r \<le> range_to r"
  by (simp add: range_from_min range_to_max min_le_iff_disj le_max_iff_disj)

lemma range_from_to_Range [simp]:
  "range_from (Range a h) = min a h" "range_to (Range a h) = max a h"
  by (simp_all add: range_from_min range_to_max)

lemma selection_sel [simp]: "ranges (Selection rs p) = rs" "primIndex (Selection rs p) = p"
  by (simp_all add: Selection_def)

lemma range_surj: "Range (anchor r) (head r) = r"
  by (simp add: Range_def)

lemma selection_surj: "Selection (ranges s) (primIndex s) = s"
  by (simp add: Selection_def)

lemma deepCopy_id [simp]: "deepCopy s = s"
  by (simp add: deepCopy_def range_surj selection_surj)

lemma ranges_equal_iff: "length as = length bs \<Longrightarrow> ranges_equal as bs \<longleftrightarrow> as = bs"
  by (induction as bs rule: ranges_equal.induct) auto

lemma sel_equals_iff [simp]: "sel_equals a b \<longleftrightarrow> a = b"
  by (auto simp: sel_equals_def ranges_equal_iff)

lemma change_sel [simp]:
  "cfrom (Change f t x og) = f" "cto (Change f t x og) = t"
  "ctext (Change f t x og) = x" "corigin (Change f t x og) = og"
  by (simp_all add: Change_def)

subsection \<open>The merge loop, structurally\<close>

text \<open>
  \<open>norm_loop\<close> walks an array in place; \<open>norm_list\<close> and \<open>norm_prim\<close> are the same loop as
  recursions on the part of the array that is still to be visited.
\<close>

fun norm_list :: "range \<Rightarrow> range list \<Rightarrow> range list" where
  "norm_list prev [] = [prev]"
| "norm_list prev (cur # rest) =
     (if range_from cur \<le> range_to prev then norm_list (merge_ranges prev cur) rest
      else prev # norm_list cur rest)"

fun norm_prim :: "range \<Rightarrow> range list \<Rightarrow> nat \<Rightarrow> int \<Rightarrow> int" where
  "norm_prim prev [] k p = p"
| "norm_prim prev (cur # rest) k p =
     (if range_from cur \<le> range_to prev
      then norm_prim (merge_ranges prev cur) rest k (if int (Suc k) \<le> p then p - 1 else p)
      else norm_prim cur rest (Suc k) p)"

lemma norm_loop_structural:
  "norm_loop (pre @ prev # rest) (length pre) p
   = (pre @ norm_list prev rest, norm_prim prev rest (length pre) p)"
proof (induction rest arbitrary: pre prev p)
  case Nil
  then show ?case by (simp add: norm_loop.simps)
next
  case (Cons cur rest)
  have cur: "(pre @ prev # cur # rest) ! Suc (length pre) = cur" by (simp add: nth_append)
  show ?case
  proof (cases "range_from cur \<le> range_to prev")
    case True
    have "splice (length pre) 2 [merge_ranges prev cur] (pre @ prev # cur # rest)
        = pre @ merge_ranges prev cur # rest"
      by (simp add: splice_append_prefix)
    with True cur Cons.IH [of pre "merge_ranges prev cur"] show ?thesis
      by (subst norm_loop.simps) (simp add: Let_def)
  next
    case False
    with cur Cons.IH [of "pre @ [prev]" cur p] show ?thesis
      by (subst norm_loop.simps) (simp add: Let_def)
  qed
qed

lemma merge_ranges_bounds [simp]:
  "range_from (merge_ranges a b) = min (range_from a) (range_from b)"
  "range_to (merge_ranges a b) = max (range_to a) (range_to b)"
proof -
  have *: "min (range_from a) (range_from b) \<le> max (range_to a) (range_to b)"
    using range_from_le_to [of a] by (simp add: min_le_iff_disj le_max_iff_disj)
  show "range_from (merge_ranges a b) = min (range_from a) (range_from b)"
    using * by (simp add: merge_ranges_def Let_def min_absorb1 min_absorb2)
  show "range_to (merge_ranges a b) = max (range_to a) (range_to b)"
    using * by (simp add: merge_ranges_def Let_def max_absorb1 max_absorb2)
qed

text \<open>Ranges that do not touch, in order.\<close>

definition separated :: "range list \<Rightarrow> bool" where
  "separated rs \<longleftrightarrow> sorted_wrt (\<lambda>a b. range_to a < range_from b) rs"

definition covers :: "range \<Rightarrow> pos \<Rightarrow> bool" where
  "covers r x \<longleftrightarrow> range_from r \<le> x \<and> x \<le> range_to r"

definition within :: "range \<Rightarrow> range \<Rightarrow> bool" where
  "within a b \<longleftrightarrow> range_from b \<le> range_from a \<and> range_to a \<le> range_to b"

lemma norm_list_from:
  "sorted (map range_from (prev # rest)) \<Longrightarrow> r \<in> set (norm_list prev rest) \<Longrightarrow> range_from prev \<le> range_from r"
proof (induction prev rest rule: norm_list.induct)
  case (2 prev cur rest)
  show ?case
  proof (cases "range_from cur \<le> range_to prev")
    case True
    then have "sorted (map range_from (merge_ranges prev cur # rest))"
      using "2.prems"(1) by (simp add: min_le_iff_disj)
    with "2.IH"(1) [OF True] True "2.prems" show ?thesis by (simp add: min_def split: if_splits)
  next
    case False
    with "2.prems" "2.IH"(2) show ?thesis by (auto intro: order_trans)
  qed
qed simp

lemma norm_list_separated:
  "sorted (map range_from (prev # rest)) \<Longrightarrow> separated (norm_list prev rest)"
proof (induction prev rest rule: norm_list.induct)
  case (1 prev)
  then show ?case by (simp add: separated_def)
next
  case (2 prev cur rest)
  show ?case
  proof (cases "range_from cur \<le> range_to prev")
    case True
    then have "sorted (map range_from (merge_ranges prev cur # rest))"
      using "2.prems"(1) by (simp add: min_le_iff_disj)
    with True "2.IH"(1) show ?thesis by simp
  next
    case False
    then have s: "sorted (map range_from (cur # rest))" using "2.prems" by simp
    have "range_to prev < range_from r" if "r \<in> set (norm_list cur rest)" for r
      using norm_list_from [OF s that] False by simp
    with False "2.IH"(2) [OF False s] show ?thesis by (simp add: separated_def)
  qed
qed

lemma norm_list_covers:
  "sorted (map range_from (prev # rest)) \<Longrightarrow>
   (\<exists>r \<in> set (norm_list prev rest). covers r x) \<longleftrightarrow> (\<exists>r \<in> set (prev # rest). covers r x)"
proof (induction prev rest rule: norm_list.induct)
  case (2 prev cur rest)
  show ?case
  proof (cases "range_from cur \<le> range_to prev")
    case True
    then have s: "sorted (map range_from (merge_ranges prev cur # rest))"
      using "2.prems"(1) by (simp add: min_le_iff_disj)
    have "range_from prev \<le> range_from cur" using "2.prems" by simp
    then have "covers (merge_ranges prev cur) x \<longleftrightarrow> covers prev x \<or> covers cur x"
      using True by (auto simp: covers_def le_max_iff_disj intro: order_trans)
    with True "2.IH"(1) [OF True s] show ?thesis by simp
  next
    case False
    with "2.IH"(2) [OF False] "2.prems" show ?thesis by simp
  qed
qed simp

lemma norm_prim_low: "p \<le> int k \<Longrightarrow> norm_prim prev rest k p = p"
  by (induction prev rest k p rule: norm_prim.induct) auto

lemma norm_prim_keeps:
  "sorted (map range_from (prev # rest)) \<Longrightarrow> int k \<le> p \<Longrightarrow> p < int (k + length (prev # rest)) \<Longrightarrow>
   int k \<le> norm_prim prev rest k p \<and> norm_prim prev rest k p < int (k + length (norm_list prev rest)) \<and>
   within ((prev # rest) ! nat (p - int k)) (norm_list prev rest ! nat (norm_prim prev rest k p - int k))"
proof (induction prev rest k p rule: norm_prim.induct)
  case (1 prev k p)
  then show ?case by (simp add: within_def)
next
  case (2 prev cur rest k p)
  let ?p = "if int (Suc k) \<le> p then p - 1 else p"
  show ?case
  proof (cases "range_from cur \<le> range_to prev")
    case True
    then have s: "sorted (map range_from (merge_ranges prev cur # rest))"
      using "2.prems"(1) by (simp add: min_le_iff_disj)
    have "within ((prev # cur # rest) ! nat (p - int k)) ((merge_ranges prev cur # rest) ! nat (?p - int k))"
    proof (cases "p \<le> int (Suc k)")
      case True
      with "2.prems"(2) have "p = int k \<or> p = int (Suc k)" by linarith
      then show ?thesis by (auto simp: within_def)
    next
      case False
      then have "nat (p - int k) = Suc (nat (?p - int k))" "nat (?p - int k) = Suc (nat (?p - int k) - 1)"
        by auto
      then show ?thesis by (metis nth_Cons_Suc within_def order_refl)
    qed
    moreover have "int k \<le> ?p" "?p < int (k + length (merge_ranges prev cur # rest))"
      using "2.prems" by auto
    ultimately show ?thesis
      using "2.IH"(1) [OF True s] True unfolding within_def by (auto intro: order_trans)
  next
    case False
    show ?thesis
    proof (cases "p = int k")
      case True
      then have "norm_prim cur rest (Suc k) p = p"
        by (simp add: norm_prim_low)
      with True False show ?thesis by (simp add: within_def)
    next
      case neq: False
      then have p: "int (Suc k) \<le> p" using "2.prems" by simp
      let ?q = "norm_prim cur rest (Suc k) p"
      from False have s: "sorted (map range_from (cur # rest))" using "2.prems" by simp
      have q: "int (Suc k) \<le> ?q" "?q < int (Suc k + length (norm_list cur rest))"
        "within ((cur # rest) ! nat (p - int (Suc k))) (norm_list cur rest ! nat (?q - int (Suc k)))"
        using "2.IH"(2) [OF False s p] "2.prems" by auto
      from p q have "nat (p - int k) = Suc (nat (p - int (Suc k)))"
        "nat (?q - int k) = Suc (nat (?q - int (Suc k)))" by linarith+
      with q False show ?thesis by simp
    qed
  qed
qed

subsection \<open>normalizeSelection\<close>

text \<open>The array after the sort: the ranges with the indices that stand for their identity.\<close>

definition sorted_tagged :: "range list \<Rightarrow> (nat \<times> range) list" where
  "sorted_tagged rs = sort_key (\<lambda>(i, r). range_from r) (zip [0..<length rs] rs)"

lemma sorted_tagged_sorted: "sorted (map range_from (map snd (sorted_tagged rs)))"
proof -
  have "sorted (map (\<lambda>(i, r). range_from r) (sorted_tagged rs))"
    by (simp add: sorted_tagged_def)
  then show ?thesis by (simp add: case_prod_unfold comp_def)
qed

lemma sorted_tagged_set: "set (sorted_tagged rs) = set (zip [0..<length rs] rs)"
  and sorted_tagged_length [simp]: "length (sorted_tagged rs) = length rs"
  by (simp_all add: sorted_tagged_def)

lemma sorted_tagged_ranges: "set (map snd (sorted_tagged rs)) = set rs"
  by (simp only: set_map sorted_tagged_set) (simp flip: set_map)

lemma sorted_tagged_Nil [simp]: "sorted_tagged [] = []"
  by (simp add: sorted_tagged_def)

lemma normalizeSelection_structural:
  assumes "map snd (sorted_tagged rs) = r0 # rest"
  shows "normalizeSelection rs p =
    Selection (norm_list r0 rest)
      (norm_prim r0 rest 0 (indexOf (map (\<lambda>(i, r). int i) (sorted_tagged rs)) p))"
  using norm_loop_structural [of "[]" r0 rest] assms
  by (simp add: normalizeSelection_def sorted_tagged_def [symmetric] Let_def)

lemma normalizeSelection_Nil: "ranges (normalizeSelection [] p) = []"
  by (simp add: normalizeSelection_def norm_loop.simps)

lemma sorted_tagged_Cons:
  assumes "rs \<noteq> []"
  obtains r0 rest where "map snd (sorted_tagged rs) = r0 # rest"
proof (cases "map snd (sorted_tagged rs)")
  case Nil
  then have "length (sorted_tagged rs) = 0" by simp
  with assms show thesis by (simp only: sorted_tagged_length length_0_conv)
next
  case (Cons r0 rest)
  then show thesis by (rule that)
qed

text \<open>
  C37. The ranges of a normalised selection are in document order and neither overlap nor touch.
\<close>

theorem normalize_separated: "separated (ranges (normalizeSelection rs p))"
proof (cases "rs = []")
  case True
  then show ?thesis by (simp add: normalizeSelection_Nil separated_def)
next
  case False
  then obtain r0 rest where r: "map snd (sorted_tagged rs) = r0 # rest"
    by (rule sorted_tagged_Cons)
  with sorted_tagged_sorted [of rs] have "sorted (map range_from (r0 # rest))" by simp
  then show ?thesis
    by (simp only: normalizeSelection_structural [OF r] selection_sel norm_list_separated)
qed

text \<open>
  Normalising a selection changes which positions are selected in no way: a position is covered
  by one of the resulting ranges exactly when it was covered by one of the given ones.
\<close>

theorem normalize_covers:
  "(\<exists>r \<in> set (ranges (normalizeSelection rs p)). covers r x) \<longleftrightarrow> (\<exists>r \<in> set rs. covers r x)"
proof (cases "rs = []")
  case True
  then show ?thesis by (simp add: normalizeSelection_Nil)
next
  case False
  then obtain r0 rest where r: "map snd (sorted_tagged rs) = r0 # rest"
    by (rule sorted_tagged_Cons)
  with sorted_tagged_sorted [of rs] have s: "sorted (map range_from (r0 # rest))" by simp
  have "set rs = set (r0 # rest)" using sorted_tagged_ranges [of rs] r by simp
  with norm_list_covers [OF s, of x] show ?thesis
    by (simp only: normalizeSelection_structural [OF r] selection_sel)
qed

lemma sorted_tagged_prim:
  assumes "0 \<le> p" "p < int (length rs)"
  defines "j \<equiv> indexOf (map (\<lambda>(i, r). int i) (sorted_tagged rs)) p"
  shows "0 \<le> j \<and> j < int (length rs) \<and> map snd (sorted_tagged rs) ! nat j = rs ! nat p"
proof -
  have "(nat p, rs ! nat p) \<in> set (zip [0..<length rs] rs)"
    using assms by (force simp: set_zip)
  then have "(nat p, rs ! nat p) \<in> set (sorted_tagged rs)"
    by (simp add: sorted_tagged_set)
  then have "(\<lambda>(i, r). int i) (nat p, rs ! nat p) \<in> (\<lambda>(i, r). int i) ` set (sorted_tagged rs)"
    by (rule imageI)
  with assms(1) have "p \<in> set (map (\<lambda>(i, r). int i) (sorted_tagged rs))"
    by simp
  from indexOf_in [OF this] have j: "0 \<le> j" "j < int (length rs)"
    and e: "map (\<lambda>(i, r). int i) (sorted_tagged rs) ! nat j = p"
    by (auto simp: j_def)
  obtain i r where ir: "sorted_tagged rs ! nat j = (i, r)" by fastforce
  with e j assms(1) have "i = nat p" by auto
  moreover have "(i, r) \<in> set (sorted_tagged rs)"
    using ir j by (metis nth_mem sorted_tagged_length nat_less_iff)
  then have "r = rs ! i"
    by (auto simp: sorted_tagged_set set_zip)
  ultimately show ?thesis using ir j by auto
qed

lemma normalize_prim_within:
  assumes "0 \<le> p" "p < int (length rs)"
  shows "\<exists>r. primary (normalizeSelection rs p) = Some r \<and> within (rs ! nat p) r"
proof -
  let ?j = "indexOf (map (\<lambda>(i, r). int i) (sorted_tagged rs)) p"
  from assms have "rs \<noteq> []" by auto
  then obtain r0 rest where r: "map snd (sorted_tagged rs) = r0 # rest"
    by (rule sorted_tagged_Cons)
  with sorted_tagged_sorted [of rs] have s: "sorted (map range_from (r0 # rest))" by simp
  have len: "length (r0 # rest) = length rs"
    using arg_cong [OF r, of length] by simp
  have j: "0 \<le> ?j" "?j < int (length rs)" "(r0 # rest) ! nat ?j = rs ! nat p"
    using sorted_tagged_prim [OF assms] r by auto
  with norm_prim_keeps [OF s, of 0 ?j] len show ?thesis
    by (auto simp: normalizeSelection_structural [OF r] primary_def)
qed

text \<open>The ends of the ranges of a normalised selection are ends of the ranges it was made from.\<close>

definition range_ends :: "range list \<Rightarrow> pos set" where
  "range_ends rs = anchor ` set rs \<union> head ` set rs"

lemma merge_ranges_ends: "range_ends (merge_ranges a b # rs) \<subseteq> range_ends (a # b # rs)"
  by (auto simp: range_ends_def merge_ranges_def Let_def range_from_min range_to_max min_def max_def)

lemma norm_list_ends: "range_ends (norm_list prev rest) \<subseteq> range_ends (prev # rest)"
proof (induction prev rest rule: norm_list.induct)
  case (2 prev cur rest)
  have "range_ends (prev # xs) \<subseteq> range_ends (prev # ys)" if "range_ends xs \<subseteq> range_ends ys" for xs ys
    using that by (auto simp: range_ends_def)
  with 2 merge_ranges_ends [of prev cur rest] show ?case by (simp; blast)
qed simp

lemma normalize_ends: "range_ends (ranges (normalizeSelection rs p)) \<subseteq> range_ends rs"
proof (cases "rs = []")
  case True
  then show ?thesis by (simp add: normalizeSelection_Nil)
next
  case False
  then obtain r0 rest where r: "map snd (sorted_tagged rs) = r0 # rest" by (rule sorted_tagged_Cons)
  have "set (r0 # rest) = set rs" using sorted_tagged_ranges [of rs] r by simp
  then have "range_ends (r0 # rest) = range_ends rs" by (simp only: range_ends_def)
  then show ?thesis using norm_list_ends [of r0 rest] by (simp add: normalizeSelection_structural [OF r])
qed

text \<open>
  The primary range survives normalisation: the primary index of the result is in range and the
  range it names contains the range that was primary before.
\<close>

theorem normalize_primary:
  assumes "0 \<le> p" "p < int (length rs)"
  shows "\<exists>r. primary (normalizeSelection rs p) = Some r \<and> within (rs ! nat p) r"
  using assms by (rule normalize_prim_within)

theorem normalize_primary_witness:
  "\<exists>r. primary (normalizeSelection [Range (Pos 1 0) (Pos 2 3), Range (Pos 0 4) (Pos 1 2)] 0) = Some r \<and>
     within (Range (Pos 1 0) (Pos 2 3)) r"
  using normalize_primary [of 0 "[Range (Pos 1 0) (Pos 2 3), Range (Pos 0 4) (Pos 1 2)]"] by simp

lemma norm_list_id: "separated (prev # rest) \<Longrightarrow> norm_list prev rest = prev # rest \<and> norm_prim prev rest k p = p"
proof (induction rest arbitrary: prev k)
  case (Cons cur rest)
  then have "range_to prev < range_from cur" "separated (cur # rest)"
    by (auto simp: separated_def)
  with Cons.IH show ?case by auto
qed simp

lemma separated_sorted: "separated rs \<Longrightarrow> sorted (map range_from rs)"
  unfolding separated_def sorted_map
  by (erule sorted_wrt_mono_rel [rotated]) (meson less_imp_le order_trans range_from_le_to)

lemma indexOf_int_upt: "0 \<le> p \<Longrightarrow> p < int n \<Longrightarrow> indexOf (map int [0..<n]) p = p"
proof -
  assume "0 \<le> p" "p < int n"
  then have "p \<in> set (map int [0..<n])" by (force simp: image_iff intro: bexI [of _ "nat p"])
  from indexOf_in [OF this] show ?thesis by auto
qed

text \<open>
  A selection whose ranges are already in order and apart is a fixed point of normalisation, so
  normalising twice is normalising once.
\<close>

theorem normalize_idempotent:
  assumes "separated rs" "0 \<le> p" "p < int (length rs)"
  shows "normalizeSelection rs p = Selection rs p"
proof -
  have "sorted (map (\<lambda>(i, r). range_from r) (zip [0..<length rs] rs))"
  proof -
    have "map (\<lambda>(i, r). range_from r) (zip [0..<length rs] rs) = map range_from (map snd (zip [0..<length rs] rs))"
      by (simp only: map_map comp_def case_prod_unfold)
    also have "\<dots> = map range_from rs" by simp
    finally show ?thesis using separated_sorted [OF assms(1)] by simp
  qed
  then have st: "sorted_tagged rs = zip [0..<length rs] rs"
    by (simp add: sorted_tagged_def sort_key_id_if_sorted)
  have "map (\<lambda>(i, r). int i) (zip [0..<length rs] rs) = map int (map fst (zip [0..<length rs] rs))"
    by (simp only: map_map comp_def case_prod_unfold)
  then have idx: "map (\<lambda>(i, r). int i) (sorted_tagged rs) = map int [0..<length rs]"
    by (simp add: st)
  obtain r0 rest where rs: "rs = r0 # rest" using assms by (cases rs) auto
  then have r: "map snd (sorted_tagged rs) = r0 # rest" using st by simp
  have "indexOf (map (\<lambda>(i, r). int i) (sorted_tagged rs)) p = p"
    using idx assms by (simp add: indexOf_int_upt)
  then show ?thesis
    using norm_list_id [of r0 rest 0 p] assms(1)
    unfolding normalizeSelection_structural [OF r] by (simp add: rs)
qed

theorem normalize_idempotent_witness:
  "normalizeSelection [Range (Pos 0 1) (Pos 0 3), Range (Pos 2 2) (Pos 1 0)] 1
   = Selection [Range (Pos 0 1) (Pos 0 3), Range (Pos 2 2) (Pos 1 0)] 1"
  by (rule normalize_idempotent) (simp_all add: separated_def pos_defs min_def max_def)

section \<open>Positions under a change\<close>

text \<open>
  A change as the editor makes them: a range of the document and at least one line of text. The
  change that takes it back replaces the new text by the lines that were removed.
\<close>

definition valid_change :: "change \<Rightarrow> bool" where
  "valid_change c \<longleftrightarrow> cfrom c \<le> cto c \<and> ctext c \<noteq> []"

definition inverse_change :: "change \<Rightarrow> jstr list \<Rightarrow> change" where
  "inverse_change c removed = Change (cfrom c) (changeEnd c) removed (corigin c)"

text \<open>\<open>removed\<close> has the shape of the text between the two ends of the change.\<close>

definition fits :: "change \<Rightarrow> jstr list \<Rightarrow> bool" where
  "fits c removed \<longleftrightarrow> removed \<noteq> [] \<and> changeEnd (Change (cfrom c) (cto c) removed None) = cto c"

text \<open>
  The contract of the maps that carry positions over an edit: under a condition on the edit they
  respect the document order. Selections can then be mapped end by end.
\<close>

locale pos_map =
  fixes ok :: "'c \<Rightarrow> bool"
    and f :: "pos \<Rightarrow> 'c \<Rightarrow> pos"
  assumes f_mono: "ok c \<Longrightarrow> a \<le> b \<Longrightarrow> f a c \<le> f b c"
begin

lemma f_min: "ok c \<Longrightarrow> f (min a b) c = min (f a c) (f b c)"
  by (metis f_mono linear min.absorb1 min.absorb2)

lemma f_max: "ok c \<Longrightarrow> f (max a b) c = max (f a c) (f b c)"
  by (metis f_mono linear max.absorb1 max.absorb2)

lemma map_range_from: "ok c \<Longrightarrow> range_from (Range (f (anchor r) c) (f (head r) c)) = f (range_from r) c"
  and map_range_to: "ok c \<Longrightarrow> range_to (Range (f (anchor r) c) (f (head r) c)) = f (range_to r) c"
  by (simp_all add: range_from_min range_to_max f_min f_max)

lemma map_covers: "ok c \<Longrightarrow> covers r x \<Longrightarrow> covers (Range (f (anchor r) c) (f (head r) c)) (f x c)"
  by (simp add: covers_def map_range_from map_range_to f_mono del: range_from_to_Range)

lemma map_selection_covers:
  assumes "ok c" "\<exists>r \<in> set rs. covers r x"
  shows "\<exists>r \<in> set (ranges (normalizeSelection (map (\<lambda>r. Range (f (anchor r) c) (f (head r) c)) rs) p)).
           covers r (f x c)"
proof -
  from assms(2) obtain r where "r \<in> set rs" "covers r x" by blast
  then have "\<exists>r' \<in> set (map (\<lambda>r. Range (f (anchor r) c) (f (head r) c)) rs). covers r' (f x c)"
    using map_covers [OF assms(1)] by auto
  with normalize_covers show ?thesis by blast
qed

end

lemma changeEnd_coords:
  "ctext c \<noteq> [] \<Longrightarrow> pline (changeEnd c) = pline (cfrom c) + int (length (ctext c)) - 1"
  "ctext c \<noteq> [] \<Longrightarrow> pch (changeEnd c) =
     int (length (last (ctext c))) + (if length (ctext c) = 1 then pch (cfrom c) else 0)"
  by (simp_all add: changeEnd_def)

lemma changeEnd_ge: "ctext c \<noteq> [] \<Longrightarrow> cfrom c \<le> changeEnd c"
  by (cases "ctext c") (auto simp: changeEnd_coords pos_le_iff)

text \<open>Positions behind \<open>d\<close>, when the text before \<open>d\<close> is changed so that \<open>d\<close> becomes \<open>e\<close>.\<close>

definition shiftPos :: "pos \<Rightarrow> pos \<Rightarrow> pos \<Rightarrow> pos" where
  "shiftPos d e p = Pos (pline p - pline d + pline e)
     (if pline p = pline d then pch p - pch d + pch e else pch p)"

lemma shiftPos_less: "d < p \<Longrightarrow> e < shiftPos d e p"
  by (auto simp: shiftPos_def pos_less_iff)

lemma shiftPos_mono: "d < p \<Longrightarrow> p \<le> q \<Longrightarrow> shiftPos d e p \<le> shiftPos d e q"
  by (cases p; cases q; cases d; cases e) (auto simp: shiftPos_def pos_less_iff pos_le_iff)

lemma shiftPos_shiftPos [simp]: "shiftPos e d (shiftPos d e p) = p"
  by (cases p) (auto simp: shiftPos_def)

lemma adjust_before: "p < cfrom c \<Longrightarrow> adjustForChange p c = p"
  by (simp add: adjustForChange_def)

lemma adjust_inside: "cfrom c \<le> p \<Longrightarrow> p \<le> cto c \<Longrightarrow> adjustForChange p c = changeEnd c"
  by (auto simp: adjustForChange_def)

lemma adjust_after:
  assumes "valid_change c" "cto c < p"
  shows "adjustForChange p c = shiftPos (cto c) (changeEnd c) p"
proof -
  from assms have "\<not> p < cfrom c" "\<not> p \<le> cto c" by (auto simp: valid_change_def)
  with assms show ?thesis
    by (auto simp: adjustForChange_def shiftPos_def Let_def changeEnd_coords(1) valid_change_def)
qed

lemma adjust_after_gt: "valid_change c \<Longrightarrow> cto c < p \<Longrightarrow> changeEnd c < adjustForChange p c"
  by (simp add: adjust_after shiftPos_less)

lemma adjust_cases:
  obtains (before) "p < cfrom c" | (inside) "cfrom c \<le> p" "p \<le> cto c" | (after) "cto c < p"
  by fastforce

lemma adjust_mono:
  assumes v: "valid_change c" and le: "p \<le> q"
  shows "adjustForChange p c \<le> adjustForChange q c"
proof -
  have ge: "cfrom c \<le> changeEnd c" using v by (simp add: changeEnd_ge valid_change_def)
  show ?thesis
  proof (cases q c rule: adjust_cases)
    case before
    with le show ?thesis by (simp add: adjust_before)
  next
    case inside
    with le ge show ?thesis
      by (cases p c rule: adjust_cases) (auto simp: adjust_before adjust_inside)
  next
    case after
    show ?thesis
    proof (cases p c rule: adjust_cases)
      case after_p: after
      with after v le show ?thesis by (simp add: adjust_after shiftPos_mono)
    next
      case before
      with ge adjust_after_gt [OF v after] show ?thesis by (simp add: adjust_before)
    next
      case inside
      with adjust_after_gt [OF v after] show ?thesis by (simp add: adjust_inside)
    qed
  qed
qed

interpretation adj: pos_map valid_change adjustForChange
  by unfold_locales (rule adjust_mono)

text \<open>
  Adjusting positions for a change keeps their order, so a range stays a range.
\<close>

theorem adjustForChange_mono:
  "valid_change c \<Longrightarrow> p \<le> q \<Longrightarrow> adjustForChange p c \<le> adjustForChange q c"
  by (rule adj.f_mono)

theorem adjustForChange_mono_witness:
  "adjustForChange (Pos 0 2) (Change (Pos 0 1) (Pos 0 3) [[65], [66]] None)
     \<le> adjustForChange (Pos 0 7) (Change (Pos 0 1) (Pos 0 3) [[65], [66]] None)"
  by (rule adjustForChange_mono) (simp_all add: valid_change_def pos_defs)

lemma inverse_change_sel [simp]:
  "cfrom (inverse_change c removed) = cfrom c" "cto (inverse_change c removed) = changeEnd c"
  "ctext (inverse_change c removed) = removed"
  by (simp_all add: inverse_change_def)

lemma inverse_change_end: "fits c removed \<Longrightarrow> changeEnd (inverse_change c removed) = cto c"
  by (auto simp: fits_def changeEnd_def split: if_splits)

lemma inverse_change_valid: "valid_change c \<Longrightarrow> fits c removed \<Longrightarrow> valid_change (inverse_change c removed)"
  by (simp add: valid_change_def fits_def changeEnd_ge)

text \<open>
  Taking a change back restores every position outside the changed range, and moves those inside
  it to its end: adjusting for a change and then for its inverse is the identity outside.
\<close>

theorem adjustForChange_inverse:
  assumes "valid_change c" "fits c removed"
  shows "adjustForChange (adjustForChange p c) (inverse_change c removed)
       = (if cfrom c \<le> p \<and> p \<le> cto c then cto c else p)"
proof (cases p c rule: adjust_cases)
  case before
  then show ?thesis by (auto simp: adjust_before)
next
  case inside
  then show ?thesis
    using assms by (simp add: adjust_inside inverse_change_end changeEnd_ge valid_change_def)
next
  case after
  with assms have "\<not> p \<le> cto c" by simp
  then show ?thesis
    using assms after adjust_after_gt [OF assms(1) after]
    by (simp add: adjust_after inverse_change_valid inverse_change_end)
qed

theorem adjustForChange_inverse_witness:
  "adjustForChange (adjustForChange (Pos 2 1) (Change (Pos 0 1) (Pos 1 3) [[65]] None))
     (inverse_change (Change (Pos 0 1) (Pos 1 3) [[65]] None) [[66], [66, 67, 68]]) = Pos 2 1"
proof -
  have "valid_change (Change (Pos 0 1) (Pos 1 3) [[65]] None)"
    "fits (Change (Pos 0 1) (Pos 1 3) [[65]] None) [[66], [66, 67, 68]]"
    by (simp_all add: valid_change_def fits_def changeEnd_def pos_defs)
  from adjustForChange_inverse [OF this, of "Pos 2 1"] show ?thesis by (simp add: pos_le_iff)
qed

text \<open>The selection after a change: both ends of every range are adjusted, then normalised.\<close>

definition computeSelAfterChange :: "selection \<Rightarrow> change \<Rightarrow> selection" where
  "computeSelAfterChange sel c =
     normalizeSelection
       (map (\<lambda>r. Range (adjustForChange (anchor r) c) (adjustForChange (head r) c)) (ranges sel))
       (primIndex sel)"

text \<open>
  A position that was selected before a change is, after it, still selected at the place where the
  change has moved it to.
\<close>

theorem computeSelAfterChange_covers:
  assumes "valid_change c" "\<exists>r \<in> set (ranges sel). covers r x"
  shows "\<exists>r \<in> set (ranges (computeSelAfterChange sel c)). covers r (adjustForChange x c)"
  unfolding computeSelAfterChange_def using assms by (rule adj.map_selection_covers)

theorem computeSelAfterChange_covers_witness:
  "\<exists>r \<in> set (ranges (computeSelAfterChange (simpleSelection (Pos 0 4) (Some (Pos 0 6)))
      (Change (Pos 0 1) (Pos 0 3) [[65]] None))). covers r (adjustForChange (Pos 0 5) (Change (Pos 0 1) (Pos 0 3) [[65]] None))"
  by (rule computeSelAfterChange_covers)
     (simp_all add: valid_change_def pos_defs simpleSelection_def covers_def range_from_min range_to_max min_def max_def)

end
