(* ===== verification/Markers.thy ===== *)
theory Markers
  imports Positions LineTree
begin

text \<open>
  Text markers and the spans they leave on lines: \<open>TextMarker\<close> objects in a store, the span
  functions of codemirror.js (\<open>getMarkedSpanFor\<close>, \<open>removeMarkedSpan\<close>, \<open>markedSpansBefore\<close>,
  \<open>markedSpansAfter\<close>, \<open>clearEmptySpans\<close>, \<open>stretchSpansOverChange\<close>, \<open>mergeOldSpans\<close>), and the proof
  that the spans stay inside their lines when the text changes.
\<close>

section \<open>Markers\<close>

text \<open>
  The fields that the code reads of a marker, with the options copied onto it by \<open>markText\<close>.
  \<open>clearWhenEmpty\<close> is true unless the option is false; \<open>mlines\<close> are the ids of the lines
  it is attached to; \<open>mid\<close> is the id of a collapsed marker. Markers live in a store and refer to
  each other and to lines by number, so that a change of a marker is seen by everyone who holds it.
\<close>

record tmarker =
  bookmark :: bool
  inclusiveLeft :: bool
  inclusiveRight :: bool
  insertLeft :: bool
  clearWhenEmpty :: bool
  atomic :: bool
  collapsed :: bool
  readOnly :: bool
  clearOnEnter :: bool
  addToHistory :: bool
  widgetNode :: bool
  explicitlyCleared :: bool
  mlines :: "nat list"
  mid :: nat

type_synonym mstore = "nat \<Rightarrow> tmarker"

text \<open>A new marker of type \<open>range\<close> or \<open>bookmark\<close> with no options.\<close>

definition TextMarker :: "bool \<Rightarrow> tmarker" where
  "TextMarker bm = \<lparr>bookmark = bm, inclusiveLeft = False, inclusiveRight = False, insertLeft = False,
     clearWhenEmpty = True, atomic = False, collapsed = False, readOnly = False, clearOnEnter = False,
     addToHistory = False, widgetNode = False, explicitlyCleared = False, mlines = [], mid = 0\<rparr>"

definition attachLine :: "nat \<Rightarrow> nat \<Rightarrow> mstore \<Rightarrow> mstore" where
  "attachLine mk i ms = ms(mk := (ms mk)\<lparr>mlines := mlines (ms mk) @ [i]\<rparr>)"

text \<open>\<open>lines.splice(indexOf(lines, line), 1)\<close>: an index of -1 counts from the end.\<close>

definition detachLine :: "nat \<Rightarrow> nat \<Rightarrow> mstore \<Rightarrow> mstore" where
  "detachLine mk i ms =
     (let k = indexOf (mlines (ms mk)) i
      in ms(mk := (ms mk)\<lparr>mlines := (if k = -1 then butlast (mlines (ms mk))
                                     else splice (nat k) 1 [] (mlines (ms mk)))\<rparr>))"

fun attachMarkedSpans :: "nat \<Rightarrow> mspan list \<Rightarrow> mstore \<Rightarrow> mstore" where
  "attachMarkedSpans i [] ms = ms"
| "attachMarkedSpans i (sp # sps) ms = attachMarkedSpans i sps (attachLine (smarker sp) i ms)"

fun detachMarkedSpans :: "nat \<Rightarrow> mspan list \<Rightarrow> mstore \<Rightarrow> mstore" where
  "detachMarkedSpans i [] ms = ms"
| "detachMarkedSpans i (sp # sps) ms = detachMarkedSpans i sps (detachLine (smarker sp) i ms)"

text \<open>Stores that differ only in the lines the markers are attached to.\<close>

definition same_flags :: "mstore \<Rightarrow> mstore \<Rightarrow> bool" where
  "same_flags ms ms' \<longleftrightarrow> (\<forall>mk. (ms' mk)\<lparr>mlines := []\<rparr> = (ms mk)\<lparr>mlines := []\<rparr>)"

lemma same_flags_refl [simp]: "same_flags ms ms"
  by (simp add: same_flags_def)

lemma same_flags_trans: "same_flags a b \<Longrightarrow> same_flags b c \<Longrightarrow> same_flags a c"
  by (simp add: same_flags_def)

lemma same_flags_attach: "same_flags ms (attachMarkedSpans i spans ms)"
proof (induction i spans ms rule: attachMarkedSpans.induct)
  case (2 i sp sps ms)
  have "same_flags ms (attachLine (smarker sp) i ms)" by (simp add: attachLine_def same_flags_def)
  with 2 show ?case by (auto intro: same_flags_trans)
qed simp

lemma same_flags_detach: "same_flags ms (detachMarkedSpans i spans ms)"
proof (induction i spans ms rule: detachMarkedSpans.induct)
  case (2 i sp sps ms)
  have "same_flags ms (detachLine (smarker sp) i ms)" by (simp add: detachLine_def same_flags_def Let_def)
  with 2 show ?case by (auto intro: same_flags_trans)
qed simp

lemma same_flags_fields:
  assumes "same_flags ms ms'"
  shows "atomic (ms' mk) = atomic (ms mk)" "clearOnEnter (ms' mk) = clearOnEnter (ms mk)"
    "collapsed (ms' mk) = collapsed (ms mk)" "readOnly (ms' mk) = readOnly (ms mk)"
    "explicitlyCleared (ms' mk) = explicitlyCleared (ms mk)"
  using assms unfolding same_flags_def
  by (metis tmarker.select_convs tmarker.update_convs(13) tmarker.surjective)+

section \<open>Spans\<close>

fun getMarkedSpanFor :: "mspan list \<Rightarrow> nat \<Rightarrow> mspan option" where
  "getMarkedSpanFor [] mk = None"
| "getMarkedSpanFor (span # spans) mk = (if smarker span = mk then Some span else getMarkedSpanFor spans mk)"

text \<open>Removes one span object; it is found by \<open>getMarkedSpanFor\<close> before, so it is the first equal one.\<close>

definition removeMarkedSpan :: "mspan list \<Rightarrow> mspan \<Rightarrow> mspan list" where
  "removeMarkedSpan spans span = remove1 span spans"

definition startsBefore :: "tmarker \<Rightarrow> mspan \<Rightarrow> int \<Rightarrow> bool" where
  "startsBefore m span at =
     (case sfrom span of None \<Rightarrow> True | Some f \<Rightarrow> if inclusiveLeft m then f \<le> at else f < at)"

definition endsAfter :: "tmarker \<Rightarrow> mspan \<Rightarrow> int \<Rightarrow> bool" where
  "endsAfter m span at =
     (case sto span of None \<Rightarrow> True | Some t \<Rightarrow> if inclusiveRight m then t \<ge> at else t > at)"

fun markedSpansBefore :: "mstore \<Rightarrow> mspan list \<Rightarrow> int \<Rightarrow> bool \<Rightarrow> mspan list" where
  "markedSpansBefore ms [] startCh isInsert = []"
| "markedSpansBefore ms (span # old) startCh isInsert =
     (let m = ms (smarker span)
      in if startsBefore m span startCh
            \<or> sfrom span = Some startCh \<and> bookmark m \<and> (\<not> isInsert \<or> \<not> insertLeft m)
         then MarkedSpan (smarker span) (sfrom span) (if endsAfter m span startCh then None else sto span)
              # markedSpansBefore ms old startCh isInsert
         else markedSpansBefore ms old startCh isInsert)"

fun markedSpansAfter :: "mstore \<Rightarrow> mspan list \<Rightarrow> int \<Rightarrow> bool \<Rightarrow> mspan list" where
  "markedSpansAfter ms [] endCh isInsert = []"
| "markedSpansAfter ms (span # old) endCh isInsert =
     (let m = ms (smarker span)
      in if endsAfter m span endCh
            \<or> sfrom span = Some endCh \<and> bookmark m \<and> (\<not> isInsert \<or> insertLeft m)
         then MarkedSpan (smarker span)
                (if startsBefore m span endCh then None else map_option (\<lambda>f. f - endCh) (sfrom span))
                (map_option (\<lambda>t. t - endCh) (sto span))
              # markedSpansAfter ms old endCh isInsert
         else markedSpansAfter ms old endCh isInsert)"

definition clearEmptySpans :: "mstore \<Rightarrow> mspan list \<Rightarrow> mspan list" where
  "clearEmptySpans ms spans =
     filter (\<lambda>span. \<not> (sfrom span \<noteq> None \<and> sfrom span = sto span \<and> clearWhenEmpty (ms (smarker span)))) spans"

text \<open>The loop that fixes the \<open>to\<close> of the spans before the change.\<close>

definition fixFirst :: "int \<Rightarrow> int \<Rightarrow> bool \<Rightarrow> mspan list \<Rightarrow> mspan list \<Rightarrow> mspan list" where
  "fixFirst startCh offset sameLine lasts first =
     map (\<lambda>span. if sto span = None then
                   (case getMarkedSpanFor lasts (smarker span) of
                      None \<Rightarrow> span\<lparr>sto := Some startCh\<rparr>
                    | Some found \<Rightarrow>
                        if sameLine then span\<lparr>sto := map_option (\<lambda>t. t + offset) (sto found)\<rparr> else span)
                 else span) first"

text \<open>
  The loop over the spans after the change: it returns them and the spans of the first line, which
  take them in when the change leaves a single line.
\<close>

fun fixLast :: "int \<Rightarrow> bool \<Rightarrow> mspan list \<Rightarrow> mspan list \<Rightarrow> mspan list \<times> mspan list" where
  "fixLast offset sameLine [] first = ([], first)"
| "fixLast offset sameLine (span # lasts) first =
     (let span1 = span\<lparr>sto := map_option (\<lambda>t. t + offset) (sto span)\<rparr>;
          (span2, moved) =
            (case sfrom span of
               None \<Rightarrow> (case getMarkedSpanFor first (smarker span) of
                          None \<Rightarrow> (span1\<lparr>sfrom := Some offset\<rparr>, sameLine)
                        | Some found \<Rightarrow> (span1, False))
             | Some f \<Rightarrow> (span1\<lparr>sfrom := Some (f + offset)\<rparr>, sameLine));
          (lasts', first') = fixLast offset sameLine lasts (if moved then first @ [span2] else first)
      in (span2 # lasts', first'))"

text \<open>
  \<open>stretchSpansOverChange\<close> with the spans of the first and the last line of the change: one array
  of spans for each line after the change, null when there are none at all.
\<close>

definition stretchSpans :: "mstore \<Rightarrow> mspan list \<Rightarrow> mspan list \<Rightarrow> change \<Rightarrow> mspan list list option" where
  "stretchSpans ms oldFirst oldLast c =
     (if oldFirst = [] \<and> oldLast = [] then None
      else
        let startCh = pch (cfrom c); endCh = pch (cto c); isInsert = (cmp (cfrom c) (cto c) = 0);
            first0 = markedSpansBefore ms oldFirst startCh isInsert;
            last0 = markedSpansAfter ms oldLast endCh isInsert;
            sameLine = (length (ctext c) = 1);
            offset = int (length (last (ctext c))) + (if sameLine then startCh else 0);
            first1 = fixFirst startCh offset sameLine last0 first0;
            (last1, first2) = fixLast offset sameLine last0 first1;
            first3 = clearEmptySpans ms first2;
            last3 = clearEmptySpans ms last1;
            gap = length (ctext c) - 2;
            gapMarkers = map (\<lambda>span. MarkedSpan (smarker span) None None)
                             (filter (\<lambda>span. sto span = None) first3)
        in Some (if sameLine then [first3]
                 else first3 # replicate gap (if gap > 0 then gapMarkers else []) @ [last3]))"

text \<open>\<open>removeClearedSpans\<close> and \<open>mergeOldSpans\<close>, for the spans stored in the history.\<close>

definition removeClearedSpans :: "mstore \<Rightarrow> mspan list \<Rightarrow> mspan list" where
  "removeClearedSpans ms spans = filter (\<lambda>span. \<not> explicitlyCleared (ms (smarker span))) spans"

definition mergeSpans :: "mspan list \<Rightarrow> mspan list \<Rightarrow> mspan list" where
  "mergeSpans oldCur stretchCur =
     fold (\<lambda>span acc. if list_ex (\<lambda>o'. smarker o' = smarker span) acc then acc else acc @ [span]) stretchCur oldCur"

fun mergeOldLines :: "mspan list list \<Rightarrow> mspan list list \<Rightarrow> mspan list list" where
  "mergeOldLines [] stretched = []"
| "mergeOldLines (oldCur # old) [] = oldCur # mergeOldLines old []"
| "mergeOldLines (oldCur # old) (stretchCur # stretched) =
     (if oldCur \<noteq> [] \<and> stretchCur \<noteq> [] then mergeSpans oldCur stretchCur
      else if stretchCur \<noteq> [] then stretchCur
      else oldCur) # mergeOldLines old stretched"

definition mergeOld :: "mspan list list option \<Rightarrow> mspan list list option \<Rightarrow> mspan list list option" where
  "mergeOld old stretched =
     (case old of
        None \<Rightarrow> stretched
      | Some o' \<Rightarrow> (case stretched of None \<Rightarrow> Some o' | Some s \<Rightarrow> Some (mergeOldLines o' s)))"

section \<open>Spans stay in their lines\<close>

text \<open>A span of a line of length \<open>len\<close>: the ends it has are in order and in the line.\<close>

definition span_ok :: "int \<Rightarrow> mspan \<Rightarrow> bool" where
  "span_ok len sp \<longleftrightarrow>
     (case sfrom sp of None \<Rightarrow> True | Some f \<Rightarrow> 0 \<le> f \<and> f \<le> len) \<and>
     (case sto sp of None \<Rightarrow> True | Some t \<Rightarrow> 0 \<le> t \<and> t \<le> len) \<and>
     (case (sfrom sp, sto sp) of (Some f, Some t) \<Rightarrow> f \<le> t | _ \<Rightarrow> True)"

definition spans_ok :: "int \<Rightarrow> mspan list \<Rightarrow> bool" where
  "spans_ok len spans \<longleftrightarrow> list_all (span_ok len) spans"

lemma mspan_sel [simp]:
  "smarker (MarkedSpan mk f t) = mk" "sfrom (MarkedSpan mk f t) = f" "sto (MarkedSpan mk f t) = t"
  by (simp_all add: MarkedSpan_def)

lemma span_ok_simps [simp]: "span_ok len (MarkedSpan mk None None)"
  by (simp add: span_ok_def)

lemma spans_ok_simps [simp]:
  "spans_ok len []" "spans_ok len (sp # sps) \<longleftrightarrow> span_ok len sp \<and> spans_ok len sps"
  "spans_ok len (xs @ ys) \<longleftrightarrow> spans_ok len xs \<and> spans_ok len ys"
  by (simp_all add: spans_ok_def)

lemma spans_ok_filter: "spans_ok len spans \<Longrightarrow> spans_ok len (filter P spans)"
  by (auto simp: spans_ok_def list_all_iff)

lemma getMarkedSpanFor_Some: "getMarkedSpanFor spans mk = Some sp \<Longrightarrow> sp \<in> set spans \<and> smarker sp = mk"
  by (induction spans) (auto split: if_splits)

text \<open>The spans before the change end at \<open>startCh\<close> at the latest, or are cut open.\<close>

definition before_ok :: "int \<Rightarrow> mspan \<Rightarrow> bool" where
  "before_ok startCh sp \<longleftrightarrow> span_ok startCh sp"

lemma markedSpansBefore_ok:
  "spans_ok len old \<Longrightarrow> 0 \<le> startCh \<Longrightarrow> spans_ok startCh (markedSpansBefore ms old startCh isInsert)"
  by (induction ms old startCh isInsert rule: markedSpansBefore.induct)
     (auto simp: Let_def span_ok_def startsBefore_def endsAfter_def split: option.splits if_splits)

lemma markedSpansAfter_ok:
  "spans_ok len old \<Longrightarrow> endCh \<le> len \<Longrightarrow> spans_ok (len - endCh) (markedSpansAfter ms old endCh isInsert)"
  by (induction ms old endCh isInsert rule: markedSpansAfter.induct)
     (auto simp: Let_def span_ok_def startsBefore_def endsAfter_def split: option.splits if_splits)

lemma fixFirst_ok:
  assumes "spans_ok startCh first" "spans_ok n lasts" "0 \<le> startCh" "0 \<le> offset" "0 \<le> n"
    and "sameLine \<Longrightarrow> startCh \<le> offset"
  shows "spans_ok (if sameLine then offset + n else startCh) (fixFirst startCh offset sameLine lasts first)"
proof -
  have "span_ok (if sameLine then offset + n else startCh)
      (if sto span = None then
         (case getMarkedSpanFor lasts (smarker span) of
            None \<Rightarrow> span\<lparr>sto := Some startCh\<rparr>
          | Some found \<Rightarrow>
              if sameLine then span\<lparr>sto := map_option (\<lambda>t. t + offset) (sto found)\<rparr> else span)
       else span)" if "span \<in> set first" for span
  proof -
    have s: "span_ok startCh span" using that assms(1) by (auto simp: spans_ok_def list_all_iff)
    show ?thesis
    proof (cases "getMarkedSpanFor lasts (smarker span)")
      case None
      with s assms show ?thesis by (auto simp: span_ok_def split: option.splits)
    next
      case (Some found)
      then have "span_ok n found"
        using getMarkedSpanFor_Some assms(2) by (fastforce simp: spans_ok_def list_all_iff)
      with Some s assms show ?thesis by (auto simp: span_ok_def split: option.splits)
    qed
  qed
  then show ?thesis by (simp only: fixFirst_def spans_ok_def list_all_iff set_map ball_simps) blast
qed

lemma fixLast_ok:
  assumes "spans_ok n lasts" "spans_ok len first" "0 \<le> offset" "0 \<le> n" "sameLine \<Longrightarrow> len = offset + n"
  shows "spans_ok (offset + n) (fst (fixLast offset sameLine lasts first))
    \<and> spans_ok len (snd (fixLast offset sameLine lasts first))"
  using assms
proof (induction offset sameLine lasts first rule: fixLast.induct)
  case (2 offset sameLine span lasts first)
  then have s: "span_ok n span" "spans_ok n lasts" by auto
  let ?s1 = "span\<lparr>sto := map_option (\<lambda>t. t + offset) (sto span)\<rparr>"
  obtain span2 moved where r: "(case sfrom span of
      None \<Rightarrow> (case getMarkedSpanFor first (smarker span) of
                 None \<Rightarrow> (?s1\<lparr>sfrom := Some offset\<rparr>, sameLine)
               | Some found \<Rightarrow> (?s1, False))
    | Some f \<Rightarrow> (?s1\<lparr>sfrom := Some (f + offset)\<rparr>, sameLine)) = (span2, moved)" by fastforce
  then have ok2: "span_ok (offset + n) span2" and mv: "moved \<Longrightarrow> sameLine"
    using s(1) 2 by (auto simp: span_ok_def split: option.splits)
  then have "spans_ok len (if moved then first @ [span2] else first)" using 2 by auto
  with "2.IH" [OF refl r [symmetric] refl s(2) this] "2.prems" r ok2 show ?case
    by (auto simp: Let_def split: prod.splits)
qed simp

text \<open>The lengths of the lines after a change of lines of lengths \<open>len1\<close> and \<open>len2\<close>.\<close>

definition new_lengths :: "change \<Rightarrow> int \<Rightarrow> int list" where
  "new_lengths c len2 =
     (if length (ctext c) = 1 then [pch (cfrom c) + int (length (ctext c ! 0)) + (len2 - pch (cto c))]
      else (pch (cfrom c) + int (length (ctext c ! 0)))
           # map (int \<circ> length) (butlast (tl (ctext c)))
           @ [int (length (last (ctext c))) + (len2 - pch (cto c))])"

lemma stretchSpans_ok:
  assumes "spans_ok len1 oldFirst" "spans_ok len2 oldLast"
    and c: "ctext c \<noteq> []" "0 \<le> pch (cfrom c)" "0 \<le> pch (cto c)" "pch (cto c) \<le> len2"
    and r: "stretchSpans ms oldFirst oldLast c = Some spans"
  shows "list_all2 spans_ok (new_lengths c len2) spans"
proof -
  define startCh endCh isInsert sameLine where d: "startCh = pch (cfrom c)" "endCh = pch (cto c)"
    "isInsert = (cmp (cfrom c) (cto c) = 0)" "sameLine = (length (ctext c) = 1)"
  define offset where o: "offset = int (length (last (ctext c))) + (if sameLine then startCh else 0)"
  define first0 last0 where f0: "first0 = markedSpansBefore ms oldFirst startCh isInsert"
    "last0 = markedSpansAfter ms oldLast endCh isInsert"
  define first1 where f1: "first1 = fixFirst startCh offset sameLine last0 first0"
  obtain last1 first2 where f2: "fixLast offset sameLine last0 first1 = (last1, first2)" by fastforce
  define n where n: "n = len2 - endCh"
  have k: "0 \<le> startCh" "0 \<le> offset" "0 \<le> n" "sameLine \<Longrightarrow> startCh \<le> offset"
    using c by (auto simp: d o n)
  have ok0: "spans_ok startCh first0" "spans_ok n last0"
    using assms c by (auto simp: f0 n d intro: markedSpansBefore_ok markedSpansAfter_ok)
  let ?len = "if sameLine then offset + n else startCh"
  have ok1: "spans_ok ?len first1" unfolding f1 by (rule fixFirst_ok [OF ok0 k])
  have "spans_ok (offset + n) last1 \<and> spans_ok ?len first2"
    using fixLast_ok [OF ok0(2) ok1 k(2,3), of sameLine] f2 by auto
  then have ok3: "spans_ok (offset + n) (clearEmptySpans ms last1)" "spans_ok ?len (clearEmptySpans ms first2)"
    by (auto simp: clearEmptySpans_def spans_ok_filter)
  have mono: "spans_ok a sps \<Longrightarrow> a \<le> b \<Longrightarrow> spans_ok b sps" for a b sps
    by (auto simp: spans_ok_def list_all_iff span_ok_def split: option.splits)
  let ?gm = "map (\<lambda>span. MarkedSpan (smarker span) None None) (filter (\<lambda>span. sto span = None) (clearEmptySpans ms first2))"
  have gap: "spans_ok l ?gm" for l by (simp add: spans_ok_def list_all_iff)
  have spans: "spans = (if sameLine then [clearEmptySpans ms first2]
     else clearEmptySpans ms first2 # replicate (length (ctext c) - 2) (if length (ctext c) - 2 > 0 then ?gm else [])
          @ [clearEmptySpans ms last1])"
    using r f2 by (auto simp: stretchSpans_def Let_def o f1 f0 d split: if_splits)
  show ?thesis
  proof (cases sameLine)
    case True
    then obtain t where "ctext c = [t]" by (cases "ctext c") (auto simp: d)
    with True spans ok3 show ?thesis by (simp add: new_lengths_def d o n add.commute add.left_commute)
  next
    case False
    then have len: "2 \<le> length (ctext c)" using c(1) by (cases "ctext c"; cases "tl (ctext c)") (auto simp: d)
    have "list_all2 spans_ok (map (int \<circ> length) (butlast (tl (ctext c))))
        (replicate (length (ctext c) - 2) (if length (ctext c) - 2 > 0 then ?gm else []))"
      using gap by (simp add: list_all2_conv_all_nth numeral_2_eq_2)
    moreover have "spans_ok (pch (cfrom c) + int (length (ctext c ! 0))) (clearEmptySpans ms first2)"
      using ok3(2) False by (auto simp: d intro: mono)
    moreover have "list_all2 spans_ok [offset + n] [clearEmptySpans ms last1]" using ok3(1) by simp
    ultimately have "list_all2 spans_ok
        ((pch (cfrom c) + int (length (ctext c ! 0))) # map (int \<circ> length) (butlast (tl (ctext c))) @ [offset + n]) spans"
      using False unfolding spans by (simp only: if_False list_all2_Cons list_all2_appendI simp_thms)
    moreover have "new_lengths c len2 =
        (pch (cfrom c) + int (length (ctext c ! 0))) # map (int \<circ> length) (butlast (tl (ctext c))) @ [offset + n]"
      using False by (simp add: new_lengths_def d o n)
    ultimately show ?thesis by simp
  qed
qed

end
