(* ===== verification/Document.thy ===== *)
theory Document
  imports Markers
begin

text \<open>
  The document object of codemirror.js: its state, reading from it (\<open>getLine\<close>, \<open>getBetween\<close>,
  \<open>getLines\<close>, \<open>clipPos\<close>), and \<open>updateDoc\<close>, which performs a change on the line tree, with the
  proof that it is the replacement of a piece of text.
\<close>

section \<open>State\<close>

text \<open>
  A change in the history carries the spans of the lines it replaced, one array for each of those lines;
  \<open>None\<close> when none of them had any. An event of the history is a selection or a list of changes with the
  generation it started from.
\<close>

record hchange = change +
  hspans :: "mspan list list option"

datatype hevent = SelEvent selection | ChangeEvent "hchange list" "nat option"

text \<open>
  \<open>undoDepth\<close> is \<open>None\<close> for Infinity. Operation ids are numbers; \<open>None\<close> stands for null and NaN, which
  equal no operation id (\<open>same_op\<close>).
\<close>

record histrec =
  hdone :: "hevent list"
  hundone :: "hevent list"
  undoDepth :: "nat option"
  lastModTime :: int
  lastSelTime :: int
  lastOp :: "nat option"
  lastSelOp :: "nat option"
  lastOrigin :: "string option"
  lastSelOrigin :: "string option"
  generation :: nat
  maxGeneration :: nat

definition same_op :: "nat option \<Rightarrow> nat option \<Rightarrow> bool" where
  "same_op a b \<longleftrightarrow> a \<noteq> None \<and> a = b"

text \<open>
  What the document code reads of the editor it is attached to, and the calls it makes to the view
  layer, which are recorded in order in \<open>viewLog\<close>.
\<close>

datatype view_call =
  RegChange int int int
| RegLineChange int string
| CursorActivity
| SelectionChanged
| EnsureCursorVisible
| ScrollIntoView pos pos
| MeasureLines int int
| StartWorker int

record editor =
  opId :: nat
  shiftKey :: bool
  suppressEdits :: bool
  historyEventDelay :: int
  wholeLineUpdateBefore :: bool
  estimateHeight :: "jsline \<Rightarrow> int"
  lineWrapping :: bool
  textHeight :: int
  viewLog :: "view_call list"

text \<open>
  The calls that a \<open>beforeChange\<close> handler makes on the object it is given, and the handlers
  themselves as functions of that object. A \<open>beforeSelectionChange\<close> handler may replace the ranges.
\<close>

datatype filter_call =
  Cancel
| Update "pos option" "pos option" "jstr list option" "string option option"

type_synonym change_handler = "change \<Rightarrow> filter_call list"
type_synonym selection_handler = "range list \<Rightarrow> range list option"

text \<open>
  The document. \<open>clock\<close> is what \<open>new Date\<close> reads; \<open>nextLine\<close> and \<open>nextMarker\<close> are ids no line
  or marker has yet; \<open>sawReadOnlySpans\<close>, \<open>sawCollapsedSpans\<close> and \<open>nextMarkerId\<close> are module variables.
\<close>

record doc =
  root :: chunk
  first :: int
  sel :: selection
  history :: histrec
  markers :: mstore
  cantEdit :: bool
  extending :: bool
  cleanGeneration :: nat
  frontier :: int
  cm :: "editor option"
  beforeChange :: "change_handler list"
  beforeSelectionChange :: "selection_handler list"
  clock :: int
  nextLine :: nat
  nextMarker :: nat
  nextMarkerId :: nat
  sawReadOnlySpans :: bool
  sawCollapsedSpans :: bool

text \<open>Recording a call to the view layer, when there is an editor.\<close>

definition log_view :: "view_call \<Rightarrow> doc \<Rightarrow> doc" where
  "log_view v d = d\<lparr>cm := map_option (\<lambda>e. e\<lparr>viewLog := viewLog e @ [v]\<rparr>) (cm d)\<rparr>"

definition doc_size :: "doc \<Rightarrow> int" where
  "doc_size d = chunkSize (root d)"

definition lastLine :: "doc \<Rightarrow> int" where
  "lastLine d = first d + doc_size d - 1"

section \<open>Reading the document\<close>

definition getLine :: "doc \<Rightarrow> int \<Rightarrow> jsline option" where
  "getLine d n = treeLine (first d) (root d) n"

definition iter :: "int \<Rightarrow> int \<Rightarrow> (jsline \<Rightarrow> 's \<Rightarrow> 's \<times> bool) \<Rightarrow> doc \<Rightarrow> 's \<Rightarrow> 's" where
  "iter from to op d s = fst (iterN (from - first d) (to - from) op (root d) s)"

definition getBetween :: "doc \<Rightarrow> pos \<Rightarrow> pos \<Rightarrow> jstr list" where
  "getBetween d start end =
     snd (iter (pline start) (pline end + 1)
       (\<lambda>line (n, out).
          let t = ltext line;
              t = (if n = pline end then slice 0 (pch end) t else t);
              t = (if n = pline start then slice_from (pch start) t else t)
          in ((n + 1, out @ [t]), False)) d (pline start, []))"

definition getLines :: "doc \<Rightarrow> int \<Rightarrow> int \<Rightarrow> jstr list" where
  "getLines d from to = iter from to (\<lambda>line out. (out @ [ltext line], False)) d []"

definition isLine :: "doc \<Rightarrow> int \<Rightarrow> bool" where
  "isLine d l \<longleftrightarrow> l \<ge> first d \<and> l < first d + doc_size d"

definition clipLine :: "doc \<Rightarrow> int \<Rightarrow> int" where
  "clipLine d n = max (first d) (min n (first d + doc_size d - 1))"

text \<open>A position whose \<open>ch\<close> may be undefined, as \<open>Pos(line)\<close> makes it.\<close>

definition clipToLen :: "int \<Rightarrow> int option \<Rightarrow> int \<Rightarrow> pos" where
  "clipToLen ln ch linelen =
     (case ch of
        None \<Rightarrow> Pos ln linelen
      | Some c \<Rightarrow> if c > linelen then Pos ln linelen else if c < 0 then Pos ln 0 else Pos ln c)"

definition clipPosCh :: "doc \<Rightarrow> int \<Rightarrow> int option \<Rightarrow> pos option" where
  "clipPosCh d ln ch =
     (if ln < first d then Some (Pos (first d) 0)
      else let lastl = first d + doc_size d - 1
           in if ln > lastl then do { l \<leftarrow> getLine d lastl; Some (Pos lastl (int (length (ltext l)))) }
              else do { l \<leftarrow> getLine d ln; Some (clipToLen ln ch (int (length (ltext l)))) })"

definition clipPos :: "doc \<Rightarrow> pos \<Rightarrow> pos option" where
  "clipPos d p = clipPosCh d (pline p) (Some (pch p))"

fun clipPosArray :: "doc \<Rightarrow> pos list \<Rightarrow> pos list option" where
  "clipPosArray d [] = Some []"
| "clipPosArray d (p # ps) = do { q \<leftarrow> clipPos d p; qs \<leftarrow> clipPosArray d ps; Some (q # qs) }"

section \<open>updateDoc\<close>

definition isWholeLineUpdate :: "doc \<Rightarrow> change \<Rightarrow> bool" where
  "isWholeLineUpdate d c \<longleftrightarrow>
     pch (cfrom c) = 0 \<and> pch (cto c) = 0 \<and> last (ctext c) = [] \<and>
     (case cm d of None \<Rightarrow> True | Some e \<Rightarrow> wholeLineUpdateBefore e)"

definition spansFor :: "mspan list list option \<Rightarrow> nat \<Rightarrow> mspan list" where
  "spansFor markedSpans n =
     (case markedSpans of None \<Rightarrow> [] | Some xs \<Rightarrow> if n < length xs then xs ! n else [])"

text \<open>\<open>new Line(text, spans, estimateHeight)\<close>, with an id that no other line has.\<close>

definition newLine :: "jstr \<Rightarrow> mspan list \<Rightarrow> (jsline \<Rightarrow> int) option \<Rightarrow> doc \<Rightarrow> jsline \<times> doc" where
  "newLine text spans est d =
     (let l = \<lparr>lid = nextLine d, ltext = text, lspans = spans, lheight = 0\<rparr>;
          h = (case est of None \<Rightarrow> 1 | Some f \<Rightarrow> f l)
      in (l\<lparr>lheight := h\<rparr>,
          d\<lparr>nextLine := Suc (nextLine d), markers := attachMarkedSpans (nextLine d) spans (markers d)\<rparr>))"

fun newLines :: "(jstr \<times> mspan list) list \<Rightarrow> (jsline \<Rightarrow> int) option \<Rightarrow> doc \<Rightarrow> jsline list \<times> doc" where
  "newLines [] est d = ([], d)"
| "newLines ((text, spans) # rest) est d =
     (let (l, d1) = newLine text spans est d; (ls, d2) = newLines rest est d1 in (l # ls, d2))"

text \<open>\<open>updateLine\<close>: the line object gets a new text and new spans, and its height is estimated anew.\<close>

definition updateLine :: "jsline \<Rightarrow> jstr \<Rightarrow> mspan list \<Rightarrow> (jsline \<Rightarrow> int) option \<Rightarrow> doc \<Rightarrow> doc" where
  "updateLine line text spans est d =
     (let i = lid line;
          ms = attachMarkedSpans i spans (detachMarkedSpans i (lspans line) (markers d));
          root1 = updateTree i (\<lambda>l. l\<lparr>ltext := text, lspans := spans\<rparr>) (root d);
          line1 = line\<lparr>ltext := text, lspans := spans\<rparr>;
          estHeight = (case est of None \<Rightarrow> 1 | Some f \<Rightarrow> f line1)
      in d\<lparr>markers := ms,
           root := (if estHeight \<noteq> lheight line1 then updateLineHeight line1 estHeight root1 else root1)\<rparr>)"

text \<open>\<open>cleanUpLine\<close> for every line that \<open>removeInner\<close> takes out of the tree, in order.\<close>

definition cleanUpLines :: "jsline list \<Rightarrow> mstore \<Rightarrow> mstore" where
  "cleanUpLines ls ms = fold (\<lambda>l m. detachMarkedSpans (lid l) (lspans l) m) ls ms"

definition doc_remove :: "int \<Rightarrow> int \<Rightarrow> doc \<Rightarrow> doc" where
  "doc_remove at n d =
     d\<lparr>root := docRemove (first d) at n (root d),
       markers := cleanUpLines (iter at (at + n) (\<lambda>l out. (out @ [l], False)) d []) (markers d)\<rparr>"

definition doc_insert :: "int \<Rightarrow> jsline list \<Rightarrow> doc \<Rightarrow> doc" where
  "doc_insert at ls d = d\<lparr>root := docInsert (first d) at ls (root d)\<rparr>"

definition updateDoc :: "doc \<Rightarrow> change \<Rightarrow> mspan list list option \<Rightarrow> (jsline \<Rightarrow> int) option \<Rightarrow> doc option" where
  "updateDoc d c markedSpans est = do {
     firstLine \<leftarrow> getLine d (pline (cfrom c));
     lastLine \<leftarrow> getLine d (pline (cto c));
     let text = ctext c;
     let from = cfrom c;
     let to = cto c;
     let lastText = last text;
     let lastSpans = spansFor markedSpans (length text - 1);
     let nlines = pline to - pline from;
     let middle = (\<lambda>lo. map (\<lambda>i. (text ! i, spansFor markedSpans i)) [lo..<length text - 1]);
     Some
      (if isWholeLineUpdate d c then
         (let (added, d1) = newLines (middle 0) est d;
              d2 = updateLine lastLine (ltext lastLine) lastSpans est d1;
              d3 = (if nlines \<noteq> 0 then doc_remove (pline from) nlines d2 else d2)
          in if added \<noteq> [] then doc_insert (pline from) added d3 else d3)
       else if lid firstLine = lid lastLine then
         (if length text = 1 then
            updateLine firstLine (slice 0 (pch from) (ltext firstLine) @ lastText @ slice_from (pch to) (ltext firstLine))
              lastSpans est d
          else
            (let (added, d1) = newLines (middle 1 @ [(lastText @ slice_from (pch to) (ltext firstLine), lastSpans)]) est d;
                 d2 = updateLine firstLine (slice 0 (pch from) (ltext firstLine) @ text ! 0) (spansFor markedSpans 0) est d1
             in doc_insert (pline from + 1) added d2))
       else if length text = 1 then
         doc_remove (pline from + 1) nlines
           (updateLine firstLine (slice 0 (pch from) (ltext firstLine) @ text ! 0 @ slice_from (pch to) (ltext lastLine))
              (spansFor markedSpans 0) est d)
       else
         (let d1 = updateLine firstLine (slice 0 (pch from) (ltext firstLine) @ text ! 0) (spansFor markedSpans 0) est d;
              d2 = updateLine lastLine (lastText @ slice_from (pch to) (ltext lastLine)) lastSpans est d1;
              (added, d3) = newLines (middle 1) est d2;
              d4 = (if nlines > 1 then doc_remove (pline from + 1) (nlines - 1) d3 else d3)
          in doc_insert (pline from + 1) added d4))
   }"

text \<open>\<open>stretchSpansOverChange\<close> on the document.\<close>

definition lineSpans :: "doc \<Rightarrow> int \<Rightarrow> mspan list" where
  "lineSpans d n = (case getLine d n of None \<Rightarrow> [] | Some l \<Rightarrow> lspans l)"

definition stretchSpansOverChange :: "doc \<Rightarrow> change \<Rightarrow> mspan list list option" where
  "stretchSpansOverChange d c =
     stretchSpans (markers d)
       (if isLine d (pline (cfrom c)) then lineSpans d (pline (cfrom c)) else [])
       (if isLine d (pline (cto c)) then lineSpans d (pline (cto c)) else []) c"

end
