(* ===== verification/TextModel.thy ===== *)
theory TextModel
  imports Prelude
begin

text \<open>
  The abstract specification of the document: a nonempty list of strings, one per line. Replacing and
  reading a piece of text between two places (a line index and an offset in it), the text as one
  string with line breaks, and the laws that connect them.
\<close>

section \<open>Replacing and reading\<close>

text \<open>\<open>glue x ts y\<close>: the lines \<open>ts\<close> with \<open>x\<close> put before the first and \<open>y\<close> after the last.\<close>

definition glue :: "'a list \<Rightarrow> 'a list list \<Rightarrow> 'a list \<Rightarrow> 'a list list" where
  "glue x ts y =
     (case ts of
        [] \<Rightarrow> [x @ y]
      | [t] \<Rightarrow> [x @ t @ y]
      | t # t' # rest \<Rightarrow> (x @ t) # butlast (t' # rest) @ [last (t' # rest) @ y])"

definition text_replace :: "nat \<Rightarrow> nat \<Rightarrow> nat \<Rightarrow> nat \<Rightarrow> 'a list list \<Rightarrow> 'a list list \<Rightarrow> 'a list list" where
  "text_replace a i b j ts ls =
     take a ls @ glue (take i (ls ! a)) ts (drop j (ls ! b)) @ drop (Suc b) ls"

definition text_between :: "nat \<Rightarrow> nat \<Rightarrow> nat \<Rightarrow> nat \<Rightarrow> 'a list list \<Rightarrow> 'a list list" where
  "text_between a i b j ls =
     (if a = b then [drop i (take j (ls ! a))]
      else drop i (ls ! a) # take (b - a - 1) (drop (Suc a) ls) @ [take j (ls ! b)])"

text \<open>A place in a text, and two places in order.\<close>

definition place :: "nat \<Rightarrow> nat \<Rightarrow> 'a list list \<Rightarrow> bool" where
  "place a i ls \<longleftrightarrow> a < length ls \<and> i \<le> length (ls ! a)"

definition places :: "nat \<Rightarrow> nat \<Rightarrow> nat \<Rightarrow> nat \<Rightarrow> 'a list list \<Rightarrow> bool" where
  "places a i b j ls \<longleftrightarrow> place a i ls \<and> place b j ls \<and> (a < b \<or> a = b \<and> i \<le> j)"

text \<open>The offset of a place in the text read as one string, with one separator between lines.\<close>

definition offset_of :: "nat \<Rightarrow> nat \<Rightarrow> 'a list list \<Rightarrow> nat" where
  "offset_of a i ls = sum_list (map (\<lambda>l. Suc (length l)) (take a ls)) + i"

lemma glue_length: "ts \<noteq> [] \<Longrightarrow> length (glue x ts y) = length ts"
  by (auto simp: glue_def split: list.splits)

lemma glue_snoc: "glue x (t # ts @ [u]) y = (x @ t) # ts @ [u @ y]"
  by (cases ts) (auto simp: glue_def butlast_append)

lemma glue_single [simp]: "glue x [t] y = [x @ t @ y]"
  by (simp add: glue_def)

lemma glue_cases:
  assumes "ts \<noteq> []"
  obtains t where "ts = [t]" | t us u where "ts = t # us @ [u]"
  using assms by (metis append_butlast_last_id neq_Nil_conv)

lemma join_glue:
  assumes "ts \<noteq> []"
  shows "join s (P @ glue x ts y @ Q) = join s (P @ [x]) @ join s ts @ join s (y # Q)"
proof -
  have pre: "join s (P @ [x @ t]) = join s (P @ [x]) @ t" for t
    by (cases "P = []") (simp_all add: join_append)
  have post: "join s ((u @ y) # Q) = u @ join s (y # Q)" for u
    by (cases Q) simp_all
  from assms show ?thesis
  proof (cases rule: glue_cases)
    case (1 t)
    then show ?thesis
      using pre [of t] post [of "x @ t"] post [of x]
      by (cases "P = []") (simp_all add: join_append)
  next
    case (2 t us u)
    have "join s (P @ (x @ t) # us @ (u @ y) # Q)
        = join s (P @ [x @ t]) @ s @ (if us = [] then [] else join s us @ s) @ join s ((u @ y) # Q)"
      using join_append [of "P @ [x @ t]" "us @ (u @ y) # Q" s] join_append [of us "(u @ y) # Q" s] by auto
    moreover have "join s (t # us @ [u]) = t @ s @ (if us = [] then [] else join s us @ s) @ u"
      using join_append [of us "[u]" s] by (auto simp: join_Cons)
    ultimately show ?thesis using 2 pre post by (simp add: glue_snoc)
  qed
qed

lemma split_place:
  assumes "place a i ls"
  shows "ls = take a ls @ glue (take i (ls ! a)) [[]] (drop i (ls ! a)) @ drop (Suc a) ls"
  using assms by (simp add: place_def id_take_nth_drop)

lemma join_place:
  assumes "place a i ls"
  shows "join [s] ls = join [s] (take a ls @ [take i (ls ! a)]) @ join [s] (drop i (ls ! a) # drop (Suc a) ls)"
proof -
  have "join [s] ls = join [s] (take a ls @ glue (take i (ls ! a)) [[]] (drop i (ls ! a)) @ drop (Suc a) ls)"
    using split_place [OF assms] by (rule arg_cong)
  then show ?thesis by (simp only: join_glue [of "[[]]"] list.distinct join.simps append_Nil not_False_eq_True)
qed

lemma length_join_snoc: "length (join [s] (P @ [x])) = sum_list (map (\<lambda>l. Suc (length l)) P) + length x"
  by (induction P) (auto simp: join_Cons)

lemma take_join:
  assumes "place a i ls"
  shows "take (offset_of a i ls) (join [s] ls) = join [s] (take a ls @ [take i (ls ! a)])"
    "drop (offset_of a i ls) (join [s] ls) = join [s] (drop i (ls ! a) # drop (Suc a) ls)"
proof -
  have len: "length (join [s] (take a ls @ [take i (ls ! a)])) = offset_of a i ls"
    using assms by (simp add: length_join_snoc offset_of_def place_def)
  show "take (offset_of a i ls) (join [s] ls) = join [s] (take a ls @ [take i (ls ! a)])"
    "drop (offset_of a i ls) (join [s] ls) = join [s] (drop i (ls ! a) # drop (Suc a) ls)"
    unfolding join_place [OF assms] by (simp_all add: len [symmetric])
qed

lemma offset_le_length:
  assumes "place a i ls"
  shows "offset_of a i ls \<le> length (join [s] ls)"
proof -
  have "offset_of a i ls = length (join [s] (take a ls @ [take i (ls ! a)]))"
    using assms by (simp add: length_join_snoc offset_of_def place_def)
  then show ?thesis by (simp add: join_place [OF assms])
qed

text \<open>Replacing a piece of the lines is replacing the piece of the string between the two offsets.\<close>

lemma join_text_replace:
  assumes "places a i b j ls" "ts \<noteq> []"
  shows "join [s] (text_replace a i b j ts ls)
       = take (offset_of a i ls) (join [s] ls) @ join [s] ts @ drop (offset_of b j ls) (join [s] ls)"
  using assms by (simp add: text_replace_def join_glue places_def take_join)

lemma text_replace_between:
  assumes "places a i b j ls"
  shows "text_replace a i b j (text_between a i b j ls) ls = ls"
proof (cases "a = b")
  case True
  with assms have ij: "i \<le> j" "j \<le> length (ls ! a)" "a < length ls" by (auto simp: places_def place_def)
  have "take i (ls ! a) @ drop i (take j (ls ! a)) = take j (ls ! a)"
    using ij by (metis append_take_drop_id min.absorb1 take_take)
  then have "take i (ls ! a) @ drop i (take j (ls ! a)) @ drop j (ls ! a) = ls ! a"
    by (metis append.assoc append_take_drop_id)
  then have "text_replace a i b j (text_between a i b j ls) ls = take a ls @ ls ! a # drop (Suc a) ls"
    using True by (simp add: text_replace_def text_between_def)
  with ij show ?thesis by (simp add: id_take_nth_drop [symmetric])
next
  case False
  with assms have ab: "a < b" "b < length ls" by (auto simp: places_def place_def)
  have "drop (Suc a) ls = take (b - a - 1) (drop (Suc a) ls) @ ls ! b # drop (Suc b) ls"
    using ab id_take_nth_drop [of "b - a - 1" "drop (Suc a) ls"] by simp
  then have "take a ls @ ls ! a # take (b - a - 1) (drop (Suc a) ls) @ ls ! b # drop (Suc b) ls = ls"
    using ab by (metis id_take_nth_drop order.strict_trans)
  then show ?thesis using False by (simp add: text_replace_def text_between_def glue_snoc)
qed

text \<open>The end of the inserted text, and reading it back.\<close>

definition end_line :: "nat \<Rightarrow> 'a list list \<Rightarrow> nat" where
  "end_line a ts = a + length ts - 1"

definition end_col :: "nat \<Rightarrow> 'a list list \<Rightarrow> nat" where
  "end_col i ts = length (last ts) + (if length ts = 1 then i else 0)"

lemma text_replace_nth:
  assumes "places a i b j ls" "ts \<noteq> []"
  shows "take a (text_replace a i b j ts ls) = take a ls"
    "take i (text_replace a i b j ts ls ! a) = take i (ls ! a)"
    "drop (end_col i ts) (text_replace a i b j ts ls ! end_line a ts) = drop j (ls ! b)"
    "drop (Suc (end_line a ts)) (text_replace a i b j ts ls) = drop (Suc b) ls"
    "length (text_replace a i b j ts ls) = a + length ts + (length ls - Suc b)"
    "places a i (end_line a ts) (end_col i ts) (text_replace a i b j ts ls)"
    "text_between a i (end_line a ts) (end_col i ts) (text_replace a i b j ts ls) = ts"
proof -
  have a: "a < length ls" "i \<le> length (ls ! a)" "b < length ls" "a \<le> b"
    using assms(1) by (auto simp: places_def place_def)
  let ?R = "text_replace a i b j ts ls"
  have ta: "length (take a ls) = a" using a by simp
  show "take a ?R = take a ls" using a by (simp add: text_replace_def)
  show "length ?R = a + length ts + (length ls - Suc b)"
    using a assms(2) by (simp add: text_replace_def glue_length)
  have e: "Suc (end_line a ts) = a + length ts" using assms(2) by (cases ts) (auto simp: end_line_def)
  show "drop (Suc (end_line a ts)) ?R = drop (Suc b) ls"
    unfolding e using a assms(2) by (simp add: text_replace_def glue_length)
  from assms(2) have all: "take i (?R ! a) = take i (ls ! a) \<and>
    drop (end_col i ts) (?R ! end_line a ts) = drop j (ls ! b) \<and>
    places a i (end_line a ts) (end_col i ts) ?R \<and>
    text_between a i (end_line a ts) (end_col i ts) ?R = ts"
  proof (cases rule: glue_cases)
    case (1 t)
    then have "?R ! a = take i (ls ! a) @ t @ drop j (ls ! b)" "a < length ?R"
      using a by (simp_all add: text_replace_def nth_append)
    with 1 a show ?thesis
      by (simp add: end_line_def end_col_def places_def place_def text_between_def)
  next
    case (2 t us u)
    have el: "end_line a ts = Suc (a + length us)" "end_col i ts = length u" using 2
      by (simp_all add: end_line_def end_col_def)
    have R: "?R = take a ls @ (take i (ls ! a) @ t) # us @ (u @ drop j (ls ! b)) # drop (Suc b) ls"
      using 2 by (simp add: text_replace_def glue_snoc)
    have "?R ! a = take i (ls ! a) @ t" unfolding R using a by (simp add: nth_append)
    moreover have "?R ! Suc (a + length us) = u @ drop j (ls ! b)"
      unfolding R using a by (simp add: nth_append)
    moreover have "drop (Suc a) ?R = us @ (u @ drop j (ls ! b)) # drop (Suc b) ls"
      unfolding R using a by simp
    moreover have "Suc (a + length us) < length ?R" unfolding R using a by simp
    ultimately show ?thesis
      using a 2 unfolding el by (simp add: places_def place_def text_between_def)
  qed
  then show "take i (?R ! a) = take i (ls ! a)"
    "drop (end_col i ts) (?R ! end_line a ts) = drop j (ls ! b)"
    "places a i (end_line a ts) (end_col i ts) ?R"
    "text_between a i (end_line a ts) (end_col i ts) ?R = ts" by blast+
qed

text \<open>
  Replacing a piece of text and then putting back what was there gives the text one started from.
\<close>

lemma text_replace_inverse:
  assumes "places a i b j ls" "ts \<noteq> []"
  shows "text_replace a i (end_line a ts) (end_col i ts) (text_between a i b j ls) (text_replace a i b j ts ls) = ls"
proof -
  have "text_replace a i (end_line a ts) (end_col i ts) (text_between a i b j ls) (text_replace a i b j ts ls)
      = text_replace a i b j (text_between a i b j ls) ls"
    unfolding text_replace_def [of a i "end_line a ts"] text_replace_nth [OF assms]
    by (simp add: text_replace_def)
  with text_replace_between [OF assms(1)] show ?thesis by simp
qed

lemma text_between_nonempty [simp]: "text_between a i b j ls \<noteq> []"
  by (simp add: text_between_def)

lemma text_between_length: "places a i b j ls \<Longrightarrow> length (text_between a i b j ls) = Suc (b - a)"
  by (auto simp: text_between_def places_def place_def)

lemma text_between_end:
  assumes "places a i b j ls"
  shows "end_line a (text_between a i b j ls) = b" "end_col i (text_between a i b j ls) = j"
proof -
  show "end_line a (text_between a i b j ls) = b"
    using assms by (simp add: end_line_def text_between_length) (auto simp: places_def)
  show "end_col i (text_between a i b j ls) = j"
    using assms by (auto simp: end_col_def text_between_def places_def place_def)
qed

text \<open>The string between two offsets is the piece of text between the two places.\<close>

lemma join_text_between:
  assumes "places a i b j ls"
  shows "join [s] (text_between a i b j ls)
       = take (offset_of b j ls - offset_of a i ls) (drop (offset_of a i ls) (join [s] ls))"
proof -
  let ?T = "text_between a i b j ls"
  from assms have p: "place a i ls" "place b j ls" by (auto simp: places_def)
  have "join [s] ls = join [s] (text_replace a i b j ?T ls)"
    by (simp only: text_replace_between [OF assms])
  then have eq: "join [s] ls = take (offset_of a i ls) (join [s] ls) @ join [s] ?T @ drop (offset_of b j ls) (join [s] ls)"
    using join_text_replace [OF assms text_between_nonempty, of s] by simp
  have len: "offset_of b j ls \<le> length (join [s] ls)" "offset_of a i ls \<le> length (join [s] ls)"
    using p by (simp_all add: offset_le_length)
  have "drop (offset_of a i ls) (join [s] ls) = join [s] ?T @ drop (offset_of b j ls) (join [s] ls)"
    using arg_cong [OF eq, of "drop (offset_of a i ls)"] len by simp
  moreover have "length (join [s] ?T) = offset_of b j ls - offset_of a i ls"
    using arg_cong [OF eq, of length] len by simp
  ultimately show ?thesis by simp
qed

end
