(* ===== verification/DocText.thy ===== *)
theory DocText
  imports Document TextModel "HOL-Library.Multiset"
begin

text \<open>
  The document as text: the lines of the tree with their texts and spans, the well-formedness of a
  document, what the reading functions return, and the proof that \<open>updateDoc\<close> (with all its
  branches on whole lines, single lines and several lines) is the replacement of a piece of text.
\<close>

section \<open>The lines of a document\<close>

definition doc_lines :: "doc \<Rightarrow> jsline list" where
  "doc_lines d = collapse (root d)"

definition texts :: "doc \<Rightarrow> jstr list" where
  "texts d = map ltext (doc_lines d)"

definition contents :: "doc \<Rightarrow> (jstr \<times> mspan list) list" where
  "contents d = map (\<lambda>l. (ltext l, lspans l)) (doc_lines d)"

text \<open>A document whose tree is well formed, which has a line, and whose lines are distinct objects.\<close>

definition wf_doc :: "doc \<Rightarrow> bool" where
  "wf_doc d \<longleftrightarrow> wf_tree (root d) \<and> doc_lines d \<noteq> [] \<and> distinct (map lid (doc_lines d))
     \<and> list_all (\<lambda>l. lid l < nextLine d) (doc_lines d)"

text \<open>Lines that the document could take in, and updates that touch nothing but lines and markers.\<close>

definition fresh_lines :: "jsline list \<Rightarrow> doc \<Rightarrow> bool" where
  "fresh_lines new d \<longleftrightarrow> distinct (map lid new) \<and> list_all (\<lambda>l. lid l < nextLine d) new
     \<and> lid ` set new \<inter> lid ` set (doc_lines d) = {}"

definition same_frame :: "doc \<Rightarrow> doc \<Rightarrow> bool" where
  "same_frame d d' \<longleftrightarrow> (\<exists>r m n. d' = d\<lparr>root := r, markers := m, nextLine := n\<rparr> \<and> same_flags (markers d) m)"

lemma same_frameI:
  assumes "first d' = first d" "sel d' = sel d" "history d' = history d" "cantEdit d' = cantEdit d"
    "extending d' = extending d" "cleanGeneration d' = cleanGeneration d" "frontier d' = frontier d"
    "cm d' = cm d" "beforeChange d' = beforeChange d" "beforeSelectionChange d' = beforeSelectionChange d"
    "clock d' = clock d" "nextMarker d' = nextMarker d" "nextMarkerId d' = nextMarkerId d"
    "sawReadOnlySpans d' = sawReadOnlySpans d" "sawCollapsedSpans d' = sawCollapsedSpans d"
    "same_flags (markers d) (markers d')"
  shows "same_frame d d'"
proof -
  have "d' = d\<lparr>root := root d', markers := markers d', nextLine := nextLine d'\<rparr>"
    by (rule doc.equality) (simp_all add: assms)
  then show ?thesis using assms unfolding same_frame_def by blast
qed

lemma same_frame_flags: "same_frame d d' \<Longrightarrow> same_flags (markers d) (markers d')"
  by (auto simp: same_frame_def)

lemma same_frame_update [simp]:
  "same_frame d (d\<lparr>root := r\<rparr>)" "same_frame d d"
  "same_flags (markers d) m \<Longrightarrow> same_frame d (d\<lparr>nextLine := n, markers := m\<rparr>)"
  "same_flags (markers d) m \<Longrightarrow> same_frame d (d\<lparr>markers := m, root := r\<rparr>)"
  "same_flags (markers d) m \<Longrightarrow> same_frame d (d\<lparr>root := r, markers := m\<rparr>)"
  by (simp_all add: same_frameI)

lemma same_flags_cleanUp: "same_flags ms (cleanUpLines ls ms)"
proof (induction ls arbitrary: ms)
  case (Cons l ls)
  show ?case
    using Cons.IH [of "detachMarkedSpans (lid l) (lspans l) ms"] same_flags_detach [of ms "lid l" "lspans l"]
    by (auto simp: cleanUpLines_def intro: same_flags_trans)
qed (simp add: cleanUpLines_def)

lemmas same_flags_intros [simp] = same_flags_attach same_flags_detach same_flags_cleanUp
  same_flags_trans [OF same_flags_detach same_flags_attach]

lemma same_frame_trans: "same_frame d d1 \<Longrightarrow> same_frame d1 d2 \<Longrightarrow> same_frame d d2"
  unfolding same_frame_def by (elim exE) (auto intro: same_flags_trans)

lemma same_frame_fields:
  assumes "same_frame d d'"
  shows "first d' = first d" "sel d' = sel d" "history d' = history d" "cantEdit d' = cantEdit d"
    "extending d' = extending d" "cleanGeneration d' = cleanGeneration d" "frontier d' = frontier d"
    "cm d' = cm d" "beforeChange d' = beforeChange d" "beforeSelectionChange d' = beforeSelectionChange d"
    "clock d' = clock d" "nextMarker d' = nextMarker d" "nextMarkerId d' = nextMarkerId d"
    "sawReadOnlySpans d' = sawReadOnlySpans d" "sawCollapsedSpans d' = sawCollapsedSpans d"
  using assms by (auto simp: same_frame_def)

lemma texts_contents: "texts d = map fst (contents d)"
  by (simp add: texts_def contents_def)

lemma length_contents [simp]: "length (contents d) = length (doc_lines d)" "length (texts d) = length (doc_lines d)"
  by (simp_all add: contents_def texts_def)

lemma wf_doc_size: "wf_doc d \<Longrightarrow> doc_size d = int (length (doc_lines d))"
  by (simp add: wf_doc_def doc_size_def doc_lines_def wf_tree_size)

lemma getLine_spec:
  assumes "wf_doc d"
  shows "getLine d n =
    (if first d \<le> n \<and> n < first d + int (length (doc_lines d)) then Some (doc_lines d ! nat (n - first d)) else None)"
  using assms by (simp add: getLine_def treeLine_spec wf_doc_def wf_tree_def doc_lines_def)

lemma iter_lines:
  assumes "wf_doc d" "first d \<le> from"
  shows "iter from to op d s
    = fst (iterLines op (take (nat (to - from)) (drop (nat (from - first d)) (doc_lines d))) s)"
  using assms by (simp add: iter_def iter_spec(1) wf_doc_def wf_tree_def doc_lines_def)

lemma iterLines_collect: "iterLines (\<lambda>l out. (out @ [f l], False)) ls out = (out @ map f ls, False)"
  by (induction ls arbitrary: out) simp_all

section \<open>The steps of updateDoc\<close>

text \<open>The line with id \<open>i\<close> replaced.\<close>

definition with_line :: "nat \<Rightarrow> (jsline \<Rightarrow> jsline) \<Rightarrow> jsline list \<Rightarrow> jsline list" where
  "with_line i f ls = map (\<lambda>l. if lid l = i then f l else l) ls"

lemma with_line_update:
  "distinct (map lid ls) \<Longrightarrow> k < length ls \<Longrightarrow> with_line (lid (ls ! k)) f ls = ls[k := f (ls ! k)]"
  by (auto simp: with_line_def list_eq_iff_nth_eq nth_list_update nth_eq_iff_index_eq distinct_conv_nth)

lemma map_lid_with_line: "(\<And>l. lid (f l) = lid l) \<Longrightarrow> map lid (with_line i f ls) = map lid ls"
  by (simp add: with_line_def)

lemma updateLine_spec:
  assumes d: "wf_doc d" and k: "k < length (doc_lines d)" and l: "line = doc_lines d ! k"
  shows "wf_doc (updateLine line t spans est d)"
    "contents (updateLine line t spans est d) = (contents d)[k := (t, spans)]"
    "map lid (doc_lines (updateLine line t spans est d)) = map lid (doc_lines d)"
    "same_frame d (updateLine line t spans est d)"
    "nextLine (updateLine line t spans est d) = nextLine d"
    "\<And>m. m < length (doc_lines d) \<Longrightarrow> m \<noteq> k \<Longrightarrow> doc_lines (updateLine line t spans est d) ! m = doc_lines d ! m"
proof -
  let ?f = "\<lambda>l. l\<lparr>ltext := t, lspans := spans\<rparr>"
  let ?line1 = "?f line"
  define h where "h = (case est of None \<Rightarrow> 1 | Some f \<Rightarrow> f ?line1)"
  let ?r1 = "updateTree (lid line) ?f (root d)"
  let ?r2 = "if h \<noteq> lheight ?line1 then updateLineHeight ?line1 h ?r1 else ?r1"
  let ?d' = "updateLine line t spans est d"
  have r': "root ?d' = ?r2" by (simp add: updateLine_def h_def Let_def)
  have dist: "distinct (map lid (doc_lines d))" and wf: "wf_tree (root d)" using d by (auto simp: wf_doc_def)
  have c1: "collapse ?r1 = (doc_lines d)[k := ?line1]"
    using with_line_update [OF dist k, of ?f] by (simp add: collapse_updateTree l with_line_def doc_lines_def)
  have w1: "wf_tree ?r1" using wf by (simp add: wf_tree_def updateTree_wf is_branch_def)
  have lids1: "map lid (collapse ?r1) = map lid (doc_lines d)"
    by (simp add: collapse_updateTree doc_lines_def)
  have c2: "collapse ?r2 = (doc_lines d)[k := ?line1\<lparr>lheight := h\<rparr>] \<and> wf_tree ?r2"
  proof (cases "h = lheight ?line1")
    case True
    then show ?thesis using c1 w1 by simp
  next
    case False
    have "distinct (map lid (collapse ?r1))" using dist by (simp only: lids1)
    note a = addHeight_spec [OF this, of "lid line" "h - lheight line"]
    have "with_line (lid line) (\<lambda>l. l\<lparr>lheight := lheight l + (h - lheight line)\<rparr>) (collapse ?r1)
        = (collapse ?r1)[k := ?line1\<lparr>lheight := h\<rparr>]"
      using with_line_update [of "collapse ?r1" k "\<lambda>l. l\<lparr>lheight := lheight l + (h - lheight line)\<rparr>"]
        dist lids1 k by (simp add: c1)
    with a w1 False show ?thesis
      by (simp add: updateLineHeight_def wf_tree_def is_branch_def with_line_def c1)
  qed
  then have dl: "doc_lines ?d' = (doc_lines d)[k := ?line1\<lparr>lheight := h\<rparr>]" and wf': "wf_tree (root ?d')"
    by (simp_all only: doc_lines_def r')
  show lids: "map lid (doc_lines ?d') = map lid (doc_lines d)"
    unfolding dl using k by (simp add: map_update l list_update_same_conv)
  show fr: "same_frame d ?d'" and nl: "nextLine ?d' = nextLine d"
    by (simp_all add: updateLine_def Let_def)
  show "contents ?d' = (contents d)[k := (t, spans)]" by (simp add: contents_def dl map_update)
  show "wf_doc ?d'"
    using d wf' dist lids k unfolding wf_doc_def nl
    by (simp add: dl) (auto simp: list_all_iff l dest!: set_update_subset_insert [THEN subsetD])
  show "m < length (doc_lines d) \<Longrightarrow> m \<noteq> k \<Longrightarrow> doc_lines ?d' ! m = doc_lines d ! m" for m
    by (simp add: dl)
qed

lemma newLines_spec:
  "newLines ps est d = (added, d') \<Longrightarrow> wf_doc d \<Longrightarrow>
     wf_doc d' \<and> doc_lines d' = doc_lines d \<and> same_frame d d' \<and> fresh_lines added d'
     \<and> map (\<lambda>l. (ltext l, lspans l)) added = ps \<and> nextLine d \<le> nextLine d'
     \<and> list_all (\<lambda>l. nextLine d \<le> lid l) added"
proof (induction ps est d arbitrary: added d' rule: newLines.induct)
  case (1 est d)
  then show ?case by (auto simp: fresh_lines_def)
next
  case (2 t spans rest est d)
  obtain l d1 where n1: "newLine t spans est d = (l, d1)" by fastforce
  obtain ls d2 where n2: "newLines rest est d1 = (ls, d2)" by fastforce
  have r: "added = l # ls" "d' = d2" using 2 n1 n2 by auto
  have l: "lid l = nextLine d" "(ltext l, lspans l) = (t, spans)" and
    d1: "doc_lines d1 = doc_lines d" "nextLine d1 = Suc (nextLine d)" "root d1 = root d" "same_frame d d1"
    using n1 by (auto simp: newLine_def Let_def doc_lines_def)
  have "wf_doc d1" using 2(3) d1 by (auto simp: wf_doc_def list_all_iff intro: less_SucI)
  note IH = "2.IH" [OF n1 [symmetric] refl n2 this]
  have "lid l \<notin> lid ` set ls" "lid l \<notin> lid ` set (doc_lines d)"
    using IH 2(3) l d1 by (fastforce simp: list_all_iff wf_doc_def)+
  with IH l d1 show ?case
    by (auto simp: r fresh_lines_def list_all_iff intro: same_frame_trans)
qed

lemma doc_insert_spec:
  assumes d: "wf_doc d" and new: "fresh_lines new d" and at: "first d \<le> at" "at \<le> first d + int (length (doc_lines d))"
  shows "wf_doc (doc_insert at new d)"
    "contents (doc_insert at new d) = splice (nat (at - first d)) 0 (map (\<lambda>l. (ltext l, lspans l)) new) (contents d)"
    "same_frame d (doc_insert at new d)"
proof -
  have t: "wf_tree (root d)" using d by (simp add: wf_doc_def)
  have at': "0 \<le> at - first d" "at - first d \<le> int (length (collapse (root d)))"
    using at by (simp_all add: doc_lines_def)
  have dl: "doc_lines (doc_insert at new d) = splice (nat (at - first d)) 0 new (doc_lines d)"
    using tree.ins_lines [OF t at', of new] by (simp add: doc_insert_def doc_lines_def docInsert_shift [of "first d"])
  have wt: "wf_tree (root (doc_insert at new d))"
    using tree.ins_ok [OF t at', of new] by (simp add: doc_insert_def docInsert_shift [of "first d"])
  have set: "set (splice (nat (at - first d)) 0 new (doc_lines d)) = set new \<union> set (doc_lines d)"
    by (simp add: splice_def) (metis Un_left_commute append_take_drop_id set_append)
  have "distinct (map lid (splice k 0 new (doc_lines d)))" for k
  proof -
    let ?P = "take k (doc_lines d)" and ?Q = "drop k (doc_lines d)"
    have "distinct (map lid (?P @ ?Q))" using d by (simp add: wf_doc_def)
    moreover have "lid ` set new \<inter> lid ` set (?P @ ?Q) = {}" using new by (simp add: fresh_lines_def)
    moreover have "distinct (map lid new)" using new by (simp add: fresh_lines_def)
    ultimately show ?thesis by (simp only: splice_def map_append distinct_append set_append set_map) auto
  qed
  moreover have "splice (nat (at - first d)) 0 new (doc_lines d) \<noteq> []"
    using d set by (metis Un_empty set_empty wf_doc_def)
  ultimately show "wf_doc (doc_insert at new d)"
    using d new wt set unfolding wf_doc_def dl fresh_lines_def list_all_iff
    by (auto simp: doc_insert_def)
  show "contents (doc_insert at new d) = splice (nat (at - first d)) 0 (map (\<lambda>l. (ltext l, lspans l)) new) (contents d)"
    by (simp add: contents_def dl splice_def take_map drop_map)
  show "same_frame d (doc_insert at new d)" by (simp add: doc_insert_def)
qed

lemma doc_remove_spec:
  assumes d: "wf_doc d" and at: "first d \<le> at" "0 \<le> n" "at + n \<le> first d + int (length (doc_lines d))"
    and k: "nat n < length (doc_lines d)"
  shows "wf_doc (doc_remove at n d)"
    "contents (doc_remove at n d) = splice (nat (at - first d)) (nat n) [] (contents d)"
    "set (doc_lines (doc_remove at n d)) \<subseteq> set (doc_lines d)"
    "same_frame d (doc_remove at n d)" "nextLine (doc_remove at n d) = nextLine d"
proof -
  have t: "wf_tree (root d)" using d by (simp add: wf_doc_def)
  have at': "0 \<le> at - first d" "at - first d + n \<le> int (length (collapse (root d)))"
    using at by (simp_all add: doc_lines_def)
  have dl: "doc_lines (doc_remove at n d) = splice (nat (at - first d)) (nat n) [] (doc_lines d)"
    using tree.del_lines [OF t at'(1) at(2) at'(2)]
    by (simp add: doc_remove_def doc_lines_def docRemove_shift [of "first d"])
  have wt: "wf_tree (root (doc_remove at n d))"
    using tree.del_ok [OF t at'(1) at(2) at'(2)]
    by (simp add: doc_remove_def docRemove_shift [of "first d"])
  show sub: "set (doc_lines (doc_remove at n d)) \<subseteq> set (doc_lines d)"
    by (auto simp: dl splice_def dest: in_set_takeD in_set_dropD)
  show nl: "nextLine (doc_remove at n d) = nextLine d" and "same_frame d (doc_remove at n d)"
    by (simp_all add: doc_remove_def)
  have len: "length (doc_lines (doc_remove at n d)) = length (doc_lines d) - nat n"
    using at by (simp add: dl splice_def)
  have "distinct (map lid (splice i m [] (doc_lines d)))" for i m
  proof -
    have "doc_lines d = take i (doc_lines d) @ take m (drop i (doc_lines d)) @ drop (i + m) (doc_lines d)"
      by (metis append_take_drop_id drop_drop add.commute)
    then have "distinct (map lid (take i (doc_lines d) @ take m (drop i (doc_lines d)) @ drop (i + m) (doc_lines d)))"
      using d by (metis wf_doc_def)
    then show ?thesis unfolding splice_def
      by (simp only: map_append distinct_append set_append set_map) auto
  qed
  then show "wf_doc (doc_remove at n d)"
    using d wt sub len k unfolding wf_doc_def nl list_all_iff by (auto simp: dl)
  show "contents (doc_remove at n d) = splice (nat (at - first d)) (nat n) [] (contents d)"
    by (simp add: contents_def dl splice_def take_map drop_map)
qed

lemma fresh_lines_mono:
  "fresh_lines new d \<Longrightarrow> lid ` set (doc_lines d') \<subseteq> lid ` set (doc_lines d) \<Longrightarrow> nextLine d' = nextLine d \<Longrightarrow> fresh_lines new d'"
  by (auto simp: fresh_lines_def)

section \<open>updateDoc is a replacement of text\<close>

definition line_index :: "doc \<Rightarrow> int \<Rightarrow> nat" where
  "line_index d n = nat (n - first d)"

definition pos_ok :: "doc \<Rightarrow> pos \<Rightarrow> bool" where
  "pos_ok d p \<longleftrightarrow> first d \<le> pline p \<and> pline p < first d + int (length (doc_lines d)) \<and> 0 \<le> pch p
     \<and> pch p \<le> int (length (texts d ! line_index d (pline p)))"

text \<open>A change that can be made on a document: its ends are in the document, in order, with some text.\<close>

definition change_ok :: "doc \<Rightarrow> change \<Rightarrow> bool" where
  "change_ok d c \<longleftrightarrow> pos_ok d (cfrom c) \<and> pos_ok d (cto c) \<and> cfrom c \<le> cto c \<and> ctext c \<noteq> []"

definition replaced_contents :: "doc \<Rightarrow> change \<Rightarrow> mspan list list option \<Rightarrow> (jstr \<times> mspan list) list" where
  "replaced_contents d c sp =
     (let a = line_index d (pline (cfrom c)); b = line_index d (pline (cto c)); C = contents d
      in take a C
         @ zip (glue (take (nat (pch (cfrom c))) (fst (C ! a))) (ctext c) (drop (nat (pch (cto c))) (fst (C ! b))))
               (map (spansFor sp) [0..<length (ctext c)])
         @ drop (Suc b) C)"

lemma glue_nth:
  assumes "ts \<noteq> []" "k < length ts"
  shows "glue x ts y ! k = (if k = 0 then x else []) @ ts ! k @ (if k = length ts - 1 then y else [])"
  using assms(1)
proof (cases rule: glue_cases)
  case (2 t us u)
  with assms(2) show ?thesis by (auto simp: glue_snoc nth_Cons nth_append split: nat.splits)
qed (use assms(2) in auto)

lemma glue_zip:
  assumes "ts \<noteq> []"
  shows "zip (glue x ts y) (map f [0..<length ts])
    = map (\<lambda>k. ((if k = 0 then x else []) @ ts ! k @ (if k = length ts - 1 then y else []), f k)) [0..<length ts]"
proof (rule nth_equalityI)
  fix k assume "k < length (zip (glue x ts y) (map f [0..<length ts]))"
  then have "k < length ts" by simp
  then show "zip (glue x ts y) (map f [0..<length ts]) ! k = map (\<lambda>k. ((if k = 0 then x else []) @ ts ! k
      @ (if k = length ts - 1 then y else []), f k)) [0..<length ts] ! k"
    by (simp add: glue_length [OF assms] glue_nth [OF assms])
qed (simp add: glue_length [OF assms])

lemma glue_zip_last:
  assumes "ts \<noteq> []" "x = []" "last ts = []"
  shows "zip (glue x ts y) (map f [0..<length ts])
    = map (\<lambda>k. (ts ! k, f k)) [0..<length ts - 1] @ [(y, f (length ts - 1))]"
proof -
  obtain n where n: "length ts = Suc n" using assms(1) by (cases ts) auto
  have "ts ! n = []" using assms n by (simp add: last_conv_nth)
  then show ?thesis unfolding glue_zip [OF assms(1)] by (simp add: n assms(2))
qed

lemma glue_zip_ends:
  assumes "2 \<le> length ts"
  shows "zip (glue x ts y) (map f [0..<length ts])
    = (x @ ts ! 0, f 0) # map (\<lambda>k. (ts ! k, f k)) [1..<length ts - 1] @ [(last ts @ y, f (length ts - 1))]"
proof -
  obtain n where n: "length ts = Suc (Suc n)" using assms by (metis Suc_le_D numeral_2_eq_2 Suc_le_mono)
  then have ne: "ts \<noteq> []" by auto
  then have l: "last ts = ts ! Suc n" using n by (simp add: last_conv_nth)
  have "[0..<Suc (Suc n)] = 0 # [Suc 0..<Suc (Suc n)]" by (rule upt_conv_Cons) simp
  also have "[Suc 0..<Suc (Suc n)] = [Suc 0..<Suc n] @ [Suc n]" by simp
  finally have r: "[0..<Suc (Suc n)] = 0 # [Suc 0..<Suc n] @ [Suc n]" .
  have "map (\<lambda>k. ((if k = 0 then x else []) @ ts ! k @ (if k = length ts - 1 then y else []), f k)) [Suc 0..<Suc n]
      = map (\<lambda>k. (ts ! k, f k)) [Suc 0..<Suc n]"
    by (rule map_cong) (auto simp: n)
  then show ?thesis unfolding glue_zip [OF ne] unfolding n r l by (simp del: upt_Suc)
qed

lemma splice_replace_one: "b < length C \<Longrightarrow> C[b := y] = take b C @ y # drop (Suc b) C"
  by (simp add: upd_conv_take_nth_drop)

lemma splice_insert_after:
  "a < length C \<Longrightarrow> splice (Suc a) 0 M (C[a := x]) = take a C @ x # M @ drop (Suc a) C"
  by (simp add: splice_def upd_conv_take_nth_drop min_def)

lemma splice_join_lines:
  assumes "a < b" "b < length C"
  shows "splice (Suc a) (b - a) [] (C[a := x]) = take a C @ x # drop (Suc b) C"
proof -
  have "take (Suc a) (C[a := x]) = take a C @ [x]" using assms by (simp add: take_Suc_conv_app_nth)
  then show ?thesis using assms by (simp add: splice_def)
qed

lemma splice_between:
  assumes "a < b" "b < length C"
  shows "splice (Suc a) 0 M (splice (Suc a) (b - a - 1) [] (C[a := x, b := y])) = take a C @ x # M @ y # drop (Suc b) C"
proof -
  have "take (Suc a) (C[a := x, b := y]) = take a C @ [x]" using assms
    by (simp add: take_Suc_conv_app_nth)
  moreover have "drop b (C[a := x, b := y]) = y # drop (Suc b) C" using assms
    by (simp add: Cons_nth_drop_Suc [symmetric])
  ultimately show ?thesis using assms by (simp add: splice_def)
qed

lemma splice_whole:
  assumes "a \<le> b" "b < length C"
  shows "splice a 0 M (splice a (b - a) [] (C[b := y])) = take a C @ M @ y # drop (Suc b) C"
proof -
  have "drop b (C[b := y]) = y # drop (Suc b) C" using assms
    by (simp add: Cons_nth_drop_Suc [symmetric])
  then show ?thesis using assms by (simp add: splice_def)
qed

lemma pos_ok_line:
  assumes "wf_doc d" "pos_ok d p"
  shows "line_index d (pline p) < length (doc_lines d)"
    "getLine d (pline p) = Some (doc_lines d ! line_index d (pline p))"
    "int (line_index d (pline p)) = pline p - first d"
    "contents d ! line_index d (pline p) = (ltext (doc_lines d ! line_index d (pline p)), lspans (doc_lines d ! line_index d (pline p)))"
  using assms by (auto simp: pos_ok_def line_index_def getLine_spec contents_def)

lemma same_lid_iff:
  "wf_doc d \<Longrightarrow> i < length (doc_lines d) \<Longrightarrow> j < length (doc_lines d) \<Longrightarrow>
   lid (doc_lines d ! i) = lid (doc_lines d ! j) \<longleftrightarrow> i = j"
  by (auto simp: wf_doc_def distinct_conv_nth)

section \<open>The lines of a marker\<close>

text \<open>The ids of the lines that have spans of a marker, once for every span.\<close>

definition spans_of :: "nat \<Rightarrow> mspan list \<Rightarrow> mspan list" where
  "spans_of mk = filter (\<lambda>sp. smarker sp = mk)"

fun at_lines :: "jsline list \<Rightarrow> nat \<Rightarrow> nat multiset" where
  "at_lines [] mk = {#}"
| "at_lines (l # ls) mk = replicate_mset (length (spans_of mk (lspans l))) (lid l) + at_lines ls mk"

text \<open>Every marker knows the lines of the document it has spans on, and those of \<open>new\<close>, which are to be taken in.\<close>

definition linked :: "doc \<Rightarrow> jsline list \<Rightarrow> bool" where
  "linked d new \<longleftrightarrow> (\<forall>mk. mset (mlines (markers d mk)) = at_lines (doc_lines d) mk + at_lines new mk)"

lemma spans_of_simps [simp]:
  "spans_of mk [] = []" "spans_of mk (sp # sps) = (if smarker sp = mk then sp # spans_of mk sps else spans_of mk sps)"
  "spans_of mk (xs @ ys) = spans_of mk xs @ spans_of mk ys"
  by (simp_all add: spans_of_def)

lemma at_lines_append [simp]: "at_lines (xs @ ys) mk = at_lines xs mk + at_lines ys mk"
  by (induction xs) simp_all

lemma at_lines_update:
  "k < length ls \<Longrightarrow> at_lines (ls[k := l]) mk + at_lines [ls ! k] mk = at_lines ls mk + at_lines [l] mk"
  by (induction ls arbitrary: k) (auto split: nat.split)

lemma at_lines_at: "k < length ls \<Longrightarrow> at_lines [ls ! k] mk \<subseteq># at_lines ls mk"
  by (induction ls arbitrary: k) (auto simp: nth_Cons split: nat.split intro: mset_subset_eq_add_right subset_mset.order_trans)

lemma mlines_attach:
  "mset (mlines (attachMarkedSpans i sps ms mk)) = mset (mlines (ms mk)) + replicate_mset (length (spans_of mk sps)) i"
  by (induction i sps ms rule: attachMarkedSpans.induct) (auto simp: attachLine_def fun_upd_def)

lemma detachLine_mset:
  assumes "i \<in> set (mlines (ms mk))"
  shows "mset (mlines (detachLine mk i ms mk')) = (if mk' = mk then mset (mlines (ms mk)) - {#i#} else mset (mlines (ms mk')))"
proof -
  let ?k = "nat (indexOf (mlines (ms mk)) i)"
  note k = indexOf_in [OF assms]
  have "mlines (ms mk) = take ?k (mlines (ms mk)) @ i # drop (Suc ?k) (mlines (ms mk))"
    using k by (metis id_take_nth_drop nat_less_iff)
  then have "mset (mlines (ms mk)) = add_mset i (mset (take ?k (mlines (ms mk)) @ drop (Suc ?k) (mlines (ms mk))))"
    by (metis mset.simps(2) mset_append union_mset_add_mset_right)
  then have "mset (take ?k (mlines (ms mk)) @ drop (Suc ?k) (mlines (ms mk))) = mset (mlines (ms mk)) - {#i#}" by simp
  moreover have "indexOf (mlines (ms mk)) i \<noteq> -1" using k by simp
  ultimately show ?thesis by (simp add: detachLine_def Let_def splice_def)
qed

lemma mlines_detach:
  "replicate_mset (length (spans_of mk sps)) i \<subseteq># mset (mlines (ms mk)) \<Longrightarrow>
   (\<forall>mk'. replicate_mset (length (spans_of mk' sps)) i \<subseteq># mset (mlines (ms mk'))) \<Longrightarrow>
   mset (mlines (detachMarkedSpans i sps ms mk)) = mset (mlines (ms mk)) - replicate_mset (length (spans_of mk sps)) i"
proof (induction i sps ms rule: detachMarkedSpans.induct)
  case (2 i sp sps ms)
  let ?m = "smarker sp"
  have "replicate_mset (length (spans_of ?m (sp # sps))) i \<subseteq># mset (mlines (ms ?m))" using 2(3) by blast
  then have i: "i \<in># mset (mlines (ms ?m))" by (metis add_mset_remove_trivial_If insert_subset_eq_iff length_Cons replicate_mset_Suc spans_of_simps(2))
  then have d: "mset (mlines (detachLine ?m i ms mk')) = (if mk' = ?m then mset (mlines (ms ?m)) - {#i#} else mset (mlines (ms mk')))" for mk'
    by (intro detachLine_mset) simp
  have s: "replicate_mset (length (spans_of mk' sps)) i \<subseteq># mset (mlines (detachLine ?m i ms mk'))" for mk'
  proof (cases "mk' = ?m")
    case True
    have "replicate_mset (Suc (length (spans_of mk' sps))) i \<subseteq># mset (mlines (ms mk'))" using 2(3) True by (metis length_Cons spans_of_simps(2))
    then show ?thesis using d True by (simp add: insert_subset_eq_iff)
  next
    case False
    have "replicate_mset (length (spans_of mk' (sp # sps))) i \<subseteq># mset (mlines (ms mk'))" using 2(3) by blast
    then show ?thesis using d False by simp
  qed
  then show ?case using 2(1) d by (auto simp: diff_add_mset_swap)
qed simp

lemma linked_newLines:
  "newLines ps est d = (added, d') \<Longrightarrow>
     mset (mlines (markers d' mk)) = mset (mlines (markers d mk)) + at_lines added mk"
proof (induction ps est d arbitrary: added d' rule: newLines.induct)
  case (2 t spans rest est d)
  obtain l d1 where n1: "newLine t spans est d = (l, d1)" by fastforce
  obtain ls d2 where n2: "newLines rest est d1 = (ls, d2)" by fastforce
  have r: "added = l # ls" "d' = d2" using 2 n1 n2 by auto
  have "lid l = nextLine d" "lspans l = spans" "markers d1 = attachMarkedSpans (nextLine d) spans (markers d)"
    using n1 by (auto simp: newLine_def Let_def)
  then show ?case using 2(1) [OF n1 [symmetric] refl n2] r by (simp add: mlines_attach)
qed simp

lemma linked_updateLine:
  assumes "wf_doc d" "linked d new" "k < length (doc_lines d)" "line = doc_lines d ! k"
  shows "linked (updateLine line t spans est d) new"
proof -
  let ?d = "updateLine line t spans est d"
  note u = updateLine_spec [OF assms(1, 3, 4), where t = t and spans = spans and est = est]
  have len: "length (doc_lines ?d) = length (doc_lines d)" using u(3) by (metis length_map)
  have lid: "lid (doc_lines ?d ! k) = lid line" using u(3) assms(3, 4) len by (metis nth_map)
  have sp: "lspans (doc_lines ?d ! k) = spans"
  proof -
    have "contents ?d ! k = (t, spans)" using u(2) assms(3) by simp
    then show ?thesis using assms(3) len by (simp add: contents_def)
  qed
  have dl: "doc_lines ?d = (doc_lines d)[k := doc_lines ?d ! k]"
  proof (rule nth_equalityI)
    show "doc_lines ?d ! i = (doc_lines d)[k := doc_lines ?d ! k] ! i" if "i < length (doc_lines ?d)" for i
      using that len u(6) by (cases "i = k") simp_all
  qed (simp add: len)
  have ms: "markers ?d = attachMarkedSpans (lid line) spans (detachMarkedSpans (lid line) (lspans line) (markers d))"
    by (simp add: updateLine_def Let_def)
  have sub: "replicate_mset (length (spans_of mk (lspans line))) (lid line) \<subseteq># mset (mlines (markers d mk))" for mk
    using at_lines_at [OF assms(3), of mk] assms(2, 4) by (simp add: linked_def subset_mset.add_increasing2)
  show ?thesis
    unfolding linked_def
  proof
    fix mk
    let ?old = "replicate_mset (length (spans_of mk (lspans line))) (lid line)"
      and ?new = "replicate_mset (length (spans_of mk spans)) (lid line)"
    have "mset (mlines (detachMarkedSpans (lid line) (lspans line) (markers d) mk)) = mset (mlines (markers d mk)) - ?old"
      by (rule mlines_detach) (use sub in blast)+
    then have "mset (mlines (markers ?d mk)) = mset (mlines (markers d mk)) - ?old + ?new" by (simp add: ms mlines_attach)
    moreover have "at_lines (doc_lines ?d) mk + ?old = at_lines (doc_lines d) mk + ?new"
      using at_lines_update [OF assms(3), of "doc_lines ?d ! k" mk] dl lid sp assms(4) by simp
    moreover have "mset (mlines (markers d mk)) = at_lines (doc_lines d) mk + at_lines new mk" using assms(2) by (simp add: linked_def)
    ultimately show "mset (mlines (markers ?d mk)) = at_lines (doc_lines ?d) mk + at_lines new mk"
      using sub [of mk] by (metis (no_types, lifting) add.commute add.left_commute add_diff_cancel_right' multiset_diff_union_assoc subset_mset.diff_add)
  qed
qed

lemma linked_cleanUpLines:
  "(\<forall>mk. at_lines ls mk \<subseteq># mset (mlines (ms mk))) \<Longrightarrow>
     mset (mlines (cleanUpLines ls ms mk)) = mset (mlines (ms mk)) - at_lines ls mk"
proof (induction ls arbitrary: ms)
  case Nil
  then show ?case by (simp add: cleanUpLines_def)
next
  case (Cons l ls)
  have sub: "replicate_mset (length (spans_of mk (lspans l))) (lid l) \<subseteq># mset (mlines (ms mk))" for mk
    using Cons(2) by (metis at_lines.simps(2) mset_subset_eq_add_left subset_mset.order_trans)
  have d: "mset (mlines (detachMarkedSpans (lid l) (lspans l) ms mk))
      = mset (mlines (ms mk)) - replicate_mset (length (spans_of mk (lspans l))) (lid l)" for mk
    by (rule mlines_detach) (use sub in blast)+
  have "at_lines ls mk \<subseteq># mset (mlines (detachMarkedSpans (lid l) (lspans l) ms mk))" for mk
    unfolding d
  proof (rule mset_subset_eqI)
    fix i
    have "count (at_lines (l # ls) mk) i \<le> count (mset (mlines (ms mk))) i" using Cons(2) by (blast intro: mset_subset_eq_count)
    then show "count (at_lines ls mk) i
        \<le> count (mset (mlines (ms mk)) - replicate_mset (length (spans_of mk (lspans l))) (lid l)) i" by simp
  qed
  then have "mset (mlines (cleanUpLines ls (detachMarkedSpans (lid l) (lspans l) ms) mk))
      = mset (mlines (detachMarkedSpans (lid l) (lspans l) ms mk)) - at_lines ls mk"
    by (intro Cons(1)) blast
  then show ?case by (simp add: d cleanUpLines_def)
qed

lemma linked_remove:
  assumes "wf_doc d" "linked d new" "at = first d + int k" "k + n \<le> length (doc_lines d)" "n < length (doc_lines d)"
  shows "linked (doc_remove at (int n) d) new"
proof -
  let ?gone = "take n (drop k (doc_lines d))"
  have t: "wf_tree (root d)" using assms(1) by (simp add: wf_doc_def)
  have at: "0 \<le> at - first d" "0 \<le> int n" "at - first d + int n \<le> int (length (collapse (root d)))"
    using assms(3, 4) by (simp_all add: doc_lines_def)
  have dl: "doc_lines (doc_remove at (int n) d) = take k (doc_lines d) @ drop (k + n) (doc_lines d)"
    using tree.del_lines [OF t at] assms(3)
    by (simp add: doc_remove_def doc_lines_def docRemove_shift [of "first d"] splice_def)
  have it: "iter at (at + int n) (\<lambda>l out. (out @ [l], False)) d [] = ?gone"
    using iter_lines [OF assms(1), of at "at + int n" "\<lambda>l out. (out @ [l], False)" "[]"]
      assms(3) iterLines_collect [of "\<lambda>l. l" ?gone "[]"] by simp
  have ms: "markers (doc_remove at (int n) d) = cleanUpLines ?gone (markers d)" by (simp add: doc_remove_def it)
  have all: "at_lines (doc_lines d) mk = at_lines (doc_lines (doc_remove at (int n) d)) mk + at_lines ?gone mk" for mk
  proof -
    have "doc_lines d = take k (doc_lines d) @ ?gone @ drop (k + n) (doc_lines d)"
      by (metis append_take_drop_id drop_drop add.commute)
    then have "at_lines (doc_lines d) mk = at_lines (take k (doc_lines d) @ ?gone @ drop (k + n) (doc_lines d)) mk" by simp
    then show ?thesis by (simp add: dl)
  qed
  have "at_lines ?gone mk \<subseteq># mset (mlines (markers d mk))" for mk
    using assms(2) all [of mk] by (simp add: linked_def subset_mset.add_increasing2)
  then have "mset (mlines (cleanUpLines ?gone (markers d) mk)) = mset (mlines (markers d mk)) - at_lines ?gone mk" for mk
    by (intro linked_cleanUpLines) blast
  then show ?thesis using assms(2) all by (simp add: linked_def ms)
qed

lemma linked_insert:
  assumes "wf_doc d" "linked d new" "at = first d + int k" "k \<le> length (doc_lines d)"
  shows "linked (doc_insert at new d) []"
proof -
  have t: "wf_tree (root d)" using assms(1) by (simp add: wf_doc_def)
  have at: "0 \<le> at - first d" "at - first d \<le> int (length (collapse (root d)))" using assms(3, 4) by (simp_all add: doc_lines_def)
  have dl: "doc_lines (doc_insert at new d) = take k (doc_lines d) @ new @ drop k (doc_lines d)"
    using tree.ins_lines [OF t at, of new] assms(3)
    by (simp add: doc_insert_def doc_lines_def docInsert_shift [of "first d"] splice_def)
  have "at_lines (doc_lines d) mk = at_lines (take k (doc_lines d)) mk + at_lines (drop k (doc_lines d)) mk" for mk
    by (metis append_take_drop_id at_lines_append)
  then show ?thesis using assms(2) by (simp add: linked_def dl) (simp add: doc_insert_def)
qed

text \<open>
  The state in the middle of \<open>updateDoc\<close>: the document has the contents \<open>X\<close>, and \<open>new\<close> are lines it may
  take in. The three steps keep it.
\<close>

definition in_update :: "doc \<Rightarrow> doc \<Rightarrow> (jstr \<times> mspan list) list \<Rightarrow> jsline list \<Rightarrow> bool" where
  "in_update d0 d X new \<longleftrightarrow> wf_doc d \<and> same_frame d0 d \<and> nextLine d0 \<le> nextLine d \<and> contents d = X \<and> fresh_lines new d
     \<and> (linked d0 [] \<longrightarrow> linked d new)"

lemma in_update_start: "wf_doc d \<Longrightarrow> in_update d d (contents d) []"
  by (simp add: in_update_def fresh_lines_def)

lemma in_update_new:
  assumes "in_update d0 d X []" "newLines ps est d = (new, d')"
  shows "in_update d0 d' X new" "doc_lines d' = doc_lines d" "map (\<lambda>l. (ltext l, lspans l)) new = ps"
proof -
  have w: "wf_doc d" and f: "same_frame d0 d" and "nextLine d0 \<le> nextLine d" "contents d = X"
    using assms(1) by (auto simp: in_update_def)
  moreover note n = newLines_spec [OF assms(2) w]
  moreover have "same_frame d0 d'" using f n by (blast intro: same_frame_trans)
  moreover have "linked d0 [] \<longrightarrow> linked d' new"
    using assms(1) n linked_newLines [OF assms(2)] by (simp add: in_update_def linked_def)
  ultimately show "in_update d0 d' X new" "doc_lines d' = doc_lines d" "map (\<lambda>l. (ltext l, lspans l)) new = ps"
    by (auto simp: in_update_def contents_def)
qed

lemma in_update_line:
  assumes "in_update d0 d X new" "k < length X" "line = doc_lines d ! k"
  shows "in_update d0 (updateLine line t sps est d) (X[k := (t, sps)]) new"
    "m < length X \<Longrightarrow> m \<noteq> k \<Longrightarrow> doc_lines (updateLine line t sps est d) ! m = doc_lines d ! m"
proof -
  have d: "wf_doc d" and k: "k < length (doc_lines d)" and X: "contents d = X" and f: "same_frame d0 d"
    and n: "nextLine d0 \<le> nextLine d" and new: "fresh_lines new d"
    using assms by (auto simp: in_update_def)
  note u = updateLine_spec [OF d k assms(3), where t = t and spans = sps and est = est]
  have "lid ` set (doc_lines (updateLine line t sps est d)) = lid ` set (doc_lines d)"
    using u(3) by (metis set_map)
  then have "fresh_lines new (updateLine line t sps est d)" by (intro fresh_lines_mono [OF new]) (simp_all add: u)
  moreover have "same_frame d0 (updateLine line t sps est d)" using f u(4) by (rule same_frame_trans)
  moreover have "linked d0 [] \<longrightarrow> linked (updateLine line t sps est d) new"
    using linked_updateLine [OF d _ k assms(3)] assms(1) by (simp add: in_update_def)
  ultimately show "in_update d0 (updateLine line t sps est d) (X[k := (t, sps)]) new"
    using u n X by (simp add: in_update_def)
  show "doc_lines (updateLine line t sps est d) ! m = doc_lines d ! m" if "m < length X" "m \<noteq> k"
    using u(6) that X by (metis length_contents(1))
qed

lemma in_update_remove:
  assumes "in_update d0 d X new" "at = first d0 + int k" "k + n \<le> length X" "n < length X"
  shows "in_update d0 (doc_remove at (int n) d) (splice k n [] X) new"
proof -
  have d: "wf_doc d" and X: "contents d = X" and f: "same_frame d0 d"
    and nx: "nextLine d0 \<le> nextLine d" and new: "fresh_lines new d"
    using assms by (auto simp: in_update_def)
  have len: "length (doc_lines d) = length X" using X by (metis length_contents(1))
  have f1: "first d = first d0" using f by (rule same_frame_fields)
  have r: "first d \<le> at" "0 \<le> int n" "at + int n \<le> first d + int (length (doc_lines d))" "nat (int n) < length (doc_lines d)"
    using assms len f1 by simp_all
  note u = doc_remove_spec [OF d r]
  have "fresh_lines new (doc_remove at (int n) d)"
    using u(3,5) by (intro fresh_lines_mono [OF new]) auto
  moreover have "same_frame d0 (doc_remove at (int n) d)" using f u(4) by (rule same_frame_trans)
  moreover have "linked d0 [] \<longrightarrow> linked (doc_remove at (int n) d) new"
    using linked_remove [OF d, of new at k n] assms len f1 by (simp add: in_update_def)
  ultimately show ?thesis using u nx X assms f1 by (simp add: in_update_def)
qed

lemma in_update_insert:
  assumes "in_update d0 d X new" "at = first d0 + int k" "k \<le> length X"
  shows "in_update d0 (doc_insert at new d) (splice k 0 (map (\<lambda>l. (ltext l, lspans l)) new) X) []"
proof -
  have d: "wf_doc d" and X: "contents d = X" and f: "same_frame d0 d"
    and nx: "nextLine d0 \<le> nextLine d" and new: "fresh_lines new d"
    using assms by (auto simp: in_update_def)
  have len: "length (doc_lines d) = length X" using X by (metis length_contents(1))
  have f1: "first d = first d0" using f by (rule same_frame_fields)
  have r: "first d \<le> at" "at \<le> first d + int (length (doc_lines d))" using assms len f1 by simp_all
  note u = doc_insert_spec [OF d new r]
  have "same_frame d0 (doc_insert at new d)" using f u(3) by (rule same_frame_trans)
  moreover have "nextLine (doc_insert at new d) = nextLine d" by (simp add: doc_insert_def)
  moreover have "linked d0 [] \<longrightarrow> linked (doc_insert at new d) []"
    using linked_insert [OF d, of new at k] assms len f1 by (simp add: in_update_def)
  ultimately show ?thesis using u nx X assms f1 by (simp add: in_update_def fresh_lines_def)
qed

lemma in_update_remove_if:
  assumes "in_update d0 d X new" "at = first d0 + int k" "k + n \<le> length X" "n < length X" "m = int n"
    and "P \<longleftrightarrow> n \<noteq> 0"
  shows "in_update d0 (if P then doc_remove at m d else d) (splice k n [] X) new"
  using in_update_remove [OF assms(1-4)] assms by simp

lemma in_update_insert_if:
  assumes "in_update d0 d X new" "at = first d0 + int k" "k \<le> length X"
  shows "in_update d0 (if new \<noteq> [] then doc_insert at new d else d) (splice k 0 (map (\<lambda>l. (ltext l, lspans l)) new) X) []"
  using in_update_insert [OF assms] assms(1) by auto

lemma updateDoc_contents:
  assumes d: "wf_doc d" and c: "change_ok d c"
  shows "\<exists>d'. updateDoc d c sp est = Some d' \<and> in_update d d' (replaced_contents d c sp) []"
proof -
  define a b where ab: "a = line_index d (pline (cfrom c))" "b = line_index d (pline (cto c))"
  define i j where ij: "i = nat (pch (cfrom c))" "j = nat (pch (cto c))"
  define ts where ts: "ts = ctext c"
  define mid where mid: "mid = (\<lambda>lo. map (\<lambda>k. (ts ! k, spansFor sp k)) [lo..<length ts - 1])"
  define L where L: "L = doc_lines d"
  define C where C: "C = contents d"
  have pf: "pos_ok d (cfrom c)" and pt: "pos_ok d (cto c)" and ord: "cfrom c \<le> cto c" and ne: "ts \<noteq> []"
    using c by (auto simp: change_ok_def ts)
  note lf = pos_ok_line [OF d pf, folded ab L C] and lt = pos_ok_line [OF d pt, folded ab L C]
  have aleb: "a \<le> b" using ord lf(3) lt(3) by (auto simp: pos_le_iff)
  have nl: "pline (cto c) - pline (cfrom c) = int (b - a)" using aleb lf(3) lt(3) by simp
  have at: "pline (cfrom c) = first d + int a" "pline (cfrom c) + 1 = first d + int (Suc a)" using lf(3) by simp_all
  have len: "length C = length L" "b < length C" "a < length C" using lf lt by (simp_all add: C L)
  have slices: "slice 0 (pch (cfrom c)) xs = take i xs" "slice_from (pch (cto c)) xs = drop j xs" for xs :: jstr
    using pf pt by (simp_all add: pos_ok_def slice_from_nonneg ij)
  define x y where xy: "x = take i (ltext (L ! a))" "y = drop j (ltext (L ! b))"
  have target: "replaced_contents d c sp
      = take a C @ zip (glue x ts y) (map (spansFor sp) [0..<length ts]) @ drop (Suc b) C"
    using lf(4) lt(4) by (simp add: replaced_contents_def Let_def ab ij ts C L xy)
  note start = in_update_start [OF d, folded C]
  have same: "lid (L ! a) = lid (L ! b) \<longleftrightarrow> a = b" using same_lid_iff [OF d] lf(1) lt(1) by (simp add: L)
  have body: "updateDoc d c sp est = Some
      (if isWholeLineUpdate d c then
         (let (added, d1) = newLines (mid 0) est d;
              d2 = updateLine (L ! b) (ltext (L ! b)) (spansFor sp (length ts - 1)) est d1;
              d3 = (if int (b - a) \<noteq> 0 then doc_remove (pline (cfrom c)) (int (b - a)) d2 else d2)
          in if added \<noteq> [] then doc_insert (pline (cfrom c)) added d3 else d3)
       else if a = b then
         (if length ts = 1 then updateLine (L ! a) (x @ last ts @ y) (spansFor sp (length ts - 1)) est d
          else
            (let (added, d1) = newLines (mid 1 @ [(last ts @ y, spansFor sp (length ts - 1))]) est d;
                 d2 = updateLine (L ! a) (x @ ts ! 0) (spansFor sp 0) est d1
             in doc_insert (pline (cfrom c) + 1) added d2))
       else if length ts = 1 then
         doc_remove (pline (cfrom c) + 1) (int (b - a)) (updateLine (L ! a) (x @ ts ! 0 @ y) (spansFor sp 0) est d)
       else
         (let d1 = updateLine (L ! a) (x @ ts ! 0) (spansFor sp 0) est d;
              d2 = updateLine (L ! b) (last ts @ y) (spansFor sp (length ts - 1)) est d1;
              (added, d3) = newLines (mid 1) est d2;
              d4 = (if int (b - a) > 1 then doc_remove (pline (cfrom c) + 1) (int (b - a) - 1) d3 else d3)
          in doc_insert (pline (cfrom c) + 1) added d4))"
    unfolding updateDoc_def lf(2) lt(2)
    by (cases "a = b") (simp_all only: bind.simps Let_def slices nl xy ts [symmetric] mid same simp_thms if_True if_False)
  consider (whole) "isWholeLineUpdate d c" | (one) t where "\<not> isWholeLineUpdate d c" "a = b" "ts = [t]"
    | (split) "\<not> isWholeLineUpdate d c" "a = b" "2 \<le> length ts"
    | (joined) t where "\<not> isWholeLineUpdate d c" "a < b" "ts = [t]"
    | (many) "\<not> isWholeLineUpdate d c" "a < b" "2 \<le> length ts"
    using aleb ne by (cases ts; cases "tl ts") (auto simp: le_less)
  then show ?thesis
  proof cases
    case whole
    then have w: "x = []" "last ts = []" "j = 0" by (auto simp: isWholeLineUpdate_def xy ij ts)
    obtain new d1 where n: "newLines (mid 0) est d = (new, d1)" by fastforce
    note n1 = in_update_new [OF start n]
    let ?d2 = "updateLine (L ! b) (ltext (L ! b)) (spansFor sp (length ts - 1)) est d1"
    let ?d3 = "if int (b - a) \<noteq> 0 then doc_remove (pline (cfrom c)) (int (b - a)) ?d2 else ?d2"
    have "in_update d ?d2 (C[b := (ltext (L ! b), spansFor sp (length ts - 1))]) new"
      by (rule in_update_line(1) [OF n1(1)]) (use len n1 in \<open>simp_all add: L\<close>)
    then have "in_update d ?d3 (splice a (b - a) [] (C[b := (ltext (L ! b), spansFor sp (length ts - 1))])) new"
      by (rule in_update_remove_if [OF _ at(1)]) (use len aleb in simp_all)
    then have "in_update d (if new \<noteq> [] then doc_insert (pline (cfrom c)) new ?d3 else ?d3)
      (splice a 0 (map (\<lambda>l. (ltext l, lspans l)) new) (splice a (b - a) [] (C[b := (ltext (L ! b), spansFor sp (length ts - 1))]))) []"
      by (rule in_update_insert_if [OF _ at(1)]) (use len aleb in \<open>simp add: splice_def\<close>)
    also have "splice a 0 (map (\<lambda>l. (ltext l, lspans l)) new) (splice a (b - a) [] (C[b := (ltext (L ! b), spansFor sp (length ts - 1))]))
      = replaced_contents d c sp"
      unfolding target glue_zip_last [OF ne w(1,2)] splice_whole [OF aleb len(2)] n1(3) by (simp add: mid xy w)
    finally show ?thesis
      unfolding body using whole by (simp only: if_True n case_prod_conv Let_def option.inject simp_thms)
  next
    case one
    have "in_update d (updateLine (L ! a) (x @ t @ y) (spansFor sp 0) est d) (C[a := (x @ t @ y, spansFor sp 0)]) []"
      by (rule in_update_line(1) [OF start]) (use len in \<open>simp_all add: L\<close>)
    then show ?thesis unfolding body target using one len by (simp add: upd_conv_take_nth_drop)
  next
    case split
    obtain new d1 where n: "newLines (mid 1 @ [(last ts @ y, spansFor sp (length ts - 1))]) est d = (new, d1)"
      by fastforce
    note n1 = in_update_new [OF start n]
    let ?d2 = "updateLine (L ! a) (x @ ts ! 0) (spansFor sp 0) est d1"
    have "in_update d ?d2 (C[a := (x @ ts ! 0, spansFor sp 0)]) new"
      by (rule in_update_line(1) [OF n1(1)]) (use len n1 in \<open>simp_all add: L\<close>)
    then have "in_update d (doc_insert (pline (cfrom c) + 1) new ?d2)
      (splice (Suc a) 0 (map (\<lambda>l. (ltext l, lspans l)) new) (C[a := (x @ ts ! 0, spansFor sp 0)])) []"
      by (rule in_update_insert [OF _ at(2)]) (use len in simp)
    also have "splice (Suc a) 0 (map (\<lambda>l. (ltext l, lspans l)) new) (C[a := (x @ ts ! 0, spansFor sp 0)])
      = replaced_contents d c sp"
      unfolding target glue_zip_ends [OF split(3)] splice_insert_after [OF len(3)] n1(3) using split by (simp add: mid)
    finally show ?thesis
      unfolding body using split n by simp
  next
    case joined
    have "in_update d (updateLine (L ! a) (x @ t @ y) (spansFor sp 0) est d) (C[a := (x @ t @ y, spansFor sp 0)]) []"
      by (rule in_update_line(1) [OF start]) (use len in \<open>simp_all add: L\<close>)
    then have "in_update d (doc_remove (pline (cfrom c) + 1) (int (b - a))
        (updateLine (L ! a) (x @ t @ y) (spansFor sp 0) est d)) (splice (Suc a) (b - a) [] (C[a := (x @ t @ y, spansFor sp 0)])) []"
      by (rule in_update_remove [OF _ at(2)]) (use len joined in simp_all)
    then show ?thesis unfolding body target splice_join_lines [OF joined(2) len(2)] using joined by simp
  next
    case many
    let ?d1 = "updateLine (L ! a) (x @ ts ! 0) (spansFor sp 0) est d"
    let ?d2 = "updateLine (L ! b) (last ts @ y) (spansFor sp (length ts - 1)) est ?d1"
    let ?X = "C[a := (x @ ts ! 0, spansFor sp 0), b := (last ts @ y, spansFor sp (length ts - 1))]"
    note u = in_update_line [OF start len(3), where line = "L ! a" and t = "x @ ts ! 0" and sps = "spansFor sp 0" and est = est]
    have u1: "in_update d ?d1 (C[a := (x @ ts ! 0, spansFor sp 0)]) []" and nth: "L ! b = doc_lines ?d1 ! b"
      using u(1) u(2) [of b] many len by (simp_all add: L)
    have v: "in_update d ?d2 ?X []"
      by (rule in_update_line(1) [OF u1 _ nth]) (use len in simp)
    obtain new d3 where n: "newLines (mid 1) est ?d2 = (new, d3)" by fastforce
    note n1 = in_update_new [OF v n]
    let ?d4 = "if int (b - a) > 1 then doc_remove (pline (cfrom c) + 1) (int (b - a) - 1) d3 else d3"
    have "in_update d ?d4 (splice (Suc a) (b - a - 1) [] ?X) new"
      by (rule in_update_remove_if [OF n1(1) at(2)]) (use len many in auto)
    then have "in_update d (doc_insert (pline (cfrom c) + 1) new ?d4)
      (splice (Suc a) 0 (map (\<lambda>l. (ltext l, lspans l)) new) (splice (Suc a) (b - a - 1) [] ?X)) []"
      by (rule in_update_insert [OF _ at(2)]) (use len many in \<open>simp add: splice_def\<close>)
    also have "splice (Suc a) 0 (map (\<lambda>l. (ltext l, lspans l)) new) (splice (Suc a) (b - a - 1) [] ?X)
      = replaced_contents d c sp"
      unfolding target glue_zip_ends [OF many(3)] splice_between [OF many(2) len(2)] n1(3) by (simp add: mid)
    finally have "in_update d (doc_insert (pline (cfrom c) + 1) new ?d4) (replaced_contents d c sp) []" .
    moreover have "\<not> (a = b)" "\<not> length ts = 1" using many by auto
    ultimately show ?thesis
      unfolding body using many by (simp only: if_False n case_prod_conv Let_def option.inject simp_thms)
  qed
qed

text \<open>What \<open>updateDoc\<close> did to the document, for the operations that call it.\<close>

lemma fst_replaced_contents:
  assumes "ctext c \<noteq> []" "pline (cfrom c) \<le> pline (cto c)"
    "line_index d (pline (cfrom c)) < length (doc_lines d)" "line_index d (pline (cto c)) < length (doc_lines d)"
  shows "map fst (replaced_contents d c sp)
    = text_replace (line_index d (pline (cfrom c))) (nat (pch (cfrom c)))
        (line_index d (pline (cto c))) (nat (pch (cto c))) (ctext c) (texts d)"
  using assms
  by (simp add: replaced_contents_def Let_def text_replace_def texts_contents take_map drop_map map_fst_zip glue_length)

lemma updateDoc_text:
  assumes d: "wf_doc d" and c: "change_ok d c"
  obtains d' where "updateDoc d c sp est = Some d'" "wf_doc d'" "same_frame d d'"
    "texts d' = text_replace (line_index d (pline (cfrom c))) (nat (pch (cfrom c)))
        (line_index d (pline (cto c))) (nat (pch (cto c))) (ctext c) (texts d)"
    "contents d' = replaced_contents d c sp" "linked d [] \<longrightarrow> linked d' []"
proof -
  obtain d' where r: "updateDoc d c sp est = Some d'" "in_update d d' (replaced_contents d c sp) []"
    using updateDoc_contents [OF assms] by blast
  have "ctext c \<noteq> []" "pline (cfrom c) \<le> pline (cto c)"
    "line_index d (pline (cfrom c)) < length (doc_lines d)" "line_index d (pline (cto c)) < length (doc_lines d)"
    using c pos_ok_line(1) [OF d] by (auto simp: change_ok_def pos_le_iff)
  note f = fst_replaced_contents [OF this, of sp]
  show ?thesis using r f by (intro that [of d']) (auto simp: in_update_def texts_contents)
qed

lemma places_of:
  assumes "wf_doc d" "pos_ok d p" "pos_ok d q" "p \<le> q"
  shows "places (line_index d (pline p)) (nat (pch p)) (line_index d (pline q)) (nat (pch q)) (texts d)"
  using assms by (auto simp: places_def place_def pos_ok_def line_index_def pos_le_iff)

text \<open>Reading: \<open>getBetween\<close>, \<open>getLines\<close>, and clipping positions.\<close>

lemma iterLines_counted:
  "iterLines (\<lambda>l (n, out). ((n + 1, out @ [h n l]), False)) ls (n0, out)
    = ((n0 + int (length ls), out @ map (\<lambda>k. h (n0 + int k) (ls ! k)) [0..<length ls]), False)"
proof (induction ls arbitrary: out rule: rev_induct)
  case (snoc l ls)
  have "map (\<lambda>k. h (n0 + int k) ((ls @ [l]) ! k)) [0..<length ls] = map (\<lambda>k. h (n0 + int k) (ls ! k)) [0..<length ls]"
    by (rule map_cong) (auto simp: nth_append)
  with snoc show ?case by (simp add: iterLines_append)
qed simp

lemma getBetween_text:
  assumes d: "wf_doc d" and p: "pos_ok d p" "pos_ok d q" "p \<le> q"
  shows "getBetween d p q =
    text_between (line_index d (pline p)) (nat (pch p)) (line_index d (pline q)) (nat (pch q)) (texts d)"
proof -
  define a b where ab: "a = line_index d (pline p)" "b = line_index d (pline q)"
  have ip: "pline p = first d + int a" and iq: "pline q = first d + int b"
    and la: "a < length (doc_lines d)" and lb: "b < length (doc_lines d)"
    using pos_ok_line [OF d p(1)] pos_ok_line [OF d p(2)] by (simp_all add: ab)
  have aleb: "a \<le> b" using ip iq p(3) by (auto simp: pos_le_iff)
  define h where "h = (\<lambda>n (line :: jsline). let t = ltext line; t = (if n = pline q then slice 0 (pch q) t else t)
     in if n = pline p then slice_from (pch p) t else t)"
  let ?ls = "take (Suc (b - a)) (drop a (doc_lines d))"
  have len: "length ?ls = Suc (b - a)" using lb aleb by simp
  have ch: "0 \<le> pch p" "0 \<le> pch q" using p by (auto simp: pos_ok_def)
  have "nat (pline q + 1 - pline p) = Suc (b - a)" "nat (pline p - first d) = a" "first d \<le> pline p"
    using ip iq aleb by simp_all
  then have g: "getBetween d p q = map (\<lambda>k. h (pline p + int k) (?ls ! k)) [0..<length ?ls]"
    using iterLines_counted [of h ?ls "pline p" "[]"]
    unfolding getBetween_def by (simp add: iter_lines [OF d] h_def Let_def)
  have h: "h (pline p + int k) l = (if k = 0 then drop (nat (pch p)) else id) ((if k = b - a then take (nat (pch q)) else id) (ltext l))"
    for k l using ch ip iq aleb by (auto simp: h_def Let_def slice_from_nonneg)
  show ?thesis
    unfolding g len h ab [symmetric]
  proof (rule nth_equalityI)
    fix k assume "k < length (map (\<lambda>k. (if k = 0 then drop (nat (pch p)) else id)
      ((if k = b - a then take (nat (pch q)) else id) (ltext (?ls ! k)))) [0..<Suc (b - a)])"
    then have "k < Suc (b - a)" by simp
    then show "map (\<lambda>k. (if k = 0 then drop (nat (pch p)) else id)
      ((if k = b - a then take (nat (pch q)) else id) (ltext (?ls ! k)))) [0..<Suc (b - a)] ! k
      = text_between a (nat (pch p)) b (nat (pch q)) (texts d) ! k"
      using la lb aleb
      by (auto simp: text_between_def texts_def nth_Cons nth_append less_Suc_eq simp del: upt_Suc split: nat.splits)
  qed (use la lb aleb in \<open>auto simp: text_between_def texts_def\<close>)
qed

lemma getLines_text:
  assumes "wf_doc d" "first d \<le> from"
  shows "getLines d from to = take (nat (to - from)) (drop (line_index d from) (texts d))"
  by (simp add: getLines_def line_index_def texts_def take_map drop_map iter_lines [OF assms] iterLines_collect)

lemma clipPosCh_ok:
  assumes d: "wf_doc d"
  obtains q where "clipPosCh d ln ch = Some q" "pos_ok d q"
    "ch = Some c \<Longrightarrow> pos_ok d (Pos ln c) \<Longrightarrow> q = Pos ln c"
proof -
  have ne: "length (doc_lines d) \<noteq> 0" using d by (simp add: wf_doc_def)
  have sz: "doc_size d = int (length (doc_lines d))" by (rule wf_doc_size [OF d])
  have "nat (int (length (doc_lines d)) - 1) < length (doc_lines d)" using ne by linarith
  note last = nth_map [OF this, of ltext]
  have "\<exists>q. clipPosCh d ln ch = Some q \<and> pos_ok d q \<and> (ch = Some c \<longrightarrow> pos_ok d (Pos ln c) \<longrightarrow> q = Pos ln c)"
    using ne by (auto simp: clipPosCh_def Let_def sz getLine_spec [OF d] pos_ok_def clipToLen_def line_index_def texts_def last
      split: option.splits)
  then show ?thesis using that by blast
qed

lemma clipPos_spec:
  assumes d: "wf_doc d"
  obtains q where "clipPos d p = Some q" "pos_ok d q" "pos_ok d p \<Longrightarrow> q = p"
  using clipPosCh_ok [OF d, of "pline p" "Some (pch p)" "pch p"] by (auto simp: clipPos_def)

lemma clipPos_id: "wf_doc d \<Longrightarrow> pos_ok d p \<Longrightarrow> clipPos d p = Some p"
  by (metis clipPos_spec)

section \<open>Spans stay in their lines\<close>

definition spans_wf :: "doc \<Rightarrow> bool" where
  "spans_wf d \<longleftrightarrow> list_all (\<lambda>(t, spans). spans_ok (int (length t)) spans) (contents d)"

lemma glue_lengths:
  assumes "ctext c \<noteq> []" "int (length x) = pch (cfrom c)" "int (length y) = len2 - pch (cto c)"
  shows "map (int \<circ> length) (glue x (ctext c) y) = new_lengths c len2"
  using assms(1)
proof (cases rule: glue_cases)
  case (2 t us u)
  then show ?thesis using assms by (simp add: glue_snoc new_lengths_def)
qed (use assms in \<open>simp add: new_lengths_def\<close>)

lemma list_all2_lengths:
  "list_all2 spans_ok (map (int \<circ> length) ts) sps \<Longrightarrow> list_all (\<lambda>(t, spans). spans_ok (int (length t)) spans) (zip ts sps)"
  by (auto simp: list_all2_conv_all_nth list_all_length)

lemma map_spansFor: "length sps = n \<Longrightarrow> map (spansFor (Some sps)) [0..<n] = sps"
  by (auto simp: list_eq_iff_nth_eq spansFor_def)

lemma spans_wf_line: "spans_wf d \<Longrightarrow> k < length (doc_lines d) \<Longrightarrow>
  spans_ok (int (length (ltext (doc_lines d ! k)))) (lspans (doc_lines d ! k))"
  by (auto simp: spans_wf_def contents_def list_all_length)

lemma lineSpans_at:
  assumes "wf_doc d" "pos_ok d p"
  shows "isLine d (pline p)" "lineSpans d (pline p) = lspans (doc_lines d ! line_index d (pline p))"
  using assms pos_ok_line [OF assms] by (auto simp: isLine_def lineSpans_def pos_ok_def wf_doc_size)

lemma replaced_spans_wf:
  assumes d: "wf_doc d" and c: "change_ok d c" and s: "spans_wf d"
  shows "list_all (\<lambda>(t, spans). spans_ok (int (length t)) spans) (replaced_contents d c (stretchSpansOverChange d c))"
proof -
  define a b where ab: "a = line_index d (pline (cfrom c))" "b = line_index d (pline (cto c))"
  let ?la = "doc_lines d ! a" and ?lb = "doc_lines d ! b"
  let ?x = "take (nat (pch (cfrom c))) (ltext ?la)" and ?y = "drop (nat (pch (cto c))) (ltext ?lb)"
  have pf: "pos_ok d (cfrom c)" and pt: "pos_ok d (cto c)" and ne: "ctext c \<noteq> []" using c by (auto simp: change_ok_def)
  note lf = pos_ok_line [OF d pf, folded ab] and lt = pos_ok_line [OF d pt, folded ab]
  have chs: "0 \<le> pch (cfrom c)" "0 \<le> pch (cto c)" "pch (cto c) \<le> int (length (ltext ?lb))" "pch (cfrom c) \<le> int (length (ltext ?la))"
    using pf pt lf lt by (simp_all add: pos_ok_def ab texts_def)
  have len: "map (int \<circ> length) (glue ?x (ctext c) ?y) = new_lengths c (int (length (ltext ?lb)))"
    by (rule glue_lengths [OF ne]) (use chs in simp_all)
  have r: "stretchSpansOverChange d c = stretchSpans (markers d) (lspans ?la) (lspans ?lb) c"
    using lineSpans_at [OF d pf] lineSpans_at [OF d pt] by (simp add: stretchSpansOverChange_def ab)
  have mid: "list_all (\<lambda>(t, spans). spans_ok (int (length t)) spans)
    (zip (glue ?x (ctext c) ?y) (map (spansFor (stretchSpansOverChange d c)) [0..<length (ctext c)]))"
  proof (cases "stretchSpansOverChange d c")
    case None
    have "spansFor None = (\<lambda>n. [])" by (simp add: spansFor_def fun_eq_iff)
    with None show ?thesis by (auto simp: list_all_iff dest!: set_zip_rightD)
  next
    case (Some sps)
    have "list_all2 spans_ok (new_lengths c (int (length (ltext ?lb)))) sps"
      by (rule stretchSpans_ok [OF spans_wf_line [OF s lf(1)] spans_wf_line [OF s lt(1)] ne chs(1-3)])
         (use r Some in simp)
    then have ok: "list_all2 spans_ok (map (int \<circ> length) (glue ?x (ctext c) ?y)) sps" by (simp only: len)
    then have "length sps = length (ctext c)" 
      by (metis list_all2_lengthD length_map glue_length [OF ne])
    with Some list_all2_lengths [OF ok] show ?thesis by (simp only: map_spansFor)
  qed
  then show ?thesis
    using s lf(4) lt(4) by (simp add: replaced_contents_def Let_def ab [symmetric] spans_wf_def list_all_take_drop)
qed

section \<open>Properties\<close>

text \<open>A document of four lines, the first of them number 5, with a marked span on the third.\<close>

definition sample_doc :: doc where
  "sample_doc = \<lparr>
     root = newBranch [newLeaf (map sample_line [0, 1]),
                       newLeaf [(sample_line 2)\<lparr>lspans := [MarkedSpan 0 (Some 0) (Some 1)]\<rparr>, sample_line 3]],
     first = 5, sel = simpleSelection (Pos 5 0) None,
     history = \<lparr>hdone = [], hundone = [], undoDepth = None, lastModTime = 0, lastSelTime = 0, lastOp = None,
       lastSelOp = None, lastOrigin = None, lastSelOrigin = None, generation = 1, maxGeneration = 1\<rparr>,
     markers = (\<lambda>i. (TextMarker False)\<lparr>mlines := [2]\<rparr>), cantEdit = False, extending = False, cleanGeneration = 1,
     frontier = 5, cm = None, beforeChange = [], beforeSelectionChange = [], clock = 0, nextLine = 4, nextMarker = 1,
     nextMarkerId = 0, sawReadOnlySpans = False, sawCollapsedSpans = False\<rparr>"

lemma sample_doc_simps [simp]:
  "doc_lines sample_doc = [sample_line 0, sample_line 1,
     (sample_line 2)\<lparr>lspans := [MarkedSpan 0 (Some 0) (Some 1)]\<rparr>, sample_line 3]"
  "texts sample_doc = [[], [97], [97, 97], [97, 97, 97]]" "first sample_doc = 5" "wf_doc sample_doc"
  "cm sample_doc = None" "nextLine sample_doc = 4"
  by (simp_all add: sample_doc_def doc_lines_def texts_def wf_doc_def sample_line_def wf_tree_def newBranch_def newLeaf_def
      eval_nat_numeral)

definition sample_change :: change where
  "sample_change = Change (Pos 6 1) (Pos 8 1) [[98], [99, 99]] None"

lemma sample_change_ok [simp]: "change_ok sample_doc sample_change"
  by (simp add: change_ok_def sample_change_def Change_def pos_ok_def line_index_def pos_le_iff)

text \<open>
  C1. \<open>updateDoc\<close> succeeds on every change whose ends are positions of the document, leaves a
  well-formed document of which only lines and markers changed, and the text it holds is the old text,
  read as one string, with the piece between the two ends replaced by the new text. All branches
  (whole lines, one line, splitting a line, joining lines, several lines) are covered.
\<close>

theorem updateDoc_replaces_text:
  assumes "wf_doc d" "change_ok d c"
  shows "\<exists>d'. updateDoc d c sp est = Some d' \<and> wf_doc d' \<and> same_frame d d' \<and>
    join [10] (texts d') =
      take (offset_of (line_index d (pline (cfrom c))) (nat (pch (cfrom c))) (texts d)) (join [10] (texts d))
      @ join [10] (ctext c)
      @ drop (offset_of (line_index d (pline (cto c))) (nat (pch (cto c))) (texts d)) (join [10] (texts d))"
proof -
  from assms(2) have c: "pos_ok d (cfrom c)" "pos_ok d (cto c)" "cfrom c \<le> cto c" "ctext c \<noteq> []"
    by (auto simp: change_ok_def)
  obtain d' where "updateDoc d c sp est = Some d'" "wf_doc d'" "same_frame d d'"
    "texts d' = text_replace (line_index d (pline (cfrom c))) (nat (pch (cfrom c)))
        (line_index d (pline (cto c))) (nat (pch (cto c))) (ctext c) (texts d)"
    using updateDoc_text [OF assms] .
  then show ?thesis using join_text_replace [OF places_of [OF assms(1) c(1-3)] c(4)] by auto
qed

theorem updateDoc_replaces_text_witness:
  "\<exists>d'. updateDoc sample_doc sample_change None None = Some d' \<and>
    join [10] (texts d') = [10, 97, 98, 10, 99, 99, 97, 97]"
  using updateDoc_replaces_text [OF sample_doc_simps(4) sample_change_ok, of None None]
  by (auto simp: sample_change_def Change_def line_index_def offset_of_def eval_nat_numeral)

text \<open>
  C15. When every span of every line lies within its line, the same holds after a change made with the
  spans that \<open>stretchSpansOverChange\<close> computes for it.
\<close>

theorem updateDoc_keeps_spans:
  assumes "wf_doc d" "change_ok d c" "spans_wf d" "updateDoc d c (stretchSpansOverChange d c) est = Some d'"
  shows "spans_wf d'"
proof -
  obtain d'' where "updateDoc d c (stretchSpansOverChange d c) est = Some d''"
    "contents d'' = replaced_contents d c (stretchSpansOverChange d c)"
    using updateDoc_text [OF assms(1,2)] .
  with assms(4) replaced_spans_wf [OF assms(1-3)] show ?thesis by (simp add: spans_wf_def)
qed

theorem updateDoc_keeps_spans_witness:
  "\<exists>d'. updateDoc sample_doc sample_change (stretchSpansOverChange sample_doc sample_change) None = Some d' \<and> spans_wf d'"
proof -
  have s: "spans_wf sample_doc"
    by (simp add: spans_wf_def contents_def sample_line_def span_ok_def eval_nat_numeral)
  obtain d' where "updateDoc sample_doc sample_change (stretchSpansOverChange sample_doc sample_change) None = Some d'"
    using updateDoc_text [OF sample_doc_simps(4) sample_change_ok] .
  with updateDoc_keeps_spans [OF sample_doc_simps(4) sample_change_ok s this] show ?thesis by blast
qed

text \<open>
  C21. \<open>getBetween\<close> returns the lines between two positions: joined with line breaks, they are the
  piece of the text of the document between the two offsets.
\<close>

theorem getBetween_substring:
  assumes "wf_doc d" "pos_ok d p" "pos_ok d q" "p \<le> q"
  shows "join [10] (getBetween d p q) =
    (let i = offset_of (line_index d (pline p)) (nat (pch p)) (texts d);
         j = offset_of (line_index d (pline q)) (nat (pch q)) (texts d)
     in take (j - i) (drop i (join [10] (texts d))))"
  by (simp only: getBetween_text [OF assms] Let_def join_text_between [OF places_of [OF assms]])

theorem getBetween_substring_witness:
  "join [10] (getBetween sample_doc (Pos 6 1) (Pos 8 1)) = [10, 97, 97, 10, 97]"
  using getBetween_substring [of sample_doc "Pos 6 1" "Pos 8 1"]
  by (simp add: pos_ok_def line_index_def pos_le_iff offset_of_def eval_nat_numeral)

text \<open>
  \<open>clipPos\<close> returns a position of the document for every input, and positions of the document
  unchanged, so clipping twice is clipping once.
\<close>

theorem clipPos_clips:
  assumes "wf_doc d"
  shows "\<exists>q. clipPos d p = Some q \<and> pos_ok d q \<and> clipPos d q = Some q \<and> (pos_ok d p \<longrightarrow> q = p)"
proof -
  obtain q where "clipPos d p = Some q" "pos_ok d q" "pos_ok d p \<Longrightarrow> q = p" using clipPos_spec [OF assms, of p] by blast
  with clipPos_id [OF assms] show ?thesis by blast
qed

theorem clipPos_clips_witness: "clipPos sample_doc (Pos 7 9) = Some (Pos 7 2) \<and> pos_ok sample_doc (Pos 7 2)"
proof -
  have "clipPos sample_doc (Pos 7 9) = Some (Pos 7 2)"
    by (simp add: clipPos_def clipPosCh_def clipToLen_def getLine_spec wf_doc_size Let_def sample_line_def)
  with clipPos_clips [OF sample_doc_simps(4), of "Pos 7 9"] show ?thesis by auto
qed

end
