(* ===== verification/History.thy ===== *)
theory History
  imports DocText
begin

text \<open>
  The undo history of codemirror.js: the two arrays of events, how changes and selections are
  registered and merged, what a change event stores, copying a history and rebasing it on a change that
  did not come from it. \<open>None\<close> is the TypeError that the code would raise.
\<close>

section \<open>Operations\<close>

definition History :: "nat \<Rightarrow> histrec" where
  "History startGen = (let g = (if startGen = 0 then 1 else startGen) in
     \<lparr>hdone = [], hundone = [], undoDepth = None, lastModTime = 0, lastSelTime = 0, lastOp = None,
      lastSelOp = None, lastOrigin = None, lastSelOrigin = None, generation = g, maxGeneration = g\<rparr>)"

fun is_sel :: "hevent \<Rightarrow> bool" where
  "is_sel (SelEvent s) = True"
| "is_sel (ChangeEvent cs g) = False"

definition attachLocalSpans :: "doc \<Rightarrow> hchange \<Rightarrow> int \<Rightarrow> int \<Rightarrow> hchange" where
  "attachLocalSpans d c from to =
     (let found = iter (max (first d) from) (min (first d + doc_size d) to) (\<lambda>line out. (out @ [lspans line], False)) d []
      in if list_all (\<lambda>sps. sps = []) found then c else c\<lparr>hspans := Some found\<rparr>)"

definition historyChangeFromChange :: "doc \<Rightarrow> change \<Rightarrow> hchange" where
  "historyChangeFromChange d c =
     attachLocalSpans d
       \<lparr>cfrom = copyPos (cfrom c), cto = changeEnd c, ctext = getBetween d (cfrom c) (cto c), corigin = None, hspans = None\<rparr>
       (pline (cfrom c)) (pline (cto c) + 1)"

text \<open>\<open>clearSelectionEvents\<close>: selection events are popped off the end.\<close>

definition clearSelectionEvents :: "hevent list \<Rightarrow> hevent list" where
  "clearSelectionEvents arr = rev (dropWhile is_sel (rev arr))"

text \<open>
  \<open>lastChangeEvent\<close>: the array after the call, and whether it now ends in a change event that is
  the result.
\<close>

definition lastChangeEvent :: "hevent list \<Rightarrow> bool \<Rightarrow> hevent list \<times> bool" where
  "lastChangeEvent arr force =
     (if force then (let arr' = clearSelectionEvents arr in (arr', arr' \<noteq> []))
      else if arr \<noteq> [] \<and> \<not> is_sel (last arr) then (arr, True)
      else if length arr > 1 \<and> \<not> is_sel (arr ! (length arr - 2)) then (butlast arr, True)
      else (arr, False))"

definition pushSelectionToHistory :: "selection \<Rightarrow> hevent list \<Rightarrow> hevent list" where
  "pushSelectionToHistory s dest =
     (case lst dest of
        Some (SelEvent prev) \<Rightarrow> if sel_equals prev s then dest else dest @ [SelEvent s]
      | _ \<Rightarrow> dest @ [SelEvent s])"

text \<open>The loop that keeps \<open>done\<close> within \<open>undoDepth\<close>.\<close>

fun trimDone :: "nat option \<Rightarrow> hevent list \<Rightarrow> hevent list option" where
  "trimDone None arr = Some arr"
| "trimDone (Some depth) [] = Some []"
| "trimDone (Some depth) [e] = (if 1 > depth then None else Some [e])"
| "trimDone (Some depth) (e # e' # arr) =
     (if Suc (Suc (length arr)) > depth
      then (if is_sel e' then trimDone (Some depth) (e' # arr) else trimDone (Some depth) arr)
      else Some (e # e' # arr))"

definition firstChar :: "string option \<Rightarrow> char option" where
  "firstChar s = (case s of Some (c # cs) \<Rightarrow> Some c | _ \<Rightarrow> None)"

definition truthy_origin :: "string option \<Rightarrow> bool" where
  "truthy_origin s \<longleftrightarrow> s \<noteq> None \<and> s \<noteq> Some []"

text \<open>The operation id that the callers pass: the id of the current operation, or NaN.\<close>

definition current_op :: "doc \<Rightarrow> nat option" where
  "current_op d = map_option opId (cm d)"

text \<open>The test of \<open>addChangeToHistory\<close> for a change that may join the last event.\<close>

definition mayMerge :: "doc \<Rightarrow> change \<Rightarrow> nat option \<Rightarrow> bool" where
  "mayMerge d c opid =
     (let hist = history d in
      same_op (lastOp hist) opid \<or>
      lastOrigin hist = corigin c \<and> truthy_origin (corigin c) \<and>
        (firstChar (corigin c) = Some CHR ''+'' \<and>
           (case cm d of None \<Rightarrow> False | Some e \<Rightarrow> lastModTime hist > clock d - historyEventDelay e)
         \<or> firstChar (corigin c) = Some CHR ''*''))"

text \<open>Merging into the last change event: extending its last change, or adding one.\<close>

definition mergeIntoEvent :: "doc \<Rightarrow> change \<Rightarrow> hchange list \<Rightarrow> hchange list option" where
  "mergeIntoEvent d c changes =
     (if cmp (cfrom c) (cto c) = 0 then
        (if changes = [] then None
         else let l = last changes in
           if cmp (cfrom c) (cto l) = 0 then Some (butlast changes @ [l\<lparr>cto := changeEnd c\<rparr>])
           else Some (changes @ [historyChangeFromChange d c]))
      else Some (changes @ [historyChangeFromChange d c]))"

definition addChangeToHistory :: "doc \<Rightarrow> change \<Rightarrow> selection \<Rightarrow> nat option \<Rightarrow> doc option" where
  "addChangeToHistory d c selAfter opid = do {
     let hist = history d;
     let (arr, found) = (if mayMerge d c opid then lastChangeEvent (hdone hist) (same_op (lastOp hist) opid)
                         else (hdone hist, False));
     arr' \<leftarrow> (if found then
               (case last arr of
                  ChangeEvent changes g \<Rightarrow> do {
                    changes' \<leftarrow> mergeIntoEvent d c changes;
                    Some (butlast arr @ [ChangeEvent changes' g]) }
                | SelEvent s \<Rightarrow> None)
             else
               (let before = lst arr;
                    arr1 = (if \<not> (\<exists>s. before = Some (SelEvent s)) then pushSelectionToHistory (sel d) arr else arr)
                in trimDone (undoDepth hist)
                     (arr1 @ [ChangeEvent [historyChangeFromChange d c] (Some (generation hist))])));
     let gen = maxGeneration hist + 1;
     Some (d\<lparr>history := hist\<lparr>hundone := [], hdone := arr' @ [SelEvent selAfter],
         generation := gen, maxGeneration := gen, lastModTime := clock d, lastSelTime := clock d,
         lastOp := opid, lastSelOp := opid, lastOrigin := corigin c, lastSelOrigin := corigin c\<rparr>\<rparr>)
   }"

record seloptions =
  obias :: int
  oorigin :: "string option"
  oclearRedo :: bool
  oscroll :: bool

text \<open>\<open>selectionEventCanBeMerged\<close>, for an origin that is not empty.\<close>

definition selectionEventCanBeMerged :: "doc \<Rightarrow> string \<Rightarrow> hevent option \<Rightarrow> selection \<Rightarrow> bool option" where
  "selectionEventCanBeMerged d origin prev s =
     (if firstChar (Some origin) = Some CHR ''*'' then Some True
      else if firstChar (Some origin) = Some CHR ''+'' then
        (case prev of
           Some (SelEvent p) \<Rightarrow>
             Some (length (ranges p) = length (ranges s) \<and> sel_somethingSelected p = sel_somethingSelected s \<and>
               clock d - lastSelTime (history d) \<le> (case cm d of None \<Rightarrow> 500 | Some e \<Rightarrow> historyEventDelay e))
         | _ \<Rightarrow> None)
      else Some False)"

definition replaceLast :: "'a list \<Rightarrow> 'a \<Rightarrow> 'a list" where
  "replaceLast xs x = (if xs = [] then [] else butlast xs @ [x])"

definition addSelectionToHistory :: "doc \<Rightarrow> selection \<Rightarrow> nat option \<Rightarrow> seloptions option \<Rightarrow> doc option" where
  "addSelectionToHistory d s opid options = do {
     let hist = history d;
     let origin = (case options of None \<Rightarrow> None | Some os \<Rightarrow> oorigin os);
     merge \<leftarrow> (if same_op (lastSelOp hist) opid then Some True
              else if truthy_origin origin \<and> lastSelOrigin hist = origin then
                (if lastModTime hist = lastSelTime hist \<and> lastOrigin hist = origin then Some True
                 else selectionEventCanBeMerged d (the origin) (lst (hdone hist)) s)
              else Some False);
     let arr = (if merge then replaceLast (hdone hist) (SelEvent s) else pushSelectionToHistory s (hdone hist));
     Some (d\<lparr>history := hist\<lparr>hdone := arr, lastSelTime := clock d, lastSelOrigin := origin, lastSelOp := opid,
         hundone := (case options of
                       None \<Rightarrow> hundone hist
                     | Some os \<Rightarrow> if oclearRedo os then clearSelectionEvents (hundone hist) else hundone hist)\<rparr>\<rparr>)
   }"

text \<open>\<open>getOldSpans\<close> and \<open>mergeOldSpans\<close> for a change taken from the history.\<close>

definition getOldSpans :: "doc \<Rightarrow> hchange \<Rightarrow> mspan list list option" where
  "getOldSpans d c =
     map_option (\<lambda>found. map (\<lambda>i. removeClearedSpans (markers d) (spansFor (Some found) i)) [0..<length (ctext c)]) (hspans c)"

definition plain_change :: "hchange \<Rightarrow> change" where
  "plain_change c = \<lparr>cfrom = cfrom c, cto = cto c, ctext = ctext c, corigin = corigin c\<rparr>"

definition mergeOldSpans :: "doc \<Rightarrow> hchange \<Rightarrow> mspan list list option" where
  "mergeOldSpans d c = mergeOld (getOldSpans d c) (stretchSpansOverChange d (plain_change c))"

text \<open>
  \<open>copyHistoryArray\<close> without a group of documents: the copied events carry positions and texts only.
\<close>

fun copyEvent :: "bool \<Rightarrow> hevent \<Rightarrow> hevent" where
  "copyEvent instantiateSel (SelEvent s) = SelEvent (if instantiateSel then deepCopy s else s)"
| "copyEvent instantiateSel (ChangeEvent cs g) =
     ChangeEvent (map (\<lambda>c. \<lparr>cfrom = cfrom c, cto = cto c, ctext = ctext c, corigin = None, hspans = None\<rparr>) cs) None"

definition copyHistoryArray :: "hevent list \<Rightarrow> bool \<Rightarrow> hevent list" where
  "copyHistoryArray events instantiateSel = map (copyEvent instantiateSel) events"

text \<open>Rebasing.\<close>

definition rebaseHistSelSingle :: "pos \<Rightarrow> int \<Rightarrow> int \<Rightarrow> int \<Rightarrow> pos" where
  "rebaseHistSelSingle p from to diff =
     (if to < pline p then Pos (pline p + diff) (pch p)
      else if from < pline p then Pos from 0
      else p)"

text \<open>The changes of an event after the inner loop, and whether it went through (\<open>ok\<close>).\<close>

fun rebaseChanges :: "int \<Rightarrow> int \<Rightarrow> int \<Rightarrow> hchange list \<Rightarrow> hchange list \<times> bool" where
  "rebaseChanges from to diff [] = ([], True)"
| "rebaseChanges from to diff (cur # rest) =
     (if to < pline (cfrom cur) then
        (let (rest', ok) = rebaseChanges from to diff rest
         in (cur\<lparr>cfrom := Pos (pline (cfrom cur) + diff) (pch (cfrom cur)),
                 cto := Pos (pline (cto cur) + diff) (pch (cto cur))\<rparr> # rest', ok))
      else if from \<le> pline (cto cur) then (cur # rest, False)
      else (let (rest', ok) = rebaseChanges from to diff rest in (cur # rest', ok)))"

fun rebaseEvent :: "int \<Rightarrow> int \<Rightarrow> int \<Rightarrow> hevent \<Rightarrow> hevent \<times> bool" where
  "rebaseEvent from to diff (SelEvent s) =
     (SelEvent ((deepCopy s)\<lparr>ranges := map (\<lambda>r. Range (rebaseHistSelSingle (anchor r) from to diff)
                                                (rebaseHistSelSingle (head r) from to diff)) (ranges s)\<rparr>), True)"
| "rebaseEvent from to diff (ChangeEvent cs g) =
     (let (cs', ok) = rebaseChanges from to diff cs in (ChangeEvent cs' g, ok))"

text \<open>
  The loop over the array, at index \<open>i\<close>. When an event is touched, \<open>array.splice(0, i + 1); i = 0\<close>
  drops it and all before it, and the loop goes on at index 1.
\<close>

function rebaseLoop :: "int \<Rightarrow> int \<Rightarrow> int \<Rightarrow> hevent list \<Rightarrow> nat \<Rightarrow> hevent list" where
  "rebaseLoop from to diff arr i =
     (if i < length arr then
        (let (e, ok) = rebaseEvent from to diff (arr ! i)
         in if ok then rebaseLoop from to diff (arr[i := e]) (Suc i)
            else rebaseLoop from to diff (drop (Suc i) arr) 1)
      else arr)"
  by pat_completeness auto
termination by (relation "measure (\<lambda>(from, to, diff, arr, i). length arr - i)") auto

declare rebaseLoop.simps [simp del]

definition rebaseHistArray :: "hevent list \<Rightarrow> int \<Rightarrow> int \<Rightarrow> int \<Rightarrow> hevent list" where
  "rebaseHistArray arr from to diff = rebaseLoop from to diff arr 0"

definition rebaseHist :: "histrec \<Rightarrow> change \<Rightarrow> histrec" where
  "rebaseHist hist c =
     (let from = pline (cfrom c); to = pline (cto c); diff = int (length (ctext c)) - (to - from) - 1
      in hist\<lparr>hdone := rebaseHistArray (hdone hist) from to diff,
              hundone := rebaseHistArray (hundone hist) from to diff\<rparr>)"

end
