(* ===== verification/TextHistory.thy ===== *)
theory TextHistory
  imports History
begin

text \<open>
  The abstract history: what a stack of undo events says about the text of the document. A change is
  read as the replacement of a piece of text; a stack is a chain when its events, undone one after the
  other from the top, always fit the text at hand, and its selections lie in the text they belong to.
  The operations of the history keep the chain.
\<close>

section \<open>Changes as replacements of text\<close>

definition pos_in :: "int \<Rightarrow> jstr list \<Rightarrow> pos \<Rightarrow> bool" where
  "pos_in n0 ls p \<longleftrightarrow> n0 \<le> pline p \<and> pline p < n0 + int (length ls) \<and> 0 \<le> pch p
     \<and> pch p \<le> int (length (ls ! nat (pline p - n0)))"

definition fits_text :: "int \<Rightarrow> jstr list \<Rightarrow> 'a change_scheme \<Rightarrow> bool" where
  "fits_text n0 ls c \<longleftrightarrow> pos_in n0 ls (cfrom c) \<and> pos_in n0 ls (cto c) \<and> cfrom c \<le> cto c \<and> ctext c \<noteq> []"

definition apply_change :: "int \<Rightarrow> 'a change_scheme \<Rightarrow> jstr list \<Rightarrow> jstr list" where
  "apply_change n0 c ls =
     text_replace (nat (pline (cfrom c) - n0)) (nat (pch (cfrom c)))
                  (nat (pline (cto c) - n0)) (nat (pch (cto c))) (ctext c) ls"

definition removed_text :: "int \<Rightarrow> 'a change_scheme \<Rightarrow> jstr list \<Rightarrow> jstr list" where
  "removed_text n0 c ls =
     text_between (nat (pline (cfrom c) - n0)) (nat (pch (cfrom c)))
                  (nat (pline (cto c) - n0)) (nat (pch (cto c))) ls"

text \<open>The selection lies in the text and has a primary range.\<close>

definition sel_in :: "int \<Rightarrow> jstr list \<Rightarrow> selection \<Rightarrow> bool" where
  "sel_in n0 ls s \<longleftrightarrow> 0 \<le> primIndex s \<and> primIndex s < int (length (ranges s))
     \<and> (\<forall>p \<in> range_ends (ranges s). pos_in n0 ls p)"

lemma fits_places:
  "fits_text n0 ls c \<Longrightarrow> places (nat (pline (cfrom c) - n0)) (nat (pch (cfrom c)))
     (nat (pline (cto c) - n0)) (nat (pch (cto c))) ls"
  by (auto simp: fits_text_def pos_in_def places_def place_def pos_le_iff)

lemma change_end_place:
  assumes "fits_text n0 ls c"
  shows "nat (pline (changeEnd c) - n0) = end_line (nat (pline (cfrom c) - n0)) (ctext c)"
    "nat (pch (changeEnd c)) = end_col (nat (pch (cfrom c))) (ctext c)"
proof -
  have n: "ctext c \<noteq> []" "n0 \<le> pline (cfrom c)" "0 \<le> pch (cfrom c)" using assms by (auto simp: fits_text_def pos_in_def)
  then show "nat (pline (changeEnd c) - n0) = end_line (nat (pline (cfrom c) - n0)) (ctext c)"
    by (cases "ctext c") (auto simp: changeEnd_def end_line_def)
  show "nat (pch (changeEnd c)) = end_col (nat (pch (cfrom c))) (ctext c)"
    using n by (auto simp: changeEnd_def end_col_def nat_add_distrib)
qed

lemma place_pos_in:
  "place (nat (pline p - n0)) (nat (pch p)) ls \<Longrightarrow> n0 \<le> pline p \<Longrightarrow> 0 \<le> pch p \<Longrightarrow> pos_in n0 ls p"
  by (auto simp: place_def pos_in_def)

text \<open>The change that puts back what a change removed fits the text after it and undoes it.\<close>

lemma apply_undo:
  assumes c: "fits_text n0 ls c"
    and u: "cfrom u = cfrom c" "cto u = changeEnd c" "ctext u = removed_text n0 c ls"
  shows "fits_text n0 (apply_change n0 c ls) u" "apply_change n0 u (apply_change n0 c ls) = ls"
    "removed_text n0 u (apply_change n0 c ls) = ctext c" "changeEnd u = cto c"
proof -
  note p = fits_places [OF c]
  have ne: "ctext c \<noteq> []" and b: "n0 \<le> pline (cfrom c)" "0 \<le> pch (cfrom c)"
    using c by (auto simp: fits_text_def pos_in_def)
  note nth = text_replace_nth [OF p ne, folded apply_change_def]
  have e: "cfrom c \<le> changeEnd c" using ne by (rule changeEnd_ge)
  then have "n0 \<le> pline (changeEnd c)" using b by (auto simp: pos_le_iff)
  moreover have "0 \<le> pch (changeEnd c)" using ne b by (simp add: changeEnd_def)
  ultimately show f: "fits_text n0 (apply_change n0 c ls) u"
    using nth(6) b e unfolding fits_text_def u
    by (simp add: removed_text_def) (auto simp: places_def change_end_place [OF c] intro: place_pos_in)
  show "apply_change n0 u (apply_change n0 c ls) = ls"
    unfolding apply_change_def u removed_text_def change_end_place [OF c]
    by (rule text_replace_inverse [OF p ne])
  show "removed_text n0 u (apply_change n0 c ls) = ctext c"
    unfolding removed_text_def u change_end_place [OF c] by (rule nth(7))
  note te = text_between_end [OF p, folded removed_text_def]
  have fu: "fits_text n0 ls \<lparr>cfrom = cfrom c, cto = cto c, ctext = ctext u, corigin = None\<rparr>"
    using c by (simp add: fits_text_def u removed_text_def)
  have cu: "changeEnd u = changeEnd \<lparr>cfrom = cfrom c, cto = cto c, ctext = ctext u, corigin = None\<rparr>"
    by (simp add: changeEnd_def u removed_text_def)
  have "ctext u \<noteq> []" by (simp add: u removed_text_def)
  then have "n0 \<le> pline (changeEnd u)" "0 \<le> pch (changeEnd u)"
    using b changeEnd_ge [of u] u by (auto simp: pos_le_iff changeEnd_def)
  moreover have "nat (pline (changeEnd u) - n0) = nat (pline (cto c) - n0)" "nat (pch (changeEnd u)) = nat (pch (cto c))"
    using change_end_place [OF fu] te unfolding cu by (simp_all add: u)
  moreover have "n0 \<le> pline (cto c)" "0 \<le> pch (cto c)" using c by (auto simp: fits_text_def pos_in_def)
  ultimately show "changeEnd u = cto c" by (auto simp: pos_eq_iff)
qed

text \<open>Extending a change over text inserted right behind it.\<close>

lemma apply_extended:
  assumes c: "fits_text n0 ls c" "cfrom c = cto c" and l: "fits_text n0 ls l" "cto l = cfrom c"
    and l': "cfrom l' = cfrom l" "cto l' = changeEnd c" "ctext l' = ctext l"
  shows "fits_text n0 (apply_change n0 c ls) l'"
    "apply_change n0 l' (apply_change n0 c ls) = apply_change n0 l ls"
proof -
  have ne: "ctext c \<noteq> []" using c by (simp add: fits_text_def)
  note p = fits_places [OF c(1)]
  note nth = text_replace_nth [OF p ne, folded apply_change_def]
  let ?R = "apply_change n0 c ls"
  let ?a = "nat (pline (cfrom l) - n0)" and ?i = "nat (pch (cfrom l))"
  let ?b = "nat (pline (cfrom c) - n0)" and ?j = "nat (pch (cfrom c))"
  have ord: "cfrom l \<le> cfrom c" "n0 \<le> pline (cfrom l)" "0 \<le> pch (cfrom l)" "n0 \<le> pline (cfrom c)" "0 \<le> pch (cfrom c)"
    using l c by (auto simp: fits_text_def pos_in_def)
  then have ab: "?a < ?b \<or> ?a = ?b \<and> ?i \<le> ?j" by (auto simp: pos_le_iff)
  have pb: "?b < length ls" "?j \<le> length (ls ! ?b)" using c by (auto simp: fits_text_def pos_in_def)
  have take_a: "take ?a ?R = take ?a ls"
    using ab nth(1) by (metis less_imp_le_nat min.absorb1 order_refl take_take)
  have line_a: "?R ! ?a = ls ! ?a" if "?a < ?b"
    using that nth(1) by (metis nth_take)
  have take_i: "take ?i (?R ! ?a) = take ?i (ls ! ?a)"
  proof (cases "?a < ?b")
    case False
    then have ij: "?a = ?b" "?i \<le> ?j" using ab by auto
    have "take ?i (take ?j (?R ! ?b)) = take ?i (take ?j (ls ! ?b))" by (simp only: nth(2))
    then show ?thesis unfolding ij(1) by (simp only: take_take min.absorb1 [OF ij(2)])
  qed (simp add: line_a)
  have e: "nat (pline (changeEnd c) - n0) = end_line ?b (ctext c)" "nat (pch (changeEnd c)) = end_col ?j (ctext c)"
    by (rule change_end_place [OF c(1)])+
  show "apply_change n0 l' ?R = apply_change n0 l ls"
    using nth(3,4) c(2) l
    unfolding apply_change_def [of n0 l'] apply_change_def [of n0 l] text_replace_def l' e take_a take_i
    by simp
  have pl: "place ?a ?i ls" using l by (auto simp: fits_text_def pos_in_def place_def)
  have "pos_in n0 ?R (cfrom l)"
  proof (cases "?a < ?b")
    case True
    moreover have "?a < length ?R" using True unfolding nth(5) by linarith
    ultimately have "place ?a ?i ?R" using pl by (simp add: place_def line_a)
    then show ?thesis using ord by (intro place_pos_in)
  next
    case False
    then have "?a = ?b" "?i \<le> ?j" using ab by auto
    moreover have "place ?b ?j ?R" using nth(6) by (simp add: places_def)
    ultimately have "place ?a ?i ?R" by (auto simp: place_def)
    then show ?thesis using ord by (intro place_pos_in)
  qed
  moreover have "cfrom c \<le> changeEnd c" using ne by (rule changeEnd_ge)
  moreover have "pos_in n0 ?R (changeEnd c)"
  proof (rule place_pos_in)
    show "place (nat (pline (changeEnd c) - n0)) (nat (pch (changeEnd c))) ?R"
      using nth(6) unfolding e by (simp add: places_def)
    show "n0 \<le> pline (changeEnd c)" using \<open>cfrom c \<le> changeEnd c\<close> ord by (auto simp: pos_le_iff)
    show "0 \<le> pch (changeEnd c)" using ne ord by (simp add: changeEnd_def)
  qed
  ultimately show "fits_text n0 ?R l'"
    using ord l unfolding fits_text_def l' by (auto intro: order_trans)
qed

section \<open>Chains of events\<close>

fun fits_all :: "int \<Rightarrow> jstr list \<Rightarrow> hchange list \<Rightarrow> bool" where
  "fits_all n0 ls [] = True"
| "fits_all n0 ls (c # cs) = (fits_text n0 ls c \<and> fits_all n0 (apply_change n0 c ls) cs)"

fun apply_all :: "int \<Rightarrow> hchange list \<Rightarrow> jstr list \<Rightarrow> jstr list" where
  "apply_all n0 [] ls = ls"
| "apply_all n0 (c # cs) ls = apply_all n0 cs (apply_change n0 c ls)"

text \<open>
  A stack, top first, is a chain from a text: its selections lie in the text, its change events have
  changes, which fit when undone last first, and below every change event there is a selection.
\<close>

fun chain :: "int \<Rightarrow> jstr list \<Rightarrow> hevent list \<Rightarrow> bool" where
  "chain n0 ls [] = True"
| "chain n0 ls (SelEvent s # es) = (sel_in n0 ls s \<and> chain n0 ls es)"
| "chain n0 ls (ChangeEvent cs g # es) =
     (cs \<noteq> [] \<and> fits_all n0 ls (rev cs) \<and> es \<noteq> [] \<and> is_sel (hd es) \<and> chain n0 (apply_all n0 (rev cs) ls) es)"

text \<open>The text that undoing the top event of a stack leads to.\<close>

fun text_below :: "int \<Rightarrow> jstr list \<Rightarrow> hevent list \<Rightarrow> jstr list" where
  "text_below n0 ls [] = ls"
| "text_below n0 ls (SelEvent s # es) = text_below n0 ls es"
| "text_below n0 ls (ChangeEvent cs g # es) = apply_all n0 (rev cs) ls"

lemma is_sel_iff: "is_sel e \<longleftrightarrow> (\<exists>s. e = SelEvent s)"
  by (cases e) auto

lemma chain_dropWhile: "chain n0 ls es \<Longrightarrow> chain n0 ls (dropWhile is_sel es)"
  by (induction n0 ls es rule: chain.induct) auto

lemma text_below_dropWhile: "text_below n0 ls (dropWhile is_sel es) = text_below n0 ls es"
  by (induction n0 ls es rule: text_below.induct) auto

lemma chain_append: "chain n0 ls (es @ fs) \<Longrightarrow> es = [] \<or> is_sel (last es) \<Longrightarrow> chain n0 ls es"
proof (induction n0 ls es rule: chain.induct)
  case (3 n0 ls cs g es)
  then have ne: "es \<noteq> []" by auto
  with 3 show ?case by auto
qed (auto split: if_splits)

lemma chain_push:
  assumes "chain n0 ls (rev arr)" "sel_in n0 ls s"
  shows "chain n0 ls (rev (pushSelectionToHistory s arr))"
  using assms by (auto simp: pushSelectionToHistory_def split: option.splits hevent.splits)

lemma push_sel_last:
  "pushSelectionToHistory s arr \<noteq> []" "is_sel (last (pushSelectionToHistory s arr))"
  by (cases arr rule: rev_cases; auto simp: pushSelectionToHistory_def split: hevent.splits)+

lemma text_below_push: "text_below n0 ls (rev (pushSelectionToHistory s arr)) = text_below n0 ls (rev arr)"
  by (cases arr rule: rev_cases) (auto simp: pushSelectionToHistory_def split: hevent.splits)

text \<open>
  \<open>trimDone\<close> on a stack whose change events have a selection before them, and which ends in one: it
  succeeds, and drops events from the bottom, down to a selection.
\<close>

definition change_event :: "hevent \<Rightarrow> bool" where
  "change_event e \<longleftrightarrow> \<not> is_sel e"

fun paired :: "hevent list \<Rightarrow> bool" where
  "paired [] = True"
| "paired [e] = is_sel e"
| "paired (e # e' # es) = (if is_sel e' then is_sel e \<and> paired (e' # es) else is_sel e \<and> paired es)"

lemma paired_snoc_change: "paired arr \<Longrightarrow> arr \<noteq> [] \<Longrightarrow> is_sel (last arr) \<Longrightarrow> \<not> is_sel e \<Longrightarrow> paired (arr @ [e])"
proof (induction arr rule: paired.induct)
  case (3 a b es)
  show ?case
  proof (cases "is_sel b")
    case False
    with 3 have "es \<noteq> []" by auto
    with 3 False show ?thesis by (cases es) auto
  qed (use 3 in auto)
qed auto

lemma paired_snoc_sel: "paired arr \<Longrightarrow> is_sel e \<Longrightarrow> paired (arr @ [e])"
proof (induction arr rule: paired.induct)
  case (3 a b es)
  then show ?case by (cases es) (auto split: if_splits)
qed auto

lemma chain_paired: "chain n0 ls es \<Longrightarrow> paired (rev es)"
proof (induction n0 ls es rule: chain.induct)
  case (3 n0 ls cs g es)
  then have "paired (rev es)" "rev es \<noteq> []" "is_sel (last (rev es))" by (auto simp: last_rev)
  then show ?case by (simp add: paired_snoc_change)
qed (auto simp: paired_snoc_sel)

lemma trimDone_spec:
  assumes "paired arr" "arr \<noteq> [] \<Longrightarrow> \<not> is_sel (last arr)"
  shows "\<exists>pre suf. trimDone depth arr = Some suf \<and> arr = pre @ suf \<and> (suf = [] \<or> is_sel (hd suf))
    \<and> (case depth of None \<Rightarrow> pre = [] | Some n \<Rightarrow> length suf \<le> n \<and> (2 \<le> n \<longrightarrow> arr \<noteq> [] \<longrightarrow> suf \<noteq> []))"
  using assms
proof (induction depth arr rule: trimDone.induct)
  case (1 arr)
  then show ?case by (cases arr rule: paired.cases) (auto split: if_splits)
next
  case (4 n e e' arr)
  show ?case
  proof (cases "Suc (Suc (length arr)) > n")
    case False
    with 4 show ?thesis by (auto split: if_splits)
  next
    case long: True
    show ?thesis
    proof (cases "is_sel e'")
      case True
      have "paired (e' # arr)" "\<not> is_sel (last (e' # arr))" using 4 True by auto
      then have "\<exists>pre suf. trimDone (Some n) (e' # arr) = Some suf \<and> e' # arr = pre @ suf \<and> (suf = [] \<or> is_sel (hd suf))
        \<and> length suf \<le> n \<and> (2 \<le> n \<longrightarrow> suf \<noteq> [])" using "4.IH"(1) [OF long True] by simp
      then obtain pre suf where r: "trimDone (Some n) (e' # arr) = Some suf" "e' # arr = pre @ suf"
        "suf = [] \<or> is_sel (hd suf)" "length suf \<le> n \<and> (2 \<le> n \<longrightarrow> suf \<noteq> [])" by blast
      have "trimDone (Some n) (e # e' # arr) = Some suf" using r(1) True long by simp
      moreover have "e # e' # arr = (e # pre) @ suf" using r by simp
      ultimately show ?thesis using r(3,4) by (intro exI [of _ "e # pre"] exI [of _ suf]) simp
    next
      case False
      have "paired arr" "arr \<noteq> [] \<Longrightarrow> \<not> is_sel (last arr)" using 4(3,4) False by (cases arr; auto)+
      then have "\<exists>pre suf. trimDone (Some n) arr = Some suf \<and> arr = pre @ suf \<and> (suf = [] \<or> is_sel (hd suf))
        \<and> length suf \<le> n \<and> (2 \<le> n \<longrightarrow> arr \<noteq> [] \<longrightarrow> suf \<noteq> [])" using "4.IH"(2) [OF long False] by simp
      then obtain pre suf where r: "trimDone (Some n) arr = Some suf" "arr = pre @ suf"
        "suf = [] \<or> is_sel (hd suf)" "length suf \<le> n" "2 \<le> n \<Longrightarrow> arr \<noteq> [] \<Longrightarrow> suf \<noteq> []" by blast
      have "trimDone (Some n) (e # e' # arr) = Some suf" using r(1) False long by simp
      moreover have "e # e' # arr = (e # e' # pre) @ suf" using r(2) by simp
      moreover have "suf \<noteq> []" if "2 \<le> n" using r(5) that long by (cases arr) auto
      ultimately show ?thesis using r(3,4) by (intro exI [of _ "e # e' # pre"] exI [of _ suf]) simp
    qed
  qed
qed auto

section \<open>The operations keep the chain\<close>

lemma pos_ok_in: "pos_ok d p \<longleftrightarrow> pos_in (first d) (texts d) p"
  by (simp add: pos_ok_def pos_in_def line_index_def)

lemma fits_change_ok: "change_ok d c \<longleftrightarrow> fits_text (first d) (texts d) c"
  by (simp add: change_ok_def fits_text_def pos_ok_in)

lemma historyChange_spec:
  assumes d: "wf_doc d" and c: "fits_text (first d) (texts d) c"
  shows "cfrom (historyChangeFromChange d c) = cfrom c" "cto (historyChangeFromChange d c) = changeEnd c"
    "ctext (historyChangeFromChange d c) = removed_text (first d) c (texts d)"
proof -
  have "pos_ok d (cfrom c)" "pos_ok d (cto c)" "cfrom c \<le> cto c" using c by (auto simp: fits_text_def pos_ok_in)
  note g = getBetween_text [OF d this]
  show "cfrom (historyChangeFromChange d c) = cfrom c" "cto (historyChangeFromChange d c) = changeEnd c"
    "ctext (historyChangeFromChange d c) = removed_text (first d) c (texts d)"
    by (simp_all add: historyChangeFromChange_def attachLocalSpans_def Let_def g removed_text_def line_index_def)
qed

lemma mergeIntoEvent_spec:
  assumes d: "wf_doc d" and c: "fits_text (first d) (texts d) c"
    and cs: "cs \<noteq> []" "fits_all (first d) (texts d) (rev cs)"
  obtains cs' where "mergeIntoEvent d c cs = Some cs'" "cs' \<noteq> []"
    "fits_all (first d) (apply_change (first d) c (texts d)) (rev cs')"
    "apply_all (first d) (rev cs') (apply_change (first d) c (texts d)) = apply_all (first d) (rev cs) (texts d)"
proof (cases "cfrom c = cto c \<and> cfrom c = cto (last cs)")
  case True
  obtain pre l where l: "cs = pre @ [l]" using cs(1) by (meson rev_exhaust)
  have fl: "fits_text (first d) (texts d) l" "cto l = cfrom c" using cs True l by auto
  note e = apply_extended [OF c _ fl, of "l\<lparr>cto := changeEnd c\<rparr>"]
  have "mergeIntoEvent d c cs = Some (pre @ [l\<lparr>cto := changeEnd c\<rparr>])"
    using True l by (auto simp: mergeIntoEvent_def Let_def)
  then show ?thesis using e True cs l by (intro that [of "pre @ [l\<lparr>cto := changeEnd c\<rparr>]"]) auto
next
  case False
  let ?u = "historyChangeFromChange d c"
  note u = apply_undo [OF c historyChange_spec [OF d c]]
  have "mergeIntoEvent d c cs = Some (cs @ [?u])" using False cs by (auto simp: mergeIntoEvent_def Let_def)
  then show ?thesis using u cs by (intro that [of "cs @ [?u]"]) auto
qed

lemma lastChangeEvent_spec:
  assumes "chain n0 ls (rev arr)" "lastChangeEvent arr force = (arr', found)"
  shows "chain n0 ls (rev arr')"
    "found \<Longrightarrow> \<exists>pre cs g. arr' = pre @ [ChangeEvent cs g]"
    "text_below n0 ls (rev arr') = text_below n0 ls (rev arr)"
proof -
  have "chain n0 ls (rev arr') \<and> (found \<longrightarrow> (\<exists>pre cs g. arr' = pre @ [ChangeEvent cs g]))
     \<and> text_below n0 ls (rev arr') = text_below n0 ls (rev arr)"
  proof (cases force)
    case True
    then have a: "arr' = rev (dropWhile is_sel (rev arr))" "found \<longleftrightarrow> arr' \<noteq> []"
      using assms(2) by (auto simp: lastChangeEvent_def clearSelectionEvents_def Let_def)
    have "\<exists>pre cs g. arr' = pre @ [ChangeEvent cs g]" if "arr' \<noteq> []"
    proof -
      have "dropWhile is_sel (rev arr) \<noteq> []" using that a by simp
      then have "\<not> is_sel (hd (dropWhile is_sel (rev arr)))" by (rule hd_dropWhile)
      then have "\<not> is_sel (last arr')" using that a by (simp add: last_rev)
      then obtain cs g where "last arr' = ChangeEvent cs g" by (cases "last arr'") auto
      with that show ?thesis by (metis append_butlast_last_id)
    qed
    then show ?thesis using a chain_dropWhile [OF assms(1)] text_below_dropWhile by auto
  next
    case False
    show ?thesis
    proof (cases arr rule: rev_cases)
      case (snoc pre e)
      show ?thesis
      proof (cases e)
        case (ChangeEvent cs g)
        then show ?thesis using assms False snoc by (auto simp: lastChangeEvent_def)
      next
        case (SelEvent s)
        show ?thesis
        proof (cases pre rule: rev_cases)
          case (snoc pre' e')
          then show ?thesis using assms False SelEvent \<open>arr = pre @ [e]\<close>
            by (cases e') (auto simp: lastChangeEvent_def nth_append butlast_append)
        qed (use assms False snoc SelEvent in \<open>auto simp: lastChangeEvent_def\<close>)
      qed
    qed (use assms False in \<open>auto simp: lastChangeEvent_def\<close>)
  qed
  then show "chain n0 ls (rev arr')" "found \<Longrightarrow> \<exists>pre cs g. arr' = pre @ [ChangeEvent cs g]"
    "text_below n0 ls (rev arr') = text_below n0 ls (rev arr)" by blast+
qed

text \<open>The history of a document fits its text.\<close>

definition hist_inv :: "doc \<Rightarrow> bool" where
  "hist_inv d \<longleftrightarrow> chain (first d) (texts d) (rev (hdone (history d))) \<and>
     chain (first d) (texts d) (rev (hundone (history d))) \<and> sel_in (first d) (texts d) (sel d)"

definition deep_enough :: "nat option \<Rightarrow> bool" where
  "deep_enough depth \<longleftrightarrow> (case depth of None \<Rightarrow> True | Some n \<Rightarrow> 2 \<le> n)"

text \<open>The selection that the history holds as the one before the next change.\<close>

definition prior_sel :: "doc \<Rightarrow> selection" where
  "prior_sel d = (case lst (hdone (history d)) of Some (SelEvent s) \<Rightarrow> s | _ \<Rightarrow> sel d)"

lemma addChange_spec:
  assumes d: "wf_doc d" and inv: "hist_inv d" and c: "fits_text (first d) (texts d) c"
    and s: "sel_in (first d) (apply_change (first d) c (texts d)) selAfter"
  shows "\<exists>h. addChangeToHistory d c selAfter opid = Some (d\<lparr>history := h\<rparr>) \<and> hundone h = []
    \<and> chain (first d) (apply_change (first d) c (texts d)) (rev (hdone h))
    \<and> (\<exists>arr. hdone h = arr @ [SelEvent selAfter]) \<and> undoDepth h = undoDepth (history d)
    \<and> (\<not> mayMerge d c opid \<longrightarrow> deep_enough (undoDepth (history d)) \<longrightarrow>
         text_below (first d) (apply_change (first d) c (texts d)) (rev (hdone h)) = texts d \<and>
         (\<exists>q e. hdone h = q @ [SelEvent (prior_sel d), e, SelEvent selAfter] \<and> \<not> is_sel e))"
proof -
  let ?n = "first d" and ?ls = "texts d" and ?R = "apply_change (first d) c (texts d)" and ?h = "history d"
  let ?u = "historyChangeFromChange d c"
  define start where "start = (if mayMerge d c opid then lastChangeEvent (hdone ?h) (same_op (lastOp ?h) opid) else (hdone ?h, False))"
  obtain arr found where af: "start = (arr, found)" by fastforce
  have ch0: "chain ?n ?ls (rev (hdone ?h))" and si: "sel_in ?n ?ls (sel d)" using inv by (auto simp: hist_inv_def)
  have ch: "chain ?n ?ls (rev arr)" and fd: "found \<Longrightarrow> \<exists>pre cs g. arr = pre @ [ChangeEvent cs g]"
    using lastChangeEvent_spec [OF ch0] ch0 af by (auto simp: start_def split: if_splits)
  have nomerge: "\<not> found" if "\<not> mayMerge d c opid" using that af by (simp add: start_def)
  show ?thesis
  proof (cases found)
    case True
    then obtain pre cs g where arr: "arr = pre @ [ChangeEvent cs g]" using fd by blast
    have cs: "cs \<noteq> []" "fits_all ?n ?ls (rev cs)" and pre: "pre \<noteq> []" "is_sel (last pre)"
      "chain ?n (apply_all ?n (rev cs) ?ls) (rev pre)" using ch arr by (auto simp: hd_rev)
    obtain cs' where cs': "mergeIntoEvent d c cs = Some cs'" "cs' \<noteq> []" "fits_all ?n ?R (rev cs')"
      "apply_all ?n (rev cs') ?R = apply_all ?n (rev cs) ?ls"
      using mergeIntoEvent_spec [OF d c cs] .
    show ?thesis
      using True arr cs' pre s nomerge unfolding addChangeToHistory_def Let_def start_def [symmetric] af
      by (auto simp: hd_rev)
  next
    case False
    define arr1 where "arr1 = (if \<not> (\<exists>s. lst arr = Some (SelEvent s)) then pushSelectionToHistory (sel d) arr else arr)"
    have a1: "chain ?n ?ls (rev arr1)" "arr1 \<noteq> []" "is_sel (last arr1)"
      using chain_push [OF ch si] ch push_sel_last [of "sel d" arr]
      by (auto simp: arr1_def lst_conv is_sel_iff) (metis lst_conv lst_None_iff option.discI option.inject)+
    note u = apply_undo [OF c historyChange_spec [OF d c]]
    let ?ev = "ChangeEvent [?u] (Some (generation ?h))"
    have c2: "chain ?n ?R (rev (arr1 @ [?ev]))" using a1 u by (simp add: hd_rev)
    have "paired (arr1 @ [?ev])" using chain_paired [OF c2] by simp
    moreover have "\<not> is_sel (last (arr1 @ [?ev]))" by simp
    ultimately obtain pre suf where t: "trimDone (undoDepth ?h) (arr1 @ [?ev]) = Some suf" "arr1 @ [?ev] = pre @ suf"
      "suf = [] \<or> is_sel (hd suf)"
      "case undoDepth ?h of None \<Rightarrow> pre = [] | Some n \<Rightarrow> length suf \<le> n \<and> (2 \<le> n \<longrightarrow> arr1 @ [?ev] \<noteq> [] \<longrightarrow> suf \<noteq> [])"
      using trimDone_spec [of "arr1 @ [?ev]" "undoDepth ?h"] by blast
    have "chain ?n ?R (rev suf @ rev pre)" using c2 unfolding t(2) by simp
    then have c3: "chain ?n ?R (rev suf)" by (rule chain_append) (use t(3) in \<open>auto simp: last_rev\<close>)
    have prior: "last arr1 = SelEvent (prior_sel d)" if "\<not> mayMerge d c opid"
    proof -
      have a: "arr = hdone ?h" using that af by (simp add: start_def)
      show ?thesis
      proof (cases "hdone ?h" rule: rev_cases)
        case (snoc ys y)
        then show ?thesis by (cases y) (simp_all add: a arr1_def prior_sel_def pushSelectionToHistory_def)
      qed (simp add: a arr1_def prior_sel_def pushSelectionToHistory_def)
    qed
    have tb: "text_below ?n ?R (rev suf) = ?ls \<and> (\<not> mayMerge d c opid \<longrightarrow> (\<exists>q. suf = q @ [SelEvent (prior_sel d), ?ev]))"
      if "deep_enough (undoDepth ?h)"
    proof -
      have "suf \<noteq> []" using that t(2,4) by (auto simp: deep_enough_def split: option.splits)
      then have "last suf = ?ev" using t(2) by (metis last_append last_snoc)
      then obtain q where q: "suf = q @ [?ev]" using \<open>suf \<noteq> []\<close> by (metis append_butlast_last_id)
      have "\<exists>q'. q = q' @ [SelEvent (prior_sel d)]" if "\<not> mayMerge d c opid"
      proof -
        have "q \<noteq> []" using q t(3) by auto
        moreover have "arr1 = pre @ q" using t(2) q by simp
        ultimately have "last q = SelEvent (prior_sel d)" using prior [OF that] by simp
        with \<open>q \<noteq> []\<close> show ?thesis by (metis append_butlast_last_id)
      qed
      then show ?thesis using u q by auto
    qed
    define h where "h = ?h\<lparr>hundone := [], hdone := suf @ [SelEvent selAfter],
      generation := Suc (maxGeneration ?h), maxGeneration := Suc (maxGeneration ?h), lastModTime := clock d,
      lastSelTime := clock d, lastOp := opid, lastSelOp := opid, lastOrigin := corigin c, lastSelOrigin := corigin c\<rparr>"
    have "addChangeToHistory d c selAfter opid = Some (d\<lparr>history := h\<rparr>)"
      using False t(1) unfolding addChangeToHistory_def Let_def start_def [symmetric] af arr1_def h_def by simp
    moreover have "\<exists>q e. suf @ [SelEvent selAfter] = q @ [SelEvent (prior_sel d), e, SelEvent selAfter] \<and> \<not> is_sel e"
      if nm: "\<not> mayMerge d c opid" and de: "deep_enough (undoDepth ?h)"
    proof -
      obtain q where "suf = q @ [SelEvent (prior_sel d), ?ev]" using tb [OF de] nm by blast
      then show ?thesis by (intro exI [of _ q] exI [of _ ?ev]) simp
    qed
    ultimately show ?thesis using c3 s tb by (intro exI [of _ h]) (simp add: h_def)
  qed
qed

lemma chain_clear: "chain n0 ls (rev arr) \<Longrightarrow> chain n0 ls (rev (clearSelectionEvents arr))"
  by (simp add: clearSelectionEvents_def chain_dropWhile)

lemma addSelection_spec:
  assumes inv: "hist_inv d" and s: "sel_in (first d) (texts d) s"
    and l: "hdone (history d) = [] \<or> is_sel (last (hdone (history d)))"
    and r: "addSelectionToHistory d s opid options = Some d'"
  shows "\<exists>h. d' = d\<lparr>history := h\<rparr> \<and> chain (first d) (texts d) (rev (hdone h)) \<and>
    chain (first d) (texts d) (rev (hundone h)) \<and> undoDepth h = undoDepth (history d) \<and>
    text_below (first d) (texts d) (rev (hdone h)) = text_below (first d) (texts d) (rev (hdone (history d)))"
proof -
  let ?n = "first d" and ?ls = "texts d" and ?h = "history d"
  have ch: "chain ?n ?ls (rev (hdone ?h))" "chain ?n ?ls (rev (hundone ?h))" using inv by (auto simp: hist_inv_def)
  have repl: "chain ?n ?ls (rev (replaceLast (hdone ?h) (SelEvent s))) \<and>
      text_below ?n ?ls (rev (replaceLast (hdone ?h) (SelEvent s))) = text_below ?n ?ls (rev (hdone ?h))"
    using l s ch(1) by (cases "hdone ?h" rule: rev_cases) (auto simp: replaceLast_def is_sel_iff)
  show ?thesis
    using r repl chain_push [OF ch(1) s] text_below_push [of ?n ?ls s "hdone ?h"] ch(2) chain_clear [OF ch(2)]
    unfolding addSelectionToHistory_def Let_def
    by (auto simp: bind_eq_Some_conv split: option.splits)
qed

section \<open>Positions and selections after a change\<close>

lemma adjust_pos_in:
  assumes c: "fits_text n0 ls (c :: change)" and p: "pos_in n0 ls p"
  shows "pos_in n0 (apply_change n0 c ls) (adjustForChange p c)"
proof -
  have ne: "ctext c \<noteq> []" and v: "valid_change c" using c by (auto simp: fits_text_def valid_change_def)
  let ?R = "apply_change n0 c ls"
  let ?a = "nat (pline (cfrom c) - n0)" and ?i = "nat (pch (cfrom c))"
  let ?b = "nat (pline (cto c) - n0)" and ?j = "nat (pch (cto c))"
  let ?e = "end_line ?a (ctext c)" and ?f = "end_col ?i (ctext c)"
  note pl = fits_places [OF c]
  note nth = text_replace_nth [OF pl ne, folded apply_change_def]
  note e = change_end_place [OF c]
  have lo: "n0 \<le> pline (cfrom c)" "0 \<le> pch (cfrom c)" "n0 \<le> pline (cto c)" "0 \<le> pch (cto c)"
    and len: "?b < length ls" "?j \<le> length (ls ! ?b)" using c by (auto simp: fits_text_def pos_in_def)
  have ce: "cfrom c \<le> changeEnd c" using ne by (rule changeEnd_ge)
  have lo2: "n0 \<le> pline (changeEnd c)" "0 \<le> pch (changeEnd c)"
    using ce lo ne by (auto simp: pos_le_iff changeEnd_def)
  have end_in: "place ?e ?f ?R" using nth(6) by (simp add: places_def)
  have se: "Suc ?e = ?a + length (ctext c)" using ne by (cases "ctext c") (auto simp: end_line_def)
  show ?thesis
  proof (cases p c rule: adjust_cases)
    case before
    then have ab: "nat (pline p - n0) < ?a \<or> nat (pline p - n0) = ?a \<and> nat (pch p) \<le> ?i"
      using p by (auto simp: pos_less_iff pos_in_def)
    have "place (nat (pline p - n0)) (nat (pch p)) ?R"
    proof (cases "nat (pline p - n0) < ?a")
      case True
      then have "?R ! nat (pline p - n0) = ls ! nat (pline p - n0)" using nth(1) by (metis nth_take)
      moreover have "nat (pline p - n0) < length ?R" using True unfolding nth(5) by linarith
      ultimately show ?thesis using p by (auto simp: pos_in_def place_def)
    next
      case False
      with ab have "nat (pline p - n0) = ?a" "nat (pch p) \<le> ?i" by auto
      then show ?thesis using nth(6) by (auto simp: places_def place_def)
    qed
    moreover have "n0 \<le> pline p" "0 \<le> pch p" using p by (auto simp: pos_in_def)
    ultimately show ?thesis unfolding adjust_before [OF before] by (intro place_pos_in)
  next
    case inside
    then show ?thesis using end_in lo2 by (auto simp: adjust_inside e intro!: place_pos_in)
  next
    case after
    let ?q = "shiftPos (cto c) (changeEnd c) p"
    have b: "?b \<le> nat (pline p - n0)" "nat (pline p - n0) < length ls" "nat (pch p) \<le> length (ls ! nat (pline p - n0))"
      "n0 \<le> pline p" "0 \<le> pch p" using after p lo by (auto simp: pos_less_iff pos_in_def)
    have ql: "nat (pline ?q - n0) = ?e + (nat (pline p - n0) - ?b)"
      using lo lo2 after e(1) by (auto simp: shiftPos_def pos_less_iff)
    have "place (nat (pline ?q - n0)) (nat (pch ?q)) ?R"
    proof (cases "pline p = pline (cto c)")
      case True
      have "drop ?f (?R ! ?e) = drop ?j (ls ! ?b)" by (rule nth(3))
      then have "length (?R ! ?e) - ?f = length (ls ! ?b) - ?j" by (metis length_drop)
      moreover have inl: "?e < length ?R" "?f \<le> length (?R ! ?e)" using end_in by (simp_all add: place_def)
      ultimately have L: "length (?R ! ?e) = (length (ls ! ?b) - ?j) + ?f" by (metis le_add_diff_inverse2)
      have Q: "nat (pch ?q) = nat (pch p) - ?j + ?f"
        using True after lo lo2 e(2) by (auto simp: shiftPos_def pos_less_iff)
      have "nat (pch p) \<le> length (ls ! ?b)" using True b by simp
      then have "nat (pch ?q) \<le> length (?R ! ?e)" unfolding Q L by (intro add_right_mono diff_le_mono)
      then show ?thesis using True inl(1) ql by (simp add: place_def)
    next
      case False
      then have g: "?b < nat (pline p - n0)" using after lo by (auto simp: pos_less_iff)
      define k where "k = nat (pline p - n0) - Suc ?b"
      have k1: "nat (pline p - n0) = Suc ?b + k" using g unfolding k_def by linarith
      have k: "nat (pline p - n0) = Suc ?b + k" "nat (pline ?q - n0) = Suc ?e + k" using ql k1 unfolding k1 by simp_all
      have lR: "Suc ?e + k < length ?R" using b(2) k(1) len se unfolding nth(5) by linarith
      have lL: "Suc ?b + k < length ls" using b(2) k(1) by simp
      have "drop (Suc ?e) ?R ! k = drop (Suc ?b) ls ! k" by (simp only: nth(4))
      then have "?R ! (Suc ?e + k) = ls ! (Suc ?b + k)" using lR lL by simp
      moreover note lR
      ultimately show ?thesis using b k False by (auto simp: place_def shiftPos_def)
    qed
    moreover have "changeEnd c < ?q" using after by (rule shiftPos_less)
    then have "n0 \<le> pline ?q" using lo2 by (auto simp: pos_less_iff)
    moreover have "0 \<le> pch ?q"
    proof (cases "pline p = pline (cto c)")
      case True
      then have "pch (cto c) < pch p" using after by (simp add: pos_less_iff)
      then show ?thesis using True lo2(2) by (simp add: shiftPos_def)
    qed (use b(5) in \<open>simp add: shiftPos_def\<close>)
    ultimately show ?thesis unfolding adjust_after [OF v after] by (intro place_pos_in)
  qed
qed

lemma normalize_sel_in:
  assumes "0 \<le> p" "p < int (length rs)" "\<forall>q \<in> range_ends rs. pos_in n0 ls q"
  shows "sel_in n0 ls (normalizeSelection rs p)"
proof -
  obtain r where "primary (normalizeSelection rs p) = Some r" using normalize_prim_within [OF assms(1,2)] by blast
  then show ?thesis
    using assms(3) normalize_ends [of rs p] by (auto simp: sel_in_def primary_def split: if_splits)
qed

lemma computeSelAfterChange_in:
  assumes "fits_text n0 ls (c :: change)" "sel_in n0 ls s"
  shows "sel_in n0 (apply_change n0 c ls) (computeSelAfterChange s c)"
  unfolding computeSelAfterChange_def
proof (rule normalize_sel_in)
  show "\<forall>q \<in> range_ends (map (\<lambda>r. Range (adjustForChange (anchor r) c) (adjustForChange (head r) c)) (ranges s)).
      pos_in n0 (apply_change n0 c ls) q"
    using assms(2) adjust_pos_in [OF assms(1)] by (auto simp: sel_in_def range_ends_def)
qed (use assms(2) in \<open>auto simp: sel_in_def\<close>)

end
