(* ===== verification/MarkerOps.thy ===== *)
theory MarkerOps
  imports DocText
begin

text \<open>
  Operations on the markers of a document: where a marker is (\<open>find\<close>), the order of collapsed
  markers, visual lines, hidden lines, conflicts between collapsed ranges, and the clipping of
  read-only ranges out of a change. Lines are referred to by their id. \<open>None\<close> is a TypeError or, in
  \<open>visualLine\<close> and its relatives, a loop that does not return.
\<close>

section \<open>Finding markers\<close>

definition lineById :: "doc \<Rightarrow> nat \<Rightarrow> jsline option" where
  "lineById d i = List.find (\<lambda>l. lid l = i) (doc_lines d)"

definition lineNoOf :: "doc \<Rightarrow> nat \<Rightarrow> int option" where
  "lineNoOf d i = lineNo (first d) (root d) i"

lemma lineById_nth:
  assumes "wf_doc d" "k < length (doc_lines d)"
  shows "lineById d (lid (doc_lines d ! k)) = Some (doc_lines d ! k)"
    "lineNoOf d (lid (doc_lines d ! k)) = Some (first d + int k)"
proof -
  have dist: "distinct (map lid (doc_lines d))" and t: "consistent (root d)"
    using assms(1) by (auto simp: wf_doc_def wf_tree_def)
  have "\<And>j. j < k \<Longrightarrow> lid (doc_lines d ! j) \<noteq> lid (doc_lines d ! k)"
    using dist assms(2) by (auto simp: distinct_conv_nth)
  then show "lineById d (lid (doc_lines d ! k)) = Some (doc_lines d ! k)"
    using assms(2) by (auto simp: lineById_def find_Some_iff)
  show "lineNoOf d (lid (doc_lines d ! k)) = Some (first d + int k)"
    using lineNo_index [OF t] index_of_line_nth [OF dist assms(2)] by (simp add: lineNoOf_def doc_lines_def)
qed

text \<open>
  The loop of \<open>TextMarker.prototype.find\<close> over the lines of the marker: the last \<open>from\<close> and \<open>to\<close>
  seen, stopping early for side -1 and side 1.
\<close>

fun findLoop :: "doc \<Rightarrow> nat \<Rightarrow> int \<Rightarrow> nat list \<Rightarrow> (nat \<times> int) option \<Rightarrow> (nat \<times> int) option \<Rightarrow>
    ((nat \<times> int) option \<times> (nat \<times> int) option) option" where
  "findLoop d mk side [] from to = Some (from, to)"
| "findLoop d mk side (i # is) from to = do {
     line \<leftarrow> lineById d i;
     span \<leftarrow> getMarkedSpanFor (lspans line) mk;
     let from' = (case sfrom span of None \<Rightarrow> from | Some f \<Rightarrow> Some (i, f));
     if side = -1 \<and> sfrom span \<noteq> None then Some (from', to)
     else
       (let to' = (case sto span of None \<Rightarrow> to | Some t \<Rightarrow> Some (i, t))
        in if side = 1 \<and> sto span \<noteq> None then Some (from', to') else findLoop d mk side is from' to')
   }"

text \<open>\<open>find(-1, true)\<close> and \<open>find(1, true)\<close>: a line and an offset in it.\<close>

definition findAt :: "doc \<Rightarrow> nat \<Rightarrow> int \<Rightarrow> (nat \<times> int) option" where
  "findAt d mk side = do {
     (from, to) \<leftarrow> findLoop d mk side (mlines (markers d mk)) None None;
     if side = -1 then from else to }"

definition toPos :: "doc \<Rightarrow> nat \<times> int \<Rightarrow> pos option" where
  "toPos d lc = do { n \<leftarrow> lineNoOf d (fst lc); Some (Pos n (snd lc)) }"

text \<open>\<open>find(-1)\<close>, \<open>find(1)\<close>, and \<open>find(0)\<close>, which returns both ends.\<close>

definition findSide :: "doc \<Rightarrow> nat \<Rightarrow> int \<Rightarrow> pos option" where
  "findSide d mk side = do { lc \<leftarrow> findAt d mk side; toPos d lc }"

definition findBoth :: "doc \<Rightarrow> nat \<Rightarrow> (pos \<times> pos) option" where
  "findBoth d mk = do {
     (from, to) \<leftarrow> findLoop d mk 0 (mlines (markers d mk)) None None;
     f \<leftarrow> from; t \<leftarrow> to;
     p \<leftarrow> toPos d f; q \<leftarrow> toPos d t;
     Some (p, q) }"

section \<open>Collapsed markers\<close>

definition extraLeft :: "tmarker \<Rightarrow> int" where
  "extraLeft m = (if inclusiveLeft m then -1 else 0)"

definition extraRight :: "tmarker \<Rightarrow> int" where
  "extraRight m = (if inclusiveRight m then 1 else 0)"

definition or_else :: "int \<Rightarrow> int \<Rightarrow> int" where
  "or_else a b = (if a \<noteq> 0 then a else b)"

definition compareCollapsedMarkers :: "doc \<Rightarrow> nat \<Rightarrow> nat \<Rightarrow> int option" where
  "compareCollapsedMarkers d a b =
     (let ma = markers d a; mb = markers d b; lenDiff = int (length (mlines ma)) - int (length (mlines mb))
      in if lenDiff \<noteq> 0 then Some lenDiff
         else do {
           (aFrom, aTo) \<leftarrow> findBoth d a;
           (bFrom, bTo) \<leftarrow> findBoth d b;
           let fromCmp = or_else (cmp aFrom bFrom) (extraLeft ma - extraLeft mb);
           if fromCmp \<noteq> 0 then Some (- fromCmp)
           else
             (let toCmp = or_else (cmp aTo bTo) (extraRight ma - extraRight mb)
              in if toCmp \<noteq> 0 then Some toCmp else Some (int (mid mb) - int (mid ma)))
         })"

text \<open>The marker of the line that is collapsed over its start (or its end), the largest one.\<close>

fun collapsedLoop :: "doc \<Rightarrow> bool \<Rightarrow> mspan list \<Rightarrow> nat option \<Rightarrow> nat option option" where
  "collapsedLoop d start [] found = Some found"
| "collapsedLoop d start (sp # sps) found =
     (if collapsed (markers d (smarker sp)) \<and> (if start then sfrom sp else sto sp) = None then
        (case found of
           None \<Rightarrow> collapsedLoop d start sps (Some (smarker sp))
         | Some f \<Rightarrow> do {
             c \<leftarrow> compareCollapsedMarkers d f (smarker sp);
             collapsedLoop d start sps (if c < 0 then Some (smarker sp) else found) })
      else collapsedLoop d start sps found)"

definition collapsedSpanAtSide :: "doc \<Rightarrow> jsline \<Rightarrow> bool \<Rightarrow> nat option option" where
  "collapsedSpanAtSide d line start =
     (if sawCollapsedSpans d then collapsedLoop d start (lspans line) None else Some None)"

partial_function (option) visualLine :: "doc \<Rightarrow> nat \<Rightarrow> nat option" where
  "visualLine d i = do {
     line \<leftarrow> lineById d i;
     merged \<leftarrow> collapsedSpanAtSide d line True;
     (case merged of
        None \<Rightarrow> Some i
      | Some mk \<Rightarrow> do { (j, ch) \<leftarrow> findAt d mk (-1); visualLine d j }) }"

partial_function (option) visualLineContinued :: "doc \<Rightarrow> nat \<Rightarrow> nat list option" where
  "visualLineContinued d i = do {
     line \<leftarrow> lineById d i;
     merged \<leftarrow> collapsedSpanAtSide d line False;
     (case merged of
        None \<Rightarrow> Some []
      | Some mk \<Rightarrow> do { (j, ch) \<leftarrow> findAt d mk 1; rest \<leftarrow> visualLineContinued d j; Some (j # rest) }) }"

definition visualLineNo :: "doc \<Rightarrow> int \<Rightarrow> int option" where
  "visualLineNo d n = do {
     line \<leftarrow> getLine d n;
     vis \<leftarrow> visualLine d (lid line);
     if vis = lid line then Some n else lineNoOf d vis }"

text \<open>\<open>some\<close> of a list with a test that may throw.\<close>

fun exM :: "('a \<Rightarrow> bool option) \<Rightarrow> 'a list \<Rightarrow> bool option" where
  "exM P [] = Some False"
| "exM P (x # xs) = do { b \<leftarrow> P x; if b then Some True else exM P xs }"

text \<open>
  \<open>lineIsHiddenInner\<close> follows spans that touch each other; the first argument bounds how many, and
  \<open>None\<close> stands for a longer chain.
\<close>

fun lineIsHiddenInner :: "nat \<Rightarrow> doc \<Rightarrow> jsline \<Rightarrow> mspan \<Rightarrow> bool option" where
  "lineIsHiddenInner 0 d line span = None"
| "lineIsHiddenInner (Suc n) d line span =
     (let m = markers d (smarker span) in
      case sto span of
        None \<Rightarrow> do {
          (j, ch) \<leftarrow> findAt d (smarker span) 1;
          line' \<leftarrow> lineById d j;
          span' \<leftarrow> getMarkedSpanFor (lspans line') (smarker span);
          lineIsHiddenInner n d line' span' }
      | Some to \<Rightarrow>
          if inclusiveRight m \<and> to = int (length (ltext line)) then Some True
          else exM (\<lambda>sp. let m' = markers d (smarker sp) in
                 if collapsed m' \<and> \<not> widgetNode m' \<and> sfrom sp = Some to \<and>
                    (sto sp = None \<or> sto sp \<noteq> sfrom span) \<and>
                    (inclusiveLeft m' \<or> inclusiveRight m)
                 then lineIsHiddenInner n d line sp else Some False) (lspans line))"

definition total_spans :: "doc \<Rightarrow> nat" where
  "total_spans d = sum_list (map (\<lambda>l. length (lspans l)) (doc_lines d))"

definition lineIsHidden :: "doc \<Rightarrow> jsline \<Rightarrow> bool option" where
  "lineIsHidden d line =
     (if sawCollapsedSpans d then
        exM (\<lambda>sp. let m = markers d (smarker sp) in
              if \<not> collapsed m then Some False
              else if sfrom sp = None then Some True
              else if widgetNode m then Some False
              else if sfrom sp = Some 0 \<and> inclusiveLeft m then lineIsHiddenInner (Suc (Suc (total_spans d))) d line sp
              else Some False) (lspans line)
      else Some False)"

definition visualLineEndNo :: "doc \<Rightarrow> int \<Rightarrow> int option" where
  "visualLineEndNo d n =
     (if n > lastLine d then Some n
      else do {
        line \<leftarrow> getLine d n;
        hidden \<leftarrow> lineIsHidden d line;
        if \<not> hidden then Some n
        else do {
          js \<leftarrow> visualLineContinued d (lid line);
          k \<leftarrow> lineNoOf d (if js = [] then lid line else last js);
          Some (k + 1) } })"

definition conflictingCollapsedRange :: "doc \<Rightarrow> int \<Rightarrow> pos \<Rightarrow> pos \<Rightarrow> tmarker \<Rightarrow> bool option" where
  "conflictingCollapsedRange d n from to marker = do {
     line \<leftarrow> getLine d n;
     if \<not> sawCollapsedSpans d then Some False
     else exM (\<lambda>sp. let m = markers d (smarker sp) in
            if \<not> collapsed m then Some False
            else do {
              (ffrom, fto) \<leftarrow> findBoth d (smarker sp);
              let fromCmp = or_else (cmp ffrom from) (extraLeft m - extraLeft marker);
              let toCmp = or_else (cmp fto to) (extraRight m - extraRight marker);
              if fromCmp \<ge> 0 \<and> toCmp \<le> 0 \<or> fromCmp \<le> 0 \<and> toCmp \<ge> 0 then Some False
              else Some (fromCmp \<le> 0 \<and> (cmp fto from > 0 \<or> inclusiveRight m \<and> inclusiveLeft marker) \<or>
                         fromCmp \<ge> 0 \<and> (cmp ffrom to < 0 \<or> inclusiveLeft m \<and> inclusiveRight marker)) })
          (lspans line) }"

section \<open>Read-only ranges\<close>

text \<open>The read-only markers on the lines of a change, in the order they are met.\<close>

definition readOnlyMarkers :: "doc \<Rightarrow> pos \<Rightarrow> pos \<Rightarrow> nat list" where
  "readOnlyMarkers d from to =
     iter (pline from) (pline to + 1)
       (\<lambda>line found. (fold (\<lambda>sp acc. if readOnly (markers d (smarker sp)) \<and> \<not> List.member acc (smarker sp)
                                 then acc @ [smarker sp] else acc) (lspans line) found, False)) d []"

text \<open>
  The inner loop over the parts, at index \<open>j\<close>. \<open>newParts\<close> starts with the two arguments of
  \<open>splice\<close>, so that with \<open>k\<close> new parts its length is \<open>k + 2\<close> and the loop goes on at
  \<open>j + (k + 2 - 1) + 1\<close>.
\<close>

definition newPartsFor :: "tmarker \<Rightarrow> pos \<times> pos \<Rightarrow> pos \<times> pos \<Rightarrow> (pos \<times> pos) list" where
  "newPartsFor mk m p =
     (let dfrom = cmp (fst p) (fst m); dto = cmp (snd p) (snd m)
      in (if dfrom < 0 \<or> \<not> inclusiveLeft mk \<and> dfrom = 0 then [(fst p, fst m)] else [])
         @ (if dto > 0 \<or> \<not> inclusiveRight mk \<and> dto = 0 then [(snd m, snd p)] else []))"

function cutParts :: "tmarker \<Rightarrow> pos \<times> pos \<Rightarrow> (pos \<times> pos) list \<Rightarrow> nat \<Rightarrow> (pos \<times> pos) list" where
  "cutParts mk m parts j =
     (if j < length parts then
        (let p = parts ! j
         in if cmp (snd p) (fst m) < 0 \<or> cmp (fst p) (snd m) > 0 then cutParts mk m parts (Suc j)
            else (let new = newPartsFor mk m p
                  in cutParts mk m (splice j 1 new parts) (Suc (j + (length new + 2 - 1)))))
      else parts)"
  by pat_completeness auto
termination
  by (relation "measure (\<lambda>(mk, m, parts, j). length parts - j)") (auto simp: splice_def)

declare cutParts.simps [simp del]

fun cutMarkers :: "doc \<Rightarrow> nat list \<Rightarrow> (pos \<times> pos) list \<Rightarrow> (pos \<times> pos) list option" where
  "cutMarkers d [] parts = Some parts"
| "cutMarkers d (mk # mks) parts = do {
     m \<leftarrow> findBoth d mk;
     cutMarkers d mks (cutParts (markers d mk) m parts 0) }"

text \<open>\<open>removeReadOnlyRanges\<close>: null when there is no read-only marker on the lines.\<close>

definition removeReadOnlyRanges :: "doc \<Rightarrow> pos \<Rightarrow> pos \<Rightarrow> (pos \<times> pos) list option option" where
  "removeReadOnlyRanges d from to =
     (let mks = readOnlyMarkers d from to
      in if mks = [] then Some None
         else do { parts \<leftarrow> cutMarkers d mks [(from, to)]; Some (Some parts) })"

end
