(* ===== verification/HistoryFacts.thy ===== *)
theory HistoryFacts
  imports TextHistory MarkerOps
begin

text \<open>
  Properties of the history operations on their own: the bound on the undo stack, rebasing, copying,
  and the clipping of read-only ranges; and the cases in which the code departs from its intent.
\<close>

section \<open>The bound of the undo stack\<close>

text \<open>
  C31. Registering a change that starts a new event leaves at most \<open>undoDepth\<close> events and the pending
  selection on the undo stack.
\<close>

theorem undoDepth_bound:
  assumes "wf_doc d" "hist_inv d" "fits_text (first d) (texts d) c"
    and "sel_in (first d) (apply_change (first d) c (texts d)) selAfter"
    and "undoDepth (history d) = Some n" "\<not> mayMerge d c opid"
  shows "\<exists>h. addChangeToHistory d c selAfter opid = Some (d\<lparr>history := h\<rparr>) \<and> length (hdone h) \<le> Suc n"
proof -
  obtain h where h: "addChangeToHistory d c selAfter opid = Some (d\<lparr>history := h\<rparr>)"
    using addChange_spec [OF assms(1-4)] by blast
  have "length suf \<le> n" if "trimDone (Some n) arr = Some suf" for arr suf
    using that by (induction "Some n" arr arbitrary: suf rule: trimDone.induct) (auto split: if_splits)
  then have "length (hdone h) \<le> Suc n"
    using h assms(5,6)
    by (auto simp: addChangeToHistory_def Let_def bind_eq_Some_conv dest!: arg_cong [of _ _ "\<lambda>d. hdone (history d)"])
      (metis Suc_le_mono length_append_singleton)
  with h show ?thesis by blast
qed

definition sample_hist_doc :: doc where
  "sample_hist_doc = sample_doc\<lparr>history := (history sample_doc)\<lparr>undoDepth := Some 2\<rparr>\<rparr>"

theorem undoDepth_bound_witness:
  "\<exists>h. addChangeToHistory sample_hist_doc sample_change (simpleSelection (Pos 6 1) None) None
      = Some (sample_hist_doc\<lparr>history := h\<rparr>) \<and> length (hdone h) \<le> 3"
proof -
  have t: "texts sample_hist_doc = [[], [97], [97, 97], [97, 97, 97]]" "first sample_hist_doc = 5"
    using sample_doc_simps by (simp_all add: sample_hist_doc_def texts_def doc_lines_def)
  have w: "wf_doc sample_hist_doc" using sample_doc_simps(4) by (simp add: sample_hist_doc_def wf_doc_def doc_lines_def)
  have f: "fits_text 5 [[], [97], [97, 97], [97, 97, 97]] sample_change"
    using sample_change_ok by (simp add: fits_change_ok)
  have i: "hist_inv sample_hist_doc"
    unfolding hist_inv_def t by (simp add: sample_hist_doc_def sample_doc_def sel_in_def simpleSelection_def range_ends_def pos_in_def)
  have s: "sel_in 5 (apply_change 5 sample_change [[], [97], [97, 97], [97, 97, 97]]) (simpleSelection (Pos 6 1) None)"
    by (simp add: sel_in_def simpleSelection_def range_ends_def pos_in_def sample_change_def Change_def apply_change_def
        text_replace_def glue_def)
  have m: "\<not> mayMerge sample_hist_doc sample_change None"
    by (auto simp: mayMerge_def same_op_def sample_change_def truthy_origin_def Change_def Let_def)
  have u: "undoDepth (history sample_hist_doc) = Some 2" by (simp add: sample_hist_doc_def)
  show ?thesis
    using undoDepth_bound [OF w i _ _ u m] f s t by (simp add: numeral_3_eq_3 numeral_2_eq_2)
qed

section \<open>Rebasing\<close>

text \<open>A change event that the change does not touch, and one it does.\<close>

definition untouched :: "int \<Rightarrow> int \<Rightarrow> int \<Rightarrow> hevent \<Rightarrow> bool" where
  "untouched from to diff e \<longleftrightarrow> snd (rebaseEvent from to diff e)"

lemma rebaseLoop_untouched:
  assumes "list_all (untouched from to diff) (drop i arr)" "i \<le> length arr"
  shows "rebaseLoop from to diff arr i = take i arr @ map (\<lambda>e. fst (rebaseEvent from to diff e)) (drop i arr)"
  using assms
proof (induction "length arr - i" arbitrary: i arr)
  case 0
  then show ?case by (subst rebaseLoop.simps) simp
next
  case (Suc k)
  then have i: "i < length arr" by simp
  obtain e where e: "rebaseEvent from to diff (arr ! i) = (e, True)"
    using Suc.prems(1) i by (cases "rebaseEvent from to diff (arr ! i)")
      (auto simp: untouched_def Cons_nth_drop_Suc [symmetric])
  have "rebaseLoop from to diff arr i = rebaseLoop from to diff (arr[i := e]) (Suc i)"
    by (subst rebaseLoop.simps) (simp add: i e)
  also have "\<dots> = take (Suc i) (arr[i := e]) @ map (\<lambda>e. fst (rebaseEvent from to diff e)) (drop (Suc i) (arr[i := e]))"
    using Suc i by (intro Suc.hyps(1)) (auto simp: Cons_nth_drop_Suc [symmetric])
  also have "\<dots> = take i arr @ map (\<lambda>e. fst (rebaseEvent from to diff e)) (drop i arr)"
    using i e by (simp add: Cons_nth_drop_Suc [symmetric] take_Suc_conv_app_nth)
  finally show ?case .
qed

lemma rebaseChanges_shift:
  "list_all (\<lambda>c. pline (cfrom c) > to) cs \<Longrightarrow> rebaseChanges from to diff cs =
     (map (\<lambda>c. c\<lparr>cfrom := Pos (pline (cfrom c) + diff) (pch (cfrom c)), cto := Pos (pline (cto c) + diff) (pch (cto c))\<rparr>) cs, True)"
  by (induction cs) auto

text \<open>
  A history that an external change does not touch is rebased event by event: every change event and
  every selection is kept, those behind the change are shifted by the difference in lines.
\<close>

theorem rebase_untouched:
  assumes "list_all (untouched from to diff) arr"
  shows "rebaseHistArray arr from to diff = map (\<lambda>e. fst (rebaseEvent from to diff e)) arr"
  using rebaseLoop_untouched [of "from" to diff 0 arr] assms by (simp add: rebaseHistArray_def)

definition sample_event :: "int \<Rightarrow> hevent" where
  "sample_event n = ChangeEvent [\<lparr>cfrom = Pos n 0, cto = Pos n 1, ctext = [[]], corigin = None, hspans = None\<rparr>] (Some 1)"

theorem rebase_untouched_witness:
  "rebaseHistArray [sample_event 3, SelEvent (simpleSelection (Pos 9 2) None), sample_event 7] 5 6 2
   = [sample_event 3, SelEvent (simpleSelection (Pos 11 2) None), sample_event 9]"
  using rebase_untouched [of 5 6 2 "[sample_event 3, SelEvent (simpleSelection (Pos 9 2) None), sample_event 7]"]
  by (simp add: untouched_def sample_event_def simpleSelection_def rebaseHistSelSingle_def deepCopy_def Selection_def)

text \<open>The loop passes over events that are not touched, and restarts at index 1 behind one that is.\<close>

lemma rebaseLoop_touched:
  assumes "list_all (untouched from to diff) pre" "\<not> untouched from to diff t"
  shows "rebaseLoop from to diff (xs @ pre @ t # rest) (length xs) = rebaseLoop from to diff rest 1"
  using assms(1)
proof (induction pre arbitrary: xs)
  case Nil
  obtain e where "rebaseEvent from to diff t = (e, False)"
    using assms(2) by (cases "rebaseEvent from to diff t") (auto simp: untouched_def)
  then show ?case by (subst rebaseLoop.simps) simp
next
  case (Cons p pre)
  obtain e where e: "rebaseEvent from to diff p = (e, True)"
    using Cons.prems by (cases "rebaseEvent from to diff p") (auto simp: untouched_def)
  have "rebaseLoop from to diff (xs @ (p # pre) @ t # rest) (length xs)
      = rebaseLoop from to diff ((xs @ [e]) @ pre @ t # rest) (length (xs @ [e]))"
    by (subst rebaseLoop.simps) (simp add: e)
  also have "\<dots> = rebaseLoop from to diff rest 1" by (rule Cons.IH) (use Cons.prems in simp)
  finally show ?case .
qed

text \<open>
  C40. An event that the change touches is dropped with all events before it. The event right behind it is skipped,
  whatever it is, touched or not: the loop goes on at index 1 instead of 0, so that event stays in the history
  with the positions it had before the change. The events behind that one, when the change does not touch
  them, are rebased.
\<close>

theorem rebase_skips_event:
  assumes "list_all (untouched from to diff) pre" "\<not> untouched from to diff t" "list_all (untouched from to diff) rest"
  shows "rebaseHistArray (pre @ [t, skipped] @ rest) from to diff
    = skipped # map (\<lambda>e. fst (rebaseEvent from to diff e)) rest"
proof -
  have "rebaseHistArray (pre @ [t, skipped] @ rest) from to diff = rebaseLoop from to diff (skipped # rest) 1"
    using rebaseLoop_touched [OF assms(1, 2), of "[]" "skipped # rest"] by (simp add: rebaseHistArray_def)
  also have "\<dots> = skipped # map (\<lambda>e. fst (rebaseEvent from to diff e)) rest"
    using rebaseLoop_untouched [of "from" to diff 1 "skipped # rest"] assms(3) by simp
  finally show ?thesis .
qed

text \<open>The event of line 8 keeps its line, although the change adds two lines before it; so does a touched one.\<close>

theorem rebase_skips_event_witness:
  "rebaseHistArray [sample_event 3, sample_event 5, sample_event 8, sample_event 9] 5 6 2 = [sample_event 8, sample_event 11]
   \<and> rebaseHistArray [sample_event 5, sample_event 6, sample_event 9] 5 6 2 = [sample_event 6, sample_event 11]"
  using rebase_skips_event [of 5 6 2 "[sample_event 3]" "sample_event 5" "[sample_event 9]" "sample_event 8"]
    rebase_skips_event [of 5 6 2 "[]" "sample_event 5" "[sample_event 9]" "sample_event 6"]
  by (simp add: untouched_def sample_event_def)

end
