(* ===== verification/MarkText.thy ===== *)
theory MarkText
  imports MarkerOps
begin

text \<open>
  Where a marker is: a marker covers a range when the spans on the lines of the range, and no others, are
  its own. \<open>find\<close> returns that range, and \<open>updateDoc\<close> moves it as the text moves.
\<close>

section \<open>Ranges of markers\<close>

definition span_at :: "nat \<Rightarrow> pos \<Rightarrow> pos \<Rightarrow> int \<Rightarrow> mspan" where
  "span_at mk p q n = MarkedSpan mk (if n = pline p then Some (pch p) else None) (if n = pline q then Some (pch q) else None)"

definition spans_between :: "nat \<Rightarrow> pos \<Rightarrow> pos \<Rightarrow> int \<Rightarrow> mspan list" where
  "spans_between mk p q n = (if pline p \<le> n \<and> n \<le> pline q then [span_at mk p q n] else [])"

text \<open>The spans on line \<open>n\<close> of the contents of a document whose first line is \<open>f\<close>.\<close>

definition covers_in :: "int \<Rightarrow> (jstr \<times> mspan list) list \<Rightarrow> nat \<Rightarrow> pos \<Rightarrow> pos \<Rightarrow> bool" where
  "covers_in f C mk p q \<longleftrightarrow> (\<forall>k < length C. spans_of mk (snd (C ! k)) = spans_between mk p q (f + int k))"

definition covers :: "doc \<Rightarrow> nat \<Rightarrow> pos \<Rightarrow> pos \<Rightarrow> bool" where
  "covers d mk p q \<longleftrightarrow> covers_in (first d) (contents d) mk p q"

definition gone :: "doc \<Rightarrow> nat \<Rightarrow> bool" where
  "gone d mk \<longleftrightarrow> (\<forall>k < length (contents d). spans_of mk (snd (contents d ! k)) = [])"

section \<open>The spans of one marker in a change\<close>

text \<open>\<open>stretchSpansOverChange\<close> without the test for lines with no spans at all.\<close>

definition stretched :: "mstore \<Rightarrow> mspan list \<Rightarrow> mspan list \<Rightarrow> change \<Rightarrow> nat \<Rightarrow> mspan list" where
  "stretched ms oldFirst oldLast c k =
     (let startCh = pch (cfrom c); endCh = pch (cto c); isInsert = (cmp (cfrom c) (cto c) = 0);
          first0 = markedSpansBefore ms oldFirst startCh isInsert;
          last0 = markedSpansAfter ms oldLast endCh isInsert;
          sameLine = (length (ctext c) = 1);
          offset = int (length (last (ctext c))) + (if sameLine then startCh else 0);
          first1 = fixFirst startCh offset sameLine last0 first0;
          (last1, first2) = fixLast offset sameLine last0 first1
      in if k = 0 then clearEmptySpans ms first2
         else if k < length (ctext c) - 1 then
           map (\<lambda>span. MarkedSpan (smarker span) None None) (filter (\<lambda>span. sto span = None) (clearEmptySpans ms first2))
         else clearEmptySpans ms last1)"

lemma stretchSpans_nth:
  assumes "ctext c \<noteq> []" "k < length (ctext c)"
  shows "spansFor (stretchSpans ms old1 old2 c) k = stretched ms old1 old2 c k"
proof (cases "old1 = [] \<and> old2 = []")
  case True
  then show ?thesis by (simp add: stretchSpans_def spansFor_def stretched_def Let_def fixFirst_def clearEmptySpans_def)
next
  case False
  obtain last1 first2 where lf: "fixLast (int (length (last (ctext c))) + (if length (ctext c) = 1 then pch (cfrom c) else 0)) (length (ctext c) = 1)
      (markedSpansAfter ms old2 (pch (cto c)) (cmp (cfrom c) (cto c) = 0))
      (fixFirst (pch (cfrom c)) (int (length (last (ctext c))) + (if length (ctext c) = 1 then pch (cfrom c) else 0)) (length (ctext c) = 1)
         (markedSpansAfter ms old2 (pch (cto c)) (cmp (cfrom c) (cto c) = 0))
         (markedSpansBefore ms old1 (pch (cfrom c)) (cmp (cfrom c) (cto c) = 0))) = (last1, first2)"
    by fastforce
  show ?thesis
  proof (cases "length (ctext c) = 1")
    case True
    then show ?thesis using False lf assms by (auto simp: stretchSpans_def spansFor_def stretched_def Let_def)
  next
    case many: False
    then have "2 \<le> length (ctext c)" using assms(1) by (cases "ctext c"; cases "tl (ctext c)") auto
    then obtain g where g: "length (ctext c) = Suc (Suc g)" by (metis add_2_eq_Suc le_Suc_ex)
    let ?gap = "map (\<lambda>span. MarkedSpan (smarker span) None None) (filter (\<lambda>span. sto span = None) (clearEmptySpans ms first2))"
    have s: "stretchSpans ms old1 old2 c = Some (clearEmptySpans ms first2 # replicate g ?gap @ [clearEmptySpans ms last1])"
      using False lf g by (auto simp: stretchSpans_def Let_def)
    consider (A) "k = 0" | (B) j where "k = Suc j" "j < g" | (C) "k = Suc g"
      using assms(2) g by (cases k) (auto simp: less_Suc_eq)
    then show ?thesis
      by cases (use lf g in \<open>auto simp: s spansFor_def stretched_def Let_def nth_append\<close>)
  qed
qed

text \<open>The spans of a marker depend on the old spans of this marker only.\<close>

lemma getMarkedSpanFor_of: "getMarkedSpanFor (spans_of mk sps) mk = getMarkedSpanFor sps mk"
  by (induction sps) auto

lemma spans_of_before: "spans_of mk (markedSpansBefore ms old ch ins) = markedSpansBefore ms (spans_of mk old) ch ins"
  by (induction ms old ch ins rule: markedSpansBefore.induct) (auto simp: Let_def)

lemma spans_of_after: "spans_of mk (markedSpansAfter ms old ch ins) = markedSpansAfter ms (spans_of mk old) ch ins"
  by (induction ms old ch ins rule: markedSpansAfter.induct) (auto simp: Let_def)

lemma spans_of_marker: "sp \<in> set (spans_of mk sps) \<Longrightarrow> smarker sp = mk"
  by (simp add: spans_of_def)

lemma spans_of_fixFirst:
  "spans_of mk (fixFirst ch off same lasts fs) = fixFirst ch off same (spans_of mk lasts) (spans_of mk fs)"
proof (induction fs)
  case (Cons sp fs)
  show ?case
  proof (cases "smarker sp = mk")
    case True
    then have "getMarkedSpanFor (spans_of mk lasts) (smarker sp) = getMarkedSpanFor lasts (smarker sp)"
      using getMarkedSpanFor_of [of mk lasts] by simp
    then show ?thesis using Cons True by (auto simp: fixFirst_def split: option.split)
  next
    case False
    then show ?thesis using Cons by (auto simp: fixFirst_def split: option.split)
  qed
qed (simp add: fixFirst_def)

lemma spans_of_fixLast:
  "fixLast off same lasts fs = (l, f) \<Longrightarrow> fixLast off same (spans_of mk lasts) (spans_of mk fs) = (spans_of mk l, spans_of mk f)"
proof (induction off same lasts fs arbitrary: l f rule: fixLast.induct)
  case (2 off same sp lasts fs)
  let ?s1 = "sp\<lparr>sto := map_option (\<lambda>t. t + off) (sto sp)\<rparr>"
  obtain sp2 moved where sm: "(case sfrom sp of
      None \<Rightarrow> (case getMarkedSpanFor fs (smarker sp) of
                 None \<Rightarrow> (?s1\<lparr>sfrom := Some off\<rparr>, same)
               | Some found \<Rightarrow> (?s1, False))
    | Some g \<Rightarrow> (?s1\<lparr>sfrom := Some (g + off)\<rparr>, same)) = (sp2, moved)" by fastforce
  obtain l' f' where r: "fixLast off same lasts (if moved then fs @ [sp2] else fs) = (l', f')" by fastforce
  have lf: "l = sp2 # l'" "f = f'" using 2(2) sm r by (auto simp: Let_def)
  have m2: "smarker sp2 = smarker sp" using sm by (auto split: option.splits)
  note ih = 2(1) [OF refl sm [symmetric] refl r]
  show ?case
  proof (cases "smarker sp = mk")
    case True
    have "getMarkedSpanFor (spans_of mk fs) (smarker sp) = getMarkedSpanFor fs (smarker sp)"
      using getMarkedSpanFor_of [of mk fs] True by simp
    then have "fixLast off same (sp # spans_of mk lasts) (spans_of mk fs)
        = (case fixLast off same (spans_of mk lasts) (if moved then spans_of mk fs @ [sp2] else spans_of mk fs) of (a, b) \<Rightarrow> (sp2 # a, b))"
      unfolding fixLast.simps Let_def \<open>getMarkedSpanFor (spans_of mk fs) (smarker sp) = _\<close> sm by simp
    moreover have "spans_of mk (if moved then fs @ [sp2] else fs) = (if moved then spans_of mk fs @ [sp2] else spans_of mk fs)"
      using True m2 by simp
    ultimately show ?thesis using ih True m2 lf by simp
  next
    case False
    then have "spans_of mk (if moved then fs @ [sp2] else fs) = spans_of mk fs" using m2 by simp
    then show ?thesis using ih False m2 lf by simp
  qed
qed simp

lemma spans_of_clear: "spans_of mk (clearEmptySpans ms sps) = clearEmptySpans ms (spans_of mk sps)"
  by (induction sps) (auto simp: clearEmptySpans_def)

lemma spans_of_gap:
  "spans_of mk (map (\<lambda>span. MarkedSpan (smarker span) None None) (filter P sps))
    = map (\<lambda>span. MarkedSpan (smarker span) None None) (filter P (spans_of mk sps))"
  by (induction sps) auto

lemma spans_of_stretched:
  "spans_of mk (stretched ms old1 old2 c k) = stretched ms (spans_of mk old1) (spans_of mk old2) c k"
proof -
  let ?off = "int (length (last (ctext c))) + (if length (ctext c) = 1 then pch (cfrom c) else 0)"
  let ?same = "length (ctext c) = 1" and ?ins = "cmp (cfrom c) (cto c) = 0"
  let ?l0 = "markedSpansAfter ms old2 (pch (cto c)) ?ins"
  let ?f1 = "fixFirst (pch (cfrom c)) ?off ?same ?l0 (markedSpansBefore ms old1 (pch (cfrom c)) ?ins)"
  obtain l f where lf: "fixLast ?off ?same ?l0 ?f1 = (l, f)" by fastforce
  have "fixLast ?off ?same (markedSpansAfter ms (spans_of mk old2) (pch (cto c)) ?ins)
      (fixFirst (pch (cfrom c)) ?off ?same (markedSpansAfter ms (spans_of mk old2) (pch (cto c)) ?ins)
         (markedSpansBefore ms (spans_of mk old1) (pch (cfrom c)) ?ins)) = (spans_of mk l, spans_of mk f)"
    using spans_of_fixLast [OF lf, of mk] by (simp only: spans_of_fixFirst spans_of_before spans_of_after)
  then show ?thesis using lf by (simp add: stretched_def Let_def spans_of_clear spans_of_gap)
qed

section \<open>Where a change moves a marker\<close>

text \<open>
  A change keeps the part of the marker before it, the part after it, or both; a marker at the edge of
  the change takes the side its \<open>inclusiveLeft\<close>, \<open>inclusiveRight\<close> and, for a bookmark,
  \<open>insertLeft\<close> say.
\<close>

definition keptLeft :: "tmarker \<Rightarrow> change \<Rightarrow> pos \<Rightarrow> bool" where
  "keptLeft m c p \<longleftrightarrow> p < cfrom c
     \<or> p = cfrom c \<and> (inclusiveLeft m \<or> bookmark m \<and> (cfrom c \<noteq> cto c \<or> \<not> insertLeft m))"

definition keptRight :: "tmarker \<Rightarrow> change \<Rightarrow> pos \<Rightarrow> bool" where
  "keptRight m c q \<longleftrightarrow> cto c < q
     \<or> q = cto c \<and> (inclusiveRight m \<or> bookmark m \<and> (cfrom c \<noteq> cto c \<or> insertLeft m))"

definition movedFrom :: "tmarker \<Rightarrow> change \<Rightarrow> pos \<Rightarrow> pos" where
  "movedFrom m c p = (if keptLeft m c p then p else adjustForChange p c)"

definition movedTo :: "tmarker \<Rightarrow> change \<Rightarrow> pos \<Rightarrow> pos" where
  "movedTo m c q = (if keptRight m c q then adjustForChange q c else min q (cfrom c))"

definition survives :: "tmarker \<Rightarrow> change \<Rightarrow> pos \<Rightarrow> pos \<Rightarrow> bool" where
  "survives m c p q \<longleftrightarrow> (keptLeft m c p \<or> keptRight m c q) \<and> (movedFrom m c p \<noteq> movedTo m c q \<or> \<not> clearWhenEmpty m)"

text \<open>The ranges that markers have: they are cleared when they become empty, and bookmarks are points.\<close>

definition range_ok :: "tmarker \<Rightarrow> pos \<Rightarrow> pos \<Rightarrow> bool" where
  "range_ok m p q \<longleftrightarrow> p \<le> q \<and> (p = q \<longrightarrow> \<not> clearWhenEmpty m)
     \<and> (bookmark m \<longrightarrow> p = q \<and> \<not> inclusiveLeft m \<and> \<not> inclusiveRight m)"

definition starts :: "tmarker \<Rightarrow> pos \<Rightarrow> pos \<Rightarrow> bool" where
  "starts m p x \<longleftrightarrow> (if inclusiveLeft m then p \<le> x else p < x)"

definition ends :: "tmarker \<Rightarrow> pos \<Rightarrow> pos \<Rightarrow> bool" where
  "ends m q x \<longleftrightarrow> (if inclusiveRight m then x \<le> q else x < q)"

lemma startsBefore_at: "pline p \<le> pline x \<Longrightarrow> startsBefore m (span_at mk p q (pline x)) (pch x) \<longleftrightarrow> starts m p x"
  by (auto simp: startsBefore_def span_at_def starts_def pos_le_iff pos_less_iff)

lemma endsAfter_at: "pline x \<le> pline q \<Longrightarrow> endsAfter m (span_at mk p q (pline x)) (pch x) \<longleftrightarrow> ends m q x"
  by (auto simp: endsAfter_def span_at_def ends_def pos_le_iff pos_less_iff)

text \<open>The spans of the marker before and after the change.\<close>

definition before_span :: "tmarker \<Rightarrow> nat \<Rightarrow> change \<Rightarrow> pos \<Rightarrow> pos \<Rightarrow> mspan" where
  "before_span m mk c p q = MarkedSpan mk (if pline (cfrom c) = pline p then Some (pch p) else None)
     (if ends m q (cfrom c) then None else Some (pch q))"

definition after_span :: "tmarker \<Rightarrow> nat \<Rightarrow> change \<Rightarrow> pos \<Rightarrow> pos \<Rightarrow> mspan" where
  "after_span m mk c p q = MarkedSpan mk (if starts m p (cto c) then None else Some (pch p - pch (cto c)))
     (if pline (cto c) = pline q then Some (pch q - pch (cto c)) else None)"

lemma before_spans:
  assumes "p \<le> q" "m = ms mk"
  shows "markedSpansBefore ms (spans_between mk p q (pline (cfrom c))) (pch (cfrom c)) (cfrom c = cto c)
    = (if keptLeft m c p \<and> pline (cfrom c) \<le> pline q then [before_span m mk c p q] else [])"
proof (cases "pline p \<le> pline (cfrom c) \<and> pline (cfrom c) \<le> pline q")
  case True
  then have st: "startsBefore m (span_at mk p q (pline (cfrom c))) (pch (cfrom c)) \<longleftrightarrow> starts m p (cfrom c)"
    and en: "endsAfter m (span_at mk p q (pline (cfrom c))) (pch (cfrom c)) \<longleftrightarrow> ends m q (cfrom c)"
    using startsBefore_at endsAfter_at by blast+
  have k: "keptLeft m c p \<longleftrightarrow> starts m p (cfrom c)
      \<or> sfrom (span_at mk p q (pline (cfrom c))) = Some (pch (cfrom c)) \<and> bookmark m \<and> (\<not> cfrom c = cto c \<or> \<not> insertLeft m)"
    by (auto simp: keptLeft_def starts_def span_at_def pos.expand)
  have "\<not> ends m q (cfrom c) \<Longrightarrow> pline q = pline (cfrom c)"
    using True by (auto simp: ends_def pos_le_iff pos_less_iff split: if_splits)
  then show ?thesis
    using True st en k assms(2) by (auto simp: spans_between_def before_span_def span_at_def Let_def)
next
  case False
  then show ?thesis
    by (auto simp: spans_between_def keptLeft_def pos_less_iff)
qed

lemma after_spans:
  assumes "p \<le> q" "m = ms mk" "bookmark m \<longrightarrow> p = q"
  shows "markedSpansAfter ms (spans_between mk p q (pline (cto c))) (pch (cto c)) (cfrom c = cto c)
    = (if keptRight m c q \<and> pline p \<le> pline (cto c) then [after_span m mk c p q] else [])"
proof (cases "pline p \<le> pline (cto c) \<and> pline (cto c) \<le> pline q")
  case True
  then have st: "startsBefore m (span_at mk p q (pline (cto c))) (pch (cto c)) \<longleftrightarrow> starts m p (cto c)"
    and en: "endsAfter m (span_at mk p q (pline (cto c))) (pch (cto c)) \<longleftrightarrow> ends m q (cto c)"
    using startsBefore_at endsAfter_at by blast+
  have k: "keptRight m c q \<longleftrightarrow> ends m q (cto c)
      \<or> sfrom (span_at mk p q (pline (cto c))) = Some (pch (cto c)) \<and> bookmark m \<and> (\<not> cfrom c = cto c \<or> insertLeft m)"
    using assms(3) by (auto simp: keptRight_def ends_def span_at_def pos.expand)
  have "\<not> starts m p (cto c) \<Longrightarrow> pline p = pline (cto c)"
    using True by (auto simp: starts_def pos_le_iff pos_less_iff split: if_splits)
  then show ?thesis
    using True st en k assms(2) by (auto simp: spans_between_def after_span_def span_at_def Let_def)
next
  case False
  then show ?thesis
    by (auto simp: spans_between_def keptRight_def pos_less_iff)
qed

lemma stretched_of:
  assumes "ctext c \<noteq> []" "markedSpansBefore ms old1 (pch (cfrom c)) (cfrom c = cto c) = fs"
    "markedSpansAfter ms old2 (pch (cto c)) (cfrom c = cto c) = ls"
    "fixLast (pch (changeEnd c)) (length (ctext c) = 1) ls (fixFirst (pch (cfrom c)) (pch (changeEnd c)) (length (ctext c) = 1) ls fs) = (l, f)"
  shows "stretched ms old1 old2 c k =
    (if k = 0 then clearEmptySpans ms f
     else if k < length (ctext c) - 1 then
       map (\<lambda>span. MarkedSpan (smarker span) None None) (filter (\<lambda>span. sto span = None) (clearEmptySpans ms f))
     else clearEmptySpans ms l)"
  using assms by (simp add: stretched_def Let_def changeEnd_coords)

lemma both_sides:
  assumes "cfrom c \<le> cto c" "range_ok m p q" "keptLeft m c p" "keptRight m c q"
  shows "ends m q (cfrom c)" "starts m p (cto c)" "\<not> bookmark m"
  using assms
  by (auto simp: keptLeft_def keptRight_def range_ok_def ends_def starts_def)

lemma clearEmpty_one:
  "clearEmptySpans ms [sp] = (if sfrom sp \<noteq> None \<and> sfrom sp = sto sp \<and> clearWhenEmpty (ms (smarker sp)) then [] else [sp])"
  by (auto simp: clearEmptySpans_def)

lemma spans_between_at: "pline p \<le> n \<Longrightarrow> n \<le> pline q \<Longrightarrow> spans_between mk p q n = [span_at mk p q n]"
  by (simp add: spans_between_def)

text \<open>Where a later position goes.\<close>

lemma adjust_after_coords:
  assumes "cfrom c \<le> cto c" "cto c < x" "ctext c \<noteq> []"
  shows "pline (adjustForChange x c) = pline (changeEnd c) + (pline x - pline (cto c))"
    "pch (adjustForChange x c) = (if pline x = pline (cto c) then pch (changeEnd c) + (pch x - pch (cto c)) else pch x)"
proof -
  have "\<not> x < cfrom c" "\<not> x \<le> cto c" using assms by auto
  then show "pline (adjustForChange x c) = pline (changeEnd c) + (pline x - pline (cto c))"
    "pch (adjustForChange x c) = (if pline x = pline (cto c) then pch (changeEnd c) + (pch x - pch (cto c)) else pch x)"
    using assms(3) by (simp_all add: adjustForChange_def Let_def changeEnd_coords(1))
qed

lemma movedTo_right:
  assumes "cfrom c \<le> cto c" "ctext c \<noteq> []" "keptRight m c q"
  shows "pline (movedTo m c q) = pline (changeEnd c) + (pline q - pline (cto c))" "pline (cto c) \<le> pline q"
    "pch (movedTo m c q) = (if pline q = pline (cto c) then pch (changeEnd c) + (pch q - pch (cto c)) else pch q)"
proof -
  have "movedTo m c q = adjustForChange q c" using assms(3) by (simp add: movedTo_def)
  moreover have "cto c < q \<or> q = cto c" using assms(3) by (auto simp: keptRight_def)
  then have "pline (adjustForChange q c) = pline (changeEnd c) + (pline q - pline (cto c)) \<and> pline (cto c) \<le> pline q
    \<and> pch (adjustForChange q c) = (if pline q = pline (cto c) then pch (changeEnd c) + (pch q - pch (cto c)) else pch q)"
  proof
    assume "cto c < q"
    then show ?thesis using adjust_after_coords [OF assms(1) _ assms(2)] by (auto simp: pos_less_iff)
  next
    assume "q = cto c"
    then show ?thesis using adjust_inside [of c q] assms(1) by simp
  qed
  ultimately show "pline (movedTo m c q) = pline (changeEnd c) + (pline q - pline (cto c))" "pline (cto c) \<le> pline q"
    "pch (movedTo m c q) = (if pline q = pline (cto c) then pch (changeEnd c) + (pch q - pch (cto c)) else pch q)"
    by simp_all
qed

lemma movedFrom_right:
  assumes "cfrom c \<le> cto c" "ctext c \<noteq> []" "range_ok m p q" "\<not> keptLeft m c p" "keptRight m c q"
  shows "starts m p (cto c) \<Longrightarrow> movedFrom m c p = changeEnd c"
    "\<not> starts m p (cto c) \<Longrightarrow> pline (movedFrom m c p) = pline (changeEnd c) + (pline p - pline (cto c))"
    "\<not> starts m p (cto c) \<Longrightarrow>
      pch (movedFrom m c p) = (if pline p = pline (cto c) then pch (changeEnd c) + (pch p - pch (cto c)) else pch p)"
proof -
  have ge: "cfrom c \<le> p" using assms(4) by (auto simp: keptLeft_def)
  have mv: "movedFrom m c p = adjustForChange p c" using assms(4) by (simp add: movedFrom_def)
  show "movedFrom m c p = changeEnd c" if "starts m p (cto c)"
    using ge that adjust_inside [of c p] by (simp add: mv starts_def split: if_splits)
  assume "\<not> starts m p (cto c)"
  then have "cto c < p \<or> p = cto c" by (auto simp: starts_def split: if_splits)
  then have "pline (adjustForChange p c) = pline (changeEnd c) + (pline p - pline (cto c))
    \<and> pch (adjustForChange p c) = (if pline p = pline (cto c) then pch (changeEnd c) + (pch p - pch (cto c)) else pch p)"
  proof
    assume "cto c < p"
    then show ?thesis using adjust_after_coords [OF assms(1) _ assms(2)] by simp
  next
    assume "p = cto c"
    then show ?thesis using adjust_inside [of c p] assms(1) by simp
  qed
  then show "pline (movedFrom m c p) = pline (changeEnd c) + (pline p - pline (cto c))"
    "pch (movedFrom m c p) = (if pline p = pline (cto c) then pch (changeEnd c) + (pch p - pch (cto c)) else pch p)"
    by (simp_all add: mv)
qed

text \<open>The spans that the change leaves, by the sides of the marker that it keeps.\<close>

lemma fixFirst_nil [simp]: "fixFirst ch off same ls [] = []"
  by (simp add: fixFirst_def)

lemma stretched_left:
  assumes c: "cfrom c \<le> cto c" "ctext c \<noteq> []" and r: "range_ok m p q" and m: "m = ms mk"
    and kl: "keptLeft m c p" and kr: "\<not> keptRight m c q" and k: "k < length (ctext c)"
  shows "stretched ms (spans_between mk p q (pline (cfrom c))) (spans_between mk p q (pline (cto c))) c k
    = (if survives m c p q then spans_between mk (movedFrom m c p) (movedTo m c q) (pline (cfrom c) + int k) else [])"
proof -
  have pq: "p \<le> q" "bookmark m \<longrightarrow> p = q" "p = q \<longrightarrow> \<not> clearWhenEmpty m" using r by (auto simp: range_ok_def)
  have pA: "p \<le> cfrom c" using kl by (auto simp: keptLeft_def)
  have mv: "movedFrom m c p = p" "movedTo m c q = min q (cfrom c)" using kl kr by (simp_all add: movedFrom_def movedTo_def)
  note fs = before_spans [of p q m ms mk c, OF pq(1) m] and ls = after_spans [of p q m ms mk c, OF pq(1) m pq(2)]
  have en: "ends m q (cfrom c) \<Longrightarrow> cfrom c \<le> q" "\<not> ends m q (cfrom c) \<Longrightarrow> q \<le> cfrom c"
    by (auto simp: ends_def split: if_splits)
  show ?thesis
  proof (cases "pline (cfrom c) \<le> pline q")
    case True
    let ?sp = "(before_span m mk c p q)\<lparr>sto := Some (pch (min q (cfrom c)))\<rparr>"
    have to: "pline (min q (cfrom c)) = pline (cfrom c)"
      using True by (auto simp: min_def pos_le_iff)
    have "fixLast (pch (changeEnd c)) (length (ctext c) = 1) [] (fixFirst (pch (cfrom c)) (pch (changeEnd c))
        (length (ctext c) = 1) [] [before_span m mk c p q]) = ([], [?sp])"
      using en by (auto simp: fixFirst_def before_span_def min_def)
    then have "stretched ms (spans_between mk p q (pline (cfrom c))) (spans_between mk p q (pline (cto c))) c k
      = (if k = 0 then clearEmptySpans ms [?sp] else [])"
      using True kl kr k c(2) by (subst stretched_of [OF c(2) fs ls]) (auto simp: clearEmpty_one clearEmptySpans_def)
    moreover have "clearEmptySpans ms [?sp] = (if survives m c p q then [span_at mk p (min q (cfrom c)) (pline (cfrom c))] else [])"
      using to kl by (auto simp: m [symmetric] clearEmpty_one before_span_def span_at_def survives_def mv pos.expand)
    moreover have "pline p \<le> pline (cfrom c)" using pA by (auto simp: pos_le_iff)
    ultimately show ?thesis using to by (auto simp: mv spans_between_def)
  next
    case False
    then have "stretched ms (spans_between mk p q (pline (cfrom c))) (spans_between mk p q (pline (cto c))) c k = []"
      using kr k c(2) by (subst stretched_of [OF c(2) fs ls]) (auto simp: clearEmptySpans_def)
    then show ?thesis using False by (auto simp: mv spans_between_def min_def pos_le_iff)
  qed
qed

lemma stretched_right:
  assumes c: "cfrom c \<le> cto c" "ctext c \<noteq> []" and r: "range_ok m p q" and m: "m = ms mk"
    and kl: "\<not> keptLeft m c p" and kr: "keptRight m c q" and k: "k < length (ctext c)"
  shows "stretched ms (spans_between mk p q (pline (cfrom c))) (spans_between mk p q (pline (cto c))) c k
    = (if survives m c p q then spans_between mk (movedFrom m c p) (movedTo m c q) (pline (cfrom c) + int k) else [])"
proof -
  have pq: "p \<le> q" "bookmark m \<longrightarrow> p = q" using r by (auto simp: range_ok_def)
  note fs = before_spans [of p q m ms mk c, OF pq(1) m] and ls = after_spans [of p q m ms mk c, OF pq(1) m pq(2)]
  note mf = movedFrom_right [OF c r kl kr] and mt = movedTo_right [OF c kr]
  have e: "pline (changeEnd c) = pline (cfrom c) + int (length (ctext c)) - 1" by (rule changeEnd_coords(1) [OF c(2)])
  have st: "\<not> starts m p (cto c) \<Longrightarrow> cto c \<le> p" "starts m p (cto c) \<Longrightarrow> p \<le> cto c"
    by (auto simp: starts_def split: if_splits)
  show ?thesis
  proof (cases "pline p \<le> pline (cto c)")
    case True
    let ?sp = "span_at mk (movedFrom m c p) (movedTo m c q) (pline (changeEnd c))"
    have fl: "pline (movedFrom m c p) = pline (changeEnd c)"
    proof (cases "starts m p (cto c)")
      case False
      then show ?thesis using True st(1) mf(2) by (auto simp: pos_le_iff)
    qed (simp add: mf)
    have "pch (movedFrom m c p) = (if starts m p (cto c) then pch (changeEnd c) else pch p - pch (cto c) + pch (changeEnd c))"
      using mf st(1) True by (auto simp: pos_le_iff)
    then have fixed: "fixLast (pch (changeEnd c)) (length (ctext c) = 1) [after_span m mk c p q] []
        = ([?sp], if length (ctext c) = 1 then [?sp] else [])"
      using fl mt by (auto simp: after_span_def span_at_def Let_def MarkedSpan_def)
    obtain n where n: "length (ctext c) = Suc n" using c(2) by (cases "ctext c") auto
    have "markedSpansBefore ms (spans_between mk p q (pline (cfrom c))) (pch (cfrom c)) (cfrom c = cto c) = []"
      "markedSpansAfter ms (spans_between mk p q (pline (cto c))) (pch (cto c)) (cfrom c = cto c) = [after_span m mk c p q]"
      using fs ls True kl kr by simp_all
    from stretched_of [OF c(2) this, unfolded fixFirst_nil, OF fixed]
    have "stretched ms (spans_between mk p q (pline (cfrom c))) (spans_between mk p q (pline (cto c))) c k
      = (if k = length (ctext c) - 1 then clearEmptySpans ms [?sp] else [])"
      using k n by (auto simp: clearEmptySpans_def)
    moreover have "clearEmptySpans ms [?sp] = (if survives m c p q then [?sp] else [])"
      using fl kr by (auto simp: m [symmetric] clearEmpty_one span_at_def survives_def pos.expand)
    moreover have "pline (cfrom c) + int k = pline (changeEnd c) \<longleftrightarrow> k = length (ctext c) - 1"
      "pline (cfrom c) + int k \<le> pline (changeEnd c)" "pline (changeEnd c) \<le> pline (movedTo m c q)" using e k mt by auto
    ultimately show ?thesis using fl by (auto simp: spans_between_def)
  next
    case False
    then have "stretched ms (spans_between mk p q (pline (cfrom c))) (spans_between mk p q (pline (cto c))) c k = []"
      using kl k c(2) by (subst stretched_of [OF c(2) fs ls]) (auto simp: clearEmptySpans_def)
    moreover have ns: "\<not> starts m p (cto c)" using False st(2) by (auto simp: pos_le_iff)
    moreover have "pline (changeEnd c) < pline (movedFrom m c p)" using False mf(2) [OF ns] by simp
    ultimately show ?thesis using e k by (auto simp: spans_between_def)
  qed
qed

lemma stretched_both:
  assumes c: "cfrom c \<le> cto c" "ctext c \<noteq> []" and r: "range_ok m p q" and m: "m = ms mk"
    and kl: "keptLeft m c p" and kr: "keptRight m c q" and k: "k < length (ctext c)"
  shows "stretched ms (spans_between mk p q (pline (cfrom c))) (spans_between mk p q (pline (cto c))) c k
    = (if survives m c p q then spans_between mk (movedFrom m c p) (movedTo m c q) (pline (cfrom c) + int k) else [])"
proof -
  have pq: "p \<le> q" "bookmark m \<longrightarrow> p = q" using r by (auto simp: range_ok_def)
  note es = both_sides [OF c(1) r kl kr] and mt = movedTo_right [OF c kr]
  have mf: "movedFrom m c p = p" using kl by (simp add: movedFrom_def)
  have e: "pline (changeEnd c) = pline (cfrom c) + int (length (ctext c)) - 1" by (rule changeEnd_coords(1) [OF c(2)])
  have lines: "pline p \<le> pline (cfrom c)" "pline p \<le> pline (cto c)" "pline (cfrom c) \<le> pline q"
    using c(1) kl kr mt(2) by (auto simp: keptLeft_def pos_le_iff pos_less_iff)
  obtain n where n: "length (ctext c) = Suc n" using c(2) by (cases "ctext c") auto
  let ?f = "span_at mk p (movedTo m c q) (pline (cfrom c))"
  let ?l = "MarkedSpan mk None (if pline (cto c) = pline q then Some (pch (movedTo m c q)) else None)"
  have fs: "markedSpansBefore ms (spans_between mk p q (pline (cfrom c))) (pch (cfrom c)) (cfrom c = cto c) = [before_span m mk c p q]"
    using before_spans [of p q m ms mk c, OF pq(1) m] kl lines by simp
  have ls: "markedSpansAfter ms (spans_between mk p q (pline (cto c))) (pch (cto c)) (cfrom c = cto c) = [after_span m mk c p q]"
    using after_spans [of p q m ms mk c, OF pq(1) m pq(2)] kr lines by simp
  have fixed: "fixLast (pch (changeEnd c)) (length (ctext c) = 1) [after_span m mk c p q]
      (fixFirst (pch (cfrom c)) (pch (changeEnd c)) (length (ctext c) = 1) [after_span m mk c p q] [before_span m mk c p q])
    = ([?l], [?f])"
    using es mt lines e n
    by (auto simp: after_span_def before_span_def span_at_def fixFirst_def Let_def MarkedSpan_def)
  have s: "stretched ms (spans_between mk p q (pline (cfrom c))) (spans_between mk p q (pline (cto c))) c k
    = (if k = 0 then clearEmptySpans ms [?f]
     else if k < n then map (\<lambda>span. MarkedSpan (smarker span) None None) (filter (\<lambda>span. sto span = None) (clearEmptySpans ms [?f]))
     else clearEmptySpans ms [?l])"
    using stretched_of [OF c(2) fs ls fixed] n by simp
  have "pline (cfrom c) \<le> pline (movedTo m c q)" using mt e n by simp
  then have cf: "clearEmptySpans ms [?f] = (if survives m c p q then [?f] else [])"
    using kl mf lines by (auto simp: m [symmetric] clearEmpty_one span_at_def survives_def pos.expand)
  have cl: "clearEmptySpans ms [?l] = [?l]" by (simp add: clearEmpty_one)
  have "survives m c p q" if "0 < n"
    using that e n mt lines mf kl by (auto simp: survives_def)
  moreover have "pline (movedTo m c q) = pline (cfrom c) + int n + (pline q - pline (cto c))" using mt e n by simp
  ultimately show ?thesis
    unfolding s cf cl using k n mt(2) mf lines
    by (auto simp: spans_between_def span_at_def not_less less_Suc_eq)
qed

lemma stretched_none:
  assumes c: "cfrom c \<le> cto c" "ctext c \<noteq> []" and r: "range_ok m p q" and m: "m = ms mk"
    and kl: "\<not> keptLeft m c p" and kr: "\<not> keptRight m c q"
  shows "stretched ms (spans_between mk p q (pline (cfrom c))) (spans_between mk p q (pline (cto c))) c k = []"
proof -
  have pq: "p \<le> q" "bookmark m \<longrightarrow> p = q" using r by (auto simp: range_ok_def)
  have fs: "markedSpansBefore ms (spans_between mk p q (pline (cfrom c))) (pch (cfrom c)) (cfrom c = cto c) = []"
    and ls: "markedSpansAfter ms (spans_between mk p q (pline (cto c))) (pch (cto c)) (cfrom c = cto c) = []"
    using before_spans [of p q m ms mk c, OF pq(1) m] after_spans [of p q m ms mk c, OF pq(1) m pq(2)] kl kr by simp_all
  show ?thesis using stretched_of [OF c(2) fs ls, of "[]" "[]"] by (simp add: clearEmptySpans_def)
qed

lemma stretched_spans:
  assumes "cfrom c \<le> cto c" "ctext c \<noteq> []" "range_ok m p q" "m = ms mk" "k < length (ctext c)"
  shows "stretched ms (spans_between mk p q (pline (cfrom c))) (spans_between mk p q (pline (cto c))) c k
    = (if survives m c p q then spans_between mk (movedFrom m c p) (movedTo m c q) (pline (cfrom c) + int k) else [])"
proof -
  consider "keptLeft m c p" "keptRight m c q" | "keptLeft m c p" "\<not> keptRight m c q"
    | "\<not> keptLeft m c p" "keptRight m c q" | "\<not> keptLeft m c p" "\<not> keptRight m c q" by blast
  then show ?thesis
  proof cases
    case 1
    show ?thesis by (rule stretched_both) (fact assms 1)+
  next
    case 2
    show ?thesis by (rule stretched_left) (fact assms 2)+
  next
    case 3
    show ?thesis by (rule stretched_right) (fact assms 3)+
  next
    case 4
    have "\<not> survives m c p q" using 4 by (simp add: survives_def)
    then show ?thesis using stretched_none [of c m p q ms mk k, OF assms(1-4) 4] by simp
  qed
qed

section \<open>Finding a marker\<close>

lemma covers_line:
  "covers d mk p q \<Longrightarrow> k < length (doc_lines d) \<Longrightarrow> spans_of mk (lspans (doc_lines d ! k)) = spans_between mk p q (first d + int k)"
  by (simp add: covers_def covers_in_def contents_def)

lemma getMarkedSpanFor_hd: "getMarkedSpanFor sps mk = (case spans_of mk sps of [] \<Rightarrow> None | sp # _ \<Rightarrow> Some sp)"
  by (induction sps) simp_all

text \<open>The lines that a marker has spans on.\<close>

lemma set_at_lines: "set_mset (at_lines ls mk) = lid ` {l \<in> set ls. spans_of mk (lspans l) \<noteq> []}"
  by (induction ls) auto

lemma set_mlines:
  "linked d [] \<Longrightarrow> set (mlines (markers d mk)) = lid ` {l \<in> set (doc_lines d). spans_of mk (lspans l) \<noteq> []}"
  unfolding linked_def by (metis add.right_neutral at_lines.simps(1) set_at_lines set_mset_mset)

lemma mlines_gone: "linked d [] \<Longrightarrow> gone d mk \<Longrightarrow> mlines (markers d mk) = []"
proof -
  assume l: "linked d []" and "gone d mk"
  have e: "{l \<in> set (doc_lines d). spans_of mk (lspans l) \<noteq> []} = {}"
    using \<open>gone d mk\<close> by (auto simp: gone_def contents_def in_set_conv_nth)
  have "set (mlines (markers d mk)) = {}" unfolding set_mlines [OF l] e by simp
  then show ?thesis by simp
qed

definition in_doc :: "doc \<Rightarrow> pos \<Rightarrow> pos \<Rightarrow> bool" where
  "in_doc d p q \<longleftrightarrow> p \<le> q \<and> first d \<le> pline p \<and> pline q < first d + int (length (doc_lines d))"

lemma findLoop_covers:
  assumes d: "wf_doc d" and cv: "covers d mk p q" and r: "in_doc d p q"
    and "\<forall>i\<in>set is. \<exists>k<length (doc_lines d). i = lid (doc_lines d ! k) \<and> pline p \<le> first d + int k \<and> first d + int k \<le> pline q"
  defines "idp \<equiv> lid (doc_lines d ! line_index d (pline p))" and "idq \<equiv> lid (doc_lines d ! line_index d (pline q))"
  shows "findLoop d mk 0 is f t = Some (if idp \<in> set is then Some (idp, pch p) else f, if idq \<in> set is then Some (idq, pch q) else t)"
  using assms(4)
proof (induction "is" arbitrary: f t)
  case (Cons i "is")
  obtain k where k: "k < length (doc_lines d)" "i = lid (doc_lines d ! k)" "pline p \<le> first d + int k" "first d + int k \<le> pline q"
    using Cons.prems by auto
  have sp: "getMarkedSpanFor (lspans (doc_lines d ! k)) mk = Some (span_at mk p q (first d + int k))"
    using covers_line [OF cv k(1)] k by (simp add: getMarkedSpanFor_hd spans_between_def)
  have dist: "distinct (map lid (doc_lines d))" using d by (simp add: wf_doc_def)
  have ends: "line_index d (pline p) < length (doc_lines d)" "line_index d (pline q) < length (doc_lines d)"
    using r by (auto simp: in_doc_def line_index_def pos_le_iff)
  have "i = idp \<longleftrightarrow> first d + int k = pline p"
    using nth_eq_iff_index_eq [OF dist, of k "line_index d (pline p)"] k ends r
    by (auto simp: idp_def line_index_def in_doc_def)
  moreover have "i = idq \<longleftrightarrow> first d + int k = pline q"
    using nth_eq_iff_index_eq [OF dist, of k "line_index d (pline q)"] k ends r
    by (auto simp: idq_def line_index_def in_doc_def pos_le_iff)
  ultimately show ?case
    using Cons.IH Cons.prems lineById_nth [OF d k(1)] k(2) sp by (auto simp: span_at_def)
qed simp

lemma toPos_line:
  assumes "wf_doc d" "first d \<le> n" "n < first d + int (length (doc_lines d))"
  shows "toPos d (lid (doc_lines d ! line_index d n), ch) = Some (Pos n ch)"
proof -
  have t: "consistent (root d)" "distinct (map lid (collapse (root d)))" using assms(1) by (auto simp: wf_doc_def wf_tree_def doc_lines_def)
  have "line_index d n < length (doc_lines d)" using assms by (auto simp: line_index_def)
  then have "index_of_line (lid (doc_lines d ! line_index d n)) (collapse (root d)) = Some (line_index d n)"
    using index_of_line_nth [OF t(2)] by (simp add: doc_lines_def)
  then show ?thesis
    using assms lineNo_index [OF t(1)] by (simp add: toPos_def lineNoOf_def line_index_def)
qed

lemma findBoth_covers:
  assumes d: "wf_doc d" and l: "linked d []" and cv: "covers d mk p q" and r: "in_doc d p q"
  shows "findBoth d mk = Some (p, q)"
proof -
  have span: "spans_of mk (lspans (doc_lines d ! k)) \<noteq> [] \<longleftrightarrow> pline p \<le> first d + int k \<and> first d + int k \<le> pline q"
    if "k < length (doc_lines d)" for k
    using covers_line [OF cv that] by (simp add: spans_between_def)
  have ids: "set (mlines (markers d mk))
      = {lid (doc_lines d ! k) |k. k < length (doc_lines d) \<and> pline p \<le> first d + int k \<and> first d + int k \<le> pline q}"
    unfolding set_mlines [OF l] using span by (auto simp: in_set_conv_nth image_def)
  have at: "line_index d (pline p) < length (doc_lines d)" "line_index d (pline q) < length (doc_lines d)"
    "first d + int (line_index d (pline p)) = pline p" "first d + int (line_index d (pline q)) = pline q" "pline p \<le> pline q"
    using r by (auto simp: in_doc_def line_index_def pos_le_iff)
  then have "lid (doc_lines d ! line_index d (pline p)) \<in> set (mlines (markers d mk))"
    "lid (doc_lines d ! line_index d (pline q)) \<in> set (mlines (markers d mk))"
    unfolding ids by auto
  moreover have "\<forall>i\<in>set (mlines (markers d mk)).
      \<exists>k<length (doc_lines d). i = lid (doc_lines d ! k) \<and> pline p \<le> first d + int k \<and> first d + int k \<le> pline q"
    unfolding ids by auto
  ultimately have "findLoop d mk 0 (mlines (markers d mk)) None None
      = Some (Some (lid (doc_lines d ! line_index d (pline p)), pch p), Some (lid (doc_lines d ! line_index d (pline q)), pch q))"
    using findLoop_covers [OF d cv r] by simp
  moreover have "toPos d (lid (doc_lines d ! line_index d (pline p)), pch p) = Some p"
    "toPos d (lid (doc_lines d ! line_index d (pline q)), pch q) = Some q"
    using toPos_line [OF d, of "pline p"] toPos_line [OF d, of "pline q"] r by (auto simp: in_doc_def pos_le_iff pos.expand)
  ultimately show ?thesis by (simp add: findBoth_def)
qed

lemma findBoth_gone: "linked d [] \<Longrightarrow> gone d mk \<Longrightarrow> findBoth d mk = None"
  by (simp add: findBoth_def mlines_gone)

section \<open>Markers follow the text\<close>

lemma spans_replaced:
  fixes j
  assumes d: "wf_doc d" and c: "change_ok d c" and j: "j < length (replaced_contents d c sp)"
  defines "a \<equiv> line_index d (pline (cfrom c))" and "b \<equiv> line_index d (pline (cto c))"
  shows "snd (replaced_contents d c sp ! j) =
      (if j < a then lspans (doc_lines d ! j)
       else if j < a + length (ctext c) then spansFor sp (j - a)
       else lspans (doc_lines d ! (j + Suc b - a - length (ctext c))))"
    "length (replaced_contents d c sp) + Suc b = length (doc_lines d) + a + length (ctext c)" "a \<le> b"
    "b < length (doc_lines d)"
    "pline (cfrom c) = first d + int a" "pline (cto c) = first d + int b"
proof -
  have pf: "pos_ok d (cfrom c)" and pt: "pos_ok d (cto c)" and ne: "ctext c \<noteq> []" and le: "cfrom c \<le> cto c"
    using c by (auto simp: change_ok_def)
  note lf = pos_ok_line [OF d pf, folded a_def] and lt = pos_ok_line [OF d pt, folded b_def]
  show l: "pline (cfrom c) = first d + int a" "pline (cto c) = first d + int b" using lf(3) lt(3) by simp_all
  show ab: "a \<le> b" using le l by (auto simp: pos_le_iff)
  show bl: "b < length (doc_lines d)" by (rule lt(1))
  define g where "g = glue (take (nat (pch (cfrom c))) (fst (contents d ! a))) (ctext c) (drop (nat (pch (cto c))) (fst (contents d ! b)))"
  have r: "replaced_contents d c sp = take a (contents d) @ zip g (map (spansFor sp) [0..<length (ctext c)]) @ drop (Suc b) (contents d)"
    by (simp add: replaced_contents_def Let_def a_def b_def g_def)
  have gl: "length g = length (ctext c)" using ne by (simp add: g_def glue_length)
  show len: "length (replaced_contents d c sp) + Suc b = length (doc_lines d) + a + length (ctext c)"
    using ab bl gl by (simp add: r)
  consider "j < a" | "a \<le> j" "j < a + length (ctext c)" | "a + length (ctext c) \<le> j" by linarith
  then show "snd (replaced_contents d c sp ! j) =
      (if j < a then lspans (doc_lines d ! j)
       else if j < a + length (ctext c) then spansFor sp (j - a)
       else lspans (doc_lines d ! (j + Suc b - a - length (ctext c))))"
  proof cases
    case 1
    then show ?thesis using ab bl by (simp add: r nth_append contents_def)
  next
    case 2
    then have "j - a < length (ctext c)" by simp
    with 2 show ?thesis using ab bl gl by (simp add: r nth_append)
  next
    case 3
    have i: "j + Suc b - a - length (ctext c) < length (doc_lines d)" using j len 3 by simp
    have "j - a - length (ctext c) + Suc b = j + Suc b - a - length (ctext c)" using 3 by simp
    moreover have "\<not> j - a < length (ctext c)" using 3 by linarith
    ultimately have "replaced_contents d c sp ! j = contents d ! (j + Suc b - a - length (ctext c))"
      using 3 ab bl gl by (simp add: r nth_append add.commute)
    then show ?thesis using 3 i by (simp add: contents_def)
  qed
qed

lemma spansFor_change:
  assumes d: "wf_doc d" and c: "change_ok d c" and cv: "covers d mk p q" and r: "range_ok (markers d mk) p q"
    and k: "k < length (ctext c)"
  shows "spans_of mk (spansFor (stretchSpansOverChange d c) k)
    = (if survives (markers d mk) c p q
       then spans_between mk (movedFrom (markers d mk) c p) (movedTo (markers d mk) c q) (pline (cfrom c) + int k) else [])"
proof -
  have pf: "pos_ok d (cfrom c)" and pt: "pos_ok d (cto c)" and ne: "ctext c \<noteq> []" and le: "cfrom c \<le> cto c"
    using c by (auto simp: change_ok_def)
  note at = pos_ok_line [OF d pf] pos_ok_line [OF d pt]
  have "spans_of mk (lineSpans d (pline (cfrom c))) = spans_between mk p q (pline (cfrom c))"
    "spans_of mk (lineSpans d (pline (cto c))) = spans_between mk p q (pline (cto c))"
    using covers_line [OF cv] at lineSpans_at [OF d pf] lineSpans_at [OF d pt] by simp_all
  then show ?thesis
    using lineSpans_at [OF d pf] lineSpans_at [OF d pt] stretched_spans [of c "markers d mk" p q "markers d" mk k, OF le ne r refl k]
    by (simp add: stretchSpansOverChange_def stretchSpans_nth [OF ne k] spans_of_stretched)
qed

text \<open>Lines before the change keep their numbers; the lines after it move with its end.\<close>

lemma movedFrom_lines:
  assumes c: "cfrom c \<le> cto c" "ctext c \<noteq> []" and r: "range_ok m p q" and k: "keptLeft m c p \<or> keptRight m c q"
  shows "n < pline (cfrom c) \<Longrightarrow> (pline (movedFrom m c p) \<le> n \<longleftrightarrow> pline p \<le> n) \<and> (pline p \<le> n \<longrightarrow> movedFrom m c p = p)"
    "pline (cto c) < n \<Longrightarrow>
      (pline (movedFrom m c p) \<le> n - pline (cto c) + pline (changeEnd c) \<longleftrightarrow> pline p \<le> n)
      \<and> (pline (movedFrom m c p) = n - pline (cto c) + pline (changeEnd c) \<longleftrightarrow> pline p = n)
      \<and> (pline p = n \<longrightarrow> pch (movedFrom m c p) = pch p)"
proof -
  have e: "pline (cfrom c) \<le> pline (changeEnd c)" using changeEnd_coords(1) [OF c(2)] c(2) by (cases "ctext c") auto
  have AB: "pline (cfrom c) \<le> pline (cto c)" using c(1) by (auto simp: pos_le_iff)
  note mf = movedFrom_right [OF c r]
  have st: "\<not> starts m p (cto c) \<Longrightarrow> pline (cto c) \<le> pline p" "starts m p (cto c) \<Longrightarrow> pline p \<le> pline (cto c)"
    by (auto simp: starts_def pos_le_iff pos_less_iff split: if_splits)
  have "(n < pline (cfrom c) \<longrightarrow> (pline (movedFrom m c p) \<le> n \<longleftrightarrow> pline p \<le> n) \<and> (pline p \<le> n \<longrightarrow> movedFrom m c p = p)) \<and>
    (pline (cto c) < n \<longrightarrow>
      (pline (movedFrom m c p) \<le> n - pline (cto c) + pline (changeEnd c) \<longleftrightarrow> pline p \<le> n)
      \<and> (pline (movedFrom m c p) = n - pline (cto c) + pline (changeEnd c) \<longleftrightarrow> pline p = n)
      \<and> (pline p = n \<longrightarrow> pch (movedFrom m c p) = pch p))"
  proof (cases "keptLeft m c p")
    case True
    then have "movedFrom m c p = p" "pline p \<le> pline (cfrom c)" by (auto simp: movedFrom_def keptLeft_def pos_less_iff)
    then show ?thesis using e AB by auto
  next
    case False
    then have kr: "keptRight m c q" and p: "pline (cfrom c) \<le> pline p" using k by (auto simp: keptLeft_def pos_less_iff)
    show ?thesis
    proof (cases "starts m p (cto c)")
      case True
      then show ?thesis using mf(1) [OF False kr True] st(2) [OF True] p e AB by auto
    next
      case ns: False
      show ?thesis using mf(2,3) [OF False kr ns] st(1) [OF ns] p e AB by auto
    qed
  qed
  then show "n < pline (cfrom c) \<Longrightarrow> (pline (movedFrom m c p) \<le> n \<longleftrightarrow> pline p \<le> n) \<and> (pline p \<le> n \<longrightarrow> movedFrom m c p = p)"
    "pline (cto c) < n \<Longrightarrow>
      (pline (movedFrom m c p) \<le> n - pline (cto c) + pline (changeEnd c) \<longleftrightarrow> pline p \<le> n)
      \<and> (pline (movedFrom m c p) = n - pline (cto c) + pline (changeEnd c) \<longleftrightarrow> pline p = n)
      \<and> (pline p = n \<longrightarrow> pch (movedFrom m c p) = pch p)"
    by blast+
qed

lemma movedTo_lines:
  assumes c: "cfrom c \<le> cto c" "ctext c \<noteq> []"
  shows "n < pline (cfrom c) \<Longrightarrow> (n \<le> pline (movedTo m c q) \<longleftrightarrow> n \<le> pline q)
      \<and> (n = pline (movedTo m c q) \<longleftrightarrow> n = pline q) \<and> (n = pline q \<longrightarrow> movedTo m c q = q)"
    "pline (cto c) < n \<Longrightarrow>
      (n - pline (cto c) + pline (changeEnd c) \<le> pline (movedTo m c q) \<longleftrightarrow> n \<le> pline q)
      \<and> (pline (movedTo m c q) = n - pline (cto c) + pline (changeEnd c) \<longleftrightarrow> pline q = n)
      \<and> (pline q = n \<longrightarrow> pch (movedTo m c q) = pch q)"
proof -
  have e: "pline (cfrom c) \<le> pline (changeEnd c)" using changeEnd_coords(1) [OF c(2)] c(2) by (cases "ctext c") auto
  have AB: "pline (cfrom c) \<le> pline (cto c)" using c(1) by (auto simp: pos_le_iff)
  have "(n < pline (cfrom c) \<longrightarrow> (n \<le> pline (movedTo m c q) \<longleftrightarrow> n \<le> pline q)
      \<and> (n = pline (movedTo m c q) \<longleftrightarrow> n = pline q) \<and> (n = pline q \<longrightarrow> movedTo m c q = q)) \<and>
    (pline (cto c) < n \<longrightarrow>
      (n - pline (cto c) + pline (changeEnd c) \<le> pline (movedTo m c q) \<longleftrightarrow> n \<le> pline q)
      \<and> (pline (movedTo m c q) = n - pline (cto c) + pline (changeEnd c) \<longleftrightarrow> pline q = n)
      \<and> (pline q = n \<longrightarrow> pch (movedTo m c q) = pch q))"
  proof (cases "keptRight m c q")
    case True
    then show ?thesis using movedTo_right [OF c True] e AB by auto
  next
    case False
    then have "movedTo m c q = min q (cfrom c)" "pline q \<le> pline (cto c)"
      by (auto simp: movedTo_def keptRight_def pos_less_iff)
    then show ?thesis using e AB by (auto simp: min_def pos_le_iff)
  qed
  then show "n < pline (cfrom c) \<Longrightarrow> (n \<le> pline (movedTo m c q) \<longleftrightarrow> n \<le> pline q)
      \<and> (n = pline (movedTo m c q) \<longleftrightarrow> n = pline q) \<and> (n = pline q \<longrightarrow> movedTo m c q = q)"
    "pline (cto c) < n \<Longrightarrow>
      (n - pline (cto c) + pline (changeEnd c) \<le> pline (movedTo m c q) \<longleftrightarrow> n \<le> pline q)
      \<and> (pline (movedTo m c q) = n - pline (cto c) + pline (changeEnd c) \<longleftrightarrow> pline q = n)
      \<and> (pline q = n \<longrightarrow> pch (movedTo m c q) = pch q)"
    by blast+
qed

lemma spans_between_cong:
  assumes "pline p' \<le> n' \<longleftrightarrow> pline p \<le> n" "n' \<le> pline q' \<longleftrightarrow> n \<le> pline q" "pline p' = n' \<longleftrightarrow> pline p = n"
    "pline q' = n' \<longleftrightarrow> pline q = n" "pline p = n \<Longrightarrow> pch p' = pch p" "pline q = n \<Longrightarrow> pch q' = pch q"
  shows "spans_between mk p' q' n' = spans_between mk p q n"
  unfolding spans_between_def span_at_def using assms by (simp add: eq_commute [of n] eq_commute [of n'])

lemma moved_spans:
  assumes c: "cfrom c \<le> cto c" "ctext c \<noteq> []" and r: "range_ok m p q"
  shows "survives m c p q \<Longrightarrow> n < pline (cfrom c) \<Longrightarrow> spans_between mk (movedFrom m c p) (movedTo m c q) n = spans_between mk p q n"
    "survives m c p q \<Longrightarrow> pline (cto c) < n \<Longrightarrow>
      spans_between mk (movedFrom m c p) (movedTo m c q) (n - pline (cto c) + pline (changeEnd c)) = spans_between mk p q n"
    "\<not> survives m c p q \<Longrightarrow> n < pline (cfrom c) \<or> pline (cto c) < n \<Longrightarrow> spans_between mk p q n = []"
proof -
  note F = movedFrom_lines [OF c r] and T = movedTo_lines [OF c, of _ m q]
  show "spans_between mk (movedFrom m c p) (movedTo m c q) n = spans_between mk p q n"
    if "survives m c p q" "n < pline (cfrom c)"
  proof -
    have k: "keptLeft m c p \<or> keptRight m c q" using that by (simp add: survives_def)
    show ?thesis using F(1) [OF k that(2)] T(1) [OF that(2)] by (intro spans_between_cong) auto
  qed
  show "spans_between mk (movedFrom m c p) (movedTo m c q) (n - pline (cto c) + pline (changeEnd c)) = spans_between mk p q n"
    if "survives m c p q" "pline (cto c) < n"
  proof -
    have k: "keptLeft m c p \<or> keptRight m c q" using that by (simp add: survives_def)
    show ?thesis using F(2) [OF k that(2)] T(2) [OF that(2)] by (intro spans_between_cong) blast+
  qed
  assume ns: "\<not> survives m c p q" and n: "n < pline (cfrom c) \<or> pline (cto c) < n"
  have pq: "p = q \<longrightarrow> \<not> clearWhenEmpty m" "pline p \<le> pline q" using r by (auto simp: range_ok_def pos_le_iff)
  show "spans_between mk p q n = []"
  proof (cases "keptLeft m c p \<or> keptRight m c q")
    case False
    then have "cfrom c \<le> p" "q \<le> cto c" by (auto simp: keptLeft_def keptRight_def)
    then show ?thesis using n by (auto simp: spans_between_def pos_le_iff)
  next
    case k: True
    with ns have eq: "movedFrom m c p = movedTo m c q" "clearWhenEmpty m" by (auto simp: survives_def)
    show ?thesis
    proof (rule ccontr)
      assume "\<not> ?thesis"
      then have at: "pline p \<le> n" "n \<le> pline q" by (auto simp: spans_between_def split: if_splits)
      from n have "p = q"
      proof
        assume "n < pline (cfrom c)"
        then show ?thesis using F(1) [OF k] T(1) at eq(1) pq(2) by (metis order_antisym)
      next
        assume n: "pline (cto c) < n"
        have "pline (movedFrom m c p) = n - pline (cto c) + pline (changeEnd c)"
          using F(2) [OF k n] T(2) [OF n] at eq(1) by auto
        then show ?thesis using F(2) [OF k n] T(2) [OF n] eq(1) by (auto simp: pos.expand)
      qed
      then show False using pq(1) eq(2) by simp
    qed
  qed
qed

text \<open>The spans of a marker after the change.\<close>

lemma covers_change:
  assumes d: "wf_doc d" and c: "change_ok d c" and cv: "covers d mk p q" and r: "range_ok (markers d mk) p q"
    and d': "contents d' = replaced_contents d c (stretchSpansOverChange d c)" "first d' = first d"
  shows "survives (markers d mk) c p q \<Longrightarrow> covers d' mk (movedFrom (markers d mk) c p) (movedTo (markers d mk) c q)"
    "\<not> survives (markers d mk) c p q \<Longrightarrow> gone d' mk"
proof -
  define a b where ab: "a = line_index d (pline (cfrom c))" "b = line_index d (pline (cto c))"
  let ?sp = "stretchSpansOverChange d c" and ?m = "markers d mk"
  have ch: "cfrom c \<le> cto c" "ctext c \<noteq> []" using c by (auto simp: change_ok_def)
  note sr = spans_replaced [OF d c, of _ ?sp, folded ab]
  have e: "pline (changeEnd c) = pline (cfrom c) + int (length (ctext c)) - 1" by (rule changeEnd_coords(1) [OF ch(2)])
  have spans: "spans_of mk (snd (contents d' ! j)) =
      (if j < a then spans_between mk p q (first d + int j)
       else if j < a + length (ctext c) then
         (if survives ?m c p q then spans_between mk (movedFrom ?m c p) (movedTo ?m c q) (first d + int j) else [])
       else spans_between mk p q (first d + int (j + Suc b - a - length (ctext c))))" (is "_ = ?R")
    and after: "\<not> j < a + length (ctext c) \<Longrightarrow>
      first d + int (j + Suc b - a - length (ctext c)) - pline (cto c) + pline (changeEnd c) = first d + int j \<and>
      pline (cto c) < first d + int (j + Suc b - a - length (ctext c))"
    and before: "j < a \<Longrightarrow> first d + int j < pline (cfrom c)"
    if j: "j < length (contents d')" for j
  proof -
    note s = sr [OF j [unfolded d'(1)], folded d'(1)]
    show "spans_of mk (snd (contents d' ! j)) = ?R"
    proof -
      consider "j < a" | "\<not> j < a" "j < a + length (ctext c)" | "\<not> j < a" "\<not> j < a + length (ctext c)" by blast
      then show ?thesis
      proof cases
        case 1
        then have "j < length (doc_lines d)" using s(3,4) by simp
        then show ?thesis using s(1) 1 covers_line [OF cv, of j] by simp
      next
        case 2
        then have k: "j - a < length (ctext c)" "pline (cfrom c) + int (j - a) = first d + int j"
          using s(5) by (auto simp: of_nat_diff)
        show ?thesis using s(1) 2 spansFor_change [OF d c cv r k(1)] unfolding k(2) by simp
      next
        case 3
        have "j + Suc b < length (doc_lines d) + a + length (ctext c)" using s(2) j by (metis add.commute add_less_cancel_left)
        then have "j + Suc b - a - length (ctext c) < length (doc_lines d)" using 3 by simp
        then show ?thesis using s(1) 3 covers_line [OF cv, of "j + Suc b - a - length (ctext c)"] by simp
      qed
    qed
    show "\<not> j < a + length (ctext c) \<Longrightarrow>
      first d + int (j + Suc b - a - length (ctext c)) - pline (cto c) + pline (changeEnd c) = first d + int j \<and>
      pline (cto c) < first d + int (j + Suc b - a - length (ctext c))"
      using s(3,5,6) e by (auto simp: of_nat_diff)
    show "j < a \<Longrightarrow> first d + int j < pline (cfrom c)" using s(5) by simp
  qed
  note mv = moved_spans [OF ch r, of _ mk]
  show "covers d' mk (movedFrom ?m c p) (movedTo ?m c q)" if s: "survives ?m c p q"
    unfolding covers_def covers_in_def d'(2)
  proof (intro allI impI)
    fix j assume j: "j < length (contents d')"
    show "spans_of mk (snd (contents d' ! j)) = spans_between mk (movedFrom ?m c p) (movedTo ?m c q) (first d + int j)"
      using spans [OF j] after [OF j] before [OF j] mv(1) [OF s] mv(2) [OF s] s by (metis (no_types, lifting))
  qed
  show "gone d' mk" if s: "\<not> survives ?m c p q"
    unfolding gone_def
  proof (intro allI impI)
    fix j assume j: "j < length (contents d')"
    show "spans_of mk (snd (contents d' ! j)) = []"
      using spans [OF j] after [OF j] before [OF j] mv(3) [OF s] s by (metis (no_types, lifting))
  qed
qed

lemma moved_range_ok:
  assumes c: "cfrom c \<le> cto c" "ctext c \<noteq> []" and r: "range_ok m p q" and s: "survives m c p q"
  shows "range_ok m (movedFrom m c p) (movedTo m c q)"
proof -
  have v: "valid_change c" using c by (simp add: valid_change_def)
  have pq: "p \<le> q" "bookmark m \<longrightarrow> p = q" using r by (auto simp: range_ok_def)
  have kl: "keptLeft m c p \<Longrightarrow> p \<le> cfrom c" by (auto simp: keptLeft_def)
  have "cto c \<le> q \<Longrightarrow> changeEnd c \<le> adjustForChange q c"
    using adjust_mono [OF v, of "cto c" q] adjust_inside [of c "cto c"] c(1) by simp
  then have kr: "keptRight m c q \<Longrightarrow> cfrom c \<le> adjustForChange q c"
    using changeEnd_ge [OF c(2)] by (auto simp: keptRight_def intro: order_trans)
  have "movedFrom m c p \<le> movedTo m c q"
  proof (cases "keptLeft m c p")
    case True
    then show ?thesis using kl kr pq(1) by (auto simp: movedFrom_def movedTo_def)
  next
    case False
    then show ?thesis using s adjust_mono [OF v pq(1)] by (simp add: movedFrom_def movedTo_def survives_def)
  qed
  moreover have "movedFrom m c p = movedTo m c q" if "bookmark m"
  proof -
    have "p = q" "\<not> (keptLeft m c p \<and> keptRight m c q)" using that pq both_sides [OF c(1) r] by auto
    then show ?thesis using s kl by (auto simp: movedFrom_def movedTo_def survives_def min_def)
  qed
  ultimately show ?thesis using r s by (auto simp: range_ok_def survives_def)
qed

lemma moved_in_doc:
  assumes d: "wf_doc d" and c: "change_ok d c" and r: "range_ok m p q" and s: "survives m c p q" and i: "in_doc d p q"
    and d': "contents d' = replaced_contents d c (stretchSpansOverChange d c)" "first d' = first d"
  shows "in_doc d' (movedFrom m c p) (movedTo m c q)"
proof -
  have ch: "cfrom c \<le> cto c" "ctext c \<noteq> []" using c by (auto simp: change_ok_def)
  have k: "keptLeft m c p \<or> keptRight m c q" using s by (simp add: survives_def)
  have "0 < length (contents d')" using ch(2) by (simp add: d'(1) replaced_contents_def Let_def glue_length)
  note sr = spans_replaced(2-6) [OF d c this [unfolded d'(1)], folded d'(1)]
  have e: "pline (changeEnd c) = pline (cfrom c) + int (length (ctext c)) - 1" by (rule changeEnd_coords(1) [OF ch(2)])
  have len: "int (length (doc_lines d')) = int (length (doc_lines d)) + pline (changeEnd c) - pline (cto c)"
    using sr e by simp
  have F: "\<not> pline (movedFrom m c p) \<le> first d - 1" if "first d - 1 < pline (cfrom c)"
    using movedFrom_lines(1) [OF ch r k that] i by (simp add: in_doc_def)
  let ?n = "first d + int (length (doc_lines d))"
  have T: "\<not> ?n - pline (cto c) + pline (changeEnd c) \<le> pline (movedTo m c q)"
    using movedTo_lines(2) [OF ch, of ?n m q] sr i by (simp add: in_doc_def)
  show ?thesis
    using F T moved_range_ok [OF ch r s] len sr d'(2) by (auto simp: in_doc_def range_ok_def)
qed

text \<open>A marker with a range in a document.\<close>

definition marker_at :: "doc \<Rightarrow> nat \<Rightarrow> pos \<Rightarrow> pos \<Rightarrow> bool" where
  "marker_at d mk p q \<longleftrightarrow> covers d mk p q \<and> in_doc d p q \<and> range_ok (markers d mk) p q"

lemma same_flags_range_ok:
  assumes "same_flags ms ms'"
  shows "range_ok (ms' mk) p q = range_ok (ms mk) p q"
proof -
  have "clearWhenEmpty (ms' mk) = clearWhenEmpty (ms mk)" "bookmark (ms' mk) = bookmark (ms mk)"
    "inclusiveLeft (ms' mk) = inclusiveLeft (ms mk)" "inclusiveRight (ms' mk) = inclusiveRight (ms mk)"
    using assms unfolding same_flags_def
    by (metis tmarker.select_convs tmarker.update_convs(13) tmarker.surjective)+
  then show ?thesis by (simp add: range_ok_def)
qed

lemma changed_marker:
  assumes d: "wf_doc d" and c: "change_ok d c" and m: "marker_at d mk p q"
    and d': "contents d' = replaced_contents d c (stretchSpansOverChange d c)" "first d' = first d" "same_flags (markers d) (markers d')"
  shows "survives (markers d mk) c p q \<Longrightarrow> marker_at d' mk (movedFrom (markers d mk) c p) (movedTo (markers d mk) c q)"
    "\<not> survives (markers d mk) c p q \<Longrightarrow> gone d' mk"
proof -
  let ?m = "markers d mk"
  have cm: "covers d mk p q" "in_doc d p q" "range_ok ?m p q" using m by (auto simp: marker_at_def)
  have ch: "cfrom c \<le> cto c" "ctext c \<noteq> []" using c by (auto simp: change_ok_def)
  show "marker_at d' mk (movedFrom ?m c p) (movedTo ?m c q)" if s: "survives ?m c p q"
    unfolding marker_at_def same_flags_range_ok [OF d'(3)]
    using covers_change(1) [OF d c cm(1,3) d'(1,2) s] moved_in_doc [OF d c cm(3) s cm(2) d'(1,2)]
      moved_range_ok [OF ch cm(3) s] by blast
  show "gone d' mk" if s: "\<not> survives ?m c p q"
    by (rule covers_change(2) [OF d c cm(1,3) d'(1,2) s])
qed

lemma updateDoc_marker:
  assumes d: "wf_doc d" "linked d []" and c: "change_ok d c" and m: "marker_at d mk p q"
    and u: "updateDoc d c (stretchSpansOverChange d c) est = Some d'"
  shows "wf_doc d'" "linked d' []"
    "survives (markers d mk) c p q \<Longrightarrow> marker_at d' mk (movedFrom (markers d mk) c p) (movedTo (markers d mk) c q)"
    "\<not> survives (markers d mk) c p q \<Longrightarrow> gone d' mk"
proof -
  obtain d'' where "updateDoc d c (stretchSpansOverChange d c) est = Some d''" "wf_doc d''" "same_frame d d''"
    "contents d'' = replaced_contents d c (stretchSpansOverChange d c)" "linked d [] \<longrightarrow> linked d'' []"
    using updateDoc_text [OF d(1) c] by metis
  then have d': "contents d' = replaced_contents d c (stretchSpansOverChange d c)" "same_frame d d'"
    and w: "wf_doc d'" "linked d' []"
    using u d by simp_all
  have f: "first d' = first d" "same_flags (markers d) (markers d')"
    using d'(2) by (simp add: same_frame_fields) (rule same_frame_flags [OF d'(2)])
  show "wf_doc d'" "linked d' []" by (fact w)+
  show "survives (markers d mk) c p q \<Longrightarrow> marker_at d' mk (movedFrom (markers d mk) c p) (movedTo (markers d mk) c q)"
    "\<not> survives (markers d mk) c p q \<Longrightarrow> gone d' mk"
    by (rule changed_marker [OF d(1) c m d'(1) f]; assumption)+
qed

lemma marker_at_find: "wf_doc d \<Longrightarrow> linked d [] \<Longrightarrow> marker_at d mk p q \<Longrightarrow> findBoth d mk = Some (p, q)"
  by (simp add: marker_at_def findBoth_covers)

section \<open>Properties\<close>

definition marked_doc :: doc where
  "marked_doc = sample_doc\<lparr>markers := (\<lambda>i. (TextMarker False)\<lparr>mlines := if i = 0 then [2] else []\<rparr>)\<rparr>"

lemma marked_doc_lines [simp]: "doc_lines marked_doc = doc_lines sample_doc" "first marked_doc = 5" "wf_doc marked_doc"
  using sample_doc_simps(4) by (simp_all add: marked_doc_def doc_lines_def wf_doc_def sample_doc_def)

lemma marked_doc_linked: "linked marked_doc []" "marker_at marked_doc 0 (Pos 7 0) (Pos 7 1)"
proof -
  show "linked marked_doc []"
    by (auto simp: linked_def sample_line_def marked_doc_def [THEN arg_cong, of markers])
  have "covers marked_doc 0 (Pos 7 0) (Pos 7 1)"
    by (simp add: covers_def covers_in_def contents_def sample_line_def All_less_Suc eval_nat_numeral spans_between_def span_at_def)
  then show "marker_at marked_doc 0 (Pos 7 0) (Pos 7 1)"
    by (simp add: marker_at_def in_doc_def range_ok_def pos_le_iff marked_doc_def [THEN arg_cong, of markers] TextMarker_def)
qed

text \<open>
  Markers follow the text. A marker that covers the range from \<open>p\<close> to \<open>q\<close> is found, after any change
  of the document, where the change moves its ends: an end before the change stays, one after it moves
  with the text behind it, one inside it goes to the edge of the change, an end at the edge goes to the
  side that its inclusive flags say; it is gone when the change deletes it, or leaves nothing of it.
  The lines the marker says it is on are its lines again.
\<close>

theorem markers_follow:
  assumes "wf_doc d" "linked d []" "change_ok d c" "marker_at d mk p q"
    "updateDoc d c (stretchSpansOverChange d c) est = Some d'"
  shows "linked d' [] \<and> findBoth d' mk =
    (if survives (markers d mk) c p q then Some (movedFrom (markers d mk) c p, movedTo (markers d mk) c q) else None)"
  using updateDoc_marker [OF assms] marker_at_find findBoth_gone by auto

theorem markers_follow_witness:
  "\<exists>d'. updateDoc marked_doc (Change (Pos 7 0) (Pos 7 0) [[98], [99, 99]] None)
      (stretchSpansOverChange marked_doc (Change (Pos 7 0) (Pos 7 0) [[98], [99, 99]] None)) None = Some d' \<and>
    findBoth d' 0 = Some (Pos 8 2, Pos 8 3)"
proof -
  let ?c = "Change (Pos 7 0) (Pos 7 0) [[98], [99, 99]] None"
  have c: "change_ok marked_doc ?c"
    by (simp add: change_ok_def Change_def pos_ok_def line_index_def)
  obtain d' where u: "updateDoc marked_doc ?c (stretchSpansOverChange marked_doc ?c) None = Some d'"
    using updateDoc_text [OF marked_doc_lines(3) c] .
  have "survives (markers marked_doc 0) ?c (Pos 7 0) (Pos 7 1)
    \<and> movedFrom (markers marked_doc 0) ?c (Pos 7 0) = Pos 8 2 \<and> movedTo (markers marked_doc 0) ?c (Pos 7 1) = Pos 8 3"
    by (simp add: survives_def movedFrom_def movedTo_def keptLeft_def keptRight_def Change_def adjustForChange_def changeEnd_def
        marked_doc_def [THEN arg_cong, of markers] TextMarker_def pos_less_iff Let_def del: cmp_less cmp_le) (simp add: cmp_def)
  then show ?thesis
    using u markers_follow [OF marked_doc_lines(3) marked_doc_linked(1) c marked_doc_linked(2) u] by auto
qed

end
