(* ===== verification/Selections.thy ===== *)
theory Selections
  imports MarkerOps History
begin

text \<open>
  Setting the selection of a document: keeping it out of atomic ranges, letting handlers change it,
  registering it in the history, and clearing markers, which is entwined with it: entering a marker
  with \<open>clearOnEnter\<close> clears it, and clearing an atomic marker re-checks the selection.
\<close>

section \<open>Atomic ranges and clearing markers\<close>

text \<open>Setting the spans of one line object, and the height of one.\<close>

definition setSpans :: "nat \<Rightarrow> mspan list \<Rightarrow> doc \<Rightarrow> doc" where
  "setSpans i sps d = d\<lparr>root := updateTree i (\<lambda>l. l\<lparr>lspans := sps\<rparr>) (root d)\<rparr>"

definition setHeight :: "jsline \<Rightarrow> int \<Rightarrow> doc \<Rightarrow> doc" where
  "setHeight line h d = d\<lparr>root := updateLineHeight line h (root d)\<rparr>"

text \<open>
  The loop of \<open>TextMarker.prototype.clear\<close> over the lines of the marker, with \<open>min\<close> and \<open>max\<close>.
\<close>

fun clearLoop :: "nat \<Rightarrow> nat list \<Rightarrow> int option \<Rightarrow> int option \<Rightarrow> doc \<Rightarrow> (int option \<times> int option \<times> doc) option" where
  "clearLoop mk [] lo hi d = Some (lo, hi, d)"
| "clearLoop mk (i # is) lo hi d = do {
     line \<leftarrow> lineById d i;
     span \<leftarrow> getMarkedSpanFor (lspans line) mk;
     no \<leftarrow> lineNoOf d i;
     let m = markers d mk;
     let hi' = (if cm d \<noteq> None \<and> collapsed m \<and> sto span \<noteq> None then Some no else hi);
     let lo' = (if cm d \<noteq> None \<and> collapsed m \<and> sfrom span \<noteq> None then Some no else lo);
     let d1 = (if cm d \<noteq> None \<and> \<not> collapsed m then log_view (RegLineChange no ''text'') d else d);
     let d2 = setSpans i (removeMarkedSpan (lspans line) span) d1;
     let line2 = line\<lparr>lspans := removeMarkedSpan (lspans line) span\<rparr>;
     hidden \<leftarrow> (if sfrom span = None \<and> collapsed m then lineIsHidden d2 line2 else Some True);
     clearLoop mk is lo' hi'
       (case cm d of
          Some e \<Rightarrow> if sfrom span = None \<and> collapsed m \<and> \<not> hidden then setHeight line2 (textHeight e) d2 else d2
        | None \<Rightarrow> d2)
   }"

text \<open>\<open>clear\<close> up to the point where the selection is checked again.\<close>

definition clearSpans :: "nat \<Rightarrow> doc \<Rightarrow> doc option" where
  "clearSpans mk d = do {
     (lo, hi, d1) \<leftarrow> clearLoop mk (mlines (markers d mk)) None None d;
     let d2 = (case lo of
                 None \<Rightarrow> d1
               | Some n \<Rightarrow> if collapsed (markers d mk)
                           then log_view (RegChange n (case hi of None \<Rightarrow> 1 | Some k \<Rightarrow> k + 1) 0) d1 else d1);
     Some (d2\<lparr>markers := (markers d2)(mk := (markers d2 mk)\<lparr>mlines := [], explicitlyCleared := True\<rparr>)\<rparr>)
   }"

definition touchesSpan :: "tmarker \<Rightarrow> mspan \<Rightarrow> int \<Rightarrow> bool" where
  "touchesSpan m sp ch \<longleftrightarrow> startsBefore m sp ch \<and> endsAfter m sp ch"

definition setSelectionInner :: "selection \<Rightarrow> doc \<Rightarrow> doc" where
  "setSelectionInner s d =
     (if sel_equals s (sel d) then d
      else log_view CursorActivity (log_view SelectionChanged (d\<lparr>sel := s\<rparr>)))"

text \<open>
  One round of the loop of \<open>skipAtomic\<close> for a span of an atomic range around \<open>cur\<close>: either the
  function returns, or the loop goes on with a new position, direction and \<open>flipped\<close>. \<open>same\<close> says
  whether \<open>curPos\<close> is still the object \<open>pos\<close>, which the caller compares.
\<close>

datatype skip_result =
  SkipReturn pos bool doc
| SkipOn doc bool pos bool int bool nat

definition moveOut :: "doc \<Rightarrow> jsline \<Rightarrow> pos \<Rightarrow> pos option option" where
  "moveOut d line moved =
     (if pch moved < 0 then
        (if pline moved > first d then do { p \<leftarrow> clipPosCh d (pline moved - 1) None; Some (Some p) } else Some None)
      else if pch moved > int (length (ltext line)) then
        Some (if pline moved < first d + doc_size d - 1 then Some (Pos (pline moved + 1) 0) else None)
      else Some (Some moved))"

definition skipStep :: "doc \<Rightarrow> jsline \<Rightarrow> nat \<Rightarrow> pos \<Rightarrow> int \<Rightarrow> bool \<Rightarrow> pos \<Rightarrow> int \<Rightarrow> bool \<Rightarrow> skip_result option" where
  "skipStep d line mk p bias mayClear cur dir flipped = do {
     newPos \<leftarrow> findSide d mk (if dir < 0 then -1 else 1);
     if cmp newPos cur \<noteq> 0 then Some (SkipOn d mayClear newPos False dir flipped 0)
     else do {
       next \<leftarrow> moveOut d line (Pos (pline newPos) (pch newPos + dir));
       Some (case next of
               Some q \<Rightarrow> SkipOn d mayClear q False dir flipped 0
             | None \<Rightarrow>
                 if flipped then
                   (if \<not> mayClear then SkipOn (d\<lparr>cantEdit := False\<rparr>) True p True (or_else bias 1) False 0
                    else SkipReturn (Pos (first d) 0) False (d\<lparr>cantEdit := True\<rparr>))
                 else SkipOn d mayClear p True (- dir) True 0) } }"

text \<open>
  \<open>skipAtomic\<close> and \<open>clear\<close>, each with a bound on the number of steps; \<open>None\<close> when it does not
  suffice (or on a TypeError). \<open>skipLoop\<close> is the loop of \<open>skipAtomic\<close> at span \<open>i\<close> of the line of
  \<open>cur\<close>.
\<close>

fun skipLoop :: "nat \<Rightarrow> pos \<Rightarrow> int \<Rightarrow> skip_result \<Rightarrow> (pos \<times> bool \<times> doc) option"
  and skipRanges :: "nat \<Rightarrow> doc \<Rightarrow> range list \<Rightarrow> int \<Rightarrow> bool \<Rightarrow> (range list \<times> bool \<times> doc) option"
  and clearMarker :: "nat \<Rightarrow> nat \<Rightarrow> doc \<Rightarrow> doc option" where
  "skipLoop 0 p bias r = None"
| "skipLoop (Suc n) p bias (SkipReturn q same d) = Some (q, same, d)"
| "skipLoop (Suc n) p bias (SkipOn d mayClear cur same dir flipped i) = do {
     line \<leftarrow> getLine d (pline cur);
     if i \<ge> length (lspans line) then Some (cur, same, d)
     else if \<not> touchesSpan (markers d (smarker (lspans line ! i))) (lspans line ! i) (pch cur)
     then skipLoop n p bias (SkipOn d mayClear cur same dir flipped (Suc i))
     else
       (let mk = smarker (lspans line ! i) in do {
          d1 \<leftarrow> (if mayClear \<and> clearOnEnter (markers d mk) then clearMarker n mk d else Some d);
          if mayClear \<and> explicitlyCleared (markers d1 mk) then skipLoop n p bias (SkipOn d1 mayClear cur same dir flipped i)
          else if \<not> atomic (markers d1 mk) then skipLoop n p bias (SkipOn d1 mayClear cur same dir flipped (Suc i))
          else do {
            r \<leftarrow> skipStep d1 line mk p bias mayClear cur dir flipped;
            skipLoop n p bias r } }) }"
| "skipRanges n d [] bias mayClear = Some ([], True, d)"
| "skipRanges n d (r # rs) bias mayClear = do {
     (a, sameA, d1) \<leftarrow> skipLoop n (anchor r) bias (SkipOn (d\<lparr>cantEdit := False\<rparr>) mayClear (anchor r) True (or_else bias 1) False 0);
     (h, sameH, d2) \<leftarrow> skipLoop n (head r) bias (SkipOn (d1\<lparr>cantEdit := False\<rparr>) mayClear (head r) True (or_else bias 1) False 0);
     (rs', same, d3) \<leftarrow> skipRanges n d2 rs bias mayClear;
     Some (Range a h # rs', sameA \<and> sameH \<and> same, d3) }"
| "clearMarker 0 mk d = None"
| "clearMarker (Suc n) mk d =
     (if explicitlyCleared (markers d mk) then Some d
      else do {
        d1 \<leftarrow> clearSpans mk d;
        if atomic (markers d mk) \<and> cantEdit d1 then
          (let d2 = d1\<lparr>cantEdit := False\<rparr> in
           if cm d2 = None then Some d2
           else do {
             (rs, same, d3) \<leftarrow> skipRanges n d2 (ranges (sel d2)) 0 False;
             Some (setSelectionInner (if same then sel d2 else normalizeSelection rs (primIndex (sel d2))) d3) })
        else Some d1 })"

text \<open>
  The bound the callers use: the loop passes every span of every offset of every line at most a few
  times, and every marker is cleared at most once.
\<close>

definition skipFuel :: "doc \<Rightarrow> nat" where
  "skipFuel d =
     (let size = sum_list (map (\<lambda>l. length (ltext l) + 2) (doc_lines d)); spans = Suc (total_spans d)
      in 8 * size * spans * Suc spans + 8)"

definition skipAtomic :: "doc \<Rightarrow> pos \<Rightarrow> int \<Rightarrow> bool \<Rightarrow> (pos \<times> bool \<times> doc) option" where
  "skipAtomic d p bias mayClear =
     skipLoop (skipFuel d) p bias (SkipOn (d\<lparr>cantEdit := False\<rparr>) mayClear p True (or_else bias 1) False 0)"

definition skipAtomicInSelection :: "doc \<Rightarrow> selection \<Rightarrow> int \<Rightarrow> bool \<Rightarrow> (selection \<times> doc) option" where
  "skipAtomicInSelection d s bias mayClear = do {
     (rs, same, d1) \<leftarrow> skipRanges (skipFuel d) d (ranges s) bias mayClear;
     Some (if same then s else normalizeSelection rs (primIndex s), d1) }"

definition reCheckSelection :: "doc \<Rightarrow> doc option" where
  "reCheckSelection d = do {
     (s, d1) \<leftarrow> skipAtomicInSelection d (sel d) 0 False;
     Some (setSelectionInner s d1) }"

definition marker_clear :: "nat \<Rightarrow> doc \<Rightarrow> doc option" where
  "marker_clear mk d = clearMarker (skipFuel d) mk d"

section \<open>Setting the selection\<close>

text \<open>
  The object that \<open>beforeSelectionChange\<close> handlers see: its ranges, and whether a handler has
  replaced them. Each handler reads the ranges and may call \<open>update\<close>, which clips the new ones.
\<close>

fun clipRanges :: "doc \<Rightarrow> range list \<Rightarrow> range list option" where
  "clipRanges d [] = Some []"
| "clipRanges d (r # rs) = do {
     a \<leftarrow> clipPos d (anchor r); h \<leftarrow> clipPos d (head r); rs' \<leftarrow> clipRanges d rs;
     Some (Range a h # rs') }"

fun runSelectionHandlers :: "doc \<Rightarrow> selection_handler list \<Rightarrow> range list \<Rightarrow> bool \<Rightarrow> (range list \<times> bool) option" where
  "runSelectionHandlers d [] rs changed = Some (rs, changed)"
| "runSelectionHandlers d (h # hs) rs changed =
     (case h rs of
        None \<Rightarrow> runSelectionHandlers d hs rs changed
      | Some new \<Rightarrow> do { rs' \<leftarrow> clipRanges d new; runSelectionHandlers d hs rs' True })"

definition filterSelectionChange :: "doc \<Rightarrow> selection \<Rightarrow> selection option" where
  "filterSelectionChange d s = do {
     (rs, changed) \<leftarrow> runSelectionHandlers d (beforeSelectionChange d) (ranges s) False;
     Some (if changed then normalizeSelection rs (int (length rs) - 1) else s) }"

definition setSelectionNoUndo :: "doc \<Rightarrow> selection \<Rightarrow> seloptions option \<Rightarrow> doc option" where
  "setSelectionNoUndo d s options = do {
     s1 \<leftarrow> (if beforeSelectionChange d \<noteq> [] then filterSelectionChange d s else Some s);
     new \<leftarrow> primary s1;
     old \<leftarrow> primary (sel d);
     let given = (case options of None \<Rightarrow> 0 | Some os \<Rightarrow> obias os);
     let bias = (if given \<noteq> 0 then given else if cmp (head new) (head old) < 0 then -1 else 1);
     (s2, d1) \<leftarrow> skipAtomicInSelection d s1 bias True;
     let d2 = setSelectionInner s2 d1;
     Some (if (case options of None \<Rightarrow> True | Some os \<Rightarrow> oscroll os) then log_view EnsureCursorVisible d2 else d2)
   }"

definition setSelection :: "doc \<Rightarrow> selection \<Rightarrow> seloptions option \<Rightarrow> doc option" where
  "setSelection d s options = do {
     d1 \<leftarrow> setSelectionNoUndo d s options;
     addSelectionToHistory d1 (sel d1) (current_op d1) options }"

definition sel_dontScroll :: seloptions where
  "sel_dontScroll = \<lparr>obias = 0, oorigin = None, oclearRedo = True, oscroll = False\<rparr>"

definition setSimpleSelection :: "doc \<Rightarrow> pos \<Rightarrow> pos option \<Rightarrow> seloptions option \<Rightarrow> doc option" where
  "setSimpleSelection d a h options = setSelection d (simpleSelection a h) options"

definition setSelectionReplaceHistory :: "doc \<Rightarrow> selection \<Rightarrow> seloptions option \<Rightarrow> doc option" where
  "setSelectionReplaceHistory d s options =
     (let arr = hdone (history d)
      in if arr \<noteq> [] \<and> is_sel (last arr)
         then setSelectionNoUndo (d\<lparr>history := (history d)\<lparr>hdone := replaceLast arr (SelEvent s)\<rparr>\<rparr>) s options
         else setSelection d s options)"

text \<open>\<open>extendRange\<close>, with \<open>display.shift\<close> of the editor or \<open>doc.extend\<close>.\<close>

definition extendRange :: "doc \<Rightarrow> range \<Rightarrow> pos \<Rightarrow> pos option \<Rightarrow> range" where
  "extendRange d r hp other =
     (if (case cm d of None \<Rightarrow> False | Some e \<Rightarrow> shiftKey e) \<or> extending d then
        (case other of
           None \<Rightarrow> Range (anchor r) hp
         | Some q \<Rightarrow>
             (let posBefore = (cmp hp (anchor r) < 0)
              in if posBefore \<noteq> (cmp q (anchor r) < 0) then Range hp q
                 else if posBefore \<noteq> (cmp hp q < 0) then Range (anchor r) q
                 else Range (anchor r) hp))
      else Range (case other of None \<Rightarrow> hp | Some q \<Rightarrow> q) hp)"

definition extendSelection :: "doc \<Rightarrow> pos \<Rightarrow> pos option \<Rightarrow> seloptions option \<Rightarrow> doc option" where
  "extendSelection d hp other options = do {
     r \<leftarrow> primary (sel d);
     setSelection d (Selection [extendRange d r hp other] 0) options }"

text \<open>\<open>heads[i]\<close> beyond the end of \<open>heads\<close> is undefined and throws when it is read.\<close>

definition extendSelections :: "doc \<Rightarrow> pos list \<Rightarrow> seloptions option \<Rightarrow> doc option" where
  "extendSelections d heads options =
     (if length heads < length (ranges (sel d)) then None
      else setSelection d
             (normalizeSelection (map (\<lambda>(r, hp). extendRange d r hp None) (zip (ranges (sel d)) heads)) (primIndex (sel d)))
             options)"

definition replaceOneSelection :: "doc \<Rightarrow> nat \<Rightarrow> range \<Rightarrow> seloptions option \<Rightarrow> doc option" where
  "replaceOneSelection d i r options =
     (if i \<le> length (ranges (sel d)) then
        setSelection d (normalizeSelection (if i < length (ranges (sel d)) then (ranges (sel d))[i := r]
                                            else ranges (sel d) @ [r]) (primIndex (sel d))) options
      else None)"

end
