(* ===== verification/MarkOps.thy ===== *)
theory MarkOps
  imports MarkText Selections
begin

text \<open>
  Making, clearing and listing markers: \<open>markText\<close>, \<open>setBookmark\<close>, \<open>findMarksAt\<close>, \<open>findMarks\<close>
  and \<open>getAllMarks\<close>. Of the options, \<open>shared\<close> is not modelled (linked documents). \<open>None\<close> is the error
  thrown for overlapping collapsed ranges, or a TypeError.
\<close>

section \<open>Marking text\<close>

text \<open>The options: the fields copied onto the marker, and what else \<open>markText\<close> reads of them.\<close>

record moptions = tmarker +
  replacedWith :: bool
  styled :: bool

definition newMarker :: "bool \<Rightarrow> moptions \<Rightarrow> tmarker" where
  "newMarker bm o1 = (tmarker.truncate o1)\<lparr>bookmark := bm, mlines := [], mid := 0, explicitlyCleared := False\<rparr>"

definition addMarkedSpan :: "jsline \<Rightarrow> mspan \<Rightarrow> doc \<Rightarrow> doc" where
  "addMarkedSpan line sp d =
     (setSpans (lid line) (lspans line @ [sp]) d)\<lparr>markers := attachLine (smarker sp) (lid line) (markers d)\<rparr>"

text \<open>The first loop over the lines of the marker, with \<open>curLine\<close>.\<close>

definition markLine :: "nat \<Rightarrow> bool \<Rightarrow> pos \<Rightarrow> pos \<Rightarrow> jsline \<Rightarrow> int \<times> doc \<Rightarrow> int \<times> doc" where
  "markLine mk coll from to line s =
     (let (curLine, d) = s;
          d1 = (if coll \<and> curLine \<noteq> pline from then setHeight line 0 d else d)
      in (curLine + 1,
          addMarkedSpan line (MarkedSpan mk (if curLine = pline from then Some (pch from) else None)
                                            (if curLine = pline to then Some (pch to) else None)) d1))"

definition markLines :: "nat \<Rightarrow> bool \<Rightarrow> pos \<Rightarrow> pos \<Rightarrow> doc \<Rightarrow> doc" where
  "markLines mk coll from to d =
     snd (iter (pline from) (pline to + 1) (\<lambda>line s. (markLine mk coll from to line s, False)) d (pline from, d))"

text \<open>The second loop, for collapsed markers, over the ids of the lines.\<close>

fun hideLines :: "nat list \<Rightarrow> doc \<Rightarrow> doc option" where
  "hideLines [] d = Some d"
| "hideLines (i # is) d = do {
     line \<leftarrow> lineById d i;
     hidden \<leftarrow> lineIsHidden d line;
     hideLines is (if hidden then setHeight line 0 d else d) }"

definition clearHistory :: "doc \<Rightarrow> doc" where
  "clearHistory d = d\<lparr>history := History (maxGeneration (history d))\<rparr>"

text \<open>Whether the range overlaps a collapsed one, on its first or its last line.\<close>

definition overlaps :: "doc \<Rightarrow> pos \<Rightarrow> pos \<Rightarrow> tmarker \<Rightarrow> bool option" where
  "overlaps d from to m = do {
     c1 \<leftarrow> conflictingCollapsedRange d (pline from) from to m;
     if c1 then Some True
     else if pline from \<noteq> pline to then conflictingCollapsedRange d (pline to) from to m
     else Some False }"

definition hideMarked :: "pos \<Rightarrow> pos \<Rightarrow> doc \<Rightarrow> doc option" where
  "hideMarked from to d =
     hideLines (iter (pline from) (pline to + 1) (\<lambda>line ids. (ids @ [lid line], False)) d []) d"

definition markReadOnly :: "doc \<Rightarrow> doc" where
  "markReadOnly d =
     (let d1 = d\<lparr>sawReadOnlySpans := True\<rparr>
      in if hdone (history d1) \<noteq> [] \<or> hundone (history d1) \<noteq> [] then clearHistory d1 else d1)"

definition markCollapsed :: "nat \<Rightarrow> doc \<Rightarrow> doc" where
  "markCollapsed mk d =
     (let i = Suc (nextMarkerId d)
      in d\<lparr>nextMarkerId := i, markers := (markers d)(mk := (markers d mk)\<lparr>mid := i, atomic := True\<rparr>)\<rparr>)"

text \<open>The calls to the editor at the end.\<close>

definition syncMarker :: "nat \<Rightarrow> bool \<Rightarrow> bool \<Rightarrow> pos \<Rightarrow> pos \<Rightarrow> doc \<Rightarrow> doc option" where
  "syncMarker mk coll style from to d =
     (if cm d = None then Some d
      else
        (let d1 = (if coll then log_view (RegChange (pline from) (pline to + 1) 0) d
                   else if style then fold (\<lambda>i. log_view (RegLineChange i ''text'')) [pline from..pline to] d
                   else d)
         in if atomic (markers d1 mk) then reCheckSelection d1 else Some d1))"

text \<open>The marker is in the store, and collapsed spans have been seen when it is collapsed.\<close>

definition setMarker :: "nat \<Rightarrow> tmarker \<Rightarrow> doc \<Rightarrow> doc" where
  "setMarker mk m d =
     d\<lparr>nextMarker := Suc mk, markers := (markers d)(mk := m), sawCollapsedSpans := sawCollapsedSpans d \<or> collapsed m\<rparr>"

definition markText :: "doc \<Rightarrow> pos \<Rightarrow> pos \<Rightarrow> moptions \<Rightarrow> bool \<Rightarrow> (nat \<times> doc) option" where
  "markText d from to o1 bm =
     (let mk = nextMarker d; m0 = newMarker bm o1; diff = cmp from to;
          d0 = d\<lparr>nextMarker := Suc mk, markers := (markers d)(mk := m0)\<rparr>
      in if diff > 0 \<or> diff = 0 \<and> clearWhenEmpty m0 then Some (mk, d0)
         else do {
           let m1 = (if replacedWith o1 then m0\<lparr>collapsed := True, widgetNode := True\<rparr> else m0);
           conflict \<leftarrow> (if collapsed m1 then overlaps d0 from to m1 else Some False);
           d1 \<leftarrow> (if conflict then None else Some (setMarker mk m1 d));
           d2 \<leftarrow> (if addToHistory m1 then addChangeToHistory d1 (Change from to [] (Some ''markText'')) (sel d1) None
                  else Some d1);
           let d3 = markLines mk (collapsed m1) from to d2;
           d4 \<leftarrow> (if collapsed m1 then hideMarked from to d3 else Some d3);
           let d5 = (if readOnly m1 then markReadOnly d4 else d4);
           let d6 = (if collapsed m1 then markCollapsed mk d5 else d5);
           d7 \<leftarrow> syncMarker mk (collapsed m1) (styled o1) from to d6;
           Some (mk, d7) })"

text \<open>The methods of the document, which clip the positions first.\<close>

definition doc_markText :: "doc \<Rightarrow> pos \<Rightarrow> pos \<Rightarrow> moptions \<Rightarrow> (nat \<times> doc) option" where
  "doc_markText d from to o1 = do {
     f \<leftarrow> clipPos d from; t \<leftarrow> clipPos d to; markText d f t o1 False }"

definition bookmarkOptions :: "bool \<Rightarrow> bool \<Rightarrow> moptions" where
  "bookmarkOptions widget insLeft =
     tmarker.extend ((TextMarker True)\<lparr>insertLeft := insLeft, clearWhenEmpty := False\<rparr>)
       (moptions.fields widget False)"

definition setBookmark :: "doc \<Rightarrow> pos \<Rightarrow> bool \<Rightarrow> bool \<Rightarrow> (nat \<times> doc) option" where
  "setBookmark d p widget insLeft = do {
     q \<leftarrow> clipPos d p;
     markText d q q (bookmarkOptions widget insLeft) True }"

text \<open>\<open>find()\<close> of a bookmark is its right end.\<close>

definition find_bookmark :: "doc \<Rightarrow> nat \<Rightarrow> pos option" where
  "find_bookmark d mk = findSide d mk 1"

section \<open>Listing markers\<close>

definition findMarksAt :: "doc \<Rightarrow> pos \<Rightarrow> nat list option" where
  "findMarksAt d p = do {
     q \<leftarrow> clipPos d p;
     line \<leftarrow> getLine d (pline q);
     Some (map smarker (filter (\<lambda>sp. (case sfrom sp of None \<Rightarrow> True | Some f \<Rightarrow> f \<le> pch q)
                                   \<and> (case sto sp of None \<Rightarrow> True | Some t \<Rightarrow> pch q \<le> t)) (lspans line))) }"

text \<open>A comparison with null compares with 0.\<close>

definition null0 :: "int option \<Rightarrow> int" where
  "null0 x = (case x of None \<Rightarrow> 0 | Some v \<Rightarrow> v)"

definition findMarks :: "doc \<Rightarrow> pos \<Rightarrow> pos \<Rightarrow> (nat \<Rightarrow> bool) \<Rightarrow> nat list option" where
  "findMarks d from to flt = do {
     f \<leftarrow> clipPos d from; t \<leftarrow> clipPos d to;
     Some (snd (iter (pline f) (pline t + 1)
       (\<lambda>line (n, found).
          ((n + 1,
            found @ map smarker (filter (\<lambda>sp. \<not> (n = pline f \<and> pch f > null0 (sto sp) \<or>
                                                sfrom sp = None \<and> n \<noteq> pline f \<or>
                                                n = pline t \<and> null0 (sfrom sp) > pch t)
                                             \<and> flt (smarker sp)) (lspans line))), False))
       d (pline f, []))) }"

text \<open>\<open>iter\<close> with one argument: the code starts at index \<open>first\<close>, for \<open>first + size\<close> lines.\<close>

definition iter_all :: "(jsline \<Rightarrow> 's \<Rightarrow> 's \<times> bool) \<Rightarrow> doc \<Rightarrow> 's \<Rightarrow> 's" where
  "iter_all op d s = fst (iterN (first d) (first d + doc_size d) op (root d) s)"

definition getAllMarks :: "doc \<Rightarrow> nat list" where
  "getAllMarks d =
     iter_all (\<lambda>line found. (found @ map smarker (filter (\<lambda>sp. sfrom sp \<noteq> None) (lspans line)), False)) d []"

end
