(* ===== verification/MarkOpsFacts.thy ===== *)
theory MarkOpsFacts
  imports MarkOps
begin

text \<open>
  What marking text and clearing a marker do to the spans of the lines.
\<close>

section \<open>Documents with the same lines\<close>

definition same_text :: "doc \<Rightarrow> doc \<Rightarrow> bool" where
  "same_text d d' \<longleftrightarrow> wf_doc d' \<and> first d' = first d \<and> map lid (doc_lines d') = map lid (doc_lines d)
     \<and> map ltext (doc_lines d') = map ltext (doc_lines d)"

definition line_spans :: "doc \<Rightarrow> mspan list list" where
  "line_spans d = map lspans (doc_lines d)"

lemma same_text_refl: "wf_doc d \<Longrightarrow> same_text d d"
  by (simp add: same_text_def)

lemma same_text_trans: "same_text d d' \<Longrightarrow> same_text d' d'' \<Longrightarrow> same_text d d''"
  by (simp add: same_text_def)

lemma same_text_length: "same_text d d' \<Longrightarrow> length (doc_lines d') = length (doc_lines d)"
  by (metis length_map same_text_def)

lemma length_line_spans [simp]: "length (line_spans d) = length (doc_lines d)"
  by (simp add: line_spans_def)

lemma line_spans_nth: "k < length (doc_lines d) \<Longrightarrow> line_spans d ! k = lspans (doc_lines d ! k)"
  by (simp add: line_spans_def)

lemma contents_line_spans: "contents d = zip (texts d) (line_spans d)"
  by (simp add: contents_def texts_def line_spans_def zip_map_map zip_same_conv_map)

lemma doc_update_lines [simp]:
  "doc_lines (d\<lparr>markers := ms\<rparr>) = doc_lines d" "doc_lines (d\<lparr>cm := c\<rparr>) = doc_lines d"
  "doc_lines (d\<lparr>history := h\<rparr>) = doc_lines d" "doc_lines (d\<lparr>nextMarker := n\<rparr>) = doc_lines d"
  "doc_lines (d\<lparr>nextMarkerId := n\<rparr>) = doc_lines d" "doc_lines (d\<lparr>sawCollapsedSpans := b\<rparr>) = doc_lines d"
  "doc_lines (d\<lparr>sawReadOnlySpans := b\<rparr>) = doc_lines d" "doc_lines (d\<lparr>sel := s\<rparr>) = doc_lines d"
  "doc_lines (d\<lparr>cantEdit := b\<rparr>) = doc_lines d" "doc_lines (log_view v d) = doc_lines d"
  by (simp_all add: doc_lines_def log_view_def)

lemma wf_doc_update [simp]:
  "wf_doc (d\<lparr>markers := ms\<rparr>) = wf_doc d" "wf_doc (d\<lparr>cm := c\<rparr>) = wf_doc d"
  "wf_doc (d\<lparr>history := h\<rparr>) = wf_doc d" "wf_doc (d\<lparr>nextMarker := n\<rparr>) = wf_doc d"
  "wf_doc (d\<lparr>nextMarkerId := n\<rparr>) = wf_doc d" "wf_doc (d\<lparr>sawCollapsedSpans := b\<rparr>) = wf_doc d"
  "wf_doc (d\<lparr>sawReadOnlySpans := b\<rparr>) = wf_doc d" "wf_doc (d\<lparr>sel := s\<rparr>) = wf_doc d"
  "wf_doc (d\<lparr>cantEdit := b\<rparr>) = wf_doc d" "wf_doc (log_view v d) = wf_doc d"
  by (simp_all add: wf_doc_def log_view_def)

lemma at_lines_eq:
  "map lid ls = map lid ls' \<Longrightarrow> map lspans ls = map lspans ls' \<Longrightarrow> at_lines ls mk = at_lines ls' mk"
  by (induction ls ls' rule: list_induct2') auto

lemma at_lines_eq_of:
  "map lid ls = map lid ls' \<Longrightarrow> (\<And>k. k < length ls' \<Longrightarrow> spans_of mk (lspans (ls ! k)) = spans_of mk (lspans (ls' ! k))) \<Longrightarrow>
    at_lines ls mk = at_lines ls' mk"
proof (induction ls ls' rule: list_induct2')
  case (4 l ls l' ls')
  have "spans_of mk (lspans l) = spans_of mk (lspans l')" using 4(3) [of 0] by simp
  moreover have "spans_of mk (lspans (ls ! k)) = spans_of mk (lspans (ls' ! k))" if "k < length ls'" for k
    using 4(3) [of "Suc k"] that by simp
  ultimately show ?case using 4(1,2) by simp
qed auto

lemma setSpans_spec:
  assumes d: "wf_doc d" and k: "k < length (doc_lines d)" and i: "i = lid (doc_lines d ! k)"
  shows "same_text d (setSpans i sps d)" "line_spans (setSpans i sps d) = (line_spans d)[k := sps]"
proof -
  let ?f = "\<lambda>l. l\<lparr>lspans := sps\<rparr>"
  have dist: "distinct (map lid (doc_lines d))" and wf: "wf_tree (root d)" using d by (auto simp: wf_doc_def)
  have dl: "doc_lines (setSpans i sps d) = (doc_lines d)[k := ?f (doc_lines d ! k)]"
    using with_line_update [OF dist k, of ?f] by (simp add: setSpans_def doc_lines_def collapse_updateTree with_line_def i)
  have wf': "wf_tree (root (setSpans i sps d))" using wf by (simp add: setSpans_def wf_tree_def updateTree_wf is_branch_def)
  have lids: "map lid (doc_lines (setSpans i sps d)) = map lid (doc_lines d)"
    "map ltext (doc_lines (setSpans i sps d)) = map ltext (doc_lines d)"
    unfolding dl using k by (simp_all add: map_update list_update_same_conv)
  have nl: "nextLine (setSpans i sps d) = nextLine d" "first (setSpans i sps d) = first d" by (simp_all add: setSpans_def)
  have "list_all (\<lambda>i. i < nextLine d) (map lid (doc_lines (setSpans i sps d)))"
    unfolding lids using d by (simp add: wf_doc_def list.pred_map comp_def)
  then have "list_all (\<lambda>l. lid l < nextLine d) (doc_lines (setSpans i sps d))" by (simp add: list.pred_map comp_def)
  moreover have "doc_lines (setSpans i sps d) \<noteq> []" using k unfolding dl by auto
  ultimately show "same_text d (setSpans i sps d)"
    using dist wf' lids unfolding same_text_def wf_doc_def nl by metis
  show "line_spans (setSpans i sps d) = (line_spans d)[k := sps]" by (simp add: line_spans_def dl map_update)
qed

lemma setHeight_spec:
  assumes d: "wf_doc d"
  shows "same_text d (setHeight line h d)" "line_spans (setHeight line h d) = line_spans d"
proof -
  let ?d = "setHeight line h d"
  have dist: "distinct (map lid (doc_lines d))" and wf: "wf_tree (root d)" using d by (auto simp: wf_doc_def)
  have a: "map lid (doc_lines ?d) = map lid (doc_lines d)" "map ltext (doc_lines ?d) = map ltext (doc_lines d)"
    "map lspans (doc_lines ?d) = map lspans (doc_lines d)" "wf_tree (root ?d)"
    using addHeight_spec [of "root d" "lid line" "h - lheight line"] dist wf
    by (auto simp: setHeight_def updateLineHeight_def Let_def doc_lines_def wf_tree_def is_branch_def)
  have nl: "nextLine ?d = nextLine d" "first ?d = first d" by (simp_all add: setHeight_def)
  have "list_all (\<lambda>i. i < nextLine d) (map lid (doc_lines ?d))"
    unfolding a using d by (simp add: wf_doc_def list.pred_map comp_def)
  then have "list_all (\<lambda>l. lid l < nextLine d) (doc_lines ?d)" by (simp add: list.pred_map comp_def)
  moreover have "doc_lines ?d \<noteq> []" using d a(1) by (metis map_is_Nil_conv wf_doc_def)
  ultimately show "same_text d ?d"
    using dist a unfolding same_text_def wf_doc_def nl by metis
  show "line_spans ?d = line_spans d" by (simp add: line_spans_def a)
qed

lemma set_sels [simp]:
  "markers (setSpans i sps d) = markers d" "cm (setSpans i sps d) = cm d" "history (setSpans i sps d) = history d"
  "markers (setHeight line h d) = markers d" "cm (setHeight line h d) = cm d" "history (setHeight line h d) = history d"
  by (simp_all add: setSpans_def setHeight_def)

section \<open>The first loop of markText\<close>

lemma linked_same:
  assumes "same_text d d'" "line_spans d' = line_spans d" "markers d' = markers d"
  shows "linked d' new = linked d new"
  using assms at_lines_eq [of "doc_lines d'" "doc_lines d"] by (simp add: linked_def same_text_def line_spans_def)

lemma addMarkedSpan_spec:
  assumes d: "wf_doc d" and k: "k < length (doc_lines d)" and l: "lid line = lid (doc_lines d ! k)" "lspans line = line_spans d ! k"
  shows "same_text d (addMarkedSpan line sp d)" "line_spans (addMarkedSpan line sp d) = (line_spans d)[k := line_spans d ! k @ [sp]]"
    "linked d [] \<Longrightarrow> linked (addMarkedSpan line sp d) []" "same_flags (markers d) (markers (addMarkedSpan line sp d))"
proof -
  let ?d1 = "setSpans (lid line) (lspans line @ [sp]) d" and ?d = "addMarkedSpan line sp d"
  note s = setSpans_spec [OF d k l(1), of "lspans line @ [sp]"]
  show st: "same_text d ?d" using s(1) by (simp add: addMarkedSpan_def same_text_def)
  show sps: "line_spans ?d = (line_spans d)[k := line_spans d ! k @ [sp]]"
    using s(2) by (simp add: addMarkedSpan_def line_spans_def [of "_\<lparr>markers := _\<rparr>"] l(2)) (simp add: line_spans_def)
  show "same_flags (markers d) (markers ?d)" by (simp add: addMarkedSpan_def attachLine_def same_flags_def)
  assume lk: "linked d []"
  let ?new = "(doc_lines d ! k)\<lparr>lspans := line_spans d ! k @ [sp]\<rparr>"
  have e: "at_lines (doc_lines ?d) mk = at_lines ((doc_lines d)[k := ?new]) mk" for mk
  proof (rule at_lines_eq)
    show "map lid (doc_lines ?d) = map lid ((doc_lines d)[k := ?new])"
      using st k list_update_id [of "map lid (doc_lines d)" k] by (simp add: same_text_def map_update)
    show "map lspans (doc_lines ?d) = map lspans ((doc_lines d)[k := ?new])"
      using sps by (simp add: line_spans_def map_update)
  qed
  have a: "at_lines (doc_lines ?d) mk + replicate_mset (length (spans_of mk (lspans (doc_lines d ! k)))) (lid (doc_lines d ! k))
      = at_lines (doc_lines d) mk + replicate_mset (length (spans_of mk (line_spans d ! k @ [sp]))) (lid (doc_lines d ! k))" for mk
    using at_lines_update [OF k, of ?new mk] by (simp add: e)
  have "at_lines (doc_lines ?d) mk = at_lines (doc_lines d) mk + (if mk = smarker sp then {#lid line#} else {#})" for mk
    using a [of mk] k by (auto simp: line_spans_nth l(1))
  moreover have "mset (mlines (markers ?d mk)) = mset (mlines (markers d mk)) + (if mk = smarker sp then {#lid line#} else {#})" for mk
    by (simp add: addMarkedSpan_def attachLine_def)
  ultimately show "linked ?d []" using lk by (simp add: linked_def)
qed

lemma iterLines_fold: "iterLines (\<lambda>l s. (f l s, False)) ls s = (fold f ls s, False)"
  by (induction ls arbitrary: s) simp_all

lemma fold_take_Suc: "j < length ls \<Longrightarrow> fold f (take (Suc j) ls) s = f (ls ! j) (fold f (take j ls) s)"
  by (simp add: take_Suc_conv_app_nth)

text \<open>The document after the first \<open>j\<close> lines have been marked.\<close>

definition marked_upto :: "doc \<Rightarrow> nat \<Rightarrow> pos \<Rightarrow> pos \<Rightarrow> nat \<Rightarrow> doc \<Rightarrow> bool" where
  "marked_upto d mk p q j d' \<longleftrightarrow> same_text d d' \<and> linked d' [] \<and> same_flags (markers d) (markers d') \<and> cm d' = cm d \<and>
     (\<forall>k < length (doc_lines d). line_spans d' ! k = line_spans d ! k @
        (if line_index d (pline p) \<le> k \<and> k < line_index d (pline p) + j then [span_at mk p q (first d + int k)] else []))"

lemma marked_upto_step:
  assumes m: "marked_upto d mk p q j d'" and k: "k = line_index d (pline p) + j" "k < length (doc_lines d)"
    and n: "n = first d + int k"
  shows "marked_upto d mk p q (Suc j) (snd (markLine mk coll p q (doc_lines d ! k) (n, d')))"
proof -
  let ?line = "doc_lines d ! k" and ?sp = "span_at mk p q n"
  have st: "same_text d d'" and lk': "linked d' []" and fl': "same_flags (markers d) (markers d')" and cm': "cm d' = cm d"
    and sps: "\<And>i. i < length (doc_lines d) \<Longrightarrow> line_spans d' ! i = line_spans d ! i @
        (if line_index d (pline p) \<le> i \<and> i < line_index d (pline p) + j then [span_at mk p q (first d + int i)] else [])"
    using m by (simp_all add: marked_upto_def)
  have w: "wf_doc d'" using st by (simp add: same_text_def)
  obtain d1 where d1: "d1 = (if coll \<and> n \<noteq> pline p then setHeight ?line 0 d' else d')" by blast
  have s1: "same_text d' d1" "line_spans d1 = line_spans d'" "markers d1 = markers d'"
    unfolding d1 using setHeight_spec [OF w] same_text_refl [OF w] by simp_all
  have st1: "same_text d d1" using st s1(1) by (rule same_text_trans)
  have w1: "wf_doc d1" using st1 by (simp add: same_text_def)
  have len: "k < length (doc_lines d1)" using k(2) same_text_length [OF st1] by simp
  have "map lid (doc_lines d1) ! k = map lid (doc_lines d) ! k" using st1 by (simp add: same_text_def)
  then have id: "lid ?line = lid (doc_lines d1 ! k)" using len k(2) by simp
  have "line_spans d' ! k = line_spans d ! k" using sps [OF k(2)] k(1) by simp
  then have sp: "lspans ?line = line_spans d1 ! k" using line_spans_nth [OF k(2)] s1(2) by simp
  obtain d2 where d2: "d2 = addMarkedSpan ?line ?sp d1" by blast
  note a = addMarkedSpan_spec [OF w1 len id sp, of ?sp, folded d2]
  have r: "snd (markLine mk coll p q ?line (n, d')) = d2"
    by (simp add: markLine_def span_at_def Let_def d1 d2)
  have l2: "linked d2 []" using a(3) lk' linked_same [OF s1] by simp
  have f2: "same_flags (markers d) (markers d2)" using same_flags_trans [OF fl'] a(4) s1(3) by simp
  have cm2: "cm d2 = cm d" using cm' by (simp add: d2 d1 addMarkedSpan_def)
  have sp2: "line_spans d2 ! i = line_spans d ! i @
        (if line_index d (pline p) \<le> i \<and> i < line_index d (pline p) + Suc j then [span_at mk p q (first d + int i)] else [])"
    if i: "i < length (doc_lines d)" for i
  proof (cases "i = k")
    case True
    then have "line_spans d2 ! i = line_spans d' ! k @ [?sp]" using a(2) len length_line_spans [of d1] by (simp add: s1(2))
    then show ?thesis using sps [OF i] True k(1) n by simp
  next
    case False
    then have "line_spans d2 ! i = line_spans d' ! i" using a(2) by (simp add: s1(2))
    moreover have "i < line_index d (pline p) + Suc j \<longleftrightarrow> i < line_index d (pline p) + j" using False k(1) by linarith
    ultimately show ?thesis using sps [OF i] by simp
  qed
  show ?thesis
    unfolding marked_upto_def r by (intro conjI allI impI same_text_trans [OF st1 a(1)] l2 f2 sp2 cm2)
qed

lemma markLines_spec:
  assumes d: "wf_doc d" "linked d []" and r: "in_doc d p q"
  shows "marked_upto d mk p q (nat (pline q + 1 - pline p)) (markLines mk coll p q d)"
proof -
  let ?a = "line_index d (pline p)" and ?n = "nat (pline q + 1 - pline p)"
  let ?ls = "take ?n (drop ?a (doc_lines d))"
  have le: "first d \<le> pline p" "pline q < first d + int (length (doc_lines d))" "pline p \<le> pline q"
    using r by (auto simp: in_doc_def pos_le_iff)
  then have a: "int ?a = pline p - first d" "?a + ?n \<le> length (doc_lines d)" by (auto simp: line_index_def)
  have len: "length ?ls = ?n" using a by simp
  have it: "markLines mk coll p q d = snd (fold (markLine mk coll p q) ?ls (pline p, d))"
    by (simp add: markLines_def iter_lines [OF d(1) le(1)] iterLines_fold line_index_def)
  have "marked_upto d mk p q j (snd (fold (markLine mk coll p q) (take j ?ls) (pline p, d)))
      \<and> fst (fold (markLine mk coll p q) (take j ?ls) (pline p, d)) = pline p + int j" if "j \<le> ?n" for j
    using that
  proof (induction j)
    case 0
    then show ?case using d same_text_refl [OF d(1)] by (simp add: marked_upto_def)
  next
    case (Suc j)
    let ?s = "fold (markLine mk coll p q) (take j ?ls) (pline p, d)"
    let ?next = "markLine mk coll p q (doc_lines d ! (?a + j)) (pline p + int j, snd ?s)"
    have ih: "marked_upto d mk p q j (snd ?s)" "?s = (pline p + int j, snd ?s)" using Suc by (auto simp: prod_eq_iff)
    have j: "j < length ?ls" using Suc.prems len by simp
    have line: "?ls ! j = doc_lines d ! (?a + j)" using j a by simp
    have n: "pline p + int j = first d + int (?a + j)" using a(1) by simp
    have e: "fold (markLine mk coll p q) (take (Suc j) ?ls) (pline p, d) = ?next"
      using fold_take_Suc [OF j] ih(2) line by metis
    have "marked_upto d mk p q (Suc j) (snd ?next)"
      by (rule marked_upto_step [OF ih(1) refl _ n]) (use Suc.prems a in simp)
    moreover have "fst ?next = pline p + int (Suc j)" by (simp add: markLine_def Let_def)
    ultimately show ?case unfolding e by blast
  qed
  from this [of ?n] show ?thesis using it len by simp
qed

text \<open>What a document keeps when lines, spans and the lines of the markers stay.\<close>

definition same_marks :: "doc \<Rightarrow> doc \<Rightarrow> bool" where
  "same_marks d d' \<longleftrightarrow> same_text d d' \<and> line_spans d' = line_spans d
     \<and> (\<forall>mk. mlines (markers d' mk) = mlines (markers d mk))"

lemma same_marks_trans: "same_marks d d' \<Longrightarrow> same_marks d' d'' \<Longrightarrow> same_marks d d''"
  by (auto simp: same_marks_def intro: same_text_trans)

lemma same_marks_linked: "same_marks d d' \<Longrightarrow> linked d' new = linked d new"
  using at_lines_eq [of "doc_lines d'" "doc_lines d"] by (simp add: same_marks_def linked_def same_text_def line_spans_def)

lemma hideLines_same: "wf_doc d \<Longrightarrow> hideLines is d = Some d' \<Longrightarrow> same_marks d d' \<and> markers d' = markers d \<and> cm d' = cm d"
proof (induction "is" arbitrary: d)
  case Nil
  then show ?case by (simp add: same_marks_def same_text_refl)
next
  case (Cons i "is")
  obtain line hidden where r: "hideLines is (if hidden then setHeight line 0 d else d) = Some d'"
    using Cons.prems(2) by (auto simp: bind_eq_Some_conv)
  let ?d = "if hidden then setHeight line 0 d else d"
  have s: "same_marks d ?d" "markers ?d = markers d" "cm ?d = cm d"
    using setHeight_spec [OF Cons.prems(1)] same_text_refl [OF Cons.prems(1)] by (auto simp: same_marks_def)
  then have "wf_doc ?d" by (simp add: same_marks_def same_text_def)
  from Cons.IH [OF this r] s show ?case by (auto intro: same_marks_trans)
qed

section \<open>Marking text\<close>

lemma covers_line_spans:
  "covers d mk p q \<longleftrightarrow> (\<forall>k < length (doc_lines d). spans_of mk (line_spans d ! k) = spans_between mk p q (first d + int k))"
  by (simp add: covers_def covers_in_def contents_def line_spans_nth)

lemma gone_line_spans: "gone d mk \<longleftrightarrow> (\<forall>k < length (doc_lines d). spans_of mk (line_spans d ! k) = [])"
  by (simp add: gone_def contents_def line_spans_nth)

lemma marked_upto_end:
  assumes m: "marked_upto d mk p q (nat (pline q + 1 - pline p)) d'" and r: "in_doc d p q"
  shows "gone d mk \<Longrightarrow> covers d' mk p q" "mk' \<noteq> mk \<Longrightarrow> covers d' mk' p' q' = covers d mk' p' q'"
proof -
  have st: "same_text d d'" using m by (simp add: marked_upto_def)
  have len: "length (doc_lines d') = length (doc_lines d)" and f: "first d' = first d"
    using st same_text_length by (auto simp: same_text_def)
  have le: "first d \<le> pline p" "pline p \<le> pline q" using r by (auto simp: in_doc_def pos_le_iff)
  have at: "line_index d (pline p) \<le> k \<and> k < line_index d (pline p) + nat (pline q + 1 - pline p)
      \<longleftrightarrow> pline p \<le> first d + int k \<and> first d + int k \<le> pline q" for k
    using le by (auto simp: line_index_def)
  have sp: "line_spans d' ! k = line_spans d ! k @ spans_between mk p q (first d + int k)" if "k < length (doc_lines d)" for k
    using m that by (simp add: marked_upto_def at spans_between_def)
  have own: "spans_of mk (spans_between mk p q n) = spans_between mk p q n" for n
    by (simp add: spans_between_def span_at_def)
  have other: "mk' \<noteq> mk \<Longrightarrow> spans_of mk' (spans_between mk p q n) = []" for n
    by (simp add: spans_between_def span_at_def)
  show "gone d mk \<Longrightarrow> covers d' mk p q"
    using sp own by (simp add: covers_line_spans gone_line_spans len f)
  show "mk' \<noteq> mk \<Longrightarrow> covers d' mk' p' q' = covers d mk' p' q'"
    using sp other by (simp add: covers_line_spans len f)
qed

lemma same_marks_covers: "same_marks d d' \<Longrightarrow> covers d' mk p q = covers d mk p q"
  using same_text_length by (auto simp: same_marks_def covers_line_spans same_text_def)

text \<open>Steps that touch neither the lines nor the lines of the markers.\<close>

lemma same_marks_update:
  assumes "wf_doc d" "root d' = root d" "first d' = first d" "nextLine d' = nextLine d"
    "\<And>mk. mlines (markers d' mk) = mlines (markers d mk)"
  shows "same_marks d d'"
  using assms by (simp add: same_marks_def same_text_def wf_doc_def line_spans_def doc_lines_def)

lemma addChangeToHistory_frame:
  "addChangeToHistory d c s opid = Some d' \<Longrightarrow> \<exists>h. d' = d\<lparr>history := h\<rparr>"
  unfolding addChangeToHistory_def Let_def case_prod_beta bind_eq_Some_conv by auto

text \<open>The part of \<open>markText\<close> that registers the marker, before the lines are marked.\<close>

lemma registered:
  assumes "wf_doc d" "linked d []" "gone d mk" "mlines m1 = []"
    "d2 = d\<lparr>nextMarker := n, markers := (markers d)(mk := m1), sawCollapsedSpans := b, history := h\<rparr>"
  shows "wf_doc d2" "linked d2 []" "same_text d d2" "line_spans d2 = line_spans d" "gone d2 mk" "markers d2 mk = m1"
proof -
  have dl: "doc_lines d2 = doc_lines d" by (simp add: assms(5) doc_lines_def)
  have f: "first d2 = first d" "root d2 = root d" "nextLine d2 = nextLine d" by (simp_all add: assms(5))
  show w: "wf_doc d2" using assms(1) by (simp add: wf_doc_def dl f)
  have "mlines (markers d mk) = []" using assms(2,3) by (rule mlines_gone)
  then have "at_lines (doc_lines d) mk = {#}" using assms(2) by (metis add.right_neutral at_lines.simps(1) linked_def mset.simps(1))
  then show "linked d2 []" using assms(2,4) by (simp add: linked_def dl assms(5))
  show "same_text d d2" using w by (simp add: same_text_def dl f)
  show sp: "line_spans d2 = line_spans d" by (simp add: line_spans_def dl)
  show "gone d2 mk" using assms(3) by (simp add: gone_line_spans sp dl)
  show "markers d2 mk = m1" by (simp add: assms(5))
qed

text \<open>The rest of \<open>markText\<close>, up to the calls to the editor.\<close>

lemma log_view_marks [simp]: "markers (log_view v d) = markers d" "root (log_view v d) = root d" "first (log_view v d) = first d"
  "nextLine (log_view v d) = nextLine d"
  by (simp_all add: log_view_def)

lemma fold_log_marks:
  "markers (fold (\<lambda>i. log_view (f i)) is d) = markers d" "root (fold (\<lambda>i. log_view (f i)) is d) = root d"
  "first (fold (\<lambda>i. log_view (f i)) is d) = first d" "nextLine (fold (\<lambda>i. log_view (f i)) is d) = nextLine d"
  by (induction "is" arbitrary: d) simp_all

definition atomic_mark :: "moptions \<Rightarrow> bool" where
  "atomic_mark o1 \<longleftrightarrow> atomic o1 \<or> collapsed o1 \<or> replacedWith o1"

lemma newMarker_sel [simp]:
  "mlines (newMarker bm o1) = []" "collapsed (newMarker bm o1) = collapsed o1" "atomic (newMarker bm o1) = atomic o1"
  "clearWhenEmpty (newMarker bm o1) = clearWhenEmpty o1" "addToHistory (newMarker bm o1) = addToHistory o1"
  "readOnly (newMarker bm o1) = readOnly o1"
  by (simp_all add: newMarker_def tmarker.truncate_def)

lemma unless_Some: "(if b then None else Some x) = Some y \<longleftrightarrow> \<not> b \<and> x = y"
  by simp

lemma markText_steps:
  assumes pq: "p \<le> q" "p = q \<longrightarrow> \<not> clearWhenEmpty o1" and t: "markText d p q o1 bm = Some (mk, d')"
  obtains m1 h d4 where "mk = nextMarker d" "m1 = (if replacedWith o1 then (newMarker bm o1)\<lparr>collapsed := True, widgetNode := True\<rparr> else newMarker bm o1)"
    "(if collapsed m1 then hideMarked p q (markLines mk (collapsed m1) p q ((setMarker mk m1 d)\<lparr>history := h\<rparr>))
      else Some (markLines mk (collapsed m1) p q ((setMarker mk m1 d)\<lparr>history := h\<rparr>))) = Some d4"
    "syncMarker mk (collapsed m1) (styled o1) p q (if collapsed m1 then markCollapsed mk (if readOnly m1 then markReadOnly d4 else d4)
      else (if readOnly m1 then markReadOnly d4 else d4)) = Some d'"
proof -
  let ?m0 = "newMarker bm o1"
  define m1 where "m1 = (if replacedWith o1 then ?m0\<lparr>collapsed := True, widgetNode := True\<rparr> else ?m0)"
  have ne: "\<not> (0 < cmp p q \<or> cmp p q = 0 \<and> clearWhenEmpty ?m0)" using pq by auto
  let ?d1 = "setMarker (nextMarker d) m1 d"
  obtain d2 where s2: "(if addToHistory m1 then addChangeToHistory ?d1 (Change p q [] (Some ''markText'')) (sel ?d1) None else Some ?d1) = Some d2"
    and rest: "mk = nextMarker d" "(do { d4 \<leftarrow> (if collapsed m1 then hideMarked p q (markLines mk (collapsed m1) p q d2) else Some (markLines mk (collapsed m1) p q d2));
        syncMarker mk (collapsed m1) (styled o1) p q (if collapsed m1 then markCollapsed mk (if readOnly m1 then markReadOnly d4 else d4)
      else (if readOnly m1 then markReadOnly d4 else d4)) }) = Some d'"
    using t ne unfolding markText_def Let_def m1_def [symmetric] if_not_P [OF ne] bind_eq_Some_conv unless_Some by auto
  obtain h where "d2 = ?d1\<lparr>history := h\<rparr>"
  proof (cases "addToHistory m1")
    case True
    then show ?thesis using s2 addChangeToHistory_frame that by metis
  next
    case False
    then have "d2 = ?d1\<lparr>history := history ?d1\<rparr>" using s2 by simp
    then show ?thesis by (rule that)
  qed
  then show ?thesis using rest m1_def that [of m1 h] by (auto simp: bind_eq_Some_conv)
qed

lemma hideMarked_same: "wf_doc d \<Longrightarrow> hideMarked p q d = Some d' \<Longrightarrow> same_marks d d' \<and> markers d' = markers d \<and> cm d' = cm d"
  unfolding hideMarked_def by (rule hideLines_same)

lemma mark_flags_same:
  assumes "wf_doc d"
  shows "same_marks d (markReadOnly d)" "same_marks d (markCollapsed mk d)" "wf_doc (markReadOnly d)"
    "atomic (markers (markReadOnly d) i) = atomic (markers d i)" "cm (markReadOnly d) = cm d" "cm (markCollapsed mk d) = cm d"
proof -
  show "same_marks d (markReadOnly d)" "same_marks d (markCollapsed mk d)"
    by (rule same_marks_update [OF assms]; simp add: markReadOnly_def markCollapsed_def clearHistory_def Let_def)+
  then show "wf_doc (markReadOnly d)" by (simp add: same_marks_def same_text_def)
qed (simp_all add: markReadOnly_def markCollapsed_def clearHistory_def Let_def)

lemma syncMarker_same:
  assumes "wf_doc d" "cm d = None \<or> \<not> atomic (markers d mk)" "syncMarker mk coll style p q d = Some d'"
  shows "same_marks d d' \<and> markers d' = markers d"
proof (cases "cm d = None")
  case True
  then show ?thesis using assms by (simp add: syncMarker_def same_marks_def same_text_refl)
next
  case False
  with assms have na: "\<not> atomic (markers d mk)" by simp
  have "d' = d \<or> d' = log_view (RegChange (pline p) (pline q + 1) 0) d
    \<or> d' = fold (\<lambda>i. log_view (RegLineChange i ''text'')) [pline p..pline q] d"
    using assms(3) False na by (auto simp: syncMarker_def fold_log_marks Let_def split: if_split_asm)
  then show ?thesis
    using same_marks_update [OF assms(1)] by (auto simp: fold_log_marks)
qed

lemma markLines_flags: "same_flags (markers d) (markers d') \<Longrightarrow> atomic (markers d' mk) = atomic (markers d mk)"
  by (rule same_flags_fields)

lemma mark_shape:
  assumes "m = (if rep then m0\<lparr>collapsed := True, widgetNode := True\<rparr> else m0)\<lparr>mlines := ls, mid := i, atomic := a\<rparr>"
  shows "\<exists>ls i a b. m = m0\<lparr>collapsed := collapsed m0 \<or> rep, widgetNode := b, mlines := ls, mid := i, atomic := a\<rparr>"
  by (rule exI [of _ ls], rule exI [of _ i], rule exI [of _ a], rule exI [of _ "rep \<or> widgetNode m0"])
     (rule tmarker.equality; simp add: assms)

lemma markText_marks:
  assumes d: "wf_doc d" "linked d []" "gone d (nextMarker d)" and r: "in_doc d p q"
    and ne: "p = q \<longrightarrow> \<not> clearWhenEmpty o1" and plain: "cm d = None \<or> \<not> atomic_mark o1"
    and t: "markText d p q o1 bm = Some (mk, d')"
  shows "mk = nextMarker d" "wf_doc d'" "linked d' []" "covers d' mk p q" "in_doc d' p q" "texts d' = texts d"
    "first d' = first d" "\<And>k. k < length (doc_lines d) \<Longrightarrow> line_spans d' ! k = line_spans d ! k @ spans_between mk p q (first d + int k)"
    "\<And>mk' p' q'. mk' \<noteq> mk \<Longrightarrow> covers d' mk' p' q' = covers d mk' p' q'"
    "\<exists>ls i a b. markers d' mk = (newMarker bm o1)\<lparr>collapsed := collapsed o1 \<or> replacedWith o1, widgetNode := b,
      mlines := ls, mid := i, atomic := a\<rparr>"
proof -
  have pq: "p \<le> q" using r by (simp add: in_doc_def)
  obtain m1 h d4 where mk: "mk = nextMarker d"
    and m1_def: "m1 = (if replacedWith o1 then (newMarker bm o1)\<lparr>collapsed := True, widgetNode := True\<rparr> else newMarker bm o1)"
    and s4: "(if collapsed m1 then hideMarked p q (markLines mk (collapsed m1) p q ((setMarker mk m1 d)\<lparr>history := h\<rparr>))
      else Some (markLines mk (collapsed m1) p q ((setMarker mk m1 d)\<lparr>history := h\<rparr>))) = Some d4"
    and s7: "syncMarker mk (collapsed m1) (styled o1) p q (if collapsed m1 then markCollapsed mk (if readOnly m1 then markReadOnly d4 else d4)
      else (if readOnly m1 then markReadOnly d4 else d4)) = Some d'"
    using markText_steps [OF pq ne t] .
  have m1: "mk = nextMarker d" "collapsed m1 \<longleftrightarrow> collapsed o1 \<or> replacedWith o1" "atomic m1 = atomic o1" "mlines m1 = []"
    using mk by (simp_all add: m1_def)
  define d2 where "d2 = (setMarker mk m1 d)\<lparr>history := h\<rparr>"
  define d3 where "d3 = markLines mk (collapsed m1) p q d2"
  define d5 where "d5 = (if readOnly m1 then markReadOnly d4 else d4)"
  define d6 where "d6 = (if collapsed m1 then markCollapsed mk d5 else d5)"
  have g: "gone d mk" using d(3) m1(1) by simp
  have d2: "wf_doc d2" "linked d2 []" "same_text d d2" "line_spans d2 = line_spans d" "gone d2 mk" "markers d2 mk = m1" "cm d2 = cm d"
  proof -
    have e: "d2 = d\<lparr>nextMarker := Suc mk, markers := (markers d)(mk := m1),
        sawCollapsedSpans := sawCollapsedSpans d \<or> collapsed m1, history := h\<rparr>" by (simp add: d2_def setMarker_def)
    show "wf_doc d2" "linked d2 []" "same_text d d2" "line_spans d2 = line_spans d" "gone d2 mk" "markers d2 mk = m1"
      using registered [OF d(1,2) g m1(4) e] by auto
    show "cm d2 = cm d" by (simp add: e)
  qed
  have r2: "in_doc d2 p q" using r d2(3) same_text_length [OF d2(3)] by (simp add: in_doc_def same_text_def)
  have m3: "marked_upto d2 mk p q (nat (pline q + 1 - pline p)) d3"
    unfolding d3_def by (rule markLines_spec [OF d2(1,2) r2])
  have st3: "same_text d2 d3" "linked d3 []" "cm d3 = cm d" "atomic (markers d3 mk) = atomic o1"
    using m3 d2(6,7) m1(3) markLines_flags by (auto simp: marked_upto_def)
  have w3: "wf_doc d3" using st3(1) by (simp add: same_text_def)
  have m4: "same_marks d3 d4" "cm d4 = cm d" "atomic (markers d4 mk) = atomic o1"
    using s4 hideMarked_same [OF w3, of p q d4] st3 w3 unfolding d2_def [symmetric] d3_def [symmetric]
    by (auto simp: same_marks_def same_text_refl split: if_split_asm)
  have w4: "wf_doc d4" using m4(1) by (simp add: same_marks_def same_text_def)
  have self: "same_marks x x" if "wf_doc x" for x using that by (simp add: same_marks_def same_text_refl)
  have m5: "same_marks d4 d5" "cm d5 = cm d" "atomic (markers d5 mk) = atomic o1" "wf_doc d5"
    using mark_flags_same [OF w4] m4 w4 self by (auto simp: d5_def)
  have m6: "same_marks d5 d6" "cm d6 = cm d" "cm d6 = None \<or> \<not> atomic (markers d6 mk)"
    using mark_flags_same [OF m5(4)] m5 self [OF m5(4)] plain m1(2) by (auto simp: d6_def atomic_mark_def)
  have w6: "wf_doc d6" using m6(1) by (simp add: same_marks_def same_text_def)
  have m7: "same_marks d6 d' \<and> markers d' = markers d6"
    by (rule syncMarker_same [OF w6 m6(3)]) (use s7 in \<open>simp only: d5_def d6_def\<close>)
  have m: "same_marks d3 d'" using m4(1) m5(1) m6(1) m7 same_marks_trans by blast
  have "\<exists>ls. markers d3 mk = m1\<lparr>mlines := ls\<rparr>"
    using m3 d2(6) unfolding marked_upto_def same_flags_def
    by (metis tmarker.surjective tmarker.update_convs(13))
  moreover have "markers d4 mk = markers d3 mk"
    using s4 hideMarked_same [OF w3, of p q d4] unfolding d2_def [symmetric] d3_def [symmetric] by (auto split: if_split_asm)
  moreover have "markers d5 mk = markers d4 mk" by (simp add: d5_def markReadOnly_def clearHistory_def Let_def)
  moreover have "\<exists>i a. markers d6 mk = (markers d5 mk)\<lparr>mid := i, atomic := a\<rparr>"
    by (cases "markers d5 mk") (auto simp: d6_def markCollapsed_def Let_def)
  ultimately show "\<exists>ls i a b. markers d' mk = (newMarker bm o1)\<lparr>collapsed := collapsed o1 \<or> replacedWith o1, widgetNode := b,
      mlines := ls, mid := i, atomic := a\<rparr>"
    using m7 mark_shape [where m = "markers d' mk" and rep = "replacedWith o1" and ?m0.0 = "newMarker bm o1"] unfolding m1_def by auto
  have st: "same_text d d'" using m d2(3) st3(1) same_text_trans by (auto simp: same_marks_def)
  show "mk = nextMarker d" by (fact m1(1))
  show "wf_doc d'" "texts d' = texts d" "first d' = first d" using st by (simp_all add: same_text_def texts_def)
  show "linked d' []" using st3(2) same_marks_linked [OF m] by simp
  show "covers d' mk p q" using marked_upto_end(1) [OF m3 r2 d2(5)] same_marks_covers [OF m] by simp
  show "in_doc d' p q" using r st same_text_length [OF st] by (simp add: in_doc_def same_text_def)
  show "covers d' mk' p' q' = covers d mk' p' q'" if "mk' \<noteq> mk" for mk' p' q'
    using marked_upto_end(2) [OF m3 r2 that] same_marks_covers [OF m] d2(3,4) same_text_length [OF d2(3)]
    by (simp add: covers_line_spans same_text_def)
  show "line_spans d' ! k = line_spans d ! k @ spans_between mk p q (first d + int k)" if k: "k < length (doc_lines d)" for k
  proof -
    have le: "first d \<le> pline p" "pline p \<le> pline q" using r by (auto simp: in_doc_def pos_le_iff)
    have f: "first d2 = first d" "length (doc_lines d2) = length (doc_lines d)" "line_spans d' = line_spans d3"
      using d2(3) same_text_length [OF d2(3)] m by (auto simp: same_text_def same_marks_def)
    have "line_index d2 (pline p) \<le> k \<and> k < line_index d2 (pline p) + nat (pline q + 1 - pline p)
      \<longleftrightarrow> pline p \<le> first d + int k \<and> first d + int k \<le> pline q"
      using le by (auto simp: line_index_def f)
    then show ?thesis using m3 k by (simp add: marked_upto_def f d2(4) spans_between_def)
  qed
qed

section \<open>Clearing a marker\<close>

text \<open>The spans of a line without the first span of a marker.\<close>

definition removeOne :: "nat \<Rightarrow> mspan list \<Rightarrow> mspan list" where
  "removeOne mk sps = (case getMarkedSpanFor sps mk of None \<Rightarrow> sps | Some sp \<Rightarrow> removeMarkedSpan sps sp)"

lemma spans_of_removeOne:
  "spans_of mk' (removeOne mk sps) = (if mk' = mk then tl (spans_of mk sps) else spans_of mk' sps)"
proof (induction sps)
  case (Cons sp sps)
  then show ?case by (auto simp: removeOne_def removeMarkedSpan_def dest!: getMarkedSpanFor_Some split: option.splits)
qed (simp add: removeOne_def)

lemma removeOne_none: "spans_of mk sps = [] \<Longrightarrow> removeOne mk sps = sps"
  by (simp add: removeOne_def getMarkedSpanFor_hd)

lemma removeOne_snoc:
  assumes "spans_of mk sps = []" "smarker sp = mk"
  shows "removeOne mk (sps @ [sp]) = sps"
proof -
  have "sp \<notin> set sps" using assms by (auto simp: spans_of_def filter_empty_conv)
  then show ?thesis using assms by (simp add: removeOne_def getMarkedSpanFor_hd removeMarkedSpan_def remove1_append)
qed

lemma clearLoop_spec:
  "wf_doc d \<Longrightarrow> distinct is \<Longrightarrow> clearLoop mk is lo hi d = Some (lo', hi', d') \<Longrightarrow>
    same_text d d' \<and> markers d' = markers d \<and> cantEdit d' = cantEdit d \<and>
    (\<forall>k < length (doc_lines d). line_spans d' ! k =
       (if lid (doc_lines d ! k) \<in> set is then removeOne mk (line_spans d ! k) else line_spans d ! k))"
proof (induction "is" arbitrary: d lo hi)
  case Nil
  then show ?case by (simp add: same_text_refl)
next
  case (Cons i "is")
  let ?m = "markers d mk"
  obtain line span no hidden where l: "lineById d i = Some line" "getMarkedSpanFor (lspans line) mk = Some span"
    and rest: "clearLoop mk is (if cm d \<noteq> None \<and> collapsed ?m \<and> sfrom span \<noteq> None then Some no else lo)
      (if cm d \<noteq> None \<and> collapsed ?m \<and> sto span \<noteq> None then Some no else hi)
      (let d2 = setSpans i (removeMarkedSpan (lspans line) span) (if cm d \<noteq> None \<and> \<not> collapsed ?m then log_view (RegLineChange no ''text'') d else d)
       in case cm d of Some e \<Rightarrow> if sfrom span = None \<and> collapsed ?m \<and> \<not> hidden
           then setHeight (line\<lparr>lspans := removeMarkedSpan (lspans line) span\<rparr>) (textHeight e) d2 else d2 | None \<Rightarrow> d2) = Some (lo', hi', d')"
    using Cons.prems(3) by (auto simp: bind_eq_Some_conv Let_def)
  define d1 where "d1 = (if cm d \<noteq> None \<and> \<not> collapsed ?m then log_view (RegLineChange no ''text'') d else d)"
  define d2 where "d2 = setSpans i (removeMarkedSpan (lspans line) span) d1"
  define d3 where "d3 = (case cm d of Some e \<Rightarrow> if sfrom span = None \<and> collapsed ?m \<and> \<not> hidden
           then setHeight (line\<lparr>lspans := removeMarkedSpan (lspans line) span\<rparr>) (textHeight e) d2 else d2 | None \<Rightarrow> d2)"
  have s1: "same_text d d1" "line_spans d1 = line_spans d" "markers d1 = markers d" "wf_doc d1" "cantEdit d1 = cantEdit d"
    using Cons.prems(1) by (simp_all add: d1_def same_text_def line_spans_def) (simp_all add: log_view_def)
  obtain k where k: "k < length (doc_lines d)" "line = doc_lines d ! k" "lid line = i"
    using l(1) by (auto simp: lineById_def find_Some_iff)
  have k1: "k < length (doc_lines d1)" using k(1) same_text_length [OF s1(1)] by simp
  have "map lid (doc_lines d1) ! k = map lid (doc_lines d) ! k" using s1(1) by (simp add: same_text_def)
  then have i: "i = lid (doc_lines d1 ! k)" using k k1 by simp
  note s2 = setSpans_spec [OF s1(4) k1 i, of "removeMarkedSpan (lspans line) span", folded d2_def]
  have w2: "wf_doc d2" using s2(1) by (simp add: same_text_def)
  have s3: "same_text d2 d3" "line_spans d3 = line_spans d2" "markers d3 = markers d2" "cantEdit d3 = cantEdit d2"
    using setHeight_spec [OF w2] same_text_refl [OF w2] by (auto simp: d3_def setHeight_def split: option.split)
  have st: "same_text d d3" using s1(1) s2(1) s3(1) same_text_trans by blast
  have w3: "wf_doc d3" using st by (simp add: same_text_def)
  have fl: "markers d3 = markers d" "cantEdit d3 = cantEdit d" using s3(3,4) s1(3,5) by (simp_all add: d2_def setSpans_def)
  have sp: "line_spans d3 = (line_spans d)[k := removeOne mk (line_spans d ! k)]"
    using s3(2) s2(2) s1(2) l(2) by (simp add: removeOne_def line_spans_nth [OF k(1)] k(2))
  have dist: "distinct is" "i \<notin> set is" using Cons.prems(2) by auto
  have rest': "clearLoop mk is (if cm d \<noteq> None \<and> collapsed ?m \<and> sfrom span \<noteq> None then Some no else lo)
      (if cm d \<noteq> None \<and> collapsed ?m \<and> sto span \<noteq> None then Some no else hi) d3 = Some (lo', hi', d')"
    using rest by (simp only: d3_def d2_def d1_def Let_def)
  note ih = Cons.IH [OF w3 dist(1) rest']
  have dl: "distinct (map lid (doc_lines d))" using Cons.prems(1) by (simp add: wf_doc_def)
  have ids: "lid (doc_lines d3 ! j) = lid (doc_lines d ! j)" if "j < length (doc_lines d)" for j
  proof -
    have "map lid (doc_lines d3) ! j = map lid (doc_lines d) ! j" using st by (simp add: same_text_def)
    then show ?thesis using that same_text_length [OF st] by simp
  qed
  have "line_spans d' ! j = (if lid (doc_lines d ! j) \<in> set (i # is) then removeOne mk (line_spans d ! j) else line_spans d ! j)"
    if j: "j < length (doc_lines d)" for j
  proof -
    have "lid (doc_lines d ! j) = i \<longleftrightarrow> j = k"
      using nth_eq_iff_index_eq [OF dl, of j k] j k by auto
    then show ?thesis
      using ih j sp ids [OF j] same_text_length [OF st] dist(2) k(1) by auto
  qed
  then show ?case using ih same_text_trans [OF st] fl by auto
qed

lemma clearLoop_total:
  "wf_doc d \<Longrightarrow> distinct is \<Longrightarrow> \<not> collapsed (markers d mk) \<Longrightarrow>
    (\<forall>i\<in>set is. \<exists>k<length (doc_lines d). i = lid (doc_lines d ! k) \<and> spans_of mk (line_spans d ! k) \<noteq> []) \<Longrightarrow>
    \<exists>lo' hi' d'. clearLoop mk is lo hi d = Some (lo', hi', d')"
proof (induction "is" arbitrary: d lo hi)
  case (Cons i "is")
  obtain k where k: "k < length (doc_lines d)" "i = lid (doc_lines d ! k)" "spans_of mk (line_spans d ! k) \<noteq> []"
    using Cons.prems(4) by auto
  obtain span where sp: "getMarkedSpanFor (lspans (doc_lines d ! k)) mk = Some span"
    using k(3) by (cases "spans_of mk (lspans (doc_lines d ! k))") (auto simp: getMarkedSpanFor_hd line_spans_nth [OF k(1)])
  define d1 where "d1 = (if cm d \<noteq> None then log_view (RegLineChange (first d + int k) ''text'') d else d)"
  define d2 where "d2 = setSpans i (removeMarkedSpan (lspans (doc_lines d ! k)) span) d1"
  have s1: "wf_doc d1" "doc_lines d1 = doc_lines d" "line_spans d1 = line_spans d" "markers d1 = markers d"
    using Cons.prems(1) by (simp_all add: d1_def line_spans_def)
  note s2 = setSpans_spec [OF s1(1), unfolded s1(2,3), OF k(1,2), of "removeMarkedSpan (lspans (doc_lines d ! k)) span", folded d2_def]
  have w2: "wf_doc d2" using s2(1) by (simp add: same_text_def)
  have len: "length (doc_lines d2) = length (doc_lines d)" using same_text_length [OF s2(1)] s1(2) by simp
  have lids: "map lid (doc_lines d2) = map lid (doc_lines d)" using s2(1) by (simp add: same_text_def s1(2))
  have step: "clearLoop mk (i # is) lo hi d = clearLoop mk is lo hi d2"
    using lineById_nth [OF Cons.prems(1) k(1)] sp Cons.prems(3) k(2)
    by (auto simp: d2_def d1_def Let_def split: option.split)
  have "\<not> collapsed (markers d2 mk)" using Cons.prems(3) s1(4) by (simp add: d2_def)
  moreover have "\<exists>j<length (doc_lines d2). i' = lid (doc_lines d2 ! j) \<and> spans_of mk (line_spans d2 ! j) \<noteq> []" if "i' \<in> set is" for i'
  proof -
    have "i' \<in> set (i # is)" using that by simp
    from bspec [OF Cons.prems(4) this] obtain j where j: "j < length (doc_lines d)" "i' = lid (doc_lines d ! j)" "spans_of mk (line_spans d ! j) \<noteq> []"
      by blast
    have "j \<noteq> k" using j(2) k(2) Cons.prems(2) that by auto
    then have "spans_of mk (line_spans d2 ! j) \<noteq> []" using j s2(2) by simp
    moreover have "lid (doc_lines d2 ! j) = lid (doc_lines d ! j)" using lids j(1) len by (metis nth_map)
    ultimately show ?thesis using j len by auto
  qed
  ultimately show ?case unfolding step using Cons.IH [OF w2] Cons.prems(2) by auto
qed simp

lemma at_lines_once:
  "(\<forall>l\<in>set ls. length (spans_of mk (lspans l)) \<le> 1) \<Longrightarrow> at_lines ls mk \<subseteq># mset (map lid ls)"
proof (induction ls)
  case (Cons l ls)
  then have a: "at_lines ls mk \<subseteq># mset (map lid ls)" and "length (spans_of mk (lspans l)) = 0 \<or> length (spans_of mk (lspans l)) = 1"
    by (auto simp: le_Suc_eq)
  then have "replicate_mset (length (spans_of mk (lspans l))) (lid l) \<subseteq># {#lid l#}" by (elim disjE) simp_all
  from subset_mset.add_mono [OF this a] show ?case by simp
qed simp

lemma mlines_distinct:
  assumes d: "wf_doc d" "linked d []" and one: "\<And>k. k < length (doc_lines d) \<Longrightarrow> length (spans_of mk (line_spans d ! k)) \<le> 1"
  shows "distinct (mlines (markers d mk))"
proof -
  have "\<forall>l\<in>set (doc_lines d). length (spans_of mk (lspans l)) \<le> 1"
    using one by (auto simp: in_set_conv_nth line_spans_nth)
  then have sub: "mset (mlines (markers d mk)) \<subseteq># mset (map lid (doc_lines d))"
    using at_lines_once [of "doc_lines d" mk] d(2) by (simp add: linked_def)
  have "distinct (map lid (doc_lines d))" using d(1) by (simp add: wf_doc_def)
  then have "\<forall>a. count (mset (map lid (doc_lines d))) a = (if a \<in> set (map lid (doc_lines d)) then 1 else 0)"
    unfolding distinct_count_atmost_1 .
  then have c: "count (mset (map lid (doc_lines d))) a \<le> 1" for a by (metis le_refl zero_le_one)
  have "count (mset (mlines (markers d mk))) a = (if a \<in> set (mlines (markers d mk)) then 1 else 0)" for a
  proof -
    have "count (mset (mlines (markers d mk))) a \<le> 1"
      using mset_subset_eq_count [OF sub, of a] c [of a] by linarith
    moreover have "a \<in> set (mlines (markers d mk)) \<longleftrightarrow> count (mset (mlines (markers d mk))) a \<noteq> 0" by (simp add: count_eq_zero_iff)
    ultimately show ?thesis by (metis le_antisym less_one not_le)
  qed
  then show ?thesis unfolding distinct_count_atmost_1 by blast
qed

text \<open>Clearing takes the spans of the marker off all lines.\<close>

definition once :: "doc \<Rightarrow> nat \<Rightarrow> bool" where
  "once d mk \<longleftrightarrow> (\<forall>k < length (doc_lines d). length (spans_of mk (line_spans d ! k)) \<le> 1)"

lemma covers_once: "covers d mk p q \<Longrightarrow> once d mk"
  by (simp add: once_def covers_line_spans spans_between_def)

lemma clearSpans_removes:
  assumes d: "wf_doc d" "linked d []" "once d mk" and c: "clearSpans mk d = Some d'"
  shows "same_text d d'" "\<And>k. k < length (doc_lines d) \<Longrightarrow> line_spans d' ! k = removeOne mk (line_spans d ! k)"
    "linked d' []" "gone d' mk" "cantEdit d' = cantEdit d"
proof -
  obtain lo hi d1 where l: "clearLoop mk (mlines (markers d mk)) None None d = Some (lo, hi, d1)"
    using c by (cases "clearLoop mk (mlines (markers d mk)) None None d") (auto simp: clearSpans_def)
  have dist: "distinct (mlines (markers d mk))" using mlines_distinct [OF d(1,2)] d(3) by (simp add: once_def)
  note s = clearLoop_spec [OF d(1) dist l]
  define d2 where "d2 = (case lo of None \<Rightarrow> d1 | Some n \<Rightarrow> if collapsed (markers d mk)
      then log_view (RegChange n (case hi of None \<Rightarrow> 1 | Some k \<Rightarrow> k + 1) 0) d1 else d1)"
  have d': "d' = d2\<lparr>markers := (markers d2)(mk := (markers d2 mk)\<lparr>mlines := [], explicitlyCleared := True\<rparr>)\<rparr>"
    using c l by (simp add: clearSpans_def d2_def Let_def)
  have e2: "doc_lines d2 = doc_lines d1" "wf_doc d2 = wf_doc d1" "first d2 = first d1" "markers d2 = markers d" "cantEdit d2 = cantEdit d"
    using s by (auto simp: d2_def log_view_def[of _ d1, THEN arg_cong, of cantEdit] split: option.split)
  have st: "same_text d d'" using s by (simp add: same_text_def d' e2)
  show "same_text d d'" by (fact st)
  show "cantEdit d' = cantEdit d" by (simp add: d' e2)
  have ls: "line_spans d' = line_spans d1" by (simp add: line_spans_def d' e2)
  show rm: "line_spans d' ! k = removeOne mk (line_spans d ! k)" if k: "k < length (doc_lines d)" for k
  proof (cases "lid (doc_lines d ! k) \<in> set (mlines (markers d mk))")
    case True
    then show ?thesis using s k by (simp add: ls)
  next
    case False
    then have "spans_of mk (line_spans d ! k) = []"
      unfolding set_mlines [OF d(2)] using k by (auto simp: line_spans_nth)
    then show ?thesis using s k False by (simp add: ls removeOne_none)
  qed
  have len: "length (doc_lines d') = length (doc_lines d)" by (rule same_text_length [OF st])
  show g: "gone d' mk"
    unfolding gone_line_spans
  proof (intro allI impI)
    fix k assume "k < length (doc_lines d')"
    then have k: "k < length (doc_lines d)" by (simp add: len)
    then have "length (spans_of mk (line_spans d ! k)) \<le> 1" using d(3) by (simp add: once_def)
    then show "spans_of mk (line_spans d' ! k) = []"
      by (cases "spans_of mk (line_spans d ! k)") (simp_all add: rm [OF k] spans_of_removeOne)
  qed
  have sets: "at_lines (doc_lines d') mk' = (if mk' = mk then {#} else at_lines (doc_lines d) mk')" for mk'
  proof (cases "mk' = mk")
    case True
    have "set_mset (at_lines (doc_lines d') mk) = {}"
      using g by (auto simp: set_at_lines gone_line_spans in_set_conv_nth line_spans_nth)
    then show ?thesis using True by simp
  next
    case False
    have "at_lines (doc_lines d') mk' = at_lines (doc_lines d) mk'"
    proof (rule at_lines_eq_of)
      show "map lid (doc_lines d') = map lid (doc_lines d)" using st by (simp add: same_text_def)
      show "spans_of mk' (lspans (doc_lines d' ! k)) = spans_of mk' (lspans (doc_lines d ! k))" if "k < length (doc_lines d)" for k
        using rm [OF that] that False len by (simp add: line_spans_nth [symmetric] spans_of_removeOne)
    qed
    then show ?thesis using False by simp
  qed
  then show "linked d' []" using d(2) by (simp add: linked_def d' e2)
qed

lemma marker_clear_removes:
  assumes d: "wf_doc d" "linked d []" "once d mk" and m: "\<not> collapsed (markers d mk)" "\<not> explicitlyCleared (markers d mk)"
    and a: "\<not> (atomic (markers d mk) \<and> cantEdit d)"
  obtains d' where "marker_clear mk d = Some d'" "same_text d d'" "linked d' []" "gone d' mk"
    "\<And>k. k < length (doc_lines d) \<Longrightarrow> line_spans d' ! k = removeOne mk (line_spans d ! k)"
proof -
  have dist: "distinct (mlines (markers d mk))" using mlines_distinct [OF d(1,2)] d(3) by (simp add: once_def)
  have on: "\<forall>i\<in>set (mlines (markers d mk)). \<exists>k<length (doc_lines d). i = lid (doc_lines d ! k) \<and> spans_of mk (line_spans d ! k) \<noteq> []"
    unfolding set_mlines [OF d(2)] by (auto simp: in_set_conv_nth line_spans_nth)
  obtain lo hi d1 where "clearLoop mk (mlines (markers d mk)) None None d = Some (lo, hi, d1)"
    using clearLoop_total [OF d(1) dist m(1) on, of None None] by blast
  then obtain d' where c: "clearSpans mk d = Some d'" by (simp add: clearSpans_def Let_def)
  note r = clearSpans_removes [OF d c]
  obtain n where "skipFuel d = Suc n" by (simp add: skipFuel_def Let_def)
  then have "marker_clear mk d = Some d'" using m(2) a c r(5) by (auto simp: marker_clear_def)
  then show ?thesis using r that by blast
qed

section \<open>Listing markers\<close>

lemma iterLines_concat:
  "iterLines (\<lambda>l (n, out). ((n + 1, out @ g n l), False)) ls (n0, out)
    = ((n0 + int (length ls), out @ concat (map (\<lambda>k. g (n0 + int k) (ls ! k)) [0..<length ls])), False)"
proof (induction ls arbitrary: out rule: rev_induct)
  case (snoc l ls)
  have "map (\<lambda>k. g (n0 + int k) ((ls @ [l]) ! k)) [0..<length ls] = map (\<lambda>k. g (n0 + int k) (ls ! k)) [0..<length ls]"
    by (rule map_cong) (auto simp: nth_append)
  from arg_cong [OF this, of concat] show ?case by (simp add: iterLines_append snoc)
qed simp

text \<open>The test of \<open>findMarks\<close> for a span on line \<open>n\<close>.\<close>

definition reported :: "pos \<Rightarrow> pos \<Rightarrow> int \<Rightarrow> mspan \<Rightarrow> bool" where
  "reported f t n sp \<longleftrightarrow> \<not> (n = pline f \<and> pch f > null0 (sto sp) \<or> sfrom sp = None \<and> n \<noteq> pline f \<or>
     n = pline t \<and> null0 (sfrom sp) > pch t)"

lemma findMarks_lines:
  assumes d: "wf_doc d" and f: "pos_ok d f" and t: "pos_ok d t" and le: "f \<le> t"
  shows "findMarks d f t (\<lambda>_. True) = Some (concat (map (\<lambda>k. map smarker (filter (reported f t (pline f + int k))
      (line_spans d ! (line_index d (pline f) + k)))) [0..<nat (pline t + 1 - pline f)]))"
proof -
  let ?a = "line_index d (pline f)" and ?n = "nat (pline t + 1 - pline f)"
  let ?ls = "take ?n (drop ?a (doc_lines d))"
  have lines: "pline f \<le> pline t" "first d \<le> pline f" using le f by (auto simp: pos_le_iff pos_ok_def)
  have a: "int ?a = pline f - first d" "?a + ?n \<le> length (doc_lines d)"
    using lines t by (auto simp: line_index_def pos_ok_def)
  then have len: "length ?ls = ?n" by simp
  have "findMarks d f t (\<lambda>_. True) = Some (snd (fst (iterLines
      (\<lambda>l (n, out). ((n + 1, out @ map smarker (filter (reported f t n) (lspans l))), False)) ?ls (pline f, []))))"
    using clipPos_id [OF d f] clipPos_id [OF d t]
    by (simp add: findMarks_def iter_lines [OF d lines(2)] line_index_def reported_def [abs_def])
  also have "\<dots> = Some (concat (map (\<lambda>k. map smarker (filter (reported f t (pline f + int k)) (lspans (?ls ! k)))) [0..<?n]))"
    unfolding iterLines_concat len by simp
  also have "map (\<lambda>k. map smarker (filter (reported f t (pline f + int k)) (lspans (?ls ! k)))) [0..<?n]
    = map (\<lambda>k. map smarker (filter (reported f t (pline f + int k)) (line_spans d ! (?a + k)))) [0..<?n]"
    by (rule map_cong) (use a in \<open>auto simp: line_spans_nth\<close>)
  finally show ?thesis .
qed

lemma smarker_spans:
  "mk \<in> set (concat (map (\<lambda>k. map smarker (filter (P k) (L k))) [0..<n])) \<longleftrightarrow> (\<exists>k<n. \<exists>sp\<in>set (spans_of mk (L k)). P k sp)"
  by (auto simp: spans_of_def)

lemma findMarks_member:
  assumes d: "wf_doc d" and f: "pos_ok d f" and t: "pos_ok d t" and le: "f \<le> t" and m: "marker_at d mk p q"
  shows "\<exists>ms. findMarks d f t (\<lambda>_. True) = Some ms \<and>
    (mk \<in> set ms \<longleftrightarrow> (\<exists>n. pline f \<le> n \<and> n \<le> pline t \<and> pline p \<le> n \<and> n \<le> pline q \<and> reported f t n (span_at mk p q n)))"
proof -
  have a: "int (line_index d (pline f)) = pline f - first d" "pline t < first d + int (length (doc_lines d))"
    using f t by (auto simp: line_index_def pos_ok_def)
  have sp: "spans_of mk (line_spans d ! (line_index d (pline f) + k)) = spans_between mk p q (pline f + int k)"
    if "k < nat (pline t + 1 - pline f)" for k
  proof -
    have "line_index d (pline f) + k < length (doc_lines d)" using that a by linarith
    then have "spans_of mk (line_spans d ! (line_index d (pline f) + k)) = spans_between mk p q (first d + int (line_index d (pline f) + k))"
      using m by (simp only: marker_at_def covers_line_spans)
    moreover have "first d + int (line_index d (pline f) + k) = pline f + int k" using a by simp
    ultimately show ?thesis by (simp only:)
  qed
  have "(\<exists>k < nat (pline t + 1 - pline f). P (pline f + int k)) \<longleftrightarrow> (\<exists>n. pline f \<le> n \<and> n \<le> pline t \<and> P n)" for P
  proof
    assume "\<exists>n. pline f \<le> n \<and> n \<le> pline t \<and> P n"
    then obtain n where "pline f \<le> n" "n \<le> pline t" "P n" by blast
    then show "\<exists>k < nat (pline t + 1 - pline f). P (pline f + int k)" by (intro exI [of _ "nat (n - pline f)"]) auto
  next
    assume "\<exists>k < nat (pline t + 1 - pline f). P (pline f + int k)"
    then obtain k where "k < nat (pline t + 1 - pline f)" "P (pline f + int k)" by blast
    then show "\<exists>n. pline f \<le> n \<and> n \<le> pline t \<and> P n" by (intro exI [of _ "pline f + int k"]) auto
  qed
  note ex = this [of "\<lambda>n. \<exists>sp\<in>set (spans_between mk p q n). reported f t n sp"]
  have "(\<exists>k < nat (pline t + 1 - pline f). \<exists>sp\<in>set (spans_of mk (line_spans d ! (line_index d (pline f) + k))).
      reported f t (pline f + int k) sp)
    \<longleftrightarrow> (\<exists>k < nat (pline t + 1 - pline f). \<exists>sp\<in>set (spans_between mk p q (pline f + int k)). reported f t (pline f + int k) sp)"
    using sp by (metis (no_types, lifting))
  moreover have "(\<exists>sp\<in>set (spans_between mk p q n). reported f t n sp) \<longleftrightarrow> pline p \<le> n \<and> n \<le> pline q \<and> reported f t n (span_at mk p q n)" for n
    by (simp add: spans_between_def)
  ultimately show ?thesis
    unfolding findMarks_lines [OF assms(1-4)] using ex by (auto simp: smarker_spans simp del: set_concat)
qed

section \<open>Properties\<close>

definition plain_options :: moptions where
  "plain_options = tmarker.extend (TextMarker False) (moptions.fields False False)"

lemma plain_options_sel [simp]:
  "clearWhenEmpty plain_options" "\<not> collapsed plain_options" "\<not> replacedWith plain_options" "\<not> atomic plain_options"
  "\<not> addToHistory plain_options" "\<not> atomic_mark plain_options"
  by (simp_all add: plain_options_def TextMarker_def moptions.defs tmarker.defs atomic_mark_def)

lemma markText_total:
  assumes d: "wf_doc d" "linked d []" "gone d (nextMarker d)" and r: "in_doc d p q"
    and o1: "p = q \<longrightarrow> \<not> clearWhenEmpty o1" "\<not> collapsed o1" "\<not> replacedWith o1" "\<not> atomic o1" "\<not> addToHistory o1"
  obtains d' where "markText d p q o1 bm = Some (nextMarker d, d')" "\<not> atomic (markers d' (nextMarker d))"
proof -
  let ?mk = "nextMarker d"
  let ?d2 = "setMarker ?mk (newMarker bm o1) d"
  let ?d4 = "markLines ?mk False p q ?d2"
  let ?d5 = "if readOnly o1 then markReadOnly ?d4 else ?d4"
  have ne: "\<not> (0 < cmp p q \<or> cmp p q = 0 \<and> clearWhenEmpty (newMarker bm o1))" using r o1(1) by (auto simp: in_doc_def)
  have e: "?d2 = d\<lparr>nextMarker := Suc ?mk, markers := (markers d)(?mk := newMarker bm o1),
      sawCollapsedSpans := sawCollapsedSpans d \<or> collapsed (newMarker bm o1), history := history d\<rparr>"
    by (simp add: setMarker_def)
  note reg = registered [OF d newMarker_sel(1) e]
  have r2: "in_doc ?d2 p q" using r reg(3) same_text_length [OF reg(3)] by (simp add: in_doc_def same_text_def)
  have na: "\<not> atomic (markers ?d4 ?mk)"
    using markLines_spec [OF reg(1,2) r2, of ?mk False] markLines_flags [of ?d2 ?d4 ?mk] reg(6) o1(4)
    by (simp add: marked_upto_def)
  then have na5: "\<not> atomic (markers ?d5 ?mk)" by (simp add: markReadOnly_def clearHistory_def Let_def)
  then have "syncMarker ?mk False (styled o1) p q ?d5 \<noteq> None"
    by (auto simp: syncMarker_def fold_log_marks Let_def)
  then obtain d' where s: "syncMarker ?mk False (styled o1) p q ?d5 = Some d'" by blast
  have w4: "wf_doc ?d4" using markLines_spec [OF reg(1,2) r2, of ?mk False] by (simp add: marked_upto_def same_text_def)
  have "wf_doc ?d5" using w4 mark_flags_same(3) [OF w4] by simp
  then have "\<not> atomic (markers d' ?mk)" using syncMarker_same [OF _ _ s] na5 by simp
  moreover have "markText d p q o1 bm = do { d7 \<leftarrow> syncMarker ?mk False (styled o1) p q ?d5; Some (?mk, d7) }"
    unfolding markText_def Let_def if_not_P [OF ne] using o1 by simp
  ultimately show ?thesis using that s by simp
qed

text \<open>
  C26. Marking text: when \<open>markText\<close> returns a marker, it has the next number and its \<open>find\<close> returns the marked
  range; the text stays, and all other markers stay where they were. The range is not empty unless the marker
  may be, and where there is an editor the marker is not atomic.
\<close>

theorem markText_found:
  assumes "wf_doc d" "linked d []" "gone d (nextMarker d)" "in_doc d p q"
    "p = q \<longrightarrow> \<not> clearWhenEmpty o1" "cm d = None \<or> \<not> atomic_mark o1" "markText d p q o1 bm = Some (mk, d')"
  shows "mk = nextMarker d \<and> findBoth d' mk = Some (p, q) \<and> linked d' [] \<and> texts d' = texts d \<and>
    (\<forall>mk' p' q'. mk' \<noteq> mk \<longrightarrow> covers d' mk' p' q' = covers d mk' p' q')"
  using markText_marks [OF assms] findBoth_covers by auto

lemma marked_doc_fresh: "gone marked_doc (nextMarker marked_doc)" "in_doc marked_doc (Pos 6 0) (Pos 8 2)" "cm marked_doc = None"
proof -
  have "nextMarker marked_doc = 1" "cm marked_doc = None" by (simp_all add: marked_doc_def sample_doc_def)
  then show "gone marked_doc (nextMarker marked_doc)" "cm marked_doc = None"
    by (simp_all add: gone_line_spans line_spans_def sample_line_def All_less_Suc eval_nat_numeral)
  show "in_doc marked_doc (Pos 6 0) (Pos 8 2)" by (simp add: in_doc_def pos_le_iff)
qed

theorem markText_found_witness:
  "\<exists>d'. markText marked_doc (Pos 6 0) (Pos 8 2) plain_options False = Some (1, d') \<and> findBoth d' 1 = Some (Pos 6 0, Pos 8 2)"
proof -
  have n: "nextMarker marked_doc = 1" by (simp add: marked_doc_def sample_doc_def)
  obtain d' where "markText marked_doc (Pos 6 0) (Pos 8 2) plain_options False = Some (1, d')"
    using markText_total [OF marked_doc_lines(3) marked_doc_linked(1) marked_doc_fresh(1,2), of plain_options False] n by auto
  with markText_found [OF marked_doc_lines(3) marked_doc_linked(1) marked_doc_fresh(1,2), of plain_options False 1 d']
  show ?thesis using marked_doc_fresh(3) by auto
qed

lemma marked_flags:
  assumes "\<exists>ls i a b. m = (newMarker bm o1)\<lparr>collapsed := c, widgetNode := b, mlines := ls, mid := i, atomic := a\<rparr>"
  shows "\<not> explicitlyCleared m" "collapsed m = c" "clearWhenEmpty m = clearWhenEmpty o1" "bookmark m = bm"
    "inclusiveLeft m = inclusiveLeft o1" "inclusiveRight m = inclusiveRight o1"
  using assms by (auto simp: newMarker_def tmarker.truncate_def)

text \<open>
  C14. Marking and clearing. With options that are neither \<open>collapsed\<close>, \<open>replacedWith\<close>, \<open>atomic\<close> nor
  \<open>addToHistory\<close>, and a range that is not empty unless the marker may be, \<open>markText\<close> succeeds and the marker is
  found where it was put; \<open>clear\<close> then succeeds, the marker is found nowhere, and every line has the text and the
  spans it had before.
\<close>

theorem markText_clear:
  assumes "wf_doc d" "linked d []" "gone d (nextMarker d)" "in_doc d p q" "p = q \<longrightarrow> \<not> clearWhenEmpty o1"
    "\<not> collapsed o1" "\<not> replacedWith o1" "\<not> atomic o1" "\<not> addToHistory o1"
  shows "\<exists>d' d''. markText d p q o1 bm = Some (nextMarker d, d') \<and> findBoth d' (nextMarker d) = Some (p, q) \<and>
    marker_clear (nextMarker d) d' = Some d'' \<and> findBoth d'' (nextMarker d) = None \<and> contents d'' = contents d"
proof -
  let ?mk = "nextMarker d"
  obtain d' where m: "markText d p q o1 bm = Some (?mk, d')" "\<not> atomic (markers d' ?mk)"
    using markText_total [OF assms] .
  have pl: "cm d = None \<or> \<not> atomic_mark o1" using assms by (simp add: atomic_mark_def)
  note r = markText_marks [OF assms(1-5) pl m(1)] and fl = marked_flags [OF markText_marks(10) [OF assms(1-5) pl m(1)]]
  have nc: "\<not> collapsed (markers d' ?mk)" using fl(2) assms(6,7) by simp
  obtain d'' where c: "marker_clear ?mk d' = Some d''" "same_text d' d''" "linked d'' []" "gone d'' ?mk"
    "\<And>k. k < length (doc_lines d') \<Longrightarrow> line_spans d'' ! k = removeOne ?mk (line_spans d' ! k)"
    using marker_clear_removes [OF r(2,3) covers_once [OF r(4)] nc fl(1)] m(2) by metis
  have t: "texts d'' = texts d" using c(2) r(6) by (simp add: same_text_def texts_def)
  then have len: "length (doc_lines d'') = length (doc_lines d)" "length (doc_lines d') = length (doc_lines d)"
    using r(6) by (metis length_contents(2))+
  have "line_spans d'' = line_spans d"
  proof (rule nth_equalityI)
    fix k assume "k < length (line_spans d'')"
    then have k: "k < length (doc_lines d)" by (simp add: len)
    have fresh: "spans_of ?mk (line_spans d ! k) = []" using assms(3) k by (simp add: gone_line_spans)
    have "line_spans d'' ! k = removeOne ?mk (line_spans d ! k @ spans_between ?mk p q (first d + int k))"
      using c(5) r(8) [OF k] k by (simp add: len)
    also have "\<dots> = line_spans d ! k"
      using removeOne_snoc [OF fresh] removeOne_none [OF fresh] by (simp add: spans_between_def span_at_def)
    finally show "line_spans d'' ! k = line_spans d ! k" .
  qed (simp add: len)
  then have "contents d'' = contents d" using t by (simp add: contents_line_spans)
  then show ?thesis
    using m(1) c(1) findBoth_covers [OF r(2-5)] findBoth_gone [OF c(3,4)] by blast
qed

theorem markText_clear_witness:
  "\<exists>d' d''. markText marked_doc (Pos 6 0) (Pos 8 2) plain_options False = Some (nextMarker marked_doc, d') \<and>
    marker_clear (nextMarker marked_doc) d' = Some d'' \<and> contents d'' = contents marked_doc"
  using markText_clear [OF marked_doc_lines(3) marked_doc_linked(1) marked_doc_fresh(1,2), of plain_options False] by auto

text \<open>
  C36. What \<open>findMarks\<close> reports. Of two positions of the document in order, a marker is reported when its
  range and theirs touch, except when it goes on behind the line of the first position and that
  position is not at the start of its line: \<open>from.ch > span.to\<close> is true for a span that ends on
  another line, whose \<open>to\<close> is null.
\<close>

theorem findMarks_reports:
  assumes "wf_doc d" "pos_ok d f" "pos_ok d t" "f \<le> t" "marker_at d mk p q" "0 \<le> pch p" "0 \<le> pch q"
  shows "\<exists>ms. findMarks d f t (\<lambda>_. True) = Some ms \<and>
    (mk \<in> set ms \<longleftrightarrow> p \<le> t \<and> f \<le> q \<and> \<not> (pline p \<le> pline f \<and> pline f < pline q \<and> 0 < pch f))"
proof -
  have ch: "0 \<le> pch f" "0 \<le> pch t" using assms(2,3) by (auto simp: pos_ok_def)
  have pq: "p \<le> q" using assms(5) by (simp add: marker_at_def in_doc_def)
  have hd: "reported f t (pline f) (span_at mk p q (pline f)) \<longleftrightarrow>
      (if pline f = pline q then pch f \<le> pch q else pch f \<le> 0) \<and> (pline f = pline t \<and> pline f = pline p \<longrightarrow> pch p \<le> pch t)"
    using ch by (auto simp: reported_def span_at_def null0_def)
  have tl: "reported f t n (span_at mk p q n) \<longleftrightarrow> n = pline p \<and> (n = pline t \<longrightarrow> pch p \<le> pch t)" if "n \<noteq> pline f" for n
    using that ch by (auto simp: reported_def span_at_def null0_def)
  have "(\<exists>n. pline f \<le> n \<and> n \<le> pline t \<and> pline p \<le> n \<and> n \<le> pline q \<and> reported f t n (span_at mk p q n)) \<longleftrightarrow>
      pline p \<le> pline f \<and> pline f \<le> pline q \<and> reported f t (pline f) (span_at mk p q (pline f))
      \<or> pline f < pline p \<and> pline p \<le> pline t \<and> (pline p = pline t \<longrightarrow> pch p \<le> pch t)" (is "?L \<longleftrightarrow> ?R")
  proof
    assume ?L
    then obtain n where n: "pline f \<le> n" "n \<le> pline t" "pline p \<le> n" "n \<le> pline q" "reported f t n (span_at mk p q n)" by blast
    then show ?R using tl [of n] by (cases "n = pline f") auto
  next
    assume ?R
    then show ?L
    proof
      assume "pline p \<le> pline f \<and> pline f \<le> pline q \<and> reported f t (pline f) (span_at mk p q (pline f))"
      then show ?L using assms(4) by (auto simp: pos_le_iff intro!: exI [of _ "pline f"])
    next
      assume "pline f < pline p \<and> pline p \<le> pline t \<and> (pline p = pline t \<longrightarrow> pch p \<le> pch t)"
      then show ?L using tl [of "pline p"] pq by (auto simp: pos_le_iff intro!: exI [of _ "pline p"])
    qed
  qed
  moreover have "?R \<longleftrightarrow> p \<le> t \<and> f \<le> q \<and> \<not> (pline p \<le> pline f \<and> pline f < pline q \<and> 0 < pch f)"
    unfolding hd using pq assms(4) ch by (auto simp: pos_le_iff)
  ultimately show ?thesis using findMarks_member [OF assms(1-5)] by simp
qed

theorem findMarks_reports_witness:
  "\<exists>d' ms. markText marked_doc (Pos 6 0) (Pos 8 2) plain_options False = Some (1, d') \<and> findBoth d' 1 = Some (Pos 6 0, Pos 8 2) \<and>
    findMarks d' (Pos 7 1) (Pos 8 0) (\<lambda>_. True) = Some ms \<and> 1 \<notin> set ms"
proof -
  have n: "nextMarker marked_doc = 1" by (simp add: marked_doc_def sample_doc_def)
  obtain d' where m: "markText marked_doc (Pos 6 0) (Pos 8 2) plain_options False = Some (1, d')"
    using markText_total [OF marked_doc_lines(3) marked_doc_linked(1) marked_doc_fresh(1,2), of plain_options False] n by auto
  have pl: "cm marked_doc = None \<or> \<not> atomic_mark plain_options" "Pos 6 0 = Pos 8 2 \<longrightarrow> \<not> clearWhenEmpty plain_options" by simp_all
  note args = marked_doc_lines(3) marked_doc_linked(1) marked_doc_fresh(1,2) pl(2,1) m
  note r = markText_marks [OF args] and fl = marked_flags [OF markText_marks(10) [OF args]]
  have at: "marker_at d' 1 (Pos 6 0) (Pos 8 2)"
    using r(4,5) fl by (simp add: marker_at_def range_ok_def pos_le_iff)
  have "texts d' = texts sample_doc" using r(6) by (simp add: texts_def)
  then have ok: "pos_ok d' (Pos 7 1)" "pos_ok d' (Pos 8 0)"
    using r(7) length_contents(2) [of d'] by (simp_all add: pos_ok_def line_index_def eval_nat_numeral)
  show ?thesis
    using findMarks_reports [OF r(2) ok _ at] m findBoth_covers [OF r(2-5)] by (auto simp: pos_le_iff)
qed

text \<open>
  \<open>findMarksAt\<close> reports the markers whose range contains the position, the ends included.
\<close>

theorem findMarksAt_reports:
  assumes "wf_doc d" "pos_ok d x" "marker_at d mk p q"
  shows "\<exists>ms. findMarksAt d x = Some ms \<and> (mk \<in> set ms \<longleftrightarrow> p \<le> x \<and> x \<le> q)"
proof -
  note at = pos_ok_line [OF assms(1,2)]
  have sp: "spans_of mk (lspans (doc_lines d ! line_index d (pline x))) = spans_between mk p q (pline x)"
    using assms(3) at(1,3) covers_line [of d mk p q] by (simp add: marker_at_def)
  have "findMarksAt d x = Some (map smarker (filter (\<lambda>sp. (case sfrom sp of None \<Rightarrow> True | Some f \<Rightarrow> f \<le> pch x)
      \<and> (case sto sp of None \<Rightarrow> True | Some t \<Rightarrow> pch x \<le> t)) (lspans (doc_lines d ! line_index d (pline x)))))"
    using clipPos_id [OF assms(1,2)] at(2) by (simp add: findMarksAt_def)
  moreover have "mk \<in> smarker ` {sp \<in> set sps. P sp} \<longleftrightarrow> (\<exists>sp\<in>set (spans_of mk sps). P sp)" for P sps
    by (auto simp: spans_of_def)
  ultimately show ?thesis
    using sp by (auto simp: spans_between_def span_at_def pos_le_iff)
qed

theorem findMarksAt_reports_witness:
  "\<exists>ms. findMarksAt marked_doc (Pos 7 1) = Some ms \<and> 0 \<in> set ms"
  using findMarksAt_reports [OF marked_doc_lines(3) _ marked_doc_linked(2), of "Pos 7 1"]
  by (auto simp: pos_ok_def line_index_def pos_le_iff texts_def sample_line_def eval_nat_numeral)

text \<open>
  \<open>getAllMarks\<close> goes through all lines only in a document whose first line is number 0: here the first
  line is number 5, and the marker of the document is not reported.
\<close>

lemma getAllMarks_misses: "getAllMarks marked_doc = [] \<and> findBoth marked_doc 0 = Some (Pos 7 0, Pos 7 1)"
proof
  show "findBoth marked_doc 0 = Some (Pos 7 0, Pos 7 1)"
    by (rule marker_at_find [OF marked_doc_lines(3) marked_doc_linked])
  show "getAllMarks marked_doc = []"
    by (simp add: getAllMarks_def iter_all_def marked_doc_def sample_doc_def newBranch_def newLeaf_def eval_nat_numeral doc_size_def sample_line_def)
qed

end
