(* ===== verification/Changes.thy ===== *)
theory Changes
  imports Selections
begin

text \<open>
  Making changes to a document: the filter of \<open>beforeChange\<close> handlers, the splitting of changes
  around read-only ranges, registering a change in the history, performing it on the lines with its
  spans and the selection, and undoing and redoing changes from the history.
\<close>

section \<open>Operations\<close>

definition clipOpt :: "doc \<Rightarrow> pos option \<Rightarrow> pos \<Rightarrow> pos option" where
  "clipOpt d q old = (case q of None \<Rightarrow> Some old | Some p \<Rightarrow> clipPos d p)"

text \<open>
  The calls of one handler on the object it is given; \<open>update\<close> is missing from the object when a
  change comes from the history, so calling it throws.
\<close>

fun runFilterCalls :: "doc \<Rightarrow> bool \<Rightarrow> filter_call list \<Rightarrow> change \<times> bool \<Rightarrow> (change \<times> bool) option" where
  "runFilterCalls d upd [] st = Some st"
| "runFilterCalls d upd (Cancel # calls) (c, canceled) = runFilterCalls d upd calls (c, True)"
| "runFilterCalls d upd (Update f t x og # calls) (c, canceled) =
     (if upd then do {
        f' \<leftarrow> clipOpt d f (cfrom c);
        t' \<leftarrow> clipOpt d t (cto c);
        runFilterCalls d upd calls
          (c\<lparr>cfrom := f', cto := t', ctext := (case x of None \<Rightarrow> ctext c | Some y \<Rightarrow> y),
             corigin := (case og of None \<Rightarrow> corigin c | Some o' \<Rightarrow> o')\<rparr>, canceled) }
      else None)"

fun runChangeHandlers :: "doc \<Rightarrow> bool \<Rightarrow> change_handler list \<Rightarrow> change \<times> bool \<Rightarrow> (change \<times> bool) option" where
  "runChangeHandlers d upd [] st = Some st"
| "runChangeHandlers d upd (h # hs) st = do {
     st' \<leftarrow> runFilterCalls d upd (h (fst st)) st;
     runChangeHandlers d upd hs st' }"

text \<open>\<open>filterChange\<close>: null (here \<open>Some None\<close>) when a handler canceled the change.\<close>

definition filterChange :: "doc \<Rightarrow> change \<Rightarrow> bool \<Rightarrow> change option option" where
  "filterChange d c upd = do {
     (c', canceled) \<leftarrow> runChangeHandlers d upd (beforeChange d) (c, False);
     Some (if canceled then None else Some c') }"

definition shiftDoc :: "doc \<Rightarrow> int \<Rightarrow> doc" where
  "shiftDoc d distance =
     (if distance = 0 then d
      else
        let first' = first d + distance
        in log_view (RegChange first' (first' - distance) distance)
             (d\<lparr>first := first',
                sel := Selection (map (\<lambda>r. Range (Pos (pline (anchor r) + distance) (pch (anchor r)))
                                                (Pos (pline (head r) + distance) (pch (head r)))) (ranges (sel d)))
                         (primIndex (sel d))\<rparr>))"

definition makeChangeSingleDocInEditor :: "doc \<Rightarrow> editor \<Rightarrow> change \<Rightarrow> mspan list list option \<Rightarrow> doc option" where
  "makeChangeSingleDocInEditor d e c spans = do {
     let from = cfrom c;
     let to = cto c;
     checkWidthStart \<leftarrow> (if \<not> lineWrapping e then do {
                           line \<leftarrow> getLine d (pline from);
                           vis \<leftarrow> visualLine d (lid line);
                           lineNoOf d vis }
                         else Some (pline from));
     let d1 = (if sel_contains (sel d) from (Some to) > -1 then log_view CursorActivity d else d);
     d2 \<leftarrow> updateDoc d1 c spans (Some (estimateHeight e));
     let d3 = (if \<not> lineWrapping e then log_view (MeasureLines checkWidthStart (pline from + int (length (ctext c)))) d2 else d2);
     let d4 = log_view (StartWorker 400) (d3\<lparr>frontier := min (frontier d3) (pline from)\<rparr>);
     let lendiff = int (length (ctext c)) - (pline to - pline from) - 1;
     Some (if pline from = pline to \<and> length (ctext c) = 1 \<and> \<not> isWholeLineUpdate d4 c
           then log_view (RegLineChange (pline from) ''text'') d4
           else log_view (RegChange (pline from) (pline to + 1) lendiff) d4)
   }"

text \<open>
  \<open>makeChangeSingleDoc\<close>: the part of a change that lies outside the document (which happens to a
  document that shows part of another) is clipped off or shifts the document.
\<close>

definition clipChange :: "doc \<Rightarrow> change \<Rightarrow> (change \<times> doc) option" where
  "clipChange d c =
     do {
       let shift = int (length (ctext c)) - 1 - (first d - pline (cfrom c));
       (c1, d1) \<leftarrow> (if pline (cfrom c) < first d then
                     (let d1 = shiftDoc d shift in do {
                        t \<leftarrow> lst (ctext c);
                        Some (\<lparr>cfrom = Pos (first d1) 0, cto = Pos (pline (cto c) + shift) (pch (cto c)),
                               ctext = [t], corigin = corigin c\<rparr>, d1) })
                   else Some (c, d));
       if pline (cto c1) > lastLine d1 then do {
         l \<leftarrow> getLine d1 (lastLine d1);
         (case ctext c1 of
            [] \<Rightarrow> None
          | t # ts \<Rightarrow> Some (\<lparr>cfrom = cfrom c1, cto = Pos (lastLine d1) (int (length (ltext l))), ctext = [t],
                           corigin = corigin c1\<rparr>, d1)) }
       else Some (c1, d1) }"

definition makeChangeSingleDoc :: "doc \<Rightarrow> change \<Rightarrow> selection option \<Rightarrow> mspan list list option \<Rightarrow> doc option" where
  "makeChangeSingleDoc d c selAfter spans =
     (if pline (cto c) < first d
      then Some (shiftDoc d (int (length (ctext c)) - 1 - (pline (cto c) - pline (cfrom c))))
      else if pline (cfrom c) > lastLine d then Some d
      else do {
        (c1, d1) \<leftarrow> clipChange d c;
        let s = (case selAfter of None \<Rightarrow> computeSelAfterChange (sel d1) c1 | Some s' \<Rightarrow> s');
        d2 \<leftarrow> (case cm d1 of
                Some e \<Rightarrow> makeChangeSingleDocInEditor d1 e c1 spans
              | None \<Rightarrow> updateDoc d1 c1 spans None);
        setSelectionNoUndo d2 s (Some sel_dontScroll) })"

definition makeChangeInner :: "doc \<Rightarrow> change \<Rightarrow> doc option" where
  "makeChangeInner d c =
     (if length (ctext c) = 1 \<and> hd (ctext c) = [] \<and> cmp (cfrom c) (cto c) = 0 then Some d
      else do {
        let selAfter = computeSelAfterChange (sel d) c;
        d1 \<leftarrow> addChangeToHistory d c selAfter (current_op d);
        makeChangeSingleDoc d1 c (Some selAfter) (stretchSpansOverChange d1 c) })"

text \<open>The parts of a split change are made from the last to the first; the first takes the text.\<close>

fun makeParts :: "doc \<Rightarrow> (nat \<times> pos \<times> pos) list \<Rightarrow> jstr list \<Rightarrow> doc option" where
  "makeParts d [] ts = Some d"
| "makeParts d ((i, f, t) # parts) ts = do {
     d1 \<leftarrow> makeChangeInner d \<lparr>cfrom = f, cto = t, ctext = (if i \<noteq> 0 then [[]] else ts), corigin = None\<rparr>;
     makeParts d1 parts ts }"

definition makeChange :: "doc \<Rightarrow> change \<Rightarrow> bool \<Rightarrow> doc option" where
  "makeChange d c ignoreReadOnly =
     (if (case cm d of None \<Rightarrow> False | Some e \<Rightarrow> suppressEdits e) then Some d
      else do {
        filtered \<leftarrow> (if beforeChange d \<noteq> [] then filterChange d c True else Some (Some c));
        (case filtered of
           None \<Rightarrow> Some d
         | Some c1 \<Rightarrow> do {
             split \<leftarrow> (if sawReadOnlySpans d \<and> \<not> ignoreReadOnly then removeReadOnlyRanges d (cfrom c1) (cto c1)
                      else Some None);
             (case split of
                Some parts \<Rightarrow> makeParts d (rev (zip [0..<length parts] parts)) (ctext c1)
              | None \<Rightarrow> makeChangeInner d c1) }) })"

section \<open>Undo and redo\<close>

definition source_of :: "bool \<Rightarrow> histrec \<Rightarrow> hevent list" where
  "source_of undo h = (if undo then hdone h else hundone h)"

definition dest_of :: "bool \<Rightarrow> histrec \<Rightarrow> hevent list" where
  "dest_of undo h = (if undo then hundone h else hdone h)"

definition put_stacks :: "bool \<Rightarrow> hevent list \<Rightarrow> hevent list \<Rightarrow> histrec \<Rightarrow> histrec" where
  "put_stacks undo source dest h =
     (if undo then h\<lparr>hdone := source, hundone := dest\<rparr> else h\<lparr>hundone := source, hdone := dest\<rparr>)"

definition usableEvent :: "doc \<Rightarrow> bool \<Rightarrow> hevent \<Rightarrow> bool" where
  "usableEvent d allowSel e =
     (case e of SelEvent s \<Rightarrow> allowSel \<and> \<not> sel_equals s (sel d) | ChangeEvent cs g \<Rightarrow> \<not> allowSel)"

text \<open>
  The loop that pops events off the source, given in reverse: selections go to the other stack, until
  a selection to return to (with \<open>allowSel\<close>) or a change event is found.
\<close>

fun popEvents :: "doc \<Rightarrow> bool \<Rightarrow> hevent list \<Rightarrow> hevent list \<Rightarrow> selection \<Rightarrow>
    (hevent \<times> hevent list \<times> hevent list \<times> selection) option" where
  "popEvents d allowSel [] dest selAfter = None"
| "popEvents d allowSel (SelEvent s # rest) dest selAfter =
     (let dest' = pushSelectionToHistory s dest
      in if allowSel \<and> \<not> sel_equals s (sel d) then Some (SelEvent s, rest, dest', s)
         else popEvents d allowSel rest dest' s)"
| "popEvents d allowSel (ChangeEvent cs g # rest) dest selAfter = Some (ChangeEvent cs g, rest, dest, selAfter)"

text \<open>
  The loop over the changes of the event, given in reverse: it returns the document, the changes that
  undo what it did, and whether a handler canceled it.
\<close>

fun revertChanges :: "string \<Rightarrow> hevent list \<Rightarrow> doc \<Rightarrow> hchange list \<Rightarrow> hchange list \<Rightarrow> (doc \<times> hchange list \<times> bool) option" where
  "revertChanges type source d [] antis = Some (d, antis, False)"
| "revertChanges type source d (c # rest) antis = do {
     let ch = (plain_change c)\<lparr>corigin := Some type\<rparr>;
     filtered \<leftarrow> (if beforeChange d \<noteq> [] then filterChange d ch False else Some (Some ch));
     if filtered = None then Some (d, antis, True)
     else do {
       let anti = historyChangeFromChange d ch;
       after \<leftarrow> (if rest \<noteq> [] then Some (Some (computeSelAfterChange (sel d) ch))
                else (case lst source of
                        None \<Rightarrow> Some None
                      | Some (SelEvent s) \<Rightarrow> Some (Some s)
                      | Some (ChangeEvent cs g) \<Rightarrow> None));
       d1 \<leftarrow> makeChangeSingleDoc d ch after (mergeOldSpans d c);
       let d2 = (if rest = [] then log_view (ScrollIntoView (cfrom ch) (changeEnd ch)) d1 else d1);
       revertChanges type source d2 rest (antis @ [anti]) }
   }"

definition revertEvent :: "bool \<Rightarrow> doc \<Rightarrow> hchange list \<Rightarrow> nat option \<Rightarrow> hevent list \<Rightarrow> hevent list \<Rightarrow> selection \<Rightarrow> doc option" where
  "revertEvent undo d changes gen source dest selAfter = do {
     let h = history d;
     let dest1 = pushSelectionToHistory selAfter dest;
     let (gen', maxGen) = (case gen of
                             Some g \<Rightarrow> if g \<noteq> 0 then (g, maxGeneration h) else (maxGeneration h + 1, maxGeneration h + 1)
                           | None \<Rightarrow> (maxGeneration h + 1, maxGeneration h + 1));
     let h1 = h\<lparr>generation := gen', maxGeneration := maxGen, lastOrigin := None, lastSelOrigin := None\<rparr>;
     let d1 = d\<lparr>history := put_stacks undo source dest1 h1\<rparr>;
     (d2, antis, canceled) \<leftarrow> revertChanges (if undo then ''undo'' else ''redo'') source d1 (rev changes) [];
     let source' = (if canceled then [] else source);
     Some (d2\<lparr>history := put_stacks undo source' (dest1 @ [ChangeEvent antis (Some (generation h))]) (history d2)\<rparr>)
   }"

definition makeChangeFromHistory :: "doc \<Rightarrow> bool \<Rightarrow> bool \<Rightarrow> doc option" where
  "makeChangeFromHistory d undo allowSel =
     (if (case cm d of None \<Rightarrow> False | Some e \<Rightarrow> suppressEdits e) then Some d
      else
        let h = history d; source = source_of undo h
        in if \<not> list_ex (usableEvent d allowSel) source then Some d
           else do {
             (event, rest, dest, selAfter) \<leftarrow> popEvents d allowSel (rev source) (dest_of undo h) (sel d);
             (case event of
                SelEvent s \<Rightarrow>
                  setSelection
                    (d\<lparr>history := put_stacks undo (rev rest) dest (h\<lparr>lastOrigin := None, lastSelOrigin := None\<rparr>)\<rparr>) s
                    (Some \<lparr>obias = 0, oorigin = None, oclearRedo = False, oscroll = True\<rparr>)
              | ChangeEvent changes g \<Rightarrow> revertEvent undo d changes g (rev rest) dest selAfter) })"

definition replaceRange :: "doc \<Rightarrow> jstr list \<Rightarrow> pos \<Rightarrow> pos option \<Rightarrow> string option \<Rightarrow> doc option" where
  "replaceRange d ts from to og =
     (let t = (case to of None \<Rightarrow> from | Some q \<Rightarrow> q);
          (f, t) = (if cmp t from < 0 then (t, from) else (from, t))
      in makeChange d \<lparr>cfrom = f, cto = t, ctext = ts, corigin = og\<rparr> False)"

end
