(* ===== verification/Strings.thy ===== *)
theory Strings
  imports Prelude
begin

text \<open>
  String utilities of codemirror.js: columns with tabs (\<open>countColumn\<close>, \<open>findColumn\<close>), splitting a
  text into lines, and the \<open>StringStream\<close> that modes read a line with.
\<close>

section \<open>Characters and searching\<close>

text \<open>The characters that \<open>\s\<close> matches.\<close>

definition is_space :: "nat \<Rightarrow> bool" where
  "is_space c \<longleftrightarrow> 9 \<le> c \<and> c \<le> 13 \<or> c = 32 \<or> c = 160 \<or> c = 5760 \<or> c = 6158 \<or> 8192 \<le> c \<and> c \<le> 8202
     \<or> c = 8232 \<or> c = 8233 \<or> c = 8239 \<or> c = 8287 \<or> c = 12288 \<or> c = 65279"

text \<open>\<open>string.indexOf(ch, i)\<close> for a character, \<open>None\<close> for -1.\<close>

fun find_char :: "nat \<Rightarrow> jstr \<Rightarrow> nat option" where
  "find_char c [] = None"
| "find_char c (x # xs) = (if x = c then Some 0 else map_option Suc (find_char c xs))"

definition char_index :: "nat \<Rightarrow> jstr \<Rightarrow> nat \<Rightarrow> nat option" where
  "char_index c s i = map_option (\<lambda>k. i + k) (find_char c (drop i s))"

text \<open>\<open>string.charAt(i)\<close>: a string of one character, or the empty one.\<close>

definition charAt :: "jstr \<Rightarrow> int \<Rightarrow> jstr" where
  "charAt s i = (if 0 \<le> i \<and> i < int (length s) then [s ! nat i] else [])"

lemma find_char_Some: "find_char c s = Some k \<Longrightarrow> k < length s \<and> s ! k = c \<and> c \<notin> set (take k s)"
  by (induction s arbitrary: k) (auto split: if_splits)

lemma find_char_None: "find_char c s = None \<longleftrightarrow> c \<notin> set s"
  by (induction s) auto

lemma char_index_Some: "char_index c s i = Some k \<Longrightarrow> i \<le> k \<and> k < length s"
  unfolding char_index_def by (auto dest!: find_char_Some)

section \<open>Columns\<close>

function countLoop :: "jstr \<Rightarrow> int \<Rightarrow> int \<Rightarrow> nat \<Rightarrow> int \<Rightarrow> int" where
  "countLoop s e tabSize i n =
     (case char_index 9 s i of
        None \<Rightarrow> n + (e - int i)
      | Some nextTab \<Rightarrow>
          if int nextTab \<ge> e then n + (e - int i)
          else (let n1 = n + (int nextTab - int i); n2 = n1 + (tabSize - n1 mod tabSize)
                in countLoop s e tabSize (Suc nextTab) n2))"
  by pat_completeness auto
termination
  by (relation "measure (\<lambda>(s, e, tabSize, i, n). length s - i)") (auto dest!: char_index_Some)

declare countLoop.simps [simp del]

definition first_nonspace :: "jstr \<Rightarrow> nat" where
  "first_nonspace s = length (takeWhile is_space s)"

definition countColumn :: "jstr \<Rightarrow> nat option \<Rightarrow> int \<Rightarrow> nat \<Rightarrow> int \<Rightarrow> int" where
  "countColumn s e tabSize startIndex startValue =
     countLoop s (int (case e of None \<Rightarrow> first_nonspace s | Some k \<Rightarrow> k)) tabSize startIndex startValue"

function findLoopCol :: "jstr \<Rightarrow> int \<Rightarrow> int \<Rightarrow> nat \<Rightarrow> int \<Rightarrow> int" where
  "findLoopCol s goal tabSize p col =
     (let nextTab = (case char_index 9 s p of None \<Rightarrow> length s | Some k \<Rightarrow> k);
          skipped = int nextTab - int p
      in if nextTab = length s \<or> col + skipped \<ge> goal then int p + min skipped (goal - col)
         else (let c1 = col + (int nextTab - int p); c2 = c1 + (tabSize - c1 mod tabSize)
               in if c2 \<ge> goal then int (Suc nextTab) else findLoopCol s goal tabSize (Suc nextTab) c2))"
  by pat_completeness auto
termination
  by (relation "measure (\<lambda>(s, goal, tabSize, p, col). length s - p)")
     (auto dest!: char_index_Some split: option.splits)

declare findLoopCol.simps [simp del]

definition findColumn :: "jstr \<Rightarrow> int \<Rightarrow> int \<Rightarrow> int" where
  "findColumn s goal tabSize = findLoopCol s goal tabSize 0 0"

text \<open>\<open>spaceStr\<close> grows a cache of strings of spaces; the model passes the cache.\<close>

function growSpaces :: "jstr list \<Rightarrow> nat \<Rightarrow> jstr list" where
  "growSpaces spaceStrs n =
     (if length spaceStrs \<le> n
      then growSpaces (spaceStrs @ [(case lst spaceStrs of None \<Rightarrow> [] | Some s \<Rightarrow> s) @ [32]]) n
      else spaceStrs)"
  by pat_completeness auto
termination
  by (relation "measure (\<lambda>(c, n). Suc n - length c)") auto

declare growSpaces.simps [simp del]

definition spaceStr :: "jstr list \<Rightarrow> nat \<Rightarrow> jstr list \<times> jstr" where
  "spaceStr spaceStrs n = (let c = growSpaces spaceStrs n in (c, c ! n))"

definition spaces_ok :: "jstr list \<Rightarrow> bool" where
  "spaces_ok c \<longleftrightarrow> c \<noteq> [] \<and> c = map (\<lambda>k. replicate k 32) [0..<length c]"

text \<open>The column after a piece of text that starts at a column: character by character.\<close>

definition col_step :: "int \<Rightarrow> nat \<Rightarrow> int \<Rightarrow> int" where
  "col_step tabSize c col = (if c = 9 then col + (tabSize - col mod tabSize) else col + 1)"

definition col_after :: "int \<Rightarrow> jstr \<Rightarrow> int \<Rightarrow> int" where
  "col_after tabSize s col = fold (col_step tabSize) s col"

lemma col_after_simps [simp]:
  "col_after t [] c = c" "col_after t (x # xs) c = col_after t xs (col_step t x c)"
  "col_after t (xs @ ys) c = col_after t ys (col_after t xs c)"
  by (simp_all add: col_after_def)

lemma col_after_plain: "9 \<notin> set s \<Longrightarrow> col_after t s c = c + int (length s)"
  by (induction s arbitrary: c) (auto simp: col_step_def)

lemma col_step_gt: "0 < t \<Longrightarrow> c < col_step t x c"
  by (simp add: col_step_def)

lemma col_after_ge: "0 < t \<Longrightarrow> c + int (length s) \<le> col_after t s c"
proof (induction s arbitrary: c)
  case (Cons x s c)
  have "col_step t x c + int (length s) \<le> col_after t s (col_step t x c)" using Cons by blast
  moreover have "c < col_step t x c" using Cons.prems by (rule col_step_gt)
  ultimately show ?case by simp
qed simp

lemma char_index_split:
  assumes "char_index c s i = Some k"
  shows "drop i s = take (k - i) (drop i s) @ c # drop (Suc k) s" "c \<notin> set (take (k - i) (drop i s))" "i \<le> k" "k < length s"
proof -
  obtain m where m: "find_char c (drop i s) = Some m" "k = i + m" using assms by (auto simp: char_index_def)
  note f = find_char_Some [OF m(1)]
  show "i \<le> k" "k < length s" using m f by auto
  show "c \<notin> set (take (k - i) (drop i s))" using m f by simp
  have "drop i s = take m (drop i s) @ drop i s ! m # drop (Suc m) (drop i s)" using f by (intro id_take_nth_drop) simp
  then show "drop i s = take (k - i) (drop i s) @ c # drop (Suc k) s" using m f by (simp add: add.commute)
qed

lemma countLoop_ref:
  "i \<le> e \<Longrightarrow> e \<le> length s \<Longrightarrow> countLoop s (int e) t i n = col_after t (take (e - i) (drop i s)) n"
proof (induction "length s - i" arbitrary: i n rule: less_induct)
  case less
  show ?case
  proof (cases "char_index 9 s i")
    case None
    then have "9 \<notin> set (drop i s)" by (simp add: char_index_def find_char_None)
    then have "9 \<notin> set (take (e - i) (drop i s))" by (meson in_set_takeD)
    with None less.prems show ?thesis by (subst countLoop.simps) (simp add: col_after_plain of_nat_diff)
  next
    case (Some k)
    note k = char_index_split [OF Some]
    show ?thesis
    proof (cases "k \<ge> e")
      case True
      have "take (e - i) (take (k - i) (drop i s)) = take (e - i) (drop i s)" using True by (simp add: min_def)
      then have "9 \<notin> set (take (e - i) (drop i s))" using k(2) by (metis in_set_takeD)
      with True Some less.prems show ?thesis by (subst countLoop.simps) (simp add: col_after_plain of_nat_diff)
    next
      case False
      have d: "take (e - i) (drop i s) = take (k - i) (drop i s) @ 9 # take (e - Suc k) (drop (Suc k) s)"
      proof -
        have "take (e - i) (drop i s) = take (e - i) (take (k - i) (drop i s) @ 9 # drop (Suc k) s)" using k(1) by simp
        also have "\<dots> = take (k - i) (drop i s) @ take (e - i - (k - i)) (9 # drop (Suc k) s)"
          using k(3,4) False by simp
        also have "e - i - (k - i) = Suc (e - Suc k)" using k(3) False less.prems by simp
        finally show ?thesis by simp
      qed
      have IH: "countLoop s (int e) t (Suc k) m = col_after t (take (e - Suc k) (drop (Suc k) s)) m" for m
        using less.hyps [of "Suc k"] less.prems k(3,4) False by simp
      show ?thesis
        unfolding d using False Some k
        by (subst countLoop.simps) (simp add: IH Let_def col_after_plain col_step_def of_nat_diff)
    qed
  qed
qed

lemma findLoopCol_inverse:
  "0 < t \<Longrightarrow> p \<le> e \<Longrightarrow> e \<le> length s \<Longrightarrow>
   findLoopCol s (col_after t (take (e - p) (drop p s)) col) t p col = int e"
proof (induction "length s - p" arbitrary: p col rule: less_induct)
  case less
  let ?goal = "col_after t (take (e - p) (drop p s)) col"
  define nt where "nt = (case char_index 9 s p of None \<Rightarrow> length s | Some k \<Rightarrow> k)"
  have plain: "9 \<notin> set (take (e - p) (drop p s)) \<Longrightarrow> ?goal = col + int (e - p)"
    using less.prems by (simp add: col_after_plain)
  show ?case
  proof (cases "char_index 9 s p")
    case None
    then have "9 \<notin> set (drop p s)" by (simp add: char_index_def find_char_None)
    then have "9 \<notin> set (take (e - p) (drop p s))" by (meson in_set_takeD)
    with None less.prems plain show ?thesis by (subst findLoopCol.simps) (simp add: Let_def of_nat_diff min_def)
  next
    case (Some k)
    note k = char_index_split [OF Some]
    show ?thesis
    proof (cases "e \<le> k")
      case True
      have "take (e - p) (take (k - p) (drop p s)) = take (e - p) (drop p s)" using True by (simp add: min_def)
      then have "9 \<notin> set (take (e - p) (drop p s))" using k(2) by (metis in_set_takeD)
      with True Some less.prems plain show ?thesis
        by (subst findLoopCol.simps) (simp add: Let_def of_nat_diff min_def)
    next
      case False
      let ?c1 = "col + (int k - int p)" 
      let ?c2 = "?c1 + (t - ?c1 mod t)"
      let ?rest = "take (e - Suc k) (drop (Suc k) s)"
      have d: "take (e - p) (drop p s) = take (k - p) (drop p s) @ 9 # ?rest"
      proof -
        have "take (e - p) (drop p s) = take (e - p) (take (k - p) (drop p s) @ 9 # drop (Suc k) s)" using k(1) by simp
        also have "\<dots> = take (k - p) (drop p s) @ take (e - p - (k - p)) (9 # drop (Suc k) s)"
          using k(3,4) False by simp
        also have "e - p - (k - p) = Suc (e - Suc k)" using k(3) False less.prems by simp
        finally show ?thesis by simp
      qed
      have g: "?goal = col_after t ?rest ?c2" unfolding d using k by (simp add: col_after_plain col_step_def of_nat_diff)
      have ge: "?c2 + int (length ?rest) \<le> ?goal" unfolding g using less.prems(1) by (rule col_after_ge)
      have lt: "?c1 < ?c2" using less.prems(1) by simp
      show ?thesis
      proof (cases "e = Suc k")
        case True
        then have "?goal = ?c2" using g by simp
        then show ?thesis using Some k lt True by (subst findLoopCol.simps) (simp add: Let_def)
      next
        case F2: False
        then have "length ?rest > 0" using False k less.prems by simp
        then have "?c2 < ?goal" using ge by linarith
        then have "findLoopCol s ?goal t p col = findLoopCol s ?goal t (Suc k) ?c2"
          using Some k lt by (subst findLoopCol.simps) (simp add: Let_def)
        also have "\<dots> = int e"
          unfolding g using less.hyps [of "Suc k" ?c2] less.prems k False by simp
        finally show ?thesis .
      qed
    qed
  qed
qed

text \<open>C34. \<open>countColumn\<close> jumps from tab to tab; it computes the column reached when the text
  between the start and the end is read character by character, a tab advancing to the next
  multiple of the tab size.\<close>

theorem countColumn_by_char:
  assumes "i \<le> e" "e \<le> length s"
  shows "countColumn s (Some e) t i n = col_after t (take (e - i) (drop i s)) n"
  unfolding countColumn_def using countLoop_ref [OF assms] by simp

theorem countColumn_by_char_witness:
  "countColumn (js ''ab'' @ [9] @ js ''c'') (Some 4) 4 0 0 = col_after 4 (js ''ab'' @ [9] @ js ''c'') 0"
  using countColumn_by_char [of 0 4 "js ''ab'' @ [9] @ js ''c''" 4 0] by (simp add: js_def)

text \<open>\<open>findColumn\<close> is the inverse of \<open>countColumn\<close>: it finds every offset of a string from
  the column that the offset has.\<close>

theorem findColumn_inverse:
  assumes "0 < t" "e \<le> length s"
  shows "findColumn s (countColumn s (Some e) t 0 0) t = int e"
  unfolding findColumn_def countColumn_def
  using findLoopCol_inverse [OF assms(1) _ assms(2), of 0 0] countLoop_ref [of 0 e s t 0] assms by simp

theorem findColumn_inverse_witness:
  "findColumn ([9] @ js ''ab'' @ [9] @ js ''c'') (countColumn ([9] @ js ''ab'' @ [9] @ js ''c'') (Some 4) 4 0 0) 4 = int 4"
  using findColumn_inverse [of 4 4 "[9] @ js ''ab'' @ [9] @ js ''c''"] by (simp add: js_def)

lemma growSpaces_ok: "spaces_ok c \<Longrightarrow> spaces_ok (growSpaces c n) \<and> n < length (growSpaces c n)"
proof (induction c n rule: growSpaces.induct)
  case (1 c n)
  show ?case
  proof (cases "length c \<le> n")
    case True
    from \<open>spaces_ok c\<close> have c: "c \<noteq> []" "c = map (\<lambda>k. replicate k 32) [0..<length c]"
      by (simp_all add: spaces_ok_def)
    then have "c ! (length c - 1) = replicate (length c - 1) 32"
      by (metis diff_less length_greater_0_conv map_nth nth_map nth_upt add_0 diff_zero length_upt zero_less_one)
    then have l: "(case lst c of None \<Rightarrow> [] | Some s \<Rightarrow> s) @ [32] = replicate (length c) 32"
      using c(1) by (cases "length c") (simp_all add: lst_def replicate_append_same)
    have "spaces_ok (c @ [replicate (length c) 32])" using c by (simp add: spaces_ok_def)
    with 1 True l show ?thesis by (subst (1 2) growSpaces.simps) simp
  next
    case False
    with 1 show ?thesis by (subst (1 2) growSpaces.simps) simp
  qed
qed

section \<open>Splitting a text into lines\<close>

text \<open>\<open>string.split(/\r\n?|\n/)\<close>.\<close>

fun splitLines :: "jstr \<Rightarrow> jstr list" where
  "splitLines [] = [[]]"
| "splitLines (c # s) =
     (if c = 10 then [] # splitLines s
      else if c = 13 then [] # (case s of x # s' \<Rightarrow> if x = 10 then splitLines s' else splitLines s | [] \<Rightarrow> splitLines s)
      else (case splitLines s of [] \<Rightarrow> [[c]] | l # ls \<Rightarrow> (c # l) # ls))"

text \<open>The variant for browsers whose \<open>split\<close> is broken.\<close>

function splitFallbackLoop :: "jstr \<Rightarrow> nat \<Rightarrow> jstr list" where
  "splitFallbackLoop s p =
     (if p \<le> length s then
        let nl = (case char_index 10 s p of None \<Rightarrow> length s | Some k \<Rightarrow> k);
            line = slice (int p) (if charAt s (int nl - 1) = [13] then int nl - 1 else int nl) s
        in case find_char 13 line of
             Some rt \<Rightarrow> take rt line # splitFallbackLoop s (p + (rt + 1))
           | None \<Rightarrow> line # splitFallbackLoop s (nl + 1)
      else [])"
  by pat_completeness auto
termination
  by (relation "measure (\<lambda>(s, p). Suc (length s) - p)") (auto dest!: char_index_Some split: option.splits)

declare splitFallbackLoop.simps [simp del]

definition splitLinesFallback :: "jstr \<Rightarrow> jstr list" where
  "splitLinesFallback s = splitFallbackLoop s 0"

definition plain_line :: "jstr \<Rightarrow> bool" where
  "plain_line l \<longleftrightarrow> 10 \<notin> set l \<and> 13 \<notin> set l"

lemma plain_line_simps [simp]:
  "plain_line []" "plain_line (c # l) \<longleftrightarrow> c \<noteq> 10 \<and> c \<noteq> 13 \<and> plain_line l"
  by (auto simp: plain_line_def)

lemma splitLines_nonempty [simp]: "splitLines s \<noteq> []"
  by (induction s rule: splitLines.induct) (auto split: list.splits)

lemma splitLines_plain: "plain_line l \<Longrightarrow> splitLines l = [l]"
  by (induction l) auto

lemma splitLines_nl: "plain_line l \<Longrightarrow> splitLines (l @ 10 # s) = l # splitLines s"
  by (induction l) auto

lemma splitLines_crnl: "plain_line l \<Longrightarrow> splitLines (l @ 13 # 10 # s) = l # splitLines s"
  by (induction l) auto

lemma splitLines_cr: "plain_line l \<Longrightarrow> (s = [] \<or> s ! 0 \<noteq> 10) \<Longrightarrow> splitLines (l @ 13 # s) = l # splitLines s"
  by (induction l) (auto split: list.splits)

lemma splitLines_plain_all: "l \<in> set (splitLines s) \<Longrightarrow> plain_line l"
proof (induction s arbitrary: l rule: splitLines.induct)
  case (2 c s)
  show ?case
  proof (cases "c = 10 \<or> c = 13")
    case True
    then show ?thesis using 2 by (cases s) (auto split: if_splits)
  next
    case False
    then show ?thesis using 2 by (cases "splitLines s") auto
  qed
qed simp

lemma join_splitLines: "13 \<notin> set s \<Longrightarrow> join [10] (splitLines s) = s"
proof (induction s rule: splitLines.induct)
  case (2 c s)
  then show ?case
    by (cases "splitLines s") (auto simp: join_Cons, (cases "tl (splitLines s)"; auto)+)
qed simp

lemma splitLines_join: "ls \<noteq> [] \<Longrightarrow> (\<And>l. l \<in> set ls \<Longrightarrow> plain_line l) \<Longrightarrow> splitLines (join [10] ls) = ls"
  by (induction "[10::nat]" ls rule: join.induct) (auto simp: splitLines_plain splitLines_nl)

lemma charAt_at: "k < length s \<Longrightarrow> charAt s (int k) = [s ! k]"
  by (simp add: charAt_def)

lemma charAt_before: "charAt s (int k - 1) = [c] \<longleftrightarrow> 0 < k \<and> k \<le> length s \<and> s ! (k - 1) = c"
  by (auto simp: charAt_def nat_diff_distrib)

lemma splitFallbackLoop_past: "length s < p \<Longrightarrow> splitFallbackLoop s p = []"
  by (subst splitFallbackLoop.simps) simp

lemma splitLines_take:
  assumes "p \<le> k" "k < length s" "plain_line (take (k - p) (drop p s))"
  shows "s ! k = 10 \<Longrightarrow> splitLines (drop p s) = take (k - p) (drop p s) # splitLines (drop (Suc k) s)"
    and "s ! k = 13 \<Longrightarrow> Suc k < length s \<Longrightarrow> s ! Suc k = 10 \<Longrightarrow>
         splitLines (drop p s) = take (k - p) (drop p s) # splitLines (drop (Suc (Suc k)) s)"
    and "s ! k = 13 \<Longrightarrow> Suc k < length s \<Longrightarrow> s ! Suc k \<noteq> 10 \<Longrightarrow>
         splitLines (drop p s) = take (k - p) (drop p s) # splitLines (drop (Suc k) s)"
proof -
  have d: "drop p s = take (k - p) (drop p s) @ s ! k # drop (Suc k) s"
    using assms(1,2) id_take_nth_drop [of "k - p" "drop p s"] by simp
  show "s ! k = 10 \<Longrightarrow> splitLines (drop p s) = take (k - p) (drop p s) # splitLines (drop (Suc k) s)"
    using splitLines_nl [OF assms(3), of "drop (Suc k) s"] d by simp
  show "splitLines (drop p s) = take (k - p) (drop p s) # splitLines (drop (Suc (Suc k)) s)"
    if "s ! k = 13" "Suc k < length s" "s ! Suc k = 10"
    using splitLines_crnl [OF assms(3), of "drop (Suc (Suc k)) s"] d that
    by (metis Cons_nth_drop_Suc)
  show "splitLines (drop p s) = take (k - p) (drop p s) # splitLines (drop (Suc k) s)"
    if "s ! k = 13" "Suc k < length s" "s ! Suc k \<noteq> 10"
    using splitLines_cr [OF assms(3), of "drop (Suc k) s"] d that by simp
qed

lemma splitFallbackLoop_eq:
  assumes "p \<le> length s" "s = [] \<or> last s \<noteq> 13"
  shows "splitFallbackLoop s p = splitLines (drop p s)"
  using assms(1)
proof (induction "length s - p" arbitrary: p rule: less_induct)
  case less
  define nl where "nl = (case char_index 10 s p of None \<Rightarrow> length s | Some k \<Rightarrow> k)"
  define stop where "stop = (if charAt s (int nl - 1) = [13] then int nl - 1 else int nl)"
  have nl: "p \<le> nl" "nl \<le> length s" "nl < length s \<Longrightarrow> s ! nl = 10" "10 \<notin> set (take (nl - p) (drop p s))"
  proof -
    show "p \<le> nl" "nl \<le> length s" using less.prems by (auto simp: nl_def dest: char_index_Some split: option.splits)
    show "10 \<notin> set (take (nl - p) (drop p s))"
    proof (cases "char_index 10 s p")
      case None
      then have "10 \<notin> set (drop p s)" by (simp add: char_index_def find_char_None)
      then show ?thesis by (meson in_set_takeD)
    next
      case (Some k)
      then show ?thesis using char_index_split(2) [OF Some] by (simp add: nl_def)
    qed
    show "s ! nl = 10" if "nl < length s"
    proof (cases "char_index 10 s p")
      case (Some k)
      then obtain m where "find_char 10 (drop p s) = Some m" "k = p + m" by (auto simp: char_index_def)
      with find_char_Some [OF this(1)] Some less.prems show ?thesis by (simp add: nl_def nth_drop)
    qed (use that in \<open>simp add: nl_def\<close>)
  qed
  have unf: "splitFallbackLoop s p =
    (case find_char 13 (slice (int p) stop s) of
       Some rt \<Rightarrow> take rt (slice (int p) stop s) # splitFallbackLoop s (p + (rt + 1))
     | None \<Rightarrow> slice (int p) stop s # splitFallbackLoop s (nl + 1))"
    using less.prems by (subst splitFallbackLoop.simps) (simp only: Let_def nl_def [symmetric] stop_def [symmetric] if_True)
  have IH: "splitFallbackLoop s q = splitLines (drop q s)" if "p < q" "q \<le> length s" for q
    using less.hyps [of q] that less.prems by simp
  have end_ok: "nl = length s \<Longrightarrow> 0 < nl \<Longrightarrow> s ! (nl - 1) \<noteq> 13"
    using assms(2) by (auto simp: last_conv_nth)
  show ?case
  proof (cases "find_char 13 (slice (int p) stop s)")
    case None
    show ?thesis
    proof (cases "charAt s (int nl - 1) = [13]")
      case True
      then have n: "0 < nl" "s ! (nl - 1) = 13" by (simp_all add: charAt_before)
      then have n': "nl < length s" using nl(2) end_ok by (cases "nl = length s") simp_all
      then have st: "stop = int (nl - 1)" using True n(1) by (simp add: stop_def of_nat_diff)
      have sl: "slice (int p) stop s = take (nl - 1 - p) (drop p s)" unfolding st by (simp add: slice_nonneg)
      have pl: "plain_line (take (nl - 1 - p) (drop p s))"
      proof -
        have "13 \<notin> set (take (nl - 1 - p) (drop p s))" using None by (simp add: sl find_char_None)
        moreover have "10 \<notin> set (take (nl - 1 - p) (drop p s))"
          using nl(4) set_take_subset_set_take [OF diff_le_mono [of "nl - 1" nl p], of "drop p s"] by auto
        ultimately show ?thesis by (simp add: plain_line_def)
      qed
      show ?thesis
      proof (cases "p = nl")
        case True
        then have "splitLines (drop p s) = [] # splitLines (drop (Suc nl) s)"
          using splitLines_take(1) [of nl nl s] n n' nl(3) by simp
        then show ?thesis using unf None sl True IH [of "Suc nl"] n n' by simp
      next
        case False
        then have "splitLines (drop p s) = take (nl - 1 - p) (drop p s) # splitLines (drop (Suc (Suc (nl - 1))) s)"
          using splitLines_take(2) [of p "nl - 1" s] pl n n' nl by simp
        then show ?thesis using unf None sl IH [of "Suc nl"] n n' nl by simp
      qed
    next
      case False
      then have st: "stop = int nl" by (simp add: stop_def)
      have sl: "slice (int p) stop s = take (nl - p) (drop p s)" unfolding st by (simp add: slice_nonneg)
      have pl: "plain_line (take (nl - p) (drop p s))" using None nl(4) by (simp add: sl find_char_None plain_line_def)
      show ?thesis
      proof (cases "nl = length s")
        case True
        then show ?thesis using unf None sl pl splitFallbackLoop_past [of s "Suc nl"] by (simp add: splitLines_plain)
      next
        case F: False
        then have "splitLines (drop p s) = take (nl - p) (drop p s) # splitLines (drop (Suc nl) s)"
          using splitLines_take(1) [of p nl s] pl nl by simp
        then show ?thesis using unf None sl IH [of "Suc nl"] F nl by simp
      qed
    qed
  next
    case (Some rt)
    note f = find_char_Some [OF Some]
    have st0: "stop \<le> int nl" "0 \<le> stop"
      using nl(2) by (auto simp: stop_def charAt_before)
    have sl: "slice (int p) stop s = take (nat stop - p) (drop p s)" using st0 by (simp add: slice_nonneg)
    then have rt: "p + rt < nat stop" using f by auto
    let ?k = "p + rt"
    have k: "?k < nl" "s ! ?k = 13" using rt st0 f sl nl by auto
    have nosuc: "Suc ?k < length s \<and> s ! Suc ?k \<noteq> 10"
    proof (cases "Suc ?k = nl")
      case True
      then have "charAt s (int nl - 1) = [13]" using k nl(2) True by (auto simp: charAt_before)
      then have "stop = int nl - 1" by (simp add: stop_def)
      then show ?thesis using rt True by linarith
    next
      case False
      then have lt: "Suc ?k < nl" using k by simp
      then have "s ! Suc ?k \<in> set (take (nl - p) (drop p s))" using nl(2)
        by (auto simp: in_set_conv_nth intro!: exI [of _ "Suc rt"])
      with nl(4) lt nl(2) show ?thesis by auto
    qed
    have pl: "plain_line (take rt (drop p s))"
    proof -
      have t: "take rt (take (nat stop - p) (drop p s)) = take rt (drop p s)" using rt by (simp add: min_def)
      moreover have "13 \<notin> set (take rt (take (nat stop - p) (drop p s)))" using f unfolding sl by blast
      moreover from k(1) have "rt \<le> nl - p" by linarith
      then have "10 \<notin> set (take rt (drop p s))"
        using nl(4) set_take_subset_set_take [of rt "nl - p" "drop p s"] by blast
      ultimately show ?thesis by (simp only: plain_line_def t) simp
    qed
    have "splitLines (drop p s) = take rt (drop p s) # splitLines (drop (Suc ?k) s)"
      using splitLines_take(3) [of p ?k s] pl k nosuc by simp
    moreover have "take rt (slice (int p) stop s) = take rt (drop p s)" unfolding sl using rt by (simp add: min_def)
    ultimately show ?thesis using unf Some IH [of "p + (rt + 1)"] nosuc by simp
  qed
qed

text \<open>Splitting and joining lines are inverse: a text without carriage returns is the join of its
  lines, and lines without line ends come back from the text they are joined to.\<close>

theorem splitLines_join_roundtrip:
  "(13 \<notin> set s \<longrightarrow> join [10] (splitLines s) = s)
     \<and> (ls \<noteq> [] \<and> (\<forall>l \<in> set ls. plain_line l) \<longrightarrow> splitLines (join [10] ls) = ls)
     \<and> splitLines s \<noteq> [] \<and> (\<forall>l \<in> set (splitLines s). plain_line l)"
  using join_splitLines [of s] splitLines_join [of ls] splitLines_plain_all [of _ s] by auto

theorem splitLines_join_roundtrip_witness:
  "join [10] (splitLines (js ''ab'' @ [10])) = js ''ab'' @ [10]
     \<and> splitLines (join [10] [js ''ab'', [], js ''c'']) = [js ''ab'', [], js ''c'']"
  using splitLines_join_roundtrip [of "js ''ab'' @ [10]" "[js ''ab'', [], js ''c'']"] by (simp add: js_def)

text \<open>The fallback for browsers with a broken \<open>split\<close> gives the same lines as the regular
  expression, for every text that does not end in a carriage return.\<close>

theorem splitLines_fallback_agrees:
  assumes "s = [] \<or> last s \<noteq> 13"
  shows "splitLinesFallback s = splitLines s"
  unfolding splitLinesFallback_def using splitFallbackLoop_eq [of 0 s] assms by simp

theorem splitLines_fallback_agrees_witness:
  "splitLinesFallback (js ''a'' @ [13, 10, 13] @ js ''b'' @ [10]) = splitLines (js ''a'' @ [13, 10, 13] @ js ''b'' @ [10])"
  using splitLines_fallback_agrees [of "js ''a'' @ [13, 10, 13] @ js ''b'' @ [10]"] by simp

text \<open>On a text that ends in a carriage return the fallback loses the empty last line.\<close>

lemma splitLines_fallback_drops:
  "splitLines [97, 13] = [[97], []]" "splitLinesFallback [97, 13] = [[97]]"
  by (simp_all add: splitLinesFallback_def splitFallbackLoop.simps char_index_def charAt_def slice_nonneg)

section \<open>The string stream\<close>

text \<open>
  A pattern is a string, or a test on one character (a regular expression or a function). The
  regular expressions that \<open>match\<close> gets are functions from the rest of the string to the index of
  the match and its groups, the whole match first.
\<close>

record StringStream =
  ss_pos :: int
  ss_start :: int
  ss_string :: jstr
  ss_tabSize :: int
  ss_lastColumnPos :: int
  ss_lastColumnValue :: int
  ss_lineStart :: int

datatype char_pattern = PStr jstr | PTest "nat \<Rightarrow> bool"

type_synonym regex = "jstr \<Rightarrow> (nat \<times> jstr list) option"

definition StringStream :: "jstr \<Rightarrow> int option \<Rightarrow> StringStream" where
  "StringStream str tabSize =
     \<lparr> ss_pos = 0, ss_start = 0, ss_string = str,
       ss_tabSize = (case tabSize of None \<Rightarrow> 8 | Some t \<Rightarrow> if t = 0 then 8 else t),
       ss_lastColumnPos = 0, ss_lastColumnValue = 0, ss_lineStart = 0 \<rparr>"

definition eol :: "StringStream \<Rightarrow> bool" where
  "eol st \<longleftrightarrow> ss_pos st \<ge> int (length (ss_string st))"

definition sol :: "StringStream \<Rightarrow> bool" where
  "sol st \<longleftrightarrow> ss_pos st = ss_lineStart st"

text \<open>Results that are a character or undefined are lists of at most one character.\<close>

definition peek :: "StringStream \<Rightarrow> jstr" where
  "peek st = charAt (ss_string st) (ss_pos st)"

definition next_ch :: "StringStream \<Rightarrow> StringStream \<times> jstr" where
  "next_ch st =
     (if ss_pos st < int (length (ss_string st))
      then (st \<lparr> ss_pos := ss_pos st + 1 \<rparr>, charAt (ss_string st) (ss_pos st))
      else (st, []))"

definition eat :: "char_pattern \<Rightarrow> StringStream \<Rightarrow> StringStream \<times> jstr" where
  "eat p st =
     (let ch = charAt (ss_string st) (ss_pos st);
          ok = (case p of PStr s \<Rightarrow> ch = s | PTest f \<Rightarrow> (case ch of [] \<Rightarrow> False | c # _ \<Rightarrow> f c))
      in if ok then (st \<lparr> ss_pos := ss_pos st + 1 \<rparr>, ch) else (st, []))"

lemma charAt_empty_iff: "charAt s i = [] \<longleftrightarrow> i < 0 \<or> int (length s) \<le> i"
  by (auto simp: charAt_def)

lemma eat_progress:
  assumes "eat p st = (st', ch)" "ch \<noteq> []"
  shows "ss_pos st' = ss_pos st + 1" "ss_pos st < int (length (ss_string st))" "0 \<le> ss_pos st"
    "st' = st \<lparr> ss_pos := ss_pos st + 1 \<rparr>" "ch = [ss_string st ! nat (ss_pos st)]"
  using assms by (auto simp: eat_def Let_def charAt_def split: if_splits)

function eatLoop :: "char_pattern \<Rightarrow> StringStream \<Rightarrow> StringStream" where
  "eatLoop p st = (case eat p st of (st', ch) \<Rightarrow> if ch = [] then st' else eatLoop p st')"
  by pat_completeness auto
termination
  by (relation "measure (\<lambda>(p, st). nat (int (length (ss_string st)) - ss_pos st))")
     (auto dest: eat_progress(2,4) [OF sym])

declare eatLoop.simps [simp del]

definition eatWhile :: "char_pattern \<Rightarrow> StringStream \<Rightarrow> StringStream \<times> bool" where
  "eatWhile p st = (let st' = eatLoop p st in (st', ss_pos st' > ss_pos st))"

function spaceLoop :: "StringStream \<Rightarrow> StringStream" where
  "spaceLoop st =
     (case charAt (ss_string st) (ss_pos st) of
        [] \<Rightarrow> st
      | c # _ \<Rightarrow> if is_space c then spaceLoop (st \<lparr> ss_pos := ss_pos st + 1 \<rparr>) else st)"
  by pat_completeness auto
termination
  by (relation "measure (\<lambda>st. nat (int (length (ss_string st)) - ss_pos st))")
     (auto simp: charAt_def split: if_splits)

declare spaceLoop.simps [simp del]

definition eatSpace :: "StringStream \<Rightarrow> StringStream \<times> bool" where
  "eatSpace st = (let st' = spaceLoop st in (st', ss_pos st' > ss_pos st))"

definition skipToEnd :: "StringStream \<Rightarrow> StringStream" where
  "skipToEnd st = st \<lparr> ss_pos := int (length (ss_string st)) \<rparr>"

definition skipTo :: "nat \<Rightarrow> StringStream \<Rightarrow> StringStream \<times> bool" where
  "skipTo ch st =
     (case char_index ch (ss_string st) (nat (ss_pos st)) of
        Some found \<Rightarrow> (st \<lparr> ss_pos := int found \<rparr>, True)
      | None \<Rightarrow> (st, False))"

definition backUp :: "int \<Rightarrow> StringStream \<Rightarrow> StringStream" where
  "backUp n st = st \<lparr> ss_pos := ss_pos st - n \<rparr>"

definition lineStartColumn :: "StringStream \<Rightarrow> int" where
  "lineStartColumn st =
     (if ss_lineStart st \<noteq> 0
      then countColumn (ss_string st) (Some (nat (ss_lineStart st))) (ss_tabSize st) 0 0 else 0)"

definition column :: "StringStream \<Rightarrow> StringStream \<times> int" where
  "column st =
     (let st' = (if ss_lastColumnPos st < ss_start st
          then st \<lparr> ss_lastColumnValue := countColumn (ss_string st) (Some (nat (ss_start st))) (ss_tabSize st)
                       (nat (ss_lastColumnPos st)) (ss_lastColumnValue st),
                    ss_lastColumnPos := ss_start st \<rparr>
          else st)
      in (st', ss_lastColumnValue st' - lineStartColumn st'))"

definition indentation :: "StringStream \<Rightarrow> int" where
  "indentation st = countColumn (ss_string st) None (ss_tabSize st) 0 0 - lineStartColumn st"

text \<open>\<open>match\<close> with a string (\<open>cased\<close> is the identity, or \<open>toLowerCase\<close> when the case is ignored).\<close>

definition match_str :: "(jstr \<Rightarrow> jstr) \<Rightarrow> jstr \<Rightarrow> bool \<Rightarrow> StringStream \<Rightarrow> StringStream \<times> bool" where
  "match_str cased p consume st =
     (let substr = take (length p) (slice_from (ss_pos st) (ss_string st))
      in if cased substr = cased p
         then (if consume then st \<lparr> ss_pos := ss_pos st + int (length p) \<rparr> else st, True)
         else (st, False))"

definition match_re :: "regex \<Rightarrow> bool \<Rightarrow> StringStream \<Rightarrow> StringStream \<times> jstr list option" where
  "match_re re consume st =
     (case re (slice_from (ss_pos st) (ss_string st)) of
        None \<Rightarrow> (st, None)
      | Some (index, groups) \<Rightarrow>
          if index > 0 then (st, None)
          else (if consume then st \<lparr> ss_pos := ss_pos st + int (length (groups ! 0)) \<rparr> else st, Some groups))"

definition current :: "StringStream \<Rightarrow> jstr" where
  "current st = slice (ss_start st) (ss_pos st) (ss_string st)"

definition hideFirstChars :: "int \<Rightarrow> (StringStream \<Rightarrow> StringStream \<times> 'a) \<Rightarrow> StringStream \<Rightarrow> StringStream \<times> 'a" where
  "hideFirstChars n inner st =
     (case inner (st \<lparr> ss_lineStart := ss_lineStart st + n \<rparr>) of
        (st', r) \<Rightarrow> (st' \<lparr> ss_lineStart := ss_lineStart st' - n \<rparr>, r))"

subsection \<open>Facts on the stream\<close>

text \<open>An operation that only moves the position forwards, within the line.\<close>

definition moves :: "StringStream \<Rightarrow> StringStream \<Rightarrow> bool" where
  "moves st st' \<longleftrightarrow>
     (\<exists>i. st' = st \<lparr> ss_pos := i \<rparr> \<and> ss_pos st \<le> i \<and> i \<le> max (ss_pos st) (int (length (ss_string st))))"

named_theorems stream_moves \<open>stream operations move forwards\<close>

lemma moves_refl [simp, intro]: "moves st st"
  unfolding moves_def by (rule exI [of _ "ss_pos st"]) simp

lemma moves_simps:
  "moves st st' \<Longrightarrow> ss_string st' = ss_string st" "moves st st' \<Longrightarrow> ss_start st' = ss_start st"
  "moves st st' \<Longrightarrow> ss_pos st \<le> ss_pos st'"
  "moves st st' \<Longrightarrow> ss_pos st \<le> int (length (ss_string st)) \<Longrightarrow> ss_pos st' \<le> int (length (ss_string st))"
  by (auto simp: moves_def)

lemma moves_trans: "moves a b \<Longrightarrow> moves b c \<Longrightarrow> moves a c"
  unfolding moves_def by fastforce

lemma moves_to: "ss_pos st \<le> i \<Longrightarrow> i \<le> int (length (ss_string st)) \<Longrightarrow> moves st (st \<lparr> ss_pos := i \<rparr>)"
  unfolding moves_def by auto

lemma moves_step: "ss_pos st < int (length (ss_string st)) \<Longrightarrow> moves st (st \<lparr> ss_pos := ss_pos st + 1 \<rparr>)"
  by (rule moves_to) simp_all

lemma next_ch_moves [stream_moves]: "moves st (fst (next_ch st))"
  by (simp add: next_ch_def moves_step)

definition good_pattern :: "char_pattern \<Rightarrow> bool" where
  "good_pattern p \<longleftrightarrow> p \<noteq> PStr []"

lemma eat_moves [stream_moves]: "good_pattern p \<Longrightarrow> moves st (fst (eat p st))"
  by (auto simp: eat_def Let_def good_pattern_def charAt_def split: char_pattern.splits intro!: moves_step)

lemma eatLoop_moves [stream_moves]: "good_pattern p \<Longrightarrow> moves st (eatLoop p st)"
proof (induction p st rule: eatLoop.induct)
  case (1 p st)
  obtain st' ch where e: "eat p st = (st', ch)" by fastforce
  then have m: "moves st st'" using eat_moves [OF 1(2), of st] by simp
  show ?case
  proof (cases "ch = []")
    case True
    then show ?thesis using e m by (subst eatLoop.simps) simp
  next
    case False
    then show ?thesis using e moves_trans [OF m 1(1) [OF e [symmetric] False 1(2)]]
      by (subst eatLoop.simps) simp
  qed
qed

lemma eatWhile_moves [stream_moves]: "good_pattern p \<Longrightarrow> moves st (fst (eatWhile p st))"
  by (simp add: eatWhile_def Let_def eatLoop_moves)

lemma spaceLoop_moves [stream_moves]: "moves st (spaceLoop st)"
proof (induction st rule: spaceLoop.induct)
  case (1 st)
  show ?case
  proof (cases "charAt (ss_string st) (ss_pos st)")
    case Nil
    then show ?thesis by (subst spaceLoop.simps) simp
  next
    case (Cons c cs)
    then have "ss_pos st < int (length (ss_string st))" by (simp add: charAt_def split: if_splits)
    with 1 Cons show ?thesis by (subst spaceLoop.simps) (auto intro: moves_trans [OF moves_step])
  qed
qed

lemma eatSpace_moves [stream_moves]: "moves st (fst (eatSpace st))"
  by (simp add: eatSpace_def Let_def spaceLoop_moves)

lemma skipToEnd_moves [stream_moves]:
  "ss_pos st \<le> int (length (ss_string st)) \<Longrightarrow> moves st (skipToEnd st)"
  by (simp add: skipToEnd_def moves_to)

lemma skipTo_moves [stream_moves]: "0 \<le> ss_pos st \<Longrightarrow> moves st (fst (skipTo ch st))"
  by (auto simp: skipTo_def split: option.splits intro!: moves_to dest!: char_index_Some)

text \<open>\<open>eatWhile\<close> takes the longest run of matching characters.\<close>

lemma eatLoop_run:
  "0 \<le> ss_pos st \<Longrightarrow>
   eatLoop (PTest f) st = st \<lparr> ss_pos := ss_pos st + int (length (takeWhile f (drop (nat (ss_pos st)) (ss_string st)))) \<rparr>"
proof (induction "PTest f" st rule: eatLoop.induct)
  case (1 st)
  show ?case
  proof (cases "nat (ss_pos st) < length (ss_string st)")
    case True
    let ?c = "ss_string st ! nat (ss_pos st)"
    have d: "drop (nat (ss_pos st)) (ss_string st) = ?c # drop (Suc (nat (ss_pos st))) (ss_string st)"
      using True by (simp add: Cons_nth_drop_Suc)
    have ch: "charAt (ss_string st) (ss_pos st) = [?c]" using True 1(2) by (simp add: charAt_def)
    show ?thesis
    proof (cases "f ?c")
      case True
      have e: "eat (PTest f) st = (st \<lparr> ss_pos := ss_pos st + 1 \<rparr>, [?c])" using ch True by (simp add: eat_def)
      have n: "nat (ss_pos st + 1) = Suc (nat (ss_pos st))" using 1(2) by simp
      show ?thesis using 1(1) [OF e [symmetric]] 1(2) True
        by (subst eatLoop.simps, subst d) (simp add: e n)
    next
      case False
      then show ?thesis using ch by (subst eatLoop.simps, subst d) (simp add: eat_def)
    qed
  next
    case False
    then have "charAt (ss_string st) (ss_pos st) = []" using 1(2) by (simp add: charAt_def)
    with False show ?thesis by (subst eatLoop.simps) (simp add: eat_def)
  qed
qed

text \<open>\<open>eatWhile\<close> with a character test takes exactly the longest run of characters that pass it,
  and says whether it took any.\<close>

theorem eatWhile_longest_run:
  assumes "0 \<le> ss_pos st"
  shows "eatWhile (PTest f) st =
     (let run = takeWhile f (drop (nat (ss_pos st)) (ss_string st))
      in (st \<lparr> ss_pos := ss_pos st + int (length run) \<rparr>, run \<noteq> []))"
  unfolding eatWhile_def Let_def using eatLoop_run [OF assms(1), of f] by simp

theorem eatWhile_longest_run_witness:
  "snd (eatWhile (PTest (\<lambda>c. c < 58)) (StringStream (js ''42px'') None))
     \<and> ss_pos (fst (eatWhile (PTest (\<lambda>c. c < 58)) (StringStream (js ''42px'') None))) = 2"
  using eatWhile_longest_run [of "StringStream (js ''42px'') None" "\<lambda>c. c < 58"]
  by (simp add: StringStream_def js_def)

text \<open>The cached column belongs to the cached position.\<close>

definition column_ok :: "StringStream \<Rightarrow> bool" where
  "column_ok st \<longleftrightarrow>
     0 \<le> ss_lastColumnPos st \<and> ss_lastColumnPos st \<le> ss_start st \<and> ss_start st \<le> int (length (ss_string st))
     \<and> ss_lastColumnValue st = countColumn (ss_string st) (Some (nat (ss_lastColumnPos st))) (ss_tabSize st) 0 0"

lemma countColumn_prefix:
  assumes "e \<le> length s"
  shows "countColumn s (Some e) t 0 0 = col_after t (take e s) 0"
  using countLoop_ref [of 0 e s t 0] assms by (simp add: countColumn_def)

lemma countColumn_resume:
  assumes "i \<le> e" "e \<le> length s"
  shows "countColumn s (Some e) t i (countColumn s (Some i) t 0 0) = countColumn s (Some e) t 0 0"
proof -
  have "take e s = take i s @ take (e - i) (drop i s)"
    using assms(1) by (metis le_add_diff_inverse take_add)
  then show ?thesis
    using assms countLoop_ref [OF assms, of t "countColumn s (Some i) t 0 0"]
    by (simp add: countColumn_prefix) (simp add: countColumn_def)
qed

text \<open>\<open>column\<close> counts only from the last position it was asked for; its result is the column of
  the token's start counted from the beginning of the line, and the cache stays right.\<close>

theorem column_cache:
  assumes "column_ok st"
  shows "snd (column st) = countColumn (ss_string st) (Some (nat (ss_start st))) (ss_tabSize st) 0 0 - lineStartColumn st
         \<and> column_ok (fst (column st))"
  using assms countColumn_resume [of "nat (ss_lastColumnPos st)" "nat (ss_start st)" "ss_string st" "ss_tabSize st"]
  by (auto simp: column_def column_ok_def Let_def lineStartColumn_def nat_le_eq_zle)

theorem column_cache_witness:
  "snd (column (StringStream (js ''  x'') None \<lparr> ss_start := 2, ss_pos := 3 \<rparr>)) = 2
     \<and> column_ok (fst (column (StringStream (js ''  x'') None \<lparr> ss_start := 2, ss_pos := 3 \<rparr>)))"
proof -
  let ?st = "StringStream (js ''  x'') None \<lparr> ss_start := 2, ss_pos := 3 \<rparr>"
  have ok: "column_ok ?st"
    by (simp add: column_ok_def StringStream_def js_def countColumn_def countLoop.simps char_index_def)
  from column_cache [OF ok] show ?thesis
    by (simp add: StringStream_def js_def lineStartColumn_def countColumn_def countLoop.simps char_index_def)
qed

end
