(* ===== verification/DocApi.thy ===== *)
theory DocApi
  imports Changes Strings MarkOps
begin

text \<open>
  The document object as its users see it: the constructor \<open>Doc\<close> and the methods of its prototype that
  read and replace the value, the selections and the history, positions by index, and the clean state.
  A string argument that is missing is \<open>None\<close>; so is the result of a call that throws.
\<close>

section \<open>The constructor\<close>

text \<open>The object before the text is put in: one empty line, a cursor at its start, an empty history.\<close>

definition emptyDoc :: "int \<Rightarrow> int \<Rightarrow> doc" where
  "emptyDoc firstLine now = \<lparr>
     root = newBranch [newLeaf [\<lparr>lid = 0, ltext = [], lspans = [], lheight = 1\<rparr>]],
     first = firstLine, sel = simpleSelection (Pos firstLine 0) None, history = History 0,
     markers = (\<lambda>_. TextMarker False), cantEdit = False, extending = False, cleanGeneration = 1,
     frontier = firstLine, cm = None, beforeChange = [], beforeSelectionChange = [], clock = now, nextLine = 1,
     nextMarker = 0, nextMarkerId = 0, sawReadOnlySpans = False, sawCollapsedSpans = False\<rparr>"

definition newDoc :: "jstr list \<Rightarrow> int \<Rightarrow> int \<Rightarrow> doc option" where
  "newDoc text firstLine now = (let start = Pos firstLine 0; d = emptyDoc firstLine now in do {
     d1 \<leftarrow> updateDoc d (Change start start text None) None None;
     setSelection d1 (simpleSelection start None) (Some sel_dontScroll) })"

section \<open>The value\<close>

text \<open>\<open>lineSep || "\\n"\<close>: an empty separator counts as none.\<close>

definition lineSepOr :: "jstr option \<Rightarrow> jstr" where
  "lineSepOr lineSep = (case lineSep of None \<Rightarrow> [10] | Some s \<Rightarrow> if s = [] then [10] else s)"

definition getValue :: "doc \<Rightarrow> jstr option \<Rightarrow> jstr" where
  "getValue d lineSep = join (lineSepOr lineSep) (getLines d (first d) (first d + doc_size d))"

definition setValue :: "doc \<Rightarrow> jstr \<Rightarrow> doc option" where
  "setValue d str = (let top = Pos (first d) 0; l = first d + doc_size d - 1 in do {
     line \<leftarrow> getLine d l;
     d1 \<leftarrow> makeChange d (Change top (Pos l (int (length (ltext line)))) (splitLines str) (Some ''setValue'')) True;
     setSelection d1 (simpleSelection top None) None })"

definition getRange :: "doc \<Rightarrow> pos \<Rightarrow> pos \<Rightarrow> jstr option \<Rightarrow> jstr option" where
  "getRange d from to lineSep = do {
     f \<leftarrow> clipPos d from; t \<leftarrow> clipPos d to;
     Some (join (lineSepOr lineSep) (getBetween d f t)) }"

definition doc_replaceRange :: "doc \<Rightarrow> jstr \<Rightarrow> pos \<Rightarrow> pos option \<Rightarrow> string option \<Rightarrow> doc option" where
  "doc_replaceRange d str from to origin = do {
     f \<leftarrow> clipPos d from;
     t \<leftarrow> (case to of None \<Rightarrow> Some f | Some q \<Rightarrow> clipPos d q);
     replaceRange d (splitLines str) f (Some t) origin }"

definition getLineText :: "doc \<Rightarrow> int \<Rightarrow> jstr option" where
  "getLineText d n = (if isLine d n then map_option ltext (getLine d n) else None)"

section \<open>Selections\<close>

definition getCursor :: "doc \<Rightarrow> string option \<Rightarrow> pos option" where
  "getCursor d which = do {
     r \<leftarrow> primary (sel d);
     Some (if which = None \<or> which = Some ''head'' then head r
           else if which = Some ''anchor'' then anchor r
           else if which = Some ''end'' \<or> which = Some ''to'' then range_to r
           else range_from r) }"

definition setCursor :: "doc \<Rightarrow> pos \<Rightarrow> seloptions option \<Rightarrow> doc option" where
  "setCursor d p options = do { q \<leftarrow> clipPos d p; setSimpleSelection d q None options }"

definition doc_setSelection :: "doc \<Rightarrow> pos \<Rightarrow> pos option \<Rightarrow> seloptions option \<Rightarrow> doc option" where
  "doc_setSelection d a h options = do {
     p \<leftarrow> clipPos d a; q \<leftarrow> clipPos d (case h of None \<Rightarrow> a | Some x \<Rightarrow> x);
     setSimpleSelection d p (Some q) options }"

definition doc_extendSelection :: "doc \<Rightarrow> pos \<Rightarrow> pos option \<Rightarrow> seloptions option \<Rightarrow> doc option" where
  "doc_extendSelection d h other options = do {
     p \<leftarrow> clipPos d h;
     q \<leftarrow> (case other of None \<Rightarrow> Some None | Some x \<Rightarrow> map_option Some (clipPos d x));
     extendSelection d p q options }"

text \<open>The method passes its options to \<open>clipPosArray\<close>, so \<open>extendSelections\<close> sees none.\<close>

definition doc_extendSelections :: "doc \<Rightarrow> pos list \<Rightarrow> seloptions option \<Rightarrow> doc option" where
  "doc_extendSelections d heads options = do { hs \<leftarrow> clipPosArray d heads; extendSelections d hs None }"

text \<open>The callback gets every range with its index, and gives a position.\<close>

definition extendSelectionsBy :: "doc \<Rightarrow> (range \<Rightarrow> nat \<Rightarrow> pos) \<Rightarrow> seloptions option \<Rightarrow> doc option" where
  "extendSelectionsBy d f options =
     extendSelections d (map (\<lambda>(r, i). f r i) (zip (ranges (sel d)) [0..<length (ranges (sel d))])) options"

definition setSelections :: "doc \<Rightarrow> range list \<Rightarrow> int option \<Rightarrow> seloptions option \<Rightarrow> doc option" where
  "setSelections d rs prim options =
     (if rs = [] then Some d
      else do {
        out \<leftarrow> clipRanges d rs;
        let p = (case prim of None \<Rightarrow> min (int (length rs) - 1) (primIndex (sel d)) | Some p \<Rightarrow> p);
        setSelection d (normalizeSelection out p) options })"

definition addSelection :: "doc \<Rightarrow> pos \<Rightarrow> pos option \<Rightarrow> seloptions option \<Rightarrow> doc option" where
  "addSelection d a h options = do {
     p \<leftarrow> clipPos d a; q \<leftarrow> clipPos d (case h of None \<Rightarrow> a | Some x \<Rightarrow> x);
     let rs = ranges (sel d) @ [Range p q];
     setSelection d (normalizeSelection rs (int (length rs) - 1)) options }"

definition getSelection :: "doc \<Rightarrow> jstr option \<Rightarrow> jstr" where
  "getSelection d lineSep =
     join (lineSepOr lineSep) (concat (map (\<lambda>r. getBetween d (range_from r) (range_to r)) (ranges (sel d))))"

definition getSelections :: "doc \<Rightarrow> jstr option \<Rightarrow> jstr list" where
  "getSelections d lineSep = map (\<lambda>r. join (lineSepOr lineSep) (getBetween d (range_from r) (range_to r))) (ranges (sel d))"

text \<open>The changes are made last first, so that the positions of the others stay right.\<close>

fun makeAll :: "change list \<Rightarrow> doc \<Rightarrow> doc option" where
  "makeAll [] d = Some d"
| "makeAll (c # cs) d = do { d1 \<leftarrow> makeChange d c False; makeAll cs d1 }"

definition replaceSelections :: "doc \<Rightarrow> jstr list \<Rightarrow> string option \<Rightarrow> string option \<Rightarrow> doc option" where
  "replaceSelections d str coll origin =
     (if length str < length (ranges (sel d)) then None
      else do {
        let cs = map (\<lambda>(r, s). Change (range_from r) (range_to r) (splitLines s) origin) (zip (ranges (sel d)) str);
        newSel \<leftarrow> (case coll of
                     Some h \<Rightarrow> if h \<noteq> [] \<and> h \<noteq> ''end'' then map_option Some (computeReplacedSel (first d) (sel d) cs h)
                               else Some None
                   | None \<Rightarrow> Some None);
        d1 \<leftarrow> makeAll (rev cs) d;
        (case newSel of
           Some s \<Rightarrow> setSelectionReplaceHistory d1 s None
         | None \<Rightarrow> Some (log_view EnsureCursorVisible d1)) })"

definition replaceSelection :: "doc \<Rightarrow> jstr \<Rightarrow> string option \<Rightarrow> string option \<Rightarrow> doc option" where
  "replaceSelection d str coll origin =
     replaceSelections d (replicate (length (ranges (sel d))) str) coll
       (if truthy_origin origin then origin else Some ''+input'')"

section \<open>The history and the clean state\<close>

definition doc_undo :: "doc \<Rightarrow> doc option" where
  "doc_undo d = makeChangeFromHistory d True False"

definition doc_redo :: "doc \<Rightarrow> doc option" where
  "doc_redo d = makeChangeFromHistory d False False"

definition undoSelection :: "doc \<Rightarrow> doc option" where
  "undoSelection d = makeChangeFromHistory d True True"

definition redoSelection :: "doc \<Rightarrow> doc option" where
  "redoSelection d = makeChangeFromHistory d False True"

definition setExtending :: "bool \<Rightarrow> doc \<Rightarrow> doc" where
  "setExtending val d = d\<lparr>extending := val\<rparr>"

definition historySize :: "doc \<Rightarrow> nat \<times> nat" where
  "historySize d = (length (filter (\<lambda>e. \<not> is_sel e) (hdone (history d))),
                    length (filter (\<lambda>e. \<not> is_sel e) (hundone (history d))))"

definition changeGeneration :: "bool \<Rightarrow> doc \<Rightarrow> nat \<times> doc" where
  "changeGeneration forceSplit d =
     (let d1 = (if forceSplit then d\<lparr>history := (history d)\<lparr>lastOp := None, lastSelOp := None, lastOrigin := None\<rparr>\<rparr> else d)
      in (generation (history d1), d1))"

definition markClean :: "doc \<Rightarrow> doc" where
  "markClean d = (let (g, d1) = changeGeneration True d in d1\<lparr>cleanGeneration := g\<rparr>)"

text \<open>\<open>gen || this.cleanGeneration\<close>.\<close>

definition isClean :: "doc \<Rightarrow> nat option \<Rightarrow> bool" where
  "isClean d gen \<longleftrightarrow>
     generation (history d) = (case gen of None \<Rightarrow> cleanGeneration d | Some g \<Rightarrow> if g = 0 then cleanGeneration d else g)"

definition getHistory :: "doc \<Rightarrow> hevent list \<times> hevent list" where
  "getHistory d = (copyHistoryArray (hdone (history d)) False, copyHistoryArray (hundone (history d)) False)"

definition setHistory :: "hevent list \<times> hevent list \<Rightarrow> doc \<Rightarrow> doc" where
  "setHistory h d = d\<lparr>history := (History (maxGeneration (history d)))
     \<lparr>hdone := copyHistoryArray (fst h) True, hundone := copyHistoryArray (snd h) True\<rparr>\<rparr>"

definition doc_copy :: "doc \<Rightarrow> bool \<Rightarrow> int \<Rightarrow> doc option" where
  "doc_copy d copyHistory now = do {
     d1 \<leftarrow> newDoc (getLines d (first d) (first d + doc_size d)) (first d) now;
     let d2 = d1\<lparr>sel := sel d, extending := False\<rparr>;
     Some (if copyHistory
           then setHistory (getHistory d) (d2\<lparr>history := (history d2)\<lparr>undoDepth := undoDepth (history d)\<rparr>\<rparr>)
           else d2) }"

section \<open>Positions by index\<close>

definition posFromIndex :: "doc \<Rightarrow> int \<Rightarrow> pos option" where
  "posFromIndex d off =
     (let (off1, lineNo, ch) = iter_all
            (\<lambda>line (off, n, ch).
               let sz = int (length (ltext line)) + 1
               in if sz > off then ((off, n, Some off), True) else ((off - sz, n + 1, ch), False))
            d (off, first d, None)
      in clipPosCh d lineNo ch)"

definition indexFromPos :: "doc \<Rightarrow> pos \<Rightarrow> int option" where
  "indexFromPos d coords = do {
     p \<leftarrow> clipPos d coords;
     Some (if pline p < first d \<or> pch p < 0 then 0
           else iter (first d) (pline p) (\<lambda>line i. (i + int (length (ltext line)) + 1, False)) d (pch p)) }"

end
