(* ===== verification/ChangeText.thy ===== *)
theory ChangeText
  imports Changes TextHistory
begin

text \<open>
  What the change operations do to the text, the selection and the history of a document: without
  handlers and without atomic markers, a change is the replacement it says, undo and redo follow the
  chain of the history, and undo brings back the text before the change.
\<close>

section \<open>What the operations leave alone\<close>

text \<open>An editor up to what it was told to redraw.\<close>

definition silent :: "editor option \<Rightarrow> editor option" where
  "silent e = map_option (\<lambda>e. e\<lparr>viewLog := []\<rparr>) e"

text \<open>Updates of lines, markers, selection, editing flag and view bookkeeping only.\<close>

definition same_core :: "doc \<Rightarrow> doc \<Rightarrow> bool" where
  "same_core d d' \<longleftrightarrow> first d' = first d \<and> history d' = history d \<and> extending d' = extending d
     \<and> cleanGeneration d' = cleanGeneration d \<and> beforeChange d' = beforeChange d
     \<and> beforeSelectionChange d' = beforeSelectionChange d \<and> clock d' = clock d
     \<and> sawReadOnlySpans d' = sawReadOnlySpans d \<and> sawCollapsedSpans d' = sawCollapsedSpans d
     \<and> same_flags (markers d) (markers d') \<and> silent (cm d') = silent (cm d)"

lemma same_core_refl [simp]: "same_core d d"
  by (simp add: same_core_def)

lemma same_core_trans: "same_core a b \<Longrightarrow> same_core b c \<Longrightarrow> same_core a c"
  by (auto simp: same_core_def intro: same_flags_trans)

lemma same_frame_core: "same_frame d d' \<Longrightarrow> same_core d d'"
  using same_frame_fields [of d d'] same_frame_flags [of d d'] by (simp add: same_core_def)

lemma log_view_simps [simp]:
  "root (log_view v d) = root d" "first (log_view v d) = first d" "sel (log_view v d) = sel d"
  "history (log_view v d) = history d" "markers (log_view v d) = markers d" "cantEdit (log_view v d) = cantEdit d"
  "extending (log_view v d) = extending d" "cleanGeneration (log_view v d) = cleanGeneration d"
  "frontier (log_view v d) = frontier d" "beforeChange (log_view v d) = beforeChange d"
  "beforeSelectionChange (log_view v d) = beforeSelectionChange d" "clock (log_view v d) = clock d"
  "nextLine (log_view v d) = nextLine d" "nextMarker (log_view v d) = nextMarker d"
  "sawReadOnlySpans (log_view v d) = sawReadOnlySpans d" "sawCollapsedSpans (log_view v d) = sawCollapsedSpans d"
  "silent (cm (log_view v d)) = silent (cm d)" "cm (log_view v d) = None \<longleftrightarrow> cm d = None"
  by (simp_all add: log_view_def silent_def option.map_comp comp_def)

lemma doc_lines_root: "root d' = root d \<Longrightarrow> doc_lines d' = doc_lines d"
  by (simp add: doc_lines_def)

lemma doc_root_cong:
  assumes "root d' = root d"
  shows "doc_lines d' = doc_lines d" "texts d' = texts d" "contents d' = contents d" "doc_size d' = doc_size d"
    "total_spans d' = total_spans d" "nextLine d' = nextLine d \<Longrightarrow> wf_doc d' = wf_doc d"
  using assms by (simp_all add: doc_lines_def texts_def contents_def doc_size_def total_spans_def wf_doc_def)

text \<open>Operations that keep the markers and the lines they are on together.\<close>

definition keeps :: "doc \<Rightarrow> doc \<Rightarrow> bool" where
  "keeps d d' \<longleftrightarrow> (linked d [] \<longrightarrow> linked d' []) \<and> nextMarker d' = nextMarker d"

lemma keeps_trans: "keeps d d1 \<Longrightarrow> keeps d1 d2 \<Longrightarrow> keeps d d2"
  by (simp add: keeps_def)

lemma keeps_same: "root d' = root d \<Longrightarrow> markers d' = markers d \<Longrightarrow> nextMarker d' = nextMarker d \<Longrightarrow> keeps d d'"
  by (simp add: keeps_def linked_def doc_lines_def)

section \<open>Selections of documents without atomic markers\<close>

definition calm :: "doc \<Rightarrow> bool" where
  "calm d \<longleftrightarrow> (\<forall>mk. \<not> atomic (markers d mk) \<and> \<not> clearOnEnter (markers d mk)
     \<and> \<not> collapsed (markers d mk) \<and> \<not> explicitlyCleared (markers d mk))"

lemma calm_flags: "same_flags (markers d) (markers d') \<Longrightarrow> calm d \<Longrightarrow> calm d'"
  by (simp add: calm_def same_flags_fields)

lemma calm_core: "same_core d d' \<Longrightarrow> calm d \<Longrightarrow> calm d'"
  by (auto simp: same_core_def intro: calm_flags)

text \<open>Without atomic markers the loop passes over the spans of the line and stays where it is.\<close>

lemma skipLoop_calm:
  assumes "calm d" "getLine d (pline cur) = Some line" "i + n > length (lspans line)" "i \<le> length (lspans line)"
  shows "skipLoop n p bias (SkipOn d mayClear cur same dir flipped i) = Some (cur, same, d)"
  using assms(3,4)
proof (induction n arbitrary: i)
  case (Suc n)
  show ?case
  proof (cases "i < length (lspans line)")
    case True
    then have "skipLoop n p bias (SkipOn d mayClear cur same dir flipped (Suc i)) = Some (cur, same, d)"
      using Suc by simp
    then show ?thesis using assms(1,2) True by (simp add: calm_def Let_def)
  qed (use assms Suc in simp)
qed simp

lemma getLine_pos: "wf_doc d \<Longrightarrow> pos_ok d p \<Longrightarrow> \<exists>l \<in> set (doc_lines d). getLine d (pline p) = Some l"
  using pos_ok_line(1,2) [of d p] nth_mem by fastforce

lemma spans_le_total: "l \<in> set (doc_lines d) \<Longrightarrow> length (lspans l) \<le> total_spans d"
  by (simp add: total_spans_def member_le_sum_list)

lemma skipFuel_enough: "total_spans d < skipFuel d"
proof (cases "sum_list (map (\<lambda>l. length (ltext l) + 2) (doc_lines d))")
  case 0
  then have "doc_lines d = []" by (cases "doc_lines d") auto
  then show ?thesis by (simp add: skipFuel_def total_spans_def)
next
  case (Suc k)
  let ?t = "total_spans d"
  have "Suc ?t * 1 \<le> Suc ?t * (8 * Suc k * Suc (Suc ?t))" by (rule mult_le_mono2) simp
  also have "\<dots> = 8 * Suc k * Suc ?t * Suc (Suc ?t)" by (simp only: mult_ac)
  finally show ?thesis unfolding skipFuel_def Let_def Suc by simp
qed

lemma cantEdit_simps [simp]:
  "doc_lines (d\<lparr>cantEdit := b\<rparr>) = doc_lines d" "wf_doc (d\<lparr>cantEdit := b\<rparr>) = wf_doc d"
  "pos_ok (d\<lparr>cantEdit := b\<rparr>) = pos_ok d" "calm (d\<lparr>cantEdit := b\<rparr>) = calm d"
  by (simp_all add: doc_lines_def wf_doc_def pos_ok_def fun_eq_iff texts_def line_index_def calm_def)

lemma skipRanges_calm:
  assumes "calm d" "wf_doc d" "\<forall>p \<in> range_ends rs. pos_ok d p" "total_spans d < n" "rs \<noteq> []"
  shows "skipRanges n d rs bias mayClear = Some (rs, True, d\<lparr>cantEdit := False\<rparr>)"
  using assms
proof (induction rs arbitrary: d)
  case (Cons r rs)
  let ?d = "d\<lparr>cantEdit := False\<rparr>"
  have skip: "skipLoop n q bias (SkipOn ?d mayClear q True dir False 0) = Some (q, True, ?d)"
    if q: "pos_ok d q" for q dir
  proof -
    obtain l where l: "l \<in> set (doc_lines ?d)" "getLine ?d (pline q) = Some l"
      using getLine_pos [of ?d q] Cons.prems(2) q by auto
    have "length (lspans l) < n" using spans_le_total [of l d] l Cons.prems(4) by simp
    then show ?thesis using Cons.prems(1) l(2) by (intro skipLoop_calm) simp_all
  qed
  have "pos_ok d (anchor r)" "pos_ok d (head r)" using Cons.prems(3) by (auto simp: range_ends_def)
  note skips = this [THEN skip]
  have rest: "skipRanges n ?d rs bias mayClear = Some (rs, True, ?d)"
  proof (cases "rs = []")
    case False
    then show ?thesis
      using Cons.IH [of ?d] Cons.prems by (auto simp: range_ends_def total_spans_def)
  qed simp
  show ?case using skips rest by (simp add: range_surj)
qed simp

lemma sel_in_ok: "sel_in (first d) (texts d) s \<longleftrightarrow>
    0 \<le> primIndex s \<and> primIndex s < int (length (ranges s)) \<and> (\<forall>p \<in> range_ends (ranges s). pos_ok d p)"
  by (simp add: sel_in_def pos_ok_in)

lemma skipAtomicInSelection_calm:
  assumes "calm d" "wf_doc d" "sel_in (first d) (texts d) s"
  shows "skipAtomicInSelection d s bias mayClear = Some (s, d\<lparr>cantEdit := False\<rparr>)"
proof -
  have "ranges s \<noteq> []" "\<forall>p \<in> range_ends (ranges s). pos_ok d p" using assms(3) by (auto simp: sel_in_ok)
  then have "skipRanges (skipFuel d) d (ranges s) bias mayClear = Some (ranges s, True, d\<lparr>cantEdit := False\<rparr>)"
    using assms(1,2) skipFuel_enough by (intro skipRanges_calm)
  then show ?thesis by (simp add: skipAtomicInSelection_def)
qed

lemma setSelectionInner_spec:
  "sel (setSelectionInner s d) = s" "root (setSelectionInner s d) = root d" "same_core d (setSelectionInner s d)"
  "nextLine (setSelectionInner s d) = nextLine d" "markers (setSelectionInner s d) = markers d"
  "nextMarker (setSelectionInner s d) = nextMarker d"
  by (auto simp: setSelectionInner_def same_core_def)

text \<open>Setting a selection that lies in the text, with no handlers and no atomic markers.\<close>

lemma setSelectionNoUndo_spec:
  assumes d: "calm d" "wf_doc d" "beforeSelectionChange d = []"
    and s: "sel_in (first d) (texts d) s" and old: "0 \<le> primIndex (sel d)" "primIndex (sel d) < int (length (ranges (sel d)))"
  obtains d' where "setSelectionNoUndo d s options = Some d'" "sel d' = s" "root d' = root d" "same_core d d'" "wf_doc d'"
    "keeps d d'"
proof -
  obtain new where new: "primary s = Some new" using s by (auto simp: primary_def sel_in_def)
  obtain prev where prev: "primary (sel d) = Some prev" using old by (auto simp: primary_def)
  let ?d1 = "setSelectionInner s (d\<lparr>cantEdit := False\<rparr>)"
  note i = setSelectionInner_spec [where s = s and d = "d\<lparr>cantEdit := False\<rparr>"]
  define d' where "d' = (if (case options of None \<Rightarrow> True | Some os \<Rightarrow> oscroll os) then log_view EnsureCursorVisible ?d1 else ?d1)"
  have r: "setSelectionNoUndo d s options = Some d'"
    using skipAtomicInSelection_calm [OF d(1,2) s] new prev d(3)
    by (simp add: setSelectionNoUndo_def d'_def Let_def split: option.splits)
  have "same_core d (d\<lparr>cantEdit := False\<rparr>)" by (simp add: same_core_def)
  then have c: "same_core d ?d1" using i(3) by (rule same_core_trans)
  have c': "same_core d d'" using c by (auto simp: d'_def same_core_def)
  have "wf_doc d'" using d(2) i by (subst doc_root_cong(6) [of d' d]) (simp_all add: d'_def)
  moreover have "keeps d d'" using i by (intro keeps_same) (simp_all add: d'_def)
  ultimately show ?thesis using r c' i by (intro that [of d']) (auto simp: d'_def)
qed

section \<open>Making a change\<close>

lemma collapsedLoop_calm: "calm d \<Longrightarrow> collapsedLoop d start sps found = Some found"
  by (induction sps arbitrary: found) (auto simp: calm_def)

lemma visualLine_calm:
  assumes "calm d" "wf_doc d" "k < length (doc_lines d)"
  shows "visualLine d (lid (doc_lines d ! k)) = Some (lid (doc_lines d ! k))"
  by (subst visualLine.simps)
     (simp add: lineById_nth [OF assms(2,3)] collapsedSpanAtSide_def collapsedLoop_calm [OF assms(1)])

lemma change_lines:
  assumes "wf_doc d" "change_ok d c"
  shows "\<not> pline (cto c) < first d" "\<not> pline (cfrom c) > lastLine d" "clipChange d c = Some (c, d)"
  using assms by (auto simp: change_ok_def pos_ok_def lastLine_def wf_doc_size clipChange_def Let_def pos_le_iff)

lemma change_ok_cong: "first d' = first d \<Longrightarrow> root d' = root d \<Longrightarrow> change_ok d' = change_ok d"
  by (simp add: fun_eq_iff change_ok_def pos_ok_def line_index_def texts_def doc_lines_def)

lemma replaced_contents_cong: "first d' = first d \<Longrightarrow> root d' = root d \<Longrightarrow> replaced_contents d' = replaced_contents d"
  by (simp add: fun_eq_iff replaced_contents_def line_index_def contents_def doc_lines_def)

text \<open>\<open>updateDoc\<close>, with and without an editor around it.\<close>

lemma updateDoc_step:
  assumes "wf_doc d" "change_ok d c"
  obtains d' where "updateDoc d c sp est = Some d'" "wf_doc d'" "same_frame d d'"
    "contents d' = replaced_contents d c sp" "texts d' = apply_change (first d) c (texts d)" "keeps d d'"
proof -
  obtain d' where u: "updateDoc d c sp est = Some d'" "wf_doc d'" "same_frame d d'"
    "texts d' = text_replace (line_index d (pline (cfrom c))) (nat (pch (cfrom c)))
        (line_index d (pline (cto c))) (nat (pch (cto c))) (ctext c) (texts d)"
    "contents d' = replaced_contents d c sp" "linked d [] \<longrightarrow> linked d' []"
    using updateDoc_text [OF assms] .
  then show ?thesis using same_frame_fields(12) [OF u(3)]
    by (intro that [of d']) (simp_all add: apply_change_def line_index_def keeps_def)
qed

lemma makeChangeSingleDocInEditor_spec:
  assumes d: "wf_doc d" "calm d" and c: "change_ok d c" and e: "cm d = Some e"
  obtains d' where "makeChangeSingleDocInEditor d e c sp = Some d'" "wf_doc d'" "same_core d d'" "sel d' = sel d"
    "contents d' = replaced_contents d c sp" "texts d' = apply_change (first d) c (texts d)" "keeps d d'"
proof -
  let ?d1 = "if sel_contains (sel d) (cfrom c) (Some (cto c)) > -1 then log_view CursorActivity d else d"
  have r1: "root ?d1 = root d" "first ?d1 = first d" "nextLine ?d1 = nextLine d" "sel ?d1 = sel d" and s1: "same_core d ?d1"
    by (auto simp: same_core_def)
  have d1: "wf_doc ?d1" "change_ok ?d1 c"
    using d c doc_root_cong(6) [OF r1(1,3)] change_ok_cong [OF r1(2,1)] by metis+
  have t1: "texts ?d1 = texts d" "replaced_contents ?d1 = replaced_contents d"
    using doc_root_cong(2) [OF r1(1)] replaced_contents_cong [OF r1(2,1)] by blast+
  obtain d2 where u: "updateDoc ?d1 c sp (Some (estimateHeight e)) = Some d2" "wf_doc d2" "same_frame ?d1 d2"
    "contents d2 = replaced_contents ?d1 c sp" "texts d2 = apply_change (first ?d1) c (texts ?d1)" "keeps ?d1 d2"
    using updateDoc_step [OF d1] .
  have p: "pos_ok d (cfrom c)" using c by (simp add: change_ok_def)
  note l = pos_ok_line [OF d(1) p]
  have chk: "\<exists>w. (if \<not> lineWrapping e then do {
      line \<leftarrow> getLine d (pline (cfrom c)); vis \<leftarrow> visualLine d (lid line); lineNoOf d vis } else Some (pline (cfrom c))) = Some w"
    using l(2) visualLine_calm [OF d(2,1) l(1)] lineById_nth [OF d(1) l(1)] by simp
  then obtain w where w: "(if \<not> lineWrapping e then do {
      line \<leftarrow> getLine d (pline (cfrom c)); vis \<leftarrow> visualLine d (lid line); lineNoOf d vis } else Some (pline (cfrom c))) = Some w" ..
  define d3 where "d3 = (if \<not> lineWrapping e then log_view (MeasureLines w (pline (cfrom c) + int (length (ctext c)))) d2 else d2)"
  define d4 where "d4 = log_view (StartWorker 400) (d3\<lparr>frontier := min (frontier d3) (pline (cfrom c))\<rparr>)"
  define d5 where "d5 = (if pline (cfrom c) = pline (cto c) \<and> length (ctext c) = 1 \<and> \<not> isWholeLineUpdate d4 c
     then log_view (RegLineChange (pline (cfrom c)) ''text'') d4
     else log_view (RegChange (pline (cfrom c)) (pline (cto c) + 1) (int (length (ctext c)) - (pline (cto c) - pline (cfrom c)) - 1)) d4)"
  have res: "makeChangeSingleDocInEditor d e c sp = Some d5"
    unfolding makeChangeSingleDocInEditor_def Let_def w u(1) bind.bind_lunit d3_def d4_def d5_def by (simp only: bind.bind_lunit)
  have r5: "root d5 = root d2" "nextLine d5 = nextLine d2" "sel d5 = sel d2" "same_core d2 d5"
    by (auto simp: d5_def d4_def d3_def same_core_def)
  have "sel d2 = sel d" using same_frame_fields(2) [OF u(3)] r1 by simp
  moreover have "same_core d d5"
    using same_core_trans [OF s1 same_core_trans [OF same_frame_core [OF u(3)] r5(4)]] .
  moreover have "contents d5 = replaced_contents d c sp" "texts d5 = apply_change (first d) c (texts d)" "wf_doc d5"
    using u(2,4,5) doc_root_cong [OF r5(1)] r5(2) t1 r1(2) by metis+
  moreover have "keeps d ?d1" "keeps d2 d5" using r5 by (intro keeps_same; simp add: d5_def d4_def d3_def)+
  then have "keeps d d5" using u(6) keeps_trans by blast
  ultimately show ?thesis using res r5 by (intro that [of d5]) auto
qed

lemma makeChangeSingleDoc_spec:
  assumes d: "wf_doc d" "calm d" "beforeSelectionChange d = []" and c: "change_ok d c"
    and old: "0 \<le> primIndex (sel d)" "primIndex (sel d) < int (length (ranges (sel d)))"
    and s: "sel_in (first d) (apply_change (first d) c (texts d)) s"
  obtains d' where "makeChangeSingleDoc d c (Some s) sp = Some d'" "wf_doc d'" "same_core d d'" "sel d' = s"
    "contents d' = replaced_contents d c sp" "texts d' = apply_change (first d) c (texts d)" "keeps d d'"
proof -
  obtain d1 where u: "(case cm d of Some e \<Rightarrow> makeChangeSingleDocInEditor d e c sp | None \<Rightarrow> updateDoc d c sp None) = Some d1"
    "wf_doc d1" "same_core d d1" "sel d1 = sel d" "contents d1 = replaced_contents d c sp"
    "texts d1 = apply_change (first d) c (texts d)" "keeps d d1"
  proof (cases "cm d")
    case None
    obtain d1 where "updateDoc d c sp None = Some d1" "wf_doc d1" "same_frame d d1"
      "contents d1 = replaced_contents d c sp" "texts d1 = apply_change (first d) c (texts d)" "keeps d d1"
      using updateDoc_step [OF d(1) c] .
    then show ?thesis using None same_frame_fields(2) [of d d1] same_frame_core [of d d1] by (intro that [of d1]) simp_all
  next
    case (Some e)
    obtain d1 where "makeChangeSingleDocInEditor d e c sp = Some d1" "wf_doc d1" "same_core d d1" "sel d1 = sel d"
      "contents d1 = replaced_contents d c sp" "texts d1 = apply_change (first d) c (texts d)" "keeps d d1"
      using makeChangeSingleDocInEditor_spec [OF d(1,2) c Some] .
    then show ?thesis using Some by (intro that [of d1]) simp_all
  qed
  have f: "first d1 = first d" "beforeSelectionChange d1 = []" using u(3) d(3) by (simp_all add: same_core_def)
  obtain d2 where n: "setSelectionNoUndo d1 s (Some sel_dontScroll) = Some d2" "sel d2 = s" "root d2 = root d1" "same_core d1 d2" "wf_doc d2" "keeps d1 d2"
    using setSelectionNoUndo_spec [OF calm_core [OF u(3) d(2)] u(2) f(2), of s] s old u(4,6) f by auto
  have "makeChangeSingleDoc d c (Some s) sp = Some d2"
    using change_lines [OF d(1) c] u(1) n(1) by (simp add: makeChangeSingleDoc_def split: option.splits)
  then show ?thesis
    using n(2,5) u(5,6) same_core_trans [OF u(3) n(4)] doc_root_cong(2,3) [OF n(3)] keeps_trans [OF u(7) n(6)] by (intro that [of d2]) simp_all
qed

text \<open>
  A document on which edits go through as they are given: well formed, with a history that fits its
  text, no handlers, no atomic markers, and edits not suppressed.
\<close>

definition ready :: "doc \<Rightarrow> bool" where
  "ready d \<longleftrightarrow> wf_doc d \<and> calm d \<and> beforeChange d = [] \<and> beforeSelectionChange d = [] \<and> hist_inv d
     \<and> (case cm d of None \<Rightarrow> True | Some e \<Rightarrow> \<not> suppressEdits e)"

lemma silent_suppress:
  "silent a = silent b \<Longrightarrow> (case a of None \<Rightarrow> True | Some e \<Rightarrow> \<not> suppressEdits e) = (case b of None \<Rightarrow> True | Some e \<Rightarrow> \<not> suppressEdits e)"
  by (cases a; cases b) (auto simp: silent_def dest: arg_cong [of _ _ suppressEdits])

lemma ready_core:
  assumes "ready d" "same_core d d'" "wf_doc d'" "hist_inv d'"
  shows "ready d'"
  using assms calm_core [OF assms(2)] silent_suppress [of "cm d'" "cm d"] by (auto simp: ready_def same_core_def)

lemma history_update [simp]:
  "doc_lines (d\<lparr>history := h\<rparr>) = doc_lines d" "texts (d\<lparr>history := h\<rparr>) = texts d" "wf_doc (d\<lparr>history := h\<rparr>) = wf_doc d"
  "calm (d\<lparr>history := h\<rparr>) = calm d" "change_ok (d\<lparr>history := h\<rparr>) = change_ok d"
  by (simp_all add: doc_lines_def texts_def wf_doc_def calm_def fun_eq_iff change_ok_def pos_ok_def line_index_def)

lemma apply_nothing:
  assumes "fits_text n0 ls c" "ctext c = [[]]" "cfrom c = cto c"
  shows "apply_change n0 c ls = ls"
proof -
  have "text_between (nat (pline (cfrom c) - n0)) (nat (pch (cfrom c))) (nat (pline (cto c) - n0)) (nat (pch (cto c))) ls = [[]]"
    using assms(3) by (simp add: text_between_def)
  then show ?thesis
    using text_replace_between [OF fits_places [OF assms(1)]] assms(2) by (simp add: apply_change_def)
qed

definition is_noop :: "change \<Rightarrow> bool" where
  "is_noop c \<longleftrightarrow> ctext c = [[]] \<and> cfrom c = cto c"

lemma makeChangeInner_spec:
  assumes d: "ready d" and c: "change_ok d c" "\<not> is_noop c"
  obtains d' h where "makeChangeInner d c = Some d'" "ready d'" "same_core (d\<lparr>history := h\<rparr>) d'"
    "texts d' = apply_change (first d) c (texts d)" "sel d' = computeSelAfterChange (sel d) c"
    "addChangeToHistory d c (sel d') (current_op d) = Some (d\<lparr>history := h\<rparr>)"
    "hundone h = []" "undoDepth h = undoDepth (history d)" "\<exists>arr. hdone h = arr @ [SelEvent (sel d')]"
    "contents d' = replaced_contents d c (stretchSpansOverChange d c)" "keeps d d'"
    "\<not> mayMerge d c (current_op d) \<Longrightarrow> deep_enough (undoDepth (history d)) \<Longrightarrow>
       text_below (first d) (texts d') (rev (hdone h)) = texts d \<and>
       (\<exists>q e. hdone h = q @ [SelEvent (prior_sel d), e, SelEvent (sel d')] \<and> \<not> is_sel e)"
proof -
  have r: "wf_doc d" "calm d" "beforeSelectionChange d = []" "hist_inv d" using d by (auto simp: ready_def)
  have fits: "fits_text (first d) (texts d) c" using c(1) by (simp add: fits_change_ok)
  let ?s = "computeSelAfterChange (sel d) c" and ?R = "apply_change (first d) c (texts d)"
  have s0: "sel_in (first d) (texts d) (sel d)" using r(4) by (simp add: hist_inv_def)
  have s: "sel_in (first d) ?R ?s" using computeSelAfterChange_in [OF fits s0] .
  obtain h where h: "addChangeToHistory d c ?s (current_op d) = Some (d\<lparr>history := h\<rparr>)" "hundone h = []"
    "chain (first d) ?R (rev (hdone h))" "undoDepth h = undoDepth (history d)" "\<exists>arr. hdone h = arr @ [SelEvent ?s]"
    "\<not> mayMerge d c (current_op d) \<Longrightarrow> deep_enough (undoDepth (history d)) \<Longrightarrow> text_below (first d) ?R (rev (hdone h)) = texts d \<and>
       (\<exists>q e. hdone h = q @ [SelEvent (prior_sel d), e, SelEvent ?s] \<and> \<not> is_sel e)"
    using addChange_spec [OF r(1,4) fits s, of "current_op d"] by blast
  let ?d1 = "d\<lparr>history := h\<rparr>"
  have p: "wf_doc ?d1" "calm ?d1" "beforeSelectionChange ?d1 = []" "change_ok ?d1 c"
    "0 \<le> primIndex (sel ?d1)" "primIndex (sel ?d1) < int (length (ranges (sel ?d1)))"
    "sel_in (first ?d1) (apply_change (first ?d1) c (texts ?d1)) ?s"
    using r c s s0 by (simp_all add: sel_in_def)
  obtain d2 where m: "makeChangeSingleDoc ?d1 c (Some ?s) (stretchSpansOverChange ?d1 c) = Some d2" "wf_doc d2"
    "same_core ?d1 d2" "sel d2 = ?s" "texts d2 = apply_change (first ?d1) c (texts ?d1)"
    "contents d2 = replaced_contents ?d1 c (stretchSpansOverChange ?d1 c)" "keeps ?d1 d2"
    using makeChangeSingleDoc_spec [OF p, of "stretchSpansOverChange ?d1 c"] by blast
  have f2: "first d2 = first d" "history d2 = h" using m(3) by (simp_all add: same_core_def)
  have inv: "hist_inv d2" using m h s f2 by (simp add: hist_inv_def)
  have "ready d2"
    using d m(2,3) inv calm_core [OF m(3) p(2)] silent_suppress [of "cm d2" "cm d"] by (auto simp: ready_def same_core_def)
  moreover have "makeChangeInner d c = Some d2"
    using c(2) h(1) m(1) by (cases "ctext c") (auto simp: makeChangeInner_def is_noop_def Let_def)
  moreover have "contents d2 = replaced_contents d c (stretchSpansOverChange d c)"
    using m(6) replaced_contents_cong [of ?d1 d]
    by (simp add: stretchSpansOverChange_def isLine_def lineSpans_def getLine_def lastLine_def doc_size_def)
  moreover have "keeps d d2" using m(7) by (simp add: keeps_def linked_def)
  ultimately show ?thesis using m h by (intro that [of d2 h]) simp_all
qed

lemma makeChange_inner:
  assumes "ready d" "ignoreReadOnly \<or> \<not> sawReadOnlySpans d"
  shows "makeChange d c ignoreReadOnly = makeChangeInner d c"
  using assms by (auto simp: makeChange_def ready_def split: option.splits)

section \<open>Undo and redo\<close>

lemma revertChanges_spec:
  assumes "wf_doc d" "calm d" "beforeChange d = []" "beforeSelectionChange d = []"
    and "sel_in (first d) (texts d) (sel d)" "fits_all (first d) (texts d) cs" "cs \<noteq> []"
    and "lst source = Some (SelEvent s)" "sel_in (first d) (apply_all (first d) cs (texts d)) s"
    and "fits_all (first d) (texts d) (rev antis)"
  shows "\<exists>d' antis'. revertChanges type source d cs antis = Some (d', antis', False) \<and> wf_doc d' \<and> same_core d d'
    \<and> sel d' = s \<and> texts d' = apply_all (first d) cs (texts d) \<and> antis' \<noteq> []
    \<and> fits_all (first d) (texts d') (rev antis')
    \<and> apply_all (first d) (rev antis') (texts d') = apply_all (first d) (rev antis) (texts d) \<and> keeps d d'"
  using assms
proof (induction cs arbitrary: d antis)
  case (Cons c rest)
  let ?n = "first d" and ?ls = "texts d"
  define ch where "ch = (plain_change c)\<lparr>corigin := Some type\<rparr>"
  have ch_fits: "fits_text ?n ?ls ch" and ch_apply: "apply_change ?n ch = apply_change ?n c"
    using Cons.prems(6) by (simp_all add: ch_def plain_change_def fits_text_def apply_change_def fun_eq_iff)
  have ok: "change_ok d ch" using ch_fits by (simp add: fits_change_ok)
  note s0 = Cons.prems(5)
  define after where "after = (if rest \<noteq> [] then computeSelAfterChange (sel d) ch else s)"
  have sin: "sel_in ?n (apply_change ?n ch ?ls) after"
    using computeSelAfterChange_in [OF ch_fits s0] Cons.prems(9) by (auto simp: after_def ch_apply)
  have old: "0 \<le> primIndex (sel d)" "primIndex (sel d) < int (length (ranges (sel d)))" using s0 by (auto simp: sel_in_def)
  obtain d1 where m: "makeChangeSingleDoc d ch (Some after) (mergeOldSpans d c) = Some d1" "wf_doc d1" "same_core d d1"
    "sel d1 = after" "texts d1 = apply_change ?n ch ?ls" "keeps d d1"
    using makeChangeSingleDoc_spec [OF Cons.prems(1,2,4) ok old sin] by blast
  define d2 where "d2 = (if rest = [] then log_view (ScrollIntoView (cfrom ch) (changeEnd ch)) d1 else d1)"
  have r2: "root d2 = root d1" "nextLine d2 = nextLine d1" "sel d2 = after" "same_core d d2" "first d2 = first d"
    using m by (auto simp: d2_def same_core_def)
  have k2: "keeps d d2" using m(6) by (simp add: d2_def keeps_def linked_def doc_lines_def)
  have t2: "texts d2 = apply_change ?n c ?ls" "wf_doc d2"
    using m doc_root_cong [OF r2(1)] r2(2) ch_apply by simp_all
  let ?anti = "historyChangeFromChange d ch"
  note u = apply_undo [OF ch_fits historyChange_spec [OF Cons.prems(1) ch_fits]]
  have fa: "fits_all ?n (texts d2) (rev (antis @ [?anti]))"
    "apply_all ?n (rev (antis @ [?anti])) (texts d2) = apply_all ?n (rev antis) ?ls"
    using u Cons.prems(10) t2 ch_apply by simp_all
  have step: "revertChanges type source d (c # rest) antis = revertChanges type source d2 rest (antis @ [?anti])"
    using m(1) Cons.prems(3,8) unfolding revertChanges.simps Let_def ch_def [symmetric]
    by (simp add: after_def d2_def split: if_splits)
  show ?case
  proof (cases "rest = []")
    case True
    then show ?thesis
      unfolding step using r2 t2 fa k2 by (simp add: after_def)
  next
    case False
    have b: "calm d2" "beforeChange d2 = []" "beforeSelectionChange d2 = []"
      using calm_core [OF r2(4)] Cons.prems r2(4) by (auto simp: same_core_def)
    have "\<exists>d' antis'. revertChanges type source d2 rest (antis @ [?anti]) = Some (d', antis', False) \<and> wf_doc d' \<and> same_core d2 d'
    \<and> sel d' = s \<and> texts d' = apply_all (first d2) rest (texts d2) \<and> antis' \<noteq> []
    \<and> fits_all (first d2) (texts d') (rev antis')
    \<and> apply_all (first d2) (rev antis') (texts d') = apply_all (first d2) (rev (antis @ [?anti])) (texts d2) \<and> keeps d2 d'"
      by (rule Cons.IH)
         (use t2 b r2 Cons.prems False fa sin in \<open>simp_all add: ch_apply\<close>)
    then show ?thesis
      unfolding step using r2 fa t2 k2 by (auto intro: same_core_trans keeps_trans)
  qed
qed simp

lemma filter_push: "filter (\<lambda>e. \<not> is_sel e) (pushSelectionToHistory s arr) = filter (\<lambda>e. \<not> is_sel e) arr"
  by (simp add: pushSelectionToHistory_def split: option.split hevent.split)

lemma popEvents_spec:
  assumes "chain n0 ls es" "chain n0 ls (rev dest)" "sel_in n0 ls selAfter" "list_ex (\<lambda>e. \<not> is_sel e) es"
  shows "\<exists>cs g rest dest' s. popEvents d False es dest selAfter = Some (ChangeEvent cs g, rest, dest', s)
    \<and> chain n0 ls (ChangeEvent cs g # rest) \<and> chain n0 ls (rev dest') \<and> sel_in n0 ls s
    \<and> text_below n0 ls es = apply_all n0 (rev cs) ls \<and> dropWhile is_sel es = ChangeEvent cs g # rest
    \<and> filter (\<lambda>e. \<not> is_sel e) dest' = filter (\<lambda>e. \<not> is_sel e) dest"
  using assms
proof (induction es arbitrary: dest selAfter)
  case (Cons e es)
  show ?case
  proof (cases e)
    case (SelEvent s)
    have "\<exists>cs g rest dest' s'. popEvents d False es (pushSelectionToHistory s dest) s = Some (ChangeEvent cs g, rest, dest', s')
      \<and> chain n0 ls (ChangeEvent cs g # rest) \<and> chain n0 ls (rev dest') \<and> sel_in n0 ls s'
      \<and> text_below n0 ls es = apply_all n0 (rev cs) ls \<and> dropWhile is_sel es = ChangeEvent cs g # rest
      \<and> filter (\<lambda>e. \<not> is_sel e) dest' = filter (\<lambda>e. \<not> is_sel e) (pushSelectionToHistory s dest)"
      by (rule Cons.IH) (use Cons.prems SelEvent in \<open>auto intro: chain_push\<close>)
    then show ?thesis using SelEvent by (simp add: filter_push)
  next
    case (ChangeEvent cs g)
    then show ?thesis using Cons.prems by auto
  qed
qed simp

lemma put_stacks_simps [simp]:
  "source_of undo (put_stacks undo s t h) = s" "dest_of undo (put_stacks undo s t h) = t"
  "undoDepth (put_stacks undo s t h) = undoDepth h" "generation (put_stacks undo s t h) = generation h"
  "maxGeneration (put_stacks undo s t h) = maxGeneration h" "lastSelOrigin (put_stacks undo s t h) = lastSelOrigin h"
  by (simp_all add: put_stacks_def source_of_def dest_of_def)

lemma hist_inv_stacks:
  "hist_inv d \<longleftrightarrow> chain (first d) (texts d) (rev (source_of undo (history d)))
     \<and> chain (first d) (texts d) (rev (dest_of undo (history d))) \<and> sel_in (first d) (texts d) (sel d)"
  by (auto simp: hist_inv_def source_of_def dest_of_def)

text \<open>
  One step of undo or redo on a history that fits the text: it succeeds, leads to the text below the
  top event of the source, and puts on the other stack an event that leads back.
\<close>

lemma history_step:
  assumes d: "ready d" and ev: "list_ex (\<lambda>e. \<not> is_sel e) (source_of undo (history d))"
  obtains d' where "makeChangeFromHistory d undo False = Some d'" "ready d'" "first d' = first d"
    "texts d' = text_below (first d) (texts d) (rev (source_of undo (history d)))"
    "text_below (first d') (texts d') (rev (dest_of undo (history d'))) = texts d"
    "list_ex (\<lambda>e. \<not> is_sel e) (dest_of undo (history d'))"
    "undoDepth (history d') = undoDepth (history d)"
    "\<exists>e rest. dropWhile is_sel (rev (source_of undo (history d))) = e # SelEvent (sel d') # rest" "keeps d d'"
    "cleanGeneration d' = cleanGeneration d" "lastSelOrigin (history d') = None"
    "\<exists>cs g rest dest antis. dropWhile is_sel (rev (source_of undo (history d))) = ChangeEvent cs g # rev rest
      \<and> source_of undo (history d') = rest \<and> filter (\<lambda>e. \<not> is_sel e) dest = filter (\<lambda>e. \<not> is_sel e) (dest_of undo (history d))
      \<and> dest_of undo (history d') = dest @ [ChangeEvent antis (Some (generation (history d)))]
      \<and> generation (history d') = (case g of Some n \<Rightarrow> if n \<noteq> 0 then n else Suc (maxGeneration (history d)) | None \<Rightarrow> Suc (maxGeneration (history d)))
      \<and> maxGeneration (history d') = (case g of Some n \<Rightarrow> if n \<noteq> 0 then maxGeneration (history d) else Suc (maxGeneration (history d))
          | None \<Rightarrow> Suc (maxGeneration (history d)))"
proof -
  let ?h = "history d" and ?n = "first d" and ?ls = "texts d"
  let ?src = "source_of undo ?h"
  have r: "wf_doc d" "calm d" "beforeChange d = []" "beforeSelectionChange d = []" "hist_inv d" using d by (auto simp: ready_def)
  have ch: "chain ?n ?ls (rev ?src)" "chain ?n ?ls (rev (dest_of undo ?h))" "sel_in ?n ?ls (sel d)"
    using r(5) by (simp_all add: hist_inv_stacks [of d undo])
  obtain cs g rest dest s0 where p: "popEvents d False (rev ?src) (dest_of undo ?h) (sel d) = Some (ChangeEvent cs g, rest, dest, s0)"
    "chain ?n ?ls (ChangeEvent cs g # rest)" "chain ?n ?ls (rev dest)" "sel_in ?n ?ls s0"
    "text_below ?n ?ls (rev ?src) = apply_all ?n (rev cs) ?ls" "dropWhile is_sel (rev ?src) = ChangeEvent cs g # rest"
    "filter (\<lambda>e. \<not> is_sel e) dest = filter (\<lambda>e. \<not> is_sel e) (dest_of undo ?h)"
    using popEvents_spec [OF ch, of d] ev by auto
  obtain s rest' where rs: "rest = SelEvent s # rest'" using p(2) by (cases rest) (auto simp: is_sel_iff)
  define dest1 where "dest1 = pushSelectionToHistory s0 dest"
  define gm where "gm = (case g of
      Some g \<Rightarrow> if g \<noteq> 0 then (g, maxGeneration ?h) else (maxGeneration ?h + 1, maxGeneration ?h + 1)
    | None \<Rightarrow> (maxGeneration ?h + 1, maxGeneration ?h + 1))"
  define h1 where "h1 = put_stacks undo (rev rest) dest1
     (?h\<lparr>generation := fst gm, maxGeneration := snd gm, lastOrigin := None, lastSelOrigin := None\<rparr>)"
  let ?d1 = "d\<lparr>history := h1\<rparr>"
  have "\<exists>d' antis'. revertChanges (if undo then ''undo'' else ''redo'') (rev rest) ?d1 (rev cs) [] = Some (d', antis', False)
    \<and> wf_doc d' \<and> same_core ?d1 d' \<and> sel d' = s \<and> texts d' = apply_all (first ?d1) (rev cs) (texts ?d1) \<and> antis' \<noteq> []
    \<and> fits_all (first ?d1) (texts d') (rev antis')
    \<and> apply_all (first ?d1) (rev antis') (texts d') = apply_all (first ?d1) (rev []) (texts ?d1) \<and> keeps ?d1 d'"
    by (rule revertChanges_spec) (use r p rs ch in \<open>simp_all\<close>)
  then obtain d2 antis where v: "revertChanges (if undo then ''undo'' else ''redo'') (rev rest) ?d1 (rev cs) [] = Some (d2, antis, False)"
    "wf_doc d2" "same_core ?d1 d2" "sel d2 = s" "texts d2 = apply_all ?n (rev cs) ?ls" "antis \<noteq> []"
    "fits_all ?n (texts d2) (rev antis)" "apply_all ?n (rev antis) (texts d2) = ?ls" "keeps ?d1 d2" by auto
  define d3 where "d3 = d2\<lparr>history := put_stacks undo (rev rest) (dest1 @ [ChangeEvent antis (Some (generation ?h))]) h1\<rparr>"
  have h2: "history d2 = h1" "first d2 = first d" using v(3) by (simp_all add: same_core_def)
  have "revertEvent undo d cs g (rev rest) dest s0 = Some d3"
    unfolding revertEvent_def Let_def
    using v(1) h2 by (simp add: d3_def h1_def gm_def dest1_def case_prod_beta split: option.splits)
  moreover have "list_ex (usableEvent d False) ?src"
  proof -
    have "usableEvent d False = (\<lambda>e. \<not> is_sel e)" by (auto simp: fun_eq_iff usableEvent_def split: hevent.splits)
    with ev show ?thesis by simp
  qed
  ultimately have res: "makeChangeFromHistory d undo False = Some d3"
    using d p(1) by (auto simp: makeChangeFromHistory_def ready_def Let_def split: option.splits)
  have c1: "chain ?n (texts d2) rest" using p(2) v(5) by simp
  have push: "chain ?n ?ls (rev dest1)" "dest1 \<noteq> []" "is_sel (last dest1)"
    unfolding dest1_def using chain_push [OF p(3,4)] push_sel_last by blast+
  have c2: "chain ?n (texts d2) (rev (dest1 @ [ChangeEvent antis (Some (generation ?h))]))"
    using v(6,7,8) push by (simp add: hd_rev)
  have "sel_in ?n (texts d2) s" using c1 rs by simp
  then have inv: "hist_inv d3"
    unfolding hist_inv_stacks [of d3 undo] using c1 c2 v(4) h2 by (simp add: d3_def)
  have rd: "ready d3"
    using d v(2,3) inv calm_core [OF v(3)] r(2) silent_suppress [of "cm d2" "cm d"]
    by (auto simp: ready_def same_core_def d3_def)
  have g3: "generation (history d3) = fst gm" "maxGeneration (history d3) = snd gm"
    "source_of undo (history d3) = rev rest" "dest_of undo (history d3) = dest1 @ [ChangeEvent antis (Some (generation ?h))]"
    by (simp_all add: d3_def h1_def)
  have gm: "fst gm = (case g of Some n \<Rightarrow> if n \<noteq> 0 then n else Suc (maxGeneration ?h) | None \<Rightarrow> Suc (maxGeneration ?h))"
    "snd gm = (case g of Some n \<Rightarrow> if n \<noteq> 0 then maxGeneration ?h else Suc (maxGeneration ?h) | None \<Rightarrow> Suc (maxGeneration ?h))"
    by (simp_all add: gm_def split: option.split)
  have "filter (\<lambda>e. \<not> is_sel e) dest1 = filter (\<lambda>e. \<not> is_sel e) (dest_of undo ?h)"
    using p(7) by (simp add: dest1_def filter_push)
  then have ex: "\<exists>cs g rest dest antis. dropWhile is_sel (rev ?src) = ChangeEvent cs g # rev rest
      \<and> source_of undo (history d3) = rest \<and> filter (\<lambda>e. \<not> is_sel e) dest = filter (\<lambda>e. \<not> is_sel e) (dest_of undo ?h)
      \<and> dest_of undo (history d3) = dest @ [ChangeEvent antis (Some (generation ?h))]
      \<and> generation (history d3) = (case g of Some n \<Rightarrow> if n \<noteq> 0 then n else Suc (maxGeneration ?h) | None \<Rightarrow> Suc (maxGeneration ?h))
      \<and> maxGeneration (history d3) = (case g of Some n \<Rightarrow> if n \<noteq> 0 then maxGeneration ?h else Suc (maxGeneration ?h)
          | None \<Rightarrow> Suc (maxGeneration ?h))"
    unfolding g3 gm
    by (intro exI [of _ cs] exI [of _ g] exI [of _ "rev rest"] exI [of _ dest1] exI [of _ antis]) (simp add: p(6))
  have t3: "texts d3 = texts d2" "sel d3 = s" "first d3 = first d" using v(4) h2(2) by (simp_all add: d3_def)
  show ?thesis
  proof (rule that [of d3])
    show "makeChangeFromHistory d undo False = Some d3" "ready d3" "first d3 = first d" by (fact res rd t3)+
    show "texts d3 = text_below (first d) (texts d) (rev ?src)" using t3 v(5) p(5) by simp
    show "text_below (first d3) (texts d3) (rev (dest_of undo (history d3))) = texts d" using t3 v(8) g3 by simp
    show "list_ex (\<lambda>e. \<not> is_sel e) (dest_of undo (history d3))" using g3 by simp
    show "undoDepth (history d3) = undoDepth ?h" by (simp add: d3_def h1_def)
    show "\<exists>e rest. dropWhile is_sel (rev ?src) = e # SelEvent (sel d3) # rest" using p(6) rs t3 by simp
    show "keeps d d3" using v(9) by (simp add: d3_def keeps_def linked_def)
    show "cleanGeneration d3 = cleanGeneration d" using v(3) by (simp add: d3_def same_core_def)
    show "lastSelOrigin (history d3) = None" by (simp add: d3_def h1_def)
  qed (fact ex)
qed

lemma makeChangeFromHistory_spec:
  assumes d: "ready d" and ev: "list_ex (\<lambda>e. \<not> is_sel e) (source_of undo (history d))"
  obtains d' where "makeChangeFromHistory d undo False = Some d'" "ready d'" "first d' = first d"
    "texts d' = text_below (first d) (texts d) (rev (source_of undo (history d)))"
    "text_below (first d') (texts d') (rev (dest_of undo (history d'))) = texts d"
    "list_ex (\<lambda>e. \<not> is_sel e) (dest_of undo (history d'))"
    "undoDepth (history d') = undoDepth (history d)"
    "\<exists>e rest. dropWhile is_sel (rev (source_of undo (history d))) = e # SelEvent (sel d') # rest"
  by (rule history_step [OF assms]) (rule that)

section \<open>Properties\<close>

definition sample_ready :: "doc" where
  "sample_ready = sample_doc\<lparr>sel := simpleSelection (Pos 6 0) None\<rparr>"

lemma sample_ready_simps [simp]:
  "texts sample_ready = [[], [97], [97, 97], [97, 97, 97]]" "first sample_ready = 5"
  "cm sample_ready = None" "sawReadOnlySpans sample_ready = False" "change_ok sample_ready sample_change"
  "history sample_ready = \<lparr>hdone = [], hundone = [], undoDepth = None, lastModTime = 0, lastSelTime = 0, lastOp = None,
       lastSelOp = None, lastOrigin = None, lastSelOrigin = None, generation = 1, maxGeneration = 1\<rparr>"
  "sel sample_ready = simpleSelection (Pos 6 0) None"
proof -
  show "texts sample_ready = [[], [97], [97, 97], [97, 97, 97]]"
    using sample_doc_simps(2) by (simp add: sample_ready_def texts_def doc_lines_def)
  show "change_ok sample_ready sample_change"
    using sample_change_ok change_ok_cong [of sample_ready sample_doc] by (simp add: sample_ready_def)
qed (simp_all add: sample_ready_def sample_doc_def)

lemma sample_ready_ready [simp]: "ready sample_ready"
proof -
  have "wf_doc sample_ready" using sample_doc_simps(4) by (simp add: sample_ready_def wf_doc_def doc_lines_def)
  moreover have "calm sample_ready" by (simp add: sample_ready_def sample_doc_def calm_def TextMarker_def)
  moreover have "hist_inv sample_ready"
    by (simp add: hist_inv_def sel_in_def simpleSelection_def range_ends_def pos_in_def)
  ultimately show ?thesis by (simp add: ready_def sample_ready_def sample_doc_def)
qed

text \<open>
  C2. A change made with \<open>makeChange\<close> on a ready document (no handlers of changes, no atomic, collapsed or cleared
  markers, edits not suppressed), where read-only spans are absent or ignored, and that is no no-op, succeeds,
  replaces exactly the piece of text it names, leaves the selection that \<open>computeSelAfterChange\<close> gives and nothing
  to redo, and the document is ready again: its history still fits its text.
\<close>

theorem makeChange_text:
  assumes "ready d" "change_ok d c" "ignoreReadOnly \<or> \<not> sawReadOnlySpans d" "\<not> is_noop c"
  shows "\<exists>d'. makeChange d c ignoreReadOnly = Some d' \<and> ready d' \<and> first d' = first d
    \<and> texts d' = apply_change (first d) c (texts d) \<and> sel d' = computeSelAfterChange (sel d) c
    \<and> hundone (history d') = []"
proof -
  obtain d' h where r: "makeChangeInner d c = Some d'" "ready d'" "same_core (d\<lparr>history := h\<rparr>) d'"
    "texts d' = apply_change (first d) c (texts d)" "sel d' = computeSelAfterChange (sel d) c" "hundone h = []"
    using makeChangeInner_spec [OF assms(1,2,4)] by blast
  then show ?thesis using makeChange_inner [OF assms(1,3)] by (auto simp: same_core_def)
qed

lemma sample_change_simps [simp]:
  "\<not> is_noop sample_change" "apply_change 5 sample_change [[], [97], [97, 97], [97, 97, 97]] = [[], [97, 98], [99, 99, 97, 97]]"
  "\<not> mayMerge sample_ready sample_change (current_op sample_ready)" "\<not> mayMerge sample_ready sample_change None"
  by (simp_all add: is_noop_def sample_change_def Change_def apply_change_def text_replace_def glue_def mayMerge_def
      same_op_def current_op_def truthy_origin_def)

theorem makeChange_text_witness:
  "\<exists>d'. makeChange sample_ready sample_change False = Some d'
    \<and> texts d' = [[], [97, 98], [99, 99, 97, 97]]"
  using makeChange_text [of sample_ready sample_change False] by auto

text \<open>
  C3. Undoing a change that started a new event of the history, on a ready document whose \<open>undoDepth\<close> is at least 2
  or not limited, brings back the text before it and the selection that the history holds as the one before it
  (\<open>prior_sel\<close>: the last selection event if there is one on top, else the selection of the document); redoing it
  brings back the text after it. The change is no no-op and ignores, or does not meet, read-only spans.
\<close>

theorem undo_redo_makeChange:
  assumes "ready d" "change_ok d c" "ignoreReadOnly \<or> \<not> sawReadOnlySpans d" "\<not> is_noop c"
    and "\<not> mayMerge d c (current_op d)" "deep_enough (undoDepth (history d))"
  shows "\<exists>d1 d2 d3. makeChange d c ignoreReadOnly = Some d1
    \<and> makeChangeFromHistory d1 True False = Some d2 \<and> texts d2 = texts d \<and> sel d2 = prior_sel d \<and> ready d2
    \<and> makeChangeFromHistory d2 False False = Some d3 \<and> texts d3 = texts d1 \<and> ready d3"
proof -
  obtain d1 h where r: "makeChangeInner d c = Some d1" "ready d1" "same_core (d\<lparr>history := h\<rparr>) d1"
    and below: "text_below (first d) (texts d1) (rev (hdone h)) = texts d"
      "\<exists>q e. hdone h = q @ [SelEvent (prior_sel d), e, SelEvent (sel d1)] \<and> \<not> is_sel e"
    using makeChangeInner_spec [OF assms(1,2,4)] assms(5,6) by metis
  obtain q e where q: "hdone h = q @ [SelEvent (prior_sel d), e, SelEvent (sel d1)]" "\<not> is_sel e" using below(2) by blast
  have h1: "history d1 = h" "first d1 = first d" using r(3) by (simp_all add: same_core_def)
  have "list_ex (\<lambda>e. \<not> is_sel e) (source_of True (history d1))" using q h1 by (simp add: source_of_def)
  then obtain d2 where u: "makeChangeFromHistory d1 True False = Some d2" "ready d2" "first d2 = first d1"
    "texts d2 = text_below (first d1) (texts d1) (rev (source_of True (history d1)))"
    "text_below (first d2) (texts d2) (rev (dest_of True (history d2))) = texts d1"
    "list_ex (\<lambda>e. \<not> is_sel e) (dest_of True (history d2))"
    "\<exists>e rest. dropWhile is_sel (rev (source_of True (history d1))) = e # SelEvent (sel d2) # rest"
    using makeChangeFromHistory_spec [OF r(2), of True] by metis
  have "list_ex (\<lambda>e. \<not> is_sel e) (source_of False (history d2))" using u(6) by (simp add: source_of_def dest_of_def)
  then obtain d3 where v: "makeChangeFromHistory d2 False False = Some d3" "ready d3"
    "texts d3 = text_below (first d2) (texts d2) (rev (source_of False (history d2)))"
    using makeChangeFromHistory_spec [OF u(2), of False] by metis
  have "texts d2 = texts d" using u(4) below(1) h1 by (simp add: source_of_def)
  moreover have "sel d2 = prior_sel d" using u(7) q h1 by (simp add: source_of_def)
  moreover have "texts d3 = texts d1" using v(3) u(5) by (simp add: source_of_def dest_of_def)
  ultimately show ?thesis using makeChange_inner [OF assms(1,3)] r(1) u(1,2) v(1,2) by simp
qed

theorem undo_redo_makeChange_witness:
  "\<exists>d1 d2 d3. makeChange sample_ready sample_change False = Some d1
    \<and> makeChangeFromHistory d1 True False = Some d2 \<and> texts d2 = [[], [97], [97, 97], [97, 97, 97]]
    \<and> makeChangeFromHistory d2 False False = Some d3 \<and> texts d3 = texts d1"
  using undo_redo_makeChange [of sample_ready sample_change False] by (auto simp: deep_enough_def)

text \<open>
  C11. Undo and redo never fail on a document that is ready: whenever the stack holds a change, the step
  succeeds, leaves a document that is ready, and the opposite step brings back the text it started from.
\<close>

theorem undo_redo_inverse:
  assumes "ready d" "list_ex (\<lambda>e. \<not> is_sel e) (source_of undo (history d))"
  shows "\<exists>d1 d2. makeChangeFromHistory d undo False = Some d1 \<and> ready d1
    \<and> makeChangeFromHistory d1 (\<not> undo) False = Some d2 \<and> ready d2 \<and> texts d2 = texts d"
proof -
  have flip: "source_of (\<not> undo) = dest_of undo" by (simp add: source_of_def dest_of_def fun_eq_iff)
  obtain d1 where u: "makeChangeFromHistory d undo False = Some d1" "ready d1" "first d1 = first d"
    "text_below (first d1) (texts d1) (rev (dest_of undo (history d1))) = texts d"
    "list_ex (\<lambda>e. \<not> is_sel e) (dest_of undo (history d1))"
    using makeChangeFromHistory_spec [OF assms] by metis
  obtain d2 where v: "makeChangeFromHistory d1 (\<not> undo) False = Some d2" "ready d2"
    "texts d2 = text_below (first d1) (texts d1) (rev (source_of (\<not> undo) (history d1)))"
    using makeChangeFromHistory_spec [OF u(2), of "\<not> undo"] u(5) flip by metis
  with u show ?thesis unfolding flip by metis
qed

theorem undo_redo_inverse_witness:
  "\<exists>d d1 d2. makeChange sample_ready sample_change False = Some d \<and> makeChangeFromHistory d True False = Some d1
    \<and> makeChangeFromHistory d1 False False = Some d2 \<and> texts d2 = texts d"
proof -
  have de: "deep_enough (undoDepth (history sample_ready))" by (simp add: deep_enough_def)
  obtain d h where r: "makeChangeInner sample_ready sample_change = Some d" "ready d"
    "same_core (sample_ready\<lparr>history := h\<rparr>) d"
    "\<exists>q e. hdone h = q @ [SelEvent (prior_sel sample_ready), e, SelEvent (sel d)] \<and> \<not> is_sel e"
    using makeChangeInner_spec [OF sample_ready_ready sample_ready_simps(5) sample_change_simps(1)]
      sample_change_simps(3) de by metis
  then have "list_ex (\<lambda>e. \<not> is_sel e) (source_of True (history d))" by (auto simp: same_core_def source_of_def)
  from undo_redo_inverse [OF r(2) this] r(1) makeChange_inner [of sample_ready False sample_change]
  show ?thesis by auto
qed

end
