(* ===== verification/DocApiFacts.thy ===== *)
theory DocApiFacts
  imports DocApi ChangeText
begin

text \<open>
  What the methods of a document promise: a new document satisfies the invariants that the other
  theories assume, the value that is set is the value that is read, positions and indices correspond,
  and a document that says it is clean has the text it had when it was marked clean.
\<close>

section \<open>Positions by index\<close>

lemma iter_all_lines: "wf_doc d \<Longrightarrow> first d = 0 \<Longrightarrow> iter_all op d s = fst (iterLines op (doc_lines d) s)"
  by (simp add: iter_all_def iter_spec(1) wf_doc_def wf_tree_def doc_lines_def wf_doc_size [unfolded doc_lines_def wf_doc_def wf_tree_def])

lemma iterLines_sum:
  "iterLines (\<lambda>line i. (i + int (length (ltext line)) + 1, False)) ls i = (i + int (sum_list (map (\<lambda>l. Suc (length (ltext l))) ls)), False)"
  by (induction ls arbitrary: i) simp_all

lemma indexFromPos_offset:
  assumes d: "wf_doc d" and p: "pos_ok d p"
  shows "indexFromPos d p = Some (int (offset_of (line_index d (pline p)) (nat (pch p)) (texts d)))"
proof -
  have r: "first d \<le> pline p" "0 \<le> pch p" using p by (auto simp: pos_ok_def)
  have "map (\<lambda>l. Suc (length l)) (take k (texts d)) = map (\<lambda>l. Suc (length (ltext l))) (take k (doc_lines d))" for k
    by (simp add: texts_def take_map)
  then show ?thesis
    using clipPos_id [OF d p] r
    by (simp add: indexFromPos_def iter_lines [OF d order_refl] iterLines_sum offset_of_def line_index_def)
qed

lemma posFromIndex_scan:
  assumes "place k i (map ltext ls)"
  shows "iterLines (\<lambda>line (off, n, ch). let sz = int (length (ltext line)) + 1
               in if sz > off then ((off, n, Some off), True) else ((off - sz, n + 1, ch), False))
            ls (int (offset_of k i (map ltext ls)), n, c) = ((int i, n + int k, Some (int i)), True)"
  using assms
proof (induction ls arbitrary: k n)
  case (Cons l ls)
  show ?case
  proof (cases k)
    case 0
    then show ?thesis using Cons.prems by (simp add: place_def offset_of_def)
  next
    case (Suc k')
    then have "place k' i (map ltext ls)" using Cons.prems by (auto simp: place_def)
    from Cons.IH [OF this, of "n + 1"] show ?thesis by (simp add: Suc offset_of_def)
  qed
qed (simp add: place_def)

lemma posFromIndex_offset:
  assumes d: "wf_doc d" "first d = 0" and p: "pos_ok d p"
  shows "posFromIndex d (int (offset_of (line_index d (pline p)) (nat (pch p)) (texts d))) = Some p"
proof -
  have pl: "place (line_index d (pline p)) (nat (pch p)) (map ltext (doc_lines d))"
    using p by (auto simp: place_def pos_ok_def line_index_def texts_def)
  have r: "int (line_index d (pline p)) = pline p" "int (nat (pch p)) = pch p" "0 \<le> pch p"
    using p d(2) by (auto simp: pos_ok_def line_index_def)
  show ?thesis
    using posFromIndex_scan [OF pl, of 0 None] clipPos_id [OF d(1) p]
    by (simp add: posFromIndex_def iter_all_lines [OF d] texts_def [symmetric] d(2) r clipPos_def)
qed

lemma offset_surj:
  "ls \<noteq> [] \<Longrightarrow> off \<le> length (join [s] ls) \<Longrightarrow> \<exists>k i. place k i ls \<and> offset_of k i ls = off"
proof (induction ls arbitrary: off)
  case (Cons l ls)
  show ?case
  proof (cases "off \<le> length l")
    case True
    then show ?thesis by (intro exI [of _ 0] exI [of _ off]) (simp add: place_def offset_of_def)
  next
    case False
    then have ne: "ls \<noteq> []" using Cons.prems by (auto simp: join_Cons)
    then have "off - Suc (length l) \<le> length (join [s] ls)" using Cons.prems False by (auto simp: join_Cons)
    from Cons.IH [OF ne this] obtain k i where "place k i ls" "offset_of k i ls = off - Suc (length l)" by blast
    then show ?thesis using False by (intro exI [of _ "Suc k"] exI [of _ i]) (auto simp: place_def offset_of_def)
  qed
qed simp

section \<open>The value\<close>

lemma getValue_texts: "wf_doc d \<Longrightarrow> getValue d sep = join (lineSepOr sep) (texts d)"
  by (simp add: getValue_def getLines_text wf_doc_size line_index_def)

section \<open>A new document\<close>

definition clear_of_spans :: "doc \<Rightarrow> bool" where
  "clear_of_spans d \<longleftrightarrow> (\<forall>l\<in>set (doc_lines d). lspans l = [])"

lemma emptyDoc_lines: "doc_lines (emptyDoc n now) = [\<lparr>lid = 0, ltext = [], lspans = [], lheight = 1\<rparr>]" "first (emptyDoc n now) = n"
  "texts (emptyDoc n now) = [[]]" "wf_doc (emptyDoc n now)"
  by (simp_all add: emptyDoc_def doc_lines_def newBranch_def newLeaf_def texts_def wf_doc_def wf_tree_def)

lemma emptyDoc_sel [simp]: "cm (emptyDoc n now) = None" "sel (emptyDoc n now) = simpleSelection (Pos n 0) None"
  "beforeChange (emptyDoc n now) = []" "beforeSelectionChange (emptyDoc n now) = []" "history (emptyDoc n now) = History 0"
  "markers (emptyDoc n now) mk = TextMarker False" "cleanGeneration (emptyDoc n now) = 1"
  "nextMarker (emptyDoc n now) = 0" "sawReadOnlySpans (emptyDoc n now) = False"
  by (simp_all add: emptyDoc_def)

lemma emptyDoc_linked: "linked (emptyDoc n now) []"
  by (simp add: linked_def emptyDoc_lines TextMarker_def)

lemma emptyDoc_change: "text \<noteq> [] \<Longrightarrow> change_ok (emptyDoc n now) (Change (Pos n 0) (Pos n 0) text None)"
  by (simp add: change_ok_def Change_def pos_ok_def emptyDoc_lines line_index_def)

lemma sel_in_start: "ls \<noteq> [] \<Longrightarrow> sel_in n ls (simpleSelection (Pos n 0) None)"
  by (simp add: sel_in_def simpleSelection_def Selection_def Range_def range_ends_def pos_in_def)

lemma newDoc_spec:
  assumes "text \<noteq> []"
  obtains d where "newDoc text n now = Some d" "ready d" "linked d []" "clear_of_spans d" "texts d = text" "first d = n"
    "hdone (history d) = [SelEvent (simpleSelection (Pos n 0) None)]" "hundone (history d) = []" "generation (history d) = 1" "maxGeneration (history d) = 1"
    "undoDepth (history d) = None" "cleanGeneration d = 1" "cm d = None" "sel d = simpleSelection (Pos n 0) None" "nextMarker d = 0" "sawReadOnlySpans d = False"
proof -
  let ?d = "emptyDoc n now" and ?c = "Change (Pos n 0) (Pos n 0) text None" and ?s = "simpleSelection (Pos n 0) None"
  obtain d1 where u: "updateDoc ?d ?c None None = Some d1" "wf_doc d1" "same_frame ?d d1"
    "contents d1 = replaced_contents ?d ?c None" "texts d1 = apply_change (first ?d) ?c (texts ?d)" "keeps ?d d1"
    using updateDoc_step [OF emptyDoc_lines(4) emptyDoc_change [OF assms]] .
  note f = same_frame_fields [OF u(3)]
  have t1: "texts d1 = text"
    using u(5) assms by (cases "text"; cases "tl text") (auto simp: emptyDoc_lines apply_change_def Change_def text_replace_def glue_def)
  have clear: "clear_of_spans d1"
  proof -
    have "sps = []" if "(t, sps) \<in> set (contents d1)" for t sps
      using that unfolding u(4) replaced_contents_def Let_def
      by (auto simp: spansFor_def emptyDoc_lines contents_def dest!: set_zip_rightD in_set_takeD in_set_dropD)
    then show ?thesis by (auto simp: clear_of_spans_def contents_def)
  qed
  have calm1: "calm d1" by (rule calm_flags [OF same_frame_flags [OF u(3)]]) (simp add: calm_def TextMarker_def)
  have s: "sel_in n text ?s" by (rule sel_in_start [OF assms])
  have fn: "first d1 = n" using f by (simp add: emptyDoc_lines)
  obtain d2 where n: "setSelectionNoUndo d1 ?s (Some sel_dontScroll) = Some d2" "sel d2 = ?s" "root d2 = root d1" "same_core d1 d2"
    "wf_doc d2" "keeps d1 d2"
    by (rule setSelectionNoUndo_spec [OF calm1 u(2), of ?s "Some sel_dontScroll"])
       (use f s t1 fn in \<open>simp_all add: simpleSelection_def Selection_def\<close>)
  have h2: "history d2 = History 0" "cm d2 = None" "first d2 = n"
    using n(4) f fn by (auto simp: same_core_def silent_def)
  let ?h = "(History 0)\<lparr>hdone := [SelEvent ?s], lastSelTime := clock d2, lastSelOrigin := None, lastSelOp := None,
    hundone := clearSelectionEvents []\<rparr>"
  let ?d3 = "d2\<lparr>history := ?h\<rparr>"
  have "addSelectionToHistory d2 (sel d2) (current_op d2) (Some sel_dontScroll) = Some ?d3"
    using n(2) by (simp add: addSelectionToHistory_def h2 current_op_def History_def sel_dontScroll_def same_op_def truthy_origin_def
        pushSelectionToHistory_def clearSelectionEvents_def Let_def)
  then have res: "newDoc text n now = Some ?d3"
    using u(1) n(1) by (simp add: newDoc_def setSelection_def Let_def)
  have t: "texts ?d3 = text" "doc_lines d2 = doc_lines d1" using t1 doc_root_cong(1,2) [OF n(3)] by simp_all
  have hi: "hist_inv ?d3" using s t(1) n(2) by (simp add: hist_inv_def h2 clearSelectionEvents_def)
  have calm2: "calm d2" by (rule calm_core [OF n(4) calm1])
  have "ready ?d3"
    using n(4,5) f calm2 hi h2 by (simp add: ready_def same_core_def calm_def)
  moreover have "linked ?d3 []"
    using emptyDoc_linked u(6) n(6) by (simp add: keeps_def linked_def)
  moreover have "clear_of_spans ?d3" using clear t(2) by (simp add: clear_of_spans_def)
  moreover have "nextMarker ?d3 = 0" using u(6) n(6) by (simp add: keeps_def)
  ultimately show ?thesis
    using res t(1) h2 n(2,4) f by (intro that [of ?d3]) (simp_all add: same_core_def History_def clearSelectionEvents_def)
qed

section \<open>Selections in the history\<close>

definition changes_of :: "hevent list \<Rightarrow> hevent list" where
  "changes_of es = filter (\<lambda>e. \<not> is_sel e) es"

lemma changes_of_simps [simp]:
  "changes_of [] = []" "changes_of (SelEvent s # es) = changes_of es" "changes_of (ChangeEvent cs g # es) = ChangeEvent cs g # changes_of es"
  "changes_of (xs @ ys) = changes_of xs @ changes_of ys" "changes_of (rev xs) = rev (changes_of xs)"
  by (simp_all add: changes_of_def rev_filter)

lemma changes_of_push [simp]: "changes_of (pushSelectionToHistory s arr) = changes_of arr"
  by (simp add: changes_of_def filter_push)

lemma changes_of_dropWhile [simp]: "changes_of (dropWhile is_sel es) = changes_of es"
  by (induction es) (auto simp: changes_of_def)

lemma changes_of_clear [simp]: "changes_of (clearSelectionEvents es) = changes_of es"
  by (simp add: clearSelectionEvents_def)

definition settled :: "doc \<Rightarrow> bool" where
  "settled d \<longleftrightarrow> hdone (history d) = [] \<or> is_sel (last (hdone (history d)))"

lemma addSelectionToHistory_form:
  assumes "addSelectionToHistory d s opid options = Some d'"
  obtains arr un t org where "d' = d\<lparr>history := (history d)\<lparr>hdone := arr, lastSelTime := t, lastSelOrigin := org,
      lastSelOp := opid, hundone := un\<rparr>\<rparr>"
    "arr = replaceLast (hdone (history d)) (SelEvent s) \<and> (same_op (lastSelOp (history d)) opid \<or> lastSelOrigin (history d) \<noteq> None)
     \<or> arr = pushSelectionToHistory s (hdone (history d))"
    "un = hundone (history d) \<or> un = clearSelectionEvents (hundone (history d))"
proof -
  define org where "org = (case options of None \<Rightarrow> None | Some os \<Rightarrow> oorigin os)"
  define un where "un = (case options of None \<Rightarrow> hundone (history d)
    | Some os \<Rightarrow> if oclearRedo os then clearSelectionEvents (hundone (history d)) else hundone (history d))"
  obtain m where m: "(if same_op (lastSelOp (history d)) opid then Some True
      else if truthy_origin org \<and> lastSelOrigin (history d) = org
           then if lastModTime (history d) = lastSelTime (history d) \<and> lastOrigin (history d) = org then Some True
                else selectionEventCanBeMerged d (the org) (lst (hdone (history d))) s
           else Some False) = Some m"
    and d': "d' = d\<lparr>history := (history d)\<lparr>hdone := (if m then replaceLast (hdone (history d)) (SelEvent s)
        else pushSelectionToHistory s (hdone (history d))),
      lastSelTime := clock d, lastSelOrigin := org, lastSelOp := opid, hundone := un\<rparr>\<rparr>"
    using assms unfolding addSelectionToHistory_def Let_def bind_eq_Some_conv org_def un_def by auto
  have "same_op (lastSelOp (history d)) opid \<or> lastSelOrigin (history d) \<noteq> None" if m
    using m that by (auto simp: truthy_origin_def split: if_splits)
  then show ?thesis by (intro that [OF d']) (auto simp: un_def split: option.splits)
qed

text \<open>
  A selection that is set joins the top of the history, when the operation has set one before or the
  origins agree; the top must then be a selection. After a redo it is not, see the theory on the clean state.
\<close>

definition selectable :: "doc \<Rightarrow> bool" where
  "selectable d \<longleftrightarrow> settled d \<or> lastSelOrigin (history d) = None \<and> \<not> same_op (lastSelOp (history d)) (current_op d)"

text \<open>Setting a selection on a document that is ready for edits.\<close>

lemma setSelection_spec:
  assumes d: "ready d" "selectable d" and s: "sel_in (first d) (texts d) s" and r: "setSelection d s options = Some d'"
  shows "ready d'" "settled d'" "texts d' = texts d" "first d' = first d" "sel d' = s" "keeps d d'" "contents d' = contents d"
    "changes_of (hdone (history d')) = changes_of (hdone (history d))" "changes_of (hundone (history d')) = changes_of (hundone (history d))"
    "generation (history d') = generation (history d)" "maxGeneration (history d') = maxGeneration (history d)"
    "undoDepth (history d') = undoDepth (history d)" "cleanGeneration d' = cleanGeneration d"
    "sawReadOnlySpans d' = sawReadOnlySpans d"
proof -
  have rd: "wf_doc d" "calm d" "beforeChange d = []" "beforeSelectionChange d = []" "hist_inv d" using d(1) by (auto simp: ready_def)
  have old: "0 \<le> primIndex (sel d)" "primIndex (sel d) < int (length (ranges (sel d)))" using rd(5) by (auto simp: hist_inv_def sel_in_def)
  obtain d1 where n: "setSelectionNoUndo d s options = Some d1" "sel d1 = s" "root d1 = root d" "same_core d d1" "wf_doc d1" "keeps d d1"
    using setSelectionNoUndo_spec [OF rd(2,1,4) s old] .
  have t: "texts d1 = texts d" "contents d1 = contents d" using doc_root_cong(2,3) [OF n(3)] by simp_all
  have f: "first d1 = first d" "history d1 = history d" using n(4) by (simp_all add: same_core_def)
  have op: "current_op d1 = current_op d" using n(4) by (cases "cm d"; cases "cm d1") (auto simp: same_core_def silent_def current_op_def dest: arg_cong [of _ _ opId])
  have a: "addSelectionToHistory d1 s (current_op d1) options = Some d'" using r n(1,2) by (simp add: setSelection_def)
  have chain: "chain (first d) (texts d) (rev (hdone (history d)))" "chain (first d) (texts d) (rev (hundone (history d)))"
    using rd(5) by (simp_all add: hist_inv_def)
  obtain arr un t0 org where hf: "d' = d1\<lparr>history := (history d1)\<lparr>hdone := arr, lastSelTime := t0, lastSelOrigin := org,
      lastSelOp := current_op d1, hundone := un\<rparr>\<rparr>"
    and arr0: "arr = replaceLast (hdone (history d1)) (SelEvent s) \<and> (same_op (lastSelOp (history d1)) (current_op d1) \<or> lastSelOrigin (history d1) \<noteq> None)
      \<or> arr = pushSelectionToHistory s (hdone (history d1))"
    and un: "un = hundone (history d1) \<or> un = clearSelectionEvents (hundone (history d1))"
    using addSelectionToHistory_form [OF a] .
  define h where "h = (history d1)\<lparr>hdone := arr, lastSelTime := t0, lastSelOrigin := org, lastSelOp := current_op d1, hundone := un\<rparr>"
  have arr: "arr = replaceLast (hdone (history d)) (SelEvent s) \<and> settled d \<or> arr = pushSelectionToHistory s (hdone (history d))"
    using arr0 d(2) f op by (auto simp: selectable_def)
  have repl: "chain (first d) (texts d) (rev (replaceLast (hdone (history d)) (SelEvent s)))"
    "changes_of (replaceLast (hdone (history d)) (SelEvent s)) = changes_of (hdone (history d))" if "settled d"
    using that s chain(1) by (cases "hdone (history d)" rule: rev_cases; auto simp: replaceLast_def is_sel_iff settled_def)+
  have h: "d' = d1\<lparr>history := h\<rparr>" "chain (first d) (texts d) (rev (hdone h))" "chain (first d) (texts d) (rev (hundone h))"
    "undoDepth h = undoDepth (history d1)"
    using hf arr un repl chain_push [OF chain(1) s] chain_clear [OF chain(2)] chain(2) f by (auto simp: h_def)
  have setl: "hdone h = [] \<or> is_sel (last (hdone h))"
    using arr push_sel_last [of s "hdone (history d)"] by (auto simp: h_def replaceLast_def split: if_splits)
  have ch: "changes_of (hdone h) = changes_of (hdone (history d1))" "changes_of (hundone h) = changes_of (hundone (history d1))"
    using arr un repl f by (auto simp: h_def)
  have gen: "generation h = generation (history d1)" "maxGeneration h = maxGeneration (history d1)" by (simp_all add: h_def)
  have inv: "hist_inv d'" using h s t f n(2) by (simp add: hist_inv_def)
  have c': "same_core (d\<lparr>history := h\<rparr>) d'" using n(4) by (simp add: same_core_def h(1))
  show "ready d'"
    using d(1) n(5) inv calm_core [OF n(4) rd(2)] silent_suppress [of "cm d1" "cm d"] n(4)
    by (auto simp: ready_def same_core_def h(1) calm_def)
  show "settled d'" using setl by (simp add: settled_def h(1))
  show "texts d' = texts d" "contents d' = contents d" using t by (simp_all add: h(1) contents_def)
  show "first d' = first d" "sel d' = s" using f n(2) by (simp_all add: h(1))
  show "keeps d d'" using n(6) by (simp add: keeps_def linked_def h(1))
  show "changes_of (hdone (history d')) = changes_of (hdone (history d))" "changes_of (hundone (history d')) = changes_of (hundone (history d))"
    "generation (history d') = generation (history d)" "maxGeneration (history d') = maxGeneration (history d)"
    "undoDepth (history d') = undoDepth (history d)"
    using ch gen h(4) f by (simp_all add: h(1))
  show "cleanGeneration d' = cleanGeneration d" "sawReadOnlySpans d' = sawReadOnlySpans d"
    using n(4) by (simp_all add: h(1) same_core_def)
qed

text \<open>Without an operation that merges selections the call succeeds.\<close>

lemma setSelection_total:
  assumes d: "ready d" and s: "sel_in (first d) (texts d) s" and o1: "\<And>x. options = Some x \<Longrightarrow> oorigin x = None"
  shows "\<exists>d'. setSelection d s options = Some d'"
proof -
  have rd: "wf_doc d" "calm d" "beforeSelectionChange d = []" "hist_inv d" using d by (auto simp: ready_def)
  have old: "0 \<le> primIndex (sel d)" "primIndex (sel d) < int (length (ranges (sel d)))" using rd(4) by (auto simp: hist_inv_def sel_in_def)
  obtain d1 where "setSelectionNoUndo d s options = Some d1" "sel d1 = s"
    using setSelectionNoUndo_spec [OF rd(2,1,3) s old] by blast
  moreover have "(case options of None \<Rightarrow> None | Some os \<Rightarrow> oorigin os) = None" using o1 by (simp split: option.split)
  ultimately show ?thesis
    by (simp add: setSelection_def addSelectionToHistory_def truthy_origin_def Let_def)
qed

section \<open>The value that is set\<close>

lemma replace_everything:
  assumes "ls \<noteq> []" "ts \<noteq> []"
  shows "text_replace 0 0 (length ls - 1) (length (last ls)) ts ls = ts"
proof -
  have "drop (length (last ls)) (ls ! (length ls - 1)) = []" using assms(1) by (simp add: last_conv_nth)
  moreover have "glue [] ts [] = ts" using assms(2) by (auto simp: glue_def split: list.splits)
  ultimately show ?thesis by (simp add: text_replace_def)
qed

lemma setValue_spec:
  assumes d: "ready d" "selectable d"
  obtains d' where "setValue d str = Some d'" "ready d'" "settled d'" "first d' = first d" "texts d' = splitLines str"
    "sel d' = simpleSelection (Pos (first d) 0) None"
proof -
  let ?n = "first d" and ?N = "length (doc_lines d)"
  have wf: "wf_doc d" using d(1) by (simp add: ready_def)
  have ne: "doc_lines d \<noteq> []" using wf by (simp add: wf_doc_def)
  define l where "l = ?n + doc_size d - 1"
  have l: "l = ?n + int ?N - 1" by (simp add: l_def wf_doc_size [OF wf])
  have N: "0 < ?N" using ne by simp
  then have nN: "nat (int ?N - 1) = ?N - Suc 0" by linarith
  have gl: "getLine d l = Some (last (doc_lines d))"
    using N ne nN by (simp add: getLine_spec [OF wf] l last_conv_nth)
  let ?len = "int (length (ltext (last (doc_lines d))))"
  define c where "c = Change (Pos ?n 0) (Pos l ?len) (splitLines str) (Some ''setValue'')"
  have li: "line_index d l = length (texts d) - 1" using nN by (simp add: line_index_def l texts_def)
  have last: "texts d ! line_index d l = ltext (last (doc_lines d))" "last (texts d) = ltext (last (doc_lines d))"
    using ne by (simp_all add: li texts_def last_conv_nth nth_map [symmetric] last_map del: nth_map)
       (simp_all add: last_conv_nth)
  have ends: "pos_ok d (Pos ?n 0)" "pos_ok d (Pos l ?len)" "Pos ?n 0 \<le> Pos l ?len"
    using N l last(1) by (auto simp: pos_ok_def pos_le_iff) (metis Suc_lessI length_greater_0_conv)
  have ok: "change_ok d c" using ends by (simp add: change_ok_def c_def Change_def)
  have all: "apply_change ?n c (texts d) = splitLines str"
    using replace_everything [of "texts d" "splitLines str"] ne li last(2)
    by (simp add: apply_change_def c_def Change_def line_index_def texts_def)
  obtain d1 where m: "makeChange d c True = Some d1" "ready d1" "selectable d1" "first d1 = ?n" "texts d1 = splitLines str"
  proof (cases "is_noop c")
    case True
    have "fits_text ?n (texts d) c" using ok by (simp add: fits_change_ok)
    then have "texts d = splitLines str" using True all apply_nothing [of ?n "texts d" c] by (simp add: is_noop_def)
    moreover have "makeChange d c True = Some d"
      using True makeChange_inner [OF d(1), of True] by (simp add: makeChangeInner_def is_noop_def)
    ultimately show ?thesis using d by (intro that [of d]) simp_all
  next
    case False
    obtain d1 h where "makeChangeInner d c = Some d1" "ready d1" "same_core (d\<lparr>history := h\<rparr>) d1"
      "texts d1 = apply_change ?n c (texts d)" "\<exists>arr. hdone h = arr @ [SelEvent (sel d1)]"
      using makeChangeInner_spec [OF d(1) ok False] by metis
    then show ?thesis
      using makeChange_inner [OF d(1), of True c] all
      by (intro that [of d1]) (auto simp: same_core_def selectable_def settled_def)
  qed
  let ?s = "simpleSelection (Pos ?n 0) None"
  have si: "sel_in (first d1) (texts d1) ?s" using m(4,5) by (simp add: sel_in_start)
  obtain d2 where r: "setSelection d1 ?s None = Some d2" using setSelection_total [OF m(2) si, of None] by auto
  have "setValue d str = Some d2"
    using m(1) r gl unfolding setValue_def Let_def l_def [symmetric] c_def by simp
  then show ?thesis
    using setSelection_spec [OF m(2,3) si r] m(4,5) by (intro that [of d2]) simp_all
qed

section \<open>Properties\<close>



text \<open>
  C30. In a document whose first line is number 0, positions and indices into the value correspond:
  \<open>posFromIndex\<close> takes every index of the value to a position of the document, \<open>indexFromPos\<close> takes it
  back, and \<open>posFromIndex\<close> is the inverse of \<open>indexFromPos\<close> on positions.
\<close>

theorem index_roundtrip:
  assumes "wf_doc d" "first d = 0"
  shows "(0 \<le> i \<and> i \<le> int (length (getValue d None)) \<longrightarrow>
      (\<exists>p. posFromIndex d i = Some p \<and> pos_ok d p \<and> indexFromPos d p = Some i))
    \<and> (pos_ok d p \<longrightarrow> (\<exists>i. indexFromPos d p = Some i \<and> posFromIndex d i = Some p))"
proof (intro conjI impI)
  assume i: "0 \<le> i \<and> i \<le> int (length (getValue d None))"
  have ne: "texts d \<noteq> []" using assms(1) by (simp add: wf_doc_def texts_def)
  have "nat i \<le> length (join [10] (texts d))" using i by (simp add: getValue_texts [OF assms(1)] lineSepOr_def nat_le_iff)
  then obtain k j where kj: "place k j (texts d)" "offset_of k j (texts d) = nat i" using offset_surj [OF ne] by blast
  define p where "p = Pos (int k) (int j)"
  have p: "pos_ok d p" "line_index d (pline p) = k" "nat (pch p) = j"
    using kj(1) assms(2) by (auto simp: p_def pos_ok_def place_def line_index_def texts_def)
  then show "\<exists>p. posFromIndex d i = Some p \<and> pos_ok d p \<and> indexFromPos d p = Some i"
    using posFromIndex_offset [OF assms p(1)] indexFromPos_offset [OF assms(1) p(1)] kj(2) i by auto
next
  assume "pos_ok d p"
  then show "\<exists>i. indexFromPos d p = Some i \<and> posFromIndex d i = Some p"
    using posFromIndex_offset [OF assms] indexFromPos_offset [OF assms(1)] by blast
qed

theorem index_roundtrip_witness:
  "\<exists>p. posFromIndex (sample_ready\<lparr>first := 0\<rparr>) 4 = Some p \<and> pos_ok (sample_ready\<lparr>first := 0\<rparr>) p
     \<and> indexFromPos (sample_ready\<lparr>first := 0\<rparr>) p = Some 4"
proof -
  let ?d = "sample_ready\<lparr>first := 0\<rparr>"
  have w: "wf_doc ?d" "first ?d = 0" using sample_ready_ready by (simp_all add: ready_def wf_doc_def doc_lines_def)
  have "texts ?d = [[], [97], [97, 97], [97, 97, 97]]" using sample_ready_simps(1) by (simp add: texts_def doc_lines_def)
  then have "getValue ?d None = [10, 97, 10, 97, 97, 10, 97, 97, 97]" by (simp add: getValue_texts [OF w(1)] lineSepOr_def)
  then show ?thesis using index_roundtrip [OF w, of 4 undefined] by simp
qed

text \<open>
  C6. Markers follow the text of a ready document. A marker that covers the range from \<open>p\<close> to \<open>q\<close> is found, after a
  \<open>makeChange\<close> that is no no-op and where read-only spans are absent or ignored, where the change moves its ends:
  an end before the change stays, one after it moves with the text behind it, one inside it goes to the edge of
  the change, an end at the edge goes to the side that its inclusive flags say; it is gone when the change
  deletes it, or leaves nothing of it. The lines the marker says it is on are its lines again.
\<close>

theorem makeChange_markers:
  assumes "ready d" "linked d []" "marker_at d mk p q" "change_ok d c" "ignoreReadOnly \<or> \<not> sawReadOnlySpans d" "\<not> is_noop c"
  shows "\<exists>d'. makeChange d c ignoreReadOnly = Some d' \<and> ready d' \<and> linked d' [] \<and> findBoth d' mk =
    (if survives (markers d mk) c p q then Some (movedFrom (markers d mk) c p, movedTo (markers d mk) c q) else None)"
proof -
  obtain d' h where m: "makeChangeInner d c = Some d'" "ready d'" "same_core (d\<lparr>history := h\<rparr>) d'"
    "contents d' = replaced_contents d c (stretchSpansOverChange d c)" "keeps d d'"
    using makeChangeInner_spec [OF assms(1,4,6)] by metis
  have wf: "wf_doc d" "wf_doc d'" using assms(1) m(2) by (simp_all add: ready_def)
  have "first d' = first d" "same_flags (markers d) (markers d')" using m(3) by (simp_all add: same_core_def)
  note ch = changed_marker [OF wf(1) assms(4,3) m(4) this]
  have l: "linked d' []" using m(5) assms(2) by (simp add: keeps_def)
  have "findBoth d' mk =
    (if survives (markers d mk) c p q then Some (movedFrom (markers d mk) c p, movedTo (markers d mk) c q) else None)"
    using ch marker_at_find [OF wf(2) l] findBoth_gone [OF l] by auto
  then show ?thesis using m(1,2) l makeChange_inner [OF assms(1,5)] by simp
qed

definition sample_marked :: doc where
  "sample_marked = marked_doc\<lparr>sel := simpleSelection (Pos 6 0) None\<rparr>"

lemma sample_marked_ready: "ready sample_marked" "linked sample_marked []" "marker_at sample_marked 0 (Pos 7 0) (Pos 7 1)"
  "sawReadOnlySpans sample_marked = False" "markers sample_marked = markers marked_doc" "change_ok sample_marked = change_ok marked_doc"
proof -
  have r: "root sample_marked = root marked_doc" "root marked_doc = root sample_ready" "first sample_marked = 5"
    by (simp_all add: sample_marked_def marked_doc_def sample_ready_def sample_doc_def)
  note c = doc_root_cong [OF r(1)]
  have t: "texts sample_marked = [[], [97], [97, 97], [97, 97, 97]]"
    using sample_ready_simps(1) unfolding c(2) doc_root_cong(2) [OF r(2)] .
  have f: "sel sample_marked = simpleSelection (Pos 6 0) None" "hdone (history sample_marked) = []" "hundone (history sample_marked) = []"
    by (simp_all add: sample_marked_def marked_doc_def sample_doc_def)
  have "wf_doc sample_marked" using marked_doc_lines(3) by (simp add: sample_marked_def wf_doc_def doc_lines_def)
  moreover have "hist_inv sample_marked"
    unfolding hist_inv_def t r(3) f by (simp add: sel_in_def simpleSelection_def range_ends_def pos_in_def)
  moreover have "calm sample_marked" by (simp add: calm_def sample_marked_def marked_doc_def TextMarker_def)
  ultimately show "ready sample_marked" by (simp add: ready_def sample_marked_def marked_doc_def sample_doc_def)
  show "linked sample_marked []" using marked_doc_linked(1) c(1) by (simp add: linked_def sample_marked_def)
  show "marker_at sample_marked 0 (Pos 7 0) (Pos 7 1)"
    using marked_doc_linked(2) c(3) by (simp add: marker_at_def covers_def in_doc_def sample_marked_def texts_def doc_lines_def contents_def pos_ok_def line_index_def)
  show "sawReadOnlySpans sample_marked = False" "markers sample_marked = markers marked_doc" "change_ok sample_marked = change_ok marked_doc"
    using change_ok_cong [of sample_marked marked_doc] by (simp_all add: sample_marked_def marked_doc_def sample_doc_def)
qed

theorem makeChange_markers_witness:
  "\<exists>d'. makeChange sample_marked (Change (Pos 7 0) (Pos 7 0) [[98], [99, 99]] None) False = Some d'
    \<and> findBoth d' 0 = Some (Pos 8 2, Pos 8 3)"
proof -
  let ?c = "Change (Pos 7 0) (Pos 7 0) [[98], [99, 99]] None"
  have c: "change_ok sample_marked ?c" "\<not> is_noop ?c"
    by (simp_all add: sample_marked_ready(6) change_ok_def Change_def pos_ok_def line_index_def is_noop_def)
  have "survives (markers sample_marked 0) ?c (Pos 7 0) (Pos 7 1)
    \<and> movedFrom (markers sample_marked 0) ?c (Pos 7 0) = Pos 8 2 \<and> movedTo (markers sample_marked 0) ?c (Pos 7 1) = Pos 8 3"
    by (simp add: sample_marked_ready(5) survives_def movedFrom_def movedTo_def keptLeft_def keptRight_def Change_def adjustForChange_def changeEnd_def
        marked_doc_def [THEN arg_cong, of markers] TextMarker_def pos_less_iff Let_def del: cmp_less cmp_le) (simp add: cmp_def)
  then show ?thesis
    using makeChange_markers [OF sample_marked_ready(1-3) c(1) _ c(2), of False] sample_marked_ready(4) by auto
qed

end
