(* ===== verification/CleanState.thy ===== *)
theory CleanState
  imports DocApiFacts
begin

text \<open>
  The clean state of a document. A generation stands for a text: every event of the history carries the
  generation of the text that undoing it leads to, a change takes a new one, and an undo or redo takes
  over the one of its event. All edits of a document keep this, so a document whose generation is the
  one it was marked clean with has the text it was marked clean with.
\<close>

section \<open>Stacks whose generations stand for their texts\<close>

fun dated :: "(nat \<Rightarrow> jstr list) \<Rightarrow> nat \<Rightarrow> int \<Rightarrow> jstr list \<Rightarrow> hevent list \<Rightarrow> bool" where
  "dated G m n ls [] = True"
| "dated G m n ls (SelEvent s # es) = dated G m n ls es"
| "dated G m n ls (ChangeEvent cs g # es) =
     ((case g of None \<Rightarrow> True | Some k \<Rightarrow> 0 < k \<longrightarrow> k \<le> m \<and> G k = apply_all n (rev cs) ls)
      \<and> dated G m n (apply_all n (rev cs) ls) es)"

lemma dated_changes: "dated G m n ls (changes_of es) = dated G m n ls es"
  by (induction G m n ls es rule: dated.induct) simp_all

lemma dated_append: "dated G m n ls (es @ fs) \<Longrightarrow> dated G m n ls es"
  by (induction G m n ls es rule: dated.induct) simp_all

lemma dated_later:
  "dated G m n ls es \<Longrightarrow> m \<le> m' \<Longrightarrow> (\<And>k. k \<le> m \<Longrightarrow> G' k = G k) \<Longrightarrow> dated G' m' n ls es"
  by (induction G m n ls es rule: dated.induct) (auto split: option.split)

lemma dated_dropWhile: "dated G m n ls (dropWhile is_sel es) = dated G m n ls es"
  by (metis changes_of_dropWhile dated_changes)

lemma dated_push: "dated G m n ls (rev (pushSelectionToHistory s arr)) = dated G m n ls (rev arr)"
  by (metis changes_of_push changes_of_simps(5) dated_changes)

definition has_dates :: "(nat \<Rightarrow> jstr list) \<Rightarrow> doc \<Rightarrow> bool" where
  "has_dates G d \<longleftrightarrow> (let h = history d; m = maxGeneration h in
     dated G m (first d) (texts d) (rev (hdone h)) \<and> dated G m (first d) (texts d) (rev (hundone h))
     \<and> 0 < generation h \<and> generation h \<le> m \<and> G (generation h) = texts d)"

text \<open>Later dates keep the texts of all the generations that were used.\<close>

definition extends :: "(nat \<Rightarrow> jstr list) \<Rightarrow> doc \<Rightarrow> (nat \<Rightarrow> jstr list) \<Rightarrow> doc \<Rightarrow> bool" where
  "extends G d G' d' \<longleftrightarrow> has_dates G' d' \<and> maxGeneration (history d) \<le> maxGeneration (history d')
     \<and> (\<forall>k \<le> maxGeneration (history d). G' k = G k)"

lemma extends_trans: "extends G d G' d' \<Longrightarrow> extends G' d' G'' d'' \<Longrightarrow> extends G d G'' d''"
  by (auto simp: extends_def)

section \<open>A change\<close>

lemma trimDone_suffix: "trimDone depth arr = Some suf \<Longrightarrow> \<exists>pre. arr = pre @ suf"
proof (induction depth arr rule: trimDone.induct)
  case (4 n e e' arr)
  then show ?case by (auto split: if_splits)
qed (auto split: if_splits)

lemma lastChangeEvent_prefix:
  assumes "lastChangeEvent arr force = (arr', found)"
  shows "changes_of arr' = changes_of arr"
proof (cases force)
  case True
  then show ?thesis using assms by (metis lastChangeEvent_def changes_of_clear fst_conv)
next
  case False
  show ?thesis
  proof (cases arr rule: rev_cases)
    case (snoc pre e)
    then show ?thesis using assms False by (cases e) (auto simp: lastChangeEvent_def split: if_splits)
  qed (use assms False in \<open>simp add: lastChangeEvent_def\<close>)
qed

lemma addChange_dates:
  assumes d: "wf_doc d" "hist_inv d" and c: "fits_text (first d) (texts d) c" and G: "has_dates G d"
    and r: "addChangeToHistory d c s opid = Some (d\<lparr>history := h\<rparr>)"
  shows "dated G (maxGeneration (history d)) (first d) (apply_change (first d) c (texts d)) (rev (hdone h))"
    "generation h = Suc (maxGeneration (history d))" "maxGeneration h = Suc (maxGeneration (history d))"
    "sel_in (first d) (apply_change (first d) c (texts d)) s \<Longrightarrow> \<not> mayMerge d c opid \<Longrightarrow> deep_enough (undoDepth (history d)) \<Longrightarrow>
       \<exists>pre cs. hdone h = pre @ [ChangeEvent cs (Some (generation (history d))), SelEvent s]"
proof -
  let ?n = "first d" and ?ls = "texts d" and ?R = "apply_change (first d) c (texts d)" and ?h = "history d"
  let ?m = "maxGeneration ?h" and ?u = "historyChangeFromChange d c"
  define start where "start = (if mayMerge d c opid then lastChangeEvent (hdone ?h) (same_op (lastOp ?h) opid) else (hdone ?h, False))"
  obtain arr found where af: "start = (arr, found)" by fastforce
  have g: "dated G ?m ?n ?ls (rev (hdone ?h))" "0 < generation ?h" "generation ?h \<le> ?m" "G (generation ?h) = ?ls"
    using G by (simp_all add: has_dates_def Let_def)
  have ch0: "chain ?n ?ls (rev (hdone ?h))" using d(2) by (simp add: hist_inv_def)
  have ch: "chain ?n ?ls (rev arr)" using lastChangeEvent_spec(1) [OF ch0] ch0 af by (auto simp: start_def split: if_splits)
  have "changes_of arr = changes_of (hdone ?h)" using lastChangeEvent_prefix af by (auto simp: start_def split: if_splits)
  then have da: "dated G ?m ?n ?ls (rev arr)" using g(1) by (metis changes_of_simps(5) dated_changes)
  let ?arr1 = "if \<not> (\<exists>s. lst arr = Some (SelEvent s)) then pushSelectionToHistory (sel d) arr else arr"
  obtain arr' where arr': "(if found then
               (case last arr of
                  ChangeEvent changes g \<Rightarrow> do {
                    changes' \<leftarrow> mergeIntoEvent d c changes;
                    Some (butlast arr @ [ChangeEvent changes' g]) }
                | SelEvent s \<Rightarrow> None)
             else trimDone (undoDepth ?h) (?arr1 @ [ChangeEvent [?u] (Some (generation ?h))])) = Some arr'"
    and hd: "d\<lparr>history := h\<rparr> = d\<lparr>history := ?h\<lparr>hundone := [], hdone := arr' @ [SelEvent s],
         generation := ?m + 1, maxGeneration := ?m + 1, lastModTime := clock d, lastSelTime := clock d,
         lastOp := opid, lastSelOp := opid, lastOrigin := corigin c, lastSelOrigin := corigin c\<rparr>\<rparr>"
    using r unfolding addChangeToHistory_def Let_def start_def [symmetric] af prod.case bind_eq_Some_conv option.inject
    by (elim exE conjE) (erule that, erule sym)
  have h: "h = ?h\<lparr>hundone := [], hdone := arr' @ [SelEvent s],
         generation := ?m + 1, maxGeneration := ?m + 1, lastModTime := clock d, lastSelTime := clock d,
         lastOp := opid, lastSelOp := opid, lastOrigin := corigin c, lastSelOrigin := corigin c\<rparr>"
    using arg_cong [OF hd, of history] by simp
  have suffix: "\<exists>pre. ?arr1 @ [ChangeEvent [?u] (Some (generation ?h))] = pre @ arr'" if "\<not> found"
    using arr' that by (intro trimDone_suffix [of "undoDepth ?h"]) simp
  show "generation h = Suc ?m" "maxGeneration h = Suc ?m" by (simp_all add: h)
  have "dated G ?m ?n ?R (rev arr')"
  proof (cases found)
    case True
    then obtain cs g cs' where l: "last arr = ChangeEvent cs g" "mergeIntoEvent d c cs = Some cs'"
      "arr' = butlast arr @ [ChangeEvent cs' g]"
      using arr' by (auto simp: bind_eq_Some_conv split: hevent.splits)
    have "arr \<noteq> []"
    proof
      assume "arr = []"
      have "found \<Longrightarrow> arr \<noteq> []"
        using lastChangeEvent_spec(2) [OF ch0] af by (auto simp: start_def split: if_splits)
      with True \<open>arr = []\<close> show False by simp
    qed
    then have a: "arr = butlast arr @ [ChangeEvent cs g]" using l(1) by (metis append_butlast_last_id)
    then have ra: "rev arr = ChangeEvent cs g # rev (butlast arr)" by (metis rev_eq_Cons_iff rev_rev_ident)
    have cs: "cs \<noteq> []" "fits_all ?n ?ls (rev cs)" using ch unfolding ra by simp_all
    have "apply_all ?n (rev cs') ?R = apply_all ?n (rev cs) ?ls"
      using mergeIntoEvent_spec [OF d(1) c cs] l(2) by (metis option.inject)
    then show ?thesis using da unfolding ra by (simp add: l(3) split: option.splits)
  next
    case False
    note u = apply_undo [OF c historyChange_spec [OF d(1) c]]
    obtain pre where t: "?arr1 @ [ChangeEvent [?u] (Some (generation ?h))] = pre @ arr'" using suffix [OF False] by blast
    have "dated G ?m ?n ?ls (rev ?arr1)" using da dated_push by simp
    then have "dated G ?m ?n ?R (rev (?arr1 @ [ChangeEvent [?u] (Some (generation ?h))]))" using u g by simp
    then have "dated G ?m ?n ?R (rev arr' @ rev pre)" unfolding t by simp
    then show ?thesis by (rule dated_append)
  qed
  then show "dated G ?m ?n ?R (rev (hdone h))" by (simp add: h)
  show "\<exists>pre cs. hdone h = pre @ [ChangeEvent cs (Some (generation (history d))), SelEvent s]"
    if si: "sel_in ?n ?R s" and nm: "\<not> mayMerge d c opid" and de: "deep_enough (undoDepth (history d))"
  proof -
    have nf: "\<not> found" using nm af by (simp add: start_def)
    obtain h' where h': "addChangeToHistory d c s opid = Some (d\<lparr>history := h'\<rparr>)"
       "\<exists>q e. hdone h' = q @ [SelEvent (prior_sel d), e, SelEvent s] \<and> \<not> is_sel e"
      using addChange_spec [OF d c si] nm de by blast
    have "d\<lparr>history := h'\<rparr> = d\<lparr>history := h\<rparr>" using h'(1) r by simp
    from arg_cong [OF this, of history] have "h' = h" by simp
    then obtain q e where "hdone h = q @ [SelEvent (prior_sel d), e, SelEvent s]" using h'(2) by blast
    then have q: "arr' = q @ [SelEvent (prior_sel d), e]" by (simp add: h)
    obtain pre where "?arr1 @ [ChangeEvent [?u] (Some (generation ?h))] = pre @ arr'" using suffix [OF nf] by blast
    then have "ChangeEvent [?u] (Some (generation ?h)) = last (pre @ arr')" by (metis last_snoc)
    then have "e = ChangeEvent [?u] (Some (generation ?h))" by (simp add: q)
    then show ?thesis by (simp add: h q)
  qed
qed

section \<open>Edits\<close>

text \<open>
  What happens to a document between two looks at its clean state: changes, undo and redo, selections,
  and steps of its environment, in which time passes and an editor takes the document or runs another
  operation. A selection is not set in the operation of a redo, where \<open>addSelectionToHistory\<close> would
  replace the change event on the top of the history.
\<close>

inductive edits :: "doc \<Rightarrow> doc \<Rightarrow> bool" for d where
  start: "edits d d"
| change: "edits d d1 \<Longrightarrow> change_ok d1 c \<Longrightarrow> ignoreReadOnly \<or> \<not> sawReadOnlySpans d1 \<Longrightarrow>
    makeChange d1 c ignoreReadOnly = Some d2 \<Longrightarrow> edits d d2"
| history: "edits d d1 \<Longrightarrow> makeChangeFromHistory d1 undo False = Some d2 \<Longrightarrow> edits d d2"
| select: "edits d d1 \<Longrightarrow> sel_in (first d1) (texts d1) s \<Longrightarrow> settled d1 \<or> \<not> same_op (lastSelOp (history d1)) (current_op d1) \<Longrightarrow>
    setSelection d1 s options = Some d2 \<Longrightarrow> edits d d2"
| environment: "edits d d1 \<Longrightarrow> (case e of None \<Rightarrow> True | Some e \<Rightarrow> \<not> suppressEdits e) \<Longrightarrow>
    edits d (d1\<lparr>cm := e, clock := t\<rparr>)"

definition tidy :: "doc \<Rightarrow> bool" where
  "tidy d \<longleftrightarrow> ready d \<and> (settled d \<or> lastSelOrigin (history d) = None)"

lemma change_dates:
  assumes d: "tidy d" "has_dates G d" and c: "change_ok d c" "ignoreReadOnly \<or> \<not> sawReadOnlySpans d"
    and r: "makeChange d c ignoreReadOnly = Some d'"
  shows "tidy d' \<and> cleanGeneration d' = cleanGeneration d \<and> (\<exists>G'. extends G d G' d')"
proof (cases "is_noop c")
  case True
  then have "d' = d" using r makeChange_inner [OF _ c(2)] d(1) by (auto simp: makeChangeInner_def is_noop_def tidy_def)
  then show ?thesis using d by (auto simp: extends_def)
next
  case False
  have rd: "ready d" "wf_doc d" "hist_inv d" using d(1) by (auto simp: tidy_def ready_def)
  obtain d1 h where m: "makeChangeInner d c = Some d1" "ready d1" "same_core (d\<lparr>history := h\<rparr>) d1"
    "texts d1 = apply_change (first d) c (texts d)" "addChangeToHistory d c (sel d1) (current_op d) = Some (d\<lparr>history := h\<rparr>)"
    "hundone h = []" "\<exists>arr. hdone h = arr @ [SelEvent (sel d1)]"
    using makeChangeInner_spec [OF rd(1) c(1) False] by metis
  have d': "d' = d1" using r m(1) makeChange_inner [OF rd(1) c(2)] by simp
  have f: "fits_text (first d) (texts d) c" using c(1) by (simp add: fits_change_ok)
  note a = addChange_dates [OF rd(2,3) f d(2) m(5)]
  have h1: "history d1 = h" "first d1 = first d" "cleanGeneration d1 = cleanGeneration d" using m(3) by (simp_all add: same_core_def)
  let ?m = "maxGeneration (history d)"
  let ?G = "G(Suc ?m := texts d1)"
  have "dated ?G (Suc ?m) (first d) (texts d1) (rev (hdone h))"
    using a(1) unfolding m(4) [symmetric] by (rule dated_later) simp_all
  then have "has_dates ?G d1" using h1 a(2,3) m(6) by (simp add: has_dates_def)
  then have "extends G d ?G d1" using h1 a(3) by (simp add: extends_def)
  moreover have "settled d1" using m(7) h1(1) by (auto simp: settled_def)
  ultimately show ?thesis using m(2) h1(3) d' by (auto simp: tidy_def)
qed

lemma history_step_fields:
  assumes "ready d" "list_ex (\<lambda>e. \<not> is_sel e) (source_of undo (history d))"
  shows "\<exists>d'. makeChangeFromHistory d undo False = Some d' \<and> ready d' \<and> first d' = first d
    \<and> texts d' = text_below (first d) (texts d) (rev (source_of undo (history d)))
    \<and> text_below (first d') (texts d') (rev (dest_of undo (history d'))) = texts d \<and> cleanGeneration d' = cleanGeneration d
    \<and> lastSelOrigin (history d') = None
    \<and> (\<exists>cs g rest dest antis. dropWhile is_sel (rev (source_of undo (history d))) = ChangeEvent cs g # rev rest
    \<and> source_of undo (history d') = rest \<and> changes_of dest = changes_of (dest_of undo (history d))
    \<and> dest_of undo (history d') = dest @ [ChangeEvent antis (Some (generation (history d)))]
    \<and> generation (history d') = (case g of Some n \<Rightarrow> if n \<noteq> 0 then n else Suc (maxGeneration (history d)) | None \<Rightarrow> Suc (maxGeneration (history d)))
    \<and> maxGeneration (history d') = (case g of Some n \<Rightarrow> if n \<noteq> 0 then maxGeneration (history d) else Suc (maxGeneration (history d))
        | None \<Rightarrow> Suc (maxGeneration (history d))))"
  unfolding changes_of_def
  by (rule history_step [OF assms]) (elim exE conjE, intro exI conjI, assumption+)

lemma history_dates:
  assumes d: "tidy d" "has_dates G d" and r: "makeChangeFromHistory d undo False = Some d'"
  shows "tidy d' \<and> cleanGeneration d' = cleanGeneration d \<and> (\<exists>G'. extends G d G' d')"
proof (cases "list_ex (\<lambda>e. \<not> is_sel e) (source_of undo (history d))")
  case False
  have "usableEvent d False = (\<lambda>e. \<not> is_sel e)" by (auto simp: fun_eq_iff usableEvent_def split: hevent.splits)
  then have "d' = d" using r False d(1) by (simp add: makeChangeFromHistory_def tidy_def ready_def Let_def split: option.splits)
  then show ?thesis using d by (auto simp: extends_def)
next
  case True
  let ?m = "maxGeneration (history d)"
  have rd: "ready d" using d(1) by (simp add: tidy_def)
  obtain cs g rest dest antis where s: "ready d'" "first d' = first d"
    "texts d' = text_below (first d) (texts d) (rev (source_of undo (history d)))"
    "text_below (first d') (texts d') (rev (dest_of undo (history d'))) = texts d" "cleanGeneration d' = cleanGeneration d"
    "lastSelOrigin (history d') = None"
    "dropWhile is_sel (rev (source_of undo (history d))) = ChangeEvent cs g # rev rest"
    "source_of undo (history d') = rest" "changes_of dest = changes_of (dest_of undo (history d))"
    "dest_of undo (history d') = dest @ [ChangeEvent antis (Some (generation (history d)))]"
    "generation (history d') = (case g of Some n \<Rightarrow> if n \<noteq> 0 then n else Suc ?m | None \<Rightarrow> Suc ?m)"
    "maxGeneration (history d') = (case g of Some n \<Rightarrow> if n \<noteq> 0 then ?m else Suc ?m | None \<Rightarrow> Suc ?m)"
    using history_step_fields [OF rd True] unfolding r option.inject simp_thms by (elim exE conjE) (erule that; assumption)
  have g: "dated G ?m (first d) (texts d) (rev (source_of undo (history d)))"
    "dated G ?m (first d) (texts d) (rev (dest_of undo (history d)))"
    "0 < generation (history d)" "generation (history d) \<le> ?m" "G (generation (history d)) = texts d"
    using d(2) by (cases undo; simp add: has_dates_def Let_def source_of_def dest_of_def)+
  have below: "texts d' = apply_all (first d) (rev cs) (texts d)" "texts d = apply_all (first d) (rev antis) (texts d')"
    using s(3) text_below_dropWhile [of "first d" "texts d" "rev (source_of undo (history d))"] s(7) s(4) s(2,10) by simp_all
  have src: "dated G ?m (first d) (texts d') (rev rest)"
    "case g of None \<Rightarrow> True | Some k \<Rightarrow> 0 < k \<longrightarrow> k \<le> ?m \<and> G k = texts d'"
    using g(1) unfolding dated_dropWhile [symmetric, of _ _ _ _ "rev (source_of undo (history d))"] s(7) below(1) by simp_all
  have "dated G ?m (first d) (texts d) (rev dest)"
    using g(2) s(9) by (metis changes_of_simps(5) dated_changes)
  then have dst: "dated G ?m (first d) (texts d') (rev (dest_of undo (history d')))"
    using g(3-5) below(2) by (simp add: s(10))
  define G' where "G' = (if maxGeneration (history d') = ?m then G else G(Suc ?m := texts d'))"
  have le: "?m \<le> maxGeneration (history d')" "\<And>k. k \<le> ?m \<Longrightarrow> G' k = G k" "0 < generation (history d')"
    "generation (history d') \<le> maxGeneration (history d')" "G' (generation (history d')) = texts d'"
    using s(11,12) src(2) by (auto simp: G'_def split: option.splits if_splits)
  have both: "dated G' (maxGeneration (history d')) (first d') (texts d') (rev (source_of undo (history d')))"
    "dated G' (maxGeneration (history d')) (first d') (texts d') (rev (dest_of undo (history d')))"
    using dated_later [OF src(1) le(1,2)] dated_later [OF dst le(1,2)] s(2,8) by simp_all
  then have "has_dates G' d'" using le(3-5) by (cases undo) (simp_all add: has_dates_def Let_def source_of_def dest_of_def)
  then have "extends G d G' d'" using le by (simp add: extends_def)
  then show ?thesis using s by (auto simp: tidy_def)
qed

lemma select_dates:
  assumes d: "tidy d" "has_dates G d" and s: "sel_in (first d) (texts d) s"
    and o1: "settled d \<or> \<not> same_op (lastSelOp (history d)) (current_op d)" and r: "setSelection d s options = Some d'"
  shows "tidy d' \<and> cleanGeneration d' = cleanGeneration d \<and> (\<exists>G'. extends G d G' d')"
proof -
  have "ready d" "selectable d" using d(1) o1 by (auto simp: tidy_def selectable_def)
  note f = setSelection_spec [OF this s r]
  have "has_dates G d'"
    using d(2) f(3,4,10,11) dated_changes [of _ _ _ _ "rev (hdone (history d))"] dated_changes [of _ _ _ _ "rev (hundone (history d))"]
      dated_changes [of _ _ _ _ "rev (hdone (history d'))"] dated_changes [of _ _ _ _ "rev (hundone (history d'))"]
    by (simp add: has_dates_def Let_def f(8,9))
  then show ?thesis using f by (auto simp: tidy_def extends_def)
qed

lemma environment_dates:
  assumes d: "tidy d" "has_dates G d" and e: "case e of None \<Rightarrow> True | Some e \<Rightarrow> \<not> suppressEdits e"
    and d': "d' = d\<lparr>cm := e, clock := t\<rparr>"
  shows "tidy d' \<and> cleanGeneration d' = cleanGeneration d \<and> extends G d G d'"
proof -
  have "root d' = root d" by (simp add: d')
  note c = doc_root_cong [OF this]
  have "ready d'"
    using d(1) e c by (simp add: d' tidy_def ready_def calm_def hist_inv_def)
  then show ?thesis using d c(2) by (simp add: d' tidy_def settled_def extends_def has_dates_def)
qed

lemma edits_dates:
  assumes "edits d d'" "tidy d" "has_dates G d"
  shows "tidy d' \<and> cleanGeneration d' = cleanGeneration d \<and> (\<exists>G'. extends G d G' d')"
  using assms
proof induction
  case start
  then show ?case by (auto simp: extends_def)
next
  case (change d1 c ign d2)
  then obtain G1 where "tidy d1" "cleanGeneration d1 = cleanGeneration d" "extends G d G1 d1" "has_dates G1 d1"
    by (auto simp: extends_def)
  then show ?case using change_dates [of d1 G1 c ign d2] change extends_trans by metis
next
  case (history d1 undo d2)
  then obtain G1 where "tidy d1" "cleanGeneration d1 = cleanGeneration d" "extends G d G1 d1" "has_dates G1 d1"
    by (auto simp: extends_def)
  then show ?case using history_dates [of d1 G1 undo d2] history extends_trans by metis
next
  case (select d1 s options d2)
  then obtain G1 where "tidy d1" "cleanGeneration d1 = cleanGeneration d" "extends G d G1 d1" "has_dates G1 d1"
    by (auto simp: extends_def)
  then show ?case using select_dates [of d1 G1 s options d2] select extends_trans by metis
next
  case (environment d1 e t)
  then obtain G1 where "tidy d1" "cleanGeneration d1 = cleanGeneration d" "extends G d G1 d1" "has_dates G1 d1"
    by (auto simp: extends_def)
  then show ?case using environment_dates [OF _ _ environment(2) refl, of d1 G1 t] extends_trans by metis
qed

section \<open>Marking the document clean\<close>

lemma markClean_simps [simp]:
  "texts (markClean d) = texts d" "first (markClean d) = first d" "cleanGeneration (markClean d) = generation (history d)"
  "generation (history (markClean d)) = generation (history d)" "change_ok (markClean d) = change_ok d"
  "sawReadOnlySpans (markClean d) = sawReadOnlySpans d" "undoDepth (history (markClean d)) = undoDepth (history d)"
  "maxGeneration (history (markClean d)) = maxGeneration (history d)"
  by (simp_all add: markClean_def changeGeneration_def Let_def texts_def doc_lines_def fun_eq_iff change_ok_def pos_ok_def line_index_def)

lemma markClean_dates:
  assumes "tidy d" "has_dates G d"
  shows "tidy (markClean d)" "has_dates G (markClean d)"
proof -
  have "root (markClean d) = root d" by (simp add: markClean_def changeGeneration_def Let_def)
  note c = doc_root_cong [OF this]
  have "ready (markClean d)"
    using assms(1) c by (simp add: tidy_def ready_def calm_def hist_inv_def markClean_def changeGeneration_def Let_def)
  then show "tidy (markClean d)" "has_dates G (markClean d)"
    using assms c by (simp_all add: tidy_def settled_def has_dates_def markClean_def changeGeneration_def Let_def)
qed

lemma newDoc_dates:
  assumes "newDoc text n now = Some d" "text \<noteq> []"
  shows "tidy d" "has_dates (\<lambda>_. text) d"
proof -
  obtain d' where "newDoc text n now = Some d'" "ready d'" "texts d' = text" "first d' = n"
    "hdone (history d') = [SelEvent (simpleSelection (Pos n 0) None)]" "hundone (history d') = []"
    "generation (history d') = 1" "maxGeneration (history d') = 1"
    using newDoc_spec [OF assms(2)] by metis
  then show "tidy d" "has_dates (\<lambda>_. text) d"
    using assms(1) by (simp_all add: tidy_def settled_def has_dates_def)
qed

text \<open>A change makes a clean document dirty, and its undo makes it clean again.\<close>

lemma change_undo_clean:
  assumes d: "tidy d" "has_dates G d" and c: "change_ok d c" "\<not> is_noop c" and de: "deep_enough (undoDepth (history d))"
  shows "\<exists>d1 d2. makeChange (markClean d) c True = Some d1 \<and> \<not> isClean d1 None
    \<and> makeChangeFromHistory d1 True False = Some d2 \<and> isClean d2 None"
proof -
  let ?d = "markClean d"
  note k = markClean_dates [OF d]
  have rd: "ready ?d" "wf_doc ?d" "hist_inv ?d" using k(1) by (auto simp: tidy_def ready_def)
  have g: "0 < generation (history d)" "generation (history d) \<le> maxGeneration (history d)"
    using d(2) by (simp_all add: has_dates_def Let_def)
  have c': "change_ok ?d c" using c(1) by simp
  obtain d1 h where m: "makeChangeInner ?d c = Some d1" "ready d1" "same_core (?d\<lparr>history := h\<rparr>) d1"
    "texts d1 = apply_change (first ?d) c (texts ?d)" "sel d1 = computeSelAfterChange (sel ?d) c"
    "addChangeToHistory ?d c (sel d1) (current_op ?d) = Some (?d\<lparr>history := h\<rparr>)"
    using makeChangeInner_spec [OF rd(1) c' c(2)] by metis
  have f: "fits_text (first ?d) (texts ?d) c" using c' unfolding fits_change_ok .
  have nm: "\<not> mayMerge ?d c (current_op ?d)"
    by (simp add: mayMerge_def markClean_def changeGeneration_def same_op_def truthy_origin_def Let_def)
  note a = addChange_dates [OF rd(2,3) f k(2) m(6)]
  have "sel_in (first ?d) (apply_change (first ?d) c (texts ?d)) (sel d1)"
    using computeSelAfterChange_in [OF f] rd(3) m(5) by (simp add: hist_inv_def)
  then obtain pre cs where e: "hdone h = pre @ [ChangeEvent cs (Some (generation (history d))), SelEvent (sel d1)]"
    using a(4) nm de by auto
  have h1: "history d1 = h" "cleanGeneration d1 = generation (history d)" using m(3) by (simp_all add: same_core_def)
  have "list_ex (\<lambda>e. \<not> is_sel e) (source_of True (history d1))" using e h1 by (simp add: source_of_def)
  then obtain d2 cs' g' rest where u: "makeChangeFromHistory d1 True False = Some d2" "cleanGeneration d2 = cleanGeneration d1"
    "dropWhile is_sel (rev (source_of True (history d1))) = ChangeEvent cs' g' # rev rest"
    "generation (history d2) = (case g' of Some n \<Rightarrow> if n \<noteq> 0 then n else Suc (maxGeneration (history d1)) | None \<Rightarrow> Suc (maxGeneration (history d1)))"
    using history_step_fields [OF m(2), of True] by blast
  have "g' = Some (generation (history d))" using u(3) e h1 by (simp add: source_of_def)
  then have "isClean d2 None" using u(2,4) g h1 by (simp add: isClean_def)
  moreover have "\<not> isClean d1 None" using a(2) h1 g by (simp add: isClean_def)
  moreover have "makeChange ?d c True = Some d1" using makeChange_inner [OF rd(1), of True c] m(1) by simp
  ultimately show ?thesis using u(1) by blast
qed

text \<open>
  \<open>clearHistory\<close> starts the generations again at the highest one, which need not be the one of the text:
  a document marked clean after a change, taken back to the text before it, and told to forget its
  history says it is clean.
\<close>

lemma clearHistory_lies:
  assumes d: "tidy d" "has_dates G d" and c: "change_ok d c" "\<not> is_noop c"
    and nm: "\<not> mayMerge d c (current_op d)" and de: "deep_enough (undoDepth (history d))"
  shows "\<exists>d1 d2. makeChange d c True = Some d1 \<and> texts d1 = apply_change (first d) c (texts d)
    \<and> doc_undo (markClean d1) = Some d2 \<and> texts d2 = texts d \<and> isClean (clearHistory d2) None"
proof -
  have rd: "ready d" "wf_doc d" "hist_inv d" using d(1) by (auto simp: tidy_def ready_def)
  have f: "fits_text (first d) (texts d) c" using c(1) by (simp add: fits_change_ok)
  have g: "0 < generation (history d)" using d(2) by (simp add: has_dates_def Let_def)
  obtain d1 h where m: "makeChangeInner d c = Some d1" "same_core (d\<lparr>history := h\<rparr>) d1"
    "texts d1 = apply_change (first d) c (texts d)" "sel d1 = computeSelAfterChange (sel d) c"
    "addChangeToHistory d c (sel d1) (current_op d) = Some (d\<lparr>history := h\<rparr>)"
    "text_below (first d) (texts d1) (rev (hdone h)) = texts d"
    using makeChangeInner_spec [OF rd(1) c] nm de by metis
  have m1: "makeChange d c True = Some d1" using makeChange_inner [OF rd(1), of True c] m(1) by simp
  obtain G1 where t: "tidy d1" "has_dates G1 d1" using change_dates [OF d c(1) _ m1] by (auto simp: extends_def)
  note a = addChange_dates [OF rd(2,3) f d(2) m(5)]
  have "sel_in (first d) (apply_change (first d) c (texts d)) (sel d1)"
    using computeSelAfterChange_in [OF f] rd(3) m(4) by (simp add: hist_inv_def)
  then obtain pre cs where e: "hdone h = pre @ [ChangeEvent cs (Some (generation (history d))), SelEvent (sel d1)]"
    using a(4) nm de by blast
  have h1: "history d1 = h" "first d1 = first d" using m(2) by (simp_all add: same_core_def)
  have hm: "hdone (history (markClean d1)) = hdone h"
    by (simp add: h1 markClean_def changeGeneration_def Let_def)
  have mg: "maxGeneration (history (markClean d1)) = maxGeneration h" by (simp add: h1)
  have "ready (markClean d1)" using markClean_dates(1) [OF t] by (simp add: tidy_def)
  moreover have "list_ex (\<lambda>e. \<not> is_sel e) (source_of True (history (markClean d1)))" using e hm by (simp add: source_of_def)
  ultimately obtain d2 cs' g' rest where u: "makeChangeFromHistory (markClean d1) True False = Some d2"
    "texts d2 = text_below (first d1) (texts d1) (rev (hdone h))" "cleanGeneration d2 = generation h"
    "dropWhile is_sel (rev (hdone h)) = ChangeEvent cs' g' # rev rest"
    "maxGeneration (history d2) = (case g' of Some n \<Rightarrow> if n \<noteq> 0 then maxGeneration h else Suc (maxGeneration h)
        | None \<Rightarrow> Suc (maxGeneration h))"
    using history_step_fields [of "markClean d1" True] unfolding mg by (auto simp: source_of_def hm h1)
  have "g' = Some (generation (history d))" using u(4) e by simp
  then have "maxGeneration (history d2) = generation h" using u(5) a(2,3) g by simp
  then have "isClean (clearHistory d2) None" using u(3) a(2) by (simp add: isClean_def clearHistory_def History_def)
  then show ?thesis using m1 m(3,6) u(1,2) h1(2) by (auto simp: doc_undo_def)
qed

text \<open>A selection set twice in an operation, with a redo in between, takes the change off the history.\<close>

lemma select_after_redo:
  assumes "hdone (history d) = es @ [ChangeEvent cs g]" "same_op (lastSelOp (history d)) opid"
    and "addSelectionToHistory d s opid options = Some d'"
  shows "hdone (history d') = es @ [SelEvent s]"
  using assms by (auto simp: addSelectionToHistory_def replaceLast_def Let_def)

section \<open>Property\<close>

text \<open>
  C4. A document that says it is clean has the value it had when it was marked clean, if only steps of \<open>edits\<close> came
  in between, and before, from the creation of the document on: changes, undos, redos, selections that are not
  set in the operation of a redo, and steps of the environment (time, an editor). \<open>clearHistory\<close> and \<open>setHistory\<close>
  are no such steps; \<open>clearHistory_lies\<close> shows that the statement fails for them.
\<close>

theorem clean_value:
  assumes "newDoc text n now = Some d0" "text \<noteq> []" "edits d0 d" "edits (markClean d) d'" "isClean d' None"
  shows "getValue d' sep = getValue d sep"
proof -
  note d0 = newDoc_dates [OF assms(1,2)]
  obtain G where d: "tidy d" "has_dates G d" using edits_dates [OF assms(3) d0] by (auto simp: extends_def)
  obtain G' where d': "tidy d'" "cleanGeneration d' = generation (history d)" "extends G (markClean d) G' d'"
    using edits_dates [OF assms(4) markClean_dates [OF d]] by auto
  have "generation (history d') = generation (history d)" using assms(5) d'(2) by (simp add: isClean_def)
  moreover have "G (generation (history d)) = texts d" "generation (history d) \<le> maxGeneration (history (markClean d))"
    using d(2) by (simp_all add: has_dates_def Let_def)
  moreover have "G' (generation (history d')) = texts d'" "\<And>k. k \<le> maxGeneration (history (markClean d)) \<Longrightarrow> G' k = G k"
    using d'(3) by (simp_all add: extends_def has_dates_def Let_def)
  ultimately have "texts d' = texts d" by metis
  then show ?thesis using d(1) d'(1) by (simp add: tidy_def ready_def getValue_texts)
qed

text \<open>Typing into a new document that was marked clean, and undoing it.\<close>

theorem clean_value_witness:
  "\<exists>d d1 d2. newDoc [[97]] 0 0 = Some d \<and> makeChange (markClean d) (Change (Pos 0 1) (Pos 0 1) [[98]] None) True = Some d1
    \<and> \<not> isClean d1 None \<and> makeChangeFromHistory d1 True False = Some d2 \<and> isClean d2 None \<and> getValue d2 None = getValue d None"
proof -
  let ?c = "Change (Pos 0 1) (Pos 0 1) [[98]] None"
  obtain d where n: "newDoc [[97]] 0 0 = Some d" "texts d = [[97]]" "first d = 0" "undoDepth (history d) = None"
    using newDoc_spec [of "[[97]]" 0 0] by (metis list.discI)
  note dates = newDoc_dates [OF n(1)]
  have len: "length (doc_lines d) = 1" using arg_cong [OF n(2), of length] by (simp add: texts_def)
  have c: "change_ok d ?c" "\<not> is_noop ?c"
    using n(2,3) len by (simp_all add: change_ok_def Change_def pos_ok_def line_index_def is_noop_def)
  obtain d1 d2 where s: "makeChange (markClean d) ?c True = Some d1" "\<not> isClean d1 None"
    "makeChangeFromHistory d1 True False = Some d2" "isClean d2 None"
    using change_undo_clean [OF dates c] n(4) by (auto simp: deep_enough_def)
  have "edits (markClean d) d1" by (rule edits.change [OF edits.start _ _ s(1)]) (use c in simp_all)
  then have "edits (markClean d) d2" by (rule edits.history [OF _ s(3)])
  from clean_value [OF n(1) _ edits.start this s(4), of None] n(1) s show ?thesis by blast
qed

end
