(* ===== verification/JsTokenizer.thy ===== *)
theory JsTokenizer
  imports Strings
begin

text \<open>
  The tokenizer of the JavaScript mode (mode/javascript/javascript.js): the keyword table, the
  four token functions, and the lookahead for arrow functions. The parser's state is declared
  here because the tokenizer reads and sets part of it.

  The scratch variables \<open>type\<close> and \<open>content\<close>, by which a token function hands its token to the
  parser, belong to the mode and keep their values between calls; they are fields of the record
  \<open>tk\<close> next to the stream and the state. \<open>None\<close> stands for undefined.
\<close>

section \<open>Configuration and state\<close>

datatype global_vars = GlobalsOff | GlobalsOn | GlobalsList "jstr list"

record jsConfig =
  indentUnit :: int
  statementIndent :: int
  jsonld :: bool
  jsonFlag :: bool
  typescript :: bool
  wordRE :: "nat \<Rightarrow> bool"
  cfgLocalVars :: "jstr list"
  cfgGlobalVars :: global_vars
  doubleIndentSwitch :: bool

definition jsonMode :: "jsConfig \<Rightarrow> bool" where
  "jsonMode cfg \<longleftrightarrow> jsonFlag cfg \<or> jsonld cfg"

text \<open>The token functions, values of \<open>state.tokenize\<close>.\<close>

datatype tokenizer = TokenBase | TokenString nat | TokenComment | TokenQuasi

text \<open>The parser combinators, elements of \<open>state.cc\<close>; closures carry the values they capture.\<close>

datatype lex_info = NoInfo | InfoStr string | InfoNum int

datatype comb =
    Statement | Expression | ExpressionNoComma | Maybeexpression | MaybeexpressionNoComma
  | MaybeoperatorComma | MaybeoperatorNoComma | Quasi | ContinueQuasi | ArrowBody | ArrowBodyNoComma
  | Maybelabel | Property | Objprop | GetterSetter | Afterprop
  | Commasep comb string | Proceed comb string
  | Block | Maybetype | Typedef | Vardef | Pattern | Proppattern | MaybeAssign | VardefCont | Maybeelse
  | Forspec | Forspec1 | Formaybeinof | Forspec2 | Forspec3 | Functiondef | Funarg
  | ClassName | ClassNameAfter | ClassBody | ClassGetterSetter
  | AfterModule | AfterExport | AfterImport | ImportSpec | MaybeFrom
  | ArrayLiteral | MaybeArrayComprehension | Comprehension
  | Pushcontext | Popcontext | Pushlex string lex_info | Poplex | Expect string

record JSLexical =
  lx_indented :: int
  lx_column :: int
  lx_type :: string
  lx_align :: "bool option"
  lx_info :: lex_info
  lx_pos :: nat

text \<open>
  Linked structures are lists: \<open>lexical\<close> with its \<open>prev\<close> chain, the variables with their \<open>next\<close>
  chain, the contexts with their \<open>prev\<close> chain (null is the empty list). The array \<open>cc\<close> is kept with
  its last element, the next to be popped, first.
\<close>

record jsState =
  js_tokenize :: tokenizer
  js_lastType :: "string option"
  js_cc :: "comb list"
  js_lexical :: "JSLexical list"
  js_localVars :: "jstr list"
  js_context :: "jstr list list"
  js_indented :: int
  js_globalVars :: "jstr list"
  js_fatArrowAt :: "int option"

record tk =
  tk_type :: "string option"
  tk_content :: "jstr option"
  tk_stream :: StringStream
  tk_state :: jsState

section \<open>Keywords\<close>

type_synonym keyword = "string \<times> string"

definition kw :: "string \<Rightarrow> keyword" where
  "kw t = (t, ''keyword'')"

definition jsKeywords :: "(jstr \<times> keyword) list" where
  "jsKeywords =
    (let A = kw ''keyword a''; B = kw ''keyword b''; C = kw ''keyword c'';
         operator = kw ''operator''; atom = (''atom'', ''atom'')
     in [(js ''if'', kw ''if''), (js ''while'', A), (js ''with'', A), (js ''else'', B), (js ''do'', B),
         (js ''try'', B), (js ''finally'', B),
         (js ''return'', C), (js ''break'', C), (js ''continue'', C), (js ''new'', C), (js ''delete'', C),
         (js ''throw'', C), (js ''debugger'', C),
         (js ''var'', kw ''var''), (js ''const'', kw ''var''), (js ''let'', kw ''var''),
         (js ''function'', kw ''function''), (js ''catch'', kw ''catch''),
         (js ''for'', kw ''for''), (js ''switch'', kw ''switch''), (js ''case'', kw ''case''), (js ''default'', kw ''default''),
         (js ''in'', operator), (js ''typeof'', operator), (js ''instanceof'', operator),
         (js ''true'', atom), (js ''false'', atom), (js ''null'', atom), (js ''undefined'', atom), (js ''NaN'', atom),
         (js ''Infinity'', atom),
         (js ''this'', kw ''this''), (js ''module'', kw ''module''), (js ''class'', kw ''class''), (js ''super'', kw ''atom''),
         (js ''yield'', C), (js ''export'', kw ''export''), (js ''import'', kw ''import''), (js ''extends'', C)])"

definition tsKeywords :: "(jstr \<times> keyword) list" where
  "tsKeywords =
    (let type = (''variable'', ''variable-3'')
     in [(js ''interface'', kw ''interface''), (js ''extends'', kw ''extends''), (js ''constructor'', kw ''constructor''),
         (js ''public'', kw ''public''), (js ''private'', kw ''private''), (js ''protected'', kw ''protected''),
         (js ''static'', kw ''static''),
         (js ''string'', type), (js ''number'', type), (js ''bool'', type), (js ''any'', type)])"

text \<open>The entries of \<open>tsKeywords\<close> overwrite those of \<open>jsKeywords\<close>.\<close>

definition keywords_of :: "jsConfig \<Rightarrow> jstr \<Rightarrow> keyword option" where
  "keywords_of cfg word =
     (if typescript cfg then map_of (tsKeywords @ jsKeywords) word else map_of jsKeywords word)"

section \<open>Regular expressions\<close>

definition in_chars :: "string \<Rightarrow> nat \<Rightarrow> bool" where
  "in_chars s c \<longleftrightarrow> c \<in> set (js s)"

definition is_digit :: "nat \<Rightarrow> bool" where
  "is_digit c \<longleftrightarrow> 48 \<le> c \<and> c \<le> 57"

definition is_hex :: "nat \<Rightarrow> bool" where
  "is_hex c \<longleftrightarrow> is_digit c \<or> 97 \<le> c \<and> c \<le> 102 \<or> 65 \<le> c \<and> c \<le> 70"

definition word_char :: "nat \<Rightarrow> bool" where
  "word_char c \<longleftrightarrow> is_digit c \<or> 97 \<le> c \<and> c \<le> 122 \<or> 65 \<le> c \<and> c \<le> 90 \<or> c = 95"

text \<open>The default \<open>wordRE\<close>, \<open>/[\w$\xa1-\uffff]/\<close>.\<close>

definition default_wordRE :: "nat \<Rightarrow> bool" where
  "default_wordRE c \<longleftrightarrow> word_char c \<or> c = 36 \<or> 161 \<le> c \<and> c \<le> 65535"

definition isOperatorChar :: "nat \<Rightarrow> bool" where
  "isOperatorChar = in_chars ''+-*&%=<>!?|~^''"

text \<open>\<open>(?:[eE][+\-]?\d+)?\<close>: the length of the longest match at the front.\<close>

definition exponent_len :: "jstr \<Rightarrow> nat" where
  "exponent_len s =
     (case s of
        [] \<Rightarrow> 0
      | c # r \<Rightarrow>
          if in_chars ''eE'' c
          then let sign = (case r of [] \<Rightarrow> 0 | d # _ \<Rightarrow> if in_chars ''+-'' d then 1 else 0);
                   digits = length (takeWhile is_digit (drop sign r))
               in if digits = 0 then 0 else 1 + sign + digits
          else 0)"

text \<open>\<open>/^\d+(?:[eE][+\-]?\d+)?/\<close> and \<open>/^\d*(?:\.\d*)?(?:[eE][+\-]?\d+)?/\<close>.\<close>

definition re_fraction :: regex where
  "re_fraction s =
     (let n = length (takeWhile is_digit s)
      in if n = 0 then None else Some (0, [take (n + exponent_len (drop n s)) s]))"

definition re_number :: regex where
  "re_number s =
     (let n = length (takeWhile is_digit s);
          f = (case drop n s of [] \<Rightarrow> 0 | c # r \<Rightarrow> if c = code CHR ''.'' then 1 + length (takeWhile is_digit r) else 0)
      in Some (0, [take (n + f + exponent_len (drop (n + f) s)) s]))"

definition jsonld_words :: "jstr list" where
  "jsonld_words = map (\<lambda>w. js ([CHR ''@''] @ w @ [CHR 0x22]))
     [''context'', ''id'', ''value'', ''language'', ''type'', ''container'', ''list'', ''set'', ''reverse'',
      ''index'', ''base'', ''vocab'', ''graph'']"

definition isJsonldKeyword :: regex where
  "isJsonldKeyword s =
     (case filter (\<lambda>w. take (length w) s = w) jsonld_words of
        [] \<Rightarrow> None
      | w # _ \<Rightarrow> Some (0, [w, slice 1 (int (length w) - 1) w]))"

section \<open>Token functions\<close>

definition ret :: "string \<Rightarrow> string option \<Rightarrow> jstr option \<Rightarrow> tk \<Rightarrow> string option \<times> tk" where
  "ret tp style cont t = (style, t \<lparr> tk_type := Some tp, tk_content := cont \<rparr>)"

definition set_tokenize :: "tokenizer \<Rightarrow> tk \<Rightarrow> tk" where
  "set_tokenize f t = t \<lparr> tk_state := (tk_state t) \<lparr> js_tokenize := f \<rparr> \<rparr>"

text \<open>The loops read characters until \<open>next\<close> gives none.\<close>

lemma next_ch_less [termination_simp]:
  "next_ch st = (st', ch # r) \<Longrightarrow> nat (int (length (ss_string st')) - ss_pos st') < nat (int (length (ss_string st)) - ss_pos st)"
  by (auto simp: next_ch_def split: if_splits)

function readRegexp :: "bool \<Rightarrow> bool \<Rightarrow> StringStream \<Rightarrow> StringStream" where
  "readRegexp escaped inSet st =
     (case next_ch st of
        (st', []) \<Rightarrow> st'
      | (st', next # _) \<Rightarrow>
          if \<not> escaped \<and> next = code CHR ''/'' \<and> \<not> inSet then st'
          else let inSet' = (if \<not> escaped
                             then if next = code CHR ''['' then True
                                  else if inSet \<and> next = code CHR '']'' then False else inSet
                             else inSet)
               in readRegexp (\<not> escaped \<and> next = 92) inSet' st')"
  by pat_completeness auto
termination
  by (relation "measure (\<lambda>(e, i, st). nat (int (length (ss_string st)) - ss_pos st))")
     (use next_ch_less in \<open>auto simp del: nat_less_eq_zless dest: sym\<close>)

declare readRegexp.simps [simp del]

function stringLoop :: "nat \<Rightarrow> bool \<Rightarrow> StringStream \<Rightarrow> StringStream \<times> bool" where
  "stringLoop quote escaped st =
     (case next_ch st of
        (st', []) \<Rightarrow> (st', escaped)
      | (st', next # _) \<Rightarrow>
          if next = quote \<and> \<not> escaped then (st', escaped)
          else stringLoop quote (\<not> escaped \<and> next = 92) st')"
  by pat_completeness auto
termination
  by (relation "measure (\<lambda>(q, e, st). nat (int (length (ss_string st)) - ss_pos st))")
     (use next_ch_less in \<open>auto simp del: nat_less_eq_zless dest: sym\<close>)

declare stringLoop.simps [simp del]

definition tokenString :: "jsConfig \<Rightarrow> nat \<Rightarrow> tk \<Rightarrow> string option \<times> tk" where
  "tokenString cfg quote t =
     (let (st1, m) = (if jsonld cfg \<and> peek (tk_stream t) = [code CHR ''@'']
                      then match_re isJsonldKeyword True (tk_stream t) else (tk_stream t, None))
      in if m \<noteq> None
         then ret ''jsonld-keyword'' (Some ''meta'') None (set_tokenize TokenBase (t \<lparr> tk_stream := st1 \<rparr>))
         else let (st2, escaped) = stringLoop quote False st1;
                  t2 = t \<lparr> tk_stream := st2 \<rparr>
              in ret ''string'' (Some ''string'') None (if \<not> escaped then set_tokenize TokenBase t2 else t2))"

function commentLoop :: "bool \<Rightarrow> StringStream \<Rightarrow> StringStream \<times> bool" where
  "commentLoop maybeEnd st =
     (case next_ch st of
        (st', []) \<Rightarrow> (st', False)
      | (st', ch # _) \<Rightarrow>
          if ch = code CHR ''/'' \<and> maybeEnd then (st', True) else commentLoop (ch = code CHR ''*'') st')"
  by pat_completeness auto
termination
  by (relation "measure (\<lambda>(m, st). nat (int (length (ss_string st)) - ss_pos st))")
     (use next_ch_less in \<open>auto simp del: nat_less_eq_zless dest: sym\<close>)

declare commentLoop.simps [simp del]

definition tokenComment :: "tk \<Rightarrow> string option \<times> tk" where
  "tokenComment t =
     (let (st, closed) = commentLoop False (tk_stream t);
          t1 = t \<lparr> tk_stream := st \<rparr>
      in ret ''comment'' (Some ''comment'') None (if closed then set_tokenize TokenBase t1 else t1))"

text \<open>The second component says whether the loop was left by its \<open>break\<close>.\<close>

function quasiLoop :: "bool \<Rightarrow> StringStream \<Rightarrow> StringStream \<times> bool" where
  "quasiLoop escaped st =
     (case next_ch st of
        (st', []) \<Rightarrow> (st', False)
      | (st', next # _) \<Rightarrow>
          if \<not> escaped \<and> next = code CHR ''`'' then (st', True)
          else if \<not> escaped \<and> next = code CHR ''$'' \<and> snd (eat (PStr [code CHR ''{'']) st') \<noteq> []
          then (fst (eat (PStr [code CHR ''{'']) st'), True)
          else quasiLoop (\<not> escaped \<and> next = 92) st')"
  by pat_completeness auto
termination
  by (relation "measure (\<lambda>(e, st). nat (int (length (ss_string st)) - ss_pos st))")
     (use next_ch_less in \<open>auto simp del: nat_less_eq_zless dest: sym\<close>)

declare quasiLoop.simps [simp del]

definition tokenQuasi :: "tk \<Rightarrow> string option \<times> tk" where
  "tokenQuasi t =
     (let (st, closed) = quasiLoop False (tk_stream t);
          t1 = t \<lparr> tk_stream := st \<rparr>;
          t2 = (if closed then set_tokenize TokenBase t1 else t1)
      in ret ''quasi'' (Some ''string-2'') (Some (current st)) t2)"

text \<open>The cases of \<open>tokenBase\<close>. \<open>eat_if\<close> and \<open>match_if\<close> are the calls in the conditions.\<close>

definition upd_stream :: "(StringStream \<Rightarrow> StringStream) \<Rightarrow> tk \<Rightarrow> tk" where
  "upd_stream f t = t \<lparr> tk_stream := f (tk_stream t) \<rparr>"

definition eats :: "char_pattern \<Rightarrow> tk \<Rightarrow> bool" where
  "eats p t \<longleftrightarrow> snd (eat p (tk_stream t)) \<noteq> []"

definition after_eat :: "char_pattern \<Rightarrow> tk \<Rightarrow> tk" where
  "after_eat p = upd_stream (\<lambda>st. fst (eat p st))"

definition after_while :: "char_pattern \<Rightarrow> tk \<Rightarrow> tk" where
  "after_while p = upd_stream (\<lambda>st. fst (eatWhile p st))"

definition ends_operand :: "string option \<Rightarrow> bool" where
  "ends_operand lastType \<longleftrightarrow>
     \<not> (lastType = Some ''operator'' \<or> lastType = Some ''keyword c'' \<or> lastType = Some ''sof''
        \<or> lastType \<in> (\<lambda>c. Some [c]) ` set ''[{}(,;:'')"

definition operatorToken :: "tk \<Rightarrow> string option \<times> tk" where
  "operatorToken t =
     (let t1 = after_while (PTest isOperatorChar) t
      in ret ''operator'' (Some ''operator'') (Some (current (tk_stream t1))) t1)"

definition slashToken :: "tk \<Rightarrow> string option \<times> tk" where
  "slashToken t =
     (if eats (PStr [code CHR ''*'']) t
      then tokenComment (set_tokenize TokenComment (after_eat (PStr [code CHR ''*'']) t))
      else if eats (PStr [code CHR ''/'']) t
      then ret ''comment'' (Some ''comment'') None (upd_stream skipToEnd (after_eat (PStr [code CHR ''/'']) t))
      else if \<not> ends_operand (js_lastType (tk_state t))
      then ret ''regexp'' (Some ''string-2'') None
             (after_while (PTest (in_chars ''gimy'')) (upd_stream (readRegexp False False) t))
      else operatorToken t)"

definition wordToken :: "jsConfig \<Rightarrow> tk \<Rightarrow> string option \<times> tk" where
  "wordToken cfg t =
     (let t1 = after_while (PTest (wordRE cfg)) t; word = current (tk_stream t1)
      in case keywords_of cfg word of
           Some (tp, style) \<Rightarrow>
             if js_lastType (tk_state t) \<noteq> Some ''.'' then ret tp (Some style) (Some word) t1
             else ret ''variable'' (Some ''variable'') (Some word) t1
         | None \<Rightarrow> ret ''variable'' (Some ''variable'') (Some word) t1)"

definition numberToken :: "tk \<Rightarrow> string option \<times> tk" where
  "numberToken = ret ''number'' (Some ''number'') None"

definition tokenChar :: "jsConfig \<Rightarrow> nat \<Rightarrow> tk \<Rightarrow> string option \<times> tk" where
  "tokenChar cfg ch t =
     (if ch = 34 \<or> ch = 39 then tokenString cfg ch (set_tokenize (TokenString ch) t)
      else if ch = code CHR ''.'' \<and> snd (match_re re_fraction True (tk_stream t)) \<noteq> None
      then numberToken (upd_stream (\<lambda>st. fst (match_re re_fraction True st)) t)
      else if ch = code CHR ''.'' \<and> snd (match_str id (js ''..'') True (tk_stream t))
      then ret ''spread'' (Some ''meta'') None (upd_stream (\<lambda>st. fst (match_str id (js ''..'') True st)) t)
      else if in_chars ''[]{}(),;:.'' ch then ret [char_of ch] None None t
      else if ch = code CHR ''='' \<and> eats (PStr [code CHR ''>'']) t
      then ret ''=>'' (Some ''operator'') None (after_eat (PStr [code CHR ''>'']) t)
      else if ch = code CHR ''0'' \<and> eats (PTest (in_chars ''xX'')) t
      then numberToken (after_while (PTest is_hex) (after_eat (PTest (in_chars ''xX'')) t))
      else if is_digit ch then numberToken (upd_stream (\<lambda>st. fst (match_re re_number True st)) t)
      else if ch = code CHR ''/'' then slashToken t
      else if ch = code CHR ''`'' then tokenQuasi (set_tokenize TokenQuasi t)
      else if ch = code CHR ''#'' then ret ''error'' (Some ''error'') None (upd_stream skipToEnd t)
      else if isOperatorChar ch then operatorToken t
      else if wordRE cfg ch then wordToken cfg t
      else (None, t))"

text \<open>At the end of the line \<open>ch\<close> is undefined, which the tests read as the string.\<close>

definition tokenBase :: "jsConfig \<Rightarrow> tk \<Rightarrow> string option \<times> tk" where
  "tokenBase cfg t =
     (let t1 = upd_stream (\<lambda>st. fst (next_ch st)) t
      in case snd (next_ch (tk_stream t)) of
           ch # _ \<Rightarrow> tokenChar cfg ch t1
         | [] \<Rightarrow> if list_ex (wordRE cfg) (js ''undefined'') then wordToken cfg t1 else (None, t1))"

definition tokenize :: "jsConfig \<Rightarrow> tokenizer \<Rightarrow> tk \<Rightarrow> string option \<times> tk" where
  "tokenize cfg f t =
     (case f of
        TokenBase \<Rightarrow> tokenBase cfg t
      | TokenString quote \<Rightarrow> tokenString cfg quote t
      | TokenComment \<Rightarrow> tokenComment t
      | TokenQuasi \<Rightarrow> tokenQuasi t)"

section \<open>The lookahead for arrow functions\<close>

text \<open>The scan to the left of the arrow: the final position and flags, \<open>None\<close> for the early return.\<close>

definition brackets :: "nat \<Rightarrow> int" where
  "brackets ch = indexOf (js ''([{}])'') ch"

function arrowScan :: "jsConfig \<Rightarrow> jstr \<Rightarrow> int \<Rightarrow> nat \<Rightarrow> bool \<Rightarrow> (int \<times> nat \<times> bool) option" where
  "arrowScan cfg s p depth sawSomething =
     (if p < 0 then Some (p, depth, sawSomething)
      else case charAt s p of
        [] \<Rightarrow> Some (p, depth, sawSomething)
      | ch # _ \<Rightarrow>
          if 0 \<le> brackets ch \<and> brackets ch < 3
          then (if depth = 0 then Some (p + 1, depth, sawSomething)
                else if depth = 1 then Some (p, 0, sawSomething)
                else arrowScan cfg s (p - 1) (depth - 1) sawSomething)
          else if 3 \<le> brackets ch \<and> brackets ch < 6 then arrowScan cfg s (p - 1) (depth + 1) sawSomething
          else if wordRE cfg ch then arrowScan cfg s (p - 1) depth True
          else if ch = 34 \<or> ch = 39 \<or> ch = 47 then None
          else if sawSomething \<and> depth = 0 then Some (p + 1, depth, sawSomething)
          else arrowScan cfg s (p - 1) depth sawSomething)"
  by pat_completeness auto
termination
  by (relation "measure (\<lambda>(cfg, s, p, d, w). nat (p + 1))") auto

declare arrowScan.simps [simp del]

fun find_arrow :: "jstr \<Rightarrow> nat option" where
  "find_arrow (a # b # s) = (if a = 61 \<and> b = 62 then Some 0 else map_option Suc (find_arrow (b # s)))"
| "find_arrow s = None"

definition findFatArrow :: "jsConfig \<Rightarrow> StringStream \<Rightarrow> jsState \<Rightarrow> jsState" where
  "findFatArrow cfg st state =
     (let state1 = (case js_fatArrowAt state of
            Some n \<Rightarrow> if n \<noteq> 0 then state \<lparr> js_fatArrowAt := None \<rparr> else state
          | None \<Rightarrow> state)
      in case find_arrow (drop (nat (ss_start st)) (ss_string st)) of
           None \<Rightarrow> state1
         | Some k \<Rightarrow>
             case arrowScan cfg (ss_string st) (ss_start st + int k - 1) 0 False of
               None \<Rightarrow> state1
             | Some (p, depth, sawSomething) \<Rightarrow>
                 if sawSomething \<and> depth = 0 then state1 \<lparr> js_fatArrowAt := Some p \<rparr> else state1)"

end
