(* ===== verification/JsParser.thy ===== *)
theory JsParser
  imports JsTokenizer
begin

text \<open>
  The parser of the JavaScript mode: one definition per combinator, the dispatch on the
  elements of \<open>cc\<close>, and the loop of \<open>parseJS\<close>. A combinator gets the type and the content of the
  token and the context \<open>cx\<close>; it returns whether it consumed the token, and the new context, or
  \<open>None\<close> where the source would raise a TypeError.
\<close>

section \<open>The context\<close>

record cx =
  cx_state :: jsState
  cx_stream :: StringStream
  cx_marked :: "string option"
  cx_style :: "string option"

type_synonym comb_result = "(bool \<times> cx) option"

definition upd_state :: "(jsState \<Rightarrow> jsState) \<Rightarrow> cx \<Rightarrow> cx" where
  "upd_state f c = c \<lparr> cx_state := f (cx_state c) \<rparr>"

definition push_cc :: "comb list \<Rightarrow> cx \<Rightarrow> cx" where
  "push_cc cs = upd_state (\<lambda>s. s \<lparr> js_cc := cs @ js_cc s \<rparr>)"

definition mark :: "string \<Rightarrow> cx \<Rightarrow> cx" where
  "mark style c = c \<lparr> cx_marked := Some style \<rparr>"

definition pass :: "comb list \<Rightarrow> cx \<Rightarrow> comb_result" where
  "pass cs c = Some (False, push_cc cs c)"

definition cont :: "comb list \<Rightarrow> cx \<Rightarrow> comb_result" where
  "cont cs c = Some (True, push_cc cs c)"

text \<open>A combinator that returns undefined.\<close>

definition no_result :: "cx \<Rightarrow> comb_result" where
  "no_result c = Some (False, c)"

definition inScope :: "jsState \<Rightarrow> jstr \<Rightarrow> bool" where
  "inScope s varname \<longleftrightarrow> varname \<in> set (js_localVars s) \<or> (\<exists>vars \<in> set (js_context s). varname \<in> set vars)"

definition register :: "jsConfig \<Rightarrow> jstr \<Rightarrow> cx \<Rightarrow> cx" where
  "register cfg varname c =
     (let s = cx_state c
      in if js_context s \<noteq> [] then
           (let c1 = mark ''def'' c
            in if varname \<in> set (js_localVars s) then c1
               else upd_state (\<lambda>s. s \<lparr> js_localVars := varname # js_localVars s \<rparr>) c1)
         else if varname \<in> set (js_globalVars s) then c
         else if cfgGlobalVars cfg \<noteq> GlobalsOff
         then upd_state (\<lambda>s. s \<lparr> js_globalVars := varname # js_globalVars s \<rparr>) c
         else c)"

section \<open>Scopes and indentation\<close>

definition defaultVars :: "jstr list" where
  "defaultVars = [js ''this'', js ''arguments'']"

definition pushcontext :: "cx \<Rightarrow> cx" where
  "pushcontext = upd_state (\<lambda>s. s \<lparr> js_context := js_localVars s # js_context s, js_localVars := defaultVars \<rparr>)"

definition popcontext :: "cx \<Rightarrow> cx option" where
  "popcontext c =
     (case js_context (cx_state c) of
        [] \<Rightarrow> None
      | vars # rest \<Rightarrow> Some (upd_state (\<lambda>s. s \<lparr> js_localVars := vars, js_context := rest \<rparr>) c))"

fun outerIndent :: "int \<Rightarrow> JSLexical list \<Rightarrow> int" where
  "outerIndent indent [] = indent"
| "outerIndent indent (outer # rest) =
     (if lx_type outer = '')'' \<and> lx_align outer = Some True then outerIndent (lx_indented outer) rest else indent)"

definition pushlex :: "string \<Rightarrow> lex_info \<Rightarrow> cx \<Rightarrow> cx option" where
  "pushlex tp info c =
     (let s = cx_state c
      in case js_lexical s of
           [] \<Rightarrow> None
         | lx # _ \<Rightarrow>
             let indent = (if lx_type lx = ''stat'' then lx_indented lx else outerIndent (js_indented s) (js_lexical s));
                 (st, col) = column (cx_stream c);
                 new = \<lparr> lx_indented = indent, lx_column = col, lx_type = tp, lx_align = None, lx_info = info, lx_pos = 0 \<rparr>
             in Some (upd_state (\<lambda>s. s \<lparr> js_lexical := new # js_lexical s \<rparr>) (c \<lparr> cx_stream := st \<rparr>)))"

definition poplex :: "cx \<Rightarrow> cx option" where
  "poplex c =
     (case js_lexical (cx_state c) of
        [] \<Rightarrow> None
      | [_] \<Rightarrow> Some c
      | lx # prev \<Rightarrow> Some (upd_state (\<lambda>s. s \<lparr> js_indented := (if lx_type lx = '')'' then lx_indented lx else js_indented s),
                                         js_lexical := prev \<rparr>) c))"

section \<open>Combinators\<close>

definition expect :: "string \<Rightarrow> string option \<Rightarrow> cx \<Rightarrow> comb_result" where
  "expect wanted type =
     (if type = Some wanted then cont []
      else if wanted = '';'' then pass []
      else cont [Expect wanted])"

text \<open>\<open>contCommasep(what, end, info, ...more)\<close>: the further arguments are pushed first.\<close>

definition contCommasep :: "comb \<Rightarrow> string \<Rightarrow> lex_info \<Rightarrow> comb list \<Rightarrow> cx \<Rightarrow> comb_result" where
  "contCommasep what stop info extra c =
     cont [Pushlex stop info, Commasep what stop, Poplex] (push_cc (rev extra) c)"

definition popElse :: "cx \<Rightarrow> cx option" where
  "popElse c =
     (let s = cx_state c
      in case js_lexical s of
           [] \<Rightarrow> None
         | lx # _ \<Rightarrow>
             if lx_info lx = InfoStr ''else'' then
               (case js_cc s of
                  Poplex # cs \<Rightarrow> poplex (upd_state (\<lambda>s. s \<lparr> js_cc := cs \<rparr>) c)
                | _ \<Rightarrow> Some c)
             else Some c)"

definition statement :: "string option \<Rightarrow> jstr option \<Rightarrow> cx \<Rightarrow> comb_result" where
  "statement type value c =
     (if type = Some ''var'' then
        (case value of
           None \<Rightarrow> None
         | Some v \<Rightarrow> cont [Pushlex ''vardef'' (InfoNum (int (length v))), Vardef, Expect '';'', Poplex] c)
      else if type = Some ''keyword a'' then cont [Pushlex ''form'' NoInfo, Expression, Statement, Poplex] c
      else if type = Some ''keyword b'' then cont [Pushlex ''form'' NoInfo, Statement, Poplex] c
      else if type = Some ''{'' then cont [Pushlex ''}'' NoInfo, Block, Poplex] c
      else if type = Some '';'' then cont [] c
      else if type = Some ''if'' then
        Option.bind (popElse c) (cont [Pushlex ''form'' NoInfo, Expression, Statement, Poplex, Maybeelse])
      else if type = Some ''function'' then cont [Functiondef] c
      else if type = Some ''for'' then cont [Pushlex ''form'' NoInfo, Forspec, Statement, Poplex] c
      else if type = Some ''variable'' then cont [Pushlex ''stat'' NoInfo, Maybelabel] c
      else if type = Some ''switch'' then
        cont [Pushlex ''form'' NoInfo, Expression, Pushlex ''}'' (InfoStr ''switch''), Expect ''{'', Block, Poplex, Poplex] c
      else if type = Some ''case'' then cont [Expression, Expect '':''] c
      else if type = Some ''default'' then cont [Expect '':''] c
      else if type = Some ''catch'' then
        cont [Pushlex ''form'' NoInfo, Pushcontext, Expect ''('', Funarg, Expect '')'', Statement, Poplex, Popcontext] c
      else if type = Some ''module'' then
        cont [Pushlex ''form'' NoInfo, Pushcontext, AfterModule, Popcontext, Poplex] c
      else if type = Some ''class'' then cont [Pushlex ''form'' NoInfo, ClassName, Poplex] c
      else if type = Some ''export'' then cont [Pushlex ''form'' NoInfo, AfterExport, Poplex] c
      else if type = Some ''import'' then cont [Pushlex ''form'' NoInfo, AfterImport, Poplex] c
      else pass [Pushlex ''stat'' NoInfo, Expression, Expect '';'', Poplex] c)"

definition atomicTypes :: "string list" where
  "atomicTypes = [''atom'', ''number'', ''variable'', ''string'', ''regexp'', ''this'', ''jsonld-keyword'']"

text \<open>The part of \<open>expressionInner\<close> behind the lookahead for arrow functions.\<close>

definition plainExpression :: "string option \<Rightarrow> bool \<Rightarrow> cx \<Rightarrow> comb_result" where
  "plainExpression type noComma =
     (let maybeop = (if noComma then MaybeoperatorNoComma else MaybeoperatorComma)
      in if type \<in> Some ` set atomicTypes then cont [maybeop]
         else if type = Some ''function'' then cont [Functiondef, maybeop]
         else if type = Some ''keyword c'' then cont [if noComma then MaybeexpressionNoComma else Maybeexpression]
         else if type = Some ''('' then cont [Pushlex '')'' NoInfo, Maybeexpression, Comprehension, Expect '')'', Poplex, maybeop]
         else if type = Some ''operator'' \<or> type = Some ''spread'' then cont [if noComma then ExpressionNoComma else Expression]
         else if type = Some ''['' then cont [Pushlex '']'' NoInfo, ArrayLiteral, Poplex, maybeop]
         else if type = Some ''{'' then contCommasep Objprop ''}'' NoInfo [maybeop]
         else if type = Some ''quasi'' then pass [Quasi, maybeop]
         else cont [])"

definition expressionInner :: "string option \<Rightarrow> bool \<Rightarrow> cx \<Rightarrow> comb_result" where
  "expressionInner type noComma c =
     (let body = (if noComma then ArrowBodyNoComma else ArrowBody);
          arrow = js_fatArrowAt (cx_state c) = Some (ss_start (cx_stream c))
      in if arrow \<and> type = Some ''('' then
           cont [Pushcontext, Pushlex '')'' NoInfo, Commasep Pattern '')'', Poplex, Expect ''=>'', body, Popcontext] c
         else if arrow \<and> type = Some ''variable'' then
           pass [Pushcontext, Pattern, Expect ''=>'', body, Popcontext] c
         else plainExpression type noComma c)"

definition expression :: "string option \<Rightarrow> cx \<Rightarrow> comb_result" where
  "expression type = expressionInner type False"

definition expressionNoComma :: "string option \<Rightarrow> cx \<Rightarrow> comb_result" where
  "expressionNoComma type = expressionInner type True"

definition maybeexpression :: "string option \<Rightarrow> cx \<Rightarrow> comb_result" where
  "maybeexpression type c =
     (case type of
        None \<Rightarrow> None
      | Some t \<Rightarrow> if list_ex (\<lambda>x. x \<in> set '';}),]'') t then pass [] c else pass [Expression] c)"

definition maybeexpressionNoComma :: "string option \<Rightarrow> cx \<Rightarrow> comb_result" where
  "maybeexpressionNoComma type c =
     (case type of
        None \<Rightarrow> None
      | Some t \<Rightarrow> if list_ex (\<lambda>x. x \<in> set '';}),]'') t then pass [] c else pass [ExpressionNoComma] c)"

text \<open>
  The third argument of \<open>maybeoperatorNoComma\<close>: false when \<open>maybeoperatorComma\<close> calls it, undefined
  (\<open>None\<close>) when it is called as a combinator.
\<close>

fun has_double :: "jstr \<Rightarrow> bool" where
  "has_double (a # b # s) \<longleftrightarrow> (a = b \<and> (a = 43 \<or> a = 45)) \<or> has_double (b # s)"
| "has_double s \<longleftrightarrow> False"

definition maybeoperator3 :: "bool option \<Rightarrow> string option \<Rightarrow> jstr option \<Rightarrow> cx \<Rightarrow> comb_result" where
  "maybeoperator3 noComma type value =
     (let me = (if noComma = Some False then MaybeoperatorComma else MaybeoperatorNoComma);
          expr = (if noComma = Some False then Expression else ExpressionNoComma)
      in if type = Some ''=>'' then
           cont [Pushcontext, if noComma = Some True then ArrowBodyNoComma else ArrowBody, Popcontext]
         else if type = Some ''operator'' then
           (if (case value of None \<Rightarrow> False | Some v \<Rightarrow> has_double v) then cont [me]
            else if value = Some (js ''?'') then cont [Expression, Expect '':'', expr]
            else cont [expr])
         else if type = Some ''quasi'' then pass [Quasi, me]
         else if type = Some '';'' then no_result
         else if type = Some ''('' then contCommasep ExpressionNoComma '')'' (InfoStr ''call'') [me]
         else if type = Some ''.'' then cont [Property, me]
         else if type = Some ''['' then cont [Pushlex '']'' NoInfo, Maybeexpression, Expect '']'', Poplex, me]
         else no_result)"

definition maybeoperatorNoComma :: "string option \<Rightarrow> jstr option \<Rightarrow> cx \<Rightarrow> comb_result" where
  "maybeoperatorNoComma = maybeoperator3 None"

definition maybeoperatorComma :: "string option \<Rightarrow> jstr option \<Rightarrow> cx \<Rightarrow> comb_result" where
  "maybeoperatorComma type value =
     (if type = Some '','' then cont [Expression] else maybeoperator3 (Some False) type value)"

definition quasi :: "string option \<Rightarrow> jstr option \<Rightarrow> cx \<Rightarrow> comb_result" where
  "quasi type value c =
     (if type \<noteq> Some ''quasi'' then pass [] c
      else case value of
             None \<Rightarrow> None
           | Some v \<Rightarrow> if slice_from (int (length v) - 2) v \<noteq> js ''${'' then cont [Quasi] c
                       else cont [Expression, ContinueQuasi] c)"

definition continueQuasi :: "string option \<Rightarrow> cx \<Rightarrow> comb_result" where
  "continueQuasi type c =
     (if type = Some ''}''
      then cont [Quasi] (upd_state (\<lambda>s. s \<lparr> js_tokenize := TokenQuasi \<rparr>) (mark ''string-2'' c))
      else no_result c)"

definition findArrow :: "jsConfig \<Rightarrow> cx \<Rightarrow> cx" where
  "findArrow cfg c = upd_state (findFatArrow cfg (cx_stream c)) c"

definition arrowBody :: "jsConfig \<Rightarrow> string option \<Rightarrow> cx \<Rightarrow> comb_result" where
  "arrowBody cfg type c = pass [if type = Some ''{'' then Statement else Expression] (findArrow cfg c)"

definition arrowBodyNoComma :: "jsConfig \<Rightarrow> string option \<Rightarrow> cx \<Rightarrow> comb_result" where
  "arrowBodyNoComma cfg type c = pass [if type = Some ''{'' then Statement else ExpressionNoComma] (findArrow cfg c)"

definition maybelabel :: "string option \<Rightarrow> cx \<Rightarrow> comb_result" where
  "maybelabel type =
     (if type = Some '':'' then cont [Poplex, Statement] else pass [MaybeoperatorComma, Expect '';'', Poplex])"

definition property :: "string option \<Rightarrow> cx \<Rightarrow> comb_result" where
  "property type c = (if type = Some ''variable'' then cont [] (mark ''property'' c) else no_result c)"

definition is_accessor :: "jstr option \<Rightarrow> bool" where
  "is_accessor value \<longleftrightarrow> value = Some (js ''get'') \<or> value = Some (js ''set'')"

definition style_text :: "string option \<Rightarrow> string" where
  "style_text style = (case style of None \<Rightarrow> ''undefined'' | Some s \<Rightarrow> s)"

definition objprop :: "jsConfig \<Rightarrow> string option \<Rightarrow> jstr option \<Rightarrow> cx \<Rightarrow> comb_result" where
  "objprop cfg type value c =
     (if type = Some ''variable'' \<or> cx_style c = Some ''keyword'' then
        (if is_accessor value then cont [GetterSetter] (mark ''property'' c)
         else cont [Afterprop] (mark ''property'' c))
      else if type = Some ''number'' \<or> type = Some ''string'' then
        cont [Afterprop] (mark (if jsonld cfg then ''property'' else style_text (cx_style c) @ '' property'') c)
      else if type = Some ''jsonld-keyword'' then cont [Afterprop] c
      else if type = Some ''['' then cont [Expression, Expect '']'', Afterprop] c
      else no_result c)"

definition getterSetter :: "string option \<Rightarrow> cx \<Rightarrow> comb_result" where
  "getterSetter type c =
     (if type \<noteq> Some ''variable'' then pass [Afterprop] c else cont [Functiondef] (mark ''property'' c))"

definition afterprop :: "string option \<Rightarrow> cx \<Rightarrow> comb_result" where
  "afterprop type =
     (if type = Some '':'' then cont [ExpressionNoComma]
      else if type = Some ''('' then pass [Functiondef]
      else no_result)"

definition count_arg :: "cx \<Rightarrow> cx option" where
  "count_arg c =
     (case js_lexical (cx_state c) of
        [] \<Rightarrow> None
      | lx # rest \<Rightarrow>
          Some (if lx_info lx = InfoStr ''call''
                then upd_state (\<lambda>s. s \<lparr> js_lexical := lx \<lparr> lx_pos := lx_pos lx + 1 \<rparr> # rest \<rparr>) c else c))"

definition proceed :: "comb \<Rightarrow> string \<Rightarrow> string option \<Rightarrow> cx \<Rightarrow> comb_result" where
  "proceed what stop type c =
     (if type = Some '','' then Option.bind (count_arg c) (cont [what, Proceed what stop])
      else if type = Some stop then cont [] c
      else cont [Expect stop] c)"

definition commasep :: "comb \<Rightarrow> string \<Rightarrow> string option \<Rightarrow> cx \<Rightarrow> comb_result" where
  "commasep what stop type = (if type = Some stop then cont [] else pass [what, Proceed what stop])"

definition block :: "string option \<Rightarrow> cx \<Rightarrow> comb_result" where
  "block type = (if type = Some ''}'' then cont [] else pass [Statement, Block])"

definition maybetype :: "jsConfig \<Rightarrow> string option \<Rightarrow> cx \<Rightarrow> comb_result" where
  "maybetype cfg type = (if typescript cfg \<and> type = Some '':'' then cont [Typedef] else no_result)"

definition typedefComb :: "string option \<Rightarrow> cx \<Rightarrow> comb_result" where
  "typedefComb type c = (if type = Some ''variable'' then cont [] (mark ''variable-3'' c) else no_result c)"

definition vardef :: "cx \<Rightarrow> comb_result" where
  "vardef = pass [Pattern, Maybetype, MaybeAssign, VardefCont]"

definition register_value :: "jsConfig \<Rightarrow> jstr option \<Rightarrow> cx \<Rightarrow> cx option" where
  "register_value cfg value c = map_option (\<lambda>v. register cfg v c) value"

definition pattern :: "jsConfig \<Rightarrow> string option \<Rightarrow> jstr option \<Rightarrow> cx \<Rightarrow> comb_result" where
  "pattern cfg type value c =
     (if type = Some ''variable'' then Option.bind (register_value cfg value c) (cont [])
      else if type = Some ''['' then contCommasep Pattern '']'' NoInfo [] c
      else if type = Some ''{'' then contCommasep Proppattern ''}'' NoInfo [] c
      else no_result c)"

text \<open>\<open>/^\s*:/\<close>.\<close>

definition re_colon :: regex where
  "re_colon s =
     (let n = length (takeWhile is_space s)
      in if n < length s \<and> s ! n = code CHR '':'' then Some (0, [take (Suc n) s]) else None)"

definition proppattern :: "jsConfig \<Rightarrow> string option \<Rightarrow> jstr option \<Rightarrow> cx \<Rightarrow> comb_result" where
  "proppattern cfg type value c =
     (if type = Some ''variable'' \<and> snd (match_re re_colon False (cx_stream c)) = None
      then Option.bind (register_value cfg value c) (cont [MaybeAssign])
      else cont [Expect '':'', Pattern, MaybeAssign] (if type = Some ''variable'' then mark ''property'' c else c))"

definition maybeAssign :: "jstr option \<Rightarrow> cx \<Rightarrow> comb_result" where
  "maybeAssign value = (if value = Some (js ''='') then cont [ExpressionNoComma] else no_result)"

definition vardefCont :: "string option \<Rightarrow> cx \<Rightarrow> comb_result" where
  "vardefCont type = (if type = Some '','' then cont [Vardef] else no_result)"

definition maybeelse :: "string option \<Rightarrow> jstr option \<Rightarrow> cx \<Rightarrow> comb_result" where
  "maybeelse type value =
     (if type = Some ''keyword b'' \<and> value = Some (js ''else'')
      then cont [Pushlex ''form'' (InfoStr ''else''), Statement, Poplex] else no_result)"

definition forspec :: "string option \<Rightarrow> cx \<Rightarrow> comb_result" where
  "forspec type =
     (if type = Some ''('' then cont [Pushlex '')'' NoInfo, Forspec1, Expect '')'', Poplex] else no_result)"

definition forspec1 :: "string option \<Rightarrow> cx \<Rightarrow> comb_result" where
  "forspec1 type =
     (if type = Some ''var'' then cont [Vardef, Expect '';'', Forspec2]
      else if type = Some '';'' then cont [Forspec2]
      else if type = Some ''variable'' then cont [Formaybeinof]
      else pass [Expression, Expect '';'', Forspec2])"

definition is_in_of :: "jstr option \<Rightarrow> bool" where
  "is_in_of value \<longleftrightarrow> value = Some (js ''in'') \<or> value = Some (js ''of'')"

definition formaybeinof :: "jstr option \<Rightarrow> cx \<Rightarrow> comb_result" where
  "formaybeinof value c =
     (if is_in_of value then cont [Expression] (mark ''keyword'' c) else cont [MaybeoperatorComma, Forspec2] c)"

definition forspec2 :: "string option \<Rightarrow> jstr option \<Rightarrow> cx \<Rightarrow> comb_result" where
  "forspec2 type value c =
     (if type = Some '';'' then cont [Forspec3] c
      else if is_in_of value then cont [Expression] (mark ''keyword'' c)
      else pass [Expression, Expect '';'', Forspec3] c)"

text \<open>\<open>forspec3\<close> calls \<open>cont\<close> but does not return its result.\<close>

definition forspec3 :: "string option \<Rightarrow> cx \<Rightarrow> comb_result" where
  "forspec3 type c = (if type \<noteq> Some '')'' then no_result (push_cc [Expression] c) else no_result c)"

definition functiondef :: "jsConfig \<Rightarrow> string option \<Rightarrow> jstr option \<Rightarrow> cx \<Rightarrow> comb_result" where
  "functiondef cfg type value c =
     (if value = Some (js ''*'') then cont [Functiondef] (mark ''keyword'' c)
      else if type = Some ''variable'' then Option.bind (register_value cfg value c) (cont [Functiondef])
      else if type = Some ''('' then
        cont [Pushcontext, Pushlex '')'' NoInfo, Commasep Funarg '')'', Poplex, Statement, Popcontext] c
      else no_result c)"

definition funarg :: "string option \<Rightarrow> cx \<Rightarrow> comb_result" where
  "funarg type = (if type = Some ''spread'' then cont [Funarg] else pass [Pattern, Maybetype])"

definition className :: "jsConfig \<Rightarrow> string option \<Rightarrow> jstr option \<Rightarrow> cx \<Rightarrow> comb_result" where
  "className cfg type value c =
     (if type = Some ''variable'' then Option.bind (register_value cfg value c) (cont [ClassNameAfter]) else no_result c)"

definition classNameAfter :: "string option \<Rightarrow> jstr option \<Rightarrow> cx \<Rightarrow> comb_result" where
  "classNameAfter type value =
     (if value = Some (js ''extends'') then cont [Expression, ClassNameAfter]
      else if type = Some ''{'' then cont [Pushlex ''}'' NoInfo, ClassBody, Poplex]
      else no_result)"

definition classBody :: "string option \<Rightarrow> jstr option \<Rightarrow> cx \<Rightarrow> comb_result" where
  "classBody type value c =
     (if type = Some ''variable'' \<or> cx_style c = Some ''keyword'' then
        (if is_accessor value then cont [ClassGetterSetter, Functiondef, ClassBody] (mark ''property'' c)
         else cont [Functiondef, ClassBody] (mark ''property'' c))
      else if value = Some (js ''*'') then cont [ClassBody] (mark ''keyword'' c)
      else if type = Some '';'' then cont [ClassBody] c
      else if type = Some ''}'' then cont [] c
      else no_result c)"

definition classGetterSetter :: "string option \<Rightarrow> cx \<Rightarrow> comb_result" where
  "classGetterSetter type c = (if type \<noteq> Some ''variable'' then pass [] c else cont [] (mark ''property'' c))"

definition afterModule :: "jsConfig \<Rightarrow> string option \<Rightarrow> jstr option \<Rightarrow> cx \<Rightarrow> comb_result" where
  "afterModule cfg type value c =
     (if type = Some ''string'' then cont [Statement] c
      else if type = Some ''variable'' then Option.bind (register_value cfg value c) (cont [MaybeFrom])
      else no_result c)"

definition afterExport :: "jstr option \<Rightarrow> cx \<Rightarrow> comb_result" where
  "afterExport value c =
     (if value = Some (js ''*'') then cont [MaybeFrom, Expect '';''] (mark ''keyword'' c)
      else if value = Some (js ''default'') then cont [Expression, Expect '';''] (mark ''keyword'' c)
      else pass [Statement] c)"

definition afterImport :: "string option \<Rightarrow> cx \<Rightarrow> comb_result" where
  "afterImport type = (if type = Some ''string'' then cont [] else pass [ImportSpec, MaybeFrom])"

definition importSpec :: "jsConfig \<Rightarrow> string option \<Rightarrow> jstr option \<Rightarrow> cx \<Rightarrow> comb_result" where
  "importSpec cfg type value c =
     (if type = Some ''{'' then contCommasep ImportSpec ''}'' NoInfo [] c
      else if type = Some ''variable'' then Option.bind (register_value cfg value c) (cont [])
      else cont [] c)"

definition maybeFrom :: "jstr option \<Rightarrow> cx \<Rightarrow> comb_result" where
  "maybeFrom value c = (if value = Some (js ''from'') then cont [Expression] (mark ''keyword'' c) else no_result c)"

definition arrayLiteral :: "string option \<Rightarrow> cx \<Rightarrow> comb_result" where
  "arrayLiteral type = (if type = Some '']'' then cont [] else pass [ExpressionNoComma, MaybeArrayComprehension])"

definition maybeArrayComprehension :: "string option \<Rightarrow> cx \<Rightarrow> comb_result" where
  "maybeArrayComprehension type =
     (if type = Some ''for'' then pass [Comprehension, Expect '']'']
      else if type = Some '','' then cont [Commasep MaybeexpressionNoComma '']'']
      else pass [Commasep ExpressionNoComma '']''])"

definition comprehension :: "string option \<Rightarrow> cx \<Rightarrow> comb_result" where
  "comprehension type =
     (if type = Some ''for'' then cont [Forspec, Comprehension]
      else if type = Some ''if'' then cont [Expression, Comprehension]
      else no_result)"

section \<open>The parser loop\<close>

text \<open>Calling an element of \<open>cc\<close>.\<close>

definition silently :: "cx option \<Rightarrow> comb_result" where
  "silently r = map_option (Pair False) r"

definition call_comb :: "jsConfig \<Rightarrow> comb \<Rightarrow> string option \<Rightarrow> jstr option \<Rightarrow> cx \<Rightarrow> comb_result" where
  "call_comb cfg k type value c =
     (case k of
        Statement \<Rightarrow> statement type value c
      | Expression \<Rightarrow> expression type c
      | ExpressionNoComma \<Rightarrow> expressionNoComma type c
      | Maybeexpression \<Rightarrow> maybeexpression type c
      | MaybeexpressionNoComma \<Rightarrow> maybeexpressionNoComma type c
      | MaybeoperatorComma \<Rightarrow> maybeoperatorComma type value c
      | MaybeoperatorNoComma \<Rightarrow> maybeoperatorNoComma type value c
      | Quasi \<Rightarrow> quasi type value c
      | ContinueQuasi \<Rightarrow> continueQuasi type c
      | ArrowBody \<Rightarrow> arrowBody cfg type c
      | ArrowBodyNoComma \<Rightarrow> arrowBodyNoComma cfg type c
      | Maybelabel \<Rightarrow> maybelabel type c
      | Property \<Rightarrow> property type c
      | Objprop \<Rightarrow> objprop cfg type value c
      | GetterSetter \<Rightarrow> getterSetter type c
      | Afterprop \<Rightarrow> afterprop type c
      | Commasep what stop \<Rightarrow> commasep what stop type c
      | Proceed what stop \<Rightarrow> proceed what stop type c
      | Block \<Rightarrow> block type c
      | Maybetype \<Rightarrow> maybetype cfg type c
      | Typedef \<Rightarrow> typedefComb type c
      | Vardef \<Rightarrow> vardef c
      | Pattern \<Rightarrow> pattern cfg type value c
      | Proppattern \<Rightarrow> proppattern cfg type value c
      | MaybeAssign \<Rightarrow> maybeAssign value c
      | VardefCont \<Rightarrow> vardefCont type c
      | Maybeelse \<Rightarrow> maybeelse type value c
      | Forspec \<Rightarrow> forspec type c
      | Forspec1 \<Rightarrow> forspec1 type c
      | Formaybeinof \<Rightarrow> formaybeinof value c
      | Forspec2 \<Rightarrow> forspec2 type value c
      | Forspec3 \<Rightarrow> forspec3 type c
      | Functiondef \<Rightarrow> functiondef cfg type value c
      | Funarg \<Rightarrow> funarg type c
      | ClassName \<Rightarrow> className cfg type value c
      | ClassNameAfter \<Rightarrow> classNameAfter type value c
      | ClassBody \<Rightarrow> classBody type value c
      | ClassGetterSetter \<Rightarrow> classGetterSetter type c
      | AfterModule \<Rightarrow> afterModule cfg type value c
      | AfterExport \<Rightarrow> afterExport value c
      | AfterImport \<Rightarrow> afterImport type c
      | ImportSpec \<Rightarrow> importSpec cfg type value c
      | MaybeFrom \<Rightarrow> maybeFrom value c
      | ArrayLiteral \<Rightarrow> arrayLiteral type c
      | MaybeArrayComprehension \<Rightarrow> maybeArrayComprehension type c
      | Comprehension \<Rightarrow> comprehension type c
      | Pushcontext \<Rightarrow> no_result (pushcontext c)
      | Popcontext \<Rightarrow> silently (popcontext c)
      | Pushlex tp info \<Rightarrow> silently (pushlex tp info c)
      | Poplex \<Rightarrow> silently (poplex c)
      | Expect wanted \<Rightarrow> expect wanted type c)"

end
