(* ===== verification/JsParse.thy ===== *)
theory JsParse
  imports JsParser
begin

text \<open>
  The loop of \<open>parseJS\<close>: it ends because every combinator that leaves the token to others pushes
  something smaller, up to the first combinator that is sure to consume it. The invariant of the
  parser state: scopes and lexical levels that are going to be popped have been pushed.
\<close>

section \<open>Termination\<close>

text \<open>Combinators that consume a token of the given type, or push one that does.\<close>

fun sure :: "string option \<Rightarrow> comb \<Rightarrow> bool" where
  "sure t Statement \<longleftrightarrow> True"
| "sure t Expression \<longleftrightarrow> True"
| "sure t ExpressionNoComma \<longleftrightarrow> True"
| "sure t (Proceed k e) \<longleftrightarrow> True"
| "sure t ImportSpec \<longleftrightarrow> True"
| "sure t Pattern \<longleftrightarrow> t = Some ''variable''"
| "sure t Quasi \<longleftrightarrow> t = Some ''quasi''"
| "sure t k \<longleftrightarrow> False"

fun rank :: "comb \<Rightarrow> nat" where
  "rank Statement = 5"
| "rank Expression = 3"
| "rank ExpressionNoComma = 3"
| "rank Maybeexpression = 4"
| "rank MaybeexpressionNoComma = 4"
| "rank MaybeoperatorComma = 2"
| "rank MaybeoperatorNoComma = 2"
| "rank ArrowBody = 6"
| "rank ArrowBodyNoComma = 6"
| "rank Maybelabel = 5"
| "rank Afterprop = 2"
| "rank GetterSetter = 3"
| "rank (Commasep k e) = rank k + 2"
| "rank Block = 6"
| "rank Vardef = 5"
| "rank Forspec1 = 4"
| "rank Forspec2 = 4"
| "rank Forspec3 = 4"
| "rank Funarg = 3"
| "rank AfterExport = 6"
| "rank AfterImport = 2"
| "rank ArrayLiteral = 4"
| "rank MaybeArrayComprehension = 6"
| "rank k = 1"

fun mu :: "string option \<Rightarrow> comb list \<Rightarrow> nat" where
  "mu t [] = 6"
| "mu t (k # ks) = (if sure t k then rank k else rank k + mu t ks)"

lemma rank_pos [simp]: "0 < rank k"
  by (induction k) simp_all

lemma mu_pos [simp]: "0 < mu t ks"
  by (cases ks) simp_all

abbreviation cc_of :: "cx \<Rightarrow> comb list" where
  "cc_of c \<equiv> js_cc (cx_state c)"

named_theorems cx_simps \<open>projections of context updates\<close>
named_theorems comb_defs \<open>definitions of the combinators\<close>

lemma push_cc_simps [cx_simps]:
  "js_cc (cx_state (push_cc cs c)) = cs @ cc_of c"
  "js_context (cx_state (push_cc cs c)) = js_context (cx_state c)"
  "js_lexical (cx_state (push_cc cs c)) = js_lexical (cx_state c)"
  "cx_stream (push_cc cs c) = cx_stream c"
  by (simp_all add: push_cc_def upd_state_def)

lemma mark_simps [cx_simps]:
  "cx_state (mark s c) = cx_state c" "cx_stream (mark s c) = cx_stream c"
  by (simp_all add: mark_def)

lemma findArrow_simps [cx_simps]:
  "js_cc (cx_state (findArrow cfg c)) = cc_of c"
  "js_context (cx_state (findArrow cfg c)) = js_context (cx_state c)"
  "js_lexical (cx_state (findArrow cfg c)) = js_lexical (cx_state c)"
  "cx_stream (findArrow cfg c) = cx_stream c"
  by (auto simp: findArrow_def upd_state_def findFatArrow_def Let_def split: option.split prod.split)

lemma register_simps [cx_simps]:
  "js_cc (cx_state (register cfg v c)) = cc_of c"
  "js_context (cx_state (register cfg v c)) = js_context (cx_state c)"
  "js_lexical (cx_state (register cfg v c)) = js_lexical (cx_state c)"
  "cx_stream (register cfg v c) = cx_stream c"
  by (auto simp: register_def upd_state_def Let_def mark_def)

lemma column_state: "column st = (st', n) \<Longrightarrow> ss_pos st' = ss_pos st \<and> ss_string st' = ss_string st \<and> ss_start st' = ss_start st"
  by (auto simp: column_def Let_def split: if_splits)

lemma pushlex_simps [cx_simps]:
  assumes "pushlex tp info c = Some c'"
  shows "cc_of c' = cc_of c" "js_context (cx_state c') = js_context (cx_state c)"
    "length (js_lexical (cx_state c')) = Suc (length (js_lexical (cx_state c)))"
    "ss_pos (cx_stream c') = ss_pos (cx_stream c)" "ss_string (cx_stream c') = ss_string (cx_stream c)"
    "ss_start (cx_stream c') = ss_start (cx_stream c)"
    "tl (js_lexical (cx_state c')) = js_lexical (cx_state c)"
    "lx_type (hd (js_lexical (cx_state c'))) = tp" "lx_info (hd (js_lexical (cx_state c'))) = info"
  using assms
  by (auto simp: pushlex_def Let_def upd_state_def split: list.splits prod.splits dest!: column_state)

lemma poplex_simps [cx_simps]:
  assumes "poplex c = Some c'"
  shows "cc_of c' = cc_of c" "js_context (cx_state c') = js_context (cx_state c)"
    "cx_stream c' = cx_stream c"
    "js_lexical (cx_state c') = (if length (js_lexical (cx_state c)) = 1 then js_lexical (cx_state c) else tl (js_lexical (cx_state c)))"
  using assms by (auto simp: poplex_def upd_state_def split: list.splits)

lemma popcontext_simps [cx_simps]:
  assumes "popcontext c = Some c'"
  shows "cc_of c' = cc_of c" "js_context (cx_state c') = tl (js_context (cx_state c))"
    "js_lexical (cx_state c') = js_lexical (cx_state c)" "cx_stream c' = cx_stream c"
    "js_context (cx_state c) \<noteq> []"
  using assms by (auto simp: popcontext_def upd_state_def split: list.splits)

lemma pushcontext_simps [cx_simps]:
  "cc_of (pushcontext c) = cc_of c"
  "js_context (cx_state (pushcontext c)) = js_localVars (cx_state c) # js_context (cx_state c)"
  "js_lexical (cx_state (pushcontext c)) = js_lexical (cx_state c)" "cx_stream (pushcontext c) = cx_stream c"
  by (simp_all add: pushcontext_def upd_state_def)

lemmas simple_combs [comb_defs] =
  expect_def expression_def expressionNoComma_def maybeexpression_def
  maybeexpressionNoComma_def maybeoperatorNoComma_def maybeoperatorComma_def maybeoperator3_def quasi_def
  continueQuasi_def arrowBody_def arrowBodyNoComma_def maybelabel_def property_def objprop_def getterSetter_def
  afterprop_def commasep_def block_def maybetype_def typedefComb_def vardef_def pattern_def proppattern_def
  maybeAssign_def vardefCont_def maybeelse_def forspec_def forspec1_def formaybeinof_def forspec2_def forspec3_def
  functiondef_def funarg_def className_def classNameAfter_def classBody_def classGetterSetter_def afterModule_def
  afterExport_def afterImport_def importSpec_def maybeFrom_def arrayLiteral_def maybeArrayComprehension_def
  comprehension_def

lemmas results = pass_def cont_def no_result_def silently_def contCommasep_def

lemma statement_pass:
  "statement type value c = Some (False, c') \<Longrightarrow>
   cc_of c' = [Pushlex ''stat'' NoInfo, Expression, Expect '';'', Poplex] @ cc_of c"
  by (auto simp: statement_def pass_def cont_def cx_simps bind_eq_Some_conv split: if_splits option.splits)

lemma expressionInner_pass:
  "expressionInner type noComma c = Some (False, c') \<Longrightarrow>
   (\<exists>body. type = Some ''variable'' \<and> cc_of c' = [Pushcontext, Pattern, Expect ''=>'', body, Popcontext] @ cc_of c)
   \<or> (\<exists>k. type = Some ''quasi'' \<and> cc_of c' = [Quasi, k] @ cc_of c)"
  by (auto simp: expressionInner_def plainExpression_def pass_def cont_def contCommasep_def cx_simps Let_def split: if_splits)

lemma call_comb_sure:
  assumes "call_comb cfg k type value c = Some (False, c')" "sure type k"
  shows "mu type (cc_of c') < rank k"
  using assms
  by (cases k)
     (auto simp: call_comb_def comb_defs results cx_simps proceed_def bind_eq_Some_conv split: if_splits option.splits
       dest!: statement_pass expressionInner_pass)

lemma call_comb_unsure:
  assumes "call_comb cfg k type value c = Some (False, c')" "\<not> sure type k"
  shows "mu type (cc_of c') < rank k + mu type (cc_of c)"
  using assms
  by (cases k)
     (auto simp: call_comb_def comb_defs results cx_simps bind_eq_Some_conv split: if_splits option.splits)

section \<open>The loop\<close>

text \<open>Popping and calling the elements whose \<open>lex\<close> is set, after a token was consumed.\<close>

definition set_cc :: "comb list \<Rightarrow> cx \<Rightarrow> cx" where
  "set_cc cs = upd_state (\<lambda>s. s \<lparr> js_cc := cs \<rparr>)"

fun drainLex :: "comb list \<Rightarrow> cx \<Rightarrow> cx option" where
  "drainLex (Pushlex tp info # ks) c = Option.bind (pushlex tp info (set_cc ks c)) (drainLex ks)"
| "drainLex (Poplex # ks) c = Option.bind (poplex (set_cc ks c)) (drainLex ks)"
| "drainLex ks c = Some c"

definition next_comb :: "jsConfig \<Rightarrow> cx \<Rightarrow> comb" where
  "next_comb cfg c = (case cc_of c of k # _ \<Rightarrow> k | [] \<Rightarrow> if jsonMode cfg then Expression else Statement)"

definition resultStyle :: "string option \<Rightarrow> jstr option \<Rightarrow> cx \<Rightarrow> string option" where
  "resultStyle type value c =
     (case cx_marked c of
        Some m \<Rightarrow> Some m
      | None \<Rightarrow>
          if type = Some ''variable'' \<and> (case value of None \<Rightarrow> False | Some v \<Rightarrow> inScope (cx_state c) v)
          then Some ''variable-2'' else cx_style c)"

lemma set_cc_simps [cx_simps]:
  "cc_of (set_cc cs c) = cs" "js_context (cx_state (set_cc cs c)) = js_context (cx_state c)"
  "js_lexical (cx_state (set_cc cs c)) = js_lexical (cx_state c)" "cx_stream (set_cc cs c) = cx_stream c"
  by (simp_all add: set_cc_def upd_state_def)

lemma parse_step_less:
  assumes "call_comb cfg (next_comb cfg c) type value (set_cc (tl (cc_of c)) c) = Some (False, c')"
  shows "mu type (cc_of c') < mu type (cc_of c)"
proof (cases "sure type (next_comb cfg c)")
  case True
  from call_comb_sure [OF assms True] have "mu type (cc_of c') < rank (next_comb cfg c)" .
  also have "\<dots> \<le> mu type (cc_of c)" using True by (cases "cc_of c") (auto simp: next_comb_def)
  finally show ?thesis .
next
  case False
  then have "cc_of c \<noteq> []" by (auto simp: next_comb_def split: list.splits if_splits)
  with call_comb_unsure [OF assms False] False show ?thesis
    by (cases "cc_of c") (auto simp: next_comb_def cx_simps)
qed

function parseLoop :: "jsConfig \<Rightarrow> string option \<Rightarrow> jstr option \<Rightarrow> cx \<Rightarrow> (string option \<times> cx) option" where
  "parseLoop cfg type value c =
     (case call_comb cfg (next_comb cfg c) type value (set_cc (tl (cc_of c)) c) of
        None \<Rightarrow> None
      | Some (consumed, c') \<Rightarrow>
          if consumed then map_option (\<lambda>c''. (resultStyle type value c'', c'')) (drainLex (cc_of c') c')
          else parseLoop cfg type value c')"
  by pat_completeness auto
termination
  by (relation "measure (\<lambda>(cfg, type, value, c). mu type (cc_of c))") (auto intro: parse_step_less)

declare parseLoop.simps [simp del]

definition set_align :: "bool \<Rightarrow> jsState \<Rightarrow> jsState" where
  "set_align b s =
     (case js_lexical s of
        [] \<Rightarrow> s
      | lx # rest \<Rightarrow> if lx_align lx = None then s \<lparr> js_lexical := lx \<lparr> lx_align := Some b \<rparr> # rest \<rparr> else s)"

definition parseJS ::
    "jsConfig \<Rightarrow> jsState \<Rightarrow> string option \<Rightarrow> string option \<Rightarrow> jstr option \<Rightarrow> StringStream
     \<Rightarrow> (string option \<times> cx) option" where
  "parseJS cfg state style type content stream =
     (if js_lexical state = [] then None
      else parseLoop cfg type content
        \<lparr> cx_state = set_align True state, cx_stream = stream, cx_marked = None, cx_style = style \<rparr>)"

section \<open>The invariant\<close>

fun item :: "comb \<Rightarrow> bool" where
  "item Objprop \<longleftrightarrow> True"
| "item Funarg \<longleftrightarrow> True"
| "item Pattern \<longleftrightarrow> True"
| "item Proppattern \<longleftrightarrow> True"
| "item ExpressionNoComma \<longleftrightarrow> True"
| "item MaybeexpressionNoComma \<longleftrightarrow> True"
| "item ImportSpec \<longleftrightarrow> True"
| "item k \<longleftrightarrow> False"

definition vardef_info :: "string \<Rightarrow> lex_info \<Rightarrow> bool" where
  "vardef_info t i \<longleftrightarrow> t = ''vardef'' \<longrightarrow> (case i of InfoNum _ \<Rightarrow> True | _ \<Rightarrow> False)"

text \<open>
  \<open>stack_ok d l cc\<close>: with \<open>d\<close> scopes and \<open>l\<close> lexical levels above the first, every scope and level
  that \<open>cc\<close> pops is there by then. \<open>Maybelabel\<close> always pushes the \<open>Poplex\<close> of its statement.
\<close>

fun stack_ok :: "nat \<Rightarrow> nat \<Rightarrow> comb list \<Rightarrow> bool" where
  "stack_ok d l [] \<longleftrightarrow> True"
| "stack_ok d l (Pushcontext # ks) \<longleftrightarrow> stack_ok (Suc d) l ks"
| "stack_ok d l (Popcontext # ks) \<longleftrightarrow> 0 < d \<and> stack_ok (d - 1) l ks"
| "stack_ok d l (Pushlex t i # ks) \<longleftrightarrow> vardef_info t i \<and> stack_ok d (Suc l) ks"
| "stack_ok d l (Poplex # ks) \<longleftrightarrow> 0 < l \<and> stack_ok d (l - 1) ks"
| "stack_ok d l (Maybelabel # ks) \<longleftrightarrow> 0 < l \<and> stack_ok d (l - 1) ks"
| "stack_ok d l (Commasep k e # ks) \<longleftrightarrow> item k \<and> stack_ok d l ks"
| "stack_ok d l (Proceed k e # ks) \<longleftrightarrow> item k \<and> stack_ok d l ks"
| "stack_ok d l (k # ks) \<longleftrightarrow> stack_ok d l ks"

definition lexical_ok :: "JSLexical list \<Rightarrow> bool" where
  "lexical_ok lxs \<longleftrightarrow>
     lxs \<noteq> [] \<and> lx_type (last lxs) = ''block'' \<and> list_all (\<lambda>lx. vardef_info (lx_type lx) (lx_info lx)) lxs"

definition state_ok :: "jsState \<Rightarrow> bool" where
  "state_ok s \<longleftrightarrow> lexical_ok (js_lexical s) \<and> stack_ok (length (js_context s)) (length (js_lexical s) - 1) (js_cc s)"

definition token_ok :: "string option \<Rightarrow> jstr option \<Rightarrow> bool" where
  "token_ok type content \<longleftrightarrow>
     type \<noteq> None \<and> (type \<in> {Some ''var'', Some ''variable'', Some ''quasi''} \<longrightarrow> content \<noteq> None)"

lemma stack_ok_item [simp]: "item k \<Longrightarrow> stack_ok d l (k # ks) \<longleftrightarrow> stack_ok d l ks"
  by (cases k) simp_all

lemma pushlex_ok:
  assumes "lexical_ok (js_lexical (cx_state c))" "vardef_info tp info"
  shows "\<exists>c'. pushlex tp info c = Some c' \<and> lexical_ok (js_lexical (cx_state c'))"
  using assms
  by (cases "js_lexical (cx_state c)") (auto simp: pushlex_def Let_def lexical_ok_def upd_state_def split: prod.splits)

lemma poplex_ok:
  assumes "lexical_ok (js_lexical (cx_state c))"
  shows "\<exists>c'. poplex c = Some c' \<and> lexical_ok (js_lexical (cx_state c'))"
  using assms
  by (auto simp: poplex_def Let_def lexical_ok_def upd_state_def split: list.splits)

text \<open>What a call of a combinator keeps: the stream's position and text, and the invariant.\<close>

definition step_ok :: "cx \<Rightarrow> comb_result \<Rightarrow> bool" where
  "step_ok c r \<longleftrightarrow>
     (case r of
        None \<Rightarrow> False
      | Some (b, c') \<Rightarrow> state_ok (cx_state c') \<and> ss_pos (cx_stream c') = ss_pos (cx_stream c)
                        \<and> ss_string (cx_stream c') = ss_string (cx_stream c) \<and> ss_start (cx_stream c') = ss_start (cx_stream c))"

lemma step_okI:
  assumes "lexical_ok (js_lexical (cx_state c))"
    and "stack_ok (length (js_context (cx_state c))) (length (js_lexical (cx_state c)) - 1) (cs @ cc_of c)"
  shows "step_ok c (Some (b, push_cc cs c))"
  using assms by (simp add: step_ok_def state_ok_def cx_simps)

lemma upd_tokenize_simps [cx_simps]:
  "js_cc (cx_state (upd_state (\<lambda>s. s \<lparr> js_tokenize := f \<rparr>) c)) = cc_of c"
  "js_context (cx_state (upd_state (\<lambda>s. s \<lparr> js_tokenize := f \<rparr>) c)) = js_context (cx_state c)"
  "js_lexical (cx_state (upd_state (\<lambda>s. s \<lparr> js_tokenize := f \<rparr>) c)) = js_lexical (cx_state c)"
  "cx_stream (upd_state (\<lambda>s. s \<lparr> js_tokenize := f \<rparr>) c) = cx_stream c"
  by (simp_all add: upd_state_def)

lemma popElse_ok:
  assumes "lexical_ok (js_lexical (cx_state c))"
    and "stack_ok (length (js_context (cx_state c))) (length (js_lexical (cx_state c)) - 1) (cc_of c)"
  shows "\<exists>c'. popElse c = Some c' \<and> state_ok (cx_state c') \<and> cx_stream c' = cx_stream c"
proof -
  obtain lx rest where lx: "js_lexical (cx_state c) = lx # rest" using assms(1) by (auto simp: lexical_ok_def neq_Nil_conv)
  show ?thesis
  proof (cases "lx_info lx = InfoStr ''else'' \<and> (\<exists>cs. cc_of c = Poplex # cs)")
    case False
    then have "popElse c = Some c" using lx by (auto simp: popElse_def Let_def split: list.splits comb.splits)
    then show ?thesis using assms by (simp add: state_ok_def)
  next
    case True
    then obtain cs where cs: "cc_of c = Poplex # cs" by blast
    have ok: "lexical_ok (js_lexical (cx_state (set_cc cs c)))" using assms(1) by (simp add: cx_simps)
    obtain c' where c': "poplex (set_cc cs c) = Some c'" "lexical_ok (js_lexical (cx_state c'))"
      using poplex_ok [OF ok] by blast
    have "popElse c = Some c'" using lx True cs c'(1) by (simp add: popElse_def set_cc_def)
    moreover have "state_ok (cx_state c')"
      using assms(2) c'(2) lx poplex_simps [OF c'(1)] cs by (auto simp: state_ok_def cx_simps)
    moreover have "cx_stream c' = cx_stream c" using poplex_simps [OF c'(1)] by (simp add: cx_simps)
    ultimately show ?thesis by blast
  qed
qed

lemma count_arg_ok:
  assumes "lexical_ok (js_lexical (cx_state c))"
  shows "\<exists>c'. count_arg c = Some c' \<and> lexical_ok (js_lexical (cx_state c')) \<and> cc_of c' = cc_of c
    \<and> js_context (cx_state c') = js_context (cx_state c)
    \<and> length (js_lexical (cx_state c')) = length (js_lexical (cx_state c)) \<and> cx_stream c' = cx_stream c"
  using assms
  by (cases "js_lexical (cx_state c)") (auto simp: count_arg_def lexical_ok_def upd_state_def)

definition ready_for :: "comb \<Rightarrow> cx \<Rightarrow> bool" where
  "ready_for k c \<longleftrightarrow> lexical_ok (js_lexical (cx_state c))
     \<and> stack_ok (length (js_context (cx_state c))) (length (js_lexical (cx_state c)) - 1) (k # cc_of c)"

lemma proceed_ok: "ready_for (Proceed w e) c \<Longrightarrow> step_ok c (proceed w e type c)"
  using count_arg_ok [of c]
  by (auto simp: proceed_def step_ok_def state_ok_def ready_for_def results cx_simps)

lemma vardef_info_simps [simp]: "t \<noteq> ''vardef'' \<Longrightarrow> vardef_info t i" "vardef_info t (InfoNum n)"
  by (simp_all add: vardef_info_def)

lemma statement_ok:
  assumes "ready_for Statement c" "token_ok type value"
  shows "step_ok c (statement type value c)"
proof (cases "type = Some ''if''")
  case True
  from popElse_ok [of c] assms(1) obtain c' where
    "popElse c = Some c'" "state_ok (cx_state c')" "cx_stream c' = cx_stream c" by (auto simp: ready_for_def)
  with True show ?thesis by (simp add: statement_def step_ok_def state_ok_def results cx_simps)
next
  case False
  with assms show ?thesis
    by (auto simp: statement_def step_ok_def state_ok_def ready_for_def token_ok_def results cx_simps split: option.split)
qed

lemma expressionInner_ok:
  assumes "ready_for Expression c"
  shows "step_ok c (expressionInner type b c)"
  using assms
  by (auto simp: expressionInner_def plainExpression_def step_ok_def state_ok_def ready_for_def results cx_simps Let_def)

lemma scope_combs_ok:
  "ready_for Pushcontext c \<Longrightarrow> step_ok c (no_result (pushcontext c))"
  "ready_for Popcontext c \<Longrightarrow> step_ok c (silently (popcontext c))"
  "ready_for (Pushlex tp info) c \<Longrightarrow> step_ok c (silently (pushlex tp info c))"
  "ready_for Poplex c \<Longrightarrow> step_ok c (silently (poplex c))"
proof -
  show "ready_for Pushcontext c \<Longrightarrow> step_ok c (no_result (pushcontext c))"
    by (simp add: ready_for_def step_ok_def state_ok_def results cx_simps)
  show "step_ok c (silently (popcontext c))" if "ready_for Popcontext c"
    using that by (cases "js_context (cx_state c)")
      (simp_all add: ready_for_def step_ok_def state_ok_def results popcontext_def upd_state_def)
  show "step_ok c (silently (pushlex tp info c))" if "ready_for (Pushlex tp info) c"
  proof -
    from that pushlex_ok [of c tp info] obtain c' where
      c': "pushlex tp info c = Some c'" "lexical_ok (js_lexical (cx_state c'))" by (auto simp: ready_for_def)
    have "Suc (length (js_lexical (cx_state c)) - 1) = length (js_lexical (cx_state c))"
      using that by (simp add: ready_for_def lexical_ok_def)
    then show ?thesis using that c' pushlex_simps [OF c'(1)]
      by (simp add: ready_for_def step_ok_def state_ok_def results)
  qed
  show "step_ok c (silently (poplex c))" if "ready_for Poplex c"
  proof -
    from that poplex_ok [of c] obtain c' where
      c': "poplex c = Some c'" "lexical_ok (js_lexical (cx_state c'))" by (auto simp: ready_for_def)
    then show ?thesis using that poplex_simps [OF c'(1)]
      by (auto simp: ready_for_def step_ok_def state_ok_def results split: if_splits)
  qed
qed

lemma call_comb_ok:
  assumes "ready_for k c" "token_ok type value"
  shows "step_ok c (call_comb cfg k type value c)"
proof (cases "k \<in> {Statement, Expression, ExpressionNoComma, Pushcontext, Popcontext, Poplex}
    \<or> (\<exists>w e. k = Proceed w e) \<or> (\<exists>t i. k = Pushlex t i)")
  case True
  then show ?thesis using assms
    by (auto simp: call_comb_def statement_ok expression_def expressionNoComma_def expressionInner_ok scope_combs_ok proceed_ok)
       (auto simp: ready_for_def intro: expressionInner_ok)
next
  case False
  from assms have l: "lexical_ok (js_lexical (cx_state c))"
    and st: "stack_ok (length (js_context (cx_state c))) (length (js_lexical (cx_state c)) - 1) (k # cc_of c)"
    by (simp_all add: ready_for_def)
  from assms obtain t where t: "type = Some t" by (auto simp: token_ok_def)
  have v: "type = Some ''variable'' \<Longrightarrow> value \<noteq> None" "type = Some ''quasi'' \<Longrightarrow> value \<noteq> None"
    using assms by (auto simp: token_ok_def)
  show ?thesis using False l st v
    by (cases k)
       (simp_all add: call_comb_def step_ok_def state_ok_def comb_defs results cx_simps t register_value_def Let_def,
        (auto simp: cx_simps cont_def pass_def no_result_def state_ok_def)+)
qed

lemma drainLex_ok:
  assumes "lexical_ok (js_lexical (cx_state c))"
    and "stack_ok (length (js_context (cx_state c))) (length (js_lexical (cx_state c)) - 1) ks"
    and "cc_of c = ks"
  shows "\<exists>c'. drainLex ks c = Some c' \<and> state_ok (cx_state c') \<and> ss_pos (cx_stream c') = ss_pos (cx_stream c)
    \<and> ss_string (cx_stream c') = ss_string (cx_stream c) \<and> ss_start (cx_stream c') = ss_start (cx_stream c)"
  using assms
proof (induction ks c rule: drainLex.induct)
  case (1 tp info ks c)
  have "ready_for (Pushlex tp info) (set_cc ks c)" using 1(2,3) by (simp add: ready_for_def cx_simps)
  then have "step_ok (set_cc ks c) (silently (pushlex tp info (set_cc ks c)))" by (rule scope_combs_ok)
  then obtain c' where c': "pushlex tp info (set_cc ks c) = Some c'" "state_ok (cx_state c')"
    "ss_pos (cx_stream c') = ss_pos (cx_stream c)" "ss_string (cx_stream c') = ss_string (cx_stream c) \<and> ss_start (cx_stream c') = ss_start (cx_stream c)"
    by (auto simp: step_ok_def silently_def cx_simps split: option.splits)
  have "cc_of c' = ks" using pushlex_simps(1) [OF c'(1)] by (simp add: cx_simps)
  with 1(1) [of c'] c' show ?case by (auto simp: state_ok_def)
next
  case (2 ks c)
  have "ready_for Poplex (set_cc ks c)" using 2(2,3) by (simp add: ready_for_def cx_simps)
  then have "step_ok (set_cc ks c) (silently (poplex (set_cc ks c)))" by (rule scope_combs_ok)
  then obtain c' where c': "poplex (set_cc ks c) = Some c'" "state_ok (cx_state c')"
    "ss_pos (cx_stream c') = ss_pos (cx_stream c)" "ss_string (cx_stream c') = ss_string (cx_stream c) \<and> ss_start (cx_stream c') = ss_start (cx_stream c)"
    by (auto simp: step_ok_def silently_def cx_simps split: option.splits)
  have "cc_of c' = ks" using poplex_simps(1) [OF c'(1)] by (simp add: cx_simps)
  with 2(1) [of c'] c' show ?case by (auto simp: state_ok_def)
qed (auto simp: state_ok_def)

lemma next_comb_ready:
  assumes "state_ok (cx_state c)"
  shows "ready_for (next_comb cfg c) (set_cc (tl (cc_of c)) c)"
  using assms by (cases "cc_of c") (auto simp: ready_for_def state_ok_def next_comb_def cx_simps)

lemma parseLoop_ok:
  assumes "state_ok (cx_state c)" "token_ok type value"
  shows "\<exists>style c'. parseLoop cfg type value c = Some (style, c') \<and> state_ok (cx_state c')
    \<and> ss_pos (cx_stream c') = ss_pos (cx_stream c) \<and> ss_string (cx_stream c') = ss_string (cx_stream c) \<and> ss_start (cx_stream c') = ss_start (cx_stream c)"
  using assms
proof (induction cfg type "value" c rule: parseLoop.induct)
  case (1 cfg type val c)
  let ?c = "set_cc (tl (cc_of c)) c"
  from call_comb_ok [OF next_comb_ready [OF 1(2)] 1(3)]
  have "step_ok ?c (call_comb cfg (next_comb cfg c) type val ?c)" .
  then obtain b c' where c': "call_comb cfg (next_comb cfg c) type val ?c = Some (b, c')"
    "state_ok (cx_state c')" "ss_pos (cx_stream c') = ss_pos (cx_stream c)"
    "ss_string (cx_stream c') = ss_string (cx_stream c) \<and> ss_start (cx_stream c') = ss_start (cx_stream c)"
    by (auto simp: step_ok_def cx_simps split: option.splits)
  show ?case
  proof (cases b)
    case True
    from drainLex_ok [of c' "cc_of c'"] c'(2) obtain c'' where
      "drainLex (cc_of c') c' = Some c''" "state_ok (cx_state c'')" "ss_pos (cx_stream c'') = ss_pos (cx_stream c')"
      "ss_string (cx_stream c'') = ss_string (cx_stream c') \<and> ss_start (cx_stream c'') = ss_start (cx_stream c')" by (auto simp: state_ok_def)
    with True c' show ?thesis by (subst parseLoop.simps) simp
  next
    case False
    from 1(1) [OF c'(1) refl False c'(2) 1(3)] c' False show ?thesis by (subst parseLoop.simps) simp
  qed
qed

lemma set_align_ok: "state_ok s \<Longrightarrow> state_ok (set_align b s)"
  by (auto simp: set_align_def state_ok_def lexical_ok_def split: list.splits)

lemma parseJS_ok:
  assumes "state_ok state" "token_ok type content"
  shows "\<exists>style' c'. parseJS cfg state style type content stream = Some (style', c') \<and> state_ok (cx_state c')
    \<and> ss_pos (cx_stream c') = ss_pos stream \<and> ss_string (cx_stream c') = ss_string stream \<and> ss_start (cx_stream c') = ss_start stream"
proof -
  have "js_lexical state \<noteq> []" using assms by (auto simp: state_ok_def lexical_ok_def)
  with parseLoop_ok [of "\<lparr> cx_state = set_align True state, cx_stream = stream, cx_marked = None, cx_style = style \<rparr>"
      type content cfg] assms show ?thesis
    by (simp add: parseJS_def set_align_ok)
qed

end
