(* ===== verification/JsMode.thy ===== *)
theory JsMode
  imports JsParse
begin

text \<open>
  The interface of the JavaScript mode: \<open>startState\<close>, \<open>token\<close> and \<open>indent\<close>. From the start state
  on no call raises an error, every call of \<open>token\<close> inside a line advances the stream, and
  \<open>indent\<close> finds every lexical level it looks at.
\<close>

section \<open>The mode object\<close>

text \<open>
  The variables \<open>type\<close> and \<open>content\<close> belong to the closure of the mode object, not to a state: all states of the
  mode share them. A call of the mode works on them and on the state that it is given.
\<close>

record jsClosure =
  m_type :: "string option"
  m_content :: "jstr option"

record jsCall = jsClosure +
  m_state :: jsState

definition startState :: "jsConfig \<Rightarrow> int option \<Rightarrow> jsState" where
  "startState cfg basecolumn =
     \<lparr> js_tokenize = TokenBase, js_lastType = Some ''sof'', js_cc = [],
       js_lexical = [\<lparr> lx_indented = (case basecolumn of None \<Rightarrow> 0 | Some n \<Rightarrow> n) - indentUnit cfg, lx_column = 0,
                       lx_type = ''block'', lx_align = Some False, lx_info = NoInfo, lx_pos = 0 \<rparr>],
       js_localVars = cfgLocalVars cfg,
       js_context = (if cfgLocalVars cfg \<noteq> [] then [cfgLocalVars cfg] else []),
       js_indented = 0,
       js_globalVars = (case cfgGlobalVars cfg of GlobalsList vs \<Rightarrow> vs | _ \<Rightarrow> []),
       js_fatArrowAt = None \<rparr>"

definition startLine :: "jsConfig \<Rightarrow> StringStream \<Rightarrow> jsState \<Rightarrow> jsState" where
  "startLine cfg stream state =
     (if sol stream
      then findFatArrow cfg stream ((set_align False state) \<lparr> js_indented := indentation stream \<rparr>)
      else state)"

definition lastType_of :: "string option \<Rightarrow> jstr option \<Rightarrow> string option" where
  "lastType_of type content =
     (if type = Some ''operator'' \<and> (content = Some (js ''++'') \<or> content = Some (js ''--'')) then Some ''incdec'' else type)"

definition token :: "jsConfig \<Rightarrow> StringStream \<Rightarrow> jsCall \<Rightarrow> (string option \<times> StringStream \<times> jsCall) option" where
  "token cfg stream m =
     (let state = startLine cfg stream (m_state m);
          (stream1, spaces) = (if js_tokenize state \<noteq> TokenComment then eatSpace stream else (stream, False))
      in if spaces then Some (None, stream1, m \<lparr> m_state := state \<rparr>)
         else let (style, t) = tokenize cfg (js_tokenize state)
                    \<lparr> tk_type = m_type m, tk_content = m_content m, tk_stream = stream1, tk_state = state \<rparr>;
                  end_state = \<lparr> m_type = tk_type t, m_content = tk_content t, m_state = tk_state t \<rparr>
              in if tk_type t = Some ''comment'' then Some (style, tk_stream t, end_state)
                 else map_option (\<lambda>(style', c). (style', cx_stream c, end_state \<lparr> m_state := cx_state c \<rparr>))
                   (parseJS cfg ((tk_state t) \<lparr> js_lastType := lastType_of (tk_type t) (tk_content t) \<rparr>)
                      style (tk_type t) (tk_content t) (tk_stream t)))"

section \<open>Indentation\<close>

datatype indent_result = IndentPass | Indent int | NotANumber

definition at_boundary :: "jstr \<Rightarrow> bool" where
  "at_boundary s \<longleftrightarrow> (case s of [] \<Rightarrow> True | c # _ \<Rightarrow> \<not> word_char c)"

definition starts_word :: "jstr \<Rightarrow> jstr \<Rightarrow> bool" where
  "starts_word w s \<longleftrightarrow> take (length w) s = w \<and> at_boundary (drop (length w) s)"

text \<open>\<open>/^\s*else\b/\<close> and \<open>/^(?:case|default)\b/\<close>.\<close>

definition starts_else :: "jstr \<Rightarrow> bool" where
  "starts_else s \<longleftrightarrow> starts_word (js ''else'') (dropWhile is_space s)"

definition starts_case :: "jstr \<Rightarrow> bool" where
  "starts_case s \<longleftrightarrow> starts_word (js ''case'') s \<or> starts_word (js ''default'') s"

definition isContinuedStatement :: "jsState \<Rightarrow> jstr \<Rightarrow> bool" where
  "isContinuedStatement state textAfter \<longleftrightarrow>
     js_lastType state = Some ''operator'' \<or> js_lastType state = Some '',''
     \<or> list_ex isOperatorChar (charAt textAfter 0) \<or> list_ex (in_chars '',.'') (charAt textAfter 0)"

text \<open>The levels that the pops on top of \<open>cc\<close> leave; \<open>None\<close> where \<open>prev\<close> of undefined is read.\<close>

fun popLevels :: "comb list \<Rightarrow> JSLexical list \<Rightarrow> JSLexical list option" where
  "popLevels (Poplex # cs) lexical = (if lexical = [] then None else popLevels cs (tl lexical))"
| "popLevels (Maybeelse # cs) lexical = popLevels cs lexical"
| "popLevels cs lexical = Some lexical"

definition statement_indent :: "jsConfig \<Rightarrow> int option" where
  "statement_indent cfg = (if statementIndent cfg \<noteq> 0 then Some (statementIndent cfg) else None)"

definition num_plus :: "int \<Rightarrow> lex_info \<Rightarrow> indent_result" where
  "num_plus n info = (case info of InfoNum k \<Rightarrow> Indent (n + (k + 1)) | _ \<Rightarrow> NotANumber)"

definition skipStat :: "jstr \<Rightarrow> JSLexical list \<Rightarrow> JSLexical list option" where
  "skipStat firstChar lexical =
     (case lexical of
        [] \<Rightarrow> None
      | lx # prev \<Rightarrow> if lx_type lx = ''stat'' \<and> firstChar = js ''}'' then Some prev else Some lexical)"

definition skipParen :: "jsConfig \<Rightarrow> JSLexical list \<Rightarrow> JSLexical list option" where
  "skipParen cfg lexical =
     (case lexical of
        [] \<Rightarrow> None
      | lx # prev \<Rightarrow>
          if statement_indent cfg \<noteq> None \<and> lx_type lx = '')''
          then (case prev of [] \<Rightarrow> None | lx' # _ \<Rightarrow> Some (if lx_type lx' = ''stat'' then prev else lexical))
          else Some lexical)"

definition indentLevel :: "jsConfig \<Rightarrow> jsState \<Rightarrow> jstr \<Rightarrow> jstr \<Rightarrow> JSLexical \<Rightarrow> indent_result" where
  "indentLevel cfg state textAfter firstChar lexical =
     (let type = lx_type lexical; closing = (firstChar = js type)
      in if type = ''vardef'' then
           (if js_lastType state = Some ''operator'' \<or> js_lastType state = Some '',''
            then num_plus (lx_indented lexical) (lx_info lexical) else Indent (lx_indented lexical))
         else if type = ''form'' \<and> firstChar = js ''{'' then Indent (lx_indented lexical)
         else if type = ''form'' then Indent (lx_indented lexical + indentUnit cfg)
         else if type = ''stat'' then
           Indent (lx_indented lexical + (if isContinuedStatement state textAfter
             then (case statement_indent cfg of Some n \<Rightarrow> n | None \<Rightarrow> indentUnit cfg) else 0))
         else if lx_info lexical = InfoStr ''switch'' \<and> \<not> closing \<and> doubleIndentSwitch cfg then
           Indent (lx_indented lexical + (if starts_case textAfter then indentUnit cfg else 2 * indentUnit cfg))
         else if lx_align lexical = Some True then Indent (lx_column lexical + (if closing then 0 else 1))
         else Indent (lx_indented lexical + (if closing then 0 else indentUnit cfg)))"

definition indent :: "jsConfig \<Rightarrow> jsState \<Rightarrow> jstr \<Rightarrow> indent_result option" where
  "indent cfg state textAfter =
     (if js_tokenize state = TokenComment then Some IndentPass
      else if js_tokenize state \<noteq> TokenBase then Some (Indent 0)
      else
        let firstChar = charAt textAfter 0
        in Option.bind (if starts_else textAfter then Some (js_lexical state) else popLevels (js_cc state) (js_lexical state))
             (\<lambda>lexical. Option.bind (skipStat firstChar lexical)
               (\<lambda>lexical. Option.bind (skipParen cfg lexical)
                 (\<lambda>lexical. case lexical of [] \<Rightarrow> None | lx # _ \<Rightarrow> Some (indentLevel cfg state textAfter firstChar lx)))))"

lemma lexical_ok_tl:
  "lexical_ok (lx # lxs) \<Longrightarrow> lxs \<noteq> [] \<Longrightarrow> lexical_ok lxs"
  by (simp add: lexical_ok_def)

lemma lexical_ok_tl_type:
  "lexical_ok (lx # lxs) \<Longrightarrow> lx_type lx \<noteq> ''block'' \<Longrightarrow> lexical_ok lxs"
  by (auto simp: lexical_ok_def split: if_splits)

lemma popLevels_ok:
  "lexical_ok lxs \<Longrightarrow> stack_ok d (length lxs - 1) cs \<Longrightarrow> \<exists>lxs'. popLevels cs lxs = Some lxs' \<and> lexical_ok lxs'"
proof (induction cs lxs arbitrary: d rule: popLevels.induct)
  case (1 cs lexical)
  obtain lx rest where l: "lexical = lx # rest" "rest \<noteq> []"
    using 1(2,3) by (cases lexical) (auto simp: lexical_ok_def)
  then have "lexical_ok rest" using 1(2) lexical_ok_tl by blast
  moreover have "stack_ok d (length rest - 1) cs" using 1(3) l by simp
  ultimately show ?case using 1(1) [of d] l by simp
next
  case (2 cs lexical)
  then show ?case by simp
qed auto

lemma skipStat_ok: "lexical_ok lxs \<Longrightarrow> \<exists>lxs'. skipStat fc lxs = Some lxs' \<and> lexical_ok lxs'"
  by (cases lxs) (auto simp: skipStat_def intro: lexical_ok_tl_type, simp add: lexical_ok_def)

lemma skipParen_ok: "lexical_ok lxs \<Longrightarrow> \<exists>lxs'. skipParen cfg lxs = Some lxs' \<and> lexical_ok lxs'"
proof (cases lxs)
  case (Cons lx prev)
  assume ok: "lexical_ok lxs"
  show ?thesis
  proof (cases "statement_indent cfg \<noteq> None \<and> lx_type lx = '')''")
    case True
    then have "lexical_ok prev" using ok Cons lexical_ok_tl_type by auto
    moreover from this obtain lx' r where "prev = lx' # r" by (auto simp: lexical_ok_def neq_Nil_conv)
    ultimately show ?thesis using ok Cons True by (simp add: skipParen_def)
  next
    case False
    then show ?thesis using ok Cons by (auto simp: skipParen_def)
  qed
qed (simp add: lexical_ok_def)

lemma indentLevel_number: "vardef_info (lx_type lx) (lx_info lx) \<Longrightarrow> indentLevel cfg s t fc lx \<noteq> NotANumber"
  by (auto simp: indentLevel_def Let_def num_plus_def vardef_info_def split: lex_info.splits)

lemma indent_ok:
  assumes "state_ok s"
  shows "\<exists>r. indent cfg s t = Some r \<and> r \<noteq> NotANumber"
proof (cases "js_tokenize s = TokenBase")
  case True
  have l: "lexical_ok (js_lexical s)" and st: "stack_ok (length (js_context s)) (length (js_lexical s) - 1) (js_cc s)"
    using assms by (simp_all add: state_ok_def)
  obtain l1 where l1: "(if starts_else t then Some (js_lexical s) else popLevels (js_cc s) (js_lexical s)) = Some l1" "lexical_ok l1"
    using popLevels_ok [OF l st] l by (cases "starts_else t") auto
  obtain l2 where l2: "skipStat (charAt t 0) l1 = Some l2" "lexical_ok l2" using skipStat_ok [OF l1(2)] by blast
  obtain l3 where l3: "skipParen cfg l2 = Some l3" "lexical_ok l3" using skipParen_ok [OF l2(2)] by blast
  then obtain lx r where "l3 = lx # r" "vardef_info (lx_type lx) (lx_info lx)" by (cases l3) (auto simp: lexical_ok_def)
  with True l1 l2 l3 show ?thesis by (simp add: indent_def Let_def indentLevel_number)
qed (simp add: indent_def)

section \<open>Tokens\<close>

text \<open>What a token function does to the record: it moves the stream, sets at most \<open>tokenize\<close>, and
  leaves a token the parser can take, or the scratch variables as they were.\<close>

definition tk_ok :: "tk \<Rightarrow> tk \<Rightarrow> bool" where
  "tk_ok t t' \<longleftrightarrow> moves (tk_stream t) (tk_stream t') \<and> (\<exists>f. tk_state t' = tk_state t \<lparr> js_tokenize := f \<rparr>)
     \<and> (token_ok (tk_type t') (tk_content t') \<or> tk_type t' = tk_type t \<and> tk_content t' = tk_content t)"

lemma tk_ok_trans: "tk_ok a b \<Longrightarrow> tk_ok b c \<Longrightarrow> tk_ok a c"
  unfolding tk_ok_def using moves_trans by auto

lemma tk_ok_refl [simp]: "tk_ok t t"
  unfolding tk_ok_def by (auto intro: exI [of _ "js_tokenize (tk_state t)"])

lemma tk_ok_ret: "token_ok (Some tp) con \<Longrightarrow> tk_ok t (snd (ret tp style con t))"
  by (auto simp: tk_ok_def ret_def intro: exI [of _ "js_tokenize (tk_state t)"])

lemma tk_ok_set_tokenize: "tk_ok t (set_tokenize f t)"
  by (auto simp: tk_ok_def set_tokenize_def)

lemma tk_ok_retI: "tk_ok a t \<Longrightarrow> token_ok (Some tp) con \<Longrightarrow> tk_ok a (snd (ret tp style con t))"
  using tk_ok_trans tk_ok_ret by blast

lemma tk_ok_setI: "tk_ok a t \<Longrightarrow> tk_ok a (set_tokenize f t)"
  using tk_ok_trans tk_ok_set_tokenize by blast

lemma tk_ok_stream: "moves (tk_stream t) st \<Longrightarrow> tk_ok t (t \<lparr> tk_stream := st \<rparr>)"
  by (auto simp: tk_ok_def intro: exI [of _ "js_tokenize (tk_state t)"])

lemma tk_ok_upd: "moves (tk_stream t) (f (tk_stream t)) \<Longrightarrow> tk_ok t (upd_stream f t)"
  unfolding upd_stream_def by (rule tk_ok_stream)

lemma next_ch_cases:
  obtains "next_ch st = (st, [])" "int (length (ss_string st)) \<le> ss_pos st"
  | ch where "next_ch st = (st \<lparr> ss_pos := ss_pos st + 1 \<rparr>, ch)" "ss_pos st < int (length (ss_string st))"
  by (cases "ss_pos st < int (length (ss_string st))") (auto simp: next_ch_def)

lemma next_ch_step: "next_ch st = (st', r) \<Longrightarrow> moves st st'"
  using next_ch_moves [of st] by simp

lemma readRegexp_moves: "moves st (readRegexp e i st)"
proof (induction e i st rule: readRegexp.induct)
  case (1 e i st)
  obtain st' r where n: "next_ch st = (st', r)" by fastforce
  note m = next_ch_step [OF n]
  show ?case
  proof (cases r)
    case Nil
    with n m show ?thesis by (subst readRegexp.simps) simp
  next
    case (Cons c cs)
    with n m 1 [OF n [symmetric] Cons] show ?thesis
      by (subst readRegexp.simps) (auto simp: Let_def intro: moves_trans)
  qed
qed

lemma stringLoop_moves: "moves st (fst (stringLoop q e st))"
proof (induction q e st rule: stringLoop.induct)
  case (1 q e st)
  obtain st' r where n: "next_ch st = (st', r)" by fastforce
  note m = next_ch_step [OF n]
  show ?case
  proof (cases r)
    case Nil
    with n m show ?thesis by (subst stringLoop.simps) simp
  next
    case (Cons c cs)
    with n m 1 [OF n [symmetric] Cons] show ?thesis
      by (subst stringLoop.simps) (auto intro: moves_trans)
  qed
qed

lemma commentLoop_moves: "moves st (fst (commentLoop e st))"
proof (induction e st rule: commentLoop.induct)
  case (1 e st)
  obtain st' r where n: "next_ch st = (st', r)" by fastforce
  note m = next_ch_step [OF n]
  show ?case
  proof (cases r)
    case Nil
    with n m show ?thesis by (subst commentLoop.simps) simp
  next
    case (Cons c cs)
    with n m 1 [OF n [symmetric] Cons] show ?thesis
      by (subst commentLoop.simps) (auto intro: moves_trans)
  qed
qed

lemma quasiLoop_moves: "moves st (fst (quasiLoop e st))"
proof (induction e st rule: quasiLoop.induct)
  case (1 e st)
  obtain st' r where n: "next_ch st = (st', r)" by fastforce
  note m = next_ch_step [OF n]
  have g: "good_pattern (PStr [c])" for c by (simp add: good_pattern_def)
  show ?case
  proof (cases r)
    case Nil
    with n m show ?thesis by (subst quasiLoop.simps) simp
  next
    case (Cons c cs)
    with n m 1 [OF n [symmetric] Cons] eat_moves [OF g [of "code CHR ''{''"], of st'] show ?thesis
      by (subst quasiLoop.simps) (auto intro: moves_trans)
  qed
qed

text \<open>A loop that reads at least one character of a line that has one left.\<close>

lemma stringLoop_strict:
  "ss_pos st < int (length (ss_string st)) \<Longrightarrow> ss_pos st < ss_pos (fst (stringLoop q e st))"
proof -
  assume lt: "ss_pos st < int (length (ss_string st))"
  then have "next_ch st = (st \<lparr> ss_pos := ss_pos st + 1 \<rparr>, charAt (ss_string st) (ss_pos st))" by (simp add: next_ch_def)
  moreover have "ss_pos st + 1 \<le> ss_pos (fst (stringLoop q e' (st \<lparr> ss_pos := ss_pos st + 1 \<rparr>)))" for e'
    using moves_simps(3) [OF stringLoop_moves [of "st \<lparr> ss_pos := ss_pos st + 1 \<rparr>" q e']] by simp
  ultimately show ?thesis
    by (subst stringLoop.simps) (auto split: list.splits simp: less_iff_succ_less_eq intro: less_le_trans)
qed

definition in_line :: "tk \<Rightarrow> bool" where
  "in_line t \<longleftrightarrow> 0 \<le> ss_pos (tk_stream t) \<and> ss_pos (tk_stream t) \<le> int (length (ss_string (tk_stream t)))"

lemma tk_ok_in_line: "tk_ok t t' \<Longrightarrow> in_line t \<Longrightarrow> in_line t'"
  unfolding tk_ok_def in_line_def using moves_simps(1,3,4) by fastforce

definition short_match :: "regex \<Rightarrow> bool" where
  "short_match re \<longleftrightarrow> (\<forall>s i g. re s = Some (i, g) \<longrightarrow> length (g ! 0) \<le> length s)"

lemma match_re_moves:
  assumes "short_match re" "in_line t"
  shows "moves (tk_stream t) (fst (match_re re b (tk_stream t)))"
proof (cases "re (slice_from (ss_pos (tk_stream t)) (ss_string (tk_stream t)))")
  case (Some p)
  obtain i g where p: "p = (i, g)" by fastforce
  from Some assms(1) have "length (g ! 0) \<le> length (slice_from (ss_pos (tk_stream t)) (ss_string (tk_stream t)))"
    unfolding p short_match_def by blast
  then have "ss_pos (tk_stream t) + int (length (g ! 0)) \<le> int (length (ss_string (tk_stream t)))"
    using assms(2) by (simp add: in_line_def slice_from_nonneg) linarith
  then show ?thesis using Some p by (simp add: match_re_def moves_to)
qed (simp add: match_re_def)

lemma match_str_moves:
  assumes "in_line t"
  shows "moves (tk_stream t) (fst (match_str id p b (tk_stream t)))"
proof (cases "take (length p) (slice_from (ss_pos (tk_stream t)) (ss_string (tk_stream t))) = p")
  case True
  then have "length p \<le> length (slice_from (ss_pos (tk_stream t)) (ss_string (tk_stream t)))"
    by (metis length_take min.cobounded1)
  then have "ss_pos (tk_stream t) + int (length p) \<le> int (length (ss_string (tk_stream t)))"
    using assms by (simp add: in_line_def slice_from_nonneg) linarith
  then show ?thesis by (simp add: match_str_def Let_def moves_to)
qed (simp add: match_str_def)

lemma short_matches [simp]: "short_match re_fraction" "short_match re_number" "short_match isJsonldKeyword"
proof -
  show "short_match re_fraction" by (auto simp: short_match_def re_fraction_def Let_def split: if_splits)
  show "short_match re_number" by (auto simp: short_match_def re_number_def Let_def)
  show "short_match isJsonldKeyword"
  proof (unfold short_match_def, intro allI impI)
    fix s i g
    assume r: "isJsonldKeyword s = Some (i, g)"
    then obtain w ws where f: "filter (\<lambda>w. take (length w) s = w) jsonld_words = w # ws" "g ! 0 = w"
      unfolding isJsonldKeyword_def by (auto split: list.splits)
    then have "w \<in> set (filter (\<lambda>w. take (length w) s = w) jsonld_words)" by simp
    then have "take (length w) s = w" by simp
    then show "length (g ! 0) \<le> length s" using f(2) by (metis length_take min.cobounded1)
  qed
qed

lemma token_ok_simps [simp]:
  "tp \<notin> {''var'', ''variable'', ''quasi''} \<Longrightarrow> token_ok (Some tp) con" "token_ok (Some tp) (Some w)"
  by (auto simp: token_ok_def)

lemma tokenComment_ok:
  "tk_ok t (snd (tokenComment t))"
proof -
  have "tk_ok t (t \<lparr> tk_stream := fst (commentLoop False (tk_stream t)) \<rparr>)" by (rule tk_ok_stream [OF commentLoop_moves])
  then show ?thesis unfolding tokenComment_def
    by (auto simp: Let_def split: prod.split intro!: tk_ok_retI intro: tk_ok_setI)
qed

lemma tokenQuasi_ok: "tk_ok t (snd (tokenQuasi t))"
proof -
  have "tk_ok t (t \<lparr> tk_stream := fst (quasiLoop False (tk_stream t)) \<rparr>)" by (rule tk_ok_stream [OF quasiLoop_moves])
  then show ?thesis unfolding tokenQuasi_def
    by (auto simp: Let_def split: prod.split intro!: tk_ok_retI intro: tk_ok_setI)
qed

lemma tokenString_ok:
  assumes "in_line t"
  shows "tk_ok t (snd (tokenString cfg q t))"
proof -
  obtain st1 m where m: "(if jsonld cfg \<and> peek (tk_stream t) = [code CHR ''@'']
      then match_re isJsonldKeyword True (tk_stream t) else (tk_stream t, None)) = (st1, m)" by fastforce
  have mv: "moves (tk_stream t) st1"
    using m match_re_moves [OF _ assms, of isJsonldKeyword True] by (auto split: if_splits)
  obtain st2 e where s: "stringLoop q False st1 = (st2, e)" by fastforce
  have mv2: "moves (tk_stream t) st2" using stringLoop_moves [of st1 q False] s moves_trans [OF mv] by simp
  show ?thesis unfolding tokenString_def m Let_def
    using tk_ok_stream [OF mv] tk_ok_stream [OF mv2] s
    by (auto intro!: tk_ok_retI intro: tk_ok_setI)
qed

lemma tk_ok_updI: "tk_ok a t \<Longrightarrow> moves (tk_stream t) (f (tk_stream t)) \<Longrightarrow> tk_ok a (upd_stream f t)"
  using tk_ok_trans tk_ok_upd by blast

lemma good_patterns [simp]: "good_pattern (PStr (c # s))" "good_pattern (PTest f)"
  by (simp_all add: good_pattern_def)

lemma after_eat_ok: "good_pattern p \<Longrightarrow> tk_ok a t \<Longrightarrow> tk_ok a (after_eat p t)"
  unfolding after_eat_def by (rule tk_ok_updI) (simp_all add: eat_moves)

lemma after_while_ok: "good_pattern p \<Longrightarrow> tk_ok a t \<Longrightarrow> tk_ok a (after_while p t)"
  unfolding after_while_def by (rule tk_ok_updI) (simp_all add: eatWhile_moves)

lemma operatorToken_ok: "tk_ok a t \<Longrightarrow> tk_ok a (snd (operatorToken t))"
  by (auto simp: operatorToken_def Let_def intro!: tk_ok_retI after_while_ok)

lemma numberToken_ok: "tk_ok a t \<Longrightarrow> tk_ok a (snd (numberToken t))"
  by (auto simp: numberToken_def intro!: tk_ok_retI)

lemma wordToken_ok: "tk_ok a t \<Longrightarrow> tk_ok a (snd (wordToken cfg t))"
  by (auto simp: wordToken_def Let_def split: option.split prod.split intro!: tk_ok_retI after_while_ok)

lemma skipToEnd_ok: "tk_ok a t \<Longrightarrow> in_line a \<Longrightarrow> tk_ok a (upd_stream skipToEnd t)"
  by (rule tk_ok_updI) (auto dest: tk_ok_in_line simp: in_line_def intro!: skipToEnd_moves)

lemma slashToken_ok:
  assumes "tk_ok a t" "in_line a"
  shows "tk_ok a (snd (slashToken t))"
proof -
  have c: "tk_ok a (snd (tokenComment (set_tokenize TokenComment (after_eat (PStr [code CHR ''*'']) t))))"
    by (rule tk_ok_trans [OF _ tokenComment_ok]) (intro tk_ok_setI after_eat_ok good_patterns assms(1))
  have r: "tk_ok a (upd_stream (readRegexp False False) t)" by (rule tk_ok_updI) (rule assms(1), rule readRegexp_moves)
  show ?thesis unfolding slashToken_def
    using c r assms by (auto intro!: tk_ok_retI skipToEnd_ok after_eat_ok after_while_ok operatorToken_ok)
qed

lemma tokenChar_ok:
  assumes a: "tk_ok a t" and i: "in_line a"
  shows "tk_ok a (snd (tokenChar cfg ch t))"
proof -
  have il: "in_line t" using tk_ok_in_line [OF a i] .
  have s: "tk_ok a (snd (tokenString cfg ch (set_tokenize f t)))" for f
  proof (rule tk_ok_trans [OF tk_ok_setI [OF a] tokenString_ok])
    show "in_line (set_tokenize f t)" using tk_ok_in_line [OF tk_ok_setI [OF a] i] .
  qed
  have q: "tk_ok a (snd (tokenQuasi (set_tokenize f t)))" for f
    by (rule tk_ok_trans [OF tk_ok_setI [OF a] tokenQuasi_ok])
  have m: "short_match re \<Longrightarrow> tk_ok a (upd_stream (\<lambda>st. fst (match_re re True st)) t)" for re
    by (rule tk_ok_updI) (rule a, rule match_re_moves [OF _ il])
  have m2: "tk_ok a (upd_stream (\<lambda>st. fst (match_str id p True st)) t)" for p
    by (rule tk_ok_updI) (rule a, rule match_str_moves [OF il])
  show ?thesis unfolding tokenChar_def
    by (simp add: s q m m2 a i numberToken_ok tk_ok_retI after_eat_ok after_while_ok slashToken_ok
        operatorToken_ok wordToken_ok skipToEnd_ok)
qed

lemma tokenBase_ok:
  assumes "in_line t"
  shows "tk_ok t (snd (tokenBase cfg t))"
proof -
  have "tk_ok t (upd_stream (\<lambda>st. fst (next_ch st)) t)" by (rule tk_ok_upd) (rule next_ch_moves)
  then show ?thesis unfolding tokenBase_def Let_def
    using assms by (auto split: list.split intro!: tokenChar_ok wordToken_ok)
qed

definition strict :: "tk \<Rightarrow> tk \<Rightarrow> bool" where
  "strict t t' \<longleftrightarrow> ss_pos (tk_stream t) < ss_pos (tk_stream t')"

lemma moves_strict: "ss_pos a < ss_pos b \<Longrightarrow> moves b c \<Longrightarrow> ss_pos a < ss_pos c"
  using moves_simps(3) by fastforce

lemma tokenBase_strict:
  assumes "in_line t" "\<not> eol (tk_stream t)"
  shows "strict t (snd (tokenBase cfg t))"
proof -
  let ?t1 = "upd_stream (\<lambda>st. fst (next_ch st)) t"
  have n: "next_ch (tk_stream t) = (tk_stream t \<lparr> ss_pos := ss_pos (tk_stream t) + 1 \<rparr>, [ss_string (tk_stream t) ! nat (ss_pos (tk_stream t))])"
    using assms by (simp add: next_ch_def eol_def in_line_def charAt_def)
  have p: "ss_pos (tk_stream ?t1) = ss_pos (tk_stream t) + 1" using n by (simp add: upd_stream_def)
  have "tk_ok t ?t1" by (rule tk_ok_upd) (rule next_ch_moves)
  then have "in_line ?t1" using tk_ok_in_line assms(1) by blast
  then have "tk_ok ?t1 (snd (tokenBase cfg t))"
    unfolding tokenBase_def Let_def by (simp add: n tokenChar_ok)
  then show ?thesis using p by (auto simp: strict_def tk_ok_def dest: moves_simps(3))
qed

lemma commentLoop_strict:
  "ss_pos st < int (length (ss_string st)) \<Longrightarrow> ss_pos st < ss_pos (fst (commentLoop e st))"
proof -
  assume lt: "ss_pos st < int (length (ss_string st))"
  then have "next_ch st = (st \<lparr> ss_pos := ss_pos st + 1 \<rparr>, charAt (ss_string st) (ss_pos st))" by (simp add: next_ch_def)
  moreover have "ss_pos st + 1 \<le> ss_pos (fst (commentLoop e' (st \<lparr> ss_pos := ss_pos st + 1 \<rparr>)))" for e'
    using moves_simps(3) [OF commentLoop_moves [of "st \<lparr> ss_pos := ss_pos st + 1 \<rparr>" e']] by simp
  ultimately show ?thesis
    by (subst commentLoop.simps) (auto split: list.splits simp: less_iff_succ_less_eq intro: less_le_trans)
qed

lemma quasiLoop_strict:
  "ss_pos st < int (length (ss_string st)) \<Longrightarrow> ss_pos st < ss_pos (fst (quasiLoop e st))"
proof -
  let ?st1 = "st \<lparr> ss_pos := ss_pos st + 1 \<rparr>"
  assume lt: "ss_pos st < int (length (ss_string st))"
  then have "next_ch st = (?st1, charAt (ss_string st) (ss_pos st))" by (simp add: next_ch_def)
  moreover have "ss_pos st + 1 \<le> ss_pos (fst (quasiLoop e' ?st1))" for e'
    using moves_simps(3) [OF quasiLoop_moves [of ?st1 e']] by simp
  moreover have "ss_pos st + 1 \<le> ss_pos (fst (eat (PStr [code CHR ''{'']) ?st1))"
    using moves_simps(3) [OF eat_moves [OF good_patterns(1) [of "code CHR ''{''" "[]"], of ?st1]] by simp
  ultimately show ?thesis
    by (subst quasiLoop.simps) (auto split: list.splits simp: less_iff_succ_less_eq intro: less_le_trans)
qed

lemma ret_simps [simp]:
  "tk_type (snd (ret tp style con t)) = Some tp" "tk_stream (snd (ret tp style con t)) = tk_stream t"
  "tk_state (snd (ret tp style con t)) = tk_state t"
  by (simp_all add: ret_def)

lemma set_tokenize_stream [simp]: "tk_stream (set_tokenize f t) = tk_stream t"
  by (simp add: set_tokenize_def)

lemma isJsonldKeyword_length:
  assumes "isJsonldKeyword s = Some (i, g)"
  shows "0 < length (g ! 0)"
proof -
  from assms obtain w ws where f: "filter (\<lambda>w. take (length w) s = w) jsonld_words = w # ws" "g ! 0 = w"
    unfolding isJsonldKeyword_def by (auto split: list.splits)
  then have "w \<in> set (filter (\<lambda>w. take (length w) s = w) jsonld_words)" by simp
  then have "w \<in> set jsonld_words" by simp
  then show ?thesis using f(2) by (auto simp: jsonld_words_def js_def)
qed

lemma tokenString_strict:
  assumes "in_line t" "\<not> eol (tk_stream t)"
  shows "strict t (snd (tokenString cfg q t))"
proof -
  have lt: "ss_pos (tk_stream t) < int (length (ss_string (tk_stream t)))" using assms by (simp add: eol_def)
  show ?thesis
  proof (cases "jsonld cfg \<and> peek (tk_stream t) = [code CHR ''@''] \<and> snd (match_re isJsonldKeyword True (tk_stream t)) \<noteq> None")
    case True
    obtain st1 m where m: "match_re isJsonldKeyword True (tk_stream t) = (st1, Some m)" using True by (cases "match_re isJsonldKeyword True (tk_stream t)") auto
    then have "ss_pos (tk_stream t) < ss_pos st1"
      by (auto simp: match_re_def split: option.splits prod.splits if_splits dest: isJsonldKeyword_length)
    then show ?thesis using True m by (simp add: tokenString_def strict_def Let_def)
  next
    case False
    obtain st1 m where m: "(if jsonld cfg \<and> peek (tk_stream t) = [code CHR ''@'']
        then match_re isJsonldKeyword True (tk_stream t) else (tk_stream t, None)) = (st1, m)" by fastforce
    then have m0: "m = None" using False by (auto split: if_splits)
    have s1: "st1 = tk_stream t" using m False m0
      by (auto simp: match_re_def split: if_splits option.splits prod.splits)
    show ?thesis
      using stringLoop_strict [OF lt, of q False] unfolding tokenString_def m Let_def m0 s1
      by (auto simp: strict_def split: prod.split)
  qed
qed

lemma tokenize_ok:
  assumes "in_line t"
  shows "tk_ok t (snd (tokenize cfg f t))"
  using assms by (cases f) (simp_all add: tokenize_def tokenBase_ok tokenString_ok tokenComment_ok tokenQuasi_ok)

lemma tokenize_strict:
  assumes "in_line t" "\<not> eol (tk_stream t)"
  shows "strict t (snd (tokenize cfg f t))"
proof -
  have lt: "ss_pos (tk_stream t) < int (length (ss_string (tk_stream t)))" using assms by (simp add: eol_def)
  show ?thesis
    using tokenBase_strict [OF assms] tokenString_strict [OF assms] commentLoop_strict [OF lt, of False] quasiLoop_strict [OF lt, of False]
    by (cases f) (auto simp: tokenize_def tokenComment_def tokenQuasi_def strict_def Let_def split: prod.split)
qed

text \<open>A token function that does not set the scratch variables changes nothing but the stream.\<close>

lemma tokenString_type: "tk_type (snd (tokenString cfg q t)) \<noteq> None"
  by (auto simp: tokenString_def Let_def split: prod.split)

lemma tokenComment_type: "tk_type (snd (tokenComment t)) \<noteq> None"
  by (auto simp: tokenComment_def Let_def split: prod.split)

lemma tokenQuasi_type: "tk_type (snd (tokenQuasi t)) \<noteq> None"
  by (auto simp: tokenQuasi_def Let_def split: prod.split)

lemma word_operator_type:
  "tk_type (snd (wordToken cfg t)) \<noteq> None" "tk_type (snd (operatorToken t)) \<noteq> None" "tk_type (snd (slashToken t)) \<noteq> None"
  using tokenComment_type by (auto simp: wordToken_def operatorToken_def slashToken_def Let_def split: option.split prod.split)

definition typed :: "tk \<Rightarrow> string option \<times> tk \<Rightarrow> bool" where
  "typed t r \<longleftrightarrow> tk_type (snd r) \<noteq> None \<or> r = (None, t)"

lemma typed_simps [simp]:
  "typed t (ret tp style con t')" "typed t (tokenString cfg q t')" "typed t (tokenQuasi t')" "typed t (wordToken cfg t')"
  "typed t (operatorToken t')" "typed t (slashToken t')" "typed t (numberToken t')" "typed t (None, t)"
  by (simp_all add: typed_def tokenString_type tokenQuasi_type word_operator_type numberToken_def)

lemma tokenChar_typed: "typed t (tokenChar cfg ch t)"
  by (simp add: tokenChar_def)

lemma tokenBase_none:
  assumes "tk_type (snd (tokenBase cfg t)) = None"
  shows "tk_type t = None \<and> tk_state (snd (tokenBase cfg t)) = tk_state t"
proof -
  let ?t1 = "upd_stream (\<lambda>st. fst (next_ch st)) t"
  have "typed ?t1 (tokenBase cfg t)"
    by (auto simp: tokenBase_def Let_def tokenChar_typed split: list.split)
  then have "tokenBase cfg t = (None, ?t1)" using assms by (auto simp: typed_def)
  then show ?thesis using assms by (simp add: upd_stream_def)
qed

section \<open>Calls of the mode keep the invariant\<close>

text \<open>
  Until the first token that a token function recognises, the scratch variables are undefined and
  the stack is empty or the end of an expression statement.
\<close>

definition fresh :: "jsCall \<Rightarrow> bool" where
  "fresh m \<longleftrightarrow> m_type m = None \<and> js_tokenize (m_state m) = TokenBase \<and> js_cc (m_state m) \<in> {[], [Expect '';'', Poplex]}"

definition mode_ok :: "jsCall \<Rightarrow> bool" where
  "mode_ok m \<longleftrightarrow> state_ok (m_state m) \<and> (token_ok (m_type m) (m_content m) \<or> fresh m)"

text \<open>A new state may be used with whatever earlier calls on another state have left in the variables.\<close>

lemma restart_ok: "mode_ok m \<Longrightarrow> mode_ok (m \<lparr> m_state := startState cfg basecolumn \<rparr>)"
  by (auto simp: mode_ok_def fresh_def state_ok_def startState_def lexical_ok_def)

lemma startState_ok: "mode_ok \<lparr> m_type = None, m_content = None, m_state = startState cfg basecolumn \<rparr>"
  by (auto simp: mode_ok_def fresh_def state_ok_def startState_def lexical_ok_def)

lemma keep_tokenize:
  "js_tokenize (cx_state (push_cc cs c)) = js_tokenize (cx_state c)"
  "js_tokenize (cx_state (set_cc cs c)) = js_tokenize (cx_state c)"
  "pushlex tp info c = Some c' \<Longrightarrow> js_tokenize (cx_state c') = js_tokenize (cx_state c)"
  "poplex c = Some c' \<Longrightarrow> js_tokenize (cx_state c') = js_tokenize (cx_state c)"
  by (auto simp: push_cc_def set_cc_def upd_state_def pushlex_def poplex_def Let_def split: list.splits prod.splits)

text \<open>One undefined token from an empty stack.\<close>

lemma parse_fresh_nil:
  assumes "cc_of c = []" "lexical_ok (js_lexical (cx_state c))"
  shows "\<exists>style c'. parseLoop cfg None val c = Some (style, c') \<and> state_ok (cx_state c')
    \<and> cc_of c' \<in> {[], [Expect '';'', Poplex]} \<and> js_tokenize (cx_state c') = js_tokenize (cx_state c)
    \<and> ss_pos (cx_stream c') = ss_pos (cx_stream c) \<and> ss_string (cx_stream c') = ss_string (cx_stream c) \<and> ss_start (cx_stream c') = ss_start (cx_stream c)"
proof (cases "jsonMode cfg")
  case True
  then show ?thesis using assms
    by (subst parseLoop.simps)
       (simp add: next_comb_def call_comb_def expression_def expressionInner_def plainExpression_def results cx_simps
          state_ok_def keep_tokenize Let_def image_iff)
next
  case False
  let ?c1 = "push_cc [Pushlex ''stat'' NoInfo, Expression, Expect '';'', Poplex] (set_cc [] c)"
  have s1: "parseLoop cfg None val c = parseLoop cfg None val ?c1"
    using assms False by (subst parseLoop.simps) (simp add: next_comb_def call_comb_def statement_def pass_def)
  obtain c2 where c2: "pushlex ''stat'' NoInfo (set_cc [Expression, Expect '';'', Poplex] ?c1) = Some c2"
    "lexical_ok (js_lexical (cx_state c2))"
    using pushlex_ok [of "set_cc [Expression, Expect '';'', Poplex] ?c1" "''stat''" NoInfo] assms by (auto simp: cx_simps)
  note p = pushlex_simps [OF c2(1)] keep_tokenize(3) [OF c2(1)]
  have s2: "parseLoop cfg None val ?c1 = parseLoop cfg None val c2"
    by (subst parseLoop.simps) (simp add: next_comb_def call_comb_def cx_simps assms silently_def c2)
  have s3: "parseLoop cfg None val c2 =
      Some (resultStyle None val (push_cc [] (set_cc [Expect '';'', Poplex] c2)), push_cc [] (set_cc [Expect '';'', Poplex] c2))"
    using p by (subst parseLoop.simps)
      (simp add: next_comb_def call_comb_def expression_def expressionInner_def plainExpression_def cont_def Let_def
        cx_simps image_iff)
  have "js_lexical (cx_state c) \<noteq> []" using assms(2) by (simp add: lexical_ok_def)
  then show ?thesis unfolding s1 s2 s3 using p c2(2)
    by (simp add: state_ok_def cx_simps keep_tokenize)
qed

lemma parse_fresh:
  assumes "cc_of c \<in> {[], [Expect '';'', Poplex]}" "state_ok (cx_state c)"
  shows "\<exists>style c'. parseLoop cfg None val c = Some (style, c') \<and> state_ok (cx_state c')
    \<and> cc_of c' \<in> {[], [Expect '';'', Poplex]} \<and> js_tokenize (cx_state c') = js_tokenize (cx_state c)
    \<and> ss_pos (cx_stream c') = ss_pos (cx_stream c) \<and> ss_string (cx_stream c') = ss_string (cx_stream c) \<and> ss_start (cx_stream c') = ss_start (cx_stream c)"
proof (cases "cc_of c = []")
  case True
  then show ?thesis using parse_fresh_nil assms(2) by (simp add: state_ok_def)
next
  case False
  then have cc: "cc_of c = [Expect '';'', Poplex]" using assms(1) by simp
  have l: "lexical_ok (js_lexical (cx_state c))" using assms(2) by (simp add: state_ok_def)
  let ?c1 = "push_cc [] (set_cc [Poplex] c)"
  have s1: "parseLoop cfg None val c = parseLoop cfg None val ?c1"
    using cc by (subst parseLoop.simps) (simp add: next_comb_def call_comb_def expect_def pass_def)
  obtain c2 where c2: "poplex (set_cc [] ?c1) = Some c2" "lexical_ok (js_lexical (cx_state c2))"
    using poplex_ok [of "set_cc [] ?c1"] l by (auto simp: cx_simps)
  note p = poplex_simps [OF c2(1)] keep_tokenize(4) [OF c2(1)]
  have s2: "parseLoop cfg None val ?c1 = parseLoop cfg None val c2"
    by (subst parseLoop.simps) (simp add: next_comb_def call_comb_def cx_simps silently_def c2)
  have "cc_of c2 = []" using p by (simp add: cx_simps)
  from parse_fresh_nil [OF this c2(2), of cfg val] show ?thesis unfolding s1 s2
    using p by (simp add: cx_simps keep_tokenize)
qed

lemma startLine_ok:
  assumes "state_ok s"
  shows "state_ok (startLine cfg stream s)"
    and "js_tokenize (startLine cfg stream s) = js_tokenize s" "js_cc (startLine cfg stream s) = js_cc s"
proof -
  have f: "js_lexical (findFatArrow cfg stream s) = js_lexical s" "js_cc (findFatArrow cfg stream s) = js_cc s"
    "js_context (findFatArrow cfg stream s) = js_context s" "js_tokenize (findFatArrow cfg stream s) = js_tokenize s" for s
    by (auto simp: findFatArrow_def Let_def split: option.split prod.split)
  show "state_ok (startLine cfg stream s)"
    using set_align_ok [OF assms, of False] by (simp add: startLine_def f state_ok_def)
       (use assms in \<open>auto simp: state_ok_def\<close>)
  show "js_tokenize (startLine cfg stream s) = js_tokenize s" "js_cc (startLine cfg stream s) = js_cc s"
    by (auto simp: startLine_def f set_align_def split: list.split)
qed

lemma eatSpace_pos: "snd (eatSpace st) \<Longrightarrow> ss_pos st < ss_pos (fst (eatSpace st))"
  by (simp add: eatSpace_def Let_def)

lemma eatSpace_none:
  assumes "\<not> snd (eatSpace st)" 
  shows "fst (eatSpace st) = st"
proof -
  have "moves st (spaceLoop st)" by (rule spaceLoop_moves)
  moreover have "ss_pos (spaceLoop st) \<le> ss_pos st" using assms by (simp add: eatSpace_def Let_def)
  ultimately have "spaceLoop st = st" unfolding moves_def by auto
  then show ?thesis by (simp add: eatSpace_def Let_def)
qed

text \<open>A call of the mode that succeeds, with the stream still in the same line.\<close>

definition advances :: "StringStream \<Rightarrow> StringStream \<Rightarrow> bool" where
  "advances st st' \<longleftrightarrow> ss_string st' = ss_string st \<and> ss_start st' = ss_start st \<and> ss_pos st < ss_pos st' \<and> ss_pos st' \<le> int (length (ss_string st))"

lemma parse_ok:
  assumes "state_ok s" "token_ok ty con \<or> ty = None \<and> js_tokenize s = TokenBase \<and> js_cc s \<in> {[], [Expect '';'', Poplex]}"
  shows "\<exists>style' c. parseJS cfg s style ty con st = Some (style', c) \<and> ss_pos (cx_stream c) = ss_pos st
    \<and> ss_string (cx_stream c) = ss_string st \<and> ss_start (cx_stream c) = ss_start st \<and> state_ok (cx_state c)
    \<and> (token_ok ty con \<or> ty = None \<and> js_tokenize (cx_state c) = TokenBase \<and> js_cc (cx_state c) \<in> {[], [Expect '';'', Poplex]})"
proof (cases "token_ok ty con")
  case True
  from parseJS_ok [OF assms(1) True, of cfg style st] True show ?thesis by blast
next
  case False
  let ?c = "\<lparr> cx_state = set_align True s, cx_stream = st, cx_marked = None, cx_style = style \<rparr>"
  have f: "ty = None" "js_tokenize s = TokenBase" "js_cc s \<in> {[], [Expect '';'', Poplex]}" using assms(2) False by auto
  have a: "js_cc (set_align True s) = js_cc s" "js_tokenize (set_align True s) = js_tokenize s"
    by (auto simp: set_align_def split: list.split)
  have l: "js_lexical s \<noteq> []" using assms(1) by (simp add: state_ok_def lexical_ok_def)
  have "cc_of ?c \<in> {[], [Expect '';'', Poplex]}" "state_ok (cx_state ?c)"
    using f a set_align_ok [OF assms(1)] by simp_all
  from parse_fresh [OF this, of cfg con] show ?thesis
    using f a l by (auto simp: parseJS_def)
qed

lemma token_step:
  assumes "mode_ok m" "0 \<le> ss_pos st" "\<not> eol st"
  shows "\<exists>style st' m'. token cfg st m = Some (style, st', m') \<and> mode_ok m' \<and> advances st st'"
proof -
  define s where "s = startLine cfg st (m_state m)"
  have "state_ok (m_state m)" using assms(1) by (simp add: mode_ok_def)
  note sl = startLine_ok [OF this, of cfg st, folded s_def]
  have s_ok: "state_ok s" using assms(1) sl(1) by (simp add: mode_ok_def)
  define sp where "sp = (if js_tokenize s \<noteq> TokenComment then eatSpace st else (st, False))"
  show ?thesis
  proof (cases "snd sp")
    case True
    then have e: "snd (eatSpace st)" "sp = eatSpace st" by (auto simp: sp_def split: if_splits)
    have "mode_ok (m \<lparr> m_state := s \<rparr>)" using assms(1) s_ok sl by (auto simp: mode_ok_def fresh_def)
    moreover have "advances st (fst sp)"
      using eatSpace_pos [OF e(1)] eatSpace_moves [of st] assms(3) unfolding e(2)
      by (auto simp: advances_def eol_def dest: moves_simps)
    moreover have "token cfg st m = Some (None, fst sp, m \<lparr> m_state := s \<rparr>)"
      using True unfolding token_def Let_def s_def [symmetric] sp_def [symmetric] by (simp add: case_prod_unfold)
    ultimately show ?thesis by blast
  next
    case False
    then have sp: "sp = (st, False)" using eatSpace_none [of st] by (cases "eatSpace st") (auto simp: sp_def split: if_splits)
    define t0 where "t0 = \<lparr> tk_type = m_type m, tk_content = m_content m, tk_stream = st, tk_state = s \<rparr>"
    obtain style t where t: "tokenize cfg (js_tokenize s) t0 = (style, t)" by fastforce
    have il: "in_line t0" using assms by (simp add: t0_def in_line_def eol_def)
    have ok: "tk_ok t0 t" using tokenize_ok [OF il, of cfg "js_tokenize s"] t by simp
    have adv: "advances st (tk_stream t)"
      using tokenize_strict [OF il, of cfg "js_tokenize s"] t ok assms(3)
      by (auto simp: strict_def tk_ok_def t0_def advances_def eol_def dest: moves_simps)
    let ?ty = "tk_type t" and ?con = "tk_content t"
    let ?s = "tk_state t \<lparr> js_lastType := lastType_of ?ty ?con \<rparr>"
    obtain f where f: "tk_state t = s \<lparr> js_tokenize := f \<rparr>" using ok by (auto simp: tk_ok_def t0_def)
    have s'_ok: "state_ok ?s" using s_ok f by (simp add: state_ok_def)
    have inv: "token_ok ?ty ?con \<or> ?ty = None \<and> js_tokenize ?s = TokenBase \<and> js_cc ?s \<in> {[], [Expect '';'', Poplex]}"
    proof (cases "token_ok ?ty ?con")
      case False
      then have same: "?ty = m_type m" "?con = m_content m" using ok by (auto simp: tk_ok_def t0_def)
      then have fr: "fresh m" using False assms(1) by (auto simp: mode_ok_def)
      then have "js_tokenize s = TokenBase" using sl by (simp add: fresh_def)
      then have b: "tokenBase cfg t0 = (style, t)" using t by (simp add: tokenize_def)
      have "?ty = None" using same fr by (simp add: fresh_def)
      then have "tk_state t = s" using tokenBase_none [of cfg t0] b by (simp add: t0_def)
      then show ?thesis using fr sl same by (auto simp: fresh_def)
    qed simp
    have tok: "token cfg st m = (if ?ty = Some ''comment'' then Some (style, tk_stream t, \<lparr> m_type = ?ty, m_content = ?con, m_state = tk_state t \<rparr>)
        else map_option (\<lambda>(style', c). (style', cx_stream c, \<lparr> m_type = ?ty, m_content = ?con, m_state = cx_state c \<rparr>))
          (parseJS cfg ?s style ?ty ?con (tk_stream t)))"
      unfolding token_def Let_def s_def [symmetric] sp_def [symmetric] sp prod.case
      using t by (simp add: t0_def)
    show ?thesis
    proof (cases "?ty = Some ''comment''")
      case True
      then have "mode_ok \<lparr> m_type = ?ty, m_content = ?con, m_state = tk_state t \<rparr>"
        using s_ok f inv by (auto simp: mode_ok_def state_ok_def)
      then show ?thesis using tok True adv by simp
    next
      case False
      from parse_ok [OF s'_ok inv, of cfg style "tk_stream t"] obtain style' c where
        c: "parseJS cfg ?s style ?ty ?con (tk_stream t) = Some (style', c)" "ss_pos (cx_stream c) = ss_pos (tk_stream t)"
          "ss_string (cx_stream c) = ss_string (tk_stream t) \<and> ss_start (cx_stream c) = ss_start (tk_stream t)" "state_ok (cx_state c)"
          "token_ok ?ty ?con \<or> ?ty = None \<and> js_tokenize (cx_state c) = TokenBase \<and> js_cc (cx_state c) \<in> {[], [Expect '';'', Poplex]}"
        by blast
      have "mode_ok \<lparr> m_type = ?ty, m_content = ?con, m_state = cx_state c \<rparr>"
        using c(4,5) by (auto simp: mode_ok_def fresh_def)
      moreover have "advances st (cx_stream c)" using adv c(2,3) by (simp add: advances_def)
      ultimately show ?thesis using tok False c(1) by simp
    qed
  qed
qed

end
