(* ===== verification/Highlight.thy ===== *)
theory Highlight
  imports Strings
begin

text \<open>
  Highlighting (codemirror.js): running a mode over a line, the array of styles with the overlays
  applied, and the states saved behind lines. A mode is a record of its functions; a call that
  raises an error gives \<open>None\<close>. Styles are strings, \<open>None\<close> for null and undefined.

  \<open>innerMode\<close> is not modelled: the modes have none.
\<close>

section \<open>Modes\<close>

type_synonym 's token_fun = "StringStream \<Rightarrow> 's \<Rightarrow> (string option \<times> StringStream \<times> 's) option"

record 's hmode =
  hm_token :: "'s token_fun"
  hm_blankLine :: "('s \<Rightarrow> string option \<times> 's) option"
  hm_flattenSpans :: "bool option"
  hm_name :: "string option"
  hm_startState :: "'s"

record hoptions =
  o_tabSize :: int
  o_flattenSpans :: bool
  o_maxHighlightLength :: int
  o_addModeClass :: bool

section \<open>Line classes in styles\<close>

record lineClasses =
  bgClass :: "string option"
  textClass :: "string option"

definition space_char :: "char \<Rightarrow> bool" where
  "space_char c \<longleftrightarrow> is_space (of_char c)"

text \<open>\<open>line-(background-)?(\S+)\<close> at the front: length of the match and the two groups.\<close>

definition line_class_body :: "string \<Rightarrow> (nat \<times> bool \<times> string) option" where
  "line_class_body s =
     (if take 5 s = ''line-'' then
        (let r = drop 5 s; cls = takeWhile (\<lambda>c. \<not> space_char c) (drop 11 r); cls' = takeWhile (\<lambda>c. \<not> space_char c) r
         in if take 11 r = ''background-'' \<and> cls \<noteq> [] then Some (16 + length cls, True, cls)
            else if cls' \<noteq> [] then Some (5 + length cls', False, cls')
            else None)
      else None)"

definition line_class_spaced :: "string \<Rightarrow> (nat \<times> bool \<times> string) option" where
  "line_class_spaced s =
     (let n = length (takeWhile space_char s)
      in if n = 0 then None else map_option (\<lambda>(k, b, c). (n + k, b, c)) (line_class_body (drop n s)))"

fun line_class_search :: "nat \<Rightarrow> string \<Rightarrow> (nat \<times> nat \<times> bool \<times> string) option" where
  "line_class_search i [] = None"
| "line_class_search i (x # s) =
     (case (case (if i = 0 then line_class_body (x # s) else None) of
              Some m \<Rightarrow> Some m | None \<Rightarrow> line_class_spaced (x # s)) of
        Some m \<Rightarrow> Some (i, m)
      | None \<Rightarrow> line_class_search (Suc i) s)"

lemma line_class_body_pos: "line_class_body s = Some (k, b, c) \<Longrightarrow> 0 < k"
  by (auto simp: line_class_body_def Let_def split: if_splits)

lemma line_class_search_pos: "line_class_search i s = Some (j, k, b, c) \<Longrightarrow> 0 < k \<and> i \<le> j \<and> j < i + length s"
proof (induction i s rule: line_class_search.induct)
  case (2 i x s)
  then show ?case
    by (auto simp: line_class_spaced_def Let_def split: option.splits if_splits dest: line_class_body_pos)
qed simp

definition add_class :: "(string \<Rightarrow> string \<Rightarrow> bool) \<Rightarrow> string \<Rightarrow> string option \<Rightarrow> string option" where
  "add_class reTest cls old =
     (case old of
        None \<Rightarrow> Some cls
      | Some o1 \<Rightarrow>
          if \<not> reTest (''(?:^|s)'' @ cls @ ''(?:$|s)'') o1 then Some (o1 @ '' '' @ cls) else Some o1)"

text \<open>
  \<open>reTest pattern text\<close> is \<open>new RegExp(pattern).test(text)\<close>. The source writes the backslashes of
  the pattern in a string literal, where they are dropped: the pattern has the letter \<open>s\<close>.
\<close>

function extractLineClasses ::
    "(string \<Rightarrow> string \<Rightarrow> bool) \<Rightarrow> string \<Rightarrow> lineClasses \<Rightarrow> string \<times> lineClasses" where
  "extractLineClasses reTest type output =
     (case line_class_search 0 type of
        None \<Rightarrow> (type, output)
      | Some (index, k, bg, cls) \<Rightarrow>
          extractLineClasses reTest (take index type @ drop (index + k) type)
            (if bg then output \<lparr> bgClass := add_class reTest cls (bgClass output) \<rparr>
             else output \<lparr> textClass := add_class reTest cls (textClass output) \<rparr>))"
  by pat_completeness auto
termination
  by (relation "measure (\<lambda>(f, type, out). length type)") (auto dest: line_class_search_pos)

declare extractLineClasses.simps [simp del]

definition extractStyle ::
    "(string \<Rightarrow> string \<Rightarrow> bool) \<Rightarrow> string option \<Rightarrow> lineClasses \<Rightarrow> string option \<times> lineClasses" where
  "extractStyle reTest style output =
     (case style of
        None \<Rightarrow> (None, output)
      | Some s \<Rightarrow> if s = [] then (Some s, output)
                  else (case extractLineClasses reTest s output of (s', out') \<Rightarrow> (Some s', out')))"

section \<open>Running a mode\<close>

definition callBlankLine :: "'s hmode \<Rightarrow> 's \<Rightarrow> string option \<times> 's" where
  "callBlankLine mode state = (case hm_blankLine mode of Some f \<Rightarrow> f state | None \<Rightarrow> (None, state))"

fun readTokenLoop :: "nat \<Rightarrow> 's hmode \<Rightarrow> StringStream \<Rightarrow> 's \<Rightarrow> (string option \<times> StringStream \<times> 's) option" where
  "readTokenLoop 0 mode stream state = None"
| "readTokenLoop (Suc n) mode stream state =
     (case hm_token mode stream state of
        None \<Rightarrow> None
      | Some (style, stream', state') \<Rightarrow>
          if ss_pos stream' > ss_start stream' then Some (style, stream', state')
          else readTokenLoop n mode stream' state')"

definition readToken :: "'s hmode \<Rightarrow> StringStream \<Rightarrow> 's \<Rightarrow> (string option \<times> StringStream \<times> 's) option" where
  "readToken = readTokenLoop 10"

text \<open>
  \<open>processLine\<close>. A mode that changes the line or the token's start could keep the loop from
  ending, so the loop is a partial function: \<open>None\<close> when it raises an error or does not end.
\<close>

partial_function (option) processLoop :: "hoptions \<Rightarrow> 's hmode \<Rightarrow> StringStream \<Rightarrow> 's \<Rightarrow> 's option" where
  "processLoop opts mode stream state =
     (if \<not> eol stream \<and> ss_pos stream \<le> o_maxHighlightLength opts
      then Option.bind (readToken mode stream state)
             (\<lambda>(style, stream', state'). processLoop opts mode (stream' \<lparr> ss_start := ss_pos stream' \<rparr>) state')
      else Some state)"

definition processLine :: "hoptions \<Rightarrow> 's hmode \<Rightarrow> jstr \<Rightarrow> 's \<Rightarrow> int \<Rightarrow> 's option" where
  "processLine opts mode txt state startAt =
     (let stream = StringStream txt (Some (o_tabSize opts)) \<lparr> ss_start := startAt, ss_pos := startAt \<rparr>;
          state' = (if txt = [] then snd (callBlankLine mode state) else state)
      in processLoop opts mode stream state')"

text \<open>
  The calls of the callback \<open>f\<close> of \<open>runMode\<close> are collected in the order they are made. The record is
  the local state of its loop.
\<close>

record 's run =
  r_curStart :: int
  r_curStyle :: "string option"
  r_stream :: StringStream
  r_state :: 's
  r_classes :: lineClasses
  r_flatten :: bool
  r_calls :: "(int \<times> string option) list"

definition modeClass :: "hoptions \<Rightarrow> 's hmode \<Rightarrow> string option \<Rightarrow> string option" where
  "modeClass opts mode style =
     (if o_addModeClass opts then
        (case hm_name mode of
           None \<Rightarrow> style
         | Some mName \<Rightarrow>
             if mName = [] then style
             else Some (''m-'' @ (case style of None \<Rightarrow> mName | Some s \<Rightarrow> if s = [] then mName else mName @ '' '' @ s)))
      else style)"

text \<open>The part of an iteration behind the reading of the token.\<close>

definition runEmit :: "string option \<Rightarrow> 's run \<Rightarrow> 's run" where
  "runEmit style r =
     (let r1 = (if \<not> r_flatten r \<or> r_curStyle r \<noteq> style
                then r \<lparr> r_calls := (if r_curStart r < ss_start (r_stream r)
                                      then r_calls r @ [(ss_start (r_stream r), r_curStyle r)] else r_calls r),
                         r_curStart := ss_start (r_stream r), r_curStyle := style \<rparr>
                else r)
      in r1 \<lparr> r_stream := (r_stream r1) \<lparr> ss_start := ss_pos (r_stream r1) \<rparr> \<rparr>)"

definition runStep ::
    "(string \<Rightarrow> string \<Rightarrow> bool) \<Rightarrow> hoptions \<Rightarrow> 's hmode \<Rightarrow> ('s \<Rightarrow> int \<Rightarrow> 's option) \<Rightarrow> bool \<Rightarrow> 's run \<Rightarrow> 's run option" where
  "runStep reTest opts mode process forceToEnd r =
     (if ss_pos (r_stream r) > o_maxHighlightLength opts
      then Option.bind (if forceToEnd then process (r_state r) (ss_pos (r_stream r)) else Some (r_state r))
             (\<lambda>state. Some (runEmit (modeClass opts mode None)
                (r \<lparr> r_flatten := False, r_state := state,
                     r_stream := (r_stream r) \<lparr> ss_pos := int (length (ss_string (r_stream r))) \<rparr> \<rparr>)))
      else Option.bind (readToken mode (r_stream r) (r_state r))
             (\<lambda>(style, stream, state).
                case extractStyle reTest style (r_classes r) of
                  (style', classes) \<Rightarrow>
                    Some (runEmit (modeClass opts mode style')
                      (r \<lparr> r_stream := stream, r_state := state, r_classes := classes \<rparr>))))"

partial_function (option) runLoop ::
    "(string \<Rightarrow> string \<Rightarrow> bool) \<Rightarrow> hoptions \<Rightarrow> 's hmode \<Rightarrow> ('s \<Rightarrow> int \<Rightarrow> 's option) \<Rightarrow> bool \<Rightarrow> 's run \<Rightarrow> 's run option" where
  "runLoop reTest opts mode process forceToEnd r =
     (if \<not> eol (r_stream r)
      then Option.bind (runStep reTest opts mode process forceToEnd r) (runLoop reTest opts mode process forceToEnd)
      else Some r)"

text \<open>The last loop: the rest of the line in pieces of at most 50000 characters.\<close>

function flushLoop :: "int \<Rightarrow> string option \<Rightarrow> int \<Rightarrow> (int \<times> string option) list" where
  "flushLoop curStart curStyle p =
     (if curStart < p
      then (let q = min p (curStart + 50000) in (q, curStyle) # flushLoop q curStyle p)
      else [])"
  by pat_completeness auto
termination
  by (relation "measure (\<lambda>(s, c, p). nat (p - s))") auto

declare flushLoop.simps [simp del]

definition runMode ::
    "(string \<Rightarrow> string \<Rightarrow> bool) \<Rightarrow> hoptions \<Rightarrow> jstr \<Rightarrow> 's hmode \<Rightarrow> 's \<Rightarrow> ('s \<Rightarrow> int \<Rightarrow> 's option) \<Rightarrow> lineClasses \<Rightarrow> bool
     \<Rightarrow> ((int \<times> string option) list \<times> 's \<times> lineClasses) option" where
  "runMode reTest opts txt mode state process classes forceToEnd =
     (let flatten = (case hm_flattenSpans mode of Some b \<Rightarrow> b | None \<Rightarrow> o_flattenSpans opts);
          stream = StringStream txt (Some (o_tabSize opts));
          (state1, classes1) =
            (if txt = [] then
               (case callBlankLine mode state of (st, s) \<Rightarrow> (s, snd (extractStyle reTest st classes)))
             else (state, classes))
      in map_option
           (\<lambda>r. (r_calls r @ flushLoop (r_curStart r) (r_curStyle r) (ss_pos (r_stream r)), r_state r, r_classes r))
           (runLoop reTest opts mode process forceToEnd
              \<lparr> r_curStart = 0, r_curStyle = None, r_stream = stream, r_state = state1,
                r_classes = classes1, r_flatten = flatten, r_calls = [] \<rparr>))"

section \<open>Overlays\<close>

text \<open>
  The styles array holds, behind the generation of the mode, pairs of an end position and a style;
  the model keeps the pairs. Index \<open>i\<close> of the array is index \<open>(i - 1) / 2\<close> of the list.
\<close>

type_synonym styles = "(int \<times> string option) list"

text \<open>
  The first loop of an overlay's callback: split the pieces so that one ends at \<open>e\<close>. \<open>None\<close> where it
  would read behind the array, which the styles of a line never make it do (\<open>overlaySplit_tiles\<close>).
\<close>

function overlaySplit :: "styles \<Rightarrow> nat \<Rightarrow> int \<Rightarrow> int \<Rightarrow> (styles \<times> nat \<times> int) option" where
  "overlaySplit st i at0 e =
     (if at0 < e then
        (if i < length st
         then (let i_end = fst (st ! i); sty = snd (st ! i);
                   st' = (if i_end > e then splice i 1 [(e, sty), (i_end, sty)] st else st)
               in overlaySplit st' (Suc i) (min e i_end) e)
         else None)
      else Some (st, i, at0))"
  by pat_completeness auto
termination
proof (relation "measure (\<lambda>(st, i, a, e). (if a < e then 1 else 0) + (length st - i))", goal_cases)
  case (2 st i at0 e i_end sty st')
  then show ?case by (auto simp: splice_def)
qed simp

declare overlaySplit.simps [simp del]

definition overlayStyle :: "string \<Rightarrow> string option \<Rightarrow> string option" where
  "overlayStyle style cur =
     Some ((case cur of None \<Rightarrow> [] | Some c \<Rightarrow> if c = [] then [] else c @ '' '') @ ''cm-overlay '' @ style)"

definition overlayCall :: "bool \<Rightarrow> int \<times> string option \<Rightarrow> styles \<times> nat \<times> int \<Rightarrow> (styles \<times> nat \<times> int) option" where
  "overlayCall opaque call v =
     (case (v, call) of ((st, i, at0), (e, style)) \<Rightarrow>
        map_option (\<lambda>(st1, i1, at1).
          case style of
             None \<Rightarrow> (st1, i1, at1)
           | Some s \<Rightarrow>
               if s = [] then (st1, i1, at1)
               else if opaque then (splice i (i1 - i) [(e, Some (''cm-overlay '' @ s))] st1, i + 1, at1)
               else (map (\<lambda>(k, p). if i \<le> k \<and> k < i1 then (fst p, overlayStyle s (snd p)) else p)
                       (zip [0..<length st1] st1), i1, at1))
        (overlaySplit st i at0 e))"

fun overlayCalls :: "bool \<Rightarrow> (int \<times> string option) list \<Rightarrow> styles \<times> nat \<times> int \<Rightarrow> (styles \<times> nat \<times> int) option" where
  "overlayCalls opaque [] v = Some v"
| "overlayCalls opaque (call # calls) v = Option.bind (overlayCall opaque call v) (overlayCalls opaque calls)"

record 'o overlay =
  ov_mode :: "'o hmode"
  ov_opaque :: bool
  ov_state :: 'o

definition runOverlay ::
    "(string \<Rightarrow> string \<Rightarrow> bool) \<Rightarrow> hoptions \<Rightarrow> jstr \<Rightarrow> 'o overlay \<Rightarrow> styles \<times> lineClasses \<Rightarrow> (styles \<times> lineClasses) option" where
  "runOverlay reTest opts txt ov v =
     Option.bind (runMode reTest opts txt (ov_mode ov) (ov_state ov) (\<lambda>s n. Some s) (snd v) False)
       (\<lambda>(calls, s, classes).
          map_option (\<lambda>(st, i, at0). (st, classes)) (overlayCalls (ov_opaque ov) calls (fst v, 0, 0)))"

fun runOverlays ::
    "(string \<Rightarrow> string \<Rightarrow> bool) \<Rightarrow> hoptions \<Rightarrow> jstr \<Rightarrow> 'o overlay list \<Rightarrow> styles \<times> lineClasses \<Rightarrow> (styles \<times> lineClasses) option" where
  "runOverlays reTest opts txt [] v = Some v"
| "runOverlays reTest opts txt (ov # ovs) v = Option.bind (runOverlay reTest opts txt ov v) (runOverlays reTest opts txt ovs)"

text \<open>\<open>highlightLine\<close>: the styles, the line's classes if there are any, and the state behind the line.\<close>

definition highlightLine ::
    "(string \<Rightarrow> string \<Rightarrow> bool) \<Rightarrow> hoptions \<Rightarrow> 's hmode \<Rightarrow> 'o overlay list \<Rightarrow> jstr \<Rightarrow> 's \<Rightarrow> bool
     \<Rightarrow> (styles \<times> lineClasses option \<times> 's) option" where
  "highlightLine reTest opts mode overlays txt state forceToEnd =
     Option.bind (runMode reTest opts txt mode state (processLine opts mode txt) \<lparr> bgClass = None, textClass = None \<rparr> forceToEnd)
       (\<lambda>(st, state', classes).
          map_option (\<lambda>(st', classes'). (st', if bgClass classes' \<noteq> None \<and> bgClass classes' \<noteq> Some [] \<or>
                        textClass classes' \<noteq> None \<and> textClass classes' \<noteq> Some [] then Some classes' else None, state'))
            (runOverlays reTest opts txt overlays (st, classes)))"

section \<open>Modes that advance\<close>

text \<open>The pieces of a line: their ends increase from one position to another.\<close>

fun tiles :: "int \<Rightarrow> styles \<Rightarrow> int \<Rightarrow> bool" where
  "tiles a [] b \<longleftrightarrow> a = b"
| "tiles a ((e, s) # st) b \<longleftrightarrow> a < e \<and> tiles e st b"

lemma tiles_le: "tiles a st b \<Longrightarrow> a \<le> b"
  by (induction a st b rule: tiles.induct) auto

lemma tiles_append: "tiles a (xs @ ys) b \<longleftrightarrow> (\<exists>c. tiles a xs c \<and> tiles c ys b)"
  by (induction xs arbitrary: a) auto

lemma tiles_snoc [simp]: "tiles a (xs @ [(e, s)]) b \<longleftrightarrow> (\<exists>c. tiles a xs c \<and> c < e \<and> b = e)"
  by (auto simp: tiles_append)

text \<open>
  The contract between a mode and the code that runs it: in a state of the mode, inside a line, a
  call of \<open>token\<close> succeeds, takes at least one character, and leads to a state of the mode.
\<close>

locale advancing_mode =
  fixes mode :: "'s hmode" and inv :: "'s \<Rightarrow> bool"
  assumes start_inv: "inv (hm_startState mode)"
    and blank_inv: "inv s \<Longrightarrow> inv (snd (callBlankLine mode s))"
    and token_advances: "inv s \<Longrightarrow> 0 \<le> ss_pos st \<Longrightarrow> \<not> eol st \<Longrightarrow>
      \<exists>style st' s'. hm_token mode st s = Some (style, st', s') \<and> inv s' \<and> ss_string st' = ss_string st
        \<and> ss_start st' = ss_start st \<and> ss_pos st < ss_pos st' \<and> ss_pos st' \<le> int (length (ss_string st))"
begin

lemma readToken_advances:
  assumes "inv s" "0 \<le> ss_pos st" "\<not> eol st" "ss_start st = ss_pos st"
  shows "\<exists>style st' s'. readToken mode st s = Some (style, st', s') \<and> inv s' \<and> ss_string st' = ss_string st
    \<and> ss_start st' = ss_start st \<and> ss_pos st < ss_pos st' \<and> ss_pos st' \<le> int (length (ss_string st))"
proof -
  from token_advances [OF assms(1-3)] obtain style st' s' where
    t: "hm_token mode st s = Some (style, st', s')" "inv s'" "ss_string st' = ss_string st"
      "ss_start st' = ss_start st" "ss_pos st < ss_pos st'" "ss_pos st' \<le> int (length (ss_string st))" by blast
  have "readToken mode st s = Some (style, st', s')"
    unfolding readToken_def using t assms(4) by (simp add: numeral_eq_Suc)
  with t show ?thesis by blast
qed

lemma processLoop_returns:
  assumes "inv s" "0 \<le> ss_pos st" "ss_pos st \<le> int (length (ss_string st))" "ss_start st = ss_pos st"
  shows "\<exists>s'. processLoop opts mode st s = Some s' \<and> inv s'"
  using assms
proof (induction "nat (int (length (ss_string st)) - ss_pos st)" arbitrary: st s rule: less_induct)
  case less
  show ?case
  proof (cases "\<not> eol st \<and> ss_pos st \<le> o_maxHighlightLength opts")
    case True
    from readToken_advances [of s st] less.prems True obtain style st' s' where
      t: "readToken mode st s = Some (style, st', s')" "inv s'" "ss_string st' = ss_string st"
        "ss_pos st < ss_pos st'" "ss_pos st' \<le> int (length (ss_string st))" by blast
    let ?st = "st' \<lparr> ss_start := ss_pos st' \<rparr>"
    from less.hyps [of ?st s'] t less.prems have "\<exists>s''. processLoop opts mode ?st s' = Some s'' \<and> inv s''" by simp
    with True t show ?thesis by (subst processLoop.simps) simp
  next
    case False
    with less.prems show ?thesis by (subst processLoop.simps) auto
  qed
qed

lemma processLine_returns:
  assumes "inv s" "0 \<le> startAt" "startAt \<le> int (length txt)"
  shows "\<exists>s'. processLine opts mode txt s startAt = Some s' \<and> inv s'"
  using assms blank_inv [of s]
  unfolding processLine_def Let_def
  by (intro processLoop_returns) (auto simp: StringStream_def)

definition process_ok :: "jstr \<Rightarrow> ('s \<Rightarrow> int \<Rightarrow> 's option) \<Rightarrow> bool" where
  "process_ok txt process \<longleftrightarrow>
     (\<forall>s n. inv s \<longrightarrow> 0 \<le> n \<longrightarrow> n \<le> int (length txt) \<longrightarrow> (\<exists>s'. process s n = Some s' \<and> inv s'))"

lemma process_ok_processLine: "process_ok txt (processLine opts mode txt)"
  unfolding process_ok_def using processLine_returns by blast

lemma process_ok_same: "process_ok txt (\<lambda>s n. Some s)"
  unfolding process_ok_def by blast

definition run_ok :: "jstr \<Rightarrow> 's run \<Rightarrow> bool" where
  "run_ok txt r \<longleftrightarrow> inv (r_state r) \<and> ss_string (r_stream r) = txt \<and> ss_start (r_stream r) = ss_pos (r_stream r)
     \<and> 0 \<le> r_curStart r \<and> r_curStart r \<le> ss_pos (r_stream r) \<and> ss_pos (r_stream r) \<le> int (length txt)
     \<and> tiles 0 (r_calls r) (r_curStart r)"

lemma runEmit_ok:
  assumes "inv (r_state r)" "ss_string (r_stream r) = txt" "0 \<le> r_curStart r" "r_curStart r \<le> ss_start (r_stream r)"
    "ss_start (r_stream r) \<le> ss_pos (r_stream r)" "ss_pos (r_stream r) \<le> int (length txt)" "tiles 0 (r_calls r) (r_curStart r)"
  shows "run_ok txt (runEmit style r) \<and> ss_pos (r_stream (runEmit style r)) = ss_pos (r_stream r)"
  using assms by (auto simp: runEmit_def run_ok_def Let_def)

lemma runStep_ok:
  assumes "run_ok txt r" "\<not> eol (r_stream r)"
    and process: "process_ok txt process"
  shows "\<exists>r'. runStep reTest opts mode process forceToEnd r = Some r' \<and> run_ok txt r'
    \<and> ss_pos (r_stream r) < ss_pos (r_stream r')"
proof (cases "ss_pos (r_stream r) > o_maxHighlightLength opts")
  case True
  have "inv (r_state r)" "0 \<le> ss_pos (r_stream r)" "ss_pos (r_stream r) \<le> int (length txt)"
    using assms(1) by (auto simp: run_ok_def)
  then have p: "\<exists>s'. process (r_state r) (ss_pos (r_stream r)) = Some s' \<and> inv s'"
    using process unfolding process_ok_def by blast
  obtain s where s: "(if forceToEnd then process (r_state r) (ss_pos (r_stream r)) else Some (r_state r)) = Some s" "inv s"
    using p assms(1) by (cases forceToEnd) (auto simp: run_ok_def)
  let ?r = "r \<lparr> r_flatten := False, r_state := s,
    r_stream := (r_stream r) \<lparr> ss_pos := int (length (ss_string (r_stream r))) \<rparr> \<rparr>"
  have "run_ok txt (runEmit (modeClass opts mode None) ?r)
      \<and> ss_pos (r_stream (runEmit (modeClass opts mode None) ?r)) = ss_pos (r_stream ?r)"
    using assms(1) s(2) by (intro runEmit_ok) (auto simp: run_ok_def)
  then show ?thesis using True s assms(2) by (auto simp: runStep_def eol_def)
next
  case False
  from readToken_advances [of "r_state r" "r_stream r"] assms(1,2) obtain style st s where
    t: "readToken mode (r_stream r) (r_state r) = Some (style, st, s)" "inv s" "ss_string st = ss_string (r_stream r)"
      "ss_start st = ss_start (r_stream r)" "ss_pos (r_stream r) < ss_pos st" "ss_pos st \<le> int (length (ss_string (r_stream r)))"
    by (auto simp: run_ok_def)
  obtain style' classes where e: "extractStyle reTest style (r_classes r) = (style', classes)" by fastforce
  let ?r = "r \<lparr> r_stream := st, r_state := s, r_classes := classes \<rparr>"
  have "run_ok txt (runEmit (modeClass opts mode style') ?r)
      \<and> ss_pos (r_stream (runEmit (modeClass opts mode style') ?r)) = ss_pos (r_stream ?r)"
    using assms(1) t by (intro runEmit_ok) (auto simp: run_ok_def)
  then show ?thesis using False t e by (auto simp: runStep_def)
qed

lemma runLoop_ok:
  assumes "run_ok txt r"
    and process: "process_ok txt process"
  shows "\<exists>r'. runLoop reTest opts mode process forceToEnd r = Some r' \<and> run_ok txt r' \<and> ss_pos (r_stream r') = int (length txt)"
  using assms(1)
proof (induction "nat (int (length txt) - ss_pos (r_stream r))" arbitrary: r rule: less_induct)
  case less
  show ?case
  proof (cases "eol (r_stream r)")
    case True
    then show ?thesis using less.prems by (subst runLoop.simps) (auto simp: run_ok_def eol_def)
  next
    case False
    from runStep_ok [OF less.prems False process, where reTest = reTest and opts = opts and forceToEnd = forceToEnd] obtain r' where
      r': "runStep reTest opts mode process forceToEnd r = Some r'" "run_ok txt r'" "ss_pos (r_stream r) < ss_pos (r_stream r')"
      by blast
    have "nat (int (length txt) - ss_pos (r_stream r')) < nat (int (length txt) - ss_pos (r_stream r))"
      using r' False less.prems by (simp add: eol_def run_ok_def)
    from less.hyps [OF this r'(2)] False r'(1) show ?thesis by (subst runLoop.simps) simp
  qed
qed

lemma flushLoop_tiles: "a \<le> b \<Longrightarrow> tiles a (flushLoop a c b) b"
proof (induction a c b rule: flushLoop.induct)
  case (1 a c b)
  then show ?case by (subst flushLoop.simps) (auto simp: Let_def)
qed

lemma runMode_tiles:
  assumes "inv s"
    and process: "process_ok txt process"
  shows "\<exists>calls s' cls. runMode reTest opts txt mode s process classes forceToEnd = Some (calls, s', cls)
    \<and> inv s' \<and> tiles 0 calls (int (length txt))"
proof -
  obtain s1 cl1 where b: "(if txt = [] then (case callBlankLine mode s of (st, s) \<Rightarrow> (s, snd (extractStyle reTest st classes)))
      else (s, classes)) = (s1, cl1)" by fastforce
  have s1: "inv s1" using b assms(1) blank_inv [of s] by (auto split: if_splits prod.splits)
  define fl where "fl = (case hm_flattenSpans mode of Some b \<Rightarrow> b | None \<Rightarrow> o_flattenSpans opts)"
  let ?r = "\<lparr> r_curStart = 0, r_curStyle = None, r_stream = StringStream txt (Some (o_tabSize opts)), r_state = s1,
    r_classes = cl1, r_flatten = fl, r_calls = [] \<rparr>"
  have "run_ok txt ?r" using s1 by (simp add: run_ok_def StringStream_def)
  from runLoop_ok [OF this process, where reTest = reTest and opts = opts and forceToEnd = forceToEnd] obtain r' where
    r': "runLoop reTest opts mode process forceToEnd ?r = Some r'" "run_ok txt r'" "ss_pos (r_stream r') = int (length txt)" by blast
  have "tiles 0 (r_calls r' @ flushLoop (r_curStart r') (r_curStyle r') (ss_pos (r_stream r'))) (int (length txt))"
    using r'(2,3) flushLoop_tiles [of "r_curStart r'" "int (length txt)" "r_curStyle r'"]
    by (auto simp: tiles_append run_ok_def)
  then show ?thesis unfolding runMode_def Let_def b fl_def [symmetric] using r' by (auto simp: run_ok_def)
qed

end

section \<open>Overlays keep the pieces\<close>

lemma overlaySplit_tiles:
  "tiles a ys l \<Longrightarrow> a \<le> e \<Longrightarrow> e \<le> l \<Longrightarrow>
   \<exists>zs ys'. overlaySplit (xs @ ys) (length xs) a e = Some (xs @ zs @ ys', length xs + length zs, e)
     \<and> tiles a zs e \<and> tiles e ys' l"
proof (induction ys arbitrary: xs a)
  case Nil
  then show ?case by (subst overlaySplit.simps) auto
next
  case (Cons p ys)
  obtain i_end sty where p: "p = (i_end, sty)" by fastforce
  show ?case
  proof (cases "a < e")
    case False
    then have "overlaySplit (xs @ p # ys) (length xs) a e = Some (xs @ [] @ p # ys, length xs + length [], e)"
      using Cons.prems by (subst overlaySplit.simps) simp
    moreover have "tiles a [] e" using False Cons.prems by simp
    moreover from this have "tiles e (p # ys) l" using Cons.prems by simp
    ultimately show ?thesis by blast
  next
    case True
    show ?thesis
    proof (cases "i_end > e")
      case bigger: True
      have "overlaySplit (xs @ p # ys) (length xs) a e
          = overlaySplit (xs @ (e, sty) # (i_end, sty) # ys) (Suc (length xs)) e e"
        using True bigger p by (subst overlaySplit.simps) (simp add: Let_def splice_def nth_append)
      also have "\<dots> = Some (xs @ [(e, sty)] @ (i_end, sty) # ys, length xs + length [(e, sty)], e)"
        by (subst overlaySplit.simps) simp
      finally show ?thesis using True bigger p Cons.prems(1)
        by (intro exI [of _ "[(e, sty)]"] exI [of _ "(i_end, sty) # ys"]) simp
    next
      case smaller: False
      have "overlaySplit (xs @ p # ys) (length xs) a e = overlaySplit ((xs @ [p]) @ ys) (length (xs @ [p])) i_end e"
        using True smaller p by (subst overlaySplit.simps) (simp add: Let_def nth_append min_def)
      moreover have "tiles i_end ys l" "i_end \<le> e" using Cons.prems(1) p smaller by simp_all
      ultimately obtain zs ys' where
        "overlaySplit (xs @ p # ys) (length xs) a e = Some ((xs @ [p]) @ zs @ ys', length (xs @ [p]) + length zs, e)"
        "tiles i_end zs e" "tiles e ys' l" using Cons.IH [of i_end "xs @ [p]"] Cons.prems(3) by metis
      then show ?thesis using Cons.prems(1) p by (intro exI [of _ "p # zs"] exI [of _ ys']) simp
    qed
  qed
qed

lemma tiles_map:
  "(\<And>k p. fst (f (k, p)) = fst p) \<Longrightarrow> tiles a (map f (zip ks st)) b \<longleftrightarrow> tiles a (take (length ks) st) b"
proof (induction st arbitrary: a ks)
  case (Cons p st)
  obtain e s where p: "p = (e, s)" by fastforce
  show ?case
  proof (cases ks)
    case (Cons k ks')
    have "fst (f (k, (e, s))) = e" using Cons.prems by simp
    then obtain s' where "f (k, (e, s)) = (e, s')" by (cases "f (k, (e, s))") simp
    then show ?thesis using Cons Cons.prems Cons.IH [of e ks'] p by simp
  qed simp
qed simp

definition split_at :: "styles \<times> nat \<times> int \<Rightarrow> int \<Rightarrow> bool" where
  "split_at v l \<longleftrightarrow> (case v of (st, i, at0) \<Rightarrow> i \<le> length st \<and> tiles 0 (take i st) at0 \<and> tiles at0 (drop i st) l)"

lemma overlayCall_split:
  assumes "split_at (st, i, at0) l" "at0 < e" "e \<le> l"
  shows "\<exists>st' i'. overlayCall opaque (e, style) (st, i, at0) = Some (st', i', e) \<and> split_at (st', i', e) l"
proof -
  define xs where "xs = take i st"
  define ys where "ys = drop i st"
  have st: "st = xs @ ys" "i = length xs" and t: "tiles 0 xs at0" "tiles at0 ys l"
    using assms(1) by (simp_all add: xs_def ys_def split_at_def)
  from overlaySplit_tiles [OF t(2), of e xs] assms(2,3) obtain zs ys' where
    s: "overlaySplit st i at0 e = Some (xs @ zs @ ys', length xs + length zs, e)" "tiles at0 zs e" "tiles e ys' l"
    unfolding st by auto
  have ok: "split_at (xs @ zs @ ys', length xs + length zs, e) l"
    using t(1) s(2,3) by (auto simp: split_at_def tiles_append)
  show ?thesis
  proof (cases style)
    case None
    then show ?thesis using s ok by (simp add: overlayCall_def)
  next
    case (Some t')
    show ?thesis
    proof (cases "t' = []")
      case True
      then show ?thesis using s ok Some by (simp add: overlayCall_def)
    next
      case ne: False
      show ?thesis
      proof (cases opaque)
        case True
        have "splice i (length zs) [(e, Some (''cm-overlay '' @ t'))] (xs @ zs @ ys') = xs @ [(e, Some (''cm-overlay '' @ t'))] @ ys'"
          using st by (simp add: splice_def)
        moreover have "split_at (xs @ [(e, Some (''cm-overlay '' @ t'))] @ ys', i + 1, e) l"
          using st t(1) s(3) assms(2) by (auto simp: split_at_def)
        ultimately show ?thesis using True s Some ne st by (simp add: overlayCall_def)
      next
        case False
        define g :: "nat \<times> int \<times> string option \<Rightarrow> int \<times> string option" where "g = (\<lambda>(k, p). if i \<le> k \<and> k < length xs + length zs then (fst p, overlayStyle t' (snd p)) else p)"
        define st1 where "st1 = xs @ zs @ ys'"
        have g: "fst (g (k, p)) = fst p" for k p by (simp add: g_def)
        have m: "take n (map g (zip [0..<length st1] st1)) = map g (zip (take n [0..<length st1]) (take n st1))"
          "drop n (map g (zip [0..<length st1] st1)) = map g (zip (drop n [0..<length st1]) (drop n st1))" for n
          by (simp_all add: take_map drop_map take_zip drop_zip)
        have "split_at (map g (zip [0..<length st1] st1), length xs + length zs, e) l"
          using ok unfolding split_at_def st1_def [symmetric] by (simp add: m tiles_map [of g, OF g])
        then show ?thesis using False s Some ne st by (simp add: overlayCall_def g_def st1_def)
      qed
    qed
  qed
qed

lemma overlayCalls_split:
  "split_at (st, i, at0) l \<Longrightarrow> tiles at0 calls l \<Longrightarrow>
   \<exists>st' i'. overlayCalls opaque calls (st, i, at0) = Some (st', i', l) \<and> split_at (st', i', l) l"
proof (induction calls arbitrary: st i at0)
  case (Cons call calls)
  obtain e style where c: "call = (e, style)" by fastforce
  with Cons.prems(2) have "at0 < e" "e \<le> l" "tiles e calls l" by (auto dest: tiles_le)
  with overlayCall_split [OF Cons.prems(1), of e opaque style] Cons.IH [of _ _ e] c show ?case by fastforce
qed simp

lemma split_at_tiles: "split_at (st, i, a) l \<Longrightarrow> tiles 0 st l"
  unfolding split_at_def by (metis (no_types, lifting) append_take_drop_id case_prod_conv tiles_append)

lemma runOverlay_tiles:
  assumes "advancing_mode (ov_mode ov) ovinv" "ovinv (ov_state ov)" "tiles 0 st (int (length txt))"
  shows "\<exists>st' cl'. runOverlay reTest opts txt ov (st, cl) = Some (st', cl') \<and> tiles 0 st' (int (length txt))"
proof -
  from advancing_mode.runMode_tiles [OF assms(1,2) advancing_mode.process_ok_same [OF assms(1)],
      where reTest = reTest and opts = opts and classes = cl and forceToEnd = False]
  obtain calls s' cl' where r: "runMode reTest opts txt (ov_mode ov) (ov_state ov) (\<lambda>s n. Some s) cl False = Some (calls, s', cl')"
    "tiles 0 calls (int (length txt))" by blast
  have "split_at (st, 0, 0) (int (length txt))" using assms(3) by (simp add: split_at_def)
  from overlayCalls_split [OF this r(2), of "ov_opaque ov"] r(1) show ?thesis
    by (auto simp: runOverlay_def dest: split_at_tiles)
qed

lemma runOverlays_tiles:
  assumes "\<And>ov. ov \<in> set ovs \<Longrightarrow> \<exists>ovinv. advancing_mode (ov_mode ov) ovinv \<and> ovinv (ov_state ov)"
    and "tiles 0 st (int (length txt))"
  shows "\<exists>st' cl'. runOverlays reTest opts txt ovs (st, cl) = Some (st', cl') \<and> tiles 0 st' (int (length txt))"
  using assms
proof (induction ovs arbitrary: st cl)
  case (Cons ov ovs)
  obtain ovinv where "advancing_mode (ov_mode ov) ovinv" "ovinv (ov_state ov)" using Cons.prems(1) [of ov] by auto
  from runOverlay_tiles [OF this Cons.prems(2)] obtain st1 cl1 where
    "runOverlay reTest opts txt ov (st, cl) = Some (st1, cl1)" "tiles 0 st1 (int (length txt))" by blast
  with Cons.IH [of st1 cl1] Cons.prems(1) show ?case by simp
qed simp

context advancing_mode
begin

lemma highlightLine_tiles:
  assumes "inv s" "\<And>ov. ov \<in> set ovs \<Longrightarrow> \<exists>ovinv. advancing_mode (ov_mode ov) ovinv \<and> ovinv (ov_state ov)"
  shows "\<exists>st cls s'. highlightLine reTest opts mode ovs txt s forceToEnd = Some (st, cls, s')
    \<and> inv s' \<and> tiles 0 st (int (length txt))"
proof -
  from runMode_tiles [OF assms(1) process_ok_processLine, where reTest = reTest and opts = opts
      and classes = "\<lparr> bgClass = None, textClass = None \<rparr>" and forceToEnd = forceToEnd]
  obtain calls s' cls where r: "runMode reTest opts txt mode s (processLine opts mode txt) \<lparr> bgClass = None, textClass = None \<rparr> forceToEnd
      = Some (calls, s', cls)" "inv s'" "tiles 0 calls (int (length txt))" by blast
  obtain st cl' where "runOverlays reTest opts txt ovs (calls, cls) = Some (st, cl')" "tiles 0 st (int (length txt))"
    using runOverlays_tiles [of ovs, OF _ r(3), where reTest = reTest and opts = opts and cl = cls] assms(2) by blast
  with r(1,2) show ?thesis by (simp add: highlightLine_def)
qed

end

end
