(* ===== verification/HighlightState.thy ===== *)
theory HighlightState
  imports Highlight
begin

text \<open>
  Where highlighting starts, and the queries on tokens: \<open>findStartLine\<close>, the loop of \<open>getTokenAt\<close> and
  \<open>getTokenTypeAt\<close>. The document is its lines, which may have a saved state, the number of its first line, and
  the frontier. The states themselves are copied with \<open>copyState\<close>, which copies arrays but shares other objects,
  and are not modelled here: of a saved state only its presence matters to \<open>findStartLine\<close>.
\<close>

section \<open>Where to start\<close>

record sline =
  sl_text :: jstr
  sl_stateAfter :: bool

record hdoc =
  hd_lines :: "sline list"
  hd_first :: int
  hd_frontier :: int

definition hd_getLine :: "hdoc \<Rightarrow> int \<Rightarrow> sline option" where
  "hd_getLine d n =
     (let i = n - hd_first d in if 0 \<le> i \<and> i < int (length (hd_lines d)) then Some (hd_lines d ! nat i) else None)"

text \<open>
  The search of \<open>findStartLine\<close>; \<open>best\<close> is \<open>minline\<close> with \<open>minindent\<close>. The result is \<open>None\<close> when a line
  that does not exist is read, \<open>Some None\<close> stands for undefined.
\<close>

function startLineLoop ::
    "hoptions \<Rightarrow> hdoc \<Rightarrow> bool \<Rightarrow> int \<Rightarrow> int \<Rightarrow> (int \<times> int) option \<Rightarrow> int option option" where
  "startLineLoop opts d precise lim search best =
     (if search > lim then
        (if search \<le> hd_first d then Some (Some (hd_first d))
         else case hd_getLine d (search - 1) of
           None \<Rightarrow> None
         | Some line \<Rightarrow>
             if sl_stateAfter line \<and> (\<not> precise \<or> search \<le> hd_frontier d) then Some (Some search)
             else let indented = countColumn (sl_text line) None (o_tabSize opts) 0 0
                  in startLineLoop opts d precise lim (search - 1)
                       (case best of
                          None \<Rightarrow> Some (search - 1, indented)
                        | Some (minline, minindent) \<Rightarrow>
                            if minindent > indented then Some (search - 1, indented) else best))
      else Some (map_option fst best))"
  by pat_completeness auto
termination
  by (relation "measure (\<lambda>(opts, d, precise, lim, search, best). nat (search - lim))") auto

declare startLineLoop.simps [simp del]

definition findStartLine :: "hoptions \<Rightarrow> hdoc \<Rightarrow> int \<Rightarrow> bool \<Rightarrow> int option option" where
  "findStartLine opts d n precise = startLineLoop opts d precise (if precise then -1 else n - 100) n None"

section \<open>Tokens of a line\<close>

partial_function (option) tokenAtLoop ::
    "'s hmode \<Rightarrow> int \<Rightarrow> StringStream \<Rightarrow> 's \<Rightarrow> string option \<Rightarrow> (StringStream \<times> 's \<times> string option) option" where
  "tokenAtLoop mode ch stream state style =
     (if ss_pos stream < ch \<and> \<not> eol stream
      then Option.bind (readToken mode (stream \<lparr> ss_start := ss_pos stream \<rparr>) state)
             (\<lambda>(style', stream', state'). tokenAtLoop mode ch stream' state' style')
      else Some (stream, state, style))"

record 's token_at =
  ta_start :: int
  ta_end :: int
  ta_string :: jstr
  ta_type :: "string option"
  ta_state :: 's

text \<open>\<open>getTokenAt\<close>, for a position that was clipped, with the text of its line and the state before the line.\<close>

definition tokenAt :: "hoptions \<Rightarrow> 's hmode \<Rightarrow> jstr \<Rightarrow> int \<Rightarrow> 's \<Rightarrow> 's token_at option" where
  "tokenAt opts mode txt ch s =
     map_option
       (\<lambda>(stream, s', style).
          \<lparr> ta_start = ss_start stream, ta_end = ss_pos stream, ta_string = current stream,
            ta_type = (if style = Some [] then None else style), ta_state = s' \<rparr>)
       (tokenAtLoop mode ch (StringStream txt (Some (o_tabSize opts))) s None)"

text \<open>
  \<open>getTokenTypeAt\<close>: the binary search in the styles array. Reading behind the array gives undefined,
  which fails both comparisons.
\<close>

definition end_before :: "styles \<Rightarrow> nat \<Rightarrow> int option" where
  "end_before st mid = (if mid = 0 then Some 0 else if mid - 1 < length st then Some (fst (st ! (mid - 1))) else None)"

definition end_at :: "styles \<Rightarrow> nat \<Rightarrow> int option" where
  "end_at st mid = (if mid < length st then Some (fst (st ! mid)) else None)"

partial_function (option) typeSearch :: "styles \<Rightarrow> int \<Rightarrow> nat \<Rightarrow> nat \<Rightarrow> string option option" where
  "typeSearch st ch before after =
     (let mid = (before + after) div 2
      in if (case end_before st mid of Some e \<Rightarrow> e \<ge> ch | None \<Rightarrow> False) then typeSearch st ch before mid
         else if (case end_at st mid of Some e \<Rightarrow> e < ch | None \<Rightarrow> False) then typeSearch st ch (mid + 1) after
         else Some (if mid < length st then snd (st ! mid) else None))"

fun find_sub :: "string \<Rightarrow> string \<Rightarrow> nat option" where
  "find_sub w [] = (if w = [] then Some 0 else None)"
| "find_sub w (c # s) = (if take (length w) (c # s) = w then Some 0 else map_option Suc (find_sub w s))"

definition cut_overlay :: "string option \<Rightarrow> string option" where
  "cut_overlay type =
     (case type of
        None \<Rightarrow> None
      | Some t \<Rightarrow>
          case find_sub ''cm-overlay '' t of
            None \<Rightarrow> Some t
          | Some k \<Rightarrow> if k = 0 then None else Some (take (k - 1) t))"

definition getTokenTypeAt :: "styles \<Rightarrow> int \<Rightarrow> string option option" where
  "getTokenTypeAt st ch =
     map_option cut_overlay
       (if ch = 0 then Some (if st = [] then None else snd (st ! 0)) else typeSearch st ch 0 (length st))"

section \<open>Facts\<close>

text \<open>The state behind a list of lines, from the state before them.\<close>

fun run_texts :: "hoptions \<Rightarrow> 's hmode \<Rightarrow> jstr list \<Rightarrow> 's \<Rightarrow> 's option" where
  "run_texts opts mode [] s = Some s"
| "run_texts opts mode (t # ts) s = Option.bind (processLine opts mode t s 0) (run_texts opts mode ts)"

lemma run_texts_append:
  "run_texts opts mode (xs @ ys) s = Option.bind (run_texts opts mode xs s) (run_texts opts mode ys)"
proof (induction xs arbitrary: s)
  case (Cons x xs)
  then show ?case by (cases "processLine opts mode x s 0") simp_all
qed simp

text \<open>
  The search without a saved state in reach looks at the lines above and returns the first of them with the least
  indentation, where ties go to the one that is lower.
\<close>

definition indentAt :: "hoptions \<Rightarrow> hdoc \<Rightarrow> int \<Rightarrow> int" where
  "indentAt opts d n = countColumn (sl_text (hd_lines d ! nat (n - hd_first d))) None (o_tabSize opts) 0 0"

definition savedBefore :: "hdoc \<Rightarrow> bool \<Rightarrow> int \<Rightarrow> bool" where
  "savedBefore d precise n \<longleftrightarrow> sl_stateAfter (hd_lines d ! nat (n - 1 - hd_first d)) \<and> (\<not> precise \<or> n \<le> hd_frontier d)"

definition lowestFrom :: "hoptions \<Rightarrow> hdoc \<Rightarrow> int \<Rightarrow> int \<Rightarrow> (int \<times> int) option \<Rightarrow> bool" where
  "lowestFrom opts d search n best \<longleftrightarrow>
     (case best of
        None \<Rightarrow> search = n
      | Some (m, ind) \<Rightarrow> search \<le> m \<and> m < n \<and> ind = indentAt opts d m \<and> (\<forall>k. search \<le> k \<longrightarrow> k < n \<longrightarrow>
          ind \<le> indentAt opts d k \<and> (ind = indentAt opts d k \<longrightarrow> k \<le> m)))"

text \<open>Where the search stops, and what it remembers of the lines it has passed.\<close>

definition stopsAt :: "hdoc \<Rightarrow> bool \<Rightarrow> int \<Rightarrow> bool" where
  "stopsAt d precise k \<longleftrightarrow> k \<le> hd_first d \<or> savedBefore d precise k"

lemma lowestFrom_step:
  assumes "lowestFrom opts d search n best" "search \<le> n"
  shows "lowestFrom opts d (search - 1) n
    (case best of
       None \<Rightarrow> Some (search - 1, indentAt opts d (search - 1))
     | Some (m, ind) \<Rightarrow> if ind > indentAt opts d (search - 1) then Some (search - 1, indentAt opts d (search - 1)) else best)"
proof (cases best)
  case None
  then have "search = n" using assms(1) by (simp add: lowestFrom_def)
  moreover have "indentAt opts d (n - 1) \<le> indentAt opts d k \<and> k \<le> n - 1" if "n - 1 \<le> k" "k < n" for k
  proof -
    have "k = n - 1" using that by simp
    then show ?thesis by simp
  qed
  ultimately show ?thesis using None by (simp add: lowestFrom_def)
next
  case (Some b)
  obtain m ind where b: "b = (m, ind)" by fastforce
  have low: "search \<le> m" "m < n" "ind = indentAt opts d m"
    "\<And>k. search \<le> k \<Longrightarrow> k < n \<Longrightarrow> ind \<le> indentAt opts d k \<and> (ind = indentAt opts d k \<longrightarrow> k \<le> m)"
    using assms(1) Some b by (auto simp: lowestFrom_def)
  have cut: "k = search - 1 \<or> search \<le> k" if "search - 1 \<le> k" for k using that by linarith
  show ?thesis
  proof (cases "ind > indentAt opts d (search - 1)")
    case True
    have "indentAt opts d (search - 1) \<le> indentAt opts d k \<and> (indentAt opts d (search - 1) = indentAt opts d k \<longrightarrow> k \<le> search - 1)"
      if "search - 1 \<le> k" "k < n" for k
      using cut [OF that(1)] low(4) [of k] that(2) True by (elim disjE) auto
    then show ?thesis using Some b True low(1, 2) by (simp add: lowestFrom_def)
  next
    case False
    have "ind \<le> indentAt opts d k \<and> (ind = indentAt opts d k \<longrightarrow> k \<le> m)" if "search - 1 \<le> k" "k < n" for k
      using cut [OF that(1)] low(1) low(4) [of k] that(2) False by (elim disjE) auto
    then show ?thesis using Some b False low by (simp add: lowestFrom_def)
  qed
qed

lemma startLineLoop_spec:
  assumes "hd_first d \<le> n" "n \<le> hd_first d + int (length (hd_lines d))" "lim < n"
    and "lim \<le> search" "search \<le> n" "hd_first d \<le> search \<or> search = lim" "lowestFrom opts d search n best"
    and "\<And>k. search < k \<Longrightarrow> k \<le> n \<Longrightarrow> \<not> stopsAt d precise k"
  shows "\<exists>p. startLineLoop opts d precise lim search best = Some (Some p)
    \<and> (lim < p \<and> p \<le> n \<and> stopsAt d precise p \<and> hd_first d \<le> p \<and> (\<forall>k. p < k \<longrightarrow> k \<le> n \<longrightarrow> \<not> stopsAt d precise k)
       \<or> (\<forall>k. lim < k \<longrightarrow> k \<le> n \<longrightarrow> \<not> stopsAt d precise k) \<and> lowestFrom opts d lim n (Some (p, indentAt opts d p)))"
  using assms(4-8)
proof (induction "nat (search - lim)" arbitrary: search best)
  case 0
  then have "search = lim" by simp
  then obtain m ind where "best = Some (m, ind)" using 0(5) assms(3) by (cases best) (auto simp: lowestFrom_def)
  moreover have "ind = indentAt opts d m" using 0(5) calculation by (simp add: lowestFrom_def)
  moreover have "startLineLoop opts d precise lim search best = Some (map_option fst best)"
    by (subst startLineLoop.simps) (simp add: \<open>search = lim\<close>)
  ultimately show ?case using 0(5, 6) \<open>search = lim\<close> by auto
next
  case (Suc j)
  then have gt: "lim < search" "hd_first d \<le> search" by auto
  show ?case
  proof (cases "stopsAt d precise search")
    case True
    have "startLineLoop opts d precise lim search best = Some (Some search)"
    proof (cases "search \<le> hd_first d")
      case True
      then show ?thesis using gt by (subst startLineLoop.simps) simp
    next
      case False
      then have "savedBefore d precise search" using True by (simp add: stopsAt_def)
      moreover have "hd_getLine d (search - 1) = Some (hd_lines d ! nat (search - 1 - hd_first d))"
        using False Suc.prems(2) assms(2) by (simp add: hd_getLine_def Let_def)
      ultimately show ?thesis using gt(1) False by (subst startLineLoop.simps) (simp add: savedBefore_def)
    qed
    then show ?thesis using True gt Suc.prems(2, 5) by auto
  next
    case False
    then have f: "hd_first d < search" by (simp add: stopsAt_def)
    let ?b = "case best of
       None \<Rightarrow> Some (search - 1, indentAt opts d (search - 1))
     | Some (m, ind) \<Rightarrow> if ind > indentAt opts d (search - 1) then Some (search - 1, indentAt opts d (search - 1)) else best"
    have line: "hd_getLine d (search - 1) = Some (hd_lines d ! nat (search - 1 - hd_first d))"
      using f Suc.prems(2) assms(2) by (simp add: hd_getLine_def Let_def)
    let ?line = "hd_lines d ! nat (search - 1 - hd_first d)"
    have saved: "(sl_stateAfter ?line \<and> (\<not> precise \<or> search \<le> hd_frontier d)) = False"
      using False by (simp add: stopsAt_def savedBefore_def)
    have ind: "countColumn (sl_text ?line) None (o_tabSize opts) 0 0 = indentAt opts d (search - 1)" by (simp add: indentAt_def)
    have cond: "(search > lim) = True" "(search \<le> hd_first d) = False" using gt f by simp_all
    have "startLineLoop opts d precise lim search best = startLineLoop opts d precise lim (search - 1) ?b"
      by (subst startLineLoop.simps) (simp only: cond line option.case saved if_True if_False Let_def ind)
    moreover have "\<exists>p. startLineLoop opts d precise lim (search - 1) ?b = Some (Some p)
      \<and> (lim < p \<and> p \<le> n \<and> stopsAt d precise p \<and> hd_first d \<le> p \<and> (\<forall>k. p < k \<longrightarrow> k \<le> n \<longrightarrow> \<not> stopsAt d precise k)
         \<or> (\<forall>k. lim < k \<longrightarrow> k \<le> n \<longrightarrow> \<not> stopsAt d precise k) \<and> lowestFrom opts d lim n (Some (p, indentAt opts d p)))"
    proof (rule Suc.hyps(1))
      show "j = nat (search - 1 - lim)" using Suc.hyps(2) by simp
      show "lowestFrom opts d (search - 1) n ?b" by (rule lowestFrom_step [OF Suc.prems(4, 2)])
      show "\<not> stopsAt d precise k" if "search - 1 < k" "k \<le> n" for k
        using Suc.prems(5) [of k] that False by (cases "k = search") auto
    qed (use gt f Suc.prems(2) in auto)
    ultimately show ?thesis by simp
  qed
qed


text \<open>Two lines without a saved state, of which the second one is less indented, behind a line that has one.\<close>

definition exDoc :: hdoc where
  "exDoc = \<lparr> hd_lines = [\<lparr> sl_text = [], sl_stateAfter = True \<rparr>, \<lparr> sl_text = [32, 32], sl_stateAfter = False \<rparr>,
     \<lparr> sl_text = [32], sl_stateAfter = False \<rparr>], hd_first = 0, hd_frontier = 0 \<rparr>"

definition exOptions :: hoptions where
  "exOptions = \<lparr> o_tabSize = 4, o_flattenSpans = True, o_maxHighlightLength = 10000, o_addModeClass = False \<rparr>"


section \<open>The binary search for the type of a token\<close>

lemma tiles_nth_mono: "tiles a st l \<Longrightarrow> i < j \<Longrightarrow> j < length st \<Longrightarrow> fst (st ! i) < fst (st ! j)"
proof (induction st arbitrary: a i j)
  case (Cons p st)
  obtain e s where p: "p = (e, s)" by fastforce
  have later: "k < length st \<Longrightarrow> e < fst (st ! k)" for k
    using Cons.prems(1) p
  proof (induction st arbitrary: e k a s p)
    case (Cons q st)
    then show ?case by (cases q; cases k) (auto intro: order.strict_trans)
  qed simp
  show ?case
  proof (cases i)
    case 0
    then show ?thesis using Cons.prems later [of "j - 1"] p by (cases j) auto
  next
    case (Suc i')
    then show ?thesis using Cons.prems Cons.IH [of e i' "j - 1"] p by (cases j) auto
  qed
qed simp

lemma tiles_last: "tiles a st l \<Longrightarrow> st \<noteq> [] \<Longrightarrow> fst (st ! (length st - 1)) = l"
proof (induction a st l rule: tiles.induct)
  case (2 a e s st b)
  then show ?case by (cases st) auto
qed simp

definition tile_at :: "styles \<Rightarrow> int \<Rightarrow> nat \<Rightarrow> bool" where
  "tile_at st ch k \<longleftrightarrow> k < length st \<and> ch \<le> fst (st ! k) \<and> (\<forall>i < k. fst (st ! i) < ch)"

lemma typeSearch_tile:
  assumes "tiles 0 st l" "0 < ch" "tile_at st ch k" "before \<le> k" "k < after" "after \<le> length st"
  shows "typeSearch st ch before after = Some (snd (st ! k))"
  using assms(4-6)
proof (induction "after - before" arbitrary: before after rule: less_induct)
  case less
  define mid where "mid = (before + after) div 2"
  have m: "before \<le> mid" "mid < after" using less.prems by (auto simp: mid_def)
  have k: "k < length st" "ch \<le> fst (st ! k)" "\<And>i. i < k \<Longrightarrow> fst (st ! i) < ch" using assms(3) by (auto simp: tile_at_def)
  have unf: "typeSearch st ch before after =
      (if (case end_before st mid of Some e \<Rightarrow> e \<ge> ch | None \<Rightarrow> False) then typeSearch st ch before mid
       else if (case end_at st mid of Some e \<Rightarrow> e < ch | None \<Rightarrow> False) then typeSearch st ch (mid + 1) after
       else Some (if mid < length st then snd (st ! mid) else None))"
    by (subst typeSearch.simps) (simp only: Let_def mid_def)
  have ea: "end_at st mid = Some (fst (st ! mid))" using m less.prems by (simp add: end_at_def)
  consider "mid < k" | "mid = k" | "k < mid" by linarith
  then show ?case
  proof cases
    case 1
    have "end_before st mid = Some 0 \<and> mid = 0 \<or> end_before st mid = Some (fst (st ! (mid - 1))) \<and> 0 < mid"
      using m less.prems by (auto simp: end_before_def)
    moreover have "0 < mid \<Longrightarrow> fst (st ! (mid - 1)) < ch" using k(3) [of "mid - 1"] 1 by simp
    ultimately have "typeSearch st ch before after = typeSearch st ch (mid + 1) after"
      using unf ea k(3) [OF 1] assms(2) by auto
    also have "\<dots> = Some (snd (st ! k))" using less.hyps [of after "mid + 1"] 1 m less.prems by simp
    finally show ?thesis .
  next
    case 2
    have "end_before st mid = Some 0 \<and> mid = 0 \<or> end_before st mid = Some (fst (st ! (mid - 1))) \<and> 0 < mid"
      using m less.prems by (auto simp: end_before_def)
    moreover have "0 < mid \<Longrightarrow> fst (st ! (mid - 1)) < ch" using k(3) [of "mid - 1"] 2 by simp
    ultimately have "\<not> (case end_before st mid of Some e \<Rightarrow> e \<ge> ch | None \<Rightarrow> False)" using assms(2) by auto
    then show ?thesis using unf ea 2 k by simp
  next
    case 3
    have "fst (st ! k) \<le> fst (st ! (mid - 1))"
    proof (cases "k = mid - 1")
      case False
      then have "k < mid - 1" "mid - 1 < length st" using 3 m less.prems by linarith+
      then show ?thesis using tiles_nth_mono [OF assms(1)] by (simp add: less_imp_le)
    qed simp
    then have "ch \<le> fst (st ! (mid - 1))" using k(2) by simp
    moreover have "end_before st mid = Some (fst (st ! (mid - 1)))" using 3 m less.prems by (simp add: end_before_def)
    ultimately have "typeSearch st ch before after = typeSearch st ch before mid" using unf by simp
    also have "\<dots> = Some (snd (st ! k))" using less.hyps [of mid before] 3 m less.prems by simp
    finally show ?thesis .
  qed
qed

lemma tile_exists:
  assumes "tiles 0 st l" "0 < ch" "ch \<le> l"
  shows "\<exists>k. tile_at st ch k"
proof -
  have ne: "st \<noteq> []" using assms by (cases st) auto
  let ?P = "\<lambda>k. k < length st \<and> ch \<le> fst (st ! k)"
  have "?P (length st - 1)" using tiles_last [OF assms(1) ne] ne assms(3) by simp
  then have "?P (LEAST k. ?P k)" by (rule LeastI)
  moreover have "\<forall>i < (LEAST k. ?P k). fst (st ! i) < ch"
  proof (intro allI impI)
    fix i assume i: "i < (LEAST k. ?P k)"
    have "(LEAST k. ?P k) < length st" using calculation by blast
    with i not_less_Least [OF i] show "fst (st ! i) < ch" by auto
  qed
  ultimately show ?thesis unfolding tile_at_def by blast
qed

lemma find_tile: "tile_at st ch k \<Longrightarrow> List.find (\<lambda>p. ch \<le> fst p) st = Some (st ! k)"
  unfolding tile_at_def by (auto simp: find_Some_iff not_le intro!: exI [of _ k])

text \<open>C38. \<open>getTokenTypeAt\<close> finds by binary search the first piece of the line that ends at or behind
  the position, and returns its style without the parts that overlays added.\<close>

theorem getTokenTypeAt_first_piece:
  assumes "tiles 0 st l" "0 < ch" "ch \<le> l"
  shows "getTokenTypeAt st ch = map_option (\<lambda>p. cut_overlay (snd p)) (List.find (\<lambda>p. ch \<le> fst p) st)"
proof -
  from tile_exists [OF assms] obtain k where k: "tile_at st ch k" by blast
  have "typeSearch st ch 0 (length st) = Some (snd (st ! k))"
    using typeSearch_tile [OF assms(1,2) k, of 0 "length st"] k by (simp add: tile_at_def)
  then show ?thesis using find_tile [OF k] assms(2) by (simp add: getTokenTypeAt_def)
qed

theorem getTokenTypeAt_first_piece_witness:
  "getTokenTypeAt [(3, Some ''keyword''), (4, None), (7, Some ''def cm-overlay found'')] 6 = Some (Some ''def'')"
  using getTokenTypeAt_first_piece [of "[(3, Some ''keyword''), (4, None), (7, Some ''def cm-overlay found'')]" 7 6]
  by (simp add: cut_overlay_def)

end
