(* ===== verification/JsHighlight.thy ===== *)
theory JsHighlight
  imports JsMode HighlightState
begin

text \<open>
  The JavaScript mode and the null mode as modes of the highlighter: they meet the contract of
  \<open>advancing_mode\<close>, so highlighting with them never fails.
\<close>

section \<open>The mode objects\<close>

definition js_mode :: "jsConfig \<Rightarrow> jsCall hmode" where
  "js_mode cfg =
     \<lparr> hm_token = token cfg, hm_blankLine = None, hm_flattenSpans = None, hm_name = Some ''javascript'',
       hm_startState = \<lparr> m_type = None, m_content = None, m_state = startState cfg None \<rparr> \<rparr>"

definition null_mode :: "unit hmode" where
  "null_mode =
     \<lparr> hm_token = (\<lambda>stream state. Some (None, skipToEnd stream, ())), hm_blankLine = None, hm_flattenSpans = None,
       hm_name = Some ''null'', hm_startState = () \<rparr>"

interpretation js: advancing_mode "js_mode cfg" mode_ok for cfg
proof unfold_locales
  show "mode_ok (hm_startState (js_mode cfg))" by (simp add: js_mode_def startState_ok)
  show "mode_ok s \<Longrightarrow> mode_ok (snd (callBlankLine (js_mode cfg) s))" for s
    by (simp add: callBlankLine_def js_mode_def)
  show "\<exists>style st' s'. hm_token (js_mode cfg) st s = Some (style, st', s') \<and> mode_ok s' \<and> ss_string st' = ss_string st
      \<and> ss_start st' = ss_start st \<and> ss_pos st < ss_pos st' \<and> ss_pos st' \<le> int (length (ss_string st))"
    if "mode_ok s" "0 \<le> ss_pos st" "\<not> eol st" for s st
    using token_step [OF that, of cfg] by (auto simp: js_mode_def advances_def)
qed

interpretation null: advancing_mode null_mode "\<lambda>s. True"
  by unfold_locales (auto simp: null_mode_def skipToEnd_def eol_def)

lemma js_run_texts: "mode_ok m \<Longrightarrow> \<exists>m'. run_texts opts (js_mode cfg) ts m = Some m' \<and> mode_ok m'"
proof (induction ts arbitrary: m)
  case (Cons t ts)
  have "\<exists>m1. processLine opts (js_mode cfg) t m 0 = Some m1 \<and> mode_ok m1"
    by (rule js.processLine_returns) (use Cons.prems in simp_all)
  then obtain m1 where "processLine opts (js_mode cfg) t m 0 = Some m1" "mode_ok m1" by blast
  with Cons.IH [of m1] show ?case by simp
qed simp

lemma js_states_ok: "\<exists>m. run_texts opts (js_mode cfg) ts (hm_startState (js_mode cfg)) = Some m \<and> mode_ok m"
  using js_run_texts [OF js.start_inv] by blast

section \<open>Properties\<close>

text \<open>C18. Whatever the text: from the start state the JavaScript mode gets through all lines without
  an error, and behind them \<open>indent\<close> finds every lexical level it looks at and gives a number (or
  passes) for every text of the next line. It does so again from the start state of another document, although the
  mode object keeps the variables \<open>type\<close> and \<open>content\<close> of its last token.\<close>

theorem js_mode_total:
  "\<exists>m. run_texts opts (js_mode cfg) ts (hm_startState (js_mode cfg)) = Some m
     \<and> (\<exists>r. indent cfg (m_state m) textAfter = Some r \<and> r \<noteq> NotANumber)
     \<and> (\<exists>m2. run_texts opts (js_mode cfg) ts2 (m \<lparr> m_state := startState cfg basecolumn \<rparr>) = Some m2
           \<and> (\<exists>r. indent cfg (m_state m2) textAfter2 = Some r \<and> r \<noteq> NotANumber))"
proof -
  obtain m where m: "run_texts opts (js_mode cfg) ts (hm_startState (js_mode cfg)) = Some m" "mode_ok m"
    using js_states_ok by blast
  obtain m2 where m2: "run_texts opts (js_mode cfg) ts2 (m \<lparr> m_state := startState cfg basecolumn \<rparr>) = Some m2" "mode_ok m2"
    using js_run_texts [OF restart_ok [OF m(2)]] by blast
  have "state_ok (m_state m)" "state_ok (m_state m2)" using m(2) m2(2) by (simp_all add: mode_ok_def)
  from indent_ok [OF this(1)] indent_ok [OF this(2)] m(1) m2(1) show ?thesis by blast
qed

text \<open>C25. A call of \<open>token\<close> of the JavaScript mode inside a line ends, raises no error, takes at least
  one character of the line, and keeps the invariant of the mode's state.\<close>

theorem js_token_advances:
  assumes "mode_ok m" "0 \<le> ss_pos st" "\<not> eol st"
  shows "\<exists>style st' m'. token cfg st m = Some (style, st', m') \<and> mode_ok m' \<and> ss_string st' = ss_string st
    \<and> ss_start st' = ss_start st \<and> ss_pos st < ss_pos st' \<and> ss_pos st' \<le> int (length (ss_string st))"
  using js.token_advances [OF assms, of cfg] by (simp add: js_mode_def)

definition sample_config :: jsConfig where
  "sample_config = \<lparr> indentUnit = 2, statementIndent = 0, jsonld = False, jsonFlag = False, typescript = False,
     wordRE = default_wordRE, cfgLocalVars = [], cfgGlobalVars = GlobalsOff, doubleIndentSwitch = True \<rparr>"

definition sample_options :: hoptions where
  "sample_options = \<lparr> o_tabSize = 4, o_flattenSpans = True, o_maxHighlightLength = 10000, o_addModeClass = False \<rparr>"

theorem js_token_advances_witness:
  "\<exists>style st' m'. token sample_config (StringStream (js ''x'') None)
       \<lparr> m_type = None, m_content = None, m_state = startState sample_config None \<rparr> = Some (style, st', m') \<and> ss_pos st' = 1"
proof -
  let ?st = "StringStream (js ''x'') None"
  have "0 \<le> ss_pos ?st" "\<not> eol ?st" by (simp_all add: StringStream_def eol_def js_def)
  from js_token_advances [OF startState_ok [of sample_config None] this, of sample_config] show ?thesis
    by (fastforce simp: StringStream_def js_def)
qed



text \<open>A line without an arrow clears the place of the arrow function found in an earlier line, unless
  that place was column 0: then the old place stays, and the first token of the next line is taken
  for the parameters of an arrow function.\<close>

theorem findFatArrow_keeps_zero:
  assumes "find_arrow (drop (nat (ss_start st)) (ss_string st)) = None"
  shows "js_fatArrowAt (findFatArrow cfg st s) = (if js_fatArrowAt s = Some 0 then Some 0 else None)"
  using assms by (auto simp: findFatArrow_def Let_def split: option.split)

theorem findFatArrow_keeps_zero_witness:
  "js_fatArrowAt (findFatArrow sample_config (StringStream (js ''(x)'') None)
     (startState sample_config None \<lparr> js_fatArrowAt := Some 0 \<rparr>)) = Some 0"
  using findFatArrow_keeps_zero [of "StringStream (js ''(x)'') None"] by (simp add: StringStream_def js_def)

end
