(* ===== verification/VuePatch.thy ===== *)
theory VuePatch
  imports Prelude
begin

text \<open>
  The virtual DOM patching of vue.js: \<open>sameVnode\<close>, \<open>createElm\<close>, \<open>updateChildren\<close> and \<open>patchVnode\<close> for
  vnodes without components. The DOM below a node is a tree whose nodes have identities; the
  operations of \<open>nodeOps\<close> that the patch uses on the children of one parent are operations on the
  list of its children. Where the source would raise an error the model gives \<open>None\<close>.

  The module hooks (attributes, classes, events, directives) and the hooks of \<open>data\<close> do not change
  the children of an element and are left out; \<open>delayed\<close> says how many removal hooks of a vnode
  (transitions) keep its element in the DOM for now.
\<close>

section \<open>Vnodes\<close>

datatype key = KNum int | KStr string

datatype input_type = NoAttrs | NoType | InputType string

record vdata =
  vd_input :: input_type

record vflags =
  isStatic :: bool
  isCloned :: bool
  isOnce :: bool

datatype vnode =
  VNode (vkey: "key option") (vtag: "string option") (isComment: bool) (vdata: "vdata option")
    (vtext: "string option") (vchildren: "vnode list option") (velm: "nat option") (vflags: vflags)

fun set_elm :: "nat option \<Rightarrow> vnode \<Rightarrow> vnode" where
  "set_elm e (VNode k t c d x ch e' f) = VNode k t c d x ch e f"

fun set_children :: "vnode list option \<Rightarrow> vnode \<Rightarrow> vnode" where
  "set_children ch (VNode k t c d x ch' e f) = VNode k t c d x ch e f"

definition typeOf :: "vnode \<Rightarrow> input_type" where
  "typeOf v = (case vdata v of None \<Rightarrow> NoAttrs | Some d \<Rightarrow> vd_input d)"

definition sameInputType :: "vnode \<Rightarrow> vnode \<Rightarrow> bool" where
  "sameInputType a b \<longleftrightarrow> vtag a \<noteq> Some ''input'' \<or> typeOf a = typeOf b"

definition sameVnode :: "vnode \<Rightarrow> vnode \<Rightarrow> bool" where
  "sameVnode a b \<longleftrightarrow>
     vkey a = vkey b \<and> vtag a = vtag b \<and> isComment a = isComment b \<and> (vdata a \<noteq> None) = (vdata b \<noteq> None)
     \<and> sameInputType a b"

text \<open>
  Property names are strings: \<open>keyString\<close> is the conversion of a key. The map of the keys is an object
  literal: a name it does not have is looked up in \<open>Object.prototype\<close>, and \<open>__proto__\<close> cannot be set to
  a number.
\<close>

definition inheritedNames :: "string list" where
  "inheritedNames =
     [''constructor'', ''hasOwnProperty'', ''isPrototypeOf'', ''propertyIsEnumerable'', ''toLocaleString'', ''toString'',
      ''valueOf'', ''__proto__'', ''__defineGetter__'', ''__defineSetter__'', ''__lookupGetter__'', ''__lookupSetter__'']"

definition setName :: "string \<Rightarrow> nat \<Rightarrow> (string \<Rightarrow> nat option) \<Rightarrow> string \<Rightarrow> nat option" where
  "setName k i m = (if k = ''__proto__'' then m else m (k \<mapsto> i))"

fun createKeyToOldIdx :: "(key \<Rightarrow> string) \<Rightarrow> vnode option list \<Rightarrow> nat \<Rightarrow> nat \<Rightarrow> (string \<Rightarrow> nat option) \<Rightarrow> (string \<Rightarrow> nat option) option" where
  "createKeyToOldIdx keyString children i 0 m = Some m"
| "createKeyToOldIdx keyString children i (Suc n) m =
     (case (if i < length children then children ! i else None) of
        None \<Rightarrow> None
      | Some v \<Rightarrow>
          createKeyToOldIdx keyString children (Suc i) n
            (case vkey v of None \<Rightarrow> m | Some k \<Rightarrow> setName (keyString k) i m))"

section \<open>The DOM\<close>

datatype dom = DElem nat string "dom list" | DText nat string | DComment nat string

fun did :: "dom \<Rightarrow> nat" where
  "did (DElem i t ds) = i"
| "did (DText i x) = i"
| "did (DComment i x) = i"

definition has_child :: "nat \<Rightarrow> dom list \<Rightarrow> bool" where
  "has_child i ds \<longleftrightarrow> i \<in> did ` set ds"

definition removeChild :: "nat \<Rightarrow> dom list \<Rightarrow> dom list" where
  "removeChild i ds = filter (\<lambda>d. did d \<noteq> i) ds"

text \<open>\<open>insertBefore\<close> for a node that is no child yet; an unknown reference node is an error.\<close>

fun insert_at :: "dom \<Rightarrow> nat \<Rightarrow> dom list \<Rightarrow> dom list option" where
  "insert_at n ref [] = None"
| "insert_at n ref (d # ds) = (if did d = ref then Some (n # d # ds) else map_option ((#) d) (insert_at n ref ds))"

definition find_child :: "nat \<Rightarrow> dom list \<Rightarrow> dom option" where
  "find_child i ds = List.find (\<lambda>d. did d = i) ds"

fun nextSibling :: "nat \<Rightarrow> dom list \<Rightarrow> nat option" where
  "nextSibling i [] = None"
| "nextSibling i (d # ds) = (if did d = i then (case ds of [] \<Rightarrow> None | e # _ \<Rightarrow> Some (did e)) else nextSibling i ds)"

text \<open>Moving a child before another child, or to the end; a node is not moved before itself.\<close>

definition moveBefore :: "nat \<Rightarrow> nat option \<Rightarrow> dom list \<Rightarrow> dom list option" where
  "moveBefore i ref ds =
     (case find_child i ds of
        None \<Rightarrow> None
      | Some n \<Rightarrow>
          (case ref of
             None \<Rightarrow> Some (removeChild i ds @ [n])
           | Some r \<Rightarrow> if r = i then Some ds else insert_at n r (removeChild i ds)))"

text \<open>\<open>insert(parent, elm, ref)\<close> for a new element.\<close>

definition insertNew :: "dom \<Rightarrow> nat option \<Rightarrow> dom list \<Rightarrow> dom list" where
  "insertNew n ref ds =
     (case ref of
        None \<Rightarrow> ds @ [n]
      | Some r \<Rightarrow> (case insert_at n r ds of None \<Rightarrow> ds | Some ds' \<Rightarrow> ds'))"

fun setTextContent :: "string \<Rightarrow> nat \<Rightarrow> dom \<Rightarrow> dom \<times> nat" where
  "setTextContent x n (DElem i t ds) = (if x = [] then (DElem i t [], n) else (DElem i t [DText n x], Suc n))"
| "setTextContent x n (DText i y) = (DText i x, n)"
| "setTextContent x n (DComment i y) = (DComment i x, n)"

section \<open>Creating elements\<close>

text \<open>\<open>createElm\<close> gives the element, the vnode with its elements, and the next free identity.\<close>

definition text_of :: "vnode \<Rightarrow> string" where
  "text_of v = (case vtext v of None \<Rightarrow> ''undefined'' | Some x \<Rightarrow> x)"

fun createElm :: "vnode \<Rightarrow> nat \<Rightarrow> dom \<times> vnode \<times> nat"
  and createChildren :: "vnode list \<Rightarrow> nat \<Rightarrow> dom list \<times> vnode list \<times> nat" where
  "createElm (VNode k tag c d x ch e f) n =
     (case tag of
        Some t \<Rightarrow>
          (case ch of
             Some vs \<Rightarrow>
               (case createChildren vs (Suc n) of
                  (ds, vs', n') \<Rightarrow> (DElem n t ds, VNode k tag c d x (Some vs') (Some n) f, n'))
           | None \<Rightarrow>
               (case x of
                  Some s \<Rightarrow> (DElem n t [DText (Suc n) s], VNode k tag c d x ch (Some n) f, Suc (Suc n))
                | None \<Rightarrow> (DElem n t [], VNode k tag c d x ch (Some n) f, Suc n)))
      | None \<Rightarrow>
          ((if c then DComment n (case x of None \<Rightarrow> ''undefined'' | Some s \<Rightarrow> s)
            else DText n (case x of None \<Rightarrow> ''undefined'' | Some s \<Rightarrow> s)),
           VNode k tag c d x ch (Some n) f, Suc n))"
| "createChildren [] n = ([], [], n)"
| "createChildren (v # vs) n =
     (case createElm v n of
        (d, v', n1) \<Rightarrow> (case createChildren vs n1 of (ds, vs', n2) \<Rightarrow> (d # ds, v' # vs', n2)))"

section \<open>Updating the children\<close>

text \<open>
  The variables of \<open>updateChildren\<close>. The cached vnodes \<open>oldStartVnode\<close>, \<open>oldEndVnode\<close>,
  \<open>newStartVnode\<close> and \<open>newEndVnode\<close> are the array elements at the four indices: the only write into
  \<open>oldCh\<close> is at an index whose vnode is the same as \<open>newStartVnode\<close>, which the tests before have
  excluded for the two cached ones.
\<close>

record uc =
  uc_oldStart :: int
  uc_oldEnd :: int
  uc_newStart :: int
  uc_newEnd :: int
  uc_old :: "vnode option list"
  uc_new :: "vnode list"
  uc_dom :: "dom list"
  uc_map :: "(string \<Rightarrow> nat option) option"
  uc_next :: nat

type_synonym patcher = "vnode \<Rightarrow> vnode \<Rightarrow> dom \<Rightarrow> nat \<Rightarrow> (dom \<times> vnode \<times> nat) option"

definition old_at :: "uc \<Rightarrow> int \<Rightarrow> vnode option" where
  "old_at s i = (if 0 \<le> i \<and> i < int (length (uc_old s)) then uc_old s ! nat i else None)"

definition new_at :: "uc \<Rightarrow> int \<Rightarrow> vnode" where
  "new_at s i = uc_new s ! nat i"

text \<open>\<open>patchVnode(old, new)\<close> on the child that is the element of \<open>old\<close>; \<open>j\<close> is the index of the new vnode.\<close>

definition patchChild :: "patcher \<Rightarrow> vnode \<Rightarrow> int \<Rightarrow> uc \<Rightarrow> uc option" where
  "patchChild patch old j s =
     Option.bind (velm old)
       (\<lambda>e. Option.bind (find_child e (uc_dom s))
         (\<lambda>d. map_option
            (\<lambda>(d', v', n'). s \<lparr> uc_dom := map (\<lambda>x. if did x = e then d' else x) (uc_dom s),
                               uc_new := (uc_new s) [nat j := v'], uc_next := n' \<rparr>)
            (patch old (new_at s j) d (uc_next s))))"

definition moveChild :: "bool \<Rightarrow> vnode \<Rightarrow> (dom list \<Rightarrow> nat option) \<Rightarrow> uc \<Rightarrow> uc option" where
  "moveChild canMove v ref s =
     (if canMove
      then Option.bind (velm v)
             (\<lambda>e. map_option (\<lambda>ds. s \<lparr> uc_dom := ds \<rparr>) (moveBefore e (ref (uc_dom s)) (uc_dom s)))
      else Some s)"

definition createChild :: "nat option \<Rightarrow> int \<Rightarrow> uc \<Rightarrow> uc" where
  "createChild ref j s =
     (case createElm (new_at s j) (uc_next s) of
        (d, v', n') \<Rightarrow> s \<lparr> uc_dom := insertNew d ref (uc_dom s), uc_new := (uc_new s) [nat j := v'], uc_next := n' \<rparr>)"

text \<open>The last branch of the loop: find the new start vnode among the old ones by its key.\<close>

definition createOrMove :: "patcher \<Rightarrow> bool \<Rightarrow> vnode \<Rightarrow> nat option \<Rightarrow> uc \<Rightarrow> uc option" where
  "createOrMove patch canMove oldStart idxInOld s =
     (let create = createChild (velm oldStart) (uc_newStart s) s
      in case idxInOld of
           None \<Rightarrow> Some create
         | Some idx \<Rightarrow>
             (case uc_old s ! idx of
                None \<Rightarrow> None
              | Some elmToMove \<Rightarrow>
                  if sameVnode elmToMove (new_at s (uc_newStart s))
                  then Option.bind (patchChild patch elmToMove (uc_newStart s) s)
                         (\<lambda>s2. moveChild canMove (new_at s2 (uc_newStart s2)) (\<lambda>ds. velm oldStart)
                                 (s2 \<lparr> uc_old := (uc_old s2) [idx := None] \<rparr>))
                  else Some create))"

definition keyMap :: "(key \<Rightarrow> string) \<Rightarrow> uc \<Rightarrow> (string \<Rightarrow> nat option) option" where
  "keyMap keyString s =
     (case uc_map s of
        Some m \<Rightarrow> Some m
      | None \<Rightarrow> createKeyToOldIdx keyString (uc_old s) (nat (uc_oldStart s))
                  (nat (uc_oldEnd s - uc_oldStart s + 1)) Map.empty)"

text \<open>
  An inherited name is no index: \<open>oldCh\<close> has no element there and \<open>sameVnode\<close> raises an error.
\<close>

definition findIdx :: "(key \<Rightarrow> string) \<Rightarrow> (string \<Rightarrow> nat option) \<Rightarrow> vnode \<Rightarrow> nat option option" where
  "findIdx keyString m v =
     (case vkey v of
        None \<Rightarrow> Some None
      | Some k \<Rightarrow>
          if m (keyString k) = None \<and> List.member inheritedNames (keyString k) then None else Some (m (keyString k)))"

definition moveByKey :: "(key \<Rightarrow> string) \<Rightarrow> patcher \<Rightarrow> bool \<Rightarrow> vnode \<Rightarrow> uc \<Rightarrow> uc option" where
  "moveByKey keyString patch canMove oldStart s =
     Option.bind (keyMap keyString s)
       (\<lambda>m. Option.bind (findIdx keyString m (new_at s (uc_newStart s)))
         (\<lambda>idxInOld. map_option (\<lambda>s'. s' \<lparr> uc_newStart := uc_newStart s + 1 \<rparr>)
                 (createOrMove patch canMove oldStart idxInOld (s \<lparr> uc_map := Some m \<rparr>))))"

definition updateStep :: "(key \<Rightarrow> string) \<Rightarrow> patcher \<Rightarrow> bool \<Rightarrow> uc \<Rightarrow> uc option" where
  "updateStep keyString patch canMove s =
     (case old_at s (uc_oldStart s) of
        None \<Rightarrow> Some (s \<lparr> uc_oldStart := uc_oldStart s + 1 \<rparr>)
      | Some oldStart \<Rightarrow>
     (case old_at s (uc_oldEnd s) of
        None \<Rightarrow> Some (s \<lparr> uc_oldEnd := uc_oldEnd s - 1 \<rparr>)
      | Some oldEnd \<Rightarrow>
          let newStart = new_at s (uc_newStart s); newEnd = new_at s (uc_newEnd s)
          in if sameVnode oldStart newStart then
               map_option (\<lambda>s'. s' \<lparr> uc_oldStart := uc_oldStart s + 1, uc_newStart := uc_newStart s + 1 \<rparr>)
                 (patchChild patch oldStart (uc_newStart s) s)
             else if sameVnode oldEnd newEnd then
               map_option (\<lambda>s'. s' \<lparr> uc_oldEnd := uc_oldEnd s - 1, uc_newEnd := uc_newEnd s - 1 \<rparr>)
                 (patchChild patch oldEnd (uc_newEnd s) s)
             else if sameVnode oldStart newEnd then
               Option.bind (patchChild patch oldStart (uc_newEnd s) s)
                 (\<lambda>s1. map_option (\<lambda>s'. s' \<lparr> uc_oldStart := uc_oldStart s + 1, uc_newEnd := uc_newEnd s - 1 \<rparr>)
                    (moveChild canMove oldStart (\<lambda>ds. Option.bind (velm oldEnd) (\<lambda>e. nextSibling e ds)) s1))
             else if sameVnode oldEnd newStart then
               Option.bind (patchChild patch oldEnd (uc_newStart s) s)
                 (\<lambda>s1. map_option (\<lambda>s'. s' \<lparr> uc_oldEnd := uc_oldEnd s - 1, uc_newStart := uc_newStart s + 1 \<rparr>)
                    (moveChild canMove oldEnd (\<lambda>ds. velm oldStart) s1))
             else moveByKey keyString patch canMove oldStart s))"

definition uc_more :: "uc \<Rightarrow> bool" where
  "uc_more s \<longleftrightarrow> uc_oldStart s \<le> uc_oldEnd s \<and> uc_newStart s \<le> uc_newEnd s"

definition uc_size :: "uc \<Rightarrow> nat" where
  "uc_size s = nat (uc_oldEnd s - uc_oldStart s + 1) + nat (uc_newEnd s - uc_newStart s + 1)"

lemma patchChild_indices:
  "patchChild patch old j s = Some s' \<Longrightarrow>
   uc_oldStart s' = uc_oldStart s \<and> uc_oldEnd s' = uc_oldEnd s \<and> uc_newStart s' = uc_newStart s \<and> uc_newEnd s' = uc_newEnd s
   \<and> uc_old s' = uc_old s \<and> uc_map s' = uc_map s"
  by (auto simp: patchChild_def bind_eq_Some_conv)

lemma moveChild_indices:
  "moveChild canMove v ref s = Some s' \<Longrightarrow>
   uc_oldStart s' = uc_oldStart s \<and> uc_oldEnd s' = uc_oldEnd s \<and> uc_newStart s' = uc_newStart s \<and> uc_newEnd s' = uc_newEnd s"
  by (auto simp: moveChild_def bind_eq_Some_conv split: if_splits)

lemma createOrMove_indices:
  "createOrMove patch canMove v idx s = Some s' \<Longrightarrow>
   uc_oldStart s' = uc_oldStart s \<and> uc_oldEnd s' = uc_oldEnd s \<and> uc_newStart s' = uc_newStart s \<and> uc_newEnd s' = uc_newEnd s"
  by (auto simp: createOrMove_def bind_eq_Some_conv Let_def createChild_def
      dest!: patchChild_indices moveChild_indices split: option.splits if_splits prod.splits)

lemma moveByKey_indices:
  "moveByKey keyString patch canMove v s = Some s' \<Longrightarrow>
   uc_oldStart s' = uc_oldStart s \<and> uc_oldEnd s' = uc_oldEnd s \<and> uc_newStart s' = uc_newStart s + 1 \<and> uc_newEnd s' = uc_newEnd s"
  by (auto simp: moveByKey_def bind_eq_Some_conv Let_def dest!: createOrMove_indices)

lemma updateStep_less:
  assumes "updateStep keyString patch canMove s = Some s'" "uc_more s"
  shows "uc_size s' < uc_size s"
  using assms
  by (auto simp: updateStep_def Let_def bind_eq_Some_conv uc_size_def uc_more_def
      dest!: patchChild_indices moveChild_indices moveByKey_indices split: option.splits if_splits)

function updateLoop :: "(key \<Rightarrow> string) \<Rightarrow> patcher \<Rightarrow> bool \<Rightarrow> uc \<Rightarrow> uc option" where
  "updateLoop keyString patch canMove s =
     (if uc_more s
      then (case updateStep keyString patch canMove s of None \<Rightarrow> None | Some s' \<Rightarrow> updateLoop keyString patch canMove s')
      else Some s)"
  by pat_completeness auto
termination
  by (relation "measure (\<lambda>(k, p, c, s). uc_size s)") (auto intro: updateStep_less)

declare updateLoop.simps [simp del]

section \<open>Adding and removing vnodes\<close>

fun addVnodes :: "nat option \<Rightarrow> nat \<Rightarrow> nat \<Rightarrow> dom list \<times> vnode list \<times> nat \<Rightarrow> dom list \<times> vnode list \<times> nat" where
  "addVnodes refElm i 0 v = v"
| "addVnodes refElm i (Suc k) (ds, vs, n) =
     (case createElm (vs ! i) n of
        (d, v', n') \<Rightarrow> addVnodes refElm (Suc i) k (insertNew d refElm ds, vs [i := v'], n'))"

text \<open>
  The callback of \<open>createRmCb\<close> removes the element when all its listeners have called it; the
  listeners are the removal hooks and the direct removal. Without data there are none.
\<close>

definition removedNow :: "(vnode \<Rightarrow> nat) \<Rightarrow> vnode \<Rightarrow> bool" where
  "removedNow delayed v \<longleftrightarrow> vtag v = None \<or> vdata v = None \<or> delayed v = 0"

fun removeVnodes :: "(vnode \<Rightarrow> nat) \<Rightarrow> vnode option list \<Rightarrow> dom list \<Rightarrow> dom list option" where
  "removeVnodes delayed [] ds = Some ds"
| "removeVnodes delayed (None # vs) ds = removeVnodes delayed vs ds"
| "removeVnodes delayed (Some v # vs) ds =
     (case velm v of
        None \<Rightarrow> None
      | Some e \<Rightarrow> removeVnodes delayed vs (if removedNow delayed v then removeChild e ds else ds))"

definition finishUpdate :: "(vnode \<Rightarrow> nat) \<Rightarrow> uc \<Rightarrow> (dom list \<times> vnode list \<times> nat) option" where
  "finishUpdate delayed s =
     (if uc_oldStart s > uc_oldEnd s then
        (let j = uc_newEnd s + 1;
             refElm = (if 0 \<le> j \<and> j < int (length (uc_new s)) then velm (new_at s j) else None)
         in Some (addVnodes refElm (nat (uc_newStart s)) (nat (uc_newEnd s - uc_newStart s + 1))
                    (uc_dom s, uc_new s, uc_next s)))
      else if uc_newStart s > uc_newEnd s then
        map_option (\<lambda>ds. (ds, uc_new s, uc_next s))
          (removeVnodes delayed (take (nat (uc_oldEnd s - uc_oldStart s + 1)) (drop (nat (uc_oldStart s)) (uc_old s))) (uc_dom s))
      else Some (uc_dom s, uc_new s, uc_next s))"

definition updateChildren ::
    "(key \<Rightarrow> string) \<Rightarrow> patcher \<Rightarrow> (vnode \<Rightarrow> nat) \<Rightarrow> bool \<Rightarrow> vnode list \<Rightarrow> vnode list \<Rightarrow> dom list \<Rightarrow> nat
     \<Rightarrow> (dom list \<times> vnode list \<times> nat) option" where
  "updateChildren keyString patch delayed removeOnly oldCh newCh ds n =
     Option.bind
       (updateLoop keyString patch (\<not> removeOnly)
          \<lparr> uc_oldStart = 0, uc_oldEnd = int (length oldCh) - 1, uc_newStart = 0, uc_newEnd = int (length newCh) - 1,
            uc_old = map Some oldCh, uc_new = newCh, uc_dom = ds, uc_map = None, uc_next = n \<rparr>)
       (finishUpdate delayed)"

section \<open>Patching a vnode\<close>

definition reuses :: "vnode \<Rightarrow> vnode \<Rightarrow> bool" where
  "reuses old v \<longleftrightarrow> isStatic (vflags v) \<and> isStatic (vflags old) \<and> vkey v = vkey old
     \<and> (isCloned (vflags v) \<or> isOnce (vflags v))"

fun kids :: "dom \<Rightarrow> dom list option" where
  "kids (DElem i t ds) = Some ds"
| "kids d = None"

fun set_kids :: "dom list \<Rightarrow> dom \<Rightarrow> dom" where
  "set_kids ds (DElem i t ds') = DElem i t ds"
| "set_kids ds d = d"

text \<open>
  \<open>patchVnode\<close> with the depth of the new vnode as fuel. Vnodes and arrays that are the same object are
  equal in the model; equal ones that are not the same object are patched to the same result.
\<close>

definition patchBody ::
    "(key \<Rightarrow> string) \<Rightarrow> patcher \<Rightarrow> (vnode \<Rightarrow> nat) \<Rightarrow> bool \<Rightarrow> patcher" where
  "patchBody keyString patch delayed removeOnly old v d n =
     (if old = v then Some (d, v, n)
      else if reuses old v then Some (d, set_elm (velm old) v, n)
      else
        (let v1 = set_elm (velm old) v
         in case vtext v of
              None \<Rightarrow>
                (case (vchildren old, vchildren v) of
                   (Some oldCh, Some ch) \<Rightarrow>
                     (if oldCh \<noteq> ch then
                        Option.bind (kids d)
                          (\<lambda>ds. map_option (\<lambda>(ds', ch', n'). (set_kids ds' d, set_children (Some ch') v1, n'))
                                 (updateChildren keyString patch delayed removeOnly oldCh ch ds n))
                      else Some (d, v1, n))
                 | (None, Some ch) \<Rightarrow>
                     (let (d1, n1) = (if vtext old \<noteq> None then setTextContent [] n d else (d, n))
                      in map_option
                           (\<lambda>ds. case addVnodes None 0 (length ch) (ds, ch, n1) of
                                   (ds', ch', n') \<Rightarrow> (set_kids ds' d1, set_children (Some ch') v1, n'))
                           (kids d1))
                 | (Some oldCh, None) \<Rightarrow>
                     Option.bind (kids d)
                       (\<lambda>ds. map_option (\<lambda>ds'. (set_kids ds' d, v1, n)) (removeVnodes delayed (map Some oldCh) ds))
                 | (None, None) \<Rightarrow>
                     (if vtext old \<noteq> None then (case setTextContent [] n d of (d1, n1) \<Rightarrow> Some (d1, v1, n1))
                      else Some (d, v1, n)))
            | Some x \<Rightarrow>
                (if vtext old \<noteq> Some x then (case setTextContent x n d of (d1, n1) \<Rightarrow> Some (d1, v1, n1))
                 else Some (d, v1, n))))"

fun patchN :: "nat \<Rightarrow> (key \<Rightarrow> string) \<Rightarrow> (vnode \<Rightarrow> nat) \<Rightarrow> bool \<Rightarrow> patcher" where
  "patchN 0 keyString delayed removeOnly old v d n = None"
| "patchN (Suc k) keyString delayed removeOnly old v d n =
     patchBody keyString (patchN k keyString delayed False) delayed removeOnly old v d n"

fun depth :: "vnode \<Rightarrow> nat" where
  "depth (VNode k t c d x ch e f) = (case ch of None \<Rightarrow> 0 | Some vs \<Rightarrow> Suc (Max (set (0 # map depth vs))))"

definition patchVnode :: "(key \<Rightarrow> string) \<Rightarrow> (vnode \<Rightarrow> nat) \<Rightarrow> bool \<Rightarrow> patcher" where
  "patchVnode keyString delayed removeOnly old v d n = patchN (Suc (depth v)) keyString delayed removeOnly old v d n"

end
