(* ===== verification/VuePatchFacts.thy ===== *)
theory VuePatchFacts
  imports VuePatch "HOL-Library.Multiset"
begin

text \<open>
  Patching brings the DOM to the new vnodes: the invariant of the loop of \<open>updateChildren\<close>, and by
  induction on the depth the correctness of \<open>patchVnode\<close>.
\<close>

section \<open>Vnodes and the DOM they describe\<close>

fun strip :: "vnode \<Rightarrow> vnode" where
  "strip (VNode k t c d x ch e f) = VNode k t c d x (case ch of None \<Rightarrow> None | Some vs \<Rightarrow> Some (map strip vs)) None f"

definition keysOf :: "(key \<Rightarrow> string) \<Rightarrow> vnode list \<Rightarrow> string list" where
  "keysOf ks vs = List.map_filter (\<lambda>v. map_option ks (vkey v)) vs"

text \<open>Text nodes and comments have a text and no children, elements have children or a text; the keys
  of children are distinct and are no inherited names.\<close>

definition keys_ok :: "(key \<Rightarrow> string) \<Rightarrow> vnode list \<Rightarrow> bool" where
  "keys_ok ks vs \<longleftrightarrow> distinct (keysOf ks vs) \<and> (\<forall>k \<in> set (keysOf ks vs). \<not> List.member inheritedNames k)"

fun wfv :: "(key \<Rightarrow> string) \<Rightarrow> vnode \<Rightarrow> bool" where
  "wfv ks (VNode k t c d x ch e f) \<longleftrightarrow>
     (t = None \<longrightarrow> ch = None \<and> x \<noteq> None) \<and> (t \<noteq> None \<longrightarrow> \<not> c \<and> (ch \<noteq> None \<longrightarrow> x = None))
     \<and> (case ch of None \<Rightarrow> True | Some vs \<Rightarrow> keys_ok ks vs \<and> (\<forall>v \<in> set vs. wfv ks v))"

text \<open>Vnodes that are not clones of a static tree.\<close>

fun plain :: "vnode \<Rightarrow> bool" where
  "plain (VNode k t c d x ch e f) \<longleftrightarrow>
     \<not> isCloned f \<and> \<not> isOnce f \<and> (case ch of None \<Rightarrow> True | Some vs \<Rightarrow> \<forall>v \<in> set vs. plain v)"

definition text_kids :: "string \<Rightarrow> dom list \<Rightarrow> bool" where
  "text_kids x ds \<longleftrightarrow> x = [] \<and> ds = [] \<or> (\<exists>j. ds = [DText j x])"

fun matches :: "dom \<Rightarrow> vnode \<Rightarrow> bool" where
  "matches (DElem i t ds) v \<longleftrightarrow> velm v = Some i \<and> vtag v = Some t
     \<and> (case vchildren v of
          Some vs \<Rightarrow> list_all2 matches ds vs
        | None \<Rightarrow> (case vtext v of None \<Rightarrow> ds = [] | Some x \<Rightarrow> text_kids x ds))"
| "matches (DText i x) v \<longleftrightarrow> velm v = Some i \<and> vtag v = None \<and> \<not> isComment v \<and> vtext v = Some x"
| "matches (DComment i x) v \<longleftrightarrow> velm v = Some i \<and> vtag v = None \<and> isComment v \<and> vtext v = Some x"

text \<open>Identities: those of siblings differ, and all are smaller than the next free one.\<close>

fun good :: "nat \<Rightarrow> dom \<Rightarrow> bool" where
  "good n (DElem i t ds) \<longleftrightarrow> i < n \<and> distinct (map did ds) \<and> (\<forall>d \<in> set ds. good n d)"
| "good n (DText i x) \<longleftrightarrow> i < n"
| "good n (DComment i x) \<longleftrightarrow> i < n"

definition doms_ok :: "nat \<Rightarrow> dom list \<Rightarrow> bool" where
  "doms_ok n ds \<longleftrightarrow> distinct (map did ds) \<and> (\<forall>d \<in> set ds. good n d)"

lemma good_did: "good n d \<Longrightarrow> did d < n"
  by (cases d) simp_all

lemma good_mono: "good n d \<Longrightarrow> n \<le> n' \<Longrightarrow> good n' d"
  by (induction n d rule: good.induct) auto

lemma doms_ok_mono: "doms_ok n ds \<Longrightarrow> n \<le> n' \<Longrightarrow> doms_ok n' ds"
  unfolding doms_ok_def using good_mono by blast

lemma mset_eq_imp_distinct: "mset ds = mset ds' \<Longrightarrow> distinct (map did ds) = distinct (map did ds')"
  by (metis distinct_count_atmost_1 mset_map set_mset_mset)

lemma doms_ok_perm: "mset ds = mset ds' \<Longrightarrow> doms_ok n ds \<longleftrightarrow> doms_ok n ds'"
  unfolding doms_ok_def using mset_eq_setD [of ds ds'] mset_eq_imp_distinct [of ds ds'] by simp

lemma matches_elm: "matches d v \<Longrightarrow> velm v = Some (did d)"
  by (cases d) simp_all

lemma strip_sel [simp]:
  "vkey (strip v) = vkey v" "vtag (strip v) = vtag v" "isComment (strip v) = isComment v" "vdata (strip v) = vdata v"
  "vtext (strip v) = vtext v" "velm (strip v) = None" "vflags (strip v) = vflags v"
  "vchildren (strip v) = (case vchildren v of None \<Rightarrow> None | Some vs \<Rightarrow> Some (map strip vs))"
  by (cases v; simp)+

lemma strip_idem [simp]: "strip (strip v) = strip v"
  by (induction v rule: strip.induct) (auto split: option.splits)

lemma strip_set_elm [simp]: "strip (set_elm e v) = strip v" "strip (set_children ch (set_elm e v)) = strip (set_children ch v)"
  by (cases v; simp)+

lemma keysOf_strip: "keysOf ks (map strip vs) = keysOf ks vs"
  by (induction vs) (auto simp: keysOf_def List.map_filter_simps split: option.split)

lemma wfv_strip: "wfv ks (strip v) = wfv ks v"
  by (induction v rule: strip.induct) (auto simp: keys_ok_def keysOf_strip split: option.splits)

lemma wfv_strip_cong: "strip v = strip w \<Longrightarrow> wfv ks v = wfv ks w"
  by (metis wfv_strip)

lemma sameVnode_strip: "sameVnode old (strip v) = sameVnode old v"
  by (simp add: sameVnode_def sameInputType_def typeOf_def)

text \<open>Creation.\<close>

lemma createElm_ok:
  "createElm v n = (d, v', n') \<Longrightarrow> wfv ks v \<Longrightarrow>
     matches d v' \<and> strip v' = strip v \<and> good n' d \<and> did d = n \<and> n < n'"
  and createChildren_ok:
  "createChildren vs n = (ds, vs', n') \<Longrightarrow> (\<forall>v \<in> set vs. wfv ks v) \<Longrightarrow>
     list_all2 matches ds vs' \<and> map strip vs' = map strip vs \<and> doms_ok n' ds \<and> (\<forall>d \<in> set ds. n \<le> did d) \<and> n \<le> n'"
proof (induction v n and vs n arbitrary: d v' n' and ds vs' n' rule: createElm_createChildren.induct)
  case (1 k tag c dt x ch e f n)
  show ?case
  proof (cases tag)
    case None
    with 1(2,3) show ?thesis by (auto split: option.splits if_splits)
  next
    case (Some t)
    show ?thesis
    proof (cases ch)
      case N: None
      with Some 1(2,3) show ?thesis by (auto simp: text_kids_def split: option.splits)
    next
      case S: (Some vs)
      obtain ds vs' m where c: "createChildren vs (Suc n) = (ds, vs', m)" by (metis prod_cases3)
      have "\<forall>v \<in> set vs. wfv ks v" using 1(3) S by simp
      from 1(1) [OF Some S c this]
      have "list_all2 matches ds vs' \<and> map strip vs' = map strip vs \<and> doms_ok m ds \<and> (\<forall>d \<in> set ds. Suc n \<le> did d) \<and> Suc n \<le> m" .
      then show ?thesis using 1(2) Some S c by (auto simp: doms_ok_def)
    qed
  qed
next
  case (2 n)
  then show ?case by (auto simp: doms_ok_def)
next
  case (3 v vs n)
  obtain d1 v1 n1 where c1: "createElm v n = (d1, v1, n1)" by (metis prod_cases3)
  obtain ds1 vs1 n2 where c2: "createChildren vs n1 = (ds1, vs1, n2)" by (metis prod_cases3)
  have IH1: "matches d1 v1 \<and> strip v1 = strip v \<and> good n1 d1 \<and> did d1 = n \<and> n < n1" using 3(1) [OF c1] 3(4) by simp
  have IH2: "list_all2 matches ds1 vs1 \<and> map strip vs1 = map strip vs \<and> doms_ok n2 ds1 \<and> (\<forall>d \<in> set ds1. n1 \<le> did d) \<and> n1 \<le> n2"
    using 3(2) [OF c1 [symmetric] refl c2] 3(4) by simp
  have "did d1 \<notin> did ` set ds1" using IH1 IH2 by fastforce
  moreover have "good n2 d1" using IH1 IH2 good_mono by blast
  ultimately show ?case using 3(3) c1 c2 IH1 IH2 by (fastforce simp: doms_ok_def)
qed

section \<open>The children of one parent\<close>

lemma find_child_mid:
  "distinct (map did (X @ d # Y)) \<Longrightarrow> find_child (did d) (X @ d # Y) = Some d"
  unfolding find_child_def by (induction X) auto

lemma replace_mid:
  "distinct (map did (X @ d # Y)) \<Longrightarrow> map (\<lambda>x. if did x = did d then d' else x) (X @ d # Y) = X @ d' # Y"
proof -
  assume "distinct (map did (X @ d # Y))"
  then have n: "\<And>x. x \<in> set X \<union> set Y \<Longrightarrow> did x \<noteq> did d" by (auto simp: image_iff)
  have "map (\<lambda>x. if did x = did d then d' else x) X = X" "map (\<lambda>x. if did x = did d then d' else x) Y = Y"
    using n by (intro map_idI; simp)+
  then show ?thesis by simp
qed

lemma insert_at_mid:
  "did r \<notin> did ` set X \<Longrightarrow> insert_at n (did r) (X @ r # Y) = Some (X @ n # r # Y)"
  by (induction X) auto

lemma removeChild_mid:
  "distinct (map did (X @ d # Y)) \<Longrightarrow> removeChild (did d) (X @ d # Y) = X @ Y"
proof -
  assume "distinct (map did (X @ d # Y))"
  then have n: "\<And>x. x \<in> set X \<union> set Y \<Longrightarrow> did x \<noteq> did d" by (auto simp: image_iff)
  have "filter (\<lambda>x. did x \<noteq> did d) X = X" "filter (\<lambda>x. did x \<noteq> did d) Y = Y"
    using n by (intro filter_True; simp)+
  then show ?thesis by (simp add: removeChild_def)
qed

lemma nextSibling_mid:
  "distinct (map did (X @ d # Y)) \<Longrightarrow> nextSibling (did d) (X @ d # Y) = (case Y of [] \<Rightarrow> None | e # _ \<Rightarrow> Some (did e))"
  by (induction X) auto

lemma insertNew_mid:
  "did r \<notin> did ` set X \<Longrightarrow> insertNew n (Some (did r)) (X @ r # Y) = X @ n # r # Y"
  by (simp add: insertNew_def insert_at_mid)

text \<open>Moving a child to the left, before another one, and to the right, before what follows.\<close>

lemma moveBefore_left:
  assumes "distinct (map did (X @ r # Y @ d # Z))"
  shows "moveBefore (did d) (Some (did r)) (X @ r # Y @ d # Z) = Some (X @ d # r # Y @ Z)"
proof -
  have f: "find_child (did d) (X @ r # Y @ d # Z) = Some d"
    using find_child_mid [of "X @ r # Y" d Z] assms by simp
  have r: "removeChild (did d) (X @ r # Y @ d # Z) = X @ r # Y @ Z"
    using removeChild_mid [of "X @ r # Y" d Z] assms by simp
  have "insert_at d (did r) (X @ r # (Y @ Z)) = Some (X @ d # r # (Y @ Z))"
    using assms by (intro insert_at_mid) auto
  then show ?thesis using f r assms by (auto simp: moveBefore_def)
qed

lemma moveBefore_right:
  assumes "distinct (map did (X @ d # Y @ Z))"
  shows "moveBefore (did d) (case Z of [] \<Rightarrow> None | e # _ \<Rightarrow> Some (did e)) (X @ d # Y @ Z) = Some (X @ Y @ d # Z)"
proof -
  have f: "find_child (did d) (X @ d # Y @ Z) = Some d" using find_child_mid [of X d "Y @ Z"] assms by simp
  have r: "removeChild (did d) (X @ d # Y @ Z) = X @ Y @ Z" using removeChild_mid [of X d "Y @ Z"] assms by simp
  show ?thesis
  proof (cases Z)
    case Nil
    then show ?thesis using f r by (simp add: moveBefore_def)
  next
    case (Cons e Z')
    have "insert_at d (did e) ((X @ Y) @ e # Z') = Some ((X @ Y) @ d # e # Z')"
      using assms Cons by (intro insert_at_mid) auto
    then show ?thesis using f r assms Cons by (auto simp: moveBefore_def)
  qed
qed

section \<open>The loop\<close>

definition patch_post :: "vnode \<Rightarrow> dom \<Rightarrow> nat \<Rightarrow> dom \<Rightarrow> vnode \<Rightarrow> nat \<Rightarrow> bool" where
  "patch_post v d n d' v' n' \<longleftrightarrow> matches d' v' \<and> strip v' = strip v \<and> did d' = did d \<and> good n' d' \<and> n \<le> n'"

definition patch_ok :: "(key \<Rightarrow> string) \<Rightarrow> patcher \<Rightarrow> vnode list \<Rightarrow> bool" where
  "patch_ok ks patch newCh \<longleftrightarrow>
     (\<forall>old v d n. v \<in> set newCh \<longrightarrow> sameVnode old v \<longrightarrow> wfv ks old \<longrightarrow> matches d old \<longrightarrow> good n d \<longrightarrow>
        (\<exists>d' v' n'. patch old v d n = Some (d', v', n') \<and> patch_post v d n d' v' n'))"

lemma doms_ok_replace:
  assumes "doms_ok n (X @ d # Y)" "good n' d'" "did d' = did d" "n \<le> n'"
  shows "doms_ok n' (X @ d' # Y)"
proof -
  have "good n' x" if "x \<in> set X \<union> set Y" for x
    using assms(1,4) that good_mono [of n x n'] by (auto simp: doms_ok_def)
  then show ?thesis using assms(1-3) by (auto simp: doms_ok_def)
qed

lemma patchChild_mid:
  assumes "patch_ok ks patch newCh" "v \<in> set newCh" "sameVnode old v" "wfv ks old" "matches d old"
    and "uc_dom s = X @ d # Y" "doms_ok (uc_next s) (X @ d # Y)" "uc_new s = P @ v # R" "j = int (length P)"
  shows "\<exists>d' v' n'. patchChild patch old j s = Some (s \<lparr> uc_dom := X @ d' # Y, uc_new := P @ v' # R, uc_next := n' \<rparr>)
    \<and> patch_post v d (uc_next s) d' v' n' \<and> doms_ok n' (X @ d' # Y)"
proof -
  have g: "good (uc_next s) d" and dist: "distinct (map did (X @ d # Y))" using assms(7) by (auto simp: doms_ok_def)
  obtain d' v' n' where p: "patch old v d (uc_next s) = Some (d', v', n')" "patch_post v d (uc_next s) d' v' n'"
    using assms(1-5) g unfolding patch_ok_def by blast
  have "patchChild patch old j s = Some (s \<lparr> uc_dom := X @ d' # Y, uc_new := P @ v' # R, uc_next := n' \<rparr>)"
    using p(1) matches_elm [OF assms(5)] find_child_mid [OF dist] replace_mid [OF dist, of d'] assms(6,8,9)
    by (simp add: patchChild_def new_at_def)
  moreover have "doms_ok n' (X @ d' # Y)" using doms_ok_replace [OF assms(7)] p(2) by (simp add: patch_post_def)
  ultimately show ?thesis using p(2) by blast
qed

fun somes :: "'a option list \<Rightarrow> 'a list" where
  "somes [] = []"
| "somes (None # xs) = somes xs"
| "somes (Some x # xs) = x # somes xs"

lemma somes_append [simp]: "somes (xs @ ys) = somes xs @ somes ys"
  by (induction xs rule: somes.induct) auto

lemma somes_Some [simp]: "somes (map Some xs) = xs"
  by (induction xs) auto

text \<open>The parts of the three lists: what is done on the left, what is left, what is done on the right.\<close>

record parts =
  p_A :: "dom list"
  p_M :: "dom list"
  p_B :: "dom list"
  p_O1 :: "vnode option list"
  p_S :: "vnode option list"
  p_O2 :: "vnode option list"
  p_P :: "vnode list"
  p_Q :: "vnode list"
  p_R :: "vnode list"

definition parts_of :: "parts \<Rightarrow> uc \<Rightarrow> bool" where
  "parts_of p s \<longleftrightarrow>
     uc_dom s = p_A p @ p_M p @ p_B p \<and> uc_old s = p_O1 p @ p_S p @ p_O2 p \<and> uc_new s = p_P p @ p_Q p @ p_R p
     \<and> uc_oldStart s = int (length (p_O1 p)) \<and> uc_oldEnd s = int (length (p_O1 p) + length (p_S p)) - 1
     \<and> uc_newStart s = int (length (p_P p)) \<and> uc_newEnd s = int (length (p_P p) + length (p_Q p)) - 1"

definition dom_inv :: "nat \<Rightarrow> (key \<Rightarrow> string) \<Rightarrow> vnode list \<Rightarrow> parts \<Rightarrow> uc \<Rightarrow> bool" where
  "dom_inv n0 ks newCh p s \<longleftrightarrow>
     list_all2 matches (p_A p) (p_P p) \<and> list_all2 matches (p_M p) (somes (p_S p)) \<and> list_all2 matches (p_B p) (p_R p)
     \<and> doms_ok (uc_next s) (uc_dom s) \<and> (\<forall>v \<in> set (somes (p_S p)). wfv ks v)
     \<and> (\<forall>v \<in> set (p_Q p). v \<in> set newCh) \<and> map strip (uc_new s) = map strip newCh \<and> n0 \<le> uc_next s"

text \<open>Old vnodes that are used up have the key of a new vnode that is done.\<close>

definition done_keys :: "parts \<Rightarrow> key option set" where
  "done_keys p = vkey ` (set (p_P p) \<union> set (p_R p))"

definition key_inv :: "(key \<Rightarrow> string) \<Rightarrow> vnode list \<Rightarrow> parts \<Rightarrow> uc \<Rightarrow> bool" where
  "key_inv ks orig p s \<longleftrightarrow>
     length (uc_old s) = length orig
     \<and> (\<forall>i < length orig. uc_old s ! i \<noteq> None \<longrightarrow> uc_old s ! i = Some (orig ! i))
     \<and> (uc_map s = None \<longrightarrow> None \<notin> set (uc_old s))
     \<and> (\<forall>i < length orig. i < length (p_O1 p) \<or> length (p_O1 p) + length (p_S p) \<le> i \<or> uc_old s ! i = None
          \<longrightarrow> vkey (orig ! i) \<in> done_keys p)
     \<and> (\<forall>m k i. uc_map s = Some m \<longrightarrow> m k = Some i \<longrightarrow> i < length orig \<and> map_option ks (vkey (orig ! i)) = Some k)"

definition uc_inv :: "nat \<Rightarrow> (key \<Rightarrow> string) \<Rightarrow> vnode list \<Rightarrow> vnode list \<Rightarrow> parts \<Rightarrow> uc \<Rightarrow> bool" where
  "uc_inv n0 ks orig newCh p s \<longleftrightarrow> parts_of p s \<and> dom_inv n0 ks newCh p s \<and> key_inv ks orig p s"

lemma parts_more: "parts_of p s \<Longrightarrow> uc_more s \<longleftrightarrow> p_S p \<noteq> [] \<and> p_Q p \<noteq> []"
  by (auto simp: parts_of_def uc_more_def Suc_le_eq)

lemma sameVnode_key: "sameVnode a b \<Longrightarrow> vkey a = vkey b"
  by (simp add: sameVnode_def)

lemma strip_key: "strip a = strip b \<Longrightarrow> vkey a = vkey b"
  by (metis strip_sel(1))

lemma done_keys_mono:
  "set (p_P p) \<subseteq> set (p_P p') \<Longrightarrow> set (p_R p) \<subseteq> set (p_R p') \<Longrightarrow> x \<in> done_keys p \<Longrightarrow> x \<in> done_keys p'"
  by (auto simp: done_keys_def)

text \<open>The key invariant when one old vnode is used up by a new one with its key.\<close>

lemma key_inv_step:
  assumes "key_inv ks orig p s"
    and "length (uc_old s') = length (uc_old s)" "uc_map s' = uc_map s"
    and "\<And>i. i < length orig \<Longrightarrow> uc_old s' ! i \<noteq> None \<Longrightarrow> uc_old s' ! i = uc_old s ! i"
    and "uc_map s = None \<Longrightarrow> uc_old s' = uc_old s"
    and "set (p_P p) \<subseteq> set (p_P p')" "set (p_R p) \<subseteq> set (p_R p')"
    and "\<And>i. i < length orig \<Longrightarrow>
      i < length (p_O1 p') \<or> length (p_O1 p') + length (p_S p') \<le> i \<or> uc_old s' ! i = None \<Longrightarrow>
      i < length (p_O1 p) \<or> length (p_O1 p) + length (p_S p) \<le> i \<or> uc_old s ! i = None
        \<or> (\<exists>v. uc_old s ! i = Some v \<and> vkey v \<in> done_keys p')"
  shows "key_inv ks orig p' s'"
proof -
  have old: "uc_old s ! i = Some v \<Longrightarrow> i < length orig \<Longrightarrow> v = orig ! i" for i v
    using assms(1) unfolding key_inv_def by (metis option.distinct(1) option.inject)
  have used: "vkey (orig ! i) \<in> done_keys p'"
    if i: "i < length orig" "i < length (p_O1 p') \<or> length (p_O1 p') + length (p_S p') \<le> i \<or> uc_old s' ! i = None" for i
    using assms(8) [OF i]
  proof (elim disjE exE conjE)
    fix v assume "uc_old s ! i = Some v" "vkey v \<in> done_keys p'"
    then show ?thesis using old i(1) by simp
  qed (use assms(1) i(1) done_keys_mono [OF assms(6,7)] in \<open>auto simp: key_inv_def\<close>)
  have a: "length (uc_old s) = length orig" "\<And>i. i < length orig \<Longrightarrow> uc_old s ! i \<noteq> None \<Longrightarrow> uc_old s ! i = Some (orig ! i)"
    "uc_map s = None \<Longrightarrow> None \<notin> set (uc_old s)"
    "\<And>m k i. uc_map s = Some m \<Longrightarrow> m k = Some i \<Longrightarrow> i < length orig \<and> map_option ks (vkey (orig ! i)) = Some k"
    using assms(1) unfolding key_inv_def by blast+
  show ?thesis unfolding key_inv_def
  proof (intro conjI allI impI)
    show "length (uc_old s') = length orig" using a(1) assms(2) by simp
    show "uc_old s' ! i = Some (orig ! i)" if "i < length orig" "uc_old s' ! i \<noteq> None" for i
      using a(2) assms(4) that by metis
    show "None \<notin> set (uc_old s')" if "uc_map s' = None" using that a(3) assms(3,5) by simp
    show "vkey (orig ! i) \<in> done_keys p'"
      if "i < length orig" "i < length (p_O1 p') \<or> length (p_O1 p') + length (p_S p') \<le> i \<or> uc_old s' ! i = None" for i
      using used [OF that] .
    show "i < length orig" if "uc_map s' = Some m" "m k = Some i" for m k i
      using a(4) [of m k i] assms(3) that by metis
    show "map_option ks (vkey (orig ! i)) = Some k" if "uc_map s' = Some m" "m k = Some i" for m k i
      using a(4) [of m k i] assms(3) that by metis
  qed
qed

lemma doms_ok_mid: "doms_ok n (X @ d # Y) \<Longrightarrow> distinct (map did (X @ d # Y))"
  by (simp add: doms_ok_def)

lemma list_all2_snoc [simp]: "list_all2 P (xs @ [x]) (ys @ [y]) \<longleftrightarrow> list_all2 P xs ys \<and> P x y"
proof (cases "length xs = length ys")
  case False
  then show ?thesis using list_all2_lengthD [of P xs ys] list_all2_lengthD [of P "xs @ [x]" "ys @ [y]"] by auto
qed (simp add: list_all2_append)

lemma parts_sel:
  assumes inv: "uc_inv n0 ks orig newCh p s"
  shows "uc_dom s = p_A p @ p_M p @ p_B p" "uc_old s = p_O1 p @ p_S p @ p_O2 p" "uc_new s = p_P p @ p_Q p @ p_R p"
  "uc_oldStart s = int (length (p_O1 p))" "uc_oldEnd s = int (length (p_O1 p) + length (p_S p)) - 1"
  "uc_newStart s = int (length (p_P p))" "uc_newEnd s = int (length (p_P p) + length (p_Q p)) - 1"
  using inv by (simp_all add: uc_inv_def parts_of_def)

lemma dom_inv_sel:
  assumes inv: "uc_inv n0 ks orig newCh p s"
  shows "list_all2 matches (p_A p) (p_P p)" "list_all2 matches (p_M p) (somes (p_S p))" "list_all2 matches (p_B p) (p_R p)"
  "doms_ok (uc_next s) (uc_dom s)" "\<And>v. v \<in> set (somes (p_S p)) \<Longrightarrow> wfv ks v" "\<And>v. v \<in> set (p_Q p) \<Longrightarrow> v \<in> set newCh"
  "map strip (uc_new s) = map strip newCh" "n0 \<le> uc_next s"
  using inv by (simp_all add: uc_inv_def dom_inv_def)

lemma uc_key_inv: "uc_inv n0 ks orig newCh p s \<Longrightarrow> key_inv ks orig p s"
  by (simp add: uc_inv_def)

lemma hole_left:
  assumes inv: "uc_inv n0 ks orig newCh p s" and S: "p_S p = None # S'"
  shows "\<exists>p'. uc_inv n0 ks orig newCh p' (s \<lparr> uc_oldStart := uc_oldStart s + 1 \<rparr>)"
proof -
  note parts_sel = parts_sel [OF inv] and dom_inv_sel = dom_inv_sel [OF inv] and key_inv = uc_key_inv [OF inv]
  let ?p = "p \<lparr> p_O1 := p_O1 p @ [None], p_S := S' \<rparr>"
  have "key_inv ks orig ?p (s \<lparr> uc_oldStart := uc_oldStart s + 1 \<rparr>)"
    by (rule key_inv_step [OF key_inv]) (use S parts_sel(2) in \<open>auto simp: less_Suc_eq nth_append\<close>)
  then show ?thesis using parts_sel dom_inv_sel S
    by (intro exI [of _ ?p]) (simp add: uc_inv_def parts_of_def dom_inv_def)
qed

lemma hole_right:
  assumes inv: "uc_inv n0 ks orig newCh p s" and S: "p_S p = S' @ [None]"
  shows "\<exists>p'. uc_inv n0 ks orig newCh p' (s \<lparr> uc_oldEnd := uc_oldEnd s - 1 \<rparr>)"
proof -
  note parts_sel = parts_sel [OF inv] and dom_inv_sel = dom_inv_sel [OF inv] and key_inv = uc_key_inv [OF inv]
  let ?p = "p \<lparr> p_O2 := None # p_O2 p, p_S := S' \<rparr>"
  have "key_inv ks orig ?p (s \<lparr> uc_oldEnd := uc_oldEnd s - 1 \<rparr>)"
  proof (rule key_inv_step [OF key_inv])
    fix i assume i: "i < length (p_O1 ?p) \<or> length (p_O1 ?p) + length (p_S ?p) \<le> i \<or> uc_old (s \<lparr> uc_oldEnd := uc_oldEnd s - 1 \<rparr>) ! i = None"
    have "uc_old s ! (length (p_O1 p) + length S') = None" using parts_sel(2) S by (simp add: nth_append)
    then show "i < length (p_O1 p) \<or> length (p_O1 p) + length (p_S p) \<le> i \<or> uc_old s ! i = None
        \<or> (\<exists>v. uc_old s ! i = Some v \<and> vkey v \<in> done_keys ?p)"
      using i S by (cases "i = length (p_O1 p) + length S'") auto
  qed simp_all
  then show ?thesis using parts_sel dom_inv_sel S
    by (intro exI [of _ ?p]) (simp add: uc_inv_def parts_of_def dom_inv_def)
qed

lemma start_start:
  assumes inv: "uc_inv n0 ks orig newCh p s" and ok: "patch_ok ks patch newCh"
    and S: "p_S p = Some v # S'" and Q: "p_Q p = w # Q'" and same: "sameVnode v w"
  shows "\<exists>p' s'. patchChild patch v (uc_newStart s) s = Some s'
    \<and> uc_inv n0 ks orig newCh p' (s' \<lparr> uc_oldStart := uc_oldStart s + 1, uc_newStart := uc_newStart s + 1 \<rparr>)"
proof -
  note parts_sel = parts_sel [OF inv] and dom_inv_sel = dom_inv_sel [OF inv] and key_inv = uc_key_inv [OF inv]
  obtain d M' where M: "p_M p = d # M'" "matches d v" "list_all2 matches M' (somes S')"
    using dom_inv_sel(2) S by (auto simp: list_all2_Cons2)
  have "\<exists>d' v' n'. patchChild patch v (uc_newStart s) s
      = Some (s \<lparr> uc_dom := p_A p @ d' # M' @ p_B p, uc_new := p_P p @ v' # Q' @ p_R p, uc_next := n' \<rparr>)
    \<and> patch_post w d (uc_next s) d' v' n' \<and> doms_ok n' (p_A p @ d' # M' @ p_B p)"
    by (rule patchChild_mid [OF ok _ same]) (use dom_inv_sel parts_sel S Q M in auto)
  then obtain d' v' n' where r: "patchChild patch v (uc_newStart s) s
      = Some (s \<lparr> uc_dom := p_A p @ d' # M' @ p_B p, uc_new := p_P p @ v' # Q' @ p_R p, uc_next := n' \<rparr>)"
    and post: "matches d' v'" "strip v' = strip w" "uc_next s \<le> n'" and doms: "doms_ok n' (p_A p @ d' # M' @ p_B p)"
    unfolding patch_post_def by blast
  let ?p = "p \<lparr> p_A := p_A p @ [d'], p_M := M', p_O1 := p_O1 p @ [Some v], p_S := S', p_P := p_P p @ [v'], p_Q := Q' \<rparr>"
  let ?s = "s \<lparr> uc_dom := p_A p @ d' # M' @ p_B p, uc_new := p_P p @ v' # Q' @ p_R p, uc_next := n',
    uc_oldStart := uc_oldStart s + 1, uc_newStart := uc_newStart s + 1 \<rparr>"
  have k: "vkey v \<in> done_keys ?p" using sameVnode_key [OF same] strip_key [OF post(2)] by (simp add: done_keys_def)
  have "key_inv ks orig ?p ?s"
    by (rule key_inv_step [OF key_inv]) (use S parts_sel(2) k in \<open>auto simp: less_Suc_eq nth_append\<close>)
  then have "uc_inv n0 ks orig newCh ?p ?s"
    using parts_sel dom_inv_sel S Q M post doms
    by (auto simp: uc_inv_def parts_of_def dom_inv_def)
  with r show ?thesis by (intro exI conjI) (assumption, simp)
qed

lemma end_end:
  assumes inv: "uc_inv n0 ks orig newCh p s" and ok: "patch_ok ks patch newCh"
    and S: "p_S p = S' @ [Some v]" and Q: "p_Q p = Q' @ [w]" and same: "sameVnode v w"
  shows "\<exists>p' s'. patchChild patch v (uc_newEnd s) s = Some s'
    \<and> uc_inv n0 ks orig newCh p' (s' \<lparr> uc_oldEnd := uc_oldEnd s - 1, uc_newEnd := uc_newEnd s - 1 \<rparr>)"
proof -
  note parts_sel = parts_sel [OF inv] and dom_inv_sel = dom_inv_sel [OF inv] and key_inv = uc_key_inv [OF inv]
  obtain d M' where M: "p_M p = M' @ [d]" "matches d v" "list_all2 matches M' (somes S')"
    using dom_inv_sel(2) S by (auto simp: list_all2_append2 list_all2_Cons2)
  have "\<exists>d' v' n'. patchChild patch v (uc_newEnd s) s
      = Some (s \<lparr> uc_dom := (p_A p @ M') @ d' # p_B p, uc_new := (p_P p @ Q') @ v' # p_R p, uc_next := n' \<rparr>)
    \<and> patch_post w d (uc_next s) d' v' n' \<and> doms_ok n' ((p_A p @ M') @ d' # p_B p)"
    by (rule patchChild_mid [OF ok _ same]) (use dom_inv_sel parts_sel S Q M in auto)
  then obtain d' v' n' where r: "patchChild patch v (uc_newEnd s) s
      = Some (s \<lparr> uc_dom := (p_A p @ M') @ d' # p_B p, uc_new := (p_P p @ Q') @ v' # p_R p, uc_next := n' \<rparr>)"
    and post: "matches d' v'" "strip v' = strip w" "uc_next s \<le> n'" and doms: "doms_ok n' ((p_A p @ M') @ d' # p_B p)"
    unfolding patch_post_def by blast
  let ?p = "p \<lparr> p_B := d' # p_B p, p_M := M', p_O2 := Some v # p_O2 p, p_S := S', p_R := v' # p_R p, p_Q := Q' \<rparr>"
  let ?s = "s \<lparr> uc_dom := (p_A p @ M') @ d' # p_B p, uc_new := (p_P p @ Q') @ v' # p_R p, uc_next := n',
    uc_oldEnd := uc_oldEnd s - 1, uc_newEnd := uc_newEnd s - 1 \<rparr>"
  have k: "vkey v \<in> done_keys ?p" using sameVnode_key [OF same] strip_key [OF post(2)] by (simp add: done_keys_def)
  have "key_inv ks orig ?p ?s"
    by (rule key_inv_step [OF key_inv]) (use S parts_sel(2) k in \<open>auto simp: nth_append nth_Cons' split: if_splits\<close>)
  then have "uc_inv n0 ks orig newCh ?p ?s"
    using parts_sel dom_inv_sel S Q M post doms
    by (auto simp: uc_inv_def parts_of_def dom_inv_def)
  with r show ?thesis by (intro exI conjI) (assumption, simp)
qed

lemma start_end:
  assumes inv: "uc_inv n0 ks orig newCh p s" and ok: "patch_ok ks patch newCh"
    and S: "p_S p = Some v # S' @ [Some u]" and Q: "p_Q p = Q' @ [w]" and same: "sameVnode v w"
  shows "\<exists>p' s' s''. patchChild patch v (uc_newEnd s) s = Some s'
    \<and> moveChild True v (\<lambda>ds. Option.bind (velm u) (\<lambda>e. nextSibling e ds)) s' = Some s''
    \<and> uc_inv n0 ks orig newCh p' (s'' \<lparr> uc_oldStart := uc_oldStart s + 1, uc_newEnd := uc_newEnd s - 1 \<rparr>)"
proof -
  note parts_sel = parts_sel [OF inv] and dom_inv_sel = dom_inv_sel [OF inv] and key_inv = uc_key_inv [OF inv]
  obtain d M' du where M: "p_M p = d # M' @ [du]" "matches d v" "list_all2 matches M' (somes S')" "matches du u"
    using dom_inv_sel(2) S by (auto simp: list_all2_append2 list_all2_Cons2)
  have "\<exists>d' v' n'. patchChild patch v (uc_newEnd s) s
      = Some (s \<lparr> uc_dom := p_A p @ d' # M' @ du # p_B p, uc_new := (p_P p @ Q') @ v' # p_R p, uc_next := n' \<rparr>)
    \<and> patch_post w d (uc_next s) d' v' n' \<and> doms_ok n' (p_A p @ d' # M' @ du # p_B p)"
    by (rule patchChild_mid [OF ok _ same]) (use dom_inv_sel parts_sel S Q M in auto)
  then obtain d' v' n' where r: "patchChild patch v (uc_newEnd s) s
      = Some (s \<lparr> uc_dom := p_A p @ d' # M' @ du # p_B p, uc_new := (p_P p @ Q') @ v' # p_R p, uc_next := n' \<rparr>)"
    and post: "matches d' v'" "strip v' = strip w" "uc_next s \<le> n'" "did d' = did d"
    and doms: "doms_ok n' (p_A p @ d' # M' @ du # p_B p)"
    unfolding patch_post_def by blast
  have dist: "distinct (map did (p_A p @ d' # (M' @ [du]) @ p_B p))" using doms by (simp add: doms_ok_def)
  have mv: "moveBefore (did d) (case p_B p of [] \<Rightarrow> None | e # _ \<Rightarrow> Some (did e)) (p_A p @ d' # M' @ du # p_B p)
      = Some (p_A p @ M' @ du # d' # p_B p)"
    using moveBefore_right [OF dist] post(4) by simp
  have sib: "nextSibling (did du) (p_A p @ d' # M' @ du # p_B p) = (case p_B p of [] \<Rightarrow> None | e # _ \<Rightarrow> Some (did e))"
    using nextSibling_mid [of "p_A p @ d' # M'" du "p_B p"] dist by simp
  have doms2: "doms_ok n' (p_A p @ M' @ du # d' # p_B p)"
    using doms_ok_perm [of "p_A p @ M' @ du # d' # p_B p" "p_A p @ d' # M' @ du # p_B p"] doms by (simp add: ac_simps)
  let ?p = "p \<lparr> p_B := d' # p_B p, p_M := M' @ [du], p_O1 := p_O1 p @ [Some v], p_S := S' @ [Some u],
    p_R := v' # p_R p, p_Q := Q' \<rparr>"
  let ?s1 = "s \<lparr> uc_dom := p_A p @ d' # M' @ du # p_B p, uc_new := (p_P p @ Q') @ v' # p_R p, uc_next := n' \<rparr>"
  let ?s2 = "?s1 \<lparr> uc_dom := p_A p @ M' @ du # d' # p_B p \<rparr>"
  let ?s = "?s2 \<lparr> uc_oldStart := uc_oldStart s + 1, uc_newEnd := uc_newEnd s - 1 \<rparr>"
  have mvc: "moveChild True v (\<lambda>ds. Option.bind (velm u) (\<lambda>e. nextSibling e ds)) ?s1 = Some ?s2"
    using mv sib matches_elm [OF M(2)] matches_elm [OF M(4)] by (simp add: moveChild_def)
  have k: "vkey v \<in> done_keys ?p" using sameVnode_key [OF same] strip_key [OF post(2)] by (simp add: done_keys_def)
  have "key_inv ks orig ?p ?s"
    by (rule key_inv_step [OF key_inv]) (use S parts_sel(2) k in \<open>auto simp: less_Suc_eq nth_append\<close>)
  then have "uc_inv n0 ks orig newCh ?p ?s"
    using parts_sel dom_inv_sel S Q M post doms2
    by (auto simp: uc_inv_def parts_of_def dom_inv_def)
  with r mvc show ?thesis by blast
qed

lemma end_start:
  assumes inv: "uc_inv n0 ks orig newCh p s" and ok: "patch_ok ks patch newCh"
    and S: "p_S p = Some u # S' @ [Some v]" and Q: "p_Q p = w # Q'" and same: "sameVnode v w"
  shows "\<exists>p' s' s''. patchChild patch v (uc_newStart s) s = Some s'
    \<and> moveChild True v (\<lambda>ds. velm u) s' = Some s''
    \<and> uc_inv n0 ks orig newCh p' (s'' \<lparr> uc_oldEnd := uc_oldEnd s - 1, uc_newStart := uc_newStart s + 1 \<rparr>)"
proof -
  note parts_sel = parts_sel [OF inv] and dom_inv_sel = dom_inv_sel [OF inv] and key_inv = uc_key_inv [OF inv]
  obtain d M' du where M: "p_M p = du # M' @ [d]" "matches d v" "list_all2 matches M' (somes S')" "matches du u"
    using dom_inv_sel(2) S by (auto simp: list_all2_append2 list_all2_Cons2)
  have "\<exists>d' v' n'. patchChild patch v (uc_newStart s) s
      = Some (s \<lparr> uc_dom := (p_A p @ du # M') @ d' # p_B p, uc_new := p_P p @ v' # Q' @ p_R p, uc_next := n' \<rparr>)
    \<and> patch_post w d (uc_next s) d' v' n' \<and> doms_ok n' ((p_A p @ du # M') @ d' # p_B p)"
    by (rule patchChild_mid [OF ok _ same]) (use dom_inv_sel parts_sel S Q M in auto)
  then obtain d' v' n' where r: "patchChild patch v (uc_newStart s) s
      = Some (s \<lparr> uc_dom := (p_A p @ du # M') @ d' # p_B p, uc_new := p_P p @ v' # Q' @ p_R p, uc_next := n' \<rparr>)"
    and post: "matches d' v'" "strip v' = strip w" "uc_next s \<le> n'" "did d' = did d"
    and doms: "doms_ok n' ((p_A p @ du # M') @ d' # p_B p)"
    unfolding patch_post_def by blast
  have mv: "moveBefore (did d) (Some (did du)) ((p_A p @ du # M') @ d' # p_B p) = Some (p_A p @ d' # du # M' @ p_B p)"
    using moveBefore_left [of "p_A p" du M' d' "p_B p"] post(4) doms by (simp add: doms_ok_def)
  have doms2: "doms_ok n' (p_A p @ d' # du # M' @ p_B p)"
    using doms_ok_perm [of "p_A p @ d' # du # M' @ p_B p" "(p_A p @ du # M') @ d' # p_B p"] doms by (simp add: ac_simps)
  let ?p = "p \<lparr> p_A := p_A p @ [d'], p_M := du # M', p_O2 := Some v # p_O2 p, p_S := Some u # S',
    p_P := p_P p @ [v'], p_Q := Q' \<rparr>"
  let ?s1 = "s \<lparr> uc_dom := (p_A p @ du # M') @ d' # p_B p, uc_new := p_P p @ v' # Q' @ p_R p, uc_next := n' \<rparr>"
  let ?s2 = "?s1 \<lparr> uc_dom := p_A p @ d' # du # M' @ p_B p \<rparr>"
  let ?s = "?s2 \<lparr> uc_oldEnd := uc_oldEnd s - 1, uc_newStart := uc_newStart s + 1 \<rparr>"
  have mvc: "moveChild True v (\<lambda>ds. velm u) ?s1 = Some ?s2"
    using mv matches_elm [OF M(2)] matches_elm [OF M(4)] by (simp add: moveChild_def)
  have k: "vkey v \<in> done_keys ?p" using sameVnode_key [OF same] strip_key [OF post(2)] by (simp add: done_keys_def)
  have "key_inv ks orig ?p ?s"
    by (rule key_inv_step [OF key_inv]) (use S parts_sel(2) k in \<open>auto simp: nth_append nth_Cons' split: if_splits\<close>)
  then have "uc_inv n0 ks orig newCh ?p ?s"
    using parts_sel dom_inv_sel S Q M post doms2
    by (auto simp: uc_inv_def parts_of_def dom_inv_def)
  with r mvc show ?thesis by blast
qed

text \<open>The key map: it is built while no old vnode of the loop is used up out of order.\<close>

lemma createKeyToOldIdx_ok:
  assumes "\<And>j. i \<le> j \<Longrightarrow> j < i + n \<Longrightarrow> j < length ch \<and> ch ! j \<noteq> None"
    and "\<And>k j. m k = Some j \<Longrightarrow> j < length ch \<and> (\<exists>v. ch ! j = Some v \<and> map_option ks (vkey v) = Some k)"
  shows "\<exists>m'. createKeyToOldIdx ks ch i n m = Some m'
    \<and> (\<forall>k j. m' k = Some j \<longrightarrow> j < length ch \<and> (\<exists>v. ch ! j = Some v \<and> map_option ks (vkey v) = Some k))"
  using assms
proof (induction n arbitrary: i m)
  case (Suc n)
  obtain v where v: "i < length ch" "ch ! i = Some v" using Suc.prems(1) [of i] by auto
  let ?m = "case vkey v of None \<Rightarrow> m | Some k \<Rightarrow> setName (ks k) i m"
  have "\<exists>m'. createKeyToOldIdx ks ch (Suc i) n ?m = Some m'
    \<and> (\<forall>k j. m' k = Some j \<longrightarrow> j < length ch \<and> (\<exists>v. ch ! j = Some v \<and> map_option ks (vkey v) = Some k))"
    by (rule Suc.IH) (use Suc.prems v in \<open>auto simp: setName_def split: option.splits if_splits\<close>)
  with v show ?case by simp
qed simp

lemma keyMap_inv:
  assumes inv: "uc_inv n0 ks orig newCh p s"
  shows "\<exists>m. keyMap ks s = Some m \<and> uc_inv n0 ks orig newCh p (s \<lparr> uc_map := Some m \<rparr>)"
proof (cases "uc_map s")
  case (Some m)
  then have s: "s \<lparr> uc_map := Some m \<rparr> = s" by simp
  have "keyMap ks s = Some m" using Some by (simp add: keyMap_def)
  moreover have "uc_inv n0 ks orig newCh p (s \<lparr> uc_map := Some m \<rparr>)" unfolding s by (rule inv)
  ultimately show ?thesis by blast
next
  case None
  note parts_sel = parts_sel [OF inv] and key_inv = uc_key_inv [OF inv]
  have old: "None \<notin> set (uc_old s)" "length (uc_old s) = length orig"
    "\<And>i. i < length orig \<Longrightarrow> uc_old s ! i \<noteq> None \<Longrightarrow> uc_old s ! i = Some (orig ! i)"
    using key_inv None unfolding key_inv_def by blast+
  have "\<exists>m. createKeyToOldIdx ks (uc_old s) (length (p_O1 p)) (length (p_S p)) Map.empty = Some m
    \<and> (\<forall>k j. m k = Some j \<longrightarrow> j < length (uc_old s) \<and> (\<exists>v. uc_old s ! j = Some v \<and> map_option ks (vkey v) = Some k))"
  proof (rule createKeyToOldIdx_ok)
    fix j assume "length (p_O1 p) \<le> j" "j < length (p_O1 p) + length (p_S p)"
    then have "j < length (uc_old s)" using parts_sel(2) by simp
    then show "j < length (uc_old s) \<and> uc_old s ! j \<noteq> None" using old(1) by (metis nth_mem)
  qed simp
  then obtain m where m: "createKeyToOldIdx ks (uc_old s) (length (p_O1 p)) (length (p_S p)) Map.empty = Some m"
    "\<And>k j. m k = Some j \<Longrightarrow> j < length (uc_old s) \<and> (\<exists>v. uc_old s ! j = Some v \<and> map_option ks (vkey v) = Some k)"
    by blast
  have same: "parts_of p (s \<lparr> uc_map := Some m \<rparr>) = parts_of p s" "dom_inv n0 ks newCh p (s \<lparr> uc_map := Some m \<rparr>) = dom_inv n0 ks newCh p s"
    by (simp_all add: parts_of_def dom_inv_def)
  have "keyMap ks s = Some m" using None m(1) parts_sel(4,5) by (simp add: keyMap_def)
  moreover have "\<And>k j. m k = Some j \<Longrightarrow> j < length orig \<and> map_option ks (vkey (orig ! j)) = Some k"
    using m(2) old by (metis option.discI option.inject)
  then have "key_inv ks orig p (s \<lparr> uc_map := Some m \<rparr>)" using key_inv unfolding key_inv_def by simp
  then have "uc_inv n0 ks orig newCh p (s \<lparr> uc_map := Some m \<rparr>)"
    using inv same unfolding uc_inv_def by blast
  ultimately show ?thesis by blast
qed

lemma createChild_inv:
  assumes inv: "uc_inv n0 ks orig newCh p s" and wf: "\<forall>v \<in> set newCh. wfv ks v"
    and S: "p_S p = Some u # S'" and Q: "p_Q p = w # Q'"
  shows "\<exists>p'. uc_inv n0 ks orig newCh p' ((createChild (velm u) (uc_newStart s) s) \<lparr> uc_newStart := uc_newStart s + 1 \<rparr>)"
proof -
  note parts_sel = parts_sel [OF inv] and dom_inv_sel = dom_inv_sel [OF inv] and key_inv = uc_key_inv [OF inv]
  obtain M' du where M: "p_M p = du # M'" "list_all2 matches M' (somes S')" "matches du u"
    using dom_inv_sel(2) S by (auto simp: list_all2_Cons2)
  obtain d v' n' where c: "createElm w (uc_next s) = (d, v', n')" by (metis prod_cases3)
  have ok: "matches d v'" "strip v' = strip w" "good n' d" "did d = uc_next s" "uc_next s < n'"
    using createElm_ok [OF c, of ks] wf dom_inv_sel(6) [of w] Q by auto
  have w: "new_at s (uc_newStart s) = w" using parts_sel(3,6) Q by (simp add: new_at_def nth_append)
  have dist: "distinct (map did (p_A p @ du # M' @ p_B p))" using dom_inv_sel(4) parts_sel(1) M by (simp add: doms_ok_def)
  have ins: "insertNew d (Some (did du)) (p_A p @ du # M' @ p_B p) = p_A p @ d # du # M' @ p_B p"
    by (rule insertNew_mid) (use dist in auto)
  let ?s = "(createChild (velm u) (uc_newStart s) s) \<lparr> uc_newStart := uc_newStart s + 1 \<rparr>"
  have s: "?s = s \<lparr> uc_dom := p_A p @ d # du # M' @ p_B p, uc_new := p_P p @ v' # Q' @ p_R p, uc_next := n',
      uc_newStart := uc_newStart s + 1 \<rparr>"
    using c w ins parts_sel Q M matches_elm [OF M(3)] by (simp add: createChild_def list_update_append)
  have fresh: "did d \<notin> did ` set (p_A p @ du # M' @ p_B p)"
  proof
    assume "did d \<in> did ` set (p_A p @ du # M' @ p_B p)"
    then obtain x where x: "x \<in> set (uc_dom s)" "did x = uc_next s" using parts_sel(1) M(1) ok(4) by fastforce
    then have "good (uc_next s) x" using dom_inv_sel(4) by (simp add: doms_ok_def)
    then show False using good_did x(2) by fastforce
  qed
  have "doms_ok n' (p_A p @ du # M' @ p_B p)"
    using doms_ok_mono [OF dom_inv_sel(4), of n'] parts_sel(1) M ok(5) by simp
  then have doms: "doms_ok n' (p_A p @ d # du # M' @ p_B p)" using fresh ok(3) by (auto simp: doms_ok_def)
  let ?p = "p \<lparr> p_A := p_A p @ [d], p_P := p_P p @ [v'], p_Q := Q' \<rparr>"
  have "key_inv ks orig ?p ?s" unfolding s by (rule key_inv_step [OF key_inv]) auto
  then have "uc_inv n0 ks orig newCh ?p ?s" unfolding s
    using parts_sel dom_inv_sel S Q M ok doms by (auto simp: uc_inv_def parts_of_def dom_inv_def)
  then show ?thesis by blast
qed

text \<open>A keyed old vnode that the map finds is still there.\<close>

lemma key_in_keysOf:
  "w \<in> set vs \<Longrightarrow> map_option ks (vkey w) = Some k \<Longrightarrow> k \<in> set (keysOf ks vs)"
  by (induction vs) (auto simp: keysOf_def List.map_filter_simps split: option.splits)

lemma keysOf_append: "keysOf ks (xs @ ys) = keysOf ks xs @ keysOf ks ys"
  by (induction xs) (auto simp: keysOf_def List.map_filter_simps split: option.split)

lemma keysOf_Cons: "keysOf ks (v # vs) = (case map_option ks (vkey v) of None \<Rightarrow> keysOf ks vs | Some k \<Rightarrow> k # keysOf ks vs)"
  by (simp add: keysOf_def List.map_filter_simps split: option.split)

lemma found_in_loop:
  assumes inv: "uc_inv n0 ks orig newCh p s" and dist: "distinct (keysOf ks newCh)"
    and m: "uc_map s = Some m" "m (ks k) = Some idx" and Q: "p_Q p = w # Q'" and k: "vkey w = Some k"
  shows "\<exists>S1 S2 e. p_S p = S1 @ Some e # S2 \<and> idx = length (p_O1 p) + length S1"
proof -
  note parts_sel = parts_sel [OF inv] and dom_inv_sel = dom_inv_sel [OF inv] and key_inv = uc_key_inv [OF inv]
  have idx: "idx < length orig" "map_option ks (vkey (orig ! idx)) = Some (ks k)"
    and used: "idx < length (p_O1 p) \<or> length (p_O1 p) + length (p_S p) \<le> idx \<or> uc_old s ! idx = None
      \<Longrightarrow> vkey (orig ! idx) \<in> done_keys p" and len: "length (uc_old s) = length orig"
    using key_inv m unfolding key_inv_def by blast+
  have d: "distinct (keysOf ks (p_P p @ w # Q' @ p_R p))"
    using dist dom_inv_sel(7) parts_sel(3) Q by (metis append_Cons keysOf_strip)
  have "vkey (orig ! idx) \<notin> done_keys p"
  proof
    assume "vkey (orig ! idx) \<in> done_keys p"
    then obtain v where v: "v \<in> set (p_P p) \<or> v \<in> set (p_R p)" "map_option ks (vkey v) = Some (ks k)"
      using idx(2) unfolding done_keys_def by (smt (verit) UnE imageE)
    then have "ks k \<in> set (keysOf ks (p_P p)) \<union> set (keysOf ks (p_R p))" using key_in_keysOf by fastforce
    then show False using d k by (auto simp: keysOf_append keysOf_Cons)
  qed
  then have a: "length (p_O1 p) \<le> idx" "idx < length (p_O1 p) + length (p_S p)" "uc_old s ! idx \<noteq> None"
    using used by force+
  let ?i = "idx - length (p_O1 p)"
  have i: "?i < length (p_S p)" using a by simp
  have "p_S p ! ?i \<noteq> None" using a i parts_sel(2) by (simp add: nth_append)
  then obtain e where "p_S p ! ?i = Some e" by blast
  then have "p_S p = take ?i (p_S p) @ Some e # drop (Suc ?i) (p_S p)" using id_take_nth_drop [OF i] by simp
  moreover have "idx = length (p_O1 p) + length (take ?i (p_S p))" using a i by simp
  ultimately show ?thesis by blast
qed

lemma keyed_move:
  assumes inv: "uc_inv n0 ks orig newCh p s" and ok: "patch_ok ks patch newCh"
    and S: "p_S p = Some u # S1 @ Some v # S2" and Q: "p_Q p = w # Q'" and same: "sameVnode v w" and m: "uc_map s = Some m"
  shows "\<exists>p' s' s''. patchChild patch v (uc_newStart s) s = Some s'
    \<and> moveChild True (new_at s' (uc_newStart s')) (\<lambda>ds. velm u)
        (s' \<lparr> uc_old := (uc_old s') [length (p_O1 p) + Suc (length S1) := None] \<rparr>) = Some s''
    \<and> uc_inv n0 ks orig newCh p' (s'' \<lparr> uc_newStart := uc_newStart s + 1 \<rparr>)"
proof -
  note parts_sel = parts_sel [OF inv] and dom_inv_sel = dom_inv_sel [OF inv] and key_inv = uc_key_inv [OF inv]
  obtain du M1 d M2 where M: "p_M p = du # M1 @ d # M2" "matches d v" "list_all2 matches M1 (somes S1)"
    "matches du u" "list_all2 matches M2 (somes S2)"
    using dom_inv_sel(2) S by (auto simp: list_all2_append2 list_all2_Cons2)
  have "\<exists>d' v' n'. patchChild patch v (uc_newStart s) s
      = Some (s \<lparr> uc_dom := (p_A p @ du # M1) @ d' # M2 @ p_B p, uc_new := p_P p @ v' # Q' @ p_R p, uc_next := n' \<rparr>)
    \<and> patch_post w d (uc_next s) d' v' n' \<and> doms_ok n' ((p_A p @ du # M1) @ d' # M2 @ p_B p)"
    by (rule patchChild_mid [OF ok _ same]) (use dom_inv_sel parts_sel S Q M in auto)
  then obtain d' v' n' where r: "patchChild patch v (uc_newStart s) s
      = Some (s \<lparr> uc_dom := (p_A p @ du # M1) @ d' # M2 @ p_B p, uc_new := p_P p @ v' # Q' @ p_R p, uc_next := n' \<rparr>)"
    and post: "matches d' v'" "strip v' = strip w" "uc_next s \<le> n'" "did d' = did d"
    and doms: "doms_ok n' ((p_A p @ du # M1) @ d' # M2 @ p_B p)"
    unfolding patch_post_def by blast
  let ?s1 = "s \<lparr> uc_dom := (p_A p @ du # M1) @ d' # M2 @ p_B p, uc_new := p_P p @ v' # Q' @ p_R p, uc_next := n' \<rparr>"
  let ?s2 = "?s1 \<lparr> uc_old := p_O1 p @ (Some u # S1 @ None # S2) @ p_O2 p \<rparr>"
  let ?s3 = "?s2 \<lparr> uc_dom := p_A p @ d' # du # M1 @ M2 @ p_B p \<rparr>"
  let ?s = "?s3 \<lparr> uc_newStart := uc_newStart s + 1 \<rparr>"
  have mv: "moveBefore (did d') (Some (did du)) ((p_A p @ du # M1) @ d' # M2 @ p_B p) = Some (p_A p @ d' # du # M1 @ M2 @ p_B p)"
    using moveBefore_left [of "p_A p" du M1 d' "M2 @ p_B p"] doms by (simp add: doms_ok_def)
  have hole: "(uc_old ?s1) [length (p_O1 p) + Suc (length S1) := None] = p_O1 p @ (Some u # S1 @ None # S2) @ p_O2 p"
    using parts_sel(2) S by (simp add: list_update_append)
  have w: "new_at ?s1 (uc_newStart ?s1) = v'" using parts_sel(6) by (simp add: new_at_def)
  have mvc: "moveChild True (new_at ?s1 (uc_newStart ?s1)) (\<lambda>ds. velm u)
      (?s1 \<lparr> uc_old := (uc_old ?s1) [length (p_O1 p) + Suc (length S1) := None] \<rparr>) = Some ?s3"
    unfolding hole w using mv matches_elm [OF post(1)] matches_elm [OF M(4)] by (simp add: moveChild_def)
  have doms2: "doms_ok n' (p_A p @ d' # du # M1 @ M2 @ p_B p)"
    using doms_ok_perm [of "p_A p @ d' # du # M1 @ M2 @ p_B p" "(p_A p @ du # M1) @ d' # M2 @ p_B p"] doms
    by (simp add: ac_simps)
  let ?p = "p \<lparr> p_A := p_A p @ [d'], p_M := du # M1 @ M2, p_S := Some u # S1 @ None # S2, p_P := p_P p @ [v'], p_Q := Q' \<rparr>"
  have k: "vkey v \<in> done_keys ?p" using sameVnode_key [OF same] strip_key [OF post(2)] by (simp add: done_keys_def)
  have upd: "uc_old ?s = (uc_old s) [length (p_O1 p) + Suc (length S1) := None]"
    using parts_sel(2) S by (simp add: list_update_append)
  have at: "uc_old s ! (length (p_O1 p) + Suc (length S1)) = Some v" using parts_sel(2) S by (simp add: nth_append)
  have "key_inv ks orig ?p ?s"
  proof (rule key_inv_step [OF key_inv])
    fix i assume i: "i < length (p_O1 ?p) \<or> length (p_O1 ?p) + length (p_S ?p) \<le> i \<or> uc_old ?s ! i = None"
    show "i < length (p_O1 p) \<or> length (p_O1 p) + length (p_S p) \<le> i \<or> uc_old s ! i = None
        \<or> (\<exists>v. uc_old s ! i = Some v \<and> vkey v \<in> done_keys ?p)"
    proof (cases "i = length (p_O1 p) + Suc (length S1)")
      case False
      then have "uc_old ?s ! i = uc_old s ! i" unfolding upd by simp
      then show ?thesis using i S by auto
    qed (use at k in auto)
  next
    fix i assume "uc_old ?s ! i \<noteq> None"
    then show "uc_old ?s ! i = uc_old s ! i" unfolding upd by (metis list_update_beyond not_le nth_list_update_eq nth_list_update_neq)
  qed (use m parts_sel(2) S in auto)
  then have "uc_inv n0 ks orig newCh ?p ?s"
    using parts_sel dom_inv_sel S Q M post doms2
    by (auto simp: uc_inv_def parts_of_def dom_inv_def list_all2_appendI)
  with r mvc show ?thesis by blast
qed

definition children_ok :: "(key \<Rightarrow> string) \<Rightarrow> vnode list \<Rightarrow> vnode list \<Rightarrow> patcher \<Rightarrow> bool" where
  "children_ok ks orig newCh patch \<longleftrightarrow>
     patch_ok ks patch newCh \<and> (\<forall>v \<in> set newCh. wfv ks v) \<and> keys_ok ks newCh"

lemma moveByKey_inv:
  assumes inv: "uc_inv n0 ks orig newCh p s" and ok: "children_ok ks orig newCh patch"
    and S: "p_S p = Some u # S'" and Q: "p_Q p = w # Q'" and u: "\<not> sameVnode u w"
  shows "\<exists>p' s'. moveByKey ks patch True u s = Some s' \<and> uc_inv n0 ks orig newCh p' s'"
proof -
  have ok: "patch_ok ks patch newCh" "\<forall>v \<in> set newCh. wfv ks v" "distinct (keysOf ks newCh)"
    and names: "\<forall>k \<in> set (keysOf ks newCh). \<not> List.member inheritedNames k"
    using ok by (simp_all add: children_ok_def keys_ok_def)
  obtain m where m: "keyMap ks s = Some m" and inv1: "uc_inv n0 ks orig newCh p (s \<lparr> uc_map := Some m \<rparr>)"
    using keyMap_inv [OF inv] by blast
  let ?s = "s \<lparr> uc_map := Some m \<rparr>"
  let ?idx = "case vkey (new_at s (uc_newStart s)) of None \<Rightarrow> None | Some k \<Rightarrow> m (ks k)"
  have w: "new_at ?s (uc_newStart ?s) = w" "new_at s (uc_newStart s) = w"
    using parts_sel(3,6) [OF inv] Q by (simp_all add: new_at_def nth_append)
  have "vkey w = Some k \<Longrightarrow> \<not> List.member inheritedNames (ks k)" for k
    using names key_in_keysOf [of w newCh ks "ks k"] dom_inv_sel(6) [OF inv, of w] Q by auto
  then have idx: "findIdx ks m (new_at s (uc_newStart s)) = Some ?idx"
    unfolding w by (auto simp: findIdx_def split: option.split)
  have step: "moveByKey ks patch True u s
    = map_option (\<lambda>s'. s' \<lparr> uc_newStart := uc_newStart s + 1 \<rparr>) (createOrMove patch True u ?idx ?s)"
    using m idx by (simp add: moveByKey_def)
  obtain p1 where p1: "uc_inv n0 ks orig newCh p1 ((createChild (velm u) (uc_newStart ?s) ?s) \<lparr> uc_newStart := uc_newStart ?s + 1 \<rparr>)"
    using createChild_inv [OF inv1 ok(2) S Q] by blast
  then have created: "\<exists>p' s'. moveByKey ks patch True u s = Some s' \<and> uc_inv n0 ks orig newCh p' s'"
    if "createOrMove patch True u ?idx ?s = Some (createChild (velm u) (uc_newStart ?s) ?s)"
    using step that by auto
  show ?thesis
  proof (cases ?idx)
    case None
    then show ?thesis by (intro created) (simp add: createOrMove_def)
  next
    case (Some idx)
    then obtain k where k: "vkey w = Some k" "m (ks k) = Some idx" unfolding w by (auto split: option.splits)
    obtain S1 S2 e where e: "p_S p = S1 @ Some e # S2" "idx = length (p_O1 p) + length S1"
      using found_in_loop [where m = m, OF inv1 ok(3) _ k(2) Q k(1)] by auto
    have old: "uc_old ?s ! idx = Some e" using parts_sel(2) [OF inv] e by (simp add: nth_append)
    show ?thesis
    proof (cases "sameVnode e w")
      case False
      then show ?thesis using Some old w(1) by (intro created) (simp add: createOrMove_def)
    next
      case same: True
      then obtain S1' where S1: "S1 = Some u # S1'" using e(1) S u by (cases S1) auto
      have S2: "p_S p = Some u # S1' @ Some e # S2" using e(1) S1 by simp
      obtain p' s' s'' where r: "patchChild patch e (uc_newStart ?s) ?s = Some s'"
        "moveChild True (new_at s' (uc_newStart s')) (\<lambda>ds. velm u)
           (s' \<lparr> uc_old := (uc_old s') [length (p_O1 p) + Suc (length S1') := None] \<rparr>) = Some s''"
        "uc_inv n0 ks orig newCh p' (s'' \<lparr> uc_newStart := uc_newStart ?s + 1 \<rparr>)"
        using keyed_move [OF inv1 ok(1) S2 Q same] by auto
      have "createOrMove patch True u ?idx ?s = Some s''"
        using Some old same r(1,2) w(1) e(2) S1 by (simp add: createOrMove_def)
      then show ?thesis using step r(3) by auto
    qed
  qed
qed

lemma old_at_ends:
  assumes inv: "uc_inv n0 ks orig newCh p s"
  shows "p_S p = x # S' \<Longrightarrow> old_at s (uc_oldStart s) = x" "p_S p = S' @ [x] \<Longrightarrow> old_at s (uc_oldEnd s) = x"
  using parts_sel [OF inv] by (auto simp: old_at_def nth_append)

lemma new_at_ends:
  assumes inv: "uc_inv n0 ks orig newCh p s"
  shows "p_Q p = x # Q' \<Longrightarrow> new_at s (uc_newStart s) = x" "p_Q p = Q' @ [x] \<Longrightarrow> new_at s (uc_newEnd s) = x"
  using parts_sel [OF inv] by (auto simp: new_at_def nth_append)

lemma updateStep_inv:
  assumes inv: "uc_inv n0 ks orig newCh p s" and ok: "children_ok ks orig newCh patch" and S: "p_S p \<noteq> []" and Q: "p_Q p \<noteq> []"
  shows "\<exists>p' s'. updateStep ks patch True s = Some s' \<and> uc_inv n0 ks orig newCh p' s'"
proof -
  have pok: "patch_ok ks patch newCh" using ok by (simp add: children_ok_def)
  obtain x S' where x: "p_S p = x # S'" using S by (cases "p_S p") auto
  obtain S'' y where y: "p_S p = S'' @ [y]" using S by (cases "p_S p" rule: rev_cases) auto
  obtain w Q' where w: "p_Q p = w # Q'" using Q by (cases "p_Q p") auto
  obtain Q'' z where z: "p_Q p = Q'' @ [z]" using Q by (cases "p_Q p" rule: rev_cases) auto
  note at = old_at_ends(1) [OF inv x] old_at_ends(2) [OF inv y] new_at_ends(1) [OF inv w] new_at_ends(2) [OF inv z]
  show ?thesis
  proof (cases x)
    case None
    then show ?thesis using hole_left [OF inv] x at by (simp add: updateStep_def)
  next
    case u: (Some u)
    show ?thesis
    proof (cases y)
      case None
      then show ?thesis using hole_right [OF inv] y u at by (simp add: updateStep_def)
    next
      case v: (Some v)
      consider "sameVnode u w" | "\<not> sameVnode u w" "sameVnode v z" | "\<not> sameVnode u w" "\<not> sameVnode v z" "sameVnode u z"
        | "\<not> sameVnode u w" "\<not> sameVnode v z" "\<not> sameVnode u z" "sameVnode v w"
        | "\<not> sameVnode u w" "\<not> sameVnode v z" "\<not> sameVnode u z" "\<not> sameVnode v w" by blast
      then show ?thesis
      proof cases
        case 1
        then show ?thesis using start_start [OF inv pok _ w 1] x at u v by (auto simp: updateStep_def)
      next
        case 2
        then show ?thesis using end_end [OF inv pok _ z 2(2)] y at u v by (auto simp: updateStep_def)
      next
        case 3
        then obtain S1 where "p_S p = Some u # S1 @ [Some v]" using x y u v by (cases S'') auto
        from start_end [OF inv pok this z 3(3)] 3 show ?thesis using at u v by (auto simp: updateStep_def)
      next
        case 4
        then obtain S1 where "p_S p = Some u # S1 @ [Some v]" using x y u v by (cases S'') auto
        from end_start [OF inv pok this w 4(4)] 4 show ?thesis using at u v by (auto simp: updateStep_def)
      next
        case 5
        then show ?thesis using moveByKey_inv [OF inv ok _ w 5(1)] x at u v by (simp add: updateStep_def)
      qed
    qed
  qed
qed

lemma updateLoop_inv:
  "uc_inv n0 ks orig newCh p s \<Longrightarrow> children_ok ks orig newCh patch \<Longrightarrow>
   \<exists>p' s'. updateLoop ks patch True s = Some s' \<and> uc_inv n0 ks orig newCh p' s' \<and> (p_S p' = [] \<or> p_Q p' = [])"
proof (induction ks patch True s arbitrary: p rule: updateLoop.induct)
  case (1 ks patch s)
  have more: "uc_more s \<longleftrightarrow> p_S p \<noteq> [] \<and> p_Q p \<noteq> []" using 1(2) parts_more by (simp add: uc_inv_def)
  show ?case
  proof (cases "uc_more s")
    case True
    then obtain p' s' where s': "updateStep ks patch True s = Some s'" "uc_inv n0 ks orig newCh p' s'"
      using updateStep_inv [OF 1(2,3)] more by blast
    from 1(1) [OF True s' 1(3)] show ?thesis using True s'(1) by (subst updateLoop.simps) simp
  next
    case False
    then show ?thesis using 1(2) more by (subst updateLoop.simps) auto
  qed
qed

section \<open>After the loop\<close>

definition ref_of :: "dom list \<Rightarrow> nat option" where
  "ref_of B = (case B of [] \<Rightarrow> None | b # _ \<Rightarrow> Some (did b))"

lemma insertNew_ref:
  "distinct (map did (A @ B)) \<Longrightarrow> insertNew d (ref_of B) (A @ B) = A @ d # B"
proof (cases B)
  case (Cons b B')
  assume "distinct (map did (A @ B))"
  then show ?thesis using Cons insertNew_mid [of b A d B'] by (simp add: ref_of_def)
qed (simp add: ref_of_def insertNew_def)

lemma doms_ok_insert:
  assumes "doms_ok n (A @ B)" "good n' d" "did d = n" "n \<le> n'"
  shows "doms_ok n' (A @ d # B)"
proof -
  have "n \<notin> did ` set (A @ B)"
  proof
    assume "n \<in> did ` set (A @ B)"
    then obtain x where x: "x \<in> set (A @ B)" "did x = n" by (metis imageE)
    then have "good n x" using assms(1) by (simp add: doms_ok_def)
    then show False using good_did x(2) by fastforce
  qed
  moreover have "doms_ok n' (A @ B)" using doms_ok_mono assms(1,4) by blast
  ultimately show ?thesis using assms(2,3) by (auto simp: doms_ok_def)
qed

lemma addVnodes_mid:
  assumes "doms_ok n (A @ B)" "\<forall>v \<in> set Q. wfv ks v"
  shows "\<exists>D Q' n'. addVnodes (ref_of B) (length P) (length Q) (A @ B, P @ Q @ R, n) = (A @ D @ B, P @ Q' @ R, n')
    \<and> list_all2 matches D Q' \<and> map strip Q' = map strip Q \<and> doms_ok n' (A @ D @ B) \<and> n \<le> n'"
  using assms
proof (induction Q arbitrary: A P n)
  case Nil
  then show ?case by (intro exI [of _ "[]"] exI [of _ n]) simp
next
  case (Cons v Q)
  obtain d v' n1 where c: "createElm v n = (d, v', n1)" by (metis prod_cases3)
  have ok: "matches d v'" "strip v' = strip v" "good n1 d" "did d = n" "n < n1" using createElm_ok [OF c, of ks] Cons.prems by auto
  have doms: "doms_ok n1 ((A @ [d]) @ B)" using doms_ok_insert [OF Cons.prems(1) ok(3,4)] ok(5) by simp
  obtain D Q' n' where IH: "addVnodes (ref_of B) (length (P @ [v'])) (length Q) ((A @ [d]) @ B, (P @ [v']) @ Q @ R, n1)
      = ((A @ [d]) @ D @ B, (P @ [v']) @ Q' @ R, n')"
    "list_all2 matches D Q'" "map strip Q' = map strip Q" "doms_ok n' ((A @ [d]) @ D @ B)" "n1 \<le> n'"
    using Cons.IH [OF doms, of "P @ [v']"] Cons.prems by auto
  have "insertNew d (ref_of B) (A @ B) = A @ d # B" using Cons.prems(1) by (intro insertNew_ref) (simp add: doms_ok_def)
  then have "addVnodes (ref_of B) (length P) (length (v # Q)) (A @ B, P @ (v # Q) @ R, n)
      = (A @ (d # D) @ B, P @ (v' # Q') @ R, n')"
    using c IH(1) by (simp add: list_update_append nth_append)
  then show ?case using ok IH by (intro exI [of _ "d # D"] exI [of _ "v' # Q'"] exI [of _ n']) simp
qed

lemma removeVnodes_mid:
  assumes "distinct (map did (A @ M @ B))" "list_all2 matches M (somes S)"
  shows "removeVnodes (\<lambda>v. 0) S (A @ M @ B) = Some (A @ B)"
  using assms
proof (induction S arbitrary: M rule: somes.induct)
  case (3 v S)
  then obtain d M' where M: "M = d # M'" "matches d v" "list_all2 matches M' (somes S)" by (auto simp: list_all2_Cons2)
  then show ?case using 3 removeChild_mid [of A d "M' @ B"] by (simp add: removedNow_def matches_elm)
qed simp_all

lemma finishUpdate_ok:
  assumes inv: "uc_inv n0 ks orig newCh p s" and fin: "p_S p = [] \<or> p_Q p = []" and wf: "\<forall>v \<in> set newCh. wfv ks v"
  shows "\<exists>ds' ch' n'. finishUpdate (\<lambda>v. 0) s = Some (ds', ch', n')
    \<and> list_all2 matches ds' ch' \<and> map strip ch' = map strip newCh \<and> doms_ok n' ds' \<and> n0 \<le> n'"
proof -
  note parts_sel = parts_sel [OF inv] and dom_inv_sel = dom_inv_sel [OF inv]
  have strip: "map strip (p_P p @ p_Q p @ p_R p) = map strip newCh" using dom_inv_sel(7) parts_sel(3) by simp
  show ?thesis
  proof (cases "p_S p")
    case Nil
    then have M: "p_M p = []" using dom_inv_sel(2) by simp
    have r: "(if 0 \<le> uc_newEnd s + 1 \<and> uc_newEnd s + 1 < int (length (uc_new s)) then velm (new_at s (uc_newEnd s + 1)) else None)
      = ref_of (p_B p)"
    proof (cases "p_R p")
      case Nil
      then show ?thesis using dom_inv_sel(3) parts_sel(3,7) by (simp add: ref_of_def)
    next
      case (Cons w R')
      then obtain b B' where B: "p_B p = b # B'" "matches b w" using dom_inv_sel(3) by (auto simp: list_all2_Cons2)
      have i: "nat (uc_newEnd s + 1) = length (p_P p @ p_Q p)" using parts_sel(7) by simp
      have "uc_new s = (p_P p @ p_Q p) @ w # R'" using Cons parts_sel(3) by simp
      then have "new_at s (uc_newEnd s + 1) = w" unfolding new_at_def i by (metis nth_append_length)
      then show ?thesis using Cons B parts_sel(3,7) matches_elm [OF B(2)] by (simp add: ref_of_def)
    qed
    have doms: "doms_ok (uc_next s) (p_A p @ p_B p)" using dom_inv_sel(4) parts_sel(1) M by simp
    have wfQ: "\<forall>v \<in> set (p_Q p). wfv ks v" using wf dom_inv_sel(6) by blast
    obtain D Q' n' where a: "addVnodes (ref_of (p_B p)) (length (p_P p)) (length (p_Q p)) (p_A p @ p_B p, p_P p @ p_Q p @ p_R p, uc_next s)
        = (p_A p @ D @ p_B p, p_P p @ Q' @ p_R p, n')"
      "list_all2 matches D Q'" "map strip Q' = map strip (p_Q p)" "doms_ok n' (p_A p @ D @ p_B p)" "uc_next s \<le> n'"
      using addVnodes_mid [OF doms wfQ, of "p_P p" "p_R p"] by blast
    have "finishUpdate (\<lambda>v. 0) s = Some (p_A p @ D @ p_B p, p_P p @ Q' @ p_R p, n')"
      unfolding finishUpdate_def Let_def r using Nil M a(1) parts_sel by simp
    then show ?thesis using a dom_inv_sel(1,3,8) strip by (simp add: list_all2_appendI)
  next
    case (Cons x S')
    then have Q: "p_Q p = []" using fin by simp
    have "removeVnodes (\<lambda>v. 0) (p_S p) (p_A p @ p_M p @ p_B p) = Some (p_A p @ p_B p)"
      using removeVnodes_mid dom_inv_sel(2,4) parts_sel(1) by (simp add: doms_ok_def)
    moreover have S: "take (nat (uc_oldEnd s - uc_oldStart s + 1)) (drop (nat (uc_oldStart s)) (uc_old s)) = p_S p"
      using parts_sel by simp
    ultimately have "finishUpdate (\<lambda>v. 0) s = Some (p_A p @ p_B p, p_P p @ p_R p, uc_next s)"
      unfolding finishUpdate_def S using Cons Q parts_sel by simp
    moreover have "doms_ok (uc_next s) (p_A p @ p_B p)"
      using dom_inv_sel(4) parts_sel(1) by (auto simp: doms_ok_def)
    ultimately show ?thesis using dom_inv_sel(1,3,8) strip Q by (simp add: list_all2_appendI)
  qed
qed

lemma updateChildren_inv:
  assumes "list_all2 matches ds oldCh" "doms_ok n ds" "\<forall>v \<in> set oldCh. wfv ks v" "children_ok ks oldCh newCh patch"
  shows "\<exists>ds' ch' n'. updateChildren ks patch (\<lambda>v. 0) False oldCh newCh ds n = Some (ds', ch', n')
    \<and> list_all2 matches ds' ch' \<and> map strip ch' = map strip newCh \<and> doms_ok n' ds' \<and> n \<le> n'"
proof -
  let ?s = "\<lparr> uc_oldStart = 0, uc_oldEnd = int (length oldCh) - 1, uc_newStart = 0, uc_newEnd = int (length newCh) - 1,
            uc_old = map Some oldCh, uc_new = newCh, uc_dom = ds, uc_map = None, uc_next = n \<rparr>"
  let ?p = "\<lparr> p_A = [], p_M = ds, p_B = [], p_O1 = [], p_S = map Some oldCh, p_O2 = [], p_P = [], p_Q = newCh, p_R = [] \<rparr>"
  have "uc_inv n ks oldCh newCh ?p ?s"
    using assms(1-3) by (auto simp: uc_inv_def parts_of_def dom_inv_def key_inv_def)
  then obtain p' s' where s': "updateLoop ks patch True ?s = Some s'" "uc_inv n ks oldCh newCh p' s'" "p_S p' = [] \<or> p_Q p' = []"
    using updateLoop_inv assms(4) by blast
  moreover have "\<forall>v \<in> set newCh. wfv ks v" using assms(4) by (simp add: children_ok_def)
  ultimately show ?thesis using finishUpdate_ok [OF s'(2,3)] by (auto simp: updateChildren_def)
qed

section \<open>Patching a vnode\<close>

lemma setTextContent_ok:
  assumes "matches d old" "good n d" "sameVnode old v" "vchildren v = None" "vtext v = Some x"
    and "vtag v = None \<Longrightarrow> vchildren old = None"
  shows "patch_post v d n (fst (setTextContent x n d)) (set_elm (velm old) v) (snd (setTextContent x n d))"
  using assms by (cases d; cases v; cases old) (auto simp: patch_post_def text_kids_def sameVnode_def)

lemma wfv_parts:
  assumes "wfv ks v"
  shows "vtag v = None \<Longrightarrow> vchildren v = None" "vtag v = None \<Longrightarrow> vtext v \<noteq> None" "vchildren v \<noteq> None \<Longrightarrow> vtext v = None"
    "vchildren v = Some ch \<Longrightarrow> keys_ok ks ch" "vchildren v = Some ch \<Longrightarrow> w \<in> set ch \<Longrightarrow> wfv ks w"
  using assms by (cases v; auto)+

lemma plain_parts:
  assumes "plain v"
  shows "\<not> isCloned (vflags v)" "\<not> isOnce (vflags v)" "vchildren v = Some ch \<Longrightarrow> w \<in> set ch \<Longrightarrow> plain w"
  using assms by (cases v; auto)+

lemma set_elm_sel [simp]:
  "velm (set_elm e v) = e" "vtag (set_elm e v) = vtag v" "vtext (set_elm e v) = vtext v" "vchildren (set_elm e v) = vchildren v"
  "velm (set_children ch v) = velm v" "vtag (set_children ch v) = vtag v" "vtext (set_children ch v) = vtext v"
  "vchildren (set_children ch v) = ch"
  by (cases v; simp)+

lemma depth_child: "vchildren v = Some ch \<Longrightarrow> w \<in> set ch \<Longrightarrow> depth w < depth v"
  by (cases v) (auto simp: less_Suc_eq_le intro!: Max_ge)

definition child_patch_ok :: "(key \<Rightarrow> string) \<Rightarrow> patcher \<Rightarrow> vnode \<Rightarrow> bool" where
  "child_patch_ok ks patch v \<longleftrightarrow> (\<forall>ch. vchildren v = Some ch \<longrightarrow> patch_ok ks patch ch)"

lemma strip_children:
  "map strip ch' = map strip ch \<Longrightarrow> vchildren v = Some ch \<Longrightarrow> strip (set_children (Some ch') (set_elm e v)) = strip v"
  by (cases v) simp

lemma patchBody_elem:
  assumes patch: "child_patch_ok ks patch v" and same: "sameVnode old v" and wf: "wfv ks old" "wfv ks v"
    and m: "matches (DElem i t ds) old" and g: "good n (DElem i t ds)" and p: "plain v" and x: "vtext v = None"
  shows "\<exists>d' v' n'. patchBody ks patch (\<lambda>v. 0) False old v (DElem i t ds) n = Some (d', v', n')
    \<and> patch_post v (DElem i t ds) n d' v' n'"
proof (cases "old = v")
  case True
  then show ?thesis using m g by (simp add: patchBody_def patch_post_def)
next
  case ne: False
  have reuse: "\<not> reuses old v" using plain_parts [OF p] by (simp add: reuses_def)
  have tag: "vtag v = Some t" "velm old = Some i" "vtag old = Some t" using same m by (simp_all add: sameVnode_def)
  have doms: "doms_ok n ds" "i < n" using g by (simp_all add: doms_ok_def)
  show ?thesis
  proof (cases "vchildren v")
    case N: None
    show ?thesis
    proof (cases "vchildren old")
      case None
      then show ?thesis using m g ne reuse x N tag doms
        by (cases "vtext old") (auto simp: patchBody_def Let_def patch_post_def)
    next
      case (Some oldCh)
      then have "list_all2 matches ds oldCh" using m by simp
      then have "removeVnodes (\<lambda>v. 0) (map Some oldCh) ds = Some []"
        using removeVnodes_mid [of "[]" ds "[]" "map Some oldCh"] doms by (simp add: doms_ok_def)
      then show ?thesis using Some ne reuse x N tag doms by (simp add: patchBody_def Let_def patch_post_def)
    qed
  next
    case (Some ch)
    have wfch: "\<forall>w \<in> set ch. wfv ks w" "keys_ok ks ch" using wfv_parts(4,5) [OF wf(2) Some] by auto
    show ?thesis
    proof (cases "vchildren old")
      case None
      let ?d = "if vtext old \<noteq> None then setTextContent [] n (DElem i t ds) else (DElem i t ds, n)"
      have d: "?d = (DElem i t [], n)" using m None by (cases "vtext old") auto
      obtain D Q' n' where a: "addVnodes None 0 (length ch) ([], ch, n) = (D, Q', n')"
        "list_all2 matches D Q'" "map strip Q' = map strip ch" "doms_ok n' D" "n \<le> n'"
        using addVnodes_mid [of n "[]" "[]" ch ks "[]" "[]"] wfch by (auto simp: ref_of_def doms_ok_def)
      have "patchBody ks patch (\<lambda>v. 0) False old v (DElem i t ds) n
          = Some (DElem i t D, set_children (Some Q') (set_elm (Some i) v), n')"
        using None Some ne reuse x d a(1) tag by (simp add: patchBody_def Let_def)
      then show ?thesis using a tag doms strip_children [OF a(3) Some] x
        by (auto simp: patch_post_def doms_ok_def)
    next
      case O: (Some oldCh)
      have l: "list_all2 matches ds oldCh" using m O by simp
      show ?thesis
      proof (cases "oldCh = ch")
        case True
        then show ?thesis using O Some ne reuse x l tag g by (simp add: patchBody_def Let_def patch_post_def)
      next
        case False
        have "children_ok ks oldCh ch patch" using patch Some wfch by (simp add: children_ok_def child_patch_ok_def)
        then obtain ds' ch' n' where u: "updateChildren ks patch (\<lambda>v. 0) False oldCh ch ds n = Some (ds', ch', n')"
          "list_all2 matches ds' ch'" "map strip ch' = map strip ch" "doms_ok n' ds'" "n \<le> n'"
          using updateChildren_inv [OF l doms(1)] wfv_parts(5) [OF wf(1) O] by blast
        have "patchBody ks patch (\<lambda>v. 0) False old v (DElem i t ds) n
            = Some (DElem i t ds', set_children (Some ch') (set_elm (Some i) v), n')"
          using O Some ne reuse x False u(1) tag by (simp add: patchBody_def Let_def)
        then show ?thesis using u tag doms strip_children [OF u(3) Some] x
          by (auto simp: patch_post_def doms_ok_def)
      qed
    qed
  qed
qed

lemma patchBody_leaf:
  assumes same: "sameVnode old v" and wf: "wfv ks old" "wfv ks v"
    and m: "matches d old" and g: "good n d" and p: "plain v" and x: "vtext v = Some x"
  shows "\<exists>d' v' n'. patchBody ks patch (\<lambda>v. 0) False old v d n = Some (d', v', n') \<and> patch_post v d n d' v' n'"
proof (cases "old = v")
  case True
  then show ?thesis using m g by (simp add: patchBody_def patch_post_def)
next
  case False
  have reuse: "\<not> reuses old v" using plain_parts [OF p] by (simp add: reuses_def)
  have ch: "vchildren v = None" using wfv_parts(3) [OF wf(2)] x by (cases "vchildren v") auto
  have tag: "vtag v = vtag old" "isComment v = isComment old" using same by (simp_all add: sameVnode_def)
  show ?thesis
  proof (cases "vtext old = Some x")
    case True
    have "vchildren old = None" using wfv_parts(3) [OF wf(1)] True by (cases "vchildren old") auto
    then have "matches d (set_elm (velm old) v)" using m ch x True tag by (cases d; cases v) auto
    then show ?thesis using True False reuse x g by (simp add: patchBody_def Let_def patch_post_def)
  next
    case ne: False
    have "patch_post v d n (fst (setTextContent x n d)) (set_elm (velm old) v) (snd (setTextContent x n d))"
      by (rule setTextContent_ok [OF m g same ch x]) (use wfv_parts(1) [OF wf(1)] tag in simp)
    then show ?thesis using ne False reuse x by (cases "setTextContent x n d") (simp add: patchBody_def Let_def)
  qed
qed

lemma patchN_ok:
  "depth v < k \<Longrightarrow> sameVnode old v \<Longrightarrow> wfv ks old \<Longrightarrow> wfv ks v \<Longrightarrow> plain v \<Longrightarrow> matches d old \<Longrightarrow> good n d \<Longrightarrow>
   \<exists>d' v' n'. patchN k ks (\<lambda>v. 0) False old v d n = Some (d', v', n') \<and> patch_post v d n d' v' n'"
proof (induction k arbitrary: old v d n)
  case (Suc k)
  have "child_patch_ok ks (patchN k ks (\<lambda>v. 0) False) v"
    unfolding child_patch_ok_def patch_ok_def
  proof (intro allI impI)
    fix ch w old' d' n'
    assume c: "vchildren v = Some ch" "w \<in> set ch" and "sameVnode old' w" "wfv ks old'" "matches d' old'" "good n' d'"
    then show "\<exists>d'' v' n''. patchN k ks (\<lambda>v. 0) False old' w d' n' = Some (d'', v', n'') \<and> patch_post w d' n' d'' v' n''"
      using Suc.IH [of w old' d' n'] depth_child [OF c] wfv_parts(5) [OF Suc.prems(4) c] plain_parts(3) [OF Suc.prems(5) c]
        Suc.prems(1) by simp
  qed
  note elem = patchBody_elem [OF this Suc.prems(2-4)] and leaf = patchBody_leaf [OF Suc.prems(2-4,6,7,5)]
  show ?case
  proof (cases "vtext v")
    case (Some x)
    then show ?thesis using leaf by simp
  next
    case None
    then have "vtag old \<noteq> None" using wfv_parts(2) [OF Suc.prems(4)] Suc.prems(2) by (auto simp: sameVnode_def)
    then obtain i t ds where "d = DElem i t ds" using Suc.prems(6) by (cases d) auto
    then show ?thesis using elem Suc.prems None by simp
  qed
qed simp

text \<open>
  C8. Patching a vnode against another one that is the same in the sense of \<open>sameVnode\<close>, and whose DOM it matches,
  raises no error and leaves the DOM of the new vnode: the element keeps its identity, the children (kept,
  moved, created or removed, recursively) are in the order of the new vnode, and the returned vnode is the
  new one with its elements filled in. The vnodes are neither clones nor of \<open>v-once\<close>, the keys among siblings are
  distinct and no names of properties of \<open>Object.prototype\<close> (\<open>inherited_key_fails\<close> shows the error these raise), no
  transition delays a removal, and \<open>removeOnly\<close> is false.
\<close>

theorem patchVnode_renders_new:
  assumes "sameVnode old v" "wfv ks old" "wfv ks v" "plain v" "matches d old" "good n d"
  shows "\<exists>d' v' n'. patchVnode ks (\<lambda>v. 0) False old v d n = Some (d', v', n')
    \<and> matches d' v' \<and> strip v' = strip v \<and> did d' = did d \<and> good n' d'"
  using patchN_ok [OF lessI assms] unfolding patchVnode_def patch_post_def by blast

text \<open>A list of three keyed items of which one is removed, two are swapped and a new one is added.\<close>

definition exKey :: "key \<Rightarrow> string" where
  "exKey k = (case k of KStr s \<Rightarrow> s | KNum i \<Rightarrow> ''n'')"

definition exText :: "nat option \<Rightarrow> string \<Rightarrow> vnode" where
  "exText e x = VNode None None False None (Some x) None e \<lparr> isStatic = False, isCloned = False, isOnce = False \<rparr>"

definition exItem :: "nat option \<Rightarrow> nat option \<Rightarrow> string \<Rightarrow> string \<Rightarrow> vnode" where
  "exItem e e' k x =
     VNode (Some (KStr k)) (Some ''li'') False (Some \<lparr> vd_input = NoAttrs \<rparr>) None (Some [exText e' x]) e \<lparr> isStatic = False, isCloned = False, isOnce = False \<rparr>"

definition exList :: "nat option \<Rightarrow> vnode list \<Rightarrow> vnode" where
  "exList e vs = VNode None (Some ''ul'') False None None (Some vs) e \<lparr> isStatic = False, isCloned = False, isOnce = False \<rparr>"

definition exOld :: vnode where
  "exOld = exList (Some 0) [exItem (Some 1) (Some 2) ''a'' ''A'', exItem (Some 3) (Some 4) ''b'' ''B'', exItem (Some 5) (Some 6) ''c'' ''C'']"

definition exNew :: vnode where
  "exNew = exList None [exItem None None ''c'' ''C1'', exItem None None ''d'' ''D'', exItem None None ''a'' ''A'']"

definition exDom :: dom where
  "exDom = DElem 0 ''ul'' [DElem 1 ''li'' [DText 2 ''A''], DElem 3 ''li'' [DText 4 ''B''], DElem 5 ''li'' [DText 6 ''C'']]"

lemma patchVnode_renders_new_witness:
  "\<exists>d' v' n'. patchVnode exKey (\<lambda>v. 0) False exOld exNew exDom 7 = Some (d', v', n')
    \<and> matches d' v' \<and> strip v' = strip exNew \<and> did d' = did exDom \<and> good n' d'"
  by (rule patchVnode_renders_new)
    (simp_all add: exOld_def exNew_def exDom_def exList_def exItem_def exText_def exKey_def keys_ok_def inheritedNames_def keysOf_def List.map_filter_simps
      sameVnode_def sameInputType_def)

text \<open>
  A key that is the name of a property of \<open>Object.prototype\<close> makes the update of the children fail when
  the item is new and is reached by its key.
\<close>

lemma inherited_key_fails:
  "patchVnode exKey (\<lambda>v. 0) False exOld (exList None [exItem None None ''constructor'' ''C'']) exDom 7 = None
   \<and> patchVnode exKey (\<lambda>v. 0) False exOld (exList None [exItem None None ''constr'' ''C'']) exDom 7 \<noteq> None"
  by code_simp

lemma patchVnode_example:
  "map_option fst (patchVnode exKey (\<lambda>v. 0) False exOld exNew exDom 7)
     = Some (DElem 0 ''ul'' [DElem 5 ''li'' [DText 6 ''C1''], DElem 7 ''li'' [DText 8 ''D''], DElem 1 ''li'' [DText 2 ''A'']])"
  by code_simp

end
