(* ===== verification/VueScheduler.thy ===== *)
theory VueScheduler
  imports Prelude
begin

text \<open>
  The scheduler of vue.js: \<open>queueWatcher\<close>, \<open>flushSchedulerQueue\<close> and \<open>resetSchedulerState\<close>. What a watcher
  does when it runs is a parameter: it changes the application's state and queues watchers and
  activated components. A flush is a loop that need not end and has fuel.
\<close>

section \<open>State\<close>

record watcher =
  w_id :: nat
  w_user :: bool
  w_vm :: nat

record sched =
  s_queue :: "watcher list"
  s_activated :: "nat list"
  s_has :: "nat \<Rightarrow> bool"
  s_circular :: "nat \<Rightarrow> nat"
  s_waiting :: bool
  s_flushing :: bool
  s_index :: nat
  s_ticks :: nat
  s_warnings :: "watcher list"

definition MAX_UPDATE_COUNT :: nat where
  "MAX_UPDATE_COUNT = 100"

definition startSched :: sched where
  "startSched =
     \<lparr> s_queue = [], s_activated = [], s_has = (\<lambda>i. False), s_circular = (\<lambda>i. 0), s_waiting = False, s_flushing = False,
       s_index = 0, s_ticks = 0, s_warnings = [] \<rparr>"

definition resetSchedulerState :: "sched \<Rightarrow> sched" where
  "resetSchedulerState s =
     s \<lparr> s_queue := [], s_activated := [], s_has := (\<lambda>i. False), s_circular := (\<lambda>i. 0), s_waiting := False, s_flushing := False \<rparr>"

section \<open>Queueing\<close>

text \<open>The index of the last watcher of the first \<open>n\<close> whose id is at most the given one, or -1.\<close>

fun lastNotAfter :: "watcher list \<Rightarrow> nat \<Rightarrow> nat \<Rightarrow> int" where
  "lastNotAfter q i 0 = -1"
| "lastNotAfter q i (Suc n) = (if w_id (q ! n) > i then lastNotAfter q i n else int n)"

definition spliceWatcher :: "nat \<Rightarrow> watcher \<Rightarrow> watcher list \<Rightarrow> watcher list" where
  "spliceWatcher k w q = take k q @ w # drop k q"

definition queueWatcher :: "watcher \<Rightarrow> sched \<Rightarrow> sched" where
  "queueWatcher w s =
     (if s_has s (w_id w) then s
      else
        let s1 = s \<lparr> s_has := (s_has s) (w_id w := True) \<rparr>;
            s2 = s1 \<lparr> s_queue :=
                   (if \<not> s_flushing s then s_queue s @ [w]
                    else spliceWatcher
                           (nat (max (lastNotAfter (s_queue s) (w_id w) (length (s_queue s))) (int (s_index s)) + 1)) w (s_queue s)) \<rparr>
        in if \<not> s_waiting s then s2 \<lparr> s_waiting := True, s_ticks := s_ticks s + 1 \<rparr> else s2)"

definition queueActivatedComponent :: "nat \<Rightarrow> sched \<Rightarrow> sched" where
  "queueActivatedComponent vm s = s \<lparr> s_activated := s_activated s @ [vm] \<rparr>"

section \<open>Flushing\<close>

datatype action = Queue watcher | Activate nat

type_synonym 'e runner = "watcher \<Rightarrow> 'e \<Rightarrow> 'e \<times> action list"

fun act :: "action \<Rightarrow> sched \<Rightarrow> sched" where
  "act (Queue w) s = queueWatcher w s"
| "act (Activate vm) s = queueActivatedComponent vm s"

text \<open>The body of the loop: the result says whether the loop is left because of a circular update.\<close>

definition flushStep :: "'e runner \<Rightarrow> 'e \<Rightarrow> sched \<Rightarrow> bool \<times> 'e \<times> sched" where
  "flushStep run e s =
     (let w = s_queue s ! s_index s;
          (e', acts) = run w e;
          s1 = fold act acts (s \<lparr> s_has := (s_has s) (w_id w := False) \<rparr>)
      in if s_has s1 (w_id w) then
           (let s2 = s1 \<lparr> s_circular := (s_circular s1) (w_id w := s_circular s1 (w_id w) + 1) \<rparr>
            in if s_circular s2 (w_id w) > MAX_UPDATE_COUNT then (True, e', s2 \<lparr> s_warnings := s_warnings s2 @ [w] \<rparr>)
               else (False, e', s2 \<lparr> s_index := s_index s2 + 1 \<rparr>))
         else (False, e', s1 \<lparr> s_index := s_index s1 + 1 \<rparr>))"

fun flushWatchers :: "nat \<Rightarrow> 'e runner \<Rightarrow> 'e \<Rightarrow> sched \<Rightarrow> ('e \<times> sched) option" where
  "flushWatchers 0 run e s = None"
| "flushWatchers (Suc n) run e s =
     (if s_index s < length (s_queue s) then
        (case flushStep run e s of
           (circular, e', s') \<Rightarrow> if circular then Some (e', s') else flushWatchers n run e' s')
      else Some (e, s))"

text \<open>The render watchers of mounted components, last first: those whose \<open>updated\<close> hook is called.\<close>

fun callUpdateHooks :: "(watcher \<Rightarrow> bool) \<Rightarrow> nat \<Rightarrow> watcher list \<Rightarrow> nat list" where
  "callUpdateHooks renders 0 q = []"
| "callUpdateHooks renders (Suc i) q =
     (if renders (q ! i) then w_vm (q ! i) # callUpdateHooks renders i q else callUpdateHooks renders i q)"

text \<open>
  The result has the application's state, the reset scheduler, the activated components and the
  components whose \<open>updated\<close> hook is called.
\<close>

definition flushSchedulerQueue ::
    "nat \<Rightarrow> 'e runner \<Rightarrow> (watcher \<Rightarrow> bool) \<Rightarrow> 'e \<Rightarrow> sched \<Rightarrow> ('e \<times> sched \<times> nat list \<times> nat list) option" where
  "flushSchedulerQueue fuel run renders e s =
     map_option
       (\<lambda>(e', s'). (e', resetSchedulerState s', s_activated s', callUpdateHooks renders (length (s_queue s')) (s_queue s')))
       (flushWatchers fuel run e (s \<lparr> s_flushing := True, s_queue := sort_key w_id (s_queue s), s_index := 0 \<rparr>))"

section \<open>The queue is a priority queue\<close>

definition pendingFrom :: "nat \<Rightarrow> sched \<Rightarrow> nat list" where
  "pendingFrom k s = map w_id (drop k (s_queue s))"

text \<open>\<open>has\<close> tells the ids waiting from index \<open>k\<close> on, and these are in strictly increasing order.\<close>

definition pending_ok :: "nat \<Rightarrow> sched \<Rightarrow> bool" where
  "pending_ok k s \<longleftrightarrow> k \<le> length (s_queue s) \<and> sorted_wrt (<) (pendingFrom k s) \<and> (\<forall>i. s_has s i \<longleftrightarrow> i \<in> set (pendingFrom k s))"

lemma lastNotAfter_less: "lastNotAfter q i n < int n" "-1 \<le> lastNotAfter q i n"
  by (induction n) auto

lemma lastNotAfter_after: "lastNotAfter q i n < int j \<Longrightarrow> j < n \<Longrightarrow> w_id (q ! j) > i"
  by (induction n) (auto simp: less_Suc_eq split: if_splits)

lemma lastNotAfter_at: "0 \<le> lastNotAfter q i n \<Longrightarrow> w_id (q ! nat (lastNotAfter q i n)) \<le> i"
  by (induction n) (auto split: if_splits)

lemma sorted_wrt_insert_mid:
  fixes xs :: "nat list"
  assumes "sorted_wrt (<) (xs @ ys)" "\<forall>x \<in> set xs. x < i" "\<forall>y \<in> set ys. i < y"
  shows "sorted_wrt (<) (xs @ i # ys)"
  using assms by (auto simp: sorted_wrt_append)

text \<open>Queueing during a flush: \<open>index\<close> is at the running watcher, the pending ones are behind it.\<close>

lemma queueWatcher_pending:
  assumes ok: "pending_ok (Suc (s_index s)) s" and fl: "s_flushing s"
  shows "pending_ok (Suc (s_index s)) (queueWatcher w s)
    \<and> set (pendingFrom (Suc (s_index s)) (queueWatcher w s)) = insert (w_id w) (set (pendingFrom (Suc (s_index s)) s))
    \<and> take (Suc (s_index s)) (s_queue (queueWatcher w s)) = take (Suc (s_index s)) (s_queue s)
    \<and> s_index (queueWatcher w s) = s_index s \<and> s_flushing (queueWatcher w s)"
proof (cases "s_has s (w_id w)")
  case True
  then show ?thesis using assms by (auto simp: queueWatcher_def pending_ok_def)
next
  case False
  let ?q = "s_queue s" and ?n = "Suc (s_index s)" and ?i = "w_id w"
  let ?l = "lastNotAfter ?q ?i (length ?q)"
  define k where "k = nat (max ?l (int (s_index s)) + 1)"
  have k: "?n \<le> k" "k \<le> length ?q"
    using lastNotAfter_less(1) [of ?q ?i "length ?q"] ok by (auto simp: k_def pending_ok_def)
  obtain d where d: "k = ?n + d" using k(1) le_Suc_ex by blast
  have q: "s_queue (queueWatcher w s) = take k ?q @ w # drop k ?q"
    using False fl by (simp add: queueWatcher_def Let_def spliceWatcher_def k_def)
  have p: "pendingFrom ?n (queueWatcher w s) = take d (pendingFrom ?n s) @ ?i # drop d (pendingFrom ?n s)"
    using k d by (simp add: pendingFrom_def q drop_map take_map drop_take add.commute)
  have sorted: "sorted_wrt (<) (pendingFrom ?n s)" and has: "\<And>i. s_has s i \<longleftrightarrow> i \<in> set (pendingFrom ?n s)"
    using ok by (auto simp: pending_ok_def)
  have "\<forall>y \<in> set (drop d (pendingFrom ?n s)). ?i < y"
  proof
    fix y assume "y \<in> set (drop d (pendingFrom ?n s))"
    moreover have "drop d (pendingFrom ?n s) = map w_id (drop k ?q)" using d by (simp add: pendingFrom_def drop_map add.commute)
    ultimately obtain j where j: "j < length ?q - k" "y = w_id (?q ! (k + j))"
      using k(2) by (auto simp: in_set_conv_nth)
    have "?l < int (k + j)" by (simp add: k_def)
    then show "?i < y" using lastNotAfter_after j k by simp
  qed
  moreover have "\<forall>x \<in> set (take d (pendingFrom ?n s)). x < ?i"
  proof
    fix x assume x: "x \<in> set (take d (pendingFrom ?n s))"
    then obtain j where j: "j < d" "j < length (pendingFrom ?n s)" "x = pendingFrom ?n s ! j" by (auto simp: in_set_conv_nth)
    then have l: "?l = int (k - 1)" using d by (auto simp: k_def)
    then have m: "w_id (?q ! (k - 1)) \<le> ?i" using lastNotAfter_at [of ?q ?i "length ?q"] by simp
    have e: "w_id (?q ! (k - 1)) = pendingFrom ?n s ! (d - 1)" using d j(1) k(2) by (simp add: pendingFrom_def)
    have "d - 1 < length (pendingFrom ?n s)" using d j(1) k(2) by (simp add: pendingFrom_def)
    moreover have "j = d - 1 \<or> j < d - 1" using j(1) by arith
    ultimately have "pendingFrom ?n s ! j \<le> pendingFrom ?n s ! (d - 1)"
      using sorted_wrt_nth_less [OF sorted, of j "d - 1"] by (auto intro: less_imp_le)
    then have "x \<le> ?i" using j(3) m e by simp
    moreover have "x \<noteq> ?i" using False has x by (auto dest: in_set_takeD)
    ultimately show "x < ?i" by simp
  qed
  ultimately have "sorted_wrt (<) (pendingFrom ?n (queueWatcher w s))"
    unfolding p using sorted by (intro sorted_wrt_insert_mid) simp_all
  moreover have set: "set (pendingFrom ?n (queueWatcher w s)) = insert ?i (set (pendingFrom ?n s))"
    unfolding p by simp (metis append_take_drop_id set_append)
  moreover have "s_has (queueWatcher w s) i \<longleftrightarrow> i = ?i \<or> s_has s i" for i
    using False by (simp add: queueWatcher_def Let_def)
  moreover have "?n \<le> length (s_queue (queueWatcher w s))" using k q by simp
  moreover have "s_index (queueWatcher w s) = s_index s" "s_flushing (queueWatcher w s)"
    using fl by (simp_all add: queueWatcher_def Let_def)
  moreover have "take ?n (s_queue (queueWatcher w s)) = take ?n ?q" using k q by simp
  ultimately show ?thesis using has by (auto simp: pending_ok_def)
qed

text \<open>What the actions of a run queue.\<close>

fun queued :: "action list \<Rightarrow> nat set" where
  "queued [] = {}"
| "queued (Queue w # acts) = insert (w_id w) (queued acts)"
| "queued (Activate vm # acts) = queued acts"

lemma act_pending:
  assumes "pending_ok (Suc (s_index s)) s" "s_flushing s"
  shows "pending_ok (Suc (s_index s)) (fold act acts s)
    \<and> set (pendingFrom (Suc (s_index s)) (fold act acts s)) = set (pendingFrom (Suc (s_index s)) s) \<union> queued acts
    \<and> take (Suc (s_index s)) (s_queue (fold act acts s)) = take (Suc (s_index s)) (s_queue s)
    \<and> s_index (fold act acts s) = s_index s \<and> s_flushing (fold act acts s)"
  using assms
proof (induction acts arbitrary: s rule: queued.induct)
  case (2 w acts)
  from queueWatcher_pending [OF 2(2,3), of w] 2(1) [of "queueWatcher w s"] show ?case by auto
next
  case (3 vm acts)
  have "pending_ok (Suc (s_index (queueActivatedComponent vm s))) (queueActivatedComponent vm s)"
    "s_flushing (queueActivatedComponent vm s)"
    using 3(2,3) by (simp_all add: queueActivatedComponent_def pending_ok_def pendingFrom_def)
  from 3(1) [OF this] show ?case by (simp add: queueActivatedComponent_def pendingFrom_def)
qed simp

lemma act_circular: "s_circular (fold act acts s) = s_circular s"
proof (induction acts arbitrary: s)
  case (Cons a acts)
  then show ?case by (cases a) (simp_all add: queueWatcher_def queueActivatedComponent_def Let_def)
qed simp

definition flushing_ok :: "sched \<Rightarrow> bool" where
  "flushing_ok s \<longleftrightarrow> s_flushing s \<and> pending_ok (s_index s) s"

definition pending :: "sched \<Rightarrow> nat set" where
  "pending s = set (pendingFrom (s_index s) s)"

lemma flush_start:
  assumes "distinct (map w_id (s_queue s))" "\<And>i. s_has s i \<longleftrightarrow> i \<in> w_id ` set (s_queue s)"
  shows "flushing_ok (s \<lparr> s_flushing := True, s_queue := sort_key w_id (s_queue s), s_index := 0 \<rparr>)"
proof -
  have "distinct (map w_id (sort_key w_id (s_queue s)))"
    using assms(1) by (simp add: distinct_map)
  then have "sorted_wrt (<) (map w_id (sort_key w_id (s_queue s)))" by (simp add: strict_sorted_iff)
  then show ?thesis using assms(2) by (auto simp: flushing_ok_def pending_ok_def pendingFrom_def)
qed

lemma flushStep_ok:
  assumes ok: "flushing_ok s" and more: "s_index s < length (s_queue s)"
    and r: "run (s_queue s ! s_index s) e = (e', acts)"
  shows "\<exists>c s'. flushStep run e s = (c, e', s')
    \<and> w_id (s_queue s ! s_index s) = Min (pending s)
    \<and> (\<not> c \<longrightarrow> flushing_ok s' \<and> pending s' = pending s - {Min (pending s)} \<union> queued acts
         \<and> take (s_index s') (s_queue s') = take (s_index s) (s_queue s) @ [s_queue s ! s_index s] \<and> s_index s' = s_index s + 1)
    \<and> (c \<longrightarrow> w_id (s_queue s ! s_index s) \<in> queued acts \<and> s_index s' < length (s_queue s'))
    \<and> (\<not> c \<longrightarrow> (if Min (pending s) \<in> queued acts
                then s_circular s' = (s_circular s) (Min (pending s) := s_circular s (Min (pending s)) + 1)
                  \<and> s_circular s (Min (pending s)) < MAX_UPDATE_COUNT
                else s_circular s' = s_circular s))"
proof -
  let ?w = "s_queue s ! s_index s" and ?n = "Suc (s_index s)"
  let ?s0 = "s \<lparr> s_has := (s_has s) (w_id ?w := False) \<rparr>"
  let ?s1 = "fold act acts ?s0"
  have p: "pendingFrom (s_index s) s = w_id ?w # pendingFrom ?n s"
    using more by (simp add: pendingFrom_def Cons_nth_drop_Suc [symmetric])
  have sorted: "sorted_wrt (<) (w_id ?w # pendingFrom ?n s)" and has: "\<And>i. s_has s i \<longleftrightarrow> i = w_id ?w \<or> i \<in> set (pendingFrom ?n s)"
    and fl: "s_flushing s"
    using ok p by (simp_all add: flushing_ok_def pending_ok_def)
  have less: "\<And>i. i \<in> set (pendingFrom ?n s) \<Longrightarrow> w_id ?w < i" using sorted by simp
  have ok0: "pending_ok (Suc (s_index ?s0)) ?s0" "s_flushing ?s0"
    using sorted has more less fl by (auto simp: pending_ok_def pendingFrom_def)
  have eq0: "set (pendingFrom (Suc (s_index ?s0)) ?s0) = set (pendingFrom ?n s)" by (simp add: pendingFrom_def)
  note a = act_pending [OF ok0, of acts, unfolded eq0]
  have min: "Min (pending s) = w_id ?w" unfolding pending_def p using less
    by (intro Min_eqI) (auto intro: less_imp_le)
  have diff: "pending s - {w_id ?w} = set (pendingFrom ?n s)" using less p by (auto simp: pending_def)
  have tk: "take ?n (s_queue s) = take (s_index s) (s_queue s) @ [?w]" using more by (simp add: take_Suc_conv_app_nth)
  have step: "flushStep run e s = (if s_has ?s1 (w_id ?w) then
           (let s2 = ?s1 \<lparr> s_circular := (s_circular ?s1) (w_id ?w := s_circular ?s1 (w_id ?w) + 1) \<rparr>
            in if s_circular s2 (w_id ?w) > MAX_UPDATE_COUNT then (True, e', s2 \<lparr> s_warnings := s_warnings s2 @ [?w] \<rparr>)
               else (False, e', s2 \<lparr> s_index := s_index s2 + 1 \<rparr>))
         else (False, e', ?s1 \<lparr> s_index := s_index ?s1 + 1 \<rparr>))"
    using r by (simp add: flushStep_def Let_def)
  have keep: "flushing_ok s' \<and> pending s' = pending s - {Min (pending s)} \<union> queued acts
      \<and> take (s_index s') (s_queue s') = take (s_index s) (s_queue s) @ [?w] \<and> s_index s' = s_index s + 1"
    if "s_queue s' = s_queue ?s1" "s_index s' = s_index ?s1 + 1" "s_has s' = s_has ?s1" "s_flushing s' = s_flushing ?s1" for s'
    using a that tk unfolding min diff by (simp add: flushing_ok_def pending_ok_def pending_def pendingFrom_def)
  have conclude: ?thesis if "flushStep run e s = (False, e', s')" "s_queue s' = s_queue ?s1" "s_index s' = s_index ?s1 + 1"
    "s_has s' = s_has ?s1" "s_flushing s' = s_flushing ?s1"
    "if w_id ?w \<in> queued acts then s_circular s' = (s_circular s) (w_id ?w := s_circular s (w_id ?w) + 1)
       \<and> s_circular s (w_id ?w) < MAX_UPDATE_COUNT else s_circular s' = s_circular s" for s'
    using that(1,6) keep [OF that(2-5)] min by (intro exI [of _ False] exI [of _ s']) auto
  have circ: "s_circular ?s1 = s_circular s" by (simp add: act_circular)
  have q_iff: "s_has ?s1 (w_id ?w) \<longleftrightarrow> w_id ?w \<in> queued acts" using a less unfolding pending_ok_def by fastforce
  show ?thesis
  proof (cases "s_has ?s1 (w_id ?w)")
    case True
    then have q: "w_id ?w \<in> queued acts" using q_iff by simp
    show ?thesis
    proof (cases "s_circular ?s1 (w_id ?w) + 1 > MAX_UPDATE_COUNT")
      case True
      moreover have "s_index ?s1 < length (s_queue ?s1)" using a by (simp add: pending_ok_def)
      ultimately show ?thesis using step \<open>s_has ?s1 (w_id ?w)\<close> q min by (intro exI [of _ True]) (simp add: Let_def)
    next
      case False
      then show ?thesis using step \<open>s_has ?s1 (w_id ?w)\<close> q circ
        by (intro conclude [of "?s1 \<lparr> s_circular := (s_circular ?s1) (w_id ?w := s_circular ?s1 (w_id ?w) + 1),
              s_index := s_index ?s1 + 1 \<rparr>"]) (simp_all add: Let_def)
    qed
  next
    case False
    then show ?thesis using step q_iff circ by (intro conclude [of "?s1 \<lparr> s_index := s_index ?s1 + 1 \<rparr>"]) simp_all
  qed
qed

section \<open>Complete flushes\<close>

text \<open>
  The specification: while ids are pending the watcher with the least one runs; what it queues is
  added to the pending ones. A list of runs is served when this ends.
\<close>

inductive serves :: "'e runner \<Rightarrow> nat set \<Rightarrow> 'e \<Rightarrow> watcher list \<Rightarrow> 'e \<Rightarrow> bool" where
  served: "serves run {} e [] e"
| serve: "w_id w = Min P \<Longrightarrow> P \<noteq> {} \<Longrightarrow> run w e = (e1, acts) \<Longrightarrow> serves run (P - {Min P} \<union> queued acts) e1 ws e2
    \<Longrightarrow> serves run P e (w # ws) e2"

inductive_cases serves_Nil: "serves run P e [] e2"
inductive_cases serves_Cons: "serves run P e (w # ws) e2"

lemma pending_empty: "flushing_ok s \<Longrightarrow> pending s = {} \<longleftrightarrow> s_index s = length (s_queue s)"
  by (auto simp: flushing_ok_def pending_ok_def pending_def pendingFrom_def)

lemma flushStep_warns: "flushStep run e s = (True, e', s') \<Longrightarrow> s_warnings s' \<noteq> []"
  by (auto simp: flushStep_def Let_def split: prod.splits if_splits)

lemma flushWatchers_end:
  "flushWatchers n run e s = Some (e', s') \<Longrightarrow> flushing_ok s \<Longrightarrow> s_index s' = length (s_queue s') \<or> s_warnings s' \<noteq> []"
proof (induction n run e s rule: flushWatchers.induct)
  case (2 n run e s)
  show ?case
  proof (cases "s_index s < length (s_queue s)")
    case False
    then show ?thesis using 2(2,3) by (simp add: flushing_ok_def pending_ok_def)
  next
    case True
    let ?w = "s_queue s ! s_index s"
    obtain e1 acts where r: "run ?w e = (e1, acts)" by (metis surj_pair)
    obtain c s1 where st: "flushStep run e s = (c, e1, s1)" "\<not> c \<Longrightarrow> flushing_ok s1"
      using flushStep_ok [where run = run and e = e and e' = e1 and acts = acts, OF 2(3) True r] by blast
    show ?thesis
    proof (cases c)
      case True
      then show ?thesis using 2(2) \<open>s_index s < length (s_queue s)\<close> st(1) flushStep_warns [of run e s e1 s1] by auto
    next
      case False
      then show ?thesis using 2(1) [OF True st(1) [symmetric] refl False] 2(2) True st by simp
    qed
  qed
qed simp

lemma flushWatchers_serves:
  "flushWatchers n run e s = Some (e', s') \<Longrightarrow> flushing_ok s \<Longrightarrow> s_index s' = length (s_queue s') \<Longrightarrow>
     serves run (pending s) e (drop (s_index s) (s_queue s')) e' \<and> take (s_index s) (s_queue s') = take (s_index s) (s_queue s)"
proof (induction n run e s rule: flushWatchers.induct)
  case (2 n run e s)
  show ?case
  proof (cases "s_index s < length (s_queue s)")
    case False
    then have "s_index s = length (s_queue s)" using 2(3) by (simp add: flushing_ok_def pending_ok_def)
    then show ?thesis using 2(2,3) pending_empty [OF 2(3)] by (simp add: serves.served)
  next
    case True
    let ?w = "s_queue s ! s_index s"
    obtain e1 acts where r: "run ?w e = (e1, acts)" by (metis surj_pair)
    obtain c s1 where st: "flushStep run e s = (c, e1, s1)" "w_id ?w = Min (pending s)"
      "\<not> c \<Longrightarrow> flushing_ok s1 \<and> pending s1 = pending s - {Min (pending s)} \<union> queued acts
         \<and> take (s_index s1) (s_queue s1) = take (s_index s) (s_queue s) @ [?w] \<and> s_index s1 = s_index s + 1"
      "c \<Longrightarrow> s_index s1 < length (s_queue s1)"
      using flushStep_ok [where run = run and e = e and e' = e1 and acts = acts, OF 2(3) True r] by blast
    have "\<not> c" using 2(2,4) True st(1,4) by auto
    note st1 = st(3) [OF this]
    have "flushWatchers n run e1 s1 = Some (e', s')" using 2(2) True st(1) \<open>\<not> c\<close> by simp
    from 2(1) [OF True st(1) [symmetric] refl \<open>\<not> c\<close> this] st1 2(4)
    have IH: "serves run (pending s1) e1 (drop (s_index s + 1) (s_queue s')) e'"
      "take (s_index s + 1) (s_queue s') = take (s_index s) (s_queue s) @ [?w]" by auto
    have l: "s_index s < length (s_queue s')"
      using arg_cong [OF IH(2), of length] True by simp
    then have "s_queue s' ! s_index s = ?w" "take (s_index s) (s_queue s') = take (s_index s) (s_queue s)"
      using IH(2) True by (simp_all add: take_Suc_conv_app_nth)
    moreover have "drop (s_index s) (s_queue s') = s_queue s' ! s_index s # drop (s_index s + 1) (s_queue s')"
      using l by (simp add: Cons_nth_drop_Suc)
    moreover have "pending s \<noteq> {}" using True pending_empty [OF 2(3)] by simp
    ultimately show ?thesis using IH(1) st1 st(2) r by (auto intro: serves.serve)
  qed
qed simp

definition batched :: "sched \<Rightarrow> bool" where
  "batched s \<longleftrightarrow> \<not> s_flushing s \<and> distinct (map w_id (s_queue s)) \<and> (\<forall>i. s_has s i \<longleftrightarrow> i \<in> w_id ` set (s_queue s))
     \<and> (s_waiting s \<longleftrightarrow> s_queue s \<noteq> []) \<and> s_ticks s = (if s_queue s = [] then 0 else 1)"

lemma queueWatcher_batched:
  "batched s \<Longrightarrow> batched (queueWatcher w s) \<and> w_id ` set (s_queue (queueWatcher w s)) = insert (w_id w) (w_id ` set (s_queue s))"
  by (auto simp: batched_def queueWatcher_def Let_def)

lemma queueWatchers_batched:
  "batched s \<Longrightarrow> batched (fold queueWatcher ws s) \<and> w_id ` set (s_queue (fold queueWatcher ws s)) = w_id ` set ws \<union> w_id ` set (s_queue s)"
  by (induction ws arbitrary: s) (use queueWatcher_batched in auto)

lemma startSched_batched: "batched startSched"
  by (simp add: batched_def startSched_def)

lemma callUpdateHooks_eq: "i \<le> length q \<Longrightarrow> callUpdateHooks renders i q = map w_vm (rev (filter renders (take i q)))"
  by (induction i) (auto simp: take_Suc_conv_app_nth)

text \<open>
  Batching: watchers queued before the flush wait once each, whatever the number of changes that
  queued them, and exactly one flush is scheduled.
\<close>

theorem queueWatcher_batches:
  "distinct (map w_id (s_queue (fold queueWatcher ws startSched)))
   \<and> w_id ` set (s_queue (fold queueWatcher ws startSched)) = w_id ` set ws
   \<and> s_ticks (fold queueWatcher ws startSched) = (if ws = [] then 0 else 1)"
proof -
  have b: "batched (fold queueWatcher ws startSched)"
    "w_id ` set (s_queue (fold queueWatcher ws startSched)) = w_id ` set ws"
    using queueWatchers_batched [OF startSched_batched, of ws] by (simp_all add: startSched_def)
  moreover have "s_queue (fold queueWatcher ws startSched) = [] \<longleftrightarrow> ws = []"
    using b(2) by (metis image_is_empty set_empty)
  ultimately show ?thesis by (simp add: batched_def)
qed

lemma flush_served:
  assumes "flushSchedulerQueue fuel run renders e (fold queueWatcher ws startSched) = Some (e', s', activated, updated)"
    and "s_warnings s' = []"
  shows "\<exists>runs. serves run (w_id ` set ws) e runs e' \<and> updated = map w_vm (rev (filter renders runs))"
proof -
  let ?s = "fold queueWatcher ws startSched"
  let ?start = "?s \<lparr> s_flushing := True, s_queue := sort_key w_id (s_queue ?s), s_index := 0 \<rparr>"
  have b: "batched ?s" "w_id ` set (s_queue ?s) = w_id ` set ws"
    using queueWatchers_batched [OF startSched_batched, of ws] by (simp_all add: startSched_def)
  then have ok: "flushing_ok ?start" by (intro flush_start) (simp_all add: batched_def)
  have p: "pending ?start = w_id ` set ws" using b(2) by (simp add: pending_def pendingFrom_def)
  obtain s1 where l: "flushWatchers fuel run e ?start = Some (e', s1)" and r: "s' = resetSchedulerState s1"
    "updated = callUpdateHooks renders (length (s_queue s1)) (s_queue s1)"
    using assms(1) by (auto simp: flushSchedulerQueue_def)
  have "s_index s1 = length (s_queue s1)" using flushWatchers_end [OF l ok] assms(2) r(1) by (simp add: resetSchedulerState_def)
  then have "serves run (w_id ` set ws) e (s_queue s1) e'" using flushWatchers_serves [OF l ok] p by simp
  then show ?thesis using r by (auto simp: callUpdateHooks_eq resetSchedulerState_def)
qed

text \<open>A parent with id 1 and its child with id 3: the run of the parent queues the child and the component 2.\<close>

definition exWatcher :: "nat \<Rightarrow> watcher" where
  "exWatcher i = \<lparr> w_id = i, w_user = False, w_vm = 10 + i \<rparr>"

definition exRun :: "nat runner" where
  "exRun w e = (e + w_id w, if w_id w = 1 then [Queue (exWatcher 3), Queue (exWatcher 2)] else [])"

section \<open>Ending\<close>

text \<open>Runs that queue only their own watcher and later ones, of which there are \<open>N\<close> at most.\<close>

definition forward_runs :: "nat \<Rightarrow> 'e runner \<Rightarrow> bool" where
  "forward_runs N run \<longleftrightarrow> (\<forall>w e. \<forall>i \<in> queued (snd (run w e)). w_id w \<le> i \<and> i < N)"

definition todo :: "nat \<Rightarrow> sched \<Rightarrow> nat" where
  "todo N s = (if pending s = {} then 0 else \<Sum>i = Min (pending s)..<N. 101 - s_circular s i)"

lemma sum_drop_less:
  fixes f :: "nat \<Rightarrow> nat"
  assumes "a < b" "b \<le> N" "0 < f a"
  shows "(\<Sum>i = b..<N. f i) < (\<Sum>i = a..<N. f i)"
proof -
  have "(\<Sum>i = a..<N. f i) = (\<Sum>i = a..<b. f i) + (\<Sum>i = b..<N. f i)"
    using assms(1,2) by (simp add: sum.atLeastLessThan_concat)
  moreover have "0 < (\<Sum>i = a..<b. f i)" using assms(1,3) by (simp add: sum.atLeast_Suc_lessThan)
  ultimately show ?thesis by simp
qed

lemma todo_step:
  assumes ok: "flushing_ok s" "flushing_ok s1" and ne: "pending s \<noteq> {}" and bound: "pending s \<subseteq> {..<N}" "\<forall>i. s_circular s i \<le> MAX_UPDATE_COUNT"
    and q: "\<forall>i \<in> Q. Min (pending s) \<le> i \<and> i < N" and p: "pending s1 = pending s - {Min (pending s)} \<union> Q"
    and c: "if Min (pending s) \<in> Q then s_circular s1 = (s_circular s) (Min (pending s) := s_circular s (Min (pending s)) + 1)
          \<and> s_circular s (Min (pending s)) < MAX_UPDATE_COUNT else s_circular s1 = s_circular s"
  shows "todo N s1 < todo N s \<and> pending s1 \<subseteq> {..<N} \<and> (\<forall>i. s_circular s1 i \<le> MAX_UPDATE_COUNT)"
proof -
  let ?m = "Min (pending s)"
  have fin: "finite (pending s)" "finite (pending s1)" by (simp_all add: pending_def)
  have m: "?m \<in> pending s" "?m < N" using fin ne bound Min_in by auto
  have pos: "0 < 101 - s_circular s ?m" using bound(2) [rule_format, of ?m] by (simp add: MAX_UPDATE_COUNT_def)
  have sub: "pending s1 \<subseteq> {..<N}" using p q bound by auto
  have circ: "\<forall>i. s_circular s1 i \<le> MAX_UPDATE_COUNT" using c bound(2) by (auto split: if_splits)
  have ge: "?m \<le> i" if "i \<in> pending s1" for i using that p q fin Min_le by auto
  have "todo N s1 < todo N s"
  proof (cases "?m \<in> Q")
    case True
    then have m1: "Min (pending s1) = ?m" using ge fin p by (intro Min_eqI) auto
    have c1: "s_circular s1 = (s_circular s) (?m := s_circular s ?m + 1)" using c True by simp
    have "(\<Sum>i = ?m..<N. 101 - s_circular s1 i) = (100 - s_circular s ?m) + (\<Sum>i = Suc ?m..<N. 101 - s_circular s i)"
      using m(2) by (simp add: sum.atLeast_Suc_lessThan c1)
    moreover have "(\<Sum>i = ?m..<N. 101 - s_circular s i) = (101 - s_circular s ?m) + (\<Sum>i = Suc ?m..<N. 101 - s_circular s i)"
      using m(2) by (simp add: sum.atLeast_Suc_lessThan)
    moreover have "pending s1 \<noteq> {}" using True p by auto
    ultimately show ?thesis using m1 ne pos by (simp add: todo_def)
  next
    case False
    then have c1: "s_circular s1 = s_circular s" using c by simp
    show ?thesis
    proof (cases "pending s1 = {}")
      case True
      then show ?thesis using ne m(2) pos by (simp add: todo_def sum.atLeast_Suc_lessThan)
    next
      case ne1: False
      then have mem: "Min (pending s1) \<in> pending s1" using fin by simp
      moreover have "?m \<notin> pending s1" using p False by simp
      ultimately have "?m \<noteq> Min (pending s1)" by metis
      then have "?m < Min (pending s1)" using ge [OF mem] by (rule le_neq_trans [rotated])
      moreover have "Min (pending s1) \<le> N" using subsetD [OF sub mem] by simp
      ultimately have "(\<Sum>i = Min (pending s1)..<N. 101 - s_circular s i) < (\<Sum>i = ?m..<N. 101 - s_circular s i)"
        using pos by (rule sum_drop_less)
      then show ?thesis using ne ne1 pos by (simp add: todo_def c1)
    qed
  qed
  then show ?thesis using sub circ by simp
qed

lemma flushWatchers_ends:
  "todo N s < n \<Longrightarrow> forward_runs N run \<Longrightarrow> flushing_ok s \<Longrightarrow> pending s \<subseteq> {..<N} \<Longrightarrow> \<forall>i. s_circular s i \<le> MAX_UPDATE_COUNT \<Longrightarrow>
   flushWatchers n run e s \<noteq> None"
proof (induction n arbitrary: e s)
  case (Suc n)
  show ?case
  proof (cases "s_index s < length (s_queue s)")
    case True
    let ?w = "s_queue s ! s_index s"
    obtain e1 acts where r: "run ?w e = (e1, acts)" by (metis surj_pair)
    obtain c s1 where st: "flushStep run e s = (c, e1, s1)" "w_id ?w = Min (pending s)"
      "\<not> c \<Longrightarrow> flushing_ok s1 \<and> pending s1 = pending s - {Min (pending s)} \<union> queued acts"
      "\<not> c \<Longrightarrow> (if Min (pending s) \<in> queued acts
          then s_circular s1 = (s_circular s) (Min (pending s) := s_circular s (Min (pending s)) + 1)
            \<and> s_circular s (Min (pending s)) < MAX_UPDATE_COUNT
          else s_circular s1 = s_circular s)"
      using flushStep_ok [where run = run and e = e and e' = e1 and acts = acts, OF Suc(4) True r] by blast
    have "pending s \<noteq> {}" using True pending_empty [OF Suc(4)] by simp
    have q: "\<forall>i \<in> queued acts. Min (pending s) \<le> i \<and> i < N"
      using Suc(3) r st(2) unfolding forward_runs_def by (metis snd_conv)
    show ?thesis
    proof (cases c)
      case False
      then have "todo N s1 < todo N s \<and> pending s1 \<subseteq> {..<N} \<and> (\<forall>i. s_circular s1 i \<le> MAX_UPDATE_COUNT)"
        using todo_step [OF Suc(4) _ \<open>pending s \<noteq> {}\<close> Suc(5,6) q] st(3,4) by blast
      then show ?thesis using Suc.IH [of s1 e1] Suc(2,3) st(1,3) True False by simp
    qed (use True st(1) in simp)
  qed simp
qed simp

lemma flush_ends:
  assumes "forward_runs N run" "w_id ` set ws \<subseteq> {..<N}"
  shows "\<exists>fuel. flushSchedulerQueue fuel run renders e (fold queueWatcher ws startSched) \<noteq> None"
proof -
  let ?s = "fold queueWatcher ws startSched"
  let ?start = "?s \<lparr> s_flushing := True, s_queue := sort_key w_id (s_queue ?s), s_index := 0 \<rparr>"
  have b: "batched ?s" "w_id ` set (s_queue ?s) = w_id ` set ws"
    using queueWatchers_batched [OF startSched_batched, of ws] by (simp_all add: startSched_def)
  then have ok: "flushing_ok ?start" by (intro flush_start) (simp_all add: batched_def)
  have p: "pending ?start = w_id ` set ws" using b(2) by (simp add: pending_def pendingFrom_def)
  have "s_circular (fold queueWatcher ws s) = s_circular s" for s
    by (induction ws arbitrary: s) (simp_all add: queueWatcher_def Let_def)
  then have c: "\<forall>i. s_circular ?start i \<le> MAX_UPDATE_COUNT" by (simp add: startSched_def)
  have "flushWatchers (Suc (todo N ?start)) run e ?start \<noteq> None"
    by (rule flushWatchers_ends [OF _ assms(1) ok _ c]) (use p assms(2) in simp_all)
  then show ?thesis unfolding flushSchedulerQueue_def by (intro exI [of _ "Suc (todo N ?start)"]) simp
qed

text \<open>
  C13. A flush ends when the run of a watcher queues only the watcher itself and later ones (those of the children
  of the component) with ids below \<open>N\<close>, and then the scheduler is reset. If no watcher was cut off for queueing
  itself too often, which leaves a warning, the flush refines a priority queue: it always runs the pending watcher
  with the least id, adding what the run queues to the pending ones, until none is pending, and the \<open>updated\<close>
  hooks that it calls are those of the render watchers that ran, last first.
\<close>

theorem flush_serves_pending:
  assumes "forward_runs N run" "w_id ` set ws \<subseteq> {..<N}"
  shows "\<exists>fuel e' s' activated updated.
    flushSchedulerQueue fuel run renders e (fold queueWatcher ws startSched) = Some (e', s', activated, updated)
    \<and> s_queue s' = [] \<and> (\<forall>i. \<not> s_has s' i) \<and> \<not> s_waiting s' \<and> \<not> s_flushing s'
    \<and> (s_warnings s' = [] \<longrightarrow>
        (\<exists>runs. serves run (w_id ` set ws) e runs e' \<and> updated = map w_vm (rev (filter renders runs))))"
proof -
  obtain fuel e' s' activated updated where f:
    "flushSchedulerQueue fuel run renders e (fold queueWatcher ws startSched) = Some (e', s', activated, updated)"
    using flush_ends [OF assms, of renders e] by auto
  then have "s_queue s' = [] \<and> (\<forall>i. \<not> s_has s' i) \<and> \<not> s_waiting s' \<and> \<not> s_flushing s'"
    by (auto simp: flushSchedulerQueue_def resetSchedulerState_def)
  then show ?thesis using f flush_served [OF f] by blast
qed

lemma flush_serves_pending_witness:
  "\<exists>fuel e' s' activated updated.
    flushSchedulerQueue fuel exRun (\<lambda>w. True) 0 (fold queueWatcher [exWatcher 3, exWatcher 1] startSched)
      = Some (e', s', activated, updated)
    \<and> s_queue s' = [] \<and> (\<forall>i. \<not> s_has s' i) \<and> \<not> s_waiting s' \<and> \<not> s_flushing s'
    \<and> (s_warnings s' = [] \<longrightarrow>
        (\<exists>runs. serves exRun {3, 1} 0 runs e' \<and> updated = map w_vm (rev (filter (\<lambda>w. True) runs))))"
  using flush_serves_pending [of 4 exRun "[exWatcher 3, exWatcher 1]" "\<lambda>w. True" 0]
  by (simp add: forward_runs_def exRun_def exWatcher_def)

text \<open>That flush runs 1, 2 and 3.\<close>

lemma exRun_flush:
  "map_option (\<lambda>(e', s', a, u). (e', s_warnings s', a, u))
      (flushSchedulerQueue 9 exRun (\<lambda>w. True) 0 (fold queueWatcher [exWatcher 3, exWatcher 1] startSched))
    = Some (6, [], [], [13, 12, 11])"
  by code_simp

text \<open>Two watchers that queue each other.\<close>

definition pingPong :: "unit runner" where
  "pingPong w e = (e, [Queue (exWatcher (if w_id w = 1 then 2 else 1))])"

lemma pingPong_loops: "flushing_ok s \<Longrightarrow> pending s = {1} \<or> pending s = {2} \<Longrightarrow> flushWatchers n pingPong e s = None"
proof (induction n arbitrary: e s)
  case (Suc n)
  have more: "s_index s < length (s_queue s)"
    using Suc(2,3) pending_empty [OF Suc(2)] by (auto simp: flushing_ok_def pending_ok_def)
  let ?w = "s_queue s ! s_index s" and ?acts = "snd (pingPong (s_queue s ! s_index s) e)"
  have r: "pingPong ?w e = (e, ?acts)" by (simp add: pingPong_def)
  obtain c s1 where st: "flushStep pingPong e s = (c, e, s1)" "w_id ?w = Min (pending s)"
    "\<not> c \<Longrightarrow> flushing_ok s1 \<and> pending s1 = pending s - {Min (pending s)} \<union> queued ?acts"
    "c \<Longrightarrow> w_id ?w \<in> queued ?acts"
    using flushStep_ok [where run = pingPong and e = e and e' = e and acts = ?acts, OF Suc(2) more r] by blast
  have q: "queued ?acts = {if w_id ?w = 1 then 2 else 1}" by (simp add: pingPong_def exWatcher_def)
  have "\<not> c" using st(2,4) q Suc(3) by auto
  moreover have "pending s1 = {1} \<or> pending s1 = {2}" using st(2) st(3) [OF \<open>\<not> c\<close>] q Suc(3) by auto
  ultimately show ?case using Suc.IH st(1,3) more by simp
qed simp

text \<open>
  C39. Two watchers whose runs queue each other are never cut off: the check for circular updates only
  sees a watcher that its own run has queued again, so the flush does not end.
\<close>

theorem pingPong_never_ends:
  "flushSchedulerQueue fuel pingPong renders () (queueWatcher (exWatcher 1) startSched) = None"
proof -
  let ?s = "fold queueWatcher [exWatcher 1] startSched"
  let ?start = "?s \<lparr> s_flushing := True, s_queue := sort_key w_id (s_queue ?s), s_index := 0 \<rparr>"
  have b: "batched ?s" "w_id ` set (s_queue ?s) = {1}"
    using queueWatchers_batched [OF startSched_batched, of "[exWatcher 1]"] by (simp_all add: startSched_def exWatcher_def)
  then have "flushing_ok ?start" by (intro flush_start) (simp_all add: batched_def)
  moreover have "pending ?start = {1}" using b(2) by (simp add: pending_def pendingFrom_def)
  ultimately show ?thesis using pingPong_loops [of ?start fuel "()"] by (simp add: flushSchedulerQueue_def)
qed

end
