(* ===== verification/VueHtml.thy ===== *)
theory VueHtml
  imports Strings
begin

text \<open>
  The HTML parser of the template compiler of vue.js: the regular expressions for tags and attributes
  as matching functions, and \<open>parseHTML\<close> with the list of the calls of its callbacks as the result.
\<close>

section \<open>Tags\<close>

definition lowerChar :: "nat \<Rightarrow> nat" where
  "lowerChar c = (if 65 \<le> c \<and> c \<le> 90 then c + 32 else c)"

text \<open>\<open>toLowerCase\<close> of tag names, which are ASCII.\<close>

definition lower :: "jstr \<Rightarrow> jstr" where
  "lower = map lowerChar"

definition makeMap :: "string list \<Rightarrow> bool \<Rightarrow> jstr \<Rightarrow> bool" where
  "makeMap list expectsLowerCase val \<longleftrightarrow> List.member (map js list) (if expectsLowerCase then lower val else val)"

definition isPlainTextElement :: "jstr \<Rightarrow> bool" where
  "isPlainTextElement = makeMap [''script'', ''style'', ''textarea''] True"

definition isUnaryTag :: "jstr \<Rightarrow> bool" where
  "isUnaryTag = makeMap
     [''area'', ''base'', ''br'', ''col'', ''embed'', ''frame'', ''hr'', ''img'', ''input'', ''isindex'', ''keygen'', ''link'',
      ''meta'', ''param'', ''source'', ''track'', ''wbr''] False"

definition canBeLeftOpenTag :: "jstr \<Rightarrow> bool" where
  "canBeLeftOpenTag = makeMap
     [''colgroup'', ''dd'', ''dt'', ''li'', ''options'', ''p'', ''td'', ''tfoot'', ''th'', ''thead'', ''tr'', ''source''] False"

definition isNonPhrasingTag :: "jstr \<Rightarrow> bool" where
  "isNonPhrasingTag = makeMap
     [''address'', ''article'', ''aside'', ''base'', ''blockquote'', ''body'', ''caption'', ''col'', ''colgroup'', ''dd'',
      ''details'', ''dialog'', ''div'', ''dl'', ''dt'', ''fieldset'', ''figcaption'', ''figure'', ''footer'', ''form'',
      ''h1'', ''h2'', ''h3'', ''h4'', ''h5'', ''h6'', ''head'', ''header'', ''hgroup'', ''hr'', ''html'', ''legend'', ''li'',
      ''menuitem'', ''meta'', ''optgroup'', ''option'', ''param'', ''rp'', ''rt'', ''source'', ''style'', ''summary'', ''tbody'',
      ''td'', ''tfoot'', ''th'', ''thead'', ''title'', ''tr'', ''track''] False"

section \<open>Regular expressions\<close>

text \<open>Characters: 60 is \<open><\<close>, 62 \<open>></\<close>, 47 the slash, 61 the equals sign, 34 and 39 the quotes.\<close>

definition nameStart :: "nat \<Rightarrow> bool" where
  "nameStart c \<longleftrightarrow> 65 \<le> c \<and> c \<le> 90 \<or> 97 \<le> c \<and> c \<le> 122 \<or> c = 95"

definition nameChar :: "nat \<Rightarrow> bool" where
  "nameChar c \<longleftrightarrow> nameStart c \<or> 48 \<le> c \<and> c \<le> 57 \<or> c = 45 \<or> c = 46"

text \<open>The length of the match of \<open>[a-zA-Z_][\w\-\.]*\<close> at the front, 0 without one, and of \<open>qnameCapture\<close>.\<close>

fun ncname :: "jstr \<Rightarrow> nat" where
  "ncname [] = 0"
| "ncname (c # s) = (if nameStart c then Suc (length (takeWhile nameChar s)) else 0)"

definition qname :: "jstr \<Rightarrow> nat" where
  "qname s =
     (let n = ncname s
      in if n = 0 then 0
         else (case drop n s of
                 [] \<Rightarrow> n
               | c # r \<Rightarrow> if c = 58 \<and> ncname r \<noteq> 0 then n + 1 + ncname r else n))"

definition starts :: "jstr \<Rightarrow> jstr \<Rightarrow> bool" where
  "starts p s \<longleftrightarrow> take (length p) s = p"

text \<open>The index of the first occurrence of a word.\<close>

fun find_word :: "jstr \<Rightarrow> jstr \<Rightarrow> nat option" where
  "find_word w [] = (if w = [] then Some 0 else None)"
| "find_word w (c # s) = (if starts w (c # s) then Some 0 else map_option Suc (find_word w s))"

definition startTagOpen :: "jstr \<Rightarrow> nat option" where
  "startTagOpen s = (case s of [] \<Rightarrow> None | c # r \<Rightarrow> if c = 60 \<and> qname r \<noteq> 0 then Some (qname r) else None)"

text \<open>\<open>^\s*(\/?)>\<close>: the length of the match and whether the slash is there.\<close>

definition startTagClose :: "jstr \<Rightarrow> (nat \<times> bool) option" where
  "startTagClose s =
     (let n = length (takeWhile is_space s); r = drop n s
      in if starts [62] r then Some (n + 1, False) else if starts [47, 62] r then Some (n + 2, True) else None)"

text \<open>\<open>^<\/qname[^>]*>\<close>: the length of the match and of the name.\<close>

definition endTag :: "jstr \<Rightarrow> (nat \<times> nat) option" where
  "endTag s =
     (if starts [60, 47] s \<and> qname (drop 2 s) \<noteq> 0
      then (case find_char 62 (drop (2 + qname (drop 2 s)) s) of
              None \<Rightarrow> None
            | Some k \<Rightarrow> Some (2 + qname (drop 2 s) + k + 1, qname (drop 2 s)))
      else None)"

definition doctype :: "jstr \<Rightarrow> nat option" where
  "doctype s =
     (if starts (js ''<!doctype '') (lower (take 10 s))
      then (case find_char 62 (drop 10 s) of None \<Rightarrow> None | Some k \<Rightarrow> if k = 0 then None else Some (10 + k + 1))
      else None)"

definition comment :: "jstr \<Rightarrow> bool" where
  "comment = starts (js ''<!--'')"

definition conditionalComment :: "jstr \<Rightarrow> bool" where
  "conditionalComment = starts (js ''<!['')"

definition attrNameChar :: "nat \<Rightarrow> bool" where
  "attrNameChar c \<longleftrightarrow> \<not> is_space c \<and> c \<noteq> 34 \<and> c \<noteq> 39 \<and> c \<noteq> 60 \<and> c \<noteq> 62 \<and> c \<noteq> 47 \<and> c \<noteq> 61"

definition bareChar :: "nat \<Rightarrow> bool" where
  "bareChar c \<longleftrightarrow> \<not> is_space c \<and> c \<noteq> 34 \<and> c \<noteq> 39 \<and> c \<noteq> 61 \<and> c \<noteq> 60 \<and> c \<noteq> 62 \<and> c \<noteq> 96"

text \<open>The value after the equals sign: its length with the quotes, and the captured text.\<close>

definition quotedValue :: "nat \<Rightarrow> jstr \<Rightarrow> (nat \<times> jstr) option" where
  "quotedValue q s =
     (case find_char q s of
        None \<Rightarrow> None
      | Some k \<Rightarrow> Some (1 + k + length (takeWhile (\<lambda>c. c = q) (drop k s)), take k s))"

definition attrValue :: "jstr \<Rightarrow> (nat \<times> jstr) option" where
  "attrValue s =
     (case s of
        [] \<Rightarrow> None
      | c # r \<Rightarrow>
          if c = 34 \<or> c = 39 then quotedValue c r
          else (let v = takeWhile bareChar s in if v = [] then None else Some (length v, v)))"

text \<open>The optional part \<open>(?:\s*(=)\s*(?:...))?\<close>; without a match it is empty.\<close>

definition attrAssign :: "jstr \<Rightarrow> nat \<times> jstr" where
  "attrAssign s =
     (let a = length (takeWhile is_space s)
      in case drop a s of
           [] \<Rightarrow> (0, [])
         | c # r \<Rightarrow>
             if c = 61
             then (let b = length (takeWhile is_space r)
                   in case attrValue (drop b r) of None \<Rightarrow> (0, []) | Some (n, v) \<Rightarrow> (a + 1 + b + n, v))
             else (0, []))"

text \<open>The match of \<open>attribute\<close>: its length, the name and the value.\<close>

definition attribute :: "jstr \<Rightarrow> (nat \<times> jstr \<times> jstr) option" where
  "attribute s =
     (let a = length (takeWhile is_space s); name = takeWhile attrNameChar (drop a s)
      in if name = [] then None
         else (case attrAssign (drop (a + length name) s) of (n, v) \<Rightarrow> Some (a + length name + n, name, v)))"

section \<open>Attribute values\<close>

definition decodingMap :: "bool \<Rightarrow> (jstr \<times> nat) list" where
  "decodingMap newlines =
     [(js ''&lt;'', 60), (js ''&gt;'', 62), (js ''&quot;'', 34), (js ''&amp;'', 38)] @ (if newlines then [(js ''&#10;'', 10)] else [])"

definition entityAt :: "bool \<Rightarrow> jstr \<Rightarrow> (nat \<times> nat) option" where
  "entityAt newlines s =
     (case filter (\<lambda>(w, c). starts w s) (decodingMap newlines) of [] \<Rightarrow> None | (w, c) # _ \<Rightarrow> Some (length w, c))"

function decodeAttr :: "bool \<Rightarrow> jstr \<Rightarrow> jstr" where
  "decodeAttr newlines [] = []"
| "decodeAttr newlines (x # s) =
     (case entityAt newlines (x # s) of
        None \<Rightarrow> x # decodeAttr newlines s
      | Some (n, c) \<Rightarrow> c # decodeAttr newlines (drop (n - 1) s))"
  by pat_completeness auto
termination by (relation "measure (\<lambda>(b, s). length s)") auto

section \<open>The parser\<close>

record options =
  expectHTML :: bool
  o_isUnaryTag :: "jstr \<Rightarrow> bool"
  o_canBeLeftOpenTag :: "jstr \<Rightarrow> bool"
  shouldDecodeNewlines :: bool

type_synonym attr = "jstr \<times> jstr"

text \<open>The calls of \<open>options.start\<close>, \<open>options.end\<close>, \<open>options.chars\<close> and \<open>options.warn\<close>.\<close>

datatype event =
    Start jstr "attr list" bool nat nat
  | Ended jstr nat nat
  | Chars jstr
  | NoEndTag jstr
  | MalFormatted jstr

text \<open>The stack has its top first.\<close>

record hp =
  h_html :: jstr
  h_index :: nat
  h_stack :: "(jstr \<times> jstr \<times> attr list) list"
  h_lastTag :: "jstr option"
  h_events :: "event list"

definition emit :: "event list \<Rightarrow> hp \<Rightarrow> hp" where
  "emit es s = s \<lparr> h_events := h_events s @ es \<rparr>"

definition advance :: "nat \<Rightarrow> hp \<Rightarrow> hp" where
  "advance n s = s \<lparr> h_index := h_index s + n, h_html := drop n (h_html s) \<rparr>"

text \<open>The elements of the stack down to the closest one with the given tag, and the ones below it.\<close>

fun findOpen :: "jstr \<Rightarrow> (jstr \<times> jstr \<times> attr list) list \<Rightarrow> (jstr list \<times> (jstr \<times> jstr \<times> attr list) list) option" where
  "findOpen t [] = None"
| "findOpen t ((tag, low, as) # st) =
     (if low = t then Some ([tag], st) else map_option (\<lambda>(ts, r). (tag # ts, r)) (findOpen t st))"

fun closeAll :: "bool \<Rightarrow> nat \<Rightarrow> nat \<Rightarrow> jstr list \<Rightarrow> event list" where
  "closeAll matched a b [] = []"
| "closeAll matched a b (t # ts) =
     (if ts \<noteq> [] \<or> \<not> matched then [NoEndTag t] else []) @ Ended t a b # closeAll matched a b ts"

definition topTag :: "(jstr \<times> jstr \<times> attr list) list \<Rightarrow> jstr option" where
  "topTag st = (case st of [] \<Rightarrow> None | (tag, low, as) # _ \<Rightarrow> Some tag)"

definition parseEndTag :: "jstr option \<Rightarrow> nat \<Rightarrow> nat \<Rightarrow> hp \<Rightarrow> hp" where
  "parseEndTag tagName a b s =
     (case tagName of
        None \<Rightarrow> emit (closeAll False a b (map fst (h_stack s))) (s \<lparr> h_stack := [], h_lastTag := None \<rparr>)
      | Some t \<Rightarrow>
          (case findOpen (lower t) (h_stack s) of
             Some (ts, st) \<Rightarrow> emit (closeAll True a b ts) (s \<lparr> h_stack := st, h_lastTag := topTag st \<rparr>)
           | None \<Rightarrow>
               if lower t = js ''br'' then emit [Start t [] True a b] s
               else if lower t = js ''p'' then emit [Start t [] False a b, Ended t a b] s
               else s))"

text \<open>The attributes of a start tag: the loop ends at the end of the tag or where no attribute matches.\<close>

lemma attribute_pos: "attribute s = Some (n, a) \<Longrightarrow> 0 < n \<and> s \<noteq> []"
  by (cases s) (auto simp: attribute_def Let_def split: if_splits prod.splits)

function parseAttrs :: "attr list \<Rightarrow> hp \<Rightarrow> attr list \<times> hp" where
  "parseAttrs as s =
     (if startTagClose (h_html s) \<noteq> None then (as, s)
      else (case attribute (h_html s) of
              None \<Rightarrow> (as, s)
            | Some (n, a) \<Rightarrow> parseAttrs (as @ [a]) (advance n s)))"
  by pat_completeness auto
termination
  by (relation "measure (\<lambda>(as, s). length (h_html s))") (auto dest!: attribute_pos simp: advance_def)

declare parseAttrs.simps [simp del]

text \<open>The tag, its attributes, whether it ends with a slash, and its end.\<close>

definition parseStartTag :: "hp \<Rightarrow> hp \<times> (jstr \<times> attr list \<times> bool \<times> nat \<times> nat) option" where
  "parseStartTag s =
     (case startTagOpen (h_html s) of
        None \<Rightarrow> (s, None)
      | Some n \<Rightarrow>
          (case parseAttrs [] (advance (n + 1) s) of
             (as, s1) \<Rightarrow>
               (case startTagClose (h_html s1) of
                  None \<Rightarrow> (s1, None)
                | Some (k, slash) \<Rightarrow>
                    (advance k s1, Some (take n (drop 1 (h_html s)), as, slash, h_index s, h_index s1 + k)))))"

definition autoClose :: "options \<Rightarrow> jstr \<Rightarrow> hp \<Rightarrow> hp" where
  "autoClose opt tag s =
     (if expectHTML opt then
        (let s1 = (if h_lastTag s = Some (js ''p'') \<and> isNonPhrasingTag tag
                   then parseEndTag (h_lastTag s) (h_index s) (h_index s) s else s)
         in if o_canBeLeftOpenTag opt tag \<and> h_lastTag s1 = Some tag
            then parseEndTag (Some tag) (h_index s1) (h_index s1) s1 else s1)
      else s)"

definition handleStartTag :: "options \<Rightarrow> jstr \<times> attr list \<times> bool \<times> nat \<times> nat \<Rightarrow> hp \<Rightarrow> hp" where
  "handleStartTag opt m s =
     (case m of
        (tag, as, slash, a, b) \<Rightarrow>
          (let s1 = autoClose opt tag s;
               unary = (o_isUnaryTag opt tag \<or> tag = js ''html'' \<and> h_lastTag s1 = Some (js ''head'') \<or> slash);
               attrs = map (\<lambda>(n, v). (n, decodeAttr (shouldDecodeNewlines opt) v)) as;
               s2 = (if \<not> unary then s1 \<lparr> h_stack := (tag, lower tag, attrs) # h_stack s1, h_lastTag := Some tag \<rparr> else s1)
           in emit [Start tag attrs unary a b] s2))"

definition markupStarts :: "jstr \<Rightarrow> bool" where
  "markupStarts s \<longleftrightarrow> endTag s \<noteq> None \<or> startTagOpen s \<noteq> None \<or> comment s \<or> conditionalComment s"

text \<open>A \<open><\<close> that begins no markup belongs to the text: the end of the text from \<open>textEnd\<close> on.\<close>

function findTextEnd :: "jstr \<Rightarrow> nat \<Rightarrow> nat" where
  "findTextEnd html textEnd =
     (if markupStarts (drop textEnd html) then textEnd
      else (case char_index 60 (drop textEnd html) 1 of
              None \<Rightarrow> textEnd
            | Some k \<Rightarrow> if k = 0 then textEnd else findTextEnd html (textEnd + k)))"
  by pat_completeness auto
termination
proof (relation "measure (\<lambda>(h, n). length h - n)")
  fix html :: jstr and n k :: nat
  assume k: "char_index 60 (drop n html) 1 = Some k" "k \<noteq> 0"
  then have "drop n html \<noteq> []" by (auto simp: char_index_def)
  then show "((html, n + k), html, n) \<in> measure (\<lambda>(h, n). length h - n)" using k(2) by simp
qed simp

declare findTextEnd.simps [simp del]

definition textRound :: "nat option \<Rightarrow> hp \<Rightarrow> hp" where
  "textRound textEnd s =
     (case textEnd of
        None \<Rightarrow> emit (if h_html s = [] then [] else [Chars (h_html s)]) (s \<lparr> h_html := [] \<rparr>)
      | Some k \<Rightarrow>
          (let n = findTextEnd (h_html s) k; x = take n (h_html s)
           in emit (if x = [] then [] else [Chars x]) (advance n s)))"

text \<open>The branches for markup at the front: \<open>Inl\<close> when the loop continues with the next round.\<close>

definition parseMarkup :: "options \<Rightarrow> hp \<Rightarrow> hp + hp" where
  "parseMarkup opt s =
     (let html = h_html s
      in case (if comment html then find_word (js ''-->'') html else None) of
           Some n \<Rightarrow> Inl (advance (n + 3) s)
         | None \<Rightarrow>
      (case (if conditionalComment html then find_word (js '']>'') html else None) of
           Some n \<Rightarrow> Inl (advance (n + 2) s)
         | None \<Rightarrow>
      (case doctype html of
           Some n \<Rightarrow> Inl (advance n s)
         | None \<Rightarrow>
      (case endTag html of
           Some (n, k) \<Rightarrow> Inl (parseEndTag (Some (take k (drop 2 html))) (h_index s) (h_index s + n) (advance n s))
         | None \<Rightarrow>
      (case parseStartTag s of
           (s1, Some m) \<Rightarrow> Inl (handleStartTag opt m s1)
         | (s1, None) \<Rightarrow> Inr s1)))))"

text \<open>The text of a plain text element and the length of its end tag.\<close>

fun findStackedEnd :: "jstr \<Rightarrow> jstr \<Rightarrow> (nat \<times> nat) option" where
  "findStackedEnd tag [] = None"
| "findStackedEnd tag (c # s) =
     (if starts ([60, 47] @ tag) (lower (take (2 + length tag) (c # s)))
      then (case find_char 62 (drop (2 + length tag) (c # s)) of None \<Rightarrow> None | Some k \<Rightarrow> Some (0, 2 + length tag + k + 1))
      else map_option (\<lambda>(n, k). (Suc n, k)) (findStackedEnd tag s))"

definition parsePlainText :: "jstr \<Rightarrow> hp \<Rightarrow> hp" where
  "parsePlainText tag s =
     (case findStackedEnd tag (h_html s) of
        None \<Rightarrow> parseEndTag (Some tag) (h_index s) (h_index s) s
      | Some (n, k) \<Rightarrow>
          (let s1 = advance (n + k) (emit [Chars (take n (h_html s))] s)
           in parseEndTag (Some tag) (h_index s1 - k) (h_index s1) s1))"

definition contentRound :: "options \<Rightarrow> hp \<Rightarrow> hp" where
  "contentRound opt s =
     (case find_char 60 (h_html s) of
        Some 0 \<Rightarrow> (case parseMarkup opt s of Inl s1 \<Rightarrow> s1 | Inr s1 \<Rightarrow> textRound (Some 0) s1)
      | k \<Rightarrow> textRound k s)"

definition htmlRound :: "options \<Rightarrow> hp \<Rightarrow> hp" where
  "htmlRound opt s =
     (case h_lastTag s of
        Some t \<Rightarrow> if isPlainTextElement t then parsePlainText (lower t) s else contentRound opt s
      | None \<Rightarrow> contentRound opt s)"

definition giveUp :: "hp \<Rightarrow> hp" where
  "giveUp s = emit (Chars (h_html s) # (if h_stack s = [] then [MalFormatted (h_html s)] else [])) s"

definition suffix_of :: "hp \<Rightarrow> hp \<Rightarrow> bool" where
  "suffix_of s' s \<longleftrightarrow> (\<exists>k. h_html s' = drop k (h_html s))"

lemma suffix_refl [simp]: "suffix_of s s"
  unfolding suffix_of_def by (intro exI [of _ 0]) simp

lemma suffix_trans: "suffix_of s2 s1 \<Longrightarrow> suffix_of s1 s \<Longrightarrow> suffix_of s2 s"
  unfolding suffix_of_def by (metis drop_drop)

lemma html_of_steps [simp]:
  "h_html (emit es s) = h_html s" "h_html (advance n s) = drop n (h_html s)" "h_html (parseEndTag t a b s) = h_html s"
  by (auto simp: emit_def advance_def parseEndTag_def split: option.splits prod.splits)

lemma html_handleStartTag [simp]: "h_html (handleStartTag opt m s) = h_html s"
  by (cases m) (simp add: handleStartTag_def autoClose_def Let_def)

lemma parseAttrs_suffix: "suffix_of (snd (parseAttrs as s)) s"
proof (induction as s rule: parseAttrs.induct)
  case (1 as s)
  show ?case
  proof (cases "startTagClose (h_html s) \<noteq> None \<or> attribute (h_html s) = None")
    case True
    then show ?thesis by (subst parseAttrs.simps) auto
  next
    case False
    then obtain n a where a: "startTagClose (h_html s) = None" "attribute (h_html s) = Some (n, a)"
      by (cases "startTagClose (h_html s)"; cases "attribute (h_html s)") auto
    then have "suffix_of (snd (parseAttrs (as @ [a]) (advance n s))) (advance n s)" using 1 by simp
    moreover have "suffix_of (advance n s) s" by (auto simp: suffix_of_def)
    moreover have "parseAttrs as s = parseAttrs (as @ [a]) (advance n s)" using a by (subst parseAttrs.simps) simp
    ultimately show ?thesis using suffix_trans by metis
  qed
qed

lemma advance_suffix: "suffix_of (advance n s) s"
  by (auto simp: suffix_of_def)

lemma parseStartTag_suffix: "suffix_of (fst (parseStartTag s)) s"
proof (cases "startTagOpen (h_html s)")
  case None
  then show ?thesis by (simp add: parseStartTag_def)
next
  case (Some n)
  obtain as s1 where p: "parseAttrs [] (advance (n + 1) s) = (as, s1)" by (metis surj_pair)
  have s1: "suffix_of s1 s" using parseAttrs_suffix [of "[]" "advance (n + 1) s"] advance_suffix suffix_trans p by (metis snd_conv)
  moreover have "suffix_of (advance k s1) s" for k using s1 advance_suffix suffix_trans by blast
  ultimately show ?thesis using Some p by (auto simp: parseStartTag_def split: option.split)
qed

lemma suffix_html: "h_html s' = h_html s1 \<Longrightarrow> suffix_of s1 s \<Longrightarrow> suffix_of s' s"
  by (simp add: suffix_of_def)

lemma parseMarkup_suffix:
  "parseMarkup opt s = Inl s1 \<Longrightarrow> suffix_of s1 s" "parseMarkup opt s = Inr s1 \<Longrightarrow> suffix_of s1 s"
proof -
  obtain s2 m where p: "parseStartTag s = (s2, m)" by (metis surj_pair)
  then have s2: "suffix_of s2 s" using parseStartTag_suffix [of s] by simp
  have h: "suffix_of (handleStartTag opt m s2) s" for m using suffix_html [of _ s2] s2 by simp
  have a: "suffix_of (parseEndTag t x y (advance n s)) s" for t x y n by (auto simp: suffix_of_def)
  show "parseMarkup opt s = Inl s1 \<Longrightarrow> suffix_of s1 s"
    using p h a advance_suffix by (auto simp: parseMarkup_def Let_def split: option.splits)
  show "parseMarkup opt s = Inr s1 \<Longrightarrow> suffix_of s1 s"
    using p s2 by (auto simp: parseMarkup_def Let_def split: option.splits)
qed

lemma textRound_suffix: "suffix_of (textRound k s) s"
proof (cases k)
  case None
  then show ?thesis by (auto simp: textRound_def suffix_of_def intro: exI [of _ "length (h_html s)"])
qed (auto simp: textRound_def suffix_of_def Let_def)

lemma parsePlainText_suffix: "suffix_of (parsePlainText t s) s"
  by (auto simp: parsePlainText_def suffix_of_def Let_def split: option.split intro: exI [of _ 0])

lemma contentRound_cases:
  obtains s1 where "parseMarkup opt s = Inl s1" "contentRound opt s = s1"
  | s1 where "parseMarkup opt s = Inr s1" "contentRound opt s = textRound (Some 0) s1"
  | k where "contentRound opt s = textRound k s"
proof (cases "find_char 60 (h_html s) = Some 0")
  case True
  then show thesis using that(1,2) by (cases "parseMarkup opt s") (simp_all add: contentRound_def)
next
  case False
  then have "contentRound opt s = textRound (find_char 60 (h_html s)) s"
    by (simp add: contentRound_def split: option.split nat.split)
  then show thesis by (rule that(3))
qed

lemma contentRound_suffix: "suffix_of (contentRound opt s) s"
  using parseMarkup_suffix textRound_suffix suffix_trans by (cases rule: contentRound_cases [of opt s]) metis+

lemma htmlRound_suffix: "suffix_of (htmlRound opt s) s"
  by (simp add: htmlRound_def contentRound_suffix parsePlainText_suffix split: option.split)

lemma suffix_less: "suffix_of s' s \<Longrightarrow> h_html s' \<noteq> h_html s \<Longrightarrow> length (h_html s') < length (h_html s)"
proof -
  assume a: "suffix_of s' s" "h_html s' \<noteq> h_html s"
  then obtain k where k: "h_html s' = drop k (h_html s)" by (auto simp: suffix_of_def)
  then have "k \<noteq> 0" "h_html s \<noteq> []" using a(2) by (intro notI; simp)+
  then show ?thesis using k by simp
qed

text \<open>A round that changes nothing gives up; the rounds that continue always change something.\<close>

function htmlLoop :: "options \<Rightarrow> hp \<Rightarrow> hp" where
  "htmlLoop opt s =
     (if h_html s = [] then s
      else (let s1 = htmlRound opt s in if h_html s1 = h_html s then giveUp s1 else htmlLoop opt s1))"
  by pat_completeness auto
termination
  by (relation "measure (\<lambda>(opt, s). length (h_html s))") (auto intro: suffix_less htmlRound_suffix)

declare htmlLoop.simps [simp del]

definition startHtml :: "jstr \<Rightarrow> hp" where
  "startHtml html = \<lparr> h_html = html, h_index = 0, h_stack = [], h_lastTag = None, h_events = [] \<rparr>"

definition parseHTML :: "options \<Rightarrow> jstr \<Rightarrow> event list" where
  "parseHTML opt html =
     (let s = htmlLoop opt (startHtml html) in h_events (parseEndTag None (h_index s) (h_index s) s))"

section \<open>Nesting\<close>

text \<open>The open elements after a list of events; \<open>None\<close> when an element ends that is not the last opened.\<close>

fun nest :: "jstr list \<Rightarrow> event list \<Rightarrow> jstr list option" where
  "nest st [] = Some st"
| "nest st (Start t as unary a b # es) = nest (if unary then st else t # st) es"
| "nest st (Ended t a b # es) = (case st of [] \<Rightarrow> None | u # r \<Rightarrow> if u = t then nest r es else None)"
| "nest st (Chars x # es) = nest st es"
| "nest st (NoEndTag t # es) = nest st es"
| "nest st (MalFormatted x # es) = nest st es"

definition hp_ok :: "hp \<Rightarrow> bool" where
  "hp_ok s \<longleftrightarrow> nest [] (h_events s) = Some (map fst (h_stack s)) \<and> h_lastTag s = topTag (h_stack s)"

lemma nest_append: "nest st (es @ fs) = Option.bind (nest st es) (\<lambda>st'. nest st' fs)"
  by (induction st es rule: nest.induct) (auto split: list.splits)

lemma nest_closeAll: "nest (ts @ st) (closeAll m a b ts) = Some st"
  by (induction ts) auto

lemma findOpen_split: "findOpen t st = Some (ts, r) \<Longrightarrow> map fst st = ts @ map fst r"
  by (induction t st arbitrary: ts r rule: findOpen.induct) (auto split: if_splits)

lemma topTag_simps [simp]: "topTag [] = None" "topTag ((t, l, as) # st) = Some t"
  by (simp_all add: topTag_def)

lemma parseEndTag_hp_ok: "hp_ok s \<Longrightarrow> hp_ok (parseEndTag t a b s)"
proof (cases t)
  case None
  assume "hp_ok s"
  then show ?thesis using None nest_closeAll [of "map fst (h_stack s)" "[]"]
    by (simp add: parseEndTag_def hp_ok_def emit_def nest_append)
next
  case (Some t)
  assume ok: "hp_ok s"
  show ?thesis
  proof (cases "findOpen (lower t) (h_stack s)")
    case None
    then show ?thesis using ok Some by (simp add: parseEndTag_def hp_ok_def emit_def nest_append)
  next
    case (Some x)
    then obtain ts r where x: "findOpen (lower t) (h_stack s) = Some (ts, r)" by (cases x) auto
    then show ?thesis using ok \<open>_ = Some t\<close> findOpen_split [OF x] nest_closeAll [of ts "map fst r"]
      by (simp add: parseEndTag_def hp_ok_def emit_def nest_append)
  qed
qed

lemma hp_ok_cong:
  "h_events s' = h_events s \<Longrightarrow> h_stack s' = h_stack s \<Longrightarrow> h_lastTag s' = h_lastTag s \<Longrightarrow> hp_ok s' = hp_ok s"
  by (simp add: hp_ok_def)

lemma advance_hp_ok [simp]: "hp_ok (advance n s) = hp_ok s"
  by (rule hp_ok_cong) (simp_all add: advance_def)

lemma emit_Chars_hp_ok: "hp_ok s \<Longrightarrow> hp_ok (emit [Chars x] s)"
  by (simp add: hp_ok_def emit_def nest_append)

lemma emit_Nil [simp]: "emit [] s = s"
  by (simp add: emit_def)

lemma handleStartTag_hp_ok: "hp_ok s \<Longrightarrow> hp_ok (handleStartTag opt m s)"
proof -
  assume "hp_ok s"
  then have ok: "hp_ok (autoClose opt t s)" for t by (simp add: autoClose_def Let_def parseEndTag_hp_ok)
  obtain t as sl a b where m: "m = (t, as, sl, a, b)" by (metis prod_cases5)
  define u where "u = (o_isUnaryTag opt t \<or> t = js ''html'' \<and> h_lastTag (autoClose opt t s) = Some (js ''head'') \<or> sl)"
  show ?thesis using ok [of t] unfolding m handleStartTag_def Let_def case_prod_conv u_def [symmetric]
    by (cases u) (simp_all add: hp_ok_def emit_def nest_append)
qed

lemma parseAttrs_hp_ok: "hp_ok s \<Longrightarrow> hp_ok (snd (parseAttrs as s))"
proof (induction as s rule: parseAttrs.induct)
  case (1 as s)
  then show ?case by (subst parseAttrs.simps) (auto split: option.splits)
qed

lemma parseStartTag_hp_ok: "hp_ok s \<Longrightarrow> hp_ok (fst (parseStartTag s))"
  using parseAttrs_hp_ok [of "advance n s" "[]" for n]
  by (auto simp: parseStartTag_def split: option.splits prod.splits) (metis advance_hp_ok snd_conv)+

lemma parseMarkup_hp_ok:
  assumes "hp_ok s"
  shows "parseMarkup opt s = Inl s1 \<Longrightarrow> hp_ok s1" "parseMarkup opt s = Inr s1 \<Longrightarrow> hp_ok s1"
  using assms parseStartTag_hp_ok [OF assms] handleStartTag_hp_ok parseEndTag_hp_ok
  by (auto simp: parseMarkup_def Let_def split: option.splits prod.splits)

lemma textRound_hp_ok: "hp_ok s \<Longrightarrow> hp_ok (textRound k s)"
  using emit_Chars_hp_ok hp_ok_cong [of "s \<lparr> h_html := [] \<rparr>" s]
  by (cases k) (simp_all add: textRound_def Let_def)

lemma parsePlainText_hp_ok: "hp_ok s \<Longrightarrow> hp_ok (parsePlainText t s)"
  by (simp add: parsePlainText_def Let_def parseEndTag_hp_ok emit_Chars_hp_ok split: option.split prod.split)

lemma contentRound_hp_ok: "hp_ok s \<Longrightarrow> hp_ok (contentRound opt s)"
  using parseMarkup_hp_ok textRound_hp_ok by (cases rule: contentRound_cases [of opt s]) metis+

lemma htmlRound_hp_ok: "hp_ok s \<Longrightarrow> hp_ok (htmlRound opt s)"
  by (simp add: htmlRound_def contentRound_hp_ok parsePlainText_hp_ok split: option.split)

lemma htmlLoop_hp_ok: "hp_ok s \<Longrightarrow> hp_ok (htmlLoop opt s)"
proof (induction opt s rule: htmlLoop.induct)
  case (1 opt s)
  then show ?case using htmlRound_hp_ok [of s opt]
    by (subst htmlLoop.simps) (auto simp: Let_def giveUp_def emit_def hp_ok_def nest_append)
qed

lemma parseHTML_nests: "nest [] (parseHTML opt html) = Some []"
proof -
  have "hp_ok (startHtml html)" by (simp add: hp_ok_def startHtml_def)
  then have "hp_ok (parseEndTag None i i (htmlLoop opt (startHtml html)))" for i
    using htmlLoop_hp_ok parseEndTag_hp_ok by blast
  moreover have "h_stack (parseEndTag None i i s) = []" for i s by (simp add: parseEndTag_def emit_def)
  ultimately show ?thesis unfolding parseHTML_def Let_def hp_ok_def by simp
qed

text \<open>
  C19. The calls of \<open>start\<close> and \<open>end\<close> are well nested for any input: every \<open>end\<close> is for the element opened last,
  and at the end no element is left open.
\<close>

theorem parseHTML_nested: "nest [] (parseHTML opt html) = Some []"
  by (rule parseHTML_nests)

section \<open>Parsing rendered templates\<close>

datatype tree = El jstr "attr list" "tree list" | Tx jstr

definition attrText :: "attr \<Rightarrow> jstr" where
  "attrText a = 32 # fst a @ [61, 34] @ snd a @ [34]"

fun renderF :: "tree list \<Rightarrow> jstr" where
  "renderF [] = []"
| "renderF (Tx x # ks) = x @ renderF ks"
| "renderF (El t as sub # ks) =
     60 # t @ concat (map attrText as) @ 62 # renderF sub @ [60, 47] @ t @ 62 # renderF ks"

fun eventsF :: "tree list \<Rightarrow> event list" where
  "eventsF [] = []"
| "eventsF (Tx x # ks) = Chars x # eventsF ks"
| "eventsF (El t as sub # ks) = Start t as False 0 0 # eventsF sub @ Ended t 0 0 # eventsF ks"

text \<open>The places in the events are left out of the comparison.\<close>

fun erase :: "event \<Rightarrow> event" where
  "erase (Start t as u a b) = Start t as u 0 0"
| "erase (Ended t a b) = Ended t 0 0"
| "erase e = e"

definition tagOk :: "options \<Rightarrow> jstr \<Rightarrow> bool" where
  "tagOk opt t \<longleftrightarrow> t \<noteq> [] \<and> nameStart (hd t) \<and> (\<forall>c \<in> set t. nameChar c) \<and> \<not> isPlainTextElement t
     \<and> \<not> o_isUnaryTag opt t \<and> \<not> o_canBeLeftOpenTag opt t \<and> t \<noteq> js ''p'' \<and> t \<noteq> js ''html''"

definition attrOk :: "attr \<Rightarrow> bool" where
  "attrOk a \<longleftrightarrow> fst a \<noteq> [] \<and> (\<forall>c \<in> set (fst a). attrNameChar c) \<and> (\<forall>c \<in> set (snd a). c \<noteq> 34 \<and> c \<noteq> 38)"

text \<open>Simple templates: no text beside another text, no \<open><\<close> in texts, and only plain tags.\<close>

fun okF :: "options \<Rightarrow> tree list \<Rightarrow> bool" where
  "okF opt [] \<longleftrightarrow> True"
| "okF opt (Tx x # ks) \<longleftrightarrow> x \<noteq> [] \<and> (\<forall>c \<in> set x. c \<noteq> 60) \<and> (case ks of Tx y # _ \<Rightarrow> False | _ \<Rightarrow> True) \<and> okF opt ks"
| "okF opt (El t as sub # ks) \<longleftrightarrow> tagOk opt t \<and> (\<forall>a \<in> set as. attrOk a) \<and> okF opt sub \<and> okF opt ks"

lemma takeWhile_stop: "\<forall>c \<in> set x. P c \<Longrightarrow> \<not> P d \<Longrightarrow> takeWhile P (x @ d # r) = x"
  by (induction x) auto

lemma qname_at:
  assumes "tagOk opt t" "c = 32 \<or> c = 62"
  shows "qname (t @ c # r) = length t"
proof -
  obtain a u where t: "t = a # u" using assms(1) by (cases t) (auto simp: tagOk_def)
  have "\<not> nameChar c" using assms(2) by (auto simp: nameChar_def nameStart_def)
  then have "takeWhile nameChar (u @ c # r) = u" using assms(1) t by (intro takeWhile_stop) (auto simp: tagOk_def)
  then have "ncname (t @ c # r) = length t" using assms(1) t by (simp add: tagOk_def)
  then show ?thesis using t assms(2) by (auto simp: qname_def Let_def)
qed

lemma starts_simps [simp]: "starts [] s" "starts (x # p) [] = False" "starts (x # p) (y # s) \<longleftrightarrow> x = y \<and> starts p s"
  by (auto simp: starts_def)

lemma find_char_first: "\<forall>c \<in> set x. c \<noteq> q \<Longrightarrow> find_char q (x @ q # r) = Some (length x)"
  by (induction x) auto

lemma find_char_none: "\<forall>c \<in> set x. c \<noteq> q \<Longrightarrow> find_char q x = None"
  by (induction x) auto

lemma attribute_attrText:
  assumes "attrOk a" "c = 32 \<or> c = 62"
  shows "attribute (attrText a @ c # r) = Some (length (attrText a), a)" "startTagClose (attrText a @ c # r) = None"
proof -
  obtain n v where a: "a = (n, v)" by (cases a) auto
  have n: "n \<noteq> []" "\<forall>c \<in> set n. attrNameChar c" and v: "\<forall>c \<in> set v. c \<noteq> 34 \<and> c \<noteq> 38" using assms(1) a by (simp_all add: attrOk_def)
  obtain m n' where n': "n = m # n'" using n(1) by (cases n) auto
  have m: "\<not> is_space m" "m \<noteq> 62" "m \<noteq> 47" using n(2) n' by (simp_all add: attrNameChar_def)
  have "is_space 32" "\<not> is_space 34" "\<not> is_space 61" by (simp_all add: is_space_def)
  note sp = this
  have tw: "takeWhile is_space (32 # n @ q) = [32]" for q using n' m(1) sp by simp
  have name: "takeWhile attrNameChar (n @ 61 # q) = n" for q
    using n(2) by (intro takeWhile_stop) (auto simp: attrNameChar_def)
  have q: "find_char 34 (v @ 34 # c # r) = Some (length v)" using v by (intro find_char_first) auto
  have "takeWhile (\<lambda>c. c = 34) (34 # c # r) = [34]" using assms(2) by auto
  then have val: "attrAssign (61 # 34 # v @ 34 # c # r) = (1 + (1 + length v + 1), v)"
    using sp q by (simp add: attrAssign_def attrValue_def quotedValue_def Let_def)
  show "attribute (attrText a @ c # r) = Some (length (attrText a), a)"
    using tw [of "61 # 34 # v @ 34 # c # r"] name [of "34 # v @ 34 # c # r"] val n(1) a
    by (simp add: attrText_def attribute_def Let_def)
  show "startTagClose (attrText a @ c # r) = None"
    using tw [of "61 # 34 # v @ 34 # c # r"] n' m a by (simp add: attrText_def startTagClose_def Let_def)
qed

lemma startTagClose_at: "startTagClose (62 # r) = Some (1, False)"
  by (simp add: startTagClose_def is_space_def)

lemma attrs_follow: "\<exists>c q. concat (map attrText as) @ 62 # r = c # q \<and> (c = 32 \<or> c = 62)"
  by (cases as) (auto simp: attrText_def)

lemma parseAttrs_at:
  "\<forall>a \<in> set as. attrOk a \<Longrightarrow> h_html s = concat (map attrText as) @ 62 # r \<Longrightarrow>
   \<exists>i. parseAttrs as0 s = (as0 @ as, s \<lparr> h_html := 62 # r, h_index := i \<rparr>)"
proof (induction as arbitrary: as0 s)
  case Nil
  then have "s = s \<lparr> h_html := 62 # r, h_index := h_index s \<rparr>" by simp
  moreover have "parseAttrs as0 s = (as0 @ [], s)" using Nil startTagClose_at by (subst parseAttrs.simps) simp
  ultimately show ?case by metis
next
  case (Cons a as)
  obtain c q where c: "concat (map attrText as) @ 62 # r = c # q" "c = 32 \<or> c = 62" using attrs_follow by blast
  have html: "h_html s = attrText a @ c # q" using Cons.prems(2) c(1) by simp
  have "parseAttrs as0 s = parseAttrs (as0 @ [a]) (advance (length (attrText a)) s)"
    using attribute_attrText [OF _ c(2), of a q] Cons.prems(1) html by (subst parseAttrs.simps) simp
  moreover obtain i where "parseAttrs (as0 @ [a]) (advance (length (attrText a)) s)
      = ((as0 @ [a]) @ as, (advance (length (attrText a)) s) \<lparr> h_html := 62 # r, h_index := i \<rparr>)"
    using Cons.IH [of "advance (length (attrText a)) s" "as0 @ [a]"] Cons.prems c(1) html by auto
  ultimately show ?case by (simp add: advance_def) blast
qed

lemma decodeAttr_id: "\<forall>c \<in> set v. c \<noteq> 38 \<Longrightarrow> decodeAttr b v = v"
  by (induction b v rule: decodeAttr.induct) (simp_all add: entityAt_def decodingMap_def js_def)

text \<open>The state when the text \<open>r\<close> is left and \<open>ev\<close> has happened since.\<close>

definition went :: "hp \<Rightarrow> jstr \<Rightarrow> nat \<Rightarrow> event list \<Rightarrow> hp" where
  "went s r i ev = s \<lparr> h_index := i, h_html := r, h_events := h_events s @ ev \<rparr>"

lemma went_sel [simp]:
  "h_html (went s r i ev) = r" "h_stack (went s r i ev) = h_stack s" "h_lastTag (went s r i ev) = h_lastTag s"
  "went (went s r i ev) r' i' ev' = went s r' i' (ev @ ev')"
  by (simp_all add: went_def)

definition content :: "options \<Rightarrow> hp \<Rightarrow> bool" where
  "content opt s \<longleftrightarrow> h_lastTag s = topTag (h_stack s) \<and> (\<forall>t. h_lastTag s = Some t \<longrightarrow> \<not> isPlainTextElement t \<and> t \<noteq> js ''p'')"

lemma content_round: "content opt s \<Longrightarrow> htmlRound opt s = contentRound opt s"
  by (auto simp: htmlRound_def content_def split: option.split)

lemma loop_round:
  "content opt s \<Longrightarrow> h_html s \<noteq> [] \<Longrightarrow> contentRound opt s = s1 \<Longrightarrow> h_html s1 \<noteq> h_html s \<Longrightarrow> htmlLoop opt s = htmlLoop opt s1"
  by (subst htmlLoop.simps) (simp add: content_round Let_def)

lemma startTagOpen_at: "tagOk opt t \<Longrightarrow> c = 32 \<or> c = 62 \<Longrightarrow> startTagOpen (60 # t @ c # r) = Some (length t)"
  using qname_at [of opt t c r] by (auto simp: startTagOpen_def tagOk_def)

lemma endTag_at: "tagOk opt t \<Longrightarrow> endTag (60 # 47 # t @ 62 # r) = Some (length t + 3, length t)"
  using qname_at [of opt t 62 r] by (auto simp: endTag_def tagOk_def)

lemma no_markup:
  assumes "tagOk opt t"
  shows "\<not> comment (60 # t @ q)" "\<not> conditionalComment (60 # t @ q)" "doctype (60 # t @ q) = None" "endTag (60 # t @ q) = None"
proof -
  obtain a u where t: "t = a # u" "nameStart a" using assms by (cases t) (auto simp: tagOk_def)
  then have a: "a \<noteq> 33" "a \<noteq> 47" by (auto simp: nameStart_def)
  show "\<not> comment (60 # t @ q)" "\<not> conditionalComment (60 # t @ q)" "endTag (60 # t @ q) = None"
    using t a by (simp_all add: comment_def conditionalComment_def endTag_def js_def)
  have "lowerChar a \<noteq> 33" using t(2) by (auto simp: lowerChar_def nameStart_def)
  then show "doctype (60 # t @ q) = None" using t by (simp add: doctype_def js_def lower_def lowerChar_def [of 60])
qed

lemma no_markup_end:
  "\<not> comment (60 # 47 # q)" "\<not> conditionalComment (60 # 47 # q)" "doctype (60 # 47 # q) = None"
  by (simp_all add: comment_def conditionalComment_def doctype_def js_def lower_def lowerChar_def)

lemma autoClose_none: "content opt s \<Longrightarrow> tagOk opt t \<Longrightarrow> autoClose opt t s = s"
  by (auto simp: autoClose_def content_def tagOk_def Let_def)

lemma round_start:
  assumes s: "content opt s" and t: "tagOk opt t" "\<forall>a \<in> set as. attrOk a" and html: "h_html s = 60 # t @ concat (map attrText as) @ 62 # r"
  shows "\<exists>i a b. contentRound opt s
    = (went s r i [Start t as False a b]) \<lparr> h_stack := (t, lower t, as) # h_stack s, h_lastTag := Some t \<rparr>"
proof -
  obtain c q where c: "concat (map attrText as) @ 62 # r = c # q" "c = 32 \<or> c = 62" using attrs_follow by blast
  have open_tag: "startTagOpen (h_html s) = Some (length t)" using startTagOpen_at [OF t(1) c(2)] html c(1) by simp
  obtain i where at: "parseAttrs [] (advance (length t + 1) s) = (as, (advance (length t + 1) s) \<lparr> h_html := 62 # r, h_index := i \<rparr>)"
    using parseAttrs_at [OF t(2), of "advance (length t + 1) s" r "[]"] html by auto
  define s1 where "s1 = (advance (length t + 1) s) \<lparr> h_html := 62 # r, h_index := i \<rparr>"
  have name: "take (length t) (drop 1 (h_html s)) = t" using html by simp
  have st: "parseStartTag s = (advance 1 s1, Some (t, as, False, h_index s, h_index s1 + 1))"
    using open_tag at name startTagClose_at by (simp add: parseStartTag_def s1_def)
  have adv: "advance 1 s1 = went s r (i + 1) []" by (simp add: s1_def advance_def went_def)
  have content: "content opt (went s r (i + 1) [])" using s by (simp add: content_def)
  have dec: "map (\<lambda>(n, v). (n, decodeAttr d v)) as = as" for d
    using t(2) decodeAttr_id by (intro map_idI) (auto simp: attrOk_def)
  have "handleStartTag opt (t, as, False, h_index s, h_index s1 + 1) (went s r (i + 1) [])
    = (went s r (i + 1) [Start t as False (h_index s) (h_index s1 + 1)]) \<lparr> h_stack := (t, lower t, as) # h_stack s, h_lastTag := Some t \<rparr>"
    unfolding handleStartTag_def Let_def case_prod_conv autoClose_none [OF content t(1)] dec
    using t(1) by (simp add: tagOk_def emit_def went_def)
  moreover have "parseMarkup opt s = Inl (handleStartTag opt (t, as, False, h_index s, h_index s1 + 1) (went s r (i + 1) []))"
    using no_markup [OF t(1)] html st adv by (simp add: parseMarkup_def Let_def)
  moreover have "find_char 60 (h_html s) = Some 0" using html by simp
  ultimately show ?thesis by (simp add: contentRound_def) blast
qed

lemma round_end:
  assumes t: "tagOk opt t" and html: "h_html s = 60 # 47 # t @ 62 # r" and st: "h_stack s = (t, lower t, as) # st"
  shows "\<exists>i a b. contentRound opt s = (went s r i [Ended t a b]) \<lparr> h_stack := st, h_lastTag := topTag st \<rparr>"
proof -
  have "take (length t) (drop 2 (h_html s)) = t" using html by simp
  moreover have "drop (length t + 3) (h_html s) = r" using html by (simp add: numeral_3_eq_3)
  ultimately
  have "parseMarkup opt s = Inl (parseEndTag (Some t) (h_index s) (h_index s + (length t + 3)) (went s r (h_index s + (length t + 3)) []))"
    using no_markup_end endTag_at [OF t] html by (simp add: parseMarkup_def Let_def advance_def went_def)
  moreover have "find_char 60 (h_html s) = Some 0" using html by simp
  ultimately show ?thesis using st
    by (intro exI [of _ "h_index s + (length t + 3)"] exI [of _ "h_index s"])
      (simp add: contentRound_def parseEndTag_def emit_def went_def)
qed

lemma round_text:
  assumes x: "x \<noteq> []" "\<forall>c \<in> set x. c \<noteq> 60" and html: "h_html s = x @ r" and r: "r = [] \<or> (\<exists>q. r = 60 # q) \<and> markupStarts r"
  shows "\<exists>i. contentRound opt s = went s r i [Chars x]"
proof (cases "r = []")
  case True
  then have "find_char 60 (h_html s) = None" using find_char_none x(2) html by simp
  then show ?thesis using x(1) html True
    by (intro exI [of _ "h_index s"]) (simp add: contentRound_def textRound_def emit_def went_def)
next
  case False
  then obtain q where q: "r = 60 # q" "markupStarts r" using r by blast
  have f: "find_char 60 (h_html s) = Some (length x)" using find_char_first [OF x(2)] html q(1) by simp
  have "findTextEnd (h_html s) (length x) = length x" using q html by (subst findTextEnd.simps) simp
  moreover have "contentRound opt s = textRound (Some (length x)) s" using f x(1) by (simp add: contentRound_def split: nat.split)
  ultimately show ?thesis using x(1) html
    by (intro exI [of _ "h_index s + length x"]) (simp add: textRound_def Let_def emit_def advance_def went_def)
qed

lemma follow_markup:
  assumes "okF opt ks" "case ks of Tx y # _ \<Rightarrow> False | _ \<Rightarrow> True" "r = [] \<or> (\<exists>q. r = 60 # q) \<and> markupStarts r"
  shows "renderF ks @ r = [] \<or> (\<exists>q. renderF ks @ r = 60 # q) \<and> markupStarts (renderF ks @ r)"
proof (cases ks rule: renderF.cases)
  case (3 t as sub ks')
  then have "tagOk opt t" using assms(1) by simp
  moreover obtain c q where "concat (map attrText as) @ 62 # (renderF sub @ [60, 47] @ t @ 62 # renderF ks' @ r) = c # q" "c = 32 \<or> c = 62"
    using attrs_follow by blast
  ultimately have "startTagOpen (renderF ks @ r) \<noteq> None" using startTagOpen_at [of opt t c q] 3 by simp
  then show ?thesis using 3 by (simp add: markupStarts_def)
qed (use assms in auto)

lemma loop_renderF:
  "okF opt ks \<Longrightarrow> content opt s \<Longrightarrow> h_html s = renderF ks @ r \<Longrightarrow> r = [] \<or> (\<exists>q. r = 60 # q) \<and> markupStarts r \<Longrightarrow>
   \<exists>i ev. htmlLoop opt s = htmlLoop opt (went s r i ev) \<and> map erase ev = eventsF ks"
proof (induction ks arbitrary: s r rule: renderF.induct)
  case 1
  then have "went s r (h_index s) [] = s" by (simp add: went_def)
  then show ?case by (intro exI [of _ "h_index s"] exI [of _ "[]"]) simp
next
  case (2 x ks)
  have follow: "renderF ks @ r = [] \<or> (\<exists>q. renderF ks @ r = 60 # q) \<and> markupStarts (renderF ks @ r)"
    using follow_markup [of opt ks r] 2(2,5) by simp
  have x: "x \<noteq> []" "\<forall>c \<in> set x. c \<noteq> 60" using 2(2) by simp_all
  obtain i where round: "contentRound opt s = went s (renderF ks @ r) i [Chars x]"
    using round_text [OF x _ follow, of s opt] 2(4) by auto
  have "h_html s \<noteq> []" "h_html (contentRound opt s) \<noteq> h_html s" using 2(4) x round by simp_all
  then have loop: "htmlLoop opt s = htmlLoop opt (went s (renderF ks @ r) i [Chars x])"
    using loop_round [OF 2(3) _ round] round by simp
  obtain i' ev where "htmlLoop opt (went s (renderF ks @ r) i [Chars x]) = htmlLoop opt (went (went s (renderF ks @ r) i [Chars x]) r i' ev)"
    "map erase ev = eventsF ks"
    using 2(1) [of "went s (renderF ks @ r) i [Chars x]" r] 2(2,3,5) by (auto simp: content_def)
  then show ?case using loop by (intro exI [of _ i'] exI [of _ "Chars x # ev"]) simp
next
  case (3 t as sub ks)
  have t: "tagOk opt t" "\<forall>a \<in> set as. attrOk a" "okF opt sub" "okF opt ks" using 3(3) by simp_all
  let ?r1 = "60 # 47 # t @ 62 # renderF ks @ r"
  have html: "h_html s = 60 # t @ concat (map attrText as) @ 62 # (renderF sub @ ?r1)" using 3(5) by simp
  obtain i a b where round: "contentRound opt s = (went s (renderF sub @ ?r1) i [Start t as False a b]) \<lparr> h_stack := (t, lower t, as) # h_stack s, h_lastTag := Some t \<rparr>"
    using round_start [OF 3(4) t(1,2) html] by blast
  define s1 where "s1 = (went s (renderF sub @ ?r1) i [Start t as False a b]) \<lparr> h_stack := (t, lower t, as) # h_stack s, h_lastTag := Some t \<rparr>"
  have l1: "htmlLoop opt s = htmlLoop opt s1"
    using loop_round [OF 3(4) _ round] html by (simp add: s1_def)
  have c1: "content opt s1" "h_html s1 = renderF sub @ ?r1" using t(1) by (simp_all add: s1_def content_def tagOk_def)
  have r1: "markupStarts ?r1" using endTag_at [OF t(1)] by (simp add: markupStarts_def)
  obtain i1 ev1 where IH1: "htmlLoop opt s1 = htmlLoop opt (went s1 ?r1 i1 ev1)" "map erase ev1 = eventsF sub"
    using 3(1) [OF t(3) c1] r1 by auto
  have c2: "content opt (went s1 ?r1 i1 ev1)" using c1 by (simp add: content_def)
  have st: "h_stack (went s1 ?r1 i1 ev1) = (t, lower t, as) # h_stack s" by (simp add: s1_def)
  obtain i2 a2 b2 where round2: "contentRound opt (went s1 ?r1 i1 ev1)
      = (went (went s1 ?r1 i1 ev1) (renderF ks @ r) i2 [Ended t a2 b2]) \<lparr> h_stack := h_stack s, h_lastTag := topTag (h_stack s) \<rparr>"
    using round_end [OF t(1) _ st] by auto
  let ?ev = "Start t as False a b # ev1 @ [Ended t a2 b2]"
  have s2: "(went (went s1 ?r1 i1 ev1) (renderF ks @ r) i2 [Ended t a2 b2]) \<lparr> h_stack := h_stack s, h_lastTag := topTag (h_stack s) \<rparr>
      = went s (renderF ks @ r) i2 ?ev"
    using 3(4) by (simp add: s1_def went_def content_def)
  have l2: "htmlLoop opt (went s1 ?r1 i1 ev1) = htmlLoop opt (went s (renderF ks @ r) i2 ?ev)"
    using loop_round [OF c2 _ round2] unfolding s2 by simp
  have c3: "content opt (went s (renderF ks @ r) i2 ?ev)" using 3(4) by (simp add: content_def)
  obtain i3 ev3 where "htmlLoop opt (went s (renderF ks @ r) i2 ?ev) = htmlLoop opt (went (went s (renderF ks @ r) i2 ?ev) r i3 ev3)"
    "map erase ev3 = eventsF ks"
    using 3(2) [OF t(4) c3 _ 3(6)] by auto
  then show ?case using l1 IH1 l2 by (intro exI [of _ i3] exI [of _ "?ev @ ev3"]) simp
qed

text \<open>
  C16. Parsing a rendered template gives back its structure: the calls of the callbacks are those of a walk through
  the tree, with the attribute values and texts unchanged. The tags are plain (\<open>tagOk\<close>: no unary or left-open
  elements, no \<open>p\<close>, \<open>html\<close> or elements with plain text), texts are not empty, not adjacent and have no \<open><\<close>, and
  attribute values have no double quote and no ampersand, which is the start of what the parser decodes.
\<close>

theorem parseHTML_render:
  assumes "okF opt ks"
  shows "map erase (parseHTML opt (renderF ks)) = eventsF ks"
proof -
  have c: "content opt (startHtml (renderF ks))" by (simp add: content_def startHtml_def)
  obtain i ev where l: "htmlLoop opt (startHtml (renderF ks)) = htmlLoop opt (went (startHtml (renderF ks)) [] i ev)" "map erase ev = eventsF ks"
    using loop_renderF [OF assms c, of "[]"] by (auto simp: startHtml_def)
  have "htmlLoop opt (went (startHtml (renderF ks)) [] i ev) = went (startHtml (renderF ks)) [] i ev"
    by (subst htmlLoop.simps) simp
  then have "parseHTML opt (renderF ks) = ev"
    using l(1) by (simp add: parseHTML_def Let_def parseEndTag_def emit_def went_def startHtml_def)
  then show ?thesis using l(2) by simp
qed

definition webOptions :: options where
  "webOptions = \<lparr> expectHTML = True, o_isUnaryTag = isUnaryTag, o_canBeLeftOpenTag = canBeLeftOpenTag, shouldDecodeNewlines = False \<rparr>"

definition exTemplate :: "tree list" where
  "exTemplate = [El (js ''div'') [(js ''id'', js ''app''), (js ''v-if'', js ''a > b'')] [Tx (js ''x > y''), El (js ''span'') [] [], Tx (js ''z'')]]"

lemma parseHTML_render_witness:
  "map erase (parseHTML webOptions (renderF exTemplate)) = eventsF exTemplate"
  by (rule parseHTML_render)
    (simp add: exTemplate_def tagOk_def attrOk_def js_def nameStart_def nameChar_def attrNameChar_def is_space_def webOptions_def
      isPlainTextElement_def isUnaryTag_def canBeLeftOpenTag_def makeMap_def lower_def lowerChar_def)

end
