(* ===== verification/VueFilters.thy ===== *)
theory VueFilters
  imports Strings
begin

text \<open>
  Two scanners of the template compiler of vue.js: \<open>parseFilters\<close>, which splits an expression at its
  pipes, and \<open>parseModel\<close>, which finds the last index access of the expression of a \<open>v-model\<close>.
\<close>

section \<open>Trimming\<close>

definition trim :: "jstr \<Rightarrow> jstr" where
  "trim s = rev (dropWhile is_space (rev (dropWhile is_space s)))"

section \<open>Filters\<close>

text \<open>\<open>validDivisionCharRE\<close>, \<open>/[\w).+\-_$\]]/\<close>.\<close>

definition validDivisionChar :: "nat \<Rightarrow> bool" where
  "validDivisionChar c \<longleftrightarrow>
     48 \<le> c \<and> c \<le> 57 \<or> 65 \<le> c \<and> c \<le> 90 \<or> 97 \<le> c \<and> c \<le> 122 \<or> c = 95 \<or> c = 41 \<or> c = 46 \<or> c = 43 \<or> c = 45
     \<or> c = 36 \<or> c = 93"

definition charCode :: "jstr \<Rightarrow> int \<Rightarrow> nat option" where
  "charCode s i = (if 0 \<le> i \<and> i < int (length s) then Some (s ! nat i) else None)"

text \<open>The last of the first \<open>n\<close> characters that is no blank, or the first one when there is none.\<close>

fun prevChar :: "jstr \<Rightarrow> nat \<Rightarrow> nat option" where
  "prevChar s 0 = None"
| "prevChar s (Suc j) = (if s ! j \<noteq> 32 then Some (s ! j) else if j = 0 then Some 32 else prevChar s j)"

record filter_state =
  inSingle :: bool
  inDouble :: bool
  inTemplateString :: bool
  inRegex :: bool
  f_curly :: int
  f_square :: int
  f_paren :: int
  lastFilterIndex :: nat
  f_char :: "nat option"
  f_expression :: "jstr option"
  f_filters :: "jstr list"

definition startFilters :: filter_state where
  "startFilters =
     \<lparr> inSingle = False, inDouble = False, inTemplateString = False, inRegex = False, f_curly = 0, f_square = 0, f_paren = 0,
       lastFilterIndex = 0, f_char = None, f_expression = None, f_filters = [] \<rparr>"

definition pushFilter :: "jstr \<Rightarrow> nat \<Rightarrow> filter_state \<Rightarrow> filter_state" where
  "pushFilter e i s =
     s \<lparr> f_filters := f_filters s @ [trim (take (i - lastFilterIndex s) (drop (lastFilterIndex s) e))], lastFilterIndex := i + 1 \<rparr>"

definition openBracket :: "nat \<Rightarrow> filter_state \<Rightarrow> filter_state" where
  "openBracket c s =
     (if c = 0x22 then s \<lparr> inDouble := True \<rparr>
      else if c = 0x27 then s \<lparr> inSingle := True \<rparr>
      else if c = 0x60 then s \<lparr> inTemplateString := True \<rparr>
      else if c = 0x28 then s \<lparr> f_paren := f_paren s + 1 \<rparr>
      else if c = 0x29 then s \<lparr> f_paren := f_paren s - 1 \<rparr>
      else if c = 0x5B then s \<lparr> f_square := f_square s + 1 \<rparr>
      else if c = 0x5D then s \<lparr> f_square := f_square s - 1 \<rparr>
      else if c = 0x7B then s \<lparr> f_curly := f_curly s + 1 \<rparr>
      else if c = 0x7D then s \<lparr> f_curly := f_curly s - 1 \<rparr>
      else s)"

definition startsRegex :: "jstr \<Rightarrow> nat \<Rightarrow> bool" where
  "startsRegex e i \<longleftrightarrow> (case prevChar e i of None \<Rightarrow> True | Some p \<Rightarrow> \<not> validDivisionChar p)"

definition filterStep :: "jstr \<Rightarrow> nat \<Rightarrow> filter_state \<Rightarrow> filter_state" where
  "filterStep e i s0 =
     (let prev = f_char s0; c = e ! i; s = s0 \<lparr> f_char := Some c \<rparr>
      in if inSingle s then (if c = 0x27 \<and> prev \<noteq> Some 0x5C then s \<lparr> inSingle := False \<rparr> else s)
         else if inDouble s then (if c = 0x22 \<and> prev \<noteq> Some 0x5C then s \<lparr> inDouble := False \<rparr> else s)
         else if inTemplateString s then (if c = 0x60 \<and> prev \<noteq> Some 0x5C then s \<lparr> inTemplateString := False \<rparr> else s)
         else if inRegex s then (if c = 0x2f \<and> prev \<noteq> Some 0x5C then s \<lparr> inRegex := False \<rparr> else s)
         else if c = 0x7C \<and> charCode e (int i + 1) \<noteq> Some 0x7C \<and> charCode e (int i - 1) \<noteq> Some 0x7C
                 \<and> f_curly s = 0 \<and> f_square s = 0 \<and> f_paren s = 0 then
           (case f_expression s of
              None \<Rightarrow> s \<lparr> lastFilterIndex := i + 1, f_expression := Some (trim (take i e)) \<rparr>
            | Some x \<Rightarrow> pushFilter e i s)
         else
           (let s1 = openBracket c s
            in if c = 0x2f \<and> startsRegex e i then s1 \<lparr> inRegex := True \<rparr> else s1))"

definition wrapFilter :: "jstr \<Rightarrow> jstr \<Rightarrow> jstr" where
  "wrapFilter e f =
     (case find_char (code CHR ''('') f of
        None \<Rightarrow> js ''_f('' @ [0x22] @ f @ [0x22] @ js '')('' @ e @ js '')''
      | Some i \<Rightarrow> js ''_f('' @ [0x22] @ take i f @ [0x22] @ js '')('' @ e @ js '','' @ drop (i + 1) f)"

definition finishFilters :: "jstr \<Rightarrow> filter_state \<Rightarrow> filter_state" where
  "finishFilters e s =
     (case f_expression s of
        None \<Rightarrow> s \<lparr> f_expression := Some (trim e) \<rparr>
      | Some x \<Rightarrow> if lastFilterIndex s \<noteq> 0 then pushFilter e (length e) s else s)"

definition parseFilters :: "jstr \<Rightarrow> jstr" where
  "parseFilters e =
     (let s = finishFilters e (fold (filterStep e) [0..<length e] startFilters)
      in foldl wrapFilter (case f_expression s of None \<Rightarrow> [] | Some x \<Rightarrow> x) (f_filters s))"

section \<open>The last index access\<close>

text \<open>The scanners give the index they stop at; \<open>next\<close> reads the character behind the index.\<close>

definition isStringStart :: "nat option \<Rightarrow> bool" where
  "isStringStart c \<longleftrightarrow> c = Some 0x22 \<or> c = Some 0x27"

function parseString :: "jstr \<Rightarrow> nat option \<Rightarrow> nat \<Rightarrow> nat" where
  "parseString s q i =
     (if i \<ge> length s then i
      else if charCode s (int i + 1) = q then i + 1 else parseString s q (i + 1))"
  by pat_completeness auto
termination by (relation "measure (\<lambda>(s, q, i). length s - i)") auto

declare parseString.simps [simp del]

lemma parseString_ge: "i \<le> parseString s q i"
proof (induction s q i rule: parseString.induct)
  case (1 s q i)
  then show ?case by (subst parseString.simps) auto
qed

function parseBracket :: "jstr \<Rightarrow> int \<Rightarrow> nat \<Rightarrow> nat \<times> nat option" where
  "parseBracket s inBracket i =
     (if i \<ge> length s then (i, None)
      else
        (let c = charCode s (int i + 1)
         in if isStringStart c then parseBracket s inBracket (parseString s c (i + 1))
            else
              (let b = (if c = Some 0x5B then inBracket + 1 else if c = Some 0x5D then inBracket - 1 else inBracket)
               in if b = 0 then (i + 1, Some (i + 1)) else parseBracket s b (i + 1))))"
  by pat_completeness auto
termination
proof (relation "measure (\<lambda>(s, b, i). length s - i)")
  fix s :: jstr and b :: int and i :: nat and c
  assume "\<not> length s \<le> i"
  then show "((s, b, parseString s c (i + 1)), s, b, i) \<in> measure (\<lambda>(s, b, i). length s - i)"
    using parseString_ge [of "i + 1" s c] by (simp add: diff_less_mono2)
qed auto

declare parseBracket.simps [simp del]

lemma parseBracket_ge: "i \<le> fst (parseBracket s b i)"
proof (induction s b i rule: parseBracket.induct)
  case (1 s b i)
  then show ?case
    using parseString_ge [of "i + 1" s "charCode s (int i + 1)"]
    by (subst parseBracket.simps) (auto simp: Let_def split: if_splits intro: order_trans [of i "Suc i"])
qed

text \<open>The places of the last bracket access found, \<open>expressionPos\<close> and \<open>expressionEndPos\<close>.\<close>

function modelLoop :: "jstr \<Rightarrow> nat \<Rightarrow> nat \<Rightarrow> nat \<Rightarrow> nat \<times> nat" where
  "modelLoop s i pos endPos =
     (if i \<ge> length s then (pos, endPos)
      else
        (let c = charCode s (int i + 1)
         in if isStringStart c then modelLoop s (parseString s c (i + 1)) pos endPos
            else if c = Some 0x5B then
              (case parseBracket s 1 (i + 1) of
                 (j, e) \<Rightarrow> modelLoop s j (i + 1) (case e of None \<Rightarrow> endPos | Some k \<Rightarrow> k))
            else modelLoop s (i + 1) pos endPos))"
  by pat_completeness auto
termination
proof (relation "measure (\<lambda>(s, i, p, e). length s - i)")
  fix s :: jstr and i p e :: nat and c
  assume "\<not> length s \<le> i"
  then show "((s, parseString s c (i + 1), p, e), s, i, p, e) \<in> measure (\<lambda>(s, i, p, e). length s - i)"
    using parseString_ge [of "i + 1" s c] by (simp add: diff_less_mono2)
next
  fix s :: jstr and i p e p' e' j :: nat and r
  assume "\<not> length s \<le> i" "(j, r) = parseBracket s 1 (i + 1)"
  then show "((s, j, i + 1, case r of None \<Rightarrow> e | Some k \<Rightarrow> k), s, i, p, e) \<in> measure (\<lambda>(s, i, p, e). length s - i)"
    using parseBracket_ge [of "i + 1" s 1] by (cases "parseBracket s 1 (i + 1)") (simp add: diff_less_mono2)
qed auto

declare modelLoop.simps [simp del]

text \<open>\<open>substring\<close> exchanges its arguments when the first is the larger one.\<close>

definition substring :: "nat \<Rightarrow> nat \<Rightarrow> jstr \<Rightarrow> jstr" where
  "substring a b s = take (max a b - min a b) (drop (min a b) s)"

definition parseModel :: "jstr \<Rightarrow> jstr \<times> jstr option" where
  "parseModel val =
     (if find_char 0x5B val = None \<or> val = [] \<or> last val \<noteq> 0x5D then (val, None)
      else
        (case modelLoop val 0 0 0 of
           (pos, endPos) \<Rightarrow> (substring 0 pos val, Some (substring (pos + 1) endPos val))))"

section \<open>Splitting at pipes\<close>

text \<open>
  The specification of \<open>parseFilters\<close>: one pass over the text that cuts it at the pipes that stand alone
  outside of quotes, regular expressions and brackets. \<open>prev\<close> is the character before and \<open>nb\<close> the last
  one that is no blank.
\<close>

datatype lmode = InCode | Within nat

type_synonym depths = "int \<times> int \<times> int"

fun depthAfter :: "nat \<Rightarrow> depths \<Rightarrow> depths" where
  "depthAfter c (a, b, p) =
     (a + (if c = 0x7B then 1 else if c = 0x7D then -1 else 0), b + (if c = 0x5B then 1 else if c = 0x5D then -1 else 0),
      p + (if c = 0x28 then 1 else if c = 0x29 then -1 else 0))"

definition modeAfter :: "nat \<Rightarrow> nat option \<Rightarrow> lmode" where
  "modeAfter c nb =
     (if c = 0x22 \<or> c = 0x27 \<or> c = 0x60 \<or> c = 0x2f \<and> (case nb of None \<Rightarrow> True | Some p \<Rightarrow> \<not> validDivisionChar p)
      then Within c else InCode)"

definition nbAfter :: "nat \<Rightarrow> nat option \<Rightarrow> nat option" where
  "nbAfter c nb = (if c \<noteq> 32 then Some c else if nb = None then Some 32 else nb)"

fun chunks :: "lmode \<Rightarrow> depths \<Rightarrow> nat option \<Rightarrow> nat option \<Rightarrow> jstr \<Rightarrow> jstr \<Rightarrow> jstr list" where
  "chunks m d prev nb cur [] = [cur]"
| "chunks (Within q) d prev nb cur (c # r) =
     chunks (if c = q \<and> prev \<noteq> Some 0x5C then InCode else Within q) d (Some c) (nbAfter c nb) (cur @ [c]) r"
| "chunks InCode d prev nb cur (c # r) =
     (if c = 0x7C \<and> take 1 r \<noteq> [0x7C] \<and> prev \<noteq> Some 0x7C \<and> d = (0, 0, 0)
      then cur # chunks InCode d (Some c) (nbAfter c nb) [] r
      else chunks (modeAfter c nb) (depthAfter c d) (Some c) (nbAfter c nb) (cur @ [c]) r)"

definition pipeChunks :: "jstr \<Rightarrow> jstr list" where
  "pipeChunks e = chunks InCode (0, 0, 0) None None [] e"

definition mode_is :: "lmode \<Rightarrow> filter_state \<Rightarrow> bool" where
  "mode_is m s \<longleftrightarrow> (inSingle s \<longleftrightarrow> m = Within 0x27) \<and> (inDouble s \<longleftrightarrow> m = Within 0x22)
     \<and> (inTemplateString s \<longleftrightarrow> m = Within 0x60) \<and> (inRegex s \<longleftrightarrow> m = Within 0x2f)
     \<and> (m = InCode \<or> m \<in> Within ` {0x22, 0x27, 0x60, 0x2f})"

definition cutAt :: "filter_state \<Rightarrow> nat" where
  "cutAt s = (case f_expression s of None \<Rightarrow> 0 | Some x \<Rightarrow> lastFilterIndex s)"

definition scan_rel :: "jstr \<Rightarrow> jstr \<Rightarrow> lmode \<Rightarrow> depths \<Rightarrow> nat option \<Rightarrow> nat option \<Rightarrow> jstr \<Rightarrow> filter_state \<Rightarrow> bool" where
  "scan_rel p r m d prev nb cur s \<longleftrightarrow>
     mode_is m s \<and> d = (f_curly s, f_square s, f_paren s) \<and> prev = f_char s \<and> prev = lst p \<and> nb = prevChar (p @ r) (length p)
     \<and> cutAt s \<le> length p \<and> cur = drop (cutAt s) p
     \<and> (case f_expression s of None \<Rightarrow> f_filters s = [] | Some x \<Rightarrow> lastFilterIndex s \<noteq> 0)"

lemma prevChar_some: "prevChar s (Suc n) \<noteq> None"
  by (induction n) auto

declare prevChar.simps(2) [simp del]

lemma prevChar_snoc: "prevChar (p @ c # r) (Suc (length p)) = nbAfter c (prevChar (p @ c # r) (length p))"
proof -
  have u: "prevChar (p @ c # r) (Suc (length p))
      = (if c \<noteq> 32 then Some c else if length p = 0 then Some 32 else prevChar (p @ c # r) (length p))"
    using prevChar.simps(2) [of "p @ c # r" "length p"] by simp
  show ?thesis
  proof (cases "length p")
    case (Suc n)
    define x where "x = prevChar (p @ c # r) (length p)"
    have "x \<noteq> None" using prevChar_some Suc unfolding x_def by metis
    then show ?thesis unfolding u x_def [symmetric] nbAfter_def using Suc by auto
  next
    case 0
    then show ?thesis unfolding u by (simp add: nbAfter_def)
  qed
qed

lemma charCode_mid:
  "charCode (p @ c # r) (int (length p) + 1) = (case r of [] \<Rightarrow> None | x # _ \<Rightarrow> Some x)"
  "charCode (p @ c # r) (int (length p) - 1) = lst p"
proof -
  show "charCode (p @ c # r) (int (length p) + 1) = (case r of [] \<Rightarrow> None | x # _ \<Rightarrow> Some x)"
    by (auto simp: charCode_def nth_append nat_add_distrib split: list.split)
  show "charCode (p @ c # r) (int (length p) - 1) = lst p"
    by (cases p rule: rev_cases) (auto simp: charCode_def lst_def nth_append)
qed

text \<open>One step of the scanner against one step of the specification.\<close>

definition clearModes :: "filter_state \<Rightarrow> filter_state" where
  "clearModes s = s \<lparr> inSingle := False, inDouble := False, inTemplateString := False, inRegex := False \<rparr>"

lemma clearModes_sel [simp]:
  "f_curly (clearModes s) = f_curly s" "f_square (clearModes s) = f_square s" "f_paren (clearModes s) = f_paren s"
  "f_char (clearModes s) = f_char s" "f_expression (clearModes s) = f_expression s" "f_filters (clearModes s) = f_filters s"
  "lastFilterIndex (clearModes s) = lastFilterIndex s" "mode_is InCode (clearModes s)"
  by (simp_all add: clearModes_def mode_is_def)

lemma filterStep_within:
  assumes "mode_is (Within q) s"
  shows "filterStep e i s = (if e ! i = q \<and> f_char s \<noteq> Some 0x5C then clearModes s else s) \<lparr> f_char := Some (e ! i) \<rparr>"
proof -
  consider "q = 0x27" | "q = 0x22" | "q = 0x60" | "q = 0x2f" using assms by (auto simp: mode_is_def)
  then show ?thesis using assms by cases (cases s, simp add: filterStep_def mode_is_def Let_def clearModes_def)+
qed

lemma scan_within:
  assumes rel: "scan_rel p (c # r) (Within q) d prev nb cur s"
  shows "scan_rel (p @ [c]) r (if c = q \<and> prev \<noteq> Some 0x5C then InCode else Within q) d (Some c) (nbAfter c nb) (cur @ [c])
      (filterStep (p @ c # r) (length p) s) \<and> f_expression (filterStep (p @ c # r) (length p) s) = f_expression s
      \<and> f_filters (filterStep (p @ c # r) (length p) s) = f_filters s"
proof -
  have m: "mode_is (Within q) s" using rel by (simp add: scan_rel_def)
  have st: "filterStep (p @ c # r) (length p) s = (if c = q \<and> prev \<noteq> Some 0x5C then clearModes s else s) \<lparr> f_char := Some c \<rparr>"
    using filterStep_within [OF m, of "p @ c # r" "length p"] rel by (simp add: scan_rel_def)
  have c: "mode_is m' (s' \<lparr> f_char := x \<rparr>) = mode_is m' s'" for m' s' x by (simp add: mode_is_def)
  show ?thesis unfolding st using rel
    by (cases "f_expression s") (simp_all add: scan_rel_def prevChar_snoc cutAt_def c)
qed

lemma openBracket_ok:
  "f_char (openBracket c s) = f_char s" "f_expression (openBracket c s) = f_expression s" "f_filters (openBracket c s) = f_filters s"
  "lastFilterIndex (openBracket c s) = lastFilterIndex s"
  "(f_curly (openBracket c s), f_square (openBracket c s), f_paren (openBracket c s)) = depthAfter c (f_curly s, f_square s, f_paren s)"
  by (simp_all add: openBracket_def)

lemma openBracket_mode:
  assumes "mode_is InCode s" "nb = prevChar e i"
  shows "mode_is (modeAfter c nb) (if c = 0x2f \<and> startsRegex e i then openBracket c s \<lparr> inRegex := True \<rparr> else openBracket c s)"
  using assms by (auto simp: openBracket_def modeAfter_def mode_is_def startsRegex_def)

lemma filterStep_code_at:
  assumes "mode_is InCode s" "e ! i = c" "charCode e (int i + 1) = nxt" "charCode e (int i - 1) = prv" "take i e = p"
    "startsRegex e i = sr"
  shows "filterStep e i s =
    (if c = 0x7C \<and> nxt \<noteq> Some 0x7C \<and> prv \<noteq> Some 0x7C \<and> (f_curly s, f_square s, f_paren s) = (0, 0, 0) then
       (case f_expression s of
          None \<Rightarrow> s \<lparr> f_char := Some c, lastFilterIndex := i + 1, f_expression := Some (trim p) \<rparr>
        | Some x \<Rightarrow> pushFilter e i (s \<lparr> f_char := Some c \<rparr>))
     else (if c = 0x2f \<and> sr then openBracket c (s \<lparr> f_char := Some c \<rparr>) \<lparr> inRegex := True \<rparr>
           else openBracket c (s \<lparr> f_char := Some c \<rparr>)))"
  using assms(1,2,3,4,6) unfolding filterStep_def assms(5) [symmetric] by (cases "f_expression s") (simp_all add: mode_is_def Let_def)

definition cuts :: "nat \<Rightarrow> nat option \<Rightarrow> jstr \<Rightarrow> depths \<Rightarrow> bool" where
  "cuts c prev r d \<longleftrightarrow> c = 0x7C \<and> take 1 r \<noteq> [0x7C] \<and> prev \<noteq> Some 0x7C \<and> d = (0, 0, 0)"

lemma filterStep_code:
  assumes "mode_is InCode s"
  shows "filterStep (p @ c # r) (length p) s =
    (if cuts c (lst p) r (f_curly s, f_square s, f_paren s) then
       (case f_expression s of
          None \<Rightarrow> s \<lparr> f_char := Some c, lastFilterIndex := length p + 1, f_expression := Some (trim p) \<rparr>
        | Some x \<Rightarrow> pushFilter (p @ c # r) (length p) (s \<lparr> f_char := Some c \<rparr>))
     else (if c = 0x2f \<and> startsRegex (p @ c # r) (length p) then openBracket c (s \<lparr> f_char := Some c \<rparr>) \<lparr> inRegex := True \<rparr>
           else openBracket c (s \<lparr> f_char := Some c \<rparr>)))"
proof -
  have "take 1 r \<noteq> [0x7C] \<longleftrightarrow> (case r of [] \<Rightarrow> None | x # _ \<Rightarrow> Some x) \<noteq> Some 0x7C" by (cases r) auto
  then have n: "cuts c (lst p) r d \<longleftrightarrow> c = 0x7C \<and> (case r of [] \<Rightarrow> None | x # _ \<Rightarrow> Some x) \<noteq> Some 0x7C \<and> lst p \<noteq> Some 0x7C \<and> d = (0, 0, 0)"
    for d unfolding cuts_def by blast
  show ?thesis unfolding n
    by (rule filterStep_code_at [OF assms _ charCode_mid]) simp_all
qed

text \<open>A lone pipe: the text since the last cut is the expression or a filter.\<close>

lemma scan_pipe:
  assumes rel: "scan_rel p (c # r) InCode d prev nb cur s" and cut: "cuts c prev r d"
  shows "scan_rel (p @ [c]) r InCode d (Some c) (nbAfter c nb) [] (filterStep (p @ c # r) (length p) s)
      \<and> f_expression (filterStep (p @ c # r) (length p) s) = Some (case f_expression s of None \<Rightarrow> trim cur | Some x \<Rightarrow> x)
      \<and> f_filters (filterStep (p @ c # r) (length p) s) = f_filters s @ (case f_expression s of None \<Rightarrow> [] | Some x \<Rightarrow> [trim cur])"
proof -
  have m: "mode_is InCode s" and r: "d = (f_curly s, f_square s, f_paren s)" "prev = lst p" using rel by (auto simp: scan_rel_def)
  have st: "filterStep (p @ c # r) (length p) s = (case f_expression s of
          None \<Rightarrow> s \<lparr> f_char := Some c, lastFilterIndex := length p + 1, f_expression := Some (trim p) \<rparr>
        | Some x \<Rightarrow> pushFilter (p @ c # r) (length p) (s \<lparr> f_char := Some c \<rparr>))"
    using filterStep_code [OF m, of p c r] cut r by simp
  show ?thesis unfolding st using rel
    by (cases "f_expression s")
      (simp_all add: scan_rel_def prevChar_snoc cutAt_def mode_is_def pushFilter_def)
qed

lemma scan_code:
  assumes rel: "scan_rel p (c # r) InCode d prev nb cur s" and cut: "\<not> cuts c prev r d"
  shows "scan_rel (p @ [c]) r (modeAfter c nb) (depthAfter c d) (Some c) (nbAfter c nb) (cur @ [c]) (filterStep (p @ c # r) (length p) s)
      \<and> f_expression (filterStep (p @ c # r) (length p) s) = f_expression s
      \<and> f_filters (filterStep (p @ c # r) (length p) s) = f_filters s"
proof -
  have m: "mode_is InCode (s \<lparr> f_char := Some c \<rparr>)" "mode_is InCode s"
    and r: "d = (f_curly s, f_square s, f_paren s)" "prev = lst p" "nb = prevChar (p @ c # r) (length p)"
    using rel by (auto simp: scan_rel_def mode_is_def)
  let ?s = "if c = 0x2f \<and> startsRegex (p @ c # r) (length p) then openBracket c (s \<lparr> f_char := Some c \<rparr>) \<lparr> inRegex := True \<rparr>
           else openBracket c (s \<lparr> f_char := Some c \<rparr>)"
  have st: "filterStep (p @ c # r) (length p) s = ?s" using filterStep_code [OF m(2), of p c r] cut r by simp
  have mode: "mode_is (modeAfter c nb) ?s" using openBracket_mode [OF m(1) r(3)] .
  have depth: "(f_curly (openBracket c (s \<lparr> f_char := Some c \<rparr>)), f_square (openBracket c (s \<lparr> f_char := Some c \<rparr>)),
      f_paren (openBracket c (s \<lparr> f_char := Some c \<rparr>))) = depthAfter c d"
    using openBracket_ok(5) [of c "s \<lparr> f_char := Some c \<rparr>"] r(1) by (simp del: depthAfter.simps)
  have or: "?s = openBracket c (s \<lparr> f_char := Some c \<rparr>) \<or> ?s = openBracket c (s \<lparr> f_char := Some c \<rparr>) \<lparr> inRegex := True \<rparr>"
    by simp
  have sel: "f_char ?s = Some c" "f_expression ?s = f_expression s" "f_filters ?s = f_filters s" "lastFilterIndex ?s = lastFilterIndex s"
    "(f_curly ?s, f_square ?s, f_paren ?s) = depthAfter c d"
    using or depth by (auto simp: openBracket_ok(1-4) simp del: depthAfter.simps)
  define s' where "s' = ?s"
  show ?thesis unfolding st using rel mode sel unfolding s'_def [symmetric]
    by (cases "f_expression s") (simp_all add: scan_rel_def prevChar_snoc cutAt_def)
qed

text \<open>What is left of the scan.\<close>

definition collect :: "jstr list \<Rightarrow> filter_state \<Rightarrow> jstr \<times> jstr list" where
  "collect cs s =
     (case f_expression s of
        None \<Rightarrow> (trim (hd cs), map trim (tl cs))
      | Some x \<Rightarrow> (x, f_filters s @ map trim cs))"

lemma collect_cong: "f_expression s' = f_expression s \<and> f_filters s' = f_filters s \<Longrightarrow> collect cs s' = collect cs s"
  by (cases "f_expression s") (simp_all add: collect_def)

lemma scan_chunks:
  "scan_rel p r m d prev nb cur s \<Longrightarrow>
   (let s' = finishFilters (p @ r) (fold (filterStep (p @ r)) [length p..<length (p @ r)] s)
    in (case f_expression s' of None \<Rightarrow> [] | Some x \<Rightarrow> x, f_filters s')) = collect (chunks m d prev nb cur r) s"
proof (induction r arbitrary: p m d prev nb cur s)
  case Nil
  then show ?case
    by (cases "f_expression s") (simp_all add: Let_def finishFilters_def collect_def scan_rel_def pushFilter_def cutAt_def)
next
  case (Cons c r)
  let ?s = "filterStep (p @ c # r) (length p) s"
  have fold: "fold (filterStep (p @ c # r)) [length p..<length (p @ c # r)] s
      = fold (filterStep ((p @ [c]) @ r)) [length (p @ [c])..<length ((p @ [c]) @ r)] ?s"
    by (simp add: upt_conv_Cons del: upt_Suc)
  have IH: "scan_rel (p @ [c]) r m' d' prev' nb' cur' ?s \<Longrightarrow>
    (let s' = finishFilters (p @ c # r) (fold (filterStep (p @ c # r)) [length p..<length (p @ c # r)] s)
     in (case f_expression s' of None \<Rightarrow> [] | Some x \<Rightarrow> x, f_filters s')) = collect (chunks m' d' prev' nb' cur' r) ?s"
    for m' d' prev' nb' cur' using Cons.IH [of "p @ [c]" m' d' prev' nb' cur' ?s] unfolding fold by simp
  show ?case
  proof (cases m)
    case (Within q)
    note w = scan_within [OF Cons.prems [unfolded Within]]
    show ?thesis unfolding IH [OF conjunct1 [OF w]] collect_cong [OF conjunct2 [OF w]] Within by simp
  next
    case InCode
    show ?thesis
    proof (cases "cuts c prev r d")
      case True
      note w = scan_pipe [OF Cons.prems [unfolded InCode] True]
      have "chunks m d prev nb cur (c # r) = cur # chunks InCode d (Some c) (nbAfter c nb) [] r"
        using True InCode by (simp add: cuts_def)
      then show ?thesis unfolding IH [OF conjunct1 [OF w]] using w Cons.prems
        by (cases "f_expression s") (auto simp: collect_def scan_rel_def)
    next
      case False
      note w = scan_code [OF Cons.prems [unfolded InCode] False]
      have "chunks m d prev nb cur (c # r) = chunks (modeAfter c nb) (depthAfter c d) (Some c) (nbAfter c nb) (cur @ [c]) r"
        unfolding InCode chunks.simps(3) using False [unfolded cuts_def] by (rule if_not_P)
      then show ?thesis unfolding IH [OF conjunct1 [OF w]] collect_cong [OF conjunct2 [OF w]] by simp
    qed
  qed
qed

lemma parseFilters_eq: "parseFilters e = foldl wrapFilter (trim (hd (pipeChunks e))) (map trim (tl (pipeChunks e)))"
proof -
  have "scan_rel [] e InCode (0, 0, 0) None None [] startFilters"
    by (simp add: scan_rel_def startFilters_def mode_is_def lst_def cutAt_def)
  from scan_chunks [OF this] show ?thesis
    by (simp add: parseFilters_def pipeChunks_def Let_def collect_def startFilters_def split: prod.splits)
qed


text \<open>
  C35. \<open>parseFilters\<close> applies, from left to right, the filters that follow the pipes of its argument to
  the expression before the first pipe; the pipes that count are those of the one-pass specification.
\<close>

theorem parseFilters_splits_at_pipes:
  "parseFilters e = foldl wrapFilter (trim (hd (pipeChunks e))) (map trim (tl (pipeChunks e)))"
  by (rule parseFilters_eq)

text \<open>Texts without quotes, brackets, slashes and pipes.\<close>

definition quiet :: "nat \<Rightarrow> bool" where
  "quiet c \<longleftrightarrow> c \<notin> set (js [CHR 0x22, CHR 0x27, CHR 0x60]) \<and> c \<notin> set (js ''()[]{}/|'')"

lemma quiet_steps: "quiet c \<Longrightarrow> depthAfter c d = d \<and> modeAfter c nb = InCode \<and> c \<noteq> 0x7C"
  by (cases d) (simp add: quiet_def js_def modeAfter_def)

lemma chunks_quiet:
  "\<forall>c \<in> set x. quiet c \<Longrightarrow>
   \<exists>nb'. chunks InCode d prev nb cur (x @ r) = chunks InCode d (if x = [] then prev else Some (last x)) nb' (cur @ x) r"
proof (induction x arbitrary: prev nb cur)
  case Nil
  then show ?case by auto
next
  case (Cons c x)
  have c: "depthAfter c d = d" "modeAfter c nb = InCode" "c \<noteq> 0x7C" using quiet_steps [of c d nb] Cons.prems by simp_all
  obtain nb' where "chunks InCode d (Some c) (nbAfter c nb) (cur @ [c]) (x @ r)
      = chunks InCode d (if x = [] then Some c else Some (last x)) nb' ((cur @ [c]) @ x) r"
    using Cons.IH [of "Some c" "nbAfter c nb" "cur @ [c]"] Cons.prems by auto
  then show ?case using c by (intro exI [of _ nb']) auto
qed

lemma chunks_joined:
  "\<forall>x \<in> set (e # fs). x \<noteq> [] \<and> (\<forall>c \<in> set x. quiet c) \<Longrightarrow>
   chunks InCode (0, 0, 0) prev nb [] (join [0x7C] (e # fs)) = e # fs"
proof (induction fs arbitrary: e prev nb)
  case Nil
  then show ?case using chunks_quiet [of e "(0, 0, 0)" prev nb "[]" "[]"] by auto
next
  case (Cons f fs)
  have e: "e \<noteq> []" "\<forall>c \<in> set e. quiet c" and f: "f \<noteq> []" "quiet (hd f)" using Cons.prems by auto
  let ?r = "join [0x7C] (f # fs)"
  obtain nb' where q: "chunks InCode (0, 0, 0) prev nb [] (e @ 0x7C # ?r) = chunks InCode (0, 0, 0) (Some (last e)) nb' e (0x7C # ?r)"
    using chunks_quiet [OF e(2), of "(0, 0, 0)" prev nb "[]" "0x7C # ?r"] e(1) by auto
  have "last e \<noteq> 0x7C" using e quiet_steps last_in_set by blast
  moreover have "take 1 ?r \<noteq> [0x7C]" using f quiet_steps [OF f(2)] by (cases f; cases fs) auto
  ultimately have "chunks InCode (0, 0, 0) (Some (last e)) nb' e (0x7C # ?r)
      = e # chunks InCode (0, 0, 0) (Some 0x7C) (nbAfter 0x7C nb') [] ?r" by simp
  then show ?case using q Cons.IH [of f] Cons.prems by simp
qed

text \<open>
  Joining an expression and filters with pipes and parsing them gives the filters applied to the
  expression, for parts without quotes, brackets, slashes and pipes.
\<close>

theorem parseFilters_join:
  assumes "\<forall>x \<in> set (e # fs). x \<noteq> [] \<and> (\<forall>c \<in> set x. quiet c)"
  shows "parseFilters (join [0x7C] (e # fs)) = foldl wrapFilter (trim e) (map trim fs)"
  unfolding parseFilters_eq pipeChunks_def chunks_joined [OF assms] by simp

lemma parseFilters_join_witness:
  "parseFilters (join [0x7C] [js ''msg '', js '' upper'', js ''cut'']) = foldl wrapFilter (trim (js ''msg '')) (map trim [js '' upper'', js ''cut''])"
  by (rule parseFilters_join) (simp add: js_def quiet_def)

section \<open>Index accesses\<close>

text \<open>Texts without quotes whose square brackets match; the scanner of a bracket stops behind its end.\<close>

fun nested :: "nat \<Rightarrow> jstr \<Rightarrow> bool" where
  "nested n [] \<longleftrightarrow> n = 0"
| "nested n (c # x) \<longleftrightarrow> c \<noteq> 0x22 \<and> c \<noteq> 0x27
     \<and> (if c = 0x5B then nested (Suc n) x else if c = 0x5D then n > 0 \<and> nested (n - 1) x else nested n x)"

lemma charCode_at: "charCode (p @ c # r) (int (length p)) = Some c"
  by (simp add: charCode_def)

lemma pred_eq: "p \<noteq> [] \<Longrightarrow> int (length p - 1) + 1 = int (length p)"
  by (cases p) auto

lemma parseBracket_step:
  assumes "p \<noteq> []" "c \<noteq> 0x22" "c \<noteq> 0x27" and b': "b' = (if c = 0x5B then b + 1 else if c = 0x5D then b - 1 else b)"
  shows "parseBracket (p @ c # q) b (length p - 1) = (if b' = 0 then (length p, Some (length p)) else parseBracket (p @ c # q) b' (length p))"
proof -
  have n: "\<not> length (p @ c # q) \<le> length p - 1" "length p - 1 + 1 = length p" using assms(1) by (cases p; simp)+
  have s: "\<not> isStringStart (Some c)" using assms(2,3) by (simp add: isStringStart_def)
  have "parseBracket (p @ c # q) b (length p - 1) =
    (let b = (if Some c = Some 0x5B then b + 1 else if Some c = Some 0x5D then b - 1 else b)
     in if b = 0 then (length p, Some (length p)) else parseBracket (p @ c # q) b (length p))"
    by (subst parseBracket.simps) (simp only: n s pred_eq [OF assms(1)] charCode_at Let_def if_False)
  then show ?thesis unfolding b' by (simp only: Let_def option.inject)
qed

lemma parseBracket_nested:
  "nested n x \<Longrightarrow> p \<noteq> [] \<Longrightarrow>
   parseBracket (p @ x @ 0x5D # r) (int n + 1) (length p - 1) = (length p + length x, Some (length p + length x))"
proof (induction x arbitrary: n p)
  case Nil
  then show ?case using parseBracket_step [of p "0x5D" 0 1 r] by simp
next
  case (Cons c x)
  have IH: "nested m x \<Longrightarrow>
    parseBracket (p @ c # x @ 0x5D # r) (int m + 1) (length p) = (length p + Suc (length x), Some (length p + Suc (length x)))" for m
    using Cons.IH [of m "p @ [c]"] by simp
  have c: "c \<noteq> 0x22" "c \<noteq> 0x27" using Cons.prems by simp_all
  note step = parseBracket_step [OF Cons.prems(2) c, where q = "x @ 0x5D # r"]
  consider "c = 0x5B" | "c = 0x5D" "0 < n" | "c \<noteq> 0x5B" "c \<noteq> 0x5D" using Cons.prems by (auto split: if_splits)
  then show ?case
  proof cases
    case 1
    then show ?thesis using Cons.prems step [of "int (Suc n) + 1" "int n + 1"] IH [of "Suc n"] by simp
  next
    case 2
    then show ?thesis using Cons.prems step [of "int (n - 1) + 1" "int n + 1"] IH [of "n - 1"] by (simp add: of_nat_diff)
  next
    case 3
    then show ?thesis using Cons.prems step [of "int n + 1" "int n + 1"] IH [of n] by simp
  qed
qed

lemma modelLoop_step:
  assumes "p \<noteq> []" "c \<noteq> 0x22" "c \<noteq> 0x27"
  shows "modelLoop (p @ c # q) (length p - 1) pos e =
    (if c = 0x5B then (case parseBracket (p @ c # q) 1 (length p) of
                 (j, r) \<Rightarrow> modelLoop (p @ c # q) j (length p) (case r of None \<Rightarrow> e | Some k \<Rightarrow> k))
     else modelLoop (p @ c # q) (length p) pos e)"
proof -
  have n: "\<not> length (p @ c # q) \<le> length p - 1" "length p - 1 + 1 = length p" using assms(1) by (cases p; simp)+
  have s: "\<not> isStringStart (Some c)" using assms(2,3) by (simp add: isStringStart_def)
  show ?thesis
    by (subst modelLoop.simps) (simp only: n s pred_eq [OF assms(1)] charCode_at Let_def if_False option.inject)
qed

text \<open>The scanner passes over a text whose brackets match.\<close>

lemma nested_split: "nested (k + Suc n) z \<Longrightarrow> \<exists>y w. z = y @ 0x5D # w \<and> nested k y \<and> nested n w"
proof (induction z arbitrary: k)
  case (Cons c z)
  consider "c = 0x5B" | "c = 0x5D" "k = 0" | "c = 0x5D" "0 < k" | "c \<noteq> 0x5B" "c \<noteq> 0x5D" by blast
  then show ?case
  proof cases
    case 1
    then obtain y w where "z = y @ 0x5D # w" "nested (Suc k) y" "nested n w" using Cons.IH [of "Suc k"] Cons.prems by auto
    then show ?thesis using 1 by (intro exI [of _ "c # y"] exI [of _ w]) simp
  next
    case 2
    then show ?thesis using Cons.prems by (intro exI [of _ "[]"] exI [of _ z]) simp
  next
    case 3
    then obtain y w where "z = y @ 0x5D # w" "nested (k - 1) y" "nested n w"
      using Cons.IH [of "k - 1"] Cons.prems by (cases k) auto
    then show ?thesis using 3 by (intro exI [of _ "c # y"] exI [of _ w]) simp
  next
    case 4
    then obtain y w where "z = y @ 0x5D # w" "nested k y" "nested n w" using Cons.IH [of k] Cons.prems by auto
    then show ?thesis using 4 Cons.prems by (intro exI [of _ "c # y"] exI [of _ w]) simp
  qed
qed simp

lemma modelLoop_bracket:
  assumes "nested 0 y" "p \<noteq> []"
  shows "modelLoop (p @ 0x5B # y @ 0x5D # w) (length p - 1) pos e
    = modelLoop (p @ 0x5B # y @ 0x5D # w) (length (p @ 0x5B # y @ [0x5D]) - 1) (length p) (length (p @ 0x5B # y))"
  using modelLoop_step [OF assms(2), of "0x5B" "y @ 0x5D # w" pos e]
    parseBracket_nested [OF assms(1), of "p @ [0x5B]" w] by simp

lemma modelLoop_skip:
  "nested 0 b \<Longrightarrow> p \<noteq> [] \<Longrightarrow>
   \<exists>pos' e'. modelLoop (p @ b @ q) (length p - 1) pos e = modelLoop (p @ b @ q) (length (p @ b) - 1) pos' e'"
proof (induction b arbitrary: p pos e rule: length_induct)
  case (1 b)
  show ?case
  proof (cases b)
    case Nil
    then show ?thesis by auto
  next
    case (Cons c b')
    show ?thesis
    proof (cases "c = 0x5B")
      case True
      then obtain y w where y: "b' = y @ 0x5D # w" "nested 0 y" "nested 0 w"
        using 1(2) Cons nested_split [of 0 0 b'] by auto
      have w: "nested 0 w \<and> length w < length b \<and> p @ b @ q = (p @ 0x5B # y @ [0x5D]) @ w @ q" using y Cons True by simp
      have IH: "\<exists>pos' e'. modelLoop ((p @ 0x5B # y @ [0x5D]) @ w @ q) (length (p @ 0x5B # y @ [0x5D]) - 1) (length p) (length (p @ 0x5B # y))
          = modelLoop ((p @ 0x5B # y @ [0x5D]) @ w @ q) (length ((p @ 0x5B # y @ [0x5D]) @ w) - 1) pos' e'"
        using 1(1) w by blast
      have "modelLoop (p @ b @ q) (length p - 1) pos e
          = modelLoop (p @ b @ q) (length (p @ 0x5B # y @ [0x5D]) - 1) (length p) (length (p @ 0x5B # y))"
        using modelLoop_bracket [OF y(2) 1(3), of "w @ q" pos e] y(1) Cons True by simp
      then show ?thesis using IH y(1) Cons True by simp
    next
      case False
      then have c: "c \<noteq> 0x22" "c \<noteq> 0x27" "c \<noteq> 0x5D" "nested 0 b'" "p @ [c] \<noteq> []" using 1(2) Cons by (auto split: if_splits)
      have len: "length b' < length b" using Cons by simp
      have IH: "\<exists>pos' e'. modelLoop ((p @ [c]) @ b' @ q) (length (p @ [c]) - 1) pos e
          = modelLoop ((p @ [c]) @ b' @ q) (length ((p @ [c]) @ b') - 1) pos' e'"
        using 1(1) c(4) len by blast
      then show ?thesis using modelLoop_step [OF 1(3) c(1,2), of "b' @ q" pos e] False Cons by simp
    qed
  qed
qed

lemma find_char_append: "find_char c (xs @ c # ys) \<noteq> None"
  by (induction xs) auto

text \<open>
  \<open>parseModel\<close> cuts the last index access off an expression: the index is the text between the last
  bracket and its partner at the end, and the rest is the object. The first character is not looked at.
\<close>

theorem parseModel_last_access:
  assumes "nested 0 b" "nested 0 x"
  shows "parseModel (a # b @ 0x5B # x @ [0x5D]) = (a # b, Some x)"
proof -
  let ?p = "a # b" and ?val = "a # b @ 0x5B # x @ [0x5D]"
  have f: "find_char 0x5B ?val \<noteq> None" using find_char_append [of "0x5B" ?p "x @ [0x5D]"] by simp
  obtain pos e where "modelLoop ?val 0 0 0 = modelLoop ?val (length ?p - 1) pos e"
    using modelLoop_skip [OF assms(1), of "[a]" "0x5B # x @ [0x5D]" 0 0] by auto
  also have "... = modelLoop ?val (length ?val - 1) (length ?p) (length ?val - 1)"
    using modelLoop_bracket [OF assms(2), of ?p "[]" pos e] by simp
  also have "... = modelLoop ?val (length ?val) (length ?p) (length ?val - 1)"
    by (subst modelLoop.simps) (simp add: charCode_def isStringStart_def Let_def)
  also have "... = (length ?p, length ?val - 1)" by (subst modelLoop.simps) simp
  finally have l: "modelLoop ?val 0 0 0 = (length ?p, length ?val - 1)" .
  have "substring 0 (length ?p) ?val = ?p" "substring (length ?p + 1) (length ?val - 1) ?val = x"
    by (simp_all add: substring_def)
  then show ?thesis using f l by (simp add: parseModel_def)
qed

lemma parseModel_last_access_witness: "parseModel (js ''a[b[i]].c[d[j]]'') = (js ''a[b[i]].c'', Some (js ''d[j]''))"
  using parseModel_last_access [of "js ''[b[i]].c''" "js ''d[j]''" "of_char CHR ''a''"] by (simp add: js_def)

text \<open>A quote behind a backslash ends a string: the index of \<open>a["\"]"]\<close> comes out as \<open>"\"\<close>.\<close>

lemma parseModel_escaped_quote:
  "parseModel [97, 0x5B, 0x22, 0x5C, 0x22, 0x5D, 0x22, 0x5D] = ([97], Some [0x22, 0x5C, 0x22])"
  by (simp add: parseModel_def modelLoop.simps parseBracket.simps parseString.simps charCode_def isStringStart_def Let_def
      substring_def)

end
