(* ===== verification/VueAst.thy ===== *)
theory VueAst
  imports VueHtml VueFilters
begin

text \<open>
  The template compiler of vue.js between the HTML parser and the code generation: \<open>parse\<close> with its
  callbacks and the processing of attributes. Elements are shared (the stack, the children of the
  parent, the blocks of a condition), so they live in a store and are referred to by their index.
  Warnings only report and are left out; the tables of the platform, the decoding of entities by the
  browser and the transforms of the modules are parameters.
\<close>

section \<open>Strings of the generated code\<close>

definition hexDigit :: "nat \<Rightarrow> nat" where
  "hexDigit n = (if n < 10 then 48 + n else 87 + n)"

text \<open>\<open>JSON.stringify\<close> of a string.\<close>

definition jsonChar :: "nat \<Rightarrow> jstr" where
  "jsonChar c =
     (if c = 34 then [92, 34] else if c = 92 then [92, 92]
      else if c = 8 then js [CHR 0x5C, CHR ''b''] else if c = 9 then js [CHR 0x5C, CHR ''t'']
      else if c = 10 then js [CHR 0x5C, CHR ''n''] else if c = 12 then js [CHR 0x5C, CHR ''f'']
      else if c = 13 then js [CHR 0x5C, CHR ''r'']
      else if c < 32 then js [CHR 0x5C, CHR ''u'', CHR ''0'', CHR ''0''] @ [hexDigit (c div 16), hexDigit (c mod 16)]
      else [c])"

definition jsonString :: "jstr \<Rightarrow> jstr" where
  "jsonString s = 34 # concat (map jsonChar s) @ [34]"

text \<open>\<open>camelize\<close>: a word character behind a hyphen becomes a capital and the hyphen goes.\<close>

definition wordChar :: "nat \<Rightarrow> bool" where
  "wordChar c \<longleftrightarrow> 48 \<le> c \<and> c \<le> 57 \<or> 65 \<le> c \<and> c \<le> 90 \<or> c = 95 \<or> 97 \<le> c \<and> c \<le> 122"

definition upperChar :: "nat \<Rightarrow> nat" where
  "upperChar c = (if 97 \<le> c \<and> c \<le> 122 then c - 32 else c)"

fun camelize :: "jstr \<Rightarrow> jstr" where
  "camelize (c # d # s) = (if c = 45 \<and> wordChar d then upperChar d # camelize s else c # camelize (d # s))"
| "camelize s = s"

section \<open>Interpolation\<close>

text \<open>The content and the rest behind an opening delimiter: at least one character, as few as possible.\<close>

definition dotChar :: "nat \<Rightarrow> bool" where
  "dotChar c \<longleftrightarrow> c \<noteq> 13 \<and> c \<noteq> 8232 \<and> c \<noteq> 8233"

fun untilClose :: "jstr \<Rightarrow> jstr \<Rightarrow> jstr \<Rightarrow> (jstr \<times> jstr) option" where
  "untilClose close acc [] = None"
| "untilClose close acc (c # s) =
     (if \<not> dotChar c then None
      else if starts close s then Some (acc @ [c], drop (length close) s)
      else untilClose close (acc @ [c]) s)"

definition tagAt :: "jstr \<times> jstr \<Rightarrow> jstr \<Rightarrow> (jstr \<times> jstr) option" where
  "tagAt delims s = (if starts (fst delims) s then untilClose (snd delims) [] (drop (length (fst delims)) s) else None)"

lemma untilClose_less: "untilClose close acc s = Some (x, r) \<Longrightarrow> length r < length s"
  by (induction close acc s rule: untilClose.induct) (auto split: if_splits)

lemma tagAt_less: "tagAt delims s = Some (x, r) \<Longrightarrow> length r < length s"
  unfolding tagAt_def by (auto dest!: untilClose_less split: if_splits)

text \<open>The tokens of a text; \<open>cur\<close> is the text since the last tag. The flag says whether there was a tag.\<close>

definition textToken :: "jstr \<Rightarrow> jstr list" where
  "textToken cur = (if cur = [] then [] else [jsonString cur])"

function textTokens :: "jstr \<times> jstr \<Rightarrow> jstr \<Rightarrow> jstr \<Rightarrow> jstr list \<times> bool" where
  "textTokens delims cur [] = (textToken cur, False)"
| "textTokens delims cur (c # s) =
     (case tagAt delims (c # s) of
        Some (x, r) \<Rightarrow>
          (case textTokens delims [] r of
             (ts, b) \<Rightarrow> (textToken cur @ (js ''_s('' @ parseFilters (trim x) @ js '')'') # ts, True))
      | None \<Rightarrow> textTokens delims (cur @ [c]) s)"
  by pat_completeness auto
termination by (relation "measure (\<lambda>(d, cur, s). length s)") (auto dest: tagAt_less)

definition parseText :: "jstr \<Rightarrow> jstr \<times> jstr \<Rightarrow> jstr option" where
  "parseText x delims = (case textTokens delims [] x of (ts, tagged) \<Rightarrow> if tagged then Some (join (js ''+'') ts) else None)"

section \<open>Elements\<close>

text \<open>
  An object of modifiers is the list of its names. The objects \<open>events\<close>, \<open>nativeEvents\<close>, \<open>attrsMap\<close> and
  \<open>scopedSlots\<close> are association lists in the order of insertion. The handlers of an event are a list: as
  \<open>events\<close> is an object literal, the name of a property of \<open>Object.prototype\<close> finds the inherited function,
  which stays in front of the handlers as \<open>Inherited\<close>. (An event or a scoped slot with the name
  \<open>__proto__\<close>, which changes the prototype of its object, is left out of the model.)
\<close>

datatype handler = Handler jstr "jstr list option" | Inherited

definition objectProps :: "jstr list" where
  "objectProps =
     map js [''constructor'', ''hasOwnProperty'', ''isPrototypeOf'', ''propertyIsEnumerable'', ''toLocaleString'',
       ''toString'', ''valueOf'', ''__defineGetter__'', ''__defineSetter__'', ''__lookupGetter__'', ''__lookupSetter__'']"

record directive =
  d_name :: jstr
  d_rawName :: jstr
  d_value :: jstr
  d_arg :: "jstr option"
  d_modifiers :: "jstr list option"

text \<open>
  The children are elements, by their index, interpolated texts and plain texts. \<open>slotScope\<close> is outside
  \<open>None\<close> once the key is there, as its value may be \<open>undefined\<close>. The last fields belong to the optimizer
  and to the code generation.
\<close>

datatype child = Child nat | Expr jstr jstr | TextNode jstr

record elem =
  e_tag :: jstr
  e_attrsList :: "attr list"
  e_attrsMap :: "(jstr \<times> jstr) list"
  e_parent :: "nat option"
  e_children :: "child list"
  e_ns :: "jstr option"
  e_forbidden :: bool
  e_pre :: bool
  e_plain :: bool
  e_for :: "jstr option"
  e_alias :: "jstr option"
  e_iterator1 :: "jstr option"
  e_iterator2 :: "jstr option"
  e_if :: "jstr option"
  e_else :: bool
  e_elseif :: "jstr option"
  e_ifConditions :: "(jstr option \<times> nat) list"
  e_once :: bool
  e_key :: "jstr option"
  e_ref :: "jstr option"
  e_refInFor :: bool
  e_slotName :: "jstr option"
  e_slotTarget :: "jstr option"
  e_slotScope :: "jstr option option"
  e_scopedSlots :: "(jstr \<times> nat) list"
  e_component :: "jstr option"
  e_inlineTemplate :: bool
  e_hasBindings :: bool
  e_attrs :: "(jstr \<times> jstr) list"
  e_props :: "(jstr \<times> jstr) list"
  e_directives :: "directive list"
  e_events :: "(jstr \<times> handler list) list"
  e_nativeEvents :: "(jstr \<times> handler list) list"
  e_staticClass :: "jstr option"
  e_classBinding :: "jstr option"
  e_staticStyle :: "jstr option"
  e_styleBinding :: "jstr option"
  e_static :: bool
  e_staticInFor :: bool
  e_staticRoot :: bool
  e_staticProcessed :: bool
  e_onceProcessed :: bool
  e_forProcessed :: bool
  e_ifProcessed :: bool
  e_wrapData :: "(jstr \<times> bool) option"
  e_model :: "(jstr \<times> jstr \<times> jstr) option"

definition newElement :: "jstr \<Rightarrow> attr list \<Rightarrow> (jstr \<times> jstr) list \<Rightarrow> nat option \<Rightarrow> elem" where
  "newElement tag attrs attrsMap parent =
     \<lparr> e_tag = tag, e_attrsList = attrs, e_attrsMap = attrsMap, e_parent = parent, e_children = [], e_ns = None,
       e_forbidden = False, e_pre = False, e_plain = False, e_for = None, e_alias = None, e_iterator1 = None,
       e_iterator2 = None, e_if = None, e_else = False, e_elseif = None, e_ifConditions = [], e_once = False,
       e_key = None, e_ref = None, e_refInFor = False, e_slotName = None, e_slotTarget = None, e_slotScope = None,
       e_scopedSlots = [], e_component = None, e_inlineTemplate = False, e_hasBindings = False, e_attrs = [],
       e_props = [], e_directives = [], e_events = [], e_nativeEvents = [],
       e_staticClass = None, e_classBinding = None, e_staticStyle = None, e_styleBinding = None, e_static = False,
       e_staticInFor = False, e_staticRoot = False, e_staticProcessed = False, e_onceProcessed = False,
       e_forProcessed = False, e_ifProcessed = False, e_wrapData = None, e_model = None \<rparr>"

fun upsert :: "'k \<Rightarrow> 'v \<Rightarrow> ('k \<times> 'v) list \<Rightarrow> ('k \<times> 'v) list" where
  "upsert k v [] = [(k, v)]"
| "upsert k v ((k', v') # m) = (if k = k' then (k, v) # m else (k', v') # upsert k v m)"

text \<open>Assigning a string to \<open>__proto__\<close> of an object does nothing.\<close>

definition setOwn :: "jstr \<Rightarrow> jstr \<Rightarrow> (jstr \<times> jstr) list \<Rightarrow> (jstr \<times> jstr) list" where
  "setOwn k v m = (if k = js ''__proto__'' then m else upsert k v m)"

definition makeAttrsMap :: "attr list \<Rightarrow> (jstr \<times> jstr) list" where
  "makeAttrsMap attrs = fold (\<lambda>(n, v) m. setOwn n v m) attrs []"

section \<open>Attributes\<close>

fun removeAttr :: "jstr \<Rightarrow> attr list \<Rightarrow> attr list" where
  "removeAttr name [] = []"
| "removeAttr name ((n, v) # as) = (if n = name then as else (n, v) # removeAttr name as)"

definition getAndRemoveAttr :: "jstr \<Rightarrow> elem \<Rightarrow> jstr option \<times> elem" where
  "getAndRemoveAttr name el =
     (case map_of (e_attrsMap el) name of
        None \<Rightarrow> (None, el)
      | Some v \<Rightarrow> (Some v, el \<lparr> e_attrsList := removeAttr name (e_attrsList el) \<rparr>))"

text \<open>The empty string is falsy, so an empty dynamic value is looked for under the second name.\<close>

definition truthy :: "jstr option \<Rightarrow> bool" where
  "truthy s \<longleftrightarrow> s \<noteq> None \<and> s \<noteq> Some []"

definition getBindingAttr :: "jstr \<Rightarrow> bool \<Rightarrow> elem \<Rightarrow> jstr option \<times> elem" where
  "getBindingAttr name getStatic el =
     (let (v1, el1) = getAndRemoveAttr (58 # name) el;
          (dyn, el2) = (if truthy v1 then (v1, el1) else getAndRemoveAttr (js ''v-bind:'' @ name) el1)
      in case dyn of
           Some x \<Rightarrow> (Some (parseFilters x), el2)
         | None \<Rightarrow>
             if getStatic then (case getAndRemoveAttr name el2 of (s, el3) \<Rightarrow> (map_option jsonString s, el3))
             else (None, el2))"

definition addProp :: "jstr \<Rightarrow> jstr \<Rightarrow> elem \<Rightarrow> elem" where
  "addProp name v el = el \<lparr> e_props := e_props el @ [(name, v)] \<rparr>"

definition addAttr :: "jstr \<Rightarrow> jstr \<Rightarrow> elem \<Rightarrow> elem" where
  "addAttr name v el = el \<lparr> e_attrs := e_attrs el @ [(name, v)] \<rparr>"

definition addDirective :: "directive \<Rightarrow> elem \<Rightarrow> elem" where
  "addDirective d el = el \<lparr> e_directives := e_directives el @ [d] \<rparr>"

definition takeModifier :: "string \<Rightarrow> nat \<Rightarrow> jstr \<times> jstr list option \<Rightarrow> jstr \<times> jstr list option" where
  "takeModifier m mark p =
     (case p of
        (name, Some ms) \<Rightarrow> if js m \<in> set ms then (mark # name, Some (removeAll (js m) ms)) else (name, Some ms)
      | (name, None) \<Rightarrow> (name, None))"

definition pushHandler :: "bool \<Rightarrow> jstr \<Rightarrow> handler \<Rightarrow> (jstr \<times> handler list) list \<Rightarrow> (jstr \<times> handler list) list" where
  "pushHandler important name h events =
     (let hs = (case map_of events name of
                  Some l \<Rightarrow> l
                | None \<Rightarrow> if name \<in> set objectProps then [Inherited] else [])
      in upsert name (if important then h # hs else hs @ [h]) events)"

definition addHandler :: "jstr \<Rightarrow> jstr \<Rightarrow> jstr list option \<Rightarrow> bool \<Rightarrow> elem \<Rightarrow> elem" where
  "addHandler name v modifiers important el =
     (let (name', ms) = takeModifier ''passive'' 38 (takeModifier ''once'' 126 (takeModifier ''capture'' 33 (name, modifiers)))
      in case ms of
           Some l \<Rightarrow>
             (if js ''native'' \<in> set l
              then el \<lparr> e_nativeEvents := pushHandler important name' (Handler v (Some (removeAll (js ''native'') l))) (e_nativeEvents el) \<rparr>
              else el \<lparr> e_events := pushHandler important name' (Handler v (Some l)) (e_events el) \<rparr>)
         | None \<Rightarrow> el \<lparr> e_events := pushHandler important name' (Handler v None) (e_events el) \<rparr>)"

definition genAssignmentCode :: "jstr \<Rightarrow> jstr \<Rightarrow> jstr" where
  "genAssignmentCode v assignment =
     (case parseModel v of
        (exp, None) \<Rightarrow> v @ js ''='' @ assignment
      | (exp, Some idx) \<Rightarrow>
          js ''var $$exp = '' @ exp @ js '', $$idx = '' @ idx @ js '';if (!Array.isArray($$exp)){'' @ v @ js ''='' @ assignment
          @ js ''}else{$$exp.splice($$idx, 1, '' @ assignment @ js '')}'')"

section \<open>The tables of the web platform\<close>

definition acceptValue :: "jstr \<Rightarrow> bool" where
  "acceptValue = makeMap [''input'', ''textarea'', ''option'', ''select''] False"

definition mustUseProp :: "jstr \<Rightarrow> jstr option \<Rightarrow> jstr \<Rightarrow> bool" where
  "mustUseProp tag type attr \<longleftrightarrow>
     attr = js ''value'' \<and> acceptValue tag \<and> type \<noteq> Some (js ''button'')
     \<or> attr = js ''selected'' \<and> tag = js ''option'' \<or> attr = js ''checked'' \<and> tag = js ''input''
     \<or> attr = js ''muted'' \<and> tag = js ''video''"

definition isHTMLTag :: "jstr \<Rightarrow> bool" where
  "isHTMLTag = makeMap
     [''html'', ''body'', ''base'', ''head'', ''link'', ''meta'', ''style'', ''title'',
      ''address'', ''article'', ''aside'', ''footer'', ''header'', ''h1'', ''h2'', ''h3'', ''h4'', ''h5'', ''h6'',
      ''hgroup'', ''nav'', ''section'',
      ''div'', ''dd'', ''dl'', ''dt'', ''figcaption'', ''figure'', ''hr'', ''img'', ''li'', ''main'', ''ol'', ''p'',
      ''pre'', ''ul'',
      ''a'', ''b'', ''abbr'', ''bdi'', ''bdo'', ''br'', ''cite'', ''code'', ''data'', ''dfn'', ''em'', ''i'', ''kbd'',
      ''mark'', ''q'', ''rp'', ''rt'', ''rtc'', ''ruby'',
      ''s'', ''samp'', ''small'', ''span'', ''strong'', ''sub'', ''sup'', ''time'', ''u'', ''var'', ''wbr'', ''area'',
      ''audio'', ''map'', ''track'', ''video'',
      ''embed'', ''object'', ''param'', ''source'', ''canvas'', ''script'', ''noscript'', ''del'', ''ins'',
      ''caption'', ''col'', ''colgroup'', ''table'', ''thead'', ''tbody'', ''td'', ''th'', ''tr'',
      ''button'', ''datalist'', ''fieldset'', ''form'', ''input'', ''label'', ''legend'', ''meter'', ''optgroup'',
      ''option'', ''output'', ''progress'', ''select'', ''textarea'',
      ''details'', ''dialog'', ''menu'', ''menuitem'', ''summary'',
      ''content'', ''element'', ''shadow'', ''template''] False"

definition isSVG :: "jstr \<Rightarrow> bool" where
  "isSVG = makeMap
     [''svg'', ''animate'', ''circle'', ''clippath'', ''cursor'', ''defs'', ''desc'', ''ellipse'', ''filter'',
      ''font-face'', ''foreignObject'', ''g'', ''glyph'', ''image'', ''line'', ''marker'', ''mask'',
      ''missing-glyph'', ''path'', ''pattern'',
      ''polygon'', ''polyline'', ''rect'', ''switch'', ''symbol'', ''text'', ''textpath'', ''tspan'', ''use'',
      ''view''] True"

definition isPreTag :: "jstr \<Rightarrow> bool" where
  "isPreTag tag \<longleftrightarrow> tag = js ''pre''"

definition isReservedTag :: "jstr \<Rightarrow> bool" where
  "isReservedTag tag \<longleftrightarrow> isHTMLTag tag \<or> isSVG tag"

definition getTagNamespace :: "jstr \<Rightarrow> jstr option" where
  "getTagNamespace tag = (if isSVG tag then Some (js ''svg'') else if tag = js ''math'' then Some (js ''math'') else None)"

definition isBuiltInTag :: "jstr \<Rightarrow> bool" where
  "isBuiltInTag = makeMap [''slot'', ''component''] True"

section \<open>Patterns of the directives\<close>

text \<open>\<open>.\<close> does not match a line terminator.\<close>

definition lineEnd :: "nat \<Rightarrow> bool" where
  "lineEnd c \<longleftrightarrow> c = 10 \<or> c = 13 \<or> c = 8232 \<or> c = 8233"

text \<open>\<open>\s+(?:in|of)\s+(.*)\<close> at the start of a text.\<close>

definition inOf :: "jstr \<Rightarrow> jstr option" where
  "inOf s =
     (let r = dropWhile is_space s in
      if r = s then None
      else if starts (js ''in'') r \<or> starts (js ''of'') r then
        (let q = drop 2 r; e = dropWhile is_space q
         in if e = q then None else Some (takeWhile (\<lambda>c. \<not> lineEnd c) e))
      else None)"

text \<open>\<open>forAliasRE\<close>, \<open>/(.*?)\s+(?:in|of)\s+(.*)/\<close>; \<open>acc\<close> is the alias so far.\<close>

fun forAlias :: "jstr \<Rightarrow> jstr \<Rightarrow> (jstr \<times> jstr) option" where
  "forAlias acc s =
     (case inOf s of
        Some e \<Rightarrow> Some (acc, e)
      | None \<Rightarrow> (case s of [] \<Rightarrow> None | c # r \<Rightarrow> if lineEnd c then forAlias [] r else forAlias (acc @ [c]) r))"

declare forAlias.simps [simp del]

text \<open>The text before the last closing parenthesis.\<close>

definition beforeLast :: "nat \<Rightarrow> jstr \<Rightarrow> jstr option" where
  "beforeLast c s = (if c \<in> set s then Some (rev (tl (dropWhile (\<lambda>d. d \<noteq> c) (rev s)))) else None)"

text \<open>
  \<open>forIteratorRE\<close>, \<open>/\((\{[^}]*\}|[^,]*),([^,]*)(?:,([^,]*))?\)/\<close>: the second and the third group behind
  the first comma, the groups behind an opening parenthesis, and the first one that opens a match.
\<close>

definition iteratorTail :: "jstr \<Rightarrow> (jstr \<times> jstr option) option" where
  "iteratorTail s =
     (let run = takeWhile (\<lambda>c. c \<noteq> 44) s;
          short = map_option (\<lambda>g. (g, None)) (beforeLast 41 run)
      in case dropWhile (\<lambda>c. c \<noteq> 44) s of
           [] \<Rightarrow> short
         | c # r \<Rightarrow> (case beforeLast 41 (takeWhile (\<lambda>c. c \<noteq> 44) r) of Some g \<Rightarrow> Some (run, Some g) | None \<Rightarrow> short))"

definition braceGroup :: "jstr \<Rightarrow> (jstr \<times> jstr) option" where
  "braceGroup s =
     (case s of
        [] \<Rightarrow> None
      | c # r \<Rightarrow>
          if c \<noteq> 123 then None
          else (case dropWhile (\<lambda>d. d \<noteq> 125) r of
                  a # b # q \<Rightarrow> if b = 44 then Some (123 # takeWhile (\<lambda>d. d \<noteq> 125) r @ [125], q) else None
                | _ \<Rightarrow> None))"

definition iteratorHere :: "jstr \<Rightarrow> (jstr \<times> jstr \<times> jstr option) option" where
  "iteratorHere s =
     (let second = (case dropWhile (\<lambda>c. c \<noteq> 44) s of
                      [] \<Rightarrow> None
                    | c # q \<Rightarrow> map_option (\<lambda>(g2, g3). (takeWhile (\<lambda>c. c \<noteq> 44) s, g2, g3)) (iteratorTail q))
      in case braceGroup s of
           Some (g1, q) \<Rightarrow> (case iteratorTail q of Some (g2, g3) \<Rightarrow> Some (g1, g2, g3) | None \<Rightarrow> second)
         | None \<Rightarrow> second)"

fun forIterator :: "jstr \<Rightarrow> (jstr \<times> jstr \<times> jstr option) option" where
  "forIterator [] = None"
| "forIterator (c # s) =
     (case if c = 40 then iteratorHere s else None of Some m \<Rightarrow> Some m | None \<Rightarrow> forIterator s)"

text \<open>\<open>modifierRE\<close>, \<open>/\.[^.]+/g\<close>: the names of the modifiers, and the name of the attribute without them.\<close>

lemma length_dropWhile_Suc [termination_simp]: "length (dropWhile P s) < Suc (length s)"
  by (simp add: le_imp_less_Suc length_dropWhile_le)

fun modifierNames :: "jstr \<Rightarrow> jstr list" where
  "modifierNames [] = []"
| "modifierNames (c # s) =
     (let m = takeWhile (\<lambda>d. d \<noteq> 46) s
      in if c = 46 \<and> m \<noteq> [] then m # modifierNames (dropWhile (\<lambda>d. d \<noteq> 46) s) else modifierNames s)"

fun dropModifiers :: "jstr \<Rightarrow> jstr" where
  "dropModifiers [] = []"
| "dropModifiers (c # s) =
     (if c = 46 \<and> takeWhile (\<lambda>d. d \<noteq> 46) s \<noteq> [] then dropModifiers (dropWhile (\<lambda>d. d \<noteq> 46) s)
      else c # dropModifiers s)"

text \<open>Assigning \<open>true\<close> to \<open>__proto__\<close> does nothing.\<close>

definition parseModifiers :: "jstr \<Rightarrow> jstr list option" where
  "parseModifiers name = 
     (case modifierNames name of
        [] \<Rightarrow> None
      | ms \<Rightarrow> Some (rev (remdups (rev (filter (\<lambda>m. m \<noteq> js ''__proto__'') ms)))))"

text \<open>The rest behind the first of the prefixes that fits.\<close>

fun afterPrefix :: "string list \<Rightarrow> jstr \<Rightarrow> jstr option" where
  "afterPrefix [] s = None"
| "afterPrefix (p # ps) s = (if starts (js p) s then Some (drop (length p) s) else afterPrefix ps s)"

definition dirRE :: "jstr \<Rightarrow> jstr option" where
  "dirRE = afterPrefix [''v-'', ''@'', '':'']"

definition bindRE :: "jstr \<Rightarrow> jstr option" where
  "bindRE = afterPrefix ['':'', ''v-bind:'']"

definition onRE :: "jstr \<Rightarrow> jstr option" where
  "onRE = afterPrefix [''@'', ''v-on:'']"

text \<open>\<open>argRE\<close>, \<open>/:(.*)$/\<close>.\<close>

fun argRE :: "jstr \<Rightarrow> jstr option" where
  "argRE [] = None"
| "argRE (c # s) = (if c = 58 \<and> (\<forall>d \<in> set s. \<not> lineEnd d) then Some s else argRE s)"

section \<open>The modules of the web platform\<close>

definition transformClass :: "elem \<Rightarrow> elem" where
  "transformClass el =
     (let (static, el1) = getAndRemoveAttr (js ''class'') el;
          el2 = (if truthy static then el1 \<lparr> e_staticClass := map_option jsonString static \<rparr> else el1);
          (binding, el3) = getBindingAttr (js ''class'') False el2
      in if truthy binding then el3 \<lparr> e_classBinding := binding \<rparr> else el3)"

text \<open>
  \<open>parseStyleText\<close>: a semicolon ends a declaration unless a closing parenthesis comes before the next
  opening one; the value of a declaration is the text behind its first colon that some character of the
  line follows, up to the end of the line.
\<close>

definition inParens :: "jstr \<Rightarrow> bool" where
  "inParens s = (case dropWhile (\<lambda>c. c \<noteq> 40 \<and> c \<noteq> 41) s of [] \<Rightarrow> False | c # _ \<Rightarrow> c = 41)"

fun splitStyle :: "jstr \<Rightarrow> jstr \<Rightarrow> jstr list" where
  "splitStyle acc [] = [acc]"
| "splitStyle acc (c # s) = (if c = 59 \<and> \<not> inParens s then acc # splitStyle [] s else splitStyle (acc @ [c]) s)"

fun splitProperty :: "jstr \<Rightarrow> jstr \<Rightarrow> (jstr \<times> jstr) option" where
  "splitProperty acc [] = None"
| "splitProperty acc (c # s) =
     (let v = takeWhile (\<lambda>d. \<not> lineEnd d) s
      in if c = 58 \<and> v \<noteq> [] then Some (acc, v) else splitProperty (acc @ [c]) s)"

definition addStyle :: "jstr \<Rightarrow> (jstr \<times> jstr) list \<Rightarrow> (jstr \<times> jstr) list" where
  "addStyle item res = (case splitProperty [] item of None \<Rightarrow> res | Some (k, v) \<Rightarrow> setOwn (trim k) (trim v) res)"

definition parseStyleText :: "jstr \<Rightarrow> (jstr \<times> jstr) list" where
  "parseStyleText cssText = fold addStyle (splitStyle [] cssText) []"

text \<open>
  The properties of an object are enumerated with the array indices first, in ascending order, and the other
  names in the order of their insertion.
\<close>

definition natOf :: "jstr \<Rightarrow> nat" where
  "natOf = foldl (\<lambda>n c. 10 * n + (c - 48)) 0"

definition arrayIndex :: "jstr \<Rightarrow> bool" where
  "arrayIndex s \<longleftrightarrow> s = [48] \<or> s \<noteq> [] \<and> list_all (\<lambda>c. 48 \<le> c \<and> c \<le> 57) s \<and> hd s \<noteq> 48 \<and> natOf s < 2 ^ 32 - 1"

definition ownOrder :: "('a \<Rightarrow> jstr) \<Rightarrow> 'a list \<Rightarrow> 'a list" where
  "ownOrder key xs =
     sort_key (natOf \<circ> key) (filter (arrayIndex \<circ> key) xs) @ filter (\<lambda>x. \<not> arrayIndex (key x)) xs"

definition jsonStringMap :: "(jstr \<times> jstr) list \<Rightarrow> jstr" where
  "jsonStringMap m = js ''{'' @ join (js '','') (map (\<lambda>(k, v). jsonString k @ js '':'' @ jsonString v) (ownOrder fst m)) @ js ''}''"

definition transformStyle :: "elem \<Rightarrow> elem" where
  "transformStyle el =
     (let (static, el1) = getAndRemoveAttr (js ''style'') el;
          el2 = (if truthy static then el1 \<lparr> e_staticStyle := map_option (jsonStringMap \<circ> parseStyleText) static \<rparr> else el1);
          (binding, el3) = getBindingAttr (js ''style'') False el2
      in if truthy binding then el3 \<lparr> e_styleBinding := binding \<rparr> else el3)"

section \<open>Processing of an element\<close>

definition processPre :: "elem \<Rightarrow> elem" where
  "processPre el = (case getAndRemoveAttr (js ''v-pre'') el of (v, el1) \<Rightarrow> if v \<noteq> None then el1 \<lparr> e_pre := True \<rparr> else el1)"

definition processRawAttrs :: "elem \<Rightarrow> elem" where
  "processRawAttrs el =
     (if e_attrsList el \<noteq> [] then el \<lparr> e_attrs := map (\<lambda>(n, v). (n, jsonString v)) (e_attrsList el) \<rparr>
      else if \<not> e_pre el then el \<lparr> e_plain := True \<rparr> else el)"

definition processKey :: "elem \<Rightarrow> elem" where
  "processKey el = (case getBindingAttr (js ''key'') True el of (v, el1) \<Rightarrow> if truthy v then el1 \<lparr> e_key := v \<rparr> else el1)"

text \<open>
  The parents of an element are older than it, so the walk up takes a shorter and shorter part of the
  store.
\<close>

function parentInFor :: "elem list \<Rightarrow> nat option \<Rightarrow> bool" where
  "parentInFor es p =
     (case p of
        None \<Rightarrow> False
      | Some i \<Rightarrow>
          if length es \<le> i then False
          else if e_for (es ! i) \<noteq> None then True
          else parentInFor (take i es) (e_parent (es ! i)))"
  by pat_completeness auto
termination by (relation "measure (\<lambda>(es, p). length es)") auto

declare parentInFor.simps [simp del]

definition checkInFor :: "elem list \<Rightarrow> elem \<Rightarrow> bool" where
  "checkInFor es el \<longleftrightarrow> e_for el \<noteq> None \<or> parentInFor es (e_parent el)"

definition processRef :: "elem list \<Rightarrow> elem \<Rightarrow> elem" where
  "processRef es el =
     (case getBindingAttr (js ''ref'') True el of
        (v, el1) \<Rightarrow> if truthy v then el1 \<lparr> e_ref := v, e_refInFor := checkInFor es el1 \<rparr> else el1)"

definition processFor :: "elem \<Rightarrow> elem" where
  "processFor el =
     (case getAndRemoveAttr (js ''v-for'') el of
        (v, el1) \<Rightarrow>
          if truthy v then
            (case forAlias [] (the v) of
               None \<Rightarrow> el1
             | Some (a, e) \<Rightarrow>
                 (case forIterator (trim a) of
                    None \<Rightarrow> el1 \<lparr> e_for := Some (trim e), e_alias := Some (trim a) \<rparr>
                  | Some (g1, g2, g3) \<Rightarrow>
                      el1 \<lparr> e_for := Some (trim e), e_alias := Some (trim g1), e_iterator1 := Some (trim g2),
                            e_iterator2 := if truthy g3 then map_option trim g3 else None \<rparr>))
          else el1)"

text \<open>The element a condition belongs to is given by its index; \<open>i\<close> is the index of \<open>el\<close> itself.\<close>

definition addIfCondition :: "jstr option \<times> nat \<Rightarrow> elem \<Rightarrow> elem" where
  "addIfCondition c el = el \<lparr> e_ifConditions := e_ifConditions el @ [c] \<rparr>"

definition processIf :: "nat \<Rightarrow> elem \<Rightarrow> elem" where
  "processIf i el =
     (let (v, el1) = getAndRemoveAttr (js ''v-if'') el
      in if truthy v then addIfCondition (v, i) (el1 \<lparr> e_if := v \<rparr>)
         else (let (w, el2) = getAndRemoveAttr (js ''v-else'') el1;
                   el3 = (if w \<noteq> None then el2 \<lparr> e_else := True \<rparr> else el2);
                   (u, el4) = getAndRemoveAttr (js ''v-else-if'') el3
               in if truthy u then el4 \<lparr> e_elseif := u \<rparr> else el4))"

definition processOnce :: "elem \<Rightarrow> elem" where
  "processOnce el = (case getAndRemoveAttr (js ''v-once'') el of (v, el1) \<Rightarrow> if v \<noteq> None then el1 \<lparr> e_once := True \<rparr> else el1)"

definition defaultSlot :: jstr where
  "defaultSlot = 34 # js ''default'' @ [34]"

definition processSlot :: "elem \<Rightarrow> elem" where
  "processSlot el =
     (if e_tag el = js ''slot'' then (case getBindingAttr (js ''name'') True el of (v, el1) \<Rightarrow> el1 \<lparr> e_slotName := v \<rparr>)
      else (let (v, el1) = getBindingAttr (js ''slot'') True el;
                el2 = (if truthy v then el1 \<lparr> e_slotTarget := if v = Some [34, 34] then Some defaultSlot else v \<rparr>
                       else el1)
            in if e_tag el2 = js ''template''
               then (case getAndRemoveAttr (js ''scope'') el2 of (u, el3) \<Rightarrow> el3 \<lparr> e_slotScope := Some u \<rparr>)
               else el2))"

definition processComponent :: "elem \<Rightarrow> elem" where
  "processComponent el =
     (let (v, el1) = getBindingAttr (js ''is'') True el;
          el2 = (if truthy v then el1 \<lparr> e_component := v \<rparr> else el1);
          (w, el3) = getAndRemoveAttr (js ''inline-template'') el2
      in if w \<noteq> None then el3 \<lparr> e_inlineTemplate := True \<rparr> else el3)"

text \<open>An attribute with a directive: the binding, the event handler or the custom directive it stands for.\<close>

definition boundName :: "jstr \<Rightarrow> jstr list \<Rightarrow> jstr" where
  "boundName name ms =
     (let n1 = (if js ''prop'' \<in> set ms
                then (if camelize name = js ''innerHtml'' then js ''innerHTML'' else camelize name) else name)
      in if js ''camel'' \<in> set ms then camelize n1 else n1)"

definition processBind :: "(jstr \<Rightarrow> jstr option \<Rightarrow> jstr \<Rightarrow> bool) \<Rightarrow> jstr \<Rightarrow> jstr \<Rightarrow> jstr list option \<Rightarrow> elem \<Rightarrow> elem" where
  "processBind must name v modifiers el =
     (let x = parseFilters v;
          ms = (case modifiers of None \<Rightarrow> [] | Some l \<Rightarrow> l);
          name' = boundName name ms;
          el1 = (if js ''sync'' \<in> set ms
                 then addHandler (js ''update:'' @ camelize name') (genAssignmentCode x (js ''$event'')) None False el
                 else el)
      in if js ''prop'' \<in> set ms \<or> must (e_tag el1) (map_of (e_attrsMap el1) (js ''type'')) name'
         then addProp name' x el1 else addAttr name' x el1)"

definition processDirective :: "jstr \<Rightarrow> jstr \<Rightarrow> jstr \<Rightarrow> jstr list option \<Rightarrow> elem \<Rightarrow> elem" where
  "processDirective name rawName v modifiers el =
     (let arg = argRE name;
          name' = (case arg of
                     Some a \<Rightarrow> if a = [] then name else take (length name - (length a + 1)) name
                   | None \<Rightarrow> name)
      in addDirective \<lparr> d_name = name', d_rawName = rawName, d_value = v, d_arg = arg, d_modifiers = modifiers \<rparr> el)"

definition processAttr :: "(jstr \<Rightarrow> jstr option \<Rightarrow> jstr \<Rightarrow> bool) \<Rightarrow> attr \<Rightarrow> elem \<Rightarrow> elem" where
  "processAttr must a el =
     (case a of
        (rawName, v) \<Rightarrow>
          if dirRE rawName \<noteq> None then
            (let el1 = el \<lparr> e_hasBindings := True \<rparr>;
                 modifiers = parseModifiers rawName;
                 name = (if modifiers = None then rawName else dropModifiers rawName)
             in case bindRE name of
                  Some n \<Rightarrow> processBind must n v modifiers el1
                | None \<Rightarrow>
                    (case onRE name of
                       Some n \<Rightarrow> addHandler n v modifiers False el1
                     | None \<Rightarrow> processDirective (case dirRE name of Some n \<Rightarrow> n | None \<Rightarrow> name) rawName v modifiers el1))
          else addAttr rawName (jsonString v) el)"

definition processAttrs :: "(jstr \<Rightarrow> jstr option \<Rightarrow> jstr \<Rightarrow> bool) \<Rightarrow> elem \<Rightarrow> elem" where
  "processAttrs must el = fold (processAttr must) (e_attrsList el) el"

definition isTextTag :: "elem \<Rightarrow> bool" where
  "isTextTag el \<longleftrightarrow> e_tag el = js ''script'' \<or> e_tag el = js ''style''"

definition isForbiddenTag :: "elem \<Rightarrow> bool" where
  "isForbiddenTag el \<longleftrightarrow>
     e_tag el = js ''style''
     \<or> e_tag el = js ''script'' \<and> (case map_of (e_attrsMap el) (js ''type'') of
                                     None \<Rightarrow> True | Some v \<Rightarrow> v = [] \<or> v = js ''text/javascript'')"

text \<open>\<open>/^xmlns:NS\d+/\<close> and \<open>/^NS\d+:/\<close>.\<close>

definition digitChar :: "nat \<Rightarrow> bool" where
  "digitChar c \<longleftrightarrow> 48 \<le> c \<and> c \<le> 57"

definition ieNSBug :: "jstr \<Rightarrow> bool" where
  "ieNSBug s \<longleftrightarrow> (case afterPrefix [''xmlns:NS''] s of Some (c # r) \<Rightarrow> digitChar c | _ \<Rightarrow> False)"

definition ieNSPrefix :: "jstr \<Rightarrow> jstr" where
  "ieNSPrefix s =
     (case afterPrefix [''NS''] s of
        None \<Rightarrow> s
      | Some q \<Rightarrow>
          (case (takeWhile digitChar q, dropWhile digitChar q) of
             (d # _, c # r) \<Rightarrow> if c = 58 then r else s
           | _ \<Rightarrow> s))"

definition guardIESVGBug :: "attr list \<Rightarrow> attr list" where
  "guardIESVGBug attrs = map (\<lambda>(n, v). (ieNSPrefix n, v)) (filter (\<lambda>(n, v). \<not> ieNSBug n) attrs)"

end
