(* ===== verification/VueTemplate.thy ===== *)
theory VueTemplate
  imports VueAst
begin

text \<open>
  The function \<open>parse\<close> of vue.js: the callbacks \<open>start\<close>, \<open>end\<close> and \<open>chars\<close> that \<open>parseHTML\<close> calls build the
  abstract syntax tree of a template in a store of elements.
\<close>

section \<open>State\<close>

text \<open>
  The options of the compiler. A transform of a module changes the one element it is given; what
  \<open>decode\<close> does is up to the browser, and \<open>o_functionText\<close>, the text of a method of \<open>Object.prototype\<close> as a
  string, to the engine. The global flags \<open>isIE\<close> and \<open>isServerRendering()\<close> are kept here too.
\<close>

record copts =
  o_html :: options
  o_getTagNamespace :: "jstr \<Rightarrow> jstr option"
  o_mustUseProp :: "jstr \<Rightarrow> jstr option \<Rightarrow> jstr \<Rightarrow> bool"
  o_isPreTag :: "jstr \<Rightarrow> bool"
  o_isReservedTag :: "jstr \<Rightarrow> bool"
  o_preTransforms :: "(elem \<Rightarrow> elem) list"
  o_transforms :: "(elem \<Rightarrow> elem) list"
  o_postTransforms :: "(elem \<Rightarrow> elem) list"
  o_decode :: "jstr \<Rightarrow> jstr"
  o_isIE :: bool
  o_isServer :: bool
  o_preserveWhitespace :: bool
  o_delimiters :: "jstr \<times> jstr"
  o_functionText :: "jstr \<Rightarrow> jstr"

text \<open>The elements in the order of their creation; the stack has its top first.\<close>

record ast =
  a_elems :: "elem list"
  a_stack :: "nat list"
  a_root :: "nat option"
  a_currentParent :: "nat option"
  a_inVPre :: bool
  a_inPre :: bool

definition startAst :: ast where
  "startAst = \<lparr> a_elems = [], a_stack = [], a_root = None, a_currentParent = None, a_inVPre = False, a_inPre = False \<rparr>"

definition updElem :: "nat \<Rightarrow> (elem \<Rightarrow> elem) \<Rightarrow> ast \<Rightarrow> ast" where
  "updElem i f s = s \<lparr> a_elems := (a_elems s)[i := f (a_elems s ! i)] \<rparr>"

definition elemAt :: "ast \<Rightarrow> nat \<Rightarrow> elem" where
  "elemAt s i = a_elems s ! i"

definition endPre :: "copts \<Rightarrow> elem \<Rightarrow> ast \<Rightarrow> ast" where
  "endPre opt el s =
     (let s1 = (if e_pre el then s \<lparr> a_inVPre := False \<rparr> else s)
      in if o_isPreTag opt (e_tag el) then s1 \<lparr> a_inPre := False \<rparr> else s1)"

section \<open>Start of an element\<close>

text \<open>\<open>findPrevElement\<close> removes the texts behind the last element.\<close>

fun lastElement :: "child list \<Rightarrow> child list \<times> nat option" where
  "lastElement [] = ([], None)"
| "lastElement (Child i # cs) = (Child i # cs, Some i)"
| "lastElement (c # cs) = lastElement cs"

definition findPrevElement :: "child list \<Rightarrow> child list \<times> nat option" where
  "findPrevElement cs = (case lastElement (rev cs) of (r, p) \<Rightarrow> (rev r, p))"

definition processIfConditions :: "nat \<Rightarrow> nat \<Rightarrow> ast \<Rightarrow> ast" where
  "processIfConditions i p s =
     (case findPrevElement (e_children (elemAt s p)) of
        (cs, prev) \<Rightarrow>
          (let s1 = updElem p (\<lambda>el. el \<lparr> e_children := cs \<rparr>) s
           in case prev of
                None \<Rightarrow> s1
              | Some q \<Rightarrow>
                  if truthy (e_if (elemAt s1 q)) then updElem q (addIfCondition (e_elseif (elemAt s1 i), i)) s1 else s1))"

text \<open>The element before it is put into the tree; \<open>i\<close> is its index.\<close>

definition namespaceOf :: "copts \<Rightarrow> ast \<Rightarrow> jstr \<Rightarrow> jstr option" where
  "namespaceOf opt s tag =
     (case a_currentParent s of
        Some p \<Rightarrow> if truthy (e_ns (elemAt s p)) then e_ns (elemAt s p) else o_getTagNamespace opt tag
      | None \<Rightarrow> o_getTagNamespace opt tag)"

definition createElement :: "copts \<Rightarrow> ast \<Rightarrow> jstr \<Rightarrow> attr list \<Rightarrow> elem" where
  "createElement opt s tag attrs =
     (let ns = namespaceOf opt s tag;
          attrs' = (if o_isIE opt \<and> ns = Some (js ''svg'') then guardIESVGBug attrs else attrs);
          el = newElement tag attrs' (makeAttrsMap attrs') (a_currentParent s);
          el1 = (if truthy ns then el \<lparr> e_ns := ns \<rparr> else el)
      in if isForbiddenTag el1 \<and> \<not> o_isServer opt then el1 \<lparr> e_forbidden := True \<rparr> else el1)"

definition processElement :: "copts \<Rightarrow> elem list \<Rightarrow> nat \<Rightarrow> elem \<Rightarrow> elem" where
  "processElement opt es i el =
     (let el1 = processKey (processOnce (processIf i (processFor el)));
          el2 = el1 \<lparr> e_plain := e_key el1 = None \<and> e_attrsList el1 = [] \<rparr>;
          el3 = processComponent (processSlot (processRef es el2))
      in processAttrs (o_mustUseProp opt) (fold (\<lambda>f. f) (o_transforms opt) el3))"

text \<open>The flag is \<open>inVPre\<close> behind the element.\<close>

definition processStart :: "copts \<Rightarrow> ast \<Rightarrow> nat \<Rightarrow> elem \<Rightarrow> elem \<times> bool" where
  "processStart opt s i el =
     (let el1 = fold (\<lambda>f. f) (o_preTransforms opt) el;
          el2 = (if a_inVPre s then el1 else processPre el1);
          inVPre = (a_inVPre s \<or> e_pre el2)
      in (if inVPre then processRawAttrs el2 else processElement opt (a_elems s) i el2, inVPre))"

text \<open>
  \<open>checkRootConstraints\<close> only warns, but it calls \<open>el.attrsMap.hasOwnProperty\<close>: with an attribute of that name
  it calls a string, and \<open>placeRoot\<close> raises an error, which is \<open>None\<close>.
\<close>

definition checkRootConstraints :: "elem \<Rightarrow> bool" where
  "checkRootConstraints el \<longleftrightarrow> map_of (e_attrsMap el) (js ''hasOwnProperty'') = None"

definition placeRoot :: "nat \<Rightarrow> ast \<Rightarrow> ast option" where
  "placeRoot i s =
     (case a_root s of
        None \<Rightarrow> if checkRootConstraints (elemAt s i) then Some (s \<lparr> a_root := Some i \<rparr>) else None
      | Some r \<Rightarrow>
          if a_stack s = [] \<and> truthy (e_if (elemAt s r)) \<and> (truthy (e_elseif (elemAt s i)) \<or> e_else (elemAt s i))
          then (if checkRootConstraints (elemAt s i) then Some (updElem r (addIfCondition (e_elseif (elemAt s i), i)) s)
                else None)
          else Some s)"

definition slotKey :: "elem \<Rightarrow> jstr" where
  "slotKey el = (if truthy (e_slotTarget el) then the (e_slotTarget el) else defaultSlot)"

definition placeChild :: "nat \<Rightarrow> ast \<Rightarrow> ast" where
  "placeChild i s =
     (case a_currentParent s of
        None \<Rightarrow> s
      | Some p \<Rightarrow>
          (let el = elemAt s i
           in if e_forbidden el then s
              else if truthy (e_elseif el) \<or> e_else el then processIfConditions i p s
              else if (case e_slotScope el of Some v \<Rightarrow> truthy v | None \<Rightarrow> False)
              then updElem p (\<lambda>q. q \<lparr> e_plain := False, e_scopedSlots := upsert (slotKey el) i (e_scopedSlots q) \<rparr>) s
              else updElem i (\<lambda>q. q \<lparr> e_parent := Some p \<rparr>)
                     (updElem p (\<lambda>q. q \<lparr> e_children := e_children q @ [Child i] \<rparr>) s)))"

definition startCall :: "copts \<Rightarrow> jstr \<Rightarrow> attr list \<Rightarrow> bool \<Rightarrow> ast \<Rightarrow> ast option" where
  "startCall opt tag attrs unary s =
     (let i = length (a_elems s);
          (el, inVPre) = processStart opt s i (createElement opt s tag attrs);
          s1 = s \<lparr> a_elems := a_elems s @ [el], a_inVPre := inVPre, a_inPre := a_inPre s \<or> o_isPreTag opt (e_tag el) \<rparr>
      in case placeRoot i s1 of
           None \<Rightarrow> None
         | Some s2 \<Rightarrow>
             (let s3 = placeChild i s2;
                  s4 = (if unary then endPre opt (elemAt s3 i) s3
                        else s3 \<lparr> a_stack := i # a_stack s3, a_currentParent := Some i \<rparr>)
              in Some (updElem i (fold (\<lambda>f. f) (o_postTransforms opt)) s4)))"

section \<open>End of an element and text\<close>

text \<open>\<open>None\<close> is the error of reading the children of no element.\<close>

definition dropSpace :: "bool \<Rightarrow> child list \<Rightarrow> child list" where
  "dropSpace inPre cs = (if cs \<noteq> [] \<and> List.last cs = TextNode [32] \<and> \<not> inPre then butlast cs else cs)"

definition endCall :: "copts \<Rightarrow> ast \<Rightarrow> ast option" where
  "endCall opt s =
     (case a_stack s of
        [] \<Rightarrow> None
      | i # st \<Rightarrow>
          (let s1 = updElem i (\<lambda>q. q \<lparr> e_children := dropSpace (a_inPre s) (e_children q) \<rparr>) s;
               s2 = s1 \<lparr> a_stack := st, a_currentParent := (case st of [] \<Rightarrow> None | p # _ \<Rightarrow> Some p) \<rparr>
           in Some (endPre opt (elemAt s1 i) s2)))"

text \<open>The text that becomes a child; an empty one does not.\<close>

definition charsText :: "copts \<Rightarrow> bool \<Rightarrow> elem \<Rightarrow> jstr \<Rightarrow> jstr" where
  "charsText opt inPre par x =
     (if inPre \<or> trim x \<noteq> [] then (if isTextTag par then x else o_decode opt x)
      else if o_preserveWhitespace opt \<and> e_children par \<noteq> [] then [32] else [])"

fun isSpaceNode :: "child \<Rightarrow> bool" where
  "isSpaceNode (Child i) = False"
| "isSpaceNode (Expr e x) = (x = [32])"
| "isSpaceNode (TextNode x) = (x = [32])"

definition addText :: "copts \<Rightarrow> bool \<Rightarrow> jstr \<Rightarrow> child list \<Rightarrow> child list" where
  "addText opt inVPre x cs =
     (case if \<not> inVPre \<and> x \<noteq> [32] then parseText x (o_delimiters opt) else None of
        Some e \<Rightarrow> if e = [] then cs @ [TextNode x] else cs @ [Expr e x]
      | None \<Rightarrow> if x \<noteq> [32] \<or> cs = [] \<or> \<not> isSpaceNode (List.last cs) then cs @ [TextNode x] else cs)"

definition charsCall :: "copts \<Rightarrow> jstr \<Rightarrow> ast \<Rightarrow> ast" where
  "charsCall opt x s =
     (case a_currentParent s of
        None \<Rightarrow> s
      | Some p \<Rightarrow>
          (let par = elemAt s p
           in if o_isIE opt \<and> e_tag par = js ''textarea'' \<and> map_of (e_attrsMap par) (js ''placeholder'') = Some x then s
              else (let x' = charsText opt (a_inPre s) par x
                    in if x' = [] then s
                       else updElem p (\<lambda>q. q \<lparr> e_children := addText opt (a_inVPre s) x' (e_children q) \<rparr>) s)))"

section \<open>The parser\<close>

fun runEvents :: "copts \<Rightarrow> event list \<Rightarrow> ast \<Rightarrow> ast option" where
  "runEvents opt [] s = Some s"
| "runEvents opt (Start tag attrs unary a b # es) s =
     (case startCall opt tag attrs unary s of None \<Rightarrow> None | Some s1 \<Rightarrow> runEvents opt es s1)"
| "runEvents opt (Ended tag a b # es) s = (case endCall opt s of None \<Rightarrow> None | Some s1 \<Rightarrow> runEvents opt es s1)"
| "runEvents opt (Chars x # es) s = runEvents opt es (charsCall opt x s)"
| "runEvents opt (NoEndTag t # es) s = runEvents opt es s"
| "runEvents opt (MalFormatted x # es) s = runEvents opt es s"

definition parseTemplate :: "copts \<Rightarrow> jstr \<Rightarrow> ast option" where
  "parseTemplate opt template = runEvents opt (parseHTML (o_html opt) template) startAst"

text \<open>The options \<open>baseOptions\<close> of the web platform, for a browser other than Internet Explorer that
  prints functions like Chrome.\<close>

definition baseOptions :: "(jstr \<Rightarrow> jstr) \<Rightarrow> copts" where
  "baseOptions decode =
     \<lparr> o_html = \<lparr> expectHTML = True, o_isUnaryTag = isUnaryTag, o_canBeLeftOpenTag = canBeLeftOpenTag,
                  shouldDecodeNewlines = False \<rparr>,
       o_getTagNamespace = getTagNamespace, o_mustUseProp = mustUseProp, o_isPreTag = isPreTag,
       o_isReservedTag = isReservedTag, o_preTransforms = [], o_transforms = [transformClass, transformStyle],
       o_postTransforms = [], o_decode = decode, o_isIE = False, o_isServer = False,
       o_preserveWhitespace = True, o_delimiters = (js ''{{'', js ''}}''),
       o_functionText = (\<lambda>name. js ''function '' @ name @ js ''() { [native code] }'') \<rparr>"

end
