(* ===== verification/VueTemplateFacts.thy ===== *)
theory VueTemplateFacts
  imports VueTemplate "HOL-Library.Code_Target_Nat"
begin

text \<open>
  What the callbacks of \<open>parse\<close> keep true of the elements: the processing of attributes leaves the links
  between elements alone, the parents and the children agree, and the stack holds the open elements.
\<close>

section \<open>The stack\<close>

lemma height_updElem [simp]: "a_stack (updElem i f s) = a_stack s"
  by (simp add: updElem_def)

lemma height_endPre [simp]: "a_stack (endPre opt el s) = a_stack s"
  by (simp add: endPre_def Let_def)

lemma stack_processIfConditions [simp]: "a_stack (processIfConditions i p s) = a_stack s"
  by (simp add: processIfConditions_def Let_def split: prod.splits option.splits)

lemma stack_placeRoot: "placeRoot i s = Some s1 \<Longrightarrow> a_stack s1 = a_stack s"
  by (auto simp: placeRoot_def split: option.splits if_splits)

lemma stack_placeChild [simp]: "a_stack (placeChild i s) = a_stack s"
  by (simp add: placeChild_def Let_def split: option.splits)

lemma stack_startCall:
  "startCall opt tag attrs unary s = Some s1 \<Longrightarrow>
   a_stack s1 = (if unary then a_stack s else length (a_elems s) # a_stack s)"
  by (auto simp: startCall_def Let_def split: prod.splits option.splits dest!: stack_placeRoot)

lemma stack_charsCall [simp]: "a_stack (charsCall opt x s) = a_stack s"
  by (simp add: charsCall_def Let_def split: option.splits)

lemma stack_endCall: "a_stack s = i # st \<Longrightarrow> \<exists>s1. endCall opt s = Some s1 \<and> a_stack s1 = st"
  by (simp add: endCall_def Let_def)

text \<open>The only error of the callbacks is the one of a start call for an element with an attribute \<open>hasOwnProperty\<close>.\<close>

definition ownName :: "copts \<Rightarrow> event \<Rightarrow> bool" where
  "ownName opt e \<longleftrightarrow>
     (case e of
        Start tag attrs unary a b \<Rightarrow>
          js ''hasOwnProperty'' \<in> fst ` (set attrs \<union> (if o_isIE opt then set (guardIESVGBug attrs) else {}))
      | _ \<Rightarrow> False)"

text \<open>The transforms that run before the root is checked leave the map of the attributes alone.\<close>

definition mapTame :: "copts \<Rightarrow> bool" where
  "mapTame opt \<longleftrightarrow> (\<forall>f \<in> set (o_preTransforms opt) \<union> set (o_transforms opt). \<forall>el. e_attrsMap (f el) = e_attrsMap el)"

named_theorems map_simps

lemma map_getAndRemoveAttr [map_simps]: "e_attrsMap (snd (getAndRemoveAttr name el)) = e_attrsMap el"
  by (simp add: getAndRemoveAttr_def split: option.splits)

lemma map_get [map_simps]: "getAndRemoveAttr name el = (v, el1) \<Longrightarrow> e_attrsMap el1 = e_attrsMap el"
  using map_getAndRemoveAttr [of name el] by simp

lemma map_getBindingAttr [map_simps]: "getBindingAttr name g el = (v, el1) \<Longrightarrow> e_attrsMap el1 = e_attrsMap el"
  by (auto simp: getBindingAttr_def Let_def split: prod.splits option.splits if_splits dest!: map_get)

lemma map_process [map_simps]:
  "e_attrsMap (processPre el) = e_attrsMap el" "e_attrsMap (processRawAttrs el) = e_attrsMap el"
  "e_attrsMap (processKey el) = e_attrsMap el" "e_attrsMap (processRef es el) = e_attrsMap el"
  "e_attrsMap (processOnce el) = e_attrsMap el" "e_attrsMap (processSlot el) = e_attrsMap el"
  "e_attrsMap (processComponent el) = e_attrsMap el" "e_attrsMap (transformClass el) = e_attrsMap el"
  "e_attrsMap (transformStyle el) = e_attrsMap el"
  unfolding processPre_def processRawAttrs_def processKey_def processRef_def processOnce_def processSlot_def
    processComponent_def transformClass_def transformStyle_def Let_def
  by (auto split: prod.splits simp: map_simps)

lemma map_processIf [map_simps]: "e_attrsMap (processIf i el) = e_attrsMap el" "e_attrsMap (processFor el) = e_attrsMap el"
  unfolding processIf_def processFor_def Let_def addIfCondition_def
  by (auto split: prod.splits option.splits simp: map_simps)

lemma map_add [map_simps]:
  "e_attrsMap (addProp n v el) = e_attrsMap el" "e_attrsMap (addAttr n v el) = e_attrsMap el"
  "e_attrsMap (addDirective d el) = e_attrsMap el" "e_attrsMap (addHandler n v ms i el) = e_attrsMap el"
  by (auto simp: addProp_def addAttr_def addDirective_def addHandler_def Let_def split: prod.splits option.splits)

lemma map_fields [map_simps]:
  "e_attrsMap (el \<lparr> e_hasBindings := b \<rparr>) = e_attrsMap el"
  by simp

lemma map_processBind [map_simps]: "e_attrsMap (processBind must n v ms el) = e_attrsMap el"
  by (simp add: processBind_def Let_def map_simps)

lemma map_processDirective [map_simps]: "e_attrsMap (processDirective n r v ms el) = e_attrsMap el"
  by (simp add: processDirective_def Let_def map_simps)

lemma map_processAttr [map_simps]: "e_attrsMap (processAttr must a el) = e_attrsMap el"
  by (cases a) (simp add: processAttr_def Let_def map_simps split: option.split)

lemma map_fold: "(\<And>x el. x \<in> set xs \<Longrightarrow> e_attrsMap (f x el) = e_attrsMap el) \<Longrightarrow> e_attrsMap (fold f xs el) = e_attrsMap el"
  by (induction xs arbitrary: el) auto

lemma map_processStart:
  assumes "mapTame opt"
  shows "e_attrsMap (fst (processStart opt s i el)) = e_attrsMap el"
proof -
  have "e_attrsMap (fold (\<lambda>f. f) (o_transforms opt) e) = e_attrsMap e"
    "e_attrsMap (fold (\<lambda>f. f) (o_preTransforms opt) e) = e_attrsMap e" for e
    using assms by (auto intro!: map_fold simp: mapTame_def)
  moreover have "e_attrsMap (processAttrs must e) = e_attrsMap e" for must e
    unfolding processAttrs_def by (rule map_fold) (simp add: map_simps)
  ultimately show ?thesis by (simp add: processStart_def processElement_def Let_def map_simps)
qed

lemma keys_upsert: "fst ` set (upsert k v m) = insert k (fst ` set m)"
  by (induction k v m rule: upsert.induct) auto

lemma keys_makeAttrsMap: "fst ` set (makeAttrsMap attrs) \<subseteq> fst ` set attrs"
proof -
  have "fst ` set (fold (\<lambda>(n, v) m. setOwn n v m) as m) \<subseteq> fst ` set as \<union> fst ` set m" for as m
  proof (induction as arbitrary: m)
    case (Cons a as)
    obtain n v where a: "a = (n, v)" by fastforce
    have "fst ` set (setOwn n v m) \<subseteq> insert n (fst ` set m)" by (auto simp: setOwn_def keys_upsert)
    then show ?case using Cons.IH [of "setOwn n v m"] unfolding a fold_Cons o_apply prod.case list.set image_insert fst_conv by blast
  qed simp
  from this [of attrs "[]"] show ?thesis by (simp add: makeAttrsMap_def)
qed

lemma createElement_ownName:
  assumes "\<not> ownName opt (Start tag attrs unary a b)"
  shows "checkRootConstraints (createElement opt s tag attrs)"
proof -
  define attrs' where "attrs' = (if o_isIE opt \<and> namespaceOf opt s tag = Some (js ''svg'') then guardIESVGBug attrs else attrs)"
  have "e_attrsMap (createElement opt s tag attrs) = makeAttrsMap attrs'"
    by (simp add: createElement_def Let_def newElement_def attrs'_def)
  moreover have "js ''hasOwnProperty'' \<notin> fst ` set attrs'"
    using assms by (auto simp: ownName_def attrs'_def image_Un split: if_splits)
  ultimately show ?thesis
    using keys_makeAttrsMap [of attrs'] by (auto simp: checkRootConstraints_def map_of_eq_None_iff)
qed

lemma startCall_returns:
  assumes "mapTame opt" "\<not> ownName opt (Start tag attrs unary a b)"
  shows "\<exists>s1. startCall opt tag attrs unary s = Some s1"
proof -
  obtain el p where st: "processStart opt s (length (a_elems s)) (createElement opt s tag attrs) = (el, p)" by fastforce
  have "checkRootConstraints el"
    using createElement_ownName [OF assms(2), of s] map_processStart [OF assms(1), of s "length (a_elems s)" "createElement opt s tag attrs"]
    by (simp add: checkRootConstraints_def st)
  then obtain s2 where "placeRoot (length (a_elems s)) (s \<lparr> a_elems := a_elems s @ [el], a_inVPre := p,
      a_inPre := a_inPre s \<or> o_isPreTag opt (e_tag el) \<rparr>) = Some s2"
    by (fastforce simp: placeRoot_def elemAt_def split: option.split)
  then show ?thesis by (simp add: startCall_def Let_def st)
qed

lemma runEvents_returns:
  "mapTame opt \<Longrightarrow> nest st es = Some st' \<Longrightarrow> length (a_stack s) = length st \<Longrightarrow>
   (\<exists>s'. runEvents opt es s = Some s' \<and> length (a_stack s') = length st')
   \<or> runEvents opt es s = None \<and> (\<exists>e \<in> set es. ownName opt e)"
proof (induction st es arbitrary: s rule: nest.induct)
  case (3 st t a b es)
  then obtain r where "st = t # r" "nest r es = Some st'" by (auto split: list.splits if_splits)
  moreover from this 3 obtain i q where "a_stack s = i # q" "length q = length r" by (cases "a_stack s") auto
  moreover from this obtain s1 where "endCall opt s = Some s1" "a_stack s1 = q" using stack_endCall by blast
  moreover have "runEvents opt (Ended t a b # es) s = runEvents opt es s1" using calculation by simp
  moreover have "ownName opt (Ended t a b) = False" by (simp add: ownName_def)
  moreover have "(\<exists>s'. runEvents opt es s1 = Some s' \<and> length (a_stack s') = length st')
      \<or> runEvents opt es s1 = None \<and> (\<exists>e \<in> set es. ownName opt e)"
    by (rule 3(1) [of t r]) (use calculation 3(2) in simp_all)
  ultimately show ?case by (simp only:) auto
next
  case (2 st tag attrs unary a b es)
  show ?case
  proof (cases "startCall opt tag attrs unary s")
    case None
    then have "ownName opt (Start tag attrs unary a b)" using startCall_returns [OF 2(2), of tag attrs unary a b s] by auto
    then show ?thesis by (simp add: None)
  next
    case (Some s1)
    then have "length (a_stack s1) = length (if unary then st else tag # st)"
      using stack_startCall [OF Some] 2(4) by simp
    then have "(\<exists>s'. runEvents opt es s1 = Some s' \<and> length (a_stack s') = length st')
        \<or> runEvents opt es s1 = None \<and> (\<exists>e \<in> set es. ownName opt e)"
      using 2(1) [of s1] 2(2, 3) by simp
    then show ?thesis using Some by auto
  qed
next
  case (4 st x es)
  have "(\<exists>s'. runEvents opt es (charsCall opt x s) = Some s' \<and> length (a_stack s') = length st')
      \<or> runEvents opt es (charsCall opt x s) = None \<and> (\<exists>e \<in> set es. ownName opt e)"
    by (rule 4(1)) (use 4(2-4) in simp_all)
  then show ?case by auto
qed auto

lemma parse_nested_run:
  assumes "mapTame opt"
  shows "(\<exists>s. parseTemplate opt template = Some s \<and> a_stack s = [])
    \<or> parseTemplate opt template = None \<and> (\<exists>e \<in> set (parseHTML (o_html opt) template). ownName opt e)"
proof -
  have "nest [] (parseHTML (o_html opt) template) = Some []" by (rule parseHTML_nests)
  from runEvents_returns [OF assms this, of startAst] show ?thesis by (simp add: parseTemplate_def startAst_def)
qed

section \<open>Links\<close>

definition links :: "elem \<Rightarrow> nat option \<times> child list \<times> (jstr option \<times> nat) list \<times> (jstr \<times> nat) list \<times> jstr option \<times> bool \<times> bool" where
  "links el = (e_parent el, e_children el, e_ifConditions el, e_scopedSlots el, e_if el, e_static el, e_staticRoot el)"

named_theorems link_simps

lemma links_getAndRemoveAttr [link_simps]: "links (snd (getAndRemoveAttr name el)) = links el"
  by (simp add: getAndRemoveAttr_def links_def split: option.splits)

lemma links_get [link_simps]: "getAndRemoveAttr name el = (v, el1) \<Longrightarrow> links el1 = links el"
  using links_getAndRemoveAttr [of name el] by simp

lemma links_getBindingAttr [link_simps]: "getBindingAttr name g el = (v, el1) \<Longrightarrow> links el1 = links el"
  by (auto simp: getBindingAttr_def Let_def split: prod.splits option.splits if_splits dest!: links_get)

lemma links_fields [link_simps]:
  "links (el \<lparr> e_pre := b \<rparr>) = links el" "links (el \<lparr> e_plain := b \<rparr>) = links el"
  "links (el \<lparr> e_key := v \<rparr>) = links el" "links (el \<lparr> e_refInFor := b \<rparr>) = links el"
  "links (el \<lparr> e_ref := v \<rparr>) = links el" "links (el \<lparr> e_for := v \<rparr>) = links el"
  "links (el \<lparr> e_alias := v \<rparr>) = links el" "links (el \<lparr> e_iterator1 := v \<rparr>) = links el"
  "links (el \<lparr> e_iterator2 := v \<rparr>) = links el" "links (el \<lparr> e_once := b \<rparr>) = links el"
  "links (el \<lparr> e_slotName := v \<rparr>) = links el" "links (el \<lparr> e_slotTarget := v \<rparr>) = links el"
  "links (el \<lparr> e_slotScope := x \<rparr>) = links el" "links (el \<lparr> e_component := v \<rparr>) = links el"
  "links (el \<lparr> e_inlineTemplate := b \<rparr>) = links el" "links (el \<lparr> e_hasBindings := b \<rparr>) = links el"
  "links (el \<lparr> e_attrs := as \<rparr>) = links el" "links (el \<lparr> e_props := as \<rparr>) = links el"
  "links (el \<lparr> e_directives := ds \<rparr>) = links el" "links (el \<lparr> e_events := hs \<rparr>) = links el"
  "links (el \<lparr> e_nativeEvents := hs \<rparr>) = links el" "links (el \<lparr> e_staticClass := v \<rparr>) = links el"
  "links (el \<lparr> e_classBinding := v \<rparr>) = links el" "links (el \<lparr> e_staticStyle := v \<rparr>) = links el"
  "links (el \<lparr> e_styleBinding := v \<rparr>) = links el" "links (el \<lparr> e_ns := v \<rparr>) = links el"
  "links (el \<lparr> e_forbidden := b \<rparr>) = links el"
  "links (el \<lparr> e_else := b \<rparr>) = links el" "links (el \<lparr> e_elseif := v \<rparr>) = links el"
  by (simp_all add: links_def)

lemma links_process [link_simps]:
  "links (processPre el) = links el" "links (processRawAttrs el) = links el" "links (processKey el) = links el"
  "links (processRef es el) = links el" "links (processOnce el) = links el"
  "links (processSlot el) = links el" "links (processComponent el) = links el"
  "links (transformClass el) = links el" "links (transformStyle el) = links el"
  unfolding processPre_def processRawAttrs_def processKey_def processRef_def processOnce_def processSlot_def
    processComponent_def transformClass_def transformStyle_def Let_def
  by (auto split: prod.splits simp: link_simps)

lemma links_processFor [link_simps]: "links (processFor el) = links el"
  unfolding processFor_def by (auto split: prod.splits option.splits simp: link_simps)

lemma links_add [link_simps]:
  "links (addProp n v el) = links el" "links (addAttr n v el) = links el" "links (addDirective d el) = links el"
  "links (addHandler n v ms i el) = links el"
  by (auto simp: addProp_def addAttr_def addDirective_def addHandler_def Let_def link_simps split: prod.splits option.splits)

lemma links_processBind [link_simps]: "links (processBind must n v ms el) = links el"
  by (simp add: processBind_def Let_def link_simps)

lemma links_processDirective [link_simps]: "links (processDirective n r v ms el) = links el"
  by (simp add: processDirective_def Let_def link_simps)

lemma links_processAttr [link_simps]: "links (processAttr must a el) = links el"
  by (cases a) (simp add: processAttr_def Let_def link_simps split: option.split)

lemma links_fold: "(\<And>x el. x \<in> set xs \<Longrightarrow> links (f x el) = links el) \<Longrightarrow> links (fold f xs el) = links el"
  by (induction xs arbitrary: el) auto

lemma links_processAttrs [link_simps]: "links (processAttrs must el) = links el"
  unfolding processAttrs_def by (rule links_fold) (simp add: link_simps)

lemma links_processIf:
  "links (processIf i el) = links el
   \<or> (\<exists>v. links (processIf i el) = (e_parent el, e_children el, e_ifConditions el @ [(v, i)], e_scopedSlots el, v, e_static el, e_staticRoot el))"
proof (cases "getAndRemoveAttr (js ''v-if'') el")
  case (Pair v el1)
  have l: "links el1 = links el" using links_get [OF Pair] .
  show ?thesis
  proof (cases "truthy v")
    case True
    then have "links (processIf i el) = (e_parent el, e_children el, e_ifConditions el @ [(v, i)], e_scopedSlots el, v, e_static el, e_staticRoot el)"
      using Pair l by (simp add: processIf_def addIfCondition_def links_def)
    then show ?thesis by blast
  next
    case False
    then have "links (processIf i el) = links el"
      using Pair l by (auto simp: processIf_def Let_def link_simps split: prod.splits)
    then show ?thesis by simp
  qed
qed

text \<open>The transforms of the modules leave the links alone.\<close>

definition tame :: "copts \<Rightarrow> bool" where
  "tame opt \<longleftrightarrow>
     (\<forall>f \<in> set (o_preTransforms opt) \<union> set (o_transforms opt) \<union> set (o_postTransforms opt). \<forall>el. links (f el) = links el)"

text \<open>A new element has no children and can only be the block of its own condition.\<close>

definition fresh :: "nat \<Rightarrow> nat option \<Rightarrow> elem \<Rightarrow> bool" where
  "fresh i p el \<longleftrightarrow>
     e_parent el = p \<and> e_children el = [] \<and> e_scopedSlots el = []
     \<and> \<not> e_static el \<and> \<not> e_staticRoot el
     \<and> (e_ifConditions el = [] \<and> e_if el = None \<or> (\<exists>v. e_ifConditions el = [(v, i)]))"

lemma links_fresh: "links el = links el' \<Longrightarrow> fresh i p el = fresh i p el'"
  by (simp add: fresh_def links_def)

lemma fresh_processIf: "links el = (p, [], [], [], None, False, False) \<Longrightarrow> fresh i p (processIf i el)"
  using links_processIf [of i el] by (auto simp: fresh_def links_def)

lemma createElement_links: "links (createElement opt s tag attrs) = (a_currentParent s, [], [], [], None, False, False)"
proof -
  have "links (newElement tag as m p) = (p, [], [], [], None, False, False)" for as m p by (simp add: links_def newElement_def)
  then show ?thesis unfolding createElement_def Let_def by (auto simp: link_simps)
qed

lemma processElement_fresh:
  assumes "tame opt" "links el = (p, [], [], [], None, False, False)"
  shows "fresh i p (processElement opt es i el)"
proof -
  define el0 where "el0 = processIf i (processFor el)"
  have "links (processElement opt es i el) = links el0"
    unfolding processElement_def el0_def [symmetric] Let_def
    using assms(1) by (subst links_processAttrs, subst links_fold) (auto simp: tame_def link_simps)
  moreover have "fresh i p el0" unfolding el0_def by (rule fresh_processIf) (simp add: link_simps assms)
  ultimately show ?thesis using links_fresh by blast
qed

lemma processStart_fresh:
  assumes "tame opt" "links el = (p, [], [], [], None, False, False)"
  shows "fresh i p (fst (processStart opt s i el))"
proof -
  define el2 where "el2 = (if a_inVPre s then fold (\<lambda>f. f) (o_preTransforms opt) el
                           else processPre (fold (\<lambda>f. f) (o_preTransforms opt) el))"
  have "links (fold (\<lambda>f. f) (o_preTransforms opt) el) = links el"
    using assms(1) by (intro links_fold) (auto simp: tame_def)
  then have "links el2 = (p, [], [], [], None, False, False)" unfolding el2_def using assms(2) by (simp add: link_simps)
  moreover from this have "fresh i p (processRawAttrs el2)" by (subst links_fresh [OF links_process(2)]) (simp add: fresh_def links_def)
  ultimately show ?thesis
    using processElement_fresh [OF assms(1)] unfolding processStart_def Let_def el2_def [symmetric] by simp
qed

section \<open>The tree\<close>

text \<open>
  An element is linked when its parent is older, its children are younger, in the order of their creation,
  and have it as their parent, the first block of its conditions is not older, the other ones and its scoped
  slots are younger, and it has a block if it has a condition.
\<close>

fun kids :: "child list \<Rightarrow> nat list" where
  "kids [] = []"
| "kids (Child i # cs) = i # kids cs"
| "kids (Expr e x # cs) = kids cs"
| "kids (TextNode x # cs) = kids cs"

definition linked :: "elem list \<Rightarrow> nat \<Rightarrow> bool" where
  "linked es i \<longleftrightarrow>
     (\<forall>p. e_parent (es ! i) = Some p \<longrightarrow> p < i)
     \<and> (\<forall>j \<in> set (kids (e_children (es ! i))). i < j \<and> j < length es \<and> e_parent (es ! j) = Some i)
     \<and> sorted_wrt (<) (kids (e_children (es ! i)))
     \<and> (\<forall>c \<in> set (e_ifConditions (es ! i)). i \<le> snd c \<and> snd c < length es)
     \<and> (\<forall>c \<in> set (tl (e_ifConditions (es ! i))). i < snd c)
     \<and> (truthy (e_if (es ! i)) \<longrightarrow> e_ifConditions (es ! i) \<noteq> [])
     \<and> (\<forall>q \<in> set (e_scopedSlots (es ! i)). i < snd q \<and> snd q < length es \<and> e_parent (es ! snd q) = Some i)"

definition tree_ok :: "elem list \<Rightarrow> bool" where
  "tree_ok es \<longleftrightarrow> (\<forall>i < length es. linked es i)"

definition ast_ok :: "ast \<Rightarrow> bool" where
  "ast_ok s \<longleftrightarrow>
     tree_ok (a_elems s) \<and> sorted_wrt (>) (a_stack s) \<and> (\<forall>i \<in> set (a_stack s). i < length (a_elems s))
     \<and> a_currentParent s = (case a_stack s of [] \<Rightarrow> None | p # _ \<Rightarrow> Some p)
     \<and> (\<forall>r. a_root s = Some r \<longrightarrow> r < length (a_elems s))
     \<and> (\<forall>el \<in> set (a_elems s). \<not> e_static el \<and> \<not> e_staticRoot el)"

lemma kids_append [simp]: "kids (cs @ ds) = kids cs @ kids ds"
  by (induction cs rule: kids.induct) auto

lemma kids_lastElement: "kids (fst (lastElement cs)) = kids cs"
  by (induction cs rule: lastElement.induct) auto

lemma kids_rev: "kids (rev cs) = rev (kids cs)"
  by (induction cs rule: kids.induct) auto

lemma lastElement_in: "snd (lastElement cs) = Some q \<Longrightarrow> q \<in> set (kids cs)"
  by (induction cs rule: lastElement.induct) auto

lemma findPrevElement_kids:
  assumes "findPrevElement cs = (ds, q)"
  shows "kids ds = kids cs" and "q = Some i \<Longrightarrow> i \<in> set (kids cs)"
proof -
  have "kids (rev (fst (lastElement (rev cs)))) = kids cs"
    by (simp add: kids_rev kids_lastElement)
  then show "kids ds = kids cs" using assms by (simp add: findPrevElement_def split: prod.splits)
  show "q = Some i \<Longrightarrow> i \<in> set (kids cs)"
    using assms lastElement_in [of "rev cs" i] by (auto simp: findPrevElement_def kids_rev split: prod.splits)
qed

lemma kids_dropSpace: "kids (dropSpace b cs) = kids cs"
proof (cases "dropSpace b cs = cs")
  case False
  then have "cs \<noteq> []" "List.last cs = TextNode [32]" "dropSpace b cs = butlast cs" by (auto simp: dropSpace_def split: if_splits)
  then have "cs = dropSpace b cs @ [TextNode [32]]" by (metis append_butlast_last_id)
  then have "kids cs = kids (dropSpace b cs @ [TextNode [32]])" by simp
  then show ?thesis by simp
qed simp

lemma kids_addText: "kids (addText opt b x cs) = kids cs"
  by (simp add: addText_def split: option.split)

lemma linked_cong:
  assumes "length es' = length es" "\<And>j. j < length es \<Longrightarrow> e_parent (es' ! j) = e_parent (es ! j)"
    and "kids (e_children (es' ! i)) = kids (e_children (es ! i))" "e_ifConditions (es' ! i) = e_ifConditions (es ! i)"
    and "e_scopedSlots (es' ! i) = e_scopedSlots (es ! i)" "e_if (es' ! i) = e_if (es ! i)" "i < length es"
  shows "linked es' i = linked es i"
  using assms unfolding linked_def by auto

text \<open>Updates of one element.\<close>

lemma tree_ok_update:
  assumes "tree_ok es" "e_parent el = e_parent (es ! p)" "p < length es \<Longrightarrow> linked (es[p := el]) p"
  shows "tree_ok (es[p := el])"
  unfolding tree_ok_def
proof (intro allI impI)
  fix i assume i: "i < length (es[p := el])"
  have "e_parent (es[p := el] ! j) = e_parent (es ! j)" if "j < length es" for j
    using assms(2) that by (cases "p < length es") (simp_all add: nth_list_update)
  then show "linked (es[p := el]) i"
    using assms(1, 3) i linked_cong [of "es[p := el]" es i]
    by (cases "i = p") (simp_all add: tree_ok_def)
qed

lemma ast_ok_updElem:
  assumes "ast_ok s" "e_parent (f (a_elems s ! p)) = e_parent (a_elems s ! p)"
    and "p < length (a_elems s) \<Longrightarrow> linked ((a_elems s)[p := f (a_elems s ! p)]) p"
    and "e_static (f (a_elems s ! p)) = e_static (a_elems s ! p)" "e_staticRoot (f (a_elems s ! p)) = e_staticRoot (a_elems s ! p)"
  shows "ast_ok (updElem p f s)"
proof -
  have "\<forall>el \<in> set ((a_elems s)[p := f (a_elems s ! p)]). \<not> e_static el \<and> \<not> e_staticRoot el"
  proof (cases "p < length (a_elems s)")
    case True
    then show ?thesis using assms(1, 4, 5) set_update_subset_insert [of "a_elems s" p] unfolding ast_ok_def by (metis insert_iff nth_mem subset_iff)
  next
    case False
    then show ?thesis using assms(1) by (simp add: ast_ok_def list_update_beyond)
  qed
  then show ?thesis using assms(1-3) tree_ok_update by (simp add: ast_ok_def updElem_def)
qed

lemma ast_ok_same:
  assumes "ast_ok s" "\<And>el. e_parent (f el) = e_parent el" "\<And>el. kids (e_children (f el)) = kids (e_children el)"
    and "\<And>el. e_ifConditions (f el) = e_ifConditions el" "\<And>el. e_scopedSlots (f el) = e_scopedSlots el"
    and "\<And>el. e_if (f el) = e_if el" "\<And>el. e_static (f el) = e_static el" "\<And>el. e_staticRoot (f el) = e_staticRoot el"
  shows "ast_ok (updElem p f s)"
proof (rule ast_ok_updElem [OF assms(1)])
  assume p: "p < length (a_elems s)"
  then have "linked (a_elems s) p" using assms(1) by (simp add: ast_ok_def tree_ok_def)
  then show "linked ((a_elems s)[p := f (a_elems s ! p)]) p"
    by (subst linked_cong [of _ "a_elems s"]) (auto simp: nth_list_update assms p)
qed (simp_all add: assms)

lemma ast_ok_condition:
  assumes "ast_ok s" "p < i" "i < length (a_elems s)" "truthy (e_if (a_elems s ! p))"
  shows "ast_ok (updElem p (addIfCondition (v, i)) s)"
proof (rule ast_ok_updElem [OF assms(1)])
  assume p: "p < length (a_elems s)"
  then have "linked (a_elems s) p" using assms(1) by (simp add: ast_ok_def tree_ok_def)
  then show "linked ((a_elems s)[p := addIfCondition (v, i) (a_elems s ! p)]) p"
    using p assms(2, 3, 4) by (auto simp: linked_def addIfCondition_def nth_list_update)
qed (simp_all add: addIfCondition_def)

lemma len_updElem [simp]: "length (a_elems (updElem i f s)) = length (a_elems s)"
  by (simp add: updElem_def)

lemma root_updElem [simp]: "a_root (updElem i f s) = a_root s" "a_currentParent (updElem i f s) = a_currentParent s"
  by (simp_all add: updElem_def)

lemma processIfConditions_ok:
  assumes "ast_ok s" "p < length (a_elems s)" "\<And>j. j < length (a_elems s) \<Longrightarrow> j \<le> i" "i < length (a_elems s)"
    and "i \<notin> set (kids (e_children (a_elems s ! p)))"
  shows "ast_ok (processIfConditions i p s)"
proof -
  obtain cs q where f: "findPrevElement (e_children (elemAt s p)) = (cs, q)" by fastforce
  define s1 where "s1 = updElem p (\<lambda>el. el \<lparr> e_children := cs \<rparr>) s"
  have l: "linked (a_elems s) p" using assms(1, 2) by (simp add: ast_ok_def tree_ok_def)
  have k: "kids cs = kids (e_children (a_elems s ! p))" using findPrevElement_kids(1) [OF f] by (simp add: elemAt_def)
  have s1: "ast_ok s1" unfolding s1_def
  proof (rule ast_ok_updElem [OF assms(1)])
    show "linked ((a_elems s)[p := (a_elems s ! p)\<lparr>e_children := cs\<rparr>]) p"
      by (subst linked_cong [of _ "a_elems s"]) (auto simp: nth_list_update assms(2) k l)
  qed simp_all
  have "ast_ok (updElem r (addIfCondition (v, i)) s1)" if "q = Some r" "truthy (e_if (elemAt s1 r))" for r v
  proof (rule ast_ok_condition [OF s1])
    have "r \<in> set (kids (e_children (a_elems s ! p)))"
      using findPrevElement_kids(2) [OF f that(1)] by (simp add: elemAt_def)
    then have "r < length (a_elems s)" "r \<noteq> i" using l assms(5) unfolding linked_def by blast+
    then show "r < i" using assms(3) by (simp add: le_neq_implies_less)
    show "truthy (e_if (a_elems s1 ! r))" using that(2) by (simp add: elemAt_def)
    show "i < length (a_elems s1)" using assms(4) by (simp add: s1_def)
  qed
  then show ?thesis
    using s1 unfolding processIfConditions_def f prod.case s1_def [symmetric] Let_def by (simp split: option.split)
qed

lemma fresh_condition:
  assumes "fresh i p (elemAt s i)" "r < i"
  shows "fresh i p (elemAt (updElem r (addIfCondition (v, i)) s) i)"
  using assms by (simp add: elemAt_def updElem_def)

lemma children_condition: "e_children (a_elems (updElem r (addIfCondition c) s) ! p) = e_children (a_elems s ! p)"
  by (cases "r < length (a_elems s)") (auto simp: updElem_def addIfCondition_def nth_list_update list_update_beyond)

lemma placeRoot_ok:
  assumes "ast_ok s" "\<And>r. a_root s = Some r \<Longrightarrow> r < i" "i < length (a_elems s)" and run: "placeRoot i s = Some s1"
  shows "ast_ok s1" and "length (a_elems s1) = length (a_elems s)" and "a_currentParent s1 = a_currentParent s"
    and "fresh i p (elemAt s i) \<Longrightarrow> fresh i p (elemAt s1 i)"
proof -
  show "ast_ok s1"
  proof (cases "a_root s")
    case None
    then show ?thesis using assms by (auto simp: placeRoot_def ast_ok_def split: if_splits)
  next
    case (Some r)
    then have "r < i" by (rule assms(2))
    then show ?thesis using Some assms ast_ok_condition by (auto simp: placeRoot_def elemAt_def split: if_splits)
  qed
  show "length (a_elems s1) = length (a_elems s)" using run by (auto simp: placeRoot_def split: option.splits if_splits)
  show "a_currentParent s1 = a_currentParent s" using run by (auto simp: placeRoot_def split: option.splits if_splits)
  show "fresh i p (elemAt s i) \<Longrightarrow> fresh i p (elemAt s1 i)"
    using run fresh_condition [of i p s] assms(2) by (auto simp: placeRoot_def elemAt_def split: option.splits if_splits)
qed

lemma placeRoot_children:
  "placeRoot i s = Some s1 \<Longrightarrow> e_children (a_elems s1 ! p) = e_children (a_elems s ! p)"
  by (auto simp: placeRoot_def children_condition split: option.splits if_splits)

lemma placeChild_ok:
  assumes "ast_ok s" "\<And>j. j < length (a_elems s) \<Longrightarrow> j \<le> i" "i < length (a_elems s)"
    and "fresh i (a_currentParent s) (elemAt s i)" "i \<notin> set (a_stack s)"
    and new: "\<And>p. p < length (a_elems s) \<Longrightarrow> i \<notin> set (kids (e_children (a_elems s ! p)))"
  shows "ast_ok (placeChild i s) \<and> length (a_elems (placeChild i s)) = length (a_elems s)
         \<and> a_currentParent (placeChild i s) = a_currentParent s"
proof (cases "a_currentParent s")
  case None
  then show ?thesis using assms(1) by (simp add: placeChild_def)
next
  case (Some p)
  then obtain st where st: "a_stack s = p # st" using assms(1) by (auto simp: ast_ok_def split: list.splits)
  have p: "p < length (a_elems s)" using assms(1) st by (simp add: ast_ok_def)
  have ip: "p < i" using assms(2) [OF p] assms(5) st by auto
  have l: "linked (a_elems s) p" using assms(1) p by (simp add: ast_ok_def tree_ok_def)
  have par: "e_parent (a_elems s ! i) = Some p" using assms(4) Some by (simp add: fresh_def elemAt_def)
  have ups: "\<forall>q \<in> set (upsert k i m). q \<in> set m \<or> snd q = i" for k and m :: "(jstr \<times> nat) list"
    by (induction k i m rule: upsert.induct) auto
  have slot: "ast_ok (updElem p (\<lambda>q. q \<lparr> e_plain := False, e_scopedSlots := upsert k i (e_scopedSlots q) \<rparr>) s)" for k
  proof (rule ast_ok_updElem [OF assms(1)])
    show "linked ((a_elems s)[p := (a_elems s ! p) \<lparr> e_plain := False, e_scopedSlots := upsert k i (e_scopedSlots (a_elems s ! p)) \<rparr>]) p"
      using l p ip assms(3) par ups unfolding linked_def by (auto simp: nth_list_update) fastforce+
  qed simp_all
  have sorted: "\<forall>j \<in> set (kids (e_children (a_elems s ! p))). j < i"
    using l assms(2) new [OF p] unfolding linked_def by (metis le_neq_implies_less)
  have push: "ast_ok (updElem p (\<lambda>q. q \<lparr> e_children := e_children q @ [Child i] \<rparr>) s)"
  proof (rule ast_ok_updElem [OF assms(1)])
    show "linked ((a_elems s)[p := (a_elems s ! p) \<lparr> e_children := e_children (a_elems s ! p) @ [Child i] \<rparr>]) p"
      using l p ip assms(3) par sorted unfolding linked_def by (auto simp: nth_list_update sorted_wrt_append)
  qed simp_all
  have again: "updElem i (\<lambda>q. q \<lparr> e_parent := Some p \<rparr>) s1 = s1"
    if "e_parent (a_elems s1 ! i) = Some p" for s1
  proof -
    have "(a_elems s1 ! i) \<lparr> e_parent := Some p \<rparr> = a_elems s1 ! i" using that by simp
    then show ?thesis by (simp add: updElem_def)
  qed
  have "e_parent (a_elems (updElem p (\<lambda>q. q \<lparr> e_children := e_children q @ [Child i] \<rparr>) s) ! i) = Some p"
    using par ip by (simp add: updElem_def)
  note again = again [OF this]
  have len: "length (a_elems (processIfConditions i p s)) = length (a_elems s)"
    "a_currentParent (processIfConditions i p s) = a_currentParent s"
    by (simp_all add: processIfConditions_def Let_def split: prod.split option.split)
  show ?thesis
    unfolding placeChild_def Some option.case Let_def
    using slot push again len assms(1) processIfConditions_ok [OF assms(1) p assms(2, 3) new [OF p]] Some by simp
qed

lemma ast_ok_append:
  assumes "ast_ok s" "fresh (length (a_elems s)) (a_currentParent s) el"
  shows "ast_ok (s \<lparr> a_elems := a_elems s @ [el], a_inVPre := b, a_inPre := c \<rparr>)"
proof -
  let ?es = "a_elems s"
  have "linked (?es @ [el]) i" if "i < length ?es" for i
  proof -
    have "linked ?es i" using assms(1) that by (simp add: ast_ok_def tree_ok_def)
    then show ?thesis using that unfolding linked_def by (auto simp: nth_append)
  qed
  moreover have "linked (?es @ [el]) (length ?es)"
    using assms unfolding linked_def fresh_def ast_ok_def by (auto simp: nth_append truthy_def split: list.splits)
  ultimately have "tree_ok (?es @ [el])" unfolding tree_ok_def by (auto simp: less_Suc_eq)
  then show ?thesis using assms unfolding ast_ok_def fresh_def by auto
qed

lemma ast_ok_flags: "ast_ok (s \<lparr> a_inVPre := b \<rparr>) = ast_ok s" "ast_ok (s \<lparr> a_inPre := b \<rparr>) = ast_ok s"
  by (simp_all add: ast_ok_def)

lemma endPre_ok [simp]: "ast_ok (endPre opt el s) = ast_ok s"
  by (simp add: endPre_def Let_def ast_ok_flags)

lemma links_post: "tame opt \<Longrightarrow> links (fold (\<lambda>f. f) (o_postTransforms opt) el) = links el"
  by (rule links_fold) (simp add: tame_def)

lemma startCall_ok:
  assumes "tame opt" "ast_ok s" and run: "startCall opt tag attrs unary s = Some s'"
  shows "ast_ok s'"
proof -
  define i where "i = length (a_elems s)"
  obtain el b where st: "processStart opt s i (createElement opt s tag attrs) = (el, b)" by fastforce
  define s1 where "s1 = s \<lparr> a_elems := a_elems s @ [el], a_inVPre := b, a_inPre := a_inPre s \<or> o_isPreTag opt (e_tag el) \<rparr>"
  have fresh: "fresh i (a_currentParent s) el"
    using processStart_fresh [OF assms(1) createElement_links [of opt s tag attrs], where i = i and s = s] st by simp
  have ok1: "ast_ok s1" using ast_ok_append [OF assms(2)] fresh by (simp add: s1_def i_def)
  have len1: "length (a_elems s1) = Suc i" by (simp add: s1_def i_def)
  then have le: "j < length (a_elems s1) \<Longrightarrow> j \<le> i" "i < length (a_elems s1)" for j by auto
  have at1: "elemAt s1 i = el" "a_currentParent s1 = a_currentParent s" "a_stack s1 = a_stack s"
    by (simp_all add: s1_def elemAt_def i_def)
  obtain s2 where s2: "placeRoot i s1 = Some s2"
    using run st by (auto simp: startCall_def Let_def i_def [symmetric] s1_def split: option.splits)
  have "a_root s1 = Some r \<Longrightarrow> r < i" for r using assms(2) by (simp add: s1_def ast_ok_def i_def)
  note root = placeRoot_ok [OF ok1 this le(2) s2] and stk = stack_placeRoot [OF s2]
  have stack: "i \<notin> set (a_stack s2)" using assms(2) by (auto simp: stk at1 ast_ok_def i_def)
  have kids: "i \<notin> set (kids (e_children (a_elems s2 ! p)))" if p: "p < Suc i" for p
  proof -
    have "e_children (a_elems s2 ! p) = e_children (a_elems s1 ! p)"
      by (rule placeRoot_children [OF s2])
    moreover have "i \<notin> set (kids (e_children (a_elems s1 ! p)))"
    proof (cases "p = i")
      case True
      then show ?thesis using at1 fresh by (simp add: elemAt_def fresh_def)
    next
      case False
      then have "linked (a_elems s) p" "a_elems s1 ! p = a_elems s ! p"
        using p assms(2) by (auto simp: s1_def nth_append i_def ast_ok_def tree_ok_def)
      then show ?thesis by (auto simp: linked_def i_def)
    qed
    ultimately show ?thesis by simp
  qed
  have "ast_ok (placeChild i s2) \<and> length (a_elems (placeChild i s2)) = length (a_elems s2)
         \<and> a_currentParent (placeChild i s2) = a_currentParent s2"
    by (rule placeChild_ok [OF root(1)]) (use le len1 root at1 fresh stack kids in auto)
  moreover define s3 where "s3 = placeChild i s2"
  ultimately have s3: "ast_ok s3" "length (a_elems s3) = Suc i" "a_stack s3 = a_stack s"
    using root(2) len1 by (simp_all add: stk at1)
  define s4 where "s4 = (if unary then endPre opt (elemAt s3 i) s3
                         else s3 \<lparr> a_stack := i # a_stack s3, a_currentParent := Some i \<rparr>)"
  have "ast_ok (s3 \<lparr> a_stack := i # a_stack s3, a_currentParent := Some i \<rparr>)"
    using s3 assms(2) by (auto simp: ast_ok_def i_def)
  then have "ast_ok s4" using s3 by (simp add: s4_def)
  then have "ast_ok (updElem i (fold (\<lambda>f. f) (o_postTransforms opt)) s4)"
    by (rule ast_ok_same) (use links_post [OF assms(1)] in \<open>auto simp: links_def\<close>)
  moreover have "s' = updElem i (fold (\<lambda>f. f) (o_postTransforms opt)) s4"
    using run unfolding startCall_def Let_def i_def [symmetric] st prod.case s1_def [symmetric] s2 option.case
      s3_def [symmetric] s4_def [symmetric] by simp
  ultimately show ?thesis by simp
qed

lemma kids_update_ok:
  assumes "ast_ok s" "\<And>el. kids (f el) = kids (e_children el)"
  shows "ast_ok (updElem p (\<lambda>q. q \<lparr> e_children := f q \<rparr>) s)"
  by (rule ast_ok_same [OF assms(1)]) (simp_all add: assms(2))

lemma charsCall_ok: "ast_ok s \<Longrightarrow> ast_ok (charsCall opt x s)"
  by (simp add: charsCall_def Let_def kids_update_ok kids_addText split: option.split)

lemma endCall_ok:
  assumes "ast_ok s" "endCall opt s = Some s'"
  shows "ast_ok s'"
proof -
  obtain i st where st: "a_stack s = i # st" using assms(2) by (cases "a_stack s") (auto simp: endCall_def)
  define s1 where "s1 = updElem i (\<lambda>q. q \<lparr> e_children := dropSpace (a_inPre s) (e_children q) \<rparr>) s"
  have s1: "ast_ok s1" unfolding s1_def by (rule kids_update_ok [OF assms(1)]) (simp add: kids_dropSpace)
  have "a_stack s1 = i # st" by (simp add: s1_def st)
  then have "ast_ok (s1 \<lparr> a_stack := st, a_currentParent := (case st of [] \<Rightarrow> None | p # _ \<Rightarrow> Some p) \<rparr>)"
    using s1 by (simp add: ast_ok_def)
  then show ?thesis using assms(2) by (simp add: endCall_def st Let_def s1_def [symmetric]) (metis endPre_ok)
qed

lemma runEvents_ok: "tame opt \<Longrightarrow> ast_ok s \<Longrightarrow> runEvents opt es s = Some s' \<Longrightarrow> ast_ok s'"
  by (induction opt es s rule: runEvents.induct) (auto simp: charsCall_ok split: option.splits dest: endCall_ok startCall_ok)

lemma parse_ast_ok: "tame opt \<Longrightarrow> parseTemplate opt template = Some s \<Longrightarrow> ast_ok s"
  unfolding parseTemplate_def by (rule runEvents_ok) (auto simp: startAst_def ast_ok_def tree_ok_def)

text \<open>
  C20. With transforms that leave the map of the attributes alone, the parser of templates ends on every text, with
  an empty stack: \<open>end\<close> always finds the element it closes. The one error it can raise is that of
  \<open>checkRootConstraints\<close>, and then the text has a start tag with an attribute \<open>hasOwnProperty\<close>.
\<close>

theorem parse_returns:
  assumes "mapTame opt"
  shows "(\<exists>s. parseTemplate opt template = Some s \<and> a_stack s = [])
    \<or> parseTemplate opt template = None
      \<and> (\<exists>tag attrs unary a b. Start tag attrs unary a b \<in> set (parseHTML (o_html opt) template)
           \<and> js ''hasOwnProperty'' \<in> fst ` (set attrs \<union> (if o_isIE opt then set (guardIESVGBug attrs) else {})))"
proof -
  have "\<exists>tag attrs unary a b. e = Start tag attrs unary a b
      \<and> js ''hasOwnProperty'' \<in> fst ` (set attrs \<union> (if o_isIE opt then set (guardIESVGBug attrs) else {}))"
    if "ownName opt e" for e
    using that by (cases e) (simp_all add: ownName_def)
  then show ?thesis using parse_nested_run [OF assms, of template] by blast
qed

lemma mapTame_baseOptions: "mapTame (baseOptions decode)"
  by (simp add: mapTame_def baseOptions_def map_simps)

lemma parse_returns_witness:
  "\<exists>s. parseTemplate (baseOptions id) (js ''<p id=a><b>t</p>'') = Some s \<and> a_stack s = []"
proof -
  have "parseTemplate (baseOptions id) (js ''<p id=a><b>t</p>'') \<noteq> None" by code_simp
  with parse_returns [OF mapTame_baseOptions, of id "js ''<p id=a><b>t</p>''"] show ?thesis by (elim disjE conjE) simp_all
qed

text \<open>The error is raised for a root with such an attribute, and not for an element inside the root.\<close>

lemma own_name_root:
  "parseTemplate (baseOptions id) (js ''<p hasOwnProperty=x>t</p>'') = None"
  "parseTemplate (baseOptions id) (js ''<p><b hasOwnProperty=x>t</b></p>'') \<noteq> None"
  by code_simp+

text \<open>
  C10. The elements form a tree: with transforms that leave the links alone, the parent of an element is older,
  the children of an element are younger and have it as their parent, no element is twice among them, and the
  blocks of conditions and the scoped slots are younger elements of the store, apart from the block of the first
  condition, which may be the element itself.
\<close>

theorem parse_tree:
  assumes "tame opt" "parseTemplate opt template = Some s"
  shows "\<forall>i < length (a_elems s). linked (a_elems s) i"
  using parse_ast_ok [OF assms] by (simp add: ast_ok_def tree_ok_def)

lemma tame_baseOptions: "tame (baseOptions decode)"
  by (auto simp: tame_def baseOptions_def link_simps)

lemma own_name_free: "\<exists>s. parseTemplate (baseOptions id) (js ''<p v-if=a><b v-for=x>t</b></p>'') = Some s"
proof -
  have "parseTemplate (baseOptions id) (js ''<p v-if=a><b v-for=x>t</b></p>'') \<noteq> None" by code_simp
  then show ?thesis by simp
qed

lemma parse_tree_witness:
  "\<exists>s. parseTemplate (baseOptions id) (js ''<p v-if=a><b v-for=x>t</b></p>'') = Some s \<and> (\<forall>i < length (a_elems s). linked (a_elems s) i)"
  using parse_tree [OF tame_baseOptions, of id "js ''<p v-if=a><b v-for=x>t</b></p>''"] own_name_free by blast

end
