(* ===== verification/VueOptimizer.thy ===== *)
theory VueOptimizer
  imports VueTemplateFacts
begin

text \<open>
  The optimizer of the template compiler: \<open>markStatic\<close> finds the subtrees that never change, \<open>markStaticRoots\<close>
  the ones that are worth a render function of their own. Both walk the tree with fuel; the number of
  elements is enough, as children and later blocks are younger than their element.
\<close>

section \<open>Static elements\<close>

text \<open>\<open>Object.keys\<close> of an element. The keys \<open>slotName\<close> and \<open>ns\<close> stand for a value that is there.\<close>

definition elemKeys :: "elem \<Rightarrow> string list" where
  "elemKeys el =
     [''type'', ''tag'', ''attrsList'', ''attrsMap'', ''parent'', ''children'', ''plain'']
     @ concat (map (\<lambda>(b, k). if b then [k] else [])
         [(e_ns el \<noteq> None, ''ns''), (e_forbidden el, ''forbidden''), (e_pre el, ''pre''), (e_for el \<noteq> None, ''for''),
          (e_alias el \<noteq> None, ''alias''), (e_iterator1 el \<noteq> None, ''iterator1''), (e_iterator2 el \<noteq> None, ''iterator2''),
          (e_if el \<noteq> None, ''if''), (e_else el, ''else''), (e_elseif el \<noteq> None, ''elseif''),
          (e_ifConditions el \<noteq> [], ''ifConditions''), (e_once el, ''once''), (e_key el \<noteq> None, ''key''),
          (e_ref el \<noteq> None, ''ref''), (e_ref el \<noteq> None, ''refInFor''), (e_slotName el \<noteq> None, ''slotName''),
          (e_slotTarget el \<noteq> None, ''slotTarget''), (e_slotScope el \<noteq> None, ''slotScope''),
          (e_scopedSlots el \<noteq> [], ''scopedSlots''), (e_component el \<noteq> None, ''component''),
          (e_inlineTemplate el, ''inlineTemplate''), (e_hasBindings el, ''hasBindings''), (e_attrs el \<noteq> [], ''attrs''),
          (e_props el \<noteq> [], ''props''), (e_directives el \<noteq> [], ''directives''), (e_events el \<noteq> [], ''events''),
          (e_nativeEvents el \<noteq> [], ''nativeEvents''), (e_staticClass el \<noteq> None, ''staticClass''),
          (e_classBinding el \<noteq> None, ''classBinding''), (e_staticStyle el \<noteq> None, ''staticStyle''),
          (e_styleBinding el \<noteq> None, ''styleBinding'')])"

text \<open>\<open>genStaticKeys$1\<close> for the modules of the platform.\<close>

definition isStaticKey :: "string \<Rightarrow> bool" where
  "isStaticKey = List.member
     [''type'', ''tag'', ''attrsList'', ''attrsMap'', ''plain'', ''parent'', ''children'', ''attrs'', ''staticClass'',
      ''staticStyle'']"

function childOfTemplateFor :: "elem list \<Rightarrow> nat option \<Rightarrow> bool" where
  "childOfTemplateFor es p =
     (case p of
        None \<Rightarrow> False
      | Some i \<Rightarrow>
          if length es \<le> i then False
          else if e_tag (es ! i) \<noteq> js ''template'' then False
          else if truthy (e_for (es ! i)) then True
          else childOfTemplateFor (take i es) (e_parent (es ! i)))"
  by pat_completeness auto
termination by (relation "measure (\<lambda>(es, p). length es)") auto

declare childOfTemplateFor.simps [simp del]

definition isDirectChildOfTemplateFor :: "elem list \<Rightarrow> elem \<Rightarrow> bool" where
  "isDirectChildOfTemplateFor es el = childOfTemplateFor es (e_parent el)"

definition isStatic :: "(jstr \<Rightarrow> bool) \<Rightarrow> elem list \<Rightarrow> elem \<Rightarrow> bool" where
  "isStatic reserved es el \<longleftrightarrow>
     e_pre el
     \<or> \<not> e_hasBindings el \<and> \<not> truthy (e_if el) \<and> \<not> truthy (e_for el) \<and> \<not> isBuiltInTag (e_tag el)
       \<and> reserved (e_tag el) \<and> \<not> isDirectChildOfTemplateFor es el \<and> list_all isStaticKey (elemKeys el)"

text \<open>The slot content of a component is not looked into.\<close>

definition slotContent :: "(jstr \<Rightarrow> bool) \<Rightarrow> elem \<Rightarrow> bool" where
  "slotContent reserved el \<longleftrightarrow>
     \<not> reserved (e_tag el) \<and> e_tag el \<noteq> js ''slot'' \<and> map_of (e_attrsMap el) (js ''inline-template'') = None"

definition setStatic :: "bool \<Rightarrow> nat \<Rightarrow> elem list \<Rightarrow> elem list" where
  "setStatic b i es = es[i := (es ! i) \<lparr> e_static := b \<rparr>]"

text \<open>The flag of a text is not kept: an interpolated text is not static, a plain one is.\<close>

fun markChild :: "(nat \<Rightarrow> elem list \<Rightarrow> elem list) \<Rightarrow> nat \<Rightarrow> child \<Rightarrow> elem list \<Rightarrow> elem list" where
  "markChild mark i (Child j) es = (let es1 = mark j es in if e_static (es1 ! j) then es1 else setStatic False i es1)"
| "markChild mark i (Expr e x) es = setStatic False i es"
| "markChild mark i (TextNode x) es = es"

fun markStatic :: "(jstr \<Rightarrow> bool) \<Rightarrow> nat \<Rightarrow> nat \<Rightarrow> elem list \<Rightarrow> elem list" where
  "markStatic reserved 0 i es = es"
| "markStatic reserved (Suc n) i es =
     (let es1 = setStatic (isStatic reserved es (es ! i)) i es
      in if slotContent reserved (es1 ! i) then es1
         else fold (markChild (markStatic reserved n) i) (e_children (es1 ! i)) es1)"

section \<open>Static roots\<close>

definition onlyText :: "child list \<Rightarrow> bool" where
  "onlyText cs = (case cs of [TextNode x] \<Rightarrow> True | _ \<Rightarrow> False)"

fun rootsChild :: "(nat \<Rightarrow> elem list \<Rightarrow> elem list) \<Rightarrow> child \<Rightarrow> elem list \<Rightarrow> elem list" where
  "rootsChild roots (Child j) es = roots j es"
| "rootsChild roots (Expr e x) es = es"
| "rootsChild roots (TextNode x) es = es"

definition walkThroughConditionsBlocks ::
  "(nat \<Rightarrow> elem list \<Rightarrow> elem list) \<Rightarrow> (jstr option \<times> nat) list \<Rightarrow> elem list \<Rightarrow> elem list" where
  "walkThroughConditionsBlocks roots conditionBlocks es = fold (\<lambda>c. roots (snd c)) (drop 1 conditionBlocks) es"

fun markStaticRoots :: "nat \<Rightarrow> bool \<Rightarrow> nat \<Rightarrow> elem list \<Rightarrow> elem list" where
  "markStaticRoots 0 isInFor i es = es"
| "markStaticRoots (Suc n) isInFor i es =
     (let el = es ! i;
          el1 = (if e_static el \<or> e_once el then el \<lparr> e_staticInFor := isInFor \<rparr> else el)
      in if e_static el \<and> e_children el \<noteq> [] \<and> \<not> onlyText (e_children el) then es[i := el1 \<lparr> e_staticRoot := True \<rparr>]
         else walkThroughConditionsBlocks (markStaticRoots n isInFor) (e_ifConditions el)
                (fold (rootsChild (markStaticRoots n (isInFor \<or> truthy (e_for el)))) (e_children el)
                   (es[i := el1 \<lparr> e_staticRoot := False \<rparr>])))"

definition optimize :: "copts \<Rightarrow> ast \<Rightarrow> ast" where
  "optimize opt s =
     (case a_root s of
        None \<Rightarrow> s
      | Some r \<Rightarrow>
          s \<lparr> a_elems := markStaticRoots (length (a_elems s)) False r
                 (markStatic (o_isReservedTag opt) (length (a_elems s)) r (a_elems s)) \<rparr>)"

end
