(* ===== verification/VueHandlers.thy ===== *)
theory VueHandlers
  imports VueAst
begin

text \<open>
  The code that is generated for event handlers, and the directives that change an element before its data
  are generated: \<open>v-model\<close>, \<open>v-text\<close>, \<open>v-html\<close> and \<open>v-bind\<close> without an argument. The tables \<open>keyCodes\<close>,
  \<open>modifierCode\<close> and the table of the directives are object literals: a name they do not have is looked up in
  \<open>Object.prototype\<close>. \<open>ft\<close> is the text of such a method when it is used as a string.
\<close>

section \<open>Kinds of handlers\<close>

definition identStart :: "nat \<Rightarrow> bool" where
  "identStart c \<longleftrightarrow> 65 \<le> c \<and> c \<le> 90 \<or> 97 \<le> c \<and> c \<le> 122 \<or> c = 95 \<or> c = 36"

definition identChar :: "nat \<Rightarrow> bool" where
  "identChar c \<longleftrightarrow> wordChar c \<or> c = 36"

text \<open>The rests behind \<open>.*?q]\<close> for a quote \<open>q\<close>.\<close>

fun quotedRests :: "nat \<Rightarrow> jstr \<Rightarrow> jstr list" where
  "quotedRests q [] = []"
| "quotedRests q (c # s) =
     (if c = q \<and> s \<noteq> [] \<and> hd s = 93 then [tl s] else []) @ (if lineEnd c then [] else quotedRests q s)"

text \<open>The rests behind one member access of a path.\<close>

definition accessRests :: "jstr \<Rightarrow> jstr list" where
  "accessRests s =
     (case s of
        c # d # r \<Rightarrow>
          if c = 46 then (if identStart d then [dropWhile identChar r] else [])
          else if c = 91 then
            (if d = 39 \<or> d = 34 then quotedRests d r
             else (let n = dropWhile (if digitChar d then digitChar else identChar) r
                   in if (digitChar d \<or> identStart d) \<and> n \<noteq> [] \<and> hd n = 93 then [tl n] else []))
          else []
      | _ \<Rightarrow> [])"

lemma quotedRests_less: "r \<in> set (quotedRests q s) \<Longrightarrow> length r < length s"
  by (induction q s rule: quotedRests.induct) (auto split: if_splits)

lemma accessRests_less: "r \<in> set (accessRests s) \<Longrightarrow> length r < length s"
proof -
  have "length (tl (dropWhile P x)) < Suc (Suc (length x))" "length (dropWhile P x) < Suc (Suc (length x))" for P :: "nat \<Rightarrow> bool" and x
    using length_dropWhile_le [of P x] by auto
  then show "r \<in> set (accessRests s) \<Longrightarrow> length r < length s"
    unfolding accessRests_def by (auto simp: Let_def less_Suc_eq dest: quotedRests_less split: list.splits if_splits)
qed

function accesses :: "jstr \<Rightarrow> bool" where
  "accesses s \<longleftrightarrow> list_all is_space s \<or> (\<exists>r \<in> set (accessRests s). accesses r)"
  by pat_completeness auto
termination by (relation "measure length") (auto dest: accessRests_less)

declare accesses.simps [simp del]

text \<open>\<open>simplePathRE\<close>.\<close>

definition simplePath :: "jstr \<Rightarrow> bool" where
  "simplePath s =
     (case dropWhile is_space s of [] \<Rightarrow> False | c # r \<Rightarrow> identStart c \<and> accesses (dropWhile identChar r))"

text \<open>\<open>fnExpRE\<close>.\<close>

definition arrowBehind :: "jstr \<Rightarrow> bool" where
  "arrowBehind s = starts (js ''=>'') (dropWhile is_space s)"

definition fnExp :: "jstr \<Rightarrow> bool" where
  "fnExp s \<longleftrightarrow>
     (case dropWhile is_space s of
        [] \<Rightarrow> False
      | c # r \<Rightarrow>
          if identChar c then arrowBehind (dropWhile identChar r)
          else if c = 40 then (case dropWhile (\<lambda>d. d \<noteq> 41) r of [] \<Rightarrow> False | d # q \<Rightarrow> arrowBehind q)
          else False)
     \<or> (case afterPrefix [''function''] s of Some r \<Rightarrow> starts [40] (dropWhile is_space r) | None \<Rightarrow> False)"

section \<open>Key codes and modifiers\<close>

fun decimal :: "nat \<Rightarrow> jstr" where
  "decimal n = (if n < 10 then [48 + n] else decimal (n div 10) @ [48 + n mod 10])"

declare decimal.simps [simp del]

text \<open>\<open>keyCodes\<close>, in JSON; \<open>JSON.stringify\<close> of an inherited method is \<open>undefined\<close>.\<close>

definition keyCodes :: "jstr \<Rightarrow> jstr option" where
  "keyCodes k = (if k \<in> set objectProps then Some (js ''undefined'') else map_of
     [(js ''esc'', js ''27''), (js ''tab'', js ''9''), (js ''enter'', js ''13''), (js ''space'', js ''32''),
      (js ''up'', js ''38''), (js ''left'', js ''37''), (js ''right'', js ''39''), (js ''down'', js ''40''),
      (js ''delete'', js ''[8,46]'')] k)"

definition genGuard :: "jstr \<Rightarrow> jstr" where
  "genGuard condition = js ''if('' @ condition @ js '')return null;''"

definition modifierCode :: "(jstr \<Rightarrow> jstr) \<Rightarrow> jstr \<Rightarrow> jstr option" where
  "modifierCode ft k = (if k \<in> set objectProps then Some (ft k) else map_of
     [(js ''stop'', js ''$event.stopPropagation();''), (js ''prevent'', js ''$event.preventDefault();''),
      (js ''self'', genGuard (js ''$event.target !== $event.currentTarget'')),
      (js ''ctrl'', genGuard (js ''!$event.ctrlKey'')), (js ''shift'', genGuard (js ''!$event.shiftKey'')),
      (js ''alt'', genGuard (js ''!$event.altKey'')), (js ''meta'', genGuard (js ''!$event.metaKey'')),
      (js ''left'', genGuard (js '''button' in $event && $event.button !== 0'')),
      (js ''middle'', genGuard (js '''button' in $event && $event.button !== 1'')),
      (js ''right'', genGuard (js '''button' in $event && $event.button !== 2''))] k)"

text \<open>\<open>parseInt(key, 10)\<close>, 0 for \<open>NaN\<close>: the sign and the digits.\<close>

definition parseIntKey :: "jstr \<Rightarrow> bool \<times> nat" where
  "parseIntKey key =
     (case dropWhile is_space key of
        [] \<Rightarrow> (False, 0)
      | c # r \<Rightarrow>
          if c = 45 then (True, natOf (takeWhile digitChar r))
          else if c = 43 then (False, natOf (takeWhile digitChar r))
          else (False, natOf (takeWhile digitChar (c # r))))"

definition genFilterCode :: "jstr \<Rightarrow> jstr" where
  "genFilterCode key =
     (case parseIntKey key of
        (neg, n) \<Rightarrow>
          if n \<noteq> 0 then js ''$event.keyCode!=='' @ (if neg then [45] else []) @ decimal n
          else js ''_k($event.keyCode,'' @ jsonString key
               @ (case keyCodes key of Some alias \<Rightarrow> 44 # alias | None \<Rightarrow> []) @ js '')'')"

definition genKeyFilter :: "jstr list \<Rightarrow> jstr" where
  "genKeyFilter keys = js ''if(!('button' in $event)&&'' @ join (js ''&&'') (map genFilterCode keys) @ js '')return null;''"

section \<open>Handlers\<close>

definition genSingle :: "(jstr \<Rightarrow> jstr) \<Rightarrow> handler \<Rightarrow> jstr" where
  "genSingle ft h =
     (case h of
        Inherited \<Rightarrow> []
      | Handler v None \<Rightarrow> if simplePath v \<or> fnExp v then v else js ''function($event){'' @ v @ js ''}''
      | Handler v (Some ms) \<Rightarrow>
          (let ks = ownOrder id ms;
               codes = concat (map (\<lambda>k. case modifierCode ft k of Some c \<Rightarrow> c | None \<Rightarrow> []) ks);
               keys = filter (\<lambda>k. modifierCode ft k = None \<or> keyCodes k \<noteq> None) ks;
               handlerCode = (if simplePath v then v @ js ''($event)''
                              else if fnExp v then js ''('' @ v @ js '')($event)'' else v)
           in js ''function($event){'' @ (if keys = [] then [] else genKeyFilter keys) @ codes @ handlerCode @ js ''}''))"

definition genHandler :: "(jstr \<Rightarrow> jstr) \<Rightarrow> handler list \<Rightarrow> jstr" where
  "genHandler ft hs =
     (case hs of [h] \<Rightarrow> genSingle ft h | _ \<Rightarrow> js ''['' @ join (js '','') (map (genSingle ft) hs) @ js '']'')"

text \<open>The last character of the list, a comma, is cut off before the closing brace.\<close>

definition genHandlers :: "(jstr \<Rightarrow> jstr) \<Rightarrow> (jstr \<times> handler list) list \<Rightarrow> bool \<Rightarrow> jstr" where
  "genHandlers ft events native =
     butlast ((if native then js ''nativeOn:{'' else js ''on:{'')
              @ concat (map (\<lambda>(name, hs). 34 # name @ [34, 58] @ genHandler ft hs @ [44]) (ownOrder fst events)))
     @ js ''}''"

section \<open>v-model\<close>

definition hasModifier :: "jstr list option \<Rightarrow> string \<Rightarrow> bool" where
  "hasModifier ms m = (case ms of None \<Rightarrow> False | Some l \<Rightarrow> js m \<in> set l)"

definition orElse :: "jstr option \<Rightarrow> jstr \<Rightarrow> jstr" where
  "orElse v d = (if truthy v then the v else d)"

definition numberCode :: "bool \<Rightarrow> jstr \<Rightarrow> jstr" where
  "numberCode number x = (if number then js ''_n('' @ x @ js '')'' else x)"

definition genCheckboxModel :: "elem \<Rightarrow> jstr \<Rightarrow> jstr list option \<Rightarrow> elem" where
  "genCheckboxModel el v modifiers =
     (let (b, el1) = getBindingAttr (js ''value'') True el; valueBinding = orElse b (js ''null'');
          (t, el2) = getBindingAttr (js ''true-value'') True el1; trueValueBinding = orElse t (js ''true'');
          (f, el3) = getBindingAttr (js ''false-value'') True el2; falseValueBinding = orElse f (js ''false'');
          el4 = addProp (js ''checked'')
                  (js ''Array.isArray('' @ v @ js '')?_i('' @ v @ js '','' @ valueBinding @ js '')>-1''
                   @ (if trueValueBinding = js ''true'' then js '':('' @ v @ js '')''
                      else js '':_q('' @ v @ js '','' @ trueValueBinding @ js '')'')) el3
      in addHandler (js ''__c'')
           (js ''var $$a='' @ v @ js '',$$el=$event.target,$$c=$$el.checked?('' @ trueValueBinding @ js ''):(''
            @ falseValueBinding @ js '');if(Array.isArray($$a)){var $$v=''
            @ numberCode (hasModifier modifiers ''number'') valueBinding
            @ js '',$$i=_i($$a,$$v);if($$c){$$i<0&&('' @ v @ js ''=$$a.concat($$v))}else{$$i>-1&&('' @ v
            @ js ''=$$a.slice(0,$$i).concat($$a.slice($$i+1)))}}else{'' @ genAssignmentCode v (js ''$$c'') @ js ''}'')
           None True el4)"

definition genRadioModel :: "elem \<Rightarrow> jstr \<Rightarrow> jstr list option \<Rightarrow> elem" where
  "genRadioModel el v modifiers =
     (let (b, el1) = getBindingAttr (js ''value'') True el;
          valueBinding = numberCode (hasModifier modifiers ''number'') (orElse b (js ''null''));
          el2 = addProp (js ''checked'') (js ''_q('' @ v @ js '','' @ valueBinding @ js '')'') el1
      in addHandler (js ''__c'') (genAssignmentCode v valueBinding) None True el2)"

definition genSelect :: "elem \<Rightarrow> jstr \<Rightarrow> jstr list option \<Rightarrow> elem" where
  "genSelect el v modifiers =
     (let selectedVal = js ''Array.prototype.filter.call($event.target.options,function(o){return o.selected})''
            @ js ''.map(function(o){var val = \"_value\" in o ? o._value : o.value;return ''
            @ numberCode (hasModifier modifiers ''number'') (js ''val'') @ js ''})''
      in addHandler (js ''change'')
           (js ''var $$selectedVal = '' @ selectedVal @ js ''; ''
            @ genAssignmentCode v (js ''$event.target.multiple ? $$selectedVal : $$selectedVal[0]'')) None True el)"

definition genDefaultModel :: "elem \<Rightarrow> jstr \<Rightarrow> jstr list option \<Rightarrow> elem" where
  "genDefaultModel el v modifiers =
     (let type = map_of (e_attrsMap el) (js ''type'');
          isLazy = hasModifier modifiers ''lazy''; number = hasModifier modifiers ''number'';
          isTrim = hasModifier modifiers ''trim''; range = (type = Some (js ''range''));
          name = (if isLazy then js ''change'' else if range then js ''__r'' else js ''input'');
          valueExpression = numberCode number
            (if isTrim then js ''$event.target.value.trim()'' else js ''$event.target.value'');
          assignment = genAssignmentCode v valueExpression;
          guarded = (if \<not> isLazy \<and> \<not> range then js ''if($event.target.composing)return;'' @ assignment else assignment);
          el1 = addHandler name guarded None True (addProp (js ''value'') (js ''('' @ v @ js '')'') el)
      in if isTrim \<or> number \<or> type = Some (js ''number'') then addHandler (js ''blur'') (js ''$forceUpdate()'') None False el1
         else el1)"

definition genComponentModel :: "elem \<Rightarrow> jstr \<Rightarrow> jstr list option \<Rightarrow> elem" where
  "genComponentModel el v modifiers =
     (let valueExpression =
            numberCode (hasModifier modifiers ''number'')
              (if hasModifier modifiers ''trim'' then js ''(typeof $$v === 'string'? $$v.trim(): $$v)'' else js ''$$v'')
      in el \<lparr> e_model := Some (js ''('' @ v @ js '')'', js ''function ($$v) {'' @ genAssignmentCode v valueExpression @ js ''}'',
                               34 # v @ [34]) \<rparr>)"

text \<open>Whether the directive needs a counterpart at run time, and the changed element.\<close>

definition modelDirective :: "(jstr \<Rightarrow> bool) \<Rightarrow> elem \<Rightarrow> directive \<Rightarrow> bool \<times> elem" where
  "modelDirective reserved el dir =
     (let v = d_value dir; ms = d_modifiers dir; tag = e_tag el; type = map_of (e_attrsMap el) (js ''type'')
      in if tag = js ''select'' then (True, genSelect el v ms)
         else if tag = js ''input'' \<and> type = Some (js ''checkbox'') then (True, genCheckboxModel el v ms)
         else if tag = js ''input'' \<and> type = Some (js ''radio'') then (True, genRadioModel el v ms)
         else if tag = js ''input'' \<or> tag = js ''textarea'' then (True, genDefaultModel el v ms)
         else if \<not> reserved tag then (False, genComponentModel el v ms)
         else (True, el))"

definition contentDirective :: "string \<Rightarrow> elem \<Rightarrow> directive \<Rightarrow> elem" where
  "contentDirective prop el dir =
     (if d_value dir = [] then el else addProp (js prop) (js ''_s('' @ d_value dir @ js '')'') el)"

definition bindDirective :: "elem \<Rightarrow> directive \<Rightarrow> elem" where
  "bindDirective el dir = el \<lparr> e_wrapData := Some (d_value dir, hasModifier (d_modifiers dir) ''prop'') \<rparr>"

text \<open>
  A directive with the name of a property of \<open>Object.prototype\<close> finds that property as its generator, which is
  called without an object. Most of the methods, and the object \<open>__proto__\<close>, which is no function, raise an
  error, here \<open>None\<close>; \<open>constructor\<close> and \<open>toString\<close> return a true value, like a directive without a generator.
\<close>

definition failingDirectives :: "jstr list" where
  "failingDirectives =
     map js [''hasOwnProperty'', ''isPrototypeOf'', ''propertyIsEnumerable'', ''toLocaleString'', ''valueOf'',
       ''__defineGetter__'', ''__defineSetter__'', ''__lookupGetter__'', ''__lookupSetter__'', ''__proto__'']"

definition applyDirective :: "(jstr \<Rightarrow> bool) \<Rightarrow> elem \<Rightarrow> directive \<Rightarrow> (bool \<times> elem) option" where
  "applyDirective reserved el dir =
     (if d_name dir = js ''model'' then Some (modelDirective reserved el dir)
      else if d_name dir = js ''text'' then Some (False, contentDirective ''textContent'' el dir)
      else if d_name dir = js ''html'' then Some (False, contentDirective ''innerHTML'' el dir)
      else if d_name dir = js ''bind'' then Some (False, bindDirective el dir)
      else if d_name dir = js ''cloak'' then Some (False, el)
      else if d_name dir \<in> set failingDirectives then None
      else Some (True, el))"

definition jsonModifiers :: "jstr list \<Rightarrow> jstr" where
  "jsonModifiers ms = js ''{'' @ join (js '','') (map (\<lambda>m. jsonString m @ js '':true'') (ownOrder id ms)) @ js ''}''"

definition directiveCode :: "directive \<Rightarrow> jstr" where
  "directiveCode dir =
     js ''{name:'' @ 34 # d_name dir @ 34 # js '',rawName:'' @ 34 # d_rawName dir @ [34]
     @ (if d_value dir = [] then [] else js '',value:('' @ d_value dir @ js ''),expression:'' @ jsonString (d_value dir))
     @ (if truthy (d_arg dir) then js '',arg:'' @ 34 # the (d_arg dir) @ [34] else [])
     @ (case d_modifiers dir of None \<Rightarrow> [] | Some ms \<Rightarrow> js '',modifiers:'' @ jsonModifiers ms) @ js ''}''"

definition genDirective :: "(jstr \<Rightarrow> bool) \<Rightarrow> directive \<Rightarrow> elem \<times> jstr list \<Rightarrow> (elem \<times> jstr list) option" where
  "genDirective reserved dir p =
     (case p of
        (el, codes) \<Rightarrow>
          (case applyDirective reserved el dir of
             None \<Rightarrow> None
           | Some (runtime, el1) \<Rightarrow> Some (el1, if runtime then codes @ [directiveCode dir] else codes)))"

fun directiveLoop :: "(jstr \<Rightarrow> bool) \<Rightarrow> directive list \<Rightarrow> elem \<times> jstr list \<Rightarrow> (elem \<times> jstr list) option" where
  "directiveLoop reserved [] p = Some p"
| "directiveLoop reserved (d # ds) p =
     (case genDirective reserved d p of None \<Rightarrow> None | Some q \<Rightarrow> directiveLoop reserved ds q)"

definition genDirectives :: "(jstr \<Rightarrow> bool) \<Rightarrow> elem \<Rightarrow> (elem \<times> jstr option) option" where
  "genDirectives reserved el =
     (case directiveLoop reserved (e_directives el) (el, []) of
        None \<Rightarrow> None
      | Some (el1, codes) \<Rightarrow>
          Some (el1, if codes = [] then None else Some (js ''directives:['' @ join (js '','') codes @ js '']'')))"

end
