(* ===== verification/VueCodegen.thy ===== *)
theory VueCodegen
  imports VueOptimizer VueHandlers
begin

text \<open>
  The code generation of the template compiler: \<open>generate\<close> turns the elements into the source text of a
  render function and of the functions of the static roots. The functions call each other through
  \<open>genElement\<close> and \<open>genOnce\<close>, which are run with fuel.
\<close>

section \<open>State and errors\<close>

text \<open>\<open>NoFuel\<close> is no error of the source; \<open>TypeError\<close> is reading a property of \<open>undefined\<close>
  or a generator of directives that fails.\<close>

datatype gerror = NoFuel | TypeError

record gen =
  g_elems :: "elem list"
  g_fns :: "jstr list"
  g_once :: nat

type_synonym 'a run = "gen \<Rightarrow> gerror + ('a \<times> gen)"

datatype task = GElem nat | GOnce nat

definition ret :: "'a \<Rightarrow> 'a run" where
  "ret x = (\<lambda>g. Inr (x, g))"

definition andThen :: "'a run \<Rightarrow> ('a \<Rightarrow> 'b run) \<Rightarrow> 'b run" where
  "andThen m f = (\<lambda>g. case m g of Inl e \<Rightarrow> Inl e | Inr (x, g1) \<Rightarrow> f x g1)"

definition changeElem :: "nat \<Rightarrow> (elem \<Rightarrow> elem) \<Rightarrow> unit run" where
  "changeElem i f = (\<lambda>g. Inr ((), g \<lparr> g_elems := (g_elems g)[i := f (g_elems g ! i)] \<rparr>))"

text \<open>The element as it is now.\<close>

definition withElem :: "nat \<Rightarrow> (elem \<Rightarrow> 'b run) \<Rightarrow> 'b run" where
  "withElem i f = (\<lambda>g. f (g_elems g ! i) g)"

fun mapRun :: "('a \<Rightarrow> 'b run) \<Rightarrow> 'a list \<Rightarrow> 'b list run" where
  "mapRun f [] = ret []"
| "mapRun f (x # xs) = andThen (f x) (\<lambda>y. andThen (mapRun f xs) (\<lambda>ys. ret (y # ys)))"

section \<open>Texts and attributes\<close>

definition transformSpecialNewlines :: "jstr \<Rightarrow> jstr" where
  "transformSpecialNewlines x =
     concat (map (\<lambda>c. if c = 8232 then 92 # js ''u2028'' else if c = 8233 then 92 # js ''u2029'' else [c]) x)"

definition genProps :: "(jstr \<times> jstr) list \<Rightarrow> jstr" where
  "genProps props = butlast (concat (map (\<lambda>(n, v). 34 # n @ [34, 58] @ transformSpecialNewlines v @ [44]) props))"

fun genText :: "child \<Rightarrow> jstr" where
  "genText (Expr e x) = js ''_v('' @ e @ js '')''"
| "genText (TextNode x) = js ''_v('' @ transformSpecialNewlines (jsonString x) @ js '')''"
| "genText (Child i) = []"

section \<open>Children\<close>

definition needsNormalization :: "elem \<Rightarrow> bool" where
  "needsNormalization el \<longleftrightarrow> e_for el \<noteq> None \<or> e_tag el = js ''template'' \<or> e_tag el = js ''slot''"

definition someBlock :: "(elem \<Rightarrow> bool) \<Rightarrow> elem list \<Rightarrow> nat \<Rightarrow> bool" where
  "someBlock P es i \<longleftrightarrow> P (es ! i) \<or> list_ex (\<lambda>c. P (es ! snd c)) (e_ifConditions (es ! i))"

fun normalizationType :: "(jstr \<Rightarrow> bool) \<Rightarrow> elem list \<Rightarrow> child list \<Rightarrow> nat \<Rightarrow> nat" where
  "normalizationType reserved es [] res = res"
| "normalizationType reserved es (Child i # cs) res =
     (if someBlock needsNormalization es i then 2
      else normalizationType reserved es cs (if someBlock (\<lambda>el. \<not> reserved (e_tag el)) es i then 1 else res))"
| "normalizationType reserved es (c # cs) res = normalizationType reserved es cs res"

definition getNormalizationType :: "(jstr \<Rightarrow> bool) \<Rightarrow> elem list \<Rightarrow> child list \<Rightarrow> nat" where
  "getNormalizationType reserved es cs = normalizationType reserved es cs 0"

fun genNode :: "(task \<Rightarrow> jstr run) \<Rightarrow> child \<Rightarrow> jstr run" where
  "genNode rec (Child i) = rec (GElem i)"
| "genNode rec c = ret (genText c)"

text \<open>The only child, when it is an element with a loop of its own.\<close>

definition singleLoop :: "elem list \<Rightarrow> child list \<Rightarrow> nat option" where
  "singleLoop es cs =
     (case cs of
        [Child j] \<Rightarrow>
          if truthy (e_for (es ! j)) \<and> e_tag (es ! j) \<noteq> js ''template'' \<and> e_tag (es ! j) \<noteq> js ''slot'' then Some j else None
      | _ \<Rightarrow> None)"

definition genChildren :: "copts \<Rightarrow> (task \<Rightarrow> jstr run) \<Rightarrow> bool \<Rightarrow> nat \<Rightarrow> jstr option run" where
  "genChildren opt rec checkSkip i =
     (\<lambda>g. let cs = e_children (g_elems g ! i)
          in if cs = [] then ret None g
             else (case singleLoop (g_elems g) cs of
                     Some j \<Rightarrow> andThen (rec (GElem j)) (\<lambda>x. ret (Some x)) g
                   | None \<Rightarrow>
                       (let t = (if checkSkip then getNormalizationType (o_isReservedTag opt) (g_elems g) cs else 0)
                        in andThen (mapRun (genNode rec) cs)
                             (\<lambda>xs. ret (Some (js ''['' @ join (js '','') xs @ js '']''
                                             @ (if t = 0 then [] else 44 # decimal t)))) g)))"

definition orVoid :: "jstr option \<Rightarrow> jstr" where
  "orVoid x = (if truthy x then the x else js ''void 0'')"

definition comma :: "jstr option \<Rightarrow> jstr" where
  "comma x = (if truthy x then 44 # the x else [])"

section \<open>Data\<close>

definition genScopedSlot :: "copts \<Rightarrow> (task \<Rightarrow> jstr run) \<Rightarrow> jstr \<times> nat \<Rightarrow> jstr run" where
  "genScopedSlot opt rec p =
     (case p of
        (key, i) \<Rightarrow>
          withElem i (\<lambda>el.
            andThen (if e_tag el = js ''template'' then andThen (genChildren opt rec False i) (\<lambda>x. ret (orVoid x))
                     else rec (GElem i))
              (\<lambda>body. ret (js ''['' @ key @ js '',function(''
                 @ (case map_of (e_attrsMap el) (js ''scope'') of Some v \<Rightarrow> v | None \<Rightarrow> js ''undefined'')
                 @ js ''){return '' @ body @ js ''}]''))))"

definition genScopedSlots :: "copts \<Rightarrow> (task \<Rightarrow> jstr run) \<Rightarrow> (jstr \<times> nat) list \<Rightarrow> jstr run" where
  "genScopedSlots opt rec slots =
     andThen (mapRun (genScopedSlot opt rec) (ownOrder fst slots))
       (\<lambda>xs. ret (js ''scopedSlots:_u(['' @ join (js '','') xs @ js ''])''))"

definition renderFn :: "jstr \<Rightarrow> jstr" where
  "renderFn x = js ''with(this){return '' @ x @ js ''}''"

text \<open>A nested \<open>generate\<close> has its own functions and counter.\<close>

definition nestedGenerate :: "(task \<Rightarrow> jstr run) \<Rightarrow> nat \<Rightarrow> (jstr \<times> jstr list) run" where
  "nestedGenerate rec i =
     (\<lambda>g. case rec (GElem i) (g \<lparr> g_fns := [], g_once := 0 \<rparr>) of
            Inl e \<Rightarrow> Inl e
          | Inr (x, g1) \<Rightarrow> Inr ((renderFn x, g_fns g1), g1 \<lparr> g_fns := g_fns g, g_once := g_once g \<rparr>))"

definition genInlineTemplate :: "(task \<Rightarrow> jstr run) \<Rightarrow> nat \<Rightarrow> jstr option run" where
  "genInlineTemplate rec i =
     withElem i (\<lambda>el.
       case e_children el of
         [] \<Rightarrow> (\<lambda>g. Inl TypeError)
       | Child j # _ \<Rightarrow>
           andThen (nestedGenerate rec j)
             (\<lambda>(render, fns). ret (Some (js ''inlineTemplate:{render:function(){'' @ render @ js ''},staticRenderFns:[''
                @ join (js '','') (map (\<lambda>x. js ''function(){'' @ x @ js ''}'') fns) @ js '']}'')))
       | _ \<Rightarrow> ret None)"

definition field :: "string \<Rightarrow> jstr option \<Rightarrow> jstr" where
  "field name v = (if truthy v then js name @ the v @ [44] else [])"

definition flag :: "bool \<Rightarrow> string \<Rightarrow> jstr" where
  "flag b x = (if b then js x else [])"

text \<open>The modules: \<open>genData$1\<close> and \<open>genData$2\<close>.\<close>

definition genClassData :: "elem \<Rightarrow> jstr" where
  "genClassData el = field ''staticClass:'' (e_staticClass el) @ field ''class:'' (e_classBinding el)"

definition genStyleData :: "elem \<Rightarrow> jstr" where
  "genStyleData el =
     field ''staticStyle:'' (e_staticStyle el)
     @ (if truthy (e_styleBinding el) then js ''style:('' @ the (e_styleBinding el) @ js ''),'' else [])"

definition plainData :: "(jstr \<Rightarrow> jstr) \<Rightarrow> elem \<Rightarrow> jstr" where
  "plainData ft el =
     field ''key:'' (e_key el) @ field ''ref:'' (e_ref el) @ flag (e_refInFor el) ''refInFor:true,''
     @ flag (e_pre el) ''pre:true,''
     @ (if truthy (e_component el) then js ''tag:'' @ 34 # e_tag el @ [34, 44] else [])
     @ genClassData el @ genStyleData el
     @ (if e_attrs el = [] then [] else js ''attrs:{'' @ genProps (e_attrs el) @ js ''},'')
     @ (if e_props el = [] then [] else js ''domProps:{'' @ genProps (e_props el) @ js ''},'')
     @ (if e_events el = [] then [] else genHandlers ft (e_events el) False @ [44])
     @ (if e_nativeEvents el = [] then [] else genHandlers ft (e_nativeEvents el) True @ [44])
     @ field ''slot:'' (e_slotTarget el)"

definition modelData :: "elem \<Rightarrow> jstr" where
  "modelData el =
     (case e_model el of
        None \<Rightarrow> []
      | Some (v, callback, expression) \<Rightarrow>
          js ''model:{value:'' @ v @ js '',callback:'' @ callback @ js '',expression:'' @ expression @ js ''},'')"

definition dropComma :: "jstr \<Rightarrow> jstr" where
  "dropComma x = (if x \<noteq> [] \<and> List.last x = 44 then butlast x else x)"

definition wrapData :: "elem \<Rightarrow> jstr \<Rightarrow> jstr" where
  "wrapData el x =
     (case e_wrapData el of
        None \<Rightarrow> x
      | Some (v, prop) \<Rightarrow>
          js ''_b('' @ x @ js '','' @ 39 # e_tag el @ 39 # 44 # v @ flag prop '',true'' @ js '')'')"

definition genData :: "copts \<Rightarrow> (task \<Rightarrow> jstr run) \<Rightarrow> nat \<Rightarrow> jstr run" where
  "genData opt rec i =
     withElem i (\<lambda>el0.
       case genDirectives (o_isReservedTag opt) el0 of None \<Rightarrow> (\<lambda>g. Inl TypeError) | Some (el1, dirs) \<Rightarrow>
       let start = 123 # field '''' dirs @ plainData (o_functionText opt) el1
       in andThen (changeElem i (\<lambda>_. el1)) (\<lambda>_.
            andThen (if e_scopedSlots el1 = [] then ret []
                     else andThen (genScopedSlots opt rec (e_scopedSlots el1)) (\<lambda>x. ret (x @ [44]))) (\<lambda>slots.
              andThen (if e_inlineTemplate el1 then genInlineTemplate rec i else ret None) (\<lambda>inline.
                ret (wrapData el1 (dropComma (start @ slots @ modelData el1 @ field '''' inline) @ [125]))))))"

section \<open>Elements\<close>

definition genStatic :: "(task \<Rightarrow> jstr run) \<Rightarrow> nat \<Rightarrow> jstr run" where
  "genStatic rec i =
     andThen (changeElem i (\<lambda>el. el \<lparr> e_staticProcessed := True \<rparr>)) (\<lambda>_.
       andThen (rec (GElem i)) (\<lambda>x g.
         Inr (js ''_m('' @ decimal (length (g_fns g)) @ flag (e_staticInFor (g_elems g ! i)) '',true'' @ js '')'',
              g \<lparr> g_fns := g_fns g @ [renderFn x] \<rparr>)))"

definition genTernaryExp :: "(task \<Rightarrow> jstr run) \<Rightarrow> nat \<Rightarrow> jstr run" where
  "genTernaryExp rec i = withElem i (\<lambda>el. rec (if e_once el then GOnce i else GElem i))"

fun genIfConditions :: "(task \<Rightarrow> jstr run) \<Rightarrow> (jstr option \<times> nat) list \<Rightarrow> jstr run" where
  "genIfConditions rec [] = ret (js ''_e()'')"
| "genIfConditions rec ((exp, i) # cs) =
     (if truthy exp
      then andThen (genTernaryExp rec i) (\<lambda>x. andThen (genIfConditions rec cs)
             (\<lambda>y. ret (js ''('' @ the exp @ js '')?'' @ x @ js '':'' @ y)))
      else genTernaryExp rec i)"

definition genIf :: "(task \<Rightarrow> jstr run) \<Rightarrow> nat \<Rightarrow> jstr run" where
  "genIf rec i =
     andThen (changeElem i (\<lambda>el. el \<lparr> e_ifProcessed := True \<rparr>)) (\<lambda>_.
       withElem i (\<lambda>el. genIfConditions rec (e_ifConditions el)))"

definition genFor :: "(task \<Rightarrow> jstr run) \<Rightarrow> nat \<Rightarrow> jstr run" where
  "genFor rec i =
     withElem i (\<lambda>el.
       andThen (changeElem i (\<lambda>el. el \<lparr> e_forProcessed := True \<rparr>)) (\<lambda>_.
         andThen (rec (GElem i)) (\<lambda>x.
           ret (js ''_l(('' @ the (e_for el) @ js ''),function(''
                @ (case e_alias el of Some a \<Rightarrow> a | None \<Rightarrow> js ''undefined'')
                @ comma (e_iterator1 el) @ comma (e_iterator2 el) @ js ''){return '' @ x @ js ''})''))))"

text \<open>The key of the closest loop around an element.\<close>

function forKey :: "elem list \<Rightarrow> nat option \<Rightarrow> jstr option" where
  "forKey es p =
     (case p of
        None \<Rightarrow> None
      | Some i \<Rightarrow>
          if length es \<le> i then None
          else if truthy (e_for (es ! i)) then e_key (es ! i) else forKey (take i es) (e_parent (es ! i)))"
  by pat_completeness auto
termination by (relation "measure (\<lambda>(es, p). length es)") auto

declare forKey.simps [simp del]

definition genOnce :: "(task \<Rightarrow> jstr run) \<Rightarrow> nat \<Rightarrow> jstr run" where
  "genOnce rec i =
     andThen (changeElem i (\<lambda>el. el \<lparr> e_onceProcessed := True \<rparr>)) (\<lambda>_ g.
       let el = g_elems g ! i; key = forKey (g_elems g) (e_parent el)
       in if truthy (e_if el) \<and> \<not> e_ifProcessed el then genIf rec i g
          else if e_staticInFor el then
            (if truthy key then
               andThen (rec (GElem i)) (\<lambda>x g1.
                 Inr (js ''_o('' @ x @ js '','' @ decimal (g_once g1) @ js '','' @ the key @ js '')'',
                      g1 \<lparr> g_once := Suc (g_once g1) \<rparr>)) g
             else rec (GElem i) g)
          else genStatic rec i g)"

definition genSlot :: "copts \<Rightarrow> (task \<Rightarrow> jstr run) \<Rightarrow> nat \<Rightarrow> jstr run" where
  "genSlot opt rec i =
     andThen (genChildren opt rec False i) (\<lambda>children.
       withElem i (\<lambda>el.
         let attrs = (if e_attrs el = [] then None
                      else Some (js ''{'' @ join (js '','') (map (\<lambda>(n, v). camelize n @ 58 # v) (e_attrs el)) @ js ''}''));
             binding = map_of (e_attrsMap el) (js ''v-bind'')
         in ret (js ''_t('' @ orElse (e_slotName el) defaultSlot @ comma children
                 @ flag ((attrs \<noteq> None \<or> truthy binding) \<and> \<not> truthy children) '',null''
                 @ comma attrs
                 @ (if truthy binding then flag (attrs = None) '',null'' @ comma binding else [])
                 @ js '')'')))"

definition genComponent :: "copts \<Rightarrow> (task \<Rightarrow> jstr run) \<Rightarrow> jstr \<Rightarrow> nat \<Rightarrow> jstr run" where
  "genComponent opt rec componentName i =
     withElem i (\<lambda>el.
       andThen (if e_inlineTemplate el then ret None else genChildren opt rec True i) (\<lambda>children.
         andThen (genData opt rec i) (\<lambda>x.
           ret (js ''_c('' @ componentName @ 44 # x @ comma children @ js '')''))))"

definition genPlain :: "copts \<Rightarrow> (task \<Rightarrow> jstr run) \<Rightarrow> nat \<Rightarrow> jstr run" where
  "genPlain opt rec i =
     withElem i (\<lambda>el.
       andThen (if e_plain el then ret None else andThen (genData opt rec i) (\<lambda>x. ret (Some x))) (\<lambda>x.
         andThen (if e_inlineTemplate el then ret None else genChildren opt rec True i) (\<lambda>children.
           ret (js ''_c('' @ 39 # e_tag el @ 39 # comma x @ comma children @ js '')''))))"

definition genElement :: "copts \<Rightarrow> (task \<Rightarrow> jstr run) \<Rightarrow> nat \<Rightarrow> jstr run" where
  "genElement opt rec i =
     withElem i (\<lambda>el.
       if e_staticRoot el \<and> \<not> e_staticProcessed el then genStatic rec i
       else if e_once el \<and> \<not> e_onceProcessed el then rec (GOnce i)
       else if truthy (e_for el) \<and> \<not> e_forProcessed el then genFor rec i
       else if truthy (e_if el) \<and> \<not> e_ifProcessed el then genIf rec i
       else if e_tag el = js ''template'' \<and> \<not> truthy (e_slotTarget el)
       then andThen (genChildren opt rec False i) (\<lambda>x. ret (orVoid x))
       else if e_tag el = js ''slot'' then genSlot opt rec i
       else if truthy (e_component el) then genComponent opt rec (the (e_component el)) i
       else genPlain opt rec i)"

fun genRun :: "copts \<Rightarrow> nat \<Rightarrow> task \<Rightarrow> jstr run" where
  "genRun opt 0 t = (\<lambda>g. Inl NoFuel)"
| "genRun opt (Suc n) t =
     (case t of GElem i \<Rightarrow> genElement opt (genRun opt n) i | GOnce i \<Rightarrow> genOnce (genRun opt n) i)"

text \<open>Ten calls for every element are enough, as \<open>VueCodegenFacts\<close> shows.\<close>

definition generate :: "copts \<Rightarrow> nat option \<Rightarrow> elem list \<Rightarrow> gerror + (jstr \<times> jstr list)" where
  "generate opt root es =
     (case root of
        None \<Rightarrow> Inr (renderFn (js ''_c('' @ 34 # js ''div'' @ 34 # js '')''), [])
      | Some r \<Rightarrow>
          (case genRun opt (10 * length es + 10) (GElem r) \<lparr> g_elems = es, g_fns = [], g_once = 0 \<rparr> of
             Inl e \<Rightarrow> Inl e
           | Inr (x, g) \<Rightarrow> Inr (renderFn x, g_fns g)))"

text \<open>\<open>baseCompile\<close>: the parser, the optimizer and the code generation. \<open>None\<close> is an error of the parser.\<close>

definition baseCompile :: "copts \<Rightarrow> jstr \<Rightarrow> (gerror + (jstr \<times> jstr list)) option" where
  "baseCompile opt template =
     (case parseTemplate opt (trim template) of
        None \<Rightarrow> None
      | Some s \<Rightarrow> Some (generate opt (a_root s) (a_elems (optimize opt s))))"

end
