(* ===== verification/VueOptimizerFacts.thy ===== *)
theory VueOptimizerFacts
  imports VueOptimizer "HOL-Library.Code_Target_Nat"
begin

text \<open>
  What the optimizer marks: the elements it visits are static exactly when nothing dynamic can be reached
  from them, and only such elements become static roots.
\<close>

section \<open>Reachable elements\<close>

text \<open>\<open>looks es i j\<close>: the optimizer looks at the element \<open>j\<close> when it marks the element \<open>i\<close>.\<close>

inductive looks :: "(jstr \<Rightarrow> bool) \<Rightarrow> elem list \<Rightarrow> nat \<Rightarrow> nat \<Rightarrow> bool" for reserved es where
  looks_refl: "looks reserved es i i"
| looks_child: "\<not> slotContent reserved (es ! i) \<Longrightarrow> Child j \<in> set (e_children (es ! i)) \<Longrightarrow> looks reserved es j k \<Longrightarrow>
    looks reserved es i k"

text \<open>The element is dynamic by itself or has an interpolated text.\<close>

definition ownDynamic :: "(jstr \<Rightarrow> bool) \<Rightarrow> elem list \<Rightarrow> nat \<Rightarrow> bool" where
  "ownDynamic reserved es i \<longleftrightarrow>
     \<not> isStatic reserved es (es ! i)
     \<or> \<not> slotContent reserved (es ! i) \<and> (\<exists>e x. Expr e x \<in> set (e_children (es ! i)))"

definition dynamic :: "(jstr \<Rightarrow> bool) \<Rightarrow> elem list \<Rightarrow> nat \<Rightarrow> bool" where
  "dynamic reserved es i \<longleftrightarrow> (\<exists>j. looks reserved es i j \<and> ownDynamic reserved es j)"

lemma dynamic_step:
  "dynamic reserved es i \<longleftrightarrow>
     ownDynamic reserved es i
     \<or> \<not> slotContent reserved (es ! i) \<and> (\<exists>j. Child j \<in> set (e_children (es ! i)) \<and> dynamic reserved es j)"
  unfolding dynamic_def by (subst looks.simps) blast

lemma looks_step:
  "looks reserved es i k \<longleftrightarrow>
     i = k \<or> \<not> slotContent reserved (es ! i) \<and> (\<exists>j. Child j \<in> set (e_children (es ! i)) \<and> looks reserved es j k)"
  by (subst looks.simps) blast

lemma Child_kids: "Child j \<in> set cs \<longleftrightarrow> j \<in> set (kids cs)"
  by (induction cs rule: kids.induct) auto

section \<open>Stores that differ in the flags\<close>

definition unmarked :: "elem \<Rightarrow> elem" where
  "unmarked el = el \<lparr> e_static := False \<rparr>"

definition agree :: "elem list \<Rightarrow> elem list \<Rightarrow> bool" where
  "agree es es' \<longleftrightarrow> map unmarked es = map unmarked es'"

lemma agree_refl [simp]: "agree es es"
  by (simp add: agree_def)

lemma agree_trans: "agree es es1 \<Longrightarrow> agree es1 es2 \<Longrightarrow> agree es es2"
  by (simp add: agree_def)

lemma agree_length: "agree es es' \<Longrightarrow> length es' = length es"
  unfolding agree_def by (metis length_map)

lemma agree_at: "agree es es' \<Longrightarrow> i < length es \<Longrightarrow> unmarked (es' ! i) = unmarked (es ! i)"
  unfolding agree_def by (metis length_map nth_map)

lemma unmarked_eq:
  assumes "unmarked a = unmarked b"
  shows "e_children a = e_children b" "e_tag a = e_tag b" "e_for a = e_for b" "e_parent a = e_parent b"
    "slotContent reserved a = slotContent reserved b" "isStatic reserved es a = isStatic reserved es b"
proof -
  obtain x where "b = a \<lparr> e_static := x \<rparr>"
    using assms unfolding unmarked_def by (cases a; cases b) auto
  then show "e_children a = e_children b" "e_tag a = e_tag b" "e_for a = e_for b" "e_parent a = e_parent b"
    "slotContent reserved a = slotContent reserved b" "isStatic reserved es a = isStatic reserved es b"
    by (simp_all add: slotContent_def isStatic_def isDirectChildOfTemplateFor_def elemKeys_def)
qed

lemma agree_take: "agree es es' \<Longrightarrow> agree (take i es) (take i es')"
  unfolding agree_def by (metis take_map)

lemma childOfTemplateFor_simps:
  "childOfTemplateFor es None = False"
  "length es \<le> i \<Longrightarrow> childOfTemplateFor es (Some i) = False"
  "i < length es \<Longrightarrow> childOfTemplateFor es (Some i) \<longleftrightarrow>
     e_tag (es ! i) = js ''template'' \<and> (truthy (e_for (es ! i)) \<or> childOfTemplateFor (take i es) (e_parent (es ! i)))"
  by (subst childOfTemplateFor.simps, simp)+

lemma childOfTemplateFor_agree: "agree es es' \<Longrightarrow> childOfTemplateFor es' p = childOfTemplateFor es p"
proof (induction "length es" arbitrary: es es' p rule: less_induct)
  case less
  show ?case
  proof (cases "\<exists>i. p = Some i \<and> i < length es")
    case False
    then show ?thesis using agree_length [OF less(2)] by (cases p) (auto simp: childOfTemplateFor_simps)
  next
    case True
    then obtain i where i: "p = Some i" "i < length es" by blast
    note eqs = unmarked_eq [OF agree_at [OF less(2) i(2)]]
    have "childOfTemplateFor (take i es') (e_parent (es ! i)) = childOfTemplateFor (take i es) (e_parent (es ! i))"
      by (rule less(1) [OF _ agree_take [OF less(2)]]) (simp add: i)
    then show ?thesis using i agree_length [OF less(2)] by (simp add: childOfTemplateFor_simps eqs)
  qed
qed

lemma isStatic_agree: "agree es es' \<Longrightarrow> isStatic reserved es' el = isStatic reserved es el"
  by (simp add: isStatic_def isDirectChildOfTemplateFor_def childOfTemplateFor_agree)

lemma agree_setStatic: "agree es (setStatic b i es)"
proof -
  have "unmarked ((es ! i) \<lparr> e_static := b \<rparr>) = unmarked (es ! i)" by (simp add: unmarked_def)
  then show ?thesis
    unfolding agree_def setStatic_def map_update by (metis list_update_id map_update)
qed

section \<open>Marking\<close>

text \<open>What marking an element must give: the flags of the elements looked at, and nothing else changes.\<close>

definition marks :: "(jstr \<Rightarrow> bool) \<Rightarrow> elem list \<Rightarrow> (nat \<Rightarrow> bool) \<Rightarrow> elem list \<Rightarrow> elem list \<Rightarrow> bool" where
  "marks reserved es L es1 es2 \<longleftrightarrow>
     agree es es2
     \<and> (\<forall>k < length es. e_static (es2 ! k) = (if L k then \<not> dynamic reserved es k else e_static (es1 ! k)))"

lemma tree_kid:
  assumes "tree_ok es" "i < length es" "Child j \<in> set (e_children (es ! i))"
  shows "i < j" "j < length es"
proof -
  have "linked es i" using assms(1, 2) by (simp add: tree_ok_def)
  then show "i < j" "j < length es" using assms(3) unfolding linked_def Child_kids by blast+
qed

lemma looks_younger:
  assumes "tree_ok es" "looks reserved es i k"
  shows "i < length es \<Longrightarrow> i \<le> k \<and> k < length es"
  using assms(2)
proof (induction rule: looks.induct)
  case (looks_child i j k)
  then have "i < j" "j < length es" using tree_kid [OF assms(1)] by blast+
  then show ?case using looks_child.IH by simp
qed simp

lemma markStatic_marks:
  assumes "tree_ok es"
  shows "agree es es1 \<Longrightarrow> i < length es \<Longrightarrow> length es \<le> n + i \<Longrightarrow>
    marks reserved es (looks reserved es i) es1 (markStatic reserved n i es1)"
proof (induction n arbitrary: i es1)
  case (Suc n)
  define b where "b = isStatic reserved es (es ! i)"
  define es2 where "es2 = setStatic b i es1"
  have len: "length es1 = length es" using agree_length [OF Suc(2)] .
  note eqs = unmarked_eq [OF agree_at [OF Suc(2, 3)]]
  have ag2: "agree es es2" unfolding es2_def using Suc(2) agree_setStatic agree_trans by blast
  note eqs2 = unmarked_eq [OF agree_at [OF ag2 Suc(3)]]
  have b: "isStatic reserved es1 (es1 ! i) = b" by (simp add: b_def isStatic_agree [OF Suc(2)] eqs)
  have kid: "i < j \<and> j < length es" if "Child j \<in> set (e_children (es ! i))" for j
    using tree_kid [OF assms Suc(3) that] by simp
  have run: "markStatic reserved (Suc n) i es1 =
    (if slotContent reserved (es ! i) then es2 else fold (markChild (markStatic reserved n) i) (e_children (es ! i)) es2)"
    by (simp add: b es2_def [symmetric] eqs2)
  show ?case
  proof (cases "slotContent reserved (es ! i)")
    case True
    have "looks reserved es i k \<longleftrightarrow> k = i" for k using True by (subst looks_step) auto
    moreover have "dynamic reserved es i \<longleftrightarrow> \<not> b" using True by (subst dynamic_step) (simp add: ownDynamic_def b_def)
    ultimately show ?thesis
      using True ag2 Suc(3) len unfolding run marks_def by (auto simp: es2_def setStatic_def nth_list_update)
  next
    case False
    define L where "L cs k \<longleftrightarrow> (\<exists>j. Child j \<in> set cs \<and> looks reserved es j k)" for cs k
    define D where "D cs \<longleftrightarrow> (\<exists>e x. Expr e x \<in> set cs) \<or> (\<exists>j. Child j \<in> set cs \<and> dynamic reserved es j)" for cs
    have loop: "agree es (fold (markChild (markStatic reserved n) i) cs es3)
        \<and> (\<forall>k < length es. e_static (fold (markChild (markStatic reserved n) i) cs es3 ! k) =
             (if k = i then e_static (es3 ! i) \<and> \<not> D cs
              else if L cs k then \<not> dynamic reserved es k else e_static (es3 ! k)))"
      if "set cs \<subseteq> set (e_children (es ! i))" "agree es es3" for cs es3
      using that
    proof (induction cs arbitrary: es3)
      case Nil
      then show ?case by (simp add: L_def D_def)
    next
      case (Cons c cs)
      have ih: "set cs \<subseteq> set (e_children (es ! i))" using Cons(2) by simp
      have len3: "length es3 = length es" using agree_length [OF Cons(3)] .
      show ?case
      proof (cases c)
        case (TextNode x)
        then show ?thesis using Cons(1) [OF ih Cons(3)] by (simp add: L_def D_def)
      next
        case (Expr e x)
        have "agree es (setStatic False i es3)" using Cons(3) agree_setStatic agree_trans by blast
        from Cons(1) [OF ih this] show ?thesis
          using Expr Suc(3) len3 by (auto simp: L_def D_def setStatic_def nth_list_update)
      next
        case (Child j)
        define es4 where "es4 = markStatic reserved n j es3"
        have j: "i < j" "j < length es" using kid Cons(2) Child by auto
        have "length es \<le> n + j" using Suc(4) j by simp
        from Suc(1) [OF Cons(3) j(2) this]
        have m: "agree es es4" "\<And>k. k < length es \<Longrightarrow>
            e_static (es4 ! k) = (if looks reserved es j k then \<not> dynamic reserved es k else e_static (es3 ! k))"
          by (simp_all add: marks_def es4_def)
        have len4: "length es4 = length es" using agree_length [OF m(1)] .
        have stj: "e_static (es4 ! j) \<longleftrightarrow> \<not> dynamic reserved es j" using m(2) [OF j(2)] by (simp add: looks_refl)
        have "\<not> looks reserved es j i" using looks_younger [OF assms, of reserved j i] j by auto
        then have sti: "e_static (es4 ! i) = e_static (es3 ! i)" using m(2) [OF Suc(3)] by simp
        define es5 where "es5 = (if e_static (es4 ! j) then es4 else setStatic False i es4)"
        have ag5: "agree es es5" unfolding es5_def using m(1) agree_setStatic agree_trans by auto
        have st5: "e_static (es5 ! k) = (if k = i then e_static (es3 ! i) \<and> \<not> dynamic reserved es j else e_static (es4 ! k))"
          if "k < length es" for k
          using that stj sti len4 by (auto simp: es5_def setStatic_def nth_list_update)
        have "fold (markChild (markStatic reserved n) i) (c # cs) es3 = fold (markChild (markStatic reserved n) i) cs es5"
          by (simp add: Child es4_def es5_def Let_def)
        moreover have "D (c # cs) \<longleftrightarrow> dynamic reserved es j \<or> D cs" by (auto simp: D_def Child)
        moreover have "L (c # cs) k \<longleftrightarrow> looks reserved es j k \<or> L cs k" for k by (auto simp: L_def Child)
        ultimately show ?thesis using Cons(1) [OF ih ag5] st5 m(2) Suc(3) by auto
      qed
    qed
    note loop' = loop [OF subset_refl ag2]
    have di: "dynamic reserved es i \<longleftrightarrow> \<not> b \<or> D (e_children (es ! i))"
      using False by (subst dynamic_step) (auto simp: ownDynamic_def b_def D_def)
    have li: "looks reserved es i k \<longleftrightarrow> k = i \<or> L (e_children (es ! i)) k" for k
      using False by (subst looks_step) (auto simp: L_def)
    have e2: "e_static (es2 ! k) = (if k = i then b else e_static (es1 ! k))" if "k < length es" for k
      using that len by (auto simp: es2_def setStatic_def nth_list_update)
    show ?thesis using loop' di li e2 Suc(3) False unfolding run marks_def by auto
  qed
qed simp

section \<open>Static roots\<close>

text \<open>The second pass changes two flags, and makes a root only of a static element.\<close>

definition unrooted :: "elem \<Rightarrow> elem" where
  "unrooted el = el \<lparr> e_staticInFor := False, e_staticRoot := False \<rparr>"

definition roots_of :: "elem list \<Rightarrow> elem list \<Rightarrow> bool" where
  "roots_of es es' \<longleftrightarrow>
     map unrooted es' = map unrooted es
     \<and> (\<forall>k < length es. e_staticRoot (es' ! k) \<longrightarrow> e_static (es ! k) \<or> e_staticRoot (es ! k))"

lemma unrooted_eq:
  assumes "unrooted a = unrooted b"
  shows "e_children a = e_children b" "e_static a = e_static b" "e_for a = e_for b" "e_once a = e_once b"
    "links a = (fst (links b), e_children b, e_ifConditions b, e_scopedSlots b, e_if b, e_static b, e_staticRoot a)"
proof -
  obtain x y where "b = a \<lparr> e_staticInFor := x, e_staticRoot := y \<rparr>"
    using assms unfolding unrooted_def by (cases a; cases b) auto
  then show "e_children a = e_children b" "e_static a = e_static b" "e_for a = e_for b" "e_once a = e_once b"
    "links a = (fst (links b), e_children b, e_ifConditions b, e_scopedSlots b, e_if b, e_static b, e_staticRoot a)"
    by (simp_all add: links_def)
qed

lemma roots_of_refl [simp]: "roots_of es es"
  by (simp add: roots_of_def)

lemma roots_of_at: "roots_of es es' \<Longrightarrow> k < length es \<Longrightarrow> unrooted (es' ! k) = unrooted (es ! k)"
  unfolding roots_of_def by (metis length_map nth_map)

lemma roots_of_length: "roots_of es es' \<Longrightarrow> length es' = length es"
  unfolding roots_of_def by (metis length_map)

lemma roots_of_trans:
  assumes "roots_of es es1" "roots_of es1 es2"
  shows "roots_of es es2"
  using assms roots_of_length [OF assms(1)] unrooted_eq(2) [OF roots_of_at [OF assms(1)]]
  unfolding roots_of_def by auto

lemma roots_of_update:
  assumes "unrooted el = unrooted (es ! i)" "e_staticRoot el \<Longrightarrow> e_static (es ! i)"
  shows "roots_of es (es[i := el])"
proof -
  have "map unrooted (es[i := el]) = map unrooted es"
    unfolding map_update assms(1) by (metis list_update_id map_update)
  then show ?thesis using assms(2) by (cases "i < length es") (auto simp: roots_of_def nth_list_update)
qed

lemma roots_of_fold:
  "(\<And>c es. c \<in> set cs \<Longrightarrow> roots_of es (f c es)) \<Longrightarrow> roots_of es (fold f cs es)"
  by (induction cs arbitrary: es) (auto intro: roots_of_trans)

lemma rootsChild_roots: "(\<And>j es. roots_of es (f j es)) \<Longrightarrow> roots_of es (rootsChild f c es)"
  by (cases c) simp_all

lemma markStaticRoots_roots: "roots_of es (markStaticRoots n inFor i es)"
proof (induction n arbitrary: inFor i es)
  case (Suc n)
  define el1 where "el1 = (if e_static (es ! i) \<or> e_once (es ! i) then (es ! i) \<lparr> e_staticInFor := inFor \<rparr> else es ! i)"
  have u: "unrooted (el1 \<lparr> e_staticRoot := b \<rparr>) = unrooted (es ! i)" for b by (simp add: el1_def unrooted_def)
  define es1 where "es1 = es[i := el1 \<lparr> e_staticRoot := False \<rparr>]"
  have "roots_of es es1" unfolding es1_def by (rule roots_of_update [OF u]) simp
  moreover define es2 where "es2 = fold (rootsChild (markStaticRoots n (inFor \<or> truthy (e_for (es ! i))))) (e_children (es ! i)) es1"
  then have "roots_of es1 es2" using roots_of_fold rootsChild_roots Suc by metis
  moreover define es3 where "es3 = walkThroughConditionsBlocks (markStaticRoots n inFor) (e_ifConditions (es ! i)) es2"
  then have "roots_of es2 es3" unfolding walkThroughConditionsBlocks_def using roots_of_fold Suc by (simp add: roots_of_fold)
  ultimately have 3: "roots_of es es3" using roots_of_trans by blast
  have 1: "roots_of es (es[i := el1 \<lparr> e_staticRoot := True \<rparr>])" if "e_static (es ! i)"
    by (rule roots_of_update [OF u]) (rule that)
  have run: "markStaticRoots (Suc n) inFor i es =
     (if e_static (es ! i) \<and> e_children (es ! i) \<noteq> [] \<and> \<not> onlyText (e_children (es ! i))
      then es[i := el1 \<lparr> e_staticRoot := True \<rparr>] else es3)"
    by (simp add: Let_def el1_def es1_def es2_def es3_def)
  show ?case unfolding run using 1 3 by simp
qed simp

text \<open>The number of elements is enough fuel: with more, nothing else is marked.\<close>

lemma fold_frame:
  assumes "\<And>c es. c \<in> set cs \<Longrightarrow> roots_of es0 es \<Longrightarrow> f c es = g c es" "\<And>c es. roots_of es (f c es)" "roots_of es0 es"
  shows "fold f cs es = fold g cs es"
  using assms(1, 3)
proof (induction cs arbitrary: es)
  case (Cons c cs)
  have "roots_of es0 (f c es)" using Cons(3) assms(2) roots_of_trans by blast
  then show ?case using Cons by auto
qed simp

lemma markStaticRoots_fuel:
  assumes "tree_ok es0"
  shows "roots_of es0 es \<Longrightarrow> i < length es0 \<Longrightarrow> length es0 \<le> n + i \<Longrightarrow> length es0 \<le> m + i \<Longrightarrow>
    markStaticRoots n inFor i es = markStaticRoots m inFor i es"
proof (induction n arbitrary: m inFor i es)
  case (Suc n)
  then obtain m' where m: "m = Suc m'" by (cases m) auto
  define el1 where "el1 = (if e_static (es ! i) \<or> e_once (es ! i) then (es ! i) \<lparr> e_staticInFor := inFor \<rparr> else es ! i)"
  define es1 where "es1 = es[i := el1 \<lparr> e_staticRoot := False \<rparr>]"
  have u: "unrooted (el1 \<lparr> e_staticRoot := False \<rparr>) = unrooted (es ! i)" by (simp add: el1_def unrooted_def)
  have es1: "roots_of es0 es1" unfolding es1_def using roots_of_trans [OF Suc(2) roots_of_update [OF u]] by simp
  note eqs = unrooted_eq [OF roots_of_at [OF Suc(2, 3)]]
  have cond: "e_ifConditions (es ! i) = e_ifConditions (es0 ! i)" using eqs(5) by (simp add: links_def)
  have later: "i < j \<and> j < length es0 \<and> length es0 \<le> n + j \<and> length es0 \<le> m' + j"
    if "Child j \<in> set (e_children (es ! i)) \<or> (\<exists>v. (v, j) \<in> set (drop 1 (e_ifConditions (es ! i))))" for j
  proof -
    have "linked es0 i" using assms Suc(3) by (simp add: tree_ok_def)
    then have "i < j \<and> j < length es0"
      using that unfolding eqs(1) cond linked_def Child_kids by (cases "e_ifConditions (es0 ! i)") fastforce+
    then show ?thesis using Suc(4, 5) m by simp
  qed
  define cs where "cs = e_children (es ! i)"
  define b where "b \<longleftrightarrow> inFor \<or> truthy (e_for (es ! i))"
  have c: "fold (rootsChild (markStaticRoots n b)) cs es1 = fold (rootsChild (markStaticRoots m' b)) cs es1"
  proof (rule fold_frame [OF _ _ es1])
    fix x es' assume x: "x \<in> set cs" "roots_of es0 es'"
    show "rootsChild (markStaticRoots n b) x es' = rootsChild (markStaticRoots m' b) x es'"
    proof (cases x)
      case (Child j)
      then have j: "j < length es0" "length es0 \<le> n + j" "length es0 \<le> m' + j" using x(1) later by (simp_all add: cs_def)
      show ?thesis using Suc(1) [OF x(2) j] by (simp add: Child)
    qed simp_all
  qed (rule rootsChild_roots, rule markStaticRoots_roots)
  define es2 where "es2 = fold (rootsChild (markStaticRoots m' b)) cs es1"
  have es2: "roots_of es0 es2"
    unfolding es2_def using roots_of_trans [OF es1 roots_of_fold] rootsChild_roots markStaticRoots_roots by metis
  have w: "walkThroughConditionsBlocks (markStaticRoots n inFor) (e_ifConditions (es ! i)) es2
      = walkThroughConditionsBlocks (markStaticRoots m' inFor) (e_ifConditions (es ! i)) es2"
    unfolding walkThroughConditionsBlocks_def
  proof (rule fold_frame [OF _ _ es2])
    fix c es' assume "c \<in> set (drop 1 (e_ifConditions (es ! i)))" "roots_of es0 es'"
    then show "markStaticRoots n inFor (snd c) es' = markStaticRoots m' inFor (snd c) es'"
      using Suc(1) later [of "snd c"] by (metis prod.collapse)
  qed (rule markStaticRoots_roots)
  show ?case
    using c w by (simp add: m Let_def el1_def [symmetric] es1_def [symmetric] cs_def [symmetric] b_def [symmetric] es2_def [symmetric])
qed simp

section \<open>The optimizer\<close>

lemma optimize_elems:
  assumes "tame opt" "parseTemplate opt template = Some s" "a_root s = Some r"
  defines "es \<equiv> a_elems s"
  obtains es1 where "roots_of es1 (a_elems (optimize opt s))" "length es1 = length es"
    "\<And>k. k < length es \<Longrightarrow> e_static (es1 ! k) \<longleftrightarrow> looks (o_isReservedTag opt) es r k \<and> \<not> dynamic (o_isReservedTag opt) es k"
    "\<And>k. k < length es \<Longrightarrow> \<not> e_staticRoot (es1 ! k)"
proof -
  have ok: "ast_ok s" using parse_ast_ok assms(1, 2) by blast
  then have tree: "tree_ok es" and r: "r < length es" using assms(3) by (simp_all add: ast_ok_def es_def)
  have off: "\<not> e_static (es ! k) \<and> \<not> e_staticRoot (es ! k)" if "k < length es" for k
    using ok that by (simp add: ast_ok_def es_def)
  define es1 where "es1 = markStatic (o_isReservedTag opt) (length es) r es"
  have m: "marks (o_isReservedTag opt) es (looks (o_isReservedTag opt) es r) es es1"
    unfolding es1_def by (rule markStatic_marks [OF tree agree_refl r]) simp
  have len: "length es1 = length es" using m agree_length by (simp add: marks_def)
  show thesis
  proof (rule that [of es1])
    show "roots_of es1 (a_elems (optimize opt s))"
      using markStaticRoots_roots by (simp add: optimize_def assms(3) es1_def es_def)
    show "length es1 = length es" by (rule len)
    fix k assume k: "k < length es"
    show "e_static (es1 ! k) \<longleftrightarrow> looks (o_isReservedTag opt) es r k \<and> \<not> dynamic (o_isReservedTag opt) es k"
      using m k off by (simp add: marks_def)
    have "agree es es1" using m by (simp add: marks_def)
    from agree_at [OF this k] have "e_staticRoot (es1 ! k) = e_staticRoot (es ! k)"
      unfolding unmarked_def by (cases "es1 ! k"; cases "es ! k") auto
    then show "\<not> e_staticRoot (es1 ! k)" using off [OF k] by simp
  qed
qed

text \<open>
  C23. After the optimizer an element of the template is marked static exactly if the optimizer looks at it and
  nothing dynamic can be reached from it: no element with a binding, a condition, a loop, a component or
  another key that is not static, and no interpolated text.
\<close>

theorem optimize_static:
  assumes "tame opt" "parseTemplate opt template = Some s" "a_root s = Some r" "k < length (a_elems s)"
  shows "e_static (a_elems (optimize opt s) ! k) \<longleftrightarrow>
    looks (o_isReservedTag opt) (a_elems s) r k \<and> \<not> dynamic (o_isReservedTag opt) (a_elems s) k"
proof -
  obtain es1 where *: "roots_of es1 (a_elems (optimize opt s))" "length es1 = length (a_elems s)"
    "e_static (es1 ! k) \<longleftrightarrow> looks (o_isReservedTag opt) (a_elems s) r k \<and> \<not> dynamic (o_isReservedTag opt) (a_elems s) k"
    using optimize_elems [OF assms(1-3)] assms(4) by metis
  then show ?thesis using unrooted_eq(2) [OF roots_of_at [OF *(1)]] assms(4) by simp
qed

text \<open>
  C29. Only static subtrees are hoisted: from an element that is marked as a static root nothing dynamic can be
  reached.
\<close>

theorem optimize_roots:
  assumes "tame opt" "parseTemplate opt template = Some s" "k < length (a_elems s)"
    and "e_staticRoot (a_elems (optimize opt s) ! k)"
  shows "\<not> dynamic (o_isReservedTag opt) (a_elems s) k"
proof (cases "a_root s")
  case None
  then have "\<not> e_staticRoot (a_elems s ! k)"
    using parse_ast_ok [OF assms(1, 2)] assms(3) by (simp add: ast_ok_def)
  then show ?thesis using assms(4) None by (simp add: optimize_def)
next
  case (Some r)
  obtain es1 where "roots_of es1 (a_elems (optimize opt s))" "length es1 = length (a_elems s)"
    "e_static (es1 ! k) \<longleftrightarrow> looks (o_isReservedTag opt) (a_elems s) r k \<and> \<not> dynamic (o_isReservedTag opt) (a_elems s) k"
    "\<not> e_staticRoot (es1 ! k)"
    using optimize_elems [OF assms(1, 2) Some] assms(3) by metis
  then show ?thesis using assms(3, 4) by (auto simp: roots_of_def)
qed

section \<open>An example\<close>

definition hoisted :: jstr where
  "hoisted = js ''<p><b>x</b></p>''"

lemma hoisted_run:
  "map_option (\<lambda>s. (a_root s, length (a_elems s), e_staticRoot (a_elems (optimize (baseOptions id) s) ! 0)))
     (parseTemplate (baseOptions id) hoisted) = Some (Some 0, 2, True)"
  by code_simp

lemma optimize_static_witness:
  "\<exists>s. parseTemplate (baseOptions id) hoisted = Some s \<and>
     (e_static (a_elems (optimize (baseOptions id) s) ! 1) \<longleftrightarrow>
        looks isReservedTag (a_elems s) 0 1 \<and> \<not> dynamic isReservedTag (a_elems s) 1)"
proof -
  obtain s where "parseTemplate (baseOptions id) hoisted = Some s" "a_root s = Some 0" "length (a_elems s) = 2"
    using hoisted_run by auto
  then show ?thesis
    using optimize_static [OF tame_baseOptions, of id hoisted s 0 1] by (simp add: baseOptions_def)
qed

lemma optimize_roots_witness:
  "\<exists>s. parseTemplate (baseOptions id) hoisted = Some s \<and> \<not> dynamic isReservedTag (a_elems s) 0"
proof -
  obtain s where "parseTemplate (baseOptions id) hoisted = Some s" "length (a_elems s) = 2"
    "e_staticRoot (a_elems (optimize (baseOptions id) s) ! 0)"
    using hoisted_run by auto
  then show ?thesis using optimize_roots [OF tame_baseOptions, of id hoisted s 0] by (simp add: baseOptions_def)
qed

text \<open>
  The block of a \<open>v-else\<close> is not looked at by the first pass, so nothing in it is hoisted, although the second
  pass walks through it: the same subtree is a static root without the condition.
\<close>

lemma else_block_not_hoisted:
  "map_option (\<lambda>s. map e_staticRoot (a_elems (optimize (baseOptions id) s)))
     (parseTemplate (baseOptions id) (js ''<a><b v-if=x></b><p v-else><i><u>t</u></i></p></a>'')) = Some [False, False, False, False, False]"
  "map_option (\<lambda>s. map e_staticRoot (a_elems (optimize (baseOptions id) s)))
     (parseTemplate (baseOptions id) (js ''<a><b v-if=x></b><p><i><u>t</u></i></p></a>'')) = Some [False, False, True, False, False]"
  by code_simp+

end
