(* ===== verification/VueCodegenFacts.thy ===== *)
theory VueCodegenFacts
  imports VueCodegen VueOptimizerFacts
begin

text \<open>
  The code generation ends on every tree of elements: each call sets a flag of its element or goes on to a
  younger one. It can only fail at an \<open>inline-template\<close> without content and at a directive whose name finds a
  failing generator in \<open>Object.prototype\<close>.
\<close>

section \<open>What a run leaves alone\<close>

type_synonym shape =
  "nat option \<times> child list \<times> (jstr option \<times> nat) list \<times> (jstr \<times> nat) list \<times> jstr option \<times> bool \<times> directive list"

definition shape :: "elem \<Rightarrow> shape" where
  "shape el =
     (e_parent el, e_children el, e_ifConditions el, e_scopedSlots el, e_if el, e_inlineTemplate el, e_directives el)"

definition keeps :: "elem \<Rightarrow> elem \<Rightarrow> bool" where
  "keeps el el' \<longleftrightarrow>
     shape el' = shape el
     \<and> (e_staticProcessed el \<longrightarrow> e_staticProcessed el') \<and> (e_onceProcessed el \<longrightarrow> e_onceProcessed el')
     \<and> (e_forProcessed el \<longrightarrow> e_forProcessed el') \<and> (e_ifProcessed el \<longrightarrow> e_ifProcessed el')"

definition frame :: "gen \<Rightarrow> gen \<Rightarrow> bool" where
  "frame g g' \<longleftrightarrow>
     length (g_elems g') = length (g_elems g) \<and> (\<forall>k < length (g_elems g). keeps (g_elems g ! k) (g_elems g' ! k))"

lemma frame_refl [simp]: "frame g g"
  by (simp add: frame_def keeps_def)

lemma frame_trans: "frame g g1 \<Longrightarrow> frame g1 g2 \<Longrightarrow> frame g g2"
  by (simp add: frame_def keeps_def)

lemma frame_elems [simp]: "frame g (g \<lparr> g_fns := a \<rparr>)" "frame g (g \<lparr> g_once := n \<rparr>)"
  "frame g (g \<lparr> g_fns := a, g_once := n \<rparr>)"
  by (simp_all add: frame_def keeps_def)

lemma frame_length: "frame g g' \<Longrightarrow> length (g_elems g') = length (g_elems g)"
  by (simp add: frame_def)

lemma frame_shape: "frame g g' \<Longrightarrow> k < length (g_elems g) \<Longrightarrow> shape (g_elems g' ! k) = shape (g_elems g ! k)"
  by (simp add: frame_def keeps_def)

text \<open>An inline template that has no content, or a directive with a failing generator.\<close>

definition faulty :: "elem \<Rightarrow> bool" where
  "faulty el \<longleftrightarrow>
     e_inlineTemplate el \<and> e_children el = [] \<or> (\<exists>d \<in> set (e_directives el). d_name d \<in> set failingDirectives)"

definition hasFault :: "elem list \<Rightarrow> bool" where
  "hasFault es \<longleftrightarrow> (\<exists>k < length es. faulty (es ! k))"

lemma hasFault_frame: "frame g g' \<Longrightarrow> hasFault (g_elems g') = hasFault (g_elems g)"
  unfolding hasFault_def faulty_def using frame_shape [of g g'] by (auto simp: frame_length shape_def)

section \<open>Safe runs\<close>

definition safe :: "'a run \<Rightarrow> gen \<Rightarrow> bool" where
  "safe m g \<longleftrightarrow>
     (case m g of
        Inl NoFuel \<Rightarrow> False
      | Inl TypeError \<Rightarrow> hasFault (g_elems g)
      | Inr (x, g') \<Rightarrow> frame g g')"

lemma safe_ret [simp]: "safe (ret x) g"
  by (simp add: safe_def ret_def)

lemma safe_andThen:
  assumes "safe m g" "\<And>x g'. frame g g' \<Longrightarrow> safe (f x) g'"
  shows "safe (andThen m f) g"
proof (cases "m g")
  case (Inl e)
  then show ?thesis using assms(1) by (cases e) (simp_all add: safe_def andThen_def)
next
  case (Inr r)
  obtain x g1 where r: "r = (x, g1)" by fastforce
  have 1: "frame g g1" using assms(1) Inr r by (simp add: safe_def)
  have 2: "safe (f x) g1" using assms(2) 1 .
  have run: "andThen m f g = f x g1" using Inr r by (simp add: andThen_def)
  show ?thesis
  proof (cases "f x g1")
    case (Inl e)
    then show ?thesis using 2 hasFault_frame [OF 1] run by (cases e) (simp_all add: safe_def)
  next
    case (Inr q)
    then show ?thesis using 2 frame_trans [OF 1] run by (auto simp: safe_def)
  qed
qed

lemma safe_withElem: "safe (f (g_elems g ! i)) g \<Longrightarrow> safe (withElem i f) g"
  by (simp add: safe_def withElem_def)

lemma safe_cong: "m g = m' g \<Longrightarrow> safe m' g \<Longrightarrow> safe m g"
  by (simp add: safe_def)

lemma frame_change: "keeps (g_elems g ! i) (f (g_elems g ! i)) \<Longrightarrow> frame g (g \<lparr> g_elems := (g_elems g)[i := f (g_elems g ! i)] \<rparr>)"
  by (cases "i < length (g_elems g)") (auto simp: frame_def nth_list_update keeps_def)

lemma safe_changeElem: "keeps (g_elems g ! i) (f (g_elems g ! i)) \<Longrightarrow> safe (changeElem i f) g"
  by (simp add: safe_def changeElem_def frame_change)

lemma safe_mapRun:
  "(\<And>x g'. x \<in> set xs \<Longrightarrow> frame g g' \<Longrightarrow> safe (f x) g') \<Longrightarrow> safe (mapRun f xs) g"
proof (induction xs arbitrary: g)
  case (Cons x xs)
  have "safe (mapRun f xs) g'" if "frame g g'" for g'
    by (rule Cons(1)) (use Cons(2) that frame_trans in auto)
  then show ?case using Cons(2) by (auto intro!: safe_andThen)
qed simp

section \<open>The generators\<close>

text \<open>\<open>later rec g i\<close>: the recursive calls on the elements younger than \<open>i\<close> are safe.\<close>

definition later :: "(task \<Rightarrow> jstr run) \<Rightarrow> gen \<Rightarrow> nat \<Rightarrow> bool" where
  "later rec g i \<longleftrightarrow>
     (\<forall>j g'. i < j \<longrightarrow> j < length (g_elems g) \<longrightarrow> frame g g' \<longrightarrow> safe (rec (GElem j)) g' \<and> safe (rec (GOnce j)) g')"

lemma laterI: "later rec g i \<Longrightarrow> i < j \<Longrightarrow> j < length (g_elems g) \<Longrightarrow> frame g g' \<Longrightarrow> safe (rec (GElem j)) g'"
  by (simp add: later_def)

lemma later_frame: "later rec g i \<Longrightarrow> frame g g' \<Longrightarrow> i \<le> j \<Longrightarrow> later rec g' j"
  unfolding later_def using frame_length frame_trans by (metis order_le_less_trans)

definition wf_gen :: "gen \<Rightarrow> bool" where
  "wf_gen g \<longleftrightarrow> tree_ok (g_elems g)"

lemma wf_frame: assumes "frame g g'" "wf_gen g" shows "wf_gen g'"
  unfolding wf_gen_def tree_ok_def
proof (intro allI impI)
  fix i assume i: "i < length (g_elems g')"
  then have i': "i < length (g_elems g)" using frame_length [OF assms(1)] by simp
  have "linked (g_elems g) i" using assms(2) i' by (simp add: wf_gen_def tree_ok_def)
  then show "linked (g_elems g') i"
    by (subst linked_cong [OF frame_length [OF assms(1)]])
      (use frame_shape [OF assms(1)] i' in \<open>auto simp: shape_def\<close>)
qed

lemma wf_kid: "wf_gen g \<Longrightarrow> i < length (g_elems g) \<Longrightarrow> Child j \<in> set (e_children (g_elems g ! i)) \<Longrightarrow> i < j \<and> j < length (g_elems g)"
  unfolding wf_gen_def by (blast dest: tree_kid)

lemma genChildren_safe:
  assumes "wf_gen g" "i < length (g_elems g)" "later rec g i"
  shows "safe (genChildren opt rec b i) g"
proof -
  define cs where "cs = e_children (g_elems g ! i)"
  have kid: "i < j \<and> j < length (g_elems g)" if "Child j \<in> set cs" for j
    using wf_kid [OF assms(1, 2)] that by (simp add: cs_def)
  have nodes: "safe (mapRun (genNode rec) cs) g"
  proof (rule safe_mapRun)
    fix c g' assume c: "c \<in> set cs" "frame g g'"
    show "safe (genNode rec c) g'"
    proof (cases c)
      case (Child j)
      then show ?thesis using laterI [OF assms(3)] kid c by simp
    qed simp_all
  qed
  have one: "safe (rec (GElem j)) g" if "singleLoop (g_elems g) cs = Some j" for j
  proof -
    have "cs = [Child j]" using that by (auto simp: singleLoop_def split: list.splits child.splits if_splits)
    then show ?thesis using laterI [OF assms(3)] kid [of j] by simp
  qed
  define t where "t = (if b then getNormalizationType (o_isReservedTag opt) (g_elems g) cs else 0)"
  define m where "m = (if cs = [] then ret None
    else case singleLoop (g_elems g) cs of
           Some j \<Rightarrow> andThen (rec (GElem j)) (\<lambda>x. ret (Some x))
         | None \<Rightarrow> andThen (mapRun (genNode rec) cs) (\<lambda>xs. ret (Some (js ''['' @ join (js '','') xs @ js '']''
                                             @ (if t = 0 then [] else 44 # decimal t)))))"
  have "safe m g"
    unfolding m_def using nodes one by (auto intro!: safe_andThen split: option.split)
  moreover have "genChildren opt rec b i g = m g"
    unfolding genChildren_def Let_def m_def t_def cs_def by (simp split: option.split)
  ultimately show ?thesis using safe_cong by blast
qed

text \<open>The directives change neither the shape nor the flags.\<close>

definition kept :: "elem \<Rightarrow> shape \<times> bool \<times> bool \<times> bool \<times> bool" where
  "kept el = (shape el, e_staticProcessed el, e_onceProcessed el, e_forProcessed el, e_ifProcessed el)"

lemma keeps_kept: "kept el' = kept el \<Longrightarrow> keeps el el'"
  by (simp add: kept_def keeps_def)

lemma kept_getAndRemoveAttr: "getAndRemoveAttr name el = (v, el1) \<Longrightarrow> kept el1 = kept el"
  by (auto simp: getAndRemoveAttr_def kept_def shape_def split: option.splits)

lemma kept_getBindingAttr: "getBindingAttr name b el = (v, el1) \<Longrightarrow> kept el1 = kept el"
  by (auto simp: getBindingAttr_def Let_def split: prod.splits option.splits if_splits dest!: kept_getAndRemoveAttr)

lemma kept_addProp: "kept (addProp n v el) = kept el"
  by (simp add: addProp_def kept_def shape_def)

lemma kept_addHandler: "kept (addHandler n v ms i el) = kept el"
  by (simp add: addHandler_def Let_def kept_def shape_def split: prod.split option.split)

lemma kept_models:
  "kept (genSelect el v ms) = kept el" "kept (genRadioModel el v ms) = kept el"
  "kept (genDefaultModel el v ms) = kept el" "kept (genComponentModel el v ms) = kept el"
  by (auto simp: genSelect_def genRadioModel_def genDefaultModel_def genComponentModel_def Let_def kept_addHandler
      kept_addProp kept_getBindingAttr split: prod.split) (simp_all add: kept_def shape_def)

lemma kept_checkbox: "kept (genCheckboxModel el v ms) = kept el"
  unfolding genCheckboxModel_def Let_def
  by (simp add: kept_addHandler kept_addProp split: prod.split) (metis kept_getBindingAttr)

lemma kept_modelDirective: "kept (snd (modelDirective r el dir)) = kept el"
  unfolding modelDirective_def Let_def by (simp add: kept_models kept_checkbox)

lemma kept_applyDirective:
  assumes "applyDirective r el dir = Some (b, el1)"
  shows "kept el1 = kept el"
proof -
  have "kept (contentDirective x el dir) = kept el" "kept (bindDirective el dir) = kept el" for x
    by (simp_all add: contentDirective_def bindDirective_def kept_addProp) (simp add: kept_def shape_def)
  then show ?thesis
    using assms kept_modelDirective [of r el dir] by (auto simp: applyDirective_def split: if_splits)
qed

lemma kept_genDirective: "genDirective r dir p = Some q \<Longrightarrow> kept (fst q) = kept (fst p)"
  by (auto simp: genDirective_def dest: kept_applyDirective split: prod.splits option.splits)

lemma kept_directiveLoop: "directiveLoop r ds p = Some q \<Longrightarrow> kept (fst q) = kept (fst p)"
  by (induction r ds p rule: directiveLoop.induct) (auto dest: kept_genDirective split: option.splits)

lemma directiveLoop_fails: "directiveLoop r ds p = None \<Longrightarrow> \<exists>d \<in> set ds. d_name d \<in> set failingDirectives"
proof (induction r ds p rule: directiveLoop.induct)
  case (2 r d ds p)
  then show ?case
    by (cases p) (auto simp: genDirective_def applyDirective_def split: option.splits prod.splits if_splits)
qed simp

lemma genDirectives_fails: "genDirectives r el = None \<Longrightarrow> faulty el"
  using directiveLoop_fails unfolding genDirectives_def faulty_def by (auto split: option.splits)

lemma genDirectives_keeps:
  assumes "genDirectives r el = Some (el1, dirs)"
  shows "keeps el el1"
proof -
  have "kept el1 = kept el"
    using assms by (auto simp: genDirectives_def dest: kept_directiveLoop split: option.splits)
  then show ?thesis by (rule keeps_kept)
qed

lemma wf_slot: "wf_gen g \<Longrightarrow> i < length (g_elems g) \<Longrightarrow> q \<in> set (e_scopedSlots (g_elems g ! i)) \<Longrightarrow> i < snd q \<and> snd q < length (g_elems g)"
  unfolding wf_gen_def tree_ok_def linked_def by blast

lemma wf_block: "wf_gen g \<Longrightarrow> i < length (g_elems g) \<Longrightarrow> c \<in> set (e_ifConditions (g_elems g ! i)) \<Longrightarrow> i \<le> snd c \<and> snd c < length (g_elems g)"
  unfolding wf_gen_def tree_ok_def linked_def by blast

lemma genScopedSlots_safe:
  assumes "wf_gen g" "later rec g i" "\<And>q. q \<in> set slots \<Longrightarrow> i < snd q \<and> snd q < length (g_elems g)"
  shows "safe (genScopedSlots opt rec slots) g"
  unfolding genScopedSlots_def
proof (intro safe_andThen safe_mapRun safe_ret)
  fix p g' assume p: "p \<in> set (ownOrder fst slots)" "frame g g'"
  obtain key j where pj: "p = (key, j)" by fastforce
  have j: "i < j" "j < length (g_elems g)" using assms(3) [of p] p(1) pj by (auto simp: ownOrder_def)
  have "safe (rec (GElem j)) g'" using laterI [OF assms(2) j p(2)] .
  moreover have "safe (genChildren opt rec False j) g'"
  proof (rule genChildren_safe)
    show "wf_gen g'" using wf_frame [OF p(2) assms(1)] .
    show "j < length (g_elems g')" using j frame_length [OF p(2)] by simp
    show "later rec g' j" using later_frame [OF assms(2) p(2)] j by simp
  qed
  ultimately show "safe (genScopedSlot opt rec p) g'"
    by (auto simp: genScopedSlot_def pj intro!: safe_withElem safe_andThen)
qed

lemma nestedGenerate_safe:
  assumes "\<And>g'. frame g g' \<Longrightarrow> safe (rec (GElem j)) g'"
  shows "safe (nestedGenerate rec j) g"
proof -
  define g0 where "g0 = g \<lparr> g_fns := [], g_once := 0 \<rparr>"
  have 0: "frame g g0" by (simp add: g0_def)
  have "safe (rec (GElem j)) g0" using assms 0 by blast
  then show ?thesis
    using frame_trans [OF 0] frame_trans [OF _ frame_elems(3)] hasFault_frame [OF 0]
    unfolding safe_def nestedGenerate_def g0_def [symmetric] by (auto split: sum.splits gerror.splits)
qed

lemma genInlineTemplate_safe:
  assumes "wf_gen g" "i < length (g_elems g)" "later rec g i" "e_inlineTemplate (g_elems g ! i)"
  shows "safe (genInlineTemplate rec i) g"
  unfolding genInlineTemplate_def
proof (rule safe_withElem, cases "e_children (g_elems g ! i)")
  case Nil
  then have "hasFault (g_elems g)" using assms by (auto simp: hasFault_def faulty_def)
  then show "safe (case e_children (g_elems g ! i) of [] \<Rightarrow> (\<lambda>g. Inl TypeError)
    | Child j # _ \<Rightarrow> andThen (nestedGenerate rec j) (\<lambda>(render, fns). ret (Some (js ''inlineTemplate:{render:function(){'' @ render @ js ''},staticRenderFns:[''
                @ join (js '','') (map (\<lambda>x. js ''function(){'' @ x @ js ''}'') fns) @ js '']}'')))
    | _ \<Rightarrow> ret None) g"
    using Nil by (simp add: safe_def)
next
  case (Cons c cs)
  have "safe (nestedGenerate rec j) g" if "c = Child j" for j
    by (rule nestedGenerate_safe) (use wf_kid [OF assms(1, 2), of j] Cons that laterI [OF assms(3)] in auto)
  then show "safe (case e_children (g_elems g ! i) of [] \<Rightarrow> (\<lambda>g. Inl TypeError)
    | Child j # _ \<Rightarrow> andThen (nestedGenerate rec j) (\<lambda>(render, fns). ret (Some (js ''inlineTemplate:{render:function(){'' @ render @ js ''},staticRenderFns:[''
                @ join (js '','') (map (\<lambda>x. js ''function(){'' @ x @ js ''}'') fns) @ js '']}'')))
    | _ \<Rightarrow> ret None) g"
    using Cons by (auto split: child.split prod.split intro!: safe_andThen)
qed

lemma genData_safe:
  assumes "wf_gen g" "i < length (g_elems g)" "later rec g i"
  shows "safe (genData opt rec i) g"
proof (cases "genDirectives (o_isReservedTag opt) (g_elems g ! i)")
  case None
  then have "hasFault (g_elems g)" using genDirectives_fails assms(2) by (auto simp: hasFault_def)
  then show ?thesis by (simp add: safe_def genData_def withElem_def None)
next
  case (Some p)
  then obtain el1 dirs where d: "genDirectives (o_isReservedTag opt) (g_elems g ! i) = Some (el1, dirs)" by (cases p) auto
  have keeps: "keeps (g_elems g ! i) el1" using genDirectives_keeps [OF d] .
  have slots: "safe (genScopedSlots opt rec (e_scopedSlots el1)) g'" if "frame g g'" for g'
  proof (rule genScopedSlots_safe)
    show "wf_gen g'" "later rec g' i" using wf_frame [OF that assms(1)] later_frame [OF assms(3) that] by simp_all
    show "i < snd q \<and> snd q < length (g_elems g')" if "q \<in> set (e_scopedSlots el1)" for q
      using wf_slot [OF assms(1, 2)] keeps that frame_length [OF \<open>frame g g'\<close>] by (simp add: keeps_def shape_def)
  qed
  have inl: "safe (genInlineTemplate rec i) g'" if "frame g g'" "e_inlineTemplate el1" for g'
  proof (rule genInlineTemplate_safe)
    show "wf_gen g'" "later rec g' i" using wf_frame [OF that(1) assms(1)] later_frame [OF assms(3) that(1)] by simp_all
    show "i < length (g_elems g')" using assms(2) frame_length [OF that(1)] by simp
    show "e_inlineTemplate (g_elems g' ! i)"
      using frame_shape [OF that(1) assms(2)] keeps that(2) by (simp add: keeps_def shape_def)
  qed
  show ?thesis
    unfolding genData_def Let_def
    by (rule safe_withElem, simp only: d prod.case option.case, intro safe_andThen safe_changeElem safe_ret)
      (use keeps slots inl frame_trans in \<open>auto intro!: safe_andThen\<close>)
qed

definition unset :: "elem \<Rightarrow> nat" where
  "unset el = (if e_staticProcessed el then 0 else 1) + (if e_forProcessed el then 0 else 1) + (if e_ifProcessed el then 0 else 1)"

fun weight :: "gen \<Rightarrow> task \<Rightarrow> nat" where
  "weight g (GElem i) =
     10 * (length (g_elems g) - i) + 2 * unset (g_elems g ! i) + (if e_onceProcessed (g_elems g ! i) then 0 else 2)"
| "weight g (GOnce i) = 10 * (length (g_elems g) - i) + 2 * unset (g_elems g ! i) + 1"

lemma unset_mono: "keeps el el' \<Longrightarrow> unset el' \<le> unset el"
  by (auto simp: unset_def keeps_def)

lemma unset_set:
  assumes "keeps el el'"
  shows "e_staticProcessed el' \<Longrightarrow> \<not> e_staticProcessed el \<Longrightarrow> unset el' < unset el"
    "e_forProcessed el' \<Longrightarrow> \<not> e_forProcessed el \<Longrightarrow> unset el' < unset el"
    "e_ifProcessed el' \<Longrightarrow> \<not> e_ifProcessed el \<Longrightarrow> unset el' < unset el"
  using assms by (auto simp: unset_def keeps_def)

lemma frame_keeps: "frame g g' \<Longrightarrow> k < length (g_elems g) \<Longrightarrow> keeps (g_elems g ! k) (g_elems g' ! k)"
  by (simp add: frame_def)

lemma safe_change:
  assumes "keeps (g_elems g ! i) (h (g_elems g ! i))"
    and "\<And>g1. frame g g1 \<Longrightarrow> (i < length (g_elems g) \<Longrightarrow> g_elems g1 ! i = h (g_elems g ! i)) \<Longrightarrow> safe (f ()) g1"
  shows "safe (andThen (changeElem i h) f) g"
proof -
  define g1 where "g1 = g \<lparr> g_elems := (g_elems g)[i := h (g_elems g ! i)] \<rparr>"
  have 1: "frame g g1" unfolding g1_def by (rule frame_change) (rule assms(1))
  have "safe (f ()) g1" by (rule assms(2) [OF 1]) (simp add: g1_def)
  moreover have "andThen (changeElem i h) f g = f () g1" by (simp add: andThen_def changeElem_def g1_def)
  ultimately show ?thesis
    using hasFault_frame [OF 1] frame_trans [OF 1] unfolding safe_def by (auto split: sum.splits gerror.splits)
qed

lemma safe_push: "safe (\<lambda>g. Inr (h g, g \<lparr> g_fns := k g \<rparr>)) g" "safe (\<lambda>g. Inr (h g, g \<lparr> g_once := n g \<rparr>)) g"
  by (simp_all add: safe_def)

lemma genStatic_safe:
  assumes "i < length (g_elems g)"
    and "\<And>g'. frame g g' \<Longrightarrow> e_staticProcessed (g_elems g' ! i) \<Longrightarrow> safe (rec (GElem i)) g'"
  shows "safe (genStatic rec i) g"
  unfolding genStatic_def
  by (rule safe_change) (use assms in \<open>auto simp: keeps_def shape_def intro!: safe_andThen safe_push\<close>)

lemma genIfConditions_safe:
  "(\<And>c g'. c \<in> set cs \<Longrightarrow> frame g g' \<Longrightarrow> safe (rec (GElem (snd c))) g' \<and> safe (rec (GOnce (snd c))) g') \<Longrightarrow>
   safe (genIfConditions rec cs) g"
proof (induction rec cs arbitrary: g rule: genIfConditions.induct)
  case (2 rec exp i cs)
  have tern: "safe (genTernaryExp rec i) g'" if "frame g g'" for g'
    unfolding genTernaryExp_def by (rule safe_withElem) (use 2(2) [of "(exp, i)" g'] that in simp)
  have "safe (genIfConditions rec cs) g'" if "truthy exp" "frame g g'" for g'
    by (rule 2(1) [OF that(1)]) (use 2(2) frame_trans [OF that(2)] in simp)
  then show ?case using tern by (auto intro!: safe_andThen)
qed simp

lemma genIf_safe:
  assumes "wf_gen g" "i < length (g_elems g)" "later rec g i"
    and "\<And>g'. frame g g' \<Longrightarrow> e_ifProcessed (g_elems g' ! i) \<Longrightarrow> safe (rec (GElem i)) g' \<and> safe (rec (GOnce i)) g'"
  shows "safe (genIf rec i) g"
  unfolding genIf_def
proof (rule safe_change)
  show "keeps (g_elems g ! i) ((g_elems g ! i) \<lparr> e_ifProcessed := True \<rparr>)" by (simp add: keeps_def shape_def)
  fix g1 assume 1: "frame g g1" and *: "i < length (g_elems g) \<Longrightarrow> g_elems g1 ! i = (g_elems g ! i) \<lparr> e_ifProcessed := True \<rparr>"
  have at: "g_elems g1 ! i = (g_elems g ! i) \<lparr> e_ifProcessed := True \<rparr>" using * assms(2) .
  show "safe (withElem i (\<lambda>el. genIfConditions rec (e_ifConditions el))) g1"
  proof (rule safe_withElem, rule genIfConditions_safe)
    fix c g' assume c: "c \<in> set (e_ifConditions (g_elems g1 ! i))" "frame g1 g'"
    have gg: "frame g g'" using frame_trans [OF 1 c(2)] .
    have j: "i \<le> snd c" "snd c < length (g_elems g)" using wf_block [OF assms(1, 2), of c] c(1) at by simp_all
    have "e_ifProcessed (g_elems g' ! i)"
      using frame_keeps [OF c(2), of i] at assms(2) frame_length [OF 1] by (simp add: keeps_def)
    then show "safe (rec (GElem (snd c))) g' \<and> safe (rec (GOnce (snd c))) g'"
      using assms(3, 4) gg j by (cases "snd c = i") (auto simp: later_def)
  qed
qed

lemma genFor_safe:
  assumes "i < length (g_elems g)"
    and "\<And>g'. frame g g' \<Longrightarrow> e_forProcessed (g_elems g' ! i) \<Longrightarrow> safe (rec (GElem i)) g'"
  shows "safe (genFor rec i) g"
  unfolding genFor_def
  by (rule safe_withElem, rule safe_change) (use assms in \<open>auto simp: keeps_def shape_def intro!: safe_andThen\<close>)

lemma genSlot_safe: "wf_gen g \<Longrightarrow> i < length (g_elems g) \<Longrightarrow> later rec g i \<Longrightarrow> safe (genSlot opt rec i) g"
  unfolding genSlot_def Let_def by (auto intro!: safe_andThen safe_withElem genChildren_safe)

lemma later_on:
  assumes "wf_gen g" "i < length (g_elems g)" "later rec g i" "frame g g'"
  shows "wf_gen g'" "i < length (g_elems g')" "later rec g' i"
  using wf_frame [OF assms(4, 1)] later_frame [OF assms(3, 4)] assms(2) frame_length [OF assms(4)] by simp_all

lemma genComponent_safe:
  "wf_gen g \<Longrightarrow> i < length (g_elems g) \<Longrightarrow> later rec g i \<Longrightarrow> safe (genComponent opt rec name i) g"
  unfolding genComponent_def by (auto intro!: safe_andThen safe_withElem genChildren_safe genData_safe dest: later_on)

lemma genPlain_safe: "wf_gen g \<Longrightarrow> i < length (g_elems g) \<Longrightarrow> later rec g i \<Longrightarrow> safe (genPlain opt rec i) g"
  unfolding genPlain_def by (auto intro!: safe_andThen safe_withElem genChildren_safe genData_safe dest: later_on)

lemma genOnce_safe:
  assumes "wf_gen g" "i < length (g_elems g)" "later rec g i"
    and self: "\<And>g'. frame g g' \<Longrightarrow> e_onceProcessed (g_elems g' ! i) \<Longrightarrow> safe (rec (GElem i)) g'"
    and once: "\<And>g'. frame g g' \<Longrightarrow> e_onceProcessed (g_elems g' ! i) \<Longrightarrow> e_ifProcessed (g_elems g' ! i) \<Longrightarrow>
      \<not> e_ifProcessed (g_elems g ! i) \<Longrightarrow> safe (rec (GOnce i)) g'"
  shows "safe (genOnce rec i) g"
  unfolding genOnce_def
proof (rule safe_change)
  show "keeps (g_elems g ! i) ((g_elems g ! i) \<lparr> e_onceProcessed := True \<rparr>)" by (simp add: keeps_def shape_def)
  fix g1 assume 1: "frame g g1" and *: "i < length (g_elems g) \<Longrightarrow> g_elems g1 ! i = (g_elems g ! i) \<lparr> e_onceProcessed := True \<rparr>"
  have at: "g_elems g1 ! i = (g_elems g ! i) \<lparr> e_onceProcessed := True \<rparr>" using * assms(2) .
  note on = later_on [OF assms(1-3) 1]
  have set: "e_onceProcessed (g_elems g' ! i)" if "frame g1 g'" for g'
    using frame_keeps [OF that on(2)] at by (simp add: keeps_def)
  have slf: "safe (rec (GElem i)) g'" if "frame g1 g'" for g' using self frame_trans [OF 1 that] set [OF that] .
  have st: "safe (genStatic rec i) g1" by (rule genStatic_safe [OF on(2)]) (rule slf)
  have cond: "safe (genIf rec i) g1" if "\<not> e_ifProcessed (g_elems g1 ! i)"
    by (rule genIf_safe [OF on]) (use slf once frame_trans [OF 1] set that at in simp)
  define el where "el = g_elems g1 ! i"
  define key where "key = forKey (g_elems g1) (e_parent el)"
  define m where "m = (if truthy (e_if el) \<and> \<not> e_ifProcessed el then genIf rec i
          else if e_staticInFor el then
            (if truthy key then
               andThen (rec (GElem i)) (\<lambda>x g1.
                 Inr (js ''_o('' @ x @ js '','' @ decimal (g_once g1) @ js '','' @ the key @ js '')'',
                      g1 \<lparr> g_once := Suc (g_once g1) \<rparr>))
             else rec (GElem i))
          else genStatic rec i)"
  have "safe m g1"
    unfolding m_def using st cond slf by (auto simp: el_def intro!: safe_andThen safe_push)
  then show "safe (\<lambda>g. let el = g_elems g ! i; key = forKey (g_elems g) (e_parent el)
       in if truthy (e_if el) \<and> \<not> e_ifProcessed el then genIf rec i g
          else if e_staticInFor el then
            (if truthy key then
               andThen (rec (GElem i)) (\<lambda>x g1.
                 Inr (js ''_o('' @ x @ js '','' @ decimal (g_once g1) @ js '','' @ the key @ js '')'',
                      g1 \<lparr> g_once := Suc (g_once g1) \<rparr>)) g
             else rec (GElem i) g)
          else genStatic rec i g) g1"
    by (rule safe_cong [rotated]) (simp add: m_def el_def key_def Let_def)
qed

lemma genElement_safe:
  assumes "wf_gen g" "i < length (g_elems g)" "later rec g i"
    and static: "\<And>g'. frame g g' \<Longrightarrow> e_staticProcessed (g_elems g' ! i) \<Longrightarrow> \<not> e_staticProcessed (g_elems g ! i) \<Longrightarrow>
      safe (rec (GElem i)) g'"
    and once: "\<not> e_onceProcessed (g_elems g ! i) \<Longrightarrow> safe (rec (GOnce i)) g"
    and loop: "\<And>g'. frame g g' \<Longrightarrow> e_forProcessed (g_elems g' ! i) \<Longrightarrow> \<not> e_forProcessed (g_elems g ! i) \<Longrightarrow>
      safe (rec (GElem i)) g'"
    and cond: "\<And>g'. frame g g' \<Longrightarrow> e_ifProcessed (g_elems g' ! i) \<Longrightarrow> \<not> e_ifProcessed (g_elems g ! i) \<Longrightarrow>
      safe (rec (GElem i)) g' \<and> safe (rec (GOnce i)) g'"
  shows "safe (genElement opt rec i) g"
  unfolding genElement_def
  by (rule safe_withElem)
    (simp add: genStatic_safe genFor_safe genIf_safe genSlot_safe genComponent_safe genPlain_safe genChildren_safe
      safe_andThen assms once)

fun target :: "task \<Rightarrow> nat" where
  "target (GElem i) = i"
| "target (GOnce i) = i"

lemma unset_le: "unset el \<le> 3"
  by (simp add: unset_def)

lemma weight_le: "weight g t \<le> 10 * (length (g_elems g) - target t) + 8"
proof -
  have "unset el \<le> 3" for el by (rule unset_le)
  from this [of "g_elems g ! target t"] show ?thesis by (cases t) auto
qed

lemma genRun_safe:
  "wf_gen g \<Longrightarrow> target t < length (g_elems g) \<Longrightarrow> weight g t < n \<Longrightarrow> safe (genRun opt n t) g"
proof (induction n arbitrary: t g)
  case (Suc n)
  define i where "i = target t"
  have i: "i < length (g_elems g)" using Suc(3) by (simp add: i_def)
  have later: "later (genRun opt n) g i"
    unfolding later_def
  proof (intro allI impI)
    fix j g' assume j: "i < j" "j < length (g_elems g)" and f: "frame g g'"
    have "weight g' u < n" if "target u = j" for u
    proof -
      have "weight g' u \<le> 10 * (length (g_elems g) - j) + 8" using weight_le [of g' u] that frame_length [OF f] by simp
      moreover have "10 * (length (g_elems g) - i) \<le> weight g t" by (cases t) (simp_all add: i_def)
      ultimately show ?thesis using Suc(4) j by linarith
    qed
    then show "safe (genRun opt n (GElem j)) g' \<and> safe (genRun opt n (GOnce j)) g'"
      using Suc(1) [of g' "GElem j"] Suc(1) [of g' "GOnce j"] wf_frame [OF f Suc(2)] j frame_length [OF f]
      by (simp del: weight.simps)
  qed
  have again: "safe (genRun opt n u) g'" if "frame g g'" "target u = i" "weight g' u < weight g t" for g' u
    by (rule Suc(1)) (use wf_frame [OF that(1) Suc(2)] that i frame_length [OF that(1)] Suc(4) in auto)
  note mono = unset_mono [OF frame_keeps [OF _ i]] and set = unset_set [OF frame_keeps [OF _ i]]
  have once_kept: "e_onceProcessed (g_elems g ! i) \<Longrightarrow> e_onceProcessed (g_elems g' ! i)" if "frame g g'" for g'
    using frame_keeps [OF that i] by (simp add: keeps_def)
  show ?case
  proof (cases t)
    case (GElem i')
    then have t: "t = GElem i" by (simp add: i_def)
    have less: "weight g' (GElem i) < weight g t" "weight g' (GOnce i) < weight g t"
      if "frame g g'" "unset (g_elems g' ! i) < unset (g_elems g ! i)" for g'
      using that once_kept [OF that(1)] frame_length [OF that(1)] by (auto simp: t)
    have "safe (genElement opt (genRun opt n) i) g"
    proof (rule genElement_safe [OF Suc(2) i later])
      show "safe (genRun opt n (GElem i)) g'"
        if "frame g g'" "e_staticProcessed (g_elems g' ! i)" "\<not> e_staticProcessed (g_elems g ! i)" for g'
        using again less(1) set(1) that by simp
      show "safe (genRun opt n (GElem i)) g'"
        if "frame g g'" "e_forProcessed (g_elems g' ! i)" "\<not> e_forProcessed (g_elems g ! i)" for g'
        using again less(1) set(2) that by simp
      show "safe (genRun opt n (GElem i)) g' \<and> safe (genRun opt n (GOnce i)) g'"
        if "frame g g'" "e_ifProcessed (g_elems g' ! i)" "\<not> e_ifProcessed (g_elems g ! i)" for g'
        using again less set(3) that by simp
      show "safe (genRun opt n (GOnce i)) g" if "\<not> e_onceProcessed (g_elems g ! i)"
        by (rule again) (use that in \<open>simp_all add: t\<close>)
    qed
    then show ?thesis by (simp add: t)
  next
    case (GOnce i')
    then have t: "t = GOnce i" by (simp add: i_def)
    have "safe (genOnce (genRun opt n) i) g"
    proof (rule genOnce_safe [OF Suc(2) i later])
      show "safe (genRun opt n (GElem i)) g'" if "frame g g'" "e_onceProcessed (g_elems g' ! i)" for g'
        by (rule again) (use that mono [OF that(1)] frame_length [OF that(1)] in \<open>auto simp: t\<close>)
      show "safe (genRun opt n (GOnce i)) g'"
        if "frame g g'" "e_onceProcessed (g_elems g' ! i)" "e_ifProcessed (g_elems g' ! i)" "\<not> e_ifProcessed (g_elems g ! i)" for g'
        by (rule again) (use that set(3) [OF that(1)] frame_length [OF that(1)] in \<open>auto simp: t\<close>)
    qed
    then show ?thesis by (simp add: t)
  qed
qed simp

section \<open>The compiler\<close>

lemma shape_flags: "unmarked a = unmarked b \<Longrightarrow> shape a = shape b" "unrooted a = unrooted b \<Longrightarrow> shape a = shape b"
  by (cases a; cases b; simp add: unmarked_def unrooted_def shape_def)+

lemma optimize_shape:
  assumes "ast_ok s"
  shows "length (a_elems (optimize opt s)) = length (a_elems s)"
    and "k < length (a_elems s) \<Longrightarrow> shape (a_elems (optimize opt s) ! k) = shape (a_elems s ! k)"
proof -
  let ?es = "a_elems s"
  have "length (a_elems (optimize opt s)) = length ?es
    \<and> (k < length ?es \<longrightarrow> shape (a_elems (optimize opt s) ! k) = shape (?es ! k))"
  proof (cases "a_root s")
    case None
    then show ?thesis by (simp add: optimize_def)
  next
    case (Some r)
    define es1 where "es1 = markStatic (o_isReservedTag opt) (length ?es) r ?es"
    have "marks (o_isReservedTag opt) ?es (looks (o_isReservedTag opt) ?es r) ?es es1"
      unfolding es1_def by (rule markStatic_marks) (use assms Some in \<open>auto simp: ast_ok_def\<close>)
    then have 1: "agree ?es es1" by (simp add: marks_def)
    have 2: "roots_of es1 (a_elems (optimize opt s))"
      using markStaticRoots_roots by (simp add: optimize_def Some es1_def)
    show ?thesis
      using agree_length [OF 1] roots_of_length [OF 2] shape_flags(1) [OF agree_at [OF 1]] shape_flags(2) [OF roots_of_at [OF 2]]
      by simp
  qed
  then show "length (a_elems (optimize opt s)) = length ?es"
    and "k < length ?es \<Longrightarrow> shape (a_elems (optimize opt s) ! k) = shape (?es ! k)" by simp_all
qed

lemma optimize_tree: assumes "ast_ok s" shows "tree_ok (a_elems (optimize opt s))"
  unfolding tree_ok_def
proof (intro allI impI)
  note len = optimize_shape(1) [OF assms] and sh = optimize_shape(2) [OF assms]
  fix i assume "i < length (a_elems (optimize opt s))"
  then have i: "i < length (a_elems s)" by (simp add: len)
  then have "linked (a_elems s) i" using assms by (simp add: ast_ok_def tree_ok_def)
  then show "linked (a_elems (optimize opt s)) i"
    by (subst linked_cong [OF len]) (use sh [of _ opt] i in \<open>auto simp: shape_def\<close>)
qed

lemma baseCompile_runs:
  assumes "tame opt" and s: "parseTemplate opt (trim template) = Some s"
  shows "(\<exists>render fns. baseCompile opt template = Some (Inr (render, fns)))
     \<or> baseCompile opt template = Some (Inl TypeError) \<and> hasFault (a_elems s)"
proof -
  have ok: "ast_ok s" using parse_ast_ok [OF assms] .
  define es where "es = a_elems (optimize opt s)"
  have len: "length es = length (a_elems s)" using optimize_shape(1) [OF ok] by (simp add: es_def)
  have same: "hasFault es = hasFault (a_elems s)"
    using optimize_shape(2) [OF ok] unfolding hasFault_def faulty_def len by (auto simp: es_def shape_def)
  show ?thesis
  proof (cases "a_root s")
    case None
    then show ?thesis by (simp add: baseCompile_def s generate_def)
  next
    case (Some r)
    define g where "g = \<lparr> g_elems = es, g_fns = [], g_once = 0 \<rparr>"
    have r: "r < length es" using ok Some len by (simp add: ast_ok_def)
    have "safe (genRun opt (10 * length es + 10) (GElem r)) g"
    proof (rule genRun_safe)
      show "wf_gen g" using optimize_tree [OF ok] by (simp add: wf_gen_def g_def es_def)
      show "target (GElem r) < length (g_elems g)" using r by (simp add: g_def)
      show "weight g (GElem r) < 10 * length es + 10" using weight_le [of g "GElem r"] r by (simp add: g_def)
    qed
    moreover have "baseCompile opt template = Some
      (case genRun opt (10 * length es + 10) (GElem r) g of
           Inl e \<Rightarrow> Inl e
         | Inr (x, g) \<Rightarrow> Inr (renderFn x, g_fns g))"
      by (simp add: baseCompile_def s generate_def Some es_def [symmetric] g_def)
    ultimately show ?thesis
      using same by (auto simp: safe_def g_def split: sum.splits gerror.splits)
  qed
qed

text \<open>
  C12. With transforms that leave the links of the elements and the map of their attributes alone, the compiler
  ends on every template, with a render function and the functions of the static roots or with an error, and it
  raises an error only in three cases: a start tag has an attribute \<open>hasOwnProperty\<close>, an element with
  \<open>inline-template\<close> has no content, or a directive has the name of a property of \<open>Object.prototype\<close> that
  fails as a generator, as in \<open>v-valueOf\<close>.
\<close>

theorem baseCompile_returns:
  assumes "tame opt" "mapTame opt"
  shows "(\<exists>render fns. baseCompile opt template = Some (Inr (render, fns)))
    \<or> baseCompile opt template = None
      \<and> (\<exists>e \<in> set (parseHTML (o_html opt) (trim template)). ownName opt e)
    \<or> baseCompile opt template = Some (Inl TypeError)
      \<and> (\<exists>s k. parseTemplate opt (trim template) = Some s \<and> k < length (a_elems s)
               \<and> (e_inlineTemplate (a_elems s ! k) \<and> e_children (a_elems s ! k) = []
                  \<or> (\<exists>d \<in> set (e_directives (a_elems s ! k)). d_name d \<in> set failingDirectives)))"
proof (cases "parseTemplate opt (trim template)")
  case None
  then show ?thesis using parse_nested_run [OF assms(2), of "trim template"] by (auto simp: baseCompile_def)
next
  case (Some s)
  then show ?thesis using baseCompile_runs [OF assms(1) Some] unfolding hasFault_def faulty_def by blast
qed

section \<open>Examples\<close>

text \<open>An element with \<open>inline-template\<close> and no content makes the compiler raise an error.\<close>

theorem empty_inline_fails:
  "baseCompile (baseOptions decode) (js ''<p><x inline-template></x></p>'') = Some (Inl TypeError)"
  by code_simp

text \<open>So do directives with the names of methods of \<open>Object.prototype\<close>, apart from two.\<close>

lemma inherited_directives:
  "baseCompile (baseOptions decode) (js ''<p v-valueOf></p>'') = Some (Inl TypeError)"
  "baseCompile (baseOptions decode) (js ''<p v-toString></p>'')
   = Some (Inr (js ''with(this){return _c('p',{directives:[{name:\"toString\",rawName:\"v-toString\"}]})}'', []))"
  "baseCompile (baseOptions decode) (js ''<p @keyup.toString=go></p>'')
   = Some (Inr (js (''with(this){return _c('p',{on:{\"keyup\":function($event){if(!('button' in $event)&&''
       @ ''_k($event.keyCode,\"toString\",undefined))return null;function toString() { [native code] }go($event)}}})}''), []))"
  by code_simp+

lemma baseCompile_returns_witness:
  "(\<exists>render fns. baseCompile (baseOptions id) (js ''<ul><li v-for=x>{{x}}</li></ul>'') = Some (Inr (render, fns)))
   \<and> (\<exists>s k. parseTemplate (baseOptions id) (trim (js ''<p v-valueOf></p>'')) = Some s \<and> k < length (a_elems s)
           \<and> (e_inlineTemplate (a_elems s ! k) \<and> e_children (a_elems s ! k) = []
              \<or> (\<exists>d \<in> set (e_directives (a_elems s ! k)). d_name d \<in> set failingDirectives)))"
proof
  have "map_option isl (baseCompile (baseOptions id) (js ''<ul><li v-for=x>{{x}}</li></ul>'')) = Some False" by code_simp
  with baseCompile_returns [OF tame_baseOptions mapTame_baseOptions, of id "js ''<ul><li v-for=x>{{x}}</li></ul>''"]
  show "\<exists>render fns. baseCompile (baseOptions id) (js ''<ul><li v-for=x>{{x}}</li></ul>'') = Some (Inr (render, fns))"
    by (elim disjE) auto
  have "map_option isl (baseCompile (baseOptions id) (js ''<p v-valueOf></p>'')) = Some True" by code_simp
  with baseCompile_returns [OF tame_baseOptions mapTame_baseOptions, of id "js ''<p v-valueOf></p>''"]
  show "\<exists>s k. parseTemplate (baseOptions id) (trim (js ''<p v-valueOf></p>'')) = Some s \<and> k < length (a_elems s)
           \<and> (e_inlineTemplate (a_elems s ! k) \<and> e_children (a_elems s ! k) = []
              \<or> (\<exists>d \<in> set (e_directives (a_elems s ! k)). d_name d \<in> set failingDirectives))"
    by (elim disjE conjE) auto
qed

text \<open>
  The code of a template with a loop, a filter, a condition with its alternative, an event handler with
  modifiers and interpolated text.
\<close>

lemma compile_example:
  "baseCompile (baseOptions id)
     (js ''<ul><li v-for='(x, i) in xs' :id='x|f'>a{{ x }}b</li><b v-if=q @click.once.stop=go>t</b><i v-else>u</i></ul>'')
   = Some (Inr (js (''with(this){return _c('ul',[_l((xs),function(x,i){return _c('li',{attrs:{\"id\":_f(\"f\")(x)}},''
       @ ''[_v(\"a\"+_s(x)+\"b\")])}),(q)?_c('b',{on:{\"~click\":function($event){$event.stopPropagation();go($event)}}},''
       @ ''[_v(\"t\")]):_c('i',[_v(\"u\")])],2)}''), []))"
  by code_simp

end
