(* ===== verification/VueReactive.thy ===== *)
theory VueReactive
  imports VueScheduler
begin

text \<open>
  The reactivity of vue.js: observers make the properties of objects reactive, a \<open>Dep\<close> for each property
  keeps the watchers that read it, and a watcher evaluates a getter and collects the deps it touches.
  Getters are code of the application: they are programs that read properties and computed properties.
  Left out are properties with getters and setters of their own, frozen objects, where a write fails, and the
  method \<open>sort\<close>, whose order is the application's.
\<close>

section \<open>Objects, deps and watchers\<close>

text \<open>\<open>NaN\<close> is a value of its own, so the comparison of the setter is equality.\<close>

datatype val = Undefined | Null | Boolean bool | Number int | NaN | Str jstr | Ref nat

text \<open>
  A reactive property has a dep and perhaps the dep of the observer of its value, \<open>childOb\<close>. The observer of an
  object is its dep and \<open>vmCount\<close>.
\<close>

record slot =
  p_value :: val
  p_dep :: "nat option"
  p_childOb :: "nat option"
  p_configurable :: bool

datatype kind = PlainObject | ArrayObject | OtherObject

record obj =
  b_kind :: kind
  b_extensible :: bool
  b_isVue :: bool
  b_props :: "(jstr \<times> slot) list"
  b_items :: "val list"
  b_ob :: "nat option"
  b_vmCount :: nat

text \<open>
  A getter: it returns, throws, or reads a property, the elements of an array or the computed property of a
  watcher and goes on with what it got.
\<close>

datatype prog =
    Done val
  | Throw
  | Get nat jstr "val \<Rightarrow> prog"
  | Items nat "val list \<Rightarrow> prog"
  | Computed nat "val \<Rightarrow> prog"

record wobj =
  x_lazy :: bool
  x_sync :: bool
  x_user :: bool
  x_deep :: bool
  x_active :: bool
  x_dirty :: bool
  x_value :: val
  x_deps :: "nat list"
  x_newDeps :: "nat list"
  x_depIds :: "nat list"
  x_newDepIds :: "nat list"
  x_getter :: prog
  x_vm :: nat

text \<open>
  The deps are the lists of their subscribers; the ids of deps and watchers are their indices. \<open>Dep.target\<close>
  and the stack below it.
\<close>

record rs =
  r_objs :: "obj list"
  r_deps :: "nat list list"
  r_watchers :: "wobj list"
  r_target :: "nat option"
  r_targets :: "nat list"
  r_sched :: sched

datatype 'a res = OK 'a rs | Thrown rs | NoFuel

fun bindR :: "'a res \<Rightarrow> ('a \<Rightarrow> rs \<Rightarrow> 'b res) \<Rightarrow> 'b res" where
  "bindR (OK x s) f = f x s"
| "bindR (Thrown s) f = Thrown s"
| "bindR NoFuel f = NoFuel"

definition objAt :: "rs \<Rightarrow> nat \<Rightarrow> obj" where
  "objAt s o1 = r_objs s ! o1"

definition updObj :: "nat \<Rightarrow> (obj \<Rightarrow> obj) \<Rightarrow> rs \<Rightarrow> rs" where
  "updObj o1 f s = s \<lparr> r_objs := (r_objs s)[o1 := f (r_objs s ! o1)] \<rparr>"

definition updW :: "nat \<Rightarrow> (wobj \<Rightarrow> wobj) \<Rightarrow> rs \<Rightarrow> rs" where
  "updW w f s = s \<lparr> r_watchers := (r_watchers s)[w := f (r_watchers s ! w)] \<rparr>"

definition updDep :: "nat \<Rightarrow> (nat list \<Rightarrow> nat list) \<Rightarrow> rs \<Rightarrow> rs" where
  "updDep d f s = s \<lparr> r_deps := (r_deps s)[d := f (r_deps s ! d)] \<rparr>"

fun setProp :: "jstr \<Rightarrow> slot \<Rightarrow> (jstr \<times> slot) list \<Rightarrow> (jstr \<times> slot) list" where
  "setProp k v [] = [(k, v)]"
| "setProp k v ((k', v') # m) = (if k = k' then (k, v) # m else (k', v') # setProp k v m)"

section \<open>Deps\<close>

definition newDep :: "rs \<Rightarrow> nat \<times> rs" where
  "newDep s = (length (r_deps s), s \<lparr> r_deps := r_deps s @ [[]] \<rparr>)"

definition addSub :: "nat \<Rightarrow> nat \<Rightarrow> rs \<Rightarrow> rs" where
  "addSub d w = updDep d (\<lambda>subs. subs @ [w])"

definition removeSub :: "nat \<Rightarrow> nat \<Rightarrow> rs \<Rightarrow> rs" where
  "removeSub d w = updDep d (remove1 w)"

definition pushTarget :: "nat option \<Rightarrow> rs \<Rightarrow> rs" where
  "pushTarget t s =
     s \<lparr> r_target := t, r_targets := (case r_target s of Some w \<Rightarrow> w # r_targets s | None \<Rightarrow> r_targets s) \<rparr>"

definition popTarget :: "rs \<Rightarrow> rs" where
  "popTarget s =
     (case r_targets s of
        [] \<Rightarrow> s \<lparr> r_target := None \<rparr>
      | w # ws \<Rightarrow> s \<lparr> r_target := Some w, r_targets := ws \<rparr>)"

definition addDep :: "nat \<Rightarrow> nat \<Rightarrow> rs \<Rightarrow> rs" where
  "addDep w d s =
     (let x = r_watchers s ! w
      in if d \<in> set (x_newDepIds x) then s
         else (let s1 = updW w (\<lambda>y. y \<lparr> x_newDepIds := d # x_newDepIds y, x_newDeps := x_newDeps y @ [d] \<rparr>) s
               in if d \<in> set (x_depIds x) then s1 else addSub d w s1))"

definition depend :: "nat \<Rightarrow> rs \<Rightarrow> rs" where
  "depend d s = (case r_target s of None \<Rightarrow> s | Some w \<Rightarrow> addDep w d s)"

section \<open>Observers\<close>

text \<open>
  \<open>observe\<close> gives the dep of the observer of a value. The flag is \<open>observerState.shouldConvert\<close> on a client.
  An object has its observer before its properties are walked through, so the number of objects is enough fuel.
\<close>

definition observable :: "bool \<Rightarrow> obj \<Rightarrow> bool" where
  "observable convert b \<longleftrightarrow>
     convert \<and> (b_kind b = ArrayObject \<or> b_kind b = PlainObject) \<and> b_extensible b \<and> \<not> b_isVue b"

definition defineSlot :: "nat \<Rightarrow> jstr \<Rightarrow> val \<Rightarrow> nat \<Rightarrow> nat option \<Rightarrow> rs \<Rightarrow> rs" where
  "defineSlot o1 k v d c =
     updObj o1 (\<lambda>b. b \<lparr> b_props := setProp k \<lparr> p_value = v, p_dep = Some d, p_childOb = c, p_configurable = True \<rparr> (b_props b) \<rparr>)"

text \<open>\<open>defineReactive\<close>, where \<open>ob\<close> observes the value.\<close>

definition defineWith :: "(val \<Rightarrow> rs \<Rightarrow> nat option res) \<Rightarrow> nat \<Rightarrow> jstr \<Rightarrow> val \<Rightarrow> rs \<Rightarrow> unit res" where
  "defineWith ob o1 k v s =
     (case newDep s of
        (d, s1) \<Rightarrow>
          (case map_of (b_props (objAt s1 o1)) k of
             Some p \<Rightarrow>
               if \<not> p_configurable p then OK () s1
               else bindR (ob v s1) (\<lambda>c s2. OK () (defineSlot o1 k v d c s2))
           | None \<Rightarrow> bindR (ob v s1) (\<lambda>c s2. OK () (defineSlot o1 k v d c s2))))"

definition walkWith :: "(val \<Rightarrow> rs \<Rightarrow> nat option res) \<Rightarrow> nat \<Rightarrow> jstr list \<Rightarrow> rs \<Rightarrow> unit res" where
  "walkWith ob o1 ks s =
     fold (\<lambda>k r. bindR r (\<lambda>_ s1. case map_of (b_props (objAt s1 o1)) k of
             Some p \<Rightarrow> defineWith ob o1 k (p_value p) s1 | None \<Rightarrow> OK () s1)) ks (OK () s)"

definition observeArrayWith :: "(val \<Rightarrow> rs \<Rightarrow> nat option res) \<Rightarrow> val list \<Rightarrow> rs \<Rightarrow> unit res" where
  "observeArrayWith ob items s = fold (\<lambda>v r. bindR r (\<lambda>_ s1. bindR (ob v s1) (\<lambda>_ s2. OK () s2))) items (OK () s)"

fun observe :: "nat \<Rightarrow> bool \<Rightarrow> val \<Rightarrow> rs \<Rightarrow> nat option res" where
  "observe n convert v s =
     (case v of
        Ref o1 \<Rightarrow>
          (case b_ob (objAt s o1) of
             Some d \<Rightarrow> OK (Some d) s
           | None \<Rightarrow>
               if \<not> observable convert (objAt s o1) then OK None s
               else (case n of
                       0 \<Rightarrow> NoFuel
                     | Suc m \<Rightarrow>
                         (case newDep s of
                            (d, s1) \<Rightarrow>
                              (let s2 = updObj o1 (\<lambda>b. b \<lparr> b_ob := Some d, b_vmCount := 0 \<rparr>) s1;
                                   b = objAt s2 o1
                               in bindR (if b_kind b = ArrayObject then observeArrayWith (observe m convert) (b_items b) s2
                                         else walkWith (observe m convert) o1 (map fst (b_props b)) s2)
                                    (\<lambda>_ s3. OK (Some d) s3)))))
      | _ \<Rightarrow> OK None s)"

declare observe.simps [simp del]

definition observeRoot :: "nat \<Rightarrow> val \<Rightarrow> rs \<Rightarrow> nat option res" where
  "observeRoot n v s =
     bindR (observe n True v s)
       (\<lambda>c s1. case (v, c) of
          (Ref o1, Some d) \<Rightarrow> OK c (updObj o1 (\<lambda>b. b \<lparr> b_vmCount := Suc (b_vmCount b) \<rparr>) s1)
        | _ \<Rightarrow> OK c s1)"

section \<open>Reading\<close>

text \<open>
  \<open>dependArray\<close>: the deps of the observers of the elements, and of the elements of nested arrays, in order;
  an array that contains itself makes the code recurse for ever.
\<close>

fun arrayDeps :: "nat \<Rightarrow> obj list \<Rightarrow> val list \<Rightarrow> nat list option" where
  "arrayDeps n os [] = Some []"
| "arrayDeps n os (v # vs) =
     (case v of
        Ref o1 \<Rightarrow>
          (let own = (case b_ob (os ! o1) of Some d \<Rightarrow> [d] | None \<Rightarrow> [])
           in case (if b_kind (os ! o1) = ArrayObject
                    then (case n of 0 \<Rightarrow> None | Suc m \<Rightarrow> arrayDeps m os (b_items (os ! o1))) else Some []) of
                None \<Rightarrow> None
              | Some ds \<Rightarrow> map_option (\<lambda>es. own @ ds @ es) (arrayDeps n os vs))
      | _ \<Rightarrow> arrayDeps n os vs)"

text \<open>The deps that the getter of a reactive property touches.\<close>

definition touched :: "nat \<Rightarrow> obj list \<Rightarrow> slot \<Rightarrow> nat list option" where
  "touched n os p =
     (case p_dep p of
        None \<Rightarrow> Some []
      | Some d \<Rightarrow>
          map_option (\<lambda>ds. d # (case p_childOb p of Some c \<Rightarrow> [c] | None \<Rightarrow> []) @ ds)
            (case p_value p of
               Ref o1 \<Rightarrow> if b_kind (os ! o1) = ArrayObject then arrayDeps n os (b_items (os ! o1)) else Some []
             | _ \<Rightarrow> Some []))"

definition getProp :: "nat \<Rightarrow> nat \<Rightarrow> jstr \<Rightarrow> rs \<Rightarrow> val res" where
  "getProp n o1 k s =
     (if length (r_objs s) \<le> o1 then OK Undefined s
      else (case map_of (b_props (objAt s o1)) k of
              None \<Rightarrow> OK Undefined s
            | Some p \<Rightarrow>
                if r_target s = None then OK (p_value p) s
                else (case touched n (r_objs s) p of
                        None \<Rightarrow> NoFuel
                      | Some ds \<Rightarrow> OK (p_value p) (fold depend ds s))))"

text \<open>\<open>traverse\<close> reads every property below a value; the list is \<open>seenObjects\<close>.\<close>

fun traverseVal :: "nat \<Rightarrow> nat \<Rightarrow> val \<Rightarrow> nat list \<Rightarrow> rs \<Rightarrow> nat list res" where
  "traverseVal 0 m v seen s = NoFuel"
| "traverseVal (Suc n) m v seen s =
     (case v of
        Ref o1 \<Rightarrow>
          (let b = objAt s o1
           in if \<not> b_extensible b then OK seen s
              else if (case b_ob b of Some d \<Rightarrow> d \<in> set seen | None \<Rightarrow> False) then OK seen s
              else (let seen1 = (case b_ob b of Some d \<Rightarrow> d # seen | None \<Rightarrow> seen)
                    in if b_kind b = ArrayObject
                       then fold (\<lambda>i r. bindR r (\<lambda>sn s1. traverseVal n m (b_items (objAt s1 o1) ! i) sn s1))
                              (rev [0..<length (b_items b)]) (OK seen1 s)
                       else fold (\<lambda>k r. bindR r (\<lambda>sn s1. bindR (getProp m o1 k s1) (\<lambda>x s2. traverseVal n m x sn s2)))
                              (rev (map fst (b_props b))) (OK seen1 s)))
      | _ \<Rightarrow> OK seen s)"

section \<open>Watchers\<close>

definition cleanupDeps :: "nat \<Rightarrow> rs \<Rightarrow> rs" where
  "cleanupDeps w s =
     (let x = r_watchers s ! w;
          s1 = fold (\<lambda>d. if d \<in> set (x_newDepIds x) then id else removeSub d w) (rev (x_deps x)) s
      in updW w (\<lambda>y. y \<lparr> x_deps := x_newDeps y, x_newDeps := [], x_depIds := x_newDepIds y, x_newDepIds := [] \<rparr>) s1)"

text \<open>The program of a getter; \<open>call\<close> reads a computed property.\<close>

primrec runProg :: "nat \<Rightarrow> (nat \<Rightarrow> rs \<Rightarrow> val res) \<Rightarrow> prog \<Rightarrow> rs \<Rightarrow> val res" where
  "runProg n call (Done v) = (\<lambda>s. OK v s)"
| "runProg n call Throw = (\<lambda>s. Thrown s)"
| "runProg n call (Get o1 k f) = (\<lambda>s. bindR (getProp n o1 k s) (\<lambda>v s1. runProg n call (f v) s1))"
| "runProg n call (Items a f) = (\<lambda>s. runProg n call (f (if length (r_objs s) \<le> a then [] else b_items (objAt s a))) s)"
| "runProg n call (Computed c f) = (\<lambda>s. bindR (call c s) (\<lambda>v s1. runProg n call (f v) s1))"

text \<open>An exception in the getter of a watcher of the user is handled; otherwise it leaves \<open>Dep.target\<close> as it is.\<close>

definition watcherGet :: "nat \<Rightarrow> (nat \<Rightarrow> rs \<Rightarrow> val res) \<Rightarrow> nat \<Rightarrow> rs \<Rightarrow> val res" where
  "watcherGet n call w s =
     (let x = r_watchers s ! w;
          r = runProg n call (x_getter x) (pushTarget (Some w) s);
          r1 = (case r of Thrown s1 \<Rightarrow> if x_user x then OK Undefined s1 else Thrown s1 | _ \<Rightarrow> r);
          r2 = (if x_deep x then bindR r1 (\<lambda>v s1. bindR (traverseVal n n v [] s1) (\<lambda>_ s2. OK v s2)) else r1)
      in bindR r2 (\<lambda>v s2. OK v (cleanupDeps w (popTarget s2))))"

definition evaluateWith :: "nat \<Rightarrow> (nat \<Rightarrow> rs \<Rightarrow> val res) \<Rightarrow> nat \<Rightarrow> rs \<Rightarrow> unit res" where
  "evaluateWith n call w s =
     bindR (watcherGet n call w s) (\<lambda>v s1. OK () (updW w (\<lambda>y. y \<lparr> x_value := v, x_dirty := False \<rparr>) s1))"

definition watcherDepend :: "nat \<Rightarrow> rs \<Rightarrow> rs" where
  "watcherDepend w s = fold depend (rev (x_deps (r_watchers s ! w))) s"

text \<open>
  The getter of a computed property; the first number bounds the nesting of arrays, the second one the nesting
  of computed properties.
\<close>

fun computedGetter :: "nat \<Rightarrow> nat \<Rightarrow> nat \<Rightarrow> rs \<Rightarrow> val res" where
  "computedGetter a 0 w s = NoFuel"
| "computedGetter a (Suc m) w s =
     bindR (if x_dirty (r_watchers s ! w) then evaluateWith a (computedGetter a m) w s else OK () s)
       (\<lambda>_ s1. let s2 = (if r_target s1 = None then s1 else watcherDepend w s1)
               in OK (x_value (r_watchers s2 ! w)) s2)"

definition getW :: "nat \<Rightarrow> nat \<Rightarrow> nat \<Rightarrow> rs \<Rightarrow> val res" where
  "getW a n w s = watcherGet a (computedGetter a n) w s"

definition evaluate :: "nat \<Rightarrow> nat \<Rightarrow> nat \<Rightarrow> rs \<Rightarrow> unit res" where
  "evaluate a n w s = evaluateWith a (computedGetter a n) w s"

definition isObject :: "val \<Rightarrow> bool" where
  "isObject v = (case v of Ref o1 \<Rightarrow> True | _ \<Rightarrow> False)"

text \<open>\<open>run\<close>; the callback of the application, \<open>cb\<close>, gets the new and the old value.\<close>

definition runW :: "(nat \<Rightarrow> val \<Rightarrow> val \<Rightarrow> rs \<Rightarrow> rs) \<Rightarrow> nat \<Rightarrow> nat \<Rightarrow> nat \<Rightarrow> rs \<Rightarrow> unit res" where
  "runW cb m n w s =
     (if \<not> x_active (r_watchers s ! w) then OK () s
      else bindR (getW m n w s) (\<lambda>v s1.
             let x = r_watchers s1 ! w
             in if v \<noteq> x_value x \<or> v = NaN \<or> isObject v \<or> x_deep x
                then OK () (cb w v (x_value x) (updW w (\<lambda>y. y \<lparr> x_value := v \<rparr>) s1))
                else OK () s1))"

definition schedEntry :: "rs \<Rightarrow> nat \<Rightarrow> watcher" where
  "schedEntry s w = \<lparr> w_id = w, w_user = x_user (r_watchers s ! w), w_vm = x_vm (r_watchers s ! w) \<rparr>"

definition update :: "(nat \<Rightarrow> val \<Rightarrow> val \<Rightarrow> rs \<Rightarrow> rs) \<Rightarrow> nat \<Rightarrow> nat \<Rightarrow> nat \<Rightarrow> rs \<Rightarrow> unit res" where
  "update cb m n w s =
     (let x = r_watchers s ! w
      in if x_lazy x then OK () (updW w (\<lambda>y. y \<lparr> x_dirty := True \<rparr>) s)
         else if x_sync x then runW cb m n w s
         else OK () (s \<lparr> r_sched := queueWatcher (schedEntry s w) (r_sched s) \<rparr>))"

definition notify :: "(nat \<Rightarrow> val \<Rightarrow> val \<Rightarrow> rs \<Rightarrow> rs) \<Rightarrow> nat \<Rightarrow> nat \<Rightarrow> nat \<Rightarrow> rs \<Rightarrow> unit res" where
  "notify cb m n d s = fold (\<lambda>w r. bindR r (\<lambda>_ s1. update cb m n w s1)) (r_deps s ! d) (OK () s)"

text \<open>The callback of the watchers that render components.\<close>

definition noop :: "nat \<Rightarrow> val \<Rightarrow> val \<Rightarrow> rs \<Rightarrow> rs" where
  "noop w v u s = s"

definition teardown :: "nat \<Rightarrow> rs \<Rightarrow> rs" where
  "teardown w s =
     (if x_active (r_watchers s ! w)
      then updW w (\<lambda>y. y \<lparr> x_active := False \<rparr>) (fold (\<lambda>d. removeSub d w) (rev (x_deps (r_watchers s ! w))) s)
      else s)"

text \<open>\<open>new Watcher\<close> with the options in \<open>x\<close>.\<close>

definition newWatcher :: "nat \<Rightarrow> nat \<Rightarrow> wobj \<Rightarrow> rs \<Rightarrow> nat res" where
  "newWatcher m n x s =
     (let w = length (r_watchers s);
          s1 = s \<lparr> r_watchers := r_watchers s @ [x \<lparr> x_active := True, x_dirty := x_lazy x, x_value := Undefined,
                     x_deps := [], x_newDeps := [], x_depIds := [], x_newDepIds := [] \<rparr>] \<rparr>
      in if x_lazy x then OK w s1
         else bindR (getW m n w s1) (\<lambda>v s2. OK w (updW w (\<lambda>y. y \<lparr> x_value := v \<rparr>) s2)))"

section \<open>The flush\<close>

text \<open>
  \<open>flushSchedulerQueue\<close> with the watchers of the heap: the body of its loop, which says whether the loop is left
  because of a circular update, the loop, with fuel, and the whole function. An exception of a run leaves the
  flush, and the scheduler as it is. The result has the activated components and the components whose \<open>updated\<close>
  hook is called.
\<close>

definition setSched :: "(sched \<Rightarrow> sched) \<Rightarrow> rs \<Rightarrow> rs" where
  "setSched f s = s \<lparr> r_sched := f (r_sched s) \<rparr>"

definition runQueued :: "(nat \<Rightarrow> val \<Rightarrow> val \<Rightarrow> rs \<Rightarrow> rs) \<Rightarrow> nat \<Rightarrow> nat \<Rightarrow> rs \<Rightarrow> bool res" where
  "runQueued cb m n s =
     (let q = s_queue (r_sched s) ! s_index (r_sched s); i = w_id q
      in bindR (runW cb m n i (setSched (\<lambda>c. c \<lparr> s_has := (s_has c) (i := False) \<rparr>) s)) (\<lambda>_ s1.
           if s_has (r_sched s1) i then
             (let s2 = setSched (\<lambda>c. c \<lparr> s_circular := (s_circular c) (i := s_circular c i + 1) \<rparr>) s1
              in if s_circular (r_sched s2) i > MAX_UPDATE_COUNT
                 then OK True (setSched (\<lambda>c. c \<lparr> s_warnings := s_warnings c @ [q] \<rparr>) s2)
                 else OK False (setSched (\<lambda>c. c \<lparr> s_index := s_index c + 1 \<rparr>) s2))
           else OK False (setSched (\<lambda>c. c \<lparr> s_index := s_index c + 1 \<rparr>) s1)))"

fun runQueue :: "(nat \<Rightarrow> val \<Rightarrow> val \<Rightarrow> rs \<Rightarrow> rs) \<Rightarrow> nat \<Rightarrow> nat \<Rightarrow> nat \<Rightarrow> rs \<Rightarrow> unit res" where
  "runQueue cb 0 m n s = NoFuel"
| "runQueue cb (Suc fuel) m n s =
     (if s_index (r_sched s) < length (s_queue (r_sched s))
      then bindR (runQueued cb m n s) (\<lambda>circular s1. if circular then OK () s1 else runQueue cb fuel m n s1)
      else OK () s)"

definition flushQueue ::
    "(nat \<Rightarrow> val \<Rightarrow> val \<Rightarrow> rs \<Rightarrow> rs) \<Rightarrow> nat \<Rightarrow> (watcher \<Rightarrow> bool) \<Rightarrow> nat \<Rightarrow> nat \<Rightarrow> rs \<Rightarrow> (nat list \<times> nat list) res" where
  "flushQueue cb fuel renders m n s =
     bindR (runQueue cb fuel m n
              (setSched (\<lambda>c. c \<lparr> s_flushing := True, s_queue := sort_key w_id (s_queue c), s_index := 0 \<rparr>) s))
       (\<lambda>_ s1. let c = r_sched s1
               in OK (s_activated c, callUpdateHooks renders (length (s_queue c)) (s_queue c)) (setSched resetSchedulerState s1))"

section \<open>Writing\<close>

definition putSlot :: "nat \<Rightarrow> jstr \<Rightarrow> (slot \<Rightarrow> slot) \<Rightarrow> rs \<Rightarrow> rs" where
  "putSlot o1 k f =
     updObj o1 (\<lambda>b. b \<lparr> b_props := (case map_of (b_props b) k of Some p \<Rightarrow> setProp k (f p) (b_props b) | None \<Rightarrow> b_props b) \<rparr>)"

text \<open>An assignment to a property; a new property, and one that is not reactive, is only written.\<close>

definition assign :: "(nat \<Rightarrow> val \<Rightarrow> val \<Rightarrow> rs \<Rightarrow> rs) \<Rightarrow> nat \<Rightarrow> nat \<Rightarrow> nat \<Rightarrow> jstr \<Rightarrow> val \<Rightarrow> rs \<Rightarrow> unit res" where
  "assign cb m n o1 k v s =
     (case map_of (b_props (objAt s o1)) k of
        None \<Rightarrow>
          OK () (updObj o1 (\<lambda>b. b \<lparr> b_props := setProp k \<lparr> p_value = v, p_dep = None, p_childOb = None, p_configurable = True \<rparr> (b_props b) \<rparr>) s)
      | Some p \<Rightarrow>
          (case p_dep p of
             None \<Rightarrow> OK () (putSlot o1 k (\<lambda>q. q \<lparr> p_value := v \<rparr>) s)
           | Some d \<Rightarrow>
               if v = p_value p then OK () s
               else bindR (observe n True v (putSlot o1 k (\<lambda>q. q \<lparr> p_value := v \<rparr>) s))
                      (\<lambda>c s1. notify cb m n d (putSlot o1 k (\<lambda>q. q \<lparr> p_childOb := c \<rparr>) s1))))"

text \<open>The methods of arrays: the new items, those that were inserted, and the notification.\<close>

definition mutate :: "(nat \<Rightarrow> val \<Rightarrow> val \<Rightarrow> rs \<Rightarrow> rs) \<Rightarrow> nat \<Rightarrow> nat \<Rightarrow> nat \<Rightarrow> val list \<Rightarrow> val list \<Rightarrow> rs \<Rightarrow> unit res" where
  "mutate cb m n a items inserted s =
     (let s1 = updObj a (\<lambda>b. b \<lparr> b_items := items \<rparr>) s
      in case b_ob (objAt s a) of
           None \<Rightarrow> OK () s1
         | Some d \<Rightarrow> bindR (observeArrayWith (observe n True) inserted s1) (\<lambda>_ s2. notify cb m n d s2))"

definition pushM :: "(nat \<Rightarrow> val \<Rightarrow> val \<Rightarrow> rs \<Rightarrow> rs) \<Rightarrow> nat \<Rightarrow> nat \<Rightarrow> nat \<Rightarrow> val list \<Rightarrow> rs \<Rightarrow> unit res" where
  "pushM cb m n a args s = mutate cb m n a (b_items (objAt s a) @ args) args s"

definition popM :: "(nat \<Rightarrow> val \<Rightarrow> val \<Rightarrow> rs \<Rightarrow> rs) \<Rightarrow> nat \<Rightarrow> nat \<Rightarrow> nat \<Rightarrow> rs \<Rightarrow> unit res" where
  "popM cb m n a s = mutate cb m n a (butlast (b_items (objAt s a))) [] s"

definition shiftM :: "(nat \<Rightarrow> val \<Rightarrow> val \<Rightarrow> rs \<Rightarrow> rs) \<Rightarrow> nat \<Rightarrow> nat \<Rightarrow> nat \<Rightarrow> rs \<Rightarrow> unit res" where
  "shiftM cb m n a s = mutate cb m n a (tl (b_items (objAt s a))) [] s"

definition unshiftM :: "(nat \<Rightarrow> val \<Rightarrow> val \<Rightarrow> rs \<Rightarrow> rs) \<Rightarrow> nat \<Rightarrow> nat \<Rightarrow> nat \<Rightarrow> val list \<Rightarrow> rs \<Rightarrow> unit res" where
  "unshiftM cb m n a args s = mutate cb m n a (args @ b_items (objAt s a)) args s"

definition reverseM :: "(nat \<Rightarrow> val \<Rightarrow> val \<Rightarrow> rs \<Rightarrow> rs) \<Rightarrow> nat \<Rightarrow> nat \<Rightarrow> nat \<Rightarrow> rs \<Rightarrow> unit res" where
  "reverseM cb m n a s = mutate cb m n a (rev (b_items (objAt s a))) [] s"

text \<open>\<open>splice\<close> with a start that is not negative.\<close>

definition spliceM :: "(nat \<Rightarrow> val \<Rightarrow> val \<Rightarrow> rs \<Rightarrow> rs) \<Rightarrow> nat \<Rightarrow> nat \<Rightarrow> nat \<Rightarrow> nat \<Rightarrow> nat \<Rightarrow> val list \<Rightarrow> rs \<Rightarrow> unit res" where
  "spliceM cb m n a start del args s =
     (let xs = b_items (objAt s a) in mutate cb m n a (take start xs @ args @ drop (start + del) xs) args s)"

text \<open>\<open>Vue.set\<close> and \<open>Vue.delete\<close>: for an index of an array, and for a key of an object.\<close>

definition setIndex :: "(nat \<Rightarrow> val \<Rightarrow> val \<Rightarrow> rs \<Rightarrow> rs) \<Rightarrow> nat \<Rightarrow> nat \<Rightarrow> nat \<Rightarrow> nat \<Rightarrow> val \<Rightarrow> rs \<Rightarrow> unit res" where
  "setIndex cb m n a i v s =
     (let xs = b_items (objAt s a);
          s1 = updObj a (\<lambda>b. b \<lparr> b_items := xs @ replicate (i - length xs) Undefined \<rparr>) s
      in spliceM cb m n a i 1 [v] s1)"

definition setKey :: "(nat \<Rightarrow> val \<Rightarrow> val \<Rightarrow> rs \<Rightarrow> rs) \<Rightarrow> nat \<Rightarrow> nat \<Rightarrow> nat \<Rightarrow> jstr \<Rightarrow> val \<Rightarrow> rs \<Rightarrow> unit res" where
  "setKey cb m n o1 k v s =
     (let b = objAt s o1
      in if map_of (b_props b) k \<noteq> None then assign cb m n o1 k v s
         else if b_isVue b \<or> b_ob b \<noteq> None \<and> b_vmCount b \<noteq> 0 then OK () s
         else (case b_ob b of
                 None \<Rightarrow> assign cb m n o1 k v s
               | Some d \<Rightarrow> bindR (defineWith (observe n True) o1 k v s) (\<lambda>_ s1. notify cb m n d s1)))"

definition delIndex :: "(nat \<Rightarrow> val \<Rightarrow> val \<Rightarrow> rs \<Rightarrow> rs) \<Rightarrow> nat \<Rightarrow> nat \<Rightarrow> nat \<Rightarrow> nat \<Rightarrow> rs \<Rightarrow> unit res" where
  "delIndex cb m n a i s = spliceM cb m n a i 1 [] s"

definition delKey :: "(nat \<Rightarrow> val \<Rightarrow> val \<Rightarrow> rs \<Rightarrow> rs) \<Rightarrow> nat \<Rightarrow> nat \<Rightarrow> nat \<Rightarrow> jstr \<Rightarrow> rs \<Rightarrow> unit res" where
  "delKey cb m n o1 k s =
     (let b = objAt s o1
      in if b_isVue b \<or> b_ob b \<noteq> None \<and> b_vmCount b \<noteq> 0 then OK () s
         else if map_of (b_props b) k = None then OK () s
         else (let s1 = updObj o1 (\<lambda>b. b \<lparr> b_props := filter (\<lambda>(k', p). k' \<noteq> k) (b_props b) \<rparr>) s
               in case b_ob b of None \<Rightarrow> OK () s1 | Some d \<Rightarrow> notify cb m n d s1))"

end
