(* ===== verification/VueReactiveFacts.thy ===== *)
theory VueReactiveFacts
  imports VueReactive
begin

text \<open>
  What the reactivity promises: a watcher subscribes to every dep its getter touched, and after an assignment
  every watcher whose value could be stale is queued or dirty.
\<close>

section \<open>The value of a getter\<close>

primrec callsIn :: "prog \<Rightarrow> nat set" where
  "callsIn (Done v) = {}"
| "callsIn Throw = {}"
| "callsIn (Get o1 k f) = (\<Union>v. callsIn (f v))"
| "callsIn (Items a f) = (\<Union>vs. callsIn (f vs))"
| "callsIn (Computed c f) = insert c (\<Union>v. callsIn (f v))"

definition slotOf :: "obj list \<Rightarrow> nat \<Rightarrow> jstr \<Rightarrow> slot option" where
  "slotOf os o1 k = (if o1 < length os then map_of (b_props (os ! o1)) k else None)"

text \<open>
  \<open>evals G os T p v T'\<close>: with the getters \<open>G\<close> of the computed properties the program gives the value \<open>v\<close>, and
  reads reactive properties only; \<open>T\<close> are the deps that stand for what was read before, \<open>T'\<close> those after. An
  array may be read if the dep of its observer is among them.
\<close>

inductive evals :: "(nat \<Rightarrow> prog) \<Rightarrow> obj list \<Rightarrow> nat set \<Rightarrow> prog \<Rightarrow> val \<Rightarrow> nat set \<Rightarrow> bool" for G os where
  evals_Done: "evals G os T (Done v) v T"
| evals_Get: "slotOf os o1 k = Some p \<Longrightarrow> p_dep p = Some d \<Longrightarrow>
    evals G os (insert d (set_option (p_childOb p)) \<union> T) (f (p_value p)) v T' \<Longrightarrow> evals G os T (Get o1 k f) v T'"
| evals_Items: "a < length os \<Longrightarrow> b_ob (os ! a) = Some d \<Longrightarrow> d \<in> T \<Longrightarrow> evals G os T (f (b_items (os ! a))) v T' \<Longrightarrow>
    evals G os T (Items a f) v T'"
| evals_Computed: "evals G os {} (G c) u C \<Longrightarrow> evals G os (C \<union> T) (f u) v T' \<Longrightarrow> evals G os T (Computed c f) v T'"

inductive_cases evals_DoneE: "evals G os T (Done v') v T'"
inductive_cases evals_ThrowE: "evals G os T Throw v T'"
inductive_cases evals_GetE: "evals G os T (Get o1 k f) v T'"
inductive_cases evals_ItemsE: "evals G os T (Items a f) v T'"
inductive_cases evals_ComputedE: "evals G os T (Computed c f) v T'"

lemma evals_mono: "evals G os T p v T' \<Longrightarrow> T \<subseteq> T'"
  by (induction rule: evals.induct) auto

lemma evals_det: "evals G os T p v T' \<Longrightarrow> evals G os T p v' S' \<Longrightarrow> v' = v \<and> S' = T'"
proof (induction arbitrary: v' S' rule: evals.induct)
  case (evals_Done T v)
  then show ?case by (auto elim: evals_DoneE)
next
  case (evals_Get o1 k p d T f v T')
  from evals_Get.prems show ?case using evals_Get by (elim evals_GetE) auto
next
  case (evals_Items a d T f v T')
  from evals_Items.prems show ?case using evals_Items by (elim evals_ItemsE) auto
next
  case (evals_Computed c u C T f v T')
  from evals_Computed.prems show ?case using evals_Computed by (elim evals_ComputedE) blast
qed

text \<open>The value depends on the slots and arrays only whose deps are in \<open>T'\<close>.\<close>

definition same_on :: "nat set \<Rightarrow> obj list \<Rightarrow> obj list \<Rightarrow> bool" where
  "same_on D os os' \<longleftrightarrow>
     (\<forall>o1 k p d. slotOf os o1 k = Some p \<longrightarrow> p_dep p = Some d \<longrightarrow> d \<in> D \<longrightarrow> slotOf os' o1 k = Some p)
     \<and> (\<forall>a d. a < length os \<longrightarrow> b_ob (os ! a) = Some d \<longrightarrow> d \<in> D \<longrightarrow>
          a < length os' \<and> b_ob (os' ! a) = Some d \<and> b_items (os' ! a) = b_items (os ! a))"

lemma evals_same: "evals G os T p v T' \<Longrightarrow> T' \<subseteq> D \<Longrightarrow> same_on D os os' \<Longrightarrow> evals G os' T p v T'"
proof (induction rule: evals.induct)
  case (evals_Get o1 k p d T f v T')
  have "d \<in> D" using evals_mono [OF evals_Get(3)] evals_Get by auto
  then have "slotOf os' o1 k = Some p" using evals_Get by (simp add: same_on_def)
  then show ?case using evals_Get by (auto intro: evals.evals_Get)
next
  case (evals_Items a d T f v T')
  have "d \<in> D" using evals_mono [OF evals_Items(4)] evals_Items by auto
  then have "a < length os' \<and> b_ob (os' ! a) = Some d \<and> b_items (os' ! a) = b_items (os ! a)"
    using evals_Items by (simp add: same_on_def)
  then show ?case using evals_Items by (auto intro: evals.evals_Items)
next
  case (evals_Computed c u C T f v T')
  then have "C \<subseteq> D" using evals_mono [OF evals_Computed(2)] by blast
  then show ?case using evals_Computed by (blast intro: evals.evals_Computed)
qed (rule evals.evals_Done)

section \<open>The invariant\<close>

text \<open>A watcher is among the subscribers of the deps it has, and of no others.\<close>

definition sub_inv :: "rs \<Rightarrow> bool" where
  "sub_inv s \<longleftrightarrow>
     (\<forall>d < length (r_deps s). distinct (r_deps s ! d) \<and> (\<forall>w \<in> set (r_deps s ! d). w < length (r_watchers s)))
     \<and> (\<forall>w < length (r_watchers s). let x = r_watchers s ! w
          in set (x_depIds x) = set (x_deps x) \<and> set (x_newDepIds x) = set (x_newDeps x)
             \<and> distinct (x_deps x) \<and> distinct (x_newDeps x)
             \<and> (\<forall>d \<in> set (x_deps x) \<union> set (x_newDeps x). d < length (r_deps s))
             \<and> (\<forall>d < length (r_deps s). w \<in> set (r_deps s ! d) \<longleftrightarrow>
                   x_active x \<and> d \<in> set (x_deps x) \<union> set (x_newDeps x)))"

text \<open>The deps of the heap exist, and reading a property ends.\<close>

definition heap_ok :: "nat \<Rightarrow> rs \<Rightarrow> bool" where
  "heap_ok a s \<longleftrightarrow>
     (\<forall>o1 k p d. slotOf (r_objs s) o1 k = Some p \<longrightarrow> p_dep p = Some d \<longrightarrow>
        (\<exists>ds. touched a (r_objs s) p = Some ds \<and> (\<forall>e \<in> set ds. e < length (r_deps s))))"

text \<open>Computed properties only call ones of a lower rank; \<open>G\<close> are the getters.\<close>

definition calls_ok :: "(nat \<Rightarrow> nat) \<Rightarrow> (nat \<Rightarrow> prog) \<Rightarrow> rs \<Rightarrow> bool" where
  "calls_ok rank G s \<longleftrightarrow>
     (\<forall>w < length (r_watchers s). x_getter (r_watchers s ! w) = G w \<and> (x_lazy (r_watchers s ! w) \<longrightarrow> \<not> x_deep (r_watchers s ! w))
        \<and> (x_active (r_watchers s ! w) \<longrightarrow> (\<forall>c \<in> callsIn (G w). c < length (r_watchers s)
              \<and> x_active (r_watchers s ! c) \<and> x_lazy (r_watchers s ! c) \<and> rank c < rank w)))"

definition targetStack :: "rs \<Rightarrow> nat list" where
  "targetStack s = (case r_target s of Some w \<Rightarrow> w # r_targets s | None \<Rightarrow> r_targets s)"

definition stack_ok :: "(nat \<Rightarrow> nat) \<Rightarrow> rs \<Rightarrow> bool" where
  "stack_ok rank s \<longleftrightarrow>
     (r_target s = None \<longrightarrow> r_targets s = [])
     \<and> sorted_wrt (\<lambda>v w. rank v < rank w) (targetStack s)
     \<and> (\<forall>w \<in> set (targetStack s). w < length (r_watchers s) \<and> x_active (r_watchers s ! w))
     \<and> (\<forall>w < length (r_watchers s). w \<notin> set (targetStack s) \<longrightarrow> x_newDeps (r_watchers s ! w) = [])"

text \<open>A computed property that is not dirty has the value of its getter.\<close>

definition current :: "(nat \<Rightarrow> prog) \<Rightarrow> rs \<Rightarrow> nat \<Rightarrow> bool" where
  "current G s w \<longleftrightarrow>
     (\<exists>T. evals G (r_objs s) {} (G w) (x_value (r_watchers s ! w)) T \<and> T \<subseteq> set (x_deps (r_watchers s ! w)))"

definition cache_ok :: "(nat \<Rightarrow> prog) \<Rightarrow> rs \<Rightarrow> bool" where
  "cache_ok G s \<longleftrightarrow>
     (\<forall>c < length (r_watchers s). x_active (r_watchers s ! c) \<longrightarrow> x_lazy (r_watchers s ! c) \<longrightarrow>
        x_dirty (r_watchers s ! c) \<or> current G s c)"

definition good :: "nat \<Rightarrow> (nat \<Rightarrow> nat) \<Rightarrow> (nat \<Rightarrow> prog) \<Rightarrow> rs \<Rightarrow> bool" where
  "good a rank G s \<longleftrightarrow> sub_inv s \<and> heap_ok a s \<and> calls_ok rank G s \<and> stack_ok rank s \<and> cache_ok G s"

section \<open>What an evaluation leaves alone\<close>

definition fixed :: "wobj \<Rightarrow> bool \<times> bool \<times> bool \<times> bool \<times> bool \<times> prog \<times> nat" where
  "fixed x = (x_lazy x, x_sync x, x_user x, x_deep x, x_active x, x_getter x, x_vm x)"

text \<open>
  The watchers of the stack only get new deps, and only the target does; the other watchers stay as they are,
  apart from computed properties.
\<close>

definition wsteady :: "bool \<Rightarrow> bool \<Rightarrow> wobj \<Rightarrow> wobj \<Rightarrow> bool" where
  "wsteady keep target x x' \<longleftrightarrow>
     fixed x' = fixed x
     \<and> (keep \<longrightarrow> x_deps x' = x_deps x \<and> x_value x' = x_value x \<and> x_dirty x' = x_dirty x
           \<and> set (x_newDeps x) \<subseteq> set (x_newDeps x') \<and> (\<not> target \<longrightarrow> x' = x))"

definition steady :: "rs \<Rightarrow> rs \<Rightarrow> bool" where
  "steady s s' \<longleftrightarrow>
     r_objs s' = r_objs s \<and> r_sched s' = r_sched s \<and> r_target s' = r_target s \<and> r_targets s' = r_targets s
     \<and> length (r_watchers s') = length (r_watchers s) \<and> length (r_deps s') = length (r_deps s)
     \<and> (\<forall>w < length (r_watchers s).
          wsteady (w \<in> set (targetStack s) \<or> \<not> x_lazy (r_watchers s ! w)) (Some w = r_target s) (r_watchers s ! w) (r_watchers s' ! w))"

lemma wsteady_refl [simp]: "wsteady k t x x"
  by (simp add: wsteady_def)

lemma wsteady_trans: "wsteady k t x x1 \<Longrightarrow> wsteady k t x1 x2 \<Longrightarrow> wsteady k t x x2"
  by (auto simp: wsteady_def)

lemma wsteady_lazy: "wsteady k t x x' \<Longrightarrow> x_lazy x' = x_lazy x"
  by (simp add: wsteady_def fixed_def)

lemma steady_refl [simp]: "steady s s"
  by (simp add: steady_def)

lemma steadyD:
  assumes "steady s s'"
  shows "r_objs s' = r_objs s" "r_sched s' = r_sched s" "r_target s' = r_target s" "r_targets s' = r_targets s"
    "length (r_watchers s') = length (r_watchers s)" "length (r_deps s') = length (r_deps s)"
    "targetStack s' = targetStack s"
  using assms by (simp_all add: steady_def targetStack_def split: option.split)

lemma steady_at:
  "steady s s' \<Longrightarrow> w < length (r_watchers s) \<Longrightarrow>
     wsteady (w \<in> set (targetStack s) \<or> \<not> x_lazy (r_watchers s ! w)) (Some w = r_target s) (r_watchers s ! w) (r_watchers s' ! w)"
  by (simp add: steady_def)

lemma steady_trans:
  assumes "steady s s1" "steady s1 s2"
  shows "steady s s2"
proof -
  note D = steadyD [OF assms(1)] and D2 = steadyD [OF assms(2)]
  have "wsteady (w \<in> set (targetStack s) \<or> \<not> x_lazy (r_watchers s ! w)) (Some w = r_target s) (r_watchers s ! w) (r_watchers s2 ! w)"
    if "w < length (r_watchers s)" for w
  proof -
    note 1 = steady_at [OF assms(1) that]
    have "w < length (r_watchers s1)" using that D by simp
    note 2 = steady_at [OF assms(2) this]
    show ?thesis using wsteady_trans [OF 1] 2 wsteady_lazy [OF 1] D by simp
  qed
  then show ?thesis using D D2 by (simp add: steady_def)
qed

section \<open>Collecting deps\<close>

lemma addDep_watcher:
  assumes "w < length (r_watchers s)"
  shows "r_watchers (addDep w d s) = (r_watchers s)[w := (let x = r_watchers s ! w in
      if d \<in> set (x_newDepIds x) then x
      else x \<lparr> x_newDepIds := d # x_newDepIds x, x_newDeps := x_newDeps x @ [d] \<rparr>)]"
  using assms by (simp add: addDep_def Let_def updW_def addSub_def updDep_def)

lemma addDep_deps:
  "r_deps (addDep w d s) = (let x = r_watchers s ! w in
     if d \<in> set (x_newDepIds x) \<or> d \<in> set (x_depIds x) then r_deps s else (r_deps s)[d := r_deps s ! d @ [w]])"
  by (simp add: addDep_def Let_def updW_def addSub_def updDep_def)

lemma addDep_rest:
  "r_objs (addDep w d s) = r_objs s" "r_sched (addDep w d s) = r_sched s" "r_target (addDep w d s) = r_target s"
  "r_targets (addDep w d s) = r_targets s" "length (r_watchers (addDep w d s)) = length (r_watchers s)"
  "length (r_deps (addDep w d s)) = length (r_deps s)"
  by (simp_all add: addDep_def Let_def updW_def addSub_def updDep_def)

text \<open>The part of the invariant on one watcher.\<close>

definition sub_at :: "rs \<Rightarrow> nat \<Rightarrow> bool" where
  "sub_at s w \<longleftrightarrow>
     (let x = r_watchers s ! w
      in set (x_depIds x) = set (x_deps x) \<and> set (x_newDepIds x) = set (x_newDeps x)
         \<and> distinct (x_deps x) \<and> distinct (x_newDeps x)
         \<and> (\<forall>d \<in> set (x_deps x) \<union> set (x_newDeps x). d < length (r_deps s))
         \<and> (\<forall>d < length (r_deps s). w \<in> set (r_deps s ! d) \<longleftrightarrow>
               x_active x \<and> d \<in> set (x_deps x) \<union> set (x_newDeps x)))"

definition deps_ok :: "rs \<Rightarrow> bool" where
  "deps_ok s \<longleftrightarrow> (\<forall>d < length (r_deps s). distinct (r_deps s ! d) \<and> (\<forall>w \<in> set (r_deps s ! d). w < length (r_watchers s)))"

lemma sub_inv_at: "sub_inv s \<longleftrightarrow> deps_ok s \<and> (\<forall>w < length (r_watchers s). sub_at s w)"
  by (simp add: sub_inv_def deps_ok_def sub_at_def)

lemma addDep_sub_inv:
  assumes "sub_inv s" "w < length (r_watchers s)" "x_active (r_watchers s ! w)" "d < length (r_deps s)"
  shows "sub_inv (addDep w d s)"
proof -
  let ?x = "r_watchers s ! w"
  have w: "sub_at s w" "deps_ok s" using assms(1, 2) by (simp_all add: sub_inv_at)
  show ?thesis
  proof (cases "d \<in> set (x_newDepIds ?x)")
    case True
    then have "addDep w d s = s" by (simp add: addDep_def)
    then show ?thesis using assms(1) by simp
  next
    case False
    have ids: "set (x_depIds ?x) = set (x_deps ?x)" "set (x_newDepIds ?x) = set (x_newDeps ?x)"
      "w \<in> set (r_deps s ! d) \<longleftrightarrow> d \<in> set (x_deps ?x)"
      using w(1) assms(3, 4) False unfolding sub_at_def Let_def by auto
    have sub: "set (r_deps (addDep w d s) ! e) = (if e = d then insert w (set (r_deps s ! d)) else set (r_deps s ! e))"
      if "e < length (r_deps s)" for e
      using that False ids assms(4) by (auto simp: addDep_deps Let_def nth_list_update)
    have "deps_ok (addDep w d s)"
      using w(2) False ids assms(2, 4) unfolding deps_ok_def addDep_rest
      by (auto simp: addDep_deps Let_def nth_list_update)
    moreover have "sub_at (addDep w d s) w"
    proof -
      have x: "r_watchers (addDep w d s) ! w = ?x \<lparr> x_newDepIds := d # x_newDepIds ?x, x_newDeps := x_newDeps ?x @ [d] \<rparr>"
        using False assms(2) by (simp add: addDep_watcher Let_def)
      have "w \<in> set (r_deps (addDep w d s) ! e) \<longleftrightarrow> e = d \<or> w \<in> set (r_deps s ! e)" if "e < length (r_deps s)" for e
        using sub [OF that] by auto
      then show ?thesis
        using w(1) False ids(2) assms(3, 4) unfolding sub_at_def addDep_rest x Let_def by auto
    qed
    moreover have "sub_at (addDep w d s) v" if "v < length (r_watchers s)" "v \<noteq> w" for v
    proof -
      have v: "r_watchers (addDep w d s) ! v = r_watchers s ! v" using that assms(2) by (simp add: addDep_watcher)
      have "sub_at s v" using assms(1) that(1) by (simp add: sub_inv_at)
      moreover have "v \<in> set (r_deps (addDep w d s) ! e) \<longleftrightarrow> v \<in> set (r_deps s ! e)" if "e < length (r_deps s)" for e
        using sub [OF that] \<open>v \<noteq> w\<close> by auto
      ultimately show ?thesis unfolding sub_at_def addDep_rest v Let_def by simp
    qed
    ultimately show ?thesis using assms(2) by (metis addDep_rest(5) sub_inv_at)
  qed
qed

lemma calls_ok_fixed:
  assumes "calls_ok rank G s" "length (r_watchers s') = length (r_watchers s)"
    "\<And>w. w < length (r_watchers s) \<Longrightarrow> fixed (r_watchers s' ! w) = fixed (r_watchers s ! w)"
  shows "calls_ok rank G s'"
proof -
  have eq: "x_lazy (r_watchers s' ! w) = x_lazy (r_watchers s ! w)" "x_deep (r_watchers s' ! w) = x_deep (r_watchers s ! w)"
    "x_active (r_watchers s' ! w) = x_active (r_watchers s ! w)" "x_getter (r_watchers s' ! w) = x_getter (r_watchers s ! w)"
    if "w < length (r_watchers s)" for w
    using assms(3) [OF that] by (simp_all add: fixed_def)
  show "calls_ok rank G s'"
    unfolding calls_ok_def assms(2)
  proof (intro allI impI)
    fix w assume w: "w < length (r_watchers s)"
    have calls: "\<forall>c \<in> callsIn (G w). c < length (r_watchers s) \<and> x_active (r_watchers s ! c) \<and> x_lazy (r_watchers s ! c) \<and> rank c < rank w"
      if "x_active (r_watchers s ! w)"
      using assms(1) w that unfolding calls_ok_def by blast
    have own: "x_getter (r_watchers s ! w) = G w \<and> (x_lazy (r_watchers s ! w) \<longrightarrow> \<not> x_deep (r_watchers s ! w))"
      using assms(1) w unfolding calls_ok_def by blast
    have "\<forall>c \<in> callsIn (G w). c < length (r_watchers s) \<and> x_active (r_watchers s' ! c) \<and> x_lazy (r_watchers s' ! c) \<and> rank c < rank w"
      if "x_active (r_watchers s ! w)"
      using calls [OF that] eq by blast
    then show "x_getter (r_watchers s' ! w) = G w \<and> (x_lazy (r_watchers s' ! w) \<longrightarrow> \<not> x_deep (r_watchers s' ! w))
        \<and> (x_active (r_watchers s' ! w) \<longrightarrow> (\<forall>c \<in> callsIn (G w). c < length (r_watchers s)
              \<and> x_active (r_watchers s' ! c) \<and> x_lazy (r_watchers s' ! c) \<and> rank c < rank w))"
      unfolding eq [OF w] using own by blast
  qed
qed

lemma calls_ok_steady: "steady s s' \<Longrightarrow> calls_ok rank G s \<Longrightarrow> calls_ok rank G s'"
  by (erule calls_ok_fixed) (simp_all add: steady_def wsteady_def)

lemma calls_okD:
  assumes "calls_ok rank G s" "w < length (r_watchers s)"
  shows "x_getter (r_watchers s ! w) = G w" "x_lazy (r_watchers s ! w) \<Longrightarrow> \<not> x_deep (r_watchers s ! w)"
    "x_active (r_watchers s ! w) \<Longrightarrow> c \<in> callsIn (G w) \<Longrightarrow> c < length (r_watchers s)
       \<and> x_active (r_watchers s ! c) \<and> x_lazy (r_watchers s ! c) \<and> rank c < rank w"
  using assms unfolding calls_ok_def by blast+

lemma heap_ok_steady: "steady s s' \<Longrightarrow> heap_ok a s \<Longrightarrow> heap_ok a s'"
  by (simp add: heap_ok_def steadyD)

lemma depend_target: "r_target s = Some w \<Longrightarrow> depend d s = addDep w d s"
  by (simp add: depend_def)

lemma depend_steady:
  assumes "stack_ok rank s"
  shows "steady s (depend d s)"
proof (cases "r_target s")
  case None
  then show ?thesis by (simp add: depend_def)
next
  case (Some w)
  have w: "w < length (r_watchers s)" using assms Some by (simp add: stack_ok_def targetStack_def)
  have "wsteady k (Some v = r_target s) (r_watchers s ! v) (r_watchers (addDep w d s) ! v)" if "v < length (r_watchers s)" for k v
    using that w by (cases "v = w") (auto simp: addDep_watcher Let_def wsteady_def fixed_def Some)
  then show ?thesis by (simp add: depend_target [OF Some] steady_def addDep_rest)
qed

lemma depend_good:
  assumes "good a rank G s" "d < length (r_deps s)"
  shows "good a rank G (depend d s)"
proof (cases "r_target s")
  case None
  then show ?thesis using assms by (simp add: depend_def)
next
  case (Some w)
  note g = assms(1) [unfolded good_def]
  have st: "steady s (depend d s)" by (rule depend_steady) (use g in blast)
  have w: "w < length (r_watchers s)" "x_active (r_watchers s ! w)"
    using g Some by (simp_all add: stack_ok_def targetStack_def)
  have other: "r_watchers (depend d s) ! v = r_watchers s ! v" if "v \<noteq> w" for v
    using that w by (simp add: depend_target [OF Some] addDep_watcher)
  have "stack_ok rank (depend d s)"
  proof -
    have "x_active (r_watchers (depend d s) ! v) = x_active (r_watchers s ! v)" if "v < length (r_watchers s)" for v
      using steady_at [OF st that] by (simp add: wsteady_def fixed_def)
    moreover have "w \<in> set (targetStack s)" using Some by (simp add: targetStack_def)
    ultimately show ?thesis using g other unfolding stack_ok_def steadyD [OF st] by metis
  qed
  moreover have "cache_ok G (depend d s)"
  proof -
    have "x_dirty (r_watchers (depend d s) ! v) = x_dirty (r_watchers s ! v)"
      "x_value (r_watchers (depend d s) ! v) = x_value (r_watchers s ! v)"
      "x_deps (r_watchers (depend d s) ! v) = x_deps (r_watchers s ! v)"
      "x_active (r_watchers (depend d s) ! v) = x_active (r_watchers s ! v)"
      "x_lazy (r_watchers (depend d s) ! v) = x_lazy (r_watchers s ! v)" if "v < length (r_watchers s)" for v
      using that w by (auto simp: depend_target [OF Some] addDep_watcher Let_def nth_list_update)
    then show ?thesis using g unfolding cache_ok_def current_def steadyD [OF st] by simp
  qed
  ultimately show ?thesis
    using g heap_ok_steady [OF st] calls_ok_steady [OF st] addDep_sub_inv [OF _ w assms(2)]
    by (simp add: good_def depend_target [OF Some])
qed

lemma depend_new:
  assumes "good a rank G s" "r_target s = Some w" "d < length (r_deps s)"
  shows "d \<in> set (x_newDeps (r_watchers (depend d s) ! w))"
proof -
  have w: "w < length (r_watchers s)" using assms(1, 2) by (simp add: good_def stack_ok_def targetStack_def)
  have "set (x_newDepIds (r_watchers s ! w)) = set (x_newDeps (r_watchers s ! w))"
    using assms(1) w by (simp add: good_def sub_inv_def Let_def)
  then show ?thesis using w by (simp add: depend_target [OF assms(2)] addDep_watcher Let_def)
qed

lemma steady_new:
  "steady s s' \<Longrightarrow> r_target s = Some w \<Longrightarrow> w < length (r_watchers s) \<Longrightarrow>
     set (x_newDeps (r_watchers s ! w)) \<subseteq> set (x_newDeps (r_watchers s' ! w))"
  using steady_at [of s s' w] by (simp add: wsteady_def targetStack_def)

lemma good_target: "good a rank G s \<Longrightarrow> r_target s = Some w \<Longrightarrow> w < length (r_watchers s) \<and> x_active (r_watchers s ! w)"
  by (simp add: good_def stack_ok_def targetStack_def)

lemma depends_good:
  assumes "good a rank G s" "\<forall>d \<in> set ds. d < length (r_deps s)"
  shows "good a rank G (fold depend ds s) \<and> steady s (fold depend ds s)
    \<and> (\<forall>w. r_target s = Some w \<longrightarrow> set ds \<union> set (x_newDeps (r_watchers s ! w)) \<subseteq> set (x_newDeps (r_watchers (fold depend ds s) ! w)))"
  using assms
proof (induction ds arbitrary: s)
  case (Cons d ds)
  have d: "d < length (r_deps s)" using Cons(3) by simp
  have st: "steady s (depend d s)" using depend_steady Cons(2) by (auto simp: good_def)
  have g: "good a rank G (depend d s)" using depend_good [OF Cons(2) d] .
  have "\<forall>e \<in> set ds. e < length (r_deps (depend d s))" using Cons(3) steadyD(6) [OF st] by simp
  note ih = Cons(1) [OF g this]
  have "set (d # ds) \<union> set (x_newDeps (r_watchers s ! w)) \<subseteq> set (x_newDeps (r_watchers (fold depend ds (depend d s)) ! w))"
    if "r_target s = Some w" for w
  proof -
    have "r_target (depend d s) = Some w" using that steadyD(3) [OF st] by simp
    then have "set ds \<union> set (x_newDeps (r_watchers (depend d s) ! w)) \<subseteq> set (x_newDeps (r_watchers (fold depend ds (depend d s)) ! w))"
      using ih by blast
    then show ?thesis
      using depend_new [OF Cons(2) that d] steady_new [OF st that] good_target [OF Cons(2) that] by auto
  qed
  then show ?case using ih steady_trans [OF st] by simp
qed simp

lemma getProp_good:
  assumes "good a rank G s" "r_target s = Some w" "slotOf (r_objs s) o1 k = Some p" "p_dep p = Some d"
  obtains s' where "getProp a o1 k s = OK (p_value p) s'" "good a rank G s'" "steady s s'"
    "insert d (set_option (p_childOb p)) \<union> set (x_newDeps (r_watchers s ! w)) \<subseteq> set (x_newDeps (r_watchers s' ! w))"
proof -
  have o1: "o1 < length (r_objs s)" "map_of (b_props (objAt s o1)) k = Some p"
    using assms(3) by (auto simp: slotOf_def objAt_def split: if_splits)
  have "heap_ok a s" using assms(1) by (simp add: good_def)
  then obtain ds where ds: "touched a (r_objs s) p = Some ds" "\<forall>e \<in> set ds. e < length (r_deps s)"
    using assms(3, 4) unfolding heap_ok_def by blast
  have "insert d (set_option (p_childOb p)) \<subseteq> set ds"
    using ds(1) assms(4) by (auto simp: touched_def split: option.splits)
  then show thesis
    using that [of "fold depend ds s"] depends_good [OF assms(1) ds(2)] o1 ds(1) assms(2) by (auto simp: getProp_def)
qed

section \<open>Evaluating a watcher\<close>

lemma fold_removeSub:
  assumes "distinct ds"
  shows "r_watchers (fold (\<lambda>d. if d \<in> P then id else removeSub d w) ds s) = r_watchers s"
    and "length (r_deps (fold (\<lambda>d. if d \<in> P then id else removeSub d w) ds s)) = length (r_deps s)"
    and "fold (\<lambda>d. if d \<in> P then id else removeSub d w) ds s = s \<lparr> r_deps := r_deps (fold (\<lambda>d. if d \<in> P then id else removeSub d w) ds s) \<rparr>"
    and "e < length (r_deps s) \<Longrightarrow> r_deps (fold (\<lambda>d. if d \<in> P then id else removeSub d w) ds s) ! e =
      (if e \<in> set ds \<and> e \<notin> P then remove1 w (r_deps s ! e) else r_deps s ! e)"
proof -
  let ?f = "\<lambda>d. if d \<in> P then id else removeSub d w"
  have one: "r_watchers (?f d s) = r_watchers s" "length (r_deps (?f d s)) = length (r_deps s)" for d s
    by (simp_all add: removeSub_def updDep_def)
  have at: "r_deps (?f d s) ! e = (if e = d \<and> d \<notin> P then remove1 w (r_deps s ! e) else r_deps s ! e)"
    if "e < length (r_deps s)" for d e s
    using that by (auto simp: removeSub_def updDep_def)
  show "r_watchers (fold ?f ds s) = r_watchers s" by (induction ds arbitrary: s) (simp_all only: fold_simps one)
  show len: "length (r_deps (fold ?f ds s)) = length (r_deps s)" by (induction ds arbitrary: s) (simp_all only: fold_simps one)
  show "fold ?f ds s = s \<lparr> r_deps := r_deps (fold ?f ds s) \<rparr>"
  proof (induction ds arbitrary: s)
    case (Cons d ds)
    have "fold ?f ds (?f d s) = (?f d s) \<lparr> r_deps := r_deps (fold ?f ds (?f d s)) \<rparr>" by (rule Cons)
    also have "... = s \<lparr> r_deps := r_deps (fold ?f ds (?f d s)) \<rparr>" by (simp add: removeSub_def updDep_def)
    finally show ?case by (simp only: fold_simps comp_apply)
  qed simp
  show "e < length (r_deps s) \<Longrightarrow> r_deps (fold ?f ds s) ! e =
      (if e \<in> set ds \<and> e \<notin> P then remove1 w (r_deps s ! e) else r_deps s ! e)"
    using assms
  proof (induction ds arbitrary: s)
    case (Cons d ds)
    have "e < length (r_deps (?f d s))" using Cons(2) one(2) by simp
    from Cons(1) [OF this] show ?case using Cons(2, 3) at [OF Cons(2), of d] by (auto simp del: if_not_P)
  qed simp
qed

lemma cleanupDeps_state:
  assumes "distinct (x_deps (r_watchers s ! w))"
  defines "x \<equiv> r_watchers s ! w"
  shows "r_watchers (cleanupDeps w s) =
      (r_watchers s)[w := x \<lparr> x_deps := x_newDeps x, x_newDeps := [], x_depIds := x_newDepIds x, x_newDepIds := [] \<rparr>]"
    and "length (r_deps (cleanupDeps w s)) = length (r_deps s)"
    and "r_objs (cleanupDeps w s) = r_objs s" "r_sched (cleanupDeps w s) = r_sched s"
    "r_target (cleanupDeps w s) = r_target s" "r_targets (cleanupDeps w s) = r_targets s"
    and "e < length (r_deps s) \<Longrightarrow> r_deps (cleanupDeps w s) ! e =
      (if e \<in> set (x_deps x) \<and> e \<notin> set (x_newDepIds x) then remove1 w (r_deps s ! e) else r_deps s ! e)"
proof -
  define s1 where "s1 = fold (\<lambda>d. if d \<in> set (x_newDepIds x) then id else removeSub d w) (rev (x_deps x)) s"
  have d: "distinct (rev (x_deps x))" using assms(1) by (simp add: x_def)
  note F = fold_removeSub [OF d, where P = "set (x_newDepIds x)" and w = w and s = s, folded s1_def]
  have c: "cleanupDeps w s = updW w (\<lambda>y. y \<lparr> x_deps := x_newDeps y, x_newDeps := [], x_depIds := x_newDepIds y, x_newDepIds := [] \<rparr>) s1"
    by (simp add: cleanupDeps_def Let_def s1_def x_def)
  have rest: "r_objs s1 = r_objs s" "r_sched s1 = r_sched s" "r_target s1 = r_target s" "r_targets s1 = r_targets s"
    by (subst F(3), simp)+
  show "r_watchers (cleanupDeps w s) =
      (r_watchers s)[w := x \<lparr> x_deps := x_newDeps x, x_newDeps := [], x_depIds := x_newDepIds x, x_newDepIds := [] \<rparr>]"
    using F(1) by (simp add: c updW_def x_def)
  show "length (r_deps (cleanupDeps w s)) = length (r_deps s)" using F(2) by (simp add: c updW_def)
  show "r_objs (cleanupDeps w s) = r_objs s" "r_sched (cleanupDeps w s) = r_sched s"
    "r_target (cleanupDeps w s) = r_target s" "r_targets (cleanupDeps w s) = r_targets s"
    using rest by (simp_all add: c updW_def)
  show "e < length (r_deps s) \<Longrightarrow> r_deps (cleanupDeps w s) ! e =
      (if e \<in> set (x_deps x) \<and> e \<notin> set (x_newDepIds x) then remove1 w (r_deps s ! e) else r_deps s ! e)"
    using F(4) by (simp add: c updW_def)
qed

lemma cleanupDeps_sub_inv:
  assumes "sub_inv s" "w < length (r_watchers s)" "x_active (r_watchers s ! w)"
  shows "sub_inv (cleanupDeps w s)"
proof -
  let ?x = "r_watchers s ! w"
  have at: "sub_at s w" and dp: "deps_ok s" using assms(1, 2) by (simp_all add: sub_inv_at)
  have dist: "distinct (x_deps ?x)" using at by (simp add: sub_at_def Let_def)
  note C = cleanupDeps_state [OF dist]
  have len: "length (r_watchers (cleanupDeps w s)) = length (r_watchers s)" by (simp add: C)
  have ids: "set (x_depIds ?x) = set (x_deps ?x)" "set (x_newDepIds ?x) = set (x_newDeps ?x)" "distinct (x_newDeps ?x)"
    "\<forall>d \<in> set (x_newDeps ?x). d < length (r_deps s)"
    using at by (simp_all add: sub_at_def Let_def)
  have mem: "w \<in> set (r_deps s ! e) \<longleftrightarrow> e \<in> set (x_deps ?x) \<union> set (x_newDeps ?x)" if "e < length (r_deps s)" for e
    using at assms(3) that by (simp add: sub_at_def Let_def)
  have dd: "distinct (r_deps s ! e)" if "e < length (r_deps s)" for e using dp that by (simp add: deps_ok_def)
  have mem': "w \<in> set (r_deps (cleanupDeps w s) ! e) \<longleftrightarrow> e \<in> set (x_newDeps ?x)" if "e < length (r_deps s)" for e
    using that mem [OF that] dd [OF that] ids(2) by (auto simp: C(7))
  have oth: "v \<in> set (r_deps (cleanupDeps w s) ! e) \<longleftrightarrow> v \<in> set (r_deps s ! e)" if "e < length (r_deps s)" "v \<noteq> w" for e v
    using that dd [OF that(1)] by (simp add: C(7))
  have "deps_ok (cleanupDeps w s)"
    using dp unfolding deps_ok_def C(2) len by (simp add: C(7) notin_set_remove1)
  moreover have "sub_at (cleanupDeps w s) w"
    using ids mem' assms(2, 3) unfolding sub_at_def C(1) C(2) by (simp add: Let_def)
  moreover have "sub_at (cleanupDeps w s) v" if "v < length (r_watchers s)" "v \<noteq> w" for v
  proof -
    have "sub_at s v" using assms(1) that(1) by (simp add: sub_inv_at)
    moreover have "r_watchers (cleanupDeps w s) ! v = r_watchers s ! v" using that by (simp add: C(1))
    ultimately show ?thesis using oth that(2) unfolding sub_at_def C(2) by (simp add: Let_def)
  qed
  ultimately show ?thesis unfolding sub_inv_at len using assms(2) by metis
qed

lemma pushTarget_simps [simp]:
  "r_objs (pushTarget t s) = r_objs s" "r_sched (pushTarget t s) = r_sched s" "r_watchers (pushTarget t s) = r_watchers s"
  "r_deps (pushTarget t s) = r_deps s" "r_target (pushTarget t s) = t" "r_targets (pushTarget t s) = targetStack s"
  by (simp_all add: pushTarget_def targetStack_def split: option.split)

lemma targetStack_push: "targetStack (pushTarget (Some w) s) = w # targetStack s"
  by (simp add: targetStack_def [of "pushTarget (Some w) s"])

lemma pushTarget_good:
  assumes "good a rank G s" "c < length (r_watchers s)" "x_active (r_watchers s ! c)" "\<forall>t \<in> set (targetStack s). rank c < rank t"
  shows "good a rank G (pushTarget (Some c) s)"
proof -
  have g: "calls_ok rank G s" "sub_inv s" "cache_ok G s" "heap_ok a s" using assms(1) by (simp_all add: good_def)
  have "calls_ok rank G (pushTarget (Some c) s)" using g(1) unfolding calls_ok_def pushTarget_simps .
  moreover have "sub_inv (pushTarget (Some c) s)" using g(2) unfolding sub_inv_def pushTarget_simps .
  moreover have "cache_ok G (pushTarget (Some c) s)" using g(3) unfolding cache_ok_def current_def pushTarget_simps .
  moreover have "heap_ok a (pushTarget (Some c) s)" using g(4) unfolding heap_ok_def pushTarget_simps .
  moreover have "stack_ok rank (pushTarget (Some c) s)"
    using assms unfolding good_def stack_ok_def targetStack_push by simp
  ultimately show ?thesis by (simp add: good_def)
qed

lemma popTarget_simps [simp]:
  "r_objs (popTarget s) = r_objs s" "r_sched (popTarget s) = r_sched s" "r_watchers (popTarget s) = r_watchers s"
  "r_deps (popTarget s) = r_deps s" "targetStack (popTarget s) = r_targets s"
  by (simp_all add: popTarget_def targetStack_def split: list.split)

lemma popTarget_push:
  assumes "r_target s = None \<longrightarrow> r_targets s = []" "r_targets s2 = targetStack s"
  shows "r_target (popTarget s2) = r_target s" "r_targets (popTarget s2) = r_targets s"
  using assms by (auto simp: popTarget_def targetStack_def split: list.splits option.splits)

text \<open>What the evaluation of the watcher \<open>c\<close> leaves alone.\<close>

definition steady_but :: "nat \<Rightarrow> rs \<Rightarrow> rs \<Rightarrow> bool" where
  "steady_but c s s' \<longleftrightarrow>
     r_objs s' = r_objs s \<and> r_sched s' = r_sched s \<and> r_target s' = r_target s \<and> r_targets s' = r_targets s
     \<and> length (r_watchers s') = length (r_watchers s) \<and> length (r_deps s') = length (r_deps s)
     \<and> fixed (r_watchers s' ! c) = fixed (r_watchers s ! c)
     \<and> (\<forall>w < length (r_watchers s). w \<noteq> c \<longrightarrow>
          wsteady (w \<in> set (targetStack s) \<or> \<not> x_lazy (r_watchers s ! w)) (Some w = r_target s) (r_watchers s ! w) (r_watchers s' ! w))"

lemma steady_but_lazy:
  assumes "steady_but c s s'" "x_lazy (r_watchers s ! c)" "c \<notin> set (targetStack s)"
  shows "steady s s'"
proof -
  have "wsteady (c \<in> set (targetStack s) \<or> \<not> x_lazy (r_watchers s ! c)) t (r_watchers s ! c) (r_watchers s' ! c)" for t
    using assms by (simp add: steady_but_def wsteady_def)
  then show ?thesis using assms(1) unfolding steady_but_def steady_def by blast
qed

lemma watcherGet_good:
  assumes "good a rank G s" "c < length (r_watchers s)" "x_active (r_watchers s ! c)" "\<not> x_deep (r_watchers s ! c)"
    "\<forall>t \<in> set (targetStack s). rank c < rank t" "x_lazy (r_watchers s ! c) \<longrightarrow> x_dirty (r_watchers s ! c)"
    and run: "good a rank G (pushTarget (Some c) s) \<Longrightarrow> \<exists>s2. runProg a call (G c) (pushTarget (Some c) s) = OK v s2 \<and> good a rank G s2
      \<and> steady (pushTarget (Some c) s) s2 \<and> T \<subseteq> set (x_newDeps (r_watchers s2 ! c))"
  obtains s' where "watcherGet a call c s = OK v s'" "good a rank G s'" "steady_but c s s'"
    "T \<subseteq> set (x_deps (r_watchers s' ! c))" "x_value (r_watchers s' ! c) = x_value (r_watchers s ! c)"
    "x_dirty (r_watchers s' ! c) = x_dirty (r_watchers s ! c)"
proof -
  note g = assms(1) [unfolded good_def]
  have G: "x_getter (r_watchers s ! c) = G c" using g assms(2) calls_okD(1) by blast
  obtain s2 where s2: "runProg a call (G c) (pushTarget (Some c) s) = OK v s2" "good a rank G s2"
      "steady (pushTarget (Some c) s) s2" "T \<subseteq> set (x_newDeps (r_watchers s2 ! c))"
    using run pushTarget_good [OF assms(1-3, 5)] by blast
  note D = steadyD [OF s2(3), unfolded pushTarget_simps targetStack_push]
  define s3 where "s3 = popTarget s2"
  define s' where "s' = cleanupDeps c s3"
  have get: "watcherGet a call c s = OK v s'"
    using s2(1) G assms(4) by (simp add: watcherGet_def Let_def s'_def s3_def)
  have inv2: "sub_inv s2" using s2(2) by (simp add: good_def)
  have inv3: "sub_inv s3" using inv2 unfolding s3_def sub_inv_def popTarget_simps .
  have at: "wsteady (w \<in> set (c # targetStack s) \<or> \<not> x_lazy (r_watchers s ! w)) (w = c) (r_watchers s ! w) (r_watchers s2 ! w)"
    if "w < length (r_watchers s)" for w
    using steady_at [OF s2(3)] that by (simp add: targetStack_push)
  have w3: "r_watchers s3 = r_watchers s2" by (simp add: s3_def)
  have act: "x_active (r_watchers s3 ! c)" using at [OF assms(2)] assms(3) by (simp add: w3 wsteady_def fixed_def)
  have c3: "c < length (r_watchers s3)" using assms(2) D by (simp add: w3)
  have dist: "distinct (x_deps (r_watchers s3 ! c))" using inv3 c3 by (simp add: sub_inv_def Let_def)
  note C = cleanupDeps_state [OF dist, folded s'_def, unfolded w3]
  have tgt: "r_target s' = r_target s" "r_targets s' = r_targets s"
    using popTarget_push [of s s2] g D by (simp_all add: C s3_def stack_ok_def)
  have oth: "r_watchers s' ! w = r_watchers s2 ! w" if "w \<noteq> c" for w using that by (simp add: C)
  have own: "r_watchers s' ! c = (r_watchers s2 ! c) \<lparr> x_deps := x_newDeps (r_watchers s2 ! c), x_newDeps := [],
      x_depIds := x_newDepIds (r_watchers s2 ! c), x_newDepIds := [] \<rparr>"
    using assms(2) D by (simp add: C)
  have len: "length (r_watchers s') = length (r_watchers s)" "length (r_deps s') = length (r_deps s)"
    using C D by (simp_all add: s3_def)
  have heap: "r_objs s' = r_objs s" "r_sched s' = r_sched s" using C D by (simp_all add: s3_def)
  have fixd: "fixed (r_watchers s' ! w) = fixed (r_watchers s ! w)" if "w < length (r_watchers s)" for w
    using at [OF that] own oth by (cases "w = c") (simp_all add: wsteady_def fixed_def)
  have but: "steady_but c s s'"
    unfolding steady_but_def using tgt len heap fixd assms(2) at oth by (auto simp: wsteady_def)
  have stk: "targetStack s' = targetStack s" by (simp add: targetStack_def tgt split: option.split)
  have stack2: "stack_ok rank s2" using s2(2) by (simp add: good_def)
  have "stack_ok rank s'"
  proof -
    have "x_newDeps (r_watchers s' ! w) = []" if "w < length (r_watchers s)" "w \<notin> set (targetStack s)" for w
      using stack2 that oth own D by (cases "w = c") (auto simp: stack_ok_def)
    moreover have "x_active (r_watchers s' ! w) = x_active (r_watchers s ! w)" if "w < length (r_watchers s)" for w
      using fixd [OF that] by (simp add: fixed_def)
    ultimately show ?thesis using g unfolding stack_ok_def stk tgt len by blast
  qed
  moreover have "cache_ok G s'"
  proof -
    have c2: "cache_ok G s2" using s2(2) by (simp add: good_def)
    have "x_dirty (r_watchers s' ! c) = x_dirty (r_watchers s ! c)" "x_lazy (r_watchers s' ! c) = x_lazy (r_watchers s ! c)"
      using at [OF assms(2)] by (simp_all add: own wsteady_def fixed_def)
    then show ?thesis
      using c2 assms(6) D oth unfolding cache_ok_def current_def len heap by metis
  qed
  moreover have "heap_ok a s'" using g by (simp add: heap_ok_def heap len)
  moreover have "calls_ok rank G s'" by (rule calls_ok_fixed [OF _ len(1) fixd]) (use g in simp)
  moreover have "sub_inv s'" unfolding s'_def by (rule cleanupDeps_sub_inv [OF inv3 c3 act])
  ultimately have "good a rank G s'" by (simp add: good_def)
  then show thesis
    using that [OF get _ but] s2(4) at [OF assms(2)] by (simp add: own wsteady_def)
qed

section \<open>Computed properties\<close>

lemma updW_simps [simp]:
  "r_objs (updW w f s) = r_objs s" "r_sched (updW w f s) = r_sched s" "r_deps (updW w f s) = r_deps s"
  "r_target (updW w f s) = r_target s" "r_targets (updW w f s) = r_targets s" "targetStack (updW w f s) = targetStack s"
  "length (r_watchers (updW w f s)) = length (r_watchers s)"
  by (simp_all add: updW_def targetStack_def split: option.split)

lemma updW_at: "w < length (r_watchers s) \<Longrightarrow> r_watchers (updW w f s) ! v = (if v = w then f (r_watchers s ! w) else r_watchers s ! v)"
  by (simp add: updW_def nth_list_update)

text \<open>Storing a value that is the one of the getter.\<close>

lemma store_good:
  assumes "good a rank G s" "w < length (r_watchers s)" "x_lazy (r_watchers s ! w)"
    "evals G (r_objs s) {} (G w) v T" "T \<subseteq> set (x_deps (r_watchers s ! w))"
  shows "good a rank G (updW w (\<lambda>y. y \<lparr> x_value := v, x_dirty := False \<rparr>) s)" (is "good a rank G ?s")
proof -
  note g = assms(1) [unfolded good_def]
  have fixd: "fixed (r_watchers ?s ! u) = fixed (r_watchers s ! u)" for u
    using assms(2) by (simp add: updW_at fixed_def)
  have same: "x_active (r_watchers ?s ! u) = x_active (r_watchers s ! u)" "x_deps (r_watchers ?s ! u) = x_deps (r_watchers s ! u)"
    "x_newDeps (r_watchers ?s ! u) = x_newDeps (r_watchers s ! u)" "x_depIds (r_watchers ?s ! u) = x_depIds (r_watchers s ! u)"
    "x_newDepIds (r_watchers ?s ! u) = x_newDepIds (r_watchers s ! u)" "x_lazy (r_watchers ?s ! u) = x_lazy (r_watchers s ! u)" for u
    using assms(2) by (simp_all add: updW_at)
  have "sub_inv s" using g by blast
  then have "sub_inv ?s" unfolding sub_inv_def updW_simps same Let_def .
  moreover have "heap_ok a ?s" using g by (simp add: heap_ok_def)
  moreover have "stack_ok rank ?s" using g unfolding stack_ok_def updW_simps same by blast
  moreover have "calls_ok rank G ?s" by (rule calls_ok_fixed [OF _ _ fixd]) (use g in simp_all)
  moreover have "cache_ok G ?s"
    unfolding cache_ok_def updW_simps same
  proof (intro allI impI)
    fix c assume c: "c < length (r_watchers s)" "x_active (r_watchers s ! c)" "x_lazy (r_watchers s ! c)"
    show "x_dirty (r_watchers ?s ! c) \<or> current G ?s c"
    proof (cases "c = w")
      case True
      then show ?thesis using assms(2, 4, 5) by (auto simp: current_def updW_at)
    next
      case False
      then show ?thesis using c g assms(2) unfolding cache_ok_def current_def updW_simps same by (simp add: updW_at)
    qed
  qed
  ultimately show ?thesis by (simp add: good_def)
qed

lemma store_but: "steady_but w s s' \<Longrightarrow> w < length (r_watchers s) \<Longrightarrow> steady_but w s (updW w (\<lambda>y. y \<lparr> x_value := v, x_dirty := b \<rparr>) s')"
  by (simp add: steady_but_def updW_at fixed_def)

lemma depends_value: "x_value (r_watchers (fold depend ds s) ! v) = x_value (r_watchers s ! v)"
proof (induction ds arbitrary: s)
  case (Cons d ds)
  have "x_value (r_watchers (depend d s) ! v) = x_value (r_watchers s ! v)"
  proof (cases "r_target s")
    case (Some w)
    have "xs[w := y] ! v = (if v = w \<and> w < length xs then y else xs ! v)" for xs :: "wobj list" and y
      by (cases "w < length xs") (simp_all add: nth_list_update list_update_beyond not_less)
    then show ?thesis
      by (simp add: depend_target [OF Some] addDep_def Let_def updW_def addSub_def updDep_def del: nth_list_update nth_list_update_neq)
  qed (simp add: depend_def)
  then show ?case using Cons by simp
qed simp

lemma deps_exist: "good a rank G s \<Longrightarrow> c < length (r_watchers s) \<Longrightarrow> d \<in> set (x_deps (r_watchers s ! c)) \<Longrightarrow> d < length (r_deps s)"
  by (simp add: good_def sub_inv_def Let_def)

lemma computedGetter_good:
  assumes "good a rank G s" "r_target s = Some w" "c < length (r_watchers s)" "x_active (r_watchers s ! c)"
    "x_lazy (r_watchers s ! c)" "\<forall>t \<in> set (targetStack s). rank c < rank t" "evals G (r_objs s) {} (G c) u C"
    and run: "good a rank G (pushTarget (Some c) s) \<Longrightarrow> \<exists>s2. runProg a (computedGetter a m) (G c) (pushTarget (Some c) s) = OK u s2
      \<and> good a rank G s2 \<and> steady (pushTarget (Some c) s) s2 \<and> C \<subseteq> set (x_newDeps (r_watchers s2 ! c))"
  obtains s' where "computedGetter a (Suc m) c s = OK u s'" "good a rank G s'" "steady s s'"
    "C \<union> set (x_newDeps (r_watchers s ! w)) \<subseteq> set (x_newDeps (r_watchers s' ! w))"
proof -
  have deep: "\<not> x_deep (r_watchers s ! c)" using assms(1, 3, 5) calls_okD(2) by (auto simp: good_def)
  have out: "c \<notin> set (targetStack s)" using assms(6) by auto
  have "\<exists>s1. (if x_dirty (r_watchers s ! c) then evaluateWith a (computedGetter a m) c s else OK () s) = OK () s1
      \<and> good a rank G s1 \<and> steady s s1 \<and> x_value (r_watchers s1 ! c) = u \<and> C \<subseteq> set (x_deps (r_watchers s1 ! c))"
  proof (cases "x_dirty (r_watchers s ! c)")
    case True
    obtain s1 where s1: "watcherGet a (computedGetter a m) c s = OK u s1" "good a rank G s1" "steady_but c s s1"
        "C \<subseteq> set (x_deps (r_watchers s1 ! c))"
      by (rule watcherGet_good [OF assms(1, 3, 4) deep assms(6)]) (use True run in blast)+
    have c1: "c < length (r_watchers s1)" "x_lazy (r_watchers s1 ! c)" "r_objs s1 = r_objs s"
      using s1(3) assms(3, 5) by (simp_all add: steady_but_def fixed_def)
    let ?s = "updW c (\<lambda>y. y \<lparr> x_value := u, x_dirty := False \<rparr>) s1"
    have "good a rank G ?s" by (rule store_good [OF s1(2) c1(1, 2)]) (use c1 assms(7) s1(4) in auto)
    moreover have "steady s ?s" by (rule steady_but_lazy [OF store_but [OF s1(3) assms(3)] assms(5) out])
    ultimately show ?thesis using True s1(1, 4) c1(1) by (simp add: evaluateWith_def updW_at)
  next
    case False
    then have "current G s c" using assms(1, 3-5) unfolding good_def cache_ok_def by blast
    then have "x_value (r_watchers s ! c) = u \<and> C \<subseteq> set (x_deps (r_watchers s ! c))"
      using evals_det [OF assms(7)] unfolding current_def by blast
    then show ?thesis using False assms(1) by simp
  qed
  then obtain s1 where s1: "(if x_dirty (r_watchers s ! c) then evaluateWith a (computedGetter a m) c s else OK () s) = OK () s1"
      "good a rank G s1" "steady s s1" "x_value (r_watchers s1 ! c) = u" "C \<subseteq> set (x_deps (r_watchers s1 ! c))"
    by blast
  note D = steadyD [OF s1(3)]
  have "\<forall>d \<in> set (rev (x_deps (r_watchers s1 ! c))). d < length (r_deps s1)"
    using deps_exist [OF s1(2)] assms(3) D by simp
  note dep = depends_good [OF s1(2) this, folded watcherDepend_def]
  have tgt: "r_target s1 = Some w" using assms(2) D by simp
  have "computedGetter a (Suc m) c s = OK u (watcherDepend c s1)"
    using s1(1, 4) tgt by (simp add: watcherDepend_def depends_value del: if_split)
  moreover have "good a rank G (watcherDepend c s1)" using dep by blast
  moreover have "steady s (watcherDepend c s1)" using dep steady_trans [OF s1(3)] by blast
  moreover have "C \<union> set (x_newDeps (r_watchers s ! w)) \<subseteq> set (x_newDeps (r_watchers (watcherDepend c s1) ! w))"
    using dep tgt s1(5) steady_new [OF s1(3) assms(2)] good_target [OF assms(1, 2)] by fastforce
  ultimately show thesis by (rule that)
qed

text \<open>A getter that has a value collects the deps that stand for what it read.\<close>

lemma runProg_good:
  assumes "evals G os T p v T'" "good a rank G s" "r_objs s = os" "r_target s = Some w" "callsIn p \<subseteq> callsIn (G w)"
    "T \<subseteq> set (x_newDeps (r_watchers s ! w))" "rank w \<le> n"
  shows "\<exists>s'. runProg a (computedGetter a n) p s = OK v s' \<and> good a rank G s' \<and> steady s s' \<and> T' \<subseteq> set (x_newDeps (r_watchers s' ! w))"
  using assms
proof (induction arbitrary: s w n rule: evals.induct)
  case (evals_Done T v)
  then show ?case by simp
next
  case (evals_Get o1 k p d T f v T')
  obtain s1 where s1: "getProp a o1 k s = OK (p_value p) s1" "good a rank G s1" "steady s s1"
    "insert d (set_option (p_childOb p)) \<union> set (x_newDeps (r_watchers s ! w)) \<subseteq> set (x_newDeps (r_watchers s1 ! w))"
    by (rule getProp_good [OF evals_Get.prems(1, 3)]) (use evals_Get in auto)
  note D = steadyD [OF s1(3)]
  have "\<exists>s'. runProg a (computedGetter a n) (f (p_value p)) s1 = OK v s' \<and> good a rank G s' \<and> steady s1 s'
      \<and> T' \<subseteq> set (x_newDeps (r_watchers s' ! w))"
    by (rule evals_Get.IH [OF s1(2)]) (use evals_Get.prems D s1(4) in auto)
  then show ?case using s1(1) steady_trans [OF s1(3)] by auto
next
  case (evals_Items b d T f v T')
  have "runProg a (computedGetter a n) (Items b f) s = runProg a (computedGetter a n) (f (b_items (os ! b))) s"
    using evals_Items by (simp add: objAt_def)
  moreover have "\<exists>s'. runProg a (computedGetter a n) (f (b_items (os ! b))) s = OK v s' \<and> good a rank G s' \<and> steady s s'
      \<and> T' \<subseteq> set (x_newDeps (r_watchers s' ! w))"
    by (rule evals_Items.IH) (use evals_Items.prems in auto)
  ultimately show ?case by simp
next
  case (evals_Computed c u C T f v T')
  note gt = good_target [OF evals_Computed.prems(1, 3)]
  have "c \<in> callsIn (G w)" using evals_Computed.prems(4) by auto
  then have c: "c < length (r_watchers s)" "x_active (r_watchers s ! c)" "x_lazy (r_watchers s ! c)" "rank c < rank w"
    using evals_Computed.prems(1) gt calls_okD(3) unfolding good_def by blast+
  then obtain m where m: "n = Suc m" "rank c \<le> m" using evals_Computed.prems(6) by (cases n) auto
  have stk: "\<forall>t \<in> set (targetStack s). rank c < rank t"
    using evals_Computed.prems(1, 3) c(4) by (auto simp: good_def stack_ok_def targetStack_def)
  obtain s1 where s1: "computedGetter a (Suc m) c s = OK u s1" "good a rank G s1" "steady s s1"
    "C \<union> set (x_newDeps (r_watchers s ! w)) \<subseteq> set (x_newDeps (r_watchers s1 ! w))"
  proof (rule computedGetter_good [OF evals_Computed.prems(1, 3) c(1-3) stk])
    show "evals G (r_objs s) {} (G c) u C" using evals_Computed by simp
    show "\<exists>s2. runProg a (computedGetter a m) (G c) (pushTarget (Some c) s) = OK u s2
      \<and> good a rank G s2 \<and> steady (pushTarget (Some c) s) s2 \<and> C \<subseteq> set (x_newDeps (r_watchers s2 ! c))"
      if "good a rank G (pushTarget (Some c) s)"
      by (rule evals_Computed.IH(1) [OF that]) (use evals_Computed.prems m in simp_all)
  qed blast
  note D = steadyD [OF s1(3)]
  have "\<exists>s'. runProg a (computedGetter a n) (f u) s1 = OK v s' \<and> good a rank G s' \<and> steady s1 s'
      \<and> T' \<subseteq> set (x_newDeps (r_watchers s' ! w))"
    by (rule evals_Computed.IH(2) [OF s1(2)]) (use evals_Computed.prems D s1(4) in auto)
  then show ?case using s1(1) steady_trans [OF s1(3)] m(1) by (auto simp del: computedGetter.simps)
qed

section \<open>Watchers that are not computed properties\<close>

text \<open>Between evaluations nothing is on the stack of targets.\<close>

definition idle :: "rs \<Rightarrow> bool" where
  "idle s \<longleftrightarrow> r_target s = None \<and> r_targets s = []"

lemma idle_stack: "idle s \<Longrightarrow> targetStack s = []"
  by (simp add: idle_def targetStack_def)

lemma getW_good:
  assumes "good a rank G s" "idle s" "w < length (r_watchers s)" "x_active (r_watchers s ! w)" "\<not> x_deep (r_watchers s ! w)"
    "x_lazy (r_watchers s ! w) \<longrightarrow> x_dirty (r_watchers s ! w)" "evals G (r_objs s) {} (G w) v T" "rank w \<le> n"
  obtains s' where "getW a n w s = OK v s'" "good a rank G s'" "steady_but w s s'" "idle s'"
    "T \<subseteq> set (x_deps (r_watchers s' ! w))" "x_value (r_watchers s' ! w) = x_value (r_watchers s ! w)"
    "x_dirty (r_watchers s' ! w) = x_dirty (r_watchers s ! w)"
proof -
  have stk: "\<forall>t \<in> set (targetStack s). rank w < rank t" using idle_stack [OF assms(2)] by simp
  have "\<exists>s2. runProg a (computedGetter a n) (G w) (pushTarget (Some w) s) = OK v s2 \<and> good a rank G s2
      \<and> steady (pushTarget (Some w) s) s2 \<and> T \<subseteq> set (x_newDeps (r_watchers s2 ! w))"
    if "good a rank G (pushTarget (Some w) s)"
    by (rule runProg_good [OF assms(7) that]) (use assms(8) in simp_all)
  then obtain s' where s': "watcherGet a (computedGetter a n) w s = OK v s'" "good a rank G s'" "steady_but w s s'"
    "T \<subseteq> set (x_deps (r_watchers s' ! w))" "x_value (r_watchers s' ! w) = x_value (r_watchers s ! w)"
    "x_dirty (r_watchers s' ! w) = x_dirty (r_watchers s ! w)"
    using watcherGet_good [OF assms(1, 3-5) stk assms(6)] by blast
  moreover have "idle s'" using s'(3) assms(2) by (simp add: steady_but_def idle_def)
  ultimately show thesis using that by (simp add: getW_def)
qed

lemma subscribed:
  "good a rank G s \<Longrightarrow> w < length (r_watchers s) \<Longrightarrow> x_active (r_watchers s ! w) \<Longrightarrow> d \<in> set (x_deps (r_watchers s ! w)) \<Longrightarrow>
     d < length (r_deps s) \<and> w \<in> set (r_deps s ! d)"
  by (auto simp: good_def sub_inv_def Let_def)

text \<open>
  C17. A watcher evaluates its getter and the computed properties it calls, of which those that are not dirty
  answer from their cache: the result is the value of the getter on the heap as it is now, and
  afterwards the watcher is subscribed to the deps of everything that was read, directly or below a
  computed property. The stack of targets is empty again.
\<close>

theorem getW_collects:
  assumes "good a rank G s" "idle s" "w < length (r_watchers s)" "x_active (r_watchers s ! w)" "\<not> x_deep (r_watchers s ! w)"
    "x_lazy (r_watchers s ! w) \<longrightarrow> x_dirty (r_watchers s ! w)" "evals G (r_objs s) {} (G w) v T" "rank w \<le> n"
  shows "\<exists>s'. getW a n w s = OK v s' \<and> good a rank G s' \<and> idle s' \<and> r_objs s' = r_objs s
    \<and> (\<forall>d \<in> T. d \<in> set (x_deps (r_watchers s' ! w)) \<and> w \<in> set (r_deps s' ! d))"
proof -
  obtain s' where s': "getW a n w s = OK v s'" "good a rank G s'" "steady_but w s s'" "idle s'"
      "T \<subseteq> set (x_deps (r_watchers s' ! w))"
    using getW_good [OF assms] by blast
  have "w < length (r_watchers s')" "x_active (r_watchers s' ! w)"
    using s'(3) assms(3, 4) by (simp_all add: steady_but_def fixed_def)
  then have "\<forall>d \<in> T. w \<in> set (r_deps s' ! d)" using subscribed [OF s'(2)] s'(5) by blast
  then show ?thesis using s' by (auto simp: steady_but_def)
qed

text \<open>Running a watcher whose callback leaves the state alone.\<close>

lemma store_value_good:
  assumes "good a rank G s" "w < length (r_watchers s)" "\<not> x_lazy (r_watchers s ! w)"
  shows "good a rank G (updW w (\<lambda>y. y \<lparr> x_value := v \<rparr>) s)" (is "good a rank G ?s")
proof -
  note g = assms(1) [unfolded good_def]
  have fixd: "fixed (r_watchers ?s ! u) = fixed (r_watchers s ! u)" for u
    using assms(2) by (simp add: updW_at fixed_def)
  have same: "x_active (r_watchers ?s ! u) = x_active (r_watchers s ! u)" "x_deps (r_watchers ?s ! u) = x_deps (r_watchers s ! u)"
    "x_newDeps (r_watchers ?s ! u) = x_newDeps (r_watchers s ! u)" "x_depIds (r_watchers ?s ! u) = x_depIds (r_watchers s ! u)"
    "x_newDepIds (r_watchers ?s ! u) = x_newDepIds (r_watchers s ! u)" "x_lazy (r_watchers ?s ! u) = x_lazy (r_watchers s ! u)"
    "x_dirty (r_watchers ?s ! u) = x_dirty (r_watchers s ! u)" for u
    using assms(2) by (simp_all add: updW_at)
  have "sub_inv s" using g by blast
  then have "sub_inv ?s" unfolding sub_inv_def updW_simps same Let_def .
  moreover have "heap_ok a ?s" using g by (simp add: heap_ok_def)
  moreover have "stack_ok rank ?s" using g unfolding stack_ok_def updW_simps same by blast
  moreover have "calls_ok rank G ?s" by (rule calls_ok_fixed [OF _ _ fixd]) (use g in simp_all)
  moreover have "cache_ok G ?s"
    unfolding cache_ok_def updW_simps same
  proof (intro allI impI)
    fix c assume c: "c < length (r_watchers s)" "x_active (r_watchers s ! c)" "x_lazy (r_watchers s ! c)"
    then have "x_dirty (r_watchers s ! c) \<or> current G s c" using g unfolding cache_ok_def by blast
    moreover have "c \<noteq> w" using c(3) assms(3) by auto
    ultimately show "x_dirty (r_watchers s ! c) \<or> current G ?s c"
      using assms(2) unfolding current_def updW_simps same by (simp add: updW_at)
  qed
  ultimately show ?thesis by (simp add: good_def)
qed

lemma runW_good:
  assumes "good a rank G s" "idle s" "w < length (r_watchers s)" "\<not> x_lazy (r_watchers s ! w)"
    "\<not> x_deep (r_watchers s ! w)" "\<exists>v T. evals G (r_objs s) {} (G w) v T" "rank w \<le> n" "\<And>u v s. cb w v u s = s"
  obtains s' where "runW cb a n w s = OK () s'" "good a rank G s'" "steady_but w s s'" "idle s'"
    "x_active (r_watchers s ! w) \<longrightarrow> current G s' w"
proof (cases "x_active (r_watchers s ! w)")
  case False
  then have "runW cb a n w s = OK () s" by (simp add: runW_def)
  moreover have "steady_but w s s" by (simp add: steady_but_def)
  ultimately show ?thesis using that assms(1, 2) False by blast
next
  case True
  obtain v T where vT: "evals G (r_objs s) {} (G w) v T" using assms(6) by blast
  have "x_lazy (r_watchers s ! w) \<longrightarrow> x_dirty (r_watchers s ! w)" using assms(4) by simp
  then obtain s1 where s1: "getW a n w s = OK v s1" "good a rank G s1" "steady_but w s s1" "idle s1"
    "T \<subseteq> set (x_deps (r_watchers s1 ! w))" "x_value (r_watchers s1 ! w) = x_value (r_watchers s ! w)"
    using getW_good [OF assms(1-3) True assms(5) _ vT assms(7)] by blast
  have w1: "w < length (r_watchers s1)" "r_objs s1 = r_objs s" "\<not> x_lazy (r_watchers s1 ! w)"
    using s1(3) assms(3, 4) by (simp_all add: steady_but_def fixed_def)
  let ?s = "updW w (\<lambda>y. y \<lparr> x_value := v \<rparr>) s1"
  have old: "current G s1 w" if "v = x_value (r_watchers s1 ! w)"
    using vT s1(5) w1(2) that unfolding current_def by auto
  have new: "current G ?s w" using vT s1(5) w1 by (auto simp: current_def updW_at)
  have "steady_but w s ?s" using s1(3) w1(1) by (simp add: steady_but_def updW_at fixed_def)
  moreover have "idle ?s" using s1(4) by (simp add: idle_def)
  moreover have "good a rank G ?s" by (rule store_value_good [OF s1(2) w1(1, 3)])
  moreover have "runW cb a n w s = OK () ?s \<or> runW cb a n w s = OK () s1 \<and> v = x_value (r_watchers s1 ! w)"
    using True s1(1) assms(8) by (simp add: runW_def Let_def)
  ultimately show ?thesis using that s1(2-4) new old by blast
qed

section \<open>Tearing down\<close>

text \<open>
  A watcher that is torn down is a subscriber of no dep any more, so that no notification reaches it, and the
  deps of the other watchers are as before.
\<close>

theorem teardown_unsubscribes:
  assumes "sub_inv s" "w < length (r_watchers s)" "x_newDeps (r_watchers s ! w) = []"
  shows "\<not> x_active (r_watchers (teardown w s) ! w)
    \<and> (\<forall>d < length (r_deps s). set (r_deps (teardown w s) ! d) = set (r_deps s ! d) - {w})"
proof -
  let ?x = "r_watchers s ! w"
  have at: "sub_at s w" "deps_ok s" using assms(1, 2) by (simp_all add: sub_inv_at)
  have mem: "w \<in> set (r_deps s ! d) \<longleftrightarrow> x_active ?x \<and> d \<in> set (x_deps ?x)" if "d < length (r_deps s)" for d
    using at(1) that assms(3) by (simp add: sub_at_def Let_def)
  show ?thesis
  proof (cases "x_active ?x")
    case False
    then show ?thesis using mem by (auto simp: teardown_def)
  next
    case True
    let ?s = "fold (\<lambda>d. removeSub d w) (rev (x_deps ?x)) s"
    have "distinct (rev (x_deps ?x))" using at(1) by (simp add: sub_at_def Let_def)
    note F = fold_removeSub [OF this, where P = "{}" and w = w and s = s, unfolded empty_iff if_False]
    have t: "teardown w s = updW w (\<lambda>y. y \<lparr> x_active := False \<rparr>) ?s" using True by (simp add: teardown_def)
    have len: "w < length (r_watchers ?s)" using F(1) assms(2) by simp
    have "set (r_deps ?s ! d) = set (r_deps s ! d) - {w}" if "d < length (r_deps s)" for d
      using F(4) [OF that] mem [OF that] at(2) that by (auto simp: deps_ok_def True)
    then show ?thesis using len by (simp add: t updW_def)
  qed
qed

lemma teardown_unsubscribes_witness:
  "\<exists>s w. \<not> x_active (r_watchers (teardown w s) ! w) \<and> set (r_deps s ! 0) = {0, 1} \<and> set (r_deps (teardown w s) ! 0) = {1}"
proof -
  define x where "x = \<lparr> x_lazy = False, x_sync = False, x_user = False, x_deep = False, x_active = True, x_dirty = False, x_value = Null,
    x_deps = [0], x_newDeps = [], x_depIds = [0], x_newDepIds = [], x_getter = Done Null, x_vm = 0 \<rparr>"
  define s where "s = \<lparr> r_objs = [], r_deps = [[0, 1]], r_watchers = [x, x], r_target = None, r_targets = [], r_sched = startSched \<rparr>"
  have "sub_inv s" "0 < length (r_watchers s)" "x_newDeps (r_watchers s ! 0) = []"
    by (auto simp: sub_inv_def s_def x_def Let_def less_Suc_eq)
  from teardown_unsubscribes [OF this] show ?thesis by (intro exI [of _ s] exI [of _ 0]) (auto simp: s_def)
qed

text \<open>
  An error in the getter of a watcher that is not one of the user leaves the watcher as the target, as
  \<open>popTarget\<close> is not called: what is read afterwards, by any code, becomes a dep of the watcher.
\<close>

lemma getter_error_keeps_target:
  assumes "x_getter (r_watchers s ! w) = Throw" "\<not> x_user (r_watchers s ! w)" "w < length (r_watchers s)"
    "d \<notin> set (x_newDepIds (r_watchers s ! w))"
  shows "\<exists>s'. getW a n w s = Thrown s' \<and> r_target s' = Some w \<and> d \<in> set (x_newDeps (r_watchers (depend d s') ! w))"
proof -
  let ?s = "pushTarget (Some w) s"
  have "getW a n w s = Thrown ?s" using assms(1, 2) by (simp add: getW_def watcherGet_def Let_def)
  moreover have "d \<in> set (x_newDeps (r_watchers (depend d ?s) ! w))"
    using assms(3, 4) by (simp add: depend_def addDep_watcher Let_def)
  ultimately show ?thesis by simp
qed

end
