(* ===== verification/VueObserver.thy ===== *)
theory VueObserver
  imports VueReactive
begin

text \<open>
  What \<open>observe\<close> does to the heap: it ends, observes every object below the value that can be observed, and
  leaves the objects that are observed already as they are.
\<close>

section \<open>The heap\<close>

definition fresh :: "obj \<Rightarrow> bool" where
  "fresh b \<longleftrightarrow> b_ob b = None \<and> observable True b"

definition inRange :: "rs \<Rightarrow> val \<Rightarrow> bool" where
  "inRange s v = (case v of Ref o1 \<Rightarrow> o1 < length (r_objs s) | _ \<Rightarrow> True)"

definition obOf :: "rs \<Rightarrow> val \<Rightarrow> nat option" where
  "obOf s v = (case v of Ref o1 \<Rightarrow> b_ob (objAt s o1) | _ \<Rightarrow> None)"

definition freshVal :: "rs \<Rightarrow> val \<Rightarrow> bool" where
  "freshVal s v = (case v of Ref o1 \<Rightarrow> fresh (objAt s o1) | _ \<Rightarrow> False)"

text \<open>No property of an object that is not observed is reactive, and references and deps exist.\<close>

definition slot_ids :: "rs \<Rightarrow> slot \<Rightarrow> bool" where
  "slot_ids s p \<longleftrightarrow> (\<forall>d \<in> set_option (p_dep p) \<union> set_option (p_childOb p). d < length (r_deps s))"

definition heap_plain :: "rs \<Rightarrow> bool" where
  "heap_plain s \<longleftrightarrow>
     (\<forall>o1 < length (r_objs s).
        (\<forall>k p. map_of (b_props (objAt s o1)) k = Some p \<longrightarrow>
           inRange s (p_value p) \<and> (fresh (objAt s o1) \<longrightarrow> p_dep p = None) \<and> slot_ids s p)
        \<and> (\<forall>v \<in> set (b_items (objAt s o1)). inRange s v)
        \<and> (\<forall>d. b_ob (objAt s o1) = Some d \<longrightarrow> d < length (r_deps s)))"

text \<open>A reactive property knows the observer of its value, and its value is observed if it can be.\<close>

definition slot_done :: "rs \<Rightarrow> slot \<Rightarrow> bool" where
  "slot_done s p \<longleftrightarrow>
     (p_configurable p \<longrightarrow> p_dep p \<noteq> None \<and> p_childOb p = obOf s (p_value p) \<and> \<not> freshVal s (p_value p))"

definition complete :: "rs \<Rightarrow> nat \<Rightarrow> bool" where
  "complete s o1 \<longleftrightarrow>
     (if b_kind (objAt s o1) = ArrayObject then \<forall>v \<in> set (b_items (objAt s o1)). \<not> freshVal s v
      else \<forall>k p. map_of (b_props (objAt s o1)) k = Some p \<longrightarrow> slot_done s p)"

definition shape :: "obj \<Rightarrow> kind \<times> bool \<times> bool \<times> val list \<times> jstr list \<times> (jstr \<Rightarrow> val option)" where
  "shape b = (b_kind b, b_extensible b, b_isVue b, b_items b, map fst (b_props b), \<lambda>k. map_option p_value (map_of (b_props b) k))"

text \<open>Objects become observed, with everything below them; those in \<open>X\<close> are being walked through.\<close>

definition grows :: "nat set \<Rightarrow> rs \<Rightarrow> rs \<Rightarrow> bool" where
  "grows X s s' \<longleftrightarrow>
     r_watchers s' = r_watchers s \<and> r_target s' = r_target s \<and> r_targets s' = r_targets s \<and> r_sched s' = r_sched s
     \<and> (\<exists>n. r_deps s' = r_deps s @ replicate n []) \<and> length (r_objs s') = length (r_objs s)
     \<and> (\<forall>o1 < length (r_objs s). shape (objAt s' o1) = shape (objAt s o1)
          \<and> (if o1 \<in> X then b_ob (objAt s' o1) = b_ob (objAt s o1)
             else objAt s' o1 = objAt s o1 \<or> fresh (objAt s o1) \<and> b_ob (objAt s' o1) \<noteq> None \<and> complete s' o1))"

lemma heap_plainD:
  assumes "heap_plain s" "o1 < length (r_objs s)"
  shows "map_of (b_props (objAt s o1)) k = Some p \<Longrightarrow> inRange s (p_value p) \<and> (fresh (objAt s o1) \<longrightarrow> p_dep p = None) \<and> slot_ids s p"
    "v \<in> set (b_items (objAt s o1)) \<Longrightarrow> inRange s v" "b_ob (objAt s o1) = Some d \<Longrightarrow> d < length (r_deps s)"
  using assms unfolding heap_plain_def by blast+

lemma heap_plainI:
  assumes "\<And>o1 k p. o1 < length (r_objs s) \<Longrightarrow> map_of (b_props (objAt s o1)) k = Some p \<Longrightarrow>
      inRange s (p_value p) \<and> (fresh (objAt s o1) \<longrightarrow> p_dep p = None) \<and> slot_ids s p"
    "\<And>o1 v. o1 < length (r_objs s) \<Longrightarrow> v \<in> set (b_items (objAt s o1)) \<Longrightarrow> inRange s v"
    "\<And>o1 d. o1 < length (r_objs s) \<Longrightarrow> b_ob (objAt s o1) = Some d \<Longrightarrow> d < length (r_deps s)"
  shows "heap_plain s"
  using assms unfolding heap_plain_def by blast

lemma slot_ids_mono: "slot_ids s p \<Longrightarrow> length (r_deps s) \<le> length (r_deps s') \<Longrightarrow> slot_ids s' p"
  by (auto simp: slot_ids_def)

lemma shape_fields:
  "shape b' = shape b \<Longrightarrow> b_kind b' = b_kind b \<and> b_extensible b' = b_extensible b \<and> b_isVue b' = b_isVue b
     \<and> b_items b' = b_items b \<and> map fst (b_props b') = map fst (b_props b)"
  by (simp add: shape_def)

lemma shape_slot: "shape b' = shape b \<Longrightarrow> map_of (b_props b') k = Some p' \<Longrightarrow> \<exists>p. map_of (b_props b) k = Some p \<and> p_value p = p_value p'"
proof -
  assume 1: "shape b' = shape b" and 2: "map_of (b_props b') k = Some p'"
  have "map_option p_value (map_of (b_props b') k) = map_option p_value (map_of (b_props b) k)"
    using 1 by (simp add: shape_def fun_eq_iff)
  then show ?thesis using 2 by (cases "map_of (b_props b) k") auto
qed

lemma shape_observable: "shape b' = shape b \<Longrightarrow> observable c b' = observable c b"
  using shape_fields [of b' b] by (simp add: observable_def)

lemma growsD:
  assumes "grows X s s'"
  shows "r_watchers s' = r_watchers s" "r_target s' = r_target s" "r_targets s' = r_targets s" "r_sched s' = r_sched s"
    "length (r_objs s') = length (r_objs s)" "o1 < length (r_objs s) \<Longrightarrow> shape (objAt s' o1) = shape (objAt s o1)"
    "inRange s' v = inRange s v" "length (r_deps s) \<le> length (r_deps s')"
  using assms by (auto simp: grows_def inRange_def split: val.split)

lemma grows_at:
  assumes "grows X s s'" "o1 < length (r_objs s)"
  shows "o1 \<in> X \<Longrightarrow> b_ob (objAt s' o1) = b_ob (objAt s o1)"
    "o1 \<notin> X \<Longrightarrow> objAt s' o1 = objAt s o1 \<or> fresh (objAt s o1) \<and> b_ob (objAt s' o1) \<noteq> None \<and> complete s' o1"
  using assms unfolding grows_def by metis+

lemma grows_refl [simp]: "grows X s s"
  by (auto simp: grows_def intro: exI [of _ 0])

text \<open>What is observed stays observed.\<close>

lemma grows_obOf:
  assumes "grows X s s'" "inRange s v" "\<not> freshVal s v"
  shows "obOf s' v = obOf s v \<and> \<not> freshVal s' v"
proof (cases v)
  case (Ref o1)
  then have o1: "o1 < length (r_objs s)" "\<not> fresh (objAt s o1)" using assms by (simp_all add: inRange_def freshVal_def)
  then have "b_ob (objAt s' o1) = b_ob (objAt s o1)" using assms(1) by (auto simp: grows_def split: if_splits)
  moreover have "observable True (objAt s' o1) = observable True (objAt s o1)"
    by (rule shape_observable) (use growsD(6) [OF assms(1)] o1 in blast)
  ultimately show ?thesis using o1 Ref by (simp add: obOf_def freshVal_def fresh_def)
qed (use assms in \<open>simp_all add: obOf_def freshVal_def\<close>)

lemma slot_done_grows: "grows X s s' \<Longrightarrow> inRange s (p_value p) \<Longrightarrow> slot_done s p \<Longrightarrow> slot_done s' p"
  using grows_obOf by (auto simp: slot_done_def)

lemma complete_grows:
  assumes "grows X s s'" "heap_plain s" "o1 < length (r_objs s)" "complete s o1" "objAt s' o1 = objAt s o1"
  shows "complete s' o1"
  using assms(4, 5) grows_obOf [OF assms(1)] slot_done_grows [OF assms(1)] heap_plainD [OF assms(2, 3)]
  unfolding complete_def by (auto split: if_splits)

lemma grows_trans:
  assumes "grows X s s1" "grows X s1 s2" "heap_plain s1"
  shows "grows X s s2"
proof -
  note D = growsD [OF assms(1)] and D2 = growsD [OF assms(2)]
  obtain n m where "r_deps s1 = r_deps s @ replicate n []" "r_deps s2 = r_deps s1 @ replicate m []"
    using assms(1, 2) by (auto simp: grows_def)
  then have "r_deps s2 = r_deps s @ replicate (n + m) []" by (simp add: replicate_add)
  moreover have "objAt s2 o1 = objAt s o1 \<or> fresh (objAt s o1) \<and> b_ob (objAt s2 o1) \<noteq> None \<and> complete s2 o1"
    if o1: "o1 < length (r_objs s)" "o1 \<notin> X" for o1
  proof -
    have l: "o1 < length (r_objs s1)" using o1 D by simp
    have 1: "objAt s1 o1 = objAt s o1 \<or> fresh (objAt s o1) \<and> b_ob (objAt s1 o1) \<noteq> None \<and> complete s1 o1"
      using grows_at(2) [OF assms(1)] o1 by blast
    have 2: "objAt s2 o1 = objAt s1 o1 \<or> fresh (objAt s1 o1) \<and> b_ob (objAt s2 o1) \<noteq> None \<and> complete s2 o1"
      using grows_at(2) [OF assms(2) l o1(2)] .
    show ?thesis
    proof (cases "objAt s1 o1 = objAt s o1")
      case True
      then show ?thesis using 2 by auto
    next
      case False
      then have 3: "fresh (objAt s o1)" "b_ob (objAt s1 o1) \<noteq> None" "complete s1 o1" using 1 by auto
      then have "objAt s2 o1 = objAt s1 o1" using 2 by (auto simp: fresh_def)
      then show ?thesis using 3 complete_grows [OF assms(2, 3) l] by simp
    qed
  qed
  moreover have "b_ob (objAt s2 o1) = b_ob (objAt s o1)" if "o1 < length (r_objs s)" "o1 \<in> X" for o1
    using assms(1, 2) that D by (simp add: grows_def)
  ultimately show ?thesis using D D2 unfolding grows_def by auto
qed

lemma grows_insert:
  assumes "grows X s s'" "\<not> fresh (objAt s o1)"
  shows "grows (insert o1 X) s s'"
proof -
  have "b_ob (objAt s' o1) = b_ob (objAt s o1)" if "o1 < length (r_objs s)"
    using assms that by (auto simp: grows_def split: if_splits)
  then show ?thesis using assms(1) by (auto simp: grows_def)
qed

text \<open>The number of objects that are not observed yet.\<close>

definition unobserved :: "rs \<Rightarrow> nat" where
  "unobserved s = card {o1. o1 < length (r_objs s) \<and> fresh (objAt s o1)}"

lemma unobserved_grows: "grows X s s' \<Longrightarrow> unobserved s' \<le> unobserved s"
proof -
  assume g: "grows X s s'"
  have "{o1. o1 < length (r_objs s') \<and> fresh (objAt s' o1)} \<subseteq> {o1. o1 < length (r_objs s) \<and> fresh (objAt s o1)}"
  proof (intro subsetI CollectI, elim CollectE conjE, intro conjI)
    fix o1 assume o1: "o1 < length (r_objs s')" "fresh (objAt s' o1)"
    then show "o1 < length (r_objs s)" using growsD [OF g] by simp
    then show "fresh (objAt s o1)"
      using grows_obOf [OF g, of "Ref o1"] o1 by (auto simp: inRange_def freshVal_def)
  qed
  then show ?thesis unfolding unobserved_def by (intro card_mono) auto
qed

lemma unobserved_bound: "unobserved s \<le> length (r_objs s)"
proof -
  have "{o1. o1 < length (r_objs s) \<and> fresh (objAt s o1)} \<subseteq> {..<length (r_objs s)}" by auto
  then show ?thesis unfolding unobserved_def using card_mono [of "{..<length (r_objs s)}"] by simp
qed

section \<open>Making a property reactive\<close>

lemma map_of_setProp [simp]: "map_of (setProp k v m) k' = (if k' = k then Some v else map_of m k')"
  by (induction m) auto

lemma keys_setProp: "map_of m k \<noteq> None \<Longrightarrow> map fst (setProp k v m) = map fst m"
  by (induction m) (auto split: if_splits)

lemma updObj_simps [simp]:
  "r_watchers (updObj o1 f s) = r_watchers s" "r_deps (updObj o1 f s) = r_deps s" "r_target (updObj o1 f s) = r_target s"
  "r_targets (updObj o1 f s) = r_targets s" "r_sched (updObj o1 f s) = r_sched s"
  "length (r_objs (updObj o1 f s)) = length (r_objs s)"
  by (simp_all add: updObj_def)

lemma updObj_at: "o1 < length (r_objs s) \<Longrightarrow> objAt (updObj o1 f s) o2 = (if o2 = o1 then f (objAt s o1) else objAt s o2)"
  by (simp add: updObj_def objAt_def nth_list_update)

lemma inRange_updObj [simp]: "inRange (updObj o1 f s) v = inRange s v"
  by (simp add: inRange_def split: val.split)

lemma obOf_exists: "heap_plain s \<Longrightarrow> inRange s v \<Longrightarrow> obOf s v = Some d \<Longrightarrow> d < length (r_deps s)"
  using heap_plainD(3) by (auto simp: obOf_def inRange_def split: val.splits)

lemma newDep_grows: "newDep s = (d, s1) \<Longrightarrow> grows X s s1 \<and> r_objs s1 = r_objs s \<and> d = length (r_deps s)"
  by (auto simp: newDep_def grows_def objAt_def intro: exI [of _ 1])

lemma heap_plain_objs:
  assumes "heap_plain s" "r_objs s1 = r_objs s" "length (r_deps s) \<le> length (r_deps s1)"
  shows "heap_plain s1"
proof (rule heap_plainI)
  have eq: "objAt s1 o1 = objAt s o1" "inRange s1 v = inRange s v" for o1 v
    by (simp_all add: objAt_def inRange_def assms(2) split: val.split)
  fix o1 assume o1: "o1 < length (r_objs s1)"
  then have l: "o1 < length (r_objs s)" by (simp add: assms(2))
  show "inRange s1 (p_value p) \<and> (fresh (objAt s1 o1) \<longrightarrow> p_dep p = None) \<and> slot_ids s1 p"
    if "map_of (b_props (objAt s1 o1)) k = Some p" for k p
    using heap_plainD(1) [OF assms(1) l] that slot_ids_mono [OF _ assms(3)] unfolding eq by blast
  show "inRange s1 v" if "v \<in> set (b_items (objAt s1 o1))" for v
    using heap_plainD(2) [OF assms(1) l] that unfolding eq by blast
  show "d < length (r_deps s1)" if "b_ob (objAt s1 o1) = Some d" for d
    using heap_plainD(3) [OF assms(1) l] that assms(3) unfolding eq by fastforce
qed

lemma unobserved_objs: "r_objs s1 = r_objs s \<Longrightarrow> unobserved s1 = unobserved s"
  by (simp add: unobserved_def objAt_def)

lemma defineSlot_grows:
  fixes d :: nat and c :: "nat option"
  assumes "heap_plain s" "o1 < length (r_objs s)" "b_ob (objAt s o1) \<noteq> None" "map_of (b_props (objAt s o1)) k = Some p"
    "\<forall>e \<in> insert d (set_option c). e < length (r_deps s)"
  defines "s' \<equiv> defineSlot o1 k (p_value p) d c s"
  shows "grows {o1} s s'" "heap_plain s'" "inRange s (p_value p)"
proof -
  have at: "objAt s' o2 = (if o2 = o1 then (objAt s o1) \<lparr> b_props := setProp k \<lparr> p_value = p_value p, p_dep = Some d, p_childOb = c, p_configurable = True \<rparr> (b_props (objAt s o1)) \<rparr> else objAt s o2)" for o2
    by (simp add: s'_def defineSlot_def updObj_at [OF assms(2)])
  have "shape (objAt s' o1) = shape (objAt s o1)"
    using assms(4) by (simp add: at shape_def keys_setProp fun_eq_iff)
  moreover have "r_watchers s' = r_watchers s" "r_deps s' = r_deps s" "r_target s' = r_target s" "r_targets s' = r_targets s"
    "r_sched s' = r_sched s" and len: "length (r_objs s') = length (r_objs s)"
    by (simp_all add: s'_def defineSlot_def)
  ultimately show "grows {o1} s s'" by (auto simp: grows_def at intro: exI [of _ 0])
  show r: "inRange s (p_value p)" using heap_plainD(1) [OF assms(1, 2, 4)] by blast
  have deps: "r_deps s' = r_deps s" by (simp add: s'_def defineSlot_def)
  have rng: "inRange s' v = inRange s v" "slot_ids s' q = slot_ids s q" for v q
    by (simp_all add: s'_def defineSlot_def slot_ids_def)
  have fr: "\<not> fresh (objAt s' o1)" using assms(3) by (simp add: at fresh_def)
  show "heap_plain s'"
  proof (rule heap_plainI)
    fix o2 assume "o2 < length (r_objs s')"
    then have o2: "o2 < length (r_objs s)" using len by simp
    note D = heap_plainD [OF assms(1) o2]
    show "inRange s' (p_value q) \<and> (fresh (objAt s' o2) \<longrightarrow> p_dep q = None) \<and> slot_ids s' q"
      if q: "map_of (b_props (objAt s' o2)) k' = Some q" for k' q
    proof (cases "o2 = o1")
      case True
      show ?thesis
      proof (cases "k' = k")
        case True
        then show ?thesis using q \<open>o2 = o1\<close> r fr assms(5) by (auto simp: at rng slot_ids_def deps)
      next
        case False
        then show ?thesis using D(1) [of k' q] q True fr by (simp add: at rng)
      qed
    next
      case False
      then show ?thesis using D(1) [of k' q] q by (simp add: at rng)
    qed
    show "inRange s' v" if "v \<in> set (b_items (objAt s' o2))" for v
      using D(2) [of v] that by (simp add: at rng split: if_splits)
    show "e < length (r_deps s')" if "b_ob (objAt s' o2) = Some e" for e
      using D(3) [of e] that by (simp add: at deps split: if_splits)
  qed
qed

definition obs_ok :: "nat \<Rightarrow> (val \<Rightarrow> rs \<Rightarrow> nat option res) \<Rightarrow> bool" where
  "obs_ok m ob \<longleftrightarrow>
     (\<forall>v s. heap_plain s \<longrightarrow> inRange s v \<longrightarrow> unobserved s \<le> m \<longrightarrow>
        (\<exists>s'. ob v s = OK (obOf s' v) s' \<and> grows {} s s' \<and> heap_plain s' \<and> \<not> freshVal s' v))"

definition slotIn :: "rs \<Rightarrow> nat \<Rightarrow> jstr \<Rightarrow> slot option" where
  "slotIn s o1 k = map_of (b_props (objAt s o1)) k"

lemma obs_okD:
  assumes "obs_ok m ob" "heap_plain s" "inRange s v" "unobserved s \<le> m" "o1 < length (r_objs s)" "b_ob (objAt s o1) \<noteq> None"
  obtains s' where "ob v s = OK (obOf s' v) s'" "grows {o1} s s'" "heap_plain s'" "\<not> freshVal s' v" "objAt s' o1 = objAt s o1"
proof -
  obtain s' where s': "ob v s = OK (obOf s' v) s'" "grows {} s s'" "heap_plain s'" "\<not> freshVal s' v"
    using assms(1-4) unfolding obs_ok_def by blast
  have fr: "\<not> fresh (objAt s o1)" using assms(6) by (simp add: fresh_def)
  have "objAt s' o1 = objAt s o1" using grows_at(2) [OF s'(2) assms(5)] fr by simp
  then show thesis using that s' grows_insert [OF s'(2) fr] by simp
qed

lemma defineWith_grows:
  assumes "obs_ok m ob" "heap_plain s" "o1 < length (r_objs s)" "b_ob (objAt s o1) \<noteq> None"
    "slotIn s o1 k = Some p" "unobserved s \<le> m"
  shows "\<exists>s'. defineWith ob o1 k (p_value p) s = OK () s' \<and> grows {o1} s s' \<and> heap_plain s'
    \<and> (\<exists>p'. slotIn s' o1 k = Some p' \<and> slot_done s' p') \<and> (\<forall>k'. k' \<noteq> k \<longrightarrow> slotIn s' o1 k' = slotIn s o1 k')"
proof -
  obtain d s1 where nd: "newDep s = (d, s1)" by fastforce
  note nd1 = newDep_grows [OF nd]
  have o1: "objAt s1 o2 = objAt s o2" "o1 < length (r_objs s1)" "inRange s1 v = inRange s v" for o2 v
    using nd1 assms(3) by (simp_all add: objAt_def inRange_def split: val.split)
  have deps1: "length (r_deps s1) = Suc (length (r_deps s))" "d < length (r_deps s1)" using nd by (auto simp: newDep_def)
  have plain1: "heap_plain s1" by (rule heap_plain_objs [OF assms(2)]) (use nd1 deps1 in simp_all)
  have range: "inRange s1 (p_value p)" using heap_plainD(1) [OF assms(2, 3)] assms(5) o1(3) unfolding slotIn_def by blast
  show ?thesis
  proof (cases "p_configurable p")
    case False
    then have "defineWith ob o1 k (p_value p) s = OK () s1" using assms(5) by (simp add: defineWith_def nd o1(1) slotIn_def)
    then show ?thesis using nd1 plain1 False assms(5) by (auto simp: slotIn_def o1(1) slot_done_def)
  next
    case True
    have "unobserved s1 \<le> m" "b_ob (objAt s1 o1) \<noteq> None" using assms(4, 6) unobserved_objs [of s1 s] nd1 o1(1) by simp_all
    then obtain s2 where s2: "ob (p_value p) s1 = OK (obOf s2 (p_value p)) s2" "grows {o1} s1 s2" "heap_plain s2"
        "\<not> freshVal s2 (p_value p)" "objAt s2 o1 = objAt s1 o1"
      using obs_okD [OF assms(1) plain1 range _ o1(2)] by blast
    let ?s = "defineSlot o1 k (p_value p) d (obOf s2 (p_value p)) s2"
    have len2: "o1 < length (r_objs s2)" using growsD(5) [OF s2(2)] o1(2) by simp
    have slot2: "map_of (b_props (objAt s2 o1)) k = Some p" "b_ob (objAt s2 o1) \<noteq> None"
      using assms(4, 5) by (simp_all add: s2(5) o1(1) slotIn_def)
    have "e < length (r_deps s2)" if "e \<in> insert d (set_option (obOf s2 (p_value p)))" for e
      using that deps1(2) growsD(8) [OF s2(2)] obOf_exists [OF s2(3)] range growsD(7) [OF s2(2)] by auto
    then have "\<forall>e \<in> insert d (set_option (obOf s2 (p_value p))). e < length (r_deps s2)" by blast
    note ds = defineSlot_grows [OF s2(3) len2 slot2(2, 1) this]
    have g2: "grows {o1} s s2" using grows_trans [OF _ s2(2) plain1] nd1 by blast
    have "defineWith ob o1 k (p_value p) s = OK () ?s" using True assms(5) s2(1) by (simp add: defineWith_def nd o1(1) slotIn_def)
    moreover have "grows {o1} s ?s" by (rule grows_trans [OF g2 ds(1) s2(3)])
    moreover have "slotIn ?s o1 k' = (if k' = k
        then Some \<lparr> p_value = p_value p, p_dep = Some d, p_childOb = obOf s2 (p_value p), p_configurable = True \<rparr> else slotIn s o1 k')" for k'
      by (simp add: slotIn_def defineSlot_def updObj_at [OF len2] s2(5) o1(1))
    moreover have "slot_done ?s \<lparr> p_value = p_value p, p_dep = Some d, p_childOb = obOf s2 (p_value p), p_configurable = True \<rparr>"
      using grows_obOf [OF ds(1, 3) s2(4)] by (simp add: slot_done_def)
    ultimately show ?thesis using ds(2) by auto
  qed
qed

lemma walkWith_grows:
  assumes "obs_ok m ob" "heap_plain s" "o1 < length (r_objs s)" "b_ob (objAt s o1) \<noteq> None" "unobserved s \<le> m"
    "set ks \<subseteq> set (map fst (b_props (objAt s o1)))"
    "\<forall>k. k \<notin> set ks \<longrightarrow> (\<forall>p. slotIn s o1 k = Some p \<longrightarrow> slot_done s p)"
  shows "\<exists>s'. walkWith ob o1 ks s = OK () s' \<and> grows {o1} s s' \<and> heap_plain s'
    \<and> (\<forall>k p. slotIn s' o1 k = Some p \<longrightarrow> slot_done s' p)"
  using assms(2-7)
proof (induction ks arbitrary: s)
  case Nil
  then show ?case by (auto simp: walkWith_def)
next
  case (Cons k ks)
  have "map_of (b_props (objAt s o1)) k \<noteq> None" using Cons.prems(5) by (simp add: map_of_eq_None_iff)
  then obtain p where p: "slotIn s o1 k = Some p" by (auto simp: slotIn_def)
  obtain s1 where s1: "defineWith ob o1 k (p_value p) s = OK () s1" "grows {o1} s s1" "heap_plain s1"
      "\<exists>p'. slotIn s1 o1 k = Some p' \<and> slot_done s1 p'" "\<forall>k'. k' \<noteq> k \<longrightarrow> slotIn s1 o1 k' = slotIn s o1 k'"
    using defineWith_grows [OF assms(1) Cons.prems(1-3) p Cons.prems(4)] by blast
  have "walkWith ob o1 (k # ks) s = walkWith ob o1 ks s1" using p s1(1) by (simp add: walkWith_def slotIn_def)
  moreover have "\<exists>s'. walkWith ob o1 ks s1 = OK () s' \<and> grows {o1} s1 s' \<and> heap_plain s'
      \<and> (\<forall>k p. slotIn s' o1 k = Some p \<longrightarrow> slot_done s' p)"
  proof (rule Cons.IH [OF s1(3)])
    show "o1 < length (r_objs s1)" using growsD(5) [OF s1(2)] Cons.prems(2) by simp
    show "b_ob (objAt s1 o1) \<noteq> None" using grows_at(1) [OF s1(2) Cons.prems(2)] Cons.prems(3) by simp
    show "unobserved s1 \<le> m" using unobserved_grows [OF s1(2)] Cons.prems(4) by simp
    show "set ks \<subseteq> set (map fst (b_props (objAt s1 o1)))"
      using shape_fields [OF growsD(6) [OF s1(2) Cons.prems(2)]] Cons.prems(5) by simp
    show "\<forall>k'. k' \<notin> set ks \<longrightarrow> (\<forall>p. slotIn s1 o1 k' = Some p \<longrightarrow> slot_done s1 p)"
    proof (intro allI impI)
      fix k' q assume k': "k' \<notin> set ks" "slotIn s1 o1 k' = Some q"
      show "slot_done s1 q"
      proof (cases "k' = k")
        case False
        then have q: "slotIn s o1 k' = Some q" using s1(5) k' by auto
        then have "slot_done s q" using Cons.prems(6) k' False by simp
        moreover have "inRange s (p_value q)" using q heap_plainD(1) [OF Cons.prems(1, 2)] unfolding slotIn_def by blast
        ultimately show ?thesis using slot_done_grows [OF s1(2)] by blast
      qed (use s1(4) k' in auto)
    qed
  qed
  ultimately show ?case using grows_trans [OF s1(2) _ s1(3)] by metis
qed

lemma observeArrayWith_grows:
  assumes "obs_ok m ob" "heap_plain s" "unobserved s \<le> m" "\<forall>v \<in> set vs. inRange s v"
  shows "\<exists>s'. observeArrayWith ob vs s = OK () s' \<and> grows {} s s' \<and> heap_plain s' \<and> (\<forall>v \<in> set vs. \<not> freshVal s' v)"
  using assms(2-4)
proof (induction vs arbitrary: s)
  case Nil
  then show ?case by (simp add: observeArrayWith_def)
next
  case (Cons v vs)
  obtain s1 where s1: "ob v s = OK (obOf s1 v) s1" "grows {} s s1" "heap_plain s1" "\<not> freshVal s1 v"
    using assms(1) Cons.prems unfolding obs_ok_def by (meson list.set_intros(1))
  have "\<forall>v \<in> set vs. inRange s1 v" using Cons.prems(3) growsD(7) [OF s1(2)] by simp
  moreover have "unobserved s1 \<le> m" using unobserved_grows [OF s1(2)] Cons.prems(2) by simp
  ultimately obtain s2 where s2: "observeArrayWith ob vs s1 = OK () s2" "grows {} s1 s2" "heap_plain s2" "\<forall>v \<in> set vs. \<not> freshVal s2 v"
    using Cons.IH [OF s1(3)] by blast
  have "inRange s1 v" using Cons.prems(3) growsD(7) [OF s1(2)] by simp
  then have "\<not> freshVal s2 v" using grows_obOf [OF s2(2) _ s1(4)] by blast
  moreover have "observeArrayWith ob (v # vs) s = observeArrayWith ob vs s1" using s1(1) by (simp add: observeArrayWith_def)
  ultimately show ?case using grows_trans [OF s1(2) s2(2) s1(3)] s2 by auto
qed

section \<open>Observing a value\<close>

lemma observe_ref:
  "observe n True (Ref o1) s =
     (case b_ob (objAt s o1) of
        Some d \<Rightarrow> OK (Some d) s
      | None \<Rightarrow>
          if \<not> observable True (objAt s o1) then OK None s
          else (case n of
                  0 \<Rightarrow> NoFuel
                | Suc m \<Rightarrow>
                    (case newDep s of
                       (d, s1) \<Rightarrow>
                         (let s2 = updObj o1 (\<lambda>b. b \<lparr> b_ob := Some d, b_vmCount := 0 \<rparr>) s1;
                              b = objAt s2 o1
                          in bindR (if b_kind b = ArrayObject then observeArrayWith (observe m True) (b_items b) s2
                                    else walkWith (observe m True) o1 (map fst (b_props b)) s2)
                               (\<lambda>_ s3. OK (Some d) s3)))))"
  by (subst observe.simps) simp

lemma observe_other: "(\<And>o1. v \<noteq> Ref o1) \<Longrightarrow> observe n c v s = OK None s"
  by (subst observe.simps) (simp split: val.split)

lemma unobserved_pos:
  assumes "o1 < length (r_objs s)" "fresh (objAt s o1)" "length (r_objs s2) = length (r_objs s)"
    "\<And>o2. o2 \<noteq> o1 \<Longrightarrow> objAt s2 o2 = objAt s o2" "\<not> fresh (objAt s2 o1)"
  shows "unobserved s = Suc (unobserved s2)"
proof -
  let ?A = "{o2. o2 < length (r_objs s2) \<and> fresh (objAt s2 o2)}"
  have "{o2. o2 < length (r_objs s) \<and> fresh (objAt s o2)} = insert o1 ?A"
  proof (intro set_eqI)
    fix o2 show "o2 \<in> {o2. o2 < length (r_objs s) \<and> fresh (objAt s o2)} \<longleftrightarrow> o2 \<in> insert o1 ?A"
      using assms(1-3, 5) assms(4) [of o2] by (cases "o2 = o1") auto
  qed
  moreover have "o1 \<notin> ?A" "finite ?A" using assms(5) by auto
  ultimately show ?thesis by (simp add: unobserved_def)
qed

lemma start_observer:
  fixes s1 d
  assumes "heap_plain s" "o1 < length (r_objs s)" "fresh (objAt s o1)" "newDep s = (d, s1)"
  defines "s2 \<equiv> updObj o1 (\<lambda>b. b \<lparr> b_ob := Some d, b_vmCount := 0 \<rparr>) s1"
  shows "heap_plain s2" "unobserved s = Suc (unobserved s2)" "length (r_objs s2) = length (r_objs s)"
    "objAt s2 o1 = (objAt s o1) \<lparr> b_ob := Some d, b_vmCount := 0 \<rparr>" "o2 \<noteq> o1 \<Longrightarrow> objAt s2 o2 = objAt s o2"
    "inRange s2 v = inRange s v" "r_deps s2 = r_deps s @ [[]]" "r_watchers s2 = r_watchers s" "r_target s2 = r_target s"
    "r_targets s2 = r_targets s" "r_sched s2 = r_sched s"
proof -
  have n: "r_objs s1 = r_objs s" "r_deps s1 = r_deps s @ [[]]" "r_watchers s1 = r_watchers s" "r_target s1 = r_target s"
    "r_targets s1 = r_targets s" "r_sched s1 = r_sched s"
    using assms(4) by (auto simp: newDep_def)
  have o1: "o1 < length (r_objs s1)" using n assms(2) by simp
  have at1: "objAt s1 o2 = objAt s o2" for o2 by (simp add: objAt_def n)
  show own: "objAt s2 o1 = (objAt s o1) \<lparr> b_ob := Some d, b_vmCount := 0 \<rparr>" by (simp add: s2_def updObj_at [OF o1] at1)
  show oth: "objAt s2 o2 = objAt s o2" if "o2 \<noteq> o1" for o2 using that by (simp add: s2_def updObj_at [OF o1] at1)
  show len: "length (r_objs s2) = length (r_objs s)" by (simp add: s2_def n)
  show rng: "inRange s2 v = inRange s v" for v by (simp add: inRange_def len split: val.split)
  show "r_deps s2 = r_deps s @ [[]]" "r_watchers s2 = r_watchers s" "r_target s2 = r_target s"
    "r_targets s2 = r_targets s" "r_sched s2 = r_sched s" by (simp_all add: s2_def n)
  have nf: "\<not> fresh (objAt s2 o1)" by (simp add: own fresh_def)
  show "unobserved s = Suc (unobserved s2)" by (rule unobserved_pos [OF assms(2, 3) len]) (use oth nf in auto)
  have deps: "length (r_deps s2) = Suc (length (r_deps s))" "d = length (r_deps s)"
    using assms(4) by (auto simp: s2_def n newDep_def)
  show "heap_plain s2"
  proof (rule heap_plainI)
    fix o2 assume "o2 < length (r_objs s2)"
    then have o2: "o2 < length (r_objs s)" using len by simp
    note D = heap_plainD [OF assms(1) o2]
    have eq: "b_props (objAt s2 o2) = b_props (objAt s o2)" "b_items (objAt s2 o2) = b_items (objAt s o2)"
      using own oth by (cases "o2 = o1", simp_all)+
    show "inRange s2 (p_value p) \<and> (fresh (objAt s2 o2) \<longrightarrow> p_dep p = None) \<and> slot_ids s2 p"
      if "map_of (b_props (objAt s2 o2)) k = Some p" for k p
    proof -
      have "inRange s (p_value p)" "fresh (objAt s o2) \<longrightarrow> p_dep p = None" "slot_ids s p" using D(1) that eq by auto
      moreover have "slot_ids s2 p" using slot_ids_mono [OF \<open>slot_ids s p\<close>] deps by simp
      ultimately show ?thesis using rng nf oth by (cases "o2 = o1") auto
    qed
    show "inRange s2 v" if "v \<in> set (b_items (objAt s2 o2))" for v using D(2) that eq rng by simp
    show "e < length (r_deps s2)" if "b_ob (objAt s2 o2) = Some e" for e
      using D(3) [of e] that deps own oth by (cases "o2 = o1") auto
  qed
qed

lemma observe_start:
  fixes s1 d
  assumes "heap_plain s" "o1 < length (r_objs s)" "fresh (objAt s o1)" "newDep s = (d, s1)"
  defines "s2 \<equiv> updObj o1 (\<lambda>b. b \<lparr> b_ob := Some d, b_vmCount := 0 \<rparr>) s1"
  assumes "grows {o1} s2 s3" "heap_plain s2" "complete s3 o1"
  shows "grows {} s s3" "b_ob (objAt s3 o1) = Some d"
proof -
  note S = start_observer [OF assms(1-4), folded s2_def]
  have o1: "o1 < length (r_objs s2)" using S(3) assms(2) by simp
  show ob: "b_ob (objAt s3 o1) = Some d" using grows_at(1) [OF assms(6) o1] S(4) by simp
  have "shape (objAt s2 o2) = shape (objAt s o2)" for o2
    by (cases "o2 = o1") (simp_all add: S(4, 5) shape_def)
  then have sh: "shape (objAt s3 o2) = shape (objAt s o2)" if "o2 < length (r_objs s)" for o2
    using growsD(6) [OF assms(6)] that S(3) by simp
  have at: "objAt s3 o2 = objAt s o2 \<or> fresh (objAt s o2) \<and> b_ob (objAt s3 o2) \<noteq> None \<and> complete s3 o2"
    if "o2 < length (r_objs s)" for o2
  proof (cases "o2 = o1")
    case True
    then show ?thesis using ob assms(3, 8) by simp
  next
    case False
    then show ?thesis using grows_at(2) [OF assms(6), of o2] that S(3) S(5) [OF False] by simp
  qed
  obtain n where "r_deps s3 = r_deps s2 @ replicate n []" using assms(6) by (auto simp: grows_def)
  then have "r_deps s3 = r_deps s @ replicate (Suc n) []" using S(7) by simp
  then have "\<exists>n. r_deps s3 = r_deps s @ replicate n []" by blast
  then show "grows {} s s3"
    using growsD(1-5) [OF assms(6)] S(3) S(8-11) sh at unfolding grows_def by simp
qed

lemma observe_ok: "obs_ok n (observe n True)"
proof (induction n)
  case 0
  have "\<exists>s'. observe 0 True v s = OK (obOf s' v) s' \<and> grows {} s s' \<and> heap_plain s' \<and> \<not> freshVal s' v"
    if prems: "heap_plain s" "inRange s v" "unobserved s \<le> 0" for v s
  proof (cases "freshVal s v")
    case True
    then obtain o1 where "o1 < length (r_objs s)" "fresh (objAt s o1)"
      using prems(2) by (auto simp: freshVal_def inRange_def split: val.splits)
    then have "unobserved s \<noteq> 0" by (auto simp: unobserved_def)
    then show ?thesis using prems(3) by simp
  next
    case False
    then have "observe 0 True v s = OK (obOf s v) s"
      by (cases v) (auto simp: observe_ref observe_other obOf_def freshVal_def fresh_def split: option.split)
    then show ?thesis using prems False by auto
  qed
  then show ?case by (simp add: obs_ok_def)
next
  case (Suc m)
  have "\<exists>s'. observe (Suc m) True v s = OK (obOf s' v) s' \<and> grows {} s s' \<and> heap_plain s' \<and> \<not> freshVal s' v"
    if prems: "heap_plain s" "inRange s v" "unobserved s \<le> Suc m" for v s
  proof (cases "freshVal s v")
    case True
    then obtain o1 where o1: "v = Ref o1" "o1 < length (r_objs s)" "fresh (objAt s o1)"
      using prems(2) by (auto simp: freshVal_def inRange_def split: val.splits)
    obtain d s1 where nd: "newDep s = (d, s1)" by fastforce
    define s2 where "s2 = updObj o1 (\<lambda>b. b \<lparr> b_ob := Some d, b_vmCount := 0 \<rparr>) s1"
    note S = start_observer [OF prems(1) o1(2, 3) nd, folded s2_def]
    have m: "unobserved s2 \<le> m" using S(2) prems(3) by simp
    have l2: "o1 < length (r_objs s2)" using S(3) o1(2) by simp
    have ob2: "b_ob (objAt s2 o1) \<noteq> None" by (simp add: S(4))
    let ?r = "if b_kind (objAt s2 o1) = ArrayObject then observeArrayWith (observe m True) (b_items (objAt s2 o1)) s2
       else walkWith (observe m True) o1 (map fst (b_props (objAt s2 o1))) s2"
    have "\<exists>s3. ?r = OK () s3 \<and> grows {o1} s2 s3 \<and> heap_plain s3 \<and> complete s3 o1"
    proof (cases "b_kind (objAt s2 o1) = ArrayObject")
      case True
      have "\<forall>v \<in> set (b_items (objAt s2 o1)). inRange s2 v" using heap_plainD(2) [OF S(1) l2] by blast
      then obtain s3 where s3: "observeArrayWith (observe m True) (b_items (objAt s2 o1)) s2 = OK () s3" "grows {} s2 s3"
          "heap_plain s3" "\<forall>v \<in> set (b_items (objAt s2 o1)). \<not> freshVal s3 v"
        using observeArrayWith_grows [OF Suc S(1) m] by blast
      have nf: "\<not> fresh (objAt s2 o1)" using ob2 by (simp add: fresh_def)
      have "complete s3 o1"
        using s3(4) True shape_fields [OF growsD(6) [OF s3(2) l2]] by (simp add: complete_def)
      then show ?thesis using True s3(1, 3) grows_insert [OF s3(2) nf] by simp
    next
      case False
      have "slotIn s2 o1 k = Some p \<Longrightarrow> k \<in> set (map fst (b_props (objAt s2 o1)))" for k p
        by (force simp: slotIn_def dest: map_of_SomeD)
      then obtain s3 where s3: "walkWith (observe m True) o1 (map fst (b_props (objAt s2 o1))) s2 = OK () s3"
          "grows {o1} s2 s3" "heap_plain s3" "\<forall>k p. slotIn s3 o1 k = Some p \<longrightarrow> slot_done s3 p"
        using walkWith_grows [OF Suc S(1) l2 ob2 m, of "map fst (b_props (objAt s2 o1))"] by blast
      have "b_kind (objAt s3 o1) \<noteq> ArrayObject" using False shape_fields [OF growsD(6) [OF s3(2) l2]] by simp
      then have "complete s3 o1" using s3(4) by (simp add: complete_def slotIn_def)
      then show ?thesis using False s3 by simp
    qed
    then obtain s3 where s3: "?r = OK () s3" "grows {o1} s2 s3" "heap_plain s3" "complete s3 o1" by blast
    note G = observe_start [OF prems(1) o1(2, 3) nd, folded s2_def, OF s3(2) S(1) s3(4)]
    have "b_ob (objAt s o1) = None" "observable True (objAt s o1)" using o1(3) by (simp_all add: fresh_def)
    then have "observe (Suc m) True v s = OK (Some d) s3"
      using s3(1) unfolding o1(1) observe_ref by (simp add: nd s2_def [symmetric])
    then show ?thesis using G s3(3) o1(1) by (auto simp: obOf_def freshVal_def fresh_def)
  next
    case False
    then have "observe (Suc m) True v s = OK (obOf s v) s"
      by (cases v) (auto simp: observe_ref observe_other obOf_def freshVal_def fresh_def split: option.split)
    then show ?thesis using prems False by auto
  qed
  then show ?case by (simp add: obs_ok_def)
qed


end
