(* ===== verification/VueRefresh.thy ===== *)
theory VueRefresh
  imports VueReactiveFacts VueObserver
begin

text \<open>
  An assignment to a reactive property marks every watcher whose value could be stale, and the flush of the
  scheduler makes all of them current again.
\<close>

section \<open>Arrays below a value\<close>

text \<open>No array contains itself, and arrays are nested at most \<open>a\<close> deep.\<close>

definition arrays_end :: "nat \<Rightarrow> obj list \<Rightarrow> bool" where
  "arrays_end a os \<longleftrightarrow> (\<forall>o1 < length os. b_kind (os ! o1) = ArrayObject \<longrightarrow> arrayDeps a os (b_items (os ! o1)) \<noteq> None)"

lemma arrayDeps_exist:
  "arrayDeps n (r_objs s) vs = Some ds \<Longrightarrow> heap_plain s \<Longrightarrow> \<forall>v \<in> set vs. inRange s v \<Longrightarrow> e \<in> set ds \<Longrightarrow> e < length (r_deps s)"
proof (induction n "r_objs s" vs arbitrary: ds rule: arrayDeps.induct)
  case (2 n v vs)
  show ?case
  proof (cases v)
    case (Ref o1)
    have o1: "o1 < length (r_objs s)" using 2(11) Ref by (simp add: inRange_def)
    note D = heap_plainD [OF 2(10) o1, unfolded objAt_def]
    obtain own ds1 es where split: "ds = own @ ds1 @ es" "own = (case b_ob (r_objs s ! o1) of Some d \<Rightarrow> [d] | None \<Rightarrow> [])"
      "(if b_kind (r_objs s ! o1) = ArrayObject then (case n of 0 \<Rightarrow> None | Suc m \<Rightarrow> arrayDeps m (r_objs s) (b_items (r_objs s ! o1))) else Some []) = Some ds1"
      "arrayDeps n (r_objs s) vs = Some es"
      using 2(9) Ref by (auto simp: Let_def split: option.splits)
    have "e < length (r_deps s)" if "e \<in> set own" using that D(3) split(2) by (auto split: option.splits)
    moreover have "e < length (r_deps s)" if e: "e \<in> set ds1"
    proof -
      obtain m where m: "n = Suc m" "b_kind (r_objs s ! o1) = ArrayObject" "arrayDeps m (r_objs s) (b_items (r_objs s ! o1)) = Some ds1"
        using e split(3) by (auto split: if_splits nat.splits)
      show ?thesis using 2(7) [OF Ref split(2) m(2, 1) m(3) 2(10) _ e] D(2) by blast
    qed
    moreover have "e < length (r_deps s)" if "e \<in> set es"
      using 2(8) [OF Ref split(2, 3), OF split(4) 2(10)] 2(11) that by simp
    ultimately show ?thesis using 2(12) split(1) by auto
  qed (use 2 in auto)
qed simp

lemma heap_plain_ok:
  assumes "heap_plain s" "arrays_end a (r_objs s)"
  shows "heap_ok a s"
  unfolding heap_ok_def
proof (intro allI impI)
  fix o1 k p d assume p: "slotOf (r_objs s) o1 k = Some p" "p_dep p = Some d"
  then have o1: "o1 < length (r_objs s)" "map_of (b_props (objAt s o1)) k = Some p"
    by (auto simp: slotOf_def objAt_def split: if_splits)
  note D = heap_plainD(1) [OF assms(1) o1]
  have ids: "d < length (r_deps s)" "c < length (r_deps s)" if "p_childOb p = Some c" for c
    using D p(2) that by (simp_all add: slot_ids_def)
  have ids1: "d < length (r_deps s)" using D p(2) by (simp add: slot_ids_def)
  show "\<exists>ds. touched a (r_objs s) p = Some ds \<and> (\<forall>e \<in> set ds. e < length (r_deps s))"
  proof (cases "\<exists>o2. p_value p = Ref o2 \<and> b_kind (r_objs s ! o2) = ArrayObject")
    case True
    then obtain o2 where o2: "p_value p = Ref o2" "b_kind (r_objs s ! o2) = ArrayObject" by blast
    have l2: "o2 < length (r_objs s)" using D o2(1) by (simp add: inRange_def)
    obtain ds where ds: "arrayDeps a (r_objs s) (b_items (r_objs s ! o2)) = Some ds" using assms(2) o2(2) l2 by (auto simp: arrays_end_def)
    have "\<forall>e \<in> set ds. e < length (r_deps s)"
      using arrayDeps_exist [OF ds assms(1)] heap_plainD(2) [OF assms(1) l2] by (simp add: objAt_def)
    then show ?thesis using ds o2 p(2) ids ids1 by (auto simp: touched_def split: option.split)
  next
    case False
    then show ?thesis using p(2) ids ids1 by (auto simp: touched_def split: option.split val.split)
  qed
qed

lemma arrayDeps_same:
  assumes "\<And>o1. o1 < length os \<Longrightarrow> b_kind (os' ! o1) = b_kind (os ! o1) \<and> b_items (os' ! o1) = b_items (os ! o1)"
    and "\<And>o1 o2. o1 < length os \<Longrightarrow> Ref o2 \<in> set (b_items (os ! o1)) \<Longrightarrow> o2 < length os"
  shows "\<forall>o2. Ref o2 \<in> set vs \<longrightarrow> o2 < length os \<Longrightarrow> arrayDeps n os' vs = None \<longleftrightarrow> arrayDeps n os vs = None"
  using assms
proof (induction n os vs rule: arrayDeps.induct)
  case (2 n os v vs)
  show ?case
  proof (cases v)
    case (Ref o1)
    then have o1: "o1 < length os" using 2(9) by simp
    have own: "b_kind (os' ! o1) = b_kind (os ! o1)" "b_items (os' ! o1) = b_items (os ! o1)" using 2(10) o1 by auto
    show ?thesis
    proof (cases "if b_kind (os ! o1) = ArrayObject
          then case n of 0 \<Rightarrow> None | Suc m \<Rightarrow> arrayDeps m os (b_items (os ! o1)) else Some []")
      case None
      then show ?thesis using 2(7) [OF Ref refl] 2(10, 11) own o1 Ref by (auto split: if_splits nat.splits)
    next
      case (Some ds)
      then have "arrayDeps n os' vs = None \<longleftrightarrow> arrayDeps n os vs = None" using 2(8) [OF Ref refl Some] 2(9-11) by simp
      then show ?thesis using Some 2(7) [OF Ref refl] 2(10, 11) own o1 Ref by (auto split: if_splits nat.splits)
    qed
  qed (use 2 in auto)
qed simp

lemma arrays_end_same:
  assumes "arrays_end a os" "length os' = length os"
    "\<And>o1. o1 < length os \<Longrightarrow> b_kind (os' ! o1) = b_kind (os ! o1) \<and> b_items (os' ! o1) = b_items (os ! o1)"
    "\<And>o1 o2. o1 < length os \<Longrightarrow> Ref o2 \<in> set (b_items (os ! o1)) \<Longrightarrow> o2 < length os"
  shows "arrays_end a os'"
  unfolding arrays_end_def
proof (intro allI impI)
  fix o1 assume o1: "o1 < length os'" "b_kind (os' ! o1) = ArrayObject"
  have "arrayDeps a os' (b_items (os ! o1)) = None \<longleftrightarrow> arrayDeps a os (b_items (os ! o1)) = None"
    by (rule arrayDeps_same [OF assms(3, 4)]) (use assms(2, 4) o1 in auto)
  then show "arrayDeps a os' (b_items (os' ! o1)) \<noteq> None" using assms(1-3) o1 by (auto simp: arrays_end_def)
qed

section \<open>Marking\<close>

text \<open>No watcher is run at once, and none reads everything below its value.\<close>

definition no_sync :: "rs \<Rightarrow> bool" where
  "no_sync s \<longleftrightarrow> (\<forall>w < length (r_watchers s). \<not> x_sync (r_watchers s ! w) \<and> \<not> x_deep (r_watchers s ! w))"

text \<open>The queue is not being flushed, and its watchers are no computed properties.\<close>

definition queue_ok :: "rs \<Rightarrow> bool" where
  "queue_ok s \<longleftrightarrow>
     \<not> s_flushing (r_sched s)
     \<and> (\<forall>i. s_has (r_sched s) i \<longleftrightarrow> i \<in> w_id ` set (s_queue (r_sched s)))
     \<and> (\<forall>i. s_has (r_sched s) i \<longrightarrow> i < length (r_watchers s) \<and> \<not> x_lazy (r_watchers s ! i))"

definition marked :: "rs \<Rightarrow> nat \<Rightarrow> bool" where
  "marked s w \<longleftrightarrow> (if x_lazy (r_watchers s ! w) then x_dirty (r_watchers s ! w) else s_has (r_sched s) w)"

text \<open>The only things a notification changes are the flags of computed properties and the queue.\<close>

definition clean :: "wobj \<Rightarrow> wobj" where
  "clean x = x \<lparr> x_dirty := False \<rparr>"

definition marks :: "rs \<Rightarrow> rs \<Rightarrow> bool" where
  "marks s s' \<longleftrightarrow>
     r_objs s' = r_objs s \<and> r_deps s' = r_deps s \<and> r_target s' = r_target s \<and> r_targets s' = r_targets s
     \<and> length (r_watchers s') = length (r_watchers s)
     \<and> (\<forall>w < length (r_watchers s). clean (r_watchers s' ! w) = clean (r_watchers s ! w) \<and> (marked s w \<longrightarrow> marked s' w))
     \<and> (queue_ok s \<longrightarrow> queue_ok s')"

lemma clean_fields:
  "clean x = clean y \<Longrightarrow> x_active x = x_active y \<and> x_deps x = x_deps y \<and> x_newDeps x = x_newDeps y \<and> x_depIds x = x_depIds y
     \<and> x_newDepIds x = x_newDepIds y \<and> x_value x = x_value y \<and> x_sync x = x_sync y \<and> x_deep x = x_deep y \<and> x_lazy x = x_lazy y \<and> fixed x = fixed y"
  by (cases x; cases y) (simp add: clean_def fixed_def)

lemma clean_dirty [simp]: "clean (x \<lparr> x_dirty := b \<rparr>) = clean x"
  by (simp add: clean_def)

lemma marks_refl: "marks s s"
  by (simp add: marks_def)

lemma marks_trans: "marks s s1 \<Longrightarrow> marks s1 s2 \<Longrightarrow> marks s s2"
  by (simp add: marks_def)

lemma queueWatcher_has: "s_has (queueWatcher w s) i \<longleftrightarrow> i = w_id w \<or> s_has s i"
  by (auto simp: queueWatcher_def Let_def)

lemma update_marks:
  assumes "no_sync s" "w < length (r_watchers s)"
  obtains s' where "update cb m n w s = OK () s'" "marks s s'" "marked s' w"
proof (cases "x_lazy (r_watchers s ! w)")
  case True
  let ?s = "updW w (\<lambda>y. y \<lparr> x_dirty := True \<rparr>) s"
  have "clean (r_watchers ?s ! v) = clean (r_watchers s ! v) \<and> (marked s v \<longrightarrow> marked ?s v)" for v
    using assms(2) by (auto simp: updW_at marked_def)
  moreover have "x_lazy (r_watchers ?s ! v) = x_lazy (r_watchers s ! v)" for v using assms(2) by (simp add: updW_at)
  ultimately have "marks s ?s" by (simp add: marks_def queue_ok_def)
  moreover have "update cb m n w s = OK () ?s" using True by (simp add: update_def)
  moreover have "marked ?s w" using True assms(2) by (simp add: marked_def updW_at)
  ultimately show thesis using that by blast
next
  case False
  let ?s = "s \<lparr> r_sched := queueWatcher (schedEntry s w) (r_sched s) \<rparr>"
  have "clean (r_watchers ?s ! v) = clean (r_watchers s ! v) \<and> (marked s v \<longrightarrow> marked ?s v)" for v
    by (simp add: marked_def queueWatcher_has)
  moreover have "queue_ok s \<longrightarrow> queue_ok ?s"
    using False assms(2) by (auto simp: queue_ok_def queueWatcher_def Let_def schedEntry_def)
  ultimately have "marks s ?s" by (simp add: marks_def)
  moreover have "update cb m n w s = OK () ?s" using False assms by (simp add: update_def no_sync_def)
  moreover have "marked ?s w" using False by (simp add: marked_def queueWatcher_has schedEntry_def)
  ultimately show thesis using that by blast
qed

lemma marks_marked: "marks s s' \<Longrightarrow> w < length (r_watchers s) \<Longrightarrow> marked s w \<Longrightarrow> marked s' w"
  unfolding marks_def by blast

lemma marks_no_sync: "marks s s' \<Longrightarrow> no_sync s \<Longrightarrow> no_sync s'"
  unfolding marks_def no_sync_def using clean_fields by metis

lemma notify_marks:
  assumes "no_sync s" "\<forall>w \<in> set (r_deps s ! d). w < length (r_watchers s)"
  obtains s' where "notify cb m n d s = OK () s'" "marks s s'" "\<forall>w \<in> set (r_deps s ! d). marked s' w"
proof -
  have "\<exists>s'. fold (\<lambda>w r. bindR r (\<lambda>_ s1. update cb m n w s1)) ws (OK () s) = OK () s' \<and> marks s s' \<and> (\<forall>w \<in> set ws. marked s' w)"
    if "no_sync s" "\<forall>w \<in> set ws. w < length (r_watchers s)" for ws s
    using that
  proof (induction ws arbitrary: s)
    case Nil
    then show ?case using marks_refl by simp
  next
    case (Cons w ws)
    obtain s1 where s1: "update cb m n w s = OK () s1" "marks s s1" "marked s1 w"
      using update_marks [OF Cons(2)] Cons(3) by (metis list.set_intros(1))
    have len: "length (r_watchers s1) = length (r_watchers s)" using s1(2) by (simp add: marks_def)
    have "\<forall>v \<in> set ws. v < length (r_watchers s1)" using Cons(3) len by simp
    then obtain s2 where s2: "fold (\<lambda>w r. bindR r (\<lambda>_ s1. update cb m n w s1)) ws (OK () s1) = OK () s2" "marks s1 s2"
        "\<forall>w \<in> set ws. marked s2 w"
      using Cons(1) [OF marks_no_sync [OF s1(2) Cons(2)]] by blast
    have "marked s2 w" using marks_marked [OF s2(2) _ s1(3)] Cons(3) len by simp
    then show ?case using s1(1) s2 marks_trans [OF s1(2) s2(2)] by auto
  qed
  from this [OF assms] show thesis using that by (auto simp: notify_def)
qed

section \<open>Writing\<close>

text \<open>A watcher that is not marked has the value of its getter.\<close>

definition settled :: "(nat \<Rightarrow> prog) \<Rightarrow> rs \<Rightarrow> bool" where
  "settled G s \<longleftrightarrow>
     (\<forall>w < length (r_watchers s). x_active (r_watchers s ! w) \<longrightarrow> marked s w \<or> current G s w)"

lemma settled_cache: "settled G s \<Longrightarrow> cache_ok G s"
  unfolding settled_def cache_ok_def marked_def by auto

text \<open>The heap may change where the deps of what was read are not in \<open>D\<close>, if the watchers that have others are marked.\<close>

lemma marks_settled:
  assumes "good a rank G s" "settled G s"
    and s1: "r_watchers s1 = r_watchers s" "r_sched s1 = r_sched s" "r_target s1 = r_target s" "r_targets s1 = r_targets s"
      "r_deps s1 = r_deps s @ replicate k []"
    and same: "same_on D (r_objs s) (r_objs s1)" and heap: "heap_ok a s1" and s': "marks s1 s'"
    and others: "\<And>w. w < length (r_watchers s) \<Longrightarrow> x_active (r_watchers s ! w) \<Longrightarrow> \<not> set (x_deps (r_watchers s ! w)) \<subseteq> D \<Longrightarrow> marked s' w"
  shows "settled G s' \<and> good a rank G s'"
proof -
  note g = assms(1) [unfolded good_def]
  have len: "length (r_watchers s') = length (r_watchers s)" "r_objs s' = r_objs s1" "r_deps s' = r_deps s1"
    "r_target s' = r_target s" "r_targets s' = r_targets s"
    using s' s1 by (simp_all add: marks_def)
  have at: "clean (r_watchers s' ! w) = clean (r_watchers s ! w)" "marked s w \<longrightarrow> marked s' w"
    if "w < length (r_watchers s)" for w
    using s' that s1(1, 2) unfolding marks_def marked_def by metis+
  have same1: "x_active (r_watchers s' ! w) = x_active (r_watchers s ! w)" "x_deps (r_watchers s' ! w) = x_deps (r_watchers s ! w)"
    "x_newDeps (r_watchers s' ! w) = x_newDeps (r_watchers s ! w)" "x_depIds (r_watchers s' ! w) = x_depIds (r_watchers s ! w)"
    "x_newDepIds (r_watchers s' ! w) = x_newDepIds (r_watchers s ! w)" "x_value (r_watchers s' ! w) = x_value (r_watchers s ! w)"
    "fixed (r_watchers s' ! w) = fixed (r_watchers s ! w)"
    if "w < length (r_watchers s)" for w
    using clean_fields [OF at(1) [OF that]] by blast+
  have st: "settled G s'"
    unfolding settled_def len
  proof (intro allI impI)
    fix w assume w: "w < length (r_watchers s)" "x_active (r_watchers s' ! w)"
    then have act: "x_active (r_watchers s ! w)" using same1 by simp
    show "marked s' w \<or> current G s' w"
    proof (cases "marked s w \<or> \<not> set (x_deps (r_watchers s ! w)) \<subseteq> D")
      case True
      then show ?thesis using at(2) [OF w(1)] others [OF w(1) act] by blast
    next
      case False
      then have "current G s w" using assms(2) w(1) act by (auto simp: settled_def)
      then obtain T where T: "evals G (r_objs s) {} (G w) (x_value (r_watchers s ! w)) T" "T \<subseteq> set (x_deps (r_watchers s ! w))"
        by (auto simp: current_def)
      have "T \<subseteq> D" using T(2) False by blast
      from evals_same [OF T(1) this same] have "current G s' w"
        using T(2) same1 [OF w(1)] len(2) by (auto simp: current_def)
      then show ?thesis ..
    qed
  qed
  have "sub_inv s'"
  proof -
    have "deps_ok s" using g by (simp add: sub_inv_at)
    then have "deps_ok s'" by (auto simp: deps_ok_def len s1(5) nth_append)
    moreover have "sub_at s' w" if w: "w < length (r_watchers s)" for w
    proof -
      have sa: "sub_at s w" using g w by (simp add: sub_inv_at)
      have out: "d < length (r_deps s)" if "d \<in> set (x_deps (r_watchers s ! w)) \<union> set (x_newDeps (r_watchers s ! w))" for d
        using sa that by (simp add: sub_at_def Let_def)
      let ?x = "r_watchers s ! w"
      have deps: "r_deps s' = r_deps s @ replicate k []" using len(3) s1(5) by simp
      have 1: "\<forall>d \<in> set (x_deps ?x) \<union> set (x_newDeps ?x). d < length (r_deps s')" using out by (auto simp: deps intro: trans_less_add1)
      have 2: "\<forall>d < length (r_deps s'). w \<in> set (r_deps s' ! d) \<longleftrightarrow> x_active ?x \<and> d \<in> set (x_deps ?x) \<union> set (x_newDeps ?x)"
      proof (intro allI impI)
        fix d assume d: "d < length (r_deps s')"
        show "w \<in> set (r_deps s' ! d) \<longleftrightarrow> x_active ?x \<and> d \<in> set (x_deps ?x) \<union> set (x_newDeps ?x)"
        proof (cases "d < length (r_deps s)")
          case True
          then have "r_deps s' ! d = r_deps s ! d" by (simp add: deps nth_append)
          then show ?thesis using sa True by (simp add: sub_at_def Let_def)
        next
          case False
          then have "r_deps s' ! d = []" using d by (simp add: deps nth_append)
          then show ?thesis using out False by auto
        qed
      qed
      show ?thesis
        using sa 1 2 unfolding sub_at_def same1 [OF w] Let_def by blast
    qed
    ultimately show ?thesis by (simp add: sub_inv_at len)
  qed
  moreover have "stack_ok rank s'"
  proof -
    have stk: "targetStack s' = targetStack s" by (simp add: targetStack_def len split: option.split)
    have "stack_ok rank s" using g by blast
    then show ?thesis using same1(1, 3) unfolding stack_ok_def stk len by metis
  qed
  moreover have "calls_ok rank G s'" by (rule calls_ok_fixed [OF _ len(1) same1(7)]) (use g in simp_all)
  moreover have "heap_ok a s'" using heap unfolding heap_ok_def len(2, 3) .
  ultimately show ?thesis using settled_cache [OF st] st by (simp add: good_def)
qed

lemma notify_settled:
  assumes "good a rank G s" "settled G s" "no_sync s" "d < length (r_deps s)"
    and s1: "r_watchers s1 = r_watchers s" "r_sched s1 = r_sched s" "r_target s1 = r_target s" "r_targets s1 = r_targets s"
      "r_deps s1 = r_deps s @ replicate k []"
    and same: "same_on (- {d}) (r_objs s) (r_objs s1)"
    and heap: "heap_ok a s1"
  obtains s' where "notify cb m n d s1 = OK () s'" "marks s1 s'" "settled G s'" "good a rank G s'"
proof -
  note g = assms(1) [unfolded good_def]
  have subs: "r_deps s1 ! d = r_deps s ! d" using assms(4) s1(5) by (simp add: nth_append)
  have "\<forall>w \<in> set (r_deps s ! d). w < length (r_watchers s)" using g assms(4) unfolding sub_inv_def by blast
  moreover have ns: "no_sync s1" using assms(3) s1(1) by (simp add: no_sync_def)
  ultimately obtain s' where s': "notify cb m n d s1 = OK () s'" "marks s1 s'" "\<forall>w \<in> set (r_deps s ! d). marked s' w"
    using notify_marks [of s1 d] unfolding subs s1(1) by metis
  have "settled G s' \<and> good a rank G s'"
    by (rule marks_settled [OF assms(1, 2) s1 same heap s'(2)]) (use s'(3) subscribed [OF assms(1)] in blast)
  then show thesis using that s' by blast
qed

text \<open>What holds between two actions of the application.\<close>

definition sound :: "nat \<Rightarrow> (nat \<Rightarrow> nat) \<Rightarrow> (nat \<Rightarrow> prog) \<Rightarrow> rs \<Rightarrow> bool" where
  "sound a rank G s \<longleftrightarrow>
     good a rank G s \<and> settled G s \<and> heap_plain s \<and> arrays_end a (r_objs s) \<and> no_sync s \<and> idle s \<and> queue_ok s"

lemma setProp_twice [simp]: "setProp k a (setProp k b m) = setProp k a m"
  by (induction m) auto

lemma putSlot_at:
  assumes "o1 < length (r_objs s)" "map_of (b_props (objAt s o1)) k = Some p"
  shows "objAt (putSlot o1 k f s) o2 = (if o2 = o1 then (objAt s o1) \<lparr> b_props := setProp k (f p) (b_props (objAt s o1)) \<rparr> else objAt s o2)"
  using assms by (simp add: putSlot_def updObj_at)

lemma putSlot_rest [simp]:
  "r_watchers (putSlot o1 k f s) = r_watchers s" "r_deps (putSlot o1 k f s) = r_deps s" "r_target (putSlot o1 k f s) = r_target s"
  "r_targets (putSlot o1 k f s) = r_targets s" "r_sched (putSlot o1 k f s) = r_sched s"
  "length (r_objs (putSlot o1 k f s)) = length (r_objs s)" "inRange (putSlot o1 k f s) v = inRange s v"
  "slot_ids (putSlot o1 k f s) p = slot_ids s p"
  by (simp_all add: putSlot_def slot_ids_def)

lemma putSlot_plain:
  assumes "heap_plain s" "o1 < length (r_objs s)" "map_of (b_props (objAt s o1)) k = Some p"
    "inRange s (p_value (f p))" "slot_ids s (f p)" "fresh (objAt s o1) \<longrightarrow> p_dep (f p) = None"
  shows "heap_plain (putSlot o1 k f s)"
proof (rule heap_plainI)
  fix o2 assume "o2 < length (r_objs (putSlot o1 k f s))"
  then have o2: "o2 < length (r_objs s)" by simp
  note D = heap_plainD [OF assms(1) o2]
  note at = putSlot_at [OF assms(2, 3), of f]
  have fr: "fresh (objAt (putSlot o1 k f s) o2) = fresh (objAt s o2)" by (simp add: at fresh_def observable_def)
  show "inRange (putSlot o1 k f s) (p_value q) \<and> (fresh (objAt (putSlot o1 k f s) o2) \<longrightarrow> p_dep q = None) \<and> slot_ids (putSlot o1 k f s) q"
    if q: "map_of (b_props (objAt (putSlot o1 k f s) o2)) k' = Some q" for k' q
  proof (cases "o2 = o1 \<and> k' = k")
    case True
    then have "q = f p" using q by (simp add: at)
    then show ?thesis using assms(4-6) True fr by simp
  next
    case False
    then have "map_of (b_props (objAt s o2)) k' = Some q" using q by (auto simp: at split: if_splits)
    then show ?thesis using D(1) fr by simp
  qed
  show "inRange (putSlot o1 k f s) v" if "v \<in> set (b_items (objAt (putSlot o1 k f s) o2))" for v
    using D(2) [of v] that by (simp add: at split: if_splits)
  show "e < length (r_deps (putSlot o1 k f s))" if "b_ob (objAt (putSlot o1 k f s) o2) = Some e" for e
    using D(3) [of e] that by (simp add: at split: if_splits)
qed

lemma heap_same:
  assumes "heap_plain s" "arrays_end a (r_objs s)" "heap_plain s1" "length (r_objs s1) = length (r_objs s)"
    "\<And>o1. o1 < length (r_objs s) \<Longrightarrow> b_kind (objAt s1 o1) = b_kind (objAt s o1) \<and> b_items (objAt s1 o1) = b_items (objAt s o1)"
  shows "arrays_end a (r_objs s1) \<and> heap_ok a s1"
proof -
  have "arrays_end a (r_objs s1)"
  proof (rule arrays_end_same [OF assms(2, 4)])
    show "b_kind (r_objs s1 ! o1) = b_kind (r_objs s ! o1) \<and> b_items (r_objs s1 ! o1) = b_items (r_objs s ! o1)"
      if "o1 < length (r_objs s)" for o1
      using assms(5) [OF that] by (simp add: objAt_def)
    show "o2 < length (r_objs s)" if "o1 < length (r_objs s)" "Ref o2 \<in> set (b_items (r_objs s ! o1))" for o1 o2
      using heap_plainD(2) [OF assms(1) that(1), of "Ref o2"] that(2) by (simp add: objAt_def inRange_def)
  qed
  then show ?thesis using heap_plain_ok [OF assms(3)] by blast
qed

lemma slotOf_in: "slotOf (r_objs s) o1 k = (if o1 < length (r_objs s) then slotIn s o1 k else None)"
  by (simp add: slotOf_def slotIn_def objAt_def)

text \<open>What was observed and is read does not change, apart from the slot that is written.\<close>

lemma same_on_write:
  assumes "heap_plain s" "length (r_objs s1) = length (r_objs s)"
    and obj: "\<And>o2. o2 < length (r_objs s) \<Longrightarrow> \<not> fresh (objAt s o2) \<Longrightarrow>
      (\<forall>k2 q. slotIn s o2 k2 = Some q \<longrightarrow> p_dep q \<noteq> None \<longrightarrow> p_dep q \<noteq> e \<longrightarrow> slotIn s1 o2 k2 = Some q)
      \<and> (b_ob (objAt s o2) \<noteq> None \<longrightarrow> b_ob (objAt s o2) \<noteq> e \<longrightarrow>
           b_ob (objAt s1 o2) = b_ob (objAt s o2) \<and> b_items (objAt s1 o2) = b_items (objAt s o2))"
  shows "same_on (- set_option e) (r_objs s) (r_objs s1)"
  unfolding same_on_def
proof (intro conjI allI impI)
  fix o2 k2 q d assume q: "slotOf (r_objs s) o2 k2 = Some q" "p_dep q = Some d" "d \<in> - set_option e"
  then have o2: "o2 < length (r_objs s)" "slotIn s o2 k2 = Some q" by (auto simp: slotOf_in split: if_splits)
  then have "\<not> fresh (objAt s o2)" using heap_plainD(1) [OF assms(1) o2(1)] q(2) unfolding slotIn_def by fastforce
  then have "slotIn s1 o2 k2 = Some q" using obj [OF o2(1)] o2(2) q by auto
  then show "slotOf (r_objs s1) o2 k2 = Some q" using o2(1) assms(2) by (simp add: slotOf_in)
next
  fix o2 d assume o2: "o2 < length (r_objs s)" "b_ob (r_objs s ! o2) = Some d" "d \<in> - set_option e"
  then show "o2 < length (r_objs s1)" using assms(2) by simp
  have "\<not> fresh (objAt s o2)" using o2(2) by (simp add: fresh_def objAt_def)
  from obj [OF o2(1) this] show "b_ob (r_objs s1 ! o2) = Some d" "b_items (r_objs s1 ! o2) = b_items (r_objs s ! o2)"
    using o2(2, 3) by (auto simp: objAt_def)
qed

lemma sound_marks:
  assumes "sound a rank G s" "marks s1 s'" "settled G s'" "good a rank G s'" "heap_plain s1" "arrays_end a (r_objs s1)"
    and s1: "r_watchers s1 = r_watchers s" "r_sched s1 = r_sched s" "r_target s1 = r_target s" "r_targets s1 = r_targets s"
  shows "sound a rank G s'"
proof -
  have "heap_plain s'" by (rule heap_plain_objs [OF assms(5)]) (use assms(2) in \<open>simp_all add: marks_def\<close>)
  moreover have "arrays_end a (r_objs s')" using assms(2, 6) by (simp add: marks_def)
  moreover have "no_sync s'"
    by (rule marks_no_sync [OF assms(2)]) (use assms(1) s1 in \<open>simp add: sound_def no_sync_def\<close>)
  moreover have "idle s'" using assms(1, 2) s1 by (simp add: sound_def marks_def idle_def)
  moreover have "queue_ok s1" using assms(1) s1 by (simp add: sound_def queue_ok_def)
  then have "queue_ok s'" using assms(2) by (simp add: marks_def)
  ultimately show ?thesis using assms(3, 4) by (simp add: sound_def)
qed

text \<open>A write that nobody is notified of, and that changes nothing reactive.\<close>

lemma silent_sound:
  assumes "sound a rank G s" "heap_plain s1" "arrays_end a (r_objs s1)" "same_on UNIV (r_objs s) (r_objs s1)"
    and s1: "r_watchers s1 = r_watchers s" "r_sched s1 = r_sched s" "r_target s1 = r_target s" "r_targets s1 = r_targets s"
      "r_deps s1 = r_deps s"
  shows "sound a rank G s1"
proof -
  have g: "good a rank G s" "settled G s" using assms(1) by (simp_all add: sound_def)
  have deps: "r_deps s1 = r_deps s @ replicate 0 []" using s1(5) by simp
  have "settled G s1 \<and> good a rank G s1"
    by (rule marks_settled [OF g s1(1-4) deps assms(4) heap_plain_ok [OF assms(2, 3)] marks_refl]) simp
  then show ?thesis using sound_marks [OF assms(1) marks_refl _ _ assms(2, 3) s1(1-4)] by blast
qed

lemma assign_reactive:
  assumes "sound a rank G s" "o1 < length (r_objs s)" "inRange s v" "slotIn s o1 k = Some p" "p_dep p = Some d" "v \<noteq> p_value p"
  shows "\<exists>s' c. assign cb m (length (r_objs s)) o1 k v s = OK () s' \<and> sound a rank G s'
    \<and> slotIn s' o1 k = Some (p \<lparr> p_value := v, p_childOb := c \<rparr>) \<and> length (r_objs s') = length (r_objs s)"
proof -
  let ?f = "\<lambda>q :: slot. q \<lparr> p_value := v \<rparr>" and ?n = "length (r_objs s)"
  have snd: "good a rank G s" "settled G s" "heap_plain s" "arrays_end a (r_objs s)" "no_sync s"
    using assms(1) by (simp_all add: sound_def)
  have p: "map_of (b_props (objAt s o1)) k = Some p" using assms(4) by (simp add: slotIn_def)
  note Dp = heap_plainD(1) [OF snd(3) assms(2) p]
  have nf: "\<not> fresh (objAt s o1)" using Dp assms(5) by auto
  define s1 where "s1 = putSlot o1 k ?f s"
  have ids1: "slot_ids s (?f p)" using Dp by (simp add: slot_ids_def)
  have plain1: "heap_plain s1" unfolding s1_def
    by (rule putSlot_plain [OF snd(3) assms(2) p]) (use assms(3) ids1 nf in simp_all)
  note at1 = putSlot_at [OF assms(2) p, of ?f, folded s1_def]
  have s1: "r_watchers s1 = r_watchers s" "r_sched s1 = r_sched s" "r_target s1 = r_target s" "r_targets s1 = r_targets s"
    "r_deps s1 = r_deps s" "length (r_objs s1) = ?n" "inRange s1 v" using assms(3) by (simp_all add: s1_def)
  obtain s2 where s2: "observe ?n True v s1 = OK (obOf s2 v) s2" "grows {} s1 s2" "heap_plain s2"
    using observe_ok [of ?n] plain1 s1(6, 7) unobserved_bound [of s1] unfolding obs_ok_def by metis
  note D2 = growsD [OF s2(2)]
  have fr1: "fresh (objAt s1 o2) = fresh (objAt s o2)" for o2 by (simp add: at1 fresh_def observable_def)
  have keep: "objAt s2 o2 = objAt s1 o2" if "o2 < ?n" "\<not> fresh (objAt s o2)" for o2
    using grows_at(2) [OF s2(2), of o2] that s1(6) fr1 by auto
  have o12: "o1 < length (r_objs s2)" using D2(5) s1(6) assms(2) by simp
  have p2: "map_of (b_props (objAt s2 o1)) k = Some (?f p)" using keep [OF assms(2) nf] by (simp add: at1)
  define s3 where "s3 = putSlot o1 k (\<lambda>q. q \<lparr> p_childOb := obOf s2 v \<rparr>) s2"
  note at3 = putSlot_at [OF o12 p2, of "\<lambda>q. q \<lparr> p_childOb := obOf s2 v \<rparr>", folded s3_def]
  have rng2: "inRange s2 v" using D2(7) s1(7) by simp
  have ids2: "slot_ids s2 (?f p \<lparr> p_childOb := obOf s2 v \<rparr>)"
    using Dp D2(8) s1(5) obOf_exists [OF s2(3) rng2] by (auto simp: slot_ids_def)
  have nf2: "\<not> fresh (objAt s2 o1)" using keep [OF assms(2) nf] fr1 nf by simp
  have plain3: "heap_plain s3" unfolding s3_def
    by (rule putSlot_plain [OF s2(3) o12 p2]) (use rng2 ids2 nf2 in simp_all)
  obtain j where j: "r_deps s2 = r_deps s1 @ replicate j []" using s2(2) by (auto simp: grows_def)
  have s3: "r_watchers s3 = r_watchers s" "r_sched s3 = r_sched s" "r_target s3 = r_target s" "r_targets s3 = r_targets s"
    "r_deps s3 = r_deps s @ replicate j []" "length (r_objs s3) = ?n"
    using D2 s1 j by (simp_all add: s3_def)
  have slots: "slotIn s3 o2 k2 = (if o2 = o1 \<and> k2 = k then Some (?f p \<lparr> p_childOb := obOf s2 v \<rparr>) else slotIn s o2 k2)"
    if "o2 < ?n" "\<not> fresh (objAt s o2)" for o2 k2
    using keep [OF that] by (cases "o2 = o1") (simp_all add: slotIn_def at3 at1)
  have same: "same_on (- set_option (Some d)) (r_objs s) (r_objs s3)"
  proof (rule same_on_write [OF snd(3) s3(6)])
    fix o2 assume o2: "o2 < ?n" "\<not> fresh (objAt s o2)"
    have "slotIn s3 o2 k2 = Some q" if "slotIn s o2 k2 = Some q" "p_dep q \<noteq> Some d" for k2 q
      using slots [OF o2] that assms(4, 5) by auto
    moreover have "b_ob (objAt s3 o2) = b_ob (objAt s o2) \<and> b_items (objAt s3 o2) = b_items (objAt s o2)"
      using keep [OF o2] by (cases "o2 = o1") (simp_all add: at3 at1)
    ultimately show "(\<forall>k2 q. slotIn s o2 k2 = Some q \<longrightarrow> p_dep q \<noteq> None \<longrightarrow> p_dep q \<noteq> Some d \<longrightarrow> slotIn s3 o2 k2 = Some q)
        \<and> (b_ob (objAt s o2) \<noteq> None \<longrightarrow> b_ob (objAt s o2) \<noteq> Some d \<longrightarrow> b_ob (objAt s3 o2) = b_ob (objAt s o2) \<and> b_items (objAt s3 o2) = b_items (objAt s o2))"
      by blast
  qed
  have "b_kind (objAt s3 o2) = b_kind (objAt s o2) \<and> b_items (objAt s3 o2) = b_items (objAt s o2)" if "o2 < ?n" for o2
    using shape_fields [OF D2(6) [of o2]] that s1(6) by (cases "o2 = o1") (simp_all add: at3 at1)
  note heap = heap_same [OF snd(3, 4) plain3 s3(6) this]
  have d: "d < length (r_deps s)" using Dp assms(5) by (simp add: slot_ids_def)
  have same1: "same_on (- {d}) (r_objs s) (r_objs s3)" using same by simp
  obtain s' where s': "notify cb m ?n d s3 = OK () s'" "marks s3 s'" "settled G s'" "good a rank G s'"
    using notify_settled [OF snd(1, 2, 5) d s3(1-5) same1] heap by blast
  have "sound a rank G s'" by (rule sound_marks [OF assms(1) s'(2-4) plain3 _ s3(1-4)]) (use heap in blast)
  moreover have "assign cb m ?n o1 k v s = OK () s'"
    using p assms(5, 6) s2(1) s'(1) by (simp add: assign_def s1_def [symmetric] s3_def [symmetric])
  moreover have "slotIn s' o1 k = Some (?f p \<lparr> p_childOb := obOf s2 v \<rparr>)"
    using slots [OF assms(2) nf] s'(2) by (simp add: slotIn_def objAt_def marks_def)
  moreover have "length (r_objs s') = ?n" using s'(2) s3(6) by (simp add: marks_def)
  ultimately show ?thesis by blast
qed

text \<open>Other assignments: the value is only written.\<close>

lemma assign_plain:
  assumes "sound a rank G s" "o1 < length (r_objs s)" "inRange s v" "slotIn s o1 k = Some p" "p_dep p = None"
  shows "\<exists>s' c. assign cb m n o1 k v s = OK () s' \<and> sound a rank G s' \<and> slotIn s' o1 k = Some (p \<lparr> p_value := v, p_childOb := c \<rparr>)"
proof -
  let ?f = "\<lambda>q :: slot. q \<lparr> p_value := v \<rparr>"
  have snd: "heap_plain s" "arrays_end a (r_objs s)" using assms(1) by (simp_all add: sound_def)
  have p: "map_of (b_props (objAt s o1)) k = Some p" using assms(4) by (simp add: slotIn_def)
  define s1 where "s1 = putSlot o1 k ?f s"
  note at1 = putSlot_at [OF assms(2) p, of ?f, folded s1_def]
  have "slot_ids s (?f p)" using heap_plainD(1) [OF snd(1) assms(2) p] by (simp add: slot_ids_def)
  then have plain1: "heap_plain s1" unfolding s1_def
    by (intro putSlot_plain [OF snd(1) assms(2) p]) (use assms(3, 5) in simp_all)
  have s1: "r_watchers s1 = r_watchers s" "r_sched s1 = r_sched s" "r_target s1 = r_target s" "r_targets s1 = r_targets s"
    "r_deps s1 = r_deps s" "length (r_objs s1) = length (r_objs s)" by (simp_all add: s1_def)
  have "arrays_end a (r_objs s1)" using heap_same [OF snd plain1 s1(6)] by (simp add: at1)
  moreover have "same_on (- set_option None) (r_objs s) (r_objs s1)"
    by (rule same_on_write [OF snd(1) s1(6)]) (use assms(4, 5) in \<open>auto simp: slotIn_def at1\<close>)
  ultimately have "sound a rank G s1" using silent_sound [OF assms(1) plain1 _ _ s1(1-5)] by simp
  moreover have "assign cb m n o1 k v s = OK () s1" using p assms(5) by (simp add: assign_def s1_def)
  moreover have "slotIn s1 o1 k = Some (p \<lparr> p_value := v, p_childOb := p_childOb p \<rparr>)" by (simp add: slotIn_def at1)
  ultimately show ?thesis by blast
qed

lemma assign_new:
  assumes "sound a rank G s" "o1 < length (r_objs s)" "inRange s v" "slotIn s o1 k = None"
  shows "\<exists>s' p. assign cb m n o1 k v s = OK () s' \<and> sound a rank G s' \<and> slotIn s' o1 k = Some p \<and> p_value p = v"
proof -
  let ?p = "\<lparr> p_value = v, p_dep = None, p_childOb = None, p_configurable = True \<rparr>"
  have snd: "heap_plain s" "arrays_end a (r_objs s)" using assms(1) by (simp_all add: sound_def)
  define s1 where "s1 = updObj o1 (\<lambda>b. b \<lparr> b_props := setProp k ?p (b_props b) \<rparr>) s"
  have at1: "objAt s1 o2 = (if o2 = o1 then (objAt s o1) \<lparr> b_props := setProp k ?p (b_props (objAt s o1)) \<rparr> else objAt s o2)" for o2
    by (simp add: s1_def updObj_at [OF assms(2)])
  have s1: "r_watchers s1 = r_watchers s" "r_sched s1 = r_sched s" "r_target s1 = r_target s" "r_targets s1 = r_targets s"
    "r_deps s1 = r_deps s" "length (r_objs s1) = length (r_objs s)" "inRange s1 u = inRange s u" "slot_ids s1 q = slot_ids s q" for u q
    by (simp_all add: s1_def slot_ids_def)
  have plain1: "heap_plain s1"
  proof (rule heap_plainI)
    fix o2 assume "o2 < length (r_objs s1)"
    then have o2: "o2 < length (r_objs s)" using s1 by simp
    note D = heap_plainD [OF snd(1) o2]
    have fr: "fresh (objAt s1 o2) = fresh (objAt s o2)" by (simp add: at1 fresh_def observable_def)
    show "inRange s1 (p_value q) \<and> (fresh (objAt s1 o2) \<longrightarrow> p_dep q = None) \<and> slot_ids s1 q"
      if q: "map_of (b_props (objAt s1 o2)) k' = Some q" for k' q
    proof (cases "o2 = o1 \<and> k' = k")
      case True
      then have "q = ?p" using q by (simp add: at1)
      then show ?thesis using assms(3) s1 by (simp add: slot_ids_def)
    next
      case False
      then have "map_of (b_props (objAt s o2)) k' = Some q" using q by (auto simp: at1 split: if_splits)
      then show ?thesis using D(1) fr s1 by simp
    qed
    show "inRange s1 u" if "u \<in> set (b_items (objAt s1 o2))" for u
      using D(2) [of u] that s1 by (simp add: at1 split: if_splits)
    show "e < length (r_deps s1)" if "b_ob (objAt s1 o2) = Some e" for e
      using D(3) [of e] that s1 by (simp add: at1 split: if_splits)
  qed
  have "arrays_end a (r_objs s1)" using heap_same [OF snd plain1 s1(6)] by (simp add: at1)
  moreover have "same_on (- set_option None) (r_objs s) (r_objs s1)"
    by (rule same_on_write [OF snd(1) s1(6)]) (use assms(4) in \<open>auto simp: slotIn_def at1\<close>)
  ultimately have "sound a rank G s1" using silent_sound [OF assms(1) plain1 _ _ s1(1-5)] by simp
  moreover have "assign cb m n o1 k v s = OK () s1" using assms(4) by (simp add: assign_def s1_def slotIn_def)
  moreover have "slotIn s1 o1 k = Some ?p" by (simp add: slotIn_def at1)
  ultimately show ?thesis by auto
qed

lemma assign_sound:
  assumes "sound a rank G s" "o1 < length (r_objs s)" "inRange s v"
  shows "\<exists>s' p. assign cb m (length (r_objs s)) o1 k v s = OK () s' \<and> sound a rank G s' \<and> slotIn s' o1 k = Some p \<and> p_value p = v"
proof (cases "slotIn s o1 k")
  case None
  then show ?thesis using assign_new [OF assms] by blast
next
  case (Some p)
  show ?thesis
  proof (cases "p_dep p")
    case None
    then show ?thesis using assign_plain [OF assms Some] by fastforce
  next
    case d: (Some d)
    show ?thesis
    proof (cases "v = p_value p")
      case True
      then have "assign cb m (length (r_objs s)) o1 k v s = OK () s" using Some d by (simp add: assign_def slotIn_def)
      then show ?thesis using assms(1) Some True by auto
    next
      case False
      show ?thesis using assign_reactive [OF assms Some d False] by fastforce
    qed
  qed
qed

section \<open>Arrays\<close>

lemma mutate_sound:
  assumes "sound a rank G s" "o1 < length (r_objs s)" "\<forall>v \<in> set items. inRange s v" "set inserted \<subseteq> set items"
    "arrays_end a (r_objs (updObj o1 (\<lambda>b. b \<lparr> b_items := items \<rparr>) s))"
  shows "\<exists>s'. mutate cb m (length (r_objs s)) o1 items inserted s = OK () s' \<and> sound a rank G s'
    \<and> b_items (objAt s' o1) = items \<and> (b_ob (objAt s o1) \<noteq> None \<longrightarrow> (\<forall>v \<in> set inserted. \<not> freshVal s' v))"
proof -
  let ?n = "length (r_objs s)"
  have snd: "good a rank G s" "settled G s" "heap_plain s" "arrays_end a (r_objs s)" "no_sync s"
    using assms(1) by (simp_all add: sound_def)
  define s1 where "s1 = updObj o1 (\<lambda>b. b \<lparr> b_items := items \<rparr>) s"
  have at1: "objAt s1 o2 = (if o2 = o1 then (objAt s o1) \<lparr> b_items := items \<rparr> else objAt s o2)" for o2
    by (simp add: s1_def updObj_at [OF assms(2)])
  have s1: "r_watchers s1 = r_watchers s" "r_sched s1 = r_sched s" "r_target s1 = r_target s" "r_targets s1 = r_targets s"
    "r_deps s1 = r_deps s" "length (r_objs s1) = ?n" by (simp_all add: s1_def)
  have rng1: "inRange s1 u = inRange s u" "slot_ids s1 q = slot_ids s q" for u q
    by (simp_all add: s1_def slot_ids_def)
  have fr1: "fresh (objAt s1 o2) = fresh (objAt s o2)" for o2 by (simp add: at1 fresh_def observable_def)
  have end1: "arrays_end a (r_objs s1)" using assms(5) by (simp add: s1_def)
  have plain1: "heap_plain s1"
  proof (rule heap_plainI)
    fix o2 assume "o2 < length (r_objs s1)"
    then have o2: "o2 < ?n" using s1 by simp
    note D = heap_plainD [OF snd(3) o2]
    have props: "b_props (objAt s1 o2) = b_props (objAt s o2)" "b_ob (objAt s1 o2) = b_ob (objAt s o2)" by (simp_all add: at1)
    show "inRange s1 (p_value q) \<and> (fresh (objAt s1 o2) \<longrightarrow> p_dep q = None) \<and> slot_ids s1 q"
      if "map_of (b_props (objAt s1 o2)) k = Some q" for k q
      using D(1) that unfolding props fr1 rng1 by blast
    show "inRange s1 u" if "u \<in> set (b_items (objAt s1 o2))" for u
      using D(2) [of u] that assms(3) by (auto simp: at1 rng1 split: if_splits)
    show "e < length (r_deps s1)" if "b_ob (objAt s1 o2) = Some e" for e
      using D(3) that unfolding props s1(5) by blast
  qed
  show ?thesis
  proof (cases "b_ob (objAt s o1)")
    case None
    have "same_on (- set_option None) (r_objs s) (r_objs s1)"
      by (rule same_on_write [OF snd(3) s1(6)]) (use None in \<open>auto simp: slotIn_def at1\<close>)
    then have "sound a rank G s1" using silent_sound [OF assms(1) plain1 end1 _ s1(1-5)] by simp
    moreover have "mutate cb m ?n o1 items inserted s = OK () s1" using None by (simp add: mutate_def s1_def)
    ultimately show ?thesis using None by (auto simp: at1)
  next
    case (Some d)
    have ins: "\<forall>v \<in> set inserted. inRange s1 v" using assms(3, 4) rng1 by blast
    have "unobserved s1 \<le> ?n" using unobserved_bound [of s1] s1(6) by simp
    then obtain s2 where s2: "observeArrayWith (observe ?n True) inserted s1 = OK () s2" "grows {} s1 s2" "heap_plain s2"
        "\<forall>v \<in> set inserted. \<not> freshVal s2 v"
      using observeArrayWith_grows [OF observe_ok plain1 _ ins] by blast
    note D2 = growsD [OF s2(2)]
    have keep: "objAt s2 o2 = objAt s1 o2" if "o2 < ?n" "\<not> fresh (objAt s o2)" for o2
      using grows_at(2) [OF s2(2), of o2] that s1(6) fr1 by auto
    obtain j where j: "r_deps s2 = r_deps s1 @ replicate j []" using s2(2) by (auto simp: grows_def)
    have s2': "r_watchers s2 = r_watchers s" "r_sched s2 = r_sched s" "r_target s2 = r_target s" "r_targets s2 = r_targets s"
      "r_deps s2 = r_deps s @ replicate j []" "length (r_objs s2) = ?n"
      using D2 s1 j by simp_all
    have same: "same_on (- set_option (Some d)) (r_objs s) (r_objs s2)"
    proof (rule same_on_write [OF snd(3) s2'(6)])
      fix o2 assume o2: "o2 < ?n" "\<not> fresh (objAt s o2)"
      show "(\<forall>k2 q. slotIn s o2 k2 = Some q \<longrightarrow> p_dep q \<noteq> None \<longrightarrow> p_dep q \<noteq> Some d \<longrightarrow> slotIn s2 o2 k2 = Some q)
        \<and> (b_ob (objAt s o2) \<noteq> None \<longrightarrow> b_ob (objAt s o2) \<noteq> Some d \<longrightarrow>
             b_ob (objAt s2 o2) = b_ob (objAt s o2) \<and> b_items (objAt s2 o2) = b_items (objAt s o2))"
        using keep [OF o2] Some by (cases "o2 = o1") (simp_all add: slotIn_def at1)
    qed
    have "b_kind (objAt s2 o2) = b_kind (objAt s1 o2) \<and> b_items (objAt s2 o2) = b_items (objAt s1 o2)" if "o2 < length (r_objs s1)" for o2
      using shape_fields [OF D2(6) [OF that]] by simp
    note heap = heap_same [OF plain1 end1 s2(3) D2(5) this]
    have d: "d < length (r_deps s)" using heap_plainD(3) [OF snd(3) assms(2) Some] .
    have same1: "same_on (- {d}) (r_objs s) (r_objs s2)" using same by simp
    obtain s' where s': "notify cb m ?n d s2 = OK () s'" "marks s2 s'" "settled G s'" "good a rank G s'"
      using notify_settled [OF snd(1, 2, 5) d s2'(1-5) same1] heap by blast
    have "sound a rank G s'" by (rule sound_marks [OF assms(1) s'(2-4) s2(3) _ s2'(1-4)]) (use heap in blast)
    moreover have "mutate cb m ?n o1 items inserted s = OK () s'"
      using Some s2(1) s'(1) by (simp add: mutate_def s1_def [symmetric])
    moreover have "objAt s' o2 = objAt s2 o2" for o2 using s'(2) by (simp add: marks_def objAt_def)
    moreover have "\<not> fresh (objAt s o1)" using Some by (simp add: fresh_def)
    moreover have "freshVal s' v = freshVal s2 v" for v using s'(2) by (simp add: freshVal_def objAt_def marks_def split: val.split)
    ultimately show ?thesis using keep [OF assms(2)] s2(4) by (simp add: at1)
  qed
qed

section \<open>The flush\<close>

text \<open>The invariants do not depend on the scheduler.\<close>

lemma setSched_fields [simp]:
  "r_objs (setSched f s) = r_objs s" "r_deps (setSched f s) = r_deps s" "r_watchers (setSched f s) = r_watchers s"
  "r_target (setSched f s) = r_target s" "r_targets (setSched f s) = r_targets s" "r_sched (setSched f s) = f (r_sched s)"
  by (simp_all add: setSched_def)

lemma sched_current [simp]: "current G (setSched f s) w = current G s w"
  by (simp add: current_def)

lemma sched_stack [simp]: "targetStack (setSched f s) = targetStack s"
  by (simp add: targetStack_def split: option.split)

lemma sched_good [simp]: "good a rank G (setSched f s) = good a rank G s"
  unfolding good_def sub_inv_def heap_ok_def calls_ok_def stack_ok_def cache_ok_def setSched_fields sched_current sched_stack ..

lemma sched_idle [simp]: "idle (setSched f s) = idle s" "no_sync (setSched f s) = no_sync s"
  by (simp_all add: idle_def no_sync_def)

text \<open>A run makes its watcher current and leaves the others current.\<close>

lemma steady_but_current:
  assumes "steady_but w s s'" "v < length (r_watchers s)" "v \<noteq> w" "\<not> x_lazy (r_watchers s ! v)" "current G s v"
  shows "current G s' v"
proof -
  have "wsteady True (Some v = r_target s) (r_watchers s ! v) (r_watchers s' ! v)" "r_objs s' = r_objs s"
    using assms(1-4) unfolding steady_but_def by auto
  then show ?thesis using assms(5) by (simp add: wsteady_def current_def)
qed

definition refreshed :: "(nat \<Rightarrow> prog) \<Rightarrow> rs \<Rightarrow> rs \<Rightarrow> bool" where
  "refreshed G s s' \<longleftrightarrow>
     idle s' \<and> no_sync s' \<and> r_objs s' = r_objs s \<and> length (r_deps s') = length (r_deps s) \<and> length (r_watchers s') = length (r_watchers s)
     \<and> (\<forall>w < length (r_watchers s). x_lazy (r_watchers s' ! w) = x_lazy (r_watchers s ! w) \<and> x_active (r_watchers s' ! w) = x_active (r_watchers s ! w)
          \<and> (x_active (r_watchers s ! w) \<longrightarrow> \<not> x_lazy (r_watchers s ! w) \<longrightarrow> current G s' w))"

text \<open>A step of the loop: nothing is queued again, so the loop goes on with the next watcher.\<close>

lemma runQueued_current:
  assumes "good a rank G s" "idle s" "no_sync s" "s_index (r_sched s) < length (s_queue (r_sched s))"
    and w: "w_id (s_queue (r_sched s) ! s_index (r_sched s)) = w" "w < length (r_watchers s)" "\<not> x_lazy (r_watchers s ! w)"
    and "rank w \<le> n" "x_active (r_watchers s ! w) \<Longrightarrow> \<exists>v T. evals G (r_objs s) {} (G w) v T"
  obtains s1 where "runQueued noop a n s = OK False s1" "good a rank G s1" "idle s1" "steady_but w (setSched (\<lambda>_. r_sched s1) s) s1"
    "s_queue (r_sched s1) = s_queue (r_sched s)" "s_index (r_sched s1) = Suc (s_index (r_sched s))"
    "x_active (r_watchers s ! w) \<longrightarrow> current G s1 w"
proof -
  let ?s = "setSched (\<lambda>c. c \<lparr> s_has := (s_has c) (w := False) \<rparr>) s"
  have "\<exists>s1. runW noop a n w ?s = OK () s1 \<and> good a rank G s1 \<and> steady_but w ?s s1 \<and> idle s1
      \<and> (x_active (r_watchers s ! w) \<longrightarrow> current G s1 w)"
  proof (cases "x_active (r_watchers s ! w)")
    case False
    then show ?thesis using assms(1, 2) by (simp add: runW_def steady_but_def)
  next
    case True
    have "\<not> x_deep (r_watchers s ! w)" using assms(3) w(2) by (simp add: no_sync_def)
    then show ?thesis
      using runW_good [of a rank G ?s w n noop] assms w True by (fastforce simp: noop_def)
  qed
  then obtain s1 where s1: "runW noop a n w ?s = OK () s1" "good a rank G s1" "steady_but w ?s s1" "idle s1"
    "x_active (r_watchers s ! w) \<longrightarrow> current G s1 w" by blast
  let ?e = "setSched (\<lambda>c. c \<lparr> s_index := s_index c + 1 \<rparr>) s1"
  have sc: "r_sched s1 = (r_sched s) \<lparr> s_has := (s_has (r_sched s)) (w := False) \<rparr>" using s1(3) by (simp add: steady_but_def)
  have "runQueued noop a n s = OK False ?e" using s1(1) sc by (simp add: runQueued_def Let_def w(1))
  moreover have "steady_but w (setSched (\<lambda>_. r_sched ?e) s) ?e"
    using s1(3) by (simp add: steady_but_def)
  ultimately show thesis using that [of ?e] s1(2, 4, 5) sc by simp
qed

lemma runQueue_current:
  assumes "good a rank G s" "idle s" "no_sync s" "\<And>w. w < length (r_watchers s) \<Longrightarrow> rank w \<le> n"
    "\<And>w. w < length (r_watchers s) \<Longrightarrow> x_active (r_watchers s ! w) \<Longrightarrow> \<exists>v T. evals G (r_objs s) {} (G w) v T"
    "drop (s_index (r_sched s)) (s_queue (r_sched s)) = qs" "length qs < fuel"
    "\<forall>q \<in> set qs. w_id q < length (r_watchers s) \<and> \<not> x_lazy (r_watchers s ! w_id q)"
    "\<forall>w < length (r_watchers s). x_active (r_watchers s ! w) \<longrightarrow> \<not> x_lazy (r_watchers s ! w) \<longrightarrow> w \<in> w_id ` set qs \<or> current G s w"
  shows "\<exists>s'. runQueue noop fuel a n s = OK () s' \<and> good a rank G s' \<and> refreshed G s s'"
  using assms
proof (induction qs arbitrary: s fuel)
  case Nil
  then have "runQueue noop fuel a n s = OK () s" by (cases fuel) simp_all
  then show ?case using Nil.prems by (auto simp: refreshed_def)
next
  case (Cons q qs)
  let ?w = "w_id q"
  obtain k where k: "fuel = Suc k" "length qs < k" using Cons.prems(7) by (cases fuel) auto
  have i: "s_index (r_sched s) < length (s_queue (r_sched s))"
    using Cons.prems(6) by (metis drop_all leI list.simps(3))
  have q: "s_queue (r_sched s) ! s_index (r_sched s) = q" "drop (Suc (s_index (r_sched s))) (s_queue (r_sched s)) = qs"
    using Cons.prems(6) Cons_nth_drop_Suc [OF i] by simp_all
  have w: "?w < length (r_watchers s)" "\<not> x_lazy (r_watchers s ! ?w)" using Cons.prems(8) by simp_all
  obtain s1 where s1: "runQueued noop a n s = OK False s1" "good a rank G s1" "idle s1"
    "steady_but ?w (setSched (\<lambda>_. r_sched s1) s) s1" "s_queue (r_sched s1) = s_queue (r_sched s)"
    "s_index (r_sched s1) = Suc (s_index (r_sched s))" "x_active (r_watchers s ! ?w) \<longrightarrow> current G s1 ?w"
    by (rule runQueued_current [OF Cons.prems(1-3) i _ w Cons.prems(4) [OF w(1)] Cons.prems(5) [OF w(1)]]) (use q in auto)
  have len: "length (r_watchers s1) = length (r_watchers s)" "r_objs s1 = r_objs s" "length (r_deps s1) = length (r_deps s)"
    using s1(4) by (simp_all add: steady_but_def)
  have fixd: "fixed (r_watchers s1 ! v) = fixed (r_watchers s ! v)" if "v < length (r_watchers s)" for v
    using s1(4) that by (cases "v = ?w") (auto simp: steady_but_def wsteady_def)
  then have flags: "x_lazy (r_watchers s1 ! v) = x_lazy (r_watchers s ! v)" "x_active (r_watchers s1 ! v) = x_active (r_watchers s ! v)"
    "x_sync (r_watchers s1 ! v) = x_sync (r_watchers s ! v)" "x_deep (r_watchers s1 ! v) = x_deep (r_watchers s ! v)"
    if "v < length (r_watchers s)" for v
    using that by (simp_all add: fixed_def)
  have cur: "current G s1 v" if "v < length (r_watchers s)" "\<not> x_lazy (r_watchers s ! v)" "x_active (r_watchers s ! v)"
      "v = ?w \<or> current G s v" for v
    using steady_but_current [OF s1(4), of v G] s1(7) that by auto
  have "\<exists>s'. runQueue noop k a n s1 = OK () s' \<and> good a rank G s' \<and> refreshed G s1 s'"
  proof (rule Cons.IH [OF s1(2, 3)])
    show "no_sync s1" using Cons.prems(3) flags len by (simp add: no_sync_def)
    show "rank w \<le> n" if "w < length (r_watchers s1)" for w using Cons.prems(4) that len by simp
    show "\<exists>v T. evals G (r_objs s1) {} (G w) v T" if "w < length (r_watchers s1)" "x_active (r_watchers s1 ! w)" for w
      using Cons.prems(5) that len flags by simp
    show "drop (s_index (r_sched s1)) (s_queue (r_sched s1)) = qs" using q(2) s1(5, 6) by simp
    show "\<forall>q \<in> set qs. w_id q < length (r_watchers s1) \<and> \<not> x_lazy (r_watchers s1 ! w_id q)"
      using Cons.prems(8) len flags by auto
    show "\<forall>w < length (r_watchers s1). x_active (r_watchers s1 ! w) \<longrightarrow> \<not> x_lazy (r_watchers s1 ! w) \<longrightarrow> w \<in> w_id ` set qs \<or> current G s1 w"
      using Cons.prems(9) cur len flags by auto
  qed (rule k(2))
  then show ?case using s1(1) i k(1) len flags by (auto simp: refreshed_def)
qed

lemma flushQueue_sound:
  assumes "sound a rank G s" "\<And>w. w < length (r_watchers s) \<Longrightarrow> rank w \<le> n"
    "\<And>w. w < length (r_watchers s) \<Longrightarrow> x_active (r_watchers s ! w) \<Longrightarrow> \<exists>v T. evals G (r_objs s) {} (G w) v T"
  obtains s' h where "flushQueue noop (Suc (length (s_queue (r_sched s)))) renders a n s = OK h s'" "sound a rank G s'"
    "r_objs s' = r_objs s" "length (r_watchers s') = length (r_watchers s)"
    "\<And>w. w < length (r_watchers s') \<Longrightarrow> x_active (r_watchers s' ! w) \<Longrightarrow> if x_lazy (r_watchers s' ! w)
        then x_dirty (r_watchers s' ! w) \<or> current G s' w else current G s' w"
    "s_queue (r_sched s') = []"
proof -
  let ?qs = "sort_key w_id (s_queue (r_sched s))"
  let ?start = "setSched (\<lambda>c. c \<lparr> s_flushing := True, s_queue := sort_key w_id (s_queue c), s_index := 0 \<rparr>) s"
  have snd: "good a rank G s" "settled G s" "heap_plain s" "arrays_end a (r_objs s)" "no_sync s" "idle s" "queue_ok s"
    using assms(1) by (simp_all add: sound_def)
  have "\<exists>s1. runQueue noop (Suc (length (s_queue (r_sched s)))) a n ?start = OK () s1 \<and> good a rank G s1 \<and> refreshed G ?start s1"
  proof (rule runQueue_current)
    show "\<forall>q \<in> set ?qs. w_id q < length (r_watchers ?start) \<and> \<not> x_lazy (r_watchers ?start ! w_id q)"
      using snd(7) by (auto simp: queue_ok_def)
    show "\<forall>w < length (r_watchers ?start). x_active (r_watchers ?start ! w) \<longrightarrow> \<not> x_lazy (r_watchers ?start ! w) \<longrightarrow>
        w \<in> w_id ` set ?qs \<or> current G ?start w"
      using snd(2, 7) by (auto simp: settled_def marked_def queue_ok_def)
  qed (use snd assms(2, 3) in simp_all)
  then obtain s1 where run: "runQueue noop (Suc (length (s_queue (r_sched s)))) a n ?start = OK () s1"
    and ran: "good a rank G s1" "refreshed G ?start s1" by blast
  let ?s = "setSched resetSchedulerState s1"
  obtain h where fl: "flushQueue noop (Suc (length (s_queue (r_sched s)))) renders a n s = OK h ?s"
    using run by (simp add: flushQueue_def Let_def del: runQueue.simps)
  have good: "good a rank G ?s" using ran(1) by simp
  have objs: "r_objs ?s = r_objs s" "length (r_deps ?s) = length (r_deps s)" "length (r_watchers ?s) = length (r_watchers s)"
    using ran(2) by (simp_all add: refreshed_def)
  have cur: "current G ?s w" if "w < length (r_watchers ?s)" "x_active (r_watchers ?s ! w)" "\<not> x_lazy (r_watchers ?s ! w)" for w
    using that ran(2) objs(3) by (simp add: refreshed_def)
  have lazy: "x_dirty (r_watchers ?s ! w) \<or> current G ?s w"
    if "w < length (r_watchers ?s)" "x_active (r_watchers ?s ! w)" "x_lazy (r_watchers ?s ! w)" for w
    using good that unfolding good_def cache_ok_def by blast
  have st: "settled G ?s" unfolding settled_def marked_def using cur lazy by metis
  have "heap_plain ?s" by (rule heap_plain_objs [OF snd(3) objs(1)]) (use objs(2) in simp)
  moreover have "arrays_end a (r_objs ?s)" using snd(4) by (simp only: objs(1))
  moreover have "no_sync ?s" "idle ?s" using ran(2) by (simp_all add: refreshed_def)
  moreover have "queue_ok ?s" by (simp add: queue_ok_def resetSchedulerState_def)
  ultimately have "sound a rank G ?s" using good st by (simp add: sound_def)
  moreover have "s_queue (r_sched ?s) = []" by (simp add: resetSchedulerState_def)
  ultimately show thesis using that [OF fl _ objs(1, 3)] cur lazy by simp
qed

section \<open>Assignments are seen\<close>

lemma sound_stale:
  "sound a rank G s \<Longrightarrow> \<forall>w < length (r_watchers s). x_active (r_watchers s ! w) \<longrightarrow>
     current G s w \<or> (if x_lazy (r_watchers s ! w) then x_dirty (r_watchers s ! w) else w \<in> w_id ` set (s_queue (r_sched s)))"
  unfolding sound_def settled_def marked_def queue_ok_def by metis

text \<open>
  C22. In a sound state, every assignment to a property of an object returns, and afterwards each active watcher
  either has the value that its getter gives on the new heap, or is marked: a computed property is dirty, another
  watcher waits in the queue of the scheduler. No watcher keeps a stale value unnoticed. In a sound state no
  watcher is sync or deep, no evaluation and no flush is going on, and getters read only reactive properties,
  arrays and computed properties.
\<close>

theorem assign_marks_stale:
  assumes "sound a rank G s" "o1 < length (r_objs s)" "inRange s v"
  shows "\<exists>s' p. assign cb m (length (r_objs s)) o1 k v s = OK () s' \<and> slotIn s' o1 k = Some p \<and> p_value p = v \<and> sound a rank G s'
    \<and> (\<forall>w < length (r_watchers s'). x_active (r_watchers s' ! w) \<longrightarrow>
         current G s' w \<or> (if x_lazy (r_watchers s' ! w) then x_dirty (r_watchers s' ! w) else w \<in> w_id ` set (s_queue (r_sched s'))))"
proof -
  obtain s' p where s': "assign cb m (length (r_objs s)) o1 k v s = OK () s'" "sound a rank G s'" "slotIn s' o1 k = Some p" "p_value p = v"
    using assign_sound [OF assms] by blast
  then show ?thesis using sound_stale [OF s'(2)] by blast
qed

text \<open>
  C7. An assignment followed by the flush of the scheduler, in a sound state: no watcher is sync or deep, the
  scheduler is not flushing, the callbacks are the \<open>noop\<close> of render watchers, and the getters do not throw and
  read only what is reactive. The assignment and the flush return without an error, the property has the new value,
  the queue is empty and the state is sound again. Every active watcher that is no computed property has the value
  that its getter gives on the new heap; a computed property has it or is dirty, so that its next reader evaluates
  it.
\<close>

theorem assign_then_flush:
  assumes "sound a rank G s" "o1 < length (r_objs s)" "inRange s v"
    and "\<forall>s1 w. assign noop m (length (r_objs s)) o1 k v s = OK () s1 \<longrightarrow> w < length (r_watchers s1) \<longrightarrow>
      rank w \<le> n \<and> (\<exists>u T. evals G (r_objs s1) {} (G w) u T)"
  shows "\<exists>s1 s2 p h. assign noop m (length (r_objs s)) o1 k v s = OK () s1
    \<and> flushQueue noop (Suc (length (s_queue (r_sched s1)))) renders a n s1 = OK h s2
    \<and> slotIn s2 o1 k = Some p \<and> p_value p = v \<and> s_queue (r_sched s2) = [] \<and> sound a rank G s2
    \<and> (\<forall>w < length (r_watchers s2). x_active (r_watchers s2 ! w) \<longrightarrow>
         (if x_lazy (r_watchers s2 ! w) then x_dirty (r_watchers s2 ! w) \<or> current G s2 w else current G s2 w))"
proof -
  obtain s1 p where s1: "assign noop m (length (r_objs s)) o1 k v s = OK () s1" "sound a rank G s1" "slotIn s1 o1 k = Some p" "p_value p = v"
    using assign_sound [OF assms(1-3)] by blast
  have ev: "rank w \<le> n" "\<exists>u T. evals G (r_objs s1) {} (G w) u T" if "w < length (r_watchers s1)" for w
    using assms(4) s1(1) that by blast+
  obtain s2 h where s2: "flushQueue noop (Suc (length (s_queue (r_sched s1)))) renders a n s1 = OK h s2" "sound a rank G s2" "r_objs s2 = r_objs s1" "s_queue (r_sched s2) = []"
    "\<And>w. w < length (r_watchers s2) \<Longrightarrow> x_active (r_watchers s2 ! w) \<Longrightarrow> if x_lazy (r_watchers s2 ! w)
        then x_dirty (r_watchers s2 ! w) \<or> current G s2 w else current G s2 w"
    by (rule flushQueue_sound [OF s1(2) ev, of renders]) auto
  have "slotIn s2 o1 k = Some p" using s1(3) s2(3) by (simp add: slotIn_def objAt_def)
  then show ?thesis using s1(1, 4) s2 by blast
qed

text \<open>
  An object with one property, a computed property that reads it, and a render watcher that reads the computed
  property.
\<close>

definition exSlot :: slot where
  "exSlot = \<lparr> p_value = Number 1, p_dep = Some 0, p_childOb = None, p_configurable = True \<rparr>"

definition exObj :: obj where
  "exObj = \<lparr> b_kind = PlainObject, b_extensible = True, b_isVue = False, b_props = [([], exSlot)], b_items = [], b_ob = Some 1,
     b_vmCount = 1 \<rparr>"

definition exGetter :: "nat \<Rightarrow> prog" where
  "exGetter w = (if w = 0 then Get 0 [] Done else Computed 0 Done)"

definition exWatcherObj :: "nat \<Rightarrow> wobj" where
  "exWatcherObj w = \<lparr> x_lazy = (w = 0), x_sync = False, x_user = False, x_deep = False, x_active = True, x_dirty = False,
     x_value = Number 1, x_deps = [0], x_newDeps = [], x_depIds = [0], x_newDepIds = [], x_getter = exGetter w, x_vm = 0 \<rparr>"

definition exState :: rs where
  "exState = \<lparr> r_objs = [exObj], r_deps = [[0, 1], []], r_watchers = [exWatcherObj 0, exWatcherObj 1], r_target = None,
     r_targets = [], r_sched = startSched \<rparr>"

definition exRank :: "nat \<Rightarrow> nat" where
  "exRank w = (if w = 0 then 0 else 1)"

lemma ex_evals:
  assumes "slotOf os 0 [] = Some p" "p_dep p = Some 0"
  shows "evals exGetter os {} (exGetter w) (p_value p) (insert 0 (set_option (p_childOb p)))"
proof -
  have c: "evals exGetter os {} (exGetter 0) (p_value p) (insert 0 (set_option (p_childOb p)))"
    using evals_Get [OF assms(1, 2), of exGetter "{}" Done] evals_Done by (simp add: exGetter_def)
  then show ?thesis
    using evals_Computed [OF c, of "{}" Done] evals_Done by (cases "w = 0") (simp_all add: exGetter_def)
qed

lemma ex_slot: "slotOf (r_objs exState) o1 k = (if o1 = 0 \<and> k = [] then Some exSlot else None)"
  by (auto simp: slotOf_def exState_def exObj_def)

lemma ex_current:
  assumes "w < 2"
  shows "current exGetter exState w"
proof -
  have "evals exGetter (r_objs exState) {} (exGetter w) (Number 1) {0}"
    using ex_evals [of "r_objs exState" exSlot w] by (simp add: ex_slot) (simp add: exSlot_def)
  moreover have "x_value (r_watchers exState ! w) = Number 1" "x_deps (r_watchers exState ! w) = [0]"
    using assms by (auto simp: exState_def exWatcherObj_def less_2_cases_iff)
  ultimately show ?thesis unfolding current_def by auto
qed

lemma ex_sound: "sound 0 exRank exGetter exState"
proof -
  have "sub_inv exState"
    by (auto simp: sub_inv_def exState_def exWatcherObj_def Let_def less_Suc_eq)
  moreover have plain: "heap_plain exState"
    by (auto simp: heap_plain_def exState_def objAt_def exObj_def exSlot_def slot_ids_def inRange_def fresh_def)
  moreover have ends: "arrays_end 0 (r_objs exState)" by (simp add: arrays_end_def exState_def exObj_def)
  moreover have "calls_ok exRank exGetter exState"
    by (auto simp: calls_ok_def exState_def exWatcherObj_def exGetter_def exRank_def less_Suc_eq)
  moreover have "stack_ok exRank exState"
    by (auto simp: stack_ok_def targetStack_def exState_def exWatcherObj_def less_Suc_eq)
  moreover have "settled exGetter exState" using ex_current by (simp add: settled_def exState_def)
  moreover have "no_sync exState" "idle exState" "queue_ok exState"
    by (auto simp: no_sync_def idle_def queue_ok_def exState_def exWatcherObj_def startSched_def less_Suc_eq)
  ultimately show ?thesis using settled_cache heap_plain_ok [OF plain ends] by (simp add: sound_def good_def)
qed

lemma assign_marks_stale_witness:
  "\<exists>s' p. assign (\<lambda>w v u s. s) 0 1 0 [] (Number 7) exState = OK () s' \<and> slotIn s' 0 [] = Some p \<and> p_value p = Number 7"
proof -
  have "0 < length (r_objs exState)" "inRange exState (Number 7)" "length (r_objs exState) = 1" by (simp_all add: exState_def inRange_def)
  then show ?thesis using assign_marks_stale [OF ex_sound, of 0 "Number 7" "\<lambda>w v u s. s" 0 "[]"] by auto
qed

lemma assign_then_flush_witness:
  "\<exists>s1 s2 p h. assign noop 0 1 0 [] (Number 7) exState = OK () s1 \<and> flushQueue noop (Suc (length (s_queue (r_sched s1)))) (\<lambda>w. True) 0 1 s1 = OK h s2
    \<and> slotIn s2 0 [] = Some p \<and> p_value p = Number 7 \<and> s_queue (r_sched s2) = []"
proof -
  have n: "0 < length (r_objs exState)" "inRange exState (Number 7)" "length (r_objs exState) = 1" by (simp_all add: exState_def inRange_def)
  have p: "slotIn exState 0 [] = Some exSlot" "p_dep exSlot = Some 0" "Number 7 \<noteq> p_value exSlot"
    by (simp_all add: slotIn_def objAt_def exState_def exObj_def exSlot_def)
  have "exRank w \<le> 1 \<and> (\<exists>u T. evals exGetter (r_objs s1) {} (exGetter w) u T)"
    if "assign noop 0 1 0 [] (Number 7) exState = OK () s1" for s1 w
  proof -
    obtain s' c where s': "assign noop 0 1 0 [] (Number 7) exState = OK () s'"
        "slotIn s' 0 [] = Some (exSlot \<lparr> p_value := Number 7, p_childOb := c \<rparr>)" "length (r_objs s') = 1"
      using assign_reactive [OF ex_sound n(1, 2) p, of noop 0] unfolding n(3) by blast
    have "s1 = s'" using s'(1) that by simp
    then have "slotOf (r_objs s1) 0 [] = Some (exSlot \<lparr> p_value := Number 7, p_childOb := c \<rparr>)" using s' by (simp add: slotOf_in)
    from ex_evals [OF this, of w] have "\<exists>u T. evals exGetter (r_objs s1) {} (exGetter w) u T" by (auto simp: exSlot_def)
    then show ?thesis by (simp add: exRank_def)
  qed
  then show ?thesis
    using assign_then_flush [OF ex_sound n(1, 2), of 0 "[]" 1 "\<lambda>w. True"] n(3) by auto
qed

lemma flush_example:
  "(case assign noop 0 1 0 [] (Number 7) exState of
      OK u s1 \<Rightarrow>
        (case flushQueue noop 9 (\<lambda>w. True) 0 1 s1 of
           OK h s2 \<Rightarrow> Some (map x_value (r_watchers s1), map x_value (r_watchers s2), h) | _ \<Rightarrow> None)
    | _ \<Rightarrow> None)
   = Some ([Number 1, Number 1], [Number 7, Number 7], ([], [0]))"
  by code_simp

lemma getW_collects_witness:
  "\<exists>s'. getW 0 1 1 exState = OK (Number 1) s' \<and> (\<forall>d \<in> {0}. d \<in> set (x_deps (r_watchers s' ! 1)) \<and> 1 \<in> set (r_deps s' ! d))"
proof -
  have s: "good 0 exRank exGetter exState" "idle exState" using ex_sound by (simp_all add: sound_def)
  have w: "1 < length (r_watchers exState)" "x_active (r_watchers exState ! 1)" "\<not> x_deep (r_watchers exState ! 1)"
    "x_lazy (r_watchers exState ! 1) \<longrightarrow> x_dirty (r_watchers exState ! 1)" by (simp_all add: exState_def exWatcherObj_def)
  have "evals exGetter (r_objs exState) {} (exGetter 1) (Number 1) {0}"
    using ex_evals [of "r_objs exState" exSlot 1] by (simp add: ex_slot) (simp add: exSlot_def)
  from getW_collects [OF s w this, of 1] show ?thesis by (auto simp: exRank_def)
qed

text \<open>Two objects that refer to each other.\<close>

definition exCycle :: rs where
  "exCycle = exState \<lparr> r_objs := map (\<lambda>i. \<lparr> b_kind = PlainObject, b_extensible = True, b_isVue = False,
     b_props = [([], \<lparr> p_value = Ref i, p_dep = None, p_childOb = None, p_configurable = True \<rparr>)], b_items = [], b_ob = None,
     b_vmCount = 0 \<rparr>) [1, 0] \<rparr>"


section \<open>Methods of arrays\<close>

text \<open>
  C28. In a sound state (no sync or deep watchers, outside evaluations and flushes, getters that read only what is
  reactive), a method of an array that gives it new items, as long as arrays stay nested within the bound,
  returns; what was inserted into an observed array is observed, and as after an assignment every active
  watcher has the value its getter gives on the new heap or is marked.
\<close>

theorem mutate_marks_stale:
  assumes "sound a rank G s" "o1 < length (r_objs s)" "\<forall>v \<in> set items. inRange s v" "set inserted \<subseteq> set items"
    "arrays_end a (r_objs (updObj o1 (\<lambda>b. b \<lparr> b_items := items \<rparr>) s))"
  shows "\<exists>s'. mutate cb m (length (r_objs s)) o1 items inserted s = OK () s' \<and> b_items (objAt s' o1) = items \<and> sound a rank G s'
    \<and> (b_ob (objAt s o1) \<noteq> None \<longrightarrow> (\<forall>v \<in> set inserted. \<not> freshVal s' v))
    \<and> (\<forall>w < length (r_watchers s'). x_active (r_watchers s' ! w) \<longrightarrow>
         current G s' w \<or> (if x_lazy (r_watchers s' ! w) then x_dirty (r_watchers s' ! w) else w \<in> w_id ` set (s_queue (r_sched s'))))"
proof -
  obtain s' where s': "mutate cb m (length (r_objs s)) o1 items inserted s = OK () s'" "sound a rank G s'" "b_items (objAt s' o1) = items"
      "b_ob (objAt s o1) \<noteq> None \<longrightarrow> (\<forall>v \<in> set inserted. \<not> freshVal s' v)"
    using mutate_sound [OF assms] by blast
  then show ?thesis using sound_stale [OF s'(2)] by blast
qed

text \<open>The array of the example has no element, and gets one.\<close>

definition exArray :: rs where
  "exArray = exState \<lparr> r_objs := [exObj, \<lparr> b_kind = ArrayObject, b_extensible = True, b_isVue = False, b_props = [], b_items = [],
     b_ob = Some 1, b_vmCount = 0 \<rparr>] \<rparr>"

lemma exArray_sound: "sound 0 exRank exGetter exArray"
proof -
  have st: "sound 0 exRank exGetter exState" by (rule ex_sound)
  show ?thesis
    by (rule silent_sound [OF st])
      (auto simp: heap_plain_def exArray_def objAt_def less_Suc_eq inRange_def slot_ids_def exState_def exObj_def exSlot_def arrays_end_def
        same_on_def slotOf_def fresh_def)
qed

lemma mutate_marks_stale_witness:
  "\<exists>s'. mutate (\<lambda>w v u s. s) 0 2 1 [Number 3] [Number 3] exArray = OK () s' \<and> b_items (objAt s' 1) = [Number 3]"
proof -
  have "1 < length (r_objs exArray)" "\<forall>v \<in> set [Number 3]. inRange exArray v" "set [Number 3] \<subseteq> set [Number 3]"
    "arrays_end 0 (r_objs (updObj 1 (\<lambda>b. b \<lparr> b_items := [Number 3] \<rparr>) exArray))" "length (r_objs exArray) = 2"
    by (simp_all add: exArray_def inRange_def arrays_end_def updObj_def less_Suc_eq exState_def exObj_def)
  then show ?thesis using mutate_marks_stale [OF exArray_sound, of 1 "[Number 3]" "[Number 3]" "\<lambda>w v u s. s" 0] by auto
qed

end
