(* ===== verification/Spec2Isabelle.thy ===== *)
theory Spec2Isabelle
  imports LineTree HistoryFacts MarkOpsFacts CleanState JsHighlight VuePatchFacts VueScheduler VueCodegenFacts VueRefresh
begin

text \<open>
  Verification library for the JavaScript of the admin pages of shine-learning
  (\<open>annotation/src/main/resources/static/backend/js\<close>). It covers the two programs there that carry
  logic of their own: the editor CodeMirror (\<open>plugins/codemirror/codemirror.js\<close> and
  \<open>mode/javascript/javascript.js\<close>) and the framework Vue (\<open>vue.js\<close>).

  \<^bold>\<open>The editor.\<close> A document is a tree of lines with marked spans, a selection and a history. A change
  goes through \<open>makeChange\<close>: handlers may alter it, read-only ranges split it, \<open>addChangeToHistory\<close>
  records its inverse, \<open>updateDoc\<close> rewrites the lines and \<open>stretchSpansOverChange\<close> their spans, and
  the selection follows; \<open>makeChangeFromHistory\<close> takes events back and forth between the two stacks of
  the history. Independently of that, a mode reads each line token by token from a state, and the
  highlighter keeps the styles of lines, and starts at a line with a saved state.

  \<^item> \<open>Prelude\<close>: strings as lists of code units, the array operations of the language, shared lemmas.
  \<^item> \<open>Positions\<close>: \<open>Pos\<close>, \<open>Range\<close>, \<open>Selection\<close>, \<open>normalizeSelection\<close>, \<open>adjustForChange\<close>,
    \<open>computeSelAfterChange\<close>: normalising covers the same positions with separated ranges, adjusting is
    monotone and inverted by the inverse change.
  \<^item> \<open>LineTree\<close>: \<open>LeafChunk\<close> and \<open>BranchChunk\<close>; the invariant (sizes, heights, bounds of the nodes) and the
    refinement of insertion, removal and lookup to the list of lines.
  \<^item> \<open>Markers\<close>, \<open>MarkerOps\<close>: the spans of markers, how a change cuts and stretches them, collapsed and
    read-only ranges.
  \<^item> \<open>MarkText\<close>, \<open>MarkOps\<close>, \<open>MarkOpsFacts\<close>: the range a marker covers (\<open>covers\<close>), where a change moves it
    (\<open>movedFrom\<close>, \<open>movedTo\<close>, \<open>survives\<close>) and that \<open>find\<close> returns it; \<open>markText\<close>, bookmarks and the
    methods that list markers, and that clearing undoes marking. \<open>linked\<close> is the invariant that every marker
    knows the lines it has spans on.
  \<^item> \<open>TextModel\<close>, \<open>Document\<close>, \<open>DocText\<close>: the document as a list of strings (the specification) and
    the record of the code; \<open>updateDoc\<close> refines the replacement of a piece of text.
  \<^item> \<open>Selections\<close>, \<open>History\<close>, \<open>HistoryFacts\<close>, \<open>Changes\<close>, \<open>TextHistory\<close>, \<open>ChangeText\<close>: setting the
    selection, the history and the change operations; the invariant that the events of a stack,
    undone one after the other, always fit the text, and from it that undo and redo are inverse.
  \<^item> \<open>DocApi\<close>, \<open>DocApiFacts\<close>, \<open>CleanState\<close>: the constructor and the public methods of a document. A new
    document satisfies the invariants (\<open>newDoc_spec\<close>), the value set is the value read, positions and
    indices correspond, and markers follow \<open>makeChange\<close>. \<open>CleanState\<close> has the relation \<open>edits\<close> of all that
    may happen to a document, and from the dates of the events (\<open>dated\<close>) that \<open>isClean\<close> tells the truth.
  \<^item> \<open>Strings\<close>: \<open>countColumn\<close>, \<open>findColumn\<close>, \<open>splitLines\<close>, \<open>StringStream\<close>.
  \<^item> \<open>JsTokenizer\<close>, \<open>JsParser\<close>, \<open>JsParse\<close>, \<open>JsMode\<close>: the JavaScript mode; every combinator of its parser
    is a value of a datatype, the stack \<open>cc\<close> a list of them. The measure of \<open>JsParse\<close> shows that a
    token is always consumed, its invariant that no pop meets an empty context.
  \<^item> \<open>Highlight\<close>, \<open>HighlightState\<close>, \<open>JsHighlight\<close>: running a mode, where to start, the queries on tokens, in the locale \<open>advancing_mode\<close> (a
    mode that takes a character with every token); the JavaScript mode and the null mode are
    interpretations of it.

  \<^bold>\<open>The framework.\<close> A template is parsed to a tree, compiled to a render function, and the vnodes that it
  returns are patched into the DOM when the scheduler runs the watcher of the component. A watcher is
  run when a property that its getter has read is assigned.

  \<^item> \<open>VueHtml\<close>: \<open>parseHTML\<close> with its regular expressions written as matching functions; the calls of the
    callbacks are well nested for any input, and parsing a rendered template gives its structure.
  \<^item> \<open>VueFilters\<close>: \<open>parseFilters\<close> against a one-pass specification, \<open>parseModel\<close>.
  \<^item> \<open>VueAst\<close>, \<open>VueTemplate\<close>, \<open>VueTemplateFacts\<close>: \<open>parse\<close>. \<open>VueAst\<close> has the elements and the processing of
    their attributes, \<open>VueTemplate\<close> the callbacks over a store of elements, as the stack, the children and
    the blocks of conditions share them. The callbacks keep the links of a tree, and the only error they raise is
    that of the check of the root.
  \<^item> \<open>VueOptimizer\<close>, \<open>VueOptimizerFacts\<close>: \<open>optimize\<close>; an element is static exactly if nothing dynamic can be
    reached from it, and only such elements are hoisted.
  \<^item> \<open>VueHandlers\<close>, \<open>VueCodegen\<close>, \<open>VueCodegenFacts\<close>: \<open>generate\<close> and \<open>baseCompile\<close>. The runs of the generators
    are functions on a state; \<open>safe\<close> and its rules carry the proof that the compiler ends, and say which templates
    make it raise an error.
  \<^item> \<open>VueScheduler\<close>: \<open>queueWatcher\<close> and \<open>flushSchedulerQueue\<close> against a priority queue (\<open>serves\<close>),
    for any runs of the watchers; \<open>VueReactive\<close> has the flush again, with the watchers of its heap.
  \<^item> \<open>VueReactive\<close>, \<open>VueReactiveFacts\<close>, \<open>VueObserver\<close>, \<open>VueRefresh\<close>: \<open>Dep\<close>, \<open>Observer\<close>, \<open>defineReactive\<close>,
    \<open>Watcher\<close> and computed properties on an explicit heap. The specification of a getter is the relation
    \<open>evals\<close>: its value and the deps that stand for what it reads. A watcher collects these deps
    (\<open>VueReactiveFacts\<close>), \<open>observe\<close> makes everything below a value reactive (\<open>VueObserver\<close>), and so an
    assignment marks every watcher that is stale and the flush makes all of them current (\<open>VueRefresh\<close>).
  \<^item> \<open>VuePatch\<close>, \<open>VuePatchFacts\<close>: \<open>patchVnode\<close> and \<open>updateChildren\<close> on a DOM of nodes with identities; the
    invariant of the loop splits the three lists into what is done on the left, what is left and
    what is done on the right.

  \<^bold>\<open>Errors, bounds and fuel.\<close> \<open>None\<close> stands for an exception of the source. Loops are recursive functions
  with termination proofs. Fuel is used where a loop depends on the document or on callbacks: \<open>skipLoop\<close>
  of \<open>Selections\<close> has the number of spans it may meet, \<open>lineIsHiddenInner\<close> the nesting of markers,
  \<open>readToken\<close> the ten tries of the source, \<open>patchVnode\<close> the depth of the new vnode (which the
  theorem on it shows to be enough), and the flush of the scheduler is stated for any fuel: it need not
  end, and theorems say when it does and when it does not. The optimizer has the number of elements and
  the code generation ten calls for each of them, which is shown to be enough; so is the number of objects for
  \<open>observe\<close>. The getters of watchers have bounds for the nesting of arrays and of computed properties. Loops over an arbitrary mode are
  \<open>partial_function (option)\<close>; for the modes at hand they are shown to return. Integers of the source
  are below the limit where doubles are exact and are unbounded here.

  \<^bold>\<open>Not modelled.\<close> Of CodeMirror: the display and input, options, key maps, linked documents and the
  markers they share, classes and widgets of lines, nested modes, saved states of
  a mode and their copies, the sharing of span arrays (they are values here). Of Vue: instances and their options, getters that throw or read what is not reactive (in the theorems on watchers),
  the warnings of the compiler and its check of the expressions, hydration, component vnodes and the browser
  modules; events and scoped slots with the name \<open>__proto__\<close>. The other scripts of the pages are plugins over the DOM or minified
  libraries, and the Java modules are examples of other libraries.
\<close>

end
